(* ===== verification/Prelude.thy ===== *)
theory Prelude
  imports Main "HOL-Library.Word"
begin

text \<open>
  Shared vocabulary of the development.

  \<^item> Fallible C code returns \<open>'e + 'a\<close>: \<open>Inl e\<close> stands for a call that does not come back
    (\<^verbatim>\<open>err_dump\<close>, \<^verbatim>\<open>err_quit\<close>, \<^verbatim>\<open>err_sys\<close>, \<^verbatim>\<open>exit\<close>), \<open>Inr\<close> for a normal return;
    \<open>bindR\<close> sequences such calls.
  \<^item> C strings are character lists; \<open>c_str\<close> reads a buffer up to its first null byte.
  \<^item> \<open>show_nat\<close>, \<open>show_int\<close> and \<open>pad\<close> are the conversions \<^verbatim>\<open>%d\<close>, \<^verbatim>\<open>%lld\<close> and \<^verbatim>\<open>%*lld\<close> of
    \<^verbatim>\<open>sprintf\<close>; \<open>atol\<close> is the library function of that name. Their round trip
    (\<open>atol_pad_show\<close>) is what the on-disk formats rest on.
  \<^item> \<open>overwrite\<close> is what \<^verbatim>\<open>write\<close> does to the bytes of a regular file.
\<close>

named_theorems cfile_simps \<open>facts about the bytes of a file after reads and writes\<close>

section \<open>Sequencing of fallible calls\<close>

definition bindR :: "'e + 'a \<Rightarrow> ('a \<Rightarrow> 'e + 'b) \<Rightarrow> 'e + 'b" where
  "bindR m f = (case m of Inl e \<Rightarrow> Inl e | Inr a \<Rightarrow> f a)"

lemma bindR_Inl [simp]: "bindR (Inl e) f = Inl e"
  by (simp add: bindR_def)

lemma bindR_Inr [simp]: "bindR (Inr a) f = f a"
  by (simp add: bindR_def)

lemma bindR_eq_Inr_iff: "bindR m f = Inr b \<longleftrightarrow> (\<exists>a. m = Inr a \<and> f a = Inr b)"
  by (simp add: bindR_def split: sum.splits)

lemma bindR_InrE:
  assumes "bindR m f = Inr b"
  obtains a where "m = Inr a" and "f a = Inr b"
  using assms by (auto simp: bindR_eq_Inr_iff)

lemma bindR_cong [fundef_cong]:
  assumes "m = m'" and "\<And>a. m' = Inr a \<Longrightarrow> f a = f' a"
  shows "bindR m f = bindR m' f'"
  using assms by (cases m') simp_all

lemma bindR_assoc: "bindR (bindR m f) g = bindR m (\<lambda>a. bindR (f a) g)"
  by (simp add: bindR_def split: sum.splits)

lemma length_concat_const: "(\<forall>x \<in> set xs. length (f x) = n) \<Longrightarrow> length (concat (map f xs)) = length xs * n"
  by (induction xs) auto

section \<open>C strings\<close>

abbreviation NUL :: char where "NUL \<equiv> CHR 0x00"
abbreviation SPACE :: char where "SPACE \<equiv> CHR 0x20"
abbreviation NEWLINE :: char where "NEWLINE \<equiv> CHR 0x0A"

definition c_str :: "string \<Rightarrow> string" where
  "c_str buf = takeWhile (\<lambda>c. c \<noteq> NUL) buf"

definition is_cstr :: "string \<Rightarrow> bool" where
  "is_cstr s \<longleftrightarrow> NUL \<notin> set s"

lemma c_str_id [simp]: "is_cstr s \<Longrightarrow> c_str s = s"
  by (simp add: c_str_def is_cstr_def takeWhile_eq_all_conv) metis

lemma c_str_append_NUL [simp]: "is_cstr s \<Longrightarrow> c_str (s @ NUL # t) = s"
  by (auto simp: c_str_def is_cstr_def takeWhile_append)

lemma is_cstr_append [simp]: "is_cstr (s @ t) \<longleftrightarrow> is_cstr s \<and> is_cstr t"
  by (auto simp: is_cstr_def)

lemma is_cstr_Cons [simp]: "is_cstr (c # t) \<longleftrightarrow> c \<noteq> NUL \<and> is_cstr t"
  by (auto simp: is_cstr_def)

lemma is_cstr_Nil [simp]: "is_cstr []"
  by (simp add: is_cstr_def)

lemma is_cstr_take: "is_cstr s \<Longrightarrow> is_cstr (take n s)"
  by (auto simp: is_cstr_def dest: in_set_takeD)

lemma is_cstr_replicate [simp]: "c \<noteq> NUL \<Longrightarrow> is_cstr (replicate n c)"
  by (simp add: is_cstr_def)

lemma is_cstr_c_str [simp]: "is_cstr (c_str s)"
  using set_takeWhileD by (fastforce simp: c_str_def is_cstr_def)

lemma c_str_replicate_NUL [simp]: "is_cstr s \<Longrightarrow> c_str (s @ replicate n NUL) = s"
  by (cases n) (simp_all del: replicate_Suc add: replicate_Suc c_str_append_NUL)

section \<open>Decimal numbers\<close>

definition digit :: "nat \<Rightarrow> char" where
  "digit d = char_of (48 + d)"

definition isdigit :: "char \<Rightarrow> bool" where
  "isdigit c \<longleftrightarrow> (48::nat) \<le> of_char c \<and> of_char c \<le> (57::nat)"

definition isspace :: "char \<Rightarrow> bool" where
  "isspace c \<longleftrightarrow> c = SPACE \<or> ((9::nat) \<le> of_char c \<and> of_char c \<le> (13::nat))"

definition digit_val :: "char \<Rightarrow> nat" where
  "digit_val c = of_char c - 48"

fun show_nat :: "nat \<Rightarrow> string" where
  "show_nat n = (if n < 10 then [digit n] else show_nat (n div 10) @ [digit (n mod 10)])"

declare show_nat.simps [simp del]

definition show_int :: "int \<Rightarrow> string" where
  "show_int i = (if i < 0 then CHR ''-'' # show_nat (nat (- i)) else show_nat (nat i))"

definition pad :: "nat \<Rightarrow> string \<Rightarrow> string" where
  "pad w s = replicate (w - length s) SPACE @ s"

primrec digits_val :: "nat \<Rightarrow> string \<Rightarrow> nat" where
  "digits_val a [] = a"
| "digits_val a (c # cs) = (if isdigit c then digits_val (10 * a + digit_val c) cs else a)"

definition atol :: "string \<Rightarrow> int" where
  "atol s = (case dropWhile isspace (c_str s) of
      [] \<Rightarrow> 0
    | c # cs \<Rightarrow> if c = CHR ''-'' then - int (digits_val 0 cs)
               else if c = CHR ''+'' then int (digits_val 0 cs)
               else int (digits_val 0 (c # cs)))"

text \<open>\<^verbatim>\<open>atoi\<close> cuts the \<^verbatim>\<open>long\<close> down to an \<^verbatim>\<open>int\<close>; the bytes of \<^verbatim>\<open>htons(n)\<close> in memory.\<close>

definition atoi :: "string \<Rightarrow> int" where
  "atoi s = sint (word_of_int (atol s) :: 32 word)"

definition be16 :: "nat \<Rightarrow> string" where
  "be16 n = [char_of (n div 256 mod 256), char_of (n mod 256)]"

lemma of_char_digit [simp]: "d < 10 \<Longrightarrow> of_char (digit d) = (48 + d :: nat)"
  by (simp add: digit_def)

lemma isdigit_digit [simp]: "d < 10 \<Longrightarrow> isdigit (digit d)"
  by (simp add: isdigit_def)

lemma digit_val_digit [simp]: "d < 10 \<Longrightarrow> digit_val (digit d) = d"
  by (simp add: digit_val_def)

lemma show_nat_digits: "c \<in> set (show_nat n) \<Longrightarrow> isdigit c"
  by (induction n rule: show_nat.induct) (subst (asm) (2) show_nat.simps, auto split: if_splits)

lemma show_nat_nonempty [simp]: "show_nat n \<noteq> []"
  by (subst show_nat.simps) simp

lemma digits_val_show_nat:
  "digits_val a (show_nat n @ t) = digits_val (a * 10 ^ length (show_nat n) + n) t"
proof (induction n arbitrary: a t rule: show_nat.induct)
  case (1 n)
  show ?case
  proof (cases "n < 10")
    case True
    then show ?thesis by (simp add: show_nat.simps [of n] mult.commute)
  next
    case False
    then have "digits_val a (show_nat n @ t)
        = digits_val (a * 10 ^ length (show_nat (n div 10)) + n div 10) (digit (n mod 10) # t)"
      using 1 [of a "digit (n mod 10) # t"] by (simp add: show_nat.simps [of n])
    also have "\<dots> = digits_val (a * 10 ^ length (show_nat n) + n) t"
      using False by (simp add: show_nat.simps [of n] algebra_simps)
    finally show ?thesis .
  qed
qed

lemma digits_val_show [simp]: "digits_val 0 (show_nat n) = n"
  using digits_val_show_nat [of 0 n "[]"] by simp

lemma length_show_nat_le: "0 < k \<Longrightarrow> n < 10 ^ k \<Longrightarrow> length (show_nat n) \<le> k"
proof (induction n arbitrary: k rule: show_nat.induct)
  case (1 n)
  show ?case
  proof (cases "n < 10")
    case True
    then show ?thesis using "1.prems" by (simp add: show_nat.simps [of n])
  next
    case False
    then obtain j where j: "k = Suc j" "0 < j"
      using "1.prems" by (cases k; cases "k - 1") auto
    then have "n div 10 < 10 ^ j" using "1.prems" by auto
    then have "length (show_nat (n div 10)) \<le> j"
      using "1.IH" [OF False] j by blast
    then show ?thesis using False j by (simp add: show_nat.simps [of n])
  qed
qed

lemma isdigit_not_isspace: "isdigit c \<Longrightarrow> \<not> isspace c"
  by (auto simp: isdigit_def isspace_def)

lemma isdigit_simps [simp]:
  "\<not> isdigit NUL" "\<not> isdigit SPACE" "\<not> isdigit NEWLINE" "\<not> isdigit CHR '':''"
  "\<not> isdigit CHR ''-''" "\<not> isdigit CHR ''+''"
  by (simp_all add: isdigit_def)

lemma isspace_SPACE [simp]: "isspace SPACE"
  by (simp add: isspace_def)

lemma is_cstr_show_nat [simp]: "is_cstr (show_nat n)"
  by (auto simp: is_cstr_def dest: show_nat_digits)

lemma show_nat_no_sep [simp]: "CHR '':'' \<notin> set (show_nat n)" "NEWLINE \<notin> set (show_nat n)"
  by (auto dest: show_nat_digits)

lemma length_pad [simp]: "length s \<le> w \<Longrightarrow> length (pad w s) = w"
  by (simp add: pad_def)

lemma is_cstr_pad [simp]: "is_cstr (pad w s) \<longleftrightarrow> is_cstr s"
  by (auto simp: pad_def)

text \<open>
  Reading back a padded decimal number, followed by anything that starts with a non-digit.
\<close>

lemma atol_pad_show [simp]: "atol (pad w (show_nat n)) = int n"
proof -
  obtain c cs where s: "show_nat n = c # cs" by (cases "show_nat n") auto
  then have d: "isdigit c" using show_nat_digits [of c n] by simp
  have "dropWhile isspace (pad w (show_nat n)) = show_nat n"
    using d isdigit_not_isspace [OF d]
    by (simp add: pad_def s dropWhile_append3)
  moreover have "digits_val 0 (c # cs) = n" using digits_val_show [of n] s by simp
  ultimately show ?thesis
    using d s is_cstr_show_nat [of n] by (auto simp: atol_def)
qed

lemma atol_show [simp]: "atol (show_nat n) = int n"
  using atol_pad_show [of 0 n] by (simp add: pad_def)

lemma atol_show_int [simp]: "atol (show_int i) = i"
proof (cases "i < 0")
  case True
  have "\<not> isspace CHR ''-''" by (simp add: isspace_def)
  then show ?thesis using True by (simp add: show_int_def atol_def)
next
  case False
  then show ?thesis by (simp add: show_int_def)
qed

lemma show_int_inject [simp]: "show_int i = show_int j \<longleftrightarrow> i = j"
  by (metis atol_show_int)

lemma is_cstr_show_int [simp]: "is_cstr (show_int i)"
  by (simp add: show_int_def)

lemma atoi_show_int: "- (2 ^ 31) \<le> i \<Longrightarrow> i < 2 ^ 31 \<Longrightarrow> atoi (show_int i) = i"
  by (simp add: atoi_def sint_sbintrunc' signed_take_bit_int_eq_self)

section \<open>Bytes of a file\<close>

definition overwrite :: "nat \<Rightarrow> string \<Rightarrow> string \<Rightarrow> string" where
  "overwrite off s f =
     take off f @ replicate (off - length f) NUL @ s @ drop (off + length s) f"

lemma overwrite_inside [cfile_simps]:
  assumes "length s = length t"
  shows "overwrite (length u) s (u @ t @ v) = u @ s @ v"
  using assms by (simp add: overwrite_def)

lemma overwrite_end [cfile_simps]: "overwrite (length f) s f = f @ s"
  by (simp add: overwrite_def)

lemma length_overwrite: "length (overwrite off s f) = max (length f) (off + length s)"
  by (auto simp: overwrite_def)

end
