(* ===== verification/Unix_File.thy ===== *)
theory Unix_File
  imports Prelude
begin

text \<open>
  The part of the POSIX file interface the programs use: an open regular file with its bytes,
  its current offset and the record locks of the calling process, and the calls \<^verbatim>\<open>lseek\<close>,
  \<^verbatim>\<open>read\<close>, \<^verbatim>\<open>write\<close> and \<^verbatim>\<open>fcntl\<close>. A read stops at the end of the file and so may be short; a
  write to a regular file transfers all its bytes. \<open>lock_reg\<close> and \<open>lock_test\<close> are the wrappers
  of \<^verbatim>\<open>lib/lockreg.c\<close> and \<^verbatim>\<open>lib/locktest.c\<close>.

  A byte of the file carries at most one lock of this process (\<open>locks\<close>); the regions the other
  processes hold are \<open>others\<close>. \<^verbatim>\<open>F_SETLK\<close> fails on a conflict; \<^verbatim>\<open>F_SETLKW\<close> waits, so its model is
  the state after the lock was granted.
\<close>

datatype whence = SEEK_SET | SEEK_CUR | SEEK_END

datatype ltype = F_RDLCK | F_WRLCK | F_UNLCK

datatype fcmd = F_SETLK | F_SETLKW | F_GETLK

record ofile =
  fname :: string
  content :: string
  fpos :: nat
  locks :: "nat \<Rightarrow> ltype option"
  others :: "(int \<times> int \<times> ltype \<times> int) list"

definition fsize :: "ofile \<Rightarrow> nat" where
  "fsize f = length (content f)"

fun whence_base :: "ofile \<Rightarrow> whence \<Rightarrow> int" where
  "whence_base f SEEK_SET = 0"
| "whence_base f SEEK_CUR = int (fpos f)"
| "whence_base f SEEK_END = int (fsize f)"

text \<open>\<^verbatim>\<open>lseek\<close>: \<open>None\<close> is the return value -1 (a negative resulting offset).\<close>

definition lseek :: "ofile \<Rightarrow> int \<Rightarrow> whence \<Rightarrow> (ofile \<times> int) option" where
  "lseek f off w =
     (let p = whence_base f w + off in if p < 0 then None else Some (f\<lparr>fpos := nat p\<rparr>, p))"

definition fread :: "ofile \<Rightarrow> nat \<Rightarrow> ofile \<times> string" where
  "fread f n =
     (let s = take n (drop (fpos f) (content f)) in (f\<lparr>fpos := fpos f + length s\<rparr>, s))"

definition fwrite :: "ofile \<Rightarrow> string \<Rightarrow> ofile" where
  "fwrite f s = f\<lparr>content := overwrite (fpos f) s (content f), fpos := fpos f + length s\<rparr>"

text \<open>
  \<^verbatim>\<open>open\<close> and \<^verbatim>\<open>close\<close> against a file system that maps path names to contents. An open file holds
  the live contents; closing it puts them back under its name.
\<close>

type_synonym filesystem = "string \<rightharpoonup> string"

record oflags =
  o_creat :: bool
  o_trunc :: bool
  o_excl :: bool

definition open_file :: "filesystem \<Rightarrow> string \<Rightarrow> oflags \<Rightarrow> (filesystem \<times> ofile) option" where
  "open_file fs name fl = (case fs name of
      None \<Rightarrow> if o_creat fl
              then Some (fs(name \<mapsto> []),
                \<lparr>fname = name, content = [], fpos = 0, locks = (\<lambda>_. None), others = []\<rparr>)
              else None
    | Some s \<Rightarrow> if o_creat fl \<and> o_excl fl then None
               else let s' = (if o_trunc fl then [] else s) in
                 Some (fs(name \<mapsto> s'),
                   \<lparr>fname = name, content = s', fpos = 0, locks = (\<lambda>_. None), others = []\<rparr>))"

definition close_file :: "filesystem \<Rightarrow> ofile \<Rightarrow> filesystem" where
  "close_file fs f = fs(fname f \<mapsto> content f)"

section \<open>Record locks\<close>

record flock =
  l_type :: ltype
  l_start :: int
  l_whence :: whence
  l_len :: int

definition in_region :: "int \<Rightarrow> int \<Rightarrow> nat \<Rightarrow> bool" where
  "in_region start len b \<longleftrightarrow> start \<le> int b \<and> (len = 0 \<or> int b < start + len)"

definition set_region :: "int \<Rightarrow> int \<Rightarrow> ltype option \<Rightarrow> (nat \<Rightarrow> ltype option) \<Rightarrow> nat \<Rightarrow> ltype option" where
  "set_region start len t k = (\<lambda>b. if in_region start len b then t else k b)"

text \<open>
  The other processes' locks are a list of regions with mode and owner. A read lock conflicts
  only with a write lock, a write lock with either, an unlock with nothing.
\<close>

definition overlaps :: "int \<Rightarrow> int \<Rightarrow> int \<Rightarrow> int \<Rightarrow> bool" where
  "overlaps s l s' l' \<longleftrightarrow> (l = 0 \<or> s' < s + l) \<and> (l' = 0 \<or> s < s' + l')"

fun conflicts :: "ltype \<Rightarrow> int \<Rightarrow> int \<Rightarrow> int \<times> int \<times> ltype \<times> int \<Rightarrow> bool" where
  "conflicts t s l (s', l', u, pid) \<longleftrightarrow>
     overlaps s l s' l' \<and> (t = F_WRLCK \<or> (t = F_RDLCK \<and> u = F_WRLCK))"

definition first_conflict :: "ofile \<Rightarrow> ltype \<Rightarrow> int \<Rightarrow> int \<Rightarrow> (int \<times> int \<times> ltype \<times> int) option" where
  "first_conflict f t start len = List.find (conflicts t start len) (others f)"

text \<open>
  \<^verbatim>\<open>fcntl\<close> on the lock commands: the return value and, for \<^verbatim>\<open>F_GETLK\<close>, the owner found.
\<close>

definition fcntl :: "ofile \<Rightarrow> fcmd \<Rightarrow> flock \<Rightarrow> ofile \<times> flock \<times> int \<times> int" where
  "fcntl f cmd lk =
     (let start = whence_base f (l_whence lk) + l_start lk; len = l_len lk; t = l_type lk in
      if start < 0 then (f, lk, 0, -1)
      else case cmd of
        F_GETLK \<Rightarrow> (case first_conflict f t start len of
            None \<Rightarrow> (f, lk\<lparr>l_type := F_UNLCK\<rparr>, 0, 0)
          | Some (s, l, u, pid) \<Rightarrow> (f, lk\<lparr>l_type := u\<rparr>, pid, 0))
      | _ \<Rightarrow>
        if cmd = F_SETLK \<and> first_conflict f t start len \<noteq> None then (f, lk, 0, -1)
        else (f\<lparr>locks := set_region start len (if t = F_UNLCK then None else Some t) (locks f)\<rparr>,
              lk, 0, 0))"

definition lock_reg :: "ofile \<Rightarrow> fcmd \<Rightarrow> ltype \<Rightarrow> int \<Rightarrow> whence \<Rightarrow> int \<Rightarrow> ofile \<times> int" where
  "lock_reg fd cmd type offset whence len =
     (case fcntl fd cmd \<lparr>l_type = type, l_start = offset, l_whence = whence, l_len = len\<rparr> of
        (f, lk, pid, rc) \<Rightarrow> (f, rc))"

abbreviation "readw_lock fd off w len \<equiv> lock_reg fd F_SETLKW F_RDLCK off w len"
abbreviation "write_lock fd off w len \<equiv> lock_reg fd F_SETLK F_WRLCK off w len"
abbreviation "writew_lock fd off w len \<equiv> lock_reg fd F_SETLKW F_WRLCK off w len"
abbreviation "un_lock fd off w len \<equiv> lock_reg fd F_SETLK F_UNLCK off w len"

text \<open>\<open>Inl\<close> is the \<^verbatim>\<open>err_sys\<close> of a failing \<^verbatim>\<open>fcntl\<close>; 0 means that nobody holds the region.\<close>

definition lock_test :: "ofile \<Rightarrow> ltype \<Rightarrow> int \<Rightarrow> whence \<Rightarrow> int \<Rightarrow> string + int" where
  "lock_test fd type offset whence len =
     (case fcntl fd F_GETLK \<lparr>l_type = type, l_start = offset, l_whence = whence, l_len = len\<rparr> of
        (f, lk, pid, rc) \<Rightarrow>
          if rc < 0 then Inl ''fcntl error''
          else if l_type lk = F_UNLCK then Inr 0 else Inr pid)"

section \<open>Facts\<close>

lemma lseek_set [simp]: "0 \<le> off \<Longrightarrow> lseek f off SEEK_SET = Some (f\<lparr>fpos := nat off\<rparr>, off)"
  by (simp add: lseek_def)

lemma lseek_cur0 [simp]: "lseek f 0 SEEK_CUR = Some (f, int (fpos f))"
  by (simp add: lseek_def)

lemma lseek_end0 [simp]: "lseek f 0 SEEK_END = Some (f\<lparr>fpos := fsize f\<rparr>, int (fsize f))"
  by (simp add: lseek_def)

lemma fread_eq:
  "take n (drop (fpos f) (content f)) = s \<Longrightarrow> fread f n = (f\<lparr>fpos := fpos f + length s\<rparr>, s)"
  by (auto simp: fread_def Let_def)

lemma first_conflict_unlock [simp]: "first_conflict f F_UNLCK start len = None"
  by (auto simp: first_conflict_def find_None_iff)

lemma waiting_lock [simp]:
  "0 \<le> off \<Longrightarrow> lock_reg fd F_SETLKW t off SEEK_SET len =
     (fd\<lparr>locks := set_region off len (if t = F_UNLCK then None else Some t) (locks fd)\<rparr>, 0)"
  by (simp add: lock_reg_def fcntl_def)

lemma un_lock [simp]:
  "0 \<le> off \<Longrightarrow> un_lock fd off SEEK_SET len =
     (fd\<lparr>locks := set_region off len None (locks fd)\<rparr>, 0)"
  by (simp add: lock_reg_def fcntl_def)

lemma set_region_same [simp]: "set_region s l t (set_region s l u k) = set_region s l t k"
  by (auto simp: set_region_def)

lemma set_region_None_id:
  "(\<And>b. in_region s l b \<Longrightarrow> k b = None) \<Longrightarrow> set_region s l None k = k"
  by (auto simp: set_region_def)

lemma set_region_none [simp]: "set_region s l None (\<lambda>_. None) = (\<lambda>_. None)"
  by (auto simp: set_region_def)

text \<open>What \<open>lock_test\<close> reports is the owner of a conflicting lock in the region.\<close>

lemma lock_test_owner:
  assumes "lock_test fd t off SEEK_SET len = Inr pid" and "pid \<noteq> 0"
  shows "\<exists>s l u. (s, l, u, pid) \<in> set (others fd) \<and> conflicts t off len (s, l, u, pid)"
proof -
  obtain s l u p where c: "first_conflict fd t off len = Some (s, l, u, p)"
    using assms
    by (cases "first_conflict fd t off len") (auto simp: lock_test_def fcntl_def split: if_splits)
  then have "(s, l, u, p) \<in> set (others fd)" "conflicts t off len (s, l, u, p)"
    unfolding first_conflict_def find_Some_iff by (metis nth_mem)+
  moreover from assms c have "p = pid"
    by (auto simp: lock_test_def fcntl_def split: if_splits)
  ultimately show ?thesis by blast
qed

end
