(* ===== verification/Db.thy ===== *)
theory Db
  imports Unix_File
begin

text \<open>
  The multiuser database library of \<^verbatim>\<open>apue.3e/db/db.c\<close>, function by function, on the bytes of
  its two files. The index file holds a free-list pointer, \<^verbatim>\<open>NHASH_DEF\<close> hash-chain pointers, a
  newline, and index records (chain pointer, record length, key, data offset, data length) in
  ASCII; the data file holds newline-terminated data records.

  The record \<open>DB\<close> has the fields of the C struct; \<open>idxfd\<close> and \<open>datfd\<close> hold the open files
  themselves, \<open>idxbuf\<close> and \<open>datbuf\<close> the C strings at the start of the two buffers. A call that
  does not return is an error value: \<open>Dump\<close> for \<^verbatim>\<open>err_dump\<close>, \<open>Quit\<close> for \<^verbatim>\<open>err_quit\<close>, \<open>Undefined\<close> for
  a write past the end of \<^verbatim>\<open>idxbuf\<close>, and \<open>Diverges\<close> for a chain walk that runs for ever.
\<close>

unbundle bit_operations_syntax

definition IDXLEN_SZ :: nat where "IDXLEN_SZ = 4"
definition PTR_SZ :: nat where "PTR_SZ = 7"
definition PTR_MAX :: int where "PTR_MAX = 9999999"
definition NHASH_DEF :: nat where "NHASH_DEF = 137"
definition FREE_OFF :: int where "FREE_OFF = 0"
definition HASH_OFF :: int where "HASH_OFF = 7"
definition IDXLEN_MIN :: nat where "IDXLEN_MIN = 6"
definition IDXLEN_MAX :: nat where "IDXLEN_MAX = 1024"
definition DATLEN_MIN :: nat where "DATLEN_MIN = 2"
definition DATLEN_MAX :: nat where "DATLEN_MAX = 1024"

abbreviation SEP :: char where "SEP \<equiv> CHR '':''"

lemmas db_consts = IDXLEN_SZ_def PTR_SZ_def PTR_MAX_def NHASH_DEF_def FREE_OFF_def HASH_OFF_def
  IDXLEN_MIN_def IDXLEN_MAX_def DATLEN_MIN_def DATLEN_MAX_def

datatype db_err = Dump string | Quit string | Undefined string | Diverges string

datatype store_flag = DB_INSERT | DB_REPLACE | DB_STORE | Other_flag

record DB =
  idxfd :: ofile
  datfd :: ofile
  idxbuf :: string
  datbuf :: string
  dbname :: string
  idxoff :: int
  idxlen :: nat
  datoff :: int
  datlen :: nat
  ptrval :: int
  ptroff :: int
  chainoff :: int
  hashoff :: int
  nhash :: "64 word"
  cnt_delok :: "64 word"
  cnt_delerr :: "64 word"
  cnt_fetchok :: "64 word"
  cnt_fetcherr :: "64 word"
  cnt_nextrec :: "64 word"
  cnt_stor1 :: "64 word"
  cnt_stor2 :: "64 word"
  cnt_stor3 :: "64 word"
  cnt_stor4 :: "64 word"
  cnt_storerr :: "64 word"

section \<open>System calls with their error branches\<close>

definition locked :: "ofile \<times> int \<Rightarrow> string \<Rightarrow> db_err + ofile" where
  "locked r msg = (if snd r < 0 then Inl (Dump msg) else Inr (fst r))"

definition seeked :: "(ofile \<times> int) option \<Rightarrow> string \<Rightarrow> db_err + (ofile \<times> int)" where
  "seeked r msg = (case r of None \<Rightarrow> Inl (Dump msg) | Some p \<Rightarrow> Inr p)"

section \<open>Hashing\<close>

text \<open>\<^verbatim>\<open>char\<close> is signed on the platforms the library is built for.\<close>

definition schar :: "char \<Rightarrow> int" where
  "schar c = (if (128::int) \<le> of_char c then of_char c - 256 else of_char c)"

primrec hash_loop :: "64 word \<Rightarrow> int \<Rightarrow> string \<Rightarrow> 64 word" where
  "hash_loop hval i [] = hval"
| "hash_loop hval i (c # cs) = hash_loop (hval + word_of_int (schar c * i)) (i + 1) cs"

definition db_hash :: "DB \<Rightarrow> string \<Rightarrow> 64 word" where
  "db_hash db key = hash_loop 0 1 key mod nhash db"

section \<open>Reading\<close>

definition db_readptr :: "DB \<Rightarrow> int \<Rightarrow> db_err + (DB \<times> int)" where
  "db_readptr db offset =
     bindR (seeked (lseek (idxfd db) offset SEEK_SET) ''_db_readptr: lseek error to ptr field'')
       (\<lambda>(f, _). case fread f PTR_SZ of (f, asciiptr) \<Rightarrow>
          if length asciiptr \<noteq> PTR_SZ then Inl (Dump ''_db_readptr: read error of ptr field'')
          else Inr (db\<lparr>idxfd := f\<rparr>, atol asciiptr))"

text \<open>
  \<^verbatim>\<open>strchr(s, SEP)\<close> on a C string: the parts before and after the first separator.
\<close>

definition split_sep :: "string \<Rightarrow> (string \<times> string) option" where
  "split_sep s = (if SEP \<in> set s
      then Some (takeWhile (\<lambda>c. c \<noteq> SEP) s, tl (dropWhile (\<lambda>c. c \<noteq> SEP) s)) else None)"

text \<open>The part of \<^verbatim>\<open>_db_readidx\<close> that parses the record body in \<^verbatim>\<open>idxbuf\<close>.\<close>

definition db_parseidx :: "DB \<Rightarrow> string \<Rightarrow> db_err + (DB \<times> int)" where
  "db_parseidx db s =
    (if last s \<noteq> NEWLINE then Inl (Dump ''_db_readidx: missing newline'')
     else case split_sep (c_str (butlast s)) of
       None \<Rightarrow> Inl (Dump ''_db_readidx: missing first separator'')
     | Some (key, ptr1) \<Rightarrow> (case split_sep ptr1 of
         None \<Rightarrow> Inl (Dump ''_db_readidx: missing second separator'')
       | Some (off, ptr2) \<Rightarrow>
           if SEP \<in> set ptr2 then Inl (Dump ''_db_readidx: too many separators'')
           else if atol off < 0 then Inl (Dump ''_db_readidx: starting offset < 0'')
           else if atol ptr2 \<le> 0 \<or> atol ptr2 > int DATLEN_MAX
             then Inl (Dump ''_db_readidx: invalid length'')
           else Inr (db\<lparr>idxbuf := key, datoff := atol off, datlen := nat (atol ptr2)\<rparr>,
                     ptrval db)))"

definition db_readidx :: "DB \<Rightarrow> int \<Rightarrow> db_err + (DB \<times> int)" where
  "db_readidx db offset =
     bindR (seeked (lseek (idxfd db) offset (if offset = 0 then SEEK_CUR else SEEK_SET))
              ''_db_readidx: lseek error'')
       (\<lambda>(f, off). case fread f (PTR_SZ + IDXLEN_SZ) of (f, hdr) \<Rightarrow>
          let db = db\<lparr>idxfd := f, idxoff := off\<rparr> in
          if length hdr \<noteq> PTR_SZ + IDXLEN_SZ then
            (if length hdr = 0 \<and> offset = 0 then Inr (db, -1)
             else Inl (Dump ''_db_readidx: readv error of index record''))
          else
            let p = atol (take PTR_SZ hdr); n = atol (drop PTR_SZ hdr) in
            if n < int IDXLEN_MIN \<or> n > int IDXLEN_MAX
            then Inl (Dump ''_db_readidx: invalid length'')
            else case fread f (nat n) of (f, s) \<Rightarrow>
              if length s \<noteq> nat n then Inl (Dump ''_db_readidx: read error of index record'')
              else db_parseidx (db\<lparr>idxfd := f, ptrval := p, idxlen := nat n\<rparr>) s)"

definition db_readdat :: "DB \<Rightarrow> db_err + (DB \<times> string)" where
  "db_readdat db =
     bindR (seeked (lseek (datfd db) (datoff db) SEEK_SET) ''_db_readdat: lseek error'')
       (\<lambda>(f, _). case fread f (datlen db) of (f, s) \<Rightarrow>
          if length s \<noteq> datlen db then Inl (Dump ''_db_readdat: read error'')
          else if last s \<noteq> NEWLINE then Inl (Dump ''_db_readdat: missing newline'')
          else Inr (db\<lparr>datfd := f, datbuf := c_str (butlast s)\<rparr>, c_str (butlast s)))"

section \<open>Writing\<close>

definition db_writedat :: "DB \<Rightarrow> string \<Rightarrow> int \<Rightarrow> whence \<Rightarrow> db_err + DB" where
  "db_writedat db data offset w =
     bindR (if w = SEEK_END
            then locked (writew_lock (datfd db) 0 SEEK_SET 0) ''_db_writedat: writew_lock error''
            else Inr (datfd db))
       (\<lambda>f. bindR (seeked (lseek f offset w) ''_db_writedat: lseek error'')
          (\<lambda>(f, off). let f = fwrite f (data @ [NEWLINE]) in
             bindR (if w = SEEK_END
                    then locked (un_lock f 0 SEEK_SET 0) ''_db_writedat: un_lock error''
                    else Inr f)
               (\<lambda>f. Inr (db\<lparr>datfd := f, datoff := off, datlen := length data + 1\<rparr>))))"

text \<open>The body \<^verbatim>\<open>sprintf\<close> puts into \<^verbatim>\<open>idxbuf\<close>, which has room for \<^verbatim>\<open>IDXLEN_MAX + 2\<close> bytes.\<close>

definition idx_body :: "string \<Rightarrow> int \<Rightarrow> nat \<Rightarrow> string" where
  "idx_body key off len = key @ [SEP] @ show_int off @ [SEP] @ show_nat len @ [NEWLINE]"

definition db_writeidx :: "DB \<Rightarrow> string \<Rightarrow> int \<Rightarrow> whence \<Rightarrow> int \<Rightarrow> db_err + DB" where
  "db_writeidx db key offset w p =
    (if p < 0 \<or> p > PTR_MAX then Inl (Quit ''_db_writeidx: invalid ptr'')
     else let body = idx_body key (datoff db) (datlen db); len = length body in
     if len + 1 > IDXLEN_MAX + 2 then Inl (Undefined ''_db_writeidx: sprintf past idxbuf'')
     else if len < IDXLEN_MIN \<or> len > IDXLEN_MAX
       then Inl (Dump ''_db_writeidx: invalid length'')
     else let reg = int ((unat (nhash db) + 1) * PTR_SZ + 1) in
       bindR (if w = SEEK_END
              then locked (writew_lock (idxfd db) reg SEEK_SET 0) ''_db_writeidx: writew_lock error''
              else Inr (idxfd db))
         (\<lambda>f. bindR (seeked (lseek f offset w) ''_db_writeidx: lseek error'')
            (\<lambda>(f, off).
               let f = fwrite f (pad PTR_SZ (show_int p) @ pad IDXLEN_SZ (show_nat len) @ body) in
               bindR (if w = SEEK_END
                      then locked (un_lock f reg SEEK_SET 0) ''_db_writeidx: un_lock error''
                      else Inr f)
                 (\<lambda>f. Inr (db\<lparr>idxfd := f, idxoff := off, ptrval := p, idxbuf := body\<rparr>)))))"

definition db_writeptr :: "DB \<Rightarrow> int \<Rightarrow> int \<Rightarrow> db_err + DB" where
  "db_writeptr db offset p =
    (if p < 0 \<or> p > PTR_MAX then Inl (Quit ''_db_writeptr: invalid ptr'')
     else bindR (seeked (lseek (idxfd db) offset SEEK_SET) ''_db_writeptr: lseek error to ptr field'')
       (\<lambda>(f, _). Inr (db\<lparr>idxfd := fwrite f (pad PTR_SZ (show_int p))\<rparr>)))"

section \<open>Finding a record\<close>

text \<open>
  The chain walk of \<^verbatim>\<open>_db_find_and_lock\<close>. The fuel bounds the number of records visited; every
  visited offset lies inside the index file, so a walk longer than the file has come back to a
  record it already saw and never ends.
\<close>

fun db_find_loop :: "nat \<Rightarrow> DB \<Rightarrow> int \<Rightarrow> string \<Rightarrow> db_err + (DB \<times> int)" where
  "db_find_loop 0 db offset key = Inl (Diverges ''_db_find_and_lock'')"
| "db_find_loop (Suc n) db offset key =
    (if offset = 0 then Inr (db, 0)
     else bindR (db_readidx db offset)
       (\<lambda>(db, nextoffset).
          if idxbuf db = key then Inr (db, offset)
          else db_find_loop n (db\<lparr>ptroff := offset\<rparr>) nextoffset key))"

definition db_find_and_lock :: "DB \<Rightarrow> string \<Rightarrow> bool \<Rightarrow> db_err + (DB \<times> int)" where
  "db_find_and_lock db key writelock =
    (let co = int (unat (db_hash db key)) * int PTR_SZ + hashoff db;
         db = db\<lparr>chainoff := co, ptroff := co\<rparr> in
     bindR (if writelock
            then locked (writew_lock (idxfd db) co SEEK_SET 1) ''_db_find_and_lock: writew_lock error''
            else locked (readw_lock (idxfd db) co SEEK_SET 1) ''_db_find_and_lock: readw_lock error'')
       (\<lambda>f. bindR (db_readptr (db\<lparr>idxfd := f\<rparr>) co)
          (\<lambda>(db, offset). bindR (db_find_loop (fsize (idxfd db) + 2) db offset key)
             (\<lambda>(db, offset). Inr (db, if offset = 0 then -1 else 0)))))"

definition unlock_chain :: "DB \<Rightarrow> string \<Rightarrow> db_err + DB" where
  "unlock_chain db msg =
     bindR (locked (un_lock (idxfd db) (chainoff db) SEEK_SET 1) msg) (\<lambda>f. Inr (db\<lparr>idxfd := f\<rparr>))"

section \<open>Operations on records\<close>

definition db_fetch :: "DB \<Rightarrow> string \<Rightarrow> db_err + (DB \<times> string option)" where
  "db_fetch db key =
     bindR (db_find_and_lock db key False)
       (\<lambda>(db, rc).
          bindR (if rc < 0 then Inr (db\<lparr>cnt_fetcherr := cnt_fetcherr db + 1\<rparr>, None)
                 else bindR (db_readdat db)
                   (\<lambda>(db, s). Inr (db\<lparr>cnt_fetchok := cnt_fetchok db + 1\<rparr>, Some s)))
            (\<lambda>(db, r). bindR (unlock_chain db ''db_fetch: un_lock error'') (\<lambda>db. Inr (db, r))))"

definition db_dodelete :: "DB \<Rightarrow> db_err + DB" where
  "db_dodelete db =
    (let db = db\<lparr>datbuf := replicate (datlen db - 1) SPACE,
                 idxbuf := replicate (length (idxbuf db)) SPACE\<rparr> in
     bindR (locked (writew_lock (idxfd db) FREE_OFF SEEK_SET 1) ''_db_dodelete: writew_lock error'')
       (\<lambda>f. bindR (db_writedat (db\<lparr>idxfd := f\<rparr>) (datbuf db) (datoff db) SEEK_SET)
         (\<lambda>db. bindR (db_readptr db FREE_OFF)
           (\<lambda>(db, freeptr). let saveptr = ptrval db in
             bindR (db_writeidx db (idxbuf db) (idxoff db) SEEK_SET freeptr)
               (\<lambda>db. bindR (db_writeptr db FREE_OFF (idxoff db))
                 (\<lambda>db. bindR (db_writeptr db (ptroff db) saveptr)
                   (\<lambda>db. bindR (locked (un_lock (idxfd db) FREE_OFF SEEK_SET 1)
                                  ''_db_dodelete: un_lock error'')
                     (\<lambda>f. Inr (db\<lparr>idxfd := f\<rparr>)))))))))"

definition db_delete :: "DB \<Rightarrow> string \<Rightarrow> db_err + (DB \<times> int)" where
  "db_delete db key =
     bindR (db_find_and_lock db key True)
       (\<lambda>(db, rc).
          bindR (if rc = 0
                 then bindR (db_dodelete db) (\<lambda>db. Inr (db\<lparr>cnt_delok := cnt_delok db + 1\<rparr>, 0))
                 else Inr (db\<lparr>cnt_delerr := cnt_delerr db + 1\<rparr>, -1))
            (\<lambda>(db, rc). bindR (unlock_chain db ''db_delete: un_lock error'') (\<lambda>db. Inr (db, rc))))"

text \<open>The search of \<^verbatim>\<open>_db_findfree\<close> along the free list.\<close>

fun db_findfree_loop :: "nat \<Rightarrow> DB \<Rightarrow> int \<Rightarrow> int \<Rightarrow> nat \<Rightarrow> nat \<Rightarrow> db_err + (DB \<times> int \<times> int)" where
  "db_findfree_loop 0 db saveoffset offset keylen dlen = Inl (Diverges ''_db_findfree'')"
| "db_findfree_loop (Suc n) db saveoffset offset keylen dlen =
    (if offset = 0 then Inr (db, saveoffset, 0)
     else bindR (db_readidx db offset)
       (\<lambda>(db, nextoffset).
          if length (idxbuf db) = keylen \<and> datlen db = dlen then Inr (db, saveoffset, offset)
          else db_findfree_loop n db offset nextoffset keylen dlen))"

definition db_findfree :: "DB \<Rightarrow> nat \<Rightarrow> nat \<Rightarrow> db_err + (DB \<times> int)" where
  "db_findfree db keylen dlen =
     bindR (locked (writew_lock (idxfd db) FREE_OFF SEEK_SET 1) ''_db_findfree: writew_lock error'')
       (\<lambda>f. bindR (db_readptr (db\<lparr>idxfd := f\<rparr>) FREE_OFF)
         (\<lambda>(db, offset).
            bindR (db_findfree_loop (fsize (idxfd db) + 2) db FREE_OFF offset keylen dlen)
              (\<lambda>(db, saveoffset, offset).
                 bindR (if offset = 0 then Inr (db, -1)
                        else bindR (db_writeptr db saveoffset (ptrval db)) (\<lambda>db. Inr (db, 0)))
                   (\<lambda>(db, rc). bindR (locked (un_lock (idxfd db) FREE_OFF SEEK_SET 1)
                                        ''_db_findfree: un_lock error'')
                      (\<lambda>f. Inr (db\<lparr>idxfd := f\<rparr>, rc))))))"

text \<open>
  \<open>db_store\<close> returns 0, 1 (record exists and \<^verbatim>\<open>DB_INSERT\<close>) or -1. The three ways the body of
  the C function writes a record are \<open>store_append\<close>, \<open>store_reuse\<close> and the overwrite in place.
\<close>

definition store_append :: "DB \<Rightarrow> string \<Rightarrow> string \<Rightarrow> int \<Rightarrow> db_err + DB" where
  "store_append db key data p =
     bindR (db_writedat db data 0 SEEK_END)
       (\<lambda>db. bindR (db_writeidx db key 0 SEEK_END p)
         (\<lambda>db. db_writeptr db (chainoff db) (idxoff db)))"

definition store_reuse :: "DB \<Rightarrow> string \<Rightarrow> string \<Rightarrow> int \<Rightarrow> db_err + DB" where
  "store_reuse db key data p =
     bindR (db_writedat db data (datoff db) SEEK_SET)
       (\<lambda>db. bindR (db_writeidx db key (idxoff db) SEEK_SET p)
         (\<lambda>db. db_writeptr db (chainoff db) (idxoff db)))"

definition store_new :: "DB \<Rightarrow> string \<Rightarrow> string \<Rightarrow> db_err + DB" where
  "store_new db key data =
     bindR (db_readptr db (chainoff db))
       (\<lambda>(db, p). bindR (db_findfree db (length key) (length data + 1))
         (\<lambda>(db, rc).
            if rc < 0
            then bindR (store_append db key data p) (\<lambda>db. Inr (db\<lparr>cnt_stor1 := cnt_stor1 db + 1\<rparr>))
            else bindR (store_reuse db key data p) (\<lambda>db. Inr (db\<lparr>cnt_stor2 := cnt_stor2 db + 1\<rparr>))))"

definition store_existing :: "DB \<Rightarrow> string \<Rightarrow> string \<Rightarrow> db_err + DB" where
  "store_existing db key data =
    (if length data + 1 \<noteq> datlen db
     then bindR (db_dodelete db)
       (\<lambda>db. bindR (db_readptr db (chainoff db))
         (\<lambda>(db, p). bindR (store_append db key data p)
           (\<lambda>db. Inr (db\<lparr>cnt_stor3 := cnt_stor3 db + 1\<rparr>))))
     else bindR (db_writedat db data (datoff db) SEEK_SET)
       (\<lambda>db. Inr (db\<lparr>cnt_stor4 := cnt_stor4 db + 1\<rparr>)))"

definition db_store :: "DB \<Rightarrow> string \<Rightarrow> string \<Rightarrow> store_flag \<Rightarrow> db_err + (DB \<times> int)" where
  "db_store db key data flag =
    (if flag = Other_flag then Inr (db, -1)
     else if length data + 1 < DATLEN_MIN \<or> length data + 1 > DATLEN_MAX
       then Inl (Dump ''db_store: invalid data length'')
     else bindR (db_find_and_lock db key True)
       (\<lambda>(db, rc).
          bindR (if rc < 0
                 then (if flag = DB_REPLACE then Inr (db\<lparr>cnt_storerr := cnt_storerr db + 1\<rparr>, -1)
                       else bindR (store_new db key data) (\<lambda>db. Inr (db, 0)))
                 else (if flag = DB_INSERT then Inr (db\<lparr>cnt_storerr := cnt_storerr db + 1\<rparr>, 1)
                       else bindR (store_existing db key data) (\<lambda>db. Inr (db, 0))))
            (\<lambda>(db, rc). bindR (unlock_chain db ''db_store: un_lock error'') (\<lambda>db. Inr (db, rc)))))"

section \<open>Sequential access\<close>

definition db_rewind :: "DB \<Rightarrow> db_err + DB" where
  "db_rewind db =
     bindR (seeked (lseek (idxfd db) (int ((unat (nhash db) + 1) * PTR_SZ) + 1) SEEK_SET)
              ''db_rewind: lseek error'')
       (\<lambda>(f, off). Inr (db\<lparr>idxfd := f, idxoff := off\<rparr>))"

text \<open>The loop that skips blank keys; each turn reads a record, so the file bounds the turns.\<close>

fun db_nextrec_loop :: "nat \<Rightarrow> DB \<Rightarrow> db_err + (DB \<times> bool)" where
  "db_nextrec_loop 0 db = Inl (Diverges ''db_nextrec'')"
| "db_nextrec_loop (Suc n) db =
     bindR (db_readidx db 0)
       (\<lambda>(db, r). if r < 0 then Inr (db, False)
          else if (\<forall>c \<in> set (idxbuf db). c = SPACE) then db_nextrec_loop n db
          else Inr (db, True))"

text \<open>The result is the key copied out and the data, or \<open>None\<close> at the end of the index file.\<close>

definition db_nextrec :: "DB \<Rightarrow> db_err + (DB \<times> (string \<times> string) option)" where
  "db_nextrec db =
     bindR (locked (readw_lock (idxfd db) FREE_OFF SEEK_SET 1) ''db_nextrec: readw_lock error'')
       (\<lambda>f. bindR (db_nextrec_loop (fsize f + 2) (db\<lparr>idxfd := f\<rparr>))
         (\<lambda>(db, more).
            bindR (if more
                   then bindR (db_readdat db)
                     (\<lambda>(db', s). Inr (db'\<lparr>cnt_nextrec := cnt_nextrec db' + 1\<rparr>, Some (idxbuf db, s)))
                   else Inr (db, None))
              (\<lambda>(db, r). bindR (locked (un_lock (idxfd db) FREE_OFF SEEK_SET 1)
                                  ''db_nextrec: un_lock error'')
                 (\<lambda>f. Inr (db\<lparr>idxfd := f\<rparr>, r)))))"

section \<open>Opening and closing\<close>

text \<open>
  \<open>ok i\<close> says whether the \<open>i\<close>-th allocation of \<^verbatim>\<open>_db_alloc\<close> succeeds. \<open>db_alloc\<close> leaves the two
  descriptors out: \<open>db_open\<close> puts the open files in place of the -1 it sets.
\<close>

definition db_alloc :: "(nat \<Rightarrow> bool) \<Rightarrow> db_err + (ofile \<Rightarrow> ofile \<Rightarrow> DB)" where
  "db_alloc ok =
    (if \<not> ok 0 then Inl (Dump ''_db_alloc: calloc error for DB'')
     else if \<not> ok 1 then Inl (Dump ''_db_alloc: malloc error for name'')
     else if \<not> ok 2 then Inl (Dump ''_db_alloc: malloc error for index buffer'')
     else if \<not> ok 3 then Inl (Dump ''_db_alloc: malloc error for data buffer'')
     else Inr (\<lambda>i d. \<lparr>idxfd = i, datfd = d, idxbuf = [], datbuf = [], dbname = [], idxoff = 0,
       idxlen = 0, datoff = 0, datlen = 0, ptrval = 0, ptroff = 0, chainoff = 0, hashoff = 0,
       nhash = 0, cnt_delok = 0, cnt_delerr = 0, cnt_fetchok = 0, cnt_fetcherr = 0,
       cnt_nextrec = 0, cnt_stor1 = 0, cnt_stor2 = 0, cnt_stor3 = 0, cnt_stor4 = 0,
       cnt_storerr = 0\<rparr>))"

definition db_free :: "filesystem \<Rightarrow> ofile option \<Rightarrow> ofile option \<Rightarrow> filesystem" where
  "db_free fs i d =
    (let fs = (case i of None \<Rightarrow> fs | Some f \<Rightarrow> close_file fs f)
     in case d of None \<Rightarrow> fs | Some f \<Rightarrow> close_file fs f)"

definition db_close :: "filesystem \<Rightarrow> DB \<Rightarrow> filesystem" where
  "db_close fs db = db_free fs (Some (idxfd db)) (Some (datfd db))"

definition empty_table :: string where
  "empty_table = concat (replicate (NHASH_DEF + 1) (pad PTR_SZ (show_nat 0))) @ [NEWLINE]"

definition db_init :: "DB \<Rightarrow> db_err + DB" where
  "db_init db =
     bindR (locked (writew_lock (idxfd db) 0 SEEK_SET 0) ''db_open: writew_lock error'')
       (\<lambda>f. let f = (if fsize f = 0 then fwrite f empty_table else f) in
          bindR (locked (un_lock f 0 SEEK_SET 0) ''db_open: un_lock error'')
            (\<lambda>f. Inr (db\<lparr>idxfd := f\<rparr>)))"

text \<open>\<open>open_opt\<close> keeps the file system when an \<^verbatim>\<open>open\<close> fails.\<close>

definition open_opt :: "filesystem \<Rightarrow> string \<Rightarrow> oflags \<Rightarrow> filesystem \<times> ofile option" where
  "open_opt fs name fl =
     (case open_file fs name fl of None \<Rightarrow> (fs, None) | Some (fs, f) \<Rightarrow> (fs, Some f))"

definition db_open :: "(nat \<Rightarrow> bool) \<Rightarrow> filesystem \<Rightarrow> string \<Rightarrow> oflags \<Rightarrow>
    db_err + (filesystem \<times> DB option)" where
  "db_open ok fs pathname fl =
     bindR (db_alloc ok)
       (\<lambda>mk. case open_opt fs (pathname @ ''.idx'') fl of (fs, i) \<Rightarrow>
         (case open_opt fs (pathname @ ''.dat'') fl of (fs, d) \<Rightarrow>
           (case (i, d) of
              (Some fi, Some fd) \<Rightarrow>
                let db = (mk fi fd)\<lparr>nhash := word_of_nat NHASH_DEF, hashoff := HASH_OFF,
                           dbname := pathname @ ''.dat''\<rparr> in
                bindR (if o_creat fl \<and> o_trunc fl then db_init db else Inr db)
                  (\<lambda>db. bindR (db_rewind db) (\<lambda>db. Inr (fs, Some db)))
            | _ \<Rightarrow> Inr (db_free fs i d, None))))"

end
