(* ===== verification/Db_Image.thy ===== *)
theory Db_Image
  imports Db
begin

text \<open>
  The structured view of the two files of the database: the free-list pointer, the hash table
  and the list of index records (\<open>image\<close>), with the encoder \<open>enc_idx\<close> into the bytes of the index
  file. The lemmas say where each chain pointer and each record lies, that
  \<open>db_readptr\<close>/\<open>db_readidx\<close> decode what the encoder wrote there, and that \<open>db_writeptr\<close>/\<open>db_writeidx\<close>
  change exactly the corresponding component of the image.
\<close>

record irec =
  rptr :: nat
  rkey :: string
  roff :: nat
  rlen :: nat

record image =
  free :: nat
  tbl :: "nat list"
  recs :: "irec list"
  dat :: string

definition ptr_str :: "nat \<Rightarrow> string" where
  "ptr_str p = pad PTR_SZ (show_nat p)"

definition rec_body :: "irec \<Rightarrow> string" where
  "rec_body r = idx_body (rkey r) (int (roff r)) (rlen r)"

definition enc_rec :: "irec \<Rightarrow> string" where
  "enc_rec r = ptr_str (rptr r) @ pad IDXLEN_SZ (show_nat (length (rec_body r))) @ rec_body r"

definition enc_hdr :: "image \<Rightarrow> string" where
  "enc_hdr im = ptr_str (free im) @ concat (map ptr_str (tbl im)) @ [NEWLINE]"

definition enc_idx :: "image \<Rightarrow> string" where
  "enc_idx im = enc_hdr im @ concat (map enc_rec (recs im))"

definition HDR_LEN :: nat where
  "HDR_LEN = (NHASH_DEF + 1) * PTR_SZ + 1"

definition pos :: "irec list \<Rightarrow> nat \<Rightarrow> nat" where
  "pos rs i = HDR_LEN + length (concat (map enc_rec (take i rs)))"

definition ok_ptr :: "nat \<Rightarrow> bool" where
  "ok_ptr p \<longleftrightarrow> p \<le> 9999999"

definition ok_rec :: "irec \<Rightarrow> bool" where
  "ok_rec r \<longleftrightarrow> ok_ptr (rptr r) \<and> is_cstr (rkey r) \<and> SEP \<notin> set (rkey r) \<and>
     IDXLEN_MIN \<le> length (rec_body r) \<and> length (rec_body r) \<le> IDXLEN_MAX \<and>
     0 < rlen r \<and> rlen r \<le> DATLEN_MAX"

definition ok_image :: "image \<Rightarrow> bool" where
  "ok_image im \<longleftrightarrow> ok_ptr (free im) \<and> length (tbl im) = NHASH_DEF \<and>
     (\<forall>p \<in> set (tbl im). ok_ptr p) \<and> (\<forall>r \<in> set (recs im). ok_rec r)"

text \<open>The places where a chain pointer is kept.\<close>

datatype loc = Lfree | Ltbl nat | Lrec nat

fun loc_off :: "image \<Rightarrow> loc \<Rightarrow> nat" where
  "loc_off im Lfree = 0"
| "loc_off im (Ltbl h) = (h + 1) * PTR_SZ"
| "loc_off im (Lrec i) = pos (recs im) i"

fun ok_loc :: "image \<Rightarrow> loc \<Rightarrow> bool" where
  "ok_loc im Lfree = True"
| "ok_loc im (Ltbl h) = (h < length (tbl im))"
| "ok_loc im (Lrec i) = (i < length (recs im))"

fun get_ptr :: "image \<Rightarrow> loc \<Rightarrow> nat" where
  "get_ptr im Lfree = free im"
| "get_ptr im (Ltbl h) = tbl im ! h"
| "get_ptr im (Lrec i) = rptr (recs im ! i)"

fun set_ptr :: "image \<Rightarrow> loc \<Rightarrow> nat \<Rightarrow> image" where
  "set_ptr im Lfree p = im\<lparr>free := p\<rparr>"
| "set_ptr im (Ltbl h) p = im\<lparr>tbl := (tbl im)[h := p]\<rparr>"
| "set_ptr im (Lrec i) p = im\<lparr>recs := (recs im)[i := (recs im ! i)\<lparr>rptr := p\<rparr>]\<rparr>"

section \<open>Lengths and positions\<close>

lemma length_ptr_str [simp]: "ok_ptr p \<Longrightarrow> length (ptr_str p) = PTR_SZ"
  using length_show_nat_le [of 7 p] by (simp add: ptr_str_def ok_ptr_def PTR_SZ_def)

lemma atol_ptr_str [simp]: "atol (ptr_str p) = int p"
  by (simp add: ptr_str_def)

lemma show_int_nat [simp]: "show_int (int n) = show_nat n"
  by (simp add: show_int_def)

lemma length_enc_hdr: "ok_image im \<Longrightarrow> length (enc_hdr im) = HDR_LEN"
  using length_concat_const [of "tbl im" ptr_str PTR_SZ]
  by (simp add: enc_hdr_def ok_image_def HDR_LEN_def)

lemma length_body_str:
  assumes "ok_rec r"
  shows "length (pad IDXLEN_SZ (show_nat (length (rec_body r)))) = IDXLEN_SZ"
  using assms length_show_nat_le [of 4 "length (rec_body r)"]
  by (simp add: ok_rec_def db_consts)

lemma length_enc_rec: "ok_rec r \<Longrightarrow> length (enc_rec r) = PTR_SZ + IDXLEN_SZ + length (rec_body r)"
  using length_body_str [of r] by (simp add: enc_rec_def ok_rec_def)

lemma pos_Suc: "i < length rs \<Longrightarrow> pos rs (Suc i) = pos rs i + length (enc_rec (rs ! i))"
  by (simp add: pos_def take_Suc_conv_app_nth)

lemma pos_end: "pos rs (length rs) = HDR_LEN + length (concat (map enc_rec rs))"
  by (simp add: pos_def)

lemma enc_idx_size: "ok_image im \<Longrightarrow> length (enc_idx im) = pos (recs im) (length (recs im))"
  by (simp add: enc_idx_def pos_end length_enc_hdr)

lemma pos_append [simp]: "i \<le> length rs \<Longrightarrow> pos (rs @ [r]) i = pos rs i"
  by (simp add: pos_def)

lemma pos_ge: "HDR_LEN \<le> pos rs i"
  by (simp add: pos_def)

lemma pos_pos [simp]: "0 < pos rs i"
  using pos_ge [of rs i] by (simp add: HDR_LEN_def)

lemma pos_neq_0 [simp]: "pos rs i \<noteq> 0"
  using pos_pos [of rs i] by (simp del: pos_pos)

lemma pos_update:
  assumes "length (enc_rec r) = length (enc_rec (rs ! i))"
  shows "pos (rs[i := r]) j = pos rs j"
proof (cases "i < length rs")
  case True
  have "map length (map enc_rec (take j (rs[i := r]))) = map length (map enc_rec (take j rs))"
    by (rule nth_equalityI) (use assms True in \<open>auto simp: nth_list_update\<close>)
  then show ?thesis by (simp add: pos_def length_concat)
qed (simp add: list_update_beyond)

lemma enc_rec_nonempty: "ok_rec r \<Longrightarrow> enc_rec r \<noteq> []"
  using length_enc_rec [of r] by (auto simp: db_consts)

lemma pos_mono: "i \<le> j \<Longrightarrow> pos rs i \<le> pos rs j"
proof (induction j)
  case (Suc j)
  have "pos rs j \<le> pos rs (Suc j)"
  proof (cases "j < length rs")
    case False
    then show ?thesis by (simp add: pos_def)
  qed (simp add: pos_Suc)
  with Suc show ?case by (cases "i = Suc j") auto
qed simp

lemma pos_strict:
  assumes "\<forall>r \<in> set rs. ok_rec r" "i < j" "i < length rs"
  shows "pos rs i < pos rs j"
proof -
  have "pos rs i < pos rs (Suc i)" using assms by (simp add: pos_Suc enc_rec_nonempty)
  also have "\<dots> \<le> pos rs j" using assms by (intro pos_mono) simp
  finally show ?thesis .
qed

lemma pos_inj:
  assumes "\<forall>r \<in> set rs. ok_rec r" "i < length rs" "j < length rs" "pos rs i = pos rs j"
  shows "i = j"
  using assms pos_strict [of rs i j] pos_strict [of rs j i] by (cases i j rule: linorder_cases) auto

section \<open>Where things lie in the index file\<close>

lemma enc_idx_rec_split:
  assumes "ok_image im" "i < length (recs im)"
  obtains u v where "length u = pos (recs im) i"
    and "\<And>r. enc_idx (im\<lparr>recs := (recs im)[i := r]\<rparr>) = u @ enc_rec r @ v"
    and "enc_idx im = u @ enc_rec (recs im ! i) @ v"
proof
  let ?u = "enc_hdr im @ concat (map enc_rec (take i (recs im)))"
  let ?v = "concat (map enc_rec (drop (Suc i) (recs im)))"
  show "length ?u = pos (recs im) i" using assms by (simp add: pos_def length_enc_hdr)
  show split: "enc_idx (im\<lparr>recs := (recs im)[i := r]\<rparr>) = ?u @ enc_rec r @ ?v" for r
    using assms by (simp add: enc_idx_def enc_hdr_def upd_conv_take_nth_drop)
  show "enc_idx im = ?u @ enc_rec (recs im ! i) @ ?v"
    using split [of "recs im ! i"] by simp
qed

lemma enc_idx_loc_split:
  assumes "ok_image im" "ok_loc im l"
  obtains u v where "length u = loc_off im l"
    and "enc_idx im = u @ ptr_str (get_ptr im l) @ v"
    and "\<And>p. ok_ptr p \<Longrightarrow> enc_idx (set_ptr im l p) = u @ ptr_str p @ v"
proof (cases l)
  case Lfree
  show ?thesis
    by (rule that [of "[]" "concat (map ptr_str (tbl im)) @ [NEWLINE] @ concat (map enc_rec (recs im))"])
      (simp_all add: Lfree enc_idx_def enc_hdr_def)
next
  case (Ltbl h)
  then have h: "h < length (tbl im)" using assms by simp
  let ?u = "ptr_str (free im) @ concat (map ptr_str (take h (tbl im)))"
  let ?v = "concat (map ptr_str (drop (Suc h) (tbl im))) @ [NEWLINE] @ concat (map enc_rec (recs im))"
  have "length (concat (map ptr_str (take h (tbl im)))) = h * PTR_SZ"
    using assms h by (subst length_concat_const) (auto simp: ok_image_def dest: in_set_takeD)
  then have len: "length ?u = loc_off im l" using assms by (simp add: Ltbl ok_image_def)
  have split: "enc_idx (set_ptr im l p) = ?u @ ptr_str p @ ?v" for p
    using h by (simp add: Ltbl enc_idx_def enc_hdr_def upd_conv_take_nth_drop)
  have "enc_idx im = ?u @ ptr_str (get_ptr im l) @ ?v"
    using split [of "tbl im ! h"] by (simp add: Ltbl)
  with len split show ?thesis by (intro that [of ?u ?v])
next
  case (Lrec i)
  then have i: "i < length (recs im)" using assms by simp
  obtain u v where uv: "length u = pos (recs im) i"
    "\<And>r. enc_idx (im\<lparr>recs := (recs im)[i := r]\<rparr>) = u @ enc_rec r @ v"
    "enc_idx im = u @ enc_rec (recs im ! i) @ v"
    using enc_idx_rec_split [OF assms(1) i] by blast
  let ?v = "pad IDXLEN_SZ (show_nat (length (rec_body (recs im ! i)))) @ rec_body (recs im ! i) @ v"
  have "enc_idx (set_ptr im l p) = u @ ptr_str p @ ?v" for p
    using uv(2) [of "(recs im ! i)\<lparr>rptr := p\<rparr>"] by (simp add: Lrec enc_rec_def rec_body_def)
  moreover have "enc_idx im = u @ ptr_str (get_ptr im l) @ ?v"
    using uv(3) by (simp add: Lrec enc_rec_def)
  ultimately show ?thesis using uv(1) by (intro that [of u ?v]) (simp_all add: Lrec)
qed

lemma get_ptr_ok: "ok_image im \<Longrightarrow> ok_loc im l \<Longrightarrow> ok_ptr (get_ptr im l)"
  by (cases l) (auto simp: ok_image_def ok_rec_def)

lemma ok_rec_rptr: "ok_rec r \<Longrightarrow> ok_ptr p \<Longrightarrow> ok_rec (r\<lparr>rptr := p\<rparr>)"
  by (simp add: ok_rec_def rec_body_def)

lemma set_ptr_ok: "ok_image im \<Longrightarrow> ok_loc im l \<Longrightarrow> ok_ptr p \<Longrightarrow> ok_image (set_ptr im l p)"
  by (cases l) (auto simp: ok_image_def ok_rec_rptr dest!: set_update_subset_insert [THEN subsetD])

lemma length_enc_rec_rptr [simp]:
  "ok_ptr p \<Longrightarrow> ok_ptr (rptr r) \<Longrightarrow> length (enc_rec (r\<lparr>rptr := p\<rparr>)) = length (enc_rec r)"
  by (simp add: enc_rec_def rec_body_def)

section \<open>The file operations on an image\<close>

lemma db_readptr_image:
  assumes "content (idxfd db) = enc_idx im" "ok_image im" "ok_loc im l"
  shows "db_readptr db (int (loc_off im l)) =
    Inr (db\<lparr>idxfd := (idxfd db)\<lparr>fpos := loc_off im l + PTR_SZ\<rparr>\<rparr>, int (get_ptr im l))"
proof -
  obtain u v where u: "length u = loc_off im l"
    and e: "enc_idx im = u @ ptr_str (get_ptr im l) @ v"
    using enc_idx_loc_split [OF assms(2,3)] by metis
  have p: "length (ptr_str (get_ptr im l)) = PTR_SZ" using get_ptr_ok assms by simp
  have "take PTR_SZ (drop (loc_off im l) (enc_idx im)) = ptr_str (get_ptr im l)"
    using p by (simp add: e flip: u)
  then have "fread ((idxfd db)\<lparr>fpos := loc_off im l\<rparr>) PTR_SZ
      = ((idxfd db)\<lparr>fpos := loc_off im l + PTR_SZ\<rparr>, ptr_str (get_ptr im l))"
    using p assms(1) by (simp add: fread_eq)
  with p show ?thesis by (simp add: db_readptr_def seeked_def)
qed

lemma db_writeptr_image:
  assumes "content (idxfd db) = enc_idx im" "ok_image im" "ok_loc im l" "ok_ptr p"
  shows "db_writeptr db (int (loc_off im l)) (int p) =
    Inr (db\<lparr>idxfd := (idxfd db)\<lparr>content := enc_idx (set_ptr im l p), fpos := loc_off im l + PTR_SZ\<rparr>\<rparr>)"
proof -
  obtain u v where u: "length u = loc_off im l"
    and e: "enc_idx im = u @ ptr_str (get_ptr im l) @ v"
    and e': "\<And>p. ok_ptr p \<Longrightarrow> enc_idx (set_ptr im l p) = u @ ptr_str p @ v"
    using enc_idx_loc_split [OF assms(2,3)] by metis
  have "length (ptr_str p) = length (ptr_str (get_ptr im l))" using get_ptr_ok assms by simp
  then have "overwrite (loc_off im l) (ptr_str p) (enc_idx im) = enc_idx (set_ptr im l p)"
    using overwrite_inside [of "ptr_str p" "ptr_str (get_ptr im l)" u v] u
    by (simp add: e e' assms(4))
  moreover have "length (ptr_str p) = PTR_SZ" using assms by simp
  ultimately show ?thesis
    using assms by (simp add: db_writeptr_def seeked_def fwrite_def ptr_str_def ok_ptr_def PTR_MAX_def)
qed

lemma split_sep_app [simp]: "SEP \<notin> set s \<Longrightarrow> split_sep (s @ SEP # t) = Some (s, t)"
  by (induction s) (auto simp: split_sep_def split: if_splits)

lemma db_parseidx_body:
  assumes "ok_rec r"
  shows "db_parseidx db (rec_body r) =
    Inr (db\<lparr>idxbuf := rkey r, datoff := int (roff r), datlen := rlen r\<rparr>, ptrval db)"
proof -
  have "c_str (butlast (rec_body r)) = rkey r @ SEP # show_nat (roff r) @ SEP # show_nat (rlen r)"
    using assms by (simp add: rec_body_def idx_body_def ok_rec_def butlast_append)
  moreover have "last (rec_body r) = NEWLINE" by (simp add: rec_body_def idx_body_def)
  ultimately show ?thesis using assms by (simp add: db_parseidx_def ok_rec_def)
qed

text \<open>
  \<open>loaded\<close> is the DB structure after a successful \<open>db_readidx\<close> of record \<open>i\<close>.
\<close>

definition loaded :: "DB \<Rightarrow> irec list \<Rightarrow> nat \<Rightarrow> DB" where
  "loaded db rs i = db\<lparr>idxfd := (idxfd db)\<lparr>fpos := pos rs (Suc i)\<rparr>, idxoff := int (pos rs i),
     ptrval := int (rptr (rs ! i)), idxlen := length (rec_body (rs ! i)),
     idxbuf := rkey (rs ! i), datoff := int (roff (rs ! i)), datlen := rlen (rs ! i)\<rparr>"

lemma db_readidx_image:
  assumes "content (idxfd db) = enc_idx im" "ok_image im" "i < length (recs im)"
    and off: "off = int (pos (recs im) i) \<or> (off = 0 \<and> fpos (idxfd db) = pos (recs im) i)"
  shows "db_readidx db off = Inr (loaded db (recs im) i, int (rptr (recs im ! i)))"
proof -
  let ?r = "recs im ! i" and ?p = "pos (recs im) i"
  have ok: "ok_rec ?r" using assms by (simp add: ok_image_def)
  then have okp: "ok_ptr (rptr ?r)" by (simp add: ok_rec_def)
  obtain u v where u: "length u = ?p" and e: "enc_idx im = u @ enc_rec ?r @ v"
    using enc_idx_rec_split [OF assms(2,3)] by metis
  let ?l = "pad IDXLEN_SZ (show_nat (length (rec_body ?r)))"
  have len: "length ?l = IDXLEN_SZ" "length (ptr_str (rptr ?r)) = PTR_SZ"
    using length_body_str [OF ok] okp by auto
  have seek: "lseek (idxfd db) off (if off = 0 then SEEK_CUR else SEEK_SET)
      = Some ((idxfd db)\<lparr>fpos := ?p\<rparr>, int ?p)"
    using off pos_pos [of "recs im" i] by (auto simp del: pos_pos)
  have d: "drop ?p (enc_idx im) = ptr_str (rptr ?r) @ ?l @ rec_body ?r @ v"
    by (simp add: e enc_rec_def flip: u)
  have h: "fread ((idxfd db)\<lparr>fpos := ?p\<rparr>) (PTR_SZ + IDXLEN_SZ)
      = ((idxfd db)\<lparr>fpos := ?p + (PTR_SZ + IDXLEN_SZ)\<rparr>, ptr_str (rptr ?r) @ ?l)"
    using len by (subst fread_eq [where s = "ptr_str (rptr ?r) @ ?l"]) (simp_all add: assms(1) d)
  have "drop (?p + (PTR_SZ + IDXLEN_SZ)) (enc_idx im) = rec_body ?r @ v"
    using len by (simp add: add.commute [of ?p] d flip: drop_drop)
  then have b: "fread ((idxfd db)\<lparr>fpos := ?p + (PTR_SZ + IDXLEN_SZ)\<rparr>) (length (rec_body ?r))
      = ((idxfd db)\<lparr>fpos := pos (recs im) (Suc i)\<rparr>, rec_body ?r)"
    by (subst fread_eq [where s = "rec_body ?r"])
      (simp_all add: assms(1,3) pos_Suc length_enc_rec [OF ok])
  have "int IDXLEN_MIN \<le> int (length (rec_body ?r))" "int (length (rec_body ?r)) \<le> int IDXLEN_MAX"
    using ok by (simp_all add: ok_rec_def)
  then show ?thesis
    using len ok
    by (simp add: db_readidx_def seek seeked_def Let_def h b db_parseidx_body loaded_def)
qed

lemma db_readidx_eof:
  assumes "content (idxfd db) = enc_idx im" "fpos (idxfd db) = length (enc_idx im)"
  shows "db_readidx db 0 = Inr (db\<lparr>idxoff := int (length (enc_idx im))\<rparr>, -1)"
  using assms by (simp add: db_readidx_def seeked_def fread_def Let_def PTR_SZ_def)

section \<open>Writing index records\<close>

lemma db_writeidx_overwrite:
  assumes "content (idxfd db) = enc_idx im" "ok_image im" "i < length (recs im)"
    and r: "ok_rec r" "rkey r = key" "int (roff r) = datoff db" "rlen r = datlen db" "int (rptr r) = p"
    and len: "length (rec_body r) = length (rec_body (recs im ! i))"
  shows "db_writeidx db key (int (pos (recs im) i)) SEEK_SET p =
    Inr (db\<lparr>idxfd := (idxfd db)\<lparr>content := enc_idx (im\<lparr>recs := (recs im)[i := r]\<rparr>),
              fpos := pos (recs im) (Suc i)\<rparr>,
            idxoff := int (pos (recs im) i), ptrval := p, idxbuf := rec_body r\<rparr>)"
proof -
  obtain u v where u: "length u = pos (recs im) i"
    and e: "enc_idx im = u @ enc_rec (recs im ! i) @ v"
    and e': "\<And>r. enc_idx (im\<lparr>recs := (recs im)[i := r]\<rparr>) = u @ enc_rec r @ v"
    using enc_idx_rec_split [OF assms(2,3)] by metis
  have ok: "ok_rec (recs im ! i)" using assms by (simp add: ok_image_def)
  have l: "length (enc_rec r) = length (enc_rec (recs im ! i))"
    using len r(1) ok by (simp add: length_enc_rec)
  then have "overwrite (pos (recs im) i) (enc_rec r) (enc_idx im) = enc_idx (im\<lparr>recs := (recs im)[i := r]\<rparr>)"
    using overwrite_inside [of "enc_rec r" "enc_rec (recs im ! i)" u v] u by (simp add: e e')
  moreover have "idx_body key (datoff db) (datlen db) = rec_body r"
    using r by (auto simp: rec_body_def)
  moreover have "pad PTR_SZ (show_int p) @ pad IDXLEN_SZ (show_nat (length (rec_body r))) @ rec_body r
      = enc_rec r"
    using r by (auto simp: enc_rec_def ptr_str_def)
  ultimately show ?thesis
    using r l assms(1,3)
    by (simp add: db_writeidx_def Let_def seeked_def fwrite_def ok_rec_def ok_ptr_def PTR_MAX_def pos_Suc)
qed

lemma enc_idx_append: "enc_idx (im\<lparr>recs := recs im @ [r]\<rparr>) = enc_idx im @ enc_rec r"
  by (simp add: enc_idx_def enc_hdr_def)

lemma db_writeidx_append:
  assumes "content (idxfd db) = enc_idx im" "ok_image im"
    and r: "ok_rec r" "rkey r = key" "int (roff r) = datoff db" "rlen r = datlen db" "int (rptr r) = p"
    and nh: "nhash db = word_of_nat NHASH_DEF"
    and lk: "\<And>b. HDR_LEN \<le> b \<Longrightarrow> locks (idxfd db) b = None"
  shows "db_writeidx db key 0 SEEK_END p =
    Inr (db\<lparr>idxfd := (idxfd db)\<lparr>content := enc_idx (im\<lparr>recs := recs im @ [r]\<rparr>),
              fpos := pos (recs im @ [r]) (Suc (length (recs im)))\<rparr>,
            idxoff := int (pos (recs im) (length (recs im))), ptrval := p, idxbuf := rec_body r\<rparr>)"
proof -
  have body: "idx_body key (datoff db) (datlen db) = rec_body r"
    using r by (auto simp: rec_body_def)
  have enc: "pad PTR_SZ (show_int p) @ pad IDXLEN_SZ (show_nat (length (rec_body r))) @ rec_body r
      = enc_rec r"
    using r by (auto simp: enc_rec_def ptr_str_def)
  have reg: "int ((unat (nhash db) + 1) * PTR_SZ + 1) = int HDR_LEN"
    by (simp add: nh HDR_LEN_def NHASH_DEF_def)
  have sz: "fsize (idxfd db) = pos (recs im) (length (recs im))"
    using assms(1,2) by (simp add: fsize_def enc_idx_size)
  have "set_region (int HDR_LEN) 0 None (locks (idxfd db)) = locks (idxfd db)"
    using lk by (intro set_region_None_id) (simp add: in_region_def)
  moreover have "overwrite (length (enc_idx im)) (enc_rec r) (enc_idx im)
      = enc_idx (im\<lparr>recs := recs im @ [r]\<rparr>)"
    by (simp add: overwrite_end enc_idx_append)
  moreover have "pos (recs im @ [r]) (Suc (length (recs im))) = length (enc_idx im) + length (enc_rec r)"
    using assms(2) by (simp add: pos_Suc enc_idx_size)
  ultimately show ?thesis
    using r assms(1,2)
    unfolding db_writeidx_def Let_def body enc reg
    by (simp add: seeked_def locked_def fwrite_def fsize_def enc_idx_size ok_rec_def ok_ptr_def PTR_MAX_def)
qed

section \<open>The data file\<close>

lemma db_readdat_eq:
  assumes "datoff db = int o'" "o' + n \<le> length (content (datfd db))" "datlen db = n" "0 < n"
    and nl: "content (datfd db) ! (o' + n - 1) = NEWLINE"
    and cs: "is_cstr (content (datfd db))"
  shows "db_readdat db = (let s = take (n - 1) (drop o' (content (datfd db))) in
    Inr (db\<lparr>datfd := (datfd db)\<lparr>fpos := o' + n\<rparr>, datbuf := s\<rparr>, s))"
proof -
  let ?c = "content (datfd db)"
  let ?s = "take n (drop o' ?c)"
  have l: "length ?s = n" using assms by simp
  have "last ?s = ?c ! (o' + n - 1)"
    using assms l by (subst last_conv_nth) (auto simp: add.commute)
  moreover have "butlast ?s = take (n - 1) (drop o' ?c)"
    using assms by (simp add: butlast_take)
  moreover have "is_cstr (take (n - 1) (drop o' ?c))"
    using cs by (auto simp: is_cstr_def dest: in_set_takeD in_set_dropD)
  ultimately show ?thesis
    using assms l by (simp add: db_readdat_def seeked_def fread_def Let_def)
qed

lemma db_writedat_at:
  assumes "off = int o'"
  shows "db_writedat db data off SEEK_SET =
    Inr (db\<lparr>datfd := (datfd db)\<lparr>content := overwrite o' (data @ [NEWLINE]) (content (datfd db)),
              fpos := o' + length data + 1\<rparr>, datoff := off, datlen := length data + 1\<rparr>)"
  using assms by (simp add: db_writedat_def seeked_def fwrite_def Let_def)

lemma db_writedat_end:
  assumes "locks (datfd db) = (\<lambda>_. None)"
  shows "db_writedat db data 0 SEEK_END =
    Inr (db\<lparr>datfd := (datfd db)\<lparr>content := content (datfd db) @ data @ [NEWLINE],
              fpos := fsize (datfd db) + length data + 1\<rparr>,
            datoff := int (fsize (datfd db)), datlen := length data + 1\<rparr>)"
  using assms
    by (simp add: db_writedat_def locked_def seeked_def fwrite_def Let_def fsize_def overwrite_end)

end
