(* ===== verification/Db_Chains.thy ===== *)
theory Db_Chains
  imports Db_Image
begin

text \<open>
  The linked structure of the index file, above the bytes: hash chains and the free list as lists
  of record numbers (\<open>walk\<close>), the invariant \<open>shape\<close> that ties them together, and how the pointer
  updates of a deletion, an append and the reuse of a free record keep it. A record is named by
  its index \<open>i\<close>; \<open>P i\<close> is its file offset, \<open>N i\<close> its chain pointer and \<open>K i\<close> its key, \<open>T h\<close> the
  \<open>h\<close>-th hash table entry and \<open>F\<close> the free-list pointer.
\<close>

primrec walk :: "nat \<Rightarrow> (nat \<Rightarrow> nat) \<Rightarrow> (nat \<Rightarrow> nat) \<Rightarrow> nat \<Rightarrow> nat list \<Rightarrow> bool" where
  "walk n P N p [] \<longleftrightarrow> p = 0"
| "walk n P N p (i # is) \<longleftrightarrow> i < n \<and> p = P i \<and> walk n P N (N i) is"

text \<open>The pointer map after the last record of \<open>xs\<close> (if any) is made to point to \<open>p\<close>.\<close>

definition relink :: "nat list \<Rightarrow> nat \<Rightarrow> (nat \<Rightarrow> nat) \<Rightarrow> nat \<Rightarrow> nat" where
  "relink xs p N = (if xs = [] then N else N(last xs := p))"

lemma relink_Nil [simp]: "relink [] p N = N"
  by (simp add: relink_def)

lemma relink_other: "xs = [] \<or> j \<noteq> last xs \<Longrightarrow> relink xs p N j = N j"
  by (auto simp: relink_def)

lemma relink_cong: "N' j = N j \<Longrightarrow> relink xs p N' j = relink xs p N j"
  by (auto simp: relink_def)

definition khash :: "string \<Rightarrow> nat" where
  "khash key = unat (hash_loop 0 1 key mod word_of_nat NHASH_DEF)"

definition blank :: "string \<Rightarrow> bool" where
  "blank s \<longleftrightarrow> (\<forall>c \<in> set s. c = SPACE)"

definition shape :: "nat \<Rightarrow> (nat \<Rightarrow> nat) \<Rightarrow> (nat \<Rightarrow> nat) \<Rightarrow> (nat \<Rightarrow> string) \<Rightarrow> (nat \<Rightarrow> nat) \<Rightarrow> nat \<Rightarrow>
    (nat \<Rightarrow> nat list) \<Rightarrow> nat list \<Rightarrow> bool" where
  "shape n P N K T F ch fl \<longleftrightarrow>
     (\<forall>h < NHASH_DEF. walk n P N (T h) (ch h)) \<and> walk n P N F fl \<and>
     (\<forall>h < NHASH_DEF. \<forall>i \<in> set (ch h). khash (K i) = h \<and> \<not> blank (K i) \<and> i \<notin> set fl) \<and>
     (\<forall>h < NHASH_DEF. distinct (map K (ch h))) \<and>
     distinct fl \<and> (\<forall>i \<in> set fl. blank (K i)) \<and>
     (\<forall>i < n. i \<in> set fl \<or> i \<in> set (ch (khash (K i))))"

lemma khash_less [simp]: "khash key < NHASH_DEF"
proof -
  have "unat (hash_loop 0 1 key mod word_of_nat NHASH_DEF) < unat (word_of_nat NHASH_DEF :: 64 word)"
    by (rule unat_mono, rule word_mod_less_divisor) (simp add: NHASH_DEF_def)
  then show ?thesis by (simp add: khash_def NHASH_DEF_def)
qed

lemma walk_bound: "walk n P N p is \<Longrightarrow> i \<in> set is \<Longrightarrow> i < n"
  by (induction "is" arbitrary: p) auto

lemma walk_cong:
  "\<lbrakk>\<And>i. i \<in> set is \<Longrightarrow> N' i = N i; \<And>i. i < n \<Longrightarrow> P' i = P i\<rbrakk> \<Longrightarrow> walk n P' N' p is = walk n P N p is"
  by (induction "is" arbitrary: p) auto

lemma walk_mono: "walk n P N p is \<Longrightarrow> n \<le> n' \<Longrightarrow> walk n' P N p is"
  by (induction "is" arbitrary: p) auto

lemma walk_append: "walk n P N p (xs @ i # ys) \<Longrightarrow> i < n \<and> walk n P N (N i) ys"
  by (induction xs arbitrary: p) auto

lemma walk_pred: "walk n P N p (xs @ i # ys) \<Longrightarrow> P i = (if xs = [] then p else N (last xs))"
  by (induction xs arbitrary: p) auto

text \<open>Unlinking the element \<open>i\<close> by redirecting the pointer that led to it.\<close>

lemma walk_unlink:
  "walk n P N p (xs @ i # ys) \<Longrightarrow> distinct (xs @ i # ys) \<Longrightarrow>
   walk n P (relink xs (N i) N) (if xs = [] then N i else p) (xs @ ys)"
proof (induction xs arbitrary: p)
  case Nil
  then show ?case by simp
next
  case (Cons a xs)
  show ?case
  proof (cases "xs = []")
    case True
    have "walk n P (relink [a] (N i) N) (N i) ys = walk n P N (N i) ys"
      by (rule walk_cong) (use Cons.prems True in \<open>auto simp: relink_def\<close>)
    moreover have "relink [a] (N i) N a = N i" by (simp add: relink_def)
    ultimately show ?thesis using Cons.prems True by simp
  next
    case False
    then have "a \<noteq> last xs" using Cons.prems by auto
    moreover have "walk n P (relink xs (N i) N) (N a) (xs @ ys)"
      using Cons False by auto
    moreover have "relink (a # xs) (N i) N = relink xs (N i) N"
      using False by (simp add: relink_def)
    ultimately show ?thesis using Cons.prems False by (simp add: relink_other)
  qed
qed

lemma shapeI:
  assumes "\<And>h. h < NHASH_DEF \<Longrightarrow> walk n P N (T h) (ch h)" "walk n P N F fl"
    and "\<And>h i. h < NHASH_DEF \<Longrightarrow> i \<in> set (ch h) \<Longrightarrow> khash (K i) = h \<and> \<not> blank (K i) \<and> i \<notin> set fl"
    and "\<And>h. h < NHASH_DEF \<Longrightarrow> distinct (map K (ch h))"
    and "distinct fl" "\<And>i. i \<in> set fl \<Longrightarrow> blank (K i)"
    and "\<And>i. i < n \<Longrightarrow> i \<in> set fl \<or> i \<in> set (ch (khash (K i)))"
  shows "shape n P N K T F ch fl"
  unfolding shape_def using assms by simp

lemma shape_walk: "shape n P N K T F ch fl \<Longrightarrow> h < NHASH_DEF \<Longrightarrow> walk n P N (T h) (ch h)"
  by (simp add: shape_def)

lemma shape_free: "shape n P N K T F ch fl \<Longrightarrow> walk n P N F fl"
  by (simp add: shape_def)

lemma shape_live:
  "shape n P N K T F ch fl \<Longrightarrow> h < NHASH_DEF \<Longrightarrow> i \<in> set (ch h) \<Longrightarrow>
    khash (K i) = h \<and> \<not> blank (K i) \<and> i \<notin> set fl"
  by (simp add: shape_def)

lemma shape_keys: "shape n P N K T F ch fl \<Longrightarrow> h < NHASH_DEF \<Longrightarrow> distinct (map K (ch h))"
  by (simp add: shape_def)

lemma shape_fl: "shape n P N K T F ch fl \<Longrightarrow> distinct fl \<and> (\<forall>i \<in> set fl. blank (K i))"
  by (simp add: shape_def)

lemma shape_all: "shape n P N K T F ch fl \<Longrightarrow> i < n \<Longrightarrow> i \<in> set fl \<or> i \<in> set (ch (khash (K i)))"
  by (simp add: shape_def)

lemma shape_bucket_distinct: "shape n P N K T F ch fl \<Longrightarrow> h < NHASH_DEF \<Longrightarrow> distinct (ch h)"
  using shape_keys by (auto simp: distinct_map)

lemma shape_disjoint:
  "shape n P N K T F ch fl \<Longrightarrow> h < NHASH_DEF \<Longrightarrow> h' < NHASH_DEF \<Longrightarrow> i \<in> set (ch h) \<Longrightarrow>
    i \<in> set (ch h') \<Longrightarrow> h = h'"
  using shape_live by metis

lemma shape_delete:
  assumes s: "shape n P N K T F ch fl" and h: "h < NHASH_DEF" and c: "ch h = xs @ i # ys"
    and b: "blank b"
  shows "shape n P (relink xs (N i) (N(i := F))) (K(i := b))
    (if xs = [] then T(h := N i) else T) (P i) (ch(h := xs @ ys)) (i # fl)"
    (is "shape n P ?N ?K ?T _ ?ch _")
proof -
  have w: "walk n P N (T h) (xs @ i # ys)" using shape_walk [OF s h] c by simp
  have d: "distinct (xs @ i # ys)" using shape_bucket_distinct [OF s h] c by simp
  have i: "i < n" "i \<notin> set fl" using shape_live [OF s h, of i] c walk_append [OF w] by auto
  have last: "last xs \<in> set (ch h)" "last xs \<noteq> i" "last xs \<notin> set fl" if "xs \<noteq> []"
    using that c d shape_live [OF s h, of "last xs"] by auto
  have sub: "j \<in> set (ch g) \<and> j \<noteq> i" if "g < NHASH_DEF" "j \<in> set (?ch g)" for g j
    using that d c shape_disjoint [OF s h that(1), of i] by (auto split: if_splits)
  show ?thesis
  proof (rule shapeI)
    fix g assume g: "g < NHASH_DEF"
    show "walk n P ?N (?T g) (?ch g)"
    proof (cases "g = h")
      case True
      have "walk n P ?N (if xs = [] then N i else T h) (xs @ ys) =
          walk n P (relink xs (N i) N) (if xs = [] then N i else T h) (xs @ ys)"
        by (rule walk_cong) (use d in \<open>auto intro!: relink_cong\<close>)
      then show ?thesis using walk_unlink [OF w d] True by auto
    next
      case False
      have disj: "j \<notin> set (ch h)" if "j \<in> set (ch g)" for j
        using shape_disjoint [OF s h g, of j] that False by auto
      then have nl: "last xs \<notin> set (ch g)" if "xs \<noteq> []" using last(1) [OF that] by blast
      have "walk n P ?N (T g) (ch g) = walk n P N (T g) (ch g)"
        by (rule walk_cong, subst relink_other) (use disj nl c in auto)
      then show ?thesis using shape_walk [OF s g] False by (cases "xs = []") simp_all
    qed
    have "map ?K (?ch g) = map K (?ch g)" using sub [OF g] by (intro map_cong) auto
    moreover have "distinct (map K (?ch g))"
      using shape_keys [OF s g] c by (cases "g = h") simp_all
    ultimately show "distinct (map ?K (?ch g))" by (simp only:)
  next
    have "walk n P ?N F fl = walk n P N F fl" 
      by (rule walk_cong, subst relink_other) (use i last in auto)
    then have "walk n P ?N F fl" using shape_free [OF s] by (simp only:)
    moreover have "?N i = F" using last by (subst relink_other) auto
    ultimately show "walk n P ?N (P i) (i # fl)" using i by (simp only: walk.simps)
  next
    fix g j assume "g < NHASH_DEF" "j \<in> set (?ch g)"
    then show "khash (?K j) = g \<and> \<not> blank (?K j) \<and> j \<notin> set (i # fl)"
      using sub shape_live [OF s] by auto
  next
    fix j assume "j < n"
    then show "j \<in> set (i # fl) \<or> j \<in> set (?ch (khash (?K j)))"
      using shape_all [OF s, of j] c by auto
  qed (use shape_fl [OF s] i b in auto)
qed

lemma shape_append:
  assumes s: "shape n P N K T F ch fl" and k: "\<not> blank k" and new: "\<forall>i \<in> set (ch (khash k)). K i \<noteq> k"
    and P: "\<And>i. i < n \<Longrightarrow> P' i = P i"
  shows "shape (Suc n) P' (N(n := T (khash k))) (K(n := k)) (T(khash k := P' n)) F
    (ch(khash k := n # ch (khash k))) fl"
    (is "shape _ _ ?N ?K ?T _ ?ch _")
proof -
  let ?h = "khash k"
  have lt: "i < n" if "g < NHASH_DEF" "i \<in> set (ch g)" for g i
    using walk_bound [OF shape_walk [OF s that(1)] that(2)] .
  have lf: "i < n" if "i \<in> set fl" for i using walk_bound [OF shape_free [OF s] that] .
  have keep: "walk (Suc n) P' ?N p is" if "walk n P N p is" for p "is"
  proof -
    have "walk n P' ?N p is = walk n P N p is"
    proof (rule walk_cong)
      fix i assume "i \<in> set is"
      then have "i < n" by (rule walk_bound [OF that])
      then show "?N i = N i" by simp
    qed (rule P)
    with that have "walk n P' ?N p is" by (simp only:)
    then show ?thesis by (rule walk_mono) simp
  qed
  show ?thesis
  proof (rule shapeI)
    fix g assume g: "g < NHASH_DEF"
    show "walk (Suc n) P' ?N (?T g) (?ch g)" using keep [OF shape_walk [OF s g]] by auto
    have "map ?K (ch g) = map K (ch g)" using lt [OF g] by (intro map_cong) auto
    then have "distinct (map ?K (ch g))" using shape_keys [OF s g] by (simp only:)
    moreover have "?K n \<notin> ?K ` set (ch ?h)" using new lt [of ?h] by (auto simp: image_iff)
    ultimately show "distinct (map ?K (?ch g))" by (cases "g = ?h") (simp_all del: fun_upd_apply, simp_all)
  next
    fix g i assume "g < NHASH_DEF" "i \<in> set (?ch g)"
    then show "khash (?K i) = g \<and> \<not> blank (?K i) \<and> i \<notin> set fl"
      using shape_live [OF s, of g i] k lf [of n] lt [of g i] by (auto split: if_splits)
  next
    fix i assume "i < Suc n"
    then show "i \<in> set fl \<or> i \<in> set (?ch (khash (?K i)))"
      using shape_all [OF s, of i] by (cases "i = n") auto
  next
    fix i assume "i \<in> set fl"
    then show "blank (?K i)" using shape_fl [OF s] lf [of i] by auto
  qed (use keep [OF shape_free [OF s]] shape_fl [OF s] in auto)
qed

lemma shape_reuse:
  assumes s: "shape n P N K T F ch fl" and fl: "fl = xs @ i # ys"
    and k: "\<not> blank k" and new: "\<forall>j \<in> set (ch (khash k)). K j \<noteq> k"
  shows "shape n P ((relink xs (N i) N)(i := T (khash k))) (K(i := k))
    (T(khash k := P i)) (if xs = [] then N i else F) (ch(khash k := i # ch (khash k))) (xs @ ys)"
    (is "shape _ _ ?N ?K ?T ?F ?ch _")
proof -
  let ?h = "khash k"
  have w: "walk n P N F (xs @ i # ys)" and d: "distinct (xs @ i # ys)"
    using shape_free [OF s] shape_fl [OF s] fl by auto
  have i: "i < n" using walk_append [OF w] by simp
  have ni: "i \<notin> set (ch g)" "xs \<noteq> [] \<Longrightarrow> last xs \<notin> set (ch g)" if "g < NHASH_DEF" for g
    using shape_live [OF s that, of i] shape_live [OF s that, of "last xs"] fl by auto
  have keep: "walk n P ?N (T g) (ch g)" if g: "g < NHASH_DEF" for g
  proof -
    have "walk n P ?N (T g) (ch g) = walk n P N (T g) (ch g)"
      by (rule walk_cong) (use ni [OF g] in \<open>auto simp: relink_def\<close>)
    then show ?thesis using shape_walk [OF s g] by simp
  qed
  show ?thesis
  proof (rule shapeI)
    fix g assume g: "g < NHASH_DEF"
    show "walk n P ?N (?T g) (?ch g)" using keep [OF g] i by auto
    have "map ?K (ch g) = map K (ch g)" using ni [OF g] by (intro map_cong) auto
    then have "distinct (map ?K (ch g))" using shape_keys [OF s g] by (simp only:)
    moreover have "?K i \<notin> ?K ` set (ch ?h)" using new ni [of ?h] by (auto simp: image_iff)
    ultimately show "distinct (map ?K (?ch g))" by (cases "g = ?h") (simp_all del: fun_upd_apply, simp_all)
  next
    have "walk n P ?N ?F (xs @ ys) =
        walk n P (relink xs (N i) N) (if xs = [] then N i else F) (xs @ ys)"
      by (rule walk_cong) (use d in auto)
    then show "walk n P ?N ?F (xs @ ys)" using walk_unlink [OF w d] by simp
  next
    fix g j assume "g < NHASH_DEF" "j \<in> set (?ch g)"
    then show "khash (?K j) = g \<and> \<not> blank (?K j) \<and> j \<notin> set (xs @ ys)"
      using shape_live [OF s, of g j] k ni [of g] d fl by (auto split: if_splits)
  next
    fix j assume "j < n"
    then show "j \<in> set (xs @ ys) \<or> j \<in> set (?ch (khash (?K j)))"
      using shape_all [OF s, of j] fl by auto
  next
    fix j assume "j \<in> set (xs @ ys)"
    then show "blank (?K j)" using shape_fl [OF s] fl d by auto
  qed (use d in auto)
qed

end
