(* ===== verification/Db_Correct.thy ===== *)
theory Db_Correct
  imports Db_Chains
begin

text \<open>
  Correctness of the database library against a map from keys to data. \<open>represents db m\<close> says
  that the two files are the encoding of an image whose chains satisfy \<open>shape\<close>, whose data records
  lie in disjoint regions, and whose live records are exactly the map \<open>m\<close>; no record lock is held.
  Every operation is shown to return (no error, no endless chain walk) and to act on \<open>m\<close> as a
  key-value store does.
\<close>

section \<open>The abstraction\<close>

definition data_of :: "image \<Rightarrow> irec \<Rightarrow> string" where
  "data_of im r = take (rlen r - 1) (drop (roff r) (dat im))"

definition layout :: "image \<Rightarrow> (nat \<Rightarrow> nat list) \<Rightarrow> nat list \<Rightarrow> bool" where
  "layout im ch fl \<longleftrightarrow> ok_image im \<and>
     shape (length (recs im)) (pos (recs im)) (\<lambda>i. rptr (recs im ! i)) (\<lambda>i. rkey (recs im ! i))
       (\<lambda>h. tbl im ! h) (free im) ch fl"

definition apart :: "irec \<Rightarrow> irec \<Rightarrow> bool" where
  "apart r s \<longleftrightarrow> roff r + rlen r \<le> roff s \<or> roff s + rlen s \<le> roff r"

definition in_dat :: "string \<Rightarrow> irec \<Rightarrow> bool" where
  "in_dat d r \<longleftrightarrow> 0 < rlen r \<and> roff r + rlen r \<le> length d \<and> d ! (roff r + rlen r - 1) = NEWLINE"

definition data_ok :: "image \<Rightarrow> bool" where
  "data_ok im \<longleftrightarrow> is_cstr (dat im) \<and> (\<forall>r \<in> set (recs im). in_dat (dat im) r) \<and>
     (\<forall>i < length (recs im). \<forall>j < length (recs im). i \<noteq> j \<longrightarrow> apart (recs im ! i) (recs im ! j))"

definition lookup :: "image \<Rightarrow> (nat \<Rightarrow> nat list) \<Rightarrow> string \<rightharpoonup> string" where
  "lookup im ch key = map_option (\<lambda>i. data_of im (recs im ! i))
     (List.find (\<lambda>i. rkey (recs im ! i) = key) (ch (khash key)))"

definition view :: "DB \<Rightarrow> image \<Rightarrow> (nat \<Rightarrow> ltype option) \<Rightarrow> bool" where
  "view db im lk \<longleftrightarrow> content (idxfd db) = enc_idx im \<and> content (datfd db) = dat im \<and>
     nhash db = word_of_nat NHASH_DEF \<and> hashoff db = HASH_OFF \<and>
     locks (datfd db) = (\<lambda>_. None) \<and> locks (idxfd db) = lk"

definition represents :: "DB \<Rightarrow> (string \<rightharpoonup> string) \<Rightarrow> bool" where
  "represents db m \<longleftrightarrow> (\<exists>im ch fl. view db im (\<lambda>_. None) \<and> layout im ch fl \<and> data_ok im \<and>
     m = lookup im ch)"

definition frame :: "DB \<Rightarrow> DB \<Rightarrow> bool" where
  "frame db db' \<longleftrightarrow> content (idxfd db') = content (idxfd db) \<and> locks (idxfd db') = locks (idxfd db) \<and>
     datfd db' = datfd db \<and> chainoff db' = chainoff db \<and> nhash db' = nhash db \<and> hashoff db' = hashoff db"

definition at_rec :: "DB \<Rightarrow> irec list \<Rightarrow> nat \<Rightarrow> bool" where
  "at_rec db rs i \<longleftrightarrow> idxoff db = int (pos rs i) \<and> ptrval db = int (rptr (rs ! i)) \<and>
     idxbuf db = rkey (rs ! i) \<and> datoff db = int (roff (rs ! i)) \<and> datlen db = rlen (rs ! i)"

abbreviation chain_of :: "image \<Rightarrow> nat \<Rightarrow> nat list \<Rightarrow> bool" where
  "chain_of im p is \<equiv> walk (length (recs im)) (pos (recs im)) (\<lambda>i. rptr (recs im ! i)) p is"

text \<open>The place of the pointer to the record that follows \<open>xs\<close> on a chain that starts at \<open>l\<close>.\<close>

definition prev_loc :: "loc \<Rightarrow> nat list \<Rightarrow> loc" where
  "prev_loc l xs = (if xs = [] then l else Lrec (last xs))"

section \<open>Chain walks\<close>

lemma frame_refl [simp]: "frame db db"
  by (simp add: frame_def)

lemma frame_trans: "frame a b \<Longrightarrow> frame b c \<Longrightarrow> frame a c"
  by (simp add: frame_def)

lemma frame_loaded [simp]: "frame db (loaded db rs i)"
  by (simp add: frame_def loaded_def)

lemma at_rec_loaded [simp]: "at_rec (loaded db rs i) rs i"
  by (simp add: at_rec_def loaded_def)

lemma frame_content: "frame db db' \<Longrightarrow> content (idxfd db') = content (idxfd db)"
  by (simp add: frame_def)

lemma frame_view: "frame db db' \<Longrightarrow> view db im lk \<Longrightarrow> view db' im lk"
  by (simp add: frame_def view_def)

lemma find_loop_miss:
  assumes "content (idxfd db) = enc_idx im" "ok_image im" "chain_of im p is" "length is < fuel"
    and "\<forall>i \<in> set is. rkey (recs im ! i) \<noteq> key"
  shows "\<exists>db'. db_find_loop fuel db (int p) key = Inr (db', 0) \<and> frame db db'"
  using assms
proof (induction "is" arbitrary: db p fuel)
  case Nil
  then show ?case by (cases fuel) (auto intro!: exI [of _ db])
next
  case (Cons i "is")
  obtain f where f: "fuel = Suc f" using Cons.prems by (cases fuel) auto
  let ?db = "(loaded db (recs im) i)\<lparr>ptroff := int p\<rparr>"
  have p: "p = pos (recs im) i" "i < length (recs im)" using Cons.prems by auto
  have "frame db ?db" by (simp add: frame_def loaded_def)
  moreover have "content (idxfd ?db) = enc_idx im" using Cons.prems by (simp add: loaded_def)
  moreover have "\<exists>db'. db_find_loop f ?db (int (rptr (recs im ! i))) key = Inr (db', 0) \<and> frame ?db db'"
    using Cons.prems f calculation by (intro Cons.IH) auto
  ultimately obtain db' where "db_find_loop f ?db (int (rptr (recs im ! i))) key = Inr (db', 0)"
    "frame db db'" using frame_trans by blast
  moreover have "db_readidx db (int p) = Inr (loaded db (recs im) i, int (rptr (recs im ! i)))"
    using Cons.prems p by (intro db_readidx_image) auto
  moreover have "idxbuf (loaded db (recs im) i) \<noteq> key" using Cons.prems by (simp add: loaded_def)
  ultimately show ?case using f p by auto
qed

lemma find_loop_hit:
  assumes "content (idxfd db) = enc_idx im" "ok_image im" "chain_of im p (xs @ i # ys)"
    and "length xs < fuel" "\<forall>j \<in> set xs. rkey (recs im ! j) \<noteq> key" "rkey (recs im ! i) = key"
  shows "\<exists>db'. db_find_loop fuel db (int p) key = Inr (db', int (pos (recs im) i)) \<and> frame db db' \<and>
    at_rec db' (recs im) i \<and> ptroff db' = (if xs = [] then ptroff db else int (pos (recs im) (last xs)))"
  using assms
proof (induction xs arbitrary: db p fuel)
  case Nil
  then obtain f where f: "fuel = Suc f" by (cases fuel) auto
  have "db_readidx db (int p) = Inr (loaded db (recs im) i, int (rptr (recs im ! i)))"
    using Nil by (intro db_readidx_image) auto
  then show ?case using Nil f by (auto simp: loaded_def intro!: exI [of _ "loaded db (recs im) i"])
      (auto simp: frame_def at_rec_def loaded_def)
next
  case (Cons a xs)
  obtain f where f: "fuel = Suc f" using Cons.prems by (cases fuel) auto
  let ?db = "(loaded db (recs im) a)\<lparr>ptroff := int p\<rparr>"
  have p: "p = pos (recs im) a" "a < length (recs im)" using Cons.prems by auto
  have fr: "frame db ?db" by (simp add: frame_def loaded_def)
  have c: "content (idxfd ?db) = enc_idx im" using Cons.prems by (simp add: loaded_def)
  have "\<exists>db'. db_find_loop f ?db (int (rptr (recs im ! a))) key = Inr (db', int (pos (recs im) i)) \<and>
      frame ?db db' \<and> at_rec db' (recs im) i \<and>
      ptroff db' = (if xs = [] then ptroff ?db else int (pos (recs im) (last xs)))"
    using Cons.prems f c by (intro Cons.IH) auto
  moreover have "db_readidx db (int p) = Inr (loaded db (recs im) a, int (rptr (recs im ! a)))"
    using Cons.prems p by (intro db_readidx_image) auto
  moreover have "idxbuf (loaded db (recs im) a) \<noteq> key" using Cons.prems by (simp add: loaded_def)
  ultimately show ?case using f p frame_trans [OF fr] by (auto split: if_splits)
qed

lemma findfree_loop_miss:
  assumes "content (idxfd db) = enc_idx im" "ok_image im" "chain_of im p is" "length is < fuel"
    and "\<forall>i \<in> set is. \<not> (length (rkey (recs im ! i)) = kl \<and> rlen (recs im ! i) = dl)"
  shows "\<exists>db' sv. db_findfree_loop fuel db so (int p) kl dl = Inr (db', sv, 0) \<and> frame db db'"
  using assms
proof (induction "is" arbitrary: db p fuel so)
  case Nil
  then show ?case by (cases fuel) (auto intro!: exI [of _ db])
next
  case (Cons i "is")
  obtain f where f: "fuel = Suc f" using Cons.prems by (cases fuel) auto
  let ?db = "loaded db (recs im) i"
  have p: "p = pos (recs im) i" "i < length (recs im)" using Cons.prems by auto
  have "content (idxfd ?db) = enc_idx im" using Cons.prems by (simp add: loaded_def)
  then have "\<exists>db' sv. db_findfree_loop f ?db (int p) (int (rptr (recs im ! i))) kl dl = Inr (db', sv, 0)
      \<and> frame ?db db'"
    using Cons.prems f by (intro Cons.IH) auto
  then obtain db' sv where
    "db_findfree_loop f ?db (int p) (int (rptr (recs im ! i))) kl dl = Inr (db', sv, 0)" "frame db db'"
    using frame_trans frame_loaded by blast
  moreover have "db_readidx db (int p) = Inr (?db, int (rptr (recs im ! i)))"
    using Cons.prems p by (intro db_readidx_image) auto
  moreover have "\<not> (length (idxbuf ?db) = kl \<and> datlen ?db = dl)" using Cons.prems by (simp add: loaded_def)
  ultimately show ?case using f p by auto
qed

lemma findfree_loop_hit:
  assumes "content (idxfd db) = enc_idx im" "ok_image im" "chain_of im p (xs @ i # ys)"
    and "length xs < fuel"
    and "\<forall>j \<in> set xs. \<not> (length (rkey (recs im ! j)) = kl \<and> rlen (recs im ! j) = dl)"
    and "length (rkey (recs im ! i)) = kl" "rlen (recs im ! i) = dl"
  shows "\<exists>db'. db_findfree_loop fuel db so (int p) kl dl =
      Inr (db', if xs = [] then so else int (pos (recs im) (last xs)), int (pos (recs im) i)) \<and>
    frame db db' \<and> at_rec db' (recs im) i"
  using assms
proof (induction xs arbitrary: db p fuel so)
  case Nil
  then obtain f where f: "fuel = Suc f" by (cases fuel) auto
  have "db_readidx db (int p) = Inr (loaded db (recs im) i, int (rptr (recs im ! i)))"
    using Nil by (intro db_readidx_image) auto
  then show ?case using Nil f by (auto simp: frame_def at_rec_def loaded_def)
next
  case (Cons a xs)
  obtain f where f: "fuel = Suc f" using Cons.prems by (cases fuel) auto
  let ?db = "loaded db (recs im) a"
  have p: "p = pos (recs im) a" "a < length (recs im)" using Cons.prems by auto
  have c: "content (idxfd ?db) = enc_idx im" using Cons.prems by (simp add: loaded_def)
  have "\<exists>db'. db_findfree_loop f ?db (int p) (int (rptr (recs im ! a))) kl dl =
      Inr (db', if xs = [] then int p else int (pos (recs im) (last xs)), int (pos (recs im) i)) \<and>
      frame ?db db' \<and> at_rec db' (recs im) i"
    using Cons.prems f c by (intro Cons.IH) auto
  moreover have "db_readidx db (int p) = Inr (?db, int (rptr (recs im ! a)))"
    using Cons.prems p by (intro db_readidx_image) auto
  moreover have "\<not> (length (idxbuf ?db) = kl \<and> datlen ?db = dl)" using Cons.prems by (simp add: loaded_def)
  ultimately show ?case using f p frame_trans [OF frame_loaded] by (auto split: if_splits)
qed

text \<open>A chain never has more records than the index file has bytes, so the fuel is enough.\<close>

lemma records_le_size:
  assumes "\<forall>r \<in> set rs. ok_rec r"
  shows "length rs \<le> pos rs (length rs)"
proof -
  have "length rs \<le> length (concat (map enc_rec rs))"
    using assms by (induction rs) (auto dest!: enc_rec_nonempty simp: neq_Nil_conv)
  then show ?thesis by (simp add: pos_end)
qed

lemma chain_length:
  assumes "ok_image im" "chain_of im p is" "distinct is"
  shows "length is \<le> length (enc_idx im)"
proof -
  have "set is \<subseteq> {..<length (recs im)}" using walk_bound [OF assms(2)] by auto
  then have "card (set is) \<le> length (recs im)" by (metis card_lessThan card_mono finite_lessThan)
  then have "length is \<le> length (recs im)" using assms(3) by (simp add: distinct_card)
  also have "\<dots> \<le> length (enc_idx im)"
    using assms(1) records_le_size [of "recs im"] enc_idx_size [OF assms(1)] by (simp add: ok_image_def)
  finally show ?thesis .
qed

end
