(* ===== verification/Db_Update.thy ===== *)
theory Db_Update
  imports Db_Correct
begin

text \<open>
  The three ways the library changes an image (unlinking and blanking a record, appending one,
  reusing a free one) and the overwriting of a data record in place: each keeps \<open>layout\<close> and
  \<open>data_ok\<close> and changes \<open>lookup\<close> at one key only.
\<close>

section \<open>Lists of records under an update\<close>

lemma upd_rptr: "i < length rs \<Longrightarrow> (\<lambda>j. rptr (rs[i := r] ! j)) = (\<lambda>j. rptr (rs ! j))(i := rptr r)"
  by (auto simp: nth_list_update)

lemma upd_rkey: "i < length rs \<Longrightarrow> (\<lambda>j. rkey (rs[i := r] ! j)) = (\<lambda>j. rkey (rs ! j))(i := rkey r)"
  by (auto simp: nth_list_update)

lemma upd_tbl: "h < length t \<Longrightarrow> (\<lambda>g. t[h := p] ! g) = (\<lambda>g. t ! g)(h := p)"
  by (auto simp: nth_list_update)

lemma shape_cong:
  assumes "\<And>i. i < n \<Longrightarrow> P' i = P i \<and> N' i = N i \<and> K' i = K i" "\<And>h. h < NHASH_DEF \<Longrightarrow> T' h = T h"
    and s: "shape n P N K T F ch fl"
  shows "shape n P' N' K' T' F ch fl"
proof -
  have w: "walk n P' N' p is" if "walk n P N p is" for p "is"
  proof -
    have "walk n P' N' p is = walk n P N p is"
      by (rule walk_cong) (use assms(1) walk_bound [OF that] in blast)+
    with that show ?thesis by simp
  qed
  have b: "i < n" if "h < NHASH_DEF" "i \<in> set (ch h)" for h i
    using walk_bound [OF shape_walk [OF s that(1)] that(2)] .
  have bf: "i < n" if "i \<in> set fl" for i using walk_bound [OF shape_free [OF s] that] .
  show ?thesis
  proof (rule shapeI)
    fix h assume h: "h < NHASH_DEF"
    show "walk n P' N' (T' h) (ch h)" using w [OF shape_walk [OF s h]] assms(2) [OF h] by simp
    have "map K' (ch h) = map K (ch h)" using b [OF h] assms(1) by (intro map_cong) auto
    then show "distinct (map K' (ch h))" using shape_keys [OF s h] by (simp only:)
  next
    fix h i assume hi: "h < NHASH_DEF" "i \<in> set (ch h)"
    then show "khash (K' i) = h \<and> \<not> blank (K' i) \<and> i \<notin> set fl"
      using shape_live [OF s hi] assms(1) [OF b [OF hi]] by simp
  next
    fix i assume "i \<in> set fl"
    then show "blank (K' i)" using shape_fl [OF s] assms(1) [OF bf] by simp
  next
    fix i assume "i < n"
    then show "i \<in> set fl \<or> i \<in> set (ch (khash (K' i)))" using shape_all [OF s] assms(1) by simp
  qed (use w [OF shape_free [OF s]] shape_fl [OF s] in auto)
qed

lemma layout_ok: "layout im ch fl \<Longrightarrow> ok_image im"
  by (simp add: layout_def)

lemma layout_rec_ok: "layout im ch fl \<Longrightarrow> i < length (recs im) \<Longrightarrow> ok_rec (recs im ! i)"
  by (simp add: layout_def ok_image_def)

lemma layout_chain: "layout im ch fl \<Longrightarrow> h < NHASH_DEF \<Longrightarrow> chain_of im (tbl im ! h) (ch h)"
  unfolding layout_def using shape_walk by blast

lemma layout_free: "layout im ch fl \<Longrightarrow> chain_of im (free im) fl"
  unfolding layout_def using shape_free by blast

lemma layout_distinct: "layout im ch fl \<Longrightarrow> h < NHASH_DEF \<Longrightarrow> distinct (ch h)"
  unfolding layout_def using shape_bucket_distinct by blast

lemma layout_keys:
  "layout im ch fl \<Longrightarrow> h < NHASH_DEF \<Longrightarrow> distinct (map (\<lambda>i. rkey (recs im ! i)) (ch h))"
  unfolding layout_def using shape_keys by blast

lemma layout_live:
  "layout im ch fl \<Longrightarrow> h < NHASH_DEF \<Longrightarrow> i \<in> set (ch h) \<Longrightarrow>
    i < length (recs im) \<and> khash (rkey (recs im ! i)) = h \<and> \<not> blank (rkey (recs im ! i)) \<and> i \<notin> set fl"
  using layout_chain [THEN walk_bound] unfolding layout_def by (metis (no_types, lifting) shape_live)

lemma layout_fl:
  "layout im ch fl \<Longrightarrow> distinct fl \<and> (\<forall>i \<in> set fl. i < length (recs im) \<and> blank (rkey (recs im ! i)))"
  using layout_free [THEN walk_bound] shape_fl unfolding layout_def by blast

text \<open>An offset that a well-formed chain pointer holds fits into the pointer field.\<close>

lemma chain_pos_ok:
  assumes "ok_image im" "ok_loc im l" "chain_of im (get_ptr im l) (xs @ i # ys)"
  shows "ok_ptr (pos (recs im) i) \<and> ok_loc im (prev_loc l xs) \<and> i < length (recs im) \<and>
    get_ptr im (prev_loc l xs) = pos (recs im) i"
proof -
  have "last xs < length (recs im)" if "xs \<noteq> []"
    using walk_bound [OF assms(3), of "last xs"] that by simp
  then have loc: "ok_loc im (prev_loc l xs)" using assms(2) by (simp add: prev_loc_def)
  have "get_ptr im (prev_loc l xs) = pos (recs im) i"
    using walk_pred [OF assms(3)] by (auto simp: prev_loc_def)
  with get_ptr_ok [OF assms(1) loc] loc walk_append [OF assms(3)] show ?thesis by auto
qed

section \<open>Lookup\<close>

lemma lookup_Some_iff:
  assumes "layout im ch fl"
  shows "lookup im ch k = Some d \<longleftrightarrow>
    (\<exists>i \<in> set (ch (khash k)). rkey (recs im ! i) = k \<and> data_of im (recs im ! i) = d)"
proof
  assume "lookup im ch k = Some d"
  then show "\<exists>i \<in> set (ch (khash k)). rkey (recs im ! i) = k \<and> data_of im (recs im ! i) = d"
    by (auto simp: lookup_def find_Some_iff)
next
  assume "\<exists>i \<in> set (ch (khash k)). rkey (recs im ! i) = k \<and> data_of im (recs im ! i) = d"
  then obtain i where i: "i \<in> set (ch (khash k))" "rkey (recs im ! i) = k"
    "data_of im (recs im ! i) = d" by blast
  then have "List.find (\<lambda>i. rkey (recs im ! i) = k) (ch (khash k)) \<noteq> None"
    by (auto simp: find_None_iff)
  then obtain j where j: "List.find (\<lambda>i. rkey (recs im ! i) = k) (ch (khash k)) = Some j" by blast
  then have "j \<in> set (ch (khash k))" "rkey (recs im ! j) = k"
    by (auto simp: find_Some_iff)
  with i layout_keys [OF assms, of "khash k"] have "i = j"
    by (auto simp: distinct_map inj_on_def)
  with i j show "lookup im ch k = Some d" by (simp add: lookup_def)
qed

lemma lookup_None_iff:
  "lookup im ch k = None \<longleftrightarrow> (\<forall>i \<in> set (ch (khash k)). rkey (recs im ! i) \<noteq> k)"
  by (auto simp: lookup_def find_None_iff)

lemma map_eqI: "(\<And>k d. f k = Some d \<longleftrightarrow> g k = Some d) \<Longrightarrow> f = (g :: 'a \<rightharpoonup> 'b)"
  by (rule ext) (metis not_None_eq)

section \<open>Data records\<close>

definition span :: "irec \<Rightarrow> nat \<times> nat" where
  "span r = (roff r, rlen r)"

lemma span_rptr [simp]: "span (r\<lparr>rptr := p\<rparr>) = span r"
  by (simp add: span_def)

lemma data_ok_cong:
  assumes "map span (recs im') = map span (recs im)" "dat im' = dat im" "data_ok im"
  shows "data_ok im'"
proof -
  have l: "length (recs im') = length (recs im)" using assms(1) map_eq_imp_length_eq by blast
  have s: "roff (recs im' ! i) = roff (recs im ! i)" "rlen (recs im' ! i) = rlen (recs im ! i)"
    if "i < length (recs im)" for i
    using arg_cong [OF assms(1), of "\<lambda>xs. xs ! i"] that l by (auto simp: span_def)
  show ?thesis
    using assms(2,3) s l unfolding data_ok_def all_set_conv_all_nth apart_def in_dat_def by simp
qed

lemma data_of_span: "span r = span s \<Longrightarrow> data_of im r = data_of im s"
  by (simp add: data_of_def span_def)

lemma overwrite_data:
  assumes "o' + length s \<le> length f"
  shows "overwrite o' s f = take o' f @ s @ drop (o' + length s) f"
  using assms by (simp add: overwrite_def)

lemma nth_overwrite:
  assumes "o' + length s \<le> length f" "k < length f"
  shows "overwrite o' s f ! k = (if o' \<le> k \<and> k < o' + length s then s ! (k - o') else f ! k)"
  using assms by (auto simp: overwrite_data nth_append)

lemma data_write:
  assumes d: "data_ok im" and i: "i < length (recs im)" and s: "is_cstr s"
    and len: "length s + 1 = rlen (recs im ! i)"
  defines "im' \<equiv> im\<lparr>dat := overwrite (roff (recs im ! i)) (s @ [NEWLINE]) (dat im)\<rparr>"
  shows "data_ok im'"
    and "data_of im' (recs im ! i) = s"
    and "\<And>j. j < length (recs im) \<Longrightarrow> j \<noteq> i \<Longrightarrow> data_of im' (recs im ! j) = data_of im (recs im ! j)"
proof -
  let ?r = "recs im ! i" and ?f = "dat im"
  have fit: "roff ?r + length (s @ [NEWLINE]) \<le> length ?f"
    using d i len by (auto simp: data_ok_def in_dat_def)
  have lf: "length (dat im') = length ?f" using fit by (simp add: im'_def overwrite_data)
  have nth: "dat im' ! k = (if roff ?r \<le> k \<and> k < roff ?r + rlen ?r then (s @ [NEWLINE]) ! (k - roff ?r)
      else ?f ! k)" if "k < length ?f" for k
    using nth_overwrite [OF fit that] len by (simp add: im'_def)
  have cstr: "is_cstr (dat im')"
    using d s fit by (auto simp: im'_def data_ok_def overwrite_data is_cstr_def
        dest: in_set_takeD in_set_dropD)
  have sep: "apart (recs im ! j) ?r" if "j < length (recs im)" "j \<noteq> i" for j
    using d i that by (auto simp: data_ok_def)
  have rj: "0 < rlen (recs im ! j)" "roff (recs im ! j) + rlen (recs im ! j) \<le> length ?f"
    "?f ! (roff (recs im ! j) + rlen (recs im ! j) - 1) = NEWLINE" if "j < length (recs im)" for j
    using d that by (auto simp: data_ok_def in_dat_def)
  have nl: "dat im' ! (roff (recs im ! j) + rlen (recs im ! j) - 1) = NEWLINE"
    if j: "j < length (recs im)" for j
  proof (cases "j = i")
    case True
    then have "roff ?r + rlen ?r - 1 = roff ?r + length s" using len by simp
    then show ?thesis using True rj [OF j] len by (simp add: nth)
  next
    case False
    then show ?thesis using rj [OF j] sep [OF j False] by (auto simp: nth apart_def)
  qed
  have "recs im' = recs im" by (simp add: im'_def)
  then show "data_ok im'"
    using d cstr nl rj lf unfolding data_ok_def all_set_conv_all_nth in_dat_def by simp
  show "data_of im' ?r = s"
    using fit len by (simp add: data_of_def im'_def overwrite_data)
  show "data_of im' (recs im ! j) = data_of im (recs im ! j)" if j: "j < length (recs im)" "j \<noteq> i" for j
    unfolding data_of_def
  proof (rule nth_equalityI)
    show "length (take (rlen (recs im ! j) - 1) (drop (roff (recs im ! j)) (dat im')))
        = length (take (rlen (recs im ! j) - 1) (drop (roff (recs im ! j)) (dat im)))"
      using lf by simp
    fix k assume "k < length (take (rlen (recs im ! j) - 1) (drop (roff (recs im ! j)) (dat im')))"
    then show "take (rlen (recs im ! j) - 1) (drop (roff (recs im ! j)) (dat im')) ! k =
        take (rlen (recs im ! j) - 1) (drop (roff (recs im ! j)) (dat im)) ! k"
      using rj [OF j(1)] sep [OF j] lf by (auto simp: nth apart_def)
  qed
qed

section \<open>Deletion\<close>

definition blanked :: "irec \<Rightarrow> nat \<Rightarrow> irec" where
  "blanked r p = r\<lparr>rptr := p, rkey := replicate (length (rkey r)) SPACE\<rparr>"

definition blank_data :: "image \<Rightarrow> nat \<Rightarrow> image" where
  "blank_data im i = im\<lparr>dat := overwrite (roff (recs im ! i))
     (replicate (rlen (recs im ! i) - 1) SPACE @ [NEWLINE]) (dat im)\<rparr>"

definition img_delete :: "image \<Rightarrow> loc \<Rightarrow> nat \<Rightarrow> image" where
  "img_delete im l i = set_ptr
     (set_ptr ((blank_data im i)\<lparr>recs := (recs im)[i := blanked (recs im ! i) (free im)]\<rparr>)
        Lfree (pos (recs im) i)) l (rptr (recs im ! i))"

lemma length_rec_body:
  "length (rec_body r) = length (rkey r) + length (show_nat (roff r)) + length (show_nat (rlen r)) + 3"
  by (simp add: rec_body_def idx_body_def)

lemma blanked_simps [simp]:
  "rptr (blanked r p) = p" "roff (blanked r p) = roff r" "rlen (blanked r p) = rlen r"
  "blank (rkey (blanked r p))" "span (blanked r p) = span r"
  "rkey (blanked r p) = replicate (length (rkey r)) SPACE"
  "length (rec_body (blanked r p)) = length (rec_body r)"
  by (simp_all add: blanked_def blank_def span_def length_rec_body)

lemma blanked_ok: "ok_rec r \<Longrightarrow> ok_ptr p \<Longrightarrow> ok_rec (blanked r p)"
  unfolding ok_rec_def blanked_simps by auto

lemma blank_data_simps [simp]:
  "recs (blank_data im i) = recs im" "tbl (blank_data im i) = tbl im" "free (blank_data im i) = free im"
  by (simp_all add: blank_data_def)

lemma ok_image_upd:
  "ok_image im \<Longrightarrow> ok_rec r \<Longrightarrow> ok_image (im\<lparr>recs := (recs im)[i := r]\<rparr>)"
  by (auto simp: ok_image_def dest!: set_update_subset_insert [THEN subsetD])

lemma ok_image_dat [simp]: "ok_image (im\<lparr>dat := d\<rparr>) = ok_image im"
  by (simp add: ok_image_def)

lemma set_ptr_parts:
  assumes "ok_image im" "ok_loc im l" "ok_ptr p"
  shows "length (recs (set_ptr im l p)) = length (recs im)" "dat (set_ptr im l p) = dat im"
    "map span (recs (set_ptr im l p)) = map span (recs im)"
    "(\<lambda>j. rkey (recs (set_ptr im l p) ! j)) = (\<lambda>j. rkey (recs im ! j))"
    "pos (recs (set_ptr im l p)) = pos (recs im)"
proof -
  show "length (recs (set_ptr im l p)) = length (recs im)" by (cases l) auto
  show "dat (set_ptr im l p) = dat im" by (cases l) auto
  show "map span (recs (set_ptr im l p)) = map span (recs im)"
    using assms(2) by (cases l) (auto simp: map_update list_update_same_conv)
  show "(\<lambda>j. rkey (recs (set_ptr im l p) ! j)) = (\<lambda>j. rkey (recs im ! j))"
    using assms by (cases l) (auto simp: nth_list_update fun_eq_iff)
  show "pos (recs (set_ptr im l p)) = pos (recs im)"
  proof (cases l)
    case (Lrec i)
    then have "ok_ptr (rptr (recs im ! i))" using assms by (auto simp: ok_image_def ok_rec_def)
    then show ?thesis using assms Lrec by (auto simp: pos_update)
  qed auto
qed

text \<open>The pointer functions after redirecting the pointer in front of a record.\<close>

lemma set_ptr_prev:
  assumes "ok_loc im (prev_loc l xs)"
  shows "(\<lambda>j. rptr (recs (set_ptr im (prev_loc l xs) p) ! j)) =
      (if xs = [] then \<lambda>j. rptr (recs (set_ptr im l p) ! j) else relink xs p (\<lambda>j. rptr (recs im ! j)))"
    and "(\<lambda>g. tbl (set_ptr im (prev_loc l xs) p) ! g) =
      (if xs = [] then \<lambda>g. tbl (set_ptr im l p) ! g else (\<lambda>g. tbl im ! g))"
    and "free (set_ptr im (prev_loc l xs) p) = (if xs = [] then free (set_ptr im l p) else free im)"
  using assms by (auto simp: prev_loc_def relink_def upd_rptr fun_eq_iff nth_list_update)

lemma layout_delete:
  assumes L: "layout im ch fl" and h: "h < NHASH_DEF" and c: "ch h = xs @ i # ys"
  defines "im' \<equiv> img_delete im (prev_loc (Ltbl h) xs) i"
  shows "layout im' (ch(h := xs @ ys)) (i # fl)"
    and "map span (recs im') = map span (recs im)"
    and "\<And>j. j \<noteq> i \<Longrightarrow> rkey (recs im' ! j) = rkey (recs im ! j)"
    and "dat im' = dat (blank_data im i)"
proof -
  let ?r = "recs im ! i" and ?l = "prev_loc (Ltbl h) xs"
  let ?b = "blanked ?r (free im)"
  define im1 where "im1 = (blank_data im i)\<lparr>recs := (recs im)[i := ?b]\<rparr>"
  define im2 where "im2 = set_ptr im1 Lfree (pos (recs im) i)"
  have im': "im' = set_ptr im2 ?l (rptr ?r)" by (simp add: im'_def img_delete_def im1_def im2_def)
  have ok: "ok_image im" using L by (rule layout_ok)
  have tl: "h < length (tbl im)" using ok h by (simp add: ok_image_def)
  have cp: "chain_of im (get_ptr im (Ltbl h)) (xs @ i # ys)" using layout_chain [OF L h] c by simp
  have P: "ok_ptr (pos (recs im) i)" "ok_loc im ?l" "i < length (recs im)"
    using chain_pos_ok [OF ok _ cp] tl by auto
  have okr: "ok_rec ?r" using layout_rec_ok [OF L P(3)] .
  have okb: "ok_rec ?b" using okr ok by (simp add: blanked_ok ok_image_def)
  have ok1: "ok_image im1"
    using ok_image_upd [of "blank_data im i" ?b i] ok okb by (simp add: im1_def blank_data_def)
  have ok2: "ok_image im2" using set_ptr_ok [OF ok1, of Lfree] P by (simp add: im2_def)
  have r2: "recs im2 = (recs im)[i := ?b]" "tbl im2 = tbl im" "free im2 = pos (recs im) i"
    "dat im2 = dat (blank_data im i)" by (simp_all add: im2_def im1_def)
  have loc2: "ok_loc im2 ?l" using P(2) r2 by (cases ?l) auto
  have okp: "ok_ptr (rptr ?r)" using okr by (simp add: ok_rec_def)
  note parts = set_ptr_parts [OF ok2 loc2 okp, folded im']
  have ok': "ok_image im'" unfolding im' by (rule set_ptr_ok [OF ok2 loc2 okp])
  have "length (enc_rec ?b) = length (enc_rec ?r)" using okr okb by (simp add: length_enc_rec)
  then have pos': "pos (recs im') = pos (recs im)" using parts(5) r2 by (auto simp: pos_update)
  have rk: "(\<lambda>j. rkey (recs im' ! j)) = (\<lambda>j. rkey (recs im ! j))(i := rkey ?b)"
    using parts(4) r2 upd_rkey [OF P(3), of ?b] by simp
  have rp: "(\<lambda>j. rptr (recs im' ! j)) =
      relink xs (rptr ?r) ((\<lambda>j. rptr (recs im ! j))(i := free im))"
    unfolding im' set_ptr_prev(1) [OF loc2] using r2 upd_rptr [OF P(3), of ?b] by auto
  have tb: "(\<lambda>g. tbl im' ! g) = (if xs = [] then (\<lambda>g. tbl im ! g)(h := rptr ?r) else (\<lambda>g. tbl im ! g))"
    unfolding im' set_ptr_prev(2) [OF loc2] using r2 upd_tbl [OF tl] by auto
  have fr: "free im' = pos (recs im) i" unfolding im' set_ptr_prev(3) [OF loc2] using r2 by simp
  have ln: "length (recs im') = length (recs im)" using parts(1) r2 by simp
  have "blank (rkey ?b)" by (rule blanked_simps)
  then have "shape (length (recs im)) (pos (recs im)) (relink xs (rptr ?r) ((\<lambda>j. rptr (recs im ! j))(i := free im)))
     ((\<lambda>j. rkey (recs im ! j))(i := rkey ?b))
     (if xs = [] then (\<lambda>g. tbl im ! g)(h := rptr ?r) else (\<lambda>g. tbl im ! g)) (pos (recs im) i)
     (ch(h := xs @ ys)) (i # fl)"
    using L h c unfolding layout_def by (intro shape_delete) auto
  then show "layout im' (ch(h := xs @ ys)) (i # fl)"
    unfolding layout_def rp rk tb fr pos' ln using ok' by simp
  show "map span (recs im') = map span (recs im)"
    using parts(3) r2 by (simp add: map_update list_update_same_conv P)
  show "rkey (recs im' ! j) = rkey (recs im ! j)" if "j \<noteq> i" for j
    using fun_cong [OF rk, of j] that by simp
  show "dat im' = dat (blank_data im i)" using parts(2) r2 by simp
qed

lemma span_nth:
  "map span rs' = map span rs \<Longrightarrow> i < length rs \<Longrightarrow> span (rs' ! i) = span (rs ! i)"
  by (metis length_map nth_map)

lemma lookup_delete:
  assumes L: "layout im ch fl" and D: "data_ok im" and c: "ch (khash key) = xs @ i # ys"
    and k: "rkey (recs im ! i) = key"
  defines "im' \<equiv> img_delete im (prev_loc (Ltbl (khash key)) xs) i"
  shows "data_ok im'" and "lookup im' (ch(khash key := xs @ ys)) = (lookup im ch)(key := None)"
proof -
  let ?h = "khash key" and ?ch = "ch(khash key := xs @ ys)"
  note del = layout_delete [OF L khash_less c, folded im'_def]
  have i: "i < length (recs im)" using layout_live [OF L khash_less, of i key] c by simp
  have len: "length (recs im') = length (recs im)" using del(2) map_eq_imp_length_eq by blast
  have rl: "0 < rlen (recs im ! i)" using layout_rec_ok [OF L i] by (simp add: ok_rec_def)
  have w: "data_ok (blank_data im i)"
    "\<And>j. j < length (recs im) \<Longrightarrow> j \<noteq> i \<Longrightarrow> data_of (blank_data im i) (recs im ! j) = data_of im (recs im ! j)"
    using data_write [OF D i, of "replicate (rlen (recs im ! i) - 1) SPACE"] rl
    by (simp_all add: blank_data_def)
  show "data_ok im'" using data_ok_cong [OF _ _ w(1)] del(2,4) by simp
  have data: "data_of im' (recs im' ! j) = data_of im (recs im ! j)" if "j < length (recs im)" "j \<noteq> i" for j
    using w(2) [OF that] data_of_span [OF span_nth [OF del(2) that(1)]] del(4)
    by (simp add: data_of_def)
  have d: "distinct (xs @ i # ys)" using layout_distinct [OF L khash_less, of key] c by simp
  have other: "rkey (recs im ! j) \<noteq> key" if "j \<in> set (xs @ ys)" for j
    using layout_keys [OF L khash_less, of key] c k that by (auto simp: image_iff)
  have hi: "khash (rkey (recs im ! i)) = ?h" using k by simp
  have ni: "i \<notin> set (ch (khash k'))" if "khash k' \<noteq> ?h" for k'
    using layout_live [OF L khash_less, of i k'] hi that by auto
  have sub: "j \<in> set (?ch (khash k')) \<longleftrightarrow> j \<in> set (ch (khash k')) \<and> j \<noteq> i" for j k'
    using d c ni [of k'] by (cases "khash k' = ?h") auto
  have lt: "j < length (recs im) \<and> j \<noteq> i" if "j \<in> set (?ch (khash k'))" for j k'
    using that layout_live [OF L khash_less, of j k'] unfolding sub by blast
  show "lookup im' ?ch = (lookup im ch)(key := None)"
  proof (rule map_eqI)
    fix k' v
    have "lookup im' ?ch k' = Some v \<longleftrightarrow>
      (\<exists>j \<in> set (?ch (khash k')). rkey (recs im' ! j) = k' \<and> data_of im' (recs im' ! j) = v)"
      by (rule lookup_Some_iff [OF del(1)])
    also have "\<dots> \<longleftrightarrow>
      (\<exists>j \<in> set (?ch (khash k')). rkey (recs im ! j) = k' \<and> data_of im (recs im ! j) = v)"
      using lt del(3) data by (metis (no_types, lifting))
    also have "\<dots> \<longleftrightarrow> ((lookup im ch)(key := None)) k' = Some v"
      using lookup_Some_iff [OF L, of k' v] sub [of _ k'] other k c
      by (cases "k' = key") auto
    finally show "lookup im' ?ch k' = Some v \<longleftrightarrow> ((lookup im ch)(key := None)) k' = Some v" .
  qed
qed

section \<open>Appending a record\<close>

definition img_append :: "image \<Rightarrow> string \<Rightarrow> string \<Rightarrow> image" where
  "img_append im key s = (let h = khash key in
     set_ptr (im\<lparr>recs := recs im @ [\<lparr>rptr = tbl im ! h, rkey = key, roff = length (dat im),
                                    rlen = length s + 1\<rparr>],
                 dat := dat im @ s @ [NEWLINE]\<rparr>)
       (Ltbl h) (pos (recs im) (length (recs im))))"

text \<open>Keys and data a program may store, as the file format and its limits require.\<close>

definition valid_key :: "string \<Rightarrow> bool" where
  "valid_key key \<longleftrightarrow> is_cstr key \<and> SEP \<notin> set key \<and> \<not> blank key \<and> length key \<le> 1000"

definition valid_data :: "string \<Rightarrow> bool" where
  "valid_data s \<longleftrightarrow> is_cstr s \<and> DATLEN_MIN \<le> length s + 1 \<and> length s + 1 \<le> DATLEN_MAX"

lemma valid_key_nonempty: "valid_key key \<Longrightarrow> 0 < length key"
  by (auto simp: valid_key_def blank_def)

lemma new_rec_ok:
  assumes "valid_key key" "valid_data s" "ok_ptr p" "n < 10 ^ 15"
  shows "ok_rec \<lparr>rptr = p, rkey = key, roff = n, rlen = length s + 1\<rparr>" (is "ok_rec ?r")
proof -
  have "length (show_nat n) \<le> 15" using assms(4) by (intro length_show_nat_le) simp_all
  moreover have "length (show_nat (length s + 1)) \<le> 4"
    using assms(2) by (intro length_show_nat_le) (simp_all add: valid_data_def DATLEN_MAX_def)
  moreover have "length (show_nat n) \<noteq> 0" "length (show_nat (length s + 1)) \<noteq> 0" by simp_all
  moreover have "length key \<noteq> 0" "length key \<le> 1000"
    using valid_key_nonempty [OF assms(1)] assms(1) by (simp_all add: valid_key_def)
  ultimately have "6 \<le> length (rec_body ?r)" "length (rec_body ?r) \<le> 1024"
    by (simp_all only: length_rec_body irec.simps)
  then show ?thesis
    using assms by (auto simp: ok_rec_def valid_key_def valid_data_def db_consts)
qed

text \<open>A record linked in at the head of its chain binds its key, when the other records keep key and data.\<close>

lemma lookup_linked:
  assumes "layout im ch fl" "layout im' ch' fl'" "ch' = ch(khash key := i # ch (khash key))"
    and "rkey (recs im' ! i) = key" "data_of im' (recs im' ! i) = s" "\<forall>j \<in> set (ch (khash key)). rkey (recs im ! j) \<noteq> key"
    and old: "\<And>k j. j \<in> set (ch (khash k)) \<Longrightarrow>
      rkey (recs im' ! j) = rkey (recs im ! j) \<and> data_of im' (recs im' ! j) = data_of im (recs im ! j)"
  shows "lookup im' ch' = (lookup im ch)(key \<mapsto> s)"
proof (rule map_eqI)
  fix k d
  show "lookup im' ch' k = Some d \<longleftrightarrow> ((lookup im ch)(key \<mapsto> s)) k = Some d"
    unfolding lookup_Some_iff [OF assms(2)] using lookup_Some_iff [OF assms(1), of k d] assms(3-6) old [of _ k] by auto
qed

lemma lookup_append:
  assumes L: "layout im ch fl" and D: "data_ok im" and v: "valid_key key" "valid_data s"
    and new: "lookup im ch key = None"
    and room: "length (enc_idx im) \<le> 9999999" "length (dat im) < 10 ^ 15"
  defines "im' \<equiv> img_append im key s" and "ch' \<equiv> ch(khash key := length (recs im) # ch (khash key))"
  shows "layout im' ch' fl" and "data_ok im'" and "lookup im' ch' = (lookup im ch)(key \<mapsto> s)"
proof -
  let ?h = "khash key" and ?n = "length (recs im)"
  let ?r = "\<lparr>rptr = tbl im ! ?h, rkey = key, roff = length (dat im), rlen = length s + 1\<rparr>"
  define im1 where "im1 = im\<lparr>recs := recs im @ [?r], dat := dat im @ s @ [NEWLINE]\<rparr>"
  have im': "im' = set_ptr im1 (Ltbl ?h) (pos (recs im) ?n)"
    by (simp add: im'_def img_append_def im1_def Let_def)
  have ok: "ok_image im" using L by (rule layout_ok)
  have tl: "?h < length (tbl im)" using ok by (simp add: ok_image_def)
  have okp: "ok_ptr (pos (recs im) ?n)" using room(1) enc_idx_size [OF ok] by (simp add: ok_ptr_def)
  have "ok_ptr (tbl im ! ?h)" using ok tl by (auto simp: ok_image_def)
  then have okr: "ok_rec ?r" using new_rec_ok [OF v] room by simp
  have ok1: "ok_image im1" using ok okr by (auto simp: ok_image_def im1_def)
  have r1: "recs im1 = recs im @ [?r]" "tbl im1 = tbl im" "free im1 = free im"
    "dat im1 = dat im @ s @ [NEWLINE]" by (simp_all add: im1_def)
  have r': "recs im' = recs im @ [?r]" "tbl im' = (tbl im)[?h := pos (recs im) ?n]" "free im' = free im"
    "dat im' = dat im @ s @ [NEWLINE]" by (simp_all add: im' r1)
  have ok': "ok_image im'" unfolding im' using ok1 okp tl r1 by (intro set_ptr_ok) simp_all
  have keys: "\<not> blank key" "\<forall>i \<in> set (ch ?h). rkey (recs im ! i) \<noteq> key"
    using v new by (auto simp: valid_key_def lookup_None_iff)
  have base: "shape (Suc ?n) (pos (recs im')) ((\<lambda>i. rptr (recs im ! i))(?n := tbl im ! ?h))
     ((\<lambda>i. rkey (recs im ! i))(?n := key)) ((\<lambda>h. tbl im ! h)(?h := pos (recs im') ?n)) (free im) ch' fl"
    unfolding ch'_def using L keys unfolding layout_def by (intro shape_append) (auto simp: r')
  have "shape (Suc ?n) (pos (recs im')) (\<lambda>i. rptr (recs im' ! i)) (\<lambda>i. rkey (recs im' ! i))
     (\<lambda>h. tbl im' ! h) (free im) ch' fl"
    by (rule shape_cong [OF _ _ base]) (use tl in \<open>auto simp: nth_append nth_list_update r'\<close>)
  then show layout': "layout im' ch' fl" using ok' r' by (simp add: layout_def)
  have old: "in_dat (dat im) r" if "r \<in> set (recs im)" for r using D that by (simp add: data_ok_def)
  have grow: "in_dat (dat im') r" if "in_dat (dat im) r" for r
    using that by (auto simp: in_dat_def r' nth_append)
  have "in_dat (dat im') ?r" by (simp add: in_dat_def r' nth_append)
  moreover have "apart (recs im ! j) ?r" "apart ?r (recs im ! j)" if "j < ?n" for j
    using old [OF nth_mem [OF that]] by (auto simp: apart_def in_dat_def)
  ultimately show "data_ok im'"
    using D old grow v(2) by (auto simp: data_ok_def r' nth_append less_Suc_eq valid_data_def)
  have "data_of im' r = data_of im r" if "r \<in> set (recs im)" for r
    using old [OF that] by (simp add: data_of_def r' in_dat_def)
  then have data: "data_of im' (recs im' ! j) = data_of im (recs im ! j)" if "j < ?n" for j
    using that by (simp add: r' nth_append)
  have dn: "data_of im' ?r = s" by (simp add: data_of_def r')
  have lt: "j < ?n" if "j \<in> set (ch (khash k'))" for j k'
    using layout_live [OF L khash_less that] by simp
  show "lookup im' ch' = (lookup im ch)(key \<mapsto> s)"
    by (rule lookup_linked [OF L layout' _ _ _ keys(2), of "?n"]) (use dn data lt in \<open>auto simp: ch'_def r' nth_append\<close>)
qed

section \<open>Overwriting a data record in place\<close>

definition img_write :: "image \<Rightarrow> nat \<Rightarrow> string \<Rightarrow> image" where
  "img_write im i s = im\<lparr>dat := overwrite (roff (recs im ! i)) (s @ [NEWLINE]) (dat im)\<rparr>"

lemma img_write_simps [simp]:
  "recs (img_write im i s) = recs im" "tbl (img_write im i s) = tbl im"
  "free (img_write im i s) = free im" "ok_image (img_write im i s) = ok_image im"
  "enc_idx (img_write im i s) = enc_idx im"
  by (simp_all add: img_write_def enc_idx_def enc_hdr_def)

lemma lookup_write:
  assumes L: "layout im ch fl" and D: "data_ok im" and i: "i \<in> set (ch (khash key))"
    and k: "rkey (recs im ! i) = key" and s: "is_cstr s" "length s + 1 = rlen (recs im ! i)"
  defines "im' \<equiv> img_write im i s"
  shows "layout im' ch fl" and "data_ok im'" and "lookup im' ch = (lookup im ch)(key \<mapsto> s)"
proof -
  show layout': "layout im' ch fl" using L by (simp add: layout_def im'_def)
  have lt: "j < length (recs im)" if "j \<in> set (ch (khash k'))" for j k'
    using layout_live [OF L khash_less that] by simp
  note w = data_write [OF D lt [OF i] s, folded img_write_def, folded im'_def]
  show "data_ok im'" by (rule w)
  have uniq: "j = i" if "j \<in> set (ch (khash key))" "rkey (recs im ! j) = key" for j
    using layout_keys [OF L khash_less, of key] i k that by (auto simp: distinct_map inj_on_def)
  have r': "recs im' = recs im" by (simp add: im'_def)
  show "lookup im' ch = (lookup im ch)(key \<mapsto> s)"
  proof (rule map_eqI)
    fix k' d
    show "lookup im' ch k' = Some d \<longleftrightarrow> ((lookup im ch)(key \<mapsto> s)) k' = Some d"
    proof (cases "k' = key")
      case True
      have "(\<exists>j \<in> set (ch (khash key)). rkey (recs im ! j) = key \<and> data_of im' (recs im ! j) = d) \<longleftrightarrow> s = d"
        using uniq i k w(2) by blast
      then show ?thesis
        unfolding lookup_Some_iff [OF layout'] r' by (simp add: True)
    next
      case False
      then have "data_of im' (recs im ! j) = data_of im (recs im ! j)"
        if "j \<in> set (ch (khash k'))" "rkey (recs im ! j) = k'" for j
        using that k lt [OF that(1)] by (intro w(3)) auto
      then show ?thesis
        unfolding lookup_Some_iff [OF layout'] r' using False lookup_Some_iff [OF L, of k' d] by auto
    qed
  qed
qed

section \<open>Reusing a free record\<close>

definition img_reuse :: "image \<Rightarrow> nat list \<Rightarrow> nat \<Rightarrow> string \<Rightarrow> string \<Rightarrow> image" where
  "img_reuse im xs i key s =
    (let im1 = img_write (set_ptr im (prev_loc Lfree xs) (rptr (recs im ! i))) i s in
     set_ptr (im1\<lparr>recs := (recs im1)[i := (recs im ! i)\<lparr>rptr := tbl im ! khash key, rkey := key\<rparr>]\<rparr>)
       (Ltbl (khash key)) (pos (recs im) i))"

lemma reuse_rec:
  assumes "ok_rec r" "ok_ptr p" "valid_key key" "length (rkey r) = length key"
  shows "ok_rec (r\<lparr>rptr := p, rkey := key\<rparr>)" "length (rec_body (r\<lparr>rptr := p, rkey := key\<rparr>)) = length (rec_body r)"
    "span (r\<lparr>rptr := p, rkey := key\<rparr>) = span r"
proof -
  show l: "length (rec_body (r\<lparr>rptr := p, rkey := key\<rparr>)) = length (rec_body r)" using assms(4) by (simp add: length_rec_body)
  then show "ok_rec (r\<lparr>rptr := p, rkey := key\<rparr>)" using assms(1-3) by (simp add: ok_rec_def valid_key_def)
qed (simp add: span_def)

text \<open>The image after the reuse of record \<open>i\<close> of the free list.\<close>

lemma reuse_parts:
  fixes s :: string
  assumes L: "layout im ch fl" and v: "valid_key key" and fl: "fl = xs @ i # ys" and len: "length (rkey (recs im ! i)) = length key"
  defines "im' \<equiv> img_reuse im xs i key s"
  shows "ok_image im'" "map span (recs im') = map span (recs im)" "pos (recs im') = pos (recs im)"
    "(\<lambda>j. rkey (recs im' ! j)) = (\<lambda>j. rkey (recs im ! j))(i := key)"
    "(\<lambda>j. rptr (recs im' ! j)) = (relink xs (rptr (recs im ! i)) (\<lambda>j. rptr (recs im ! j)))(i := tbl im ! khash key)"
    "(\<lambda>g. tbl im' ! g) = (\<lambda>g. tbl im ! g)(khash key := pos (recs im) i)"
    "free im' = (if xs = [] then rptr (recs im ! i) else free im)" "dat im' = dat (img_write im i s)" "i < length (recs im)"
proof -
  let ?h = "khash key" and ?r = "recs im ! i" and ?l = "prev_loc Lfree xs"
  let ?b = "?r\<lparr>rptr := tbl im ! ?h, rkey := key\<rparr>"
  define im1 where "im1 = set_ptr im ?l (rptr ?r)"
  define im2 where "im2 = (img_write im1 i s)\<lparr>recs := (recs im1)[i := ?b]\<rparr>"
  have im': "im' = set_ptr im2 (Ltbl ?h) (pos (recs im) i)" by (simp add: im'_def img_reuse_def im1_def im2_def Let_def)
  have ok: "ok_image im" using L by (rule layout_ok)
  have cf: "chain_of im (get_ptr im Lfree) (xs @ i # ys)" using layout_free [OF L] fl by simp
  have P: "ok_ptr (pos (recs im) i)" "ok_loc im ?l" "i < length (recs im)" using chain_pos_ok [OF ok _ cf] by auto
  then show "i < length (recs im)" by simp
  have okr: "ok_rec ?r" using layout_rec_ok [OF L P(3)] .
  have tl: "?h < length (tbl im)" "ok_ptr (tbl im ! ?h)" using ok by (auto simp: ok_image_def)
  note b = reuse_rec [OF okr tl(2) v len]
  have okp: "ok_ptr (rptr ?r)" using okr by (simp add: ok_rec_def)
  note p1 = set_ptr_parts [OF ok P(2) okp, folded im1_def]
  have ok1: "ok_image im1" unfolding im1_def by (rule set_ptr_ok [OF ok P(2) okp])
  have t1: "tbl im1 = tbl im" by (auto simp: im1_def prev_loc_def)
  have ok2: "ok_image im2" unfolding im2_def using ok_image_upd [of "img_write im1 i s" ?b i] ok1 b(1) by simp
  have tl2: "ok_loc im2 (Ltbl ?h)" using tl t1 by (simp add: im2_def)
  have i1: "i < length (recs im1)" using P p1 by simp
  show "ok_image im'" unfolding im' by (rule set_ptr_ok [OF ok2 tl2 P(1)])
  have r': "recs im' = (recs im1)[i := ?b]" "tbl im' = (tbl im)[?h := pos (recs im) i]" "free im' = free im1"
    "dat im' = dat (img_write im i s)"
    using p1(2) span_nth [OF p1(3) P(3)] by (auto simp: im' im2_def t1 img_write_def span_def)
  then show "dat im' = dat (img_write im i s)" by simp
  show "map span (recs im') = map span (recs im)"
    using p1(3) P(3) b(3) by (simp add: r' map_update list_update_same_conv)
  have "length (rec_body (recs im1 ! i)) = length (rec_body ?r)"
    using fun_cong [OF p1(4), of i] span_nth [OF p1(3) P(3)] by (simp add: length_rec_body span_def)
  moreover have "ok_rec (recs im1 ! i)" using ok1 i1 by (simp add: ok_image_def)
  ultimately have "length (enc_rec ?b) = length (enc_rec (recs im1 ! i))" using b by (simp add: length_enc_rec)
  then show "pos (recs im') = pos (recs im)" using p1(5) by (auto simp: r' pos_update)
  show "(\<lambda>j. rkey (recs im' ! j)) = (\<lambda>j. rkey (recs im ! j))(i := key)" using p1(4) upd_rkey [OF i1, of ?b] by (simp add: r')
  show "(\<lambda>j. rptr (recs im' ! j)) = (relink xs (rptr ?r) (\<lambda>j. rptr (recs im ! j)))(i := tbl im ! ?h)"
    using set_ptr_prev(1) [OF P(2), of "rptr ?r", folded im1_def] upd_rptr [OF i1, of ?b] by (auto simp: r')
  show "(\<lambda>g. tbl im' ! g) = (\<lambda>g. tbl im ! g)(?h := pos (recs im) i)" unfolding r' by (rule upd_tbl [OF tl(1)])
  show "free im' = (if xs = [] then rptr ?r else free im)"
    using set_ptr_prev(3) [OF P(2), of "rptr ?r", folded im1_def] by (simp add: r')
qed

lemma lookup_reuse:
  assumes L: "layout im ch fl" and D: "data_ok im" and v: "valid_key key" "valid_data s"
    and new: "lookup im ch key = None" and fl: "fl = xs @ i # ys"
    and len: "length (rkey (recs im ! i)) = length key" "rlen (recs im ! i) = length s + 1"
  defines "im' \<equiv> img_reuse im xs i key s" and "ch' \<equiv> ch(khash key := i # ch (khash key))"
  shows "layout im' ch' (xs @ ys)" and "data_ok im'" and "lookup im' ch' = (lookup im ch)(key \<mapsto> s)"
proof -
  let ?r = "recs im ! i"
  note p = reuse_parts(1-8) [OF L v(1) fl len(1), where s = s, folded im'_def] reuse_parts(9) [OF L v(1) fl len(1)]
  have ln: "length (recs im') = length (recs im)" using p(2) by (metis length_map)
  have keys: "\<not> blank key" "\<forall>j \<in> set (ch (khash key)). rkey (recs im ! j) \<noteq> key"
    using v new by (auto simp: valid_key_def lookup_None_iff)
  have "shape (length (recs im)) (pos (recs im))
     ((relink xs (rptr ?r) (\<lambda>j. rptr (recs im ! j)))(i := tbl im ! khash key))
     ((\<lambda>j. rkey (recs im ! j))(i := key)) ((\<lambda>g. tbl im ! g)(khash key := pos (recs im) i))
     (if xs = [] then rptr ?r else free im) ch' (xs @ ys)"
    unfolding ch'_def using L fl keys unfolding layout_def by (intro shape_reuse) auto
  then show layout': "layout im' ch' (xs @ ys)" unfolding layout_def p(3-7) ln using p(1) by simp
  have "is_cstr s" "length s + 1 = rlen ?r" using v len by (simp_all add: valid_data_def)
  note w = data_write [OF D p(9) this, folded img_write_def]
  show "data_ok im'" by (rule data_ok_cong [OF _ _ w(1)]) (use p(2,8) in auto)
  have data: "data_of im' (recs im' ! j) = data_of (img_write im i s) (recs im ! j)" if "j < length (recs im)" for j
    using data_of_span [OF span_nth [OF p(2) that]] by (simp add: data_of_def p(8))
  have rkj: "rkey (recs im' ! j) = (if j = i then key else rkey (recs im ! j))" for j using fun_cong [OF p(4), of j] by simp
  have live: "j < length (recs im) \<and> j \<noteq> i" if "j \<in> set (ch (khash k'))" for j k'
    using layout_live [OF L khash_less that] fl by auto
  show "lookup im' ch' = (lookup im ch)(key \<mapsto> s)"
  proof (rule lookup_linked [OF L layout' _ _ _ keys(2), of i])
    show "data_of im' (recs im' ! i) = s" using data [OF p(9)] w(2) by simp
    show "rkey (recs im' ! j) = rkey (recs im ! j) \<and> data_of im' (recs im' ! j) = data_of im (recs im ! j)"
      if "j \<in> set (ch (khash k'))" for k' j
      using live [OF that] rkj [of j] data [of j] w(3) [of j] by simp
  qed (simp_all add: ch'_def rkj)
qed

end
