(* ===== verification/Db_Ops.thy ===== *)
theory Db_Ops
  imports Db_Update
begin

text \<open>
  The library's operations on a database that represents a map: they return, release every lock
  they take and act on the map. Then the interface of a key-value store as a locale, the library's
  operations as an interpretation of it, and sequential access.
\<close>

section \<open>Finding and locking\<close>

definition coff :: "string \<Rightarrow> int" where
  "coff key = int ((khash key + 1) * PTR_SZ)"

definition chain_lock :: "string \<Rightarrow> bool \<Rightarrow> nat \<Rightarrow> ltype option" where
  "chain_lock key w = set_region (coff key) 1 (Some (if w then F_WRLCK else F_RDLCK)) (\<lambda>_. None)"

lemma coff_loc: "coff key = int (loc_off im (Ltbl (khash key)))"
  by (simp add: coff_def)

lemma coff_nonneg [simp]: "0 \<le> coff key" "int PTR_SZ \<le> coff key"
  by (simp_all add: coff_def PTR_SZ_def)

lemma chain_lock_free: "\<not> in_region (coff key) 1 b \<Longrightarrow> chain_lock key w b = None"
  by (simp add: chain_lock_def set_region_def)

lemma chain_lock_release [simp]: "set_region (coff key) 1 None (chain_lock key w) = (\<lambda>_. None)"
  by (simp add: chain_lock_def)

lemma chain_lock_0 [simp]: "chain_lock key w 0 = None"
  by (rule chain_lock_free) (simp add: in_region_def coff_def PTR_SZ_def)

lemma coff_less: "coff key < int HDR_LEN"
  using khash_less [of key] by (simp add: coff_def HDR_LEN_def db_consts)

lemma chain_lock_records: "HDR_LEN \<le> b \<Longrightarrow> chain_lock key w b = None"
  using coff_less [of key] by (intro chain_lock_free) (simp add: in_region_def)

lemma in_region_0 [simp]: "in_region 0 1 b \<longleftrightarrow> b = 0"
  by (auto simp: in_region_def)

lemma find_and_lock_eq:
  assumes v: "view db im (\<lambda>_. None)" and ok: "ok_image im"
  shows "\<exists>db1. db_find_and_lock db key w =
      bindR (db_find_loop (fsize (idxfd db1) + 2) db1 (int (tbl im ! khash key)) key)
        (\<lambda>(db, offset). Inr (db, if offset = 0 then -1 else 0)) \<and>
    view db1 im (chain_lock key w) \<and> chainoff db1 = coff key \<and> ptroff db1 = coff key"
proof -
  have co: "int (unat (db_hash db key)) * int PTR_SZ + hashoff db = coff key"
    using v by (simp add: view_def db_hash_def khash_def [symmetric] coff_def HASH_OFF_def PTR_SZ_def)
  let ?f = "(idxfd db)\<lparr>locks := chain_lock key w\<rparr>"
  let ?db = "db\<lparr>chainoff := coff key, ptroff := coff key, idxfd := ?f\<rparr>"
  have tl: "ok_loc im (Ltbl (khash key))" using ok by (simp add: ok_image_def)
  have "content (idxfd ?db) = enc_idx im" using v by (simp add: view_def)
  from db_readptr_image [OF this ok tl] have
    rd: "db_readptr ?db (coff key) =
      Inr (?db\<lparr>idxfd := ?f\<lparr>fpos := nat (coff key) + PTR_SZ\<rparr>\<rparr>, int (tbl im ! khash key))"
    by (simp add: coff_loc [of key im] del: loc_off.simps)
  let ?db1 = "?db\<lparr>idxfd := ?f\<lparr>fpos := nat (coff key) + PTR_SZ\<rparr>\<rparr>"
  have lk: "locks (idxfd db) = (\<lambda>_. None)" using v by (simp add: view_def)
  have "db_find_and_lock db key w =
      bindR (db_find_loop (fsize (idxfd ?db1) + 2) ?db1 (int (tbl im ! khash key)) key)
        (\<lambda>(db, offset). Inr (db, if offset = 0 then -1 else 0))"
    unfolding db_find_and_lock_def Let_def co
    using rd by (cases w) (simp_all add: locked_def lk chain_lock_def del: db_find_loop.simps)
  moreover have "view ?db1 im (chain_lock key w)" using v by (simp add: view_def)
  ultimately show ?thesis by (intro exI [of _ ?db1]) simp
qed

lemma view_content: "view db im lk \<Longrightarrow> content (idxfd db) = enc_idx im"
  by (simp add: view_def)

lemma view_fuel:
  assumes "view db im lk" "ok_image im" "chain_of im p is" "distinct is"
  shows "length is < fsize (idxfd db) + 2"
  using chain_length [OF assms(2-4)] view_content [OF assms(1)] by (simp add: fsize_def)

lemma find_miss:
  assumes v: "view db im (\<lambda>_. None)" and L: "layout im ch fl" and m: "lookup im ch key = None"
  shows "\<exists>db'. db_find_and_lock db key w = Inr (db', -1) \<and> view db' im (chain_lock key w) \<and>
    chainoff db' = coff key"
proof -
  have ok: "ok_image im" using L by (rule layout_ok)
  obtain db1 where db1: "db_find_and_lock db key w =
      bindR (db_find_loop (fsize (idxfd db1) + 2) db1 (int (tbl im ! khash key)) key)
        (\<lambda>(db, offset). Inr (db, if offset = 0 then -1 else 0))"
    "view db1 im (chain_lock key w)" "chainoff db1 = coff key"
    using find_and_lock_eq [OF v ok] by blast
  have c: "chain_of im (tbl im ! khash key) (ch (khash key))" by (rule layout_chain [OF L khash_less])
  have "\<forall>i \<in> set (ch (khash key)). rkey (recs im ! i) \<noteq> key" using m by (simp add: lookup_None_iff)
  from find_loop_miss [OF view_content [OF db1(2)] ok c
      view_fuel [OF db1(2) ok c layout_distinct [OF L khash_less]] this]
  obtain db' where "db_find_loop (fsize (idxfd db1) + 2) db1 (int (tbl im ! khash key)) key = Inr (db', 0)"
    "frame db1 db'" by blast
  with db1 show ?thesis by (auto simp: frame_def intro: frame_view [of db1])
qed

lemma lookup_split:
  assumes L: "layout im ch fl" and m: "lookup im ch key = Some d"
  obtains xs i ys where "ch (khash key) = xs @ i # ys" "rkey (recs im ! i) = key"
    "data_of im (recs im ! i) = d" "\<forall>j \<in> set xs. rkey (recs im ! j) \<noteq> key"
    "i < length (recs im)"
proof -
  obtain i where i: "i \<in> set (ch (khash key))" "rkey (recs im ! i) = key" "data_of im (recs im ! i) = d"
    using m unfolding lookup_Some_iff [OF L] by blast
  then obtain xs ys where s: "ch (khash key) = xs @ i # ys" by (meson split_list)
  have "\<forall>j \<in> set xs. rkey (recs im ! j) \<noteq> key"
    using layout_keys [OF L khash_less, of key] s i(2) by (force simp: image_iff)
  with s i layout_live [OF L khash_less i(1)] that show ?thesis by blast
qed

lemma find_hit:
  assumes v: "view db im (\<lambda>_. None)" and L: "layout im ch fl"
    and s: "ch (khash key) = xs @ i # ys" "rkey (recs im ! i) = key"
      "\<forall>j \<in> set xs. rkey (recs im ! j) \<noteq> key"
  shows "\<exists>db'. db_find_and_lock db key w = Inr (db', 0) \<and> view db' im (chain_lock key w) \<and>
    chainoff db' = coff key \<and> at_rec db' (recs im) i \<and>
    ptroff db' = int (loc_off im (prev_loc (Ltbl (khash key)) xs))"
proof -
  have ok: "ok_image im" using L by (rule layout_ok)
  obtain db1 where db1: "db_find_and_lock db key w =
      bindR (db_find_loop (fsize (idxfd db1) + 2) db1 (int (tbl im ! khash key)) key)
        (\<lambda>(db, offset). Inr (db, if offset = 0 then -1 else 0))"
    "view db1 im (chain_lock key w)" "chainoff db1 = coff key" "ptroff db1 = coff key"
    using find_and_lock_eq [OF v ok] by blast
  have c: "chain_of im (tbl im ! khash key) (xs @ i # ys)"
    using layout_chain [OF L khash_less, of key] s by simp
  have d: "distinct (xs @ i # ys)" using layout_distinct [OF L khash_less, of key] s by simp
  have "length xs < fsize (idxfd db1) + 2" using view_fuel [OF db1(2) ok c d] by simp
  from find_loop_hit [OF view_content [OF db1(2)] ok c this s(3,2)]
  obtain db' where db': "db_find_loop (fsize (idxfd db1) + 2) db1 (int (tbl im ! khash key)) key
      = Inr (db', int (pos (recs im) i))" "frame db1 db'" "at_rec db' (recs im) i"
    "ptroff db' = (if xs = [] then ptroff db1 else int (pos (recs im) (last xs)))" by blast
  then have "view db' im (chain_lock key w)" "chainoff db' = coff key"
    using frame_view [OF db'(2) db1(2)] db1(3) by (simp_all add: frame_def)
  moreover have "ptroff db' = int (loc_off im (prev_loc (Ltbl (khash key)) xs))"
    using db'(4) db1(4) coff_loc [of key im] by (simp add: prev_loc_def)
  ultimately show ?thesis using db1(1) db' by simp
qed

lemma unlock_view:
  assumes "view db im (chain_lock key w)" "chainoff db = coff key"
  shows "\<exists>db'. unlock_chain db msg = Inr db' \<and> view db' im (\<lambda>_. None)"
  using assms by (simp add: unlock_chain_def locked_def view_def)

section \<open>Fetching\<close>

definition grows :: "nat \<Rightarrow> DB \<Rightarrow> DB \<Rightarrow> bool" where
  "grows k db db' \<longleftrightarrow> fsize (idxfd db') \<le> fsize (idxfd db) + k * 1035 \<and>
     fsize (datfd db') \<le> fsize (datfd db) + k * DATLEN_MAX"

text \<open>\<open>larger k\<close>: what \<open>k\<close> appended records can add to the two files.\<close>

definition larger :: "nat \<Rightarrow> image \<Rightarrow> image \<Rightarrow> bool" where
  "larger k im im' \<longleftrightarrow> length (enc_idx im') \<le> length (enc_idx im) + k * 1035 \<and>
     length (dat im') \<le> length (dat im) + k * DATLEN_MAX"

lemma larger_refl [simp]: "larger k im im"
  by (simp add: larger_def)

lemma grows_refl [simp]: "grows k db db"
  by (simp add: grows_def)

lemma view_grows: "view db im lk \<Longrightarrow> view db' im' lk' \<Longrightarrow> larger k im im' \<Longrightarrow> grows k db db'"
  by (simp add: grows_def larger_def view_def fsize_def)

lemma fetch_represents:
  assumes "represents db m"
  shows "\<exists>db'. db_fetch db key = Inr (db', m key) \<and> represents db' m \<and> grows 0 db db'"
proof -
  obtain im ch fl where v: "view db im (\<lambda>_. None)" and L: "layout im ch fl" and D: "data_ok im"
    and m: "m = lookup im ch" using assms by (auto simp: represents_def)
  show ?thesis
  proof (cases "lookup im ch key")
    case None
    then obtain db1 where d1: "db_find_and_lock db key False = Inr (db1, -1)"
      "view db1 im (chain_lock key False)" "chainoff db1 = coff key"
      using find_miss [OF v L] by blast
    let ?db2 = "db1\<lparr>cnt_fetcherr := cnt_fetcherr db1 + 1\<rparr>"
    have "view ?db2 im (chain_lock key False)" "chainoff ?db2 = coff key" using d1 by (simp_all add: view_def)
    then obtain db' where "unlock_chain ?db2 ''db_fetch: un_lock error'' = Inr db'" "view db' im (\<lambda>_. None)"
      using unlock_view by blast
    moreover from this have "grows 0 db db'" using view_grows [OF v] by simp
    ultimately show ?thesis using d1 None m L D unfolding db_fetch_def represents_def by auto
  next
    case (Some d)
    then obtain xs i ys where s: "ch (khash key) = xs @ i # ys" "rkey (recs im ! i) = key"
      "data_of im (recs im ! i) = d" "\<forall>j \<in> set xs. rkey (recs im ! j) \<noteq> key" "i < length (recs im)"
      using lookup_split [OF L] by metis
    obtain db1 where d1: "db_find_and_lock db key False = Inr (db1, 0)"
      "view db1 im (chain_lock key False)" "chainoff db1 = coff key" "at_rec db1 (recs im) i"
      using find_hit [OF v L s(1,2,4)] by blast
    have "in_dat (dat im) (recs im ! i)" using D s(5) by (simp add: data_ok_def)
    then have rd: "db_readdat db1 = Inr (db1\<lparr>datfd := (datfd db1)\<lparr>fpos := roff (recs im ! i) + rlen (recs im ! i)\<rparr>,
        datbuf := d\<rparr>, d)"
      using db_readdat_eq [of db1 "roff (recs im ! i)" "rlen (recs im ! i)"] d1 D s(3)
      by (simp add: view_def at_rec_def in_dat_def data_ok_def Let_def data_of_def)
    let ?db2 = "db1\<lparr>datfd := (datfd db1)\<lparr>fpos := roff (recs im ! i) + rlen (recs im ! i)\<rparr>, datbuf := d,
        cnt_fetchok := cnt_fetchok db1 + 1\<rparr>"
    have "view ?db2 im (chain_lock key False)" "chainoff ?db2 = coff key" using d1 by (simp_all add: view_def)
    then obtain db' where "unlock_chain ?db2 ''db_fetch: un_lock error'' = Inr db'" "view db' im (\<lambda>_. None)"
      using unlock_view by blast
    moreover from this have "grows 0 db db'" using view_grows [OF v] by simp
    ultimately show ?thesis using d1 rd Some m L D unfolding db_fetch_def represents_def by auto
  qed
qed

section \<open>Single steps on a viewed database\<close>

definition regs :: "DB \<Rightarrow> int \<times> int \<times> int \<times> int \<times> nat \<times> int \<times> string" where
  "regs db = (chainoff db, ptroff db, ptrval db, datoff db, datlen db, idxoff db, idxbuf db)"

lemma step_readptr:
  assumes "view db im lk" "ok_image im" "ok_loc im l" "off = int (loc_off im l)"
  obtains db' where "db_readptr db off = Inr (db', int (get_ptr im l))" "view db' im lk" "regs db' = regs db"
  using db_readptr_image [OF view_content [OF assms(1)] assms(2,3)] assms that
  by (simp add: view_def regs_def)

lemma step_writeptr:
  assumes "view db im lk" "ok_image im" "ok_loc im l" "off = int (loc_off im l)" "ok_ptr p"
  obtains db' where "db_writeptr db off (int p) = Inr db'" "view db' (set_ptr im l p) lk" "regs db' = regs db"
proof -
  have "dat (set_ptr im l p) = dat im" using set_ptr_parts(2) assms by blast
  then show thesis
    using db_writeptr_image [OF view_content [OF assms(1)] assms(2,3,5)] assms that
    by (simp add: view_def regs_def)
qed

lemma step_lock_free:
  assumes "view db im lk"
  obtains f where "locked (writew_lock (idxfd db) FREE_OFF SEEK_SET 1) msg = Inr f"
    "view (db\<lparr>idxfd := f\<rparr>) im (set_region 0 1 (Some F_WRLCK) lk)" "regs (db\<lparr>idxfd := f\<rparr>) = regs db"
  using assms that by (simp add: locked_def view_def regs_def FREE_OFF_def)

lemma step_unlock_free:
  assumes "view db im (set_region 0 1 t lk)" "lk 0 = None"
  obtains f where "locked (un_lock (idxfd db) FREE_OFF SEEK_SET 1) msg = Inr f"
    "view (db\<lparr>idxfd := f\<rparr>) im lk" "regs (db\<lparr>idxfd := f\<rparr>) = regs db"
proof -
  have "set_region 0 1 None lk = lk" using assms(2) by (intro set_region_None_id) simp
  then show thesis using assms that by (simp add: locked_def view_def regs_def FREE_OFF_def)
qed

lemma step_writedat:
  assumes "view db im lk" "datoff db = int (roff (recs im ! i))"
  obtains db' where "db_writedat db s (datoff db) SEEK_SET = Inr db'" "view db' (img_write im i s) lk"
    "regs db' = regs (db\<lparr>datlen := length s + 1\<rparr>)"
  using db_writedat_at [OF assms(2), of db s] assms that
  by (simp add: view_def regs_def) (simp add: img_write_def)

lemma step_writeidx:
  assumes "view db im lk" "ok_image im" "i < length (recs im)"
    and "ok_rec r" "rkey r = key" "int (roff r) = datoff db" "rlen r = datlen db" "int (rptr r) = p"
    and "length (rec_body r) = length (rec_body (recs im ! i))" "off = int (pos (recs im) i)"
  obtains db' where "db_writeidx db key off SEEK_SET p = Inr db'"
    "view db' (im\<lparr>recs := (recs im)[i := r]\<rparr>) lk"
    "regs db' = regs (db\<lparr>idxoff := int (pos (recs im) i), ptrval := p, idxbuf := rec_body r\<rparr>)"
  using db_writeidx_overwrite [OF view_content [OF assms(1)] assms(2-9)] assms(1,10) that
  by (simp add: view_def regs_def)

section \<open>Deleting\<close>

lemma dodelete_view:
  assumes v: "view db im lk" and l0: "lk 0 = None" and L: "layout im ch fl" and h: "h < NHASH_DEF"
    and c: "ch h = xs @ i # ys" and a: "at_rec db (recs im) i"
    and pt: "ptroff db = int (loc_off im (prev_loc (Ltbl h) xs))"
  shows "\<exists>db'. db_dodelete db = Inr db' \<and> view db' (img_delete im (prev_loc (Ltbl h) xs) i) lk \<and>
    chainoff db' = chainoff db"
proof -
  let ?r = "recs im ! i" and ?l = "prev_loc (Ltbl h) xs"
  let ?lk = "set_region 0 1 (Some F_WRLCK) lk" and ?b = "blanked ?r (free im)"
  have ok: "ok_image im" using L by (rule layout_ok)
  have tl: "h < length (tbl im)" using ok h by (simp add: ok_image_def)
  have cp: "chain_of im (get_ptr im (Ltbl h)) (xs @ i # ys)" using layout_chain [OF L h] c by simp
  have P: "ok_ptr (pos (recs im) i)" "ok_loc im ?l" "i < length (recs im)"
    using chain_pos_ok [OF ok _ cp] tl by auto
  have okr: "ok_rec ?r" using layout_rec_ok [OF L P(3)] .
  have okp: "ok_ptr (rptr ?r)" using okr by (simp add: ok_rec_def)
  have okb: "ok_rec ?b" using okr ok by (simp add: blanked_ok ok_image_def)
  have rl: "Suc (rlen ?r - 1) = rlen ?r" using okr by (simp add: ok_rec_def)
  let ?db0 = "db\<lparr>datbuf := replicate (datlen db - 1) SPACE, idxbuf := replicate (length (idxbuf db)) SPACE\<rparr>"
  have v0: "view ?db0 im lk" using v by (simp add: view_def)
  obtain f where f: "locked (writew_lock (idxfd ?db0) FREE_OFF SEEK_SET 1) ''_db_dodelete: writew_lock error'' = Inr f"
    "view (?db0\<lparr>idxfd := f\<rparr>) im ?lk" "regs (?db0\<lparr>idxfd := f\<rparr>) = regs ?db0" by (rule step_lock_free [OF v0])
  have "datoff (?db0\<lparr>idxfd := f\<rparr>) = int (roff ?r)" using a by (simp add: at_rec_def)
  from step_writedat [OF f(2) this, of "datbuf ?db0"] obtain db1 where
    d1: "db_writedat (?db0\<lparr>idxfd := f\<rparr>) (datbuf ?db0) (datoff ?db0) SEEK_SET = Inr db1"
    "view db1 (img_write im i (datbuf ?db0)) ?lk" "regs db1 = regs (?db0\<lparr>datlen := rlen ?r\<rparr>)"
    using f(3) a rl by (auto simp: regs_def at_rec_def)
  let ?im1 = "blank_data im i"
  have im1: "img_write im i (datbuf ?db0) = ?im1" using a by (simp add: img_write_def blank_data_def at_rec_def)
  have ok1: "ok_image ?im1" using ok by (simp add: blank_data_def)
  obtain db2 where d2: "db_readptr db1 FREE_OFF = Inr (db2, int (free im))" "view db2 ?im1 ?lk" "regs db2 = regs db1"
    using step_readptr [OF d1(2) [unfolded im1] ok1, of Lfree FREE_OFF] by (auto simp: FREE_OFF_def)
  let ?im2 = "?im1\<lparr>recs := (recs im)[i := ?b]\<rparr>"
  have s2: "int (roff ?b) = datoff db2" "rlen ?b = datlen db2" "int (rptr ?b) = int (free im)"
    "idxoff db2 = int (pos (recs im) i)" "rkey ?b = idxbuf db2" "ptrval db2 = int (rptr ?r)" "ptroff db2 = ptroff db"
    "chainoff db2 = chainoff db"
    using d2(3) d1(3) a by (simp_all add: regs_def at_rec_def)
  obtain db3 where d3: "db_writeidx db2 (idxbuf db2) (idxoff db2) SEEK_SET (int (free im)) = Inr db3"
    "view db3 ?im2 ?lk" "regs db3 = regs (db2\<lparr>idxoff := int (pos (recs im) i), ptrval := int (free im), idxbuf := rec_body ?b\<rparr>)"
    by (rule step_writeidx [OF d2(2) ok1 _ okb s2(5) s2(1-3), of i "idxoff db2"]) (use P(3) s2(4) in auto)
  have ok2: "ok_image ?im2" using ok_image_upd [OF ok1 okb, of i] by simp
  let ?im3 = "set_ptr ?im2 Lfree (pos (recs im) i)"
  have "idxoff db3 = int (pos (recs im) i)" using d3(3) by (simp add: regs_def)
  with step_writeptr [OF d3(2) ok2, of Lfree FREE_OFF "pos (recs im) i"] P(1) obtain db4 where
    d4: "db_writeptr db3 FREE_OFF (idxoff db3) = Inr db4" "view db4 ?im3 ?lk" "regs db4 = regs db3"
    by (auto simp: FREE_OFF_def)
  have ok3: "ok_image ?im3" by (rule set_ptr_ok [OF ok2]) (use P(1) in simp_all)
  have "length (enc_rec ?b) = length (enc_rec ?r)" using okr okb by (simp add: length_enc_rec)
  then have ps: "pos (recs ?im3) = pos (recs im)" by (auto simp: pos_update)
  have l3: "loc_off ?im3 ?l = loc_off im ?l" "ok_loc ?im3 ?l" using ps P(2) by (cases ?l; simp)+
  have "ptroff db4 = int (loc_off ?im3 ?l)" using d4(3) d3(3) s2(7) pt l3(1) by (simp add: regs_def)
  from step_writeptr [OF d4(2) ok3 l3(2) this okp] obtain db5 where
    d5: "db_writeptr db4 (ptroff db4) (int (rptr ?r)) = Inr db5" "view db5 (set_ptr ?im3 ?l (rptr ?r)) ?lk" "regs db5 = regs db4"
    by blast
  obtain g where g: "locked (un_lock (idxfd db5) FREE_OFF SEEK_SET 1) ''_db_dodelete: un_lock error'' = Inr g"
    "view (db5\<lparr>idxfd := g\<rparr>) (set_ptr ?im3 ?l (rptr ?r)) lk" by (rule step_unlock_free [OF d5(2) l0])
  have "chainoff db5 = chainoff db" using d5(3) d4(3) d3(3) s2(8) by (simp add: regs_def)
  then show ?thesis
    using f(1) d1(1) d2(1) d3(1) d4(1) d5(1) g s2(6) by (simp add: db_dodelete_def img_delete_def)
qed

lemma enc_idx_size_cong:
  assumes ok: "ok_image im" "ok_image im'" and sp: "map span (recs im') = map span (recs im)"
    and k: "\<And>j. j < length (recs im) \<Longrightarrow> length (rkey (recs im' ! j)) = length (rkey (recs im ! j))"
  shows "length (enc_idx im') = length (enc_idx im)"
proof -
  have len: "length (recs im') = length (recs im)" using sp map_eq_imp_length_eq by blast
  have "length (enc_rec (recs im' ! j)) = length (enc_rec (recs im ! j))" if "j < length (recs im)" for j
  proof -
    have "ok_rec (recs im ! j)" "ok_rec (recs im' ! j)"
      using ok that len by (simp_all add: ok_image_def)
    then show ?thesis
      using span_nth [OF sp that] k [OF that] by (simp add: length_enc_rec length_rec_body span_def)
  qed
  then have "map (length \<circ> enc_rec) (recs im') = map (length \<circ> enc_rec) (recs im)"
    using len by (intro nth_equalityI) simp_all
  then show ?thesis using ok by (simp add: enc_idx_def length_enc_hdr length_concat)
qed

lemma img_delete_sizes:
  assumes L: "layout im ch fl" and D: "data_ok im" and h: "h < NHASH_DEF" and c: "ch h = xs @ i # ys"
  shows "length (enc_idx (img_delete im (prev_loc (Ltbl h) xs) i)) = length (enc_idx im)"
    and "length (dat (img_delete im (prev_loc (Ltbl h) xs) i)) = length (dat im)"
proof -
  let ?im = "img_delete im (prev_loc (Ltbl h) xs) i" and ?r = "recs im ! i"
  note del = layout_delete [OF L h c]
  have i: "i < length (recs im)" using layout_live [OF L h, of i] c by simp
  have "length (rkey (recs ?im ! j)) = length (rkey (recs im ! j))" for j
  proof (cases "j = i")
    case True
    then show ?thesis using i
      by (cases "prev_loc (Ltbl h) xs") (auto simp: img_delete_def nth_list_update)
  qed (use del(3) in simp)
  then show "length (enc_idx ?im) = length (enc_idx im)"
    using L del(1,2) by (intro enc_idx_size_cong) (auto intro: layout_ok)
  have "in_dat (dat im) ?r" using D i by (simp add: data_ok_def)
  then show "length (dat ?im) = length (dat im)"
    unfolding del(4) by (auto simp: blank_data_def length_overwrite in_dat_def)
qed

lemma delete_represents:
  assumes "represents db m"
  shows "\<exists>db'. db_delete db key = Inr (db', if m key = None then -1 else 0) \<and> represents db' (m(key := None)) \<and>
    grows 0 db db'"
proof -
  obtain im ch fl where v: "view db im (\<lambda>_. None)" and L: "layout im ch fl" and D: "data_ok im"
    and m: "m = lookup im ch" using assms by (auto simp: represents_def)
  show ?thesis
  proof (cases "lookup im ch key")
    case None
    then obtain db1 where d1: "db_find_and_lock db key True = Inr (db1, -1)"
      "view db1 im (chain_lock key True)" "chainoff db1 = coff key"
      using find_miss [OF v L] by blast
    let ?db2 = "db1\<lparr>cnt_delerr := cnt_delerr db1 + 1\<rparr>"
    have "view ?db2 im (chain_lock key True)" "chainoff ?db2 = coff key" using d1 by (simp_all add: view_def)
    then obtain db' where "unlock_chain ?db2 ''db_delete: un_lock error'' = Inr db'" "view db' im (\<lambda>_. None)"
      using unlock_view by blast
    moreover from this have "grows 0 db db'" using view_grows [OF v] by simp
    moreover have "m(key := None) = m" using None m by auto
    ultimately show ?thesis using d1 None m L D unfolding db_delete_def represents_def by auto
  next
    case (Some d)
    then obtain xs i ys where s: "ch (khash key) = xs @ i # ys" "rkey (recs im ! i) = key"
      "\<forall>j \<in> set xs. rkey (recs im ! j) \<noteq> key"
      using lookup_split [OF L] by metis
    obtain db1 where d1: "db_find_and_lock db key True = Inr (db1, 0)"
      "view db1 im (chain_lock key True)" "chainoff db1 = coff key" "at_rec db1 (recs im) i"
      "ptroff db1 = int (loc_off im (prev_loc (Ltbl (khash key)) xs))"
      using find_hit [OF v L s] by blast
    let ?im = "img_delete im (prev_loc (Ltbl (khash key)) xs) i"
    obtain db2 where d2: "db_dodelete db1 = Inr db2" "view db2 ?im (chain_lock key True)" "chainoff db2 = coff key"
      using dodelete_view [OF d1(2) chain_lock_0 L khash_less s(1) d1(4,5)] d1(3) by auto
    let ?db3 = "db2\<lparr>cnt_delok := cnt_delok db2 + 1\<rparr>"
    have "view ?db3 ?im (chain_lock key True)" "chainoff ?db3 = coff key" using d2 by (simp_all add: view_def)
    then obtain db' where d': "unlock_chain ?db3 ''db_delete: un_lock error'' = Inr db'" "view db' ?im (\<lambda>_. None)"
      using unlock_view by blast
    have "represents db' (m(key := None))"
      using d'(2) layout_delete(1) [OF L khash_less s(1)] lookup_delete [OF L D s(1,2)] m
      unfolding represents_def by metis
    moreover have "grows 0 db db'"
      using img_delete_sizes [OF L D khash_less s(1)] by (intro view_grows [OF v d'(2)]) (simp add: larger_def)
    ultimately show ?thesis using d1(1) d2(1) d'(1) Some m by (auto simp: db_delete_def)
  qed
qed

section \<open>Storing\<close>

definition fits :: "irec \<Rightarrow> string \<Rightarrow> string \<Rightarrow> bool" where
  "fits r key s \<longleftrightarrow> length (rkey r) = length key \<and> rlen r = length s + 1"

lemma findfree_none:
  assumes v: "view db im lk" and l0: "lk 0 = None" and L: "layout im ch fl"
    and no: "\<forall>i \<in> set fl. \<not> fits (recs im ! i) key s"
  shows "\<exists>db'. db_findfree db (length key) (length s + 1) = Inr (db', -1) \<and> view db' im lk \<and>
    chainoff db' = chainoff db"
proof -
  let ?lk = "set_region 0 1 (Some F_WRLCK) lk"
  have ok: "ok_image im" using L by (rule layout_ok)
  obtain f where f: "locked (writew_lock (idxfd db) FREE_OFF SEEK_SET 1) ''_db_findfree: writew_lock error'' = Inr f"
    "view (db\<lparr>idxfd := f\<rparr>) im ?lk" "regs (db\<lparr>idxfd := f\<rparr>) = regs db" by (rule step_lock_free [OF v])
  obtain db1 where d1: "db_readptr (db\<lparr>idxfd := f\<rparr>) FREE_OFF = Inr (db1, int (free im))" "view db1 im ?lk"
    "regs db1 = regs db"
    using step_readptr [OF f(2) ok, of Lfree FREE_OFF] f(3) by (auto simp: FREE_OFF_def)
  have c: "chain_of im (free im) fl" by (rule layout_free [OF L])
  have "length fl < fsize (idxfd db1) + 2"
    by (rule view_fuel [OF d1(2) ok c]) (use layout_fl [OF L] in simp)
  from findfree_loop_miss [OF view_content [OF d1(2)] ok c this no [unfolded fits_def], of FREE_OFF] obtain db2 sv where
    d2: "db_findfree_loop (fsize (idxfd db1) + 2) db1 FREE_OFF (int (free im)) (length key) (length s + 1) = Inr (db2, sv, 0)"
    "frame db1 db2" by blast
  obtain g where g: "locked (un_lock (idxfd db2) FREE_OFF SEEK_SET 1) ''_db_findfree: un_lock error'' = Inr g"
    "view (db2\<lparr>idxfd := g\<rparr>) im lk" by (rule step_unlock_free [OF frame_view [OF d2(2) d1(2)] l0])
  have "chainoff db2 = chainoff db" using d2(2) d1(3) by (simp add: frame_def regs_def)
  then show ?thesis using f(1) d1(1) d2(1) g
    by (simp add: db_findfree_def del: db_findfree_loop.simps add_2_eq_Suc')
qed

lemma findfree_some:
  assumes v: "view db im lk" and l0: "lk 0 = None" and L: "layout im ch fl"
    and fl: "fl = xs @ i # ys" and xs: "\<forall>j \<in> set xs. \<not> fits (recs im ! j) key s" and i: "fits (recs im ! i) key s"
  shows "\<exists>db'. db_findfree db (length key) (length s + 1) = Inr (db', 0) \<and>
    view db' (set_ptr im (prev_loc Lfree xs) (rptr (recs im ! i))) lk \<and>
    at_rec db' (recs im) i \<and> chainoff db' = chainoff db"
proof -
  let ?lk = "set_region 0 1 (Some F_WRLCK) lk" and ?l = "prev_loc Lfree xs"
  have ok: "ok_image im" using L by (rule layout_ok)
  obtain f where f: "locked (writew_lock (idxfd db) FREE_OFF SEEK_SET 1) ''_db_findfree: writew_lock error'' = Inr f"
    "view (db\<lparr>idxfd := f\<rparr>) im ?lk" "regs (db\<lparr>idxfd := f\<rparr>) = regs db" by (rule step_lock_free [OF v])
  obtain db1 where d1: "db_readptr (db\<lparr>idxfd := f\<rparr>) FREE_OFF = Inr (db1, int (free im))" "view db1 im ?lk"
    "regs db1 = regs db"
    using step_readptr [OF f(2) ok, of Lfree FREE_OFF] f(3) by (auto simp: FREE_OFF_def)
  have c: "chain_of im (free im) (xs @ i # ys)" using layout_free [OF L] fl by simp
  then have P: "ok_loc im ?l" "i < length (recs im)" using chain_pos_ok [OF ok, of Lfree xs i ys] by auto
  have okp: "ok_ptr (rptr (recs im ! i))" using layout_rec_ok [OF L P(2)] by (simp add: ok_rec_def)
  have "length (xs @ i # ys) < fsize (idxfd db1) + 2"
    by (rule view_fuel [OF d1(2) ok c]) (use layout_fl [OF L] fl in simp)
  then have "length xs < fsize (idxfd db1) + 2" by simp
  from findfree_loop_hit [OF view_content [OF d1(2)] ok c this xs [unfolded fits_def], of FREE_OFF] i obtain db2 where
    d2: "db_findfree_loop (fsize (idxfd db1) + 2) db1 FREE_OFF (int (free im)) (length key) (length s + 1)
      = Inr (db2, if xs = [] then FREE_OFF else int (pos (recs im) (last xs)), int (pos (recs im) i))"
    "frame db1 db2" "at_rec db2 (recs im) i" by (auto simp: fits_def)
  have off: "(if xs = [] then FREE_OFF else int (pos (recs im) (last xs))) = int (loc_off im ?l)"
    by (simp add: prev_loc_def FREE_OFF_def)
  obtain db3 where d3: "db_writeptr db2 (int (loc_off im ?l)) (ptrval db2) = Inr db3"
    "view db3 (set_ptr im ?l (rptr (recs im ! i))) ?lk" "regs db3 = regs db2"
    using step_writeptr [OF frame_view [OF d2(2) d1(2)] ok P(1) refl okp] d2(3) by (auto simp: at_rec_def)
  obtain g where g: "locked (un_lock (idxfd db3) FREE_OFF SEEK_SET 1) ''_db_findfree: un_lock error'' = Inr g"
    "view (db3\<lparr>idxfd := g\<rparr>) (set_ptr im ?l (rptr (recs im ! i))) lk" "regs (db3\<lparr>idxfd := g\<rparr>) = regs db3"
    by (rule step_unlock_free [OF d3(2) l0])
  have "chainoff (db3\<lparr>idxfd := g\<rparr>) = chainoff db" using g(3) d3(3) d2(2) d1(3) by (simp add: frame_def regs_def)
  moreover have "at_rec (db3\<lparr>idxfd := g\<rparr>) (recs im) i" using g(3) d3(3) d2(3) by (simp add: at_rec_def regs_def)
  ultimately show ?thesis using f(1) d1(1) d2(1) d3(1) g(1,2)
    by (simp add: db_findfree_def off del: db_findfree_loop.simps add_2_eq_Suc')
qed

lemma store_append_view:
  assumes v: "view db im lk" and lk: "\<And>b. HDR_LEN \<le> b \<Longrightarrow> lk b = None" and ok: "ok_image im"
    and co: "chainoff db = coff key" and val: "valid_key key" "valid_data s"
    and room: "length (enc_idx im) \<le> 9999999" "length (dat im) < 10 ^ 15"
  shows "\<exists>db'. store_append db key s (int (tbl im ! khash key)) = Inr db' \<and>
    view db' (img_append im key s) lk \<and> chainoff db' = coff key"
proof -
  let ?h = "khash key" and ?n = "length (recs im)"
  let ?r = "\<lparr>rptr = tbl im ! ?h, rkey = key, roff = length (dat im), rlen = length s + 1\<rparr>"
  have tl: "?h < length (tbl im)" using ok by (simp add: ok_image_def)
  have okp: "ok_ptr (pos (recs im) ?n)" using room(1) enc_idx_size [OF ok] by (simp add: ok_ptr_def)
  have "ok_ptr (tbl im ! ?h)" using ok tl by (auto simp: ok_image_def)
  then have okr: "ok_rec ?r" using new_rec_ok [OF val] room by simp
  have "locks (datfd db) = (\<lambda>_. None)" using v by (simp add: view_def)
  from db_writedat_end [OF this, of s] obtain db1 where
    d1: "db_writedat db s 0 SEEK_END = Inr db1" "view db1 (im\<lparr>dat := dat im @ s @ [NEWLINE]\<rparr>) lk"
    "datoff db1 = int (length (dat im))" "datlen db1 = length s + 1" "chainoff db1 = chainoff db"
    using v by (simp add: view_def fsize_def enc_idx_def enc_hdr_def)
  let ?im1 = "im\<lparr>dat := dat im @ s @ [NEWLINE]\<rparr>" and ?im2 = "im\<lparr>dat := dat im @ s @ [NEWLINE], recs := recs im @ [?r]\<rparr>"
  have e: "im\<lparr>recs := recs im @ [?r], dat := dat im @ s @ [NEWLINE]\<rparr> = ?im2" by simp
  have ok1: "ok_image ?im1" using ok by simp
  have lk1: "locks (idxfd db1) b = None" if "HDR_LEN \<le> b" for b using lk [OF that] d1(2) by (simp add: view_def)
  have n1: "nhash db1 = word_of_nat NHASH_DEF" using d1(2) by (simp add: view_def)
  obtain db2 where
    d2: "db_writeidx db1 key 0 SEEK_END (int (tbl im ! ?h)) = Inr db2" "view db2 ?im2 lk"
    "idxoff db2 = int (pos (recs im) ?n)" "chainoff db2 = chainoff db"
    using db_writeidx_append [OF view_content [OF d1(2)] ok1 okr _ _ _ _ n1 lk1, of key "int (tbl im ! ?h)"] d1
    by (auto simp: view_def)
  have ok2: "ok_image ?im2" using ok okr by (auto simp: ok_image_def)
  from step_writeptr [OF d2(2) ok2, of "Ltbl ?h" "chainoff db2" "pos (recs im) ?n"] obtain db3 where
    "db_writeptr db2 (chainoff db2) (idxoff db2) = Inr db3"
    "view db3 (set_ptr ?im2 (Ltbl ?h) (pos (recs im) ?n)) lk" "regs db3 = regs db2"
    using tl okp d2(3,4) co coff_loc [of key ?im2] by auto
  then show ?thesis using d1(1) d2(1,4) co unfolding store_append_def img_append_def Let_def e by (auto simp: regs_def)
qed

lemma store_reuse_view:
  assumes v: "view db (set_ptr im (prev_loc Lfree xs) (rptr (recs im ! i))) lk" and L: "layout im ch (xs @ i # ys)"
    and co: "chainoff db = coff key" and a: "at_rec db (recs im) i" and val: "valid_key key"
    and i: "fits (recs im ! i) key s"
  shows "\<exists>db'. store_reuse db key s (int (tbl im ! khash key)) = Inr db' \<and>
    view db' (img_reuse im xs i key s) lk \<and> chainoff db' = coff key"
proof -
  let ?h = "khash key" and ?r = "recs im ! i" and ?l = "prev_loc Lfree xs"
  let ?im1 = "set_ptr im ?l (rptr ?r)" and ?b = "?r\<lparr>rptr := tbl im ! ?h, rkey := key\<rparr>"
  let ?im2 = "img_write ?im1 i s"
  have ok: "ok_image im" using L by (rule layout_ok)
  have cf: "chain_of im (get_ptr im Lfree) (xs @ i # ys)" using layout_free [OF L] by simp
  have P: "ok_ptr (pos (recs im) i)" "ok_loc im ?l" "i < length (recs im)"
    using chain_pos_ok [OF ok _ cf] by auto
  have okr: "ok_rec ?r" using layout_rec_ok [OF L P(3)] .
  have okp: "ok_ptr (rptr ?r)" using okr by (simp add: ok_rec_def)
  have tl: "?h < length (tbl im)" using ok by (simp add: ok_image_def)
  have okt: "ok_ptr (tbl im ! ?h)" using ok tl by (auto simp: ok_image_def)
  have bl: "length (rec_body ?b) = length (rec_body ?r)" using i by (simp add: length_rec_body fits_def)
  have okb: "ok_rec ?b" using okr okt val bl by (simp add: ok_rec_def valid_key_def)
  note p1 = set_ptr_parts [OF ok P(2) okp]
  have ok1: "ok_image ?im1" by (rule set_ptr_ok [OF ok P(2) okp])
  have i1: "i < length (recs ?im1)" using P(3) p1(1) by simp
  have sp: "roff (recs ?im1 ! i) = roff ?r" "rlen (recs ?im1 ! i) = rlen ?r" "rkey (recs ?im1 ! i) = rkey ?r"
    using span_nth [OF p1(3) P(3)] fun_cong [OF p1(4), of i] by (simp_all add: span_def)
  have "datoff db = int (roff (recs ?im1 ! i))" using a sp(1) by (simp add: at_rec_def)
  from step_writedat [OF v this, of s] obtain db1 where
    d1: "db_writedat db s (datoff db) SEEK_SET = Inr db1" "view db1 ?im2 lk" "regs db1 = regs (db\<lparr>datlen := length s + 1\<rparr>)"
    by blast
  have ok2: "ok_image ?im2" using ok1 by simp
  have i2: "i < length (recs ?im2)" using i1 by simp
  have s1: "rkey ?b = key" "int (roff ?b) = datoff db1" "rlen ?b = datlen db1" "int (rptr ?b) = int (tbl im ! ?h)"
    "length (rec_body ?b) = length (rec_body (recs ?im2 ! i))" "idxoff db1 = int (pos (recs ?im2) i)"
    using d1(3) a i sp p1(5) by (simp_all add: regs_def at_rec_def fits_def length_rec_body)
  let ?im3 = "?im2\<lparr>recs := (recs ?im2)[i := ?b]\<rparr>"
  obtain db2 where d2: "db_writeidx db1 key (idxoff db1) SEEK_SET (int (tbl im ! ?h)) = Inr db2" "view db2 ?im3 lk"
    "regs db2 = regs (db1\<lparr>idxoff := int (pos (recs ?im2) i), ptrval := int (tbl im ! ?h), idxbuf := rec_body ?b\<rparr>)"
    by (rule step_writeidx [OF d1(2) ok2 i2 okb s1])
  have ok3: "ok_image ?im3" by (rule ok_image_upd [OF ok2 okb])
  have tl3: "ok_loc ?im3 (Ltbl ?h)" using tl by (cases ?l) auto
  have r2: "chainoff db2 = int (loc_off ?im3 (Ltbl ?h))" "idxoff db2 = int (pos (recs im) i)"
    using d2(3) d1(3) co coff_loc [of key ?im3] p1(5) by (simp_all add: regs_def)
  from step_writeptr [OF d2(2) ok3 tl3 r2(1) P(1)] obtain db3 where
    "db_writeptr db2 (chainoff db2) (idxoff db2) = Inr db3" "view db3 (set_ptr ?im3 (Ltbl ?h) (pos (recs im) i)) lk"
    "regs db3 = regs db2" unfolding r2(2) by blast
  moreover have "chainoff db2 = coff key" using d2(3) d1(3) co by (simp add: regs_def)
  ultimately show ?thesis using d1(1) d2(1) by (simp add: store_reuse_def img_reuse_def Let_def regs_def)
qed

lemma larger_write:
  assumes "data_ok im" "i < length (recs im)" "length s + 1 = rlen (recs im ! i)"
  shows "larger k im (img_write im i s)"
proof -
  have "in_dat (dat im) (recs im ! i)" using assms by (simp add: data_ok_def)
  then show ?thesis
    using assms(3) by (auto simp: larger_def in_dat_def) (auto simp: img_write_def length_overwrite)
qed

lemma larger_append:
  assumes "ok_image im" "ok_image (img_append im key s)" "valid_data s"
  shows "larger (Suc 0) im (img_append im key s)"
proof -
  let ?n = "length (recs im)"
  let ?r = "\<lparr>rptr = tbl im ! khash key, rkey = key, roff = length (dat im), rlen = length s + 1\<rparr>"
  have r: "recs (img_append im key s) = recs im @ [?r]" "dat (img_append im key s) = dat im @ s @ [NEWLINE]"
    by (simp_all add: img_append_def Let_def)
  have "ok_rec ?r" using assms(2) r by (simp add: ok_image_def)
  then have "length (enc_rec ?r) \<le> 1035" by (simp add: length_enc_rec ok_rec_def db_consts)
  moreover have "length (enc_idx (img_append im key s)) = length (enc_idx im) + length (enc_rec ?r)"
    using assms(1,2) by (simp add: enc_idx_size r pos_Suc)
  ultimately show ?thesis using assms(3) r by (simp add: larger_def valid_data_def)
qed

lemma larger_reuse:
  assumes L: "layout im ch (xs @ i # ys)" and D: "data_ok im" and ok': "ok_image (img_reuse im xs i key s)"
    and i: "fits (recs im ! i) key s"
  shows "larger k im (img_reuse im xs i key s)"
proof -
  let ?l = "prev_loc Lfree xs" and ?r = "recs im ! i"
  let ?im1 = "set_ptr im ?l (rptr ?r)" and ?b = "?r\<lparr>rptr := tbl im ! khash key, rkey := key\<rparr>"
  let ?im = "img_reuse im xs i key s"
  have ok: "ok_image im" using L by (rule layout_ok)
  have cf: "chain_of im (get_ptr im Lfree) (xs @ i # ys)" using layout_free [OF L] by simp
  have P: "ok_loc im ?l" "i < length (recs im)" using chain_pos_ok [OF ok _ cf] by auto
  have okp: "ok_ptr (rptr ?r)" using layout_rec_ok [OF L P(2)] by (simp add: ok_rec_def)
  note p1 = set_ptr_parts [OF ok P(1) okp]
  have r: "recs ?im = (recs ?im1)[i := ?b]" "dat ?im = dat (img_write ?im1 i s)"
    by (simp_all add: img_reuse_def Let_def)
  have "span ?b = span ?r" by (simp add: span_def)
  then have "map span (recs ?im) = map span (recs im)"
    using p1(3) P(2) by (simp add: r map_update list_update_same_conv)
  moreover have "length (rkey (recs ?im ! j)) = length (rkey (recs im ! j))" if "j < length (recs im)" for j
    using fun_cong [OF p1(4), of j] i that p1(1) P(2) by (cases "j = i") (simp_all add: r fits_def)
  ultimately have "length (enc_idx ?im) = length (enc_idx im)" by (rule enc_idx_size_cong [OF ok ok'])
  moreover have "length (dat ?im) = length (dat im)"
  proof -
    have "in_dat (dat im) ?r" using D P(2) by (simp add: data_ok_def)
    then show ?thesis
      using p1(2) span_nth [OF p1(3) P(2)] i
      by (simp add: r span_def fits_def) (auto simp: img_write_def length_overwrite in_dat_def span_def fits_def)
  qed
  ultimately show ?thesis by (simp add: larger_def)
qed

lemma first_fit:
  obtains "\<forall>i \<in> set fl. \<not> P i" | xs i ys where "fl = xs @ i # ys" "\<forall>j \<in> set xs. \<not> P j" "P i"
  using split_list_first_prop [of fl P] by blast

lemma store_new_view:
  assumes v: "view db im (chain_lock key w)" and L: "layout im ch fl" and D: "data_ok im"
    and co: "chainoff db = coff key" and val: "valid_key key" "valid_data s" and new: "lookup im ch key = None"
    and room: "length (enc_idx im) \<le> 9999999" "length (dat im) < 10 ^ 15"
  shows "\<exists>db' im' ch' fl'. store_new db key s = Inr db' \<and> view db' im' (chain_lock key w) \<and>
    chainoff db' = coff key \<and> layout im' ch' fl' \<and> data_ok im' \<and> lookup im' ch' = (lookup im ch)(key \<mapsto> s) \<and>
    larger (Suc 0) im im'"
proof -
  have ok: "ok_image im" using L by (rule layout_ok)
  have tl: "ok_loc im (Ltbl (khash key))" using ok by (simp add: ok_image_def)
  obtain db1 where d1: "db_readptr db (chainoff db) = Inr (db1, int (tbl im ! khash key))"
    "view db1 im (chain_lock key w)" "regs db1 = regs db"
    using step_readptr [OF v ok tl, of "chainoff db"] co coff_loc [of key im] by auto
  have co1: "chainoff db1 = coff key" using d1(3) co by (simp add: regs_def)
  show ?thesis
  proof (rule first_fit [of fl "\<lambda>i. fits (recs im ! i) key s"])
    assume no: "\<forall>i \<in> set fl. \<not> fits (recs im ! i) key s"
    obtain db2 where d2: "db_findfree db1 (length key) (length s + 1) = Inr (db2, -1)"
      "view db2 im (chain_lock key w)" "chainoff db2 = coff key"
      using findfree_none [OF d1(2) chain_lock_0 L no] co1 by auto
    obtain db3 where d3: "store_append db2 key s (int (tbl im ! khash key)) = Inr db3"
      "view db3 (img_append im key s) (chain_lock key w)" "chainoff db3 = coff key"
      using store_append_view [OF d2(2) chain_lock_records ok d2(3) val room] by blast
    have "view (db3\<lparr>cnt_stor1 := cnt_stor1 db3 + 1\<rparr>) (img_append im key s) (chain_lock key w)"
      using d3(2) by (simp add: view_def)
    then show ?thesis using d1(1) d2(1) d3(1,3) lookup_append [OF L D val new room]
        larger_append [OF ok layout_ok [OF lookup_append(1) [OF L D val new room]] val(2)]
      by (intro exI [of _ "db3\<lparr>cnt_stor1 := cnt_stor1 db3 + 1\<rparr>"] exI [of _ "img_append im key s"]
          exI [of _ "ch(khash key := length (recs im) # ch (khash key))"] exI [of _ fl])
        (simp add: store_new_def)
  next
    fix xs i ys assume s: "fl = xs @ i # ys" "\<forall>j \<in> set xs. \<not> fits (recs im ! j) key s" "fits (recs im ! i) key s"
    obtain db2 where d2: "db_findfree db1 (length key) (length s + 1) = Inr (db2, 0)"
      "view db2 (set_ptr im (prev_loc Lfree xs) (rptr (recs im ! i))) (chain_lock key w)"
      "at_rec db2 (recs im) i" "chainoff db2 = coff key"
      using findfree_some [OF d1(2) chain_lock_0 L s] co1 by auto
    obtain db3 where d3: "store_reuse db2 key s (int (tbl im ! khash key)) = Inr db3"
      "view db3 (img_reuse im xs i key s) (chain_lock key w)" "chainoff db3 = coff key"
      using store_reuse_view [OF d2(2) L [unfolded s(1)] d2(4,3) val(1) s(3)] by blast
    have "view (db3\<lparr>cnt_stor2 := cnt_stor2 db3 + 1\<rparr>) (img_reuse im xs i key s) (chain_lock key w)"
      using d3(2) by (simp add: view_def)
    moreover note re = lookup_reuse [OF L D val new s(1)]
    moreover have "ok_image (img_reuse im xs i key s)" using re(1) s(3) by (auto simp: fits_def intro: layout_ok)
    note larger_reuse [OF L [unfolded s(1)] D this s(3), of "Suc 0"]
    ultimately show ?thesis using d1(1) d2(1) d3(1,3) s(3)
      by (intro exI [of _ "db3\<lparr>cnt_stor2 := cnt_stor2 db3 + 1\<rparr>"] exI [of _ "img_reuse im xs i key s"]
          exI [of _ "ch(khash key := i # ch (khash key))"] exI [of _ "xs @ ys"])
        (simp add: store_new_def fits_def)
  qed
qed

lemma store_existing_view:
  assumes v: "view db im (chain_lock key w)" and L: "layout im ch fl" and D: "data_ok im"
    and co: "chainoff db = coff key" and val: "valid_key key" "valid_data s"
    and c: "ch (khash key) = xs @ i # ys" and k: "rkey (recs im ! i) = key"
    and a: "at_rec db (recs im) i" and pt: "ptroff db = int (loc_off im (prev_loc (Ltbl (khash key)) xs))"
    and room: "length (enc_idx im) \<le> 9999999" "length (dat im) < 10 ^ 15"
  shows "\<exists>db' im' ch' fl'. store_existing db key s = Inr db' \<and> view db' im' (chain_lock key w) \<and>
    chainoff db' = coff key \<and> layout im' ch' fl' \<and> data_ok im' \<and> lookup im' ch' = (lookup im ch)(key \<mapsto> s) \<and>
    larger (Suc 0) im im'"
proof (cases "length s + 1 = rlen (recs im ! i)")
  case True
  have "datoff db = int (roff (recs im ! i))" using a by (simp add: at_rec_def)
  from step_writedat [OF v this, of s] obtain db1 where
    d1: "db_writedat db s (datoff db) SEEK_SET = Inr db1" "view db1 (img_write im i s) (chain_lock key w)"
    "regs db1 = regs (db\<lparr>datlen := length s + 1\<rparr>)" by blast
  have "i \<in> set (ch (khash key))" using c by simp
  note w = lookup_write [OF L D this k _ True]
  have "view (db1\<lparr>cnt_stor4 := cnt_stor4 db1 + 1\<rparr>) (img_write im i s) (chain_lock key w)"
    using d1(2) by (simp add: view_def)
  moreover have "i < length (recs im)" using layout_live [OF L khash_less, of i key] c by simp
  note larger_write [OF D this True, of "Suc 0"]
  ultimately show ?thesis using d1(1,3) w val(2) True a co
    by (intro exI [of _ "db1\<lparr>cnt_stor4 := cnt_stor4 db1 + 1\<rparr>"] exI [of _ "img_write im i s"] exI [of _ ch] exI [of _ fl])
      (simp add: store_existing_def at_rec_def regs_def valid_data_def)
next
  case False
  let ?im = "img_delete im (prev_loc (Ltbl (khash key)) xs) i" and ?ch = "ch(khash key := xs @ ys)"
  obtain db1 where d1: "db_dodelete db = Inr db1" "view db1 ?im (chain_lock key w)" "chainoff db1 = coff key"
    using dodelete_view [OF v chain_lock_0 L khash_less c a pt] co by auto
  have L': "layout ?im ?ch (i # fl)" by (rule layout_delete(1) [OF L khash_less c])
  note del = lookup_delete [OF L D c k]
  have ok: "ok_image ?im" using L' by (rule layout_ok)
  have tl: "ok_loc ?im (Ltbl (khash key))" using ok by (simp add: ok_image_def)
  obtain db2 where d2: "db_readptr db1 (chainoff db1) = Inr (db2, int (tbl ?im ! khash key))"
    "view db2 ?im (chain_lock key w)" "regs db2 = regs db1"
    using step_readptr [OF d1(2) ok tl, of "chainoff db1"] d1(3) coff_loc [of key ?im] by auto
  have co2: "chainoff db2 = coff key" using d2(3) d1(3) by (simp add: regs_def)
  have room': "length (enc_idx ?im) \<le> 9999999" "length (dat ?im) < 10 ^ 15"
    using img_delete_sizes [OF L D khash_less c] room by simp_all
  obtain db3 where d3: "store_append db2 key s (int (tbl ?im ! khash key)) = Inr db3"
    "view db3 (img_append ?im key s) (chain_lock key w)" "chainoff db3 = coff key"
    using store_append_view [OF d2(2) chain_lock_records ok co2 val room'] by blast
  have "lookup ?im ?ch key = None" using del(2) by simp
  note ap = lookup_append [OF L' del(1) val this room']
  have "view (db3\<lparr>cnt_stor3 := cnt_stor3 db3 + 1\<rparr>) (img_append ?im key s) (chain_lock key w)"
    using d3(2) by (simp add: view_def)
  moreover have "larger (Suc 0) im (img_append ?im key s)"
    using larger_append [OF ok layout_ok [OF ap(1)] val(2)] img_delete_sizes [OF L D khash_less c]
    by (simp add: larger_def)
  ultimately show ?thesis using d1(1) d2(1) d3(1,3) ap del(2) False a
    by (intro exI [of _ "db3\<lparr>cnt_stor3 := cnt_stor3 db3 + 1\<rparr>"] exI [of _ "img_append ?im key s"]
        exI [of _ "?ch(khash key := length (recs ?im) # ?ch (khash key))"] exI [of _ "i # fl"])
      (simp add: store_existing_def at_rec_def)
qed

text \<open>
  What \<^verbatim>\<open>db_store\<close> promises: the new map and the return code for each flag.
\<close>

fun kv_store :: "(string \<rightharpoonup> string) \<Rightarrow> string \<Rightarrow> string \<Rightarrow> store_flag \<Rightarrow> (string \<rightharpoonup> string) \<times> int" where
  "kv_store m key s DB_INSERT = (if m key = None then (m(key \<mapsto> s), 0) else (m, 1))"
| "kv_store m key s DB_REPLACE = (if m key = None then (m, -1) else (m(key \<mapsto> s), 0))"
| "kv_store m key s DB_STORE = (m(key \<mapsto> s), 0)"
| "kv_store m key s Other_flag = (m, -1)"

definition has_room :: "DB \<Rightarrow> bool" where
  "has_room db \<longleftrightarrow> int (fsize (idxfd db)) \<le> PTR_MAX \<and> fsize (datfd db) < 10 ^ 15"

lemma store_finish:
  assumes v: "view db im (\<lambda>_. None)" and flag: "flag \<noteq> Other_flag" and val: "valid_data s"
    and run: "bindR (db_find_and_lock db key True) (\<lambda>(db, rc).
          if rc < 0
          then (if flag = DB_REPLACE then Inr (db\<lparr>cnt_storerr := cnt_storerr db + 1\<rparr>, -1)
                else bindR (store_new db key s) (\<lambda>db. Inr (db, 0)))
          else (if flag = DB_INSERT then Inr (db\<lparr>cnt_storerr := cnt_storerr db + 1\<rparr>, 1)
                else bindR (store_existing db key s) (\<lambda>db. Inr (db, 0))))
        = Inr (dbs, rc)"
    and after: "view dbs im' (chain_lock key True)" "chainoff dbs = coff key"
    and im': "layout im' ch' fl'" "data_ok im'" "lookup im' ch' = m'" "larger (Suc 0) im im'"
  shows "\<exists>db'. db_store db key s flag = Inr (db', rc) \<and> represents db' m' \<and> grows 1 db db'"
proof -
  have dl: "\<not> (length s + 1 < DATLEN_MIN \<or> length s + 1 > DATLEN_MAX)" using val by (auto simp: valid_data_def)
  obtain db' where d': "unlock_chain dbs ''db_store: un_lock error'' = Inr db'" "view db' im' (\<lambda>_. None)"
    using unlock_view after by blast
  have "db_store db key s flag = Inr (db', rc)"
    using arg_cong [OF run, of "\<lambda>r. bindR r (\<lambda>(db, rc).
        bindR (unlock_chain db ''db_store: un_lock error'') (\<lambda>db. Inr (db, rc)))"] d'(1) flag dl
    by (simp add: db_store_def bindR_assoc split_def)
  moreover have "represents db' m'" unfolding represents_def im'(3) [symmetric] using d'(2) im'(1,2) by blast
  moreover have "grows 1 db db'" using view_grows [OF v d'(2) im'(4)] by simp
  ultimately show ?thesis by blast
qed

lemma store_absent:
  assumes v: "view db im (\<lambda>_. None)" and L: "layout im ch fl" and D: "data_ok im" and flag: "flag \<noteq> Other_flag"
    and val: "valid_key key" "valid_data s"
    and rm: "length (enc_idx im) \<le> 9999999" "length (dat im) < 10 ^ 15" and None: "lookup im ch key = None"
  shows "\<exists>db'. db_store db key s flag = Inr (db', snd (kv_store (lookup im ch) key s flag)) \<and>
    represents db' (fst (kv_store (lookup im ch) key s flag)) \<and> grows 1 db db'"
proof -
  obtain db1 where d1: "db_find_and_lock db key True = Inr (db1, -1)"
    "view db1 im (chain_lock key True)" "chainoff db1 = coff key"
    using find_miss [OF v L None] by blast
  show ?thesis
  proof (cases "flag = DB_REPLACE")
    case True
    show ?thesis
      by (rule store_finish [OF v flag val(2), where dbs = "db1\<lparr>cnt_storerr := cnt_storerr db1 + 1\<rparr>" and im' = im and ch' = ch])
        (use d1 True None L D in \<open>auto simp: view_def\<close>)
  next
    case False
    then have kv: "kv_store (lookup im ch) key s flag = ((lookup im ch)(key \<mapsto> s), 0)"
      using flag None by (cases flag) auto
    obtain db2 im' ch' fl' where d2: "store_new db1 key s = Inr db2" "view db2 im' (chain_lock key True)"
      "chainoff db2 = coff key" "layout im' ch' fl'" "data_ok im'" "lookup im' ch' = (lookup im ch)(key \<mapsto> s)"
      "larger (Suc 0) im im'"
      using store_new_view [OF d1(2) L D d1(3) val None rm] by blast
    show ?thesis by (rule store_finish [OF v flag val(2) _ d2(2-5)]) (use d1 d2 False kv in auto)
  qed
qed

lemma store_present:
  assumes v: "view db im (\<lambda>_. None)" and L: "layout im ch fl" and D: "data_ok im" and flag: "flag \<noteq> Other_flag"
    and val: "valid_key key" "valid_data s"
    and rm: "length (enc_idx im) \<le> 9999999" "length (dat im) < 10 ^ 15" and Some: "lookup im ch key = Some d"
  shows "\<exists>db'. db_store db key s flag = Inr (db', snd (kv_store (lookup im ch) key s flag)) \<and>
    represents db' (fst (kv_store (lookup im ch) key s flag)) \<and> grows 1 db db'"
proof -
  obtain xs i ys where s: "ch (khash key) = xs @ i # ys" "rkey (recs im ! i) = key"
    "\<forall>j \<in> set xs. rkey (recs im ! j) \<noteq> key" using lookup_split [OF L Some] by metis
  obtain db1 where d1: "db_find_and_lock db key True = Inr (db1, 0)"
    "view db1 im (chain_lock key True)" "chainoff db1 = coff key" "at_rec db1 (recs im) i"
    "ptroff db1 = int (loc_off im (prev_loc (Ltbl (khash key)) xs))"
    using find_hit [OF v L s] by blast
  show ?thesis
  proof (cases "flag = DB_INSERT")
    case True
    show ?thesis
      by (rule store_finish [OF v flag val(2), where dbs = "db1\<lparr>cnt_storerr := cnt_storerr db1 + 1\<rparr>" and im' = im and ch' = ch])
        (use d1 True Some L D in \<open>auto simp: view_def\<close>)
  next
    case False
    then have kv: "kv_store (lookup im ch) key s flag = ((lookup im ch)(key \<mapsto> s), 0)"
      using flag Some by (cases flag) auto
    obtain db2 im' ch' fl' where d2: "store_existing db1 key s = Inr db2" "view db2 im' (chain_lock key True)"
      "chainoff db2 = coff key" "layout im' ch' fl'" "data_ok im'" "lookup im' ch' = (lookup im ch)(key \<mapsto> s)"
      "larger (Suc 0) im im'"
      using store_existing_view [OF d1(2) L D d1(3) val s(1,2) d1(4,5) rm] by blast
    show ?thesis by (rule store_finish [OF v flag val(2) _ d2(2-5)]) (use d1 d2 False kv in auto)
  qed
qed

lemma store_represents:
  assumes rep: "represents db m" and val: "valid_key key" "valid_data s" and room: "has_room db"
  shows "\<exists>db'. db_store db key s flag = Inr (db', snd (kv_store m key s flag)) \<and>
    represents db' (fst (kv_store m key s flag)) \<and> grows 1 db db'"
proof (cases "flag = Other_flag")
  case True
  then show ?thesis using rep by (simp add: db_store_def)
next
  case flag: False
  obtain im ch fl where v: "view db im (\<lambda>_. None)" and L: "layout im ch fl" and D: "data_ok im"
    and m: "m = lookup im ch" using rep by (auto simp: represents_def)
  have rm: "length (enc_idx im) \<le> 9999999" "length (dat im) < 10 ^ 15"
    using room v by (simp_all add: has_room_def view_def fsize_def PTR_MAX_def)
  show ?thesis
    unfolding m using store_absent [OF v L D flag val rm] store_present [OF v L D flag val rm]
    by (cases "lookup im ch key") blast+
qed

end
