(* ===== verification/Db_Scan.thy ===== *)
theory Db_Scan
  imports Db_Ops
begin

text \<open>
  Opening a database and reading it sequentially: a newly created database represents the empty
  map, and rewinding followed by \<^verbatim>\<open>db_nextrec\<close> until NULL enumerates the represented map, every key
  once, skipping the records on the free list.
\<close>

section \<open>Opening\<close>

definition empty_image :: image where
  "empty_image = \<lparr>free = 0, tbl = replicate NHASH_DEF 0, recs = [], dat = []\<rparr>"

lemma enc_empty_image: "enc_idx empty_image = empty_table"
  by (simp add: empty_image_def enc_idx_def enc_hdr_def empty_table_def ptr_str_def)

lemma layout_empty: "layout empty_image (\<lambda>_. []) []"
  by (simp add: layout_def empty_image_def ok_image_def shape_def ok_ptr_def)

lemma data_ok_empty: "data_ok empty_image"
  by (simp add: data_ok_def empty_image_def)

lemma represents_empty: "view db empty_image (\<lambda>_. None) \<Longrightarrow> represents db Map.empty"
  unfolding represents_def using layout_empty data_ok_empty
  by (intro exI [of _ empty_image] exI [of _ "\<lambda>_. []"] exI [of _ "[]"]) (auto simp: lookup_def)

lemma length_empty_table: "length empty_table = HDR_LEN"
  using length_enc_hdr [of empty_image] layout_ok [OF layout_empty]
  by (simp add: enc_empty_image [symmetric] enc_idx_def) (simp add: empty_image_def)

lemma rewind_eq:
  assumes "nhash db = word_of_nat NHASH_DEF"
  shows "db_rewind db = Inr (db\<lparr>idxfd := (idxfd db)\<lparr>fpos := HDR_LEN\<rparr>, idxoff := int HDR_LEN\<rparr>)"
proof -
  have "int ((unat (nhash db) + 1) * PTR_SZ) + 1 = int HDR_LEN"
    by (simp add: assms NHASH_DEF_def PTR_SZ_def HDR_LEN_def)
  then show ?thesis unfolding db_rewind_def by (simp only:) (simp add: seeked_def)
qed

lemma open_create:
  assumes "o_creat fl" "o_trunc fl" "\<not> o_excl fl"
  shows "open_opt fs name fl = (fs(name \<mapsto> []),
    Some \<lparr>fname = name, content = [], fpos = 0, locks = (\<lambda>_. None), others = []\<rparr>)"
  using assms by (simp add: open_opt_def open_file_def Let_def split: option.split)

lemma open_represents:
  assumes "\<forall>i < 4. ok i" "o_creat fl" "o_trunc fl" "\<not> o_excl fl"
  shows "\<exists>fs' db. db_open ok fs path fl = Inr (fs', Some db) \<and> represents db Map.empty \<and>
    fsize (idxfd db) = HDR_LEN \<and> fsize (datfd db) = 0 \<and> has_room db \<and>
    fname (idxfd db) = path @ ''.idx'' \<and> fname (datfd db) = path @ ''.dat''"
proof -
  have ok: "ok 0" "ok (Suc 0)" "ok 2" "ok 3" using assms(1) by simp_all
  let ?i = "\<lparr>fname = path @ ''.idx'', content = empty_table, fpos = HDR_LEN, locks = (\<lambda>_. None), others = []\<rparr>"
  let ?d = "\<lparr>fname = path @ ''.dat'', content = [], fpos = 0, locks = (\<lambda>_. None), others = []\<rparr>"
  have "\<exists>fs' db. db_open ok fs path fl = Inr (fs', Some db) \<and> idxfd db = ?i \<and> datfd db = ?d \<and>
      nhash db = word_of_nat NHASH_DEF \<and> hashoff db = HASH_OFF"
    using assms(2-4) ok
    by (simp add: db_open_def db_alloc_def open_create db_init_def locked_def fsize_def fwrite_def
        Let_def rewind_eq overwrite_def length_empty_table)
  then obtain fs' db where o': "db_open ok fs path fl = Inr (fs', Some db)" and s: "idxfd db = ?i" "datfd db = ?d"
    "nhash db = word_of_nat NHASH_DEF" "hashoff db = HASH_OFF" by blast
  have "view db empty_image (\<lambda>_. None)"
    using s by (simp add: view_def enc_empty_image) (simp add: empty_image_def)
  moreover have "has_room db"
    by (simp add: has_room_def s fsize_def length_empty_table HDR_LEN_def db_consts)
  ultimately show ?thesis using o' s represents_empty by (auto simp: fsize_def length_empty_table)
qed

section \<open>Sequential access\<close>

lemma nextrec_loop_view:
  assumes "content (idxfd db) = enc_idx im" "ok_image im" "fpos (idxfd db) = pos (recs im) i"
    and "i \<le> length (recs im)" "length (recs im) - i < fuel"
  shows "\<exists>db' more. db_nextrec_loop fuel db = Inr (db', more) \<and> frame db db' \<and>
    (case List.find (\<lambda>j. \<not> blank (rkey (recs im ! j))) [i..<length (recs im)] of
       None \<Rightarrow> \<not> more \<and> fpos (idxfd db') = pos (recs im) (length (recs im))
     | Some j \<Rightarrow> more \<and> at_rec db' (recs im) j \<and> fpos (idxfd db') = pos (recs im) (Suc j))"
  using assms
proof (induction fuel arbitrary: db i)
  case (Suc n)
  show ?case
  proof (cases "i = length (recs im)")
    case True
    then have "db_readidx db 0 = Inr (db\<lparr>idxoff := int (length (enc_idx im))\<rparr>, -1)"
      using Suc.prems enc_idx_size by (intro db_readidx_eof) simp_all
    then have "db_nextrec_loop (Suc n) db = Inr (db\<lparr>idxoff := int (length (enc_idx im))\<rparr>, False)" by simp
    then show ?thesis using True Suc.prems by (auto simp: frame_def)
  next
    case False
    then have lt: "i < length (recs im)" using Suc.prems by simp
    let ?db = "loaded db (recs im) i"
    have rd: "db_readidx db 0 = Inr (?db, int (rptr (recs im ! i)))"
      using Suc.prems lt by (intro db_readidx_image) auto
    have u: "[i..<length (recs im)] = i # [Suc i..<length (recs im)]" using lt by (rule upt_conv_Cons)
    have key: "idxbuf ?db = rkey (recs im ! i)" "fpos (idxfd ?db) = pos (recs im) (Suc i)"
      "content (idxfd ?db) = content (idxfd db)"
      by (simp_all add: loaded_def)
    show ?thesis
    proof (cases "blank (rkey (recs im ! i))")
      case True
      have "\<exists>db' more. db_nextrec_loop n ?db = Inr (db', more) \<and> frame ?db db' \<and>
        (case List.find (\<lambda>j. \<not> blank (rkey (recs im ! j))) [Suc i..<length (recs im)] of
           None \<Rightarrow> \<not> more \<and> fpos (idxfd db') = pos (recs im) (length (recs im))
         | Some j \<Rightarrow> more \<and> at_rec db' (recs im) j \<and> fpos (idxfd db') = pos (recs im) (Suc j))"
        using Suc.prems lt key by (intro Suc.IH) auto
      then show ?thesis
        using True rd key frame_trans [OF frame_loaded] by (fastforce simp: u blank_def)
    next
      case False
      then have "db_nextrec_loop (Suc n) db = Inr (?db, True)"
        using rd key(1) by (auto simp: blank_def)
      then show ?thesis using False key by (auto simp: u)
    qed
  qed
qed simp

text \<open>The records from number \<open>i\<close> on that \<^verbatim>\<open>db_nextrec\<close> hands out.\<close>

definition live :: "image \<Rightarrow> nat \<Rightarrow> nat list" where
  "live im i = filter (\<lambda>j. \<not> blank (rkey (recs im ! j))) [i..<length (recs im)]"

definition entry :: "image \<Rightarrow> nat \<Rightarrow> string \<times> string" where
  "entry im j = (rkey (recs im ! j), data_of im (recs im ! j))"

lemma live_step:
  "live im i = (case List.find (\<lambda>j. \<not> blank (rkey (recs im ! j))) [i..<length (recs im)] of
     None \<Rightarrow> [] | Some j \<Rightarrow> j # live im (Suc j))"
proof (induction "length (recs im) - i" arbitrary: i)
  case 0
  then show ?case by (simp add: live_def)
next
  case (Suc n)
  then have u: "[i..<length (recs im)] = i # [Suc i..<length (recs im)]" by (intro upt_conv_Cons) simp
  have "live im i = (if blank (rkey (recs im ! i)) then live im (Suc i) else i # live im (Suc i))"
    by (simp add: live_def u)
  then show ?case using Suc.hyps(1) [of "Suc i"] Suc.hyps(2) by (simp add: u)
qed

lemma live_bound: "j \<in> set (live im i) \<Longrightarrow> i \<le> j \<and> j < length (recs im) \<and> \<not> blank (rkey (recs im ! j))"
  by (auto simp: live_def)

lemma nextrec_view:
  assumes v: "view db im (\<lambda>_. None)" and ok: "ok_image im" and D: "data_ok im"
    and at: "fpos (idxfd db) = pos (recs im) i" "i \<le> length (recs im)"
  shows "\<exists>db' i'. db_nextrec db = Inr (db', case live im i of [] \<Rightarrow> None | j # _ \<Rightarrow> Some (entry im j)) \<and>
    view db' im (\<lambda>_. None) \<and> fpos (idxfd db') = pos (recs im) i' \<and> i' \<le> length (recs im) \<and>
    live im i' = tl (live im i)"
proof -
  let ?lk = "set_region 0 1 (Some F_RDLCK) (\<lambda>_. None)"
  let ?f = "(idxfd db)\<lparr>locks := ?lk\<rparr>"
  have f: "locked (readw_lock (idxfd db) FREE_OFF SEEK_SET 1) ''db_nextrec: readw_lock error'' = Inr ?f"
    "view (db\<lparr>idxfd := ?f\<rparr>) im ?lk"
    using v by (simp_all add: view_def locked_def FREE_OFF_def)
  have "length (recs im) \<le> fsize ?f"
    using v ok records_le_size [of "recs im"] by (simp add: view_def fsize_def enc_idx_size ok_image_def)
  then have "length (recs im) - i < fsize ?f + 2" by simp
  from nextrec_loop_view [OF view_content [OF f(2)] ok _ at(2) this] at(1) obtain db1 more where
    d1: "db_nextrec_loop (fsize ?f + 2) (db\<lparr>idxfd := ?f\<rparr>) = Inr (db1, more)" "frame (db\<lparr>idxfd := ?f\<rparr>) db1"
    and c: "case List.find (\<lambda>j. \<not> blank (rkey (recs im ! j))) [i..<length (recs im)] of
       None \<Rightarrow> \<not> more \<and> fpos (idxfd db1) = pos (recs im) (length (recs im))
     | Some j \<Rightarrow> more \<and> at_rec db1 (recs im) j \<and> fpos (idxfd db1) = pos (recs im) (Suc j)"
    by auto
  have v1: "view db1 im ?lk" by (rule frame_view [OF d1(2) f(2)])
  show ?thesis
  proof (cases "live im i")
    case Nil
    then have more: "\<not> more" "fpos (idxfd db1) = pos (recs im) (length (recs im))"
      using c live_step [of im i] by (auto split: option.splits)
    have "live im (length (recs im)) = []" by (simp add: live_def)
    then show ?thesis using f(1) d1(1) more v1 Nil
      by (intro exI [of _ "db1\<lparr>idxfd := (idxfd db1)\<lparr>locks := \<lambda>_. None\<rparr>\<rparr>"] exI [of _ "length (recs im)"])
        (simp add: db_nextrec_def locked_def FREE_OFF_def view_def del: db_nextrec_loop.simps add_2_eq_Suc')
  next
    case (Cons j js)
    then have more: "more" "at_rec db1 (recs im) j" "fpos (idxfd db1) = pos (recs im) (Suc j)"
      and js: "js = live im (Suc j)"
      using c live_step [of im i] by (auto split: option.splits)
    have j: "j < length (recs im)" using live_bound [of j im i] Cons by simp
    then have "in_dat (dat im) (recs im ! j)" using D by (simp add: data_ok_def)
    then obtain db2 where d2: "db_readdat db1 = Inr (db2, data_of im (recs im ! j))"
      "idxfd db2 = idxfd db1" "view db2 im ?lk"
      using db_readdat_eq [of db1 "roff (recs im ! j)" "rlen (recs im ! j)"] more(2) D v1
      by (simp add: view_def at_rec_def in_dat_def data_ok_def Let_def data_of_def)
    have "idxbuf db1 = rkey (recs im ! j)" using more(2) by (simp add: at_rec_def)
    then show ?thesis using f(1) d1(1) d2 more Cons js j
      by (intro exI [of _ "db2\<lparr>cnt_nextrec := cnt_nextrec db2 + 1, idxfd := (idxfd db2)\<lparr>locks := \<lambda>_. None\<rparr>\<rparr>"]
          exI [of _ "Suc j"])
        (simp add: db_nextrec_def locked_def FREE_OFF_def view_def entry_def del: db_nextrec_loop.simps add_2_eq_Suc')
  qed
qed

text \<open>A client's loop over \<^verbatim>\<open>db_nextrec\<close> until it returns NULL.\<close>

fun scan :: "nat \<Rightarrow> DB \<Rightarrow> db_err + (DB \<times> (string \<times> string) list)" where
  "scan 0 db = Inl (Diverges ''scan'')"
| "scan (Suc n) db = bindR (db_nextrec db) (\<lambda>(db, r). case r of None \<Rightarrow> Inr (db, [])
     | Some e \<Rightarrow> bindR (scan n db) (\<lambda>(db, es). Inr (db, e # es)))"

lemma scan_view:
  assumes "view db im (\<lambda>_. None)" "ok_image im" "data_ok im" "fpos (idxfd db) = pos (recs im) i"
    and "i \<le> length (recs im)" "length (live im i) < fuel"
  shows "\<exists>db'. scan fuel db = Inr (db', map (entry im) (live im i)) \<and> view db' im (\<lambda>_. None)"
  using assms
proof (induction fuel arbitrary: db i)
  case (Suc n)
  obtain db1 i' where d1: "db_nextrec db = Inr (db1, case live im i of [] \<Rightarrow> None | j # _ \<Rightarrow> Some (entry im j))"
    "view db1 im (\<lambda>_. None)" "fpos (idxfd db1) = pos (recs im) i'" "i' \<le> length (recs im)"
    "live im i' = tl (live im i)"
    using nextrec_view [OF Suc.prems(1-5)] by blast
  show ?case
  proof (cases "live im i")
    case Nil
    then show ?thesis using d1 by simp
  next
    case (Cons j js)
    then have l: "live im i' = js" using d1(5) by simp
    obtain db2 where "scan n db1 = Inr (db2, map (entry im) js)" "view db2 im (\<lambda>_. None)"
      using Suc.IH [OF d1(2) Suc.prems(2,3) d1(3,4)] l Suc.prems(6) Cons by auto
    then show ?thesis using d1(1) Cons by simp
  qed
qed simp

lemma live_chain:
  assumes "layout im ch fl" "j < length (recs im)" "\<not> blank (rkey (recs im ! j))"
  shows "j \<in> set (ch (khash (rkey (recs im ! j))))"
  using assms shape_all layout_fl unfolding layout_def by blast

lemma map_of_live:
  assumes L: "layout im ch fl"
  shows "map_of (map (entry im) (live im 0)) = lookup im ch" and "distinct (map fst (map (entry im) (live im 0)))"
proof -
  have inj: "inj_on (\<lambda>j. rkey (recs im ! j)) (set (live im 0))"
  proof (rule inj_onI)
    fix a b assume a: "a \<in> set (live im 0)" and b: "b \<in> set (live im 0)" and e: "rkey (recs im ! a) = rkey (recs im ! b)"
    have "a \<in> set (ch (khash (rkey (recs im ! b))))" "b \<in> set (ch (khash (rkey (recs im ! b))))"
      using live_chain [OF L] live_bound [OF a] live_bound [OF b] e by metis+
    then show "a = b" using layout_keys [OF L khash_less] e by (auto simp: distinct_map inj_on_def)
  qed
  have "distinct (live im 0)" by (simp add: live_def)
  then show d: "distinct (map fst (map (entry im) (live im 0)))"
    using inj by (simp add: distinct_map entry_def comp_def)
  have in_live: "j \<in> set (live im 0)" if "j \<in> set (ch (khash k))" for j k
    using layout_live [OF L khash_less that] by (auto simp: live_def)
  show "map_of (map (entry im) (live im 0)) = lookup im ch"
  proof (rule map_eqI)
    fix k v
    have "map_of (map (entry im) (live im 0)) k = Some v \<longleftrightarrow> (\<exists>j \<in> set (live im 0). entry im j = (k, v))"
      using d by (auto simp: map_of_eq_Some_iff image_iff simp del: map_map) metis
    also have "\<dots> \<longleftrightarrow> (\<exists>j \<in> set (ch (khash k)). rkey (recs im ! j) = k \<and> data_of im (recs im ! j) = v)"
    proof -
      have "j \<in> set (live im 0) \<longleftrightarrow> j \<in> set (ch (khash k))" if "rkey (recs im ! j) = k" for j
        using in_live [of j k] live_chain [OF L, of j] live_bound [of j im 0] that by blast
      then show ?thesis by (auto simp: entry_def)
    qed
    finally show "map_of (map (entry im) (live im 0)) k = Some v \<longleftrightarrow> lookup im ch k = Some v"
      by (simp add: lookup_Some_iff [OF L])
  qed
qed

lemma scan_represents:
  assumes "represents db m"
  shows "\<exists>db1 db2 kvs. db_rewind db = Inr db1 \<and> represents db1 m \<and>
    scan (fsize (idxfd db) + 1) db1 = Inr (db2, kvs) \<and> represents db2 m \<and>
    map_of kvs = m \<and> distinct (map fst kvs)"
proof -
  obtain im ch fl where v: "view db im (\<lambda>_. None)" and L: "layout im ch fl" and D: "data_ok im"
    and m: "m = lookup im ch" using assms by (auto simp: represents_def)
  have ok: "ok_image im" using L by (rule layout_ok)
  let ?db1 = "db\<lparr>idxfd := (idxfd db)\<lparr>fpos := HDR_LEN\<rparr>, idxoff := int HDR_LEN\<rparr>"
  have r: "db_rewind db = Inr ?db1" using v by (intro rewind_eq) (simp add: view_def)
  have v1: "view ?db1 im (\<lambda>_. None)" using v by (simp add: view_def)
  have "length (live im 0) \<le> length (recs im)"
    using length_filter_le [of _ "[0..<length (recs im)]"] by (simp add: live_def)
  also have "\<dots> \<le> fsize (idxfd db)"
    using v ok records_le_size [of "recs im"] by (simp add: view_def fsize_def enc_idx_size ok_image_def)
  finally have "length (live im 0) < fsize (idxfd db) + 1" by simp
  moreover have "fpos (idxfd ?db1) = pos (recs im) 0" by (simp add: pos_def)
  ultimately obtain db2 where s: "scan (fsize (idxfd db) + 1) ?db1 = Inr (db2, map (entry im) (live im 0))"
    "view db2 im (\<lambda>_. None)"
    using scan_view [OF v1 ok D] by blast
  have "represents ?db1 m" "represents db2 m" unfolding represents_def using v1 s(2) L D m by blast+
  then show ?thesis using r s(1) map_of_live [OF L] m by blast
qed

end
