(* ===== verification/Refinement.thy ===== *)
theory Refinement
  imports Prelude
begin

text \<open>
  The contract between a component and its abstract specification, as a locale: a fallible step
  function on concrete states, a total step function on abstract ones, and a relation that every
  step whose precondition holds preserves. The client lemma is that whole sequences of commands
  succeed and return the specified results.
\<close>

fun run :: "('s \<Rightarrow> 'c \<Rightarrow> 'e + 's \<times> 'r) \<Rightarrow> 's \<Rightarrow> 'c list \<Rightarrow> 'e + 's \<times> 'r list" where
  "run step s [] = Inr (s, [])"
| "run step s (c # cs) = bindR (step s c) (\<lambda>(s, r). bindR (run step s cs) (\<lambda>(s, rs). Inr (s, r # rs)))"

fun spec_run :: "('a \<Rightarrow> 'c \<Rightarrow> 'a \<times> 'r) \<Rightarrow> 'a \<Rightarrow> 'c list \<Rightarrow> 'a \<times> 'r list" where
  "spec_run spec a [] = (a, [])"
| "spec_run spec a (c # cs) =
     (let (a, r) = spec a c; (a, rs) = spec_run spec a cs in (a, r # rs))"

fun all_pre :: "('a \<Rightarrow> 'c \<Rightarrow> 'a \<times> 'r) \<Rightarrow> ('a \<Rightarrow> 'c \<Rightarrow> bool) \<Rightarrow> 'a \<Rightarrow> 'c list \<Rightarrow> bool" where
  "all_pre spec pre a [] \<longleftrightarrow> True"
| "all_pre spec pre a (c # cs) \<longleftrightarrow> pre a c \<and> all_pre spec pre (fst (spec a c)) cs"

lemma run_append:
  "run step s (xs @ ys) = bindR (run step s xs)
     (\<lambda>(s, rs). bindR (run step s ys) (\<lambda>(s, rs'). Inr (s, rs @ rs')))"
proof (induction xs arbitrary: s)
  case Nil
  then show ?case by (cases "run step s ys") (auto simp: bindR_def)
next
  case (Cons c xs)
  show ?case by (simp add: Cons bindR_assoc split_def)
qed

locale data_refinement =
  fixes R :: "'s \<Rightarrow> 'a \<Rightarrow> bool"
    and step :: "'s \<Rightarrow> 'c \<Rightarrow> 'e + 's \<times> 'r"
    and spec :: "'a \<Rightarrow> 'c \<Rightarrow> 'a \<times> 'r"
    and pre :: "'a \<Rightarrow> 'c \<Rightarrow> bool"
  assumes sim: "R s a \<Longrightarrow> pre a c \<Longrightarrow>
    \<exists>s'. step s c = Inr (s', snd (spec a c)) \<and> R s' (fst (spec a c))"
begin

lemma run_refines:
  "R s a \<Longrightarrow> all_pre spec pre a cs \<Longrightarrow>
    \<exists>s'. run step s cs = Inr (s', snd (spec_run spec a cs)) \<and> R s' (fst (spec_run spec a cs))"
proof (induction cs arbitrary: s a)
  case (Cons c cs)
  obtain s1 where s1: "step s c = Inr (s1, snd (spec a c))" "R s1 (fst (spec a c))"
    using sim Cons.prems by fastforce
  obtain s2 where "run step s1 cs = Inr (s2, snd (spec_run spec (fst (spec a c)) cs))"
    "R s2 (fst (spec_run spec (fst (spec a c)) cs))"
    using Cons.IH [OF s1(2)] Cons.prems by auto
  then show ?case using s1(1) by (simp add: split_def Let_def)
qed simp

lemma run_no_error:
  "R s a \<Longrightarrow> all_pre spec pre a cs \<Longrightarrow> run step s cs \<noteq> Inl e"
  using run_refines by fastforce

end

end
