(* ===== verification/Db_Spec.thy ===== *)
theory Db_Spec
  imports Db_Scan Refinement
begin

text \<open>
  The database library as a key-value store: commands and results, the interpretation of the
  refinement contract on the library's operations, and the library's properties.
\<close>

section \<open>Commands\<close>

datatype db_cmd = Fetch string | Store string string store_flag | Delete string

datatype db_res = Data "string option" | Code int

fun db_step :: "DB \<Rightarrow> db_cmd \<Rightarrow> db_err + DB \<times> db_res" where
  "db_step db (Fetch key) = bindR (db_fetch db key) (\<lambda>(db, r). Inr (db, Data r))"
| "db_step db (Store key s flag) = bindR (db_store db key s flag) (\<lambda>(db, rc). Inr (db, Code rc))"
| "db_step db (Delete key) = bindR (db_delete db key) (\<lambda>(db, rc). Inr (db, Code rc))"

fun kv_step :: "(string \<rightharpoonup> string) \<Rightarrow> db_cmd \<Rightarrow> (string \<rightharpoonup> string) \<times> db_res" where
  "kv_step m (Fetch key) = (m, Data (m key))"
| "kv_step m (Store key s flag) = (case kv_store m key s flag of (m', rc) \<Rightarrow> (m', Code rc))"
| "kv_step m (Delete key) = (m(key := None), Code (if m key = None then -1 else 0))"

fun valid_cmd :: "db_cmd \<Rightarrow> bool" where
  "valid_cmd (Store key s flag) \<longleftrightarrow> valid_key key \<and> valid_data s"
| "valid_cmd _ \<longleftrightarrow> True"

text \<open>The specification with the number of records that still fit into the pointer fields.\<close>

definition budget_step :: "(string \<rightharpoonup> string) \<times> nat \<Rightarrow> db_cmd \<Rightarrow> ((string \<rightharpoonup> string) \<times> nat) \<times> db_res" where
  "budget_step a c = (case kv_step (fst a) c of (m, r) \<Rightarrow> ((m, snd a - 1), r))"

definition budget_pre :: "(string \<rightharpoonup> string) \<times> nat \<Rightarrow> db_cmd \<Rightarrow> bool" where
  "budget_pre a c \<longleftrightarrow> valid_cmd c \<and> 0 < snd a"

definition capacity :: "DB \<Rightarrow> nat \<Rightarrow> bool" where
  "capacity db n \<longleftrightarrow> int (fsize (idxfd db) + n * 1035) \<le> PTR_MAX + 1035 \<and>
     fsize (datfd db) + n * DATLEN_MAX < 10 ^ 15"

definition db_rel :: "DB \<Rightarrow> (string \<rightharpoonup> string) \<times> nat \<Rightarrow> bool" where
  "db_rel db a \<longleftrightarrow> represents db (fst a) \<and> capacity db (snd a)"

lemma capacity_room: "capacity db n \<Longrightarrow> 0 < n \<Longrightarrow> has_room db"
  by (cases n) (simp_all add: capacity_def has_room_def)

lemma capacity_grows:
  assumes "capacity db n" "0 < n" "grows k db db'" "k \<le> 1"
  shows "capacity db' (n - 1)"
proof -
  have "k * 1035 \<le> 1035" "k * 1024 \<le> 1024" using assms(4) by simp_all
  moreover obtain p where "n = Suc p" using assms(2) by (cases n) auto
  ultimately show ?thesis using assms(1,3) by (simp add: capacity_def grows_def DATLEN_MAX_def)
qed

interpretation db: data_refinement db_rel db_step budget_step budget_pre
proof
  fix db a c assume R: "db_rel db a" and p: "budget_pre a c"
  obtain m n where a: "a = (m, n)" by (cases a)
  have rep: "represents db m" and cap: "capacity db n" and n: "0 < n"
    using R p a by (simp_all add: db_rel_def budget_pre_def)
  note g = capacity_grows [OF cap n]
  show "\<exists>db'. db_step db c = Inr (db', snd (budget_step a c)) \<and> db_rel db' (fst (budget_step a c))"
  proof (cases c)
    case (Fetch key)
    then show ?thesis using fetch_represents [OF rep, of key] g [of 0]
      by (auto simp: a budget_step_def db_rel_def)
  next
    case (Store key s flag)
    then have "valid_key key" "valid_data s" using p by (simp_all add: budget_pre_def)
    from store_represents [OF rep this capacity_room [OF cap n], of flag] Store g [of 1] show ?thesis
      by (auto simp: a budget_step_def db_rel_def split_def)
  next
    case (Delete key)
    then show ?thesis using delete_represents [OF rep, of key] g [of 0]
      by (auto simp: a budget_step_def db_rel_def)
  qed
qed

lemma budget_run:
  "spec_run budget_step (m, n) cs =
    ((fst (spec_run kv_step m cs), n - length cs), snd (spec_run kv_step m cs))"
  by (induction cs arbitrary: m n) (auto simp: budget_step_def split_def Let_def)

lemma budget_all_pre:
  "length cs \<le> n \<Longrightarrow> list_all valid_cmd cs \<Longrightarrow> all_pre budget_step budget_pre (m, n) cs"
  by (induction cs arbitrary: m n) (auto simp: budget_step_def budget_pre_def split_def)

lemma fresh_rel:
  assumes "represents db Map.empty" "fsize (idxfd db) = HDR_LEN" "fsize (datfd db) = 0"
  shows "db_rel db (Map.empty, 9661)"
  using assms by (simp add: db_rel_def capacity_def HDR_LEN_def db_consts)

section \<open>Reopening\<close>

text \<open>Where a database was opened from, and what \<^verbatim>\<open>db_open\<close> without truncation finds there.\<close>

definition opened_at :: "DB \<Rightarrow> string \<Rightarrow> bool" where
  "opened_at db path \<longleftrightarrow> fname (idxfd db) = path @ ''.idx'' \<and> fname (datfd db) = path @ ''.dat''"

lemma reopen_represents:
  assumes rep: "represents db m" and at: "opened_at db path" and al: "\<forall>i < 4. ok i"
    and fl: "\<not> o_creat fl" "\<not> o_trunc fl"
  shows "\<exists>fs' db'. db_open ok (db_close fs db) path fl = Inr (fs', Some db') \<and> represents db' m"
proof -
  obtain im ch fl' where v: "view db im (\<lambda>_. None)" and L: "layout im ch fl'" and D: "data_ok im"
    and m: "m = lookup im ch" using rep by (auto simp: represents_def)
  have ok: "ok 0" "ok (Suc 0)" "ok 2" "ok 3" using al by simp_all
  have "\<exists>fs' db'. db_open ok (db_close fs db) path fl = Inr (fs', Some db') \<and> view db' im (\<lambda>_. None)"
    using v at fl ok
    by (simp add: db_open_def db_alloc_def open_opt_def open_file_def db_close_def db_free_def close_file_def
        opened_at_def Let_def rewind_eq view_def)
  then show ?thesis unfolding represents_def using L D m by blast
qed

section \<open>Properties\<close>

definition create_flags :: oflags where
  "create_flags = \<lparr>o_creat = True, o_trunc = True, o_excl = False\<rparr>"

definition reopen_flags :: oflags where
  "reopen_flags = \<lparr>o_creat = False, o_trunc = False, o_excl = False\<rparr>"

lemma fresh_db:
  obtains fs' db where "db_open (\<lambda>_. True) fs path create_flags = Inr (fs', Some db)"
    "represents db Map.empty" "fsize (idxfd db) = HDR_LEN" "fsize (datfd db) = 0" "has_room db"
    "opened_at db path"
  using open_represents [of "\<lambda>_. True" create_flags fs path] by (auto simp: create_flags_def opened_at_def)



text \<open>
  \<^verbatim>\<open>db_fetch\<close> on a database that represents a map returns the map's value for the key (NULL
  when there is none), and leaves the represented map as it was and no lock held.
\<close>

theorem db_fetch_correct:
  assumes "represents db m"
  shows "\<exists>db'. db_fetch db key = Inr (db', m key) \<and> represents db' m"
  using fetch_represents [OF assms] by blast

theorem db_fetch_correct_witness:
  "\<exists>fs db db'. db_open (\<lambda>_. True) Map.empty ''db'' create_flags = Inr (fs, Some db) \<and>
    db_fetch db ''k'' = Inr (db', None)"
proof -
  obtain fs db where "db_open (\<lambda>_. True) Map.empty ''db'' create_flags = Inr (fs, Some db)"
    "represents db Map.empty" by (rule fresh_db)
  then show ?thesis using db_fetch_correct [of db Map.empty "''k''"] by fastforce
qed

text \<open>
  \<^verbatim>\<open>db_store\<close> with a valid key and data does what its flag says: it inserts unless the key is
  there (return 1), replaces only if the key is there (else -1), or stores in either case; an
  unknown flag returns -1. Appending, reusing a free record, rewriting in place and
  delete-and-append all give the same map.
\<close>

theorem db_store_correct:
  assumes "represents db m" "valid_key key" "valid_data s" "has_room db"
  shows "\<exists>db'. db_store db key s flag = Inr (db', snd (kv_store m key s flag)) \<and>
    represents db' (fst (kv_store m key s flag))"
  using store_represents [OF assms] by blast

theorem db_store_correct_witness:
  "\<exists>fs db db'. db_open (\<lambda>_. True) Map.empty ''db'' create_flags = Inr (fs, Some db) \<and>
    db_store db ''k'' ''data'' DB_INSERT = Inr (db', 0) \<and> represents db' [''k'' \<mapsto> ''data'']"
proof -
  obtain fs db where "db_open (\<lambda>_. True) Map.empty ''db'' create_flags = Inr (fs, Some db)"
    "represents db Map.empty" "has_room db" by (rule fresh_db)
  moreover have "valid_key ''k''" "valid_data ''data''" by (simp_all add: valid_key_def valid_data_def blank_def db_consts)
  ultimately show ?thesis using db_store_correct [of db Map.empty "''k''" "''data''" DB_INSERT] by fastforce
qed

text \<open>
  \<^verbatim>\<open>db_delete\<close> removes exactly the given key from the represented map and returns 0, or
  returns -1 and changes nothing when the key is absent.
\<close>

theorem db_delete_correct:
  assumes "represents db m"
  shows "\<exists>db'. db_delete db key = Inr (db', if m key = None then -1 else 0) \<and> represents db' (m(key := None))"
  using delete_represents [OF assms] by blast

theorem db_delete_correct_witness:
  "\<exists>fs db db'. db_open (\<lambda>_. True) Map.empty ''db'' create_flags = Inr (fs, Some db) \<and>
    db_delete db ''k'' = Inr (db', -1)"
proof -
  obtain fs db where "db_open (\<lambda>_. True) Map.empty ''db'' create_flags = Inr (fs, Some db)"
    "represents db Map.empty" by (rule fresh_db)
  then show ?thesis using db_delete_correct [of db Map.empty "''k''"] by fastforce
qed

text \<open>
  C2: \<^verbatim>\<open>db_rewind\<close> followed by \<^verbatim>\<open>db_nextrec\<close> until it returns NULL hands out every key of the
  represented map with its data, each once, and nothing else: deleted records are skipped.
\<close>

theorem db_scan_correct:
  assumes "represents db m"
  shows "\<exists>db1 db2 kvs. db_rewind db = Inr db1 \<and> scan (fsize (idxfd db) + 1) db1 = Inr (db2, kvs) \<and>
    represents db2 m \<and> map_of kvs = m \<and> distinct (map fst kvs)"
  using scan_represents [OF assms] by blast

theorem db_scan_correct_witness:
  "\<exists>fs db db1 db2. db_open (\<lambda>_. True) Map.empty ''db'' create_flags = Inr (fs, Some db) \<and>
    db_rewind db = Inr db1 \<and> scan (fsize (idxfd db) + 1) db1 = Inr (db2, [])"
proof -
  obtain fs db where "db_open (\<lambda>_. True) Map.empty ''db'' create_flags = Inr (fs, Some db)"
    "represents db Map.empty" by (rule fresh_db)
  then show ?thesis using db_scan_correct [of db Map.empty] by (fastforce simp del: scan.simps)
qed

text \<open>
  C3: a database that is closed and opened again under the same path represents the same map.
\<close>

theorem db_reopen_correct:
  assumes "represents db m" "opened_at db path" "\<forall>i < 4. ok i" "\<not> o_creat fl" "\<not> o_trunc fl"
  shows "\<exists>fs' db'. db_open ok (db_close fs db) path fl = Inr (fs', Some db') \<and> represents db' m"
  using reopen_represents [OF assms] .

theorem db_reopen_correct_witness:
  "\<exists>fs db fs' db'. db_open (\<lambda>_. True) Map.empty ''db'' create_flags = Inr (fs, Some db) \<and>
    db_open (\<lambda>_. True) (db_close fs db) ''db'' reopen_flags = Inr (fs', Some db') \<and> represents db' Map.empty"
proof -
  obtain fs db where "db_open (\<lambda>_. True) Map.empty ''db'' create_flags = Inr (fs, Some db)"
    "represents db Map.empty" "opened_at db ''db''" by (rule fresh_db)
  then show ?thesis
    using db_reopen_correct [of db Map.empty "''db''" "\<lambda>_. True" reopen_flags fs] by (fastforce simp: reopen_flags_def)
qed

text \<open>
  An index record whose key needs more room than \<^verbatim>\<open>idxbuf\<close> has makes \<^verbatim>\<open>_db_writeidx\<close> write past
  the end of the buffer: the length check comes after the \<^verbatim>\<open>sprintf\<close>.
\<close>

theorem db_writeidx_overflow:
  assumes "IDXLEN_MAX - 3 \<le> length key" "0 \<le> p" "p \<le> PTR_MAX"
  shows "\<exists>msg. db_writeidx db key offset w p = Inl (Undefined msg)"
proof -
  have "0 < length (show_int (datoff db))" "0 < length (show_nat (datlen db))"
    by (simp_all add: show_int_def)
  then have "length (idx_body key (datoff db) (datlen db)) + 1 > IDXLEN_MAX + 2"
    using assms(1) by (simp add: idx_body_def IDXLEN_MAX_def del: length_greater_0_conv)
  then show ?thesis using assms(2,3) by (simp add: db_writeidx_def Let_def)
qed

theorem db_writeidx_overflow_witness:
  "\<exists>fs db msg. db_open (\<lambda>_. True) Map.empty ''db'' create_flags = Inr (fs, Some db) \<and>
    db_writeidx db (replicate 1030 CHR ''k'') 0 SEEK_END 0 = Inl (Undefined msg)"
proof -
  obtain fs db where "db_open (\<lambda>_. True) Map.empty ''db'' create_flags = Inr (fs, Some db)" by (rule fresh_db)
  moreover have "\<exists>msg. db_writeidx db (replicate 1030 CHR ''k'') 0 SEEK_END 0 = Inl (Undefined msg)"
    by (rule db_writeidx_overflow) (simp_all add: db_consts)
  ultimately show ?thesis by blast
qed

end
