(* ===== verification/RbTree.thy ===== *)
theory RbTree
  imports Prelude "HOL-Library.Monad_Syntax"
begin

text \<open>
  The red-black tree of \<^verbatim>\<open>DSAlgo/RedBlackTree/rbtree.c\<close>, function by function, on a heap of nodes.
  The record holds the two fields of the C struct \<^verbatim>\<open>rbtree\<close> and, one function per struct member,
  the memory of the nodes; an address is a natural number, \<open>NULL\<close> is 0, and \<open>live\<close> is the set of
  addresses that \<^verbatim>\<open>malloc\<close> has returned and \<^verbatim>\<open>free\<close> has not taken back. Loops that a cyclic heap
  could keep running are partial functions: not returning is the value \<open>None\<close>. \<^verbatim>\<open>KEY_TYPE\<close> is
  \<^verbatim>\<open>int\<close>, and keys are only compared.
\<close>

datatype color = RED | BLACK

type_synonym addr = nat

record rbtree =
  root :: addr
  nil :: addr
  color :: "addr \<Rightarrow> color"
  left :: "addr \<Rightarrow> addr"
  right :: "addr \<Rightarrow> addr"
  parent :: "addr \<Rightarrow> addr"
  key :: "addr \<Rightarrow> int"
  val :: "addr \<Rightarrow> nat"
  live :: "addr set"

abbreviation NULL :: addr where "NULL \<equiv> 0"

section \<open>Assignments to the members of a node\<close>

definition set_color :: "addr \<Rightarrow> color \<Rightarrow> rbtree \<Rightarrow> rbtree" where
  "set_color a c T = T\<lparr>color := (color T)(a := c)\<rparr>"

definition set_left :: "addr \<Rightarrow> addr \<Rightarrow> rbtree \<Rightarrow> rbtree" where
  "set_left a p T = T\<lparr>left := (left T)(a := p)\<rparr>"

definition set_right :: "addr \<Rightarrow> addr \<Rightarrow> rbtree \<Rightarrow> rbtree" where
  "set_right a p T = T\<lparr>right := (right T)(a := p)\<rparr>"

definition set_parent :: "addr \<Rightarrow> addr \<Rightarrow> rbtree \<Rightarrow> rbtree" where
  "set_parent a p T = T\<lparr>parent := (parent T)(a := p)\<rparr>"

section \<open>Nodes and initialisation\<close>

text \<open>The first argument of the two allocating functions is what \<^verbatim>\<open>malloc\<close> returns.\<close>

definition rbtree_create_node :: "addr \<Rightarrow> int \<Rightarrow> nat \<Rightarrow> addr \<Rightarrow> rbtree \<Rightarrow> rbtree \<times> addr" where
  "rbtree_create_node node k v nl T =
    (if node = NULL then (T, NULL)
     else (T\<lparr>key := (key T)(node := k), val := (val T)(node := v),
             color := (color T)(node := RED), left := (left T)(node := nl),
             right := (right T)(node := nl), parent := (parent T)(node := nl),
             live := insert node (live T)\<rparr>, node))"

definition rbtree_init :: "addr \<Rightarrow> rbtree \<Rightarrow> rbtree" where
  "rbtree_init n T =
    (let T = T\<lparr>nil := n, live := insert n (live T)\<rparr>; T = set_color (nil T) BLACK T in T\<lparr>root := nil T\<rparr>)"

section \<open>Rotations\<close>

definition rbtree_left_rotate :: "rbtree \<Rightarrow> addr \<Rightarrow> rbtree" where
  "rbtree_left_rotate T x =
    (let y = right T x;
         T = set_right x (left T y) T;
         T = (if left T y \<noteq> nil T then set_parent (left T y) x T else T);
         T = set_parent y (parent T x) T;
         T = (if parent T x = nil T then T\<lparr>root := y\<rparr>
              else if x = left T (parent T x) then set_left (parent T x) y T
              else set_right (parent T x) y T);
         T = set_left y x T
     in set_parent x y T)"

definition rbtree_right_rotate :: "rbtree \<Rightarrow> addr \<Rightarrow> rbtree" where
  "rbtree_right_rotate T y =
    (let x = left T y;
         T = set_left y (right T x) T;
         T = (if right T x \<noteq> nil T then set_parent (right T x) y T else T);
         T = set_parent x (parent T y) T;
         T = (if parent T y = nil T then T\<lparr>root := x\<rparr>
              else if y = right T (parent T y) then set_right (parent T y) x T
              else set_left (parent T y) x T);
         T = set_right x y T
     in set_parent y x T)"

section \<open>Insertion\<close>

text \<open>One turn of the loop of \<^verbatim>\<open>rbtree_insert_fixup\<close>: the new heap and the new \<^verbatim>\<open>z\<close>.\<close>

definition fixup_turn :: "rbtree \<Rightarrow> addr \<Rightarrow> rbtree \<times> addr" where
  "fixup_turn T z =
    (if parent T z = left T (parent T (parent T z)) then
       let y = right T (parent T (parent T z)) in
       if color T y = RED then
         let T = set_color (parent T z) BLACK T;
             T = set_color y BLACK T;
             T = set_color (parent T (parent T z)) RED T
         in (T, parent T (parent T z))
       else
         let (T, z) = (if z = right T (parent T z)
                       then let z = parent T z in (rbtree_left_rotate T z, z) else (T, z));
             T = set_color (parent T z) BLACK T;
             T = set_color (parent T (parent T z)) RED T
         in (rbtree_right_rotate T (parent T (parent T z)), z)
     else
       let y = left T (parent T (parent T z)) in
       if color T y = RED then
         let T = set_color (parent T z) BLACK T;
             T = set_color y BLACK T;
             T = set_color (parent T (parent T z)) RED T
         in (T, parent T (parent T z))
       else
         let (T, z) = (if z = left T (parent T z)
                       then let z = parent T z in (rbtree_right_rotate T z, z) else (T, z));
             T = set_color (parent T z) BLACK T;
             T = set_color (parent T (parent T z)) RED T
         in (rbtree_left_rotate T (parent T (parent T z)), z))"

partial_function (option) rbtree_insert_fixup :: "rbtree \<Rightarrow> addr \<Rightarrow> rbtree option" where
  "rbtree_insert_fixup T z =
    (if color T (parent T z) = RED
     then (case fixup_turn T z of (T, z) \<Rightarrow> rbtree_insert_fixup T z)
     else Some (set_color (root T) BLACK T))"

text \<open>The descent of \<^verbatim>\<open>rbtree_insert\<close>: the last node seen before \<^verbatim>\<open>nil\<close>.\<close>

partial_function (option) insert_descent :: "rbtree \<Rightarrow> addr \<Rightarrow> addr \<Rightarrow> addr \<Rightarrow> addr option" where
  "insert_descent T z y x =
    (if x \<noteq> nil T
     then insert_descent T z x (if key T z < key T x then left T x else right T x)
     else Some y)"

definition rbtree_insert :: "rbtree \<Rightarrow> addr \<Rightarrow> rbtree option" where
  "rbtree_insert T z = do {
     y \<leftarrow> insert_descent T z (nil T) (root T);
     let T = set_parent z y T;
     let T = (if y = nil T then T\<lparr>root := z\<rparr>
              else if key T z < key T y then set_left y z T
              else set_right y z T);
     let T = set_left z (nil T) T;
     let T = set_right z (nil T) T;
     let T = set_color z RED T;
     rbtree_insert_fixup T z }"

section \<open>Searching\<close>

partial_function (option) rbtree_minimum :: "rbtree \<Rightarrow> addr \<Rightarrow> addr option" where
  "rbtree_minimum T x = (if left T x \<noteq> nil T then rbtree_minimum T (left T x) else Some x)"

partial_function (option) search_loop :: "rbtree \<Rightarrow> int \<Rightarrow> addr \<Rightarrow> addr option" where
  "search_loop T k node =
    (if node \<noteq> nil T then
       (if k < key T node then search_loop T k (left T node)
        else if k > key T node then search_loop T k (right T node)
        else Some node)
     else Some NULL)"

definition rbtree_search :: "rbtree \<Rightarrow> int \<Rightarrow> addr option" where
  "rbtree_search T k = search_loop T k (root T)"

section \<open>Deletion\<close>

definition rbtree_transplant :: "rbtree \<Rightarrow> addr \<Rightarrow> addr \<Rightarrow> rbtree" where
  "rbtree_transplant T u v =
    (let T = (if parent T u = nil T then T\<lparr>root := v\<rparr>
              else if u = left T (parent T u) then set_left (parent T u) v T
              else set_right (parent T u) v T)
     in set_parent v (parent T u) T)"

text \<open>One turn of the loop of \<^verbatim>\<open>rbtree_delete_fixup\<close>: the new heap and the new \<^verbatim>\<open>x\<close>.\<close>

definition delete_turn :: "rbtree \<Rightarrow> addr \<Rightarrow> rbtree \<times> addr" where
  "delete_turn T x =
    (if x = left T (parent T x) then
       let w = right T (parent T x);
           (T, w) = (if color T w = RED then
               let T = set_color w BLACK T;
                   T = set_color (parent T x) RED T;
                   T = rbtree_left_rotate T (parent T x)
               in (T, right T (parent T x))
             else (T, w))
       in if color T (left T w) = BLACK \<and> color T (right T w) = BLACK
          then (set_color w RED T, parent T x)
          else
            let (T, w) = (if color T (right T w) = BLACK then
                  let T = set_color (left T w) BLACK T;
                      T = set_color w RED T;
                      T = rbtree_right_rotate T w
                  in (T, right T (parent T x))
                else (T, w));
                T = set_color w (color T (parent T x)) T;
                T = set_color (parent T x) BLACK T;
                T = set_color (right T w) BLACK T;
                T = rbtree_left_rotate T (parent T x)
            in (T, root T)
     else
       let w = left T (parent T x);
           (T, w) = (if color T w = RED then
               let T = set_color w BLACK T;
                   T = set_color (parent T x) RED T;
                   T = rbtree_right_rotate T (parent T x)
               in (T, left T (parent T x))
             else (T, w))
       in if color T (right T w) = BLACK \<and> color T (left T w) = BLACK
          then (set_color w RED T, parent T x)
          else
            let (T, w) = (if color T (left T w) = BLACK then
                  let T = set_color (right T w) BLACK T;
                      T = set_color w RED T;
                      T = rbtree_left_rotate T w
                  in (T, left T (parent T x))
                else (T, w));
                T = set_color w (color T (parent T x)) T;
                T = set_color (parent T x) BLACK T;
                T = set_color (left T w) BLACK T;
                T = rbtree_right_rotate T (parent T x)
            in (T, root T))"

partial_function (option) rbtree_delete_fixup :: "rbtree \<Rightarrow> addr \<Rightarrow> rbtree option" where
  "rbtree_delete_fixup T x =
    (if x \<noteq> root T \<and> color T x = BLACK
     then (case delete_turn T x of (T, x) \<Rightarrow> rbtree_delete_fixup T x)
     else Some (set_color x BLACK T))"

text \<open>
  The unlinking half of \<^verbatim>\<open>rbtree_delete\<close>: the new heap, the node to repair and the original
  colour of the node that left its place.
\<close>

definition delete_unlink :: "rbtree \<Rightarrow> addr \<Rightarrow> (rbtree \<times> addr \<times> color) option" where
  "delete_unlink T z =
    (if left T z = nil T then Some (rbtree_transplant T z (right T z), right T z, color T z)
     else if right T z = nil T then Some (rbtree_transplant T z (left T z), left T z, color T z)
     else do {
       y \<leftarrow> rbtree_minimum T (right T z);
       let y_original_color = color T y;
       let x = right T y;
       let T = (if parent T y = z then set_parent x y T
                else let T = rbtree_transplant T y (right T y);
                         T = set_right y (right T z) T
                     in set_parent (right T y) y T);
       let T = rbtree_transplant T z y;
       let T = set_left y (left T z) T;
       let T = set_parent (left T y) y T;
       let T = set_color y (color T z) T;
       Some (T, x, y_original_color) })"

definition rbtree_delete :: "rbtree \<Rightarrow> addr \<Rightarrow> rbtree option" where
  "rbtree_delete T z = do {
     (T, x, y_original_color) \<leftarrow> delete_unlink T z;
     T \<leftarrow> (if y_original_color = BLACK then rbtree_delete_fixup T x else Some T);
     Some (T\<lparr>live := live T - {z}\<rparr>) }"

section \<open>Traversal and verification\<close>

text \<open>What \<^verbatim>\<open>rbtree_inorder\<close> prints: keys with their colours.\<close>

partial_function (option) rbtree_inorder :: "rbtree \<Rightarrow> addr \<Rightarrow> (int \<times> color) list option" where
  "rbtree_inorder T node =
    (if node \<noteq> nil T then do {
       xs \<leftarrow> rbtree_inorder T (left T node);
       ys \<leftarrow> rbtree_inorder T (right T node);
       Some (xs @ (key T node, color T node) # ys) }
     else Some [])"

text \<open>
  \<^verbatim>\<open>verify_rbtree_properties\<close> returns its verdict and the reference black height it wrote through
  \<^verbatim>\<open>path_black\<close>; the second call is skipped when the first returns 0, as \<^verbatim>\<open>&&\<close> does.
\<close>

partial_function (option) verify_rbtree_properties ::
    "rbtree \<Rightarrow> addr \<Rightarrow> int \<Rightarrow> int \<Rightarrow> (bool \<times> int) option" where
  "verify_rbtree_properties T node black_count path_black =
    (if node = nil T then
       (let path_black = (if path_black = -1 then black_count else path_black)
        in Some (black_count = path_black, path_black))
     else if color T node = RED \<and> (color T (left T node) = RED \<or> color T (right T node) = RED)
     then Some (False, path_black)
     else do {
       let new_count = black_count + (if color T node = BLACK then 1 else 0);
       (ok, path_black) \<leftarrow> verify_rbtree_properties T (left T node) new_count path_black;
       if ok then verify_rbtree_properties T (right T node) new_count path_black
       else Some (False, path_black) })"

section \<open>The test program\<close>

text \<open>
  What \<^verbatim>\<open>test_rbtree\<close> prints. \<open>mem\<close> gives the results of the successive calls of \<^verbatim>\<open>malloc\<close>, the
  first for the sentinel; \<open>Inl ()\<close> stands for a loop that does not end.
\<close>

datatype rb_line = Alloc_failed | Root_color color | Inorder "(int \<times> color) list" | Verdict bool | Deleted int

definition returned :: "'a option \<Rightarrow> unit + 'a" where
  "returned r = (case r of None \<Rightarrow> Inl () | Some a \<Rightarrow> Inr a)"

text \<open>The insertion loop; \<open>None\<close> is the \<^verbatim>\<open>exit\<close> after a failed allocation.\<close>

fun test_insert :: "(nat \<Rightarrow> addr) \<Rightarrow> nat \<Rightarrow> int list \<Rightarrow> rbtree \<Rightarrow> unit + rbtree option" where
  "test_insert mem i [] T = Inr (Some T)"
| "test_insert mem i (k # ks) T = (case rbtree_create_node (mem i) k 0 (nil T) T of (T, node) \<Rightarrow>
     if node = NULL then Inr None
     else bindR (returned (rbtree_insert T node)) (\<lambda>T. test_insert mem (Suc i) ks T))"

definition test_show :: "rbtree \<Rightarrow> unit + rb_line list" where
  "test_show T = bindR (returned (rbtree_inorder T (root T))) (\<lambda>xs.
     bindR (returned (verify_rbtree_properties T (root T) 0 (-1))) (\<lambda>(valid, _).
       Inr [Inorder xs, Verdict valid]))"

fun test_delete :: "int list \<Rightarrow> rbtree \<Rightarrow> unit + rb_line list" where
  "test_delete [] T = Inr []"
| "test_delete (k # ks) T = bindR (returned (rbtree_search T k)) (\<lambda>node.
     if node = NULL then test_delete ks T
     else bindR (returned (rbtree_delete T node)) (\<lambda>T.
       bindR (test_show T) (\<lambda>out. bindR (test_delete ks T) (\<lambda>rest. Inr (Deleted k # out @ rest)))))"

definition test_rbtree :: "(nat \<Rightarrow> addr) \<Rightarrow> rbtree \<Rightarrow> unit + rb_line list" where
  "test_rbtree mem T =
    bindR (test_insert mem 1 [10, 5, 15, 3, 8, 12, 18, 2, 4, 7, 9] (rbtree_init (mem 0) T)) (\<lambda>r. case r of
      None \<Rightarrow> Inr [Alloc_failed]
    | Some T \<Rightarrow> bindR (test_show T) (\<lambda>out. bindR (test_delete [5, 15, 10] T) (\<lambda>rest.
        Inr (Root_color (color T (root T)) # out @ rest))))"

end
