(* ===== verification/RbTree_Heap.thy ===== *)
theory RbTree_Heap
  imports RbTree
begin

text \<open>
  Trees in the heap. \<open>rep T t\<close> says that the nodes reachable from the root of \<open>T\<close> are the tree \<open>t\<close>
  (colours, addresses and keys), with correct parent pointers and no sharing. A place in a tree is
  a context of frames, innermost first; the lemmas give the effect of every assignment the code
  makes (recolouring, rotating, linking, transplanting) on the tree around such a place.
\<close>

datatype rbt = Leaf | Node color rbt addr int rbt

fun inord :: "rbt \<Rightarrow> (addr \<times> int) list" where
  "inord Leaf = []"
| "inord (Node c l a k r) = inord l @ (a, k) # inord r"

fun nodes :: "rbt \<Rightarrow> addr set" where
  "nodes Leaf = {}"
| "nodes (Node c l a k r) = insert a (nodes l \<union> nodes r)"

fun dtree :: "rbt \<Rightarrow> bool" where
  "dtree Leaf \<longleftrightarrow> True"
| "dtree (Node c l a k r) \<longleftrightarrow> a \<notin> nodes l \<and> a \<notin> nodes r \<and> nodes l \<inter> nodes r = {} \<and> dtree l \<and> dtree r"

definition keys :: "rbt \<Rightarrow> int list" where
  "keys t = map snd (inord t)"

lemma nodes_inord: "nodes t = fst ` set (inord t)"
  by (induction t) (simp_all add: image_Un)

lemma dtree_inord: "dtree t \<longleftrightarrow> distinct (map fst (inord t))"
  by (induction t) (auto simp: nodes_inord)

fun ptr :: "rbtree \<Rightarrow> rbt \<Rightarrow> addr" where
  "ptr T Leaf = nil T"
| "ptr T (Node c l a k r) = a"

fun tree_at :: "rbtree \<Rightarrow> addr \<Rightarrow> rbt \<Rightarrow> bool" where
  "tree_at T par Leaf \<longleftrightarrow> True"
| "tree_at T par (Node c l a k r) \<longleftrightarrow> a \<noteq> nil T \<and> parent T a = par \<and> color T a = c \<and> key T a = k \<and>
     left T a = ptr T l \<and> right T a = ptr T r \<and> tree_at T a l \<and> tree_at T a r"

definition rep :: "rbtree \<Rightarrow> rbt \<Rightarrow> bool" where
  "rep T t \<longleftrightarrow> root T = ptr T t \<and> tree_at T (nil T) t \<and> dtree t \<and> color T (nil T) = BLACK"

section \<open>Contexts\<close>

datatype frame =
    InL (fcol: color) (fadr: addr) (fkey: int) (sib: rbt)
  | InR (fcol: color) (fadr: addr) (fkey: int) (sib: rbt)

fun plug :: "frame list \<Rightarrow> rbt \<Rightarrow> rbt" where
  "plug [] s = s"
| "plug (InL c a k r # cs) s = plug cs (Node c s a k r)"
| "plug (InR c a k l # cs) s = plug cs (Node c l a k s)"

fun before :: "frame list \<Rightarrow> (addr \<times> int) list" where
  "before [] = []"
| "before (InL c a k r # cs) = before cs"
| "before (InR c a k l # cs) = before cs @ inord l @ [(a, k)]"

fun after :: "frame list \<Rightarrow> (addr \<times> int) list" where
  "after [] = []"
| "after (InL c a k r # cs) = (a, k) # inord r @ after cs"
| "after (InR c a k l # cs) = after cs"

fun cpar :: "rbtree \<Rightarrow> frame list \<Rightarrow> addr" where
  "cpar T [] = nil T"
| "cpar T (f # cs) = fadr f"

fun ctx_at :: "rbtree \<Rightarrow> addr \<Rightarrow> frame list \<Rightarrow> bool" where
  "ctx_at T q [] \<longleftrightarrow> root T = q"
| "ctx_at T q (InL c a k r # cs) \<longleftrightarrow> a \<noteq> nil T \<and> parent T a = cpar T cs \<and> color T a = c \<and> key T a = k \<and>
     left T a = q \<and> right T a = ptr T r \<and> tree_at T a r \<and> ctx_at T a cs"
| "ctx_at T q (InR c a k l # cs) \<longleftrightarrow> a \<noteq> nil T \<and> parent T a = cpar T cs \<and> color T a = c \<and> key T a = k \<and>
     left T a = ptr T l \<and> right T a = q \<and> tree_at T a l \<and> ctx_at T a cs"

fun cnodes :: "frame list \<Rightarrow> addr set" where
  "cnodes [] = {}"
| "cnodes (InL c a k r # cs) = insert a (nodes r \<union> cnodes cs)"
| "cnodes (InR c a k r # cs) = insert a (nodes r \<union> cnodes cs)"

fun dctx :: "frame list \<Rightarrow> bool" where
  "dctx [] \<longleftrightarrow> True"
| "dctx (InL c a k r # cs) \<longleftrightarrow> dtree r \<and> a \<notin> nodes r \<and> a \<notin> cnodes cs \<and> nodes r \<inter> cnodes cs = {} \<and> dctx cs"
| "dctx (InR c a k r # cs) \<longleftrightarrow> dtree r \<and> a \<notin> nodes r \<and> a \<notin> cnodes cs \<and> nodes r \<inter> cnodes cs = {} \<and> dctx cs"

lemma inord_plug: "inord (plug cs s) = before cs @ inord s @ after cs"
  by (induction cs s rule: plug.induct) simp_all

lemma nodes_plug: "nodes (plug cs s) = nodes s \<union> cnodes cs"
  by (induction cs s rule: plug.induct) auto

lemma dtree_plug: "dtree (plug cs s) \<longleftrightarrow> dtree s \<and> dctx cs \<and> nodes s \<inter> cnodes cs = {}"
  by (induction cs s rule: plug.induct) auto

lemma plug_tree_at:
  "root T = ptr T (plug cs s) \<and> tree_at T (nil T) (plug cs s) \<longleftrightarrow>
    ctx_at T (ptr T s) cs \<and> tree_at T (cpar T cs) s"
  by (induction cs s rule: plug.induct) auto

lemma rep_plug:
  "rep T (plug cs s) \<longleftrightarrow> ctx_at T (ptr T s) cs \<and> tree_at T (cpar T cs) s \<and>
    dtree s \<and> dctx cs \<and> nodes s \<inter> cnodes cs = {} \<and> color T (nil T) = BLACK"
  unfolding rep_def dtree_plug using plug_tree_at [of T cs s] by blast

lemma plug_append: "plug (cs @ ds) s = plug ds (plug cs s)"
  by (induction cs s rule: plug.induct) auto

section \<open>Frame rules\<close>

definition same :: "rbtree \<Rightarrow> rbtree \<Rightarrow> addr \<Rightarrow> bool" where
  "same T T' a \<longleftrightarrow> color T' a = color T a \<and> key T' a = key T a \<and>
     left T' a = left T a \<and> right T' a = right T a \<and> parent T' a = parent T a"

definition agree :: "addr set \<Rightarrow> rbtree \<Rightarrow> rbtree \<Rightarrow> bool" where
  "agree S T T' \<longleftrightarrow> nil T' = nil T \<and> (\<forall>a \<in> S. same T T' a)"

lemma agreeI: "nil T' = nil T \<Longrightarrow> (\<And>a. a \<in> S \<Longrightarrow> same T T' a) \<Longrightarrow> agree S T T'"
  by (simp add: agree_def)

lemma agree_insert: "agree (insert a S) T T' \<longleftrightarrow> same T T' a \<and> agree S T T'"
  by (auto simp: agree_def)

lemma agree_Un: "agree (S \<union> S') T T' \<longleftrightarrow> agree S T T' \<and> agree S' T T'"
  by (auto simp: agree_def)

lemma ptr_nil: "nil T' = nil T \<Longrightarrow> ptr T' t = ptr T t"
  by (cases t) auto

lemma cpar_nil: "nil T' = nil T \<Longrightarrow> cpar T' cs = cpar T cs"
  by (cases cs) auto

lemma tree_at_agree:
  assumes "agree (nodes t) T T'"
  shows "tree_at T' par t = tree_at T par t"
proof -
  have n: "nil T' = nil T" using assms by (simp add: agree_def)
  note p = ptr_nil [OF n]
  show ?thesis using assms by (induction t arbitrary: par) (simp_all add: agree_insert agree_Un p n same_def)
qed

lemma ctx_at_agree:
  assumes "agree (cnodes cs) T T'" "root T' = root T"
  shows "ctx_at T' q cs = ctx_at T q cs"
proof -
  have n: "nil T' = nil T" using assms by (simp add: agree_def)
  note p = ptr_nil [OF n] cpar_nil [OF n]
  show ?thesis using assms(1)
  proof (induction cs arbitrary: q)
    case (Cons f cs)
    then show ?case
      by (cases f) (simp_all add: agree_insert agree_Un p n same_def tree_at_agree [of _ T T'])
  qed (simp add: assms(2))
qed

lemma ptr_nodes: "ptr T t = nil T \<or> ptr T t \<in> nodes t"
  by (cases t) auto

lemma tree_at_nil: "tree_at T par t \<Longrightarrow> nil T \<notin> nodes t"
  by (induction t arbitrary: par) auto

lemma ctx_at_nil: "ctx_at T q cs \<Longrightarrow> nil T \<notin> cnodes cs"
proof (induction cs arbitrary: q)
  case (Cons f cs)
  then show ?case by (cases f) (auto dest: tree_at_nil)
qed simp

lemma cpar_cnodes: "cs \<noteq> [] \<Longrightarrow> cpar T cs \<in> cnodes cs"
  by (cases cs; cases "hd cs") auto

section \<open>Reading\<close>

lemma rep_reads:
  assumes "rep T (plug cs (Node c l a k r))"
  shows "color T a = c" "key T a = k" "left T a = ptr T l" "right T a = ptr T r" "parent T a = cpar T cs"
    "a \<noteq> nil T" "color T (nil T) = BLACK"
  using assms by (simp_all add: rep_plug)

lemma rep_root: "rep T t \<Longrightarrow> root T = ptr T t"
  by (simp add: rep_def)

lemma rep_nil: "rep T t \<Longrightarrow> nil T \<notin> nodes t"
  using tree_at_nil by (auto simp: rep_def)

fun tcol :: "rbt \<Rightarrow> color" where
  "tcol Leaf = BLACK"
| "tcol (Node c l a k r) = c"

lemma color_ptr: "tree_at T par t \<Longrightarrow> color T (nil T) = BLACK \<Longrightarrow> color T (ptr T t) = tcol t"
  by (cases t) auto

lemma rep_colors:
  assumes "rep T (plug cs (Node c l a k r))"
  shows "color T (ptr T l) = tcol l" "color T (ptr T r) = tcol r"
  using assms by (auto simp: rep_plug color_ptr)

lemma rep_col: "rep T (plug cs s) \<Longrightarrow> color T (ptr T s) = tcol s"
  by (auto simp: rep_plug color_ptr)

lemma ptr_siblings:
  assumes "rep T (plug cs (Node c l a k r))" "l \<noteq> Leaf \<or> r \<noteq> Leaf"
  shows "ptr T l \<noteq> ptr T r"
proof -
  have d: "nodes l \<inter> nodes r = {}" "nil T \<notin> nodes l" "nil T \<notin> nodes r"
    using assms(1) tree_at_nil by (auto simp: rep_plug)
  have "l \<noteq> Leaf \<Longrightarrow> ptr T l \<in> nodes l" "r \<noteq> Leaf \<Longrightarrow> ptr T r \<in> nodes r" by (cases l; simp)+ (cases r; simp)
  then show ?thesis using assms(2) d ptr_nodes [of T l] ptr_nodes [of T r] by auto
qed

section \<open>Recolouring\<close>

lemma set_color_simps [simp]:
  "root (set_color a c T) = root T" "nil (set_color a c T) = nil T" "left (set_color a c T) = left T"
  "right (set_color a c T) = right T" "parent (set_color a c T) = parent T" "key (set_color a c T) = key T"
  "color (set_color a c T) = (color T)(a := c)" "val (set_color a c T) = val T" "live (set_color a c T) = live T"
  by (simp_all add: set_color_def)

lemma ptr_set_color [simp]: "ptr (set_color a c T) t = ptr T t" "cpar (set_color a c T) cs = cpar T cs"
  by (cases t; simp) (cases cs; simp)

lemma rep_set_color:
  assumes "rep T (plug cs (Node c l a k r))"
  shows "rep (set_color a c' T) (plug cs (Node c' l a k r))"
proof -
  let ?T = "set_color a c' T"
  have d: "a \<notin> nodes l" "a \<notin> nodes r" "a \<notin> cnodes cs" using assms by (simp_all add: rep_plug)
  have "agree (nodes l) T ?T" "agree (nodes r) T ?T" "agree (cnodes cs) T ?T"
    using d by (auto intro!: agreeI simp: same_def)
  with assms show ?thesis by (simp add: rep_plug tree_at_agree [of _ T ?T] ctx_at_agree [of _ T ?T])
qed

section \<open>Rotations\<close>

lemma link_simps [simp]:
  "root (set_left a p T) = root T" "nil (set_left a p T) = nil T" "left (set_left a p T) = (left T)(a := p)"
  "right (set_left a p T) = right T" "parent (set_left a p T) = parent T" "key (set_left a p T) = key T"
  "color (set_left a p T) = color T" "val (set_left a p T) = val T" "live (set_left a p T) = live T"
  "root (set_right a p T) = root T" "nil (set_right a p T) = nil T" "left (set_right a p T) = left T"
  "right (set_right a p T) = (right T)(a := p)" "parent (set_right a p T) = parent T" "key (set_right a p T) = key T"
  "color (set_right a p T) = color T" "val (set_right a p T) = val T" "live (set_right a p T) = live T"
  "root (set_parent a p T) = root T" "nil (set_parent a p T) = nil T" "left (set_parent a p T) = left T"
  "right (set_parent a p T) = right T" "parent (set_parent a p T) = (parent T)(a := p)" "key (set_parent a p T) = key T"
  "color (set_parent a p T) = color T" "val (set_parent a p T) = val T" "live (set_parent a p T) = live T"
  by (simp_all add: set_left_def set_right_def set_parent_def)

text \<open>Redirecting the pointer that leads to the focus, and the root when the context is empty.\<close>

definition relink_up :: "rbtree \<Rightarrow> addr \<Rightarrow> addr \<Rightarrow> rbtree" where
  "relink_up T x y = (if parent T x = nil T then T\<lparr>root := y\<rparr>
     else if x = left T (parent T x) then set_left (parent T x) y T
     else set_right (parent T x) y T)"

lemma relink_up_simps [simp]:
  "nil (relink_up T x y) = nil T" "parent (relink_up T x y) = parent T" "key (relink_up T x y) = key T"
  "color (relink_up T x y) = color T" "val (relink_up T x y) = val T" "live (relink_up T x y) = live T"
  by (simp_all add: relink_up_def)

lemma relink_up_same: "a \<noteq> parent T x \<Longrightarrow> same T (relink_up T x y) a"
  by (simp add: relink_up_def same_def)

lemma ctx_at_cong:
  assumes "ctx_at T q cs" "\<And>a. a \<in> cnodes cs \<Longrightarrow> same T T' a" "nil T' = nil T" "root T' = root T"
  shows "ctx_at T' q cs"
  using assms ctx_at_agree [of cs T T'] by (simp add: agree_def)

lemma tree_at_cong:
  assumes "tree_at T par t" "\<And>a. a \<in> nodes t \<Longrightarrow> same T T' a" "nil T' = nil T"
  shows "tree_at T' par t"
  using assms tree_at_agree [of t T T'] by (simp add: agree_def)

lemma ctx_relink_up:
  assumes c: "ctx_at T x cs" and d: "dctx cs" "x \<notin> cnodes cs" "x \<noteq> nil T" and p: "parent T x = cpar T cs"
  shows "ctx_at (relink_up T x y) y cs"
proof (cases cs)
  case Nil
  then show ?thesis using p by (simp add: relink_up_def)
next
  case (Cons f cs')
  let ?T = "relink_up T x y" and ?q = "fadr f"
  have n: "parent T x = ?q" "?q \<noteq> nil T" using c p Cons by (cases f; simp)+
  have r: "root ?T = root T" using n by (simp add: relink_up_def)
  have s: "same T ?T a" if "a \<noteq> ?q" for a using that n by (simp add: relink_up_same)
  have tl: "ctx_at T ?q cs'" "tree_at T ?q (sib f)" "?q \<notin> cnodes cs'" "?q \<notin> nodes (sib f)"
    using c d Cons by (cases f; simp)+
  have 1: "ctx_at ?T ?q cs'" by (rule ctx_at_cong [OF tl(1) s]) (use tl(3) r in auto)
  have 2: "tree_at ?T ?q (sib f)" by (rule tree_at_cong [OF tl(2) s]) (use tl(4) in auto)
  have pt: "ptr ?T t = ptr T t" "cpar ?T cs = cpar T cs" for t cs
    by (rule ptr_nil, simp) (rule cpar_nil, simp)
  show ?thesis
  proof (cases f)
    case (InL c' a' k' r')
    then show ?thesis using c Cons n 1 2 pt by (simp add: relink_up_def)
  next
    case (InR c' a' k' l')
    then have "x \<noteq> left T a'" using c d Cons ptr_nodes [of T l'] by auto
    then show ?thesis using InR c Cons n 1 2 pt by (simp add: relink_up_def)
  qed
qed

lemma left_rotate_eq:
  "rbtree_left_rotate T x =
    (let y = right T x; b = left T y;
         T1 = set_right x b T;
         T2 = (if b \<noteq> nil T then set_parent b x T1 else T1);
         T3 = set_parent y (parent T2 x) T2
     in set_parent x y (set_left y x (relink_up T3 x y)))"
  by (simp add: rbtree_left_rotate_def relink_up_def Let_def)

lemma relink_up_off: "u \<noteq> parent T x \<Longrightarrow> left (relink_up T x y) u = left T u"
  "u \<noteq> parent T x \<Longrightarrow> right (relink_up T x y) u = right T u"
  by (simp_all add: relink_up_def)

lemma left_rotate_fields:
  assumes "right T x = y" "left T y = b" "x \<noteq> y" "b \<noteq> x" "parent T x \<noteq> x" "parent T x \<noteq> y" "b \<noteq> y"
  shows "nil (rbtree_left_rotate T x) = nil T" "color (rbtree_left_rotate T x) = color T"
    "key (rbtree_left_rotate T x) = key T" "val (rbtree_left_rotate T x) = val T"
    "live (rbtree_left_rotate T x) = live T"
    "left (rbtree_left_rotate T x) y = x" "left (rbtree_left_rotate T x) x = left T x"
    "right (rbtree_left_rotate T x) x = b" "right (rbtree_left_rotate T x) y = right T y"
    "parent (rbtree_left_rotate T x) =
      (if b \<noteq> nil T then (parent T)(b := x, y := parent T x, x := y) else (parent T)(y := parent T x, x := y))"
    "\<And>u. u \<notin> {x, y, parent T x} \<Longrightarrow> left (rbtree_left_rotate T x) u = left T u \<and>
       right (rbtree_left_rotate T x) u = right T u"
proof -
  let ?T2 = "if b \<noteq> nil T then set_parent b x (set_right x b T) else set_right x b T"
  let ?T3 = "set_parent y (parent ?T2 x) ?T2"
  have eq: "rbtree_left_rotate T x = set_parent x y (set_left y x (relink_up ?T3 x y))"
    unfolding left_rotate_eq Let_def assms by simp
  have p: "parent ?T3 x = parent T x" using assms(3,4) by simp
  show "nil (rbtree_left_rotate T x) = nil T" "color (rbtree_left_rotate T x) = color T"
    "key (rbtree_left_rotate T x) = key T" "val (rbtree_left_rotate T x) = val T"
    "live (rbtree_left_rotate T x) = live T" "left (rbtree_left_rotate T x) y = x"
    by (simp_all add: eq)
  show "left (rbtree_left_rotate T x) x = left T x" "right (rbtree_left_rotate T x) x = b"
    "right (rbtree_left_rotate T x) y = right T y"
    "parent (rbtree_left_rotate T x) =
      (if b \<noteq> nil T then (parent T)(b := x, y := parent T x, x := y) else (parent T)(y := parent T x, x := y))"
    using assms(3-7) p by (simp_all add: eq relink_up_off)
  show "left (rbtree_left_rotate T x) u = left T u \<and> right (rbtree_left_rotate T x) u = right T u"
    if "u \<notin> {x, y, parent T x}" for u
    using that assms(3,4) by (simp add: eq relink_up_off)
qed

lemma left_rotate_same:
  assumes "right T x = y" "left T y = b" "x \<noteq> y" "b \<noteq> x" "parent T x \<noteq> x" "parent T x \<noteq> y" "b \<noteq> y"
    "u \<notin> {x, y, b, parent T x}"
  shows "same T (rbtree_left_rotate T x) u"
  using left_rotate_fields [OF assms(1-7)] assms(8) by (simp add: same_def)

lemma tree_at_parent:
  assumes "tree_at T par t" "dtree t" "nil T' = nil T"
    and "\<And>a. a \<in> nodes t \<Longrightarrow> a \<noteq> ptr T t \<Longrightarrow> same T T' a"
    and "t \<noteq> Leaf \<Longrightarrow> parent T' (ptr T t) = par' \<and> left T' (ptr T t) = left T (ptr T t) \<and>
      right T' (ptr T t) = right T (ptr T t) \<and> color T' (ptr T t) = color T (ptr T t) \<and> key T' (ptr T t) = key T (ptr T t)"
  shows "tree_at T' par' t"
proof (cases t)
  case (Node c l a k r)
  have "tree_at T' a l" by (rule tree_at_cong [of T]) (use assms Node in auto)
  moreover have "tree_at T' a r" by (rule tree_at_cong [of T]) (use assms Node in auto)
  ultimately show ?thesis using assms Node ptr_nil [OF assms(3)] by simp
qed simp

lemma rep_left_rotate:
  assumes R: "rep T (plug cs (Node c a x kx (Node d b y ky e)))"
  shows "rep (rbtree_left_rotate T x) (plug cs (Node d (Node c a x kx b) y ky e))"
    and "color (rbtree_left_rotate T x) = color T" "key (rbtree_left_rotate T x) = key T"
    "val (rbtree_left_rotate T x) = val T" "live (rbtree_left_rotate T x) = live T"
    "nil (rbtree_left_rotate T x) = nil T" "parent (rbtree_left_rotate T x) (nil T) = parent T (nil T)"
proof -
  let ?T = "rbtree_left_rotate T x" and ?b = "ptr T b"
  have C: "ctx_at T x cs" and cpar: "parent T x = cpar T cs" and ry: "right T x = y" and lx: "left T x = ptr T a"
    and lb: "left T y = ?b" and re: "right T y = ptr T e" and nx: "x \<noteq> nil T" "y \<noteq> nil T" and cb: "color T (nil T) = BLACK"
    and ta: "tree_at T x a" and tb: "tree_at T y b" and te: "tree_at T y e"
    and col: "color T x = c" "color T y = d" "key T x = kx" "key T y = ky"
    using R by (simp_all add: rep_plug)
  have D: "dctx cs" "dtree a" "dtree b" "dtree e" "x \<notin> cnodes cs" "y \<notin> cnodes cs" "nodes a \<inter> cnodes cs = {}"
    "nodes b \<inter> cnodes cs = {}" "nodes e \<inter> cnodes cs = {}" "x \<noteq> y" "x \<notin> nodes a" "x \<notin> nodes b" "x \<notin> nodes e"
    "y \<notin> nodes a" "y \<notin> nodes b" "y \<notin> nodes e" "nodes a \<inter> nodes b = {}" "nodes a \<inter> nodes e = {}" "nodes b \<inter> nodes e = {}"
    using R by (auto simp: rep_plug)
  have nn: "nil T \<notin> nodes a" "nil T \<notin> nodes b" "nil T \<notin> nodes e" using ta tb te tree_at_nil by blast+
  have up: "cpar T cs = nil T \<and> cs = [] \<or> cpar T cs \<in> cnodes cs \<and> cpar T cs \<noteq> nil T"
    using C ctx_at_nil cpar_cnodes [of cs T] by (cases cs) auto
  have bb: "?b = nil T \<or> ?b \<in> nodes b" by (rule ptr_nodes)
  have px: "cpar T cs \<noteq> x" "cpar T cs \<noteq> y" "?b \<noteq> x" "?b \<noteq> y" 
    using up bb D nx by auto
  note F = left_rotate_fields [OF ry lb D(10) px(3) _ _ px(4), unfolded cpar, OF px(1,2)]
  note Fs = left_rotate_same [OF ry lb D(10) px(3) _ _ px(4), unfolded cpar, OF px(1,2)]
  show "color ?T = color T" "key ?T = key T" "val ?T = val T" "live ?T = live T" "nil ?T = nil T" by (rule F)+
  show "parent ?T (nil T) = parent T (nil T)" using nx by (auto simp: F(10))
  have s: "same T ?T u" if "u \<in> nodes a \<or> u \<in> nodes e \<or> u \<in> nodes b \<and> u \<noteq> ?b" for u
    using that up bb D nn by (intro Fs) auto
  have "tree_at ?T x a" by (rule tree_at_cong [OF ta]) (use s F(1) in auto)
  moreover have "tree_at ?T y e" by (rule tree_at_cong [OF te]) (use s F(1) in auto)
  moreover have "tree_at ?T x b"
  proof (rule tree_at_parent [OF tb D(3) F(1)])
    show "same T ?T u" if "u \<in> nodes b" "u \<noteq> ?b" for u using s that by blast
    assume "b \<noteq> Leaf"
    then have "?b \<in> nodes b" by (cases b) auto
    then have "?b \<noteq> nil T" "?b \<notin> {x, y, cpar T cs}" using nn D up by auto
    then show "parent ?T ?b = x \<and> left ?T ?b = left T ?b \<and> right ?T ?b = right T ?b \<and> color ?T ?b = color T ?b \<and> key ?T ?b = key T ?b"
      using F(11) [of ?b] by (simp add: F(2,3,10))
  qed
  moreover have "ctx_at ?T y cs"
  proof -
    let ?T2 = "if ?b \<noteq> nil T then set_parent ?b x (set_right x ?b T) else set_right x ?b T"
    let ?T3 = "set_parent y (parent ?T2 x) ?T2"
    have eq: "?T = set_parent x y (set_left y x (relink_up ?T3 x y))"
      unfolding left_rotate_eq Let_def ry lb by simp
    have "ctx_at ?T3 x cs"
      by (rule ctx_at_cong [OF C]) (use D bb ctx_at_nil [OF C] in \<open>auto simp: same_def\<close>)
    then have "ctx_at (relink_up ?T3 x y) y cs"
      using D nx cpar px by (intro ctx_relink_up) (auto intro: cpar_nil cpar_nil [symmetric])
    then show ?thesis
      unfolding eq by (rule ctx_at_cong) (use D in \<open>auto simp: same_def\<close>)
  qed
  moreover have "ptr ?T t = ptr T t" "cpar ?T cs = cpar T cs" for t cs by (rule ptr_nil [OF F(1)]) (rule cpar_nil [OF F(1)])
  ultimately show "rep ?T (plug cs (Node d (Node c a x kx b) y ky e))"
    unfolding rep_plug using F(1-3,6-10) D nx cb col lx re cpar px by auto
qed

section \<open>Mirror images\<close>

text \<open>The code treats left and right symmetrically; so do the proofs.\<close>

definition mirror :: "rbtree \<Rightarrow> rbtree" where
  "mirror T = T\<lparr>left := right T, right := left T\<rparr>"

fun mirror_t :: "rbt \<Rightarrow> rbt" where
  "mirror_t Leaf = Leaf"
| "mirror_t (Node c l a k r) = Node c (mirror_t r) a k (mirror_t l)"

fun mirror_f :: "frame \<Rightarrow> frame" where
  "mirror_f (InL c a k s) = InR c a k (mirror_t s)"
| "mirror_f (InR c a k s) = InL c a k (mirror_t s)"

lemma mirror_simps [simp]:
  "left (mirror T) = right T" "right (mirror T) = left T" "parent (mirror T) = parent T"
  "color (mirror T) = color T" "key (mirror T) = key T" "nil (mirror T) = nil T" "root (mirror T) = root T"
  "val (mirror T) = val T" "live (mirror T) = live T" "mirror (mirror T) = T"
  by (simp_all add: mirror_def)

lemma mirror_set [simp]:
  "mirror (set_color a c T) = set_color a c (mirror T)"
  "mirror (set_left a p T) = set_right a p (mirror T)" "mirror (set_right a p T) = set_left a p (mirror T)"
  "mirror (set_parent a p T) = set_parent a p (mirror T)" "mirror (T\<lparr>root := p\<rparr>) = (mirror T)\<lparr>root := p\<rparr>"
  by (simp_all add: mirror_def set_color_def set_left_def set_right_def set_parent_def)

lemma mirror_t_mirror_t [simp]: "mirror_t (mirror_t t) = t"
  by (induction t) simp_all

lemma mirror_f_mirror_f [simp]: "mirror_f (mirror_f f) = f"
  by (cases f) simp_all

lemma mirror_cs [simp]: "map (mirror_f \<circ> mirror_f) cs = cs"
  by (simp add: comp_def)

lemma mirror_t_plug: "mirror_t (plug cs s) = plug (map mirror_f cs) (mirror_t s)"
  by (induction cs s rule: plug.induct) simp_all

lemma ptr_mirror [simp]: "ptr T (mirror_t t) = ptr T t" "ptr (mirror T) t = ptr T t"
  by (cases t; simp)+

lemma nodes_mirror [simp]: "nodes (mirror_t t) = nodes t"
  by (induction t) auto

lemma inord_mirror [simp]: "inord (mirror_t t) = rev (inord t)"
  by (induction t) simp_all

lemma dtree_mirror [simp]: "dtree (mirror_t t) = dtree t"
  by (simp add: dtree_inord rev_map [symmetric])

lemma tree_at_mirror [simp]: "tree_at (mirror T) par (mirror_t t) = tree_at T par t"
  by (induction t arbitrary: par) auto

lemma rep_mirror: "rep (mirror T) (mirror_t t) = rep T t"
  by (simp add: rep_def)

lemma rep_mirror_plug: "rep (mirror T) (plug (map mirror_f cs) (mirror_t s)) = rep T (plug cs s)"
  using rep_mirror [of T "plug cs s"] by (simp add: mirror_t_plug)

lemma cpar_mirror [simp]: "cpar T (map mirror_f cs) = cpar T cs" "cpar (mirror T) cs = cpar T cs"
proof -
  have "fadr (mirror_f f) = fadr f" for f by (cases f) auto
  then show "cpar T (map mirror_f cs) = cpar T cs" by (cases cs) auto
  show "cpar (mirror T) cs = cpar T cs" by (cases cs) auto
qed

lemma right_rotate_mirror: "rbtree_right_rotate T y = mirror (rbtree_left_rotate (mirror T) y)"
  by (simp add: rbtree_right_rotate_def rbtree_left_rotate_def Let_def)

lemma left_rotate_mirror: "rbtree_left_rotate T y = mirror (rbtree_right_rotate (mirror T) y)"
  by (simp add: right_rotate_mirror)

lemma rep_right_rotate:
  assumes R: "rep T (plug cs (Node c (Node d a x kx b) y ky e))"
  shows "rep (rbtree_right_rotate T y) (plug cs (Node d a x kx (Node c b y ky e)))"
    and "color (rbtree_right_rotate T y) = color T" "key (rbtree_right_rotate T y) = key T"
    "val (rbtree_right_rotate T y) = val T" "live (rbtree_right_rotate T y) = live T"
    "nil (rbtree_right_rotate T y) = nil T" "parent (rbtree_right_rotate T y) (nil T) = parent T (nil T)"
proof -
  have R': "rep (mirror T) (plug (map mirror_f cs)
      (Node c (mirror_t e) y ky (Node d (mirror_t b) x kx (mirror_t a))))"
    using R rep_mirror_plug [of T cs "Node c (Node d a x kx b) y ky e"] by simp
  note L = rep_left_rotate [OF R']
  have "rep (rbtree_right_rotate T y) (plug cs (Node d a x kx (Node c b y ky e)))
      = rep (rbtree_left_rotate (mirror T) y) (plug (map mirror_f cs) (mirror_t (Node d a x kx (Node c b y ky e))))"
    unfolding right_rotate_mirror 
    using rep_mirror_plug [of "mirror (rbtree_left_rotate (mirror T) y)" cs "Node d a x kx (Node c b y ky e)"] by simp
  then show "rep (rbtree_right_rotate T y) (plug cs (Node d a x kx (Node c b y ky e)))" using L(1) by simp
  show "color (rbtree_right_rotate T y) = color T" "key (rbtree_right_rotate T y) = key T"
    "val (rbtree_right_rotate T y) = val T" "live (rbtree_right_rotate T y) = live T"
    "nil (rbtree_right_rotate T y) = nil T" "parent (rbtree_right_rotate T y) (nil T) = parent T (nil T)"
    using L(2-7) by (simp_all add: right_rotate_mirror)
qed

section \<open>Colours and black heights\<close>

fun bh :: "rbt \<Rightarrow> nat" where
  "bh Leaf = 0"
| "bh (Node c l a k r) = (if c = BLACK then Suc (bh l) else bh l)"

fun invh :: "rbt \<Rightarrow> bool" where
  "invh Leaf \<longleftrightarrow> True"
| "invh (Node c l a k r) \<longleftrightarrow> bh l = bh r \<and> invh l \<and> invh r"

fun invc :: "rbt \<Rightarrow> bool" where
  "invc Leaf \<longleftrightarrow> True"
| "invc (Node c l a k r) \<longleftrightarrow> (c = RED \<longrightarrow> tcol l = BLACK \<and> tcol r = BLACK) \<and> invc l \<and> invc r"

definition rb_ok :: "rbt \<Rightarrow> bool" where
  "rb_ok t \<longleftrightarrow> invh t \<and> invc t \<and> tcol t = BLACK"

definition sub_ok :: "rbt \<Rightarrow> nat \<Rightarrow> bool" where
  "sub_ok s n \<longleftrightarrow> invh s \<and> invc s \<and> bh s = n"

definition black_above :: "frame list \<Rightarrow> bool" where
  "black_above cs \<longleftrightarrow> cs \<noteq> [] \<and> fcol (hd cs) = BLACK"

fun ctx_inv :: "frame list \<Rightarrow> nat \<Rightarrow> bool" where
  "ctx_inv [] n \<longleftrightarrow> True"
| "ctx_inv (f # cs) n \<longleftrightarrow> sub_ok (sib f) n \<and> (fcol f = RED \<longrightarrow> tcol (sib f) = BLACK \<and> black_above cs) \<and>
     ctx_inv cs (if fcol f = BLACK then Suc n else n)"

lemma not_RED [simp]: "c \<noteq> RED \<longleftrightarrow> c = BLACK" "c \<noteq> BLACK \<longleftrightarrow> c = RED"
  by (cases c; simp)+

lemma rb_ok_plug:
  "rb_ok (plug cs s) \<longleftrightarrow> ctx_inv cs (bh s) \<and> sub_ok s (bh s) \<and> (tcol s = RED \<longrightarrow> black_above cs)"
proof (induction cs s rule: plug.induct)
  case (1 s)
  then show ?case by (auto simp: rb_ok_def sub_ok_def black_above_def)
next
  case (2 c a k r cs s)
  then show ?case by (cases c) (auto simp: sub_ok_def black_above_def)
next
  case (3 c a k l cs s)
  then show ?case by (cases c) (auto simp: sub_ok_def black_above_def)
qed

lemma rb_ok_plugI:
  "ctx_inv cs n \<Longrightarrow> sub_ok s n \<Longrightarrow> tcol s = BLACK \<or> black_above cs \<Longrightarrow> rb_ok (plug cs s)"
  by (auto simp: rb_ok_plug sub_ok_def)

lemma tcol_mirror [simp]: "tcol (mirror_t t) = tcol t"
  by (cases t) simp_all

lemma inv_mirror: "invh t \<Longrightarrow> bh (mirror_t t) = bh t \<and> invh (mirror_t t)" "invc (mirror_t t) = invc t"
  by (induction t) auto

lemma sub_ok_mirror [simp]: "sub_ok (mirror_t s) n = sub_ok s n"
proof -
  have "sub_ok (mirror_t s) n" if "sub_ok s n" for s using inv_mirror [of s] that by (auto simp: sub_ok_def)
  from this [of s] this [of "mirror_t s"] show ?thesis by auto
qed

lemma frame_mirror [simp]: "fcol (mirror_f f) = fcol f" "sib (mirror_f f) = mirror_t (sib f)" "fadr (mirror_f f) = fadr f"
  by (cases f; simp)+

lemma ctx_inv_mirror [simp]: "ctx_inv (map mirror_f cs) n = ctx_inv cs n"
proof -
  have "black_above (map mirror_f cs) = black_above cs" for cs by (cases cs) (auto simp: black_above_def)
  then show ?thesis by (induction cs arbitrary: n) simp_all
qed

lemma rb_ok_mirror [simp]: "rb_ok (mirror_t t) = rb_ok t"
  using sub_ok_mirror [of t "bh t"] sub_ok_mirror [of t "bh (mirror_t t)"] by (auto simp: rb_ok_def sub_ok_def)

end
