(* ===== verification/RbTree_Insert.thy ===== *)
theory RbTree_Insert
  imports RbTree_Heap
begin

text \<open>
  Insertion: the repair loop ends with a red-black tree and keeps the in-order sequence, the
  descent finds the place the key belongs to, and \<^verbatim>\<open>rbtree_insert\<close> inserts the node there.
\<close>

definition keeps :: "rbtree \<Rightarrow> rbtree \<Rightarrow> bool" where
  "keeps T T' \<longleftrightarrow> nil T' = nil T \<and> key T' = key T \<and> val T' = val T \<and> live T' = live T"

lemma keeps_refl [simp]: "keeps T T"
  by (simp add: keeps_def)

lemma keeps_trans: "keeps T T' \<Longrightarrow> keeps T' T'' \<Longrightarrow> keeps T T''"
  by (simp add: keeps_def)

lemma keeps_set_color [simp]: "keeps T (set_color a c T') = keeps T T'"
  by (simp add: keeps_def)

lemma keeps_mirror [simp]: "keeps (mirror T) T' = keeps T T'" "keeps T (mirror T') = keeps T T'"
  by (simp_all add: keeps_def)

section \<open>One turn of the repair loop\<close>

fun recol :: "color \<Rightarrow> frame \<Rightarrow> frame" where
  "recol c (InL d a k s) = InL c a k s"
| "recol c (InR d a k s) = InR c a k s"

lemma recol_simps [simp]: "fcol (recol c f) = c" "fadr (recol c f) = fadr f" "sib (recol c f) = sib f"
  "fkey (recol c f) = fkey f" "before (recol c f # cs) = before (f # cs)" "after (recol c f # cs) = after (f # cs)"
  by (cases f; simp)+

lemma rep_recol:
  assumes "rep T (plug (f # cs) s)"
  shows "rep (set_color (fadr f) c T) (plug (recol c f # cs) s)"
  using assms by (cases f) (auto intro: rep_set_color)

lemma rep_recol2:
  assumes "rep T (plug (e # f # cs) s)"
  shows "rep (set_color (fadr f) c T) (plug (e # recol c f # cs) s)"
  using rep_recol [of T f cs "plug [e] s"] assms by (cases e) simp_all

lemma rep_up:
  assumes "rep T (plug (f # cs) s)"
  shows "parent T (fadr f) = cpar T cs" "ptr T s \<noteq> nil T \<Longrightarrow> parent T (ptr T s) = fadr f" "color T (fadr f) = fcol f"
    "fadr f \<noteq> nil T"
proof -
  show "parent T (fadr f) = cpar T cs" "color T (fadr f) = fcol f" "fadr f \<noteq> nil T"
    using assms by (cases f; auto simp: rep_plug)+
  show "parent T (ptr T s) = fadr f" if "ptr T s \<noteq> nil T"
    using assms that by (cases s) (auto simp: rep_plug)
qed

lemma turn_recolor:
  assumes R: "rep T (plug (f # InL BLACK g kg (Node RED ul u ku ur) # cs) (Node RED l z kz r))"
  shows "\<exists>T'. fixup_turn T z = (T', g) \<and> keeps T T' \<and>
    rep T' (plug cs (Node RED (plug [recol BLACK f] (Node RED l z kz r)) g kg (Node BLACK ul u ku ur)))"
proof -
  let ?Z = "Node RED l z kz r" and ?p = "fadr f" and ?U = "Node RED ul u ku ur"
  let ?T1 = "set_color ?p BLACK T" let ?T2 = "set_color u BLACK ?T1" let ?T3 = "set_color g RED ?T2"
  let ?P = "plug [recol BLACK f] ?Z"
  have eq: "plug (recol BLACK f # InL BLACK g kg ?U # cs) ?Z = plug (InR BLACK g kg ?P # cs) ?U" by (cases f) simp_all
  have "rep ?T1 (plug (InR BLACK g kg ?P # cs) ?U)" using rep_recol [OF R, of BLACK] unfolding eq .
  then have "rep ?T2 (plug (InR BLACK g kg ?P # cs) (Node BLACK ul u ku ur))" by (rule rep_set_color)
  then have "rep ?T2 (plug cs (Node BLACK ?P g kg (Node BLACK ul u ku ur)))" by simp
  then have R3: "rep ?T3 (plug cs (Node RED ?P g kg (Node BLACK ul u ku ur)))" by (rule rep_set_color)
  have "parent T z = ?p" using rep_reads(5) [OF R] by simp
  moreover have "parent T ?p = g \<and> left T g = ?p \<and> right T g = u \<and> color T u = RED"
    using R by (cases f) (auto simp: rep_plug)
  ultimately have "fixup_turn T z = (?T3, g)" by (simp add: fixup_turn_def Let_def)
  then show ?thesis using R3 by simp
qed

lemma grand_reads:
  assumes "rep T (plug (f # InL d g kg u # cs) s)"
  shows "parent T (fadr f) = g" "left T g = fadr f" "right T g = ptr T u" "color T (ptr T u) = tcol u"
proof -
  have R: "rep T (plug cs (Node d (plug [f] s) g kg u))" using assms by (cases f) simp_all
  have "ptr T (plug [f] s) = fadr f" by (cases f) simp_all
  then show "parent T (fadr f) = g" "left T g = fadr f" "right T g = ptr T u" "color T (ptr T u) = tcol u"
    using rep_reads [OF R] rep_colors [OF R] rep_up(1) [OF assms] by simp_all
qed

lemma line_recolor:
  assumes R: "rep T (plug (InL c p kp s # InL d g kg u # cs) Z)"
  shows "rep (set_color g RED (set_color p BLACK T)) (plug cs (Node RED (Node BLACK Z p kp s) g kg u))"
proof -
  have "rep (set_color p BLACK T) (plug (InL BLACK p kp s # InL d g kg u # cs) Z)" using rep_recol [OF R, of BLACK] by simp
  from rep_recol2 [OF this, of RED] show ?thesis by simp
qed

lemma line_finish:
  assumes R: "rep T (plug (InL c p kp s # InL BLACK g kg u # cs) (Node RED l z kz r))"
  shows "let T2 = set_color (parent T (parent T z)) RED (set_color (parent T z) BLACK T);
             T' = rbtree_right_rotate T2 (parent T2 (parent T2 z)) in keeps T T' \<and>
    rep T' (plug cs (Node BLACK (Node RED l z kz r) p kp (Node RED s g kg u)))"
proof -
  have pz: "parent T z = p" "parent T p = g" using rep_reads(5) [OF R] rep_up(1) [OF R] by simp_all
  note rr = rep_right_rotate [OF line_recolor [OF R]]
  have "keeps T (rbtree_right_rotate (set_color g RED (set_color p BLACK T)) g)" using rr(3-6) by (simp add: keeps_def)
  then show ?thesis using rr(1) by (simp add: Let_def pz)
qed

lemma turn_line:
  assumes R: "rep T (plug (InL c p kp s # InL BLACK g kg u # cs) (Node RED l z kz r))" and u: "tcol u = BLACK"
  shows "\<exists>T'. fixup_turn T z = (T', z) \<and> keeps T T' \<and>
    rep T' (plug cs (Node BLACK (Node RED l z kz r) p kp (Node RED s g kg u)))"
proof -
  have pz: "parent T z = p" "parent T p = g" "left T g = p" "right T g = ptr T u" "right T p = ptr T s"
    "color T (ptr T u) = BLACK"
    using grand_reads [OF R] rep_reads(5) [OF R] rep_reads(4) [of T "InL BLACK g kg u # cs"] R u by simp_all
  have "z \<noteq> ptr T s" using R ptr_nodes [of T s] by (auto simp: rep_plug)
  then show ?thesis using line_finish [OF R] pz by (simp add: fixup_turn_def Let_def)
qed

lemma turn_triangle:
  assumes R: "rep T (plug (InR c p kp s # InL BLACK g kg u # cs) (Node RED l z kz r))" and u: "tcol u = BLACK"
    and c: "c = RED"
  shows "\<exists>T'. fixup_turn T z = (T', p) \<and> keeps T T' \<and>
    rep T' (plug cs (Node BLACK (Node RED s p kp l) z kz (Node RED r g kg u)))"
proof -
  have pz: "parent T z = p" "parent T p = g" "left T g = p" "right T g = ptr T u" "right T p = z"
    "color T (ptr T u) = BLACK"
    using grand_reads [OF R] rep_reads(5) [OF R] rep_reads(4) [of T "InL BLACK g kg u # cs"] R u by simp_all
  let ?T1 = "rbtree_left_rotate T p"
  have "rep T (plug (InL BLACK g kg u # cs) (Node c s p kp (Node RED l z kz r)))" using R by simp
  note lr = rep_left_rotate [OF this]
  have R1: "rep ?T1 (plug (InL RED z kz r # InL BLACK g kg u # cs) (Node RED s p kp l))" using lr(1) c by simp
  have "keeps T ?T1" using lr(3-6) by (simp add: keeps_def)
  with line_finish [OF R1] show ?thesis
    using keeps_trans [of T ?T1] pz by (simp add: fixup_turn_def Let_def)
qed

lemma fixup_turn_mirror:
  assumes "parent T z = right T (parent T (parent T z))" "parent T z \<noteq> left T (parent T (parent T z))"
  shows "fixup_turn T z = (case fixup_turn (mirror T) z of (T', z') \<Rightarrow> (mirror T', z'))"
  using assms by (simp add: fixup_turn_def Let_def right_rotate_mirror)

section \<open>The repair loop\<close>

text \<open>
  The invariant of the loop: everything is in order except that \<^verbatim>\<open>z\<close>, red, may have a red parent;
  \<open>w\<close> is the in-order sequence.
\<close>

definition ins_inv :: "rbtree \<Rightarrow> addr \<Rightarrow> frame list \<Rightarrow> nat \<Rightarrow> (addr \<times> int) list \<Rightarrow> bool" where
  "ins_inv T z cs n w \<longleftrightarrow> (\<exists>l k r. rep T (plug cs (Node RED l z k r)) \<and> ctx_inv cs n \<and>
     sub_ok (Node RED l z k r) n \<and> inord (plug cs (Node RED l z k r)) = w)"

lemma ins_inv_mirror: "ins_inv T z cs n w \<Longrightarrow> ins_inv (mirror T) z (map mirror_f cs) n (rev w)"
proof -
  assume "ins_inv T z cs n w"
  then obtain l k r where a: "rep T (plug cs (Node RED l z k r))" "ctx_inv cs n" "sub_ok (Node RED l z k r) n"
    "inord (plug cs (Node RED l z k r)) = w" by (auto simp: ins_inv_def)
  have m: "mirror_t (plug cs (Node RED l z k r)) = plug (map mirror_f cs) (Node RED (mirror_t r) z k (mirror_t l))"
    by (simp add: mirror_t_plug)
  have "rep (mirror T) (plug (map mirror_f cs) (Node RED (mirror_t r) z k (mirror_t l)))"
    using a(1) rep_mirror [of T "plug cs (Node RED l z k r)"] unfolding m by simp
  moreover have "sub_ok (Node RED (mirror_t r) z k (mirror_t l)) n"
    using a(3) sub_ok_mirror [of "Node RED l z k r" n] by simp
  moreover have "inord (plug (map mirror_f cs) (Node RED (mirror_t r) z k (mirror_t l))) = rev w"
    using inord_mirror [of "plug cs (Node RED l z k r)"] a(4) unfolding m by simp
  ultimately show ?thesis using a(2) by (auto simp: ins_inv_def)
qed

lemma turn_left:
  assumes I: "ins_inv T z (f # InL d g kg u # cs) n w" and f: "fcol f = RED"
  shows "\<exists>T' z' cs' n'. fixup_turn T z = (T', z') \<and> keeps T T' \<and> ins_inv T' z' cs' n' w \<and>
    length cs' \<le> Suc (length cs)"
proof -
  obtain l k r where R: "rep T (plug (f # InL d g kg u # cs) (Node RED l z k r))"
    and C: "ctx_inv (f # InL d g kg u # cs) n" and S: "sub_ok (Node RED l z k r) n"
    and w: "inord (plug (f # InL d g kg u # cs) (Node RED l z k r)) = w" using I by (auto simp: ins_inv_def)
  have d: "d = BLACK" using C f by (simp add: black_above_def)
  have inv: "tcol (sib f) = BLACK" "sub_ok (sib f) n" "sub_ok u n" "ctx_inv cs (Suc n)"
    using C f d by simp_all
  show ?thesis
  proof (cases "tcol u = RED")
    case True
    then obtain ul ua ku ur where u: "u = Node RED ul ua ku ur" by (cases u) auto
    from turn_recolor [OF R [unfolded d u]] obtain T' where T': "fixup_turn T z = (T', g)" "keeps T T'"
      "rep T' (plug cs (Node RED (plug [recol BLACK f] (Node RED l z k r)) g kg (Node BLACK ul ua ku ur)))" by blast
    have "sub_ok (Node RED (plug [recol BLACK f] (Node RED l z k r)) g kg (Node BLACK ul ua ku ur)) (Suc n)"
      using inv S f by (cases f) (auto simp: sub_ok_def u)
    moreover have "inord (plug cs (Node RED (plug [recol BLACK f] (Node RED l z k r)) g kg (Node BLACK ul ua ku ur))) = w"
      using w by (cases f) (simp_all add: inord_plug u)
    ultimately have "ins_inv T' g cs (Suc n) w" using T'(3) inv by (auto simp: ins_inv_def)
    with T' show ?thesis by fastforce
  next
    case False
    then have u: "tcol u = BLACK" by simp
    show ?thesis
    proof (cases f)
      case (InL c p kp s)
      let ?cs = "InL BLACK p kp (Node RED s g kg u) # cs"
      from turn_line [OF R [unfolded InL d] u] obtain T' where T': "fixup_turn T z = (T', z)" "keeps T T'"
        "rep T' (plug ?cs (Node RED l z k r))" by auto
      moreover have "ctx_inv ?cs n" using inv u InL by (simp add: sub_ok_def)
      moreover have "inord (plug ?cs (Node RED l z k r)) = w" using w InL by (simp add: inord_plug)
      ultimately have "ins_inv T' z ?cs n w" using S unfolding ins_inv_def by blast
      moreover have "length ?cs \<le> Suc (length cs)" by simp
      ultimately show ?thesis using T' by blast
    next
      case (InR c p kp s)
      let ?cs = "InL BLACK z k (Node RED r g kg u) # cs"
      have "c = RED" using f InR by simp
      from turn_triangle [OF R [unfolded InR d] u this] obtain T' where T': "fixup_turn T z = (T', p)" "keeps T T'"
        "rep T' (plug ?cs (Node RED s p kp l))" by auto
      moreover have "ctx_inv ?cs n" using inv u S by (simp add: sub_ok_def)
      moreover have "sub_ok (Node RED s p kp l) n" using inv S InR by (simp add: sub_ok_def)
      moreover have "inord (plug ?cs (Node RED s p kp l)) = w" using w InR by (simp add: inord_plug)
      ultimately have "ins_inv T' p ?cs n w" unfolding ins_inv_def by blast
      moreover have "length ?cs \<le> Suc (length cs)" by simp
      ultimately show ?thesis using T' by blast
    qed
  qed
qed

lemma turn_ok:
  assumes I: "ins_inv T z (f # h # cs) n w" and f: "fcol f = RED"
  shows "\<exists>T' z' cs' n'. fixup_turn T z = (T', z') \<and> keeps T T' \<and> ins_inv T' z' cs' n' w \<and>
    length cs' \<le> Suc (length cs)"
proof (cases h)
  case (InL d g kg u)
  then show ?thesis using turn_left I f by blast
next
  case (InR d g kg u)
  have "ins_inv (mirror T) z (mirror_f f # InL d g kg (mirror_t u) # map mirror_f cs) n (rev w)"
    using ins_inv_mirror [OF I] InR by simp
  from turn_left [OF this] f obtain T' z' cs' n' where t: "fixup_turn (mirror T) z = (T', z')" "keeps T T'"
    "ins_inv T' z' cs' n' (rev w)" "length cs' \<le> Suc (length cs)" by auto
  obtain l k r where R: "rep T (plug (f # h # cs) (Node RED l z k r))" using I by (auto simp: ins_inv_def)
  then have pz: "parent T z = fadr f" using rep_reads(5) [OF R] by simp
  have pg: "parent T (fadr f) = g" "right T g = fadr f" "left T g = ptr T u"
    using R InR by (cases f; auto simp: rep_plug)+
  have "fadr f \<noteq> ptr T u" using R InR ptr_nodes [of T u] by (cases f) (auto simp: rep_plug)
  then have "fixup_turn T z = (mirror T', z')" using fixup_turn_mirror [of T z] pz pg t(1) by simp
  moreover have "ins_inv (mirror T') z' (map mirror_f cs') n' w" using ins_inv_mirror [OF t(3)] by simp
  ultimately show ?thesis using t(2,4) by (metis keeps_mirror(2) length_map)
qed

lemma insert_fixup_ok:
  assumes "ins_inv T z cs n w"
  shows "\<exists>T' t'. rbtree_insert_fixup T z = Some T' \<and> keeps T T' \<and> rep T' t' \<and> rb_ok t' \<and> inord t' = w"
  using assms
proof (induction "length cs" arbitrary: T z cs n rule: less_induct)
  case less
  obtain l k r where R: "rep T (plug cs (Node RED l z k r))" and C: "ctx_inv cs n" and S: "sub_ok (Node RED l z k r) n"
    and w: "inord (plug cs (Node RED l z k r)) = w" using less.prems by (auto simp: ins_inv_def)
  have pz: "parent T z = cpar T cs" using rep_reads(5) [OF R] .
  show ?case
  proof (cases cs)
    case Nil
    have "color T (parent T z) = BLACK" using rep_reads(7) [OF R] pz Nil by simp
    moreover have "root T = z" using rep_root [OF R] Nil by simp
    moreover have "rep (set_color z BLACK T) (Node BLACK l z k r)" using rep_set_color [of T "[]"] R Nil by simp
    moreover have "rb_ok (Node BLACK l z k r)" using S by (auto simp: rb_ok_def sub_ok_def)
    ultimately show ?thesis using w Nil
      by (intro exI [of _ "set_color z BLACK T"] exI [of _ "Node BLACK l z k r"]) (simp add: rbtree_insert_fixup.simps)
  next
    case (Cons f cs1)
    have cf: "color T (parent T z) = fcol f" using rep_up(3) [of T f cs1] R Cons pz by simp
    show ?thesis
    proof (cases "fcol f")
      case BLACK
      let ?t = "plug cs (Node RED l z k r)"
      have ok: "rb_ok ?t" by (rule rb_ok_plugI [OF C S]) (simp add: black_above_def Cons BLACK)
      have "color T (root T) = BLACK"
        using rep_root [OF R] rep_col [of T "[]" ?t] R ok by (simp add: rb_ok_def)
      then have "set_color (root T) BLACK T = T" by (simp add: set_color_def fun_upd_idem)
      then show ?thesis using R ok w cf BLACK
        by (intro exI [of _ T] exI [of _ ?t]) (simp add: rbtree_insert_fixup.simps)
    next
      case RED
      then obtain h cs2 where h: "cs1 = h # cs2" using C Cons by (cases cs1) (auto simp: black_above_def)
      from turn_ok [of T z f h cs2 n w] less.prems RED Cons h obtain T1 z1 cs' n' where
        t: "fixup_turn T z = (T1, z1)" "keeps T T1" "ins_inv T1 z1 cs' n' w" "length cs' \<le> Suc (length cs2)" by blast
      have "length cs' < length cs" using t(4) Cons h by simp
      from less.hyps [OF this t(3)] obtain T' t' where "rbtree_insert_fixup T1 z1 = Some T'" "keeps T1 T'"
        "rep T' t'" "rb_ok t'" "inord t' = w" by blast
      then show ?thesis using t(1,2) cf RED keeps_trans [OF t(2)]
        by (intro exI [of _ T'] exI [of _ t']) (simp add: rbtree_insert_fixup.simps [of T])
    qed
  qed
qed

section \<open>Finding the place\<close>

text \<open>All keys before the place are at most \<open>k\<close>, all keys after it greater.\<close>

definition place :: "frame list \<Rightarrow> int \<Rightarrow> bool" where
  "place cs k \<longleftrightarrow> (\<forall>x \<in> snd ` set (before cs). x \<le> k) \<and> (\<forall>x \<in> snd ` set (after cs). k < x)"

fun turned :: "rbtree \<Rightarrow> int \<Rightarrow> frame list \<Rightarrow> bool" where
  "turned T k [] \<longleftrightarrow> True"
| "turned T k (InL c a x s # cs) \<longleftrightarrow> k < x"
| "turned T k (InR c a x s # cs) \<longleftrightarrow> x \<le> k"

lemma insert_descent_ok:
  assumes "tree_at T par s" "sorted (keys s)" "place cs (key T z)" "turned T (key T z) cs"
  shows "\<exists>ds. plug ds Leaf = plug cs s \<and> insert_descent T z (cpar T cs) (ptr T s) = Some (cpar T ds) \<and>
    place ds (key T z) \<and> turned T (key T z) ds"
  using assms
proof (induction s arbitrary: par cs)
  case Leaf
  then show ?case by (intro exI [of _ cs]) (simp add: insert_descent.simps)
next
  case (Node c l a k r)
  have srt: "sorted (keys l)" "sorted (keys r)" "\<forall>x \<in> set (keys l). x \<le> k" "\<forall>x \<in> set (keys r). k \<le> x"
    using Node.prems(2) by (auto simp: keys_def sorted_append)
  have at: "tree_at T a l" "tree_at T a r" "a \<noteq> nil T" "key T a = k" "left T a = ptr T l" "right T a = ptr T r"
    using Node.prems(1) by simp_all
  show ?case
  proof (cases "key T z < k")
    case True
    have "place (InL c a k r # cs) (key T z)"
      using Node.prems(3) True srt(4) by (fastforce simp: place_def keys_def)
    from Node.IH(1) [OF at(1) srt(1) this] True show ?thesis
      using at by (simp add: insert_descent.simps [of T z "cpar T cs"])
  next
    case False
    have "place (InR c a k l # cs) (key T z)"
      using Node.prems(3) False srt(3) by (fastforce simp: place_def keys_def)
    from Node.IH(2) [OF at(2) srt(2) this] False show ?thesis
      using at by (simp add: insert_descent.simps [of T z "cpar T cs"])
  qed
qed

section \<open>Linking the new node\<close>

definition link_node :: "rbtree \<Rightarrow> addr \<Rightarrow> addr \<Rightarrow> rbtree" where
  "link_node T z y =
    (let T = set_parent z y T;
         T = (if y = nil T then T\<lparr>root := z\<rparr>
              else if key T z < key T y then set_left y z T else set_right y z T);
         T = set_left z (nil T) T;
         T = set_right z (nil T) T
     in set_color z RED T)"

lemma rbtree_insert_eq:
  "rbtree_insert T z = do {y \<leftarrow> insert_descent T z (nil T) (root T); rbtree_insert_fixup (link_node T z y) z}"
  by (simp add: rbtree_insert_def link_node_def Let_def)

lemma rep_link:
  assumes R: "rep T (plug ds Leaf)" and z: "z \<noteq> nil T" "z \<notin> nodes (plug ds Leaf)" and t: "turned T (key T z) ds"
  shows "rep (link_node T z (cpar T ds)) (plug ds (Node RED Leaf z (key T z) Leaf))"
    and "keeps T (link_node T z (cpar T ds))"
proof -
  let ?y = "cpar T ds" let ?T = "link_node T z ?y"
  show "keeps T ?T" by (simp add: keeps_def link_node_def Let_def)
  have zc: "z \<notin> cnodes ds" using z by (simp add: nodes_plug)
  have n: "nil ?T = nil T" by (simp add: link_node_def Let_def)
  have "ctx_at ?T z ds"
  proof (cases ds)
    case Nil
    then show ?thesis by (simp add: link_node_def Let_def)
  next
    case (Cons f cs)
    have y: "?y = fadr f" "fadr f \<noteq> nil T" using R Cons rep_up(4) [of T f cs Leaf] by simp_all
    have D: "dctx ds" "ctx_at T (nil T) ds" using R by (simp_all add: rep_plug)
    have s: "same T ?T a" if "a \<noteq> fadr f" "a \<noteq> z" for a
      using that y by (simp add: same_def link_node_def Let_def)
    have r: "root ?T = root T" using y by (simp add: link_node_def Let_def)
    have tl: "ctx_at T (fadr f) cs" "tree_at T (fadr f) (sib f)" "fadr f \<notin> cnodes cs" "fadr f \<notin> nodes (sib f)"
      "z \<notin> cnodes cs" "z \<notin> nodes (sib f)" "z \<noteq> fadr f"
      using D zc Cons by (cases f; simp)+
    have 1: "ctx_at ?T (fadr f) cs" by (rule ctx_at_cong [OF tl(1) s]) (use tl n r in auto)
    have 2: "tree_at ?T (fadr f) (sib f)" by (rule tree_at_cong [OF tl(2) s]) (use tl n in auto)
    have pt: "ptr ?T u = ptr T u" "cpar ?T cs = cpar T cs" for u cs by (rule ptr_nil [OF n]) (rule cpar_nil [OF n])
    show ?thesis
    proof (cases f)
      case (InL c a k s)
      then show ?thesis using Cons D(2) t tl y 1 2 pt n by (simp add: link_node_def Let_def)
    next
      case (InR c a k s)
      then show ?thesis using Cons D(2) t tl y 1 2 pt n by (simp add: link_node_def Let_def)
    qed
  qed
  moreover have "z \<noteq> ?y" using zc z cpar_cnodes [of ds T] by (cases ds) auto
  moreover have "color ?T (nil T) = BLACK" using R z by (simp add: rep_plug link_node_def Let_def)
  ultimately show "rep ?T (plug ds (Node RED Leaf z (key T z) Leaf))"
    using R z zc n cpar_nil [OF n] by (simp add: rep_plug) (simp add: link_node_def Let_def)
qed

section \<open>Insertion\<close>

lemma rbtree_insert_ok:
  assumes R: "rep T t" and ok: "rb_ok t" and srt: "sorted (keys t)" and z: "z \<noteq> nil T" "z \<notin> nodes t"
  shows "\<exists>T' t' xs ys. rbtree_insert T z = Some T' \<and> keeps T T' \<and> rep T' t' \<and> rb_ok t' \<and>
    inord t = xs @ ys \<and> inord t' = xs @ (z, key T z) # ys \<and>
    (\<forall>k \<in> snd ` set xs. k \<le> key T z) \<and> (\<forall>k \<in> snd ` set ys. key T z < k)"
proof -
  have "tree_at T (nil T) t" using R by (simp add: rep_def)
  moreover have "place [] (key T z)" "turned T (key T z) []" by (simp_all add: place_def)
  ultimately obtain ds where ds: "plug ds Leaf = t"
    "insert_descent T z (nil T) (ptr T t) = Some (cpar T ds)" "place ds (key T z)" "turned T (key T z) ds"
    using insert_descent_ok [of T "nil T" t "[]" z] srt by (metis plug.simps(1) cpar.simps(1))
  let ?T = "link_node T z (cpar T ds)" and ?Z = "Node RED Leaf z (key T z) Leaf"
  have L: "rep ?T (plug ds ?Z)" "keeps T ?T"
    by (rule rep_link [of T ds z, unfolded ds(1), OF R z ds(4)])+
  have "ctx_inv ds 0" using ok rb_ok_plug [of ds Leaf] ds(1) by simp
  moreover have "sub_ok ?Z 0" by (simp add: sub_ok_def)
  ultimately have "ins_inv ?T z ds 0 (inord (plug ds ?Z))" using L(1) by (auto simp: ins_inv_def)
  from insert_fixup_ok [OF this] obtain T' t' where T': "rbtree_insert_fixup ?T z = Some T'" "keeps ?T T'"
    "rep T' t'" "rb_ok t'" "inord t' = inord (plug ds ?Z)" by blast
  have "inord t = before ds @ after ds" using ds(1) inord_plug [of ds Leaf] by simp
  moreover have "inord t' = before ds @ (z, key T z) # after ds" using T'(5) by (simp add: inord_plug)
  moreover have "rbtree_insert T z = Some T'" using ds(2) T'(1) rep_root [OF R] by (simp add: rbtree_insert_eq)
  ultimately show ?thesis
    using T'(3,4) keeps_trans [OF L(2) T'(2)] ds(3) unfolding place_def
    by (intro exI [of _ T'] exI [of _ t'] exI [of _ "before ds"] exI [of _ "after ds"]) simp
qed

end
