(* ===== verification/RbTree_Delete.thy ===== *)
theory RbTree_Delete
  imports RbTree_Insert
begin

text \<open>
  Deletion: the repair loop with its four cases ends with a red-black tree and keeps the in-order
  sequence, and \<^verbatim>\<open>rbtree_delete\<close> removes exactly the given node.
\<close>

section \<open>One turn of the repair loop\<close>

fun blacken :: "rbt \<Rightarrow> rbt" where
  "blacken Leaf = Leaf"
| "blacken (Node c l a k r) = Node BLACK l a k r"

definition weak :: "rbt \<Rightarrow> nat \<Rightarrow> bool" where
  "weak s n \<longleftrightarrow> invh s \<and> bh s = n \<and> invc (blacken s)"

text \<open>
  The invariant of the loop: the subtree at \<^verbatim>\<open>x\<close> is one black node short, \<^verbatim>\<open>x\<close> itself may be red
  below a red node, and the parent pointer of \<^verbatim>\<open>x\<close> is right even if \<^verbatim>\<open>x\<close> is the sentinel.
\<close>

definition del_inv :: "rbtree \<Rightarrow> addr \<Rightarrow> frame list \<Rightarrow> rbt \<Rightarrow> nat \<Rightarrow> (addr \<times> int) list \<Rightarrow> bool" where
  "del_inv T x cs s n w \<longleftrightarrow> rep T (plug cs s) \<and> x = ptr T s \<and> parent T x = cpar T cs \<and> ctx_inv cs (Suc n) \<and>
     weak s n \<and> inord (plug cs s) = w"

definition finished :: "rbtree \<Rightarrow> addr \<Rightarrow> (addr \<times> int) list \<Rightarrow> bool" where
  "finished T x w \<longleftrightarrow> x = root T \<and> (\<exists>t. rep T t \<and> rb_ok t \<and> inord t = w)"

definition del_size :: "frame list \<Rightarrow> rbt \<Rightarrow> nat" where
  "del_size cs s = (if tcol s = RED then 0 else Suc (length cs))"

text \<open>The turn after the red-sibling case, for an \<^verbatim>\<open>x\<close> that is a left child.\<close>

definition sib_step :: "rbtree \<Rightarrow> addr \<Rightarrow> addr \<Rightarrow> rbtree \<times> addr" where
  "sib_step T x w =
    (if color T (left T w) = BLACK \<and> color T (right T w) = BLACK
     then (set_color w RED T, parent T x)
     else
       let (T, w) = (if color T (right T w) = BLACK then
             let T = set_color (left T w) BLACK T;
                 T = set_color w RED T;
                 T = rbtree_right_rotate T w
             in (T, right T (parent T x))
           else (T, w));
           T = set_color w (color T (parent T x)) T;
           T = set_color (parent T x) BLACK T;
           T = set_color (right T w) BLACK T;
           T = rbtree_left_rotate T (parent T x)
       in (T, root T))"

lemma case4:
  assumes R: "rep T (plug (InL c p kp (Node BLACK a v kv (Node RED bl b kb br)) # cs) s)"
    and x: "x = ptr T s" "parent T x = p"
  shows "let T1 = set_color v (color T (parent T x)) T; T2 = set_color (parent T1 x) BLACK T1;
             T3 = set_color (right T2 v) BLACK T2; T' = rbtree_left_rotate T3 (parent T3 x) in
    keeps T T' \<and> rep T' (plug cs (Node c (Node BLACK s p kp a) v kv (Node BLACK bl b kb br)))"
proof -
  let ?B = "Node RED bl b kb br" and ?B' = "Node BLACK bl b kb br"
  let ?T1 = "set_color v c T" let ?T2 = "set_color p BLACK ?T1" let ?T3 = "set_color b BLACK ?T2"
  have R0: "rep T (plug cs (Node c s p kp (Node BLACK a v kv ?B)))" using R by simp
  have Rv: "rep T (plug (InR c p kp s # cs) (Node BLACK a v kv ?B))" using R by simp
  have rd: "color T p = c" "right T v = b" using rep_reads [OF R0] rep_reads [OF Rv] by simp_all
  have "rep ?T1 (plug (InR c p kp s # cs) (Node c a v kv ?B))" by (rule rep_set_color [OF Rv])
  then have "rep ?T1 (plug cs (Node c s p kp (Node c a v kv ?B)))" by simp
  then have "rep ?T2 (plug cs (Node BLACK s p kp (Node c a v kv ?B)))" by (rule rep_set_color)
  then have "rep ?T2 (plug (InR c v kv a # InR BLACK p kp s # cs) ?B)" by simp
  then have "rep ?T3 (plug (InR c v kv a # InR BLACK p kp s # cs) ?B')" by (rule rep_set_color)
  then have R3: "rep ?T3 (plug cs (Node BLACK s p kp (Node c a v kv ?B')))" by simp
  note lr = rep_left_rotate [OF R3]
  have "keeps T (rbtree_left_rotate ?T3 p)" using lr(3-6) by (simp add: keeps_def)
  then show ?thesis using lr(1) rd x by (simp add: Let_def)
qed

lemma case3:
  assumes R: "rep T (plug (InL c p kp (Node BLACK (Node RED aa a ka ab) v kv b) # cs) s)"
  shows "let T1 = set_color (left T v) BLACK T; T' = rbtree_right_rotate (set_color v RED T1) v in
    keeps T T' \<and> parent T' (nil T) = parent T (nil T) \<and>
    rep T' (plug (InL c p kp (Node BLACK aa a ka (Node RED ab v kv b)) # cs) s)"
proof -
  let ?A = "Node RED aa a ka ab"
  let ?T1 = "set_color a BLACK T" let ?T2 = "set_color v RED ?T1"
  have Rv: "rep T (plug (InR c p kp s # cs) (Node BLACK ?A v kv b))" using R by simp
  have rd: "left T v = a" using rep_reads [OF Rv] by simp
  have "rep T (plug (InL BLACK v kv b # InR c p kp s # cs) ?A)" using R by simp
  then have "rep ?T1 (plug (InL BLACK v kv b # InR c p kp s # cs) (Node BLACK aa a ka ab))" by (rule rep_set_color)
  then have "rep ?T1 (plug (InR c p kp s # cs) (Node BLACK (Node BLACK aa a ka ab) v kv b))" by simp
  then have "rep ?T2 (plug (InR c p kp s # cs) (Node RED (Node BLACK aa a ka ab) v kv b))" by (rule rep_set_color)
  note rr = rep_right_rotate [OF this]
  have "keeps T (rbtree_right_rotate ?T2 v)" using rr(3-6) by (simp add: keeps_def)
  then show ?thesis using rr(1,7) rd by (simp add: Let_def)
qed

lemma ptr_keeps: "keeps T T' \<Longrightarrow> ptr T' s = ptr T s" "keeps T T' \<Longrightarrow> cpar T' cs = cpar T cs"
  by (rule ptr_nil, simp add: keeps_def) (rule cpar_nil, simp add: keeps_def)

lemma parent_ptr:
  assumes "rep T (plug cs s)" "s \<noteq> Leaf"
  shows "parent T (ptr T s) = cpar T cs"
  using assms by (cases s) (auto simp: rep_plug)

lemma parent_focus:
  assumes "rep T' (plug cs s)" "s = Leaf \<longrightarrow> parent T' (nil T) = cpar T cs" "nil T' = nil T"
  shows "parent T' (ptr T s) = cpar T cs"
proof (cases "s = Leaf")
  case False
  then show ?thesis using parent_ptr [OF assms(1)] ptr_nil [OF assms(3)] cpar_nil [OF assms(3)] by simp
qed (use assms in simp)

lemma weak_black: "weak s n \<Longrightarrow> tcol s = BLACK \<Longrightarrow> sub_ok s n"
  by (cases s) (auto simp: weak_def sub_ok_def)

lemma finishedI:
  assumes "rep T (plug cs s)" "ctx_inv cs n" "sub_ok s n" "tcol s = BLACK \<or> black_above cs" "inord (plug cs s) = w"
  shows "finished T (root T) w"
  using assms rb_ok_plugI unfolding finished_def by blast

text \<open>What the four cases do to the invariant, on trees.\<close>

lemma case1_ctx:
  assumes "ctx_inv (InL c p kp (Node RED a v kv b) # cs) (Suc n)"
  shows "c = BLACK" "ctx_inv (InL RED p kp a # InL BLACK v kv b # cs) (Suc n)"
    "\<exists>aa av ka ab. a = Node BLACK aa av ka ab"
  using assms by (cases c; cases a; auto simp: sub_ok_def black_above_def)+

lemma case2_weak:
  assumes "ctx_inv (InL c p kp (Node BLACK a v kv b) # cs) (Suc n)" "sub_ok s n"
    "tcol a = BLACK" "tcol b = BLACK" "tcol s = BLACK"
  shows "weak (Node c s p kp (Node RED a v kv b)) (if c = BLACK then Suc n else n)"
    "ctx_inv cs (Suc (if c = BLACK then Suc n else n))"
  using assms by (auto simp: weak_def sub_ok_def)

lemma case3_ctx:
  assumes "ctx_inv (InL c p kp (Node BLACK (Node RED aa av ka ab) v kv b) # cs) n" "tcol b = BLACK"
  shows "ctx_inv (InL c p kp (Node BLACK aa av ka (Node RED ab v kv b)) # cs) n"
  using assms by (auto simp: sub_ok_def)

lemma case4_rb_ok:
  assumes C: "ctx_inv (InL c p kp (Node BLACK a v kv (Node RED bl bb kb br)) # cs) (Suc n)" and S: "sub_ok s n"
  shows "rb_ok (plug cs (Node c (Node BLACK s p kp a) v kv (Node BLACK bl bb kb br)))" (is "rb_ok (plug cs ?t)")
proof (rule rb_ok_plugI)
  show "ctx_inv cs (if c = BLACK then Suc (Suc n) else Suc n)" using C by simp
  show "sub_ok ?t (if c = BLACK then Suc (Suc n) else Suc n)" using C S by (auto simp: sub_ok_def)
  show "tcol ?t = BLACK \<or> black_above cs" using C by (cases c) auto
qed

lemma sib_case4:
  assumes R: "rep T (plug (InL c p kp (Node BLACK a v kv b) # cs) s)" and x: "x = ptr T s" "parent T x = p"
    and C: "ctx_inv (InL c p kp (Node BLACK a v kv b) # cs) (Suc n)" and S: "sub_ok s n" and b: "tcol b = RED"
    and w: "inord (plug (InL c p kp (Node BLACK a v kv b) # cs) s) = w"
  shows "let T1 = set_color v (color T (parent T x)) T; T2 = set_color (parent T1 x) BLACK T1;
             T3 = set_color (right T2 v) BLACK T2; T' = rbtree_left_rotate T3 (parent T3 x) in
    keeps T T' \<and> finished T' (root T') w"
proof -
  obtain bl bb kb br where B: "b = Node RED bl bb kb br" using b by (cases b) auto
  have "inord (plug cs (Node c (Node BLACK s p kp a) v kv (Node BLACK bl bb kb br))) = w" using w by (simp add: inord_plug B)
  then show ?thesis
    using case4 [OF R [unfolded B] x] case4_rb_ok [OF C [unfolded B] S] by (auto simp: Let_def finished_def)
qed

lemma sib_case3:
  assumes R: "rep T (plug (InL c p kp (Node BLACK (Node RED aa av ka ab) v kv b) # cs) s)"
    and x: "x = ptr T s" "parent T x = p"
    and C: "ctx_inv (InL c p kp (Node BLACK (Node RED aa av ka ab) v kv b) # cs) (Suc n)" and S: "sub_ok s n"
    and b: "tcol b = BLACK" and w: "inord (plug (InL c p kp (Node BLACK (Node RED aa av ka ab) v kv b) # cs) s) = w"
  shows "\<exists>T'. sib_step T x v = (T', root T') \<and> keeps T T' \<and> finished T' (root T') w"
proof -
  let ?A = "Node RED aa av ka ab" and ?V' = "Node BLACK aa av ka (Node RED ab v kv b)"
  let ?T = "rbtree_right_rotate (set_color v RED (set_color (left T v) BLACK T)) v"
  have Rv: "rep T (plug (InR c p kp s # cs) (Node BLACK ?A v kv b))" using R by simp
  have c3: "keeps T ?T" "parent ?T (nil T) = parent T (nil T)" "rep ?T (plug (InL c p kp ?V' # cs) s)"
    using case3 [OF R] by (simp_all add: Let_def)
  have nl: "nil ?T = nil T" using c3(1) by (simp add: keeps_def)
  have x': "x = ptr ?T s" using x(1) ptr_keeps(1) [OF c3(1)] by simp
  have px': "parent ?T x = p" using parent_focus [OF c3(3) _ nl] c3(2) x by (cases s) auto
  have w': "inord (plug (InL c p kp ?V' # cs) s) = w" using w by (simp add: inord_plug)
  have v': "right ?T p = av" using rep_reads(4) [of ?T cs c s p kp ?V'] c3(3) by simp
  note fin = sib_case4 [OF c3(3) x' px' case3_ctx [OF C b] S _ w', simplified tcol.simps]
  have "sib_step T x v = (let T1 = set_color av (color ?T (parent ?T x)) ?T; T2 = set_color (parent T1 x) BLACK T1;
         T3 = set_color (right T2 av) BLACK T2; T' = rbtree_left_rotate T3 (parent T3 x) in (T', root T'))"
    using rep_reads [OF Rv] rep_colors [OF Rv] b px' v' by (simp add: sib_step_def Let_def)
  then show ?thesis using fin keeps_trans [OF c3(1)] by (auto simp: Let_def)
qed

lemma sib_step_ok:
  assumes I: "del_inv T x (InL c p kp (Node BLACK a v kv b) # cs) s n w" and blk: "tcol s = BLACK"
  shows "\<exists>T' x'. sib_step T x v = (T', x') \<and> keeps T T' \<and>
    (finished T' x' w \<or> (\<exists>s' n'. del_inv T' x' cs s' n' w \<and> tcol s' = c))"
proof -
  let ?V = "Node BLACK a v kv b"
  have R: "rep T (plug (InL c p kp ?V # cs) s)" and x: "x = ptr T s" and px: "parent T x = p"
    and C: "ctx_inv (InL c p kp ?V # cs) (Suc n)" and S: "sub_ok s n"
    and w: "inord (plug (InL c p kp ?V # cs) s) = w" using I blk weak_black by (auto simp: del_inv_def)
  have Rv: "rep T (plug (InR c p kp s # cs) ?V)" using R by simp
  have Rp: "rep T (plug cs (Node c s p kp ?V))" using R by simp
  have rd: "left T v = ptr T a" "right T v = ptr T b" "color T (ptr T a) = tcol a" "color T (ptr T b) = tcol b"
    using rep_reads [OF Rv] rep_colors [OF Rv] by simp_all
  consider "tcol b = RED" | "tcol b = BLACK" "tcol a = RED" | "tcol b = BLACK" "tcol a = BLACK"
    by (cases "tcol a"; cases "tcol b") auto
  then show ?thesis
  proof cases
    case 1
    then show ?thesis using sib_case4 [OF R x px C S 1 w] rd by (simp add: sib_step_def Let_def)
  next
    case 2
    then obtain aa av ka ab where A: "a = Node RED aa av ka ab" by (cases a) auto
    show ?thesis using sib_case3 [OF R [unfolded A] x px C [unfolded A] S 2(1) w [unfolded A]] by blast
  next
    case 3
    let ?s = "Node c s p kp (Node RED a v kv b)"
    have "rep (set_color v RED T) (plug cs ?s)" using rep_set_color [OF Rv, of RED] by simp
    moreover have "inord (plug cs ?s) = w" using w by (simp add: inord_plug)
    ultimately have "del_inv (set_color v RED T) p cs ?s (if c = BLACK then Suc n else n) w"
      using case2_weak [OF C S 3(2,1) blk] rep_reads(5) [OF Rp] by (simp add: del_inv_def)
    moreover have "sib_step T x v = (set_color v RED T, p)" using rd 3 px by (simp add: sib_step_def)
    moreover have "tcol ?s = c" by simp
    ultimately show ?thesis using keeps_set_color [of T v RED T] by (metis keeps_refl)
  qed
qed

lemma delete_turn_red:
  assumes I: "del_inv T x (InL c p kp (Node RED a v kv b) # cs) s n w" and blk: "tcol s = BLACK"
  shows "\<exists>T' x'. delete_turn T x = (T', x') \<and> keeps T T' \<and>
    (finished T' x' w \<or> (\<exists>s' n'. del_inv T' x' (InL BLACK v kv b # cs) s' n' w \<and> tcol s' = RED))"
proof -
  have R: "rep T (plug (InL c p kp (Node RED a v kv b) # cs) s)" and x: "x = ptr T s" and px: "parent T x = p"
    and C: "ctx_inv (InL c p kp (Node RED a v kv b) # cs) (Suc n)" and S: "weak s n"
    and w: "inord (plug (InL c p kp (Node RED a v kv b) # cs) s) = w" using I by (auto simp: del_inv_def)
  have Rp: "rep T (plug cs (Node c s p kp (Node RED a v kv b)))" using R by simp
  have rd: "left T p = x" "right T p = v" "color T v = RED" using rep_reads [OF Rp] rep_colors [OF Rp] x by simp_all
  obtain aa av ka ab where A: "a = Node BLACK aa av ka ab" using case1_ctx(3) [OF C] by blast
  let ?T1 = "set_color v BLACK T" let ?T2 = "set_color p RED ?T1" let ?T = "rbtree_left_rotate ?T2 p"
  have "rep T (plug (InR c p kp s # cs) (Node RED a v kv b))" using R by simp
  then have "rep ?T1 (plug (InR c p kp s # cs) (Node BLACK a v kv b))" by (rule rep_set_color)
  then have "rep ?T1 (plug cs (Node c s p kp (Node BLACK a v kv b)))" by simp
  then have "rep ?T2 (plug cs (Node RED s p kp (Node BLACK a v kv b)))" by (rule rep_set_color)
  note lr = rep_left_rotate [OF this]
  let ?cs = "InL BLACK v kv b # cs"
  have kp: "keeps T ?T" using lr(3-6) by (simp add: keeps_def)
  have R': "rep ?T (plug (InL RED p kp a # ?cs) s)" using lr(1) by simp
  have px': "parent ?T x = p" using parent_focus [OF R' _ lr(6) [simplified]] lr(7) px x by (cases s) auto
  have "del_inv ?T x (InL RED p kp a # ?cs) s n w"
    using R' px' x ptr_keeps(1) [OF kp, of s] case1_ctx(2) [OF C] S w by (simp add: del_inv_def inord_plug)
  then obtain T' x' where st: "sib_step ?T x av = (T', x')" "keeps ?T T'"
    "finished T' x' w \<or> (\<exists>s' n'. del_inv T' x' ?cs s' n' w \<and> tcol s' = RED)"
    using sib_step_ok [of ?T x RED p kp aa av ka ab ?cs s n w] blk A by blast
  have "right ?T p = av" using rep_reads(4) [of ?T ?cs RED s p kp a] R' A by simp
  then have "delete_turn T x = sib_step ?T x av"
    using px px' rd by (simp add: delete_turn_def sib_step_def Let_def)
  then show ?thesis using st keeps_trans [OF kp st(2)] by metis
qed

lemma delete_turn_left:
  assumes I: "del_inv T x (InL c p kp W # cs) s n w" and blk: "tcol s = BLACK"
  shows "\<exists>T' x'. delete_turn T x = (T', x') \<and> keeps T T' \<and>
    (finished T' x' w \<or> (\<exists>cs' s' n'. del_inv T' x' cs' s' n' w \<and> del_size cs' s' < Suc (Suc (length cs))))"
proof -
  have R: "rep T (plug cs (Node c s p kp W))" and x: "x = ptr T s" and px: "parent T x = p"
    and "bh W = Suc n" using I by (auto simp: del_inv_def sub_ok_def)
  then obtain d a v kv b where W: "W = Node d a v kv b" by (cases W) auto
  show ?thesis
  proof (cases d)
    case BLACK
    have "delete_turn T x = sib_step T x v"
      using px BLACK rep_reads [OF R] rep_colors [OF R] x by (simp add: delete_turn_def sib_step_def Let_def W)
    moreover have "del_size cs s' < Suc (Suc (length cs))" for s' by (simp add: del_size_def)
    ultimately show ?thesis using sib_step_ok [of T x c p kp a v kv b cs s n w] I blk by (metis W BLACK)
  next
    case RED
    have "del_size (InL BLACK v kv b # cs) s' < Suc (Suc (length cs))" if "tcol s' = RED" for s'
      using that by (simp add: del_size_def)
    then show ?thesis using delete_turn_red [of T x c p kp a v kv b cs s n w] I blk by (metis W RED)
  qed
qed

section \<open>The repair loop\<close>

lemma blacken_mirror [simp]: "blacken (mirror_t t) = mirror_t (blacken t)"
  by (cases t) simp_all

lemma weak_mirror: "weak s n \<Longrightarrow> weak (mirror_t s) n"
  using inv_mirror [of s] by (auto simp: weak_def inv_mirror(2))

lemma del_inv_mirror: "del_inv T x cs s n w \<Longrightarrow> del_inv (mirror T) x (map mirror_f cs) (mirror_t s) n (rev w)"
  using rep_mirror_plug [of T cs s] inord_mirror [of "plug cs s"]
  by (auto simp: del_inv_def weak_mirror mirror_t_plug)

lemma finished_mirror: "finished T x w \<Longrightarrow> finished (mirror T) x (rev w)"
  unfolding finished_def by (metis inord_mirror mirror_simps(7) rb_ok_mirror rep_mirror)

lemma delete_turn_mirror:
  assumes "x = right T (parent T x)" "x \<noteq> left T (parent T x)"
  shows "delete_turn T x = (case delete_turn (mirror T) x of (T', x') \<Rightarrow> (mirror T', x'))"
  using assms by (simp add: delete_turn_def Let_def right_rotate_mirror split: if_split)

lemma delete_turn_ok:
  assumes I: "del_inv T x (f # cs) s n w" and blk: "tcol s = BLACK"
  shows "\<exists>T' x'. delete_turn T x = (T', x') \<and> keeps T T' \<and>
    (finished T' x' w \<or> (\<exists>cs' s' n'. del_inv T' x' cs' s' n' w \<and> del_size cs' s' < Suc (Suc (length cs))))"
proof (cases f)
  case (InL c p kp W)
  then show ?thesis using delete_turn_left I blk by blast
next
  case (InR c p kp W)
  have "del_inv (mirror T) x (InL c p kp (mirror_t W) # map mirror_f cs) (mirror_t s) n (rev w)"
    using del_inv_mirror [OF I] InR by simp
  from delete_turn_left [OF this, unfolded tcol_mirror keeps_mirror length_map, OF blk] obtain T' x' where t: "delete_turn (mirror T) x = (T', x')" "keeps T T'"
    "finished T' x' (rev w) \<or> (\<exists>cs' s' n'. del_inv T' x' cs' s' n' (rev w) \<and> del_size cs' s' < Suc (Suc (length cs)))"
    by blast
  have R: "rep T (plug cs (Node c W p kp s))" and x: "x = ptr T s" and px: "parent T x = p"
    and bW: "bh W = Suc n" using I InR by (auto simp: del_inv_def sub_ok_def)
  have l: "left T p = ptr T W" "right T p = x" using rep_reads [OF R] x by simp_all
  have "x \<noteq> ptr T W"
  proof -
    have "ptr T W \<in> nodes W" using bW by (cases W) auto
    moreover have "nil T \<notin> nodes W" "nodes W \<inter> nodes s = {}"
      using R tree_at_nil by (auto simp: rep_plug)
    ultimately show ?thesis using x ptr_nodes [of T s] by auto
  qed
  then have "delete_turn T x = (mirror T', x')" using delete_turn_mirror [of x T] px l t(1) by simp
  moreover have "finished (mirror T') x' w" if "finished T' x' (rev w)" using finished_mirror [OF that] by simp
  moreover have "del_inv (mirror T') x' (map mirror_f cs') (mirror_t s') n' w \<and>
      del_size (map mirror_f cs') (mirror_t s') = del_size cs' s'"
    if "del_inv T' x' cs' s' n' (rev w)" for cs' s' n'
    using del_inv_mirror [OF that] by (simp add: del_size_def)
  ultimately show ?thesis using t(2,3) by (metis keeps_mirror(2))
qed

lemma plug_root:
  assumes "cs \<noteq> []"
  shows "ptr T (plug cs s) \<in> cnodes cs"
  using assms
proof (induction cs arbitrary: s)
  case (Cons f cs)
  then show ?case by (cases "cs = []"; cases f) auto
qed simp

lemma blacken_root:
  assumes "rep T t" "rb_ok t"
  shows "set_color (root T) BLACK T = T"
proof -
  have "color T (root T) = BLACK" using rep_root [OF assms(1)] rep_col [of T "[]" t] assms by (simp add: rb_ok_def)
  then show ?thesis by (simp add: set_color_def fun_upd_idem)
qed

lemma rep_blacken:
  assumes "rep T (plug cs s)"
  shows "rep (set_color (ptr T s) BLACK T) (plug cs (blacken s))"
proof (cases s)
  case Leaf
  then have "set_color (ptr T s) BLACK T = T" using assms by (simp add: rep_plug set_color_def fun_upd_idem)
  then show ?thesis using assms Leaf by simp
qed (use assms in \<open>simp add: rep_set_color\<close>)

lemma inord_blacken [simp]: "inord (blacken s) = inord s"
  by (cases s) simp_all

lemma root_focus:
  assumes R: "rep T (plug cs s)"
  shows "ptr T s = root T \<longleftrightarrow> cs = []"
proof
  assume xr: "ptr T s = root T"
  show "cs = []"
  proof (rule ccontr)
    assume "cs \<noteq> []"
    then have "ptr T s \<in> cnodes cs" using xr rep_root [OF R] plug_root [of cs T s] by simp
    then show False using R ptr_nodes [of T s] ctx_at_nil by (auto simp: rep_plug)
  qed
qed (use rep_root [OF R] in simp)

lemma blacken_rb_ok:
  assumes C: "ctx_inv cs (Suc n)" and S: "weak s n" and x: "tcol s = RED \<or> cs = []"
  shows "rb_ok (plug cs (blacken s))"
proof (cases "cs = []")
  case True
  then show ?thesis using S by (cases s) (auto simp: rb_ok_def weak_def)
next
  case False
  then have "sub_ok (blacken s) (Suc n)" using S x by (cases s) (auto simp: weak_def sub_ok_def)
  moreover have "tcol (blacken s) = BLACK" by (cases s) auto
  ultimately show ?thesis using rb_ok_plugI [OF C] by blast
qed

lemma delete_fixup_ok:
  assumes "del_inv T x cs s n w"
  shows "\<exists>T' t'. rbtree_delete_fixup T x = Some T' \<and> keeps T T' \<and> rep T' t' \<and> rb_ok t' \<and> inord t' = w"
  using assms
proof (induction "del_size cs s" arbitrary: T x cs s n rule: less_induct)
  case less
  have R: "rep T (plug cs s)" and x: "x = ptr T s" and C: "ctx_inv cs (Suc n)" and S: "weak s n"
    and w: "inord (plug cs s) = w" using less.prems by (auto simp: del_inv_def)
  have cx: "color T x = tcol s" "x = root T \<longleftrightarrow> cs = []" using rep_col [OF R] root_focus [OF R] x by simp_all
  show ?case
  proof (cases "tcol s = BLACK \<and> cs \<noteq> []")
    case True
    then obtain f cs1 where f: "cs = f # cs1" by (cases cs) auto
    obtain T1 x1 where t: "delete_turn T x = (T1, x1)" "keeps T T1"
      "finished T1 x1 w \<or> (\<exists>cs' s' n'. del_inv T1 x1 cs' s' n' w \<and> del_size cs' s' < Suc (Suc (length cs1)))"
      using delete_turn_ok [of T x f cs1 s n w] less.prems f True by blast
    have step: "rbtree_delete_fixup T x = rbtree_delete_fixup T1 x1"
      using True cx t(1) by (subst rbtree_delete_fixup.simps) simp
    from t(3) show ?thesis
    proof
      assume "finished T1 x1 w"
      then obtain t' where t': "x1 = root T1" "rep T1 t'" "rb_ok t'" "inord t' = w" by (auto simp: finished_def)
      then have "rbtree_delete_fixup T1 x1 = Some T1"
        using blacken_root [OF t'(2,3)] by (subst rbtree_delete_fixup.simps) simp
      then show ?thesis using step t(2) t' by auto
    next
      assume "\<exists>cs' s' n'. del_inv T1 x1 cs' s' n' w \<and> del_size cs' s' < Suc (Suc (length cs1))"
      then obtain cs' s' n' where d: "del_inv T1 x1 cs' s' n' w" "del_size cs' s' < del_size cs s"
        using True f by (auto simp: del_size_def)
      from less.hyps [OF d(2,1)] show ?thesis using step keeps_trans [OF t(2)] by auto
    qed
  next
    case False
    then have "rbtree_delete_fixup T x = Some (set_color x BLACK T)"
      using cx by (subst rbtree_delete_fixup.simps) auto
    moreover have "rb_ok (plug cs (blacken s))" using blacken_rb_ok [OF C S] False by auto
    ultimately show ?thesis
      using rep_blacken [OF R] x w by (metis inord_blacken inord_plug keeps_refl keeps_set_color)
  qed
qed

section \<open>Unlinking\<close>

lemma minimum_ok:
  assumes "tree_at T par r" "r \<noteq> Leaf"
  shows "\<exists>ds cy y ky ry. r = plug ds (Node cy Leaf y ky ry) \<and> before ds = [] \<and> rbtree_minimum T (ptr T r) = Some y"
  using assms
proof (induction r arbitrary: par)
  case (Node c l a k r)
  show ?case
  proof (cases "l = Leaf")
    case True
    then show ?thesis using Node.prems
      by (intro exI [of _ "[]"] exI [of _ c] exI [of _ a] exI [of _ k] exI [of _ r]) (simp add: rbtree_minimum.simps)
  next
    case False
    have "tree_at T a l" using Node.prems by simp
    from Node.IH(1) [OF this False] obtain ds cy y ky ry where d: "l = plug ds (Node cy Leaf y ky ry)"
      "before ds = []" "rbtree_minimum T (ptr T l) = Some y" by blast
    have "ptr T l \<noteq> nil T" using False Node.prems by (cases l) auto
    then have "rbtree_minimum T a = Some y" using d(3) Node.prems by (subst rbtree_minimum.simps) simp
    moreover have "before (ds @ [InL c a k r]) = []" using d(2) by (induction ds rule: before.induct) auto
    ultimately show ?thesis using d(1)
      by (intro exI [of _ "ds @ [InL c a k r]"] exI [of _ cy] exI [of _ y] exI [of _ ky] exI [of _ ry])
        (simp add: plug_append)
  qed
qed simp

lemma transplant_eq: "rbtree_transplant T u v = set_parent v (parent T u) (relink_up T u v)"
  by (simp add: rbtree_transplant_def relink_up_def Let_def)

lemma transplant_simps [simp]:
  "nil (rbtree_transplant T u v) = nil T" "key (rbtree_transplant T u v) = key T"
  "color (rbtree_transplant T u v) = color T" "val (rbtree_transplant T u v) = val T"
  "live (rbtree_transplant T u v) = live T" "parent (rbtree_transplant T u v) = (parent T)(v := parent T u)"
  by (simp_all add: transplant_eq)

lemma transplant_off:
  "a \<noteq> parent T u \<Longrightarrow> left (rbtree_transplant T u v) a = left T a"
  "a \<noteq> parent T u \<Longrightarrow> right (rbtree_transplant T u v) a = right T a"
  "a \<noteq> parent T u \<Longrightarrow> a \<noteq> v \<Longrightarrow> same T (rbtree_transplant T u v) a"
  by (simp_all add: transplant_eq relink_up_off same_def)

lemma transplant_ctx:
  assumes "ctx_at T z cs" "dctx cs" "z \<notin> cnodes cs" "z \<noteq> nil T" "parent T z = cpar T cs" "v \<notin> cnodes cs"
  shows "ctx_at (rbtree_transplant T z v) v cs"
  unfolding transplant_eq
  by (rule ctx_at_cong [OF ctx_relink_up [OF assms(1-5)]]) (use assms(6) in \<open>auto simp: same_def\<close>)

lemma cpar_not_node:
  assumes "nil T \<notin> N" "N \<inter> cnodes cs = {}"
  shows "a \<in> N \<Longrightarrow> a \<noteq> cpar T cs"
  using assms cpar_cnodes [of cs T] by (cases cs) auto

lemma transplant_child:
  assumes R: "rep T (plug cs (Node c l z k r))" and s: "l = Leaf \<and> s = r \<or> r = Leaf \<and> s = l"
  shows "rep (rbtree_transplant T z (ptr T s)) (plug cs s)"
    and "parent (rbtree_transplant T z (ptr T s)) (ptr T s) = cpar T cs"
proof -
  let ?T = "rbtree_transplant T z (ptr T s)"
  have C: "ctx_at T z cs" "dctx cs" "z \<notin> cnodes cs" "z \<noteq> nil T" "parent T z = cpar T cs"
    and ts: "tree_at T z s" "dtree s" "nodes s \<inter> cnodes cs = {}" "z \<notin> nodes s" "color T (nil T) = BLACK"
    using R s by (auto simp: rep_plug)
  have nn: "nil T \<notin> nodes s" "nil T \<notin> cnodes cs" using tree_at_nil [OF ts(1)] ctx_at_nil [OF C(1)] by simp_all
  note cn = cpar_not_node [OF nn(1) ts(3)]
  have v: "ptr T s \<notin> cnodes cs" using ptr_nodes [of T s] ts(3) nn by auto
  have "ctx_at ?T (ptr T s) cs" by (rule transplant_ctx [OF C v])
  moreover have "tree_at ?T (cpar T cs) s"
  proof (rule tree_at_parent [OF ts(1,2)])
    show "same T ?T a" if "a \<in> nodes s" "a \<noteq> ptr T s" for a
      using that C(5) cn [OF that(1)] by (simp add: transplant_off(3))
    assume "s \<noteq> Leaf"
    then have "ptr T s \<in> nodes s" by (cases s) auto
    then show "parent ?T (ptr T s) = cpar T cs \<and> left ?T (ptr T s) = left T (ptr T s) \<and>
        right ?T (ptr T s) = right T (ptr T s) \<and> color ?T (ptr T s) = color T (ptr T s) \<and> key ?T (ptr T s) = key T (ptr T s)"
      using cn [of "ptr T s"] C(5) by (simp add: transplant_off)
  qed simp
  moreover have pt: "ptr ?T u = ptr T u" "cpar ?T cs = cpar T cs" for u cs by (rule ptr_nil, simp) (rule cpar_nil, simp)
  ultimately show "rep ?T (plug cs s)" using ts C(2) by (simp add: rep_plug)
  show "parent ?T (ptr T s) = cpar T cs" using C(5) by simp
qed

text \<open>Putting \<^verbatim>\<open>y\<close>, with its right subtree in place, where \<^verbatim>\<open>z\<close> is.\<close>

lemma replace_node:
  assumes C: "ctx_at T z cs" "dctx cs" "z \<notin> cnodes cs" "z \<noteq> nil T" "parent T z = cpar T cs"
    and l: "left T z = ptr T l" "tree_at T z l" "dtree l" "l \<noteq> Leaf" "nodes l \<inter> cnodes cs = {}" "z \<notin> nodes l"
    and r: "right T y = ptr T r" "tree_at T y r" "dtree r" "nodes r \<inter> cnodes cs = {}" "z \<notin> nodes r" "nodes l \<inter> nodes r = {}"
    and y: "y \<noteq> nil T" "y \<notin> cnodes cs" "y \<notin> nodes l" "y \<notin> nodes r" "y \<noteq> z"
    and c: "color T z = c" "key T y = k" "color T (nil T) = BLACK"
  defines "T1 \<equiv> rbtree_transplant T z y"
  defines "T2 \<equiv> set_left y (left T1 z) T1"
  defines "T' \<equiv> set_color y (color T2 z) (set_parent (left T2 y) y T2)"
  shows "rep T' (plug cs (Node c l y k r))" and "parent T' (nil T) = parent T (nil T)" and "keeps T T'"
proof -
  have pl: "ptr T l \<in> nodes l" using l(4) by (cases l) auto
  have nn: "nil T \<notin> nodes l" "nil T \<notin> nodes r" using tree_at_nil [OF l(2)] tree_at_nil [OF r(2)] by simp_all
  note cl = cpar_not_node [OF nn(1) l(5)] and cr = cpar_not_node [OF nn(2) r(4)]
  have cz: "z \<noteq> cpar T cs" "y \<noteq> cpar T cs" using C(3,4) y(1,2) cpar_cnodes [of cs T] by (cases cs; auto)+
  have lz: "left T1 z = ptr T l" using l(1) cz C(5) by (simp add: T1_def transplant_off)
  have T': "T' = set_color y c (set_parent (ptr T l) y (set_left y (ptr T l) T1))"
    using lz c by (simp add: T'_def T2_def T1_def)
  have n: "nil T' = nil T" by (simp add: T' T1_def)
  show "keeps T T'" by (simp add: keeps_def T' T1_def)
  have pn: "ptr T l \<noteq> nil T" "ptr T l \<noteq> y" using pl nn y(3) by auto
  show "parent T' (nil T) = parent T (nil T)" using pn y(1) by (simp add: T' T1_def)
  have "ctx_at T1 y cs" unfolding T1_def by (rule transplant_ctx [OF C y(2)])
  then have ctx: "ctx_at T' y cs"
    by (rule ctx_at_cong) (use y(2) pl l(5) in \<open>auto simp: T' same_def\<close>)
  have sm: "same T T' a" if "a \<noteq> cpar T cs" "a \<noteq> y" "a \<noteq> ptr T l" for a
    using that C(5) by (simp add: T' T1_def same_def transplant_off)
  have "tree_at T' y r" by (rule tree_at_cong [OF r(2)]) (use sm cr y(4) pl r(6) n in auto)
  moreover have "tree_at T' y l"
  proof (rule tree_at_parent [OF l(2,3) n])
    show "same T T' a" if "a \<in> nodes l" "a \<noteq> ptr T l" for a using sm that cl y(3) by auto
    show "parent T' (ptr T l) = y \<and> left T' (ptr T l) = left T (ptr T l) \<and> right T' (ptr T l) = right T (ptr T l) \<and>
        color T' (ptr T l) = color T (ptr T l) \<and> key T' (ptr T l) = key T (ptr T l)"
      using pn cl [OF pl] C(5) by (simp add: T' T1_def transplant_off)
  qed
  moreover have "color T' y = c" "key T' y = k" "parent T' y = cpar T cs" "left T' y = ptr T l" "right T' y = ptr T r"
    "color T' (nil T) = BLACK"
    using c cz C(5) r(1) pn y(1) by (simp_all add: T' T1_def transplant_off)
  moreover have "ptr T' u = ptr T u" "cpar T' cs = cpar T cs" for u cs by (rule ptr_nil [OF n]) (rule cpar_nil [OF n])
  ultimately show "rep T' (plug cs (Node c l y k r))"
    using ctx n y l(3,5) r(3-6) C(2) by (auto simp: rep_plug)
qed

text \<open>
  What the unlinking half leaves: the place of the node that moved, one black node short there if
  that node was black.
\<close>

definition unlinked :: "rbtree \<Rightarrow> rbtree \<Rightarrow> addr \<Rightarrow> color \<Rightarrow> frame list \<Rightarrow> rbt \<Rightarrow> (addr \<times> int) list \<Rightarrow> bool" where
  "unlinked T T' x oc cs s w \<longleftrightarrow> keeps T T' \<and> rep T' (plug cs s) \<and> x = ptr T' s \<and> parent T' x = cpar T' cs \<and>
     inord (plug cs s) = w \<and> sub_ok s (bh s) \<and>
     (if oc = BLACK then ctx_inv cs (Suc (bh s)) else rb_ok (plug cs s))"

lemma unlink_child:
  assumes R: "rep T (plug cs (Node c l z k r))" and ok: "rb_ok (plug cs (Node c l z k r))"
    and s: "l = Leaf \<and> s = r \<or> r = Leaf \<and> s = l"
  shows "unlinked T (rbtree_transplant T z (ptr T s)) (ptr T s) c cs s (before cs @ inord l @ inord r @ after cs)"
proof -
  let ?T = "rbtree_transplant T z (ptr T s)"
  have pt: "ptr ?T u = ptr T u" "cpar ?T cs = cpar T cs" for u cs by (rule ptr_nil, simp) (rule cpar_nil, simp)
  have inv: "ctx_inv cs (bh (Node c l z k r))" "sub_ok (Node c l z k r) (bh (Node c l z k r))" "c = RED \<longrightarrow> black_above cs"
    using ok rb_ok_plug [of cs "Node c l z k r"] by simp_all
  have S: "sub_ok s (bh s)" "bh l = bh s" using inv(2) s by (auto simp: sub_ok_def)
  have "ctx_inv cs (Suc (bh s))" if "c = BLACK" using inv(1) that S by simp
  moreover have "rb_ok (plug cs s)" if "c = RED"
    using rb_ok_plugI [of cs "bh s" s] inv that S s by auto
  moreover have "inord (plug cs s) = before cs @ inord l @ inord r @ after cs" using s by (auto simp: inord_plug)
  moreover have "keeps T ?T" by (simp add: keeps_def)
  ultimately show ?thesis
    unfolding unlinked_def using transplant_child [OF R s] S(1) by (simp add: pt)
qed

lemma ctx_inv_rename: "ctx_inv (ds @ InR c z k l # cs) n = ctx_inv (ds @ InR c y ky l # cs) n"
proof (induction ds arbitrary: n)
  case (Cons f ds)
  have "black_above (ds @ InR c z k l # cs) = black_above (ds @ InR c y ky l # cs)"
    by (cases ds) (auto simp: black_above_def)
  then show ?case using Cons by simp
qed simp

lemma before_append: "before (ds @ cs) = before cs @ before ds" "after (ds @ cs) = after ds @ after cs"
  by (induction ds rule: before.induct) auto

lemma cnodes_append: "cnodes (ds @ cs) = cnodes ds \<union> cnodes cs"
  by (induction ds rule: before.induct) auto

lemma dctx_append: "dctx (ds @ cs) \<Longrightarrow> dctx ds \<and> dctx cs \<and> cnodes ds \<inter> cnodes cs = {}"
  by (induction ds rule: before.induct) (auto simp: cnodes_append)

lemma unlink_two:
  assumes R: "rep T (plug cs (Node c l z k (plug ds (Node cy Leaf y ky ry))))"
    and ok: "rb_ok (plug cs (Node c l z k (plug ds (Node cy Leaf y ky ry))))"
    and R': "rep T' (plug cs (Node c l y ky (plug ds ry)))" and K: "keeps T T'"
    and px: "parent T' (ptr T ry) = cpar T' (ds @ InR c y ky l # cs)" and b: "before ds = []"
  shows "unlinked T T' (ptr T ry) cy (ds @ InR c y ky l # cs) ry
    (before cs @ inord l @ inord (plug ds (Node cy Leaf y ky ry)) @ after cs)"
proof -
  let ?cs = "ds @ InR c y ky l # cs" and ?Y = "Node cy Leaf y ky ry"
  have eq: "plug cs (Node c l z k (plug ds ?Y)) = plug (ds @ InR c z k l # cs) ?Y"
    "plug cs (Node c l y ky (plug ds ry)) = plug ?cs ry" by (simp_all add: plug_append)
  have inv: "ctx_inv ?cs (bh ?Y)" "sub_ok ?Y (bh ?Y)" "cy = RED \<longrightarrow> black_above (ds @ InR c z k l # cs)"
    using ok rb_ok_plug [of "ds @ InR c z k l # cs" ?Y] unfolding eq
    by (simp_all add: ctx_inv_rename [of ds c z k l cs _ y ky])
  have ba: "black_above (ds @ InR c z k l # cs) = black_above ?cs" by (cases ds) (auto simp: black_above_def)
  have S: "sub_ok ry (bh ry)" "bh ry = 0" using inv(2) by (simp_all add: sub_ok_def)
  have "ctx_inv ?cs (Suc (bh ry))" if "cy = BLACK" using inv(1) that S by simp
  moreover have "rb_ok (plug ?cs ry)" if "cy = RED"
    using rb_ok_plugI [of ?cs "bh ry" ry] inv that S ba by auto
  moreover have "inord (plug ?cs ry) = before cs @ inord l @ inord (plug ds ?Y) @ after cs"
    using b by (simp add: inord_plug before_append)
  moreover have "ptr T' ry = ptr T ry" using ptr_keeps(1) [OF K] .
  ultimately show ?thesis
    unfolding unlinked_def using R' K px S(1) unfolding eq by simp
qed

definition put_in_place :: "rbtree \<Rightarrow> addr \<Rightarrow> addr \<Rightarrow> rbtree" where
  "put_in_place T z y = (let T1 = rbtree_transplant T z y; T2 = set_left y (left T1 z) T1
     in set_color y (color T2 z) (set_parent (left T2 y) y T2))"

lemma delete_unlink_eq:
  assumes "left T z \<noteq> nil T" "right T z \<noteq> nil T" "rbtree_minimum T (right T z) = Some y"
  shows "delete_unlink T z = Some (if parent T y = z then put_in_place (set_parent (right T y) y T) z y
    else put_in_place (let T = rbtree_transplant T y (right T y)
       in set_parent (right T z) y (set_right y (right T z) T)) z y, right T y, color T y)"
  using assms by (simp add: delete_unlink_def put_in_place_def Let_def)

text \<open>The successor of \<^verbatim>\<open>z\<close> is its right child.\<close>

lemma unlink_adjacent:
  assumes R: "rep T (plug cs (Node c l z k (Node cy Leaf y ky ry)))" and ne: "l \<noteq> Leaf"
  defines "T0 \<equiv> set_parent (ptr T ry) y T"
  defines "T' \<equiv> put_in_place T0 z y"
  shows "rep T' (plug cs (Node c l y ky ry))" "keeps T T'" "parent T' (ptr T ry) = y"
proof -
  have P: "ctx_at T z cs" "dctx cs" "z \<notin> cnodes cs" "z \<noteq> nil T" "parent T z = cpar T cs" "left T z = ptr T l"
    "tree_at T z l" "dtree l" "nodes l \<inter> cnodes cs = {}" "z \<notin> nodes l" "right T y = ptr T ry" "tree_at T y ry"
    "dtree ry" "nodes ry \<inter> cnodes cs = {}" "z \<notin> nodes ry" "nodes l \<inter> nodes ry = {}" "y \<noteq> nil T" "y \<notin> cnodes cs"
    "y \<notin> nodes l" "y \<notin> nodes ry" "y \<noteq> z" "color T z = c" "key T y = ky" "color T (nil T) = BLACK"
    using R by (auto simp: rep_plug)
  have x: "ptr T ry = nil T \<or> ptr T ry \<in> nodes ry" by (rule ptr_nodes)
  have nl: "nil T \<notin> cnodes cs" "nil T \<notin> nodes l" "nil T \<notin> nodes ry"
    using ctx_at_nil [OF P(1)] tree_at_nil [OF P(7)] tree_at_nil [OF P(12)] by simp_all
  have n0: "nil T0 = nil T" by (simp add: T0_def)
  have pt: "ptr T0 u = ptr T u" "cpar T0 cs = cpar T cs" for u cs by (rule ptr_nil [OF n0]) (rule cpar_nil [OF n0])
  have "ctx_at T0 z cs" by (rule ctx_at_cong [OF P(1)]) (use x P nl in \<open>auto simp: T0_def same_def\<close>)
  moreover have "tree_at T0 z l" by (rule tree_at_cong [OF P(7)]) (use x P nl in \<open>auto simp: T0_def same_def\<close>)
  moreover have "tree_at T0 y ry"
    by (rule tree_at_parent [OF P(12,13) n0]) (auto simp: T0_def same_def)
  moreover have "z \<noteq> ptr T ry" using x P by auto
  ultimately have rn: "rep T' (plug cs (Node c l y ky ry))" "parent T' (nil T0) = parent T0 (nil T0)" "keeps T0 T'"
    unfolding T'_def put_in_place_def Let_def using P ne by (intro replace_node; simp add: pt n0; simp add: T0_def)+
  show "rep T' (plug cs (Node c l y ky ry))" by (rule rn)
  show "keeps T T'" using rn(3) by (simp add: keeps_def T0_def)
  show "parent T' (ptr T ry) = y"
  proof (cases "ry = Leaf")
    case True
    then show ?thesis using rn(2) n0 by (simp add: T0_def)
  next
    case False
    have "rep T' (plug (InR c y ky l # cs) ry)" using rn(1) by simp
    from parent_ptr [OF this False] show ?thesis using ptr_nil [of T' T ry] \<open>keeps T T'\<close> by (simp add: keeps_def)
  qed
qed

text \<open>The successor is deeper in the right subtree.\<close>

lemma unlink_deep:
  assumes R: "rep T (plug cs (Node c l z k (plug ds (Node cy Leaf y ky ry))))" and ne: "l \<noteq> Leaf" "ds \<noteq> []"
  defines "T0 \<equiv> rbtree_transplant T y (ptr T ry)"
  defines "T00 \<equiv> set_parent (right T0 z) y (set_right y (right T0 z) T0)"
  defines "T' \<equiv> put_in_place T00 z y"
  shows "rep T' (plug cs (Node c l y ky (plug ds ry)))" "keeps T T'" "parent T' (ptr T ry) = cpar T ds"
proof -
  let ?r = "plug ds ry"
  have R1: "rep T (plug (ds @ InR c z k l # cs) (Node cy Leaf y ky ry))" using R by (simp add: plug_append)
  have tc: "rep T0 (plug cs (Node c l z k ?r))" "parent T0 (ptr T ry) = cpar T ds"
    using transplant_child [OF R1, of ry] ne(2) unfolding T0_def by (simp_all add: plug_append) (cases ds; simp)
  have y: "y \<noteq> nil T" "key T y = ky" "y \<notin> nodes (plug cs (Node c l z k ?r))"
    using R1 by (auto simp: rep_plug nodes_plug cnodes_append)
  have rne: "ptr T0 ?r \<in> nodes ?r" using plug_root [OF ne(2), of T0 ry] by (simp add: nodes_plug)
  have n0: "nil T0 = nil T" by (simp add: T0_def)
  have P: "ctx_at T0 z cs" "dctx cs" "z \<notin> cnodes cs" "z \<noteq> nil T0" "parent T0 z = cpar T0 cs" "left T0 z = ptr T0 l"
    "tree_at T0 z l" "dtree l" "nodes l \<inter> cnodes cs = {}" "z \<notin> nodes l" "right T0 z = ptr T0 ?r" "tree_at T0 z ?r"
    "dtree ?r" "nodes ?r \<inter> cnodes cs = {}" "z \<notin> nodes ?r" "nodes l \<inter> nodes ?r = {}" "color T0 z = c" "color T0 (nil T0) = BLACK"
    using tc(1) by (auto simp: rep_plug)
  have yy: "y \<notin> cnodes cs" "y \<notin> nodes l" "y \<notin> nodes ?r" "y \<noteq> z" using y(3) by (simp_all add: nodes_plug)
  have n00: "nil T00 = nil T" by (simp add: T00_def n0)
  have nn: "nil T \<notin> nodes ?r" using tree_at_nil [OF P(12)] n0 by simp
  have pt: "ptr T00 u = ptr T0 u" "cpar T00 cs = cpar T0 cs" for u cs
    by (rule ptr_nil, simp add: n0 n00) (rule cpar_nil, simp add: n0 n00)
  have sm: "same T0 T00 a" if "a \<noteq> ptr T0 ?r" "a \<noteq> y" for a using that P(11) by (simp add: T00_def same_def)
  have "ctx_at T00 z cs" by (rule ctx_at_cong [OF P(1) sm]) (use rne P yy in \<open>auto simp: T00_def\<close>)
  moreover have "tree_at T00 z l" by (rule tree_at_cong [OF P(7) sm]) (use rne P yy in \<open>auto simp: T00_def\<close>)
  moreover have "tree_at T00 y ?r"
  proof (rule tree_at_parent [OF P(12,13)])
    show "same T0 T00 a" if "a \<in> nodes ?r" "a \<noteq> ptr T0 ?r" for a using sm that yy by auto
    show "parent T00 (ptr T0 ?r) = y \<and> left T00 (ptr T0 ?r) = left T0 (ptr T0 ?r) \<and> right T00 (ptr T0 ?r) = right T0 (ptr T0 ?r) \<and>
      color T00 (ptr T0 ?r) = color T0 (ptr T0 ?r) \<and> key T00 (ptr T0 ?r) = key T0 (ptr T0 ?r)"
      using P(11) rne yy by (auto simp: T00_def)
  qed (simp add: T00_def)
  moreover have "z \<noteq> ptr T0 ?r" "left T00 z = ptr T00 l" "parent T00 z = cpar T00 cs" "right T00 y = ptr T00 ?r"
    "color T00 z = c" "key T00 y = ky" "color T00 (nil T00) = BLACK" "z \<noteq> nil T00" "y \<noteq> nil T00"
    using rne P y yy n0 n00 pt by (auto simp: T00_def T0_def)
  ultimately have rn: "rep T' (plug cs (Node c l y ky ?r))" "parent T' (nil T00) = parent T00 (nil T00)" "keeps T00 T'"
    unfolding T'_def put_in_place_def Let_def using P yy ne(1) by (intro replace_node; simp)+
  show "rep T' (plug cs (Node c l y ky ?r))" by (rule rn)
  show K: "keeps T T'" using rn(3) by (simp add: keeps_def T00_def T0_def)
  show "parent T' (ptr T ry) = cpar T ds"
  proof (cases "ry = Leaf")
    case True
    have "parent T00 (nil T) = parent T0 (nil T)" using nn rne y(1) P(11) by (auto simp: T00_def)
    then show ?thesis using rn(2) n00 tc(2) True by simp
  next
    case False
    have "rep T' (plug (ds @ InR c y ky l # cs) ry)" using rn(1) by (simp add: plug_append)
    from parent_ptr [OF this False] show ?thesis using ptr_keeps [OF K] ne(2) by (cases ds) auto
  qed
qed

lemma unlink_ok:
  assumes R: "rep T (plug cs (Node c l z k r))" and ok: "rb_ok (plug cs (Node c l z k r))"
  shows "\<exists>T' x oc cs' s. delete_unlink T z = Some (T', x, oc) \<and>
    unlinked T T' x oc cs' s (before cs @ inord l @ inord r @ after cs)"
proof -
  have rd: "left T z = ptr T l" "right T z = ptr T r" "color T z = c" using rep_reads [OF R] by simp_all
  have z: "tree_at T z l" "tree_at T z r" using R by (simp_all add: rep_plug)
  have leaf: "ptr T u = nil T \<longleftrightarrow> u = Leaf" if "tree_at T z u" for u using that by (cases u) auto
  consider "l = Leaf" | "l \<noteq> Leaf" "r = Leaf" | "l \<noteq> Leaf" "r \<noteq> Leaf" by blast
  then show ?thesis
  proof cases
    case 1
    then show ?thesis using unlink_child [OF R ok, of r] rd by (auto simp: delete_unlink_def)
  next
    case 2
    then show ?thesis using unlink_child [OF R ok, of l] rd leaf [OF z(1)] by (auto simp: delete_unlink_def)
  next
    case 3
    obtain ds cy y ky ry where d: "r = plug ds (Node cy Leaf y ky ry)" "before ds = []" "rbtree_minimum T (ptr T r) = Some y"
      using minimum_ok [OF z(2) 3(2)] by blast
    have Ry: "rep T (plug (ds @ InR c z k l # cs) (Node cy Leaf y ky ry))" using R d(1) by (simp add: plug_append)
    have yr: "color T y = cy" "right T y = ptr T ry" "parent T y = cpar T (ds @ InR c z k l # cs)" using rep_reads [OF Ry] by simp_all
    have zn: "z \<notin> nodes r" using R by (simp add: rep_plug)
    have eq: "delete_unlink T z = Some (if parent T y = z then put_in_place (set_parent (ptr T ry) y T) z y
      else put_in_place (let T = rbtree_transplant T y (ptr T ry)
         in set_parent (right T z) y (set_right y (right T z) T)) z y, ptr T ry, cy)"
      using delete_unlink_eq [of T z y] d(3) rd leaf z 3 yr by simp
    note two = unlink_two [OF R [unfolded d(1)] ok [unfolded d(1)] _ _ _ d(2), folded d(1)]
    show ?thesis
    proof (cases ds)
      case Nil
      note ad = unlink_adjacent [OF R [unfolded d(1) Nil plug.simps] 3(1)]
      have "unlinked T (put_in_place (set_parent (ptr T ry) y T) z y) (ptr T ry) cy (ds @ InR c y ky l # cs) ry
          (before cs @ inord l @ inord r @ after cs)"
        by (rule two) (use ad Nil in simp_all)
      then show ?thesis using eq yr Nil by auto
    next
      case (Cons f ds')
      then have ne: "ds \<noteq> []" by simp
      let ?T' = "put_in_place (let T = rbtree_transplant T y (ptr T ry)
         in set_parent (right T z) y (set_right y (right T z) T)) z y"
      note dp = unlink_deep [OF R [unfolded d(1)] 3(1) ne]
      have "unlinked T ?T' (ptr T ry) cy (ds @ InR c y ky l # cs) ry (before cs @ inord l @ inord r @ after cs)"
        by (rule two) (use dp Cons in \<open>simp_all add: Let_def\<close>)
      moreover have "parent T y \<noteq> z"
        using zn yr(3) Cons d(1) cpar_cnodes [OF ne, of T] by (auto simp: nodes_plug)
      ultimately show ?thesis using eq by auto
    qed
  qed
qed

section \<open>Deletion\<close>

lemma rep_live: "rep (T\<lparr>live := S\<rparr>) t = rep T t"
proof -
  have "tree_at (T\<lparr>live := S\<rparr>) par u = tree_at T par u" for par u
    by (rule tree_at_agree) (simp add: agree_def same_def)
  moreover have "ptr (T\<lparr>live := S\<rparr>) u = ptr T u" for u by (rule ptr_nil) simp
  ultimately show ?thesis by (simp add: rep_def)
qed

lemma find_node:
  assumes "z \<in> nodes t"
  shows "\<exists>cs c l k r. t = plug cs (Node c l z k r)"
  using assms
proof (induction t)
  case (Node c l a k r)
  consider "z = a" | "z \<in> nodes l" | "z \<in> nodes r" using Node.prems by auto
  then show ?case
  proof cases
    case 1
    then show ?thesis by (metis plug.simps(1))
  next
    case 2
    from Node.IH(1) [OF this] obtain cs d l' k' r' where "l = plug cs (Node d l' z k' r')" by blast
    then have "Node c l a k r = plug (cs @ [InL c a k r]) (Node d l' z k' r')" by (simp add: plug_append)
    then show ?thesis by blast
  next
    case 3
    from Node.IH(2) [OF this] obtain cs d l' k' r' where "r = plug cs (Node d l' z k' r')" by blast
    then have "Node c l a k r = plug (cs @ [InR c a k l]) (Node d l' z k' r')" by (simp add: plug_append)
    then show ?thesis by blast
  qed
qed simp

lemma rbtree_delete_ok:
  assumes R: "rep T t" and ok: "rb_ok t" and z: "z \<in> nodes t"
  shows "\<exists>T' t' xs ys. rbtree_delete T z = Some T' \<and> rep T' t' \<and> rb_ok t' \<and>
    inord t = xs @ (z, key T z) # ys \<and> inord t' = xs @ ys \<and>
    nil T' = nil T \<and> key T' = key T \<and> val T' = val T \<and> live T' = live T - {z}"
proof -
  obtain cs c l k r where t: "t = plug cs (Node c l z k r)" using find_node [OF z] by blast
  have k: "key T z = k" using rep_reads(2) [of T cs c l z k r] R t by simp
  from unlink_ok [OF R [unfolded t] ok [unfolded t]] obtain T1 x oc cs' s where
    u: "delete_unlink T z = Some (T1, x, oc)" "unlinked T T1 x oc cs' s (before cs @ inord l @ inord r @ after cs)" by blast
  let ?w = "before cs @ inord l @ inord r @ after cs"
  have un: "keeps T T1" "rep T1 (plug cs' s)" "x = ptr T1 s" "parent T1 x = cpar T1 cs'" "inord (plug cs' s) = ?w"
    "sub_ok s (bh s)" "oc = BLACK \<longrightarrow> ctx_inv cs' (Suc (bh s))" "oc = RED \<longrightarrow> rb_ok (plug cs' s)"
    using u(2) by (auto simp: unlinked_def)
  have "\<exists>T2 t'. (if oc = BLACK then rbtree_delete_fixup T1 x else Some T1) = Some T2 \<and> keeps T1 T2 \<and> rep T2 t' \<and>
      rb_ok t' \<and> inord t' = ?w"
  proof (cases oc)
    case BLACK
    have "weak s (bh s)" using un(6) by (cases s) (auto simp: weak_def sub_ok_def)
    then have "del_inv T1 x cs' s (bh s) ?w" using un BLACK by (simp add: del_inv_def)
    from delete_fixup_ok [OF this] show ?thesis using BLACK by simp
  next
    case RED
    then show ?thesis using un by auto
  qed
  then obtain T2 t' where f: "(if oc = BLACK then rbtree_delete_fixup T1 x else Some T1) = Some T2" "keeps T1 T2"
    "rep T2 t'" "rb_ok t'" "inord t' = ?w" by blast
  have "rbtree_delete T z = Some (T2\<lparr>live := live T2 - {z}\<rparr>)" using u(1) f(1) by (simp add: rbtree_delete_def)
  moreover have "rep (T2\<lparr>live := live T2 - {z}\<rparr>) t'" using f(3) by (simp add: rep_live)
  moreover have "inord t = (before cs @ inord l) @ (z, key T z) # (inord r @ after cs)" by (simp add: t inord_plug k)
  moreover have "inord t' = (before cs @ inord l) @ (inord r @ after cs)" using f(5) by simp
  moreover have "keeps T T2" by (rule keeps_trans [OF un(1) f(2)])
  ultimately show ?thesis using f(4)
    by (intro exI [of _ "T2\<lparr>live := live T2 - {z}\<rparr>"] exI [of _ t'] exI [of _ "before cs @ inord l"]
        exI [of _ "inord r @ after cs"]) (simp add: keeps_def)
qed

end
