(* ===== verification/RbTree_Spec.thy ===== *)
theory RbTree_Spec
  imports RbTree_Delete Refinement "HOL-Library.Multiset"
begin

text \<open>
  The red-black tree as a multiset of keys: searching, traversal and the self-check of the
  program, the interpretation of the refinement contract on the tree's operations, and the
  tree's properties.
\<close>

section \<open>Searching and traversal\<close>

lemma search_loop_ok:
  assumes "tree_at T par s" "sorted (keys s)" "nil T \<notin> nodes s" "NULL \<notin> nodes s"
  shows "\<exists>a. search_loop T k (ptr T s) = Some a \<and> (if k \<in> set (keys s) then a \<in> nodes s \<and> key T a = k else a = NULL)"
  using assms
proof (induction s arbitrary: par)
  case Leaf
  then show ?case by (simp add: search_loop.simps keys_def)
next
  case (Node c l a x r)
  have srt: "sorted (keys l)" "sorted (keys r)" "\<forall>y \<in> set (keys l). y \<le> x" "\<forall>y \<in> set (keys r). x \<le> y"
    using Node.prems(2) by (auto simp: keys_def sorted_append)
  have at: "tree_at T a l" "tree_at T a r" "a \<noteq> nil T" "key T a = x" "left T a = ptr T l" "right T a = ptr T r"
    using Node.prems(1) by simp_all
  have ks: "set (keys (Node c l a x r)) = insert x (set (keys l) \<union> set (keys r))" by (auto simp: keys_def)
  consider "k < x" | "k > x" | "k = x" by linarith
  then show ?case
  proof cases
    case 1
    then have "k \<in> set (keys (Node c l a x r)) \<longleftrightarrow> k \<in> set (keys l)" using srt(4) ks by auto
    then show ?thesis using Node.IH(1) [OF at(1) srt(1)] Node.prems(3,4) 1 at
      by (auto simp: search_loop.simps [of T k a] split: if_splits)
  next
    case 2
    then have "k \<in> set (keys (Node c l a x r)) \<longleftrightarrow> k \<in> set (keys r)" using srt(3) ks by auto
    then show ?thesis using Node.IH(2) [OF at(2) srt(2)] Node.prems(3,4) 2 at
      by (auto simp: search_loop.simps [of T k a] split: if_splits)
  next
    case 3
    then show ?thesis using at ks by (simp add: search_loop.simps [of T x a])
  qed
qed

lemma inorder_ok:
  assumes "tree_at T par s"
  shows "rbtree_inorder T (ptr T s) = Some (map (\<lambda>(a, k). (k, color T a)) (inord s))"
  using assms
proof (induction s arbitrary: par)
  case (Node c l a x r)
  then have "tree_at T a l" "tree_at T a r" "a \<noteq> nil T" "key T a = x" "left T a = ptr T l" "right T a = ptr T r" by simp_all
  with Node.IH show ?case by (simp add: rbtree_inorder.simps [of T a])
qed (simp add: rbtree_inorder.simps)

lemma verify_ok:
  assumes "tree_at T par s" "color T (nil T) = BLACK" "0 \<le> b"
  shows "\<exists>p'. verify_rbtree_properties T (ptr T s) b p = Some (invc s \<and> invh s \<and> (p = -1 \<or> p = b + int (bh s)), p') \<and>
    (invc s \<and> invh s \<and> (p = -1 \<or> p = b + int (bh s)) \<longrightarrow> p' = b + int (bh s))"
  using assms
proof (induction s arbitrary: par b p)
  case Leaf
  then show ?case by (auto simp: verify_rbtree_properties.simps Let_def)
next
  case (Node c l a x r)
  have at: "tree_at T a l" "tree_at T a r" "a \<noteq> nil T" "color T a = c" "left T a = ptr T l" "right T a = ptr T r"
    using Node.prems(1) by simp_all
  have col: "color T (ptr T l) = tcol l" "color T (ptr T r) = tcol r" using at color_ptr Node.prems(2) by blast+
  show ?case
  proof (cases "c = RED \<and> (tcol l = RED \<or> tcol r = RED)")
    case True
    then show ?thesis using at col by (auto simp: verify_rbtree_properties.simps [of T a])
  next
    case False
    let ?b = "b + (if c = BLACK then 1 else 0)"
    have b: "0 \<le> ?b" using Node.prems(3) by simp
    obtain p1 where l: "verify_rbtree_properties T (ptr T l) ?b p =
        Some (invc l \<and> invh l \<and> (p = -1 \<or> p = ?b + int (bh l)), p1)"
      "invc l \<and> invh l \<and> (p = -1 \<or> p = ?b + int (bh l)) \<longrightarrow> p1 = ?b + int (bh l)"
      using Node.IH(1) [OF at(1) Node.prems(2) b] by blast
    have st: "verify_rbtree_properties T a b p =
        (if invc l \<and> invh l \<and> (p = -1 \<or> p = ?b + int (bh l)) then verify_rbtree_properties T (ptr T r) ?b p1
         else Some (False, p1))"
      using at col False l(1) by (subst verify_rbtree_properties.simps) (auto simp: Let_def)
    have rr: "c = RED \<longrightarrow> tcol l = BLACK \<and> tcol r = BLACK" using False by auto
    show ?thesis
    proof (cases "invc l \<and> invh l \<and> (p = -1 \<or> p = ?b + int (bh l))")
      case True
      then have p1: "p1 = ?b + int (bh l)" using l(2) by blast
      obtain p2 where r: "verify_rbtree_properties T (ptr T r) ?b p1 =
          Some (invc r \<and> invh r \<and> (p1 = -1 \<or> p1 = ?b + int (bh r)), p2)"
        "invc r \<and> invh r \<and> (p1 = -1 \<or> p1 = ?b + int (bh r)) \<longrightarrow> p2 = ?b + int (bh r)"
        using Node.IH(2) [OF at(2) Node.prems(2) b] by blast
      have "p1 = -1 \<or> p1 = ?b + int (bh r) \<longleftrightarrow> bh l = bh r" using p1 b by auto
      then show ?thesis using st r True rr by (intro exI [of _ p2]) auto
    next
      case F: False
      then have "\<not> (invc (Node c l a x r) \<and> invh (Node c l a x r) \<and> (p = -1 \<or> p = b + int (bh (Node c l a x r))))"
        by auto
      then show ?thesis using st F by (intro exI [of _ p1]) auto
    qed
  qed
qed

section \<open>The tree as a multiset\<close>

text \<open>A well-formed tree: its shape in the heap, the red-black invariant, and the order of keys.\<close>

definition wf_tree :: "rbtree \<Rightarrow> rbt \<Rightarrow> bool" where
  "wf_tree T t \<longleftrightarrow> rep T t \<and> rb_ok t \<and> sorted (keys t) \<and> insert (nil T) (nodes t) \<subseteq> live T \<and> NULL \<notin> live T"

datatype rb_cmd = Insert addr int nat | Search int | Remove int

text \<open>
  \<open>Insert a k v\<close> creates a node (\<open>a\<close> is what \<^verbatim>\<open>malloc\<close> returns) and inserts it; \<open>Remove k\<close> searches a
  node and deletes it. The result says whether there was a node.
\<close>

fun rb_step :: "rbtree \<Rightarrow> rb_cmd \<Rightarrow> unit + rbtree \<times> bool" where
  "rb_step T (Insert a k v) = (case rbtree_create_node a k v (nil T) T of (T, node) \<Rightarrow>
     if node = NULL then Inr (T, False)
     else bindR (returned (rbtree_insert T node)) (\<lambda>T. Inr (T, True)))"
| "rb_step T (Search k) = bindR (returned (rbtree_search T k)) (\<lambda>node. Inr (T, node \<noteq> NULL))"
| "rb_step T (Remove k) = bindR (returned (rbtree_search T k)) (\<lambda>node.
     if node = NULL then Inr (T, False)
     else bindR (returned (rbtree_delete T node)) (\<lambda>T. Inr (T, True)))"

text \<open>
  The specification works on the multiset of keys. \<open>pool\<close> is the list of addresses in use; a
  deletion does not say which of several equal keys it frees, so addresses are never reused.
\<close>

fun mset_step :: "int multiset \<times> addr set \<Rightarrow> rb_cmd \<Rightarrow> (int multiset \<times> addr set) \<times> bool" where
  "mset_step (M, L) (Insert a k v) = (if a = NULL then ((M, L), False) else ((add_mset k M, insert a L), True))"
| "mset_step (M, L) (Search k) = ((M, L), k \<in># M)"
| "mset_step (M, L) (Remove k) = ((M - {#k#}, L), k \<in># M)"

fun rb_pre :: "int multiset \<times> addr set \<Rightarrow> rb_cmd \<Rightarrow> bool" where
  "rb_pre (M, L) (Insert a k v) \<longleftrightarrow> a \<notin> L"
| "rb_pre _ _ \<longleftrightarrow> True"

definition rb_rel :: "rbtree \<Rightarrow> int multiset \<times> addr set \<Rightarrow> bool" where
  "rb_rel T A \<longleftrightarrow> (\<exists>t. wf_tree T t \<and> mset (keys t) = fst A \<and> live T \<subseteq> snd A)"

lemma rep_create:
  assumes R: "rep T t" and a: "a \<noteq> nil T" "a \<notin> nodes t" "a \<noteq> NULL"
  shows "rep (fst (rbtree_create_node a k v n T)) t"
proof -
  let ?T = "fst (rbtree_create_node a k v n T)"
  have "tree_at ?T (nil T) t = tree_at T (nil T) t"
    by (rule tree_at_agree) (use a in \<open>auto simp: rbtree_create_node_def agree_def same_def\<close>)
  moreover have "ptr ?T t = ptr T t" by (rule ptr_nil) (simp add: rbtree_create_node_def)
  ultimately show ?thesis using R a by (simp add: rep_def rbtree_create_node_def)
qed

lemma nodes_mid: "inord t' = xs @ (z, k) # ys \<Longrightarrow> inord t = xs @ ys \<Longrightarrow> nodes t' = insert z (nodes t)"
  by (auto simp: nodes_inord)

lemma insert_wf:
  assumes W: "wf_tree T t" and z: "z \<notin> nodes t" "z \<noteq> nil T" "z \<in> live T"
  shows "\<exists>T' t'. rbtree_insert T z = Some T' \<and> wf_tree T' t' \<and> keeps T T' \<and> nodes t' = insert z (nodes t) \<and>
    mset (keys t') = add_mset (key T z) (mset (keys t))"
proof -
  have R: "rep T t" "rb_ok t" "sorted (keys t)" using W by (simp_all add: wf_tree_def)
  obtain T' t' xs ys where i: "rbtree_insert T z = Some T'" "keeps T T'" "rep T' t'" "rb_ok t'"
    "inord t = xs @ ys" "inord t' = xs @ (z, key T z) # ys"
    "\<forall>k \<in> snd ` set xs. k \<le> key T z" "\<forall>k \<in> snd ` set ys. key T z < k"
    using rbtree_insert_ok [OF R z(2,1)] by blast
  have "sorted (keys t')" using i(5-8) R(3) by (fastforce simp: keys_def sorted_append)
  moreover have "nodes t' = insert z (nodes t)" using nodes_mid [OF i(6,5)] .
  moreover have "mset (keys t') = add_mset (key T z) (mset (keys t))" using i(5,6) by (simp add: keys_def)
  ultimately show ?thesis using i(1-4) W z
    by (intro exI [of _ T'] exI [of _ t']) (auto simp: wf_tree_def keeps_def)
qed

lemma delete_wf:
  assumes W: "wf_tree T t" and z: "z \<in> nodes t"
  shows "\<exists>T' t'. rbtree_delete T z = Some T' \<and> wf_tree T' t' \<and> nodes t' = nodes t - {z} \<and>
    mset (keys t') = mset (keys t) - {#key T z#} \<and> live T' = live T - {z}"
proof -
  have R: "rep T t" "rb_ok t" using W by (simp_all add: wf_tree_def)
  obtain T' t' xs ys where d: "rbtree_delete T z = Some T'" "rep T' t'" "rb_ok t'"
    "inord t = xs @ (z, key T z) # ys" "inord t' = xs @ ys" "nil T' = nil T" "live T' = live T - {z}"
    using rbtree_delete_ok [OF R z] by blast
  have "z \<notin> nodes t'"
    using R(1) d(4,5) by (auto simp: rep_def dtree_inord nodes_inord)
  then have n: "nodes t' = nodes t - {z}" using nodes_mid [OF d(4,5)] by auto
  moreover have "sorted (keys t')" using W d(4,5) by (fastforce simp: wf_tree_def keys_def sorted_append)
  moreover have "mset (keys t') = mset (keys t) - {#key T z#}" using d(4,5) by (simp add: keys_def)
  moreover have "z \<noteq> nil T" using rep_nil [OF R(1)] z by auto
  ultimately show ?thesis using d W by (auto simp: wf_tree_def)
qed

lemma search_wf:
  assumes W: "wf_tree T t"
  shows "\<exists>a. rbtree_search T k = Some a \<and> (if k \<in> set (keys t) then a \<in> nodes t \<and> key T a = k else a = NULL)"
proof -
  have "tree_at T (nil T) t" "sorted (keys t)" "nil T \<notin> nodes t" "NULL \<notin> nodes t" "root T = ptr T t"
    using W rep_nil by (auto simp: wf_tree_def rep_def)
  then show ?thesis using search_loop_ok by (simp add: rbtree_search_def)
qed

lemma wf_node: "wf_tree T t \<Longrightarrow> a \<in> nodes t \<Longrightarrow> a \<noteq> NULL"
  unfolding wf_tree_def by (metis insert_subset subsetD)

lemma create_insert:
  assumes W: "wf_tree T t" and a: "a \<notin> live T" "a \<noteq> NULL"
  shows "\<exists>T1 T' t'. rbtree_create_node a k v (nil T) T = (T1, a) \<and> rbtree_insert T1 a = Some T' \<and> wf_tree T' t' \<and>
    mset (keys t') = add_mset k (mset (keys t)) \<and> live T' = insert a (live T) \<and> nodes t' = insert a (nodes t)"
proof -
  have n: "a \<noteq> nil T" "a \<notin> nodes t" using W a by (auto simp: wf_tree_def)
  obtain T1 where e: "rbtree_create_node a k v (nil T) T = (T1, a)" and
    f: "live T1 = insert a (live T)" "key T1 a = k" "nil T1 = nil T" using a by (simp add: rbtree_create_node_def)
  have "rep T t" using W by (simp add: wf_tree_def)
  from rep_create [OF this n a(2), of k v "nil T"] have "rep T1 t" by (simp add: e)
  then have "wf_tree T1 t" using W f a by (auto simp: wf_tree_def)
  from insert_wf [OF this n(2), unfolded f, OF n(1)] obtain T' t' where
    "rbtree_insert T1 a = Some T'" "wf_tree T' t'" "keeps T1 T'" "mset (keys t') = add_mset k (mset (keys t))"
    "nodes t' = insert a (nodes t)" by auto
  then show ?thesis using e f(1) by (auto simp: keeps_def)
qed

lemma insert_step:
  assumes W: "wf_tree T t" and a: "a \<notin> live T" "a \<noteq> NULL"
  shows "\<exists>T' t'. rb_step T (Insert a k v) = Inr (T', True) \<and> wf_tree T' t' \<and>
    mset (keys t') = add_mset k (mset (keys t)) \<and> live T' = insert a (live T)"
proof -
  obtain T1 T' t' where c: "rbtree_create_node a k v (nil T) T = (T1, a)" "rbtree_insert T1 a = Some T'" "wf_tree T' t'"
    "mset (keys t') = add_mset k (mset (keys t))" "live T' = insert a (live T)" using create_insert [OF W a] by blast
  then have "rb_step T (Insert a k v) = Inr (T', True)" using a by (simp add: returned_def)
  then show ?thesis using c(3-5) by blast
qed

interpretation rb: data_refinement rb_rel rb_step mset_step rb_pre
proof
  fix T A c assume "rb_rel T A" and p: "rb_pre A c"
  then obtain t where W: "wf_tree T t" and m: "mset (keys t) = fst A" and l: "live T \<subseteq> snd A" by (auto simp: rb_rel_def)
  obtain M L where A: "A = (M, L)" by (cases A)
  have ks: "k \<in> set (keys t) \<longleftrightarrow> k \<in># M" for k using m A by (metis fst_conv set_mset_mset)
  show "\<exists>T'. rb_step T c = Inr (T', snd (mset_step A c)) \<and> rb_rel T' (fst (mset_step A c))"
  proof (cases c)
    case (Insert a k v)
    show ?thesis
    proof (cases "a = NULL")
      case True
      then show ?thesis using Insert A W m l by (auto simp: rb_rel_def rbtree_create_node_def)
    next
      case False
      have "a \<notin> live T" using p Insert A l by auto
      from insert_step [OF W this False, of k v] show ?thesis using Insert A False m l
        by (auto simp: rb_rel_def simp del: rb_step.simps)
    qed
  next
    case (Search k)
    have "\<exists>a. rbtree_search T k = Some a \<and> (a \<noteq> NULL \<longleftrightarrow> k \<in># M)"
      using search_wf [OF W, of k] wf_node [OF W] ks [of k] by (auto split: if_splits)
    then show ?thesis using Search A W m l by (auto simp: rb_rel_def returned_def)
  next
    case (Remove k)
    obtain a where a: "rbtree_search T k = Some a" "if k \<in># M then a \<in> nodes t \<and> key T a = k else a = NULL"
      using search_wf [OF W, of k] ks [of k] by auto
    show ?thesis
    proof (cases "k \<in># M")
      case True
      then have n: "a \<in> nodes t" "key T a = k" "a \<noteq> NULL" using a(2) wf_node [OF W] by auto
      from delete_wf [OF W n(1)] obtain T' t' where "rbtree_delete T a = Some T'" "wf_tree T' t'"
        "mset (keys t') = M - {#k#}" "live T' = live T - {a}" using m A n(2) by auto
      then show ?thesis using Remove A True a(1) n(3) l by (auto simp: rb_rel_def returned_def)
    next
      case False
      then have "M - {#k#} = M" by (simp add: diff_single_trivial)
      then show ?thesis using Remove A W m l a False by (auto simp: rb_rel_def returned_def)
    qed
  qed
qed

section \<open>The test program\<close>

lemma init_wf:
  assumes "n \<noteq> NULL" "NULL \<notin> live T"
  shows "wf_tree (rbtree_init n T) Leaf"
  using assms by (simp add: wf_tree_def rbtree_init_def rep_def rb_ok_def keys_def Let_def)

lemma wf_keys: "wf_tree T t \<Longrightarrow> keys t = sorted_list_of_multiset (mset (keys t))"
  by (metis sorted_list_of_multiset_mset sorted_sort_id wf_tree_def)

lemma show_ok:
  assumes "wf_tree T t"
  shows "\<exists>xs. test_show T = Inr [Inorder xs, Verdict True] \<and> map fst xs = keys t"
proof -
  have R: "tree_at T (nil T) t" "root T = ptr T t" "color T (nil T) = BLACK" "invc t" "invh t"
    using assms by (auto simp: wf_tree_def rep_def rb_ok_def)
  have v: "\<exists>p. verify_rbtree_properties T (root T) 0 (-1) = Some (True, p)"
    using verify_ok [OF R(1,3), of 0 "-1"] R by auto
  have "map fst (map (\<lambda>(a, k). (k, color T a)) (inord t)) = keys t" by (simp add: keys_def split_def comp_def)
  then show ?thesis using inorder_ok [OF R(1)] v R(2) by (auto simp: test_show_def returned_def)
qed

lemma root_black: "wf_tree T t \<Longrightarrow> color T (root T) = BLACK"
  using rep_col [of T "[]" t] by (auto simp: wf_tree_def rb_ok_def rep_root)

lemma test_insert_ok:
  assumes "wf_tree T t" "\<forall>j < length ks. mem (i + j) \<noteq> NULL \<and> mem (i + j) \<notin> live T" "inj_on mem {i..<i + length ks}"
  shows "\<exists>T' t'. test_insert mem i ks T = Inr (Some T') \<and> wf_tree T' t' \<and> mset (keys t') = mset ks + mset (keys t)"
  using assms
proof (induction ks arbitrary: i T t)
  case (Cons k ks)
  have a: "mem i \<notin> live T" "mem i \<noteq> NULL" using Cons.prems(2) by (metis add_0_right length_greater_0_conv list.distinct(1))+
  obtain T1 T' t' where c: "rbtree_create_node (mem i) k 0 (nil T) T = (T1, mem i)" "rbtree_insert T1 (mem i) = Some T'" "wf_tree T' t'"
    "mset (keys t') = add_mset k (mset (keys t))" "live T' = insert (mem i) (live T)" using create_insert [OF Cons.prems(1) a] by blast
  have "mem (Suc i + j) \<noteq> mem i" if "j < length ks" for j
    using inj_onD [OF Cons.prems(3), of "Suc i + j" i] that by auto
  moreover have "mem (Suc i + j) \<noteq> NULL \<and> mem (Suc i + j) \<notin> live T" if "j < length ks" for j
    using Cons.prems(2) [rule_format, of "Suc j"] that by simp
  ultimately have "\<forall>j < length ks. mem (Suc i + j) \<noteq> NULL \<and> mem (Suc i + j) \<notin> live T'" using c(5) by auto
  moreover have "inj_on mem {Suc i..<Suc i + length ks}" by (rule inj_on_subset [OF Cons.prems(3)]) auto
  ultimately obtain T2 t2 where "test_insert mem (Suc i) ks T' = Inr (Some T2)" "wf_tree T2 t2"
    "mset (keys t2) = mset ks + mset (keys t')" using Cons.IH [OF c(3)] by blast
  then show ?case using c a by (auto simp: returned_def)
qed auto

lemma test_delete_step:
  assumes "wf_tree T t" "k \<in> set (keys t)"
  shows "\<exists>T' t' xs. test_delete (k # ks) T = bindR (test_delete ks T') (\<lambda>rest. Inr (Deleted k # Inorder xs # Verdict True # rest)) \<and>
    wf_tree T' t' \<and> mset (keys t') = mset (keys t) - {#k#} \<and> map fst xs = keys t'"
proof -
  obtain a where a: "rbtree_search T k = Some a" "a \<in> nodes t" "key T a = k" "a \<noteq> NULL"
    using search_wf [OF assms(1), of k] assms wf_node by auto
  obtain T' t' where d: "rbtree_delete T a = Some T'" "wf_tree T' t'" "mset (keys t') = mset (keys t) - {#k#}"
    using delete_wf [OF assms(1) a(2)] a(3) by auto
  obtain xs where "test_show T' = Inr [Inorder xs, Verdict True]" "map fst xs = keys t'" using show_ok [OF d(2)] by blast
  then show ?thesis using a d by (intro exI [of _ T'] exI [of _ t'] exI [of _ xs]) (simp add: returned_def)
qed

section \<open>Properties\<close>

definition blank_heap :: rbtree where
  "blank_heap = \<lparr>root = 0, nil = 0, color = (\<lambda>_. RED), left = (\<lambda>_. 0), right = (\<lambda>_. 0), parent = (\<lambda>_. 0),
     key = (\<lambda>_. 0), val = (\<lambda>_. 0), live = {}\<rparr>"

text \<open>
  C4: from a freshly initialised tree, every sequence of insertions, searches and removals returns
  (no loop runs for ever) and answers exactly as a multiset of keys does; afterwards the heap
  holds a red-black tree with sorted keys.
\<close>

theorem rb_run_refines:
  assumes "n \<noteq> NULL" "NULL \<notin> live T" "all_pre mset_step rb_pre ({#}, insert n (live T)) cmds"
  shows "\<exists>T' t. run rb_step (rbtree_init n T) cmds = Inr (T', snd (spec_run mset_step ({#}, insert n (live T)) cmds)) \<and>
    wf_tree T' t \<and> mset (keys t) = fst (fst (spec_run mset_step ({#}, insert n (live T)) cmds))"
proof -
  have "rb_rel (rbtree_init n T) ({#}, insert n (live T))"
    using init_wf [OF assms(1,2)] by (auto simp: rb_rel_def keys_def rbtree_init_def Let_def)
  from rb.run_refines [OF this assms(3)] show ?thesis by (auto simp: rb_rel_def)
qed

theorem rb_run_refines_witness:
  "\<exists>T' t. run rb_step (rbtree_init 1 blank_heap)
      [Insert 2 10 0, Insert 3 5 0, Insert 0 7 0, Search 5, Remove 10, Search 10, Remove 10]
    = Inr (T', [True, True, False, True, True, False, False]) \<and> wf_tree T' t \<and> mset (keys t) = {#5#}"
  using rb_run_refines [of 1 blank_heap "[Insert 2 10 0, Insert 3 5 0, Insert 0 7 0, Search 5, Remove 10, Search 10, Remove 10]"]
  by (simp add: blank_heap_def)

text \<open>
  \<^verbatim>\<open>rbtree_insert\<close> of a node that is not in the tree returns a red-black tree in which the node
  stands after all keys not greater than its own and before all greater ones; every other node
  keeps its place in the order, and no key or value changes.
\<close>

theorem rbtree_insert_correct:
  assumes "rep T t" "rb_ok t" "sorted (keys t)" "z \<noteq> nil T" "z \<notin> nodes t"
  shows "\<exists>T' t' xs ys. rbtree_insert T z = Some T' \<and> rep T' t' \<and> rb_ok t' \<and> key T' = key T \<and> val T' = val T \<and>
    inord t = xs @ ys \<and> inord t' = xs @ (z, key T z) # ys \<and>
    list_all (\<lambda>(a, k). k \<le> key T z) xs \<and> list_all (\<lambda>(a, k). key T z < k) ys"
proof -
  obtain T' t' xs ys where i: "rbtree_insert T z = Some T'" "keeps T T'" "rep T' t'" "rb_ok t'"
    "inord t = xs @ ys" "inord t' = xs @ (z, key T z) # ys"
    "\<forall>k \<in> snd ` set xs. k \<le> key T z" "\<forall>k \<in> snd ` set ys. key T z < k"
    using rbtree_insert_ok [OF assms] by blast
  then show ?thesis
    by (intro exI [of _ T'] exI [of _ t'] exI [of _ xs] exI [of _ ys]) (auto simp: keeps_def list_all_iff)
qed

theorem rbtree_insert_correct_witness:
  "\<exists>T' t'. rbtree_insert (rbtree_init 1 blank_heap) 2 = Some T' \<and> rep T' t' \<and> rb_ok t' \<and> inord t' = [(2, 0)]"
proof -
  have "wf_tree (rbtree_init 1 blank_heap) Leaf" by (rule init_wf) (simp_all add: blank_heap_def)
  then have "rep (rbtree_init 1 blank_heap) Leaf" "rb_ok Leaf" "sorted (keys Leaf)" by (simp_all add: wf_tree_def)
  from rbtree_insert_correct [OF this, of 2] show ?thesis
    by (auto simp: rbtree_init_def blank_heap_def Let_def)
qed

text \<open>
  \<^verbatim>\<open>rbtree_delete\<close> of a node of the tree returns a red-black tree with exactly that node gone,
  the order of the others kept, and frees that node and no other.
\<close>

theorem rbtree_delete_correct:
  assumes "rep T t" "rb_ok t" "z \<in> nodes t"
  shows "\<exists>T' t' xs ys. rbtree_delete T z = Some T' \<and> rep T' t' \<and> rb_ok t' \<and>
    inord t = xs @ (z, key T z) # ys \<and> inord t' = xs @ ys \<and> key T' = key T \<and> live T' = live T - {z}"
proof -
  obtain T' t' xs ys where "rbtree_delete T z = Some T'" "rep T' t'" "rb_ok t'"
    "inord t = xs @ (z, key T z) # ys" "inord t' = xs @ ys" "key T' = key T" "live T' = live T - {z}"
    using rbtree_delete_ok [OF assms] by blast
  then show ?thesis by (intro exI [of _ T'] exI [of _ t'] exI [of _ xs] exI [of _ ys]) simp
qed

theorem rbtree_delete_correct_witness:
  "\<exists>T T' t'. rb_step (rbtree_init 1 blank_heap) (Insert 2 10 0) = Inr (T, True) \<and>
    rbtree_delete T 2 = Some T' \<and> rep T' t' \<and> rb_ok t' \<and> inord t' = []"
proof -
  have "wf_tree (rbtree_init 1 blank_heap) Leaf" by (rule init_wf) (simp_all add: blank_heap_def)
  from create_insert [OF this, of 2 10 0] obtain T1 T t where T:
    "rbtree_create_node 2 10 0 (nil (rbtree_init 1 blank_heap)) (rbtree_init 1 blank_heap) = (T1, 2)"
    "rbtree_insert T1 2 = Some T" "wf_tree T t" "mset (keys t) = {#10#}" "nodes t = {2}"
    by (auto simp: rbtree_init_def blank_heap_def keys_def Let_def)
  have st: "rb_step (rbtree_init 1 blank_heap) (Insert 2 10 0) = Inr (T, True)" using T by (simp add: returned_def)
  have z: "\<exists>a. inord t = [(a, 10)]" using T(4) by (cases "inord t") (auto simp: keys_def)
  have "2 \<in> nodes t" using T(5) by simp
  then show ?thesis using st rbtree_delete_correct [of T t 2] T(3) z
    by (auto simp: wf_tree_def append_eq_Cons_conv simp del: rb_step.simps)
qed

text \<open>
  \<^verbatim>\<open>rbtree_search\<close> returns a node with the key if the tree has one, and NULL otherwise.
\<close>

theorem rbtree_search_correct:
  assumes "wf_tree T t"
  shows "\<exists>a. rbtree_search T k = Some a \<and> (if k \<in> set (keys t) then a \<in> nodes t \<and> key T a = k else a = NULL)"
  using search_wf [OF assms] .

theorem rbtree_search_correct_witness: "rbtree_search (rbtree_init 1 blank_heap) 4 = Some NULL"
proof -
  have "wf_tree (rbtree_init 1 blank_heap) Leaf" by (rule init_wf) (simp_all add: blank_heap_def)
  from rbtree_search_correct [OF this, of 4] show ?thesis by (simp add: keys_def)
qed

text \<open>
  \<^verbatim>\<open>verify_rbtree_properties\<close> on a tree in the heap, called as the program calls it, returns and
  accepts exactly the trees in which no red node has a red child and all paths have the same
  number of black nodes.
\<close>

theorem verify_correct:
  assumes "rep T t"
  shows "\<exists>p. verify_rbtree_properties T (root T) 0 (-1) = Some (invc t \<and> invh t, p)"
  using verify_ok [of T "nil T" t 0 "-1"] assms by (auto simp: rep_def)

theorem verify_correct_witness:
  "\<exists>p. verify_rbtree_properties (rbtree_init 1 blank_heap) 1 0 (-1) = Some (True, p)"
proof -
  have "wf_tree (rbtree_init 1 blank_heap) Leaf" by (rule init_wf) (simp_all add: blank_heap_def)
  then have R: "rep (rbtree_init 1 blank_heap) Leaf" by (simp add: wf_tree_def)
  have "root (rbtree_init 1 blank_heap) = 1" by (simp add: rbtree_init_def Let_def)
  with verify_correct [OF R] show ?thesis by simp
qed

text \<open>
  The test program, given memory, prints a black root, the sorted keys after the insertions
  and after each deletion, and a passed verification each time.
\<close>

theorem test_rbtree_correct:
  assumes "inj_on mem {0..11}" "\<forall>i \<le> 11. mem i \<noteq> NULL" "live T = {}"
  shows "\<exists>x0 x1 x2 x3. test_rbtree mem T = Inr
      [Root_color BLACK, Inorder x0, Verdict True, Deleted 5, Inorder x1, Verdict True,
       Deleted 15, Inorder x2, Verdict True, Deleted 10, Inorder x3, Verdict True] \<and>
    map fst x0 = [2, 3, 4, 5, 7, 8, 9, 10, 12, 15, 18] \<and> map fst x1 = [2, 3, 4, 7, 8, 9, 10, 12, 15, 18] \<and>
    map fst x2 = [2, 3, 4, 7, 8, 9, 10, 12, 18] \<and> map fst x3 = [2, 3, 4, 7, 8, 9, 12, 18]"
proof -
  let ?ks = "[10, 5, 15, 3, 8, 12, 18, 2, 4, 7, 9] :: int list" and ?T = "rbtree_init (mem 0) T"
  have W: "wf_tree ?T Leaf" using assms by (intro init_wf) auto
  have lv: "live ?T = {mem 0}" using assms(3) by (simp add: rbtree_init_def Let_def)
  have ne: "mem (1 + j) \<noteq> mem 0" if "j < 11" for j using inj_onD [OF assms(1), of "1 + j" 0] that by auto
  have "\<forall>j < length ?ks. mem (1 + j) \<noteq> NULL \<and> mem (1 + j) \<notin> live ?T" using ne assms(2) lv by auto
  moreover have "inj_on mem {1..<1 + length ?ks}" by (rule inj_on_subset [OF assms(1)]) auto
  ultimately obtain T0 t0 where 0: "test_insert mem 1 ?ks ?T = Inr (Some T0)" "wf_tree T0 t0" "mset (keys t0) = mset ?ks"
    using test_insert_ok [OF W, of ?ks mem 1] by (auto simp: keys_def simp del: test_insert.simps)
  obtain x0 where x0: "test_show T0 = Inr [Inorder x0, Verdict True]" "map fst x0 = keys t0" using show_ok [OF 0(2)] by blast
  have "5 \<in> set (keys t0)" using 0(3) by (metis list.set_intros(1,2) set_mset_mset)
  from test_delete_step [OF 0(2) this, of "[15, 10]"] obtain T1 t1 x1 where
    1: "test_delete [5, 15, 10] T0 = bindR (test_delete [15, 10] T1) (\<lambda>rest. Inr (Deleted 5 # Inorder x1 # Verdict True # rest))"
    "wf_tree T1 t1" "mset (keys t1) = mset ?ks - {#5#}" "map fst x1 = keys t1" using 0(3) by auto
  have "15 \<in># mset (keys t1)" unfolding 1(3) by simp
  then have "15 \<in> set (keys t1)" by simp
  from test_delete_step [OF 1(2) this, of "[10]"] obtain T2 t2 x2 where
    2: "test_delete [15, 10] T1 = bindR (test_delete [10] T2) (\<lambda>rest. Inr (Deleted 15 # Inorder x2 # Verdict True # rest))"
    "wf_tree T2 t2" "mset (keys t2) = mset ?ks - {#5#} - {#15#}" "map fst x2 = keys t2" using 1(3) by auto
  have "10 \<in># mset (keys t2)" unfolding 2(3) by simp
  then have "10 \<in> set (keys t2)" by simp
  from test_delete_step [OF 2(2) this, of "[]"] obtain T3 t3 x3 where
    3: "test_delete [10] T2 = bindR (test_delete [] T3) (\<lambda>rest. Inr (Deleted 10 # Inorder x3 # Verdict True # rest))"
    "wf_tree T3 t3" "mset (keys t3) = mset ?ks - {#5#} - {#15#} - {#10#}" "map fst x3 = keys t3" using 2(3) by auto
  have k: "keys t0 = sorted_list_of_multiset (mset ?ks)" "keys t1 = sorted_list_of_multiset (mset ?ks - {#5#})"
    "keys t2 = sorted_list_of_multiset (mset ?ks - {#5#} - {#15#})"
    "keys t3 = sorted_list_of_multiset (mset ?ks - {#5#} - {#15#} - {#10#})"
    using wf_keys [OF 0(2)] wf_keys [OF 1(2)] wf_keys [OF 2(2)] wf_keys [OF 3(2)] 0(3) 1(3) 2(3) 3(3) by simp_all
  have "test_rbtree mem T = Inr [Root_color BLACK, Inorder x0, Verdict True, Deleted 5, Inorder x1, Verdict True,
       Deleted 15, Inorder x2, Verdict True, Deleted 10, Inorder x3, Verdict True]"
    unfolding test_rbtree_def using 0(1) x0(1) root_black [OF 0(2)] 1(1) 2(1) 3(1)
    by (simp del: test_insert.simps test_delete.simps(2))
  then show ?thesis using x0(2) 1(4) 2(4) 3(4) k by simp
qed

theorem test_rbtree_correct_witness:
  "\<exists>x0 rest. test_rbtree Suc blank_heap = Inr (Root_color BLACK # Inorder x0 # Verdict True # rest)"
proof -
  have "inj_on Suc {0..11}" "\<forall>i \<le> 11. Suc i \<noteq> NULL" "live blank_heap = {}" by (simp_all add: blank_heap_def)
  from test_rbtree_correct [OF this] show ?thesis by blast
qed

end
