(* ===== verification/Io.thy ===== *)
theory Io
  imports Prelude
begin

text \<open>
  Descriptors as the programs see them. What a descriptor delivers is a list of events: bytes that
  arrive, the end of the file, a failing \<^verbatim>\<open>read\<close>, and, for a caller that waits with \<^verbatim>\<open>select\<close>, a
  timeout or a failing \<^verbatim>\<open>select\<close>. What \<^verbatim>\<open>write\<close> returns is a list of return values; a call beyond
  the list transfers everything. On top of these: \<^verbatim>\<open>lib/readn.c\<close>, \<^verbatim>\<open>lib/writen.c\<close>, the timed reads of
  \<^verbatim>\<open>printer/util.c\<close>, \<^verbatim>\<open>sockets/clconn2.c\<close> and \<^verbatim>\<open>lib/bufargs.c\<close>.
\<close>

datatype event = Bytes string | Eof | Rerr nat | Timeout | Serr nat

definition ETIME :: nat where "ETIME = 62"

section \<open>System calls\<close>

text \<open>\<open>Inl e\<close> is the return value -1 with \<^verbatim>\<open>errno\<close> \<open>e\<close>; \<open>Inr []\<close> is the return value 0.\<close>

fun sys_read :: "nat \<Rightarrow> event list \<Rightarrow> event list \<times> (nat + string)" where
  "sys_read n [] = ([], Inr [])"
| "sys_read n (Bytes s # evs) =
    (if length s \<le> n then (evs, Inr s) else (Bytes (drop n s) # evs, Inr (take n s)))"
| "sys_read n (Eof # evs) = (Eof # evs, Inr [])"
| "sys_read n (Rerr e # evs) = (evs, Inl e)"
| "sys_read n (_ # evs) = sys_read n evs"

fun sys_write :: "string \<Rightarrow> int list \<Rightarrow> int list \<times> int" where
  "sys_write buf [] = ([], int (length buf))"
| "sys_write buf (w # ws) = (ws, if w < 0 then -1 else min w (int (length buf)))"

section \<open>Reading exactly n bytes\<close>

function readn_loop :: "nat \<Rightarrow> string \<Rightarrow> event list \<Rightarrow> event list \<times> int \<times> string" where
  "readn_loop n got evs =
    (if length got < n then
       (case sys_read (n - length got) evs of
          (evs, Inl e) \<Rightarrow> (evs, if got = [] then -1 else int (length got), got)
        | (evs, Inr []) \<Rightarrow> (evs, int (length got), got)
        | (evs, Inr (c # s)) \<Rightarrow> readn_loop n (got @ c # s) evs)
     else (evs, int (length got), got))"
  by pat_completeness auto
termination by (relation "measure (\<lambda>(n, got, evs). n - length got)") auto

declare readn_loop.simps [simp del]

definition readn :: "nat \<Rightarrow> event list \<Rightarrow> event list \<times> int \<times> string" where
  "readn n evs = readn_loop n [] evs"

section \<open>Writing exactly n bytes\<close>

function writen_loop :: "nat \<Rightarrow> string \<Rightarrow> string \<Rightarrow> int list \<Rightarrow> int list \<times> int \<times> string" where
  "writen_loop n sent left ws =
    (if left = [] then (ws, int (length sent), sent)
     else case sys_write left ws of (ws, w) \<Rightarrow>
       if w < 0 then (ws, if sent = [] then -1 else int (length sent), sent)
       else if w = 0 then (ws, int (length sent), sent)
       else writen_loop n (sent @ take (nat w) left) (drop (nat w) left) ws)"
  by pat_completeness auto
termination by (relation "measure (\<lambda>(n, sent, left, ws). length left)") auto

declare writen_loop.simps [simp del]

definition writen :: "string \<Rightarrow> int list \<Rightarrow> int list \<times> int \<times> string" where
  "writen buf ws = writen_loop (length buf) [] buf ws"

section \<open>Timed reads\<close>

fun tread :: "nat \<Rightarrow> event list \<Rightarrow> event list \<times> (nat + string)" where
  "tread n (Timeout # evs) = (evs, Inl ETIME)"
| "tread n (Serr e # evs) = (evs, Inl e)"
| "tread n evs = sys_read n evs"

function treadn_loop :: "nat \<Rightarrow> string \<Rightarrow> event list \<Rightarrow> event list \<times> int \<times> string" where
  "treadn_loop n got evs =
    (if length got < n then
       (case tread (n - length got) evs of
          (evs, Inl e) \<Rightarrow> (evs, if got = [] then -1 else int (length got), got)
        | (evs, Inr []) \<Rightarrow> (evs, int (length got), got)
        | (evs, Inr (c # s)) \<Rightarrow> treadn_loop n (got @ c # s) evs)
     else (evs, int (length got), got))"
  by pat_completeness auto
termination by (relation "measure (\<lambda>(n, got, evs). n - length got)") auto

declare treadn_loop.simps [simp del]

definition treadn :: "nat \<Rightarrow> event list \<Rightarrow> event list \<times> int \<times> string" where
  "treadn n evs = treadn_loop n [] evs"

section \<open>Connecting\<close>

text \<open>
  \<open>sock\<close> and \<open>conn\<close> give the results of the attempts in order (\<^verbatim>\<open>socket\<close>: the descriptor or -1,
  \<^verbatim>\<open>connect\<close>: success). The result is the descriptor or -1, the seconds slept and the descriptors
  closed again.
\<close>

definition MAXSLEEP :: nat where "MAXSLEEP = 128"

function connect_loop :: "nat \<Rightarrow> nat \<Rightarrow> nat \<Rightarrow> int list \<Rightarrow> (nat \<Rightarrow> int) \<Rightarrow> (nat \<Rightarrow> bool) \<Rightarrow> int \<times> nat \<times> int list" where
  "connect_loop i numsec slept shut sock conn =
    (if numsec = 0 \<or> numsec > MAXSLEEP then (-1, slept, shut)
     else if sock i < 0 then (-1, slept, shut)
     else if conn i then (sock i, slept, shut)
     else connect_loop (Suc i) (2 * numsec) (if numsec \<le> MAXSLEEP div 2 then slept + numsec else slept)
            (shut @ [sock i]) sock conn)"
  by pat_completeness auto
termination by (relation "measure (\<lambda>(i, numsec, _). if numsec = 0 then 0 else Suc MAXSLEEP - numsec)") auto

declare connect_loop.simps [simp del]

definition connect_retry :: "(nat \<Rightarrow> int) \<Rightarrow> (nat \<Rightarrow> bool) \<Rightarrow> int \<times> nat \<times> int list" where
  "connect_retry sock conn = connect_loop 0 1 0 [] sock conn"

section \<open>Splitting a line into arguments\<close>

definition white :: "char \<Rightarrow> bool" where
  "white c \<longleftrightarrow> c = CHR '' '' \<or> c = CHR 0x09 \<or> c = NEWLINE"

definition MAXARGC :: nat where "MAXARGC = 50"

text \<open>\<^verbatim>\<open>strtok\<close>: the next token and where the search goes on.\<close>

definition strtok_by :: "(char \<Rightarrow> bool) \<Rightarrow> string \<Rightarrow> (string \<times> string) option" where
  "strtok_by sep s = (let t = dropWhile sep s in
     if t = [] then None else Some (takeWhile (\<lambda>c. \<not> sep c) t, tl (dropWhile (\<lambda>c. \<not> sep c) t)))"

abbreviation strtok :: "string \<Rightarrow> (string \<times> string) option" where
  "strtok \<equiv> strtok_by white"

lemmas strtok_def = strtok_by_def [where sep = white]

lemma strtok_shorter: "strtok_by sep s = Some (t, r) \<Longrightarrow> length r < length s"
proof -
  assume "strtok_by sep s = Some (t, r)"
  then have "dropWhile sep s \<noteq> []" "r = tl (dropWhile (\<lambda>c. \<not> sep c) (dropWhile sep s))"
    by (auto simp: strtok_by_def Let_def split: if_splits)
  moreover have "length (dropWhile sep s) \<le> length s" by (rule length_dropWhile_le)
  moreover have "length (dropWhile (\<lambda>c. \<not> sep c) (dropWhile sep s)) \<le> length (dropWhile sep s)"
    by (rule length_dropWhile_le)
  ultimately show ?thesis by (cases "dropWhile sep s") auto
qed

function args_loop :: "nat \<Rightarrow> string list \<Rightarrow> string \<Rightarrow> string list option" where
  "args_loop argc argv s = (case strtok s of
      None \<Rightarrow> Some argv
    | Some (t, r) \<Rightarrow> if Suc argc \<ge> MAXARGC - 1 then None else args_loop (Suc argc) (argv @ [t]) r)"
  by pat_completeness auto
termination by (relation "measure (\<lambda>(argc, argv, s). length s)") (auto dest: strtok_shorter)

declare args_loop.simps [simp del]

text \<open>
  The string at \<^verbatim>\<open>buf\<close> after the first \<^verbatim>\<open>strtok\<close> has put a null byte behind the first token: it
  still begins with whatever white space preceded the token.
\<close>

definition first_arg :: "string \<Rightarrow> string \<Rightarrow> string" where
  "first_arg buf t = takeWhile white buf @ t"

definition buf_argv :: "string \<Rightarrow> string list option" where
  "buf_argv buf = (case strtok buf of
      None \<Rightarrow> None
    | Some (t, r) \<Rightarrow> args_loop 0 [first_arg buf t] r)"

definition buf_args :: "string \<Rightarrow> (string list \<Rightarrow> int) \<Rightarrow> int" where
  "buf_args buf optfunc = (case buf_argv buf of None \<Rightarrow> -1 | Some argv \<Rightarrow> optfunc argv)"

section \<open>A measure for loops that read to the end\<close>

fun ev_size :: "event list \<Rightarrow> nat" where
  "ev_size [] = 0"
| "ev_size (Bytes s # es) = Suc (length s) + ev_size es"
| "ev_size (_ # es) = Suc (ev_size es)"

lemma sys_read_size: "sys_read n es = (es', Inr (c # s)) \<Longrightarrow> 0 < n \<Longrightarrow> ev_size es' < ev_size es"
  by (induction n es rule: sys_read.induct) (auto split: if_splits)

lemma tread_size: "tread n es = (es', Inr (c # s)) \<Longrightarrow> 0 < n \<Longrightarrow> ev_size es' < ev_size es"
  by (cases "(n, es)" rule: tread.cases) (auto dest: sys_read_size split: if_splits)

lemma sys_read_size_err: "sys_read n es = (es', Inl e) \<Longrightarrow> ev_size es' < ev_size es"
  by (induction n es rule: sys_read.induct) (auto split: if_splits)

end
