(* ===== verification/Io_Spec.thy ===== *)
theory Io_Spec
  imports Io
begin

text \<open>
  What the library's I/O wrappers promise. \<^verbatim>\<open>readn\<close> and \<^verbatim>\<open>treadn\<close> are the same loop over two ways to
  read, so their contract is proved once in a locale and interpreted twice.
\<close>

section \<open>Reading n bytes\<close>

fun no_empty :: "event list \<Rightarrow> bool" where
  "no_empty [] \<longleftrightarrow> True"
| "no_empty (Bytes s # evs) \<longleftrightarrow> s \<noteq> [] \<and> no_empty evs"
| "no_empty (_ # evs) \<longleftrightarrow> no_empty evs"

text \<open>The bytes a plain or a timed reader gets before it meets the end or an error.\<close>

fun avail :: "event list \<Rightarrow> string" where
  "avail (Bytes s # evs) = s @ avail evs"
| "avail (Timeout # evs) = avail evs"
| "avail (Serr e # evs) = avail evs"
| "avail _ = []"

fun breaks :: "event list \<Rightarrow> bool" where
  "breaks (Bytes s # evs) \<longleftrightarrow> breaks evs"
| "breaks (Timeout # evs) \<longleftrightarrow> breaks evs"
| "breaks (Serr e # evs) \<longleftrightarrow> breaks evs"
| "breaks (Rerr e # evs) \<longleftrightarrow> True"
| "breaks _ \<longleftrightarrow> False"

fun tavail :: "event list \<Rightarrow> string" where
  "tavail (Bytes s # evs) = s @ tavail evs"
| "tavail _ = []"

fun tbreaks :: "event list \<Rightarrow> bool" where
  "tbreaks (Bytes s # evs) \<longleftrightarrow> tbreaks evs"
| "tbreaks (Eof # evs) \<longleftrightarrow> False"
| "tbreaks [] \<longleftrightarrow> False"
| "tbreaks _ \<longleftrightarrow> True"

locale exact_reader =
  fixes rd :: "nat \<Rightarrow> event list \<Rightarrow> event list \<times> (nat + string)"
    and loop :: "nat \<Rightarrow> string \<Rightarrow> event list \<Rightarrow> event list \<times> int \<times> string"
    and av :: "event list \<Rightarrow> string"
    and bad :: "event list \<Rightarrow> bool"
  assumes loop: "loop n got evs =
    (if length got < n then
       (case rd (n - length got) evs of
          (evs, Inl e) \<Rightarrow> (evs, if got = [] then -1 else int (length got), got)
        | (evs, Inr []) \<Rightarrow> (evs, int (length got), got)
        | (evs, Inr (c # s)) \<Rightarrow> loop n (got @ c # s) evs)
     else (evs, int (length got), got))"
    and rd_some: "no_empty evs \<Longrightarrow> av evs \<noteq> [] \<Longrightarrow> 0 < k \<Longrightarrow>
      \<exists>evs' s. rd k evs = (evs', Inr s) \<and> s \<noteq> [] \<and> length s \<le> k \<and> av evs = s @ av evs' \<and>
        no_empty evs' \<and> bad evs' = bad evs"
    and rd_bad: "no_empty evs \<Longrightarrow> av evs = [] \<Longrightarrow> bad evs \<Longrightarrow> \<exists>e evs'. rd k evs = (evs', Inl e)"
    and rd_end: "no_empty evs \<Longrightarrow> av evs = [] \<Longrightarrow> \<not> bad evs \<Longrightarrow> \<exists>evs'. rd k evs = (evs', Inr []) \<and> av evs' = []"
begin

lemma loop_reads:
  "no_empty evs \<Longrightarrow> length got \<le> n \<Longrightarrow>
    \<exists>evs'. loop n got evs =
      (evs', if n = 0 \<or> got @ av evs \<noteq> [] \<or> \<not> bad evs then int (length (got @ take (n - length got) (av evs))) else -1,
       got @ take (n - length got) (av evs)) \<and>
      (n \<le> length (got @ av evs) \<longrightarrow> av evs' = drop (n - length got) (av evs) \<and> no_empty evs' \<and> bad evs' = bad evs)"
proof (induction "n - length got" arbitrary: got evs rule: less_induct)
  case less
  show ?case
  proof (cases "length got < n")
    case False
    then show ?thesis using less.prems by (subst loop) auto
  next
    case lt: True
    show ?thesis
    proof (cases "av evs = []")
      case True
      show ?thesis
      proof (cases "bad evs")
        case b: True
        obtain e evs' where "rd (n - length got) evs = (evs', Inl e)" using rd_bad [OF less.prems(1) True b] by blast
        then show ?thesis using lt True b by (subst loop) auto
      next
        case b: False
        obtain evs' where "rd (n - length got) evs = (evs', Inr [])" using rd_end [OF less.prems(1) True b] by blast
        then show ?thesis using lt True b by (subst loop) auto
      qed
    next
      case False
      obtain evs1 s where r: "rd (n - length got) evs = (evs1, Inr s)" "s \<noteq> []" "length s \<le> n - length got"
        "av evs = s @ av evs1" "no_empty evs1" "bad evs1 = bad evs"
        using rd_some [OF less.prems(1) False, of "n - length got"] lt by auto
      have st: "loop n got evs = loop n (got @ s) evs1" using lt r(1,2) by (subst loop) (auto split: list.split)
      have m: "n - length (got @ s) < n - length got" "length (got @ s) \<le> n" using r(2,3) lt by (cases s; simp)+
      from less.hyps [OF m(1) r(5) m(2)] obtain evs' where e:
        "loop n (got @ s) evs1 = (evs', if n = 0 \<or> (got @ s) @ av evs1 \<noteq> [] \<or> \<not> bad evs1
           then int (length ((got @ s) @ take (n - length (got @ s)) (av evs1))) else -1,
         (got @ s) @ take (n - length (got @ s)) (av evs1))"
        "n \<le> length ((got @ s) @ av evs1) \<longrightarrow> av evs' = drop (n - length (got @ s)) (av evs1) \<and> no_empty evs' \<and> bad evs' = bad evs1"
        by blast
      have t: "(got @ s) @ take (n - length (got @ s)) (av evs1) = got @ take (n - length got) (av evs)"
        "drop (n - length (got @ s)) (av evs1) = drop (n - length got) (av evs)"
        "(got @ s) @ av evs1 = got @ av evs" using r(3,4) by simp_all
      show ?thesis using e unfolding st t r(6) by blast
    qed
  qed
qed

lemma reads:
  assumes "no_empty evs"
  shows "\<exists>evs'. loop n [] evs = (evs', if n = 0 \<or> av evs \<noteq> [] \<or> \<not> bad evs then int (length (take n (av evs))) else -1,
      take n (av evs)) \<and> (n \<le> length (av evs) \<longrightarrow> av evs' = drop n (av evs) \<and> no_empty evs')"
  using loop_reads [OF assms, of "[]" n] by auto

end

lemma sys_read_some:
  "no_empty evs \<Longrightarrow> avail evs \<noteq> [] \<Longrightarrow> 0 < k \<Longrightarrow>
    \<exists>evs' s. sys_read k evs = (evs', Inr s) \<and> s \<noteq> [] \<and> length s \<le> k \<and> avail evs = s @ avail evs' \<and>
      no_empty evs' \<and> breaks evs' = breaks evs"
  by (induction k evs rule: sys_read.induct) auto

lemma sys_read_bad: "no_empty evs \<Longrightarrow> avail evs = [] \<Longrightarrow> breaks evs \<Longrightarrow> \<exists>e evs'. sys_read k evs = (evs', Inl e)"
  by (induction k evs rule: sys_read.induct) auto

lemma sys_read_end:
  "no_empty evs \<Longrightarrow> avail evs = [] \<Longrightarrow> \<not> breaks evs \<Longrightarrow> \<exists>evs'. sys_read k evs = (evs', Inr []) \<and> avail evs' = []"
  by (induction k evs rule: sys_read.induct) auto

interpretation rn: exact_reader sys_read readn_loop avail breaks
  by unfold_locales (rule readn_loop.simps, fact sys_read_some, fact sys_read_bad, fact sys_read_end)

lemma tread_Bytes:
  "s \<noteq> [] \<Longrightarrow> tread k (Bytes s # evs) = (if length s \<le> k then (evs, Inr s) else (Bytes (drop k s) # evs, Inr (take k s)))"
  by simp

interpretation tn: exact_reader tread treadn_loop tavail tbreaks
proof (unfold_locales, rule treadn_loop.simps)
  fix evs :: "event list" and k :: nat
  show "\<exists>evs' s. tread k evs = (evs', Inr s) \<and> s \<noteq> [] \<and> length s \<le> k \<and> tavail evs = s @ tavail evs' \<and>
      no_empty evs' \<and> tbreaks evs' = tbreaks evs" if "no_empty evs" "tavail evs \<noteq> []" "0 < k"
    using that by (cases evs rule: tavail.cases) auto
  show "\<exists>e evs'. tread k evs = (evs', Inl e)" if "no_empty evs" "tavail evs = []" "tbreaks evs"
    using that by (cases evs rule: tbreaks.cases) auto
  show "\<exists>evs'. tread k evs = (evs', Inr []) \<and> tavail evs' = []" if "no_empty evs" "tavail evs = []" "\<not> tbreaks evs"
    using that by (cases evs rule: tbreaks.cases) auto
qed

section \<open>Writing n bytes\<close>

lemma writen_loop_prefix:
  "\<exists>ws' ret s r. writen_loop n sent left ws = (ws', ret, sent @ s) \<and> left = s @ r \<and>
    (ret = int (length (sent @ s)) \<or> ret = -1 \<and> sent @ s = [] \<and> left \<noteq> [])"
proof (induction n sent left ws rule: writen_loop.induct)
  case (1 n sent left ws)
  show ?case
  proof (cases "left = []")
    case True
    then show ?thesis by (subst writen_loop.simps) simp
  next
    case False
    obtain ws1 w where w: "sys_write left ws = (ws1, w)" by fastforce
    show ?thesis
    proof (cases "w \<le> 0")
      case True
      then show ?thesis using False w by (subst writen_loop.simps) auto
    next
      case pos: False
      then have e: "writen_loop n sent left ws = writen_loop n (sent @ take (nat w) left) (drop (nat w) left) ws1"
        using False w by (subst writen_loop.simps) simp
      from "1.IH" [OF False w [symmetric]] pos obtain ws' ret s r where i:
        "writen_loop n (sent @ take (nat w) left) (drop (nat w) left) ws1 = (ws', ret, (sent @ take (nat w) left) @ s)"
        "drop (nat w) left = s @ r"
        "ret = int (length ((sent @ take (nat w) left) @ s)) \<or> ret = -1 \<and> (sent @ take (nat w) left) @ s = [] \<and> drop (nat w) left \<noteq> []"
        by auto
      have "left = (take (nat w) left @ s) @ r" using i(2) by (metis append.assoc append_take_drop_id)
      moreover have "take (nat w) left \<noteq> []" using False pos by simp
      ultimately show ?thesis using e i
        by (intro exI [of _ ws'] exI [of _ ret] exI [of _ "take (nat w) left @ s"] exI [of _ r]) auto
    qed
  qed
qed

lemma writen_loop_all:
  "\<forall>w \<in> set ws. 0 < w \<Longrightarrow> \<exists>ws'. writen_loop n sent left ws = (ws', int (length (sent @ left)), sent @ left)"
proof (induction n sent left ws rule: writen_loop.induct)
  case (1 n sent left ws)
  show ?case
  proof (cases "left = []")
    case True
    then show ?thesis by (subst writen_loop.simps) simp
  next
    case False
    obtain ws1 w where w: "sys_write left ws = (ws1, w)" by fastforce
    have pos: "0 < w" "\<forall>w \<in> set ws1. 0 < w" using w False "1.prems" by (cases ws; auto)+
    then have "writen_loop n sent left ws = writen_loop n (sent @ take (nat w) left) (drop (nat w) left) ws1"
      using False w by (subst writen_loop.simps) simp
    moreover have "\<exists>ws'. writen_loop n (sent @ take (nat w) left) (drop (nat w) left) ws1 = (ws', int (length (sent @ left)), sent @ left)"
      using "1.IH" [OF False w [symmetric] _ _ pos(2)] pos(1) by simp
    ultimately show ?thesis by simp
  qed
qed

section \<open>Connecting\<close>

text \<open>The waiting times double, so there are at most eight attempts.\<close>

lemma connect_loop_sim:
  assumes "numsec = 2 ^ i" "i \<le> 8" "slept = 2 ^ min i 7 - 1"
  shows "\<exists>j. i \<le> j \<and> j \<le> 8 \<and> (\<forall>k. i \<le> k \<and> k < j \<longrightarrow> 0 \<le> sock k \<and> \<not> conn k) \<and>
    (j < 8 \<longrightarrow> sock j < 0 \<or> conn j) \<and>
    connect_loop i numsec slept shut sock conn =
      (if j < 8 \<and> 0 \<le> sock j then sock j else -1, 2 ^ min j 7 - 1, shut @ map sock [i..<j])"
  using assms
proof (induction "8 - i" arbitrary: i numsec slept shut)
  case 0
  then have "i = 8" by simp
  then show ?case using 0 by (intro exI [of _ 8]) (auto simp: connect_loop.simps MAXSLEEP_def)
next
  case (Suc n)
  then have i: "i < 8" by simp
  have le: "numsec \<le> MAXSLEEP"
  proof -
    have "(2::nat) ^ i \<le> 2 ^ 7" using i by (intro power_increasing) auto
    then show ?thesis using Suc.prems by (simp add: MAXSLEEP_def)
  qed
  show ?case
  proof (cases "sock i < 0 \<or> conn i")
    case True
    then show ?thesis using i le Suc.prems
      by (intro exI [of _ i]) (subst connect_loop.simps, auto simp: min_def)
  next
    case False
    let ?s = "if numsec \<le> MAXSLEEP div 2 then slept + numsec else slept"
    have s: "?s = 2 ^ min (Suc i) 7 - 1"
    proof (cases "i < 7")
      case True
      then have "(2::nat) ^ i \<le> 2 ^ 6" by (intro power_increasing) auto
      then show ?thesis using True Suc.prems by (simp add: MAXSLEEP_def min_def)
    next
      case i7: False
      then have "i = 7" using i by simp
      then show ?thesis using Suc.prems by (simp add: MAXSLEEP_def)
    qed
    have st: "connect_loop i numsec slept shut sock conn = connect_loop (Suc i) (2 * numsec) ?s (shut @ [sock i]) sock conn"
      using False le Suc.prems by (subst connect_loop.simps) auto
    have pre: "n = 8 - Suc i" "2 * numsec = 2 ^ Suc i" "Suc i \<le> 8" using Suc.hyps(2) Suc.prems(1) i by simp_all
    from Suc.hyps(1) [OF pre s, of "shut @ [sock i]"] obtain j where j:
      "Suc i \<le> j" "j \<le> 8" "\<forall>k. Suc i \<le> k \<and> k < j \<longrightarrow> 0 \<le> sock k \<and> \<not> conn k" "j < 8 \<longrightarrow> sock j < 0 \<or> conn j"
      "connect_loop (Suc i) (2 * numsec) ?s (shut @ [sock i]) sock conn =
        (if j < 8 \<and> 0 \<le> sock j then sock j else -1, 2 ^ min j 7 - 1, (shut @ [sock i]) @ map sock [Suc i..<j])"
      by blast
    have "\<forall>k. i \<le> k \<and> k < j \<longrightarrow> 0 \<le> sock k \<and> \<not> conn k" using j(3) False by (metis Suc_leI le_neq_implies_less not_less)
    moreover have "[i..<j] = i # [Suc i..<j]" using j(1) by (intro upt_conv_Cons) simp
    ultimately show ?thesis using j st by (intro exI [of _ j]) simp
  qed
qed

section \<open>Arguments\<close>

text \<open>\<^verbatim>\<open>strtok\<close> on a word that a separator or the end follows.\<close>

lemma strtok_word: "w \<noteq> [] \<Longrightarrow> \<forall>c \<in> set w. \<not> sep c \<Longrightarrow> sep c \<Longrightarrow> strtok_by sep (w @ c # r) = Some (w, r)"
  by (cases w) (auto simp: strtok_by_def Let_def takeWhile_append dropWhile_append)

lemma strtok_last: "w \<noteq> [] \<Longrightarrow> \<forall>c \<in> set w. \<not> sep c \<Longrightarrow> strtok_by sep w = Some (w, [])"
proof -
  assume a: "w \<noteq> []" "\<forall>c \<in> set w. \<not> sep c"
  have d: "dropWhile sep w = w" using a by (cases w) simp_all
  have t: "takeWhile (\<lambda>c. \<not> sep c) w = w" "dropWhile (\<lambda>c. \<not> sep c) w = []" using a by simp_all
  show ?thesis unfolding strtok_by_def Let_def d t using a by simp
qed

fun tokens :: "nat \<Rightarrow> string \<Rightarrow> string list" where
  "tokens 0 s = []"
| "tokens (Suc n) s = (case strtok s of None \<Rightarrow> [] | Some (t, r) \<Rightarrow> t # tokens n r)"

text \<open>The white-space separated words of a string; its length bounds their number.\<close>

definition split_white :: "string \<Rightarrow> string list" where
  "split_white s = tokens (length s) s"

lemma tokens_fuel: "length s \<le> n \<Longrightarrow> tokens n s = tokens (length s) s"
proof (induction n arbitrary: s rule: less_induct)
  case (less n)
  show ?case
  proof (cases "strtok s")
    case None
    then show ?thesis by (cases n; cases "length s") simp_all
  next
    case (Some p)
    obtain t r where p: "strtok s = Some (t, r)" using Some by (cases p) auto
    have l: "length r < length s" using strtok_shorter [OF p] .
    obtain m k where mk: "n = Suc m" "length s = Suc k" using l less.prems by (cases n; cases "length s") auto
    have "tokens m r = tokens (length r) r" using l mk less.prems by (intro less.IH) auto
    moreover have "tokens k r = tokens (length r) r"
    proof (cases "k < n")
      case True
      then show ?thesis using l mk by (intro less.IH) auto
    qed (use mk less.prems in simp)
    ultimately show ?thesis using p mk by simp
  qed
qed

lemma split_white_strtok:
  "split_white s = (case strtok s of None \<Rightarrow> [] | Some (t, r) \<Rightarrow> t # split_white r)"
proof (cases "strtok s")
  case None
  then show ?thesis by (cases "length s") (simp_all add: split_white_def)
next
  case (Some p)
  obtain t r where p: "strtok s = Some (t, r)" using Some by (cases p) auto
  have "length r < length s" using strtok_shorter [OF p] .
  then obtain k where "length s = Suc k" "length r \<le> k" by (cases "length s") auto
  then show ?thesis using p tokens_fuel [of r k] by (simp add: split_white_def)
qed

lemma args_loop_ok:
  "argc \<le> MAXARGC - 2 \<Longrightarrow> args_loop argc argv s =
    (if argc + length (split_white s) \<le> MAXARGC - 2 then Some (argv @ split_white s) else None)"
proof (induction argc argv s rule: args_loop.induct)
  case (1 argc argv s)
  show ?case
  proof (cases "strtok s")
    case None
    then show ?thesis using "1.prems" by (subst args_loop.simps) (simp add: split_white_strtok [of s])
  next
    case (Some p)
    obtain t r where p: "strtok s = Some (t, r)" using Some by (cases p) auto
    show ?thesis
    proof (cases "Suc argc \<ge> MAXARGC - 1")
      case True
      then show ?thesis using p "1.prems" by (subst args_loop.simps) (simp add: split_white_strtok [of s] MAXARGC_def)
    next
      case False
      then have "Suc argc \<le> MAXARGC - 2" by (simp add: MAXARGC_def)
      from "1.IH" [OF p refl False this] False show ?thesis
        using p by (subst args_loop.simps) (simp add: split_white_strtok [of s])
    qed
  qed
qed

section \<open>Properties\<close>

text \<open>
  \<^verbatim>\<open>readn\<close> delivers the next \<open>n\<close> bytes of the stream, or all there are before the end or an error,
  however they are cut into pieces; it returns their number, and -1 only for an error before the
  first byte. What it did not take is left for the next call.
\<close>

theorem readn_correct:
  assumes "no_empty evs"
  shows "\<exists>evs'. readn n evs = (evs', if n = 0 \<or> avail evs \<noteq> [] \<or> \<not> breaks evs then int (length (take n (avail evs))) else -1,
      take n (avail evs)) \<and> (n \<le> length (avail evs) \<longrightarrow> avail evs' = drop n (avail evs))"
  using rn.reads [OF assms, of n] unfolding readn_def by auto

theorem readn_correct_witness:
  "\<exists>evs'. readn 4 [Bytes ''ab'', Bytes ''cdef'', Eof] = (evs', 4, ''abcd'') \<and> avail evs' = ''ef''"
  using readn_correct [of "[Bytes ''ab'', Bytes ''cdef'', Eof]" 4] by auto

text \<open>
  \<^verbatim>\<open>writen\<close> sends a prefix of the buffer and returns its length, or -1 when nothing was sent;
  if no \<^verbatim>\<open>write\<close> fails or writes nothing, it sends the whole buffer, however short the writes are.
\<close>

theorem writen_correct:
  "\<exists>ws' ret s r. writen buf ws = (ws', ret, s) \<and> buf = s @ r \<and>
    (ret = int (length s) \<or> ret = -1 \<and> s = [] \<and> buf \<noteq> []) \<and> (list_all (\<lambda>w. 0 < w) ws \<longrightarrow> s = buf)"
proof -
  obtain ws' ret s r where w: "writen_loop (length buf) [] buf ws = (ws', ret, s)" "buf = s @ r"
    "ret = int (length s) \<or> ret = -1 \<and> s = [] \<and> buf \<noteq> []"
    using writen_loop_prefix [of "length buf" "[]" buf ws] unfolding append_Nil by blast
  have "s = buf" if "list_all (\<lambda>w. 0 < w) ws"
    using writen_loop_all [of ws "length buf" "[]" buf] w(1) that by (auto simp: list_all_iff)
  then show ?thesis using w by (intro exI [of _ ws'] exI [of _ ret] exI [of _ s] exI [of _ r]) (auto simp: writen_def)
qed

theorem writen_correct_witness: "\<exists>ws' ret. writen ''hello'' [2, 1] = (ws', ret, ''hello'')"
  using writen_correct [of "''hello''" "[2, 1]"] by auto

text \<open>
  \<^verbatim>\<open>connect_retry\<close> tries at most eight times, sleeps at most 127 seconds in all, returns the
  descriptor of the first attempt that connects, and closes the descriptor of every failed one.
\<close>

theorem connect_retry_correct:
  "\<exists>j \<le> 8. list_all (\<lambda>k. 0 \<le> sock k \<and> \<not> conn k) [0..<j] \<and>
    connect_retry sock conn = (if j < 8 \<and> 0 \<le> sock j then sock j else -1, 2 ^ min j 7 - 1, map sock [0..<j]) \<and>
    (if j < 8 then sock j < 0 \<or> conn j else True)"
proof -
  obtain j where "0 \<le> j" "j \<le> 8" "\<forall>k. 0 \<le> k \<and> k < j \<longrightarrow> 0 \<le> sock k \<and> \<not> conn k" "j < 8 \<longrightarrow> sock j < 0 \<or> conn j"
    "connect_loop 0 1 0 [] sock conn = (if j < 8 \<and> 0 \<le> sock j then sock j else -1, 2 ^ min j 7 - 1, [] @ map sock [0..<j])"
    using connect_loop_sim [of 1 0 0 sock conn "[]"] by auto
  then show ?thesis by (intro exI [of _ j]) (auto simp: connect_retry_def list_all_iff)
qed

text \<open>The words of a line that does not begin with white space.\<close>

lemma buf_argv_words:
  assumes "buf = [] \<or> white (hd buf) = False"
  shows "buf_argv buf = (if split_white buf = [] \<or> length (split_white buf) > 49 then None else Some (split_white buf))"
proof (cases "strtok buf")
  case None
  then show ?thesis by (simp add: buf_argv_def split_white_strtok [of buf])
next
  case (Some p)
  obtain t r where p: "strtok buf = Some (t, r)" using Some by (cases p) auto
  have "buf \<noteq> []" using p by (auto simp: strtok_def)
  then have "takeWhile white buf = []" using assms by (cases buf) auto
  then have f: "first_arg buf t = t" by (simp add: first_arg_def)
  have "args_loop 0 [t] r = (if length (split_white r) \<le> 48 then Some (t # split_white r) else None)"
    using args_loop_ok [of 0 "[t]" r] by (simp add: MAXARGC_def)
  then show ?thesis using p f by (simp add: buf_argv_def split_white_strtok [of buf])
qed

text \<open>
  \<^verbatim>\<open>buf_args\<close> on a line that does not begin with white space calls the function with the words
  of the line, and returns -1 for a line without words or with more than 49 of them.
\<close>

theorem buf_args_correct:
  assumes "buf = [] \<or> white (hd buf) = False"
  shows "buf_args buf f = (if split_white buf = [] \<or> length (split_white buf) > 49 then -1 else f (split_white buf))"
  by (simp add: buf_args_def buf_argv_words [OF assms])

theorem buf_args_correct_witness: "buf_args ''open  f r'' (\<lambda>argv. int (length argv)) = 3"
proof -
  have "split_white ''open  f r'' = [''open'', ''f'', ''r'']"
    by (simp add: split_white_def strtok_def white_def Let_def)
  then show ?thesis using buf_args_correct [of "''open  f r''" "\<lambda>argv. int (length argv)"] by (simp add: white_def)
qed

text \<open>
  On a line that begins with white space \<^verbatim>\<open>buf_args\<close> passes the white space on as part of the
  first argument: the code stores \<^verbatim>\<open>buf\<close>, not the pointer \<^verbatim>\<open>strtok\<close> returned.
\<close>

theorem buf_args_leading_white: "buf_args '' quit'' (\<lambda>argv. if argv = ['' quit''] then 7 else 0) = 7"
proof -
  have "strtok '' quit'' = Some (''quit'', [])" by (simp add: strtok_def white_def Let_def)
  moreover have "args_loop 0 ['' quit''] [] = Some ['' quit'']" by (simp add: args_loop.simps strtok_def)
  ultimately show ?thesis by (simp add: buf_args_def buf_argv_def first_arg_def white_def)
qed

end
