(* ===== verification/DList.thy ===== *)
theory DList
  imports Prelude
begin

text \<open>
  Doubly linked lists in a heap: \<open>nx\<close> and \<open>pv\<close> are the next and previous pointers, 0 is \<^verbatim>\<open>NULL\<close>.
  \<open>seg nx pv p h xs q t\<close> is a segment with nodes \<open>xs\<close> that starts at \<open>h\<close> behind \<open>p\<close> and ends at \<open>t\<close>
  before \<open>q\<close>. The lemmas cover the pointer updates of the C code: push at either end and unlinking
  a node anywhere.
\<close>

fun seg :: "(nat \<Rightarrow> nat) \<Rightarrow> (nat \<Rightarrow> nat) \<Rightarrow> nat \<Rightarrow> nat \<Rightarrow> nat list \<Rightarrow> nat \<Rightarrow> nat \<Rightarrow> bool" where
  "seg nx pv p h [] q t \<longleftrightarrow> h = q \<and> t = p"
| "seg nx pv p h (x # xs) q t \<longleftrightarrow> h = x \<and> x \<noteq> 0 \<and> pv x = p \<and> seg nx pv x (nx x) xs q t"

definition dlist :: "(nat \<Rightarrow> nat) \<Rightarrow> (nat \<Rightarrow> nat) \<Rightarrow> nat \<Rightarrow> nat \<Rightarrow> nat list \<Rightarrow> bool" where
  "dlist nx pv h t xs \<longleftrightarrow> seg nx pv 0 h xs 0 t \<and> distinct xs"

text \<open>A singly traversed list: what following the next pointers from \<open>h\<close> finds.\<close>

fun chain :: "(nat \<Rightarrow> nat) \<Rightarrow> nat \<Rightarrow> nat list \<Rightarrow> bool" where
  "chain nx h [] \<longleftrightarrow> h = 0"
| "chain nx h (x # xs) \<longleftrightarrow> h = x \<and> x \<noteq> 0 \<and> chain nx (nx x) xs"

lemma seg_append:
  "seg nx pv p h (xs @ ys) q t \<longleftrightarrow> (\<exists>m u. seg nx pv p h xs m u \<and> seg nx pv u m ys q t)"
  by (induction xs arbitrary: p h) auto

lemma seg_cong:
  "(\<And>x. x \<in> set xs \<Longrightarrow> nx' x = nx x \<and> pv' x = pv x) \<Longrightarrow> seg nx' pv' p h xs q t = seg nx pv p h xs q t"
  by (induction xs arbitrary: p h) auto

lemma seg_nonzero: "seg nx pv p h xs q t \<Longrightarrow> 0 \<notin> set xs"
  by (induction xs arbitrary: p h) auto

lemma seg_ends: "seg nx pv p h xs q t \<Longrightarrow> xs \<noteq> [] \<Longrightarrow> h = hd xs \<and> t = last xs"
  by (induction xs arbitrary: p h) auto

lemma dlist_nonzero: "dlist nx pv h t xs \<Longrightarrow> 0 \<notin> set xs"
  unfolding dlist_def using seg_nonzero by blast

lemma dlist_head: "dlist nx pv h t xs \<Longrightarrow> h = 0 \<longleftrightarrow> xs = []"
  by (cases xs) (auto simp: dlist_def)

lemma dlist_hd: "dlist nx pv h t (x # xs) \<Longrightarrow> h = x"
  by (simp add: dlist_def)

lemma dlist_tail: "dlist nx pv h t xs \<Longrightarrow> t = 0 \<longleftrightarrow> xs = []"
proof
  assume d: "dlist nx pv h t xs" and t: "t = 0"
  show "xs = []"
  proof (rule ccontr)
    assume "xs \<noteq> []"
    then have "t \<in> set xs" using d seg_ends [of nx pv 0 h xs 0 t] by (simp add: dlist_def)
    then show False using dlist_nonzero [OF d] t by simp
  qed
qed (simp add: dlist_def)

lemma dlist_chain: "dlist nx pv h t xs \<Longrightarrow> chain nx h xs"
proof -
  have "seg nx pv p h xs 0 t \<Longrightarrow> chain nx h xs" for p by (induction xs arbitrary: p h) auto
  then show "dlist nx pv h t xs \<Longrightarrow> chain nx h xs" by (auto simp: dlist_def)
qed

lemma chain_nonzero: "chain nx h q \<Longrightarrow> 0 \<notin> set q"
  by (induction q arbitrary: h) auto

lemma chain_unique: "chain nx h xs \<Longrightarrow> chain nx h ys \<Longrightarrow> xs = ys"
proof (induction xs arbitrary: h ys)
  case Nil
  then show ?case by (cases ys) auto
next
  case (Cons x xs)
  then show ?case by (cases ys) auto
qed

lemma chain_cong: "(\<And>x. x \<in> set xs \<Longrightarrow> nx' x = nx x) \<Longrightarrow> chain nx' h xs = chain nx h xs"
  by (induction xs arbitrary: h) auto

section \<open>Updates\<close>

lemma seg_snoc:
  assumes "seg nx pv p h xs q t" "x \<notin> set xs" "x \<noteq> 0" "distinct xs" "xs \<noteq> []"
  shows "seg (nx(x := r, t := x)) (pv(x := t)) p h (xs @ [x]) r x"
proof -
  have t: "t = last xs" "t \<in> set xs" using seg_ends [OF assms(1,5)] assms(5) by auto
  have "seg (nx(x := r, t := x)) (pv(x := t)) p h xs x t"
    using assms t(1)
  proof (induction xs arbitrary: p h)
    case (Cons y ys)
    show ?case
    proof (cases "ys = []")
      case True
      then show ?thesis using Cons.prems by auto
    next
      case False
      then have "t \<noteq> y" using Cons.prems seg_ends [of nx pv y "nx y" ys q t] by auto
      then show ?thesis using Cons.IH [of y "nx y"] Cons.prems False by auto
    qed
  qed simp
  moreover have "x \<noteq> t" using t assms(2) by auto
  ultimately show ?thesis using assms(3) by (auto simp: seg_append)
qed

lemma dlist_push_back:
  assumes "dlist nx pv h t xs" "x \<noteq> 0" "x \<notin> set xs"
  shows "dlist (if t = 0 then nx(x := 0) else nx(x := 0, t := x)) (pv(x := t)) (if t = 0 then x else h) x (xs @ [x])"
proof (cases "xs = []")
  case True
  then show ?thesis using assms by (simp add: dlist_def)
next
  case False
  then have "t \<noteq> 0" using dlist_tail [OF assms(1)] by simp
  then show ?thesis using seg_snoc [of nx pv 0 h xs 0 t x 0] assms False by (simp add: dlist_def)
qed

lemma dlist_push_front:
  assumes "dlist nx pv h t xs" "x \<noteq> 0" "x \<notin> set xs"
  shows "dlist (nx(x := h)) (if h = 0 then pv(x := 0) else pv(x := 0, h := x)) x (if h = 0 then x else t) (x # xs)"
proof (cases xs)
  case Nil
  then show ?thesis using assms by (simp add: dlist_def)
next
  case (Cons y ys)
  have h: "h = y" "y \<noteq> 0" "seg nx pv y (nx y) ys 0 t" "y \<notin> set ys" "x \<noteq> y" "x \<notin> set ys"
    using assms Cons by (auto simp: dlist_def)
  have "seg (nx(x := h)) (pv(x := 0, h := x)) y (nx y) ys 0 t = seg nx pv y (nx y) ys 0 t"
    using h by (intro seg_cong) auto
  then show ?thesis using assms Cons h by (simp add: dlist_def)
qed

text \<open>Unlinking: the neighbours are joined, or the head or tail pointer moves on.\<close>

lemma dlist_unlink:
  assumes "dlist nx pv h t (xs @ x # ys)"
  shows "dlist (if pv x \<noteq> 0 then nx(pv x := nx x) else nx) (if nx x \<noteq> 0 then pv(nx x := pv x) else pv)
    (if pv x \<noteq> 0 then h else nx x) (if nx x \<noteq> 0 then t else pv x) (xs @ ys)"
proof -
  have dis: "distinct (xs @ x # ys)" using assms by (simp add: dlist_def)
  obtain u where a: "seg nx pv 0 h xs x u" and b: "pv x = u" "x \<noteq> 0" "seg nx pv x (nx x) ys 0 t"
    using assms by (auto simp: dlist_def seg_append)
  have u2: "u = last xs" if "xs \<noteq> []" using seg_ends [OF a that] by simp
  have u1: "u = 0 \<longleftrightarrow> xs = []" 
  proof (cases "xs = []")
    case False
    then have "u \<in> set xs" using u2 by simp
    then show ?thesis using seg_nonzero [OF a] False by metis
  qed (use a in simp)
  note u = u1 u2
  have n2: "nx x = hd ys" if "ys \<noteq> []" using seg_ends [OF b(3) that] by simp
  have n1: "nx x = 0 \<longleftrightarrow> ys = []" using b(3) seg_nonzero [OF b(3)] n2 by (cases ys) auto
  note n = n1 n2
  let ?nx = "if pv x \<noteq> 0 then nx(pv x := nx x) else nx" and ?pv = "if nx x \<noteq> 0 then pv(nx x := pv x) else pv"
  have A: "seg ?nx ?pv 0 (if pv x \<noteq> 0 then h else nx x) xs (nx x) u"
  proof (cases xs rule: rev_cases)
    case Nil
    then show ?thesis using u b a by simp
  next
    case (snoc zs z)
    have z: "u = z" using u snoc by simp
    have zs: "seg nx pv 0 h zs z (pv z)" "z \<noteq> 0" using a snoc by (auto simp: seg_append)
    have nin: "z \<notin> set zs" "nx x \<notin> set zs \<or> nx x = 0" "nx x \<noteq> z \<or> nx x = 0" "0 \<notin> set zs"
      using dis snoc n seg_nonzero [OF zs(1)] by (cases ys; auto)+
    have "seg ?nx ?pv 0 h zs z (pv z) = seg nx pv 0 h zs z (pv z)"
      using nin z b by (intro seg_cong) auto
    then have "seg ?nx ?pv 0 h (zs @ [z]) (nx x) z"
      using zs z b nin by (auto simp: seg_append)
    then show ?thesis using snoc z b zs by simp
  qed
  have B: "seg ?nx ?pv u (nx x) ys 0 (if nx x \<noteq> 0 then t else pv x)"
  proof (cases ys)
    case Nil
    then show ?thesis using n b by simp
  next
    case (Cons y zs)
    have y: "nx x = y" "y \<noteq> 0" "seg nx pv y (nx y) zs 0 t" using b(3) Cons by auto
    have nin: "y \<notin> set zs" "u \<notin> set zs \<or> u = 0" "u \<noteq> y \<or> u = 0" "0 \<notin> set zs"
      using dis Cons u seg_nonzero [OF y(3)] by (cases xs rule: rev_cases; auto)+
    have "seg ?nx ?pv y (nx y) zs 0 t = seg nx pv y (nx y) zs 0 t"
      using nin y b by (intro seg_cong) auto
    moreover have "?nx y = nx y" using nin b y by auto
    ultimately show ?thesis using Cons y b by auto
  qed
  show ?thesis using A B dis unfolding dlist_def seg_append by auto
qed

end
