(* ===== verification/Printer.thy ===== *)
theory Printer
  imports DList Unix_File Io "HOL-Library.Monad_Syntax"
begin

text \<open>
  The print spooling daemon \<^verbatim>\<open>apue.3e/printer/printd.c\<close>: the job queue, the list of worker threads,
  job numbers and their file, the thread that accepts a job from a client, and start-up. The
  record \<open>printd\<close> holds the global variables, the memory of the two kinds of list nodes (one
  function per struct member; 0 is \<^verbatim>\<open>NULL\<close>), and the spool directory. Results of \<^verbatim>\<open>malloc\<close> and of
  system calls that depend on the environment are arguments.

  Every critical section of the C code is short and holds one mutex; an operation is modelled as
  the state change of its critical section.
\<close>

section \<open>Requests and responses\<close>

definition USERNM_MAX :: nat where "USERNM_MAX = 64"
definition JOBNM_MAX :: nat where "JOBNM_MAX = 256"
definition FILENMSZ :: nat where "FILENMSZ = 64"
definition IOBUFSZ :: nat where "IOBUFSZ = 8192"
definition IBUFSZ :: nat where "IBUFSZ = 512"
definition HBUFSZ :: nat where "HBUFSZ = 512"
definition PR_TEXT :: "32 word" where "PR_TEXT = 1"
definition EIO :: nat where "EIO = 5"
definition SPOOLDIR :: string where "SPOOLDIR = ''/var/spool/printer''"

record printreq =
  size :: "32 word"
  flags :: "32 word"
  usernm :: string
  jobnm :: string

record printresp =
  retcode :: "32 word"
  jobid :: "32 word"
  msg :: string

text \<open>A 32-bit integer in memory (the daemon's host is little-endian) and on the network.\<close>

definition le32 :: "32 word \<Rightarrow> string" where
  "le32 w = map (\<lambda>i. char_of (unat w div 256 ^ i mod 256)) [0, 1, 2, 3]"

definition dec32 :: "string \<Rightarrow> 32 word" where
  "dec32 s = word_of_nat (\<Sum>i < 4. of_char (s ! i) * 256 ^ i)"

definition htonl :: "32 word \<Rightarrow> 32 word" where
  "htonl w = dec32 (rev (le32 w))"

abbreviation ntohl :: "32 word \<Rightarrow> 32 word" where "ntohl \<equiv> htonl"

text \<open>The bytes of a \<^verbatim>\<open>struct printreq\<close>.\<close>

definition REQ_LEN :: nat where "REQ_LEN = 328"

definition enc_req :: "printreq \<Rightarrow> string" where
  "enc_req r = le32 (size r) @ le32 (flags r) @ usernm r @ jobnm r"

definition dec_req :: "string \<Rightarrow> printreq" where
  "dec_req s = \<lparr>size = dec32 (take 4 s), flags = dec32 (take 4 (drop 4 s)),
     usernm = take USERNM_MAX (drop 8 s), jobnm = take JOBNM_MAX (drop (8 + USERNM_MAX) s)\<rparr>"

section \<open>The daemon's state\<close>

datatype pd_err = Log_sys string | Log_quit string | Exit int | Overrun string

record printd =
  jnext :: "nat \<Rightarrow> nat"
  jprev :: "nat \<Rightarrow> nat"
  jjobid :: "nat \<Rightarrow> 32 word"
  jreq :: "nat \<Rightarrow> printreq"
  jobhead :: nat
  jobtail :: nat
  nextjob :: "32 word"
  jobfd :: ofile
  wnext :: "nat \<Rightarrow> nat"
  wprev :: "nat \<Rightarrow> nat"
  wtid :: "nat \<Rightarrow> nat"
  wsock :: "nat \<Rightarrow> int"
  workers :: nat
  wfreed :: "nat set"
  cancelled :: "nat list"
  shut :: "int list"
  reread :: bool
  printer_name :: string
  spool :: filesystem

section \<open>Job numbers\<close>

definition get_newjobno :: "printd \<Rightarrow> printd \<times> 32 word" where
  "get_newjobno S = (let jobid = nextjob S; S = S\<lparr>nextjob := nextjob S + 1\<rparr>;
     S = (if sint (nextjob S) \<le> 0 then S\<lparr>nextjob := 1\<rparr> else S) in (S, jobid))"

definition update_jobno :: "printd \<Rightarrow> pd_err + printd" where
  "update_jobno S = (case lseek (jobfd S) 0 SEEK_SET of
      None \<Rightarrow> Inl (Log_sys ''can't seek in job file'')
    | Some (f, _) \<Rightarrow> Inr (S\<lparr>jobfd := fwrite f (show_int (sint (nextjob S)))\<rparr>))"

text \<open>
  \<^verbatim>\<open>init_request\<close> reads the job file into the buffer that held its path, so the bytes behind the
  ones read are what is left of the path, its null byte and uninitialised memory (\<open>junk\<close>).
  \<open>held\<close> are the record locks other processes hold on the file.
\<close>

definition job_path :: string where "job_path = SPOOLDIR @ ''/jobno''"

definition init_request :: "(int \<times> int \<times> ltype \<times> int) list \<Rightarrow> string \<Rightarrow> printd \<Rightarrow> pd_err + printd" where
  "init_request held junk S =
    (case open_file (spool S) job_path \<lparr>o_creat = True, o_trunc = False, o_excl = False\<rparr> of
       None \<Rightarrow> Inl (Log_quit ''daemon already running'')
     | Some (fs, f) \<Rightarrow>
         (case write_lock (f\<lparr>others := held\<rparr>) 0 SEEK_SET 0 of (f, rc) \<Rightarrow>
            if rc < 0 then Inl (Log_quit ''daemon already running'')
            else (case fread f FILENMSZ of (f, s) \<Rightarrow>
              Inr (S\<lparr>spool := fs, jobfd := f, nextjob := (if s = [] then 1
                 else word_of_int (atol (c_str (s @ drop (length s) (job_path @ NUL # junk)))))\<rparr>))))"

section \<open>The job queue\<close>

definition add_job :: "nat \<Rightarrow> printreq \<Rightarrow> 32 word \<Rightarrow> printd \<Rightarrow> pd_err + printd" where
  "add_job jp req jid S =
    (if jp = 0 then Inl (Log_sys ''malloc failed'')
     else let S = S\<lparr>jreq := (jreq S)(jp := req), jjobid := (jjobid S)(jp := jid), jnext := (jnext S)(jp := 0)\<rparr>;
              S = S\<lparr>jprev := (jprev S)(jp := jobtail S)\<rparr>;
              S = (if jobtail S = 0 then S\<lparr>jobhead := jp\<rparr> else S\<lparr>jnext := (jnext S)(jobtail S := jp)\<rparr>)
          in Inr (S\<lparr>jobtail := jp\<rparr>))"

definition replace_job :: "nat \<Rightarrow> printd \<Rightarrow> printd" where
  "replace_job jp S =
    (let S = S\<lparr>jprev := (jprev S)(jp := 0)\<rparr>;
         S = S\<lparr>jnext := (jnext S)(jp := jobhead S)\<rparr>;
         S = (if jobhead S = 0 then S\<lparr>jobtail := jp\<rparr> else S\<lparr>jprev := (jprev S)(jobhead S := jp)\<rparr>)
     in S\<lparr>jobhead := jp\<rparr>)"

definition remove_job :: "nat \<Rightarrow> printd \<Rightarrow> printd" where
  "remove_job target S =
    (let S = (if jnext S target \<noteq> 0 then S\<lparr>jprev := (jprev S)(jnext S target := jprev S target)\<rparr>
              else S\<lparr>jobtail := jprev S target\<rparr>)
     in if jprev S target \<noteq> 0 then S\<lparr>jnext := (jnext S)(jprev S target := jnext S target)\<rparr>
        else S\<lparr>jobhead := jnext S target\<rparr>)"

text \<open>
  \<^verbatim>\<open>build_qonstart\<close>: \<open>names\<close> is what \<^verbatim>\<open>readdir\<close> returns, \<open>mem i\<close> the result of the \<open>i\<close>-th \<^verbatim>\<open>malloc\<close>. A
  path longer than the buffer overruns it.
\<close>

definition req_path :: "string \<Rightarrow> string" where "req_path n = SPOOLDIR @ ''/reqs/'' @ n"
definition data_path :: "string \<Rightarrow> string" where "data_path n = SPOOLDIR @ ''/data/'' @ n"

fun build_loop :: "(nat \<Rightarrow> nat) \<Rightarrow> nat \<Rightarrow> string list \<Rightarrow> printd \<Rightarrow> pd_err + printd" where
  "build_loop mem i [] S = Inr S"
| "build_loop mem i (n # ns) S =
    (if n = ''.'' \<or> n = ''..'' then build_loop mem i ns S
     else if length (req_path n) \<ge> FILENMSZ then Inl (Overrun ''build_qonstart: fname'')
     else case spool S (req_path n) of
       None \<Rightarrow> build_loop mem i ns S
     | Some c \<Rightarrow>
         if length (take REQ_LEN c) \<noteq> REQ_LEN
         then build_loop mem i ns (S\<lparr>spool := (spool S)(req_path n := None, data_path n := None)\<rparr>)
         else bindR (add_job (mem i) (dec_req (take REQ_LEN c)) (word_of_int (atol n)) S)
                (\<lambda>S. build_loop mem (Suc i) ns S))"

definition build_qonstart :: "(nat \<Rightarrow> nat) \<Rightarrow> string list option \<Rightarrow> printd \<Rightarrow> pd_err + printd" where
  "build_qonstart mem dir S = (case dir of None \<Rightarrow> Inr S | Some ns \<Rightarrow> build_loop mem 0 ns S)"

section \<open>Worker threads\<close>

text \<open>\<open>False\<close> is the \<^verbatim>\<open>pthread_exit\<close> after a failed \<^verbatim>\<open>malloc\<close>.\<close>

definition add_worker :: "nat \<Rightarrow> nat \<Rightarrow> int \<Rightarrow> printd \<Rightarrow> printd \<times> bool" where
  "add_worker wtp tid sockfd S =
    (if wtp = 0 then (S, False)
     else let S = S\<lparr>wtid := (wtid S)(wtp := tid), wsock := (wsock S)(wtp := sockfd)\<rparr>;
              S = S\<lparr>wprev := (wprev S)(wtp := 0)\<rparr>;
              S = S\<lparr>wnext := (wnext S)(wtp := workers S)\<rparr>
          in (if workers S = 0 then S\<lparr>workers := wtp\<rparr>
              else S\<lparr>wprev := (wprev S)(workers S := wtp)\<rparr>, True))"

partial_function (option) walk_workers :: "printd \<Rightarrow> nat \<Rightarrow> nat list option" where
  "walk_workers S wtp =
    (if wtp = 0 then Some [] else do { ws \<leftarrow> walk_workers S (wnext S wtp); Some (wtp # ws) })"

definition kill_workers :: "printd \<Rightarrow> printd option" where
  "kill_workers S = do {
     ws \<leftarrow> walk_workers S (workers S);
     Some (S\<lparr>cancelled := cancelled S @ map (wtid S) ws\<rparr>) }"

partial_function (option) find_worker :: "printd \<Rightarrow> nat \<Rightarrow> nat \<Rightarrow> nat option" where
  "find_worker S tid wtp =
    (if wtp = 0 then Some 0 else if wtid S wtp = tid then Some wtp else find_worker S tid (wnext S wtp))"

definition unlink_worker :: "nat \<Rightarrow> printd \<Rightarrow> printd" where
  "unlink_worker wtp S =
    (let S = (if wnext S wtp \<noteq> 0 then S\<lparr>wprev := (wprev S)(wnext S wtp := wprev S wtp)\<rparr> else S)
     in if wprev S wtp \<noteq> 0 then S\<lparr>wnext := (wnext S)(wprev S wtp := wnext S wtp)\<rparr>
        else S\<lparr>workers := wnext S wtp\<rparr>)"

definition client_cleanup :: "nat \<Rightarrow> printd \<Rightarrow> printd option" where
  "client_cleanup tid S = do {
     wtp \<leftarrow> find_worker S tid (workers S);
     Some (if wtp = 0 then S
       else let S = unlink_worker wtp S
            in S\<lparr>shut := shut S @ [wsock S wtp], wfreed := insert wtp (wfreed S)\<rparr>) }"

text \<open>
  One turn of \<^verbatim>\<open>signal_thread\<close>: \<open>err\<close> and \<open>signo\<close> are what \<^verbatim>\<open>sigwait\<close> gives. The outer option is a
  walk that does not end.
\<close>

definition SIGHUP :: int where "SIGHUP = 1"
definition SIGTERM :: int where "SIGTERM = 15"

definition signal_turn :: "int \<Rightarrow> int \<Rightarrow> printd \<Rightarrow> (pd_err + printd) option" where
  "signal_turn err signo S =
    (if err \<noteq> 0 then Some (Inl (Log_quit ''sigwait failed''))
     else if signo = SIGHUP then Some (Inr (S\<lparr>reread := True\<rparr>))
     else do { S \<leftarrow> kill_workers S;
       Some (Inl (if signo = SIGTERM then Exit 0 else Log_quit ''unexpected signal'')) })"

section \<open>Accepting a job\<close>

text \<open>
  The environment of a client thread: what arrives on its socket, the results of the three
  allocations, which \<^verbatim>\<open>creat\<close> calls fail (0 is success, else the error number), what a \<^verbatim>\<open>write\<close> at
  a path and offset returns, what \<^verbatim>\<open>strerror\<close> says, and the old contents of the I/O buffer.
\<close>

record cenv =
  evs :: "event list"
  mem_w :: nat
  mem_j :: nat
  creat_e :: "string \<Rightarrow> nat"
  wres :: "string \<Rightarrow> nat \<Rightarrow> string \<Rightarrow> int"
  werr :: nat
  strerror :: "32 word \<Rightarrow> string"
  old_buf :: string

definition rejected :: "cenv \<Rightarrow> nat \<Rightarrow> printresp" where
  "rejected E e = \<lparr>retcode = htonl (word_of_nat e), jobid = 0, msg = strerror E (htonl (word_of_nat e))\<rparr>"

definition is_ps :: "string \<Rightarrow> string \<Rightarrow> bool" where
  "is_ps old s \<longleftrightarrow> take 4 (s @ drop (length s) old) = ''%!PS''"

text \<open>
  The copy loop: reads of up to \<open>IOBUFSZ\<close> bytes until one returns no data. \<open>Inl e\<close> is a failed
  \<^verbatim>\<open>write\<close>; otherwise the file's contents and the flags.
\<close>

function copy_loop :: "cenv \<Rightarrow> string \<Rightarrow> bool \<Rightarrow> string \<Rightarrow> 32 word \<Rightarrow> event list \<Rightarrow> nat + (string \<times> 32 word)" where
  "copy_loop E name first got fl es = (case tread IOBUFSZ es of
      (es', Inr (c # s)) \<Rightarrow>
        let fl = (if first \<and> \<not> is_ps (old_buf E) (c # s) then or fl PR_TEXT else fl);
            nw = wres E name (length got) (c # s) in
        if nw \<noteq> int (length (c # s)) then Inl (if nw < 0 then werr E else EIO)
        else copy_loop E name False (got @ c # s) fl es'
    | _ \<Rightarrow> Inr (got, fl))"
  by pat_completeness auto
termination
  by (relation "measure (\<lambda>(E, name, first, got, fl, es). ev_size es)") (auto simp: IOBUFSZ_def dest: tread_size [OF sym])

declare copy_loop.simps [simp del]

text \<open>
  The body of \<^verbatim>\<open>client_thread\<close> between \<^verbatim>\<open>add_worker\<close> and the clean-up, in the pieces between which other
  threads may run. \<open>client_header\<close> reads the request and takes a job number (an early exit leaves the
  daemon as it is); \<open>client_store\<close> writes the data file and the request file of that number, and an
  early exit removes them. Then the client is told the number, and only after that \<^verbatim>\<open>add_job\<close> queues the
  job: no lock is held in between. \<open>client_body\<close> is the body of a thread that runs alone: the new state,
  the response sent to the client, and the exit value.
\<close>

definition set_file :: "string \<Rightarrow> string option \<Rightarrow> printd \<Rightarrow> printd" where
  "set_file p c S = S\<lparr>spool := (spool S)(p := c)\<rparr>"

definition client_header :: "cenv \<Rightarrow> printd \<Rightarrow> printresp + (printd \<times> printreq \<times> 32 word \<times> event list)" where
  "client_header E S = (case treadn REQ_LEN (evs E) of (es, n, s) \<Rightarrow>
     if n \<noteq> int REQ_LEN then
       Inl (rejected E (if n < 0 then (case tread REQ_LEN (evs E) of (_, Inl e) \<Rightarrow> e | _ \<Rightarrow> 0) else EIO))
     else
       let req = dec_req s; req = req\<lparr>size := ntohl (size req), flags := ntohl (flags req)\<rparr>;
           (S, jid) = get_newjobno S in Inr (S, req, jid, es))"

definition client_store :: "cenv \<Rightarrow> printreq \<Rightarrow> 32 word \<Rightarrow> event list \<Rightarrow> printd \<Rightarrow> (printd \<times> printresp) + (printd \<times> printreq)" where
  "client_store E req jid es S =
    (let dname = data_path (show_int (sint jid)); rname = req_path (show_int (sint jid)) in
     if creat_e E dname \<noteq> 0 then Inl (S, rejected E (creat_e E dname))
     else case copy_loop E dname True [] (flags req) es of
       Inl e \<Rightarrow> Inl (set_file dname None S, rejected E e)
     | Inr (doc, fl) \<Rightarrow>
         let S = set_file dname (Some doc) S; req = req\<lparr>flags := fl\<rparr> in
         if creat_e E rname \<noteq> 0 then Inl (set_file dname None S, rejected E (creat_e E rname))
         else let nw = wres E rname 0 (enc_req req) in
           if nw \<noteq> int REQ_LEN then
             Inl (set_file dname None (set_file rname None S), rejected E (if nw < 0 then werr E else EIO))
           else Inr (set_file rname (Some (take (nat nw) (enc_req req))) S, req))"

definition accept_resp :: "32 word \<Rightarrow> printresp" where
  "accept_resp jid = \<lparr>retcode = 0, jobid = htonl jid, msg = ''request ID '' @ show_int (sint jid)\<rparr>"

definition client_body :: "cenv \<Rightarrow> printd \<Rightarrow> pd_err + (printd \<times> printresp \<times> int)" where
  "client_body E S = (case client_header E S of
     Inl res \<Rightarrow> Inr (S, res, 1)
   | Inr (S, req, jid, es) \<Rightarrow> (case client_store E req jid es S of
       Inl (S, res) \<Rightarrow> Inr (S, res, 1)
     | Inr (S, req) \<Rightarrow> bindR (add_job (mem_j E) req jid S) (\<lambda>S. Inr (S, accept_resp jid, 0))))"

text \<open>
  \<^verbatim>\<open>client_thread\<close>: the worker is registered, the body runs, and the clean-up handler runs on every
  way out. No response is sent when the worker cannot be registered.
\<close>

definition client_thread :: "cenv \<Rightarrow> nat \<Rightarrow> int \<Rightarrow> printd \<Rightarrow> (pd_err + (printd \<times> printresp option \<times> int)) option" where
  "client_thread E tid sockfd S = (case add_worker (mem_w E) tid sockfd S of (S, ok) \<Rightarrow>
     if \<not> ok then do { S \<leftarrow> client_cleanup tid S; Some (Inr (S, None, 1)) }
     else case client_body E S of
       Inl e \<Rightarrow> Some (Inl e)
     | Inr (S, res, rv) \<Rightarrow> do { S \<leftarrow> client_cleanup tid S; Some (Inr (S, Some res, rv)) })"

end
