(* ===== verification/Fifo.thy ===== *)
theory Fifo
  imports DList Refinement
begin

text \<open>
  What the clients of a linked queue rely on, as a locale: adding at the end, the node at the
  front, and unlinking it. A queue that also takes a node back at its front extends it. From the
  laws follows that every sequence of additions and removals behaves as on a list.
\<close>

datatype 'p qcmd = Enq 'p nat | Deq

fun list_spec :: "nat list \<Rightarrow> 'p qcmd \<Rightarrow> nat list \<times> nat" where
  "list_spec q (Enq p x) = (q @ [x], x)"
| "list_spec [] Deq = ([], 0)"
| "list_spec (x # q) Deq = (q, x)"

fun fresh_cmd :: "nat list \<Rightarrow> 'p qcmd \<Rightarrow> bool" where
  "fresh_cmd q (Enq p x) \<longleftrightarrow> x \<noteq> 0 \<and> x \<notin> set q"
| "fresh_cmd q Deq \<longleftrightarrow> True"

locale fifo =
  fixes Q :: "'s \<Rightarrow> nat list \<Rightarrow> bool"
    and enq :: "'p \<Rightarrow> nat \<Rightarrow> 's \<Rightarrow> 's"
    and front :: "'s \<Rightarrow> nat"
    and deq :: "nat \<Rightarrow> 's \<Rightarrow> 's"
  assumes nodes: "Q s q \<Longrightarrow> distinct q \<and> 0 \<notin> set q"
    and front: "Q s q \<Longrightarrow> front s = (case q of [] \<Rightarrow> 0 | x # _ \<Rightarrow> x)"
    and enq: "Q s q \<Longrightarrow> x \<noteq> 0 \<Longrightarrow> x \<notin> set q \<Longrightarrow> Q (enq p x s) (q @ [x])"
    and deq: "Q s (x # q) \<Longrightarrow> Q (deq x s) q"
begin

lemma front_Nil: "Q s q \<Longrightarrow> front s = 0 \<longleftrightarrow> q = []"
  using front nodes by (cases q) fastforce+

lemma front_Cons: "Q s q \<Longrightarrow> front s \<noteq> 0 \<Longrightarrow> q = front s # tl q"
  using front by (cases q) fastforce+

lemma deq_front: "Q s q \<Longrightarrow> front s \<noteq> 0 \<Longrightarrow> Q (deq (front s) s) (tl q)"
  using front_Cons deq by metis

definition qstep :: "'s \<Rightarrow> 'p qcmd \<Rightarrow> unit + 's \<times> nat" where
  "qstep s c = (case c of Enq p x \<Rightarrow> Inr (enq p x s, x)
     | Deq \<Rightarrow> Inr (if front s = 0 then s else deq (front s) s, front s))"

lemma qstep_sim:
  assumes "Q s q" "fresh_cmd q c"
  shows "\<exists>s'. qstep s c = Inr (s', snd (list_spec q c)) \<and> Q s' (fst (list_spec q c))"
proof (cases c)
  case (Enq p x)
  then show ?thesis using assms enq [of s q x p] by (auto simp: qstep_def)
next
  case Deq
  show ?thesis
  proof (cases q)
    case Nil
    then show ?thesis using Deq assms front [OF assms(1)] by (auto simp: qstep_def)
  next
    case (Cons x r)
    then have "front s = x" "x \<noteq> 0" "Q (deq x s) r"
      using front [OF assms(1)] nodes [OF assms(1)] deq assms(1) by auto
    then show ?thesis using Deq Cons by (auto simp: qstep_def)
  qed
qed

end

sublocale fifo \<subseteq> dr: data_refinement Q qstep list_spec fresh_cmd
  by unfold_locales (rule qstep_sim)

locale fifo_back = fifo Q enq front deq
  for Q :: "'s \<Rightarrow> nat list \<Rightarrow> bool" and enq :: "'p \<Rightarrow> nat \<Rightarrow> 's \<Rightarrow> 's" and front deq +
  fixes push :: "nat \<Rightarrow> 's \<Rightarrow> 's"
  assumes push: "Q s q \<Longrightarrow> x \<noteq> 0 \<Longrightarrow> x \<notin> set q \<Longrightarrow> Q (push x s) (x # q)"
begin

text \<open>A node taken from the front and given back, with additions in between, keeps its place.\<close>

lemma give_back:
  assumes "Q s (x # q)" "Q s' (q @ r)" "x \<notin> set r"
  shows "Q (push x s') (x # q @ r)"
  using assms push [of s' "q @ r" x] nodes [of s "x # q"] by auto

end

end
