(* ===== verification/Printer_Queue.thy ===== *)
theory Printer_Queue
  imports Printer Fifo
begin

text \<open>
  The daemon's lists. The job queue satisfies the laws of a queue whose front takes jobs back; the
  operations touch nothing else. The list of workers is a doubly linked list only as long as it has
  at most one element: \<open>add_worker\<close> does not move the list's head.
\<close>

section \<open>The job queue\<close>

definition queue :: "printd \<Rightarrow> nat list \<Rightarrow> bool" where
  "queue S q \<longleftrightarrow> dlist (jnext S) (jprev S) (jobhead S) (jobtail S) q"

lemma add_job_eq:
  "jp \<noteq> 0 \<Longrightarrow> add_job jp req jid S = Inr (S\<lparr>jreq := (jreq S)(jp := req), jjobid := (jjobid S)(jp := jid),
     jnext := (if jobtail S = 0 then (jnext S)(jp := 0) else (jnext S)(jp := 0, jobtail S := jp)),
     jprev := (jprev S)(jp := jobtail S), jobhead := (if jobtail S = 0 then jp else jobhead S), jobtail := jp\<rparr>)"
  by (simp add: add_job_def Let_def)

lemma replace_job_eq:
  "replace_job jp S = S\<lparr>jnext := (jnext S)(jp := jobhead S),
     jprev := (if jobhead S = 0 then (jprev S)(jp := 0) else (jprev S)(jp := 0, jobhead S := jp)),
     jobhead := jp, jobtail := (if jobhead S = 0 then jp else jobtail S)\<rparr>"
  by (simp add: replace_job_def Let_def)

lemma remove_job_eq:
  assumes "jnext S j \<noteq> j"
  shows "remove_job j S = S\<lparr>
     jnext := (if jprev S j \<noteq> 0 then (jnext S)(jprev S j := jnext S j) else jnext S),
     jprev := (if jnext S j \<noteq> 0 then (jprev S)(jnext S j := jprev S j) else jprev S),
     jobhead := (if jprev S j \<noteq> 0 then jobhead S else jnext S j),
     jobtail := (if jnext S j \<noteq> 0 then jobtail S else jprev S j)\<rparr>"
  using assms by (auto simp: remove_job_def Let_def)

lemma add_job_queue:
  "queue S q \<Longrightarrow> jp \<noteq> 0 \<Longrightarrow> jp \<notin> set q \<Longrightarrow> queue (projr (add_job jp req jid S)) (q @ [jp])"
  using dlist_push_back [of "jnext S" "jprev S" "jobhead S" "jobtail S" q jp]
  by (simp add: queue_def add_job_eq)

lemma replace_job_queue: "queue S q \<Longrightarrow> jp \<noteq> 0 \<Longrightarrow> jp \<notin> set q \<Longrightarrow> queue (replace_job jp S) (jp # q)"
  using dlist_push_front [of "jnext S" "jprev S" "jobhead S" "jobtail S" q jp]
  by (simp add: queue_def replace_job_eq)

lemma dlist_next_neq: "dlist nx pv h t (xs @ x # ys) \<Longrightarrow> nx x \<noteq> x"
proof -
  assume d: "dlist nx pv h t (xs @ x # ys)"
  then have "seg nx pv x (nx x) ys 0 t" "x \<noteq> 0" "x \<notin> set ys" by (auto simp: dlist_def seg_append)
  then show ?thesis by (cases ys) auto
qed

lemma remove_job_queue: "queue S (xs @ j # ys) \<Longrightarrow> queue (remove_job j S) (xs @ ys)"
  using dlist_unlink [of "jnext S" "jprev S" "jobhead S" "jobtail S" xs j ys]
    dlist_next_neq [of "jnext S" "jprev S" "jobhead S" "jobtail S" xs j ys]
  by (simp add: queue_def remove_job_eq)

interpretation jq: fifo_back queue "\<lambda>(req, jid) jp S. projr (add_job jp req jid S)" jobhead remove_job replace_job
proof unfold_locales
  fix S q assume Q: "queue S q"
  show "distinct q \<and> 0 \<notin> set q" using Q dlist_nonzero by (auto simp: queue_def dlist_def)
  show "jobhead S = (case q of [] \<Rightarrow> 0 | x # _ \<Rightarrow> x)" using Q by (cases q) (auto simp: queue_def dlist_def)
next
  fix S q x p assume "queue S q" "x \<noteq> 0" "x \<notin> set q"
  then show "queue ((case p of (req, jid) \<Rightarrow> \<lambda>jp S. projr (add_job jp req jid S)) x S) (q @ [x])"
    by (cases p) (simp add: add_job_queue)
next
  fix S x q assume "queue S (x # q)"
  then show "queue (remove_job x S) q" using remove_job_queue [of S "[]" x q] by simp
next
  fix S q x assume "queue S q" "x \<noteq> 0" "x \<notin> set q"
  then show "queue (replace_job x S) (x # q)" by (rule replace_job_queue)
qed

text \<open>Everything but the links of the queue is left alone.\<close>

lemma remove_job_frame [simp]:
  "jjobid (remove_job j S) = jjobid S" "jreq (remove_job j S) = jreq S" "nextjob (remove_job j S) = nextjob S"
  "spool (remove_job j S) = spool S" "reread (remove_job j S) = reread S" "jobfd (remove_job j S) = jobfd S"
  by (simp_all add: remove_job_def Let_def)

lemma replace_job_frame [simp]:
  "jjobid (replace_job j S) = jjobid S" "jreq (replace_job j S) = jreq S" "nextjob (replace_job j S) = nextjob S"
  "spool (replace_job j S) = spool S"
  by (simp_all add: replace_job_eq)

end
