(* ===== verification/Printer_Codec.thy ===== *)
theory Printer_Codec
  imports Printer
begin

text \<open>
  Encodings of the print system: 32-bit integers in memory and on the network, print requests as
  bytes, job numbers as file names and in the job file.
\<close>

section \<open>Integers\<close>

lemma length_le32 [simp]: "length (le32 w) = 4"
  by (simp add: le32_def)

lemma nested256: "n = u + a * 256 \<Longrightarrow> a = v + b * 256 \<Longrightarrow> b = w + x * 256 \<Longrightarrow>
    u + v * 256 + w * 256 ^ 2 + x * 256 ^ 3 = (n :: nat)"
  by simp

lemma base256:
  fixes n :: nat
  assumes "n < 2 ^ 32"
  shows "n mod 256 + n div 256 mod 256 * 256 + n div 256 ^ 2 mod 256 * 256 ^ 2 + n div 256 ^ 3 mod 256 * 256 ^ 3 = n"
proof -
  let ?a = "n div 256" let ?b = "?a div 256" let ?c = "?b div 256"
  have d: "n div 256 ^ 2 = ?b" "n div 256 ^ 3 = ?c" by (simp_all add: div_mult2_eq flip: numeral_eq_Suc)
  have "?c < 256" using assms by (simp add: div_mult2_eq [symmetric] less_mult_imp_div_less)
  then have c: "?c mod 256 = ?c" by simp
  have e: "n = n mod 256 + ?a * 256" "?a = ?a mod 256 + ?b * 256" "?b = ?b mod 256 + ?c * 256"
    by presburger+
  show ?thesis unfolding d c by (rule nested256 [OF e])
qed

lemma digit256: "a < (256 :: nat) \<Longrightarrow> (a + 256 * m) mod 256 = a" "a < (256 :: nat) \<Longrightarrow> (a + 256 * m) div 256 = m"
  by simp_all

lemma sum4: "(\<Sum>i < (4::nat). f i) = f 0 + f 1 + f 2 + (f 3 :: nat)"
  by (simp add: eval_nat_numeral)

lemma of_char_less_256: "of_char (c :: char) < (256 :: nat)"
  using of_char_of [of "of_char c :: nat"] by (metis char_of_char mod_less_divisor zero_less_numeral)

lemma dec32_le32 [simp]: "dec32 (le32 w) = w"
proof -
  have "unat w < 2 ^ 32" using unsigned_less [of w] by simp
  then have "(\<Sum>i < 4. of_char (le32 w ! i) * 256 ^ i) = unat w"
    using base256 [of "unat w"] by (simp add: sum4 le32_def)
  then show ?thesis by (simp add: dec32_def)
qed

lemma le32_dec32 [simp]:
  assumes "length s = 4"
  shows "le32 (dec32 s) = s"
proof -
  obtain a b c d where s: "s = [a, b, c, d]"
    using assms by (auto simp: numeral_eq_Suc length_Suc_conv)
  let ?n = "of_char a + of_char b * 256 + of_char c * 256 ^ 2 + of_char d * 256 ^ 3 :: nat"
  have b: "of_char x < (256 :: nat)" for x :: char by (rule of_char_less_256)
  have "of_char a \<le> (255 :: nat)" "of_char b \<le> (255 :: nat)" "of_char c \<le> (255 :: nat)" "of_char d \<le> (255 :: nat)"
    using b [of a] b [of b] b [of c] b [of d] by linarith+
  then have "?n \<le> 255 + 255 * 256 + 255 * 256 ^ 2 + 255 * 256 ^ 3"
    by (intro add_mono mult_right_mono) simp_all
  then have lt: "?n < 2 ^ 32" by simp
  then have u: "unat (dec32 s) = ?n" by (simp add: dec32_def sum4 s unsigned_of_nat take_bit_eq_mod del: of_nat_add of_nat_mult)
  let ?m2 = "of_char c + 256 * of_char d" let ?m1 = "of_char b + 256 * ?m2"
  have n: "?n = of_char a + 256 * ?m1" by (simp add: algebra_simps)
  have d: "?n div 256 = ?m1" unfolding n by (rule digit256(2) [OF b])
  have d2: "?n div 256 ^ 2 = ?m2"
    using d digit256(2) [OF b, of b ?m2] div_mult2_eq [of ?n 256 256] by (simp add: power2_eq_square)
  have d3: "?n div 256 ^ 3 = of_char d"
    using d2 digit256(2) [OF b, of c "of_char d"] div_mult2_eq [of ?n "256 ^ 2" 256] by (simp add: power3_eq_cube power2_eq_square)
  have c: "char_of m = x" if "m mod 256 = of_char x" for m :: nat and x using that by (metis char_of_char char_of_mod_256)
  have "char_of ?n = a" unfolding n by (rule c, rule digit256(1) [OF b])
  moreover have "char_of (?n div 256) = b" unfolding d by (rule c, rule digit256(1) [OF b])
  moreover have "char_of (?n div 256 ^ 2) = c" unfolding d2 by (rule c, rule digit256(1) [OF b])
  moreover have "char_of (?n div 256 ^ 3) = d" unfolding d3 by simp
  ultimately show ?thesis unfolding le32_def u by (simp add: s)
qed

lemma htonl_htonl [simp]: "htonl (htonl w) = w"
  by (simp add: htonl_def)

section \<open>Requests\<close>

definition wf_req :: "printreq \<Rightarrow> bool" where
  "wf_req r \<longleftrightarrow> length (usernm r) = USERNM_MAX \<and> length (jobnm r) = JOBNM_MAX"

lemma length_enc_req [simp]: "wf_req r \<Longrightarrow> length (enc_req r) = REQ_LEN"
  by (simp add: wf_req_def enc_req_def REQ_LEN_def USERNM_MAX_def JOBNM_MAX_def)

lemma dec_enc_req [simp]: "wf_req r \<Longrightarrow> dec_req (enc_req r) = r"
  by (simp add: wf_req_def enc_req_def dec_req_def USERNM_MAX_def)

lemma wf_dec_req [simp]: "length s = REQ_LEN \<Longrightarrow> wf_req (dec_req s)"
  by (simp add: wf_req_def dec_req_def REQ_LEN_def USERNM_MAX_def JOBNM_MAX_def)

lemma wf_req_upd [simp]: "wf_req (r\<lparr>size := a\<rparr>) = wf_req r" "wf_req (r\<lparr>flags := b\<rparr>) = wf_req r"
  by (simp_all add: wf_req_def)

section \<open>File names\<close>

lemma path_inject [simp]:
  "data_path m = data_path n \<longleftrightarrow> m = n" "req_path m = req_path n \<longleftrightarrow> m = n"
  "data_path m \<noteq> req_path n" "req_path n \<noteq> data_path m"
  by (simp_all add: data_path_def req_path_def SPOOLDIR_def)

lemma length_show_nat_pos: "0 < length (show_nat n)"
  by (simp add: length_greater_0_conv)

lemma show_int_dots: "show_int i \<noteq> ''.''" "show_int i \<noteq> ''..''"
proof -
  have "isdigit c \<or> c = CHR ''-''" if "c \<in> set (show_int i)" for c
    using that by (auto simp: show_int_def dest: show_nat_digits split: if_splits)
  moreover have "\<not> isdigit CHR ''.''" by (simp add: isdigit_def)
  ultimately show "show_int i \<noteq> ''.''" "show_int i \<noteq> ''..''" by force+
qed

lemma length_show_jobid: "1 \<le> sint (w :: 32 word) \<Longrightarrow> length (show_int (sint w)) \<le> 10"
proof -
  assume a: "1 \<le> sint w"
  have "sint w < 2 ^ 31" using sint_lt [of w] by simp
  then have "nat (sint w) < 10 ^ 10" by simp
  then show ?thesis using a length_show_nat_le [of 10 "nat (sint w)"] by (simp add: show_int_def)
qed

section \<open>Job numbers\<close>

lemma sint_add_one:
  fixes w :: "32 word"
  shows "sint (w + 1) = (if sint w = 2 ^ 31 - 1 then - (2 ^ 31) else sint w + 1)"
proof -
  have r: "- (2 ^ 31) \<le> sint w" "sint w < 2 ^ 31" using sint_ge [of w] sint_lt [of w] by simp_all
  have "w + 1 = word_of_int (sint w + 1)" by simp
  moreover have "sint (word_of_int (sint w + 1) :: 32 word) = signed_take_bit 31 (sint w + 1)"
    unfolding sint_sbintrunc' by simp
  ultimately have e: "sint (w + 1) = signed_take_bit 31 (sint w + 1)" by metis
  show ?thesis
  proof (cases "sint w = 2 ^ 31 - 1")
    case True
    then show ?thesis using e by simp
  next
    case False
    then show ?thesis using e r signed_take_bit_int_eq_self [of 31 "sint w + 1"] by simp
  qed
qed

lemma get_newjobno_next:
  assumes "1 \<le> sint (nextjob S)"
  shows "snd (get_newjobno S) = nextjob S"
    and "fst (get_newjobno S) = S\<lparr>nextjob := nextjob (fst (get_newjobno S))\<rparr>"
    and "sint (nextjob (fst (get_newjobno S))) =
      (if sint (nextjob S) = 2 ^ 31 - 1 then 1 else sint (nextjob S) + 1)"
proof -
  show "snd (get_newjobno S) = nextjob S" "fst (get_newjobno S) = S\<lparr>nextjob := nextjob (fst (get_newjobno S))\<rparr>"
    by (simp_all add: get_newjobno_def Let_def)
  let ?w = "nextjob S"
  have lt: "sint ?w < 2 ^ 31" using sint_lt [of ?w] by simp
  show "sint (nextjob (fst (get_newjobno S))) = (if sint ?w = 2 ^ 31 - 1 then 1 else sint ?w + 1)"
    using lt assms sint_add_one [of ?w] by (simp add: get_newjobno_def Let_def)
qed

end
