(* ===== verification/Config.thy ===== *)
theory Config
  imports Io
begin

text \<open>
  The configuration file of the print system (\<^verbatim>\<open>printer/util.c\<close>): \<^verbatim>\<open>scan_configfile\<close> with the library
  functions \<^verbatim>\<open>fgets\<close> and \<^verbatim>\<open>sscanf\<close> it rests on, \<^verbatim>\<open>get_printserver\<close> and \<^verbatim>\<open>get_printaddr\<close>. The name
  service is an argument. The file is its contents, \<open>None\<close> when it cannot be opened (\<^verbatim>\<open>log_sys\<close>).
\<close>

definition MAXCFGLINE :: nat where "MAXCFGLINE = 512"
definition MAXKWLEN :: nat where "MAXKWLEN = 16"

text \<open>\<^verbatim>\<open>fgets(line, n, fp)\<close>: the line read and the rest of the file; \<open>None\<close> at the end of the file.\<close>

definition fgets :: "nat \<Rightarrow> string \<Rightarrow> (string \<times> string) option" where
  "fgets n s = (if s = [] then None
     else let l = takeWhile (\<lambda>c. c \<noteq> NEWLINE) (take (n - 1) s);
              l = (if length l < min (n - 1) (length s) then l @ [NEWLINE] else l)
          in Some (l, drop (length l) s))"

text \<open>The conversion \<^verbatim>\<open>%ws\<close> of \<^verbatim>\<open>sscanf\<close>: the word and the rest of the input.\<close>

definition scan_word :: "nat \<Rightarrow> string \<Rightarrow> (string \<times> string) option" where
  "scan_word w s = (let t = dropWhile isspace s; v = takeWhile (\<lambda>c. \<not> isspace c) (take w t) in
     if v = [] then None else Some (v, drop (length v) t))"

definition scan_pair :: "string \<Rightarrow> (string \<times> string) option" where
  "scan_pair line = (case scan_word (MAXKWLEN - 1) line of
      None \<Rightarrow> None
    | Some (k, r) \<Rightarrow> (case scan_word (MAXCFGLINE - 1) r of None \<Rightarrow> None | Some (v, _) \<Rightarrow> Some (k, v)))"

lemma fgets_shorter: "fgets n s = Some (l, r) \<Longrightarrow> 1 < n \<Longrightarrow> length r < length s"
  by (cases s; cases "n - 1") (auto simp: fgets_def Let_def split: if_splits)

function scan_lines :: "string \<Rightarrow> string \<Rightarrow> string option" where
  "scan_lines keyword s = (case fgets MAXCFGLINE s of
      None \<Rightarrow> None
    | Some (line, r) \<Rightarrow> (case scan_pair (c_str line) of
         Some (k, v) \<Rightarrow> if keyword = k then Some v else scan_lines keyword r
       | None \<Rightarrow> scan_lines keyword r))"
  by pat_completeness auto
termination by (relation "measure (\<lambda>(keyword, s). length s)") (auto simp: MAXCFGLINE_def dest: fgets_shorter)

declare scan_lines.simps [simp del]

definition scan_configfile :: "string option \<Rightarrow> string \<Rightarrow> unit + string option" where
  "scan_configfile conf keyword = (case conf of None \<Rightarrow> Inl () | Some s \<Rightarrow> Inr (scan_lines keyword s))"

definition get_printserver :: "string option \<Rightarrow> unit + string option" where
  "get_printserver conf = scan_configfile conf ''printserver''"

text \<open>
  \<open>gai host service\<close> is what \<^verbatim>\<open>getaddrlist\<close> finds: \<open>None\<close> for an error, otherwise the canonical name of the
  first address, if it has one.
\<close>

type_synonym name_service = "string \<Rightarrow> string \<Rightarrow> string option option"

definition get_printaddr :: "name_service \<Rightarrow> string option \<Rightarrow> unit + string option option" where
  "get_printaddr gai conf = bindR (scan_configfile conf ''printer'')
     (\<lambda>p. Inr (case p of None \<Rightarrow> None | Some h \<Rightarrow> gai h ''ipp''))"

end
