(* ===== verification/Ipp.thy ===== *)
theory Ipp
  imports Printer Config
begin

text \<open>
  The thread of \<^verbatim>\<open>printer/printd.c\<close> that talks to the printer: the IPP and HTTP headers, one turn of
  \<^verbatim>\<open>printer_thread\<close>, and the parser of the printer's answer (\<^verbatim>\<open>readmore\<close>, \<^verbatim>\<open>printer_status\<close>). A
  fixed-size buffer that is written or read beyond its end is the error \<open>Overrun\<close>; a loop that
  does not end is the value \<open>None\<close>.
\<close>

section \<open>Headers of a print request\<close>

definition IPP_PORT :: nat where "IPP_PORT = 631"
definition OP_PRINT_JOB :: nat where "OP_PRINT_JOB = 0x02"
definition TAG_OPERATION_ATTR :: nat where "TAG_OPERATION_ATTR = 0x01"
definition TAG_END_OF_ATTR :: nat where "TAG_END_OF_ATTR = 0x03"
definition TAG_NAMEWOLANG :: nat where "TAG_NAMEWOLANG = 0x42"
definition TAG_URI :: nat where "TAG_URI = 0x45"
definition TAG_CHARSET :: nat where "TAG_CHARSET = 0x47"
definition TAG_NATULANG :: nat where "TAG_NATULANG = 0x48"
definition TAG_MIMETYPE :: nat where "TAG_MIMETYPE = 0x49"
definition STR_SZ :: nat where "STR_SZ = 64"

abbreviation crlf :: string where "crlf \<equiv> [CHR 0x0D, NEWLINE]"

text \<open>The bytes of \<^verbatim>\<open>htonl(w)\<close> in memory.\<close>

definition be32 :: "32 word \<Rightarrow> string" where
  "be32 w = rev (le32 w)"

definition add_option :: "nat \<Rightarrow> string \<Rightarrow> string \<Rightarrow> string" where
  "add_option tag optname optval =
     char_of tag # be16 (length optname) @ optname @ be16 (length optval) @ optval"

text \<open>
  The two names of a job as C strings. A name that fills its array has no null byte, so the string
  runs on into what follows it; \<open>beyond\<close> is the memory behind the job.
\<close>

definition user_str :: "printreq \<Rightarrow> string \<Rightarrow> string" where
  "user_str r beyond = c_str (usernm r @ jobnm r @ beyond)"

definition job_str :: "printreq \<Rightarrow> string \<Rightarrow> string" where
  "job_str r beyond = c_str (jobnm r @ beyond)"

definition is_text :: "printreq \<Rightarrow> bool" where
  "is_text r \<longleftrightarrow> and (flags r) PR_TEXT \<noteq> 0"

definition printer_uri :: "string \<Rightarrow> string" where
  "printer_uri pname = ''http://'' @ pname @ ''/ipp''"

definition ipp_bytes :: "string \<Rightarrow> 32 word \<Rightarrow> printreq \<Rightarrow> string \<Rightarrow> string" where
  "ipp_bytes pname jid r beyond =
     [char_of (1::nat), char_of (1::nat)] @ be16 OP_PRINT_JOB @ be32 jid @ [char_of TAG_OPERATION_ATTR]
     @ add_option TAG_CHARSET ''attributes-charset'' ''utf-8''
     @ add_option TAG_NATULANG ''attributes-natural-language'' ''en-us''
     @ add_option TAG_URI ''printer-uri'' (printer_uri pname)
     @ add_option TAG_NAMEWOLANG ''requesting-user-name'' (user_str r beyond)
     @ add_option TAG_NAMEWOLANG ''job-name'' (job_str r beyond)
     @ add_option TAG_MIMETYPE ''document-format''
         (if is_text r then ''text/plain'' else ''application/postscript'')
     @ [char_of TAG_END_OF_ATTR]"

definition ipp_header :: "string \<Rightarrow> 32 word \<Rightarrow> printreq \<Rightarrow> string \<Rightarrow> pd_err + string" where
  "ipp_header pname jid r beyond =
    (if length (printer_uri pname) \<ge> STR_SZ then Inl (Overrun ''printer_thread: str'')
     else if length (ipp_bytes pname jid r beyond) > IBUFSZ then Inl (Overrun ''printer_thread: ibuf'')
     else Inr (ipp_bytes pname jid r beyond))"

definition http_header :: "string \<Rightarrow> nat \<Rightarrow> pd_err + string" where
  "http_header pname len =
    (let h = ''POST /ipp HTTP/1.1'' @ crlf @ ''Content-Length: '' @ show_nat len @ crlf
           @ ''Content-Type: application/ipp'' @ crlf
           @ ''Host: '' @ pname @ '':'' @ show_nat IPP_PORT @ crlf @ crlf
     in if length h > HBUFSZ then Inl (Overrun ''printer_thread: hbuf'') else Inr h)"

section \<open>The read buffer\<close>

text \<open>
  \<^verbatim>\<open>bp\<close> with its size, the number of bytes the parser believes valid, and the socket. \<open>bytes\<close> gives
  the contents of the allocated memory, also of the bytes never written.
\<close>

record rbuf =
  bytes :: "nat \<Rightarrow> char"
  bufsz :: nat
  datsz :: int
  sock_in :: "event list"

definition put :: "nat \<Rightarrow> string \<Rightarrow> (nat \<Rightarrow> char) \<Rightarrow> nat \<Rightarrow> char" where
  "put off s b = (\<lambda>j. if off \<le> j \<and> j < off + length s then s ! (j - off) else b j)"

text \<open>Why the parser stops: an access outside the buffer, or \<^verbatim>\<open>goto out\<close>.\<close>

datatype stop = Beyond string | Goto_out

definition readmore :: "nat \<Rightarrow> rbuf \<Rightarrow> (rbuf \<times> nat) option" where
  "readmore off B = (let B = (if off \<ge> bufsz B then B\<lparr>bufsz := bufsz B + IOBUFSZ\<rparr> else B) in
     case tread (bufsz B - off) (sock_in B) of
       (es, Inr (c # s)) \<Rightarrow> Some (B\<lparr>bytes := put off (c # s) (bytes B), sock_in := es\<rparr>, off + length (c # s))
     | _ \<Rightarrow> None)"

text \<open>Getting more of the header: the caller adds \<^verbatim>\<open>readmore\<close>'s result to \<^verbatim>\<open>datsz\<close>.\<close>

definition get_more :: "nat \<Rightarrow> rbuf \<Rightarrow> stop + rbuf" where
  "get_more i B = (case readmore i B of None \<Rightarrow> Inl Goto_out | Some (B, nr) \<Rightarrow> Inr (B\<lparr>datsz := datsz B + int nr\<rparr>))"

definition more_if :: "bool \<Rightarrow> nat \<Rightarrow> rbuf \<Rightarrow> stop + rbuf" where
  "more_if c i B = (if c then get_more i B else Inr B)"

text \<open>\<^verbatim>\<open>while (p( *cp)) cp++\<close>\<close>

function skip :: "(char \<Rightarrow> bool) \<Rightarrow> rbuf \<Rightarrow> nat \<Rightarrow> stop + nat" where
  "skip p B i = (if i \<ge> bufsz B then Inl (Beyond ''skip'')
     else if p (bytes B i) then skip p B (Suc i) else Inr i)"
  by pat_completeness auto
termination by (relation "measure (\<lambda>(p, B, i). bufsz B - i)") auto

declare skip.simps [simp del]

definition poke :: "nat \<Rightarrow> char \<Rightarrow> rbuf \<Rightarrow> stop + rbuf" where
  "poke i c B = (if i \<ge> bufsz B then Inl (Beyond ''poke'') else Inr (B\<lparr>bytes := (bytes B)(i := c)\<rparr>))"

definition span_str :: "rbuf \<Rightarrow> nat \<Rightarrow> nat \<Rightarrow> string" where
  "span_str B i j = map (bytes B) [i ..< j]"

definition tolower :: "char \<Rightarrow> char" where
  "tolower c = (if (65::nat) \<le> of_char c \<and> of_char c \<le> (90::nat) then char_of (of_char c + 32 :: nat) else c)"

fun strncasecmp :: "rbuf \<Rightarrow> nat \<Rightarrow> string \<Rightarrow> stop + bool" where
  "strncasecmp B i [] = Inr True"
| "strncasecmp B i (c # cs) =
    (if i \<ge> bufsz B then Inl (Beyond ''strncasecmp'')
     else if tolower (bytes B i) = tolower c then strncasecmp B (Suc i) cs else Inr False)"

section \<open>Parsing the printer's answer\<close>

text \<open>
  The search for \<^verbatim>\<open>Content-Length:\<close>, first to the next letter C, then the comparison. The result is
  the buffer, the position behind the number, and the number.
\<close>

function to_letter_c :: "rbuf \<Rightarrow> nat \<Rightarrow> stop + nat" where
  "to_letter_c B i = (if i \<ge> bufsz B then Inl (Beyond ''Content-Length search'')
     else if bytes B i \<noteq> CHR ''C'' \<and> bytes B i \<noteq> CHR ''c'' \<and> int i < datsz B then to_letter_c B (Suc i)
     else Inr i)"
  by pat_completeness auto
termination by (relation "measure (\<lambda>(B, i). bufsz B - i)") auto

declare to_letter_c.simps [simp del]

definition take_length :: "rbuf \<Rightarrow> nat \<Rightarrow> stop + (rbuf \<times> nat \<times> int)" where
  "take_length B i = bindR (skip isspace B (i + 15)) (\<lambda>s. bindR (skip isdigit B s) (\<lambda>e.
     bindR (poke e NUL B) (\<lambda>B. Inr (B, Suc e, atoi (span_str B s e)))))"

partial_function (option) find_length :: "rbuf \<Rightarrow> nat \<Rightarrow> (stop + (rbuf \<times> nat \<times> int)) option" where
  "find_length B i = (case to_letter_c B i of Inl e \<Rightarrow> Some (Inl e) | Inr i \<Rightarrow>
     (case more_if (int i \<ge> datsz B) i B of Inl e \<Rightarrow> Some (Inl e) | Inr B \<Rightarrow>
       (case strncasecmp B i ''Content-Length:'' of
          Inl e \<Rightarrow> Some (Inl e)
        | Inr hit \<Rightarrow> if hit then Some (take_length B i) else find_length B (Suc i))))"

text \<open>The search for the empty line that ends the HTTP header.\<close>

function scan_end :: "rbuf \<Rightarrow> nat \<Rightarrow> stop + (nat \<times> bool)" where
  "scan_end B i = (if int i < datsz B - 2 then
       if i + 2 \<ge> bufsz B then Inl (Beyond ''end of header'')
       else if bytes B i = NEWLINE \<and> bytes B (i + 1) = CHR 0x0D \<and> bytes B (i + 2) = NEWLINE then Inr (i + 3, True)
       else scan_end B (Suc i)
     else Inr (i, False))"
  by pat_completeness auto
termination by (relation "measure (\<lambda>(B, i). bufsz B - i)") auto

declare scan_end.simps [simp del]

partial_function (option) find_end :: "rbuf \<Rightarrow> nat \<Rightarrow> (stop + (rbuf \<times> nat)) option" where
  "find_end B i = (case scan_end B i of Inl e \<Rightarrow> Some (Inl e) | Inr (i, found) \<Rightarrow>
     (case more_if (int i \<ge> datsz B) i B of Inl e \<Rightarrow> Some (Inl e) | Inr B \<Rightarrow>
       if found then Some (Inr (B, i)) else find_end B i))"

text \<open>The IPP part: the status and the job number at \<^verbatim>\<open>cp\<close>.\<close>

definition STATCLASS_OK :: "nat \<Rightarrow> bool" where "STATCLASS_OK x \<longleftrightarrow> x \<le> 0x00ff"

definition ipp_status :: "32 word \<Rightarrow> rbuf \<Rightarrow> nat \<Rightarrow> stop + bool" where
  "ipp_status jid B i =
    (if i + 8 > bufsz B then Inl (Beyond ''ipp_hdr'')
     else Inr (ntohl (dec32 (span_str B (i + 4) (i + 8))) = jid \<and>
       STATCLASS_OK (of_char (bytes B (i + 2)) * 256 + of_char (bytes B (i + 3)))))"

text \<open>The body of the loop behind a successful HTTP status, from position \<open>i\<close> on.\<close>

definition ipp_part :: "32 word \<Rightarrow> rbuf \<Rightarrow> nat \<Rightarrow> (stop + bool) option" where
  "ipp_part jid B i = do {
     r \<leftarrow> find_length B i;
     case r of Inl e \<Rightarrow> Some (Inl e) | Inr (B, i, len) \<Rightarrow>
       (case more_if (int i \<ge> datsz B) i B of Inl e \<Rightarrow> Some (Inl e) | Inr B \<Rightarrow> do {
          r \<leftarrow> find_end B i;
          case r of Inl e \<Rightarrow> Some (Inl e) | Inr (B, i) \<Rightarrow>
            Some (bindR (more_if (datsz B - int i < len) i B) (\<lambda>B. ipp_status jid B i)) }) }"

text \<open>
  The status line of the answer in the buffer: \<open>None\<close> stands for a bad format, otherwise the code
  and the position of the end of the line, where the code has put a null byte.
\<close>

definition HTTP_INFO :: "int \<Rightarrow> bool" where "HTTP_INFO x \<longleftrightarrow> 100 \<le> x \<and> x \<le> 199"
definition HTTP_SUCCESS :: "int \<Rightarrow> bool" where "HTTP_SUCCESS x \<longleftrightarrow> 200 \<le> x \<and> x \<le> 299"

definition status_line :: "rbuf \<Rightarrow> stop + (rbuf \<times> int \<times> nat) option" where
  "status_line B = bindR (skip isspace B 8) (\<lambda>s. bindR (skip isdigit B s) (\<lambda>e.
     if e = s then Inr None
     else bindR (poke e NUL B) (\<lambda>B.
       bindR (skip (\<lambda>c. c \<noteq> CHR 0x0D \<and> c \<noteq> NEWLINE) B (Suc e)) (\<lambda>j.
         bindR (poke j NUL B) (\<lambda>B. Inr (Some (B, atoi (span_str B s e), j)))))))"

partial_function (option) status_loop :: "32 word \<Rightarrow> rbuf \<Rightarrow> (stop + bool) option" where
  "status_loop jid B = (case tread (bufsz B) (sock_in B) of
      (es, Inr (c # s)) \<Rightarrow>
        (let B = B\<lparr>bytes := put 0 (c # s) (bytes B), sock_in := es, datsz := int (length (c # s))\<rparr> in
         case status_line B of
           Inl e \<Rightarrow> Some (Inl e)
         | Inr None \<Rightarrow> status_loop jid B
         | Inr (Some (B, code, i)) \<Rightarrow>
             if HTTP_INFO code then status_loop jid B
             else if \<not> HTTP_SUCCESS code then
               Some (bindR (poke (nat (datsz B)) NUL B) (\<lambda>B. Inr False))
             else ipp_part jid B i)
    | _ \<Rightarrow> Some (Inr False))"

definition printer_status :: "32 word \<Rightarrow> (nat \<Rightarrow> char) \<Rightarrow> event list \<Rightarrow> (pd_err + bool) option" where
  "printer_status jid mem es = do {
     r \<leftarrow> status_loop jid \<lparr>bytes = mem, bufsz = IOBUFSZ, datsz = 0, sock_in = es\<rparr>;
     Some (case r of Inl (Beyond s) \<Rightarrow> Inl (Overrun (''printer_status: '' @ s)) | Inl Goto_out \<Rightarrow> Inr False | Inr b \<Rightarrow> Inr b) }"

section \<open>The printer thread\<close>

text \<open>
  The environment of one turn: the configuration file and the name service, whether
  \<^verbatim>\<open>open\<close> and \<^verbatim>\<open>fstat\<close> of the data file work, the connection attempts, the results of the writes to
  the printer, which reads of the data file fail, the printer's answer, and uninitialised memory.
\<close>

record penv =
  p_conf :: "string option"
  p_gai :: name_service
  p_open :: bool
  p_fstat :: bool
  p_sock :: "nat \<Rightarrow> int"
  p_conn :: "nat \<Rightarrow> bool"
  p_ws :: "int list"
  p_rerr :: "nat \<Rightarrow> bool"
  p_resp :: "event list"
  p_beyond :: string
  p_mem :: "nat \<Rightarrow> char"

datatype outcome = Waiting | Cancelled "32 word" | Deferred "32 word" | Printed "32 word" string

function send_loop :: "(nat \<Rightarrow> bool) \<Rightarrow> nat \<Rightarrow> string \<Rightarrow> int list \<Rightarrow> bool" where
  "send_loop rerr i doc ws =
    (if rerr i then False
     else if doc = [] then True
     else case writen (take IOBUFSZ doc) ws of (ws, nw, _) \<Rightarrow>
       if nw \<noteq> int (length (take IOBUFSZ doc)) then False
       else send_loop rerr (Suc i) (drop IOBUFSZ doc) ws)"
  by pat_completeness auto
termination by (relation "measure (\<lambda>(rerr, i, doc, ws). length doc)") (auto simp: IOBUFSZ_def)

declare send_loop.simps [simp del]

text \<open>Everything between the connection and \<^verbatim>\<open>printer_status\<close>: whether it was sent, and what.\<close>

definition send_job :: "penv \<Rightarrow> string \<Rightarrow> 32 word \<Rightarrow> printreq \<Rightarrow> string \<Rightarrow> pd_err + (bool \<times> string)" where
  "send_job E pname jid req doc =
     bindR (ipp_header pname jid req (p_beyond E)) (\<lambda>ih.
     bindR (http_header pname (length doc + length ih + (if is_text req then 1 else 0))) (\<lambda>hh.
     let mark = (if is_text req then [CHR 0x08] else []);
         (ws, n1) = sys_write (hh @ ih) (p_ws E);
         (ws, n2) = (if is_text req then sys_write mark ws else (ws, 0))
     in Inr (n1 = int (length (hh @ ih)) \<and> n2 = int (length mark) \<and> send_loop (p_rerr E) 0 doc ws,
             hh @ ih @ mark @ doc)))"

definition init_printer :: "name_service \<Rightarrow> string option \<Rightarrow> printd \<Rightarrow> pd_err + printd" where
  "init_printer gai conf S = (case get_printaddr gai conf of
      Inl _ \<Rightarrow> Inl (Log_sys ''can't open /etc/printer.conf'')
    | Inr None \<Rightarrow> Inl (Exit 1)
    | Inr (Some None) \<Rightarrow> Inr (S\<lparr>printer_name := ''printer''\<rparr>)
    | Inr (Some (Some nm)) \<Rightarrow> Inr (S\<lparr>printer_name := nm\<rparr>))"

definition check_config :: "name_service \<Rightarrow> string option \<Rightarrow> printd \<Rightarrow> pd_err + printd" where
  "check_config gai conf S = (if reread S then init_printer gai conf (S\<lparr>reread := False\<rparr>) else Inr S)"

text \<open>A job is picked up: the head of the queue is removed and the job file updated.\<close>

definition pick_up :: "penv \<Rightarrow> printd \<Rightarrow> pd_err + printd" where
  "pick_up E S = bindR (update_jobno (remove_job (jobhead S) S)) (check_config (p_gai E) (p_conf E))"

definition print_job :: "penv \<Rightarrow> nat \<Rightarrow> printd \<Rightarrow> (pd_err + (printd \<times> outcome)) option" where
  "print_job E jp S =
    (let jid = jjobid S jp; n = show_int (sint jid) in
     case if p_open E then spool S (data_path n) else None of
       None \<Rightarrow> Some (Inr (S, Cancelled jid))
     | Some doc \<Rightarrow>
       if \<not> p_fstat E then Some (Inr (S, Cancelled jid))
       else if fst (connect_retry (p_sock E) (p_conn E)) < 0 then Some (Inr (replace_job jp S, Deferred jid))
       else case send_job E (printer_name S) jid (jreq S jp) doc of
         Inl e \<Rightarrow> Some (Inl e)
       | Inr (ok, sent) \<Rightarrow>
           if \<not> ok then Some (Inr (replace_job jp S, Deferred jid))
           else do {
             r \<leftarrow> printer_status jid (p_mem E) (p_resp E);
             Some (bindR r (\<lambda>success.
               if success then Inr (set_file (req_path n) None (set_file (data_path n) None S), Printed jid sent)
               else Inr (replace_job jp S, Deferred jid))) })"

definition printer_turn :: "penv \<Rightarrow> printd \<Rightarrow> (pd_err + (printd \<times> outcome)) option" where
  "printer_turn E S =
    (if jobhead S = 0 then Some (Inr (S, Waiting))
     else case pick_up E S of Inl e \<Rightarrow> Some (Inl e) | Inr S' \<Rightarrow> print_job E (jobhead S) S')"

end
