(* ===== verification/Printer_Run.thy ===== *)
theory Printer_Run
  imports Printer_Queue Printer_Codec Ipp "HOL-Library.Multiset"
begin

text \<open>
  The daemon as a system of threads. A client thread takes a step for each piece of its code between
  which others may run: it registers as a worker, reads the request and takes a number, writes its two
  files, answers the client, queues the job, and cleans up. The printer thread has a step for picking
  up a job and one for finishing with it, and a SIGHUP may come at any time. Two invariants hold in
  every run: the order of the jobs, and that the spool directory has the files of every job that is
  not finished.
\<close>

section \<open>What a client thread does\<close>

definition next_no :: "32 word \<Rightarrow> 32 word" where
  "next_no w = (if sint (w + 1) \<le> 0 then 1 else w + 1)"

lemma get_newjobno_eq: "get_newjobno S = (S\<lparr>nextjob := next_no (nextjob S)\<rparr>, nextjob S)"
  by (simp add: get_newjobno_def next_no_def Let_def)

lemma sint_next_no:
  "1 \<le> sint w \<Longrightarrow> sint (next_no w) = (if sint w = 2 ^ 31 - 1 then 1 else sint w + 1)"
  using sint_add_one [of w] by (simp add: next_no_def)

lemma treadn_loop_len: "treadn_loop n got es = (es', k, s) \<Longrightarrow> k = -1 \<or> k = int (length s)"
proof (induction n got es rule: treadn_loop.induct)
  case (1 n got es)
  show ?case
    using "1.prems" "1.IH" by (subst (asm) treadn_loop.simps) (auto split: if_splits prod.splits sum.splits list.splits)
qed

lemma treadn_len: "treadn n es = (es', int m, s) \<Longrightarrow> length s = m"
  unfolding treadn_def using treadn_loop_len [of n "[]" es es' "int m" s] by auto

text \<open>The number of a job as the last component of its file names.\<close>

definition jobname :: "32 word \<Rightarrow> string" where "jobname w = show_int (sint w)"

lemma jobname_inject [simp]: "jobname v = jobname w \<longleftrightarrow> v = w"
  using signed_word_eqI by (auto simp: jobname_def)

text \<open>Which files change: those of one job number at most.\<close>

definition same_files :: "printd \<Rightarrow> printd \<Rightarrow> 32 word \<Rightarrow> bool" where
  "same_files S S' w \<longleftrightarrow> spool S' (data_path (jobname w)) = spool S (data_path (jobname w)) \<and>
     spool S' (req_path (jobname w)) = spool S (req_path (jobname w))"

definition has_files :: "printd \<Rightarrow> printreq \<Rightarrow> 32 word \<Rightarrow> bool" where
  "has_files S req w \<longleftrightarrow> spool S (data_path (jobname w)) \<noteq> None \<and> wf_req req \<and>
     spool S (req_path (jobname w)) = Some (enc_req req)"

lemma has_files_same: "has_files S req w \<Longrightarrow> same_files S S' w \<Longrightarrow> has_files S' req w"
  by (simp add: has_files_def same_files_def)

lemma client_header_eq:
  assumes "client_header E S = Inr (S', req, jid, es)"
  shows "S' = S\<lparr>nextjob := next_no (nextjob S)\<rparr>" "jid = nextjob S" "wf_req req"
proof -
  obtain es' n s where t: "treadn REQ_LEN (evs E) = (es', n, s)" by (metis prod_cases3)
  have n: "n = int REQ_LEN" using assms by (simp add: client_header_def t split: if_splits)
  have "length s = REQ_LEN" using treadn_len t n by simp
  then show "S' = S\<lparr>nextjob := next_no (nextjob S)\<rparr>" "jid = nextjob S" "wf_req req"
    using assms by (auto simp: client_header_def t n get_newjobno_eq Let_def)
qed

lemma client_store_eq:
  "client_store E req jid es S = Inr (S', req') \<Longrightarrow> wf_req req \<Longrightarrow>
    S' = S\<lparr>spool := spool S'\<rparr> \<and> has_files S' req' jid \<and> (\<forall>w. w \<noteq> jid \<longrightarrow> same_files S S' w)"
  "client_store E req jid es S = Inl (S', res) \<Longrightarrow>
    S' = S\<lparr>spool := spool S'\<rparr> \<and> (\<forall>w. w \<noteq> jid \<longrightarrow> same_files S S' w)"
  by (auto simp: client_store_def set_file_def Let_def has_files_def same_files_def jobname_def [symmetric]
      split: if_splits sum.splits)

text \<open>The list of workers is separate from the jobs and the spool directory.\<close>

lemma add_worker_frame:
  "jnext (fst (add_worker w t k S)) = jnext S" "jprev (fst (add_worker w t k S)) = jprev S"
  "jobhead (fst (add_worker w t k S)) = jobhead S" "jobtail (fst (add_worker w t k S)) = jobtail S"
  "jjobid (fst (add_worker w t k S)) = jjobid S" "jreq (fst (add_worker w t k S)) = jreq S"
  "nextjob (fst (add_worker w t k S)) = nextjob S" "spool (fst (add_worker w t k S)) = spool S"
  by (simp_all add: add_worker_def Let_def)

lemma client_cleanup_frame:
  assumes "client_cleanup t S = Some S'"
  shows "jnext S' = jnext S" "jprev S' = jprev S" "jobhead S' = jobhead S" "jobtail S' = jobtail S"
    "jjobid S' = jjobid S" "jreq S' = jreq S" "nextjob S' = nextjob S" "spool S' = spool S"
  using assms by (auto simp: client_cleanup_def unlink_worker_def Let_def split: Option.bind_splits if_splits)

section \<open>Steps of the system\<close>

datatype label = Accepted "32 word" | Queued "32 word" | Finished "32 word"

fun out_labels :: "outcome \<Rightarrow> label list" where
  "out_labels (Printed jid sent) = [Finished jid]"
| "out_labels (Cancelled jid) = [Finished jid]"
| "out_labels _ = []"

definition accepted :: "label list \<Rightarrow> 32 word list" where
  "accepted ls = concat (map (\<lambda>l. case l of Accepted w \<Rightarrow> [w] | _ \<Rightarrow> []) ls)"

definition queued :: "label list \<Rightarrow> 32 word list" where
  "queued ls = concat (map (\<lambda>l. case l of Queued w \<Rightarrow> [w] | _ \<Rightarrow> []) ls)"

definition finished :: "label list \<Rightarrow> 32 word list" where
  "finished ls = concat (map (\<lambda>l. case l of Finished w \<Rightarrow> [w] | _ \<Rightarrow> []) ls)"

lemma labels_simps [simp]:
  "accepted [] = []" "accepted (ls @ ms) = accepted ls @ accepted ms" "accepted (Accepted w # ls) = w # accepted ls"
  "accepted (Queued w # ls) = accepted ls" "accepted (Finished w # ls) = accepted ls"
  "queued [] = []" "queued (ls @ ms) = queued ls @ queued ms" "queued (Queued w # ls) = w # queued ls"
  "queued (Accepted w # ls) = queued ls" "queued (Finished w # ls) = queued ls"
  "finished [] = []" "finished (ls @ ms) = finished ls @ finished ms" "finished (Finished w # ls) = w # finished ls"
  "finished (Accepted w # ls) = finished ls" "finished (Queued w # ls) = finished ls"
  by (simp_all add: accepted_def queued_def finished_def)

lemma out_labels_simps [simp]: "accepted (out_labels out) = []" "queued (out_labels out) = []"
  by (cases out; simp)+

text \<open>
  Where a client thread is: registered, with a number and the rest of its input, with both files
  written, after the answer to the client, or on its way out.
\<close>

datatype cpc = Started | Numbered printreq "32 word" "event list" | Stored printreq "32 word"
  | Replied printreq "32 word" | Leaving

text \<open>
  The state: the daemon's, the job the printer thread has taken off the queue (or 0), and the running
  client threads. What \<^verbatim>\<open>malloc\<close> returns for a job is not in use.
\<close>

type_synonym pd_sys = "printd \<times> nat \<times> (nat \<Rightarrow> cpc option)"

inductive pd_step :: "pd_sys \<Rightarrow> label list \<Rightarrow> pd_sys \<Rightarrow> bool" where
  start: "cl t = None \<Longrightarrow> add_worker w t fd S = (S', ok) \<Longrightarrow>
    pd_step (S, cur, cl) [] (S', cur, cl(t \<mapsto> if ok then Started else Leaving))"
| header: "cl t = Some Started \<Longrightarrow> client_header E S = Inr (S', req, jid, es) \<Longrightarrow>
    pd_step (S, cur, cl) [] (S', cur, cl(t \<mapsto> Numbered req jid es))"
| bad_header: "cl t = Some Started \<Longrightarrow> client_header E S = Inl res \<Longrightarrow> pd_step (S, cur, cl) [] (S, cur, cl(t \<mapsto> Leaving))"
| store: "cl t = Some (Numbered req jid es) \<Longrightarrow> client_store E req jid es S = Inr (S', req') \<Longrightarrow>
    pd_step (S, cur, cl) [] (S', cur, cl(t \<mapsto> Stored req' jid))"
| bad_store: "cl t = Some (Numbered req jid es) \<Longrightarrow> client_store E req jid es S = Inl (S', res) \<Longrightarrow>
    pd_step (S, cur, cl) [] (S', cur, cl(t \<mapsto> Leaving))"
| reply: "cl t = Some (Stored req jid) \<Longrightarrow>
    pd_step (S, cur, cl) [Accepted (ntohl (jobid (accept_resp jid)))] (S, cur, cl(t \<mapsto> Replied req jid))"
| enqueue: "cl t = Some (Replied req jid) \<Longrightarrow> add_job jp req jid S = Inr S' \<Longrightarrow> \<forall>q. queue S q \<longrightarrow> jp \<notin> set q \<Longrightarrow>
    cur = 0 \<or> jp \<noteq> cur \<Longrightarrow> pd_step (S, cur, cl) [Queued jid] (S', cur, cl(t \<mapsto> Leaving))"
| leave: "cl t = Some Leaving \<Longrightarrow> client_cleanup t S = Some S' \<Longrightarrow> pd_step (S, cur, cl) [] (S', cur, cl(t := None))"
| pick: "jobhead S \<noteq> 0 \<Longrightarrow> pick_up E S = Inr S' \<Longrightarrow> pd_step (S, 0, cl) [] (S', jobhead S, cl)"
| print: "cur \<noteq> 0 \<Longrightarrow> print_job E cur S = Some (Inr (S', out)) \<Longrightarrow> pd_step (S, cur, cl) (out_labels out) (S', 0, cl)"
| hup: "signal_turn 0 SIGHUP S = Some (Inr S') \<Longrightarrow> pd_step (S, cur, cl) [] (S', cur, cl)"

text \<open>Runs, with the number of steps and the labels in order.\<close>

inductive pd_run :: "pd_sys \<Rightarrow> nat \<Rightarrow> label list \<Rightarrow> pd_sys \<Rightarrow> bool" where
  run0: "pd_run s 0 [] s"
| run1: "pd_run s n ls s' \<Longrightarrow> pd_step s' l s'' \<Longrightarrow> pd_run s (Suc n) (ls @ l) s''"

lemma pd_run_trans: "pd_run s' m ms s'' \<Longrightarrow> pd_run s n ls s' \<Longrightarrow> pd_run s (n + m) (ls @ ms) s''"
  by (induction rule: pd_run.induct) (auto dest: pd_run.run1 simp flip: append_assoc)

lemma pd_run_first: "pd_step s l s' \<Longrightarrow> pd_run s' n ls s'' \<Longrightarrow> pd_run s (Suc n) (l @ ls) s''"
  using pd_run_trans [OF _ pd_run.run1 [OF pd_run.run0]] by fastforce

lemma print_job_cases:
  assumes "print_job E jp S = Some (Inr (S', out))"
  obtains (cancelled) "out = Cancelled (jjobid S jp)" "S' = S"
  | (deferred) "out = Deferred (jjobid S jp)" "S' = replace_job jp S"
  | (printed) sent where "out = Printed (jjobid S jp) sent"
      "S' = S\<lparr>spool := (spool S)(data_path (jobname (jjobid S jp)) := None, req_path (jobname (jjobid S jp)) := None)\<rparr>"
proof -
  let ?n = "show_int (sint (jjobid S jp))"
  have "out = Cancelled (jjobid S jp) \<and> S' = S \<or> out = Deferred (jjobid S jp) \<and> S' = replace_job jp S \<or>
    (\<exists>sent. out = Printed (jjobid S jp) sent \<and> S' = set_file (req_path ?n) None (set_file (data_path ?n) None S))"
  proof (cases "(if p_open E then spool S (data_path ?n) else None) = None \<or> \<not> p_fstat E")
    case True
    then show ?thesis using assms by (auto simp: print_job_def Let_def split: option.splits)
  next
    case False
    then obtain doc where d: "(if p_open E then spool S (data_path ?n) else None) = Some doc" "p_fstat E"
      by (metis not_None_eq)
    show ?thesis
    proof (cases "fst (connect_retry (p_sock E) (p_conn E)) < 0")
      case True
      then show ?thesis using assms unfolding print_job_def Let_def d(1) by (simp add: d(2))
    next
      case False
      show ?thesis
        using assms False unfolding print_job_def Let_def d(1)
        by (cases "send_job E (printer_name S) (jjobid S jp) (jreq S jp) doc";
            cases "printer_status (jjobid S jp) (p_mem E) (p_resp E)")
          (auto simp: d(2) bindR_eq_Inr_iff split: if_splits)
    qed
  qed
  then show thesis using that by (auto simp: set_file_def jobname_def)
qed

lemma pick_up_frame:
  assumes "pick_up E S = Inr S'"
  shows "queue S' q = queue (remove_job (jobhead S) S) q" "jjobid S' = jjobid S" "jreq S' = jreq S" "spool S' = spool S"
    "nextjob S' = nextjob S"
  using assms
  by (auto simp: pick_up_def update_jobno_def check_config_def init_printer_def queue_def bindR_eq_Inr_iff
      split: option.splits if_splits sum.splits)

section \<open>The order of the jobs\<close>

definition live :: "nat \<Rightarrow> nat list \<Rightarrow> nat list" where
  "live cur q = (if cur = 0 then q else cur # q)"

definition in_order :: "printd \<Rightarrow> nat \<Rightarrow> nat list \<Rightarrow> bool" where
  "in_order S cur q \<longleftrightarrow> queue S q \<and> cur \<notin> set q"

definition pending :: "printd \<Rightarrow> nat \<Rightarrow> nat list \<Rightarrow> 32 word list" where
  "pending S cur q = map (jjobid S) (live cur q)"

lemma queue_cong:
  "jnext S' = jnext S \<Longrightarrow> jprev S' = jprev S \<Longrightarrow> jobhead S' = jobhead S \<Longrightarrow> jobtail S' = jobtail S \<Longrightarrow> queue S' q = queue S q"
  by (simp add: queue_def)

lemma queue_fields [simp]: "queue (S\<lparr>nextjob := n\<rparr>) q = queue S q" "queue (S\<lparr>spool := sp\<rparr>) q = queue S q"
    "queue (S\<lparr>reread := b\<rparr>) q = queue S q"
  by (simp_all add: queue_def)

lemma hup_eq: "signal_turn 0 SIGHUP S = Some (Inr S') \<longleftrightarrow> S' = S\<lparr>reread := True\<rparr>"
  by (auto simp: signal_turn_def)

text \<open>The jobs and the queue of two states are the same.\<close>

definition same_jobs :: "printd \<Rightarrow> printd \<Rightarrow> bool" where
  "same_jobs S S' \<longleftrightarrow> (\<forall>q. queue S' q = queue S q) \<and> jjobid S' = jjobid S \<and> jreq S' = jreq S"

lemma same_jobs_client:
  "add_worker w t k S = (S', ok) \<Longrightarrow> same_jobs S S'" "client_cleanup t S = Some S' \<Longrightarrow> same_jobs S S'"
  "client_header E S = Inr (S', req, jid, es) \<Longrightarrow> same_jobs S S'"
  "client_store E req jid es S = Inr (S', req') \<Longrightarrow> same_jobs S S'"
  "client_store E req jid es S = Inl (S', res) \<Longrightarrow> same_jobs S S'"
proof -
  show "same_jobs S S'" if "add_worker w t k S = (S', ok)"
    using add_worker_frame [of w t k S] queue_cong [of S' S] that by (simp add: same_jobs_def)
  show "same_jobs S S'" if "client_cleanup t S = Some S'"
    using client_cleanup_frame [OF that] queue_cong [of S' S] by (simp add: same_jobs_def)
  show "same_jobs S S'" if "client_header E S = Inr (S', req, jid, es)"
    using client_header_eq [OF that] by (simp add: same_jobs_def)
  have sp: "same_jobs S (S\<lparr>spool := x\<rparr>)" for x by (simp add: same_jobs_def)
  show "same_jobs S S'" if "client_store E req jid es S = Inr (S', req')"
    using that by (auto simp: client_store_def set_file_def Let_def same_jobs_def split: if_splits sum.splits)
  show "same_jobs S S'" if "client_store E req jid es S = Inl (S', res)"
    using client_store_eq(2) [OF that] sp by metis
qed

lemma in_order_same: "in_order S cur q \<Longrightarrow> same_jobs S S' \<Longrightarrow> in_order S' cur q \<and> pending S' cur q = pending S cur q"
  by (simp add: in_order_def pending_def same_jobs_def)

lemma enqueue_in_order:
  assumes "in_order S cur q" "add_job jp req jid S = Inr S'" "\<forall>q. queue S q \<longrightarrow> jp \<notin> set q" "cur = 0 \<or> jp \<noteq> cur"
  shows "jp \<noteq> 0" "in_order S' cur (q @ [jp])" "pending S' cur (q @ [jp]) = pending S cur q @ [jid]"
    "jjobid S' = (jjobid S)(jp := jid)" "jreq S' = (jreq S)(jp := req)" "nextjob S' = nextjob S" "spool S' = spool S"
proof -
  show n: "jp \<noteq> 0" using assms(2) by (cases "jp = 0") (simp_all add: add_job_def)
  have f: "jp \<notin> set q" "jp \<noteq> cur" using assms n by (auto simp: in_order_def)
  have "S' = projr (add_job jp req jid S)" using assms(2) by simp
  then have "queue S' (q @ [jp])" using add_job_queue [OF _ n f(1)] assms(1) by (simp add: in_order_def)
  then show "in_order S' cur (q @ [jp])" using assms(1) f by (simp add: in_order_def)
  show j: "jjobid S' = (jjobid S)(jp := jid)" "jreq S' = (jreq S)(jp := req)" "nextjob S' = nextjob S" "spool S' = spool S"
    using assms(2) add_job_eq [OF n] by auto
  show "pending S' cur (q @ [jp]) = pending S cur q @ [jid]" using f j(1) by (auto simp: pending_def live_def)
qed

lemma pd_step_in_order:
  assumes "pd_step s l s'" "in_order (fst s) (fst (snd s)) q"
  shows "\<exists>q'. in_order (fst s') (fst (snd s')) q' \<and>
    pending (fst s) (fst (snd s)) q @ queued l = finished l @ pending (fst s') (fst (snd s')) q'"
  using assms
proof (induction rule: pd_step.induct)
  case (enqueue cl t req jid jp S S' cur)
  then show ?case using enqueue_in_order(2,3) [of S cur q jp req jid S'] by auto
next
  case (pick S E S' cl)
  then have q: "queue S q" by (simp add: in_order_def)
  then have c: "q = jobhead S # tl q" and r: "queue (remove_job (jobhead S) S) (tl q)"
    using pick jq.front_Cons jq.deq_front by blast+
  have "jobhead S \<notin> set (tl q)" using jq.nodes [OF q] c by (metis distinct.simps(2))
  then have "in_order S' (jobhead S) (tl q)" using r pick_up_frame(1) [OF pick(2)] by (simp add: in_order_def)
  moreover have "pending S' (jobhead S) (tl q) = pending S 0 q"
    using c pick pick_up_frame(2) [OF pick(2)] by (simp add: pending_def live_def)
  ultimately show ?case by auto
next
  case (print cur E S S' out cl)
  from print(2) show ?case
  proof (cases rule: print_job_cases)
    case deferred
    then have "in_order S' 0 (cur # q)"
      using print jq.push [of S q cur] jq.nodes [of S q] by (auto simp: in_order_def)
    then show ?thesis using deferred print(1)
      by (intro exI [of _ "cur # q"]) (simp add: pending_def live_def)
  qed (use print jq.nodes [of S q] in \<open>auto simp: in_order_def pending_def live_def\<close>)
next
  case (hup S S' cur cl)
  then show ?case by (intro exI [of _ q]) (simp add: hup_eq in_order_def pending_def)
qed (use in_order_same same_jobs_client in \<open>fastforce\<close>)+

lemma pd_run_in_order:
  assumes "pd_run s n ls s'" "in_order (fst s) (fst (snd s)) q"
  shows "\<exists>q'. in_order (fst s') (fst (snd s')) q' \<and>
    pending (fst s) (fst (snd s)) q @ queued ls = finished ls @ pending (fst s') (fst (snd s')) q'"
  using assms
proof (induction rule: pd_run.induct)
  case (run1 s n ls s' l s'')
  then obtain q1 where q1: "in_order (fst s') (fst (snd s')) q1"
    "pending (fst s) (fst (snd s)) q @ queued ls = finished ls @ pending (fst s') (fst (snd s')) q1" by blast
  obtain q2 where q2: "in_order (fst s'') (fst (snd s'')) q2"
    "pending (fst s') (fst (snd s')) q1 @ queued l = finished l @ pending (fst s'') (fst (snd s'')) q2"
    using pd_step_in_order [OF run1(2) q1(1)] by blast
  show ?case using q2 arg_cong [OF q1(2), of "\<lambda>x. x @ queued l"] by (intro exI [of _ q2]) auto
qed auto

text \<open>A client thread that nobody interrupts does what \<open>client_thread\<close> says.\<close>

lemma run_leave:
  "pd_run s n ls (S1, cur, cl(t \<mapsto> Leaving)) \<Longrightarrow> cl t = None \<Longrightarrow> client_cleanup t S1 = Some S' \<Longrightarrow> pd_run s (Suc n) ls (S', cur, cl)"
  using pd_run.run1 [OF _ pd_step.leave [of "cl(t \<mapsto> Leaving)" t S1 S' cur]] by (fastforce simp: fun_upd_idem)

lemma run_step: "pd_run s n ls (S1, cur, cl(t \<mapsto> pc)) \<Longrightarrow> pd_step (S1, cur, cl(t \<mapsto> pc)) l (S', cur, (cl(t \<mapsto> pc))(t \<mapsto> pc')) \<Longrightarrow>
    pd_run s (Suc n) (ls @ l) (S', cur, cl(t \<mapsto> pc'))"
  using pd_run.run1 by fastforce

lemma accept_run:
  assumes "pd_run s n ls (S2, cur, cl(t \<mapsto> Numbered req jid es))" "client_store E req jid es S2 = Inr (S3, req')"
    "add_job jp req' jid S3 = Inr S4" "\<forall>q. queue S2 q \<longrightarrow> jp \<notin> set q" "cur = 0 \<or> jp \<noteq> cur"
  shows "pd_run s (n + 3) (ls @ [Accepted jid, Queued jid]) (S4, cur, cl(t \<mapsto> Leaving))"
proof -
  have fresh: "\<forall>q. queue S3 q \<longrightarrow> jp \<notin> set q" using assms(4) same_jobs_client(4) [OF assms(2)] by (simp add: same_jobs_def)
  have "pd_run s (n + 1) ls (S3, cur, cl(t \<mapsto> Stored req' jid))" using run_step [OF assms(1) pd_step.store [OF _ assms(2)]] by simp
  then have "pd_run s (n + 2) (ls @ [Accepted jid]) (S3, cur, cl(t \<mapsto> Replied req' jid))"
    using run_step [OF _ pd_step.reply [of "cl(t \<mapsto> Stored req' jid)" t req' jid S3 cur]] by (fastforce simp: accept_resp_def)
  then show ?thesis
    using run_step [OF _ pd_step.enqueue [of "cl(t \<mapsto> Replied req' jid)" t, OF _ assms(3) fresh assms(5)]] by (fastforce simp: numeral_3_eq_3)
qed

lemma client_thread_run:
  assumes "client_thread E t fd S = Some (Inr (S', resp, rv))" "cl t = None" "\<forall>q. queue S q \<longrightarrow> mem_j E \<notin> set q" "cur = 0 \<or> mem_j E \<noteq> cur"
  shows "\<exists>n ls. pd_run (S, cur, cl) n ls (S', cur, cl) \<and> queued ls = accepted ls \<and>
    accepted ls = (case resp of Some res \<Rightarrow> if rv = 0 then [ntohl (jobid res)] else [] | None \<Rightarrow> [])"
proof -
  obtain S1 ok where w: "add_worker (mem_w E) t fd S = (S1, ok)" by fastforce
  have st: "pd_run (S, cur, cl) 1 [] (S1, cur, cl(t \<mapsto> if ok then Started else Leaving))"
    using pd_run.run1 [OF pd_run.run0 pd_step.start [of cl t, OF assms(2) w]] by simp
  note def = client_thread_def client_body_def w bindR_eq_Inr_iff
  consider (lost) "\<not> ok" | (bad) res where "ok" "client_header E S1 = Inl res"
    | (unstored) S2 req jid es S3 res where "ok" "client_header E S1 = Inr (S2, req, jid, es)" "client_store E req jid es S2 = Inl (S3, res)"
    | (stored) S2 req jid es S3 req' where "ok" "client_header E S1 = Inr (S2, req, jid, es)" "client_store E req jid es S2 = Inr (S3, req')"
    by (metis obj_sumE surj_pair)
  then show ?thesis
  proof cases
    case lost
    then have "client_cleanup t S1 = Some S'" "resp = None" using assms(1) by (auto simp: def split: Option.bind_splits)
    then show ?thesis using run_leave [OF st [unfolded if_not_P [OF lost]] assms(2)] by fastforce
  next
    case bad
    then have c: "client_cleanup t S1 = Some S'" "rv = 1" using assms(1) by (auto simp: def split: Option.bind_splits)
    have "pd_run (S, cur, cl) 2 [] (S1, cur, cl(t \<mapsto> Leaving))"
      using run_step [OF st [unfolded if_P [OF bad(1)]] pd_step.bad_header [OF _ bad(2)]] by (simp add: numeral_2_eq_2)
    then show ?thesis using run_leave [of _ _ _ _ _ cl t, OF _ assms(2) c(1)] c(2) by (fastforce split: option.splits)
  next
    case unstored
    then have c: "client_cleanup t S3 = Some S'" "rv = 1" using assms(1) by (auto simp: def split: Option.bind_splits)
    have "pd_run (S, cur, cl) 2 [] (S2, cur, cl(t \<mapsto> Numbered req jid es))"
      using run_step [OF st [unfolded if_P [OF unstored(1)]] pd_step.header [OF _ unstored(2)]] by (simp add: numeral_2_eq_2)
    then have "pd_run (S, cur, cl) 3 [] (S3, cur, cl(t \<mapsto> Leaving))" using run_step [OF _ pd_step.bad_store [OF _ unstored(3)]] by fastforce
    then show ?thesis using run_leave [of _ _ _ _ _ cl t, OF _ assms(2) c(1)] c(2) by (fastforce split: option.splits)
  next
    case stored
    then obtain S4 where a: "add_job (mem_j E) req' jid S3 = Inr S4" "client_cleanup t S4 = Some S'" "resp = Some (accept_resp jid)" "rv = 0"
      using assms(1) by (auto simp: def split: Option.bind_splits sum.splits)
    have "pd_run (S, cur, cl) 2 [] (S2, cur, cl(t \<mapsto> Numbered req jid es))"
      using run_step [OF st [unfolded if_P [OF stored(1)]] pd_step.header [OF _ stored(2)]] by (simp add: numeral_2_eq_2)
    moreover have "\<forall>q. queue S2 q \<longrightarrow> mem_j E \<notin> set q"
      using assms(3) same_jobs_client(1) [OF w] same_jobs_client(3) [OF stored(2)] by (simp add: same_jobs_def)
    ultimately have "pd_run (S, cur, cl) 5 [Accepted jid, Queued jid] (S4, cur, cl(t \<mapsto> Leaving))"
      using accept_run [OF _ stored(3) a(1) _ assms(4)] by fastforce
    then show ?thesis using run_leave [of _ _ _ _ _ cl t, OF _ assms(2) a(2)] a(3,4) by (fastforce simp: accept_resp_def)
  qed
qed

section \<open>Accepted and queued\<close>

text \<open>
  The numbers of the jobs whose clients have their answer but which are not queued yet. A job is
  queued once for every time it is accepted, later and not necessarily in the same order.
\<close>

fun replied_no :: "cpc \<Rightarrow> 32 word option" where
  "replied_no (Replied req jid) = Some jid"
| "replied_no _ = None"

definition ran_mset :: "('a \<Rightarrow> 'b option) \<Rightarrow> 'b multiset" where
  "ran_mset f = image_mset (\<lambda>a. the (f a)) (mset_set (dom f))"

definition unqueued :: "(nat \<Rightarrow> cpc option) \<Rightarrow> 32 word multiset" where
  "unqueued cl = ran_mset (\<lambda>t. Option.bind (cl t) replied_no)"

lemma ran_mset_upd: "finite (dom f) \<Longrightarrow> f a = None \<Longrightarrow> ran_mset (f(a \<mapsto> b)) = add_mset b (ran_mset f)"
  unfolding ran_mset_def by (auto simp: domIff intro!: image_mset_cong)

lemma ran_mset_del: "finite (dom f) \<Longrightarrow> f a = Some b \<Longrightarrow> ran_mset f = add_mset b (ran_mset (f(a := None)))"
  using ran_mset_upd [of "f(a := None)" a b] by (simp add: fun_upd_idem)

lemma finite_replied: "finite (dom cl) \<Longrightarrow> finite (dom (\<lambda>t. Option.bind (cl t) replied_no))"
  by (erule rev_finite_subset) (auto simp: bind_eq_Some_conv)

lemma unqueued_upd: "unqueued (cl(t := x)) = ran_mset ((\<lambda>u. Option.bind (cl u) replied_no)(t := Option.bind x replied_no))"
  unfolding unqueued_def by (rule arg_cong [of _ _ ran_mset]) auto

lemma unqueued_idle: "Option.bind (cl t) replied_no = None \<Longrightarrow> Option.bind x replied_no = None \<Longrightarrow> unqueued (cl(t := x)) = unqueued cl"
  by (simp add: unqueued_upd fun_upd_idem) (simp add: unqueued_def)

lemma accept_number: "ntohl (jobid (accept_resp jid)) = jid"
  by (simp add: accept_resp_def)

lemma unqueued_reply:
  assumes "finite (dom cl)" "Option.bind (cl t) replied_no = None"
  shows "unqueued (cl(t \<mapsto> Replied req jid)) = add_mset jid (unqueued cl)"
  using ran_mset_upd [OF finite_replied [OF assms(1)], of t jid] assms(2) by (simp add: unqueued_upd) (simp add: unqueued_def)

lemma unqueued_enqueue:
  assumes "finite (dom cl)" "cl t = Some (Replied req jid)"
  shows "unqueued cl = add_mset jid (unqueued (cl(t \<mapsto> Leaving)))"
  using ran_mset_del [OF finite_replied [OF assms(1)], of t jid] assms(2) by (simp add: unqueued_upd) (simp add: unqueued_def)

lemma pd_step_unqueued:
  "pd_step s l s' \<Longrightarrow> finite (dom (snd (snd s))) \<Longrightarrow> finite (dom (snd (snd s'))) \<and>
    unqueued (snd (snd s)) + mset (accepted l) = mset (queued l) + unqueued (snd (snd s'))"
proof (induction rule: pd_step.induct)
  case (reply cl t req jid S cur)
  have "finite (dom (cl(t \<mapsto> Replied req jid)))" using reply by simp
  moreover have "unqueued (cl(t \<mapsto> Replied req jid)) = add_mset jid (unqueued cl)" using reply by (intro unqueued_reply) simp_all
  ultimately show ?case by (simp only: snd_conv accept_number labels_simps) simp
next
  case (enqueue cl t req jid jp S S' cur)
  have "finite (dom (cl(t \<mapsto> Leaving)))" using enqueue by simp
  moreover have "unqueued cl = add_mset jid (unqueued (cl(t \<mapsto> Leaving)))" using enqueue by (intro unqueued_enqueue) simp_all
  ultimately show ?case by (simp add: fun_upd_def)
qed (simp_all add: unqueued_idle)

lemma pd_run_unqueued:
  "pd_run s n ls s' \<Longrightarrow> finite (dom (snd (snd s))) \<Longrightarrow> finite (dom (snd (snd s'))) \<and>
    unqueued (snd (snd s)) + mset (accepted ls) = mset (queued ls) + unqueued (snd (snd s'))"
proof (induction rule: pd_run.induct)
  case (run1 s n ls s' l s'')
  then have "unqueued (snd (snd s)) + mset (accepted ls) = mset (queued ls) + unqueued (snd (snd s'))"
    "finite (dom (snd (snd s'')))" "unqueued (snd (snd s')) + mset (accepted l) = mset (queued l) + unqueued (snd (snd s''))"
    using pd_step_unqueued [OF run1(2)] by blast+
  then show ?case by (simp flip: add.assoc)
qed simp

section \<open>No job is lost\<close>

text \<open>
  The spool directory has the document and the request of every job that is queued or being
  printed, under the job's number, and no two such jobs have the same number.
\<close>

definition spooled :: "printd \<Rightarrow> nat \<Rightarrow> bool" where
  "spooled S j \<longleftrightarrow> spool S (data_path (jobname (jjobid S j))) \<noteq> None \<and> wf_req (jreq S j) \<and>
     spool S (req_path (jobname (jjobid S j))) = Some (enc_req (jreq S j)) \<and>
     1 \<le> sint (jjobid S j) \<and> sint (jjobid S j) < sint (nextjob S)"

definition durable :: "printd \<Rightarrow> nat \<Rightarrow> nat list \<Rightarrow> bool" where
  "durable S cur q \<longleftrightarrow> in_order S cur q \<and> 1 \<le> sint (nextjob S) \<and> distinct (pending S cur q) \<and>
     (\<forall>j \<in> set (live cur q). spooled S j)"

lemma spooled_files: "spooled S j \<longleftrightarrow> has_files S (jreq S j) (jjobid S j) \<and> 1 \<le> sint (jjobid S j) \<and> sint (jjobid S j) < sint (nextjob S)"
  by (auto simp: spooled_def has_files_def)

lemma durable_same:
  assumes "durable S cur q" "same_jobs S S'" "sint (nextjob S) \<le> sint (nextjob S')" "\<And>w. w \<in> set (pending S cur q) \<Longrightarrow> same_files S S' w"
  shows "durable S' cur q"
proof -
  have "spooled S' j" if "j \<in> set (live cur q)" for j
    using assms that has_files_same [of S "jreq S j" "jjobid S j" S'] by (auto simp: durable_def spooled_files same_jobs_def pending_def)
  then show ?thesis using assms(1-3) in_order_same [of S cur q S'] by (auto simp: durable_def)
qed

text \<open>
  The client threads with a number: the numbers are below the next one, different from each other and
  from those of the jobs in \<open>N\<close>, and once the files are written they stay.
\<close>

fun number_of :: "cpc \<Rightarrow> 32 word option" where
  "number_of (Numbered req jid es) = Some jid"
| "number_of (Stored req jid) = Some jid"
| "number_of (Replied req jid) = Some jid"
| "number_of _ = None"

fun kept :: "printd \<Rightarrow> cpc \<Rightarrow> bool" where
  "kept S (Numbered req jid es) = wf_req req"
| "kept S (Stored req jid) = has_files S req jid"
| "kept S (Replied req jid) = has_files S req jid"
| "kept S _ = True"

definition numbers :: "(nat \<Rightarrow> cpc option) \<Rightarrow> nat \<Rightarrow> 32 word option" where
  "numbers cl t = Option.bind (cl t) number_of"

definition clients_ok :: "printd \<Rightarrow> 32 word set \<Rightarrow> (nat \<Rightarrow> cpc option) \<Rightarrow> bool" where
  "clients_ok S N cl \<longleftrightarrow> inj_on (numbers cl) (dom (numbers cl)) \<and> (\<forall>t pc. cl t = Some pc \<longrightarrow> kept S pc) \<and>
     (\<forall>w \<in> ran (numbers cl). 1 \<le> sint w \<and> sint w < sint (nextjob S) \<and> w \<notin> N)"

lemma numbers_upd: "numbers (cl(t := x)) = (numbers cl)(t := Option.bind x number_of)"
  by (auto simp: numbers_def)

lemma kept_same: "kept S pc \<Longrightarrow> (\<And>w. number_of pc = Some w \<Longrightarrow> same_files S S' w) \<Longrightarrow> kept S' pc"
  by (cases pc) (auto intro: has_files_same)

lemma clients_ok_same:
  assumes "clients_ok S N cl" "sint (nextjob S) \<le> sint (nextjob S')" "N' \<subseteq> N" "\<And>w. w \<in> ran (numbers cl) \<Longrightarrow> same_files S S' w"
  shows "clients_ok S' N' cl"
proof -
  have "kept S' pc" if "cl t = Some pc" for t pc
  proof (rule kept_same)
    show "kept S pc" using assms(1) that by (auto simp: clients_ok_def)
    show "same_files S S' w" if "number_of pc = Some w" for w
    proof -
      have "numbers cl t = Some w" using that \<open>cl t = Some pc\<close> by (simp add: numbers_def)
      then show ?thesis using assms(4) ranI by metis
    qed
  qed
  then show ?thesis using assms(1-3) by (auto simp: clients_ok_def)
qed

lemma inj_on_upd_None: "inj_on f (dom f) \<Longrightarrow> inj_on (f(t := None)) (dom (f(t := None)))"
  by (auto simp: inj_on_def)

lemma inj_on_upd_same: "inj_on f (dom f) \<Longrightarrow> f t = Some w \<Longrightarrow> inj_on (f(t \<mapsto> w)) (dom (f(t \<mapsto> w)))"
  by (simp add: fun_upd_idem)

lemma inj_on_upd_new: "inj_on f (dom f) \<Longrightarrow> w \<notin> ran f \<Longrightarrow> inj_on (f(t \<mapsto> w)) (dom (f(t \<mapsto> w)))"
  by (auto simp: inj_on_def ran_def)

lemma clients_ok_idle:
  assumes "clients_ok S N cl" "\<And>pc. x = Some pc \<Longrightarrow> number_of pc = None"
  shows "clients_ok S N (cl(t := x))"
proof -
  have n: "Option.bind x number_of = None" using assms(2) by (cases x) auto
  have k: "kept S pc" if "x = Some pc" for pc using assms(2) [OF that] by (cases pc) auto
  have "ran ((numbers cl)(t := None)) \<subseteq> ran (numbers cl)" by (auto simp: ran_def split: if_splits)
  then show ?thesis using assms(1) k inj_on_upd_None [of "numbers cl" t] unfolding clients_ok_def numbers_upd n by auto
qed

lemma clients_ok_moves:
  assumes "clients_ok S N cl" "cl t = Some pc" "number_of pc = Some w" "number_of pc' = Some w" "kept S' pc'"
    "nextjob S' = nextjob S" "\<And>v. v \<noteq> w \<Longrightarrow> same_files S S' v"
  shows "clients_ok S' N (cl(t \<mapsto> pc'))"
proof -
  have n: "numbers (cl(t \<mapsto> pc')) = numbers cl" using assms(2-4) by (simp add: numbers_upd numbers_def fun_upd_idem)
  have "kept S' x" if "cl u = Some x" "u \<noteq> t" for u x
  proof (rule kept_same [of S])
    show "kept S x" using assms(1) that by (auto simp: clients_ok_def)
    fix v assume "number_of x = Some v"
    then have "numbers cl u = Some v" "numbers cl t = Some w" using that assms(2,3) by (simp_all add: numbers_def)
    then have "v \<noteq> w" using assms(1) that(2) unfolding clients_ok_def inj_on_def by (metis domI)
    then show "same_files S S' v" by (rule assms(7))
  qed
  then show ?thesis using assms(1,5,6) n by (auto simp: clients_ok_def)
qed

lemma clients_ok_new:
  assumes "clients_ok S N cl" "sint (nextjob S) < sint (nextjob S')" "N' \<subseteq> N" "\<forall>w. same_files S S' w"
    "number_of pc = Some (nextjob S)" "kept S' pc" "1 \<le> sint (nextjob S)" "nextjob S \<notin> N"
  shows "clients_ok S' N' (cl(t \<mapsto> pc))"
proof -
  have c: "clients_ok S' N' cl" by (rule clients_ok_same [OF assms(1)]) (use assms(2-4) in auto)
  have "nextjob S \<notin> ran (numbers cl)" using assms(1) by (auto simp: clients_ok_def)
  moreover have "ran ((numbers cl)(t \<mapsto> nextjob S)) \<subseteq> insert (nextjob S) (ran (numbers cl))"
    by (auto simp: ran_def split: if_splits)
  ultimately show ?thesis
    using c assms(2,3,5-8) inj_on_upd_new [of "numbers cl" "nextjob S" t] unfolding clients_ok_def numbers_upd by auto
qed

definition sys_ok :: "pd_sys \<Rightarrow> nat list \<Rightarrow> bool" where
  "sys_ok s q \<longleftrightarrow> (case s of (S, cur, cl) \<Rightarrow> durable S cur q \<and> clients_ok S (set (pending S cur q)) cl)"

lemma sys_ok_start: "durable S 0 q \<Longrightarrow> sys_ok (S, 0, Map.empty) q"
proof -
  have "numbers Map.empty = Map.empty" by (rule ext) (simp add: numbers_def)
  then show "durable S 0 q \<Longrightarrow> sys_ok (S, 0, Map.empty) q" by (simp add: sys_ok_def clients_ok_def)
qed

lemma sys_ok_client:
  assumes "sys_ok (S, cur, cl) q" "same_jobs S S'" "sint (nextjob S) \<le> sint (nextjob S')"
    "\<And>w. w \<in> set (pending S cur q) \<union> ran (numbers cl') \<Longrightarrow> same_files S S' w" "clients_ok S (set (pending S cur q)) cl'"
  shows "sys_ok (S', cur, cl') q"
proof -
  have d: "durable S cur q" "in_order S cur q" using assms(1) by (auto simp: sys_ok_def durable_def)
  have "clients_ok S' (set (pending S' cur q)) cl'"
    by (rule clients_ok_same [OF assms(5)]) (use assms(3,4) in_order_same [OF d(2) assms(2)] in auto)
  then show ?thesis using durable_same [OF d(1) assms(2,3)] assms(4) by (simp add: sys_ok_def)
qed

lemma sys_ok_header:
  assumes "sys_ok (S, cur, cl) q" "client_header E S = Inr (S', req, jid, es)" "sint (nextjob S) < 2 ^ 31 - 1"
  shows "sys_ok (S', cur, cl(t \<mapsto> Numbered req jid es)) q \<and> sint (nextjob S') = sint (nextjob S) + 1"
proof -
  note h = client_header_eq [OF assms(2)] and j = same_jobs_client(3) [OF assms(2)]
  have d: "durable S cur q" and c: "clients_ok S (set (pending S cur q)) cl" using assms(1) by (auto simp: sys_ok_def)
  have n: "sint (nextjob S') = sint (nextjob S) + 1" "1 \<le> sint (nextjob S)"
    using sint_next_no [of "nextjob S"] d assms(3) h(1) by (auto simp: durable_def)
  have f: "same_files S S' w" for w using h(1) by (simp add: same_files_def)
  have d': "durable S' cur q" by (rule durable_same [OF d j]) (use n f in auto)
  have p: "pending S' cur q = pending S cur q" using in_order_same j d by (auto simp: durable_def)
  have "nextjob S \<notin> set (pending S cur q)" using d by (auto simp: durable_def pending_def spooled_def)
  then have "clients_ok S' (set (pending S' cur q)) (cl(t \<mapsto> Numbered req jid es))"
    by (intro clients_ok_new [OF c]) (use n f p h in auto)
  then show ?thesis using d' n by (simp add: sys_ok_def)
qed

lemma sys_ok_enqueue:
  assumes "sys_ok (S, cur, cl) q" "cl t = Some (Replied req jid)" "add_job jp req jid S = Inr S'"
    "\<forall>q. queue S q \<longrightarrow> jp \<notin> set q" "cur = 0 \<or> jp \<noteq> cur"
  shows "sys_ok (S', cur, cl(t \<mapsto> Leaving)) (q @ [jp])"
proof -
  have d: "durable S cur q" and c: "clients_ok S (set (pending S cur q)) cl" using assms(1) by (auto simp: sys_ok_def)
  note e = enqueue_in_order [OF _ assms(3-5), of q] and o = d [unfolded durable_def, THEN conjunct1]
  have t: "numbers cl t = Some jid" using assms(2) by (simp add: numbers_def)
  then have w: "1 \<le> sint jid" "sint jid < sint (nextjob S)" "jid \<notin> set (pending S cur q)" "has_files S req jid"
    using c assms(2) ranI [of "numbers cl" t jid] kept.simps(3) unfolding clients_ok_def by blast+
  have fl: "same_files S S' w" for w using e(7) [OF o] by (simp add: same_files_def)
  have f: "jp \<notin> set q" "jp \<noteq> cur" using assms(4,5) o e(1) [OF o] by (auto simp: in_order_def)
  have "spooled S' j" if "j \<in> set (live cur (q @ [jp]))" for j
  proof (cases "j = jp")
    case True
    then show ?thesis using w e(4-6) [OF o] has_files_same [OF w(4) fl] by (simp add: spooled_files)
  next
    case False
    then have "spooled S j" using that d by (auto simp: durable_def live_def split: if_splits)
    then show ?thesis using False e(4-6) [OF o] has_files_same [OF _ fl] by (simp add: spooled_files)
  qed
  then have "durable S' cur (q @ [jp])" using d w(3) e(2,3,6) [OF o] by (simp add: durable_def)
  moreover have "clients_ok S (insert jid (set (pending S cur q))) (cl(t \<mapsto> Leaving))"
  proof -
    have "jid \<notin> ran (numbers (cl(t \<mapsto> Leaving)))"
      using c t by (auto simp: clients_ok_def numbers_upd ran_def inj_on_def split: if_splits) (metis domI)
    then show ?thesis using clients_ok_idle [OF c, of "Some Leaving" t] by (auto simp: clients_ok_def)
  qed
  then have "clients_ok S' (set (pending S' cur (q @ [jp]))) (cl(t \<mapsto> Leaving))"
    by (rule clients_ok_same) (use e(3,6) [OF o] fl in auto)
  ultimately show ?thesis by (simp add: sys_ok_def)
qed

lemma sys_ok_kept: "sys_ok (S, cur, cl) q \<Longrightarrow> cl t = Some pc \<Longrightarrow> kept S pc"
  by (simp add: sys_ok_def clients_ok_def)

lemma nextjob_spool: "S' = S\<lparr>spool := sp\<rparr> \<Longrightarrow> nextjob S' = nextjob S"
  by simp

lemma sys_ok_store:
  assumes "sys_ok (S, cur, cl) q" "cl t = Some (Numbered req jid es)" "S' = S\<lparr>spool := sp\<rparr>" "\<forall>w. w \<noteq> jid \<longrightarrow> same_files S S' w"
    "number_of pc = Some jid" "kept S' pc"
  shows "sys_ok (S', cur, cl(t \<mapsto> pc)) q"
proof -
  have d: "durable S cur q" and c: "clients_ok S (set (pending S cur q)) cl" using assms(1) by (auto simp: sys_ok_def)
  have j: "same_jobs S S'" using assms(3) by (simp add: same_jobs_def)
  have p: "pending S' cur q = pending S cur q" using in_order_same [OF _ j] d by (auto simp: durable_def)
  have "numbers cl t = Some jid" using assms(2) by (simp add: numbers_def)
  then have "jid \<notin> set (pending S cur q)" using c ranI unfolding clients_ok_def by metis
  then have "durable S' cur q" by (intro durable_same [OF d j]) (use assms(3,4) in auto)
  moreover have "clients_ok S' (set (pending S cur q)) (cl(t \<mapsto> pc))"
    by (rule clients_ok_moves [OF c assms(2)]) (use assms in auto)
  ultimately show ?thesis using p by (simp add: sys_ok_def)
qed

lemma sys_ok_pick:
  assumes "sys_ok (S, 0, cl) q" "jobhead S \<noteq> 0" "pick_up E S = Inr S'"
  shows "sys_ok (S', jobhead S, cl) (tl q)" "nextjob S' = nextjob S"
proof -
  have d: "durable S 0 q" and c: "clients_ok S (set (pending S 0 q)) cl" using assms(1) by (auto simp: sys_ok_def)
  note f = pick_up_frame [OF assms(3)]
  have q: "queue S q" using d by (simp add: durable_def in_order_def)
  then have h: "q = jobhead S # tl q" "queue S' (tl q)" using assms(2) jq.front_Cons jq.deq_front f(1) by blast+
  then have l: "live (jobhead S) (tl q) = live 0 q" using assms(2) by (simp add: live_def)
  have "jobhead S \<notin> set (tl q)" using jq.nodes [OF q] h(1) by (metis distinct.simps(2))
  then have o: "in_order S' (jobhead S) (tl q)" using h(2) by (simp add: in_order_def)
  have p: "pending S' (jobhead S) (tl q) = pending S 0 q" using l f(2) by (simp add: pending_def)
  have "durable S' (jobhead S) (tl q)" using d o p l f by (simp add: durable_def spooled_def)
  moreover have "clients_ok S' (set (pending S' (jobhead S) (tl q))) cl"
    by (rule clients_ok_same [OF c]) (use p f in \<open>auto simp: same_files_def\<close>)
  ultimately show "sys_ok (S', jobhead S, cl) (tl q)" by (simp add: sys_ok_def)
  show "nextjob S' = nextjob S" by (rule f(5))
qed

lemma sys_ok_print:
  assumes "sys_ok (S, cur, cl) q" "cur \<noteq> 0" "print_job E cur S = Some (Inr (S', out))"
  shows "\<exists>q'. sys_ok (S', 0, cl) q' \<and> nextjob S' = nextjob S"
proof -
  have d: "durable S cur q" and c: "clients_ok S (set (pending S cur q)) cl" using assms(1) by (auto simp: sys_ok_def)
  have dis: "jjobid S x \<noteq> jjobid S cur" if "x \<in> set q" for x
    using assms(2) d that by (auto simp: durable_def pending_def live_def) (metis imageI)
  have n0: "0 \<notin> set q" and cq: "cur \<notin> set q" using d jq.nodes by (auto simp: durable_def in_order_def)
  have out: "jjobid S cur \<notin> ran (numbers cl)" using c assms(2) by (auto simp: clients_ok_def pending_def live_def)
  from assms(3) show ?thesis
  proof (cases rule: print_job_cases)
    case cancelled
    then have "durable S' 0 q" using assms(2) d n0 by (auto simp: durable_def in_order_def pending_def live_def)
    moreover have "clients_ok S' (set (pending S' 0 q)) cl"
      by (rule clients_ok_same [OF c]) (use cancelled in \<open>auto simp: pending_def live_def same_files_def\<close>)
    ultimately show ?thesis using cancelled by (auto simp: sys_ok_def)
  next
    case deferred
    have "queue (replace_job cur S) (cur # q)" using assms(2) d cq jq.push [of S q cur] by (auto simp: durable_def in_order_def)
    then have "durable S' 0 (cur # q)"
      using deferred assms(2) d n0 by (auto simp: durable_def in_order_def pending_def live_def spooled_def)
    moreover have "clients_ok S' (set (pending S' 0 (cur # q))) cl"
      by (rule clients_ok_same [OF c]) (use deferred assms(2) in \<open>auto simp: pending_def live_def same_files_def\<close>)
    ultimately show ?thesis using deferred by (auto simp: sys_ok_def)
  next
    case (printed sent)
    have "durable S' 0 q"
      using printed assms(2) d n0 dis by (auto simp: durable_def in_order_def pending_def live_def spooled_def)
    moreover have "clients_ok S' (set (pending S' 0 q)) cl"
      by (rule clients_ok_same [OF c]) (use printed out in \<open>auto simp: pending_def live_def same_files_def\<close>)
    ultimately show ?thesis using printed by (auto simp: sys_ok_def)
  qed
qed

lemma pd_step_sys_ok:
  assumes "pd_step s l s'" "sys_ok s q" "sint (nextjob (fst s)) < 2 ^ 31 - 1"
  shows "\<exists>q'. sys_ok s' q' \<and> sint (nextjob (fst s')) \<le> sint (nextjob (fst s)) + 1"
  using assms
proof (induction rule: pd_step.induct)
  case (start cl t w fd S S' ok cur)
  note c = add_worker_frame [of w t fd S, unfolded start(2)]
  have "sys_ok (S', cur, cl(t \<mapsto> if ok then Started else Leaving)) q"
    using start(3) by (intro sys_ok_client [OF start(3) same_jobs_client(1) [OF start(2)]] clients_ok_idle)
      (use c in \<open>auto simp: same_files_def sys_ok_def split: if_splits\<close>)
  then show ?case using c by auto
next
  case (header cl t E S S' req jid es cur)
  then show ?case using sys_ok_header [of S cur cl q E S' req jid es t] by auto
next
  case (bad_header cl t E S res cur)
  have "sys_ok (S, cur, cl(t \<mapsto> Leaving)) q"
    using bad_header(3) by (auto simp: sys_ok_def intro!: clients_ok_idle)
  then show ?case by auto
next
  case (store cl t req jid es E S S' req' cur)
  have "wf_req req" by (rule sys_ok_kept [OF store(3,1), simplified])
  then have e: "S' = S\<lparr>spool := spool S'\<rparr>" "has_files S' req' jid" "\<forall>w. w \<noteq> jid \<longrightarrow> same_files S S' w"
    using client_store_eq(1) [OF store(2)] by blast+
  have "sys_ok (S', cur, cl(t \<mapsto> Stored req' jid)) q" by (rule sys_ok_store [OF store(3,1) e(1,3)]) (use e(2) in auto)
  moreover have "nextjob S' = nextjob S" by (rule nextjob_spool [OF e(1)])
  ultimately show ?case by auto
next
  case (bad_store cl t req jid es E S S' res cur)
  have w: "wf_req req" by (rule sys_ok_kept [OF bad_store(3,1), simplified])
  note e = client_store_eq(2) [OF bad_store(2)]
  have "sys_ok (S', cur, cl(t \<mapsto> Numbered req jid es)) q"
    by (rule sys_ok_store [OF bad_store(3,1) conjunct1 [OF e] conjunct2 [OF e]]) (use w in auto)
  then have "sys_ok (S', cur, (cl(t \<mapsto> Numbered req jid es))(t \<mapsto> Leaving)) q"
    using clients_ok_idle [of S' _ "cl(t \<mapsto> Numbered req jid es)" "Some Leaving" t]
    unfolding sys_ok_def prod.case by (metis number_of.simps(5) option.inject)
  moreover have "nextjob S' = nextjob S" by (rule nextjob_spool [OF conjunct1 [OF e]])
  ultimately show ?case by auto
next
  case (reply cl t req jid S cur)
  have "sys_ok (S, cur, cl(t \<mapsto> Replied req jid)) q"
    using reply unfolding sys_ok_def prod.case
    by (intro conjI clients_ok_moves [of S _ cl t "Stored req jid"])
      (use sys_ok_kept [OF reply(2,1)] in \<open>auto simp: same_files_def\<close>)
  then show ?case by auto
next
  case (enqueue cl t req jid jp S S' cur)
  have "in_order S cur q" using enqueue(5) by (simp add: sys_ok_def durable_def)
  then show ?case using sys_ok_enqueue [OF enqueue(5,1,2,3,4)] enqueue_in_order(6) [OF _ enqueue(2-4)] by auto
next
  case (leave cl t S S' cur)
  note c = client_cleanup_frame [OF leave(2)]
  have "sys_ok (S', cur, cl(t := None)) q"
    using leave(3) by (intro sys_ok_client [OF leave(3) same_jobs_client(2) [OF leave(2)]] clients_ok_idle)
      (use c in \<open>auto simp: same_files_def sys_ok_def\<close>)
  then show ?case using c by auto
next
  case (pick S E S' cl)
  then show ?case using sys_ok_pick [of S cl q E S'] by auto
next
  case (print cur E S S' out cl)
  then show ?case using sys_ok_print [of S cur cl q E S' out] by auto
next
  case (hup S S' cur cl)
  then have "sys_ok (S', cur, cl) q"
    by (intro sys_ok_client [OF hup(2)]) (auto simp: hup_eq same_jobs_def same_files_def sys_ok_def)
  then show ?case using hup by (auto simp: hup_eq)
qed

lemma pd_run_sys_ok:
  assumes "pd_run s n ls s'" "sys_ok s q" "sint (nextjob (fst s)) + int n < 2 ^ 31"
  shows "\<exists>q'. sys_ok s' q' \<and> sint (nextjob (fst s')) \<le> sint (nextjob (fst s)) + int n"
  using assms
proof (induction rule: pd_run.induct)
  case (run1 s n ls s' l s'')
  then obtain q1 where q1: "sys_ok s' q1" "sint (nextjob (fst s')) \<le> sint (nextjob (fst s)) + int n" by auto
  then obtain q2 where "sys_ok s'' q2" "sint (nextjob (fst s'')) \<le> sint (nextjob (fst s')) + 1"
    using pd_step_sys_ok [OF run1(2) q1(1)] run1(5) by auto
  then show ?case using q1(2) by (intro exI [of _ q2]) auto
qed auto

end
