(* ===== verification/Getopt.thy ===== *)
theory Getopt
  imports Prelude
begin

text \<open>
  The library function \<^verbatim>\<open>getopt\<close>, as POSIX has it, for options without arguments: words that begin with a minus
  sign and are longer than it are sequences of options; parsing stops at the first other word and behind
  the word \<^verbatim>\<open>--\<close>. The result is what the calls return one after the other, \<^verbatim>\<open>?\<close> for a character that is no
  option, and the words that are left.
\<close>

fun getopt_all :: "string \<Rightarrow> string list \<Rightarrow> string \<times> string list" where
  "getopt_all opts [] = ([], [])"
| "getopt_all opts (w # ws) =
    (if w = ''--'' then ([], ws)
     else if take 1 w = ''-'' \<and> 1 < length w then
       (case getopt_all opts ws of (cs, rest) \<Rightarrow>
          (map (\<lambda>c. if c \<in> set opts \<and> c \<noteq> CHR '':'' then c else CHR ''?'') (tl w) @ cs, rest))
     else ([], w # ws))"

lemma getopt_flags:
  "take 1 f \<noteq> ''-'' \<or> length f \<le> 1 \<Longrightarrow> c \<in> set opts \<Longrightarrow> c \<noteq> CHR '':'' \<Longrightarrow> c \<noteq> CHR ''-'' \<Longrightarrow>
    getopt_all opts (map (\<lambda>n. CHR ''-'' # replicate (Suc n) c) ns @ [f]) = (concat (map (\<lambda>n. replicate (Suc n) c) ns), [f])"
  by (induction ns) auto

lemma getopt_bad: "c \<notin> set opts \<Longrightarrow> c \<noteq> CHR ''-'' \<Longrightarrow> CHR ''?'' \<in> set (fst (getopt_all opts ((CHR ''-'' # c # w) # ws)))"
  by (auto split: prod.splits)

end
