(* ===== verification/Print_Main.thy ===== *)
theory Print_Main
  imports Ipp Getopt
begin

text \<open>
  The two programs of the print system around the daemon's threads: the start-up and the accept
  loop of \<^verbatim>\<open>printer/printd.c\<close>, and the \<^verbatim>\<open>print\<close> command of \<^verbatim>\<open>printer/print.c\<close>, which sends a document to
  the daemon.
\<close>

section \<open>The daemon's main thread\<close>

text \<open>
  What the system calls of \<^verbatim>\<open>main\<close> return; \<open>m_servers\<close> are the results of \<^verbatim>\<open>initserver\<close> for the addresses of the
  host, \<open>m_lp\<close> the user and group of the account \<^verbatim>\<open>lp\<close>.
\<close>

record main_env =
  m_argc :: nat
  m_sigaction :: int
  m_sigmask :: int
  m_host :: "string option"
  m_addrs :: int
  m_servers :: "int list"
  m_lp :: "(nat \<times> nat) option"
  m_setids :: bool
  m_held :: "(int \<times> int \<times> ltype \<times> int) list"
  m_junk :: string
  m_conf :: "string option"
  m_gai :: name_service
  m_thread1 :: int
  m_thread2 :: int
  m_mem :: "nat \<Rightarrow> nat"
  m_reqs :: "string list option"

definition rendezvous :: "int list \<Rightarrow> int set \<times> int" where
  "rendezvous fds = fold (\<lambda>fd (s, maxfd). if fd \<ge> 0 then (insert fd s, max fd maxfd) else (s, maxfd)) fds ({}, -1)"

definition become_lp :: "main_env \<Rightarrow> pd_err + unit" where
  "become_lp M = (case m_lp M of
      None \<Rightarrow> Inl (Log_sys ''can't find user lp'')
    | Some (uid, gid) \<Rightarrow> if uid = 0 then Inl (Log_quit ''user lp is privileged'')
        else if \<not> m_setids M then Inl (Log_sys ''can't change IDs to user lp'') else Inr ())"

definition printd_start :: "main_env \<Rightarrow> printd \<Rightarrow> pd_err + (printd \<times> int set \<times> int)" where
  "printd_start M S =
    (if m_argc M \<noteq> 1 then Inl (Log_quit ''usage: printd'')
     else if m_sigaction M < 0 then Inl (Log_sys ''sigaction failed'')
     else if m_sigmask M \<noteq> 0 then Inl (Log_sys ''pthread_sigmask failed'')
     else if m_host M = None then Inl (Log_sys ''gethostname error'')
     else if m_addrs M \<noteq> 0 then Inl (Log_quit ''getaddrinfo error'')
     else case rendezvous (m_servers M) of (fds, maxfd) \<Rightarrow>
       if maxfd = -1 then Inl (Log_quit ''service not enabled'')
       else bindR (become_lp M) (\<lambda>_.
         bindR (init_request (m_held M) (m_junk M) S) (\<lambda>S.
         bindR (init_printer (m_gai M) (m_conf M) S) (\<lambda>S.
         if m_thread1 M \<noteq> 0 \<or> m_thread2 M \<noteq> 0 then Inl (Log_quit ''can't create thread'')
         else bindR (build_qonstart (m_mem M) (m_reqs M) S) (\<lambda>S. Inr (S, fds, maxfd))))))"

text \<open>
  One turn of the accept loop: the sockets of the client threads that are started. A failed
  \<^verbatim>\<open>accept\<close> (a negative result) is logged, and its thread started all the same.
\<close>

definition accept_turn :: "(int \<Rightarrow> bool) \<Rightarrow> (int \<Rightarrow> int) \<Rightarrow> int \<Rightarrow> int list" where
  "accept_turn isset accept maxfd = map accept (filter isset [0..maxfd])"

section \<open>The print command\<close>

text \<open>
  The environment of \<^verbatim>\<open>submit_file\<close>: the user's name (\<open>None\<close>: no entry), the reads of the document,
  the results of the writes, the daemon's answer, and the uninitialised bytes of the request.
\<close>

record senv =
  s_pwd :: "string option"
  s_file :: "event list"
  s_ws :: "int list"
  s_resp :: "event list"
  s_junk :: printreq

datatype verdict = Job_id int | Rejected string | Err_sys string | Err_quit string | Buffer_overrun

text \<open>\<^verbatim>\<open>strcpy\<close> into an array with old contents, and \<^verbatim>\<open>strncpy\<close>, which pads with null bytes.\<close>

definition strcpy :: "string \<Rightarrow> string \<Rightarrow> string" where
  "strcpy s old = s @ NUL # drop (Suc (length s)) old"

definition strncpy :: "nat \<Rightarrow> string \<Rightarrow> string" where
  "strncpy n s = take n s @ replicate (n - length s) NUL"

definition usernm_field :: "string option \<Rightarrow> string \<Rightarrow> string" where
  "usernm_field pwd old = (case pwd of
      None \<Rightarrow> strcpy ''unknown'' old
    | Some nm \<Rightarrow> strncpy (USERNM_MAX - 1) nm @ [NUL])"

definition jobnm_field :: "string \<Rightarrow> string \<Rightarrow> string" where
  "jobnm_field fnm old = (let len = length fnm in
     if len \<ge> JOBNM_MAX then strcpy (''... '' @ take (JOBNM_MAX - 5) (drop (len - JOBNM_MAX + 5) fnm)) old
     else strcpy fnm old)"

definition build_req :: "senv \<Rightarrow> string \<Rightarrow> nat \<Rightarrow> bool \<Rightarrow> printreq" where
  "build_req E fnm nbytes text =
     \<lparr>size = htonl (word_of_nat nbytes), flags = (if text then htonl PR_TEXT else 0),
      usernm = usernm_field (s_pwd E) (usernm (s_junk E)), jobnm = jobnm_field fnm (jobnm (s_junk E))\<rparr>"

text \<open>
  The copy loop: \<open>Inl\<close> is an exit, \<open>Inr\<close> what was sent and the remaining results of \<^verbatim>\<open>write\<close>. A failing
  \<^verbatim>\<open>read\<close> returns -1, which is not 0, so \<^verbatim>\<open>writen\<close> is called with the largest size there is.
\<close>

function submit_loop :: "string \<Rightarrow> event list \<Rightarrow> int list \<Rightarrow> string \<times> (verdict + int list)" where
  "submit_loop sent es ws = (case sys_read IOBUFSZ es of
      (_, Inl e) \<Rightarrow> (sent, Inl Buffer_overrun)
    | (_, Inr []) \<Rightarrow> (sent, Inr ws)
    | (es, Inr (c # s)) \<Rightarrow> (case writen (c # s) ws of (ws, nw, out) \<Rightarrow>
        if nw \<noteq> int (length (c # s)) then
          (sent @ out, Inl (if nw < 0 then Err_sys ''can't write to print server'' else Err_quit ''short write to print server''))
        else submit_loop (sent @ out) es ws))"
  by pat_completeness auto
termination
  by (relation "measure (\<lambda>(sent, es, ws). ev_size es)") (auto simp: IOBUFSZ_def dest: sys_read_size [OF sym])

declare submit_loop.simps [simp del]

definition RESP_LEN :: nat where "RESP_LEN = 520"

definition read_response :: "event list \<Rightarrow> verdict" where
  "read_response es = (case readn RESP_LEN es of (_, nr, s) \<Rightarrow>
     if nr \<noteq> int RESP_LEN then Err_sys ''can't read response from server''
     else if dec32 (take 4 s) \<noteq> 0 then Rejected (c_str (drop 8 s))
     else Job_id (uint (ntohl (dec32 (take 4 (drop 4 s))))))"

text \<open>\<^verbatim>\<open>submit_file\<close>: the bytes sent to the daemon and how it ends.\<close>

definition submit_file :: "senv \<Rightarrow> string \<Rightarrow> nat \<Rightarrow> bool \<Rightarrow> string \<times> verdict" where
  "submit_file E fnm nbytes text =
    (case writen (enc_req (build_req E fnm nbytes text)) (s_ws E) of (ws, nw, sent) \<Rightarrow>
       if nw \<noteq> int REQ_LEN then
         (sent, if nw < 0 then Err_sys ''can't write to print server'' else Err_quit ''short write to print server'')
       else case submit_loop sent (s_file E) ws of
         (sent, Inl v) \<Rightarrow> (sent, v)
       | (sent, Inr ws) \<Rightarrow> (sent, read_response (s_resp E)))"

text \<open>
  \<^verbatim>\<open>main\<close> of the command, from the look-up of the print server on: the addresses are tried in turn
  (each given by its connection attempts), and the first that answers gets the file.
\<close>

fun try_addrs :: "((nat \<Rightarrow> int) \<times> (nat \<Rightarrow> bool)) list \<Rightarrow> int option" where
  "try_addrs [] = None"
| "try_addrs ((sock, conn) # as) =
    (let sfd = fst (connect_retry sock conn) in if sfd < 0 then try_addrs as else Some sfd)"

definition print_main :: "string option \<Rightarrow> (string \<Rightarrow> string \<Rightarrow> int \<times> ((nat \<Rightarrow> int) \<times> (nat \<Rightarrow> bool)) list) \<Rightarrow>
    senv \<Rightarrow> string \<Rightarrow> nat \<Rightarrow> bool \<Rightarrow> string \<times> verdict" where
  "print_main conf getaddrlist E fnm nbytes text = (case get_printserver conf of
      Inl _ \<Rightarrow> ([], Err_sys ''can't open /etc/printer.conf'')
    | Inr None \<Rightarrow> ([], Err_quit ''print: no print server defined'')
    | Inr (Some host) \<Rightarrow> (case getaddrlist host ''print'' of (err, ailist) \<Rightarrow>
        if err \<noteq> 0 then ([], Err_quit ''print: getaddrinfo error'')
        else (case try_addrs ailist of
           None \<Rightarrow> ([], Err_quit ''print: can't contact'')
         | Some sfd \<Rightarrow> submit_file E fnm nbytes text)))"

text \<open>
  The whole command. \<open>opn\<close> is what \<^verbatim>\<open>open\<close> returns for the file, \<open>stat\<close> what \<^verbatim>\<open>fstat\<close> says: whether it is a regular file,
  and its size; \<open>None\<close>: it fails. \<^verbatim>\<open>argv\<close> begins with the name of the command.
\<close>

definition print_cmd_args :: "string list \<Rightarrow> verdict + bool \<times> string" where
  "print_cmd_args argv = (case getopt_all ''t'' (tl argv) of (cs, rest) \<Rightarrow>
     if CHR ''?'' \<in> set cs \<or> length rest \<noteq> 1 then Inl (Err_quit ''usage: print [-t] filename'')
     else Inr (CHR ''t'' \<in> set cs, hd rest))"

definition print_cmd :: "(string \<Rightarrow> int) \<Rightarrow> (string \<Rightarrow> (bool \<times> nat) option) \<Rightarrow> string option \<Rightarrow>
    (string \<Rightarrow> string \<Rightarrow> int \<times> ((nat \<Rightarrow> int) \<times> (nat \<Rightarrow> bool)) list) \<Rightarrow> senv \<Rightarrow> string list \<Rightarrow> string \<times> verdict" where
  "print_cmd opn stat conf getaddrlist E argv = (case print_cmd_args argv of
      Inl v \<Rightarrow> ([], v)
    | Inr (text, fnm) \<Rightarrow>
        if opn fnm < 0 then ([], Err_sys ''print: can't open'')
        else (case stat fnm of
            None \<Rightarrow> ([], Err_sys ''print: can't stat'')
          | Some (regular, nbytes) \<Rightarrow>
              if \<not> regular then ([], Err_quit ''print: must be a regular file'')
              else print_main conf getaddrlist E fnm nbytes text))"

end
