(* ===== verification/Printer_Restart.thy ===== *)
theory Printer_Restart
  imports Printer_Run Print_Main
begin

text \<open>
  Restarting the daemon: what \<^verbatim>\<open>build_qonstart\<close> and \<^verbatim>\<open>init_request\<close> make of the files that an earlier run
  left behind.
\<close>

section \<open>The queue\<close>

text \<open>What the queue must contain for a request file \<open>n\<close> of the spool directory.\<close>

definition requeued :: "printd \<Rightarrow> nat list \<Rightarrow> filesystem \<Rightarrow> string \<Rightarrow> bool" where
  "requeued S q fs n \<longleftrightarrow> (\<forall>c. n \<noteq> ''.'' \<and> n \<noteq> ''..'' \<and> fs (req_path n) = Some c \<and> REQ_LEN \<le> length c \<longrightarrow>
     (\<exists>j \<in> set q. jjobid S j = word_of_int (atol n) \<and> jreq S j = dec_req (take REQ_LEN c)))"

lemma requeued_mono:
  assumes "requeued S q fs n" "\<And>j. j \<in> set q \<Longrightarrow> jjobid S' j = jjobid S j \<and> jreq S' j = jreq S j" "set q \<subseteq> set q'"
  shows "requeued S' q' fs n"
  using assms by (fastforce simp: requeued_def)

text \<open>Files that do not belong to a damaged request are untouched.\<close>

definition keeps_spool :: "printd \<Rightarrow> printd \<Rightarrow> bool" where
  "keeps_spool S S' \<longleftrightarrow> (\<forall>n c. spool S (req_path n) = Some c \<longrightarrow> REQ_LEN \<le> length c \<longrightarrow>
     spool S' (req_path n) = Some c \<and> spool S' (data_path n) = spool S (data_path n))"

lemma keeps_spool_trans:
  "keeps_spool S S1 \<Longrightarrow> keeps_spool S1 S2 \<Longrightarrow> keeps_spool S S2"
  unfolding keeps_spool_def by metis

lemma build_loop_ok:
  assumes "queue S q" "inj mem" "\<And>i. mem i \<noteq> 0" "set q \<subseteq> mem ` {..<i}"
    "\<And>n. n \<in> set ns \<Longrightarrow> length (req_path n) < FILENMSZ"
  shows "\<exists>S' r. build_loop mem i ns S = Inr S' \<and> queue S' (q @ r) \<and> nextjob S' = nextjob S \<and> keeps_spool S S' \<and>
    (\<forall>j \<in> set q. jjobid S' j = jjobid S j \<and> jreq S' j = jreq S j) \<and> (\<forall>n \<in> set ns. requeued S' (q @ r) (spool S) n)"
  using assms
proof (induction mem i ns S arbitrary: q rule: build_loop.induct)
  case (1 mem i S)
  then show ?case by (intro exI [of _ S] exI [of _ "[]"]) (simp add: keeps_spool_def)
next
  case (2 mem i n ns S)
  have len: "\<not> FILENMSZ \<le> length (req_path n)" using 2 by fastforce
  consider (dots) "n = ''.'' \<or> n = ''..''" | (gone) "n \<noteq> ''.''" "n \<noteq> ''..''" "spool S (req_path n) = None"
    | (short) c where "n \<noteq> ''.''" "n \<noteq> ''..''" "spool S (req_path n) = Some c" "length c < REQ_LEN"
    | (good) c where "n \<noteq> ''.''" "n \<noteq> ''..''" "spool S (req_path n) = Some c" "REQ_LEN \<le> length c"
    by (meson not_None_eq not_le)
  then show ?case
  proof cases
    case dots
    then obtain S' r where "build_loop mem i ns S = Inr S'" "queue S' (q @ r)" "nextjob S' = nextjob S" "keeps_spool S S'"
        "\<forall>j \<in> set q. jjobid S' j = jjobid S j \<and> jreq S' j = jreq S j" "\<forall>n \<in> set ns. requeued S' (q @ r) (spool S) n"
      using "2.IH"(1) [OF _ "2.prems"(1-4)] "2.prems"(5) by auto
    then show ?thesis using dots by (intro exI [of _ S'] exI [of _ r]) (auto simp: requeued_def)
  next
    case gone
    then obtain S' r where "build_loop mem i ns S = Inr S'" "queue S' (q @ r)" "nextjob S' = nextjob S" "keeps_spool S S'"
        "\<forall>j \<in> set q. jjobid S' j = jjobid S j \<and> jreq S' j = jreq S j" "\<forall>n \<in> set ns. requeued S' (q @ r) (spool S) n"
      using "2.IH"(2) [OF _ len gone(3) "2.prems"(1-4)] "2.prems"(5) by auto
    then show ?thesis using gone len by (intro exI [of _ S'] exI [of _ r]) (auto simp: requeued_def)
  next
    case (short c)
    let ?S = "S\<lparr>spool := (spool S)(req_path n := None, data_path n := None)\<rparr>"
    have k: "keeps_spool S ?S" using short(3,4) by (auto simp: keeps_spool_def)
    obtain S' r where S': "build_loop mem i ns ?S = Inr S'" "queue S' (q @ r)" "nextjob S' = nextjob S" "keeps_spool ?S S'"
        "\<forall>j \<in> set q. jjobid S' j = jjobid S j \<and> jreq S' j = jreq S j" "\<forall>n \<in> set ns. requeued S' (q @ r) (spool ?S) n"
      using "2.IH"(3) [OF _ len short(3) _ _ "2.prems"(2-4)] "2.prems"(1,5) short by (auto simp: fun_upd_def)
    have "requeued S' (q @ r) (spool S) m" if "m \<in> set ns" for m
      using S'(6) that short(3,4) by (fastforce simp: requeued_def)
    moreover have "requeued S' (q @ r) (spool S) n" using short(3,4) by (simp add: requeued_def)
    ultimately show ?thesis
      using S' short len keeps_spool_trans [OF k S'(4)] by (intro exI [of _ S'] exI [of _ r]) simp
  next
    case (good c)
    let ?j = "mem i" and ?r = "dec_req (take REQ_LEN c)" and ?id = "word_of_int (atol n) :: 32 word"
    have new: "?j \<notin> set q" "?j \<noteq> 0" using "2.prems"(2-4) by (auto dest: injD)
    obtain S1 where S1: "add_job ?j ?r ?id S = Inr S1" using new by (simp add: add_job_eq)
    have q1: "queue S1 (q @ [?j])" using add_job_queue [OF "2.prems"(1) new(2,1), of ?r ?id] S1 by simp
    have e1: "jjobid S1 = (jjobid S)(?j := ?id)" "jreq S1 = (jreq S)(?j := ?r)" "spool S1 = spool S" "nextjob S1 = nextjob S"
      using S1 new by (auto simp: add_job_eq)
    have "set (q @ [?j]) \<subseteq> mem ` {..<Suc i}" using "2.prems"(4) by auto
    then obtain S' r where S': "build_loop mem (Suc i) ns S1 = Inr S'" "queue S' ((q @ [?j]) @ r)" "nextjob S' = nextjob S1" "keeps_spool S1 S'"
        "\<forall>j \<in> set (q @ [?j]). jjobid S' j = jjobid S1 j \<and> jreq S' j = jreq S1 j" "\<forall>n \<in> set ns. requeued S' ((q @ [?j]) @ r) (spool S1) n"
      using "2.IH"(4) [OF _ len good(3) _ S1 q1 "2.prems"(2,3)] "2.prems"(5) good by auto
    have "requeued S' ((q @ [?j]) @ r) (spool S) n" using S'(5) e1 good by (auto simp: requeued_def)
    moreover have "keeps_spool S S'" using S'(4) e1 by (simp add: keeps_spool_def)
    ultimately show ?thesis using S' e1 S1 good len new
      by (intro exI [of _ S'] exI [of _ "?j # r"]) auto
  qed
qed

section \<open>The job number\<close>

lemma atol_show_junk:
  assumes "0 \<le> i" "t = [] \<or> \<not> isdigit (hd t)"
  shows "atol (show_int i @ t) = i"
proof -
  obtain c cs where s: "show_nat (nat i) = c # cs" by (cases "show_nat (nat i)") auto
  then have d: "isdigit c" using show_nat_digits [of c "nat i"] by simp
  have c: "c_str (show_nat (nat i) @ t) = show_nat (nat i) @ c_str t"
    using is_cstr_show_nat [of "nat i"] by (auto simp: c_str_def is_cstr_def takeWhile_append)
  have "digits_val a (c_str t) = a" for a
    using assms(2) by (cases t) (auto simp: c_str_def)
  then have "digits_val 0 (show_nat (nat i) @ c_str t) = nat i"
    using digits_val_show_nat [of 0 "nat i" "c_str t"] by simp
  moreover have "dropWhile isspace (show_nat (nat i) @ c_str t) = show_nat (nat i) @ c_str t"
    using isdigit_not_isspace [OF d] s by simp
  moreover have "c \<noteq> CHR ''-''" "c \<noteq> CHR ''+''" using d by (auto simp: isdigit_def)
  ultimately show ?thesis
    using assms(1) unfolding atol_def show_int_def by (simp add: c s [symmetric] del: digits_val.simps) (simp add: s)
qed

lemma job_path_no_digit: "c \<in> set job_path \<Longrightarrow> \<not> isdigit c"
  by (auto simp: job_path_def SPOOLDIR_def isdigit_def)

lemma job_path_length: "length job_path = 24"
  by (simp add: job_path_def SPOOLDIR_def)

lemma init_request_ok:
  assumes "spool S job_path = Some (show_int (sint w))" "1 \<le> sint w" "held = []"
  shows "\<exists>f. init_request held junk S = Inr (S\<lparr>jobfd := f, nextjob := w\<rparr>)"
proof -
  let ?s = "show_int (sint w)"
  have l: "length ?s \<le> 10" using length_show_jobid [OF assms(2)] .
  have ne: "?s \<noteq> []" using assms(2) by (simp add: show_int_def)
  obtain t where t: "drop (length ?s) (job_path @ NUL # junk) = t" by blast
  have "drop (length ?s) job_path \<noteq> []" using l job_path_length by simp
  then have "hd t \<in> set (drop (length ?s) job_path)" unfolding t [symmetric] drop_append by (metis hd_append hd_in_set)
  then have "hd t \<in> set job_path" by (rule in_set_dropD)
  then have "\<not> isdigit (hd t)" using job_path_no_digit by blast
  then have a: "atol (?s @ t) = sint w" using atol_show_junk [of "sint w" t] assms(2) by simp
  have u: "(spool S)(job_path \<mapsto> ?s) = spool S" using assms(1) by auto
  have "atol (c_str x) = atol x" for x by (simp add: atol_def)
  then show ?thesis
    using assms l ne a t u
    by (auto simp: init_request_def open_file_def lock_reg_def fcntl_def first_conflict_def fread_def FILENMSZ_def Let_def)
qed

section \<open>Start-up\<close>

text \<open>The environment lets the daemon start: no call fails and the printer has an address.\<close>

definition start_ok :: "main_env \<Rightarrow> bool" where
  "start_ok M \<longleftrightarrow> m_argc M = 1 \<and> m_sigaction M \<ge> 0 \<and> m_sigmask M = 0 \<and> m_host M \<noteq> None \<and> m_addrs M = 0 \<and>
     snd (rendezvous (m_servers M)) \<noteq> -1 \<and> become_lp M = Inr () \<and> m_held M = [] \<and>
     (\<exists>nm. get_printaddr (m_gai M) (m_conf M) = Inr (Some nm)) \<and> m_thread1 M = 0 \<and> m_thread2 M = 0"

lemma start_build:
  assumes "start_ok M" "spool S job_path = Some (show_int (sint w))" "1 \<le> sint w"
  shows "\<exists>S1. printd_start M S = bindR (build_qonstart (m_mem M) (m_reqs M) S1) (\<lambda>S. Inr (S, rendezvous (m_servers M))) \<and>
    (\<forall>q. queue S1 q = queue S q) \<and> spool S1 = spool S \<and> nextjob S1 = w"
proof -
  obtain f where f: "init_request (m_held M) (m_junk M) S = Inr (S\<lparr>jobfd := f, nextjob := w\<rparr>)"
    using init_request_ok assms start_ok_def by blast
  let ?S = "S\<lparr>jobfd := f, nextjob := w\<rparr>"
  obtain nm where nm: "init_printer (m_gai M) (m_conf M) ?S = Inr (?S\<lparr>printer_name := nm\<rparr>)"
  proof -
    obtain x where x: "get_printaddr (m_gai M) (m_conf M) = Inr (Some x)" using assms(1) by (auto simp: start_ok_def)
    show thesis using that x by (cases x) (simp_all add: init_printer_def)
  qed
  have "printd_start M S = bindR (build_qonstart (m_mem M) (m_reqs M) (?S\<lparr>printer_name := nm\<rparr>)) (\<lambda>S. Inr (S, rendezvous (m_servers M)))"
    using assms(1) f nm by (auto simp: printd_start_def start_ok_def split_def)
  then show ?thesis by (intro exI [of _ "?S\<lparr>printer_name := nm\<rparr>"]) (simp add: queue_def)
qed

lemma restart_queue:
  assumes "start_ok M" "spool S job_path = Some (show_int (sint w))" "1 \<le> sint w" "queue S []"
    "m_reqs M = Some ns" "inj (m_mem M)" "\<And>i. m_mem M i \<noteq> 0" "\<And>n. n \<in> set ns \<Longrightarrow> length (req_path n) < FILENMSZ"
  shows "\<exists>S' q. printd_start M S = Inr (S', rendezvous (m_servers M)) \<and> queue S' q \<and> nextjob S' = w \<and> keeps_spool S S' \<and>
    (\<forall>n \<in> set ns. requeued S' q (spool S) n)"
proof -
  obtain S1 where S1: "printd_start M S = bindR (build_qonstart (m_mem M) (m_reqs M) S1) (\<lambda>S. Inr (S, rendezvous (m_servers M)))"
    "queue S1 []" "spool S1 = spool S" "nextjob S1 = w"
    using start_build [OF assms(1-3)] assms(4) by auto
  obtain S' r where "build_loop (m_mem M) 0 ns S1 = Inr S'" "queue S' r" "nextjob S' = w" "keeps_spool S1 S'"
    "\<forall>n \<in> set ns. requeued S' r (spool S1) n"
    using build_loop_ok [OF S1(2) assms(6,7) _ assms(8), of 0 ns] S1(4) by auto
  then show ?thesis using S1 assms(5) by (auto simp: build_qonstart_def keeps_spool_def)
qed

end
