(* ===== verification/Printer_Submit.thy ===== *)
theory Printer_Submit
  imports Printer_Run Print_Main Io_Spec
begin

text \<open>
  The two ends of the connection between the \<^verbatim>\<open>print\<close> command and the daemon: what the command sends,
  and what the daemon makes of it, however the network cuts the bytes into pieces.
\<close>

section \<open>The command\<close>

lemma length_usernm_field: "length old = USERNM_MAX \<Longrightarrow> length (usernm_field pwd old) = USERNM_MAX"
  by (auto simp: usernm_field_def strcpy_def strncpy_def USERNM_MAX_def split: option.splits)

lemma length_jobnm_field: "length old = JOBNM_MAX \<Longrightarrow> length (jobnm_field fnm old) = JOBNM_MAX"
  by (auto simp: jobnm_field_def strcpy_def JOBNM_MAX_def Let_def)

lemma wf_build_req: "wf_req (s_junk E) \<Longrightarrow> wf_req (build_req E fnm nbytes text)"
  by (simp add: wf_req_def build_req_def length_usernm_field length_jobnm_field)

definition user_of :: "string option \<Rightarrow> string" where
  "user_of pwd = (case pwd of None \<Rightarrow> ''unknown'' | Some nm \<Rightarrow> take (USERNM_MAX - 1) nm)"

lemma c_str_usernm_field:
  assumes "\<And>nm. pwd = Some nm \<Longrightarrow> is_cstr nm"
  shows "c_str (usernm_field pwd old) = user_of pwd"
proof (cases pwd)
  case None
  then show ?thesis by (simp add: usernm_field_def user_of_def strcpy_def c_str_def)
next
  case (Some nm)
  have "strncpy (USERNM_MAX - 1) nm @ [NUL] = take (USERNM_MAX - 1) nm @ replicate (Suc (USERNM_MAX - 1 - length nm)) NUL"
    by (simp add: strncpy_def replicate_append_same)
  then show ?thesis using Some assms is_cstr_take [of nm] by (simp add: usernm_field_def user_of_def del: replicate_Suc)
qed

lemma c_str_jobnm_field: "is_cstr fnm \<Longrightarrow> length fnm < JOBNM_MAX \<Longrightarrow> c_str (jobnm_field fnm old) = fnm"
  by (simp add: jobnm_field_def strcpy_def Let_def)

lemma writen_all: "\<forall>w \<in> set ws. 0 < w \<Longrightarrow> \<exists>ws'. writen s ws = (ws', int (length s), s) \<and> set ws' \<subseteq> set ws"
proof -
  assume p: "\<forall>w \<in> set ws. 0 < w"
  have "\<exists>ws'. writen_loop n sent left ws = (ws', int (length (sent @ left)), sent @ left) \<and> set ws' \<subseteq> set ws"
    if "\<forall>w \<in> set ws. 0 < w" for n sent left ws
    using that
  proof (induction n sent left ws rule: writen_loop.induct)
    case (1 n sent left ws)
    show ?case
    proof (cases "left = []")
      case True
      then show ?thesis by (subst writen_loop.simps) simp
    next
      case False
      obtain ws1 w where w: "sys_write left ws = (ws1, w)" by fastforce
      have pos: "0 < w" "\<forall>w \<in> set ws1. 0 < w" "set ws1 \<subseteq> set ws" using w False "1.prems" by (cases ws; auto)+
      then have e: "writen_loop n sent left ws = writen_loop n (sent @ take (nat w) left) (drop (nat w) left) ws1"
        using False w by (subst writen_loop.simps) simp
      show ?thesis unfolding e using "1.IH" [OF False w [symmetric] _ _ pos(2)] pos(1,3) by auto
    qed
  qed
  from this [OF p, of "length s" "[]" s] show ?thesis by (simp add: writen_def)
qed

lemma submit_loop_all:
  assumes "no_empty es" "\<not> breaks es" "\<forall>w \<in> set ws. 0 < w"
  shows "\<exists>ws'. submit_loop sent es ws = (sent @ avail es, Inr ws')"
  using assms
proof (induction sent es ws rule: submit_loop.induct)
  case (1 sent es ws)
  show ?case
  proof (cases "avail es = []")
    case True
    then obtain es' where "sys_read IOBUFSZ es = (es', Inr [])" using sys_read_end "1.prems" by blast
    then show ?thesis using True by (subst submit_loop.simps) simp
  next
    case False
    then obtain es' c s where r: "sys_read IOBUFSZ es = (es', Inr (c # s))" "avail es = (c # s) @ avail es'" "no_empty es'" "breaks es' = breaks es"
      using sys_read_some [OF "1.prems"(1) False, of IOBUFSZ] by (metis IOBUFSZ_def list.exhaust zero_less_numeral)
    obtain ws' where w: "writen (c # s) ws = (ws', int (length (c # s)), c # s)" "set ws' \<subseteq> set ws"
      using writen_all [OF "1.prems"(3)] by blast
    have "submit_loop sent es ws = submit_loop (sent @ c # s) es' ws'"
      using r(1) w(1) by (subst submit_loop.simps) simp
    moreover have "\<exists>ws''. submit_loop (sent @ c # s) es' ws' = ((sent @ c # s) @ avail es', Inr ws'')"
      using "1.IH" [OF r(1) [symmetric] refl refl w(1) [symmetric] refl] r "1.prems" w by auto
    ultimately show ?thesis using r(2) by simp
  qed
qed

lemma submit_file_all:
  assumes "wf_req (s_junk E)" "no_empty (s_file E)" "\<not> breaks (s_file E)" "\<forall>w \<in> set (s_ws E). 0 < w"
  shows "submit_file E fnm nbytes text = (enc_req (build_req E fnm nbytes text) @ avail (s_file E), read_response (s_resp E))"
proof -
  let ?r = "enc_req (build_req E fnm nbytes text)"
  obtain ws' where w: "writen ?r (s_ws E) = (ws', int (length ?r), ?r)" "\<forall>w \<in> set ws'. 0 < w"
    using writen_all [OF assms(4)] assms(4) by blast
  obtain ws'' where "submit_loop ?r (s_file E) ws' = (?r @ avail (s_file E), Inr ws'')"
    using submit_loop_all [OF assms(2,3) w(2)] by blast
  then show ?thesis using w(1) wf_build_req [OF assms(1)] by (simp add: submit_file_def)
qed

lemma read_response_ok:
  assumes "no_empty es" "avail es = le32 0 @ le32 (htonl w) @ m" "length m + 8 = RESP_LEN"
  shows "read_response es = Job_id (uint w)"
proof -
  have l: "length (avail es) = RESP_LEN" using assms(2,3) by simp
  obtain es' where "readn RESP_LEN es = (es', int RESP_LEN, avail es)"
    using rn.reads [OF assms(1), of RESP_LEN] l unfolding readn_def by (cases "avail es = []") (auto simp: RESP_LEN_def)
  then show ?thesis using assms(2) by (simp add: read_response_def)
qed

section \<open>The daemon\<close>

lemma copy_loop_all:
  assumes "no_empty es" "\<And>off s. wres E name off s = int (length s)"
  shows "\<exists>fl'. copy_loop E name first got fl es = Inr (got @ tavail es, fl') \<and> (fl' = fl \<or> fl' = or fl PR_TEXT)"
  using assms
proof (induction E name first got fl es rule: copy_loop.induct)
  case (1 E name first got fl es)
  show ?case
  proof (cases "tavail es = []")
    case True
    then have "\<exists>es'. tread IOBUFSZ es = (es', Inr []) \<or> (\<exists>e. tread IOBUFSZ es = (es', Inl e))"
      using tn.rd_bad tn.rd_end "1.prems"(1) by blast
    then show ?thesis using True by (subst copy_loop.simps) auto
  next
    case False
    then obtain es' c s where r: "tread IOBUFSZ es = (es', Inr (c # s))" "tavail es = (c # s) @ tavail es'" "no_empty es'"
      using tn.rd_some [OF "1.prems"(1) False, of IOBUFSZ] by (metis IOBUFSZ_def list.exhaust zero_less_numeral)
    let ?fl = "if first \<and> \<not> is_ps (old_buf E) (c # s) then or fl PR_TEXT else fl"
    have "copy_loop E name first got fl es = copy_loop E name False (got @ c # s) ?fl es'"
      using r(1) "1.prems"(2) by (subst copy_loop.simps) (simp add: Let_def)
    moreover have "\<exists>fl'. copy_loop E name False (got @ c # s) ?fl es' = Inr ((got @ c # s) @ tavail es', fl') \<and> (fl' = ?fl \<or> fl' = or ?fl PR_TEXT)"
      using "1.IH" [OF r(1) [symmetric] refl refl refl refl _ r(3) "1.prems"(2)] "1.prems"(2) by simp
    moreover have "or (or fl PR_TEXT) PR_TEXT = or fl PR_TEXT" by (simp add: or.assoc)
    ultimately show ?thesis using r(2) by (auto split: if_splits)
  qed
qed

lemma client_header_accepts:
  assumes "no_empty (evs E)" "tavail (evs E) = enc_req r @ doc" "wf_req r"
  shows "\<exists>es. client_header E S = Inr (S\<lparr>nextjob := next_no (nextjob S)\<rparr>,
      r\<lparr>size := ntohl (size r), flags := ntohl (flags r)\<rparr>, nextjob S, es) \<and> tavail es = doc \<and> no_empty es"
proof -
  have len: "REQ_LEN \<le> length (tavail (evs E))" "tavail (evs E) \<noteq> []"
    using assms(2) length_enc_req [OF assms(3)] by (auto simp: REQ_LEN_def)
  obtain es where es: "treadn REQ_LEN (evs E) = (es, int REQ_LEN, enc_req r)" "tavail es = doc" "no_empty es"
    using tn.reads [OF assms(1), of REQ_LEN] len assms(2,3) unfolding treadn_def by auto
  then show ?thesis using assms(3) by (intro exI [of _ es]) (simp add: client_header_def get_newjobno_eq)
qed

lemma client_store_accepts:
  assumes "no_empty es" "tavail es = doc" "wf_req r" "\<And>p. creat_e E p = 0" "\<And>p off s. wres E p off s = int (length s)"
  shows "\<exists>fl. (fl = flags r \<or> fl = or (flags r) PR_TEXT) \<and>
    client_store E r jid es S = Inr (S\<lparr>spool := (spool S)(data_path (jobname jid) \<mapsto> doc,
      req_path (jobname jid) \<mapsto> enc_req (r\<lparr>flags := fl\<rparr>))\<rparr>, r\<lparr>flags := fl\<rparr>)"
proof -
  let ?d = "data_path (jobname jid)"
  obtain fl where fl: "copy_loop E ?d True [] (flags r) es = Inr (doc, fl)" "fl = flags r \<or> fl = or (flags r) PR_TEXT"
    using copy_loop_all [OF assms(1,5), where name = ?d and first = True and got = "[]" and fl = "flags r"] assms(2) by auto
  have "wres E (req_path (jobname jid)) 0 (enc_req (r\<lparr>flags := fl\<rparr>)) = int REQ_LEN" using assms(3,5) by simp
  then show ?thesis using fl assms(3,4)
    by (intro exI [of _ fl]) (simp add: client_store_def set_file_def Let_def jobname_def [symmetric])
qed

lemma client_body_accepts:
  assumes "no_empty (evs E)" "tavail (evs E) = enc_req r @ doc" "wf_req r" "\<And>p. creat_e E p = 0"
    "\<And>p off s. wres E p off s = int (length s)" "mem_j E \<noteq> 0"
  shows "\<exists>fl. (fl = ntohl (flags r) \<or> fl = or (ntohl (flags r)) PR_TEXT) \<and>
    client_body E S = Inr (projr (add_job (mem_j E) (r\<lparr>size := ntohl (size r), flags := fl\<rparr>) (nextjob S)
      (S\<lparr>nextjob := next_no (nextjob S), spool := (spool S)(data_path (jobname (nextjob S)) \<mapsto> doc,
         req_path (jobname (nextjob S)) \<mapsto> enc_req (r\<lparr>size := ntohl (size r), flags := fl\<rparr>))\<rparr>)),
      \<lparr>retcode = 0, jobid = htonl (nextjob S), msg = ''request ID '' @ jobname (nextjob S)\<rparr>, 0)"
proof -
  let ?r = "r\<lparr>size := ntohl (size r), flags := ntohl (flags r)\<rparr>" and ?S = "S\<lparr>nextjob := next_no (nextjob S)\<rparr>"
  obtain es where h: "client_header E S = Inr (?S, ?r, nextjob S, es)" "tavail es = doc" "no_empty es"
    using client_header_accepts [OF assms(1-3)] by blast
  obtain fl where fl: "fl = ntohl (flags r) \<or> fl = or (ntohl (flags r)) PR_TEXT"
    "client_store E ?r (nextjob S) es ?S = Inr (?S\<lparr>spool := (spool S)(data_path (jobname (nextjob S)) \<mapsto> doc,
      req_path (jobname (nextjob S)) \<mapsto> enc_req (?r\<lparr>flags := fl\<rparr>))\<rparr>, ?r\<lparr>flags := fl\<rparr>)"
    using client_store_accepts [OF h(3,2), of ?r E "nextjob S" ?S] assms(3-5) by auto
  then show ?thesis using h(1) add_job_eq [OF assms(6)]
    by (intro exI [of _ fl]) (simp add: client_body_def accept_resp_def jobname_def)
qed

text \<open>A client whose calls all succeed is told the next job number in four steps, and the queue is as before.\<close>

definition good_client :: "cenv \<Rightarrow> bool" where
  "good_client E \<longleftrightarrow> no_empty (evs E) \<and> (\<exists>r doc. wf_req r \<and> tavail (evs E) = enc_req r @ doc) \<and> mem_w E \<noteq> 0 \<and>
     (\<forall>p. creat_e E p = 0) \<and> (\<forall>p off s. wres E p off s = int (length s))"

lemma client_run_reply:
  assumes "good_client E" "cl t = None"
  shows "\<exists>S' req. pd_run (S, cur, cl) 4 [Accepted (nextjob S)] (S', cur, cl(t \<mapsto> Replied req (nextjob S))) \<and>
    same_jobs S S' \<and> nextjob S' = next_no (nextjob S)"
proof -
  let ?n = "nextjob S"
  obtain r doc where E: "no_empty (evs E)" "tavail (evs E) = enc_req r @ doc" "wf_req r" "mem_w E \<noteq> 0" "\<And>p. creat_e E p = 0"
    "\<And>p off s. wres E p off s = int (length s)"
    using assms(1) by (auto simp: good_client_def)
  obtain S1 where w: "add_worker (mem_w E) t 0 S = (S1, True)" using E(4) by (simp add: add_worker_def Let_def)
  note n1 = add_worker_frame(7) [of "mem_w E" t 0 S, unfolded w fst_conv]
  obtain S2 req es where h: "client_header E S1 = Inr (S2, req, ?n, es)" "tavail es = doc" "no_empty es"
    using client_header_accepts [OF E(1-3), of S1] n1 by auto
  note h2 = client_header_eq [OF h(1)]
  obtain S3 req' where s: "client_store E req ?n es S2 = Inr (S3, req')"
    using client_store_accepts [OF h(3,2) h2(3) E(5,6), of ?n S2] by auto
  have "pd_run (S, cur, cl) 1 [] (S1, cur, cl(t \<mapsto> Started))"
    using pd_run.run1 [OF pd_run.run0 pd_step.start [of cl t, OF assms(2) w]] by simp
  then have "pd_run (S, cur, cl) 2 [] (S2, cur, cl(t \<mapsto> Numbered req ?n es))"
    using run_step [OF _ pd_step.header [OF _ h(1)]] by (fastforce simp: numeral_2_eq_2)
  then have "pd_run (S, cur, cl) 3 [] (S3, cur, cl(t \<mapsto> Stored req' ?n))"
    using run_step [OF _ pd_step.store [OF _ s]] by (fastforce simp: numeral_3_eq_3)
  then have "pd_run (S, cur, cl) 4 [Accepted ?n] (S3, cur, cl(t \<mapsto> Replied req' ?n))"
    using run_step [OF _ pd_step.reply [of "cl(t \<mapsto> Stored req' ?n)" t req' ?n S3 cur]] by (fastforce simp: accept_resp_def)
  moreover have "same_jobs S S3"
    using same_jobs_client(1) [OF w] same_jobs_client(3) [OF h(1)] same_jobs_client(4) [OF s] by (simp add: same_jobs_def)
  moreover have "nextjob S3 = next_no ?n"
    using h2(1) n1 nextjob_spool [OF conjunct1 [OF client_store_eq(1) [OF s h2(3)]]] by simp
  ultimately show ?thesis by blast
qed

end
