(* ===== verification/Ipp_Spec.thy ===== *)
theory Ipp_Spec
  imports Ipp Printer_Codec
begin

text \<open>
  The parser of the printer's answer on well-formed answers, its failure to end on answers that are
  cut off in the HTTP header, and the sizes of the headers the daemon sends.
\<close>

section \<open>Scanning the buffer\<close>

lemma skip_to:
  assumes "i \<le> j" "j < bufsz B" "\<And>k. i \<le> k \<Longrightarrow> k < j \<Longrightarrow> p (bytes B k)" "\<not> p (bytes B j)"
  shows "skip p B i = Inr j"
  using assms
proof (induction "j - i" arbitrary: i)
  case 0
  then show ?case by (subst skip.simps) auto
next
  case (Suc n)
  then have "skip p B (Suc i) = Inr j" by (intro Suc.hyps(1)) auto
  then show ?case using Suc by (subst skip.simps) auto
qed

definition hit :: "rbuf \<Rightarrow> nat \<Rightarrow> string \<Rightarrow> bool" where
  "hit B i pat \<longleftrightarrow> map tolower (map (bytes B) [i ..< i + length pat]) = map tolower pat"

lemma strncasecmp_eq: "i + length pat \<le> bufsz B \<Longrightarrow> strncasecmp B i pat = Inr (hit B i pat)"
proof (induction pat arbitrary: i)
  case Nil
  then show ?case by (simp add: hit_def)
next
  case (Cons c cs)
  have "[i ..< i + length (c # cs)] = i # [Suc i ..< Suc i + length cs]" by (subst upt_conv_Cons) simp_all
  then show ?case using Cons.prems Cons.IH [of "Suc i"] by (auto simp: hit_def)
qed

lemma to_letter_c_to:
  assumes "i \<le> j" "j < bufsz B" "int j \<le> datsz B" "bytes B j = CHR ''C'' \<or> bytes B j = CHR ''c''"
  shows "\<exists>k. i \<le> k \<and> k \<le> j \<and> to_letter_c B i = Inr k \<and> (bytes B k = CHR ''C'' \<or> bytes B k = CHR ''c'')"
  using assms
proof (induction "j - i" arbitrary: i)
  case 0
  then show ?case by (intro exI [of _ i]) (subst to_letter_c.simps, auto)
next
  case (Suc n)
  show ?case
  proof (cases "bytes B i = CHR ''C'' \<or> bytes B i = CHR ''c''")
    case True
    then show ?thesis using Suc by (intro exI [of _ i]) (subst to_letter_c.simps, auto)
  next
    case False
    have n: "n = j - Suc i" "Suc i \<le> j" using Suc.hyps(2) by auto
    obtain k where k: "Suc i \<le> k" "k \<le> j" "to_letter_c B (Suc i) = Inr k" "bytes B k = CHR ''C'' \<or> bytes B k = CHR ''c''"
      using Suc.hyps(1) [of "Suc i", OF n] Suc.prems n by auto
    have "to_letter_c B i = to_letter_c B (Suc i)" using False Suc by (subst to_letter_c.simps) auto
    then show ?thesis using k by (intro exI [of _ k]) auto
  qed
qed

abbreviation clen :: string where "clen \<equiv> ''Content-Length:''"

lemma hit_clen_letter: "hit B i clen \<Longrightarrow> bytes B i = CHR ''C'' \<or> bytes B i = CHR ''c''"
proof -
  assume h: "hit B i clen"
  have "map tolower (map (bytes B) [i ..< i + length clen]) = tolower (bytes B i) # map tolower (map (bytes B) [Suc i ..< i + length clen])"
    by (subst upt_conv_Cons) simp_all
  moreover have "map tolower clen = CHR ''c'' # map tolower (tl clen)" by code_simp
  ultimately have "tolower (bytes B i) = CHR ''c''" using h unfolding hit_def by (metis list.inject)
  then show ?thesis
  proof (cases "(65::nat) \<le> of_char (bytes B i) \<and> of_char (bytes B i) \<le> (90::nat)")
    case True
    then have "char_of (of_char (bytes B i) + 32 :: nat) = CHR ''c''" using \<open>tolower (bytes B i) = CHR ''c''\<close> by (simp add: tolower_def)
    then have "of_char (char_of (of_char (bytes B i) + 32 :: nat)) = (99 :: nat)" by simp
    then have "of_char (bytes B i) = (67 :: nat)" using True by simp
    then have "bytes B i = char_of (67 :: nat)" by (metis char_of_char)
    moreover have "char_of (67 :: nat) = CHR ''C''" by code_simp
    ultimately show ?thesis by simp
  qed (simp add: tolower_def)
qed

lemma find_length_to:
  assumes "i \<le> t" "hit B t clen" "\<And>k. i \<le> k \<Longrightarrow> k < t \<Longrightarrow> \<not> hit B k clen" "t + 15 \<le> bufsz B" "int t < datsz B"
  shows "find_length B i = Some (take_length B t)"
  using assms
proof (induction "t - i" arbitrary: i rule: less_induct)
  case less
  have t: "bytes B t = CHR ''C'' \<or> bytes B t = CHR ''c''" using hit_clen_letter less.prems(2) by blast
  obtain k where k: "i \<le> k" "k \<le> t" "to_letter_c B i = Inr k"
    using to_letter_c_to [of i t B] less.prems t by auto
  have s: "strncasecmp B k clen = Inr (hit B k clen)" using k less.prems by (intro strncasecmp_eq) simp
  show ?case
  proof (cases "k = t")
    case True
    then show ?thesis using k s less.prems by (subst find_length.simps) (simp add: more_if_def)
  next
    case False
    then have "find_length B (Suc k) = Some (take_length B t)"
      using k less.prems by (intro less.hyps) auto
    moreover have "\<not> hit B k clen" using less.prems(3) [of k] k False by simp
    ultimately show ?thesis using k s less.prems False by (subst find_length.simps) (simp add: more_if_def)
  qed
qed

definition end_at :: "rbuf \<Rightarrow> nat \<Rightarrow> bool" where
  "end_at B i \<longleftrightarrow> bytes B i = NEWLINE \<and> bytes B (i + 1) = CHR 0x0D \<and> bytes B (i + 2) = NEWLINE"

lemma scan_end_to:
  assumes "i \<le> h" "end_at B h" "\<And>k. i \<le> k \<Longrightarrow> k < h \<Longrightarrow> \<not> end_at B k" "int h < datsz B - 2" "h + 2 < bufsz B"
  shows "scan_end B i = Inr (h + 3, True)"
  using assms
proof (induction "h - i" arbitrary: i)
  case 0
  then show ?case by (subst scan_end.simps) (auto simp: end_at_def)
next
  case (Suc n)
  have "scan_end B (Suc i) = Inr (h + 3, True)" using Suc by (intro Suc.hyps(1)) auto
  moreover have "\<not> end_at B i" using Suc by auto
  ultimately show ?case using Suc by (subst scan_end.simps) (auto simp: end_at_def)
qed

section \<open>A complete answer\<close>

lemma take_length_ok:
  assumes "t + 15 \<le> s" "\<And>k. t + 15 \<le> k \<Longrightarrow> k < s \<Longrightarrow> isspace (bytes B k)" "s < e" "\<And>k. s \<le> k \<Longrightarrow> k < e \<Longrightarrow> isdigit (bytes B k)"
    "\<not> isdigit (bytes B e)" "e < bufsz B"
  shows "take_length B t = Inr (B\<lparr>bytes := (bytes B)(e := NUL)\<rparr>, Suc e, atoi (span_str B s e))"
proof -
  have "isdigit (bytes B s)" using assms(3,4) by simp
  then have s: "skip isspace B (t + 15) = Inr s"
    using assms(1-3,6) by (intro skip_to) (auto dest: isdigit_not_isspace)
  have e: "skip isdigit B s = Inr e" using assms(3-6) by (intro skip_to) auto
  have "span_str (B\<lparr>bytes := (bytes B)(e := NUL)\<rparr>) s e = span_str B s e" by (simp add: span_str_def)
  then show ?thesis using assms(6) by (simp add: take_length_def s e poke_def)
qed

lemma status_line_ok:
  assumes "8 \<le> s" "\<And>k. 8 \<le> k \<Longrightarrow> k < s \<Longrightarrow> isspace (bytes B k)" "s < e" "\<And>k. s \<le> k \<Longrightarrow> k < e \<Longrightarrow> isdigit (bytes B k)"
    "\<not> isdigit (bytes B e)" "e < j" "\<And>k. e < k \<Longrightarrow> k < j \<Longrightarrow> bytes B k \<noteq> CHR 0x0D \<and> bytes B k \<noteq> NEWLINE"
    "bytes B j = CHR 0x0D \<or> bytes B j = NEWLINE" "j < bufsz B"
  shows "status_line B = Inr (Some (B\<lparr>bytes := (bytes B)(e := NUL, j := NUL)\<rparr>, atoi (span_str B s e), j))"
proof -
  let ?B = "B\<lparr>bytes := (bytes B)(e := NUL)\<rparr>"
  have "isdigit (bytes B s)" using assms(3,4) by simp
  then have s: "skip isspace B 8 = Inr s"
    using assms(1-3,6,9) by (intro skip_to) (auto dest: isdigit_not_isspace)
  have e: "skip isdigit B s = Inr e" using assms(3-6,9) by (intro skip_to) auto
  have j: "skip (\<lambda>c. c \<noteq> CHR 0x0D \<and> c \<noteq> NEWLINE) ?B (Suc e) = Inr j"
    using assms(6-9) by (intro skip_to) auto
  have sp: "span_str (B\<lparr>bytes := (bytes B)(e := NUL, j := NUL)\<rparr>) s e = span_str B s e"
    using assms(6) by (simp add: span_str_def)
  show ?thesis using assms(3,6,9) s e j sp by (simp add: status_line_def poke_def)
qed

lemma atoi_digits:
  assumes "n < 2 ^ 31"
  shows "atoi (show_nat n) = int n"
proof -
  have "sint (word_of_int (int n) :: 32 word) = signed_take_bit 31 (int n)" unfolding sint_sbintrunc' by simp
  also have "\<dots> = int n" using assms by (intro signed_take_bit_int_eq_self) auto
  finally show ?thesis by (simp add: atoi_def)
qed

lemma put_nth: "i < length s \<Longrightarrow> put 0 s b i = s ! i"
  by (simp add: put_def)

text \<open>Where a piece of the answer lies in the buffer.\<close>

lemma nth_piece: "s = a @ b @ c \<Longrightarrow> length a \<le> k \<Longrightarrow> k < length a + length b \<Longrightarrow> s ! k = b ! (k - length a)"
  by (simp add: nth_append) arith

lemma span_piece:
  assumes "s = a @ b @ c" "\<And>k. length a \<le> k \<Longrightarrow> k < length a + length b \<Longrightarrow> bytes B k = s ! k"
  shows "span_str B (length a) (length a + length b) = b"
  by (rule nth_equalityI) (use assms in \<open>auto simp: span_str_def nth_append\<close>)

lemma show_nat_at: "k < length (show_nat n) \<Longrightarrow> isdigit (show_nat n ! k)"
  by (meson nth_mem show_nat_digits)

text \<open>
  The head of an answer with the HTTP status \<open>code\<close>, up to the end of the length: the version, the status
  line, other fields (\<open>hdr\<close>) and the length. It is well formed if the version has eight bytes, the reason
  no line end, and the field does not occur before.
\<close>

definition head :: "string \<Rightarrow> nat \<Rightarrow> string \<Rightarrow> string \<Rightarrow> nat \<Rightarrow> string" where
  "head ver code reason hdr len =
     ver @ '' '' @ show_nat code @ '' '' @ reason @ crlf @ hdr @ clen @ '' '' @ show_nat len @ [CHR 0x0D]"

definition occurs :: "string \<Rightarrow> string \<Rightarrow> nat \<Rightarrow> bool" where
  "occurs pat s k \<longleftrightarrow> map tolower (take (length pat) (drop k s)) = map tolower pat"

definition wf_head :: "string \<Rightarrow> string \<Rightarrow> string \<Rightarrow> bool" where
  "wf_head ver reason hdr \<longleftrightarrow> length ver = 8 \<and> CHR 0x0D \<notin> set reason \<and> NEWLINE \<notin> set reason \<and>
     (\<forall>k < length hdr. \<not> occurs clen (hdr @ clen) k)"

text \<open>The other fields (\<open>rest\<close>) up to the empty line, which is the first one.\<close>

definition wf_rest :: "string \<Rightarrow> bool" where
  "wf_rest rest \<longleftrightarrow> (\<forall>k < length rest. take 3 (drop k (rest @ NEWLINE # crlf)) \<noteq> NEWLINE # crlf)"

text \<open>What the IPP message says: the job's number and a status of the successful class.\<close>

definition says_ok :: "32 word \<Rightarrow> string \<Rightarrow> bool" where
  "says_ok jid body \<longleftrightarrow> take 4 (drop 4 body) = be32 jid \<and> STATCLASS_OK (of_char (body ! 2) * 256 + of_char (body ! 3))"

text \<open>The pieces of an answer at their positions in the buffer.\<close>

lemma hit_occurs:
  assumes "\<And>m. k \<le> m \<Longrightarrow> m < k + length pat \<Longrightarrow> bytes B m = s ! (m - base)" "base \<le> k" "k - base + length pat \<le> length s"
  shows "hit B k pat \<longleftrightarrow> occurs pat s (k - base)"
proof -
  have "map (bytes B) [k ..< k + length pat] = take (length pat) (drop (k - base) s)"
    by (rule nth_equalityI) (use assms in auto)
  then show ?thesis by (simp add: hit_def occurs_def)
qed

lemma not_hit: "bytes B k = NUL \<or> bytes B k = NEWLINE \<Longrightarrow> \<not> hit B k clen"
  using hit_clen_letter by fastforce

lemma end_at_take:
  assumes "\<And>m. k \<le> m \<Longrightarrow> m < k + 3 \<Longrightarrow> bytes B m = s ! (m - base)" "base \<le> k" "k - base + 3 \<le> length s"
  shows "end_at B k \<longleftrightarrow> take 3 (drop (k - base) s) = NEWLINE # crlf"
proof -
  have "take 3 (drop (k - base) s) = [bytes B k, bytes B (k + 1), bytes B (k + 2)]"
    by (rule nth_equalityI) (use assms in \<open>auto simp: nth_Cons numeral_3_eq_3 split: nat.splits\<close>)
  then show ?thesis by (simp add: end_at_def)
qed

lemma head_parsed:
  assumes a: "a = head ver code reason hdr len @ tail" and wf: "wf_head ver reason hdr"
    and code: "code < 2 ^ 31" and len: "len < 2 ^ 31" and fits: "length a < IOBUFSZ"
    and B: "B = \<lparr>bytes = put 0 a mem, bufsz = IOBUFSZ, datsz = int (length a), sock_in = es\<rparr>"
  shows "\<exists>B1 B2 j. status_line B = Inr (Some (B1, int code, j)) \<and>
    find_length B1 j = Some (Inr (B2, length (head ver code reason hdr len), int len)) \<and>
    datsz B2 = datsz B \<and> bufsz B2 = IOBUFSZ \<and> sock_in B2 = es \<and>
    (\<forall>k. length (head ver code reason hdr len) \<le> k \<longrightarrow> k < length a \<longrightarrow> bytes B2 k = a ! k)"
proof -
  define u1 where "u1 = ver @ '' ''"
  define u2 where "u2 = u1 @ show_nat code"
  define u4 where "u4 = u2 @ '' '' @ reason"
  define u5 where "u5 = u4 @ crlf"
  define u6 where "u6 = u5 @ hdr"
  define u8 where "u8 = u6 @ clen @ '' ''"
  define u9 where "u9 = u8 @ show_nat len"
  note u = u9_def u8_def u6_def u5_def u4_def u2_def u1_def
  have lh: "length (head ver code reason hdr len) = Suc (length u9)" by (simp add: head_def u)
  have len_u: "length u1 = 9" "length u2 = length u1 + length (show_nat code)" "length u4 = length u2 + 1 + length reason"
    "length u5 = length u4 + 2" "length u6 = length u5 + length hdr" "length u8 = length u6 + 16" "length u9 = length u8 + length (show_nat len)"
    "length u9 < length a"
    using wf a lh by (simp_all add: u wf_head_def)
  have by_a: "bytes B k = a ! k" if "k < length a" for k using that by (simp add: B put_nth)
  have pc: "bytes B k = p ! (k - length v)" if "a = v @ p @ w" "length v \<le> k" "k < length v + length p" for v p w k
    using nth_piece [OF that] by_a that by (metis length_append le_add1 add.assoc less_le_trans)
  obtain w1 w2 w3 w4 w5 w6 w7 w8 w11 where d: "a = ver @ '' '' @ w1" "a = u1 @ show_nat code @ w2" "a = u2 @ '' '' @ w3"
    "a = u4 @ crlf @ w4" "a = u5 @ (hdr @ clen) @ w5" "a = u6 @ (clen @ '' '') @ w6" "a = u8 @ show_nat len @ w7"
    "a = u9 @ [CHR 0x0D] @ w8" "a = (u2 @ '' '') @ reason @ w11"
    unfolding a head_def u by simp
  have lv: "length ver = 8" using wf by (simp add: wf_head_def)
  have ne: "0 < length (show_nat m)" for m using show_nat_nonempty by blast
  have spc: "bytes B (length u2) = CHR '' ''" using pc [OF d(3), of "length u2"] by simp
  define B1 where "B1 = B\<lparr>bytes := (bytes B)(length u2 := NUL, length u4 := NUL)\<rparr>"
  have sl: "status_line B = Inr (Some (B1, int code, length u4))"
  proof -
    have "status_line B = Inr (Some (B1, atoi (span_str B (length u1) (length u2)), length u4))"
      unfolding B1_def
    proof (rule status_line_ok)
      show "isspace (bytes B k)" if "8 \<le> k" "k < length u1" for k
        using that len_u(1) pc [OF d(1), of k] lv by (simp add: isspace_def)
      show "isdigit (bytes B k)" if "length u1 \<le> k" "k < length u2" for k
        using that len_u(2) pc [OF d(2), of k] show_nat_at by simp
      show "\<not> isdigit (bytes B (length u2))" using spc by simp
      show "bytes B k \<noteq> CHR 0x0D \<and> bytes B k \<noteq> NEWLINE" if "length u2 < k" "k < length u4" for k
      proof -
        have "bytes B k = reason ! (k - length u2 - 1)" "k - length u2 - 1 < length reason"
          using that len_u(3) pc [OF d(9), of k] by auto
        then show ?thesis using wf by (metis nth_mem wf_head_def)
      qed
      show "bytes B (length u4) = CHR 0x0D \<or> bytes B (length u4) = NEWLINE" using pc [OF d(4), of "length u4"] by simp
      show "length u4 < bufsz B" using fits len_u by (simp add: B)
    qed (use len_u ne in auto)
    moreover have "span_str B (length u1) (length u2) = show_nat code"
      unfolding len_u(2) using d(2) by (intro span_piece [OF d(2)]) (auto simp: by_a)
    ultimately show ?thesis using code by (simp add: atoi_digits)
  qed
  have b1: "bytes B1 k = bytes B k" if "length u4 < k" for k using that len_u(3) by (simp add: B1_def)
  have "find_length B1 (length u4) = Some (take_length B1 (length u6))"
  proof (rule find_length_to)
    show "hit B1 (length u6) clen"
      using hit_occurs [of "length u6" clen B1 "clen @ '' ''" "length u6"] b1 pc [OF d(6)] len_u(4,5) by (simp add: occurs_def)
    show "\<not> hit B1 k clen" if "length u4 \<le> k" "k < length u6" for k
    proof -
      note k = that
      consider "k = length u4" | "k = length u4 + 1" | "length u5 \<le> k" using k(1) len_u(4) by linarith
      then show ?thesis
      proof cases
        case 1
        then show ?thesis by (intro not_hit) (simp add: B1_def)
      next
        case 2
        then show ?thesis using b1 [of k] pc [OF d(4), of k] by (intro not_hit) simp
      next
        case 3
        have "hit B1 k clen \<longleftrightarrow> occurs clen (hdr @ clen) (k - length u5)"
          using 3 that b1 pc [OF d(5)] len_u(4,5) by (intro hit_occurs) auto
        then show ?thesis using wf that 3 len_u(5) by (simp add: wf_head_def)
      qed
    qed
  qed (use len_u fits in \<open>auto simp: B1_def B\<close>)
  moreover have "take_length B1 (length u6) = Inr (B1\<lparr>bytes := (bytes B1)(length u9 := NUL)\<rparr>, Suc (length u9), atoi (span_str B1 (length u8) (length u9)))"
  proof (rule take_length_ok)
    show "isspace (bytes B1 k)" if "length u6 + 15 \<le> k" "k < length u8" for k
      using that len_u(4-6) b1 [of k] pc [OF d(6), of k] by (auto simp: nth_append isspace_def)
    show "isdigit (bytes B1 k)" if "length u8 \<le> k" "k < length u9" for k
      using that len_u(4-7) b1 [of k] pc [OF d(7), of k] show_nat_at by simp
    show "\<not> isdigit (bytes B1 (length u9))"
      using len_u(4-7) b1 [of "length u9"] pc [OF d(8), of "length u9"] by (simp add: isdigit_def)
  qed (use len_u ne fits in \<open>auto simp: B1_def B\<close>)
  moreover have "span_str B1 (length u8) (length u9) = show_nat len"
    unfolding len_u(7) using d(7) len_u(4-6) by (intro span_piece [OF d(7)]) (auto simp: b1 by_a)
  ultimately have fl: "find_length B1 (length u4) = Some (Inr (B1\<lparr>bytes := (bytes B1)(length u9 := NUL)\<rparr>, Suc (length u9), int len))"
    using len by (simp add: atoi_digits)
  have "bytes (B1\<lparr>bytes := (bytes B1)(length u9 := NUL)\<rparr>) k = a ! k" if "Suc (length u9) \<le> k" "k < length a" for k
    using that b1 [of k] by_a len_u by simp
  then show ?thesis
    unfolding lh by (intro exI [of _ B1] exI [of _ "B1\<lparr>bytes := (bytes B1)(length u9 := NUL)\<rparr>"] exI [of _ "length u4"])
      (use sl fl in \<open>simp add: B1_def B\<close>)
qed

lemma status_loop_head:
  assumes "a = head ver code reason hdr len @ tail" "wf_head ver reason hdr" "200 \<le> code" "code \<le> 299" "len < 2 ^ 31"
    "length a < IOBUFSZ"
  obtains B where "status_loop jid \<lparr>bytes = mem, bufsz = IOBUFSZ, datsz = 0, sock_in = Bytes a # es\<rparr> =
      (case more_if (int (length (head ver code reason hdr len)) \<ge> datsz B) (length (head ver code reason hdr len)) B of
         Inl e \<Rightarrow> Some (Inl e) | Inr B \<Rightarrow> do { r \<leftarrow> find_end B (length (head ver code reason hdr len));
           case r of Inl e \<Rightarrow> Some (Inl e) | Inr (B, i) \<Rightarrow>
             Some (bindR (more_if (datsz B - int i < int len) i B) (\<lambda>B. ipp_status jid B i)) })"
    "datsz B = int (length a)" "bufsz B = IOBUFSZ" "\<And>k. length (head ver code reason hdr len) \<le> k \<Longrightarrow> k < length a \<Longrightarrow> bytes B k = a ! k"
proof -
  have code: "code < 2 ^ 31" using assms(4) by simp
  let ?B = "\<lparr>bytes = put 0 a mem, bufsz = IOBUFSZ, datsz = int (length a), sock_in = es\<rparr>"
  obtain B1 B2 j where p: "status_line ?B = Inr (Some (B1, int code, j))"
    "find_length B1 j = Some (Inr (B2, length (head ver code reason hdr len), int len))"
    "datsz B2 = int (length a)" "bufsz B2 = IOBUFSZ"
    "\<And>k. length (head ver code reason hdr len) \<le> k \<Longrightarrow> k < length a \<Longrightarrow> bytes B2 k = a ! k"
    using head_parsed [OF assms(1,2) code assms(5,6) refl, of mem es] by auto
  have "a \<noteq> []" using assms(1) by (simp add: head_def)
  then obtain c cs where ac: "a = c # cs" by (cases a) blast
  have "status_loop jid \<lparr>bytes = mem, bufsz = IOBUFSZ, datsz = 0, sock_in = Bytes a # es\<rparr> = ipp_part jid B1 j"
    using assms(3,4,6) p(1) ac by (subst status_loop.simps) (simp add: HTTP_INFO_def HTTP_SUCCESS_def)
  then show thesis using that [of B2] p(2-5) by (simp add: ipp_part_def)
qed

lemma printer_status_answer:
  assumes a: "a = head ver code reason hdr len @ rest @ NEWLINE # crlf @ body" and wf: "wf_head ver reason hdr" "wf_rest rest"
    and code: "200 \<le> code" "code \<le> 299" and body: "8 \<le> length body" "len \<le> length body" and fits: "length a < IOBUFSZ"
  shows "printer_status jid mem (Bytes a # es) = Some (Inr (says_ok jid body))"
proof -
  let ?h = "length (head ver code reason hdr len)" let ?e = "?h + length rest"
  have la: "length a = ?e + 3 + length body" unfolding a by simp
  have len: "len < 2 ^ 31" using body(2) fits la by (simp add: IOBUFSZ_def)
  obtain B where B: "status_loop jid \<lparr>bytes = mem, bufsz = IOBUFSZ, datsz = 0, sock_in = Bytes a # es\<rparr> =
      (case more_if (int ?h \<ge> datsz B) ?h B of
         Inl e \<Rightarrow> Some (Inl e) | Inr B \<Rightarrow> do { r \<leftarrow> find_end B ?h;
           case r of Inl e \<Rightarrow> Some (Inl e) | Inr (B, i) \<Rightarrow>
             Some (bindR (more_if (datsz B - int i < int len) i B) (\<lambda>B. ipp_status jid B i)) })"
    "datsz B = int (length a)" "bufsz B = IOBUFSZ" "\<And>k. ?h \<le> k \<Longrightarrow> k < length a \<Longrightarrow> bytes B k = a ! k"
    using status_loop_head [OF a wf(1) code len fits] by blast
  have bb: "bytes B (?e + 3 + k) = body ! k" if "k < length body" for k
    using B(4) [of "?e + 3 + k"] that la nth_piece [of a "head ver code reason hdr len @ rest @ NEWLINE # crlf" body "[]" "?e + 3 + k"] a
    by simp
  have br: "bytes B m = (rest @ NEWLINE # crlf) ! (m - ?h)" if "?h \<le> m" "m < ?e + 3" for m
    using B(4) [of m] that la nth_piece [of a "head ver code reason hdr len" "rest @ NEWLINE # crlf" body m] a
    by simp
  have ea: "end_at B k \<longleftrightarrow> take 3 (drop (k - ?h) (rest @ NEWLINE # crlf)) = NEWLINE # crlf" if "?h \<le> k" "k \<le> ?e" for k
    using that br by (intro end_at_take) auto
  have "scan_end B ?h = Inr (?e + 3, True)"
  proof (rule scan_end_to)
    show "end_at B ?e" using ea [of ?e] by simp
    show "\<not> end_at B k" if "?h \<le> k" "k < ?e" for k
    proof -
      have "k - ?h < length rest" using that by simp
      then show ?thesis using ea [of k] that wf(2) unfolding wf_rest_def by (meson less_imp_le)
    qed
  qed (use B la body fits in auto)
  then have fe: "find_end B ?h = Some (Inr (B, ?e + 3))"
    using B(2) la body(1) by (subst find_end.simps) (auto simp: more_if_def)
  have "bytes B (?h + (length rest + (7 + k))) = body ! (4 + k)" if "k < 4" for k
    using bb [of "4 + k"] that body(1) by (simp add: add.assoc)
  then have sp: "span_str B (?e + 3 + 4) (?e + 3 + 8) = take 4 (drop 4 body)"
    by (intro nth_equalityI) (use body in \<open>auto simp: span_str_def add.assoc\<close>)
  have "ntohl (dec32 x) = jid \<longleftrightarrow> x = be32 jid" if "length x = 4" for x
    using that by (metis be32_def dec32_le32 htonl_def htonl_htonl le32_dec32 length_rev rev_rev_ident)
  then have st: "ipp_status jid B (?e + 3) = Inr (says_ok jid body)"
    using sp bb [of 2] bb [of 3] body fits la B(3)
    by (simp add: ipp_status_def says_ok_def add.assoc)
  show ?thesis
    unfolding printer_status_def B(1) using B(2) la body fe st by (simp add: more_if_def)
qed

section \<open>An answer that stops in the header\<close>

text \<open>
  When the data ends one or two bytes behind the position, the search for the end of the header
  neither advances nor reads: it does not end.
\<close>

lemma find_end_stuck:
  assumes "datsz B - 2 \<le> int i" "int i < datsz B"
  shows "find_end B i = None"
proof (rule ccontr)
  assume "find_end B i \<noteq> None"
  then obtain y where y: "find_end B i = Some y" by blast
  have "datsz B - 2 \<le> int i \<longrightarrow> int i < datsz B \<longrightarrow> False"
  proof (rule find_end.raw_induct [OF _ y, of "\<lambda>B i y. datsz B - 2 \<le> int i \<longrightarrow> int i < datsz B \<longrightarrow> False"])
    fix f B i y
    assume IH: "\<And>B i y. f B i = Some y \<Longrightarrow> datsz B - 2 \<le> int i \<longrightarrow> int i < datsz B \<longrightarrow> False"
      and b: "(case scan_end B i of Inl e \<Rightarrow> Some (Inl e) | Inr (i, found) \<Rightarrow>
         (case more_if (int i \<ge> datsz B) i B of Inl e \<Rightarrow> Some (Inl e) | Inr B \<Rightarrow>
            if found then Some (Inr (B, i)) else f B i)) = Some y"
    show "datsz B - 2 \<le> int i \<longrightarrow> int i < datsz B \<longrightarrow> False"
    proof (intro impI)
      assume c: "datsz B - 2 \<le> int i" "int i < datsz B"
      then have "scan_end B i = Inr (i, False)" by (subst scan_end.simps) simp
      then have "f B i = Some y" using b c by (simp add: more_if_def)
      then show False using IH c by blast
    qed
  qed
  then show False using assms by blast
qed

lemma printer_status_stuck:
  assumes a: "a = head ver code reason hdr len @ tail" and wf: "wf_head ver reason hdr"
    and code: "200 \<le> code" "code \<le> 299" and len: "len < 2 ^ 31" and fits: "length a < IOBUFSZ"
    and tail: "length tail = 1 \<or> length tail = 2"
  shows "printer_status jid mem (Bytes a # es) = None"
proof -
  let ?h = "length (head ver code reason hdr len)"
  have la: "length a = ?h + length tail" unfolding a by simp
  obtain B where B: "status_loop jid \<lparr>bytes = mem, bufsz = IOBUFSZ, datsz = 0, sock_in = Bytes a # es\<rparr> =
      (case more_if (int ?h \<ge> datsz B) ?h B of
         Inl e \<Rightarrow> Some (Inl e) | Inr B \<Rightarrow> do { r \<leftarrow> find_end B ?h;
           case r of Inl e \<Rightarrow> Some (Inl e) | Inr (B, i) \<Rightarrow>
             Some (bindR (more_if (datsz B - int i < int len) i B) (\<lambda>B. ipp_status jid B i)) })"
    "datsz B = int (length a)"
    using status_loop_head [OF a wf code len fits] by blast
  have "find_end B ?h = None" using tail B(2) la by (intro find_end_stuck) auto
  then show ?thesis unfolding printer_status_def B(1) using B(2) la tail by (auto simp: more_if_def)
qed

section \<open>Sizes of the headers\<close>

lemma length_be [simp]: "length (be16 n) = 2" "length (be32 w) = 4"
  by (simp_all add: be16_def be32_def)

lemma length_add_option [simp]: "length (add_option tag n v) = 5 + length n + length v"
  by (simp add: add_option_def)

lemma length_ipp_bytes:
  "length (ipp_bytes pname jid r beyond) = (if is_text r then 170 else 182) + length pname
     + length (user_str r beyond) + length (job_str r beyond)"
  by (simp add: ipp_bytes_def printer_uri_def)

end
