(* ===== verification/Printer_Spec.thy ===== *)
theory Printer_Spec
  imports Printer_Restart Printer_Submit Ipp_Spec
begin

text \<open>
  The properties of the print system: order and durability of the jobs, restart, the connection
  from the command to the daemon, the answer of the printer, and the defects found.
\<close>

section \<open>Helper lemmas\<close>

lemma walk_chain: "chain (wnext S) h ws \<Longrightarrow> walk_workers S h = Some ws"
proof (induction ws arbitrary: h)
  case Nil
  then show ?case by (subst walk_workers.simps) simp
next
  case (Cons w ws)
  then show ?case by (subst walk_workers.simps) simp
qed

lemma find_worker_chain: "chain (wnext S) h ws \<Longrightarrow> t \<notin> wtid S ` set ws \<Longrightarrow> find_worker S t h = Some 0"
proof (induction ws arbitrary: h)
  case Nil
  then show ?case by (subst find_worker.simps) simp
next
  case (Cons w ws)
  then show ?case by (subst find_worker.simps) simp
qed

lemma scan_word_word:
  assumes "w \<noteq> []" "\<forall>c \<in> set w. \<not> isspace c" "length w \<le> n" "isspace c"
  shows "scan_word n (w @ c # r) = Some (w, c # r)" "scan_word n (c # w @ c' # r) = scan_word n (w @ c' # r)"
proof -
  have "\<not> isspace (hd w)" using assms(1,2) by simp
  then have d: "dropWhile isspace (w @ c # r) = w @ c # r" using assms(1) by (cases w) auto
  have "takeWhile (\<lambda>c. \<not> isspace c) (take n (w @ c # r)) = w"
  proof -
    have "take n (w @ c # r) = w @ take (n - length w) (c # r)" using assms(3) by simp
    moreover have "takeWhile (\<lambda>c. \<not> isspace c) (w @ take (n - length w) (c # r)) = w @ takeWhile (\<lambda>c. \<not> isspace c) (take (n - length w) (c # r))"
      using assms(2) by (simp add: takeWhile_append2)
    moreover have "takeWhile (\<lambda>c. \<not> isspace c) (take (n - length w) (c # r)) = []"
      using assms(4) by (cases "n - length w") auto
    ultimately show ?thesis by simp
  qed
  then show "scan_word n (w @ c # r) = Some (w, c # r)" using assms(1) by (simp add: scan_word_def d)
  show "scan_word n (c # w @ c' # r) = scan_word n (w @ c' # r)" using assms(4) by (simp add: scan_word_def)
qed

definition cfg_line :: "string \<times> string \<Rightarrow> string" where
  "cfg_line kv = fst kv @ '' '' @ snd kv @ [NEWLINE]"

definition cfg_ok :: "string \<times> string \<Rightarrow> bool" where
  "cfg_ok kv \<longleftrightarrow> fst kv \<noteq> [] \<and> snd kv \<noteq> [] \<and> length (fst kv) < MAXKWLEN \<and> length (cfg_line kv) < MAXCFGLINE \<and>
     (\<forall>c \<in> set (fst kv @ snd kv). \<not> isspace c \<and> c \<noteq> NUL)"

lemma fgets_line:
  assumes "NEWLINE \<notin> set l" "length l + 1 < n"
  shows "fgets n (l @ NEWLINE # r) = Some (l @ [NEWLINE], r)"
proof -
  have t: "takeWhile (\<lambda>c. c \<noteq> NEWLINE) (take (n - 1) (l @ NEWLINE # r)) = l"
  proof -
    obtain k where k: "n - 1 - length l = Suc k" using assms(2) by (cases "n - 1 - length l") auto
    have "take (n - 1) (l @ NEWLINE # r) = l @ NEWLINE # take k r" using assms(2) k by simp
    then show ?thesis using assms(1) by (simp add: takeWhile_append)
  qed
  have "length l < min (n - 1) (length (l @ NEWLINE # r))" using assms(2) by simp
  then show ?thesis unfolding fgets_def Let_def t by simp
qed

lemma isspace_ws [simp]: "isspace NEWLINE" "isspace (CHR '' '')"
  by (simp_all add: isspace_def)

lemma scan_lines_cfg:
  assumes "\<forall>kv \<in> set kvs. cfg_ok kv"
  shows "scan_lines key (concat (map cfg_line kvs)) = map_of kvs key"
  using assms
proof (induction kvs)
  case Nil
  then show ?case by (subst scan_lines.simps) (simp add: fgets_def)
next
  case (Cons kv kvs)
  obtain k v where kv: "kv = (k, v)" by (cases kv)
  let ?l = "k @ '' '' @ v"
  have ok: "k \<noteq> []" "v \<noteq> []" "length k \<le> MAXKWLEN - 1" "length ?l + 1 < MAXCFGLINE" "length v \<le> MAXCFGLINE - 1"
    "\<forall>c \<in> set k. \<not> isspace c" "\<forall>c \<in> set v. \<not> isspace c" "is_cstr ?l"
  proof -
    have c: "cfg_ok (k, v)" using Cons.prems kv by simp
    then show "k \<noteq> []" "v \<noteq> []" by (simp_all add: cfg_ok_def)
    show "length k \<le> MAXKWLEN - 1" using c by (simp add: cfg_ok_def MAXKWLEN_def)
    show "length ?l + 1 < MAXCFGLINE" using c by (simp add: cfg_ok_def cfg_line_def)
    then show "length v \<le> MAXCFGLINE - 1" by simp
    show "\<forall>c \<in> set k. \<not> isspace c" "\<forall>c \<in> set v. \<not> isspace c" using c by (simp_all add: cfg_ok_def)
    have "NUL \<notin> set k" "NUL \<notin> set v" using c unfolding cfg_ok_def by fastforce+
    then show "is_cstr ?l" by (simp add: is_cstr_def)
  qed
  have nl: "NEWLINE \<notin> set ?l" using ok(6,7) by auto
  have f: "fgets MAXCFGLINE (concat (map cfg_line (kv # kvs))) = Some (?l @ [NEWLINE], concat (map cfg_line kvs))"
  proof -
    have "concat (map cfg_line (kv # kvs)) = ?l @ NEWLINE # concat (map cfg_line kvs)" by (simp add: kv cfg_line_def)
    then show ?thesis using fgets_line [OF nl ok(4)] by metis
  qed
  have s: "scan_word (MAXKWLEN - 1) (k @ CHR '' '' # v @ [NEWLINE]) = Some (k, CHR '' '' # v @ [NEWLINE])"
    using scan_word_word(1) [OF ok(1,6,3), of "CHR '' ''"] by simp
  have s2: "scan_word (MAXCFGLINE - 1) (CHR '' '' # v @ [NEWLINE]) = Some (v, [NEWLINE])"
    using scan_word_word(2) [OF ok(2,7,5), of "CHR '' ''" NEWLINE "[]"] scan_word_word(1) [OF ok(2,7,5), of NEWLINE "[]"] by simp
  have "scan_pair (c_str (?l @ [NEWLINE])) = Some (k, v)"
    using ok(8) s s2 by (simp add: scan_pair_def)
  then show ?case using f Cons by (subst scan_lines.simps) (auto simp: kv)
qed

lemma restart_all:
  assumes "durable S cur q" "start_ok M" "spool S0 = (spool S)(job_path \<mapsto> show_int (sint w))" "1 \<le> sint w" "queue S0 []"
    "m_reqs M = Some ns" "\<And>j. j \<in> set (live cur q) \<Longrightarrow> jobname (jjobid S j) \<in> set ns"
    "\<And>n. n \<in> set ns \<Longrightarrow> length (req_path n) < FILENMSZ" "inj (m_mem M)" "\<And>i. m_mem M i \<noteq> 0"
  shows "\<exists>S' q'. printd_start M S0 = Inr (S', rendezvous (m_servers M)) \<and> queue S' q' \<and> nextjob S' = w \<and>
    (\<forall>j \<in> set (live cur q). \<exists>k \<in> set q'. jjobid S' k = jjobid S j \<and> jreq S' k = jreq S j \<and>
       spool S' (data_path (jobname (jjobid S j))) = spool S (data_path (jobname (jjobid S j))))"
proof -
  have jp: "req_path n \<noteq> job_path" "data_path n \<noteq> job_path" for n
    by (simp_all add: job_path_def req_path_def data_path_def)
  obtain S' q' where S': "printd_start M S0 = Inr (S', rendezvous (m_servers M))" "queue S' q'" "nextjob S' = w" "keeps_spool S0 S'"
    "\<forall>n \<in> set ns. requeued S' q' (spool S0) n"
    using restart_queue [OF assms(2) _ assms(4,5,6,9,10,8)] assms(3) by auto
  have "\<exists>k \<in> set q'. jjobid S' k = jjobid S j \<and> jreq S' k = jreq S j \<and>
       spool S' (data_path (jobname (jjobid S j))) = spool S (data_path (jobname (jjobid S j)))" if j: "j \<in> set (live cur q)" for j
  proof -
    let ?n = "jobname (jjobid S j)"
    have sp: "spooled S j" using assms(1) j by (simp add: durable_def)
    then have r: "spool S0 (req_path ?n) = Some (enc_req (jreq S j))" "REQ_LEN \<le> length (enc_req (jreq S j))"
      using assms(3) jp by (auto simp: spooled_def)
    have "?n \<noteq> ''.''" "?n \<noteq> ''..''" using show_int_dots by (simp_all add: jobname_def)
    moreover have "word_of_int (atol ?n) = jjobid S j" by (simp add: jobname_def)
    moreover have "requeued S' q' (spool S0) ?n" using S'(5) assms(7) [OF j] by blast
    moreover have "dec_req (take REQ_LEN (enc_req (jreq S j))) = jreq S j" using sp by (simp add: spooled_def)
    ultimately have "\<exists>k \<in> set q'. jjobid S' k = jjobid S j \<and> jreq S' k = jreq S j"
      using r unfolding requeued_def by metis
    moreover have "spool S' (data_path ?n) = spool S (data_path ?n)"
      using S'(4) r jp assms(3) by (auto simp: keeps_spool_def)
    ultimately show ?thesis by blast
  qed
  then show ?thesis using S'(1-3) by blast
qed

section \<open>A concrete daemon\<close>

text \<open>
  The state of a daemon that has just started (the C globals are zero) and one client that sends a
  short document: the instances at which the properties below are applied.
\<close>

definition demo_pd :: printd where
  "demo_pd = \<lparr>jnext = (\<lambda>_. 0), jprev = (\<lambda>_. 0), jjobid = (\<lambda>_. 0), jreq = (\<lambda>_. \<lparr>size = 0, flags = 0, usernm = [], jobnm = []\<rparr>),
     jobhead = 0, jobtail = 0, nextjob = 1, jobfd = \<lparr>fname = job_path, content = ''1'', fpos = 0, locks = (\<lambda>_. None), others = []\<rparr>,
     wnext = (\<lambda>_. 0), wprev = (\<lambda>_. 0), wtid = (\<lambda>_. 0), wsock = (\<lambda>_. 0), workers = 0, wfreed = {}, cancelled = [], shut = [],
     reread = False, printer_name = ''pr'', spool = Map.empty\<rparr>"

definition demo_req :: printreq where
  "demo_req = \<lparr>size = 0, flags = 0, usernm = replicate 64 NUL, jobnm = replicate 256 NUL\<rparr>"

definition demo_env :: cenv where
  "demo_env = \<lparr>evs = [Bytes (enc_req demo_req @ ''hi''), Eof], mem_w = 1, mem_j = 1, creat_e = (\<lambda>_. 0),
     wres = (\<lambda>p off s. int (length s)), werr = 0, strerror = (\<lambda>_. []), old_buf = []\<rparr>"

definition demo_main :: main_env where
  "demo_main = \<lparr>m_argc = 1, m_sigaction = 0, m_sigmask = 0, m_host = Some ''h'', m_addrs = 0, m_servers = [3], m_lp = Some (7, 7),
     m_setids = True, m_held = [], m_junk = [], m_conf = Some (concat (map cfg_line [(''printer'', ''p'')])),
     m_gai = (\<lambda>_ _. Some (Some ''pr'')), m_thread1 = 0, m_thread2 = 0, m_mem = Suc, m_reqs = Some [jobname 1]\<rparr>"

lemma wf_demo_req: "wf_req demo_req"
  by (simp add: wf_req_def demo_req_def USERNM_MAX_def JOBNM_MAX_def)

lemma enc_demo_nonempty: "enc_req demo_req \<noteq> []"
  using length_enc_req [OF wf_demo_req] by (auto simp: REQ_LEN_def)

lemma demo_queue: "queue demo_pd []"
  by (simp add: queue_def demo_pd_def dlist_def)

lemma demo_durable: "durable demo_pd 0 []"
  using demo_queue by (simp add: durable_def in_order_def pending_def live_def) (simp add: demo_pd_def)

lemma good_demo: "good_client demo_env"
  using wf_demo_req enc_demo_nonempty by (auto simp: good_client_def demo_env_def)

lemma queue_unique: "queue S q \<Longrightarrow> queue S q' \<Longrightarrow> q = q'"
  using dlist_chain chain_unique unfolding queue_def by blast

lemma run_enqueue:
  assumes "cl t = Some (Replied req w)" "jp \<noteq> 0" "queue S q" "jp \<notin> set q" "cur = 0 \<or> jp \<noteq> cur"
  shows "\<exists>S'. pd_run (S, cur, cl) 1 [Queued w] (S', cur, cl(t \<mapsto> Leaving)) \<and> queue S' (q @ [jp])"
proof -
  obtain S' where a: "add_job jp req w S = Inr S'" using add_job_eq [OF assms(2)] by blast
  have "\<forall>q. queue S q \<longrightarrow> jp \<notin> set q" using assms(3,4) queue_unique by blast
  then have "pd_step (S, cur, cl) [Queued w] (S', cur, cl(t \<mapsto> Leaving))" by (rule pd_step.enqueue [of cl t, OF assms(1) a _ assms(5)])
  then show ?thesis using pd_run_first [OF _ pd_run.run0] add_job_queue [OF assms(3,2,4), of req w] a by fastforce
qed

text \<open>
  The answer to a client and \<^verbatim>\<open>add_job\<close> are not under one lock: of two clients, the one accepted
  second may be queued first.
\<close>

lemma printd_overtake:
  assumes "good_client E" "cl t = None" "cl u = None" "t \<noteq> u" "queue S q" "jp \<noteq> 0" "jq \<noteq> 0" "jp \<noteq> jq"
    "jp \<notin> set q" "jq \<notin> set q"
  shows "\<exists>n ls S' cl'. pd_run (S, 0, cl) n ls (S', 0, cl') \<and> accepted ls = [nextjob S, next_no (nextjob S)] \<and>
    queued ls = [next_no (nextjob S), nextjob S] \<and> finished ls = []"
proof -
  obtain S1 r where r1: "pd_run (S, 0, cl) 4 [Accepted (nextjob S)] (S1, 0, cl(t \<mapsto> Replied r (nextjob S)))"
    "same_jobs S S1" "nextjob S1 = next_no (nextjob S)" using client_run_reply [of E cl t, OF assms(1,2)] by blast
  let ?c = "cl(t \<mapsto> Replied r (nextjob S))"
  have "?c u = None" using assms(3,4) by simp
  then obtain S2 r' where r2: "pd_run (S1, 0, ?c) 4 [Accepted (nextjob S1)] (S2, 0, ?c(u \<mapsto> Replied r' (nextjob S1)))"
    "same_jobs S1 S2" using client_run_reply [OF assms(1)] by blast
  let ?d = "?c(u \<mapsto> Replied r' (nextjob S1))"
  have "queue S2 q" using assms(5) r1(2) r2(2) by (simp add: same_jobs_def)
  then obtain S3 where r3: "pd_run (S2, 0, ?d) 1 [Queued (nextjob S1)] (S3, 0, ?d(u \<mapsto> Leaving))" "queue S3 (q @ [jq])"
    using run_enqueue [of ?d u r' "nextjob S1" jq S2 q 0] assms(7,10) by auto
  then obtain S4 where r4: "pd_run (S3, 0, ?d(u \<mapsto> Leaving)) 1 [Queued (nextjob S)] (S4, 0, (?d(u \<mapsto> Leaving))(t \<mapsto> Leaving))"
    using run_enqueue [of "?d(u \<mapsto> Leaving)" t r "nextjob S" jp S3 "q @ [jq]" 0] assms(4,6,8,9) by auto
  show ?thesis
    using pd_run_trans [OF r4 pd_run_trans [OF r3(1) pd_run_trans [OF r2(1) r1(1)]]] r1(3)
    by (intro exI conjI) (assumption | simp)+
qed

lemma demo_client: "\<exists>S' cl. pd_run (demo_pd, 0, Map.empty) 5 [Accepted 1, Queued 1] (S', 0, cl)"
proof -
  have n: "nextjob demo_pd = 1" by (simp add: demo_pd_def)
  then obtain S1 r where r: "pd_run (demo_pd, 0, Map.empty) 4 [Accepted 1] (S1, 0, [7 \<mapsto> Replied r 1])" "same_jobs demo_pd S1"
    using client_run_reply [OF good_demo, of Map.empty 7 demo_pd 0] by auto
  then have "queue S1 []" using demo_queue by (simp add: same_jobs_def)
  then show ?thesis using run_enqueue [of "[7 \<mapsto> Replied r 1]" 7 r 1 1 S1 "[]" 0] pd_run_trans [OF _ r(1)] by fastforce
qed

lemma demo_start_ok: "start_ok demo_main"
proof -
  have "scan_lines ''printer'' (concat (map cfg_line [(''printer'', ''p'')])) = Some ''p''"
    by (subst scan_lines_cfg) (auto simp: cfg_ok_def cfg_line_def isspace_def MAXKWLEN_def MAXCFGLINE_def)
  then have "get_printaddr (m_gai demo_main) (m_conf demo_main) = Inr (Some (Some ''pr''))"
    by (simp add: get_printaddr_def scan_configfile_def demo_main_def)
  then show ?thesis by (simp add: start_ok_def) (simp add: demo_main_def rendezvous_def become_lp_def)
qed

section \<open>Properties\<close>

text \<open>
  C5: jobs are finished (printed, or cancelled for a missing document) in the order in which \<^verbatim>\<open>add_job\<close>
  queued them, and a client that is told its number has its job queued once. In every run from a state
  without client threads, the jobs queued at the start followed by those queued since are the finished
  jobs, then the job being printed, then the queue; and the accepted jobs are, with their
  multiplicities, the ones queued since and those whose threads have not called \<^verbatim>\<open>add_job\<close> yet. The
  order of the answers may be another one (\<open>printd_overtake\<close>).
\<close>

theorem printd_order:
  assumes "queue S q" "pd_run (S, 0, Map.empty) n ls (S', cur, cl)"
  shows "\<exists>q'. queue S' q' \<and> cur \<notin> set q' \<and> map (jjobid S) q @ queued ls = finished ls @ map (jjobid S') (live cur q') \<and>
    mset (accepted ls) = mset (queued ls) + unqueued cl"
proof -
  have "in_order S 0 q" using assms(1) jq.nodes by (auto simp: in_order_def)
  moreover have "mset (accepted ls) = mset (queued ls) + unqueued cl"
    using pd_run_unqueued [OF assms(2)] by (simp add: unqueued_def ran_mset_def)
  ultimately show ?thesis
    using pd_run_in_order [OF assms(2), of q] by (auto simp: in_order_def pending_def live_def)
qed

theorem printd_order_witness:
  "\<exists>n ls S' cl q'. pd_run (demo_pd, 0, Map.empty) n ls (S', 0, cl) \<and> accepted ls = [1, 2] \<and>
     queue S' q' \<and> map (jjobid S') q' = [2, 1]"
proof -
  have n: "nextjob demo_pd = 1" "next_no 1 = 2" by (simp_all add: demo_pd_def next_no_def)
  obtain k ls S' cl where r: "pd_run (demo_pd, 0, Map.empty) k ls (S', 0, cl)" "accepted ls = [1, 2]" "queued ls = [2, 1]" "finished ls = []"
    using printd_overtake [OF good_demo, of Map.empty 7 8 demo_pd "[]" 1 2] demo_queue n by auto
  then obtain q' where "queue S' q'" "map (jjobid S') q' = [2, 1]"
    using printd_order [OF demo_queue r(1)] by (auto simp: live_def)
  then show ?thesis using r by (intro exI conjI)
qed

text \<open>
  C6: no accepted job is lost while the daemon runs. Let the daemon start with a queue whose jobs are
  spooled under different numbers below the next one (\<open>durable\<close>) and without client threads. In every
  state it reaches in so few steps that the counter does not wrap around, the spool directory holds the
  document and the request of every job that is queued or being printed and of every job whose client
  has its answer but which is not queued yet, and all these jobs have different numbers. The hypothesis
  on the numbers is needed: a restart may leave queued numbers at or above the next one, and then a
  number and its files are used twice (\<open>printd_number_reused\<close>).
\<close>

theorem printd_durable:
  assumes "durable S 0 q" "pd_run (S, 0, Map.empty) n ls (S', cur, cl)" "sint (nextjob S) + int n < 2 ^ 31"
  shows "\<exists>q'. queue S' q' \<and> distinct (map (jjobid S') (live cur q')) \<and>
    (\<forall>j \<in> set (live cur q'). spool S' (data_path (jobname (jjobid S' j))) \<noteq> None \<and>
      spool S' (req_path (jobname (jjobid S' j))) = Some (enc_req (jreq S' j))) \<and>
    (\<forall>t req jid. cl t = Some (Replied req jid) \<longrightarrow> spool S' (data_path (jobname jid)) \<noteq> None \<and>
      spool S' (req_path (jobname jid)) = Some (enc_req req) \<and> jid \<notin> jjobid S' ` set (live cur q') \<and>
      (\<forall>u req'. cl u = Some (Replied req' jid) \<longrightarrow> u = t))"
proof -
  have "sys_ok (S, 0, Map.empty) q" using assms(1) by (rule sys_ok_start)
  then obtain q' where d: "durable S' cur q'" and c: "clients_ok S' (set (pending S' cur q')) cl"
    using pd_run_sys_ok [OF assms(2)] assms(3) by (auto simp: sys_ok_def)
  have "has_files S' req jid \<and> jid \<notin> set (pending S' cur q') \<and> (\<forall>u req'. cl u = Some (Replied req' jid) \<longrightarrow> u = t)"
    if "cl t = Some (Replied req jid)" for t req jid
  proof -
    have n: "numbers cl u = Some jid" if "cl u = Some (Replied r jid)" for u r using that by (simp add: numbers_def)
    then have "u = t" if "cl u = Some (Replied r jid)" for u r
      using c that \<open>cl t = _\<close> unfolding clients_ok_def inj_on_def by (metis domI)
    moreover have "has_files S' req jid" using c that kept.simps(3) unfolding clients_ok_def by blast
    moreover have "jid \<notin> set (pending S' cur q')" using c ranI [of "numbers cl" t jid] n [OF that] unfolding clients_ok_def by blast
    ultimately show ?thesis by blast
  qed
  then show ?thesis using d
    by (intro exI [of _ q']) (auto simp: durable_def in_order_def pending_def spooled_def has_files_def)
qed

theorem printd_durable_witness:
  "\<exists>S' cl q'. pd_run (demo_pd, 0, Map.empty) 5 [Accepted 1, Queued 1] (S', 0, cl) \<and> queue S' q' \<and>
    (\<forall>j \<in> set q'. spool S' (data_path (jobname (jjobid S' j))) \<noteq> None)"
proof -
  obtain S' cl where r: "pd_run (demo_pd, 0, Map.empty) 5 [Accepted 1, Queued 1] (S', 0, cl)" using demo_client by blast
  have "sint (nextjob demo_pd) + int 5 < 2 ^ 31" by (simp add: demo_pd_def)
  then show ?thesis using printd_durable [OF demo_durable r] r by (auto simp: live_def)
qed

text \<open>
  C7: a restart brings every pending job back: the daemon that starts on the spool directory of an
  earlier run queues each of its unfinished jobs again, with its number and its request, and keeps
  its document.
\<close>

theorem printd_restart:
  assumes "durable S cur q" "start_ok M" "spool S0 = (spool S)(job_path \<mapsto> show_int (sint w))" "1 \<le> sint w" "queue S0 []"
    "m_reqs M = Some ns" "\<And>j. j \<in> set (live cur q) \<Longrightarrow> jobname (jjobid S j) \<in> set ns"
    "\<And>n. n \<in> set ns \<Longrightarrow> length (req_path n) < FILENMSZ" "inj (m_mem M)" "\<And>i. m_mem M i \<noteq> 0"
  shows "\<exists>S' q'. printd_start M S0 = Inr (S', rendezvous (m_servers M)) \<and> queue S' q' \<and> nextjob S' = w \<and>
    (\<forall>j \<in> set (live cur q). \<exists>k \<in> set q'. jjobid S' k = jjobid S j \<and> jreq S' k = jreq S j \<and>
       spool S' (data_path (jobname (jjobid S j))) = spool S (data_path (jobname (jjobid S j))))"
  using restart_all [OF assms] .

lemma demo_crash:
  "\<exists>S q. durable S 0 q \<and> map (jjobid S) q = [1]"
proof -
  obtain S cl where r: "pd_run (demo_pd, 0, Map.empty) 5 [Accepted 1, Queued 1] (S, 0, cl)" using demo_client by blast
  have "sint (nextjob demo_pd) + int 5 < 2 ^ 31" by (simp add: demo_pd_def)
  moreover have "sys_ok (demo_pd, 0, Map.empty) []" using demo_durable by (rule sys_ok_start)
  ultimately obtain q where q: "durable S 0 q" using pd_run_sys_ok [OF r] by (auto simp: sys_ok_def)
  obtain q' where "in_order S 0 q'" "pending S 0 q' = [1]"
    using pd_run_in_order [OF r, of "[]"] demo_durable by (auto simp: durable_def pending_def live_def)
  moreover then have "q' = q" using q queue_unique unfolding durable_def in_order_def by blast
  ultimately show ?thesis using q by (intro exI [of _ S] exI [of _ q]) (simp add: pending_def live_def)
qed

lemma demo_reqs: "n \<in> set [jobname 1] \<Longrightarrow> length (req_path n) < FILENMSZ"
  using length_show_jobid [of 1] by (simp add: req_path_def SPOOLDIR_def FILENMSZ_def jobname_def)

theorem printd_restart_witness:
  "\<exists>S q S0 S' q'. durable S 0 q \<and> map (jjobid S) q = [1] \<and>
     printd_start demo_main S0 = Inr (S', rendezvous [3]) \<and> queue S' q' \<and> 1 \<in> jjobid S' ` set q'"
proof -
  obtain S q where S: "durable S 0 q" "map (jjobid S) q = [1]" using demo_crash by (elim exE conjE)
  then obtain j where j: "q = [j]" "jjobid S j = 1" by auto
  let ?S0 = "demo_pd\<lparr>spool := (spool S)(job_path \<mapsto> show_int (sint (1 :: 32 word)))\<rparr>"
  have q0: "queue ?S0 []" using demo_queue by simp
  have "\<exists>S' q'. printd_start demo_main ?S0 = Inr (S', rendezvous (m_servers demo_main)) \<and> queue S' q' \<and> nextjob S' = 1 \<and>
    (\<forall>j \<in> set (live 0 q). \<exists>k \<in> set q'. jjobid S' k = jjobid S j \<and> jreq S' k = jreq S j \<and>
       spool S' (data_path (jobname (jjobid S j))) = spool S (data_path (jobname (jjobid S j))))"
    by (rule printd_restart [OF S(1) demo_start_ok _ _ q0, where ns = "[jobname 1]"])
      (use demo_reqs j in \<open>auto simp: live_def demo_main_def\<close>)
  then show ?thesis using S j by (fastforce simp: live_def demo_main_def)
qed

text \<open>
  The job file is brought up to date only when the printer thread picks up a job. A daemon that
  restarts on a job file written before some pending job was accepted gives that job's number to
  the next client: the number it will hand out belongs to a job in its queue, whose files the next
  client overwrites.
\<close>

theorem printd_number_reused:
  assumes "durable S cur q" "start_ok M" "spool S0 = (spool S)(job_path \<mapsto> show_int (sint w))" "queue S0 []"
    "m_reqs M = Some ns" "\<And>j. j \<in> set (live cur q) \<Longrightarrow> jobname (jjobid S j) \<in> set ns"
    "\<And>n. n \<in> set ns \<Longrightarrow> length (req_path n) < FILENMSZ" "inj (m_mem M)" "\<And>i. m_mem M i \<noteq> 0"
    "w \<in> jjobid S ` set (live cur q)"
  shows "\<exists>S' q'. printd_start M S0 = Inr (S', rendezvous (m_servers M)) \<and> queue S' q' \<and>
    snd (get_newjobno S') = w \<and> w \<in> jjobid S' ` set q'"
proof -
  obtain j where j: "j \<in> set (live cur q)" "w = jjobid S j" using assms(10) by blast
  then have "1 \<le> sint w" using assms(1) by (auto simp: durable_def spooled_def)
  then obtain S' q' where S': "printd_start M S0 = Inr (S', rendezvous (m_servers M))" "queue S' q'" "nextjob S' = w"
    "\<exists>k \<in> set q'. jjobid S' k = jjobid S j"
    using restart_all [OF assms(1-3) _ assms(4-9)] j(1) by blast
  then have "w \<in> jjobid S' ` set q'" using j(2) by (metis image_eqI)
  then show ?thesis using S'(1-3) get_newjobno_eq [of S'] by (intro exI [of _ S'] exI [of _ q']) simp
qed

theorem printd_number_reused_witness:
  "\<exists>S q S0 S' q'. durable S 0 q \<and> map (jjobid S) q = [1] \<and>
     printd_start demo_main S0 = Inr (S', rendezvous [3]) \<and> queue S' q' \<and> snd (get_newjobno S') = 1 \<and> 1 \<in> jjobid S' ` set q'"
proof -
  obtain S q where S: "durable S 0 q" "map (jjobid S) q = [1]" using demo_crash by (elim exE conjE)
  then obtain j where j: "q = [j]" "jjobid S j = 1" by auto
  let ?S0 = "demo_pd\<lparr>spool := (spool S)(job_path \<mapsto> show_int (sint (1 :: 32 word)))\<rparr>"
  have q0: "queue ?S0 []" using demo_queue by simp
  have "\<exists>S' q'. printd_start demo_main ?S0 = Inr (S', rendezvous (m_servers demo_main)) \<and> queue S' q' \<and>
    snd (get_newjobno S') = 1 \<and> 1 \<in> jjobid S' ` set q'"
    by (rule printd_number_reused [OF S(1) demo_start_ok _ q0, where ns = "[jobname 1]"])
      (use demo_reqs j in \<open>auto simp: live_def demo_main_def\<close>)
  then show ?thesis using S by (fastforce simp: demo_main_def)
qed

text \<open>The command reaches the daemon: the file opens and is regular, the configuration names a print server, and
  one of its addresses answers.\<close>

definition reaches_server :: "(string \<Rightarrow> int) \<Rightarrow> (string \<Rightarrow> (bool \<times> nat) option) \<Rightarrow> string option \<Rightarrow>
    (string \<Rightarrow> string \<Rightarrow> int \<times> ((nat \<Rightarrow> int) \<times> (nat \<Rightarrow> bool)) list) \<Rightarrow> string \<Rightarrow> nat \<Rightarrow> bool" where
  "reaches_server opn stat conf gal fnm nbytes \<longleftrightarrow> 0 \<le> opn fnm \<and> stat fnm = Some (True, nbytes) \<and>
     (\<exists>host ais sfd. get_printserver conf = Inr (Some host) \<and> gal host ''print'' = (0, ais) \<and> try_addrs ais = Some sfd)"

lemma print_cmd_submits:
  "print_cmd_args argv = Inr (text, fnm) \<Longrightarrow> reaches_server opn stat conf gal fnm nbytes \<Longrightarrow>
    print_cmd opn stat conf gal E argv = submit_file E fnm nbytes text"
  by (auto simp: reaches_server_def print_cmd_def print_main_def)

lemma print_cmd_flags: "take 1 f \<noteq> ''-'' \<or> length f \<le> 1 \<Longrightarrow>
    print_cmd_args (cmd # map (\<lambda>n. CHR ''-'' # replicate (Suc n) (CHR ''t'')) ns @ [f]) = Inr (ns \<noteq> [], f)"
  using getopt_flags [of f "CHR ''t''" "''t''" ns] by (cases ns) (auto simp: print_cmd_args_def)

text \<open>
  C8: the document the user prints is the document the daemon spools. If no call fails, what the \<^verbatim>\<open>print\<close>
  command sends for its arguments, cut by the network into any non-empty pieces, makes the client
  thread store the whole file under the next job number, queue a job with the user's and the file's
  name, and answer with that number, which the command reports.
\<close>

theorem print_end_to_end:
  assumes "print_cmd_args argv = Inr (text, fnm)" "reaches_server opn stat conf gal fnm nbytes"
    "wf_req (s_junk E)" "no_empty (s_file E)" "\<not> breaks (s_file E)" "\<forall>w \<in> set (s_ws E). 0 < w"
    "\<And>nm. s_pwd E = Some nm \<Longrightarrow> is_cstr nm" "is_cstr fnm" "length fnm < JOBNM_MAX"
    "no_empty (evs D)" "tavail (evs D) = fst (print_cmd opn stat conf gal E argv)" "\<And>p. creat_e D p = 0"
    "\<And>p off s. wres D p off s = int (length s)" "mem_j D \<noteq> 0"
    "no_empty (s_resp E)" "avail (s_resp E) = le32 0 @ le32 (htonl (nextjob S)) @ m" "length m + 8 = RESP_LEN"
  shows "\<exists>S' res. client_body D S = Inr (S', res, 0) \<and> retcode res = 0 \<and> jobid res = htonl (nextjob S) \<and>
    spool S' (data_path (jobname (nextjob S))) = Some (avail (s_file E)) \<and> jobtail S' = mem_j D \<and>
    jjobid S' (mem_j D) = nextjob S \<and> size (jreq S' (mem_j D)) = word_of_nat nbytes \<and>
    c_str (usernm (jreq S' (mem_j D))) = user_of (s_pwd E) \<and> c_str (jobnm (jreq S' (mem_j D))) = fnm \<and>
    snd (print_cmd opn stat conf gal E argv) = Job_id (uint (nextjob S))"
proof -
  let ?r = "build_req E fnm nbytes text"
  have sub: "print_cmd opn stat conf gal E argv = (enc_req ?r @ avail (s_file E), Job_id (uint (nextjob S)))"
    using print_cmd_submits [OF assms(1,2)] submit_file_all [OF assms(3-6)] read_response_ok [OF assms(15-17)] by simp
  then have "tavail (evs D) = enc_req ?r @ avail (s_file E)" using assms(11) by simp
  then obtain fl where b: "client_body D S = Inr (projr (add_job (mem_j D) (?r\<lparr>size := ntohl (size ?r), flags := fl\<rparr>) (nextjob S)
      (S\<lparr>nextjob := next_no (nextjob S), spool := (spool S)(data_path (jobname (nextjob S)) \<mapsto> avail (s_file E),
         req_path (jobname (nextjob S)) \<mapsto> enc_req (?r\<lparr>size := ntohl (size ?r), flags := fl\<rparr>))\<rparr>)),
      \<lparr>retcode = 0, jobid = htonl (nextjob S), msg = ''request ID '' @ jobname (nextjob S)\<rparr>, 0)"
    using client_body_accepts [OF assms(10) _ wf_build_req [OF assms(3)] assms(12-14)] by blast
  have "c_str (usernm ?r) = user_of (s_pwd E)" using c_str_usernm_field [of "s_pwd E", OF assms(7)] by (simp add: build_req_def)
  moreover have "c_str (jobnm ?r) = fnm" using c_str_jobnm_field [OF assms(8,9)] by (simp add: build_req_def)
  moreover have "ntohl (size ?r) = word_of_nat nbytes" by (simp add: build_req_def)
  ultimately show ?thesis unfolding b using sub assms(14) by (simp add: add_job_eq)
qed

definition demo_send :: senv where
  "demo_send = \<lparr>s_pwd = Some ''joe'', s_file = [Bytes ''hi'', Eof], s_ws = [], s_resp = [Bytes (le32 0 @ le32 (htonl 1) @ replicate 512 NUL)],
     s_junk = demo_req\<rparr>"

definition demo_print :: "string \<times> verdict" where
  "demo_print = print_cmd (\<lambda>_. 3) (\<lambda>_. Some (True, 2)) (Some (concat (map cfg_line [(''printserver'', ''b'')])))
     (\<lambda>h s. (0, [(\<lambda>_. 4, \<lambda>_. True)])) demo_send [''print'', ''f'']"

theorem print_end_to_end_witness:
  "\<exists>S' res. client_body (demo_env\<lparr>evs := [Bytes (fst demo_print), Eof]\<rparr>) demo_pd = Inr (S', res, 0) \<and>
     spool S' (data_path ''1'') = Some ''hi'' \<and> snd demo_print = Job_id 1"
proof -
  let ?D = "demo_env\<lparr>evs := [Bytes (fst demo_print), Eof]\<rparr>"
  have n: "nextjob demo_pd = 1" "jobname 1 = ''1''"
    by (simp add: demo_pd_def) (simp add: jobname_def show_int_def show_nat.simps digit_def, code_simp)
  have "get_printserver (Some (concat (map cfg_line [(''printserver'', ''b'')]))) = Inr (Some ''b'')"
    using scan_lines_cfg [of "[(''printserver'', ''b'')]" "''printserver''"]
    by (auto simp: get_printserver_def scan_configfile_def cfg_ok_def cfg_line_def isspace_def MAXKWLEN_def MAXCFGLINE_def)
  then have r: "reaches_server (\<lambda>_. 3) (\<lambda>_. Some (True, 2)) (Some (concat (map cfg_line [(''printserver'', ''b'')])))
      (\<lambda>h s. (0, [(\<lambda>_. 4, \<lambda>_. True)])) ''f'' 2"
    by (simp add: reaches_server_def connect_retry_def connect_loop.simps MAXSLEEP_def)
  have a: "print_cmd_args [''print'', ''f''] = Inr (False, ''f'')" by (simp add: print_cmd_args_def)
  have d: "demo_print = submit_file demo_send ''f'' 2 False" unfolding demo_print_def by (rule print_cmd_submits [OF a r])
  have ne: "fst demo_print \<noteq> []"
    using submit_file_all [of demo_send "''f''" 2 False] wf_demo_req by (simp add: d demo_send_def)
  have "\<exists>S' res. client_body ?D demo_pd = Inr (S', res, 0) \<and> retcode res = 0 \<and> jobid res = htonl (nextjob demo_pd) \<and>
    spool S' (data_path (jobname (nextjob demo_pd))) = Some (avail (s_file demo_send)) \<and> jobtail S' = mem_j ?D \<and>
    jjobid S' (mem_j ?D) = nextjob demo_pd \<and> size (jreq S' (mem_j ?D)) = word_of_nat 2 \<and>
    c_str (usernm (jreq S' (mem_j ?D))) = user_of (s_pwd demo_send) \<and> c_str (jobnm (jreq S' (mem_j ?D))) = ''f'' \<and>
    snd demo_print = Job_id (uint (nextjob demo_pd))"
    by (rule print_end_to_end [where E = demo_send and m = "replicate 512 NUL", OF a r, folded demo_print_def])
      (use wf_demo_req ne n in \<open>simp_all add: demo_send_def demo_env_def JOBNM_MAX_def RESP_LEN_def le32_def\<close>)
  then show ?thesis using n by (auto simp: demo_send_def)
qed

text \<open>
  C9: \<^verbatim>\<open>printer_status\<close> on a complete answer that arrives in one piece returns success exactly when the
  answer carries the job's number and an IPP status of the successful class, whatever other HTTP
  fields the answer has.
\<close>

theorem printer_status_correct:
  assumes "wf_head ver reason hdr" "wf_rest rest" "200 \<le> code" "code \<le> 299" "8 \<le> length body" "len \<le> length body"
    "length (head ver code reason hdr len @ rest @ NEWLINE # crlf @ body) < IOBUFSZ"
  shows "printer_status jid mem (Bytes (head ver code reason hdr len @ rest @ NEWLINE # crlf @ body) # es) = Some (Inr (says_ok jid body))"
  by (rule printer_status_answer [OF refl assms])

definition demo_body :: string where
  "demo_body = map char_of [1, 1, 0, 0, 0, 0, 0, 5 :: nat]"

lemma demo_says_ok: "says_ok 5 demo_body"
  by (simp add: says_ok_def demo_body_def be32_def le32_def STATCLASS_OK_def)

lemma demo_wf_head: "wf_head ''HTTP/1.1'' ''OK'' []"
  by (simp add: wf_head_def)

theorem printer_status_correct_witness:
  "printer_status 5 (\<lambda>_. NUL) [Bytes (head ''HTTP/1.1'' 200 ''OK'' [] 8 @ [] @ NEWLINE # crlf @ demo_body)] = Some (Inr True)"
proof -
  have "length demo_body = 8" by (simp add: demo_body_def)
  moreover have "length (show_nat 200) = 3" "length (show_nat 8) = 1" by (simp_all add: show_nat.simps)
  ultimately show ?thesis
    using printer_status_correct [OF demo_wf_head, of "[]" 200 demo_body 8 5 "\<lambda>_. NUL" "[]"] demo_says_ok
    by (simp add: wf_rest_def head_def IOBUFSZ_def)
qed

text \<open>
  C10: \<^verbatim>\<open>printer_status\<close> never returns when the first piece of the answer ends with the line of the length:
  behind the number there are one or two bytes, the search for the end of the header neither moves
  nor reads, and the printer thread hangs whatever the printer sends next.
\<close>

theorem printer_status_hangs:
  assumes "wf_head ver reason hdr" "200 \<le> code" "code \<le> 299" "len < 2 ^ 31"
    "length (head ver code reason hdr len @ tail) < IOBUFSZ" "length tail = 1 \<or> length tail = 2"
  shows "printer_status jid mem (Bytes (head ver code reason hdr len @ tail) # es) = None"
  by (rule printer_status_stuck [OF refl assms])

theorem printer_status_hangs_witness:
  "printer_status 5 (\<lambda>_. NUL) [Bytes (head ''HTTP/1.1'' 200 ''OK'' [] 8 @ [NEWLINE]), Bytes (crlf @ demo_body)] = None"
proof -
  have "length (show_nat 200) = 3" "length (show_nat 8) = 1" by (simp_all add: show_nat.simps)
  then show ?thesis
    using printer_status_hangs [OF demo_wf_head, of 200 8 "[NEWLINE]" 5 "\<lambda>_. NUL" "[Bytes (crlf @ demo_body)]"]
    by (simp add: head_def IOBUFSZ_def)
qed

text \<open>
  The IPP header fits its buffer exactly when the printer's name has at most 52 characters and
  the names of printer, user and job together at most 342 (text) or 330 (PostScript); the daemon
  checks neither, and a user and a job name of the permitted lengths alone can have 318.
\<close>

theorem ipp_header_bounds:
  "ipp_header pname jid r beyond =
    (if 52 < length pname then Inl (Overrun ''printer_thread: str'')
     else if (if is_text r then 342 else 330) < length pname + length (user_str r beyond) + length (job_str r beyond)
     then Inl (Overrun ''printer_thread: ibuf'')
     else Inr (ipp_bytes pname jid r beyond))"
  by (auto simp: ipp_header_def length_ipp_bytes printer_uri_def STR_SZ_def IBUFSZ_def)

text \<open>
  \<^verbatim>\<open>add_worker\<close> puts a worker in front of a non-empty list without moving the list's head, so the
  worker is never found: neither \<^verbatim>\<open>kill_workers\<close> cancels its thread nor does its own clean-up close its
  socket.
\<close>

theorem add_worker_lost:
  assumes "chain (wnext S) (workers S) ws" "ws \<noteq> []" "wtp \<noteq> 0" "wtp \<notin> set ws" "tid \<notin> wtid S ` set ws"
  shows "(\<exists>S'. kill_workers (fst (add_worker wtp tid fd S)) = Some S' \<and> cancelled S' = cancelled S @ map (wtid S) ws) \<and>
    client_cleanup tid (fst (add_worker wtp tid fd S)) = Some (fst (add_worker wtp tid fd S))"
proof -
  let ?S = "fst (add_worker wtp tid fd S)"
  have w: "workers S \<noteq> 0" using assms(1,2) by (cases ws) auto
  have f: "workers ?S = workers S" "wnext ?S = (wnext S)(wtp := workers S)" "wtid ?S = (wtid S)(wtp := tid)" "cancelled ?S = cancelled S"
    using w assms(3) by (simp_all add: add_worker_def Let_def)
  have "chain ((wnext S)(wtp := workers S)) (workers S) ws = chain (wnext S) (workers S) ws"
    using assms(4) by (intro chain_cong) auto
  then have c: "chain (wnext ?S) (workers ?S) ws" using assms(1) f by simp
  have m: "map (wtid ?S) ws = map (wtid S) ws" using assms(4) f by auto
  have "\<exists>S'. kill_workers ?S = Some S' \<and> cancelled S' = cancelled S @ map (wtid S) ws"
    using walk_chain [OF c] m f by (simp add: kill_workers_def)
  moreover have "tid \<notin> wtid ?S ` set ws" using assms(4,5) f by auto
  then have "client_cleanup tid ?S = Some ?S" using find_worker_chain [OF c] by (simp add: client_cleanup_def)
  ultimately show ?thesis by blast
qed

theorem add_worker_lost_witness:
  "\<exists>S'. kill_workers (fst (add_worker 2 8 4 (fst (add_worker 1 7 3 demo_pd)))) = Some S' \<and> cancelled S' = [7]"
proof -
  let ?S = "fst (add_worker 1 7 3 demo_pd)"
  have "chain (wnext ?S) (workers ?S) [1]" "wtid ?S 1 = 7" "cancelled ?S = []"
    by (simp_all add: add_worker_def Let_def demo_pd_def)
  then show ?thesis using add_worker_lost [of ?S "[1]" 2 8 4] by simp
qed

text \<open>
  Job numbers stay positive: \<^verbatim>\<open>get_newjobno\<close> returns the current number and moves on to the next one,
  from the largest 32-bit number back to 1.
\<close>

theorem get_newjobno_correct:
  assumes "1 \<le> sint (nextjob S)"
  shows "\<exists>S'. get_newjobno S = (S', nextjob S) \<and> S' = S\<lparr>nextjob := nextjob S'\<rparr> \<and>
    sint (nextjob S') = (if sint (nextjob S) = 2 ^ 31 - 1 then 1 else sint (nextjob S) + 1)"
  using sint_next_no [OF assms] by (intro exI [of _ "S\<lparr>nextjob := next_no (nextjob S)\<rparr>"]) (simp add: get_newjobno_eq)

theorem get_newjobno_correct_witness: "\<exists>S'. get_newjobno (demo_pd\<lparr>nextjob := 2147483647\<rparr>) = (S', 2147483647) \<and> sint (nextjob S') = 1"
  using get_newjobno_correct [of "demo_pd\<lparr>nextjob := 2147483647\<rparr>"] by auto

text \<open>
  \<^verbatim>\<open>scan_configfile\<close> on a file of keyword-value lines within the limits of its buffers returns the
  value of the first line with the keyword, and nothing if there is none.
\<close>

theorem scan_configfile_correct:
  assumes "\<forall>kv \<in> set kvs. cfg_ok kv"
  shows "scan_configfile (Some (concat (map cfg_line kvs))) key = Inr (map_of kvs key)"
  using scan_lines_cfg [OF assms] by (simp add: scan_configfile_def)

theorem scan_configfile_correct_witness:
  "scan_configfile (Some (concat (map cfg_line [(''printer'', ''a''), (''printserver'', ''b'')]))) ''printserver'' = Inr (Some ''b'')"
  using scan_configfile_correct [of "[(''printer'', ''a''), (''printserver'', ''b'')]" "''printserver''"]
  by (auto simp: cfg_ok_def cfg_line_def isspace_def MAXKWLEN_def MAXCFGLINE_def)

end
