(* ===== verification/Thread_Pool.thy ===== *)
theory Thread_Pool
  imports Fifo "HOL-Library.Monad_Syntax"
begin

text \<open>
  The thread pool \<^verbatim>\<open>LinuxLesson/thread_pool/thrd_pool.c\<close> and its spin lock (\<^verbatim>\<open>spinlock.h\<close>, the branch for C11
  atomics). A task's first member is the link to the next task, and \<^verbatim>\<open>tail\<close> points either at the
  queue's \<^verbatim>\<open>head\<close> or at the link of the last task. The threads run as a step relation whose steps are
  the atomic operations on the lock, the mutex, the condition variable and \<^verbatim>\<open>quit\<close>, and the bodies of
  the critical sections.
\<close>

section \<open>The spin lock\<close>

text \<open>\<^verbatim>\<open>atomic_exchange(ptr, 1)\<close>: the new and the old value.\<close>

definition atomic_test_and_set :: "int \<Rightarrow> int \<times> int" where
  "atomic_test_and_set l = (1, l)"

definition spinlock_init :: int where "spinlock_init = 0"

definition spinlock_trylock :: "int \<Rightarrow> int \<times> bool" where
  "spinlock_trylock l = (if l \<noteq> 0 then (l, False)
     else case atomic_test_and_set l of (l', old) \<Rightarrow> (l', old = 0))"

definition spinlock_unlock :: "int \<Rightarrow> int" where "spinlock_unlock l = 0"

section \<open>The task queue\<close>

datatype tailp = At_head | At_task nat

record tqueue =
  tnext :: "nat \<Rightarrow> nat"
  tfunc :: "nat \<Rightarrow> nat"
  targ :: "nat \<Rightarrow> nat"
  qhead :: nat
  qtail :: tailp
  block :: int

definition taskqueue_init :: "tqueue \<Rightarrow> tqueue" where
  "taskqueue_init Q = Q\<lparr>qhead := 0, qtail := At_head, block := 1\<rparr>"

text \<open>Writing through \<^verbatim>\<open>tail\<close>, the body of \<^verbatim>\<open>__add_task\<close> and the body of \<^verbatim>\<open>__pop_task\<close>.\<close>

definition store_tail :: "nat \<Rightarrow> tqueue \<Rightarrow> tqueue" where
  "store_tail v Q = (case qtail Q of At_head \<Rightarrow> Q\<lparr>qhead := v\<rparr> | At_task k \<Rightarrow> Q\<lparr>tnext := (tnext Q)(k := v)\<rparr>)"

definition clear_link :: "nat \<Rightarrow> tqueue \<Rightarrow> tqueue" where
  "clear_link task Q = Q\<lparr>tnext := (tnext Q)(task := 0)\<rparr>"

definition add_link :: "nat \<Rightarrow> tqueue \<Rightarrow> tqueue" where
  "add_link link Q = (store_tail link Q)\<lparr>qtail := At_task link\<rparr>"

definition add_task :: "nat \<Rightarrow> tqueue \<Rightarrow> tqueue" where
  "add_task task Q = add_link task (clear_link task Q)"

definition pop_task :: "tqueue \<Rightarrow> tqueue \<times> nat" where
  "pop_task Q = (if qhead Q = 0 then (Q, 0)
     else let task = qhead Q; Q = Q\<lparr>qhead := tnext Q task\<rparr>;
              Q = (if qhead Q = 0 then Q\<lparr>qtail := At_head\<rparr> else Q) in (Q, task))"

text \<open>\<^verbatim>\<open>__taskqueue_destroy\<close>: the tasks freed; \<open>None\<close> is a loop that does not end.\<close>

partial_function (option) drain :: "tqueue \<Rightarrow> nat list option" where
  "drain Q = (case pop_task Q of (Q, task) \<Rightarrow>
     if task = 0 then Some [] else do { ts \<leftarrow> drain Q; Some (task # ts) })"

section \<open>Threads\<close>

text \<open>
  Where a thread is. \<open>Idle\<close> is outside the pool, \<open>P_\<close> is inside \<^verbatim>\<open>thrdpool_post\<close>, \<open>T_\<close> inside
  \<^verbatim>\<open>thrdpool_terminate\<close>, \<open>W_\<close> inside \<^verbatim>\<open>__thrdpool_worker\<close>: before \<^verbatim>\<open>spinlock_lock\<close>, in its inner loop, in the
  critical section, before the unlock, before the mutex, at the test of \<^verbatim>\<open>block\<close>, asleep in
  \<^verbatim>\<open>pthread_cond_wait\<close>, woken and waiting for the mutex, behind the wait, and running a task.
\<close>

datatype pc = Idle | P_lock nat | P_spin nat | P_in nat | P_out | P_signal
  | T_quit | T_in | T_bcast
  | W_top | W_lock | W_spin | W_in | W_out nat | W_mtx | W_check | W_wait | W_woken | W_after | W_run nat | W_exit

text \<open>\<open>linked\<close> and \<open>taken\<close> record the tasks put into and taken out of the queue, in order.\<close>

record tpool =
  tq :: tqueue
  quit :: int
  lock :: int
  mutex :: "nat option"
  pcs :: "nat \<Rightarrow> pc"
  linked :: "nat list"
  taken :: "nat list"

abbreviation goto :: "nat \<Rightarrow> pc \<Rightarrow> tpool \<Rightarrow> tpool" where
  "goto t p s \<equiv> s\<lparr>pcs := (pcs s)(t := p)\<rparr>"

text \<open>
  The task that a thread is about to link. What \<^verbatim>\<open>malloc\<close> returns is neither such a task nor one in the
  queue, which are the tasks linked and not yet taken.
\<close>

fun posting :: "pc \<Rightarrow> nat option" where
  "posting (P_lock k) = Some k"
| "posting (P_spin k) = Some k"
| "posting (P_in k) = Some k"
| "posting _ = None"

definition task_free :: "tpool \<Rightarrow> nat \<Rightarrow> bool" where
  "task_free s k \<longleftrightarrow> k \<noteq> 0 \<and> (\<forall>u. posting (pcs s u) \<noteq> Some k) \<and> k \<notin> set (drop (length (taken s)) (linked s))"

definition wake_all :: "(nat \<Rightarrow> pc) \<Rightarrow> nat \<Rightarrow> pc" where
  "wake_all p = (\<lambda>u. if p u = W_wait then W_woken else p u)"

inductive tp_step :: "tpool \<Rightarrow> tpool \<Rightarrow> bool" where
  post: "pcs s t = Idle \<Longrightarrow> quit s \<noteq> 1 \<Longrightarrow> task_free s k \<Longrightarrow>
    tp_step s (goto t (P_lock k) (s\<lparr>tq := clear_link k ((tq s)\<lparr>tfunc := (tfunc (tq s))(k := f), targ := (targ (tq s))(k := a)\<rparr>)\<rparr>))"
| post_tas: "pcs s t = P_lock k \<Longrightarrow> atomic_test_and_set (lock s) = (l, old) \<Longrightarrow>
    tp_step s (goto t (if old = 0 then P_in k else P_spin k) (s\<lparr>lock := l\<rparr>))"
| post_spin: "pcs s t = P_spin k \<Longrightarrow> lock s = 0 \<Longrightarrow> tp_step s (goto t (P_lock k) s)"
| post_link: "pcs s t = P_in k \<Longrightarrow>
    tp_step s (goto t P_out (s\<lparr>tq := add_link k (tq s), linked := linked s @ [k]\<rparr>))"
| post_unlock: "pcs s t = P_out \<Longrightarrow> tp_step s (goto t P_signal (s\<lparr>lock := spinlock_unlock (lock s)\<rparr>))"
| post_signal: "pcs s t = P_signal \<Longrightarrow> pcs s u = W_wait \<Longrightarrow> tp_step s (goto t Idle (goto u W_woken s))"
| post_nobody: "pcs s t = P_signal \<Longrightarrow> \<forall>u. pcs s u \<noteq> W_wait \<Longrightarrow> tp_step s (goto t Idle s)"
| term_quit: "pcs s t = Idle \<Longrightarrow> tp_step s (goto t T_quit (s\<lparr>quit := 1\<rparr>))"
| term_lock: "pcs s t = T_quit \<Longrightarrow> mutex s = None \<Longrightarrow>
    tp_step s (goto t T_in (s\<lparr>mutex := Some t, tq := (tq s)\<lparr>block := 0\<rparr>\<rparr>))"
| term_unlock: "pcs s t = T_in \<Longrightarrow> tp_step s (goto t T_bcast (s\<lparr>mutex := None\<rparr>))"
| term_bcast: "pcs s t = T_bcast \<Longrightarrow> tp_step s (goto t Idle (s\<lparr>pcs := wake_all (pcs s)\<rparr>))"
| work_top: "pcs s t = W_top \<Longrightarrow> tp_step s (goto t (if quit s = 0 then W_lock else W_exit) s)"
| work_tas: "pcs s t = W_lock \<Longrightarrow> atomic_test_and_set (lock s) = (l, old) \<Longrightarrow>
    tp_step s (goto t (if old = 0 then W_in else W_spin) (s\<lparr>lock := l\<rparr>))"
| work_spin: "pcs s t = W_spin \<Longrightarrow> lock s = 0 \<Longrightarrow> tp_step s (goto t W_lock s)"
| work_pop: "pcs s t = W_in \<Longrightarrow> pop_task (tq s) = (Q, k) \<Longrightarrow>
    tp_step s (goto t (W_out k) (s\<lparr>tq := Q, taken := (if k = 0 then taken s else taken s @ [k])\<rparr>))"
| work_unlock: "pcs s t = W_out k \<Longrightarrow>
    tp_step s (goto t (if k = 0 then W_mtx else W_run k) (s\<lparr>lock := spinlock_unlock (lock s)\<rparr>))"
| work_run: "pcs s t = W_run k \<Longrightarrow> tp_step s (goto t W_top s)"
| work_mutex: "pcs s t = W_mtx \<Longrightarrow> mutex s = None \<Longrightarrow> tp_step s (goto t W_check (s\<lparr>mutex := Some t\<rparr>))"
| work_leave: "pcs s t = W_check \<Longrightarrow> block (tq s) = 0 \<Longrightarrow> tp_step s (goto t W_exit (s\<lparr>mutex := None\<rparr>))"
| work_wait: "pcs s t = W_check \<Longrightarrow> block (tq s) \<noteq> 0 \<Longrightarrow> tp_step s (goto t W_wait (s\<lparr>mutex := None\<rparr>))"
| work_spurious: "pcs s t = W_wait \<Longrightarrow> tp_step s (goto t W_woken s)"
| work_relock: "pcs s t = W_woken \<Longrightarrow> mutex s = None \<Longrightarrow> tp_step s (goto t W_after (s\<lparr>mutex := Some t\<rparr>))"
| work_again: "pcs s t = W_after \<Longrightarrow> tp_step s (goto t W_lock (s\<lparr>mutex := None\<rparr>))"

text \<open>The pool that \<^verbatim>\<open>thrdpool_create\<close> returns: \<open>n\<close> workers at their start, the other threads outside.\<close>

definition tp_init :: "nat \<Rightarrow> tqueue \<Rightarrow> tpool" where
  "tp_init n Q = \<lparr>tq = taskqueue_init Q, quit = 0, lock = spinlock_init, mutex = None,
     pcs = (\<lambda>t. if t < n then W_top else Idle), linked = [], taken = []\<rparr>"

section \<open>Creation with roll-back\<close>

text \<open>
  What the allocations and initialisations return, and the resources acquired and released, in the
  order of the calls. \<open>c_started\<close> is how many threads can be created.
\<close>

datatype resource = R_pool | R_queue | R_mutex | R_cond | R_attr | R_threads | R_thread nat

record cret =
  c_pool :: bool
  c_queue :: bool
  c_mutex :: int
  c_cond :: int
  c_attr :: int
  c_threads :: bool
  c_started :: nat

type_synonym held = "resource list"

definition taskqueue_create :: "cret \<Rightarrow> held \<Rightarrow> held \<times> bool" where
  "taskqueue_create E h =
    (if c_queue E then
       let h = R_queue # h in
       if c_mutex E = 0 then
         let h = R_mutex # h in
         if c_cond E = 0 then (R_cond # h, True)
         else (remove1 R_queue (remove1 R_mutex h), False)
       else (remove1 R_queue h, False)
     else (h, False))"

definition taskqueue_destroy :: "held \<Rightarrow> held" where
  "taskqueue_destroy h = remove1 R_queue (remove1 R_mutex (remove1 R_cond h))"

definition threads_terminate :: "nat \<Rightarrow> held \<Rightarrow> held" where
  "threads_terminate n h = fold (\<lambda>i. remove1 (R_thread i)) [0..<n] h"

definition threads_create :: "cret \<Rightarrow> nat \<Rightarrow> held \<Rightarrow> held \<times> int" where
  "threads_create E thrd_count h =
    (if c_attr E = 0 then
       let h = R_attr # h in
       if c_threads E then
         let i = min thrd_count (c_started E); h = fold (\<lambda>i h. R_thread i # h) [0..<i] (R_threads # h);
             h = remove1 R_attr h in
         if i = thrd_count then (h, 0)
         else (remove1 R_threads (threads_terminate i h), -1)
       else (h, -1)
     else (h, c_attr E))"

definition thrdpool_create :: "cret \<Rightarrow> nat \<Rightarrow> held \<Rightarrow> held \<times> bool" where
  "thrdpool_create E thrd_count h =
    (if c_pool E then
       case taskqueue_create E (R_pool # h) of (h, ok) \<Rightarrow>
         if ok then
           (case threads_create E thrd_count h of (h, ret) \<Rightarrow>
              if ret = 0 then (h, True) else (remove1 R_pool (taskqueue_destroy h), False))
         else (remove1 R_pool h, False)
     else (h, False))"

text \<open>\<^verbatim>\<open>thrdpool_waitdone\<close>: the threads are joined, then everything is freed.\<close>

definition thrdpool_waitdone :: "nat \<Rightarrow> held \<Rightarrow> held" where
  "thrdpool_waitdone thrd_count h =
     remove1 R_pool (remove1 R_threads (taskqueue_destroy (threads_terminate thrd_count h)))"

end
