(* ===== verification/Thread_Pool_Spec.thy ===== *)
theory Thread_Pool_Spec
  imports Thread_Pool
begin

text \<open>
  Properties of the thread pool: the spin lock excludes, the queue is first in, first out under every
  interleaving, creation rolls back; and the wake-up that can be lost.
\<close>

section \<open>The queue as a list\<close>

definition tasks :: "tqueue \<Rightarrow> nat list \<Rightarrow> bool" where
  "tasks Q q \<longleftrightarrow> chain (tnext Q) (qhead Q) q \<and> distinct q \<and> qtail Q = (if q = [] then At_head else At_task (last q))"

lemma chain_snoc:
  assumes "chain nx h q" "q \<noteq> []" "x \<noteq> 0" "x \<notin> set q" "distinct q" "nx x = 0"
  shows "chain (nx(last q := x)) h (q @ [x])"
  using assms
proof (induction q arbitrary: h)
  case (Cons y q)
  show ?case
  proof (cases "q = []")
    case True
    then show ?thesis using Cons by auto
  next
    case False
    then have "last q \<noteq> y" using Cons.prems by auto
    then show ?thesis using Cons False by auto
  qed
qed simp

lemma add_link_tasks:
  assumes "tasks Q q" "x \<noteq> 0" "x \<notin> set q" "tnext Q x = 0"
  shows "tasks (add_link x Q) (q @ [x])"
proof (cases "q = []")
  case True
  then show ?thesis using assms by (simp add: tasks_def add_link_def store_tail_def)
next
  case False
  then show ?thesis using assms chain_snoc [of "tnext Q" "qhead Q" q x]
    by (cases q) (auto simp: tasks_def add_link_def store_tail_def)
qed

lemma pop_task_tasks:
  assumes "tasks Q q"
  shows "case q of [] \<Rightarrow> pop_task Q = (Q, 0) | x # r \<Rightarrow> \<exists>Q'. pop_task Q = (Q', x) \<and> x \<noteq> 0 \<and> tasks Q' r \<and> tnext Q' = tnext Q \<and> block Q' = block Q"
proof (cases q)
  case Nil
  then show ?thesis using assms by (simp add: tasks_def pop_task_def)
next
  case (Cons x r)
  then have c: "qhead Q = x" "x \<noteq> 0" "chain (tnext Q) (tnext Q x) r" using assms by (auto simp: tasks_def)
  have "tnext Q x = 0 \<longleftrightarrow> r = []" using c(3) by (cases r) auto
  then show ?thesis using Cons c assms by (auto simp: tasks_def pop_task_def Let_def)
qed

lemma tasks_unique: "tasks Q q \<Longrightarrow> tasks Q r \<Longrightarrow> q = r"
  using chain_unique by (auto simp: tasks_def)

lemma clear_link_tasks: "tasks Q q \<Longrightarrow> k \<notin> set q \<Longrightarrow> tasks (clear_link k Q) q"
proof -
  assume a: "tasks Q q" "k \<notin> set q"
  have "chain ((tnext Q)(k := 0)) (qhead Q) q = chain (tnext Q) (qhead Q) q" using a(2) by (intro chain_cong) auto
  then show ?thesis using a(1) by (simp add: tasks_def clear_link_def)
qed

interpretation tpq: fifo tasks "\<lambda>(f, a) k Q. add_task k (Q\<lparr>tfunc := (tfunc Q)(k := f), targ := (targ Q)(k := a)\<rparr>)" qhead
  "\<lambda>k Q. fst (pop_task Q)"
proof unfold_locales
  fix Q q assume Q: "tasks Q q"
  show "distinct q \<and> 0 \<notin> set q" using Q chain_nonzero by (auto simp: tasks_def)
  show "qhead Q = (case q of [] \<Rightarrow> 0 | x # _ \<Rightarrow> x)" using Q by (cases q) (auto simp: tasks_def)
next
  fix Q q x and p :: "nat \<times> nat" assume a: "tasks Q q" "x \<noteq> 0" "x \<notin> set q"
  obtain f b where p: "p = (f, b)" by (cases p)
  have "tasks (clear_link x (Q\<lparr>tfunc := (tfunc Q)(x := f), targ := (targ Q)(x := b)\<rparr>)) q"
    using a by (intro clear_link_tasks) (simp_all add: tasks_def)
  then show "tasks ((case p of (f, a) \<Rightarrow> \<lambda>k Q. add_task k (Q\<lparr>tfunc := (tfunc Q)(k := f), targ := (targ Q)(k := a)\<rparr>)) x Q) (q @ [x])"
    using a add_link_tasks p by (simp add: add_task_def clear_link_def)
next
  fix Q x q assume "tasks Q (x # q)"
  then show "tasks (fst (pop_task Q)) q" using pop_task_tasks [of Q "x # q"] by auto
qed

lemma drain_tasks: "tasks Q q \<Longrightarrow> drain Q = Some q"
proof (induction q arbitrary: Q)
  case Nil
  then show ?case using pop_task_tasks [of Q "[]"] by (subst drain.simps) simp
next
  case (Cons x q)
  then obtain Q' where "pop_task Q = (Q', x)" "x \<noteq> 0" "tasks Q' q" using pop_task_tasks [of Q "x # q"] by auto
  then show ?case using Cons.IH [of Q'] by (subst drain.simps) simp
qed

section \<open>The invariant of the running pool\<close>

fun holds :: "pc \<Rightarrow> bool" where
  "holds (P_in k) = True" | "holds P_out = True" | "holds W_in = True" | "holds (W_out k) = True" | "holds _ = False"

fun in_mutex :: "pc \<Rightarrow> bool" where
  "in_mutex T_in = True" | "in_mutex W_check = True" | "in_mutex W_after = True" | "in_mutex _ = False"

definition tp_lock_inv :: "tpool \<Rightarrow> bool" where
  "tp_lock_inv s \<longleftrightarrow> (\<forall>t. holds (pcs s t) \<longrightarrow> lock s \<noteq> 0) \<and> (\<forall>t u. holds (pcs s t) \<longrightarrow> holds (pcs s u) \<longrightarrow> t = u)"

definition tp_mutex_inv :: "tpool \<Rightarrow> bool" where
  "tp_mutex_inv s \<longleftrightarrow> (\<forall>t. in_mutex (pcs s t) \<longleftrightarrow> mutex s = Some t)"

definition tp_holds_queue :: "tpool \<Rightarrow> nat list \<Rightarrow> bool" where
  "tp_holds_queue s q \<longleftrightarrow> tasks (tq s) q \<and> linked s = taken s @ q \<and>
     (\<forall>t k. posting (pcs s t) = Some k \<longrightarrow> k \<noteq> 0 \<and> k \<notin> set q \<and> tnext (tq s) k = 0) \<and>
     (\<forall>t u k. posting (pcs s t) = Some k \<longrightarrow> posting (pcs s u) = Some k \<longrightarrow> t = u)"

definition tp_queue_inv :: "tpool \<Rightarrow> bool" where
  "tp_queue_inv s \<longleftrightarrow> (\<exists>q. tp_holds_queue s q)"

lemma tp_holds_queueD:
  assumes "tp_holds_queue s q"
  shows "tasks (tq s) q" "linked s = taken s @ q"
    "\<And>t k. posting (pcs s t) = Some k \<Longrightarrow> k \<noteq> 0 \<and> k \<notin> set q \<and> tnext (tq s) k = 0"
    "\<And>t u k. posting (pcs s t) = Some k \<Longrightarrow> posting (pcs s u) = Some k \<Longrightarrow> t = u"
  using assms unfolding tp_holds_queue_def by blast+

lemma tp_holds_queueI:
  assumes "tasks (tq s) q" "linked s = taken s @ q"
    "\<And>t k. posting (pcs s t) = Some k \<Longrightarrow> k \<noteq> 0 \<and> k \<notin> set q \<and> tnext (tq s) k = 0"
    "\<And>t u k. posting (pcs s t) = Some k \<Longrightarrow> posting (pcs s u) = Some k \<Longrightarrow> t = u"
  shows "tp_queue_inv s"
  using assms unfolding tp_queue_inv_def tp_holds_queue_def by blast

lemma holds_upd: "(\<forall>t. holds (((pcs s)(u := p)) t) \<longrightarrow> P t) \<longleftrightarrow> (holds p \<longrightarrow> P u) \<and> (\<forall>t. t \<noteq> u \<longrightarrow> holds (pcs s t) \<longrightarrow> P t)"
  by auto

lemma wake_all_simps [simp]:
  "holds (wake_all p t) = holds (p t)" "in_mutex (wake_all p t) = in_mutex (p t)" "posting (wake_all p t) = posting (p t)"
  by (simp_all add: wake_all_def)

lemma tp_lock_step: "tp_step s s' \<Longrightarrow> tp_lock_inv s \<Longrightarrow> tp_lock_inv s'"
proof (induction rule: tp_step.induct)
  case (post_unlock s t)
  then show ?case unfolding tp_lock_inv_def by (auto simp: spinlock_unlock_def split: if_splits; metis holds.simps)
next
  case (work_unlock s t k)
  then show ?case unfolding tp_lock_inv_def by (auto simp: spinlock_unlock_def split: if_splits; metis holds.simps)
next
  case (work_pop s t Q k)
  then show ?case unfolding tp_lock_inv_def by (auto split: if_splits; metis holds.simps)
next
  case (post_link s t k)
  then show ?case unfolding tp_lock_inv_def by (auto split: if_splits; metis holds.simps)
qed (auto simp: tp_lock_inv_def atomic_test_and_set_def split: if_splits)

lemma tp_mutex_step: "tp_step s s' \<Longrightarrow> tp_mutex_inv s \<Longrightarrow> tp_mutex_inv s'"
  by (induction rule: tp_step.induct) (auto simp: tp_mutex_inv_def split: if_splits, (metis in_mutex.simps)+)

lemma tp_queue_frame:
  assumes "tp_queue_inv s" "\<And>q. tasks (tq s') q = tasks (tq s) q" "tnext (tq s') = tnext (tq s)" "linked s' = linked s" "taken s' = taken s"
    "\<And>t k. posting (pcs s' t) = Some k \<Longrightarrow> posting (pcs s t) = Some k"
  shows "tp_queue_inv s'"
proof -
  obtain q where "tp_holds_queue s q" using assms(1) by (auto simp: tp_queue_inv_def)
  note q = tp_holds_queueD [OF this]
  show ?thesis
  proof (rule tp_holds_queueI)
    show "k \<noteq> 0 \<and> k \<notin> set q \<and> tnext (tq s') k = 0" if "posting (pcs s' t) = Some k" for t k
      using q(3) [OF assms(6) [OF that]] assms(3) by simp
    show "t = u" if "posting (pcs s' t) = Some k" "posting (pcs s' u) = Some k" for t u k
      using q(4) [OF assms(6) assms(6)] that by blast
  qed (use q(1,2) assms(2-5) in simp_all)
qed

lemma tp_queue_post:
  assumes "tp_queue_inv s" "pcs s t = Idle" "task_free s k"
  shows "tp_queue_inv (goto t (P_lock k) (s\<lparr>tq := clear_link k ((tq s)\<lparr>tfunc := f, targ := a\<rparr>)\<rparr>))"
proof -
  obtain q where "tp_holds_queue s q" using assms(1) by (auto simp: tp_queue_inv_def)
  note q = tp_holds_queueD [OF this]
  have k: "k \<noteq> 0" "k \<notin> set q" "\<And>u. posting (pcs s u) \<noteq> Some k" using assms(3) q(2) by (auto simp: task_free_def)
  have "tasks ((tq s)\<lparr>tfunc := f, targ := a\<rparr>) q" using q(1) by (simp add: tasks_def)
  then have "tasks (clear_link k ((tq s)\<lparr>tfunc := f, targ := a\<rparr>)) q" using clear_link_tasks k(2) by blast
  moreover have "tnext (clear_link k ((tq s)\<lparr>tfunc := f, targ := a\<rparr>)) = (tnext (tq s))(k := 0)" by (simp add: clear_link_def)
  ultimately show ?thesis
  proof (intro tp_holds_queueI [of _ q])
    show "j \<noteq> 0 \<and> j \<notin> set q \<and> tnext (tq (goto t (P_lock k) (s\<lparr>tq := clear_link k ((tq s)\<lparr>tfunc := f, targ := a\<rparr>)\<rparr>))) j = 0"
      if "posting (pcs (goto t (P_lock k) (s\<lparr>tq := clear_link k ((tq s)\<lparr>tfunc := f, targ := a\<rparr>)\<rparr>)) u) = Some j" for u j
      using that q(3) [of u j] k by (auto simp: clear_link_def split: if_splits)
    show "u = v" if "posting (pcs (goto t (P_lock k) (s\<lparr>tq := clear_link k ((tq s)\<lparr>tfunc := f, targ := a\<rparr>)\<rparr>)) u) = Some j"
      "posting (pcs (goto t (P_lock k) (s\<lparr>tq := clear_link k ((tq s)\<lparr>tfunc := f, targ := a\<rparr>)\<rparr>)) v) = Some j" for u v j
      using that q(4) [of u j v] k(3) by (auto split: if_splits)
  qed (use q(2) in simp_all)
qed

lemma tp_queue_link:
  assumes "tp_queue_inv s" "pcs s t = P_in k"
  shows "tp_queue_inv (goto t P_out (s\<lparr>tq := add_link k (tq s), linked := linked s @ [k]\<rparr>))"
proof -
  obtain q where "tp_holds_queue s q" using assms(1) by (auto simp: tp_queue_inv_def)
  note q = tp_holds_queueD [OF this]
  have k: "k \<noteq> 0" "k \<notin> set q" "tnext (tq s) k = 0" using q(3) [of t k] assms(2) by auto
  have other: "j \<noteq> k" if "posting (pcs s u) = Some j" "u \<noteq> t" for u j using q(4) [of u j t] that assms(2) by auto
  have nx: "tnext (add_link k (tq s)) j = tnext (tq s) j" if "j \<notin> set q" for j
    using that q(1) by (cases "q = []") (auto simp: tasks_def add_link_def store_tail_def)
  have "tasks (add_link k (tq s)) (q @ [k])" using add_link_tasks [OF q(1) k] .
  then show ?thesis
  proof (intro tp_holds_queueI [of _ "q @ [k]"])
    show "j \<noteq> 0 \<and> j \<notin> set (q @ [k]) \<and> tnext (tq (goto t P_out (s\<lparr>tq := add_link k (tq s), linked := linked s @ [k]\<rparr>))) j = 0"
      if "posting (pcs (goto t P_out (s\<lparr>tq := add_link k (tq s), linked := linked s @ [k]\<rparr>)) u) = Some j" for u j
      using that q(3) [of u j] other [of u j] nx [of j] by (auto split: if_splits)
    show "u = v" if "posting (pcs (goto t P_out (s\<lparr>tq := add_link k (tq s), linked := linked s @ [k]\<rparr>)) u) = Some j"
      "posting (pcs (goto t P_out (s\<lparr>tq := add_link k (tq s), linked := linked s @ [k]\<rparr>)) v) = Some j" for u v j
      using that q(4) [of u j v] by (auto split: if_splits)
  qed (use q(2) in simp_all)
qed

lemma tp_queue_pop:
  assumes "tp_queue_inv s" "pcs s t = W_in" "pop_task (tq s) = (Q, k)"
  shows "tp_queue_inv (goto t (W_out k) (s\<lparr>tq := Q, taken := (if k = 0 then taken s else taken s @ [k])\<rparr>))"
proof -
  obtain q where "tp_holds_queue s q" using assms(1) by (auto simp: tp_queue_inv_def)
  note q = tp_holds_queueD [OF this]
  obtain r where r: "tasks Q r" "tnext Q = tnext (tq s)" "(if k = 0 then taken s else taken s @ [k]) @ r = linked s" "set r \<subseteq> set q"
    using pop_task_tasks [OF q(1)] assms(3) q(1,2) by (cases q) auto
  show ?thesis
  proof (intro tp_holds_queueI [of _ r])
    show "j \<noteq> 0 \<and> j \<notin> set r \<and> tnext (tq (goto t (W_out k) (s\<lparr>tq := Q, taken := (if k = 0 then taken s else taken s @ [k])\<rparr>))) j = 0"
      if "posting (pcs (goto t (W_out k) (s\<lparr>tq := Q, taken := (if k = 0 then taken s else taken s @ [k])\<rparr>)) u) = Some j" for u j
      using that q(3) [of u j] r(2,4) by (auto split: if_splits)
    show "u = v" if "posting (pcs (goto t (W_out k) (s\<lparr>tq := Q, taken := (if k = 0 then taken s else taken s @ [k])\<rparr>)) u) = Some j"
      "posting (pcs (goto t (W_out k) (s\<lparr>tq := Q, taken := (if k = 0 then taken s else taken s @ [k])\<rparr>)) v) = Some j" for u v j
      using that q(4) [of u j v] by (auto split: if_splits)
  qed (use r(1,3) in \<open>simp_all split: if_splits\<close>)
qed

lemma tp_queue_step: "tp_step s s' \<Longrightarrow> tp_queue_inv s \<Longrightarrow> tp_queue_inv s'"
proof (induction rule: tp_step.induct)
  case (post s t k f a)
  then show ?case by (intro tp_queue_post)
next
  case (post_link s t k)
  then show ?case by (intro tp_queue_link)
next
  case (work_pop s t Q k)
  then show ?case by (intro tp_queue_pop)
next
  case (term_lock s t)
  then show ?case by (elim tp_queue_frame) (auto simp: tasks_def split: if_splits)
next
  case (post_signal s t u)
  then show ?case by (elim tp_queue_frame) (auto split: if_splits)
qed (elim tp_queue_frame, auto split: if_splits)+

section \<open>Reachable states\<close>

inductive tp_reach :: "tpool \<Rightarrow> tpool \<Rightarrow> bool" for s0 where
  here: "tp_reach s0 s0"
| there: "tp_reach s0 s \<Longrightarrow> tp_step s s' \<Longrightarrow> tp_reach s0 s'"

lemma tp_init_inv: "tp_lock_inv (tp_init n Q)" "tp_mutex_inv (tp_init n Q)" "tp_queue_inv (tp_init n Q)"
  by (auto simp: tp_lock_inv_def tp_mutex_inv_def tp_queue_inv_def tp_holds_queue_def tp_init_def spinlock_init_def taskqueue_init_def tasks_def)

lemma tp_reach_inv: "tp_reach s0 s \<Longrightarrow> tp_lock_inv s0 \<and> tp_mutex_inv s0 \<and> tp_queue_inv s0 \<Longrightarrow> tp_lock_inv s \<and> tp_mutex_inv s \<and> tp_queue_inv s"
  by (induction rule: tp_reach.induct) (blast intro: tp_lock_step tp_mutex_step tp_queue_step)+

section \<open>Resources\<close>

lemma fold_remove_pass: "x \<notin> f ` set js \<Longrightarrow> fold (\<lambda>j. remove1 (f j)) js (x # ys) = x # fold (\<lambda>j. remove1 (f j)) js ys"
  by (induction js arbitrary: ys) auto

lemma fold_threads: "fold (\<lambda>i h. R_thread i # h) [0..<n] h = rev (map R_thread [0..<n]) @ h"
  by (induction n arbitrary: h) auto

lemma terminate_threads: "threads_terminate n (rev (map R_thread [0..<n]) @ h) = h"
proof (induction n)
  case (Suc n)
  have "fold (\<lambda>i. remove1 (R_thread i)) [0..<n] (R_thread n # rev (map R_thread [0..<n]) @ h) = R_thread n # h"
    using Suc by (subst fold_remove_pass) (auto simp: threads_terminate_def)
  then show ?case by (simp add: threads_terminate_def)
qed (simp add: threads_terminate_def)

lemma remove1_threads: "x \<notin> range R_thread \<Longrightarrow> remove1 x (rev (map R_thread [0..<n]) @ h) = rev (map R_thread [0..<n]) @ remove1 x h"
  by (subst remove1_append) auto

section \<open>Properties\<close>

text \<open>
  The spin lock excludes: in every reachable state of the pool at most one thread is between
  \<^verbatim>\<open>spinlock_lock\<close> and \<^verbatim>\<open>spinlock_unlock\<close>, however the threads are scheduled.
\<close>

theorem spinlock_excludes:
  assumes "tp_reach (tp_init n Q) s" "holds (pcs s t)" "holds (pcs s u)"
  shows "t = u"
  using tp_reach_inv [OF assms(1)] tp_init_inv [of n Q] assms(2,3) by (auto simp: tp_lock_inv_def)

definition demo_queue0 :: tqueue where
  "demo_queue0 = \<lparr>tnext = (\<lambda>_. 0), tfunc = (\<lambda>_. 0), targ = (\<lambda>_. 0), qhead = 0, qtail = At_head, block = 0\<rparr>"

lemma demo_in: "\<exists>s. tp_reach (tp_init 2 demo_queue0) s \<and> holds (pcs s 0)"
proof -
  let ?s0 = "tp_init 2 demo_queue0" let ?s1 = "goto 0 W_lock ?s0"
  have "tp_step ?s0 ?s1" using tp_step.work_top [of ?s0 0] by (simp add: tp_init_def)
  moreover have "tp_step ?s1 (goto 0 W_in (?s1\<lparr>lock := 1\<rparr>))"
    using tp_step.work_tas [of ?s1 0 1 0] by (simp add: tp_init_def spinlock_init_def atomic_test_and_set_def)
  ultimately have "tp_reach ?s0 (goto 0 W_in (?s1\<lparr>lock := 1\<rparr>))" using tp_reach.there [OF tp_reach.there [OF tp_reach.here]] by blast
  then show ?thesis by (intro exI [of _ "goto 0 W_in (?s1\<lparr>lock := 1\<rparr>)"]) simp
qed

theorem spinlock_excludes_witness:
  "\<exists>s. tp_reach (tp_init 2 demo_queue0) s \<and> holds (pcs s 0) \<and> (\<forall>u. holds (pcs s u) \<longrightarrow> u = 0)"
proof -
  obtain s where s: "tp_reach (tp_init 2 demo_queue0) s" "holds (pcs s 0)" using demo_in by (elim exE conjE)
  show ?thesis using s spinlock_excludes [OF s(1) _ s(2)] by (intro exI [of _ s]) simp
qed

text \<open>
  C11: tasks are taken in the order in which they were linked, each once: in every reachable state
  the tasks linked so far are the tasks taken, in order, followed by the queue, and
  \<^verbatim>\<open>__taskqueue_destroy\<close> ends and frees exactly the tasks that no worker has taken.
\<close>

theorem thrdpool_fifo:
  assumes "tp_reach (tp_init n Q) s"
  shows "\<exists>q. drain (tq s) = Some q \<and> linked s = taken s @ q"
  using tp_reach_inv [OF assms] tp_init_inv [of n Q] drain_tasks
  by (auto simp: tp_queue_inv_def tp_holds_queue_def)

theorem thrdpool_fifo_witness:
  "\<exists>s q. tp_reach (tp_init 2 demo_queue0) s \<and> holds (pcs s 0) \<and> drain (tq s) = Some q \<and> linked s = taken s @ q"
proof -
  obtain s where s: "tp_reach (tp_init 2 demo_queue0) s" "holds (pcs s 0)" using demo_in by (elim exE conjE)
  obtain q where "drain (tq s) = Some q" "linked s = taken s @ q" using thrdpool_fifo [OF s(1)] by (elim exE conjE)
  then show ?thesis using s by (intro exI [of _ s] exI [of _ q]) simp
qed

text \<open>Runs of one thread while the others stand still: a worker that finds nothing, a post, going to sleep.\<close>

lemma tp_reach_trans: "tp_reach s t \<Longrightarrow> tp_reach t u \<Longrightarrow> tp_reach s u"
  by (rotate_tac 1, induction rule: tp_reach.induct) (auto intro: tp_reach.intros)

lemma worker_misses:
  assumes "pcs s t = W_top" "quit s = 0" "lock s = 0" "qhead (tq s) = 0"
  shows "tp_reach s (goto t W_mtx s)"
proof -
  let ?s1 = "goto t W_lock s" and ?s2 = "goto t W_in (s\<lparr>lock := 1\<rparr>)" and ?s3 = "goto t (W_out 0) (s\<lparr>lock := 1\<rparr>)"
  have "tp_step s ?s1" using work_top [of s t] assms by simp
  moreover have "tp_step ?s1 ?s2" using work_tas [of ?s1 t 1 0] assms by (simp add: atomic_test_and_set_def)
  moreover have "tp_step ?s2 ?s3" using work_pop [of ?s2 t "tq s" 0] assms by (simp add: pop_task_def)
  moreover have "tp_step ?s3 (goto t W_mtx s)" using work_unlock [of ?s3 t 0] assms(3) by (cases s) (simp add: spinlock_unlock_def)
  ultimately show ?thesis by (meson tp_reach.here tp_reach.there)
qed

definition filled :: "nat \<Rightarrow> tqueue \<Rightarrow> tqueue" where
  "filled k Q = clear_link k (Q\<lparr>tfunc := (tfunc Q)(k := 0), targ := (targ Q)(k := 0)\<rparr>)"

lemma post_unheard:
  assumes "pcs s t = Idle" "quit s = 0" "lock s = 0" "task_free s k" "\<forall>u. pcs s u \<noteq> W_wait"
  shows "tp_reach s (s\<lparr>tq := add_link k (filled k (tq s)), linked := linked s @ [k]\<rparr>)"
proof -
  let ?s1 = "goto t (P_lock k) (s\<lparr>tq := filled k (tq s)\<rparr>)" and ?s2 = "goto t (P_in k) (s\<lparr>tq := filled k (tq s), lock := 1\<rparr>)"
  let ?q = "s\<lparr>tq := add_link k (filled k (tq s)), linked := linked s @ [k]\<rparr>"
  have "tp_step s ?s1" using post [of s t k 0 0] assms by (simp add: filled_def)
  moreover have "tp_step ?s1 ?s2" using post_tas [of ?s1 t k 1 0] assms by (simp add: atomic_test_and_set_def)
  moreover have "tp_step ?s2 (goto t P_out (?q\<lparr>lock := 1\<rparr>))" using post_link [of ?s2 t k] by (cases s) simp
  moreover have "tp_step (goto t P_out (?q\<lparr>lock := 1\<rparr>)) (goto t P_signal ?q)"
    using post_unlock [of "goto t P_out (?q\<lparr>lock := 1\<rparr>)" t] assms(3) by (cases s) (simp add: spinlock_unlock_def)
  moreover have "tp_step (goto t P_signal ?q) ?q"
    using post_nobody [of "goto t P_signal ?q" t] assms(1,5) by (cases s) (simp add: fun_upd_idem)
  ultimately show ?thesis by (meson tp_reach.here tp_reach.there)
qed

lemma worker_sleeps:
  assumes "pcs s t = W_mtx" "mutex s = None" "block (tq s) \<noteq> 0"
  shows "tp_reach s (goto t W_wait s)"
proof -
  have "tp_step s (goto t W_check (s\<lparr>mutex := Some t\<rparr>))" using work_mutex [of s t] assms by simp
  moreover have "tp_step (goto t W_check (s\<lparr>mutex := Some t\<rparr>)) (goto t W_wait s)"
    using work_wait [of "goto t W_check (s\<lparr>mutex := Some t\<rparr>)" t] assms by (cases s) simp
  ultimately show ?thesis by (meson tp_reach.here tp_reach.there)
qed

text \<open>
  A wake-up can be lost. \<^verbatim>\<open>__add_task\<close> signals without the mutex under which \<^verbatim>\<open>__get_task\<close> goes to sleep:
  a worker that has found the queue empty and has not yet called \<^verbatim>\<open>pthread_cond_wait\<close> misses the
  signal. There is a run of a pool with one worker after which a task is in the queue, the worker
  sleeps, and every other thread is outside the pool.
\<close>

theorem thrdpool_lost_wakeup:
  "\<exists>s. tp_reach (tp_init 1 Q) s \<and> quit s = 0 \<and> drain (tq s) = Some [1] \<and> taken s = [] \<and>
     pcs s = (\<lambda>t. if t = 0 then W_wait else Idle)"
proof -
  let ?s0 = "tp_init 1 Q" and ?s1 = "goto 0 W_mtx (tp_init 1 Q)"
  let ?s2 = "?s1\<lparr>tq := add_link 1 (filled 1 (tq ?s1)), linked := linked ?s1 @ [1]\<rparr>"
  note d = tp_init_def taskqueue_init_def spinlock_init_def filled_def add_link_def store_tail_def clear_link_def
  have "tp_reach ?s0 ?s1" by (rule worker_misses) (simp_all add: d)
  moreover have "tp_reach ?s1 ?s2" by (rule post_unheard [of _ 1]) (auto simp: d task_free_def)
  moreover have "tp_reach ?s2 (goto 0 W_wait ?s2)" by (rule worker_sleeps) (simp_all add: d)
  ultimately have "tp_reach ?s0 (goto 0 W_wait ?s2)" by (blast intro: tp_reach_trans)
  moreover have "tasks (tq ?s2) [1]" by (simp add: d tasks_def)
  then have "drain (tq (goto 0 W_wait ?s2)) = Some [1]" using drain_tasks by simp
  ultimately show ?thesis by (intro exI [of _ "goto 0 W_wait ?s2"]) (auto simp: tp_init_def fun_eq_iff)
qed

text \<open>
  \<^verbatim>\<open>thrdpool_create\<close> rolls back: when any of its allocations or initialisations fails it has released
  all it had acquired, threads included, except for the thread attributes when the array of threads
  cannot be allocated; and \<^verbatim>\<open>thrdpool_waitdone\<close> releases all that a successful creation acquired.
\<close>

theorem thrdpool_rollback:
  assumes "thrdpool_create E n h = (h', ok)"
  shows "if ok then thrdpool_waitdone n h' = h
    else h' = (if c_pool E \<and> c_queue E \<and> c_mutex E = 0 \<and> c_cond E = 0 \<and> c_attr E = 0 \<and> \<not> c_threads E then R_attr # h else h)"
proof -
  have t: "remove1 R_attr (fold (\<lambda>i h. R_thread i # h) [0..<m] (R_threads # R_attr # g)) = rev (map R_thread [0..<m]) @ R_threads # g" for m g
    unfolding fold_threads by (subst remove1_threads) auto
  show ?thesis
    using assms unfolding thrdpool_create_def taskqueue_create_def threads_create_def Let_def t
    by (auto simp: taskqueue_destroy_def thrdpool_waitdone_def terminate_threads split: if_splits)
qed

theorem thrdpool_rollback_witness:
  "thrdpool_create \<lparr>c_pool = True, c_queue = True, c_mutex = 0, c_cond = 0, c_attr = 0, c_threads = True, c_started = 1\<rparr> 2 [] = ([], False)"
proof -
  let ?E = "\<lparr>c_pool = True, c_queue = True, c_mutex = 0, c_cond = 0, c_attr = 0, c_threads = True, c_started = 1\<rparr>"
  obtain h ok where e: "thrdpool_create ?E 2 [] = (h, ok)" by (cases "thrdpool_create ?E 2 []")
  moreover have "\<not> snd (thrdpool_create ?E 2 [])"
    by (simp add: thrdpool_create_def taskqueue_create_def threads_create_def)
  ultimately show ?thesis using thrdpool_rollback [OF e] by simp
qed

end
