(* ===== verification/Job_Queue.thy ===== *)
theory Job_Queue
  imports Fifo "HOL-Library.Monad_Syntax"
begin

text \<open>
  The queue of jobs under a reader-writer lock (\<^verbatim>\<open>threads/rwlock.c\<close>): the state changes made under the write
  lock, and the search made under the read lock. It satisfies the laws of a queue that takes jobs
  at both ends, and a job may be removed from any place.
\<close>

section \<open>Operations\<close>

record jqueue =
  j_next :: "nat \<Rightarrow> nat"
  j_prev :: "nat \<Rightarrow> nat"
  j_id :: "nat \<Rightarrow> nat"
  q_head :: nat
  q_tail :: nat

text \<open>\<open>err\<close> is what \<^verbatim>\<open>pthread_rwlock_init\<close> returns.\<close>

definition queue_init :: "int \<Rightarrow> jqueue \<Rightarrow> jqueue \<times> int" where
  "queue_init err qp = (let qp = qp\<lparr>q_head := 0\<rparr>; qp = qp\<lparr>q_tail := 0\<rparr> in if err \<noteq> 0 then (qp, err) else (qp, 0))"

definition job_insert :: "nat \<Rightarrow> jqueue \<Rightarrow> jqueue" where
  "job_insert jp qp =
    (let qp = qp\<lparr>j_next := (j_next qp)(jp := q_head qp)\<rparr>;
         qp = qp\<lparr>j_prev := (j_prev qp)(jp := 0)\<rparr>;
         qp = (if q_head qp \<noteq> 0 then qp\<lparr>j_prev := (j_prev qp)(q_head qp := jp)\<rparr> else qp\<lparr>q_tail := jp\<rparr>)
     in qp\<lparr>q_head := jp\<rparr>)"

definition job_append :: "nat \<Rightarrow> jqueue \<Rightarrow> jqueue" where
  "job_append jp qp =
    (let qp = qp\<lparr>j_next := (j_next qp)(jp := 0)\<rparr>;
         qp = qp\<lparr>j_prev := (j_prev qp)(jp := q_tail qp)\<rparr>;
         qp = (if q_tail qp \<noteq> 0 then qp\<lparr>j_next := (j_next qp)(q_tail qp := jp)\<rparr> else qp\<lparr>q_head := jp\<rparr>)
     in qp\<lparr>q_tail := jp\<rparr>)"

definition job_remove :: "nat \<Rightarrow> jqueue \<Rightarrow> jqueue" where
  "job_remove jp qp =
    (if jp = q_head qp then
       let qp = qp\<lparr>q_head := j_next qp jp\<rparr> in
       if q_tail qp = jp then qp\<lparr>q_tail := 0\<rparr>
       else qp\<lparr>j_prev := (j_prev qp)(j_next qp jp := j_prev qp jp)\<rparr>
     else if jp = q_tail qp then
       let qp = qp\<lparr>q_tail := j_prev qp jp\<rparr> in
       qp\<lparr>j_next := (j_next qp)(j_prev qp jp := j_next qp jp)\<rparr>
     else
       let qp = qp\<lparr>j_next := (j_next qp)(j_prev qp jp := j_next qp jp)\<rparr> in
       qp\<lparr>j_prev := (j_prev qp)(j_next qp jp := j_prev qp jp)\<rparr>)"

partial_function (option) find_from :: "jqueue \<Rightarrow> nat \<Rightarrow> nat \<Rightarrow> nat option" where
  "find_from qp tid jp = (if jp = 0 then Some 0 else if j_id qp jp = tid then Some jp else find_from qp tid (j_next qp jp))"

text \<open>\<open>rd\<close> is what \<^verbatim>\<open>pthread_rwlock_rdlock\<close> returns; 0 as a result is \<^verbatim>\<open>NULL\<close>.\<close>

definition job_find :: "int \<Rightarrow> jqueue \<Rightarrow> nat \<Rightarrow> nat option" where
  "job_find rd qp tid = (if rd \<noteq> 0 then Some 0 else find_from qp tid (q_head qp))"

section \<open>The queue as a list\<close>

definition jobs :: "jqueue \<Rightarrow> nat list \<Rightarrow> bool" where
  "jobs Q q \<longleftrightarrow> dlist (j_next Q) (j_prev Q) (q_head Q) (q_tail Q) q"

lemma job_append_jobs: "jobs Q q \<Longrightarrow> x \<noteq> 0 \<Longrightarrow> x \<notin> set q \<Longrightarrow> jobs (job_append x Q) (q @ [x])"
  using dlist_push_back [of "j_next Q" "j_prev Q" "q_head Q" "q_tail Q" q x]
  by (auto simp: jobs_def job_append_def Let_def)

lemma job_insert_jobs: "jobs Q q \<Longrightarrow> x \<noteq> 0 \<Longrightarrow> x \<notin> set q \<Longrightarrow> jobs (job_insert x Q) (x # q)"
  using dlist_push_front [of "j_next Q" "j_prev Q" "q_head Q" "q_tail Q" q x]
  by (auto simp: jobs_def job_insert_def Let_def)

text \<open>The ends of a list seen from a node in it.\<close>

lemma dlist_node:
  assumes "dlist nx pv h t (xs @ x # ys)"
  shows "x \<noteq> 0" "x = h \<longleftrightarrow> xs = []" "x = t \<longleftrightarrow> ys = []" "xs = [] \<Longrightarrow> pv x = 0" "ys = [] \<Longrightarrow> nx x = 0"
    "xs \<noteq> [] \<Longrightarrow> pv x \<noteq> 0" "ys \<noteq> [] \<Longrightarrow> nx x \<noteq> 0" "nx x \<noteq> x"
proof -
  have dis: "distinct (xs @ x # ys)" using assms by (simp add: dlist_def)
  obtain u where a: "seg nx pv 0 h xs x u" and b: "pv x = u" "x \<noteq> 0" "seg nx pv x (nx x) ys 0 t"
    using assms by (auto simp: dlist_def seg_append)
  show "x \<noteq> 0" by (fact b(2))
  show "x = h \<longleftrightarrow> xs = []" using a dis by (cases xs) auto
  show "x = t \<longleftrightarrow> ys = []" using b(3) dis seg_ends [OF b(3)] by (cases ys rule: rev_cases) auto
  show "pv x = 0" if "xs = []" using a b that by simp
  show "nx x = 0" if "ys = []" using b that by simp
  show "pv x \<noteq> 0" if "xs \<noteq> []" using that a b seg_ends [OF a that] seg_nonzero [OF a] by (metis last_in_set)
  show "nx x \<noteq> 0" if "ys \<noteq> []" using that b seg_nonzero [OF b(3)] by (cases ys) auto
  show "nx x \<noteq> x" using b dis by (cases ys) auto
qed

lemma job_remove_jobs:
  assumes "jobs Q (xs @ x # ys)"
  shows "jobs (job_remove x Q) (xs @ ys)"
proof -
  note n = dlist_node [OF assms [unfolded jobs_def]]
  note u = dlist_unlink [OF assms [unfolded jobs_def]]
  show ?thesis
  proof (cases "xs = []"; cases "ys = []")
    assume "xs = []" "ys = []"
    then show ?thesis using n u by (simp add: jobs_def job_remove_def Let_def)
  next
    assume "xs = []" "ys \<noteq> []"
    then show ?thesis using n u by (simp add: jobs_def job_remove_def Let_def)
  next
    assume "xs \<noteq> []" "ys = []"
    then show ?thesis using n u by (simp add: jobs_def job_remove_def Let_def)
  next
    assume "xs \<noteq> []" "ys \<noteq> []"
    then show ?thesis using n u by (simp add: jobs_def job_remove_def Let_def)
  qed
qed

interpretation rwq: fifo_back jobs "\<lambda>i jp Q. job_append jp (Q\<lparr>j_id := (j_id Q)(jp := i)\<rparr>)" q_head job_remove job_insert
proof unfold_locales
  fix Q q assume Q: "jobs Q q"
  show "distinct q \<and> 0 \<notin> set q" using Q dlist_nonzero by (auto simp: jobs_def dlist_def)
  show "q_head Q = (case q of [] \<Rightarrow> 0 | x # _ \<Rightarrow> x)" using Q by (cases q) (auto simp: jobs_def dlist_def)
next
  fix Q q x p assume "jobs Q q" "x \<noteq> 0" "x \<notin> set q"
  then show "jobs (job_append x (Q\<lparr>j_id := (j_id Q)(x := p)\<rparr>)) (q @ [x])"
    by (intro job_append_jobs) (simp_all add: jobs_def)
next
  fix Q x q assume "jobs Q (x # q)"
  then show "jobs (job_remove x Q) q" using job_remove_jobs [of Q "[]" x q] by simp
next
  fix Q q x assume "jobs Q q" "x \<noteq> 0" "x \<notin> set q"
  then show "jobs (job_insert x Q) (x # q)" by (rule job_insert_jobs)
qed

lemma find_from_chain:
  "chain (j_next Q) h q \<Longrightarrow> find_from Q i h = Some (case List.find (\<lambda>j. j_id Q j = i) q of None \<Rightarrow> 0 | Some j \<Rightarrow> j)"
proof (induction q arbitrary: h)
  case Nil
  then show ?case by (subst find_from.simps) simp
next
  case (Cons x q)
  then show ?case by (subst find_from.simps) auto
qed

section \<open>Properties\<close>

text \<open>
  The queue of \<^verbatim>\<open>rwlock.c\<close> is a list: \<^verbatim>\<open>job_insert\<close> adds a new job at the front, \<^verbatim>\<open>job_append\<close> at the end,
  \<^verbatim>\<open>job_remove\<close> takes a job out of any place, and \<^verbatim>\<open>job_find\<close> ends and returns the first job of the thread,
  or NULL.
\<close>

theorem job_queue_correct:
  assumes "jobs Q q"
  shows "(x \<noteq> 0 \<and> x \<notin> set q \<longrightarrow> jobs (job_insert x Q) (x # q) \<and> jobs (job_append x Q) (q @ [x])) \<and>
    (x \<in> set q \<longrightarrow> jobs (job_remove x Q) (remove1 x q)) \<and>
    job_find 0 Q i = Some (case List.find (\<lambda>j. j_id Q j = i) q of None \<Rightarrow> 0 | Some j \<Rightarrow> j)"
proof -
  have "jobs (job_remove x Q) (remove1 x q)" if x: "x \<in> set q"
  proof -
    obtain xs ys where q: "q = xs @ x # ys" "x \<notin> set xs" using split_list_first [OF x] by blast
    then have "remove1 x q = xs @ ys" by (simp add: remove1_append)
    then show ?thesis using job_remove_jobs [of Q xs x ys] assms q(1) by simp
  qed
  moreover have "job_find 0 Q i = Some (case List.find (\<lambda>j. j_id Q j = i) q of None \<Rightarrow> 0 | Some j \<Rightarrow> j)"
    using find_from_chain [OF dlist_chain] assms by (simp add: job_find_def jobs_def)
  ultimately show ?thesis using job_insert_jobs job_append_jobs assms by blast
qed

theorem job_queue_correct_witness:
  "jobs (job_remove 2 (job_append 2 (job_append 1 (fst (queue_init 0 \<lparr>j_next = \<lambda>_. 0, j_prev = \<lambda>_. 0, j_id = \<lambda>_. 0, q_head = 5, q_tail = 5\<rparr>))))) [1]"
proof -
  let ?Q = "fst (queue_init 0 \<lparr>j_next = \<lambda>_. 0, j_prev = \<lambda>_. 0, j_id = \<lambda>_. 0, q_head = 5, q_tail = 5\<rparr>)"
  have 0: "jobs ?Q []" by (simp add: queue_init_def jobs_def dlist_def)
  have 1: "jobs (job_append 1 ?Q) [1]" using job_queue_correct [OF 0, of 1] by simp
  have 2: "jobs (job_append 2 (job_append 1 ?Q)) [1, 2]" using job_queue_correct [OF 1, of 2] by simp
  show ?thesis using job_queue_correct [OF 2, of 2] by simp
qed

end
