(* ===== verification/Ref_Table.thy ===== *)
theory Ref_Table
  imports DList "HOL-Library.Monad_Syntax" "HOL-Library.Word"
begin

text \<open>
  The hash table of reference-counted objects of \<^verbatim>\<open>threads/mutex2.c\<close>, where the count is protected by
  the object's own lock, and the simpler release of \<^verbatim>\<open>threads/mutex3.c\<close>. A release in \<^verbatim>\<open>mutex2.c\<close> drops the
  object's lock when it sees the last reference, to take the two locks in order, and looks again:
  its two critical sections are two operations, and other threads may run between them. The set
  \<open>f_live\<close> has the objects that are allocated: \<^verbatim>\<open>malloc\<close> adds to it and \<^verbatim>\<open>free\<close> removes from it. The result
  \<open>None\<close> is what has no meaning in C: the use of an object that is not allocated, a count that
  overflows its \<^verbatim>\<open>int\<close>, or a walk that does not end or runs off the list.
\<close>

section \<open>Operations\<close>

definition NHASH :: nat where "NHASH = 29"

text \<open>The conversion of a negative \<^verbatim>\<open>int\<close> to \<^verbatim>\<open>unsigned long\<close> wraps.\<close>

definition HASH :: "int \<Rightarrow> nat" where "HASH i = nat (i mod 2 ^ 64) mod NHASH"

record foos =
  fh :: "nat \<Rightarrow> nat"
  f_count :: "nat \<Rightarrow> 32 word"
  f_id :: "nat \<Rightarrow> int"
  f_next :: "nat \<Rightarrow> nat"
  f_live :: "nat set"

text \<open>\<open>fp\<close> is the result of \<^verbatim>\<open>malloc\<close>, \<open>err\<close> that of \<^verbatim>\<open>pthread_mutex_init\<close>.\<close>

definition foo_alloc :: "nat \<Rightarrow> int \<Rightarrow> int \<Rightarrow> foos \<Rightarrow> foos \<times> nat" where
  "foo_alloc fp err i T =
    (if fp \<noteq> 0 then
       let T = T\<lparr>f_live := insert fp (f_live T)\<rparr>; T = T\<lparr>f_count := (f_count T)(fp := 1)\<rparr>; T = T\<lparr>f_id := (f_id T)(fp := i)\<rparr> in
       if err \<noteq> 0 then (T\<lparr>f_live := f_live T - {fp}\<rparr>, 0)
       else let idx = HASH i; T = T\<lparr>f_next := (f_next T)(fp := fh T idx)\<rparr> in (T\<lparr>fh := (fh T)(idx := fp)\<rparr>, fp)
     else (T, 0))"

definition foo_hold :: "nat \<Rightarrow> foos \<Rightarrow> foos option" where
  "foo_hold fp T = (if fp \<in> f_live T \<and> sint (f_count T fp) < 2 ^ 31 - 1
     then Some (T\<lparr>f_count := (f_count T)(fp := f_count T fp + 1)\<rparr>) else None)"

partial_function (option) foo_walk :: "foos \<Rightarrow> int \<Rightarrow> nat \<Rightarrow> nat option" where
  "foo_walk T i fp = (if fp = 0 then Some 0 else if fp \<notin> f_live T then None
     else if f_id T fp = i then Some fp else foo_walk T i (f_next T fp))"

definition foo_find :: "int \<Rightarrow> foos \<Rightarrow> (foos \<times> nat) option" where
  "foo_find i T = do { fp \<leftarrow> foo_walk T i (fh T (HASH i));
     if fp = 0 then Some (T, 0) else do { T \<leftarrow> foo_hold fp T; Some (T, fp) } }"

partial_function (option) foo_pred :: "foos \<Rightarrow> nat \<Rightarrow> nat \<Rightarrow> nat option" where
  "foo_pred T fp tfp = (if tfp = 0 \<or> tfp \<notin> f_live T then None
     else if f_next T tfp = fp then Some tfp else foo_pred T fp (f_next T tfp))"

definition foo_unlink :: "nat \<Rightarrow> foos \<Rightarrow> foos option" where
  "foo_unlink fp T = (let idx = HASH (f_id T fp); tfp = fh T idx in
     if tfp = fp then Some (T\<lparr>fh := (fh T)(idx := f_next T fp)\<rparr>)
     else do { tfp \<leftarrow> foo_pred T fp tfp; Some (T\<lparr>f_next := (f_next T)(tfp := f_next T fp)\<rparr>) })"

text \<open>The two halves of \<^verbatim>\<open>foo_rele\<close>: whether it was the last reference; whether the object was freed.\<close>

definition foo_rele_begin :: "nat \<Rightarrow> foos \<Rightarrow> (foos \<times> bool) option" where
  "foo_rele_begin fp T = (if fp \<notin> f_live T then None
     else if f_count T fp = 1 then Some (T, True)
     else Some (T\<lparr>f_count := (f_count T)(fp := f_count T fp - 1)\<rparr>, False))"

definition foo_rele_finish :: "nat \<Rightarrow> foos \<Rightarrow> (foos \<times> bool) option" where
  "foo_rele_finish fp T = (if fp \<notin> f_live T then None
     else if f_count T fp \<noteq> 1 then Some (T\<lparr>f_count := (f_count T)(fp := f_count T fp - 1)\<rparr>, False)
     else do { T \<leftarrow> foo_unlink fp T; Some (T\<lparr>f_live := f_live T - {fp}\<rparr>, True) })"

definition foo_rele :: "nat \<Rightarrow> foos \<Rightarrow> (foos \<times> bool) option" where
  "foo_rele fp T = do { (T, lst) \<leftarrow> foo_rele_begin fp T; if lst then foo_rele_finish fp T else Some (T, False) }"

text \<open>The release of \<^verbatim>\<open>mutex3.c\<close>, one critical section.\<close>

definition foo_rele3 :: "nat \<Rightarrow> foos \<Rightarrow> (foos \<times> bool) option" where
  "foo_rele3 fp T = (if fp \<notin> f_live T then None
     else let T = T\<lparr>f_count := (f_count T)(fp := f_count T fp - 1)\<rparr> in
     if f_count T fp = 0 then do { T \<leftarrow> foo_unlink fp T; Some (T\<lparr>f_live := f_live T - {fp}\<rparr>, True) }
     else Some (T, False))"

section \<open>Threads\<close>

text \<open>
  The references the threads hold to each object, and how many of them are between the two halves
  of a release. A thread uses an object only while it holds a reference that it is not releasing.
\<close>

record rtab =
  tab :: foos
  refs :: "nat \<Rightarrow> nat"
  pend :: "nat \<Rightarrow> nat"

inductive rt_step :: "rtab \<Rightarrow> rtab \<Rightarrow> bool" where
  alloc: "fp \<notin> f_live (tab s) \<Longrightarrow> foo_alloc fp err i (tab s) = (T, r) \<Longrightarrow>
    rt_step s (s\<lparr>tab := T, refs := (if r = 0 then refs s else (refs s)(r := 1))\<rparr>)"
| hold: "pend s fp < refs s fp \<Longrightarrow> foo_hold fp (tab s) = Some T \<Longrightarrow>
    rt_step s (s\<lparr>tab := T, refs := (refs s)(fp := Suc (refs s fp))\<rparr>)"
| find: "foo_find i (tab s) = Some (T, fp) \<Longrightarrow>
    rt_step s (s\<lparr>tab := T, refs := (if fp = 0 then refs s else (refs s)(fp := Suc (refs s fp)))\<rparr>)"
| rele: "pend s fp < refs s fp \<Longrightarrow> foo_rele_begin fp (tab s) = Some (T, False) \<Longrightarrow>
    rt_step s (s\<lparr>tab := T, refs := (refs s)(fp := refs s fp - 1)\<rparr>)"
| rele_last: "pend s fp < refs s fp \<Longrightarrow> foo_rele_begin fp (tab s) = Some (T, True) \<Longrightarrow>
    rt_step s (s\<lparr>tab := T, pend := (pend s)(fp := Suc (pend s fp))\<rparr>)"
| finish: "0 < pend s fp \<Longrightarrow> foo_rele_finish fp (tab s) = Some (T, freed) \<Longrightarrow>
    rt_step s (s\<lparr>tab := T, refs := (refs s)(fp := refs s fp - 1), pend := (pend s)(fp := pend s fp - 1)\<rparr>)"

inductive rt_reach :: "rtab \<Rightarrow> bool" where
  start: "rt_reach \<lparr>tab = \<lparr>fh = (\<lambda>_. 0), f_count = c, f_id = i, f_next = n, f_live = {}\<rparr>, refs = (\<lambda>_. 0), pend = (\<lambda>_. 0)\<rparr>"
| more: "rt_reach s \<Longrightarrow> rt_step s s' \<Longrightarrow> rt_reach s'"

section \<open>The invariant\<close>

definition buckets :: "foos \<Rightarrow> (nat \<Rightarrow> nat list) \<Rightarrow> bool" where
  "buckets T L \<longleftrightarrow> (\<forall>b. chain (f_next T) (fh T b) (L b) \<and> distinct (L b) \<and> (\<forall>x \<in> set (L b). HASH (f_id T x) = b \<and> x \<in> f_live T))"

definition rt_holds :: "rtab \<Rightarrow> (nat \<Rightarrow> nat list) \<Rightarrow> bool" where
  "rt_holds s L \<longleftrightarrow> buckets (tab s) L \<and> (\<forall>x. 0 < refs s x \<longleftrightarrow> x \<in> set (L (HASH (f_id (tab s) x)))) \<and>
     (\<forall>x. 0 < refs s x \<longleftrightarrow> x \<in> f_live (tab s)) \<and>
     (\<forall>x. 0 < refs s x \<longrightarrow> refs s x < 2 ^ 31 \<and> f_count (tab s) x = word_of_nat (refs s x)) \<and> (\<forall>x. pend s x \<le> refs s x)"

text \<open>Small counts are the same as a word and as a number.\<close>

lemma sint_of_nat: "n < 2 ^ 31 \<Longrightarrow> sint (word_of_nat n :: 32 word) = int n"
  by (simp add: signed_of_nat signed_take_bit_int_eq_self)

lemma count_eq_1: "n < 2 ^ 31 \<Longrightarrow> (word_of_nat n :: 32 word) = 1 \<longleftrightarrow> n = 1"
  using sint_of_nat [of n] sint_of_nat [of 1] by auto

lemma count_pred: "0 < n \<Longrightarrow> (word_of_nat n :: 32 word) - 1 = word_of_nat (n - 1)"
  by (simp add: of_nat_diff)

lemma chain_pred:
  assumes "chain nx h (xs @ y # fp # ys)" "distinct (xs @ y # fp # ys)"
  shows "nx y = fp" "\<And>z. z \<in> set xs \<Longrightarrow> nx z \<noteq> fp" "chain (nx(y := nx fp)) h (xs @ y # ys)"
  using assms
proof (induction xs arbitrary: h)
  case Nil
  {
    case 1 then show ?case by simp
  next
    case 2 then show ?case by simp
  next
    case 3
    then have "chain (nx(y := nx fp)) (nx fp) ys = chain nx (nx fp) ys" by (intro chain_cong) auto
    then show ?case using 3 by (simp add: fun_upd_def)
  }
next
  case (Cons x xs)
  {
    case 1 then show ?case using Cons.IH(1) [of "nx x"] by simp
  next
    case (2 z)
    have "nx x \<noteq> fp" using 2 by (cases xs) auto
    then show ?case using 2 Cons.IH(2) [of z "nx x"] by auto
  next
    case 3
    then show ?case using Cons.IH(3) [of "nx x"] by auto
  }
qed

lemma foo_pred_finds:
  assumes "chain (f_next T) h (xs @ y # fp # ys)" "distinct (xs @ y # fp # ys)" "set (xs @ [y]) \<subseteq> f_live T"
  shows "foo_pred T fp h = Some y"
  using assms
proof (induction xs arbitrary: h)
  case Nil
  then show ?case by (subst foo_pred.simps) auto
next
  case (Cons x xs)
  have "f_next T x \<noteq> fp" using chain_pred(2) [OF Cons.prems(1,2), of x] by simp
  then show ?case using Cons by (subst foo_pred.simps) auto
qed

lemma foo_unlink_ok:
  assumes "buckets T L" "fp \<in> set (L (HASH (f_id T fp)))"
  shows "\<exists>T'. foo_unlink fp T = Some T' \<and> f_count T' = f_count T \<and> f_id T' = f_id T \<and> f_live T' = f_live T \<and>
    buckets T' (L(HASH (f_id T fp) := remove1 fp (L (HASH (f_id T fp)))))"
proof -
  let ?b = "HASH (f_id T fp)"
  have c: "chain (f_next T) (fh T ?b) (L ?b)" "distinct (L ?b)" using assms(1) by (auto simp: buckets_def)
  obtain xs ys where l: "L ?b = xs @ fp # ys" "fp \<notin> set xs" using split_list_first [OF assms(2)] by blast
  then have r: "remove1 fp (L ?b) = xs @ ys" by (simp add: remove1_append)
  have mem: "\<forall>x \<in> set (L b). HASH (f_id T x) = b \<and> x \<in> f_live T" for b using assms(1) by (simp add: buckets_def)
  show ?thesis
  proof (cases xs rule: rev_cases)
    case Nil
    then have "fh T ?b = fp" "chain (f_next T) (f_next T fp) ys" using c l by auto
    moreover have "\<forall>x \<in> set ys. HASH (f_id T x) = ?b \<and> x \<in> f_live T" using mem [of ?b] unfolding l(1) by simp
    moreover have "distinct ys" using c(2) l(1) by simp
    ultimately have "buckets (T\<lparr>fh := (fh T)(?b := f_next T fp)\<rparr>) (L(?b := xs @ ys))" "fh T ?b = fp"
      using assms(1) Nil unfolding buckets_def by simp_all
    then show ?thesis using r by (simp add: foo_unlink_def Let_def)
  next
    case (snoc zs y)
    have c': "chain (f_next T) (fh T ?b) (zs @ y # fp # ys)" "distinct (zs @ y # fp # ys)" using c l snoc by simp_all
    have "fh T ?b \<noteq> fp" using c' by (cases zs) auto
    moreover have lv: "\<forall>x \<in> set (zs @ y # ys). HASH (f_id T x) = ?b \<and> x \<in> f_live T" using mem [of ?b] unfolding l(1) snoc by simp
    ultimately have u: "foo_unlink fp T = Some (T\<lparr>f_next := (f_next T)(y := f_next T fp)\<rparr>)"
      using foo_pred_finds [OF c'] by (simp add: foo_unlink_def Let_def subset_iff)
    have y: "HASH (f_id T y) = ?b" using lv by simp
    have "chain ((f_next T)(y := f_next T fp)) (fh T b) (L b)" if "b \<noteq> ?b" for b
    proof -
      have "y \<notin> set (L b)" using mem y that by auto
      then have "chain ((f_next T)(y := f_next T fp)) (fh T b) (L b) = chain (f_next T) (fh T b) (L b)"
        by (intro chain_cong) auto
      then show ?thesis using assms(1) by (simp add: buckets_def)
    qed
    moreover have "chain ((f_next T)(y := f_next T fp)) (fh T ?b) (xs @ ys)" using chain_pred(3) [OF c'] snoc by simp
    moreover have "distinct (xs @ ys)" "\<forall>x \<in> set (xs @ ys). HASH (f_id T x) = ?b \<and> x \<in> f_live T" using c(2) l(1) lv snoc by auto
    ultimately have "buckets (T\<lparr>f_next := (f_next T)(y := f_next T fp)\<rparr>) (L(?b := xs @ ys))"
      using assms(1) unfolding buckets_def by simp
    then show ?thesis using u r by simp
  qed
qed

lemma foo_unlink_count:
  assumes "buckets T L" "fp \<in> set (L (HASH (f_id T fp)))"
  shows "\<exists>T'. (\<forall>c. foo_unlink fp (T\<lparr>f_count := c\<rparr>) = Some (T'\<lparr>f_count := c\<rparr>)) \<and> f_count T' = f_count T"
proof -
  let ?b = "HASH (f_id T fp)"
  have c: "chain (f_next T) (fh T ?b) (L ?b)" "distinct (L ?b)" "set (L ?b) \<subseteq> f_live T" using assms(1) by (auto simp: buckets_def)
  obtain xs ys where l: "L ?b = xs @ fp # ys" using split_list [OF assms(2)] by blast
  show ?thesis
  proof (cases xs rule: rev_cases)
    case Nil
    then have "fh T ?b = fp" using c l by simp
    then show ?thesis
      by (intro exI [of _ "T\<lparr>fh := (fh T)(?b := f_next T fp)\<rparr>"]) (simp add: foo_unlink_def Let_def)
  next
    case (snoc zs y)
    have c': "chain (f_next (T\<lparr>f_count := k\<rparr>)) (fh T ?b) (zs @ y # fp # ys)" "distinct (zs @ y # fp # ys)"
      "set (zs @ [y]) \<subseteq> f_live (T\<lparr>f_count := k\<rparr>)" for k using c l snoc by simp_all
    have "fh T ?b \<noteq> fp" using c' by (cases zs) auto
    then show ?thesis
      using foo_pred_finds [OF c']
      by (intro exI [of _ "T\<lparr>f_next := (f_next T)(y := f_next T fp)\<rparr>"]) (simp add: foo_unlink_def Let_def)
  qed
qed

lemma rt_holdsD:
  assumes "rt_holds s L"
  shows "buckets (tab s) L" "\<And>x. 0 < refs s x \<longleftrightarrow> x \<in> set (L (HASH (f_id (tab s) x)))"
    "\<And>x. 0 < refs s x \<longleftrightarrow> x \<in> f_live (tab s)" "\<And>x. 0 < refs s x \<Longrightarrow> refs s x < 2 ^ 31"
    "\<And>x. 0 < refs s x \<Longrightarrow> f_count (tab s) x = word_of_nat (refs s x)" "\<And>x. pend s x \<le> refs s x"
  using assms unfolding rt_holds_def by blast+

lemma bucket_mem: "buckets T L \<Longrightarrow> x \<in> set (L b) \<Longrightarrow> HASH (f_id T x) = b"
  by (simp add: buckets_def)

lemma bucket_nonzero: "buckets T L \<Longrightarrow> 0 \<notin> set (L b)"
  unfolding buckets_def using chain_nonzero by blast

lemma foo_walk_finds:
  "chain (f_next T) h q \<Longrightarrow> set q \<subseteq> f_live T \<Longrightarrow>
    foo_walk T i h = Some (case List.find (\<lambda>x. f_id T x = i) q of None \<Rightarrow> 0 | Some x \<Rightarrow> x)"
proof (induction q arbitrary: h)
  case Nil
  then show ?case by (subst foo_walk.simps) simp
next
  case (Cons x q)
  then show ?case by (subst foo_walk.simps) auto
qed

text \<open>The walk of \<^verbatim>\<open>foo_find\<close> returns; what it returns is in the table and has the identifier.\<close>

lemma foo_find_ok:
  assumes "buckets T L"
  shows "\<exists>fp. foo_walk T i (fh T (HASH i)) = Some fp \<and>
    (if fp = 0 then \<forall>x \<in> set (L (HASH i)). f_id T x \<noteq> i else fp \<in> set (L (HASH i)) \<and> f_id T fp = i)"
proof -
  have c: "chain (f_next T) (fh T (HASH i)) (L (HASH i))" "set (L (HASH i)) \<subseteq> f_live T" using assms by (auto simp: buckets_def)
  show ?thesis
  proof (cases "List.find (\<lambda>x. f_id T x = i) (L (HASH i))")
    case None
    have "\<forall>x \<in> set (L (HASH i)). f_id T x \<noteq> i" using None by (simp add: find_None_iff)
    moreover have "foo_walk T i (fh T (HASH i)) = Some 0" using foo_walk_finds [OF c, of i] None by simp
    ultimately show ?thesis by simp
  next
    case (Some x)
    then have "x \<in> set (L (HASH i))" "f_id T x = i" by (auto simp: find_Some_iff)
    moreover then have "x \<noteq> 0" using bucket_nonzero [OF assms] by metis
    ultimately show ?thesis using foo_walk_finds [OF c, of i] Some by auto
  qed
qed

lemma buckets_count: "buckets (T\<lparr>f_count := c\<rparr>) L = buckets T L"
  by (simp add: buckets_def)

lemma foo_alloc_ok:
  assumes "buckets T L" "fp \<noteq> 0" "\<And>b. fp \<notin> set (L b)" "foo_alloc fp 0 i T = (T', r)"
  shows "r = fp" "buckets T' (L(HASH i := fp # L (HASH i)))" "f_id T' = (f_id T)(fp := i)" "f_count T' = (f_count T)(fp := 1)"
    "f_live T' = insert fp (f_live T)"
proof -
  show e: "r = fp" "f_id T' = (f_id T)(fp := i)" "f_count T' = (f_count T)(fp := 1)" "f_live T' = insert fp (f_live T)"
    using assms(2,4) by (auto simp: foo_alloc_def Let_def)
  have e': "fh T' = (fh T)(HASH i := fp)" "f_next T' = (f_next T)(fp := fh T (HASH i))"
    using assms(2,4) by (auto simp: foo_alloc_def Let_def)
  have "chain (f_next T') (fh T b) (L b)" for b
  proof -
    have "chain ((f_next T)(fp := fh T (HASH i))) (fh T b) (L b) = chain (f_next T) (fh T b) (L b)"
      using assms(3) by (intro chain_cong) auto
    then show ?thesis using assms(1) e' by (simp add: buckets_def)
  qed
  moreover have "\<forall>x \<in> set (L b). HASH (f_id T' x) = b \<and> x \<in> f_live T'" for b using assms(1,3) e by (auto simp: buckets_def)
  ultimately show "buckets T' (L(HASH i := fp # L (HASH i)))"
    using assms e e' unfolding buckets_def by auto
qed

lemma rt_count_step:
  assumes "rt_holds s L" "0 < refs s fp" "0 < n" "n < 2 ^ 31" "p \<le> n"
  shows "rt_holds (s\<lparr>tab := (tab s)\<lparr>f_count := (f_count (tab s))(fp := word_of_nat n)\<rparr>, refs := (refs s)(fp := n), pend := (pend s)(fp := p)\<rparr>) L"
  using assms by (auto simp: rt_holds_def buckets_count)

text \<open>One lemma for each step.\<close>

lemma holds_alloc:
  assumes L: "rt_holds s L" and "foo_alloc fp err i (tab s) = (T, r)" "fp \<notin> f_live (tab s)"
  shows "\<exists>L. rt_holds (s\<lparr>tab := T, refs := (if r = 0 then refs s else (refs s)(r := 1))\<rparr>) L"
proof -
  note h = rt_holdsD [OF L]
  have z: "refs s fp = 0" using h(3) [of fp] assms(3) by simp
  have new: "fp \<notin> set (L b)" for b using h(2) [of fp] z bucket_mem [OF h(1)] by auto
  have p: "pend s fp = 0" using h(6) [of fp] z by simp
  consider "fp = 0" | "fp \<noteq> 0" "err \<noteq> 0" | "fp \<noteq> 0" "err = 0" by blast
  then show ?thesis
  proof cases
    case 1
    then show ?thesis using assms(2) L by (auto simp: foo_alloc_def)
  next
    case 2
    then have "r = 0" "T = (tab s)\<lparr>f_count := (f_count (tab s))(fp := 1), f_id := (f_id (tab s))(fp := i)\<rparr>"
      using assms(2,3) by (auto simp: foo_alloc_def Let_def)
    moreover have "buckets ((tab s)\<lparr>f_count := (f_count (tab s))(fp := 1), f_id := (f_id (tab s))(fp := i)\<rparr>) L"
      using h(1) new by (auto simp: buckets_def)
    ultimately show ?thesis using L z new by (intro exI [of _ L]) (auto simp: rt_holds_def)
  next
    case 3
    note a = foo_alloc_ok [OF h(1) 3(1) new assms(2) [unfolded 3(2)]]
    have "rt_holds (s\<lparr>tab := T, refs := (refs s)(fp := 1)\<rparr>) (L(HASH i := fp # L (HASH i)))"
      using a h(2-6) new p by (auto simp: rt_holds_def)
    then show ?thesis using a(1) 3(1) by auto
  qed
qed

lemma holds_hold:
  assumes L: "rt_holds s L" and "foo_hold fp (tab s) = Some T"
  shows "rt_holds (s\<lparr>tab := T, refs := (refs s)(fp := Suc (refs s fp))\<rparr>) L"
proof -
  note h = rt_holdsD [OF L]
  have pos: "0 < refs s fp" using assms(2) h(3) by (auto simp: foo_hold_def split: if_splits)
  have "T = (tab s)\<lparr>f_count := (f_count (tab s))(fp := word_of_nat (Suc (refs s fp)))\<rparr>" "Suc (refs s fp) < 2 ^ 31"
    using assms(2) h(5) [OF pos] sint_of_nat [OF h(4) [OF pos]]
    by (auto simp: foo_hold_def add.commute split: if_splits)
  then show ?thesis using rt_count_step [OF L pos, of "Suc (refs s fp)" "pend s fp"] h(6) [of fp] by simp
qed

lemma holds_find:
  assumes L: "rt_holds s L" and "foo_find i (tab s) = Some (T, fp)"
  shows "rt_holds (s\<lparr>tab := T, refs := (if fp = 0 then refs s else (refs s)(fp := Suc (refs s fp)))\<rparr>) L"
proof (cases "fp = 0")
  case True
  then have "T = tab s" using assms(2) by (auto simp: foo_find_def split: Option.bind_splits if_splits)
  then show ?thesis using L True by simp
next
  case False
  then have "foo_hold fp (tab s) = Some T" using assms(2) by (auto simp: foo_find_def split: Option.bind_splits if_splits)
  then show ?thesis using holds_hold [OF L] False by simp
qed

lemma holds_rele:
  assumes L: "rt_holds s L" and "pend s fp < refs s fp" "foo_rele_begin fp (tab s) = Some (T, False)"
  shows "rt_holds (s\<lparr>tab := T, refs := (refs s)(fp := refs s fp - 1)\<rparr>) L"
proof -
  note h = rt_holdsD [OF L]
  have pos: "0 < refs s fp" using assms(2) by simp
  have "refs s fp \<noteq> 1" "T = (tab s)\<lparr>f_count := (f_count (tab s))(fp := word_of_nat (refs s fp - 1))\<rparr>"
    using assms(3) h(5) [OF pos] count_pred [OF pos] by (auto simp: foo_rele_begin_def split: if_splits)
  then show ?thesis using rt_count_step [OF L pos, of "refs s fp - 1" "pend s fp"] assms(2) pos h(4) [OF pos] by simp
qed

lemma finish_result:
  assumes L: "rt_holds s L" and "0 < refs s fp"
  shows "refs s fp \<noteq> 1 \<Longrightarrow> foo_rele_finish fp (tab s) =
      Some ((tab s)\<lparr>f_count := (f_count (tab s))(fp := word_of_nat (refs s fp - 1))\<rparr>, False)"
    "refs s fp = 1 \<Longrightarrow> \<exists>T. foo_rele_finish fp (tab s) = Some (T\<lparr>f_live := f_live (tab s) - {fp}\<rparr>, True) \<and>
      f_count T = f_count (tab s) \<and> f_id T = f_id (tab s) \<and> f_live T = f_live (tab s) \<and>
      buckets T (L(HASH (f_id (tab s) fp) := remove1 fp (L (HASH (f_id (tab s) fp)))))"
proof -
  note h = rt_holdsD [OF L]
  have l: "fp \<in> f_live (tab s)" "fp \<in> set (L (HASH (f_id (tab s) fp)))" using h(2,3) [of fp] assms(2) by auto
  note c = h(5) [OF assms(2)] count_eq_1 [OF h(4) [OF assms(2)]] count_pred [OF assms(2)]
  show "refs s fp \<noteq> 1 \<Longrightarrow> foo_rele_finish fp (tab s) =
      Some ((tab s)\<lparr>f_count := (f_count (tab s))(fp := word_of_nat (refs s fp - 1))\<rparr>, False)"
    using l(1) c by (simp add: foo_rele_finish_def)
  show "refs s fp = 1 \<Longrightarrow> \<exists>T. foo_rele_finish fp (tab s) = Some (T\<lparr>f_live := f_live (tab s) - {fp}\<rparr>, True) \<and>
      f_count T = f_count (tab s) \<and> f_id T = f_id (tab s) \<and> f_live T = f_live (tab s) \<and>
      buckets T (L(HASH (f_id (tab s) fp) := remove1 fp (L (HASH (f_id (tab s) fp)))))"
    using l(1) c foo_unlink_ok [OF h(1) l(2)] by (auto simp: foo_rele_finish_def)
qed

lemma holds_finish:
  assumes L: "rt_holds s L" and "0 < pend s fp" "foo_rele_finish fp (tab s) = Some (T, freed)"
  shows "\<exists>L. rt_holds (s\<lparr>tab := T, refs := (refs s)(fp := refs s fp - 1), pend := (pend s)(fp := pend s fp - 1)\<rparr>) L"
proof -
  note h = rt_holdsD [OF L]
  have pos: "0 < refs s fp" using assms(2) h(6) [of fp] by simp
  show ?thesis
  proof (cases "refs s fp = 1")
    case False
    then have "T = (tab s)\<lparr>f_count := (f_count (tab s))(fp := word_of_nat (refs s fp - 1))\<rparr>"
      using assms(3) finish_result(1) [OF L pos] by simp
    then show ?thesis
      using rt_count_step [OF L pos, of "refs s fp - 1" "pend s fp - 1"] False pos h(4) [OF pos] h(6) [of fp]
      by (intro exI [of _ L]) (simp add: diff_le_mono)
  next
    case True
    let ?b = "HASH (f_id (tab s) fp)"
    let ?L = "L(?b := remove1 fp (L ?b))"
    obtain T' where T': "T = T'\<lparr>f_live := f_live (tab s) - {fp}\<rparr>" "f_count T' = f_count (tab s)" "f_id T' = f_id (tab s)"
      "f_live T' = f_live (tab s)" "buckets T' ?L" using finish_result(2) [OF L pos True] assms(3) by auto
    have d: "distinct (L ?b)" using h(1) by (simp add: buckets_def)
    have out: "fp \<notin> set (?L b)" for b using bucket_mem [OF h(1), of fp b] d by auto
    have "\<forall>x \<in> set (?L b). x \<in> f_live (tab s) - {fp}" for b using T'(4,5) out [of b] unfolding buckets_def by blast
    then have "buckets T ?L" using T'(5) unfolding buckets_def T'(1) by (simp del: fun_upd_apply)
    moreover have "pend s fp = 1" using assms(2) h(6) [of fp] True by simp
    ultimately show ?thesis
      using T'(1-4) True h(2-6) d by (intro exI [of _ ?L]) (auto simp: rt_holds_def)
  qed
qed

lemma rt_step_holds:
  assumes "rt_step s s'" "\<exists>L. rt_holds s L"
  shows "\<exists>L. rt_holds s' L"
  using assms
proof (induction rule: rt_step.induct)
  case (rele_last s fp T)
  then obtain L where L: "rt_holds s L" by blast
  have "T = tab s" using rele_last(2) by (auto simp: foo_rele_begin_def split: if_splits)
  then show ?case using L rele_last(1) by (intro exI [of _ L]) (auto simp: rt_holds_def)
next
  case (alloc fp s err i T r)
  then show ?case using holds_alloc [OF _ alloc(2,1)] by blast
next
  case (hold s fp T)
  then show ?case using holds_hold [OF _ hold(2)] by blast
next
  case (find i s T fp)
  then show ?case using holds_find [OF _ find(1)] by blast
next
  case (rele s fp T)
  then show ?case using holds_rele [OF _ rele(1,2)] by blast
next
  case (finish s fp T freed)
  then show ?case using holds_finish [OF _ finish(1,2)] by blast
qed

lemma rt_reach_holds: "rt_reach s \<Longrightarrow> \<exists>L. rt_holds s L"
proof (induction rule: rt_reach.induct)
  case (start c i n)
  then show ?case by (intro exI [of _ "\<lambda>_. []"]) (simp add: rt_holds_def buckets_def)
qed (rule rt_step_holds)

section \<open>Properties\<close>

text \<open>
  C12: reference counting is safe under every interleaving, although a release of \<^verbatim>\<open>mutex2.c\<close> is not one
  critical section. In every reachable state an object is allocated and in the table exactly while
  threads hold references to it; its count, a 32-bit \<^verbatim>\<open>int\<close>, is the number of references. Nobody uses a
  freed object: a thread with a reference can always release it, and can take another one unless the
  count is at its maximum, and a lookup ends. The second half of a release frees the object exactly
  when the reference it gives up is the last one.
\<close>

theorem foo_refcount:
  assumes "rt_reach s"
  shows "(\<exists>L. buckets (tab s) L \<and> (\<forall>x. x \<in> f_live (tab s) \<longleftrightarrow> x \<in> set (L (HASH (f_id (tab s) x))))) \<and>
    (\<forall>x. x \<in> f_live (tab s) \<longleftrightarrow> 0 < refs s x) \<and>
    (\<forall>x. 0 < refs s x \<longrightarrow> sint (f_count (tab s) x) = int (refs s x) \<and> foo_rele_begin x (tab s) \<noteq> None \<and>
       (foo_hold x (tab s) = None \<longleftrightarrow> refs s x = 2 ^ 31 - 1)) \<and>
    (\<forall>x. 0 < pend s x \<longrightarrow> (\<exists>T. foo_rele_finish x (tab s) = Some (T, refs s x = 1) \<and> (x \<in> f_live T \<longleftrightarrow> refs s x \<noteq> 1))) \<and>
    (\<forall>i. \<exists>x. foo_walk (tab s) i (fh (tab s) (HASH i)) = Some x)"
proof -
  obtain L where L: "rt_holds s L" using rt_reach_holds [OF assms] by blast
  note h = rt_holdsD [OF L]
  have c: "sint (f_count (tab s) x) = int (refs s x)" "foo_rele_begin x (tab s) \<noteq> None"
    "foo_hold x (tab s) = None \<longleftrightarrow> refs s x = 2 ^ 31 - 1" if "0 < refs s x" for x
    using h(3) [of x] h(4,5) [OF that] sint_of_nat [OF h(4) [OF that]] that by (auto simp: foo_rele_begin_def foo_hold_def)
  have f: "\<exists>T. foo_rele_finish x (tab s) = Some (T, refs s x = 1) \<and> (x \<in> f_live T \<longleftrightarrow> refs s x \<noteq> 1)" if "0 < pend s x" for x
  proof -
    have "0 < refs s x" using that h(6) [of x] by simp
    then show ?thesis using finish_result [OF L, of x] h(3) [of x] by (cases "refs s x = 1") auto
  qed
  have w: "\<exists>x. foo_walk (tab s) i (fh (tab s) (HASH i)) = Some x" for i using foo_find_ok [OF h(1), of i] by blast
  have "buckets (tab s) L \<and> (\<forall>x. x \<in> f_live (tab s) \<longleftrightarrow> x \<in> set (L (HASH (f_id (tab s) x))))" using h(1-3) by blast
  then show ?thesis using c f w h(3) by blast
qed

definition demo_foos :: foos where
  "demo_foos = \<lparr>fh = (\<lambda>_. 0), f_count = (\<lambda>_. 0), f_id = (\<lambda>_. 0), f_next = (\<lambda>_. 0), f_live = {}\<rparr>"

theorem foo_refcount_witness: "\<exists>s. rt_reach s \<and> refs s 1 = 1 \<and> pend s 1 = 1 \<and>
    (\<exists>T. foo_rele_finish 1 (tab s) = Some (T, True) \<and> 1 \<notin> f_live T)"
proof -
  let ?s = "\<lparr>tab = demo_foos, refs = (\<lambda>_. 0), pend = (\<lambda>_. 0)\<rparr>"
  let ?s' = "?s\<lparr>tab := fst (foo_alloc 1 0 7 demo_foos), refs := (refs ?s)(1 := 1)\<rparr>"
  let ?s'' = "?s'\<lparr>tab := tab ?s', pend := (pend ?s')(1 := Suc (pend ?s' 1))\<rparr>"
  have "rt_reach ?s" unfolding demo_foos_def by (rule rt_reach.start)
  moreover have "rt_step ?s ?s'"
    using rt_step.alloc [of 1 ?s 0 7 "fst (foo_alloc 1 0 7 demo_foos)" 1] by (simp add: foo_alloc_def Let_def demo_foos_def)
  ultimately have "rt_reach ?s'" by (rule rt_reach.more)
  moreover have "rt_step ?s' ?s''"
    by (rule rt_step.rele_last) (simp_all add: foo_rele_begin_def foo_alloc_def Let_def)
  ultimately have r: "rt_reach ?s''" by (rule rt_reach.more)
  have "\<forall>x. 0 < pend ?s'' x \<longrightarrow> (\<exists>T. foo_rele_finish x (tab ?s'') = Some (T, refs ?s'' x = 1) \<and> (x \<in> f_live T \<longleftrightarrow> refs ?s'' x \<noteq> 1))"
    using foo_refcount [OF r] by (elim conjE)
  from spec [OF this, of 1] show ?thesis using r by (intro exI [of _ ?s'']) simp
qed

text \<open>
  Without interference the release of \<^verbatim>\<open>mutex2.c\<close> and the simpler one of \<^verbatim>\<open>mutex3.c\<close> do the same: both
  return, free the object exactly when its count is 1, and leave the same table, except for the
  count inside the freed object.
\<close>

theorem foo_rele_equiv:
  assumes "buckets T L" "fp \<in> set (L (HASH (f_id T fp)))" "1 \<le> sint (f_count T fp)"
  shows "\<exists>T2 T3. foo_rele fp T = Some (T2, f_count T fp = 1) \<and> foo_rele3 fp T = Some (T3, f_count T fp = 1) \<and>
    T3 = T2\<lparr>f_count := (f_count T)(fp := f_count T fp - 1)\<rparr>"
proof (cases "f_count T fp = 1")
  case False
  moreover have "fp \<in> f_live T" using assms(1,2) by (auto simp: buckets_def)
  ultimately show ?thesis using assms(3) by (auto simp: foo_rele_def foo_rele_begin_def foo_rele3_def Let_def)
next
  case True
  have l: "fp \<in> f_live T" using assms(1,2) by (auto simp: buckets_def)
  obtain T' where T': "\<And>c. foo_unlink fp (T\<lparr>f_count := c\<rparr>) = Some (T'\<lparr>f_count := c\<rparr>)" "f_count T' = f_count T"
    using foo_unlink_count [OF assms(1,2)] by blast
  have "T\<lparr>f_count := f_count T\<rparr> = T" "T'\<lparr>f_count := f_count T\<rparr> = T'" using T'(2) [symmetric] by simp_all
  then have "foo_unlink fp T = Some T'" using T'(1) [of "f_count T"] by simp
  then show ?thesis
    using True l T'(1) by (simp add: foo_rele_def foo_rele_begin_def foo_rele_finish_def foo_rele3_def Let_def)
qed

theorem foo_rele_equiv_witness:
  "\<exists>T2 T3. foo_rele 1 (fst (foo_alloc 1 0 7 demo_foos)) = Some (T2, True) \<and> foo_rele3 1 (fst (foo_alloc 1 0 7 demo_foos)) = Some (T3, True)"
proof -
  let ?T = "fst (foo_alloc 1 0 7 demo_foos)"
  have b: "buckets demo_foos (\<lambda>_. [])" by (simp add: buckets_def demo_foos_def)
  have e: "foo_alloc 1 0 7 demo_foos = (?T, 1)" by (simp add: foo_alloc_def Let_def)
  note a = foo_alloc_ok(2-4) [OF b _ _ e, simplified]
  show ?thesis using foo_rele_equiv [OF a(1), of 1] a(2,3) by auto
qed

end
