(* ===== verification/Semaph.thy ===== *)
theory Semaph
  imports Refinement
begin

text \<open>
  The semaphore library \<^verbatim>\<open>lib/semaph.c\<close> on System V semaphore sets: member 0 is the value, member 1
  counts the processes down from \<^verbatim>\<open>BIGCOUNT\<close>, member 2 is a lock. The kernel keeps, per process and
  member, the adjustment that is applied when the process exits. A call that would sleep is the
  error \<open>Blocked\<close>.
\<close>

section \<open>System V semaphores\<close>

record semset =
  sval :: "nat \<Rightarrow> int"
  sadj :: "nat \<Rightarrow> nat \<Rightarrow> int"

record semk =
  sets :: "nat \<rightharpoonup> semset"
  keyid :: "int \<rightharpoonup> nat"
  nextid :: nat

datatype sem_err = Err_sys string | Err_dump string | Blocked

datatype 'a kres = Kfail nat | Kblock | Kok 'a

definition EINVAL :: nat where "EINVAL = 22"
definition ERANGE :: nat where "ERANGE = 34"
definition SEMVMX :: int where "SEMVMX = 32767"

text \<open>A member, an amount, and whether the kernel undoes it on exit.\<close>

type_synonym sembuf = "nat \<times> int \<times> bool"

fun apply_op :: "nat \<Rightarrow> sembuf \<Rightarrow> semset \<Rightarrow> semset kres" where
  "apply_op pid (n, v, undo) st =
    (if v = 0 then (if sval st n = 0 then Kok st else Kblock)
     else if sval st n + v < 0 then Kblock
     else if sval st n + v > SEMVMX then Kfail ERANGE
     else Kok (st\<lparr>sval := (sval st)(n := sval st n + v),
       sadj := (if undo then (sadj st)(pid := (sadj st pid)(n := sadj st pid n - v)) else sadj st)\<rparr>))"

fun apply_ops :: "nat \<Rightarrow> sembuf list \<Rightarrow> semset \<Rightarrow> semset kres" where
  "apply_ops pid [] st = Kok st"
| "apply_ops pid (b # bs) st = (case apply_op pid b st of Kok st \<Rightarrow> apply_ops pid bs st | r \<Rightarrow> r)"

definition semop :: "nat \<Rightarrow> nat \<Rightarrow> sembuf list \<Rightarrow> semk \<Rightarrow> semk kres" where
  "semop pid sid bs K = (case sets K sid of
      None \<Rightarrow> Kfail EINVAL
    | Some st \<Rightarrow> (case apply_ops pid bs st of
         Kok st \<Rightarrow> Kok (K\<lparr>sets := (sets K)(sid \<mapsto> st)\<rparr>) | Kblock \<Rightarrow> Kblock | Kfail e \<Rightarrow> Kfail e))"

definition semget_creat :: "int \<Rightarrow> semk \<Rightarrow> semk \<times> nat" where
  "semget_creat key K = (case keyid K key of
      Some sid \<Rightarrow> (K, sid)
    | None \<Rightarrow> (\<lparr>sets = (sets K)(nextid K \<mapsto> \<lparr>sval = (\<lambda>_. 0), sadj = (\<lambda>_ _. 0)\<rparr>),
        keyid = (keyid K)(key \<mapsto> nextid K), nextid = Suc (nextid K)\<rparr>, nextid K))"

definition getval :: "nat \<Rightarrow> nat \<Rightarrow> semk \<Rightarrow> int option" where
  "getval sid n K = map_option (\<lambda>st. sval st n) (sets K sid)"

text \<open>\<^verbatim>\<open>SETVAL\<close> also clears the adjustments of the member in all processes.\<close>

definition setval :: "nat \<Rightarrow> nat \<Rightarrow> int \<Rightarrow> semk \<Rightarrow> semk option" where
  "setval sid n v K = (case sets K sid of None \<Rightarrow> None
    | Some st \<Rightarrow> if v < 0 \<or> v > SEMVMX then None
        else Some (K\<lparr>sets := (sets K)(sid \<mapsto> st\<lparr>sval := (sval st)(n := v), sadj := (\<lambda>p. (sadj st p)(n := 0))\<rparr>)\<rparr>))"

definition rmid :: "nat \<Rightarrow> semk \<Rightarrow> semk option" where
  "rmid sid K = (if sets K sid = None then None
     else Some (K\<lparr>sets := (sets K)(sid := None), keyid := (\<lambda>k. if keyid K k = Some sid then None else keyid K k)\<rparr>))"

text \<open>The exit of a process: the kernel applies its adjustments (a value does not fall below 0).\<close>

definition exit_set :: "nat \<Rightarrow> semset \<Rightarrow> semset" where
  "exit_set pid st = st\<lparr>sval := (\<lambda>n. max 0 (sval st n + sadj st pid n)), sadj := (sadj st)(pid := (\<lambda>_. 0))\<rparr>"

definition proc_exit :: "nat \<Rightarrow> semk \<Rightarrow> semk" where
  "proc_exit pid K = K\<lparr>sets := (\<lambda>i. map_option (exit_set pid) (sets K i))\<rparr>"

section \<open>The library\<close>

definition BIGCOUNT :: int where "BIGCOUNT = 10000"

definition op_lock :: "sembuf list" where "op_lock = [(2, 0, False), (2, 1, True)]"
definition op_endcreate :: "sembuf list" where "op_endcreate = [(1, -1, True), (2, -1, True)]"
definition op_open :: "sembuf list" where "op_open = [(1, -1, True)]"
definition op_close :: "sembuf list" where "op_close = [(2, 0, False), (2, 1, True), (1, 1, True)]"
definition op_unlock :: "sembuf list" where "op_unlock = [(2, -1, True)]"

text \<open>A \<^verbatim>\<open>semop\<close> whose failure is fatal.\<close>

definition semop_or :: "string \<Rightarrow> nat \<Rightarrow> nat \<Rightarrow> sembuf list \<Rightarrow> semk \<Rightarrow> sem_err + semk" where
  "semop_or what pid sid bs K = (case semop pid sid bs K of Kok K \<Rightarrow> Inr K | Kblock \<Rightarrow> Inl Blocked | Kfail e \<Rightarrow> Inl (Err_sys what))"

definition or_sys :: "string \<Rightarrow> 'a option \<Rightarrow> sem_err + 'a" where
  "or_sys what r = (case r of None \<Rightarrow> Inl (Err_sys what) | Some a \<Rightarrow> Inr a)"

text \<open>The part of \<^verbatim>\<open>sem_create\<close> behind the lock.\<close>

definition create_locked :: "nat \<Rightarrow> int \<Rightarrow> nat \<Rightarrow> semk \<Rightarrow> sem_err + (semk \<times> int)" where
  "create_locked pid initval sid K =
    bindR (or_sys ''can't GETVAL'' (getval sid 1 K)) (\<lambda>semval.
    bindR (if semval = 0 then
        bindR (or_sys ''can SETVAL[0]'' (setval sid 0 initval K)) (\<lambda>K. or_sys ''can SETVAL[1]'' (setval sid 1 BIGCOUNT K))
      else Inr K) (\<lambda>K.
    bindR (semop_or ''can't end create'' pid sid op_endcreate K) (\<lambda>K. Inr (K, int sid))))"

text \<open>
  The loop from \<^verbatim>\<open>again\<close> on: \<open>steal\<close> is how often another process removes the set between \<^verbatim>\<open>semget\<close> and
  \<^verbatim>\<open>semop\<close>; then \<^verbatim>\<open>semop\<close> fails with \<^verbatim>\<open>EINVAL\<close> and the set is created again.
\<close>

fun create_again :: "nat \<Rightarrow> nat \<Rightarrow> int \<Rightarrow> int \<Rightarrow> semk \<Rightarrow> sem_err + (semk \<times> int)" where
  "create_again 0 pid key initval K = (case semget_creat key K of (K, sid) \<Rightarrow>
     bindR (semop_or ''can't lock'' pid sid op_lock K) (create_locked pid initval sid))"
| "create_again (Suc steal) pid key initval K = (case semget_creat key K of (K, sid) \<Rightarrow>
     (case rmid sid K of None \<Rightarrow> Inl (Err_sys ''can't lock'') | Some K \<Rightarrow>
       (case semop pid sid op_lock K of
          Kfail e \<Rightarrow> if e = EINVAL then create_again steal pid key initval K else Inl (Err_sys ''can't lock'')
        | Kblock \<Rightarrow> Inl Blocked
        | Kok K \<Rightarrow> create_locked pid initval sid K)))"

text \<open>\<open>ok\<close>: whether \<^verbatim>\<open>semget\<close> has the permission and the room it needs.\<close>

definition sem_create :: "bool \<Rightarrow> nat \<Rightarrow> nat \<Rightarrow> int \<Rightarrow> int \<Rightarrow> semk \<Rightarrow> sem_err + (semk \<times> int)" where
  "sem_create ok steal pid key initval K =
    (if key = 0 then Inr (K, -1) else if key = -1 then Inr (K, -1)
     else if \<not> ok then Inr (K, -1) else create_again steal pid key initval K)"

definition sem_open :: "nat \<Rightarrow> int \<Rightarrow> semk \<Rightarrow> sem_err + (semk \<times> int)" where
  "sem_open pid key K =
    (if key = 0 then Inr (K, -1) else if key = -1 then Inr (K, -1)
     else case keyid K key of None \<Rightarrow> Inr (K, -1)
       | Some sid \<Rightarrow> bindR (semop_or ''can't open'' pid sid op_open K) (\<lambda>K. Inr (K, int sid)))"

definition sem_rm :: "nat \<Rightarrow> semk \<Rightarrow> sem_err + semk" where
  "sem_rm sid K = or_sys ''can't IPC_RMID'' (rmid sid K)"

text \<open>\<^verbatim>\<open>sem_close\<close> up to the value of the counter, and what it does with it.\<close>

definition close_begin :: "nat \<Rightarrow> nat \<Rightarrow> semk \<Rightarrow> sem_err + (semk \<times> int)" where
  "close_begin pid sid K = bindR (semop_or ''can't semop'' pid sid op_close K) (\<lambda>K.
     bindR (or_sys ''can't GETVAL'' (getval sid 1 K)) (\<lambda>semval. Inr (K, semval)))"

definition close_end :: "nat \<Rightarrow> nat \<Rightarrow> int \<Rightarrow> semk \<Rightarrow> sem_err + semk" where
  "close_end pid sid semval K =
    (if semval > BIGCOUNT then Inl (Err_dump ''sem[1] > BIGCOUNT'')
     else if semval = BIGCOUNT then sem_rm sid K
     else semop_or ''can't unlock'' pid sid op_unlock K)"

definition sem_close :: "nat \<Rightarrow> nat \<Rightarrow> semk \<Rightarrow> sem_err + semk" where
  "sem_close pid sid K = bindR (close_begin pid sid K) (\<lambda>(K, semval). close_end pid sid semval K)"

text \<open>The amount is stored in \<^verbatim>\<open>sem_op\<close>, a 16-bit signed integer, and compared with 0 as stored.\<close>

definition short_of :: "int \<Rightarrow> int" where
  "short_of v = (v + 32768) mod 65536 - 32768"

definition sem_op :: "nat \<Rightarrow> nat \<Rightarrow> int \<Rightarrow> semk \<Rightarrow> sem_err + semk" where
  "sem_op pid sid v K = (if short_of v = 0 then Inl (Err_sys ''can't have value == 0'')
     else semop_or ''sem_op error'' pid sid [(0, short_of v, True)] K)"

definition sem_wait :: "nat \<Rightarrow> nat \<Rightarrow> semk \<Rightarrow> sem_err + semk" where
  "sem_wait pid sid K = sem_op pid sid (-1) K"

definition sem_signal :: "nat \<Rightarrow> nat \<Rightarrow> semk \<Rightarrow> sem_err + semk" where
  "sem_signal pid sid K = sem_op pid sid 1 K"

end
