(* ===== verification/Semaph_Spec.thy ===== *)
theory Semaph_Spec
  imports Semaph
begin

text \<open>
  The library against its specification: a semaphore is a value and a number of users, and it
  disappears with its last user. The wrappers refine this when calls do not overlap; \<^verbatim>\<open>SEM_UNDO\<close> makes up
  for processes that exit without closing; and the race between \<^verbatim>\<open>sem_close\<close> and \<^verbatim>\<open>sem_open\<close>.
\<close>

section \<open>Specification\<close>

type_synonym sems = "int \<rightharpoonup> int \<times> nat"

datatype scmd = Create nat int int | Open nat int | Close nat int | Op nat int int

fun sem_spec :: "sems \<Rightarrow> scmd \<Rightarrow> sems \<times> bool" where
  "sem_spec A (Create p k v) = (case A k of None \<Rightarrow> (A(k \<mapsto> (v, 1)), True) | Some (w, u) \<Rightarrow> (A(k \<mapsto> (w, Suc u)), True))"
| "sem_spec A (Open p k) = (case A k of None \<Rightarrow> (A, False) | Some (w, u) \<Rightarrow> (A(k \<mapsto> (w, Suc u)), True))"
| "sem_spec A (Close p k) = (case A k of None \<Rightarrow> (A, False) | Some (w, u) \<Rightarrow> (if u = 1 then A(k := None) else A(k \<mapsto> (w, u - 1)), True))"
| "sem_spec A (Op p k v) = (case A k of None \<Rightarrow> (A, False) | Some (w, u) \<Rightarrow> (A(k \<mapsto> (w + v, u)), True))"

text \<open>Keys are valid, values stay in range, an operation need not wait, and the users can be counted.\<close>

fun sem_pre :: "sems \<Rightarrow> scmd \<Rightarrow> bool" where
  "sem_pre A (Create p k v) \<longleftrightarrow> k \<noteq> 0 \<and> k \<noteq> -1 \<and> 0 \<le> v \<and> v \<le> SEMVMX \<and> (\<forall>w u. A k = Some (w, u) \<longrightarrow> int u + 1 < BIGCOUNT)"
| "sem_pre A (Open p k) \<longleftrightarrow> k \<noteq> 0 \<and> k \<noteq> -1 \<and> (\<forall>w u. A k = Some (w, u) \<longrightarrow> int u + 1 < BIGCOUNT)"
| "sem_pre A (Close p k) \<longleftrightarrow> A k \<noteq> None"
| "sem_pre A (Op p k v) \<longleftrightarrow> v \<noteq> 0 \<and> \<bar>v\<bar> \<le> SEMVMX \<and> (\<exists>w u. A k = Some (w, u) \<and> 0 \<le> w + v \<and> w + v \<le> SEMVMX)"

text \<open>A caller names the semaphore by its key; it holds the identifier that \<^verbatim>\<open>sem_create\<close> returned.\<close>

definition with_id :: "int \<Rightarrow> (nat \<Rightarrow> semk \<Rightarrow> sem_err + semk) \<Rightarrow> semk \<Rightarrow> sem_err + semk \<times> bool" where
  "with_id k f K = (case keyid K k of None \<Rightarrow> Inl (Err_sys ''no semaphore'') | Some sid \<Rightarrow> bindR (f sid K) (\<lambda>K. Inr (K, True)))"

fun sem_step :: "semk \<Rightarrow> scmd \<Rightarrow> sem_err + semk \<times> bool" where
  "sem_step K (Create p k v) = bindR (sem_create True 0 p k v K) (\<lambda>(K, r). Inr (K, 0 \<le> r))"
| "sem_step K (Open p k) = bindR (sem_open p k K) (\<lambda>(K, r). Inr (K, 0 \<le> r))"
| "sem_step K (Close p k) = with_id k (sem_close p) K"
| "sem_step K (Op p k v) = with_id k (\<lambda>sid. sem_op p sid v) K"

section \<open>Representation\<close>

definition set_ok :: "semset \<Rightarrow> int \<Rightarrow> nat \<Rightarrow> bool" where
  "set_ok st v u \<longleftrightarrow> sval st 0 = v \<and> sval st 1 = BIGCOUNT - int u \<and> sval st 2 = 0 \<and> 0 < u \<and> int u < BIGCOUNT"

fun key_ok :: "semk \<Rightarrow> int \<Rightarrow> (int \<times> nat) option \<Rightarrow> bool" where
  "key_ok K k None \<longleftrightarrow> keyid K k = None"
| "key_ok K k (Some (v, u)) \<longleftrightarrow> (\<exists>sid st. keyid K k = Some sid \<and> sets K sid = Some st \<and> set_ok st v u)"

definition ids_ok :: "semk \<Rightarrow> bool" where
  "ids_ok K \<longleftrightarrow> (\<forall>k l sid. keyid K k = Some sid \<longrightarrow> keyid K l = Some sid \<longrightarrow> k = l) \<and> (\<forall>k sid. keyid K k = Some sid \<longrightarrow> sid < nextid K)"

definition sem_rep :: "semk \<Rightarrow> sems \<Rightarrow> bool" where
  "sem_rep K A \<longleftrightarrow> (\<forall>k. key_ok K k (A k)) \<and> ids_ok K"

lemma key_ok_cong:
  assumes "key_ok K k p" "keyid K' k = keyid K k" "\<And>sid. keyid K k = Some sid \<Longrightarrow> sets K' sid = sets K sid"
  shows "key_ok K' k p"
  using assms by (cases "(K, k, p)" rule: key_ok.cases) auto

lemma ids_ok_inj: "ids_ok K \<Longrightarrow> keyid K k = Some sid \<Longrightarrow> keyid K l = Some sid \<Longrightarrow> l = k"
  unfolding ids_ok_def by blast

lemma ids_ok_fresh: "ids_ok K \<Longrightarrow> keyid K k \<noteq> Some (nextid K)"
  unfolding ids_ok_def by blast

lemma sem_rep_Some:
  assumes "sem_rep K A" "A k = Some (v, u)"
  obtains sid st where "keyid K k = Some sid" "sets K sid = Some st" "set_ok st v u"
proof -
  have "key_ok K k (Some (v, u))" using assms unfolding sem_rep_def by metis
  then show thesis using that by auto
qed

lemma sem_rep_None: "sem_rep K A \<Longrightarrow> A k = None \<Longrightarrow> keyid K k = None"
  unfolding sem_rep_def by (metis key_ok.simps(1))

lemma sem_rep_upd:
  assumes R: "sem_rep K A" and k: "keyid K k = Some sid" and st: "set_ok st v u"
  shows "sem_rep (K\<lparr>sets := (sets K)(sid \<mapsto> st)\<rparr>) (A(k \<mapsto> (v, u)))"
proof -
  have ids: "ids_ok K" and keys: "key_ok K l (A l)" for l using R by (auto simp: sem_rep_def)
  have "key_ok (K\<lparr>sets := (sets K)(sid \<mapsto> st)\<rparr>) l (A l)" if "l \<noteq> k" for l
    using ids_ok_inj [OF ids k, of l] that by (intro key_ok_cong [OF keys]) auto
  then show ?thesis using ids k st by (simp add: sem_rep_def ids_ok_def)
qed

lemma sem_rep_rm:
  assumes R: "sem_rep K A" and k: "keyid K k = Some sid"
  shows "sem_rep (K\<lparr>sets := (sets K)(sid := None), keyid := (\<lambda>l. if keyid K l = Some sid then None else keyid K l)\<rparr>) (A(k := None))"
    (is "sem_rep ?K _")
proof -
  have ids: "ids_ok K" and keys: "key_ok K l (A l)" for l using R by (auto simp: sem_rep_def)
  have "key_ok ?K l (A l)" if "l \<noteq> k" for l
    using ids_ok_inj [OF ids k, of l] that by (intro key_ok_cong [OF keys]) auto
  moreover have "ids_ok ?K" using ids by (simp add: ids_ok_def)
  ultimately show ?thesis using k by (simp add: sem_rep_def)
qed

text \<open>A set that was just made for a new key.\<close>

lemma sem_rep_new:
  assumes R: "sem_rep K A" and k: "A k = None" and st: "set_ok st v u"
  shows "sem_rep \<lparr>sets = (sets K)(nextid K \<mapsto> st), keyid = (keyid K)(k \<mapsto> nextid K), nextid = Suc (nextid K)\<rparr> (A(k \<mapsto> (v, u)))"
    (is "sem_rep ?K _")
proof -
  have ids: "ids_ok K" and keys: "key_ok K l (A l)" for l using R by (auto simp: sem_rep_def)
  have "key_ok ?K l (A l)" if "l \<noteq> k" for l
    using ids_ok_fresh [OF ids, of l] that by (intro key_ok_cong [OF keys]) auto
  moreover have "ids_ok ?K" using ids ids_ok_fresh [OF ids] by (auto simp: ids_ok_def less_Suc_eq)
  ultimately show ?thesis using st by (simp add: sem_rep_def)
qed

section \<open>The calls on one set\<close>

lemmas semop_simps = semop_def semop_or_def or_sys_def getval_def setval_def rmid_def op_lock_def op_endcreate_def op_open_def op_close_def
  op_unlock_def BIGCOUNT_def SEMVMX_def set_ok_def

lemma semop_or_ok:
  assumes "sets K sid = Some st" "\<exists>st'. apply_ops p bs st = Kok st' \<and> Q st'"
  shows "\<exists>st'. semop_or w p sid bs K = Inr (K\<lparr>sets := (sets K)(sid \<mapsto> st')\<rparr>) \<and> Q st'"
  using assms by (auto simp: semop_or_def semop_def)

lemma open_set:
  assumes "sets K sid = Some st" "set_ok st v u" "int u + 1 < BIGCOUNT"
  shows "\<exists>st'. semop_or w p sid op_open K = Inr (K\<lparr>sets := (sets K)(sid \<mapsto> st')\<rparr>) \<and> set_ok st' v (Suc u)"
  using assms by (intro semop_or_ok [OF assms(1)]) (simp add: semop_simps)

lemma short_of_id: "\<bar>x\<bar> \<le> SEMVMX \<Longrightarrow> short_of x = x"
  unfolding short_of_def SEMVMX_def by (subst mod_pos_pos_trivial) auto

lemma op_set:
  assumes "sets K sid = Some st" "set_ok st v u" "x \<noteq> 0" "\<bar>x\<bar> \<le> SEMVMX" "0 \<le> v + x" "v + x \<le> SEMVMX"
  shows "\<exists>st'. sem_op p sid x K = Inr (K\<lparr>sets := (sets K)(sid \<mapsto> st')\<rparr>) \<and> set_ok st' (v + x) u"
  using semop_or_ok [OF assms(1), of p "[(0, x, True)]" "\<lambda>s. set_ok s (v + x) u"] assms
  by (simp add: sem_op_def short_of_id semop_simps(10-))

text \<open>After the lock and the counter have moved, the rest of \<^verbatim>\<open>sem_close\<close> depends on the counter alone.\<close>

lemma close_set:
  assumes "sets K sid = Some st" "set_ok st v u"
  shows "if u = 1 then sem_close p sid K = Inr (K\<lparr>sets := (sets K)(sid := None), keyid := (\<lambda>l. if keyid K l = Some sid then None else keyid K l)\<rparr>)
    else \<exists>st'. sem_close p sid K = Inr (K\<lparr>sets := (sets K)(sid \<mapsto> st')\<rparr>) \<and> set_ok st' v (u - 1)"
proof -
  obtain s1 where s1: "semop_or ''can't semop'' p sid op_close K = Inr (K\<lparr>sets := (sets K)(sid \<mapsto> s1)\<rparr>)"
    "sval s1 0 = v" "sval s1 1 = BIGCOUNT - int u + 1" "sval s1 2 = 1"
    using semop_or_ok [OF assms(1), of p op_close "\<lambda>s. sval s 0 = v \<and> sval s 1 = BIGCOUNT - int u + 1 \<and> sval s 2 = 1" "''can't semop''"]
      assms(2) by (auto simp: op_close_def set_ok_def BIGCOUNT_def SEMVMX_def)
  obtain s2 where s2: "apply_ops p op_unlock s1 = Kok s2" "sval s2 0 = v" "sval s2 1 = BIGCOUNT - int u + 1" "sval s2 2 = 0"
    using s1(2-) by (simp add: op_unlock_def SEMVMX_def)
  have "0 < u" "int u < BIGCOUNT" using assms(2) by (auto simp: set_ok_def)
  then show ?thesis using s1 s2
    by (cases "u = 1") (auto simp: sem_close_def close_begin_def close_end_def sem_rm_def semop_or_def semop_def or_sys_def getval_def rmid_def set_ok_def
      cong: if_cong intro!: exI [of _ s2])
qed

text \<open>The initialised set between the two calls to \<^verbatim>\<open>semop\<close> of \<^verbatim>\<open>sem_create\<close>.\<close>

lemma endcreate_set:
  assumes "sets K sid = Some st" "sval st 0 = v" "sval st 1 = BIGCOUNT - int u" "sval st 2 = 1" "int u + 1 < BIGCOUNT"
  shows "\<exists>st'. semop_or w p sid op_endcreate K = Inr (K\<lparr>sets := (sets K)(sid \<mapsto> st')\<rparr>) \<and> set_ok st' v (Suc u)"
  using assms by (intro semop_or_ok [OF assms(1)]) (simp add: op_endcreate_def set_ok_def BIGCOUNT_def SEMVMX_def)

lemma lock_set:
  assumes "sets K sid = Some st" "sval st 2 = 0"
  shows "\<exists>st'. semop_or w p sid op_lock K = Inr (K\<lparr>sets := (sets K)(sid \<mapsto> st')\<rparr>) \<and>
    sval st' 0 = sval st 0 \<and> sval st' 1 = sval st 1 \<and> sval st' 2 = 1"
  using assms by (intro semop_or_ok [OF assms(1)]) (simp add: op_lock_def SEMVMX_def)

lemma create_set_old:
  assumes s: "sets K sid = Some st" "set_ok st v u" and u: "int u + 1 < BIGCOUNT" and k: "keyid K k = Some sid"
  shows "\<exists>st'. create_again 0 p k x K = Inr (K\<lparr>sets := (sets K)(sid \<mapsto> st')\<rparr>, int sid) \<and> set_ok st' v (Suc u)"
proof -
  obtain s1 where s1: "semop_or ''can't lock'' p sid op_lock K = Inr (K\<lparr>sets := (sets K)(sid \<mapsto> s1)\<rparr>)"
    "sval s1 0 = v" "sval s1 1 = BIGCOUNT - int u" "sval s1 2 = 1"
    using lock_set [OF s(1), of "''can't lock''" p] s(2) by (auto simp: set_ok_def)
  obtain s2 where "semop_or ''can't end create'' p sid op_endcreate (K\<lparr>sets := (sets K)(sid \<mapsto> s1)\<rparr>) = Inr (K\<lparr>sets := (sets K)(sid \<mapsto> s2)\<rparr>)"
    "set_ok s2 v (Suc u)"
    using endcreate_set [of "K\<lparr>sets := (sets K)(sid \<mapsto> s1)\<rparr>" sid s1 v u "''can't end create''" p] s1 u by auto
  then show ?thesis using s1 k u by (auto simp: semget_creat_def create_locked_def or_sys_def getval_def)
qed

lemma create_set_new:
  assumes k: "keyid K k = None" and x: "0 \<le> x" "x \<le> SEMVMX"
  shows "\<exists>st'. create_again 0 p k x K = Inr (\<lparr>sets = (sets K)(nextid K \<mapsto> st'), keyid = (keyid K)(k \<mapsto> nextid K), nextid = Suc (nextid K)\<rparr>,
    int (nextid K)) \<and> set_ok st' x 1"
proof -
  define K0 where "K0 st = \<lparr>sets = (sets K)(nextid K \<mapsto> st), keyid = (keyid K)(k \<mapsto> nextid K), nextid = Suc (nextid K)\<rparr>" for st
  define st0 where "st0 = \<lparr>sval = (\<lambda>_. 0), sadj = (\<lambda>_ _. 0)\<rparr>"
  have K0: "sets (K0 st) (nextid K) = Some st" "K0 st\<lparr>sets := (sets (K0 st))(nextid K \<mapsto> st')\<rparr> = K0 st'" for st st' by (simp_all add: K0_def)
  obtain s1 where s1: "semop_or ''can't lock'' p (nextid K) op_lock (K0 st0) = Inr (K0 s1)" "sval s1 0 = 0" "sval s1 1 = 0" "sval s1 2 = 1"
    using lock_set [of "K0 st0" "nextid K" st0 "''can't lock''" p] by (auto simp: K0) (auto simp: st0_def)
  obtain s2 where s2: "bindR (or_sys ''can SETVAL[0]'' (setval (nextid K) 0 x (K0 s1)))
      (\<lambda>K'. or_sys ''can SETVAL[1]'' (setval (nextid K) 1 BIGCOUNT K')) = Inr (K0 s2)"
    "sval s2 0 = x" "sval s2 1 = BIGCOUNT" "sval s2 2 = 1"
    using s1(4) x by (simp add: setval_def K0 or_sys_def BIGCOUNT_def SEMVMX_def)
  obtain s3 where "semop_or ''can't end create'' p (nextid K) op_endcreate (K0 s2) = Inr (K0 s3)" "set_ok s3 x 1"
    using endcreate_set [of "K0 s2" "nextid K" s2 x 0 "''can't end create''" p] s2 by (auto simp: K0 BIGCOUNT_def)
  then show ?thesis using s1 s2 k
    by (auto simp: semget_creat_def create_locked_def or_sys_def getval_def K0 simp flip: K0_def st0_def)
qed

section \<open>The refinement\<close>

lemma sem_step_sim:
  assumes R: "sem_rep K A" and pre: "sem_pre A c"
  shows "\<exists>K'. sem_step K c = Inr (K', snd (sem_spec A c)) \<and> sem_rep K' (fst (sem_spec A c))"
proof (cases c)
  case (Create p k x)
  show ?thesis
  proof (cases "A k")
    case None
    obtain st where "create_again 0 p k x K = Inr (\<lparr>sets = (sets K)(nextid K \<mapsto> st), keyid = (keyid K)(k \<mapsto> nextid K), nextid = Suc (nextid K)\<rparr>,
      int (nextid K))" "set_ok st x 1"
      using create_set_new [OF sem_rep_None [OF R None], of x p] pre Create by auto
    then show ?thesis using sem_rep_new [OF R None] pre Create None by (simp add: sem_create_def)
  next
    case (Some vu)
    obtain v u where vu: "vu = (v, u)" by (cases vu)
    obtain sid st where s: "keyid K k = Some sid" "sets K sid = Some st" "set_ok st v u"
      using sem_rep_Some [OF R] Some vu by blast
    obtain st' where "create_again 0 p k x K = Inr (K\<lparr>sets := (sets K)(sid \<mapsto> st')\<rparr>, int sid)" "set_ok st' v (Suc u)"
      using create_set_old [OF s(2,3) _ s(1), of p x] pre Create Some vu by auto
    then show ?thesis using sem_rep_upd [OF R s(1)] pre Create Some vu by (simp add: sem_create_def)
  qed
next
  case (Open p k)
  show ?thesis
  proof (cases "A k")
    case None
    then show ?thesis using sem_rep_None [OF R None] R pre Open by (simp add: sem_open_def)
  next
    case (Some vu)
    obtain v u where vu: "vu = (v, u)" by (cases vu)
    obtain sid st where s: "keyid K k = Some sid" "sets K sid = Some st" "set_ok st v u"
      using sem_rep_Some [OF R] Some vu by blast
    obtain st' where "semop_or ''can't open'' p sid op_open K = Inr (K\<lparr>sets := (sets K)(sid \<mapsto> st')\<rparr>)" "set_ok st' v (Suc u)"
      using open_set [OF s(2,3), of "''can't open''" p] pre Open Some vu by auto
    then show ?thesis using sem_rep_upd [OF R s(1)] pre Open Some vu s(1) by (simp add: sem_open_def)
  qed
next
  case (Close p k)
  then obtain v u where vu: "A k = Some (v, u)" using pre by auto
  obtain sid st where s: "keyid K k = Some sid" "sets K sid = Some st" "set_ok st v u" using sem_rep_Some [OF R vu] .
  show ?thesis
  proof (cases "u = 1")
    case True
    then show ?thesis using close_set [OF s(2,3), of p] sem_rep_rm [OF R s(1)] Close vu s(1) by (simp add: with_id_def)
  next
    case False
    then show ?thesis using close_set [OF s(2,3), of p] sem_rep_upd [OF R s(1)] Close vu s(1) by (auto simp: with_id_def)
  qed
next
  case (Op p k x)
  then obtain v u where vu: "A k = Some (v, u)" "0 \<le> v + x" "v + x \<le> SEMVMX" "x \<noteq> 0" "\<bar>x\<bar> \<le> SEMVMX" using pre by auto
  obtain sid st where s: "keyid K k = Some sid" "sets K sid = Some st" "set_ok st v u" using sem_rep_Some [OF R vu(1)] .
  show ?thesis using op_set [OF s(2,3) vu(4,5,2,3), of p] sem_rep_upd [OF R s(1)] Op vu s(1) by (auto simp: with_id_def)
qed

interpretation sm: data_refinement sem_rep sem_step sem_spec sem_pre
  by unfold_locales (rule sem_step_sim)

text \<open>
  C13: A library call behaves like the call of the specification, in every sequence of calls that do
  not overlap: \<^verbatim>\<open>sem_create\<close> initialises a semaphore once and counts its users, \<^verbatim>\<open>sem_open\<close> finds existing
  ones only, \<^verbatim>\<open>sem_op\<close> adds to the value, \<^verbatim>\<open>sem_close\<close> removes the semaphore with its last user, and no
  call fails.
\<close>

theorem sem_run_refines:
  assumes "sem_rep K A" "all_pre sem_spec sem_pre A cs"
  shows "\<exists>K'. run sem_step K cs = Inr (K', snd (spec_run sem_spec A cs)) \<and> sem_rep K' (fst (spec_run sem_spec A cs))"
  using assms by (rule sm.run_refines)

definition no_sems :: semk where "no_sems = \<lparr>sets = Map.empty, keyid = Map.empty, nextid = 0\<rparr>"

lemma no_sems_rep: "sem_rep no_sems Map.empty"
  by (simp add: sem_rep_def ids_ok_def no_sems_def)

definition sem_script :: "scmd list" where
  "sem_script = [Create 1 7 2, Open 2 7, Op 1 7 (-2), Close 1 7, Op 2 7 1, Close 2 7, Open 3 7]"

theorem sem_run_refines_witness:
  "\<exists>K'. run sem_step no_sems sem_script = Inr (K', [True, True, True, True, True, True, False]) \<and> sem_rep K' Map.empty"
proof -
  have "all_pre sem_spec sem_pre Map.empty sem_script" by (simp add: sem_script_def SEMVMX_def BIGCOUNT_def)
  moreover have "spec_run sem_spec Map.empty sem_script = (Map.empty, [True, True, True, True, True, True, False])"
    by (simp add: sem_script_def)
  ultimately show ?thesis using sem_run_refines [OF no_sems_rep, of sem_script] by simp
qed

section \<open>Creation while others remove the set\<close>

lemma steal_once:
  assumes R: "sem_rep K A"
  shows "\<exists>K'. create_again (Suc n) p k x K = create_again n p k x K' \<and> sem_rep K' (A(k := None))"
proof (cases "A k")
  case None
  have k: "keyid K k = None" using sem_rep_None [OF R None] .
  have ids: "ids_ok K" and keys: "key_ok K l (A l)" for l using R by (auto simp: sem_rep_def)
  let ?K = "\<lparr>sets = (sets K)(nextid K := None), keyid = keyid K, nextid = Suc (nextid K)\<rparr>"
  have "(\<lambda>l. if ((keyid K)(k \<mapsto> nextid K)) l = Some (nextid K) then None else ((keyid K)(k \<mapsto> nextid K)) l) = keyid K"
    using k ids_ok_fresh [OF ids] by auto
  then have "create_again (Suc n) p k x K = create_again n p k x ?K"
    using k by (simp add: semget_creat_def rmid_def semop_def cong: if_cong)
  moreover have "key_ok ?K l (A l)" for l
    using ids_ok_fresh [OF ids, of l] by (intro key_ok_cong [OF keys]) auto
  moreover have "ids_ok ?K" using ids by (auto simp: ids_ok_def less_Suc_eq)
  moreover have "A(k := None) = A" using None by auto
  ultimately show ?thesis by (auto simp: sem_rep_def)
next
  case (Some vu)
  obtain v u where vu: "vu = (v, u)" by (cases vu)
  obtain sid st where s: "keyid K k = Some sid" "sets K sid = Some st" using sem_rep_Some [OF R] Some vu by blast
  show ?thesis using sem_rep_rm [OF R s(1)] s by (auto simp: semget_creat_def rmid_def semop_def)
qed

lemma create_again_new:
  assumes "sem_rep K A" "A k = None" "0 \<le> x" "x \<le> SEMVMX"
  shows "\<exists>K' sid. create_again n p k x K = Inr (K', int sid) \<and> keyid K' k = Some sid \<and> sem_rep K' (A(k \<mapsto> (x, 1)))"
  using assms(1,2)
proof (induction n arbitrary: K)
  case 0
  obtain st where "create_again 0 p k x K = Inr (\<lparr>sets = (sets K)(nextid K \<mapsto> st), keyid = (keyid K)(k \<mapsto> nextid K), nextid = Suc (nextid K)\<rparr>,
      int (nextid K))" "set_ok st x 1"
    using create_set_new [OF sem_rep_None [OF 0] assms(3,4), of p] by auto
  then show ?case using sem_rep_new [OF 0, of st x 1] by (auto simp: fun_upd_def)
next
  case (Suc n)
  have "A(k := None) = A" using Suc.prems(2) by auto
  then show ?case using steal_once [OF Suc.prems(1), of n p k x] Suc.IH [OF _ Suc.prems(2)] by auto
qed

text \<open>
  C14: However often the set is removed between \<^verbatim>\<open>semget\<close> and \<^verbatim>\<open>semop\<close>, \<^verbatim>\<open>sem_create\<close> returns: it goes back
  on \<^verbatim>\<open>EINVAL\<close>, and ends with the key bound to a semaphore of the given initial value with one user.
\<close>

theorem sem_create_retry:
  assumes "sem_rep K A" "k \<noteq> 0" "k \<noteq> -1" "0 \<le> x" "x \<le> SEMVMX"
  shows "\<exists>K' sid. sem_create True (Suc n) p k x K = Inr (K', int sid) \<and> keyid K' k = Some sid \<and> sem_rep K' (A(k \<mapsto> (x, 1)))"
proof -
  obtain K1 where K1: "create_again (Suc n) p k x K = create_again n p k x K1" "sem_rep K1 (A(k := None))"
    using steal_once [OF assms(1)] by blast
  show ?thesis using create_again_new [OF K1(2) _ assms(4,5), of k n p] K1(1) assms(2,3) by (simp add: sem_create_def)
qed

theorem sem_create_retry_witness:
  "\<exists>K' sid. sem_create True 3 1 7 2 no_sems = Inr (K', int sid) \<and> keyid K' 7 = Some sid \<and> sem_rep K' [7 \<mapsto> (2, 1)]"
  using sem_create_retry [OF no_sems_rep, of 7 2 2 1] by (simp add: SEMVMX_def)

section \<open>Exit without closing\<close>

text \<open>Calls of \<^verbatim>\<open>sem_op\<close> on one set by several processes, in the order they happen.\<close>

fun sem_ops :: "nat \<Rightarrow> (nat \<times> int) list \<Rightarrow> semk \<Rightarrow> sem_err + semk" where
  "sem_ops sid [] K = Inr K"
| "sem_ops sid ((q, v) # cs) K = bindR (sem_op q sid v K) (sem_ops sid cs)"

fun others :: "nat \<Rightarrow> (nat \<times> int) list \<Rightarrow> int" where
  "others p [] = 0"
| "others p ((q, v) # cs) = (if q = p then 0 else short_of v) + others p cs"

lemma sem_op_Inr:
  assumes "sem_op q sid v K = Inr K'" "sets K sid = Some st"
  shows "sets K' sid = Some (st\<lparr>sval := (sval st)(0 := sval st 0 + short_of v),
      sadj := (sadj st)(q := (sadj st q)(0 := sadj st q 0 - short_of v))\<rparr>) \<and> 0 \<le> sval st 0 + short_of v"
  using assms by (auto simp: sem_op_def semop_or_def semop_def split: if_splits kres.splits)

lemma sem_ops_balance:
  assumes "sem_ops sid cs K = Inr K'" "sets K sid = Some st"
  shows "\<exists>st'. sets K' sid = Some st' \<and> sval st' 0 + sadj st' p 0 = sval st 0 + sadj st p 0 + others p cs \<and>
    (\<forall>n. n \<noteq> 0 \<longrightarrow> sval st' n = sval st n \<and> sadj st' p n = sadj st p n)"
  using assms
proof (induction cs arbitrary: K st)
  case (Cons c cs)
  obtain q v where c: "c = (q, v)" by (cases c)
  obtain K1 where K1: "sem_op q sid v K = Inr K1" "sem_ops sid cs K1 = Inr K'"
    using Cons.prems(1) c by (cases "sem_op q sid v K") auto
  from Cons.IH [OF K1(2) conjunct1 [OF sem_op_Inr [OF K1(1) Cons.prems(2)]]] show ?case using c by auto
qed auto

text \<open>
  A process that opens the semaphore and exits without closing it leaves no trace: whatever it
  and others did with \<^verbatim>\<open>sem_op\<close> in between, the counter of users is what it was, and the value is the
  old one changed by the other processes' amounts only (not below zero).
\<close>

theorem sem_undo:
  assumes "keyid K k = Some sid" "sets K sid = Some st" "\<And>n. sadj st p n = 0" "0 \<le> sval st 1" "sem_open p k K = Inr (K1, int sid)"
    "sem_ops sid cs K1 = Inr K2"
  shows "\<exists>st'. sets (proc_exit p K2) sid = Some st' \<and> sval st' 0 = max 0 (sval st 0 + others p cs) \<and> sval st' 1 = sval st 1"
proof -
  obtain s1 where s1: "sets K1 sid = Some s1" "sval s1 0 = sval st 0" "sadj s1 p 0 = 0" "sval s1 1 + sadj s1 p 1 = sval st 1"
    using assms(1-5) by (auto simp: sem_open_def semop_or_def semop_def op_open_def split: if_splits kres.splits)
  show ?thesis using sem_ops_balance [OF assms(6) s1(1), of p] s1 assms(4) by (auto simp: proc_exit_def exit_set_def)
qed

definition one_user :: semset where
  "one_user = \<lparr>sval = (\<lambda>_. 0)(0 := 2, 1 := BIGCOUNT - 1), sadj = (\<lambda>_ _. 0)(1 := (\<lambda>_. 0)(1 := 1))\<rparr>"

definition one_sem :: semk where "one_sem = \<lparr>sets = [0 \<mapsto> one_user], keyid = [7 \<mapsto> 0], nextid = 1\<rparr>"

text \<open>Process 2 opens it, takes 1, process 1 takes 1 and gives 3, process 2 takes 1 more and exits.\<close>

theorem sem_undo_witness:
  "\<exists>K1 K2 st'. sem_open 2 7 one_sem = Inr (K1, 0) \<and> sem_ops 0 [(2, -1), (1, -1), (1, 3), (2, -1)] K1 = Inr K2 \<and>
    sets (proc_exit 2 K2) 0 = Some st' \<and> sval st' 0 = 4 \<and> sval st' 1 = BIGCOUNT - 1"
proof -
  obtain K1 where K1: "sem_open 2 7 one_sem = Inr (K1, 0)" "sets K1 0 \<noteq> None" "map_option (\<lambda>s. sval s 0) (sets K1 0) = Some 2"
    by (simp add: sem_open_def one_sem_def one_user_def semop_or_def semop_def op_open_def BIGCOUNT_def SEMVMX_def)
  obtain s1 where s1: "sets K1 0 = Some s1" "sval s1 0 = 2" using K1 by auto
  obtain K2 where K2: "sem_ops 0 [(2, -1), (1, -1), (1, 3), (2, -1)] K1 = Inr K2"
    using s1 by (simp add: sem_op_def semop_or_def semop_def short_of_def SEMVMX_def)
  have "\<exists>st'. sets (proc_exit 2 K2) 0 = Some st' \<and> sval st' 0 = max 0 (sval one_user 0 + others 2 [(2, -1), (1, -1), (1, 3), (2, -1)]) \<and>
      sval st' 1 = sval one_user 1"
    using K1 by (intro sem_undo [OF _ _ _ _ _ K2, where k = 7 and K = one_sem]) (simp_all add: one_sem_def one_user_def BIGCOUNT_def)
  then show ?thesis using K1 K2 by (auto simp: one_user_def short_of_def)
qed

section \<open>The race of close and open\<close>

text \<open>
  When the last user closes the semaphore, another process can open it between the reading of
  the counter and the removal: \<^verbatim>\<open>sem_open\<close> takes no lock, succeeds and returns the identifier, the set is
  then removed under the new user, and its next \<^verbatim>\<open>sem_wait\<close> ends the program with an error.
\<close>

theorem sem_close_race:
  assumes "keyid K k = Some sid" "sets K sid = Some st" "set_ok st v 1" "k \<noteq> 0" "k \<noteq> -1"
  shows "\<exists>K1 K2 K3. close_begin p sid K = Inr (K1, BIGCOUNT) \<and> sem_open q k K1 = Inr (K2, int sid) \<and>
    close_end p sid BIGCOUNT K2 = Inr K3 \<and> sem_wait q sid K3 = Inl (Err_sys ''sem_op error'')"
proof -
  obtain s1 where s1: "semop_or ''can't semop'' p sid op_close K = Inr (K\<lparr>sets := (sets K)(sid \<mapsto> s1)\<rparr>)" "sval s1 1 = BIGCOUNT"
    using semop_or_ok [OF assms(2), of p op_close "\<lambda>s. sval s 1 = BIGCOUNT" "''can't semop''"] assms(3)
    by (auto simp: op_close_def set_ok_def BIGCOUNT_def SEMVMX_def)
  obtain K2 where K2: "sem_open q k (K\<lparr>sets := (sets K)(sid \<mapsto> s1)\<rparr>) = Inr (K2, int sid)" "sets K2 sid \<noteq> None"
    using s1(2) assms by (simp add: sem_open_def semop_or_def semop_def op_open_def BIGCOUNT_def SEMVMX_def)
  have "short_of (-1) \<noteq> 0" by (simp add: short_of_def)
  then show ?thesis using s1 K2
    by (auto simp: close_begin_def close_end_def sem_rm_def or_sys_def getval_def rmid_def sem_wait_def sem_op_def semop_or_def semop_def)
qed

theorem sem_close_race_witness:
  "\<exists>K1 K2 K3. close_begin 1 0 one_sem = Inr (K1, BIGCOUNT) \<and> sem_open 2 7 K1 = Inr (K2, 0) \<and>
    close_end 1 0 BIGCOUNT K2 = Inr K3 \<and> sem_wait 2 0 K3 = Inl (Err_sys ''sem_op error'')"
  using sem_close_race [of one_sem 7 0 one_user 2 1 2] by (simp add: one_sem_def one_user_def set_ok_def BIGCOUNT_def)

end
