(* ===== verification/Open_Server.thy ===== *)
theory Open_Server
  imports Io Refinement
begin

text \<open>
  The open server of \<^verbatim>\<open>apue/ipc2/opend\<close> and its client (\<^verbatim>\<open>ipc2/open/open.c\<close>): the table of clients, the handling
  of a request, one turn of the server's loop in its two versions (\<^verbatim>\<open>select\<close> and \<^verbatim>\<open>poll\<close>), and the protocol
  that passes a descriptor or an error over a stream (\<^verbatim>\<open>lib/sendfd.c\<close>, \<^verbatim>\<open>lib/senderr.c\<close>, \<^verbatim>\<open>lib/recvfd.c\<close>).
  Calls that end the process are error values.
\<close>

datatype sv_err = Fatal string | Dump string | Undefined string

definition MAXLINE :: nat where "MAXLINE = 4096"

section \<open>The table of clients\<close>

text \<open>An entry is a descriptor (-1: available) and a user; the empty list is the null pointer.\<close>

type_synonym client_tab = "(int \<times> int) list"

definition NALLOC :: nat where "NALLOC = 10"

text \<open>What \<^verbatim>\<open>malloc\<close> does: whether it succeeds, and what fresh memory contains.\<close>

record amem =
  a_ok :: bool
  a_junk :: "nat \<Rightarrow> int"

definition client_alloc :: "amem \<Rightarrow> client_tab \<Rightarrow> sv_err + client_tab" where
  "client_alloc M client = (if \<not> a_ok M then Inl (Fatal ''can't alloc for client array'')
     else Inr (client @ map (\<lambda>i. (-1, a_junk M i)) [0..<NALLOC]))"

text \<open>The loop over the table: the index of the first entry with the descriptor.\<close>

fun client_slot :: "int \<Rightarrow> nat \<Rightarrow> client_tab \<Rightarrow> nat option" where
  "client_slot fd i [] = None"
| "client_slot fd i (c # cs) = (if fst c = fd then Some i else client_slot fd (Suc i) cs)"

lemma client_slot_append: "client_slot fd i (cs @ ds) = (case client_slot fd i cs of Some j \<Rightarrow> Some j | None \<Rightarrow> client_slot fd (i + length cs) ds)"
  by (induction cs arbitrary: i) (auto split: option.splits)

lemma client_slot_alloc: "client_alloc M cs = Inr cs' \<Longrightarrow> client_slot (-1) 0 cs' \<noteq> None"
  by (auto simp: client_alloc_def client_slot_append NALLOC_def upt_rec split: if_splits option.splits)

text \<open>From \<^verbatim>\<open>again\<close> on: a full table is enlarged and searched once more.\<close>

function add_again :: "amem \<Rightarrow> int \<Rightarrow> int \<Rightarrow> client_tab \<Rightarrow> sv_err + client_tab \<times> nat" where
  "add_again M fd uid client = (case client_slot (-1) 0 client of
      Some i \<Rightarrow> Inr (client[i := (fd, uid)], i)
    | None \<Rightarrow> bindR (client_alloc M client) (add_again M fd uid))"
  by pat_completeness auto
termination
  by (relation "measure (\<lambda>(M, fd, uid, cs). if client_slot (-1) 0 cs = None then 1 else 0)")
    (auto dest: client_slot_alloc)

declare add_again.simps [simp del]

definition client_add :: "amem \<Rightarrow> int \<Rightarrow> int \<Rightarrow> client_tab \<Rightarrow> sv_err + client_tab \<times> nat" where
  "client_add M fd uid client =
     bindR (if client = [] then client_alloc M client else Inr client) (add_again M fd uid)"

definition client_del :: "int \<Rightarrow> client_tab \<Rightarrow> sv_err + client_tab" where
  "client_del fd client = (case client_slot fd 0 client of
      Some i \<Rightarrow> Inr (client[i := (-1, snd (client ! i))])
    | None \<Rightarrow> Inl (Fatal ''can't find client entry''))"

section \<open>Passing descriptors\<close>

text \<open>What one call sends on the stream: bytes, and a descriptor beside them.\<close>

type_synonym sent = "string \<times> int option"

text \<open>\<open>mem\<close>: whether the control buffer can be allocated; \<open>sm\<close>: what \<^verbatim>\<open>sendmsg\<close> returns.\<close>

definition send_fd :: "bool \<Rightarrow> int \<Rightarrow> int \<Rightarrow> sent list \<times> int" where
  "send_fd mem sm fd_to_send =
    (if fd_to_send < 0 then
       let st = char_of (nat ((- fd_to_send) mod 256)); st = (if st = NUL then CHR 0x01 else st) in
       if sm \<noteq> 2 then ([], -1) else ([([NUL, st], None)], 0)
     else if \<not> mem then ([], -1)
     else if sm \<noteq> 2 then ([], -1) else ([([NUL, NUL], Some fd_to_send)], 0))"

definition send_err :: "bool \<Rightarrow> int \<Rightarrow> int list \<Rightarrow> int \<Rightarrow> string \<Rightarrow> sent list \<times> int" where
  "send_err mem sm ws errcode msg =
    (case (if msg \<noteq> [] then writen msg ws else (ws, 0, [])) of (_, n, out) \<Rightarrow>
       if n \<noteq> int (length msg) then ([(out, None)], -1)
       else let errcode = (if errcode \<ge> 0 then -1 else errcode) in
         case send_fd mem sm errcode of (s, r) \<Rightarrow> ((out, None) # s, if r < 0 then -1 else 0))"

text \<open>
  What \<^verbatim>\<open>recvmsg\<close> delivers: bytes with a descriptor or without one, or an error; no more events is the
  end of the stream.
\<close>

datatype rmsg = Rmsg string "int option" | Rfail

text \<open>The search for the null byte: the status, the new descriptor and the number of bytes before.\<close>

definition recv_scan :: "string \<Rightarrow> int option \<Rightarrow> sv_err + (int \<times> int \<times> nat)" where
  "recv_scan buf ctl =
    (let k = length (takeWhile (\<lambda>c. c \<noteq> NUL) buf); nr = length buf in
     if k = nr then Inr (-1, 0, nr)
     else if k + 1 \<noteq> nr - 1 \<or> nr = 0 then Inl (Dump ''message format error'')
     else let status = of_char (buf ! (k + 1)) :: int in
       if status = 0 then (case ctl of None \<Rightarrow> Inl (Dump ''status = 0 but no fd'') | Some newfd \<Rightarrow> Inr (0, newfd, nr - 2))
       else Inr (status, - status, nr - 2))"

text \<open>\<open>uf\<close> is what the user function returns for the bytes it is given; \<open>out\<close> are the bytes given so far.\<close>

fun recv_fd :: "bool \<Rightarrow> (string \<Rightarrow> int) \<Rightarrow> rmsg list \<Rightarrow> string \<Rightarrow> sv_err + (string \<times> int)" where
  "recv_fd mem uf [] out = Inr (out, -1)"
| "recv_fd mem uf (Rfail # rs) out = Inr (out, -1)"
| "recv_fd mem uf (Rmsg buf ctl # rs) out =
    (if \<not> mem then Inr (out, -1)
     else if buf = [] then Inr (out, -1)
     else bindR (recv_scan buf ctl) (\<lambda>(status, newfd, nr).
       if nr > 0 \<and> uf (take nr buf) \<noteq> int nr then Inr (out @ take nr buf, -1)
       else if status \<ge> 0 then Inr (out @ take nr buf, newfd)
       else recv_fd mem uf rs (out @ take nr buf)))"

section \<open>Requests\<close>

record opend =
  errmsg :: string
  pathname :: string
  oflag :: int

definition CL_OPEN :: string where "CL_OPEN = ''open''"

definition cli_args :: "string list \<Rightarrow> opend \<Rightarrow> opend \<times> int" where
  "cli_args argv S =
    (if length argv \<noteq> 3 \<or> argv ! 0 \<noteq> CL_OPEN then (S\<lparr>errmsg := ''usage: <pathname> <oflag>'' @ [NEWLINE]\<rparr>, -1)
     else (S\<lparr>pathname := argv ! 1, oflag := atoi (argv ! 2)\<rparr>, 0))"

text \<open>\<^verbatim>\<open>snprintf(errmsg, n, ...)\<close> keeps at most \<open>n - 1\<close> characters.\<close>

definition snprintf :: "nat \<Rightarrow> string \<Rightarrow> string" where
  "snprintf n s = take (n - 1) s"

text \<open>The environment of a request: \<^verbatim>\<open>open\<close>, \<^verbatim>\<open>strerror(errno)\<close> when it fails, and the calls that send.\<close>

record henv =
  h_open :: "string \<Rightarrow> int \<Rightarrow> int"
  h_err :: string
  h_mem :: bool
  h_sm :: int
  h_ws :: "int list"

definition handle_request :: "henv \<Rightarrow> string \<Rightarrow> nat \<Rightarrow> int \<Rightarrow> opend \<Rightarrow> sv_err + (opend \<times> sent list)" where
  "handle_request E buf nread uid S =
    (if buf ! (nread - 1) \<noteq> NUL then
       let S = S\<lparr>errmsg := snprintf (MAXLINE - 1) (''request from uid '' @ show_int uid @ '' not null terminated: '' @
                 pad nread (c_str (take nread buf)) @ [NEWLINE])\<rparr>
       in Inr (S, fst (send_err (h_mem E) (h_sm E) (h_ws E) (-1) (errmsg S)))
     else
       case (case buf_argv (c_str buf) of None \<Rightarrow> (S, -1) | Some argv \<Rightarrow> cli_args argv S) of (S, r) \<Rightarrow>
       if r < 0 then Inr (S, fst (send_err (h_mem E) (h_sm E) (h_ws E) (-1) (errmsg S)))
       else let newfd = h_open E (pathname S) (oflag S) in
         if newfd < 0 then
           let S = S\<lparr>errmsg := snprintf (MAXLINE - 1) (''can't open '' @ pathname S @ '': '' @ h_err E @ [NEWLINE])\<rparr>
           in Inr (S, fst (send_err (h_mem E) (h_sm E) (h_ws E) (-1) (errmsg S)))
         else case send_fd (h_mem E) (h_sm E) newfd of (s, r) \<Rightarrow>
           if r < 0 then Inl (Fatal ''send_fd error'') else Inr (S, s))"

text \<open>
  How the loops get at a request: by one \<^verbatim>\<open>read\<close>, which returns what has arrived by then, at most
  \<^verbatim>\<open>MAXLINE\<close> bytes; the rest of a longer request stays in the stream.
\<close>

definition read_request :: "henv \<Rightarrow> string \<Rightarrow> int \<Rightarrow> opend \<Rightarrow> sv_err + (opend \<times> sent list)" where
  "read_request E arrived uid S =
    (let buf = take MAXLINE arrived; nread = length buf in handle_request E buf nread uid S)"

text \<open>
  The client. The number is printed into 12 bytes. \<open>csfd\<close> is the kept connection (-1: none yet), \<open>conn\<close>
  what \<^verbatim>\<open>cli_conn\<close> returns, \<open>wr\<close> what \<^verbatim>\<open>writev\<close> returns for the request, \<open>rs\<close> what is received then.
\<close>

definition cs_request :: "string \<Rightarrow> int \<Rightarrow> string" where
  "cs_request name fl = CL_OPEN @ '' '' @ name @ '' '' @ show_int fl @ [NUL]"

definition csopen :: "int \<Rightarrow> (string \<Rightarrow> int) \<Rightarrow> bool \<Rightarrow> (string \<Rightarrow> int) \<Rightarrow> rmsg list \<Rightarrow> string \<Rightarrow> int \<Rightarrow> int \<Rightarrow> sv_err + (int \<times> string \<times> int)" where
  "csopen conn wr mem uf rs name fl csfd =
    (let csfd = (if csfd < 0 then conn else csfd) in
     if csfd < 0 then Inr (csfd, [], -1)
     else if length (show_int fl) + 2 > 12 then Inl (Undefined ''sprintf into buf'')
     else if wr (cs_request name fl) \<noteq> int (length (cs_request name fl)) then Inr (csfd, [], -1)
     else bindR (recv_fd mem uf rs []) (\<lambda>(out, r). Inr (csfd, out, r)))"

section \<open>The loop with select\<close>

text \<open>What a request was served with: descriptor, user and bytes.\<close>

type_synonym served = "int \<times> int \<times> string"

record sloop =
  s_client :: client_tab
  allset :: "int set"
  maxfd :: int
  maxi :: int
  listenfd :: int
  s_srv :: opend
  s_log :: "served list"

text \<open>
  One turn: the descriptors \<^verbatim>\<open>select\<close> found ready, what \<^verbatim>\<open>serv_accept\<close> returns (descriptor and user), what a
  \<^verbatim>\<open>read\<close> from a client returns (\<open>None\<close>: an error), and the environment of its request.
\<close>

record tenv =
  t_ready :: "int set"
  t_accept :: "int \<times> int"
  t_read :: "int \<Rightarrow> string option"
  t_mem :: amem
  t_req :: "int \<Rightarrow> henv"

definition select_start :: "int \<Rightarrow> opend \<Rightarrow> sv_err + sloop" where
  "select_start fd S = (if fd < 0 then Inl (Fatal ''serv_listen error'')
     else Inr \<lparr>s_client = [], allset = {fd}, maxfd = fd, maxi = -1, listenfd = fd, s_srv = S, s_log = []\<rparr>)"

definition select_accept :: "tenv \<Rightarrow> sloop \<Rightarrow> sv_err + sloop" where
  "select_accept E L = (case t_accept E of (clifd, uid) \<Rightarrow>
     if clifd < 0 then Inl (Fatal ''serv_accept error'')
     else bindR (client_add (t_mem E) clifd uid (s_client L)) (\<lambda>(client, i).
       Inr (L\<lparr>s_client := client, allset := insert clifd (allset L),
         maxfd := (if clifd > maxfd L then clifd else maxfd L), maxi := (if int i > maxi L then int i else maxi L)\<rparr>)))"

definition select_client :: "tenv \<Rightarrow> nat \<Rightarrow> sloop \<Rightarrow> sv_err + sloop" where
  "select_client E i L =
    (let clifd = fst (s_client L ! i) in
     if clifd < 0 then Inr L
     else if clifd \<in> t_ready E then
       (case t_read E clifd of
          None \<Rightarrow> Inl (Fatal ''read error'')
        | Some buf \<Rightarrow>
            if buf = [] then bindR (client_del clifd (s_client L)) (\<lambda>client.
              Inr (L\<lparr>s_client := client, allset := allset L - {clifd}\<rparr>))
            else bindR (handle_request (t_req E clifd) buf (length buf) (snd (s_client L ! i)) (s_srv L)) (\<lambda>(S, _).
              Inr (L\<lparr>s_srv := S, s_log := s_log L @ [(clifd, snd (s_client L ! i), buf)]\<rparr>)))
     else Inr L)"

fun select_clients :: "tenv \<Rightarrow> nat list \<Rightarrow> sloop \<Rightarrow> sv_err + sloop" where
  "select_clients E [] L = Inr L"
| "select_clients E (i # is) L = bindR (select_client E i L) (select_clients E is)"

definition select_turn :: "tenv \<Rightarrow> sloop \<Rightarrow> sv_err + sloop" where
  "select_turn E L = (if listenfd L \<in> t_ready E then select_accept E L
     else select_clients E [0..<nat (maxi L + 1)] L)"

section \<open>The loop with poll\<close>

text \<open>An entry of the array: the descriptor and whether \<^verbatim>\<open>POLLHUP\<close> and \<^verbatim>\<open>POLLIN\<close> are set in \<^verbatim>\<open>revents\<close>.\<close>

type_synonym pfd = "int \<times> bool \<times> bool"

record ploop =
  p_client :: client_tab
  pollfds :: "pfd list"
  numfd :: nat
  p_srv :: opend
  p_log :: "served list"

definition grow_pollfd :: "amem \<Rightarrow> pfd list \<Rightarrow> sv_err + pfd list" where
  "grow_pollfd M pfds = (if \<not> a_ok M then Inl (Fatal ''realloc error'') else Inr (pfds @ replicate NALLOC (-1, False, False)))"

definition poll_start :: "amem \<Rightarrow> int \<Rightarrow> opend \<Rightarrow> sv_err + ploop" where
  "poll_start M fd S = (if \<not> a_ok M then Inl (Fatal ''malloc error'')
     else if fd < 0 then Inl (Fatal ''serv_listen error'')
     else bindR (client_add M fd 0 []) (\<lambda>(client, _).
       Inr \<lparr>p_client = client, pollfds = (replicate NALLOC (-1, False, False))[0 := (fd, False, False)], numfd = 1, p_srv = S, p_log = []\<rparr>))"

definition poll_accept :: "tenv \<Rightarrow> ploop \<Rightarrow> sv_err + ploop" where
  "poll_accept E L = (case t_accept E of (clifd, uid) \<Rightarrow>
     if clifd < 0 then Inl (Fatal ''serv_accept error'')
     else bindR (client_add (t_mem E) clifd uid (p_client L)) (\<lambda>(client, _).
       bindR (if numfd L = length (pollfds L) then grow_pollfd (t_mem E) (pollfds L) else Inr (pollfds L)) (\<lambda>pfds.
         Inr (L\<lparr>p_client := client, pollfds := pfds[numfd L := (clifd, False, False)], numfd := Suc (numfd L)\<rparr>))))"

text \<open>The loop over the entries from \<open>i\<close> on: an entry that is closed is replaced by the last one and looked at again.\<close>

definition poll_hungup :: "nat \<Rightarrow> ploop \<Rightarrow> sv_err + ploop" where
  "poll_hungup i L = bindR (client_del (fst (pollfds L ! i)) (p_client L)) (\<lambda>client.
     let L = L\<lparr>p_client := client\<rparr>;
         L = (if i < numfd L - 1 then L\<lparr>pollfds := (pollfds L)[i := pollfds L ! (numfd L - 1)]\<rparr> else L)
     in Inr (L\<lparr>numfd := numfd L - 1\<rparr>))"

lemma poll_hungup_numfd: "poll_hungup i L = Inr L' \<Longrightarrow> numfd L' = numfd L - 1"
  by (auto simp: poll_hungup_def bindR_eq_Inr_iff Let_def)

function poll_clients :: "tenv \<Rightarrow> nat \<Rightarrow> ploop \<Rightarrow> sv_err + ploop" where
  "poll_clients E i L =
    (if i < numfd L then
       (case pollfds L ! i of (fd, hup, pin) \<Rightarrow>
          if hup then bindR (poll_hungup i L) (\<lambda>L'. poll_clients E (if i < numfd L - 1 then i else Suc i) L')
          else if pin then
            (case t_read E fd of
               None \<Rightarrow> Inl (Fatal ''read error'')
             | Some buf \<Rightarrow>
                 if buf = [] then bindR (poll_hungup i L) (\<lambda>L'. poll_clients E (if i < numfd L - 1 then i else Suc i) L')
                 else bindR (handle_request (t_req E fd) buf (length buf) (snd (p_client L ! i)) (p_srv L)) (\<lambda>(S, _).
                   poll_clients E (Suc i) (L\<lparr>p_srv := S, p_log := p_log L @ [(fd, snd (p_client L ! i), buf)]\<rparr>)))
          else poll_clients E (Suc i) L)
     else Inr L)"
  by pat_completeness auto
termination by (relation "measure (\<lambda>(E, i, L). numfd L - i)") (auto dest!: poll_hungup_numfd)

declare poll_clients.simps [simp del]

text \<open>\<^verbatim>\<open>poll\<close> fills in \<^verbatim>\<open>revents\<close>: \<open>hups\<close> and \<open>ins\<close> are the descriptors that have hung up and that are readable.\<close>

definition poll_ready :: "int set \<Rightarrow> int set \<Rightarrow> ploop \<Rightarrow> ploop" where
  "poll_ready hups ins L = L\<lparr>pollfds :=
     map (\<lambda>(fd, h, p). (fd, fd \<in> hups, fd \<in> ins)) (take (numfd L) (pollfds L)) @ drop (numfd L) (pollfds L)\<rparr>"

definition poll_turn :: "tenv \<Rightarrow> int set \<Rightarrow> ploop \<Rightarrow> sv_err + ploop" where
  "poll_turn E hups L = (let L = poll_ready hups (t_ready E) L in
     bindR (if snd (snd (pollfds L ! 0)) then poll_accept E L else Inr L) (poll_clients E 1))"

end
