(* ===== verification/Open_Server_Spec.thy ===== *)
theory Open_Server_Spec
  imports Open_Server Io_Spec "HOL-Library.Multiset"
begin

text \<open>
  The open server: its table of clients is a map from descriptors to users, the loop with \<^verbatim>\<open>select\<close>
  serves every client under its own user, a request travels from the client's call to \<^verbatim>\<open>open\<close> and the
  descriptor or the message back; the loop with \<^verbatim>\<open>poll\<close> mixes users up.
\<close>

section \<open>The table of clients\<close>

definition live :: "client_tab \<Rightarrow> (int \<times> int) list" where
  "live cs = filter (\<lambda>c. fst c \<noteq> -1) cs"

definition tab_rep :: "client_tab \<Rightarrow> (int \<rightharpoonup> int) \<Rightarrow> bool" where
  "tab_rep cs A \<longleftrightarrow> distinct (map fst (live cs)) \<and> A = map_of (live cs)"

lemma live_simps [simp]:
  "live [] = []" "live ((fd, u) # cs) = (if fd = -1 then live cs else (fd, u) # live cs)" "live (cs @ ds) = live cs @ live ds"
  by (simp_all add: live_def)

lemma client_slot_None: "client_slot fd i cs = None \<longleftrightarrow> fd \<notin> fst ` set cs"
  by (induction cs arbitrary: i) auto

lemma client_slot_Some:
  assumes "client_slot fd i cs = Some j"
  obtains as u bs where "cs = as @ (fd, u) # bs" "j = i + length as" "fd \<notin> fst ` set as"
proof -
  have "\<exists>as u bs. cs = as @ (fd, u) # bs \<and> j = i + length as \<and> fd \<notin> fst ` set as"
    using assms
  proof (induction cs arbitrary: i)
    case (Cons c cs)
    show ?case
    proof (cases "fst c = fd")
      case True
      then show ?thesis using Cons.prems by (intro exI [of _ "[]"] exI [of _ "snd c"] exI [of _ cs]) (cases c, auto)
    next
      case False
      then obtain as u bs where "cs = as @ (fd, u) # bs" "j = Suc i + length as" "fd \<notin> fst ` set as"
        using Cons.IH [of "Suc i"] Cons.prems by auto
      then show ?thesis using False by (intro exI [of _ "c # as"] exI [of _ u] exI [of _ bs]) auto
    qed
  qed simp
  then show thesis using that by blast
qed

text \<open>An entry is written into a free slot of the table or of its enlargement by free slots.\<close>

definition added :: "client_tab \<Rightarrow> int \<times> int \<Rightarrow> client_tab \<Rightarrow> nat \<Rightarrow> bool" where
  "added cs c cs' i \<longleftrightarrow> (\<exists>as u bs fs. cs' = as @ c # bs \<and> i = length as \<and> cs @ fs = as @ (-1, u) # bs \<and> (\<forall>f \<in> set fs. fst f = -1))"

lemma alloc_free: "client_alloc M cs = Inr cs' \<Longrightarrow> \<exists>fs. cs' = cs @ fs \<and> (\<forall>f \<in> set fs. fst f = -1)"
  by (auto simp: client_alloc_def split: if_splits)

lemma added_trans:
  assumes "added (cs @ gs) c cs' i" "\<forall>f \<in> set gs. fst f = -1"
  shows "added cs c cs' i"
proof -
  obtain as u bs fs where "cs' = as @ c # bs" "i = length as" "(cs @ gs) @ fs = as @ (-1, u) # bs" "\<forall>f \<in> set fs. fst f = -1"
    using assms(1) by (auto simp: added_def)
  then show ?thesis using assms(2) unfolding added_def
    by (intro exI [of _ as] exI [of _ u] exI [of _ bs] exI [of _ "gs @ fs"]) auto
qed

lemma add_again_ok: "a_ok M \<Longrightarrow> \<exists>cs' i. add_again M fd uid cs = Inr (cs', i) \<and> added cs (fd, uid) cs' i"
proof (induction M fd uid cs rule: add_again.induct)
  case (1 M fd uid cs)
  show ?case
  proof (cases "client_slot (-1) 0 cs")
    case (Some i)
    then obtain as u bs where "cs = as @ (-1, u) # bs" "i = length as" by (auto elim: client_slot_Some)
    moreover from this have "added cs (fd, uid) (as @ (fd, uid) # bs) (length as)" unfolding added_def
      by (intro exI [of _ as] exI [of _ u] exI [of _ bs] exI [of _ "[]"]) simp
    ultimately show ?thesis using Some by (subst add_again.simps) simp
  next
    case None
    obtain cs' where cs': "client_alloc M cs = Inr cs'" using "1.prems" by (simp add: client_alloc_def)
    obtain fs where fs: "cs' = cs @ fs" "\<forall>f \<in> set fs. fst f = -1" using alloc_free [OF cs'] by blast
    obtain ds i where "add_again M fd uid cs' = Inr (ds, i)" "added cs' (fd, uid) ds i"
      using "1.IH" [OF None cs' "1.prems"] by blast
    then show ?thesis using None cs' fs added_trans [of cs fs "(fd, uid)" ds i] by (simp add: add_again.simps [of M fd uid cs])
  qed
qed

lemma client_add_added: "a_ok M \<Longrightarrow> \<exists>cs' i. client_add M fd uid cs = Inr (cs', i) \<and> added cs (fd, uid) cs' i"
proof (cases "cs = []")
  case True
  assume M: "a_ok M"
  obtain cs' where cs': "client_alloc M [] = Inr cs'" using M by (simp add: client_alloc_def)
  obtain ds i where "add_again M fd uid cs' = Inr (ds, i)" "added cs' (fd, uid) ds i" using add_again_ok [OF M] by blast
  then show ?thesis using True cs' alloc_free [OF cs'] added_trans [of "[]" _ "(fd, uid)" ds i] by (auto simp: client_add_def)
next
  case False
  assume "a_ok M"
  then show ?thesis using add_again_ok [of M fd uid cs] False by (auto simp: client_add_def)
qed

lemma live_free: "\<forall>f \<in> set fs. fst f = -1 \<Longrightarrow> live fs = []"
  by (simp add: live_def)

lemma added_live:
  assumes "added cs (fd, uid) cs' i" "fd \<noteq> -1"
  obtains xs ys where "live cs = xs @ ys" "live cs' = xs @ (fd, uid) # ys"
proof -
  obtain as u bs fs where a: "cs' = as @ (fd, uid) # bs" "cs @ fs = as @ (-1, u) # bs" "\<forall>f \<in> set fs. fst f = -1"
    using assms(1) by (auto simp: added_def)
  have "live (cs @ fs) = live as @ live bs" using a(2) by (simp only:) simp
  then have "live cs = live as @ live bs" using live_free [OF a(3)] by simp
  then show thesis using that [of "live as" "live bs"] a(1) assms(2) by simp
qed

lemma map_of_mid: "k \<notin> fst ` set xs \<Longrightarrow> map_of (xs @ (k, v) # ys) = (map_of (xs @ ys))(k \<mapsto> v)"
  by (induction xs) (auto simp: fun_upd_twist)

lemma added_rep:
  assumes "added cs (fd, uid) cs' i" "fd \<noteq> -1" "tab_rep cs A" "A fd = None"
  shows "tab_rep cs' (A(fd \<mapsto> uid))"
proof -
  obtain xs ys where l: "live cs = xs @ ys" "live cs' = xs @ (fd, uid) # ys" using added_live [OF assms(1,2)] .
  have "fd \<notin> fst ` set (live cs)" using assms(3,4) by (metis tab_rep_def map_of_eq_None_iff)
  then have "fd \<notin> fst ` set xs" "fd \<notin> fst ` set ys" using l(1) by auto
  then show ?thesis using assms(3) l map_of_mid [of fd xs uid ys] by (auto simp: tab_rep_def simp del: map_of_append)
qed

lemma client_del_rep:
  assumes "tab_rep cs A" "A fd = Some uid" "fd \<noteq> -1"
  shows "\<exists>cs'. client_del fd cs = Inr cs' \<and> tab_rep cs' (A(fd := None))"
proof -
  have "(fd, uid) \<in> set (live cs)" using assms(1,2) by (auto simp: tab_rep_def dest: map_of_SomeD)
  then have "fd \<in> fst ` set cs" by (force simp: live_def)
  then obtain i where i: "client_slot fd 0 cs = Some i" using client_slot_None [of fd 0 cs] by auto
  then obtain as u bs where s: "cs = as @ (fd, u) # bs" "i = length as" "fd \<notin> fst ` set as" by (auto elim: client_slot_Some)
  have d: "distinct (map fst (live as @ (fd, u) # live bs))" "A = map_of (live as @ (fd, u) # live bs)"
    using assms(1,3) s(1) by (auto simp: tab_rep_def)
  then have "map_of (live as @ live bs) fd = None" by (simp add: map_of_eq_None_iff map_add_None)
  then have "A(fd := None) = map_of (live as @ live bs)" using d
    using map_of_mid [of fd "live as" u "live bs"] by (simp add: fun_upd_idem del: map_of_append)
  then show ?thesis using i s d by (auto simp: client_del_def tab_rep_def)
qed

text \<open>The interface of the loops to the table, as commands.\<close>

datatype ccmd = Add amem int int | Del int

fun tab_step :: "client_tab \<Rightarrow> ccmd \<Rightarrow> sv_err + client_tab \<times> unit" where
  "tab_step cs (Add M fd uid) = bindR (client_add M fd uid cs) (\<lambda>(cs, _). Inr (cs, ()))"
| "tab_step cs (Del fd) = bindR (client_del fd cs) (\<lambda>cs. Inr (cs, ()))"

fun tab_spec :: "(int \<rightharpoonup> int) \<Rightarrow> ccmd \<Rightarrow> (int \<rightharpoonup> int) \<times> unit" where
  "tab_spec A (Add M fd uid) = (A(fd \<mapsto> uid), ())"
| "tab_spec A (Del fd) = (A(fd := None), ())"

fun tab_pre :: "(int \<rightharpoonup> int) \<Rightarrow> ccmd \<Rightarrow> bool" where
  "tab_pre A (Add M fd uid) \<longleftrightarrow> a_ok M \<and> 0 \<le> fd \<and> A fd = None"
| "tab_pre A (Del fd) \<longleftrightarrow> 0 \<le> fd \<and> A fd \<noteq> None"

interpretation ct: data_refinement tab_rep tab_step tab_spec tab_pre
proof unfold_locales
  fix cs A c
  assume a: "tab_rep cs A" "tab_pre A c"
  show "\<exists>cs'. tab_step cs c = Inr (cs', snd (tab_spec A c)) \<and> tab_rep cs' (fst (tab_spec A c))"
  proof (cases c)
    case (Add M fd uid)
    obtain cs' i where "client_add M fd uid cs = Inr (cs', i)" "added cs (fd, uid) cs' i"
      using client_add_added [of M fd uid cs] a Add by auto
    then show ?thesis using added_rep [of cs fd uid cs' i A] a Add by auto
  next
    case (Del fd)
    obtain uid where "A fd = Some uid" using a Del by auto
    then show ?thesis using client_del_rep [OF a(1), of fd uid] a Del by auto
  qed
qed

section \<open>The loop with select\<close>

text \<open>A request does not end the server when descriptors can be sent.\<close>

definition can_send :: "henv \<Rightarrow> bool" where
  "can_send E \<longleftrightarrow> h_mem E \<and> h_sm E = 2"

lemma handle_request_ok: "can_send E \<Longrightarrow> \<exists>S' ss. handle_request E buf n uid S = Inr (S', ss)"
  by (auto simp: handle_request_def can_send_def send_fd_def Let_def split: option.splits prod.splits)

definition closing :: "tenv \<Rightarrow> int \<Rightarrow> bool" where
  "closing E fd \<longleftrightarrow> fd \<in> t_ready E \<and> t_read E fd = Some []"

definition close1 :: "tenv \<Rightarrow> int \<times> int \<Rightarrow> int \<times> int" where
  "close1 E c = (if 0 \<le> fst c \<and> closing E (fst c) then (-1, snd c) else c)"

definition served1 :: "tenv \<Rightarrow> int \<times> int \<Rightarrow> served list" where
  "served1 E c = (if 0 \<le> fst c \<and> fst c \<in> t_ready E then
     (case t_read E (fst c) of None \<Rightarrow> [] | Some b \<Rightarrow> if b = [] then [] else [(fst c, snd c, b)]) else [])"

definition sel_inv :: "sloop \<Rightarrow> (int \<rightharpoonup> int) \<Rightarrow> bool" where
  "sel_inv L A \<longleftrightarrow> tab_rep (s_client L) A \<and> allset L = insert (listenfd L) (dom A) \<and> listenfd L \<notin> dom A \<and>
     0 \<le> listenfd L \<and> (\<forall>fd \<in> insert (listenfd L) (dom A). 0 \<le> fd \<and> fd \<le> maxfd L) \<and>
     -1 \<le> maxi L \<and> maxi L < int (length (s_client L)) \<and> (\<forall>j < length (s_client L). maxi L < int j \<longrightarrow> fst (s_client L ! j) = -1)"

definition turn_pre :: "int \<Rightarrow> (int \<rightharpoonup> int) \<Rightarrow> tenv \<Rightarrow> bool" where
  "turn_pre lfd A E \<longleftrightarrow> (if lfd \<in> t_ready E then a_ok (t_mem E) \<and> 0 \<le> fst (t_accept E) \<and> fst (t_accept E) \<noteq> lfd \<and> A (fst (t_accept E)) = None
     else \<forall>fd \<in> t_ready E. t_read E fd \<noteq> None \<and> can_send (t_req E fd))"

text \<open>The map after the turn, and what the turn serves.\<close>

definition turn_spec :: "int \<Rightarrow> (int \<rightharpoonup> int) \<Rightarrow> tenv \<Rightarrow> (int \<rightharpoonup> int) \<times> served multiset" where
  "turn_spec lfd A E = (if lfd \<in> t_ready E then (A(fst (t_accept E) \<mapsto> snd (t_accept E)), {#})
     else (A |` {fd. \<not> closing E fd}, mset_set {(fd, u, b). A fd = Some u \<and> fd \<in> t_ready E \<and> t_read E fd = Some b \<and> b \<noteq> []}))"

lemma slot_unique:
  assumes "distinct (map fst (live cs))" "i < length cs" "fst (cs ! i) \<noteq> -1"
  shows "client_slot (fst (cs ! i)) 0 cs = Some i"
proof -
  have "fst (cs ! i) \<in> fst ` set cs" using assms(2) by simp
  then obtain j where j: "client_slot (fst (cs ! i)) 0 cs = Some j" using client_slot_None [of "fst (cs ! i)" 0 cs] by auto
  then obtain as u bs where s: "cs = as @ (fst (cs ! i), u) # bs" "j = length as" "fst (cs ! i) \<notin> fst ` set as"
    by (auto elim: client_slot_Some)
  have "\<not> i < length as" using s(3) by (metis nth_append nth_mem imageI s(1))
  moreover have "\<not> length as < i"
  proof
    assume l: "length as < i"
    obtain k where k: "i = Suc (length as + k)" using l less_iff_Suc_add by blast
    define d where "d = fst (cs ! i)"
    have cs: "cs = as @ (d, u) # bs" using s(1) by (simp add: d_def)
    have "cs ! i = bs ! k" "k < length bs" using assms(2) k by (subst cs, simp add: nth_append) (use cs assms(2) k in simp)
    then have "d \<in> fst ` set bs" by (simp add: d_def)
    then obtain c where "c \<in> set bs" "fst c = d" by auto
    then have "c \<in> set (live bs)" "fst c = d" using assms(3) by (auto simp: live_def d_def)
    then have "d \<in> fst ` set (live bs)" by blast
    moreover have "d \<noteq> -1" using assms(3) by (simp add: d_def)
    moreover have "distinct (map fst (live (as @ (d, u) # bs)))" using assms(1) cs by metis
    ultimately show False by simp
  qed
  ultimately show ?thesis using j s(2) by simp
qed

lemma live_update:
  assumes "i < length cs" "cs ! i = (fd, u)" "fd \<noteq> -1"
  shows "\<exists>xs ys. live cs = xs @ (fd, u) # ys \<and> live (cs[i := (-1, u)]) = xs @ ys"
proof -
  have "cs = take i cs @ (fd, u) # drop (Suc i) cs" using id_take_nth_drop [OF assms(1)] assms(2) by simp
  then have "live cs = live (take i cs) @ (fd, u) # live (drop (Suc i) cs)" using assms(3) by (metis live_simps(2,3))
  moreover have "live (cs[i := (-1, u)]) = live (take i cs) @ live (drop (Suc i) cs)"
    using assms(1) by (simp add: upd_conv_take_nth_drop)
  ultimately show ?thesis by blast
qed

lemma distinct_update:
  assumes "distinct (map fst (live cs))" "i < length cs"
  shows "distinct (map fst (live (cs[i := (-1, snd (cs ! i))])))"
proof (cases "fst (cs ! i) = -1")
  case True
  then have "cs[i := (-1, snd (cs ! i))] = cs" by (metis list_update_id prod.collapse)
  then show ?thesis using assms by simp
next
  case False
  then show ?thesis using live_update [OF assms(2), of "fst (cs ! i)" "snd (cs ! i)"] assms(1) by auto
qed

text \<open>One step of the loop over the table replaces the entry and appends what it serves.\<close>

lemma select_client_ok:
  assumes d: "distinct (map fst (live (s_client L)))" and i: "i < length (s_client L)"
    and env: "\<forall>fd \<in> t_ready E. t_read E fd \<noteq> None \<and> can_send (t_req E fd)"
  shows "\<exists>S. select_client E i L = Inr (L\<lparr>s_client := (s_client L)[i := close1 E (s_client L ! i)],
    allset := allset L - (if close1 E (s_client L ! i) = s_client L ! i then {} else {fst (s_client L ! i)}),
    s_srv := S, s_log := s_log L @ served1 E (s_client L ! i)\<rparr>)"
proof -
  obtain fd u where c: "s_client L ! i = (fd, u)" by (cases "s_client L ! i")
  show ?thesis
  proof (cases "0 \<le> fd \<and> fd \<in> t_ready E")
    case False
    then have "close1 E (fd, u) = (fd, u)" "served1 E (fd, u) = []" by (auto simp: close1_def served1_def closing_def)
    moreover have "(s_client L)[i := (fd, u)] = s_client L" using c by (metis list_update_id)
    moreover have "select_client E i L = Inr L" using False c by (simp add: select_client_def)
    ultimately show ?thesis using c by (intro exI [of _ "s_srv L"]) simp
  next
    case True
    obtain b where b: "t_read E fd = Some b" using env True by auto
    show ?thesis
    proof (cases "b = []")
      case True
      then have "close1 E (fd, u) = (-1, u)" "served1 E (fd, u) = []" using b \<open>0 \<le> fd \<and> fd \<in> t_ready E\<close>
        by (auto simp: close1_def served1_def closing_def)
      moreover have "client_slot fd 0 (s_client L) = Some i" using slot_unique [OF d i] c \<open>0 \<le> fd \<and> fd \<in> t_ready E\<close> by simp
      ultimately show ?thesis using True b c \<open>0 \<le> fd \<and> fd \<in> t_ready E\<close>
        by (intro exI [of _ "s_srv L"]) (simp add: select_client_def client_del_def)
    next
      case False
      then have "close1 E (fd, u) = (fd, u)" "served1 E (fd, u) = [(fd, u, b)]" using b True
        by (auto simp: close1_def served1_def closing_def)
      moreover have "(s_client L)[i := (fd, u)] = s_client L" using c by (metis list_update_id)
      moreover obtain S ss where "handle_request (t_req E fd) b (length b) u (s_srv L) = Inr (S, ss)"
        using handle_request_ok env True by blast
      ultimately show ?thesis using False True b c by (intro exI [of _ S]) (simp add: select_client_def)
    qed
  qed
qed

text \<open>The whole loop, from entry \<open>i\<close> on.\<close>

definition part :: "tenv \<Rightarrow> nat \<Rightarrow> nat \<Rightarrow> client_tab \<Rightarrow> client_tab" where
  "part E i n cs = take i cs @ map (close1 E) (take (n - i) (drop i cs)) @ drop n cs"

lemma part_step:
  assumes "i < n" "n \<le> length cs"
  shows "part E (Suc i) n (cs[i := close1 E (cs ! i)]) = part E i n cs"
    "drop (Suc i) (cs[i := close1 E (cs ! i)]) = drop (Suc i) cs"
proof -
  obtain k where k: "n - i = Suc k" "n - Suc i = k" using assms(1) by (metis Suc_diff_Suc)
  have "drop i cs = cs ! i # drop (Suc i) cs" using assms by (simp add: Cons_nth_drop_Suc)
  then show "part E (Suc i) n (cs[i := close1 E (cs ! i)]) = part E i n cs"
    using assms k by (simp add: part_def take_Suc_conv_app_nth)
qed simp

lemma select_clients_ok:
  assumes "n \<le> length (s_client L)" "i \<le> n" "distinct (map fst (live (s_client L)))"
    and env: "\<forall>fd \<in> t_ready E. t_read E fd \<noteq> None \<and> can_send (t_req E fd)"
  shows "\<exists>S. select_clients E [i..<n] L = Inr (L\<lparr>s_client := part E i n (s_client L),
    allset := allset L - fst ` {c \<in> set (take (n - i) (drop i (s_client L))). close1 E c \<noteq> c},
    s_srv := S, s_log := s_log L @ concat (map (served1 E) (take (n - i) (drop i (s_client L))))\<rparr>)"
  using assms(1-3)
proof (induction "n - i" arbitrary: i L)
  case 0
  then have "i = n" by simp
  then show ?case by (intro exI [of _ "s_srv L"]) (simp add: part_def)
next
  case (Suc k)
  then have i: "i < n" "i < length (s_client L)" by simp_all
  let ?c = "s_client L ! i"
  obtain S where S: "select_client E i L = Inr (L\<lparr>s_client := (s_client L)[i := close1 E ?c],
      allset := allset L - (if close1 E ?c = ?c then {} else {fst ?c}), s_srv := S, s_log := s_log L @ served1 E ?c\<rparr>)"
    (is "_ = Inr ?L") using select_client_ok [OF Suc.prems(3) i(2) env] by blast
  have "distinct (map fst (live (s_client ?L)))"
    using distinct_update [OF Suc.prems(3) i(2)] Suc.prems(3) by (auto simp: close1_def)
  then have "\<exists>S'. select_clients E [Suc i..<n] ?L = Inr (?L\<lparr>s_client := part E (Suc i) n (s_client ?L),
    allset := allset ?L - fst ` {c \<in> set (take (n - Suc i) (drop (Suc i) (s_client ?L))). close1 E c \<noteq> c},
    s_srv := S', s_log := s_log ?L @ concat (map (served1 E) (take (n - Suc i) (drop (Suc i) (s_client ?L))))\<rparr>)"
    using Suc.hyps(2) Suc.prems i by (intro Suc.hyps(1)) simp_all
  then obtain S' where S': "select_clients E [Suc i..<n] ?L = Inr (?L\<lparr>s_client := part E (Suc i) n (s_client ?L),
    allset := allset ?L - fst ` {c \<in> set (take (n - Suc i) (drop (Suc i) (s_client ?L))). close1 E c \<noteq> c},
    s_srv := S', s_log := s_log ?L @ concat (map (served1 E) (take (n - Suc i) (drop (Suc i) (s_client ?L))))\<rparr>)" ..
  have t: "take (n - i) (drop i (s_client L)) = ?c # take (n - Suc i) (drop (Suc i) (s_client L))"
    using i Suc.hyps(2) by (metis Cons_nth_drop_Suc Suc_diff_Suc take_Suc_Cons)
  have "select_clients E [i..<n] L = select_clients E [Suc i..<n] ?L" using i S by (simp add: upt_conv_Cons)
  moreover have "allset L - (if close1 E ?c = ?c then {} else {fst ?c}) - fst ` {c \<in> set xs. close1 E c \<noteq> c} =
      allset L - fst ` {c \<in> set (?c # xs). close1 E c \<noteq> c}" for xs by auto
  ultimately show ?case using S' part_step [OF i(1) Suc.prems(1)] t by (intro exI [of _ S']) simp
qed

lemma free_drop:
  assumes "\<forall>j < length cs. n \<le> j \<longrightarrow> fst (cs ! j) = -1" "c \<in> set (drop n cs)"
  shows "fst c = (-1 :: int)"
proof -
  obtain i where "i < length (drop n cs)" "c = drop n cs ! i" using assms(2) by (metis in_set_conv_nth)
  then show ?thesis using assms(1) by simp
qed

lemma part_all: "(\<forall>j < length cs. n \<le> j \<longrightarrow> fst (cs ! j) = -1) \<Longrightarrow> part E 0 n cs = map (close1 E) cs"
proof -
  assume a: "\<forall>j < length cs. n \<le> j \<longrightarrow> fst (cs ! j) = -1"
  have "map (close1 E) (drop n cs) = drop n cs" using free_drop [OF a] by (intro map_idI) (simp add: close1_def)
  then show ?thesis by (metis append_take_drop_id diff_zero drop0 map_append part_def self_append_conv2 take0)
qed

lemma served_free: "(\<forall>j < length cs. n \<le> j \<longrightarrow> fst (cs ! j) = -1) \<Longrightarrow> concat (map (served1 E) (take n cs)) = concat (map (served1 E) cs)"
proof -
  assume a: "\<forall>j < length cs. n \<le> j \<longrightarrow> fst (cs ! j) = -1"
  have "concat (map (served1 E) (drop n cs)) = []" using free_drop [OF a] by (auto simp: served1_def)
  then show ?thesis by (metis append_Nil2 append_take_drop_id concat_append map_append)
qed

lemma live_close: "live (map (close1 E) cs) = filter (\<lambda>c. \<not> (0 \<le> fst c \<and> closing E (fst c))) (live cs)"
  by (induction cs) (auto simp: close1_def live_def)

lemma map_of_filter_key: "map_of (filter (\<lambda>c. P (fst c)) xs) = map_of xs |` {k. P k}"
  by (induction xs) (auto simp: restrict_map_def)

lemma served1_eq:
  "served1 E (fd, u) = (if 0 \<le> fd \<and> fd \<in> t_ready E \<and> t_read E fd \<noteq> None \<and> t_read E fd \<noteq> Some [] then [(fd, u, the (t_read E fd))] else [])"
  by (cases "t_read E fd") (simp_all add: served1_def)

lemma served_fst: "fst ` set (concat (map (served1 E) cs)) \<subseteq> fst ` set (live cs)"
proof (induction cs)
  case (Cons c cs)
  then show ?case by (cases c) (auto simp: served1_eq)
qed simp

lemma served_distinct: "distinct (map fst (live cs)) \<Longrightarrow> distinct (concat (map (served1 E) cs))"
proof (induction cs)
  case (Cons c cs)
  obtain fd u where c: "c = (fd, u)" by (cases c)
  show ?case
  proof (cases "fd < 0")
    case True
    then show ?thesis using Cons c by (simp add: served1_eq split: if_splits)
  next
    case False
    then have "fd \<notin> fst ` set (concat (map (served1 E) cs))" "distinct (map fst (live cs))"
      using Cons.prems c served_fst [of E cs] by auto
    then have "(fd, u, b) \<notin> set (concat (map (served1 E) cs))" for b by (metis fst_conv imageI)
    then show ?thesis using Cons.IH [OF \<open>distinct (map fst (live cs))\<close>] c by (auto simp: served1_eq)
  qed
qed simp

lemma tab_rep_Some: "tab_rep cs A \<Longrightarrow> A fd = Some u \<longleftrightarrow> fd \<noteq> -1 \<and> (fd, u) \<in> set cs"
proof -
  assume "tab_rep cs A"
  then have "A fd = Some u \<longleftrightarrow> (fd, u) \<in> set (live cs)" by (simp add: tab_rep_def map_of_eq_Some_iff)
  then show ?thesis by (auto simp: live_def)
qed

lemma served_set:
  assumes "tab_rep cs A" "\<forall>fd \<in> dom A. 0 \<le> fd"
  shows "set (concat (map (served1 E) cs)) = {(fd, u, b). A fd = Some u \<and> fd \<in> t_ready E \<and> t_read E fd = Some b \<and> b \<noteq> []}"
proof -
  note A = tab_rep_Some [OF assms(1)]
  have "x \<in> set (concat (map (served1 E) cs)) \<longleftrightarrow> x \<in> {(fd, u, b). A fd = Some u \<and> fd \<in> t_ready E \<and> t_read E fd = Some b \<and> b \<noteq> []}" for x
  proof -
    obtain fd u b where x: "x = (fd, u, b)" by (cases x)
    have "x \<in> set (concat (map (served1 E) cs)) \<longleftrightarrow> (fd, u) \<in> set cs \<and> 0 \<le> fd \<and> fd \<in> t_ready E \<and> t_read E fd = Some b \<and> b \<noteq> []"
      using x by (force simp: served1_eq split: if_splits)
    then show ?thesis using assms(2) A [of fd u] x by auto
  qed
  then show ?thesis by blast
qed

lemma closed_fds:
  assumes "tab_rep cs A" "\<forall>fd \<in> dom A. 0 \<le> fd"
  shows "fst ` {c \<in> set cs. close1 E c \<noteq> c} = {fd \<in> dom A. closing E fd}"
proof -
  note A = tab_rep_Some [OF assms(1)]
  have "close1 E c \<noteq> c \<longleftrightarrow> 0 \<le> fst c \<and> closing E (fst c)" for c by (cases c) (auto simp: close1_def)
  then have "fst ` {c \<in> set cs. close1 E c \<noteq> c} = {fd \<in> fst ` set cs. 0 \<le> fd \<and> closing E fd}" by force
  moreover have "fd \<in> dom A \<longleftrightarrow> fd \<noteq> -1 \<and> fd \<in> fst ` set cs" for fd by (force simp: A dom_def)
  ultimately have "fst ` {c \<in> set cs. close1 E c \<noteq> c} = {fd. 0 \<le> fd \<and> fd \<in> dom A \<and> closing E fd}" by auto
  then show ?thesis using assms(2) by blast
qed

lemma closed_rep:
  assumes "tab_rep cs A" "\<forall>fd \<in> dom A. 0 \<le> fd"
  shows "tab_rep (map (close1 E) cs) (A |` {fd. \<not> closing E fd})"
proof -
  have "live (map (close1 E) cs) = filter (\<lambda>c. \<not> (0 \<le> fst c \<and> closing E (fst c))) (live cs)" by (rule live_close)
  also have "\<dots> = filter (\<lambda>c. \<not> closing E (fst c)) (live cs)"
  proof (rule filter_cong)
    fix c assume "c \<in> set (live cs)"
    then have "0 \<le> fst c" using assms by (metis (no_types, lifting) domIff map_of_eq_None_iff imageI tab_rep_def)
    then show "(\<not> (0 \<le> fst c \<and> closing E (fst c))) = (\<not> closing E (fst c))" by simp
  qed simp
  finally have "live (map (close1 E) cs) = filter (\<lambda>c. \<not> closing E (fst c)) (live cs)" .
  then show ?thesis using assms(1) map_of_filter_key [of "\<lambda>fd. \<not> closing E fd" "live cs"]
    by (simp add: tab_rep_def distinct_map_filter)
qed

text \<open>The abstract state is the listening descriptor and the map from clients to their users.\<close>

definition sel_rel :: "sloop \<Rightarrow> int \<times> (int \<rightharpoonup> int) \<Rightarrow> bool" where
  "sel_rel L a \<longleftrightarrow> listenfd L = fst a \<and> sel_inv L (snd a)"

definition sel_step :: "sloop \<Rightarrow> tenv \<Rightarrow> sv_err + sloop \<times> served multiset" where
  "sel_step L E = bindR (select_turn E L) (\<lambda>L'. Inr (L', mset (drop (length (s_log L)) (s_log L'))))"

definition sel_spec :: "int \<times> (int \<rightharpoonup> int) \<Rightarrow> tenv \<Rightarrow> (int \<times> (int \<rightharpoonup> int)) \<times> served multiset" where
  "sel_spec a E = (case turn_spec (fst a) (snd a) E of (A, r) \<Rightarrow> ((fst a, A), r))"

definition sel_pre :: "int \<times> (int \<rightharpoonup> int) \<Rightarrow> tenv \<Rightarrow> bool" where
  "sel_pre a E \<longleftrightarrow> turn_pre (fst a) (snd a) E"

lemma added_nth:
  assumes "added cs c cs' i" "j < length cs'" "j \<noteq> i" "fst (cs' ! j) \<noteq> -1"
  shows "j < length cs \<and> cs ! j = cs' ! j"
proof -
  obtain as u bs fs where a: "cs' = as @ c # bs" "i = length as" "cs @ fs = as @ (-1, u) # bs" "\<forall>f \<in> set fs. fst f = -1"
    using assms(1) by (auto simp: added_def)
  have e: "(cs @ fs) ! j = cs' ! j" unfolding a(3) a(1) using assms(3) a(2) by (auto simp: nth_append nth_Cons')
  have l: "length (cs @ fs) = length cs'" unfolding a(3) a(1) by simp
  show ?thesis
  proof (cases "j < length cs")
    case False
    then have "cs' ! j = fs ! (j - length cs)" "j - length cs < length fs" using e l assms(2) by (auto simp: nth_append)
    then have "cs' ! j \<in> set fs" by simp
    then show ?thesis using a(4) assms(4) by auto
  qed (use e in \<open>simp add: nth_append\<close>)
qed

lemma added_length:
  assumes "added cs c cs' i"
  shows "length cs \<le> length cs'" "i < length cs'"
proof -
  obtain as u bs fs where a: "cs' = as @ c # bs" "i = length as" "cs @ fs = as @ (-1, u) # bs"
    using assms by (auto simp: added_def)
  have "length (cs @ fs) = length cs'" unfolding a(3) a(1) by simp
  then show "length cs \<le> length cs'" "i < length cs'" using a(1,2) by simp_all
qed

lemma select_accept_ok:
  assumes R: "sel_inv L A" and rdy: "listenfd L \<in> t_ready E" and pre: "turn_pre (listenfd L) A E"
  shows "\<exists>L'. select_accept E L = Inr L' \<and> listenfd L' = listenfd L \<and> s_log L' = s_log L \<and>
    sel_inv L' (A(fst (t_accept E) \<mapsto> snd (t_accept E)))"
proof -
  obtain fd u where acc: "t_accept E = (fd, u)" by (cases "t_accept E")
  have p: "a_ok (t_mem E)" "0 \<le> fd" "fd \<noteq> listenfd L" "A fd = None" using pre rdy acc by (auto simp: turn_pre_def)
  obtain cs' i where cs': "client_add (t_mem E) fd u (s_client L) = Inr (cs', i)" "added (s_client L) (fd, u) cs' i"
    using client_add_added [OF p(1)] by blast
  let ?L = "L\<lparr>s_client := cs', allset := insert fd (allset L), maxfd := (if fd > maxfd L then fd else maxfd L),
    maxi := (if int i > maxi L then int i else maxi L)\<rparr>"
  have inv: "tab_rep (s_client L) A" "allset L = insert (listenfd L) (dom A)" "listenfd L \<notin> dom A" "0 \<le> listenfd L"
    "\<And>fd. fd \<in> insert (listenfd L) (dom A) \<Longrightarrow> 0 \<le> fd \<and> fd \<le> maxfd L" "-1 \<le> maxi L" "maxi L < int (length (s_client L))"
    "\<And>j. j < length (s_client L) \<Longrightarrow> maxi L < int j \<Longrightarrow> fst (s_client L ! j) = -1"
    using R by (auto simp: sel_inv_def)
  note len = added_length [OF cs'(2)]
  have "fst (cs' ! j) = -1" if "j < length cs'" "maxi ?L < int j" for j
  proof (rule ccontr)
    assume n: "fst (cs' ! j) \<noteq> -1"
    have "j \<noteq> i" "maxi L < int j" using that(2) by (auto split: if_splits)
    then show False using added_nth [OF cs'(2) that(1) _ n] inv(8) [of j] n by simp
  qed
  moreover have "0 \<le> d \<and> d \<le> maxfd ?L" if "d \<in> insert (listenfd L) (dom (A(fd \<mapsto> u)))" for d
  proof (cases "d = fd")
    case False
    then show ?thesis using inv(5) [of d] that by (auto split: if_splits)
  qed (use p(2) in auto)
  ultimately have "sel_inv ?L (A(fd \<mapsto> u))"
    using added_rep [OF cs'(2) _ inv(1) p(4)] p inv(2-4,6,7) len unfolding sel_inv_def by auto
  then show ?thesis using cs'(1) acc p(2) by (auto simp: select_accept_def)
qed

lemma select_clients_turn:
  assumes R: "sel_inv L A" and rdy: "listenfd L \<notin> t_ready E" and pre: "turn_pre (listenfd L) A E"
  shows "\<exists>L'. select_clients E [0..<nat (maxi L + 1)] L = Inr L' \<and> listenfd L' = listenfd L \<and>
    s_log L' = s_log L @ concat (map (served1 E) (s_client L)) \<and> sel_inv L' (A |` {fd. \<not> closing E fd})"
proof -
  let ?n = "nat (maxi L + 1)" and ?cs = "s_client L"
  have inv: "tab_rep ?cs A" "allset L = insert (listenfd L) (dom A)" "listenfd L \<notin> dom A" "0 \<le> listenfd L"
    "\<forall>fd \<in> insert (listenfd L) (dom A). 0 \<le> fd \<and> fd \<le> maxfd L" "-1 \<le> maxi L" "maxi L < int (length ?cs)"
    "\<forall>j < length ?cs. maxi L < int j \<longrightarrow> fst (?cs ! j) = -1"
    using R by (auto simp: sel_inv_def)
  have pos: "\<forall>fd \<in> dom A. 0 \<le> fd" using inv(5) by auto
  have n: "?n \<le> length ?cs" "\<forall>j < length ?cs. ?n \<le> j \<longrightarrow> fst (?cs ! j) = -1" using inv(6-8) by auto
  have env: "\<forall>fd \<in> t_ready E. t_read E fd \<noteq> None \<and> can_send (t_req E fd)" using pre rdy by (simp add: turn_pre_def)
  have "close1 E c = c" if "c \<in> set (drop ?n ?cs)" for c using free_drop [OF n(2) that] by (simp add: close1_def)
  then have "{c \<in> set (take ?n ?cs). close1 E c \<noteq> c} = {c \<in> set ?cs. close1 E c \<noteq> c}"
    by (metis (no_types, lifting) Un_iff append_take_drop_id set_append)
  then obtain S where S: "select_clients E [0..<?n] L = Inr (L\<lparr>s_client := map (close1 E) ?cs,
    allset := allset L - {fd \<in> dom A. closing E fd}, s_srv := S, s_log := s_log L @ concat (map (served1 E) ?cs)\<rparr>)" (is "_ = Inr ?L")
    using select_clients_ok [OF n(1) _ _ env, of 0] inv(1) part_all [OF n(2), of E] served_free [OF n(2), of E] closed_fds [OF inv(1) pos, of E]
    by (auto simp: tab_rep_def)
  have "fst (map (close1 E) ?cs ! j) = -1" if "j < length ?cs" "maxi L < int j" for j
    using inv(8) that by (simp add: close1_def)
  moreover have "allset ?L = insert (listenfd L) (dom (A |` {fd. \<not> closing E fd}))" using inv(2,3) by auto
  ultimately have "sel_inv ?L (A |` {fd. \<not> closing E fd})"
    using closed_rep [OF inv(1) pos, of E] inv(3-7) unfolding sel_inv_def by auto
  then show ?thesis using S by auto
qed

interpretation sl: data_refinement sel_rel sel_step sel_spec sel_pre
proof unfold_locales
  fix L a E
  assume R: "sel_rel L a" and pre: "sel_pre a E"
  obtain A where a: "a = (listenfd L, A)" "sel_inv L A" using R by (cases a) (auto simp: sel_rel_def)
  have p: "turn_pre (listenfd L) A E" using pre a by (simp add: sel_pre_def)
  show "\<exists>L'. sel_step L E = Inr (L', snd (sel_spec a E)) \<and> sel_rel L' (fst (sel_spec a E))"
  proof (cases "listenfd L \<in> t_ready E")
    case True
    then show ?thesis using select_accept_ok [OF a(2) True p] a
      by (auto simp: sel_step_def select_turn_def sel_spec_def turn_spec_def sel_rel_def)
  next
    case False
    have t: "tab_rep (s_client L) A" "\<forall>fd \<in> dom A. 0 \<le> fd" using a(2) by (auto simp: sel_inv_def)
    then have "distinct (map fst (live (s_client L)))" by (simp add: tab_rep_def)
    then have "mset (concat (map (served1 E) (s_client L))) =
        mset_set {(fd, u, b). A fd = Some u \<and> fd \<in> t_ready E \<and> t_read E fd = Some b \<and> b \<noteq> []}"
      using mset_set_set [OF served_distinct [of "s_client L" E]] served_set [OF t, of E] by simp
    then show ?thesis using select_clients_turn [OF a(2) False p] a False
      by (auto simp: sel_step_def select_turn_def sel_spec_def turn_spec_def sel_rel_def)
  qed
qed


definition demo_mem :: amem where "demo_mem = \<lparr>a_ok = True, a_junk = (\<lambda>_. 7)\<rparr>"

definition demo_henv :: henv where
  "demo_henv = \<lparr>h_open = (\<lambda>p fl. if p = ''f'' then 9 else -1), h_err = ''No such file'', h_mem = True, h_sm = 2, h_ws = []\<rparr>"

definition demo_accept :: "int \<Rightarrow> int \<Rightarrow> int \<Rightarrow> tenv" where
  "demo_accept l fd u = \<lparr>t_ready = {l}, t_accept = (fd, u), t_read = (\<lambda>_. None), t_mem = demo_mem, t_req = (\<lambda>_. demo_henv)\<rparr>"

definition demo_reads :: "int \<Rightarrow> string \<Rightarrow> tenv" where
  "demo_reads fd b = \<lparr>t_ready = {fd}, t_accept = (-1, 0), t_read = (\<lambda>_. Some b), t_mem = demo_mem, t_req = (\<lambda>_. demo_henv)\<rparr>"

lemmas demo_defs = demo_mem_def demo_henv_def demo_accept_def demo_reads_def

definition demo_turns :: "tenv list" where
  "demo_turns = [demo_accept 3 5 100, demo_accept 3 6 200, demo_reads 5 [], demo_reads 6 ''x'']"

definition demo_srv :: opend where "demo_srv = \<lparr>errmsg = [], pathname = [], oflag = 0\<rparr>"


section \<open>The protocol\<close>

text \<open>
  A stream keeps the order of bytes and may regroup them; the last two, sent in one call together
  with the descriptor, arrive together and with it.
\<close>

definition delivers :: "sent list \<Rightarrow> rmsg list \<Rightarrow> bool" where
  "delivers ss rs \<longleftrightarrow> (\<exists>bs z. rs = map (\<lambda>b. Rmsg b None) bs @ [Rmsg (z @ fst (last ss)) (snd (last ss))] \<and> ss \<noteq> [] \<and>
     concat bs @ z = concat (map fst (butlast ss)) \<and> (\<forall>b \<in> set bs. b \<noteq> [] \<and> length b \<le> MAXLINE) \<and> length z + 2 \<le> MAXLINE)"

lemma recv_scan_data: "is_cstr b \<Longrightarrow> recv_scan b ctl = Inr (-1, 0, length b)"
proof -
  assume "is_cstr b"
  then have "length (takeWhile (\<lambda>c. c \<noteq> NUL) b) = length b" using c_str_id [of b] by (metis c_str_def)
  then show ?thesis by (simp only: recv_scan_def Let_def simp_thms if_True)
qed

lemma recv_scan_end:
  assumes "is_cstr z"
  shows "recv_scan (z @ [NUL, st]) ctl = (if st = NUL then (case ctl of None \<Rightarrow> Inl (Dump ''status = 0 but no fd'') | Some fd \<Rightarrow> Inr (0, fd, length z))
    else Inr (of_char st, - of_char st, length z))"
proof -
  have "takeWhile (\<lambda>c. c \<noteq> NUL) (z @ [NUL, st]) = z" using c_str_append_NUL [OF assms, of "[st]"] by (simp add: c_str_def)
  moreover have "of_char NUL = (0 :: int)" by simp
  then have "(of_char st = (0 :: int)) = (st = NUL)" by (metis of_char_eq_iff)
  ultimately show ?thesis by (simp add: recv_scan_def nth_append Let_def split: option.split)
qed

lemma recv_fd_delivered:
  assumes "delivers (map (\<lambda>b. (b, None)) ds @ [([NUL, st], ctl)]) rs" "is_cstr (concat ds)" "st = NUL \<longrightarrow> ctl \<noteq> None" "\<And>b. uf b = int (length b)"
  shows "recv_fd True uf rs out = Inr (out @ concat ds, if st = NUL then the ctl else - of_char st)"
proof -
  obtain bs z where rs: "rs = map (\<lambda>b. Rmsg b None) bs @ [Rmsg (z @ [NUL, st]) ctl]" "concat bs @ z = concat ds" "\<forall>b \<in> set bs. b \<noteq> []"
    using assms(1) by (auto simp: delivers_def comp_def)
  have "is_cstr (concat bs @ z)" using rs(2) assms(2) by simp
  then have "recv_fd True uf (map (\<lambda>b. Rmsg b None) bs @ [Rmsg (z @ [NUL, st]) ctl]) out =
      Inr (out @ concat bs @ z, if st = NUL then the ctl else - of_char st)"
    using rs(3)
  proof (induction bs arbitrary: out)
    case Nil
    have "of_char st \<ge> (0 :: int)" by (metis of_nat_0_le_iff of_nat_of_char)
    then show ?case using Nil assms(3,4) by (auto simp: recv_scan_end)
  next
    case (Cons b bs)
    then show ?case using assms(4) by (simp add: recv_scan_data)
  qed
  then show ?thesis using rs by simp
qed

lemma writen_whole: "writen msg [] = ([], int (length msg), msg)"
proof (cases "msg = []")
  case False
  then show ?thesis by (simp add: writen_def writen_loop.simps [of _ "[]" msg] writen_loop.simps [of _ msg "[]"])
qed (simp add: writen_def writen_loop.simps)

lemma send_err_ok: "send_err True 2 [] (-1) msg = ([(msg, None), ([NUL, CHR 0x01], None)], 0)"
proof -
  have "char_of (Suc 0) = CHR 0x01" by (simp add: char_of_def bit_Suc_0_iff)
  then show ?thesis by (simp add: send_err_def writen_whole send_fd_def)
qed

lemma show_int_word: "show_int i \<noteq> []" "\<forall>c \<in> set (show_int i). \<not> white c"
proof -
  have "\<not> isdigit c" if "white c" for c using that by (auto simp: white_def isdigit_def)
  then show "\<forall>c \<in> set (show_int i). \<not> white c" "show_int i \<noteq> []"
    by (auto simp: show_int_def white_def dest: show_nat_digits)
qed

lemma request_args:
  assumes "name \<noteq> []" "\<forall>c \<in> set name. \<not> white c"
  shows "buf_argv (CL_OPEN @ '' '' @ name @ '' '' @ show_int fl) = Some [CL_OPEN, name, show_int fl]"
proof -
  have sp: "white SPACE" by (simp add: white_def)
  have "strtok (CL_OPEN @ SPACE # name @ SPACE # show_int fl) = Some (CL_OPEN, name @ SPACE # show_int fl)"
    by (rule strtok_word) (auto simp: CL_OPEN_def white_def)
  moreover have "strtok (name @ SPACE # show_int fl) = Some (name, show_int fl)" using assms sp by (rule strtok_word)
  moreover have "strtok (show_int fl) = Some (show_int fl, [])" using show_int_word by (rule strtok_last)
  moreover have "strtok [] = None" by (simp add: strtok_def)
  ultimately have "split_white (CL_OPEN @ SPACE # name @ SPACE # show_int fl) = [CL_OPEN, name, show_int fl]"
    by (simp add: split_white_strtok)
  moreover have "\<not> white (hd (CL_OPEN @ SPACE # name @ SPACE # show_int fl))" by (simp add: CL_OPEN_def white_def)
  ultimately show ?thesis using buf_argv_words [of "CL_OPEN @ SPACE # name @ SPACE # show_int fl"] by simp
qed

text \<open>What the server sends for a request: the descriptor, or a message and a status.\<close>

definition open_msg :: "henv \<Rightarrow> string \<Rightarrow> string" where
  "open_msg E name = snprintf (MAXLINE - 1) (''can't open '' @ name @ '': '' @ h_err E @ [NEWLINE])"

definition reply :: "henv \<Rightarrow> string \<Rightarrow> int \<Rightarrow> sent list" where
  "reply E name fl = (if h_open E name fl < 0 then [(open_msg E name, None), ([NUL, CHR 0x01], None)]
     else [([NUL, NUL], Some (h_open E name fl))])"

lemma handle_request_reply:
  assumes "name \<noteq> []" "\<forall>c \<in> set name. \<not> white c" "is_cstr name" "- (2 ^ 31) \<le> fl" "fl < 2 ^ 31"
    and E: "h_mem E" "h_sm E = 2" "h_ws E = []"
  shows "\<exists>S'. handle_request E (cs_request name fl) (length (cs_request name fl)) uid S = Inr (S', reply E name fl)"
proof -
  let ?buf = "cs_request name fl"
  have "is_cstr (CL_OPEN @ '' '' @ name @ '' '' @ show_int fl)" using assms(3) by (simp add: CL_OPEN_def)
  then have c: "c_str ?buf = CL_OPEN @ '' '' @ name @ '' '' @ show_int fl"
    unfolding cs_request_def by (metis append_assoc c_str_append_NUL)
  have last: "?buf ! (length ?buf - 1) = NUL" by (simp add: cs_request_def nth_append)
  have args: "cli_args [CL_OPEN, name, show_int fl] S = (S\<lparr>pathname := name, oflag := fl\<rparr>, 0)"
    using atoi_show_int [OF assms(4,5)] by (simp add: cli_args_def)
  show ?thesis using E last c request_args [OF assms(1,2)] args
    by (simp add: handle_request_def send_err_ok send_fd_def reply_def open_msg_def)
qed

lemma csopen_reply:
  assumes "delivers (reply E name fl) rs" "is_cstr (open_msg E name)" "\<And>b. uf b = int (length b)"
  shows "recv_fd True uf rs [] = Inr (if h_open E name fl < 0 then open_msg E name else [], if h_open E name fl < 0 then -1 else h_open E name fl)"
  using recv_fd_delivered [of "[open_msg E name]" "CHR 0x01" None rs uf "[]"] recv_fd_delivered [of "[]" NUL "Some (h_open E name fl)" rs uf "[]"] assms
  by (cases "h_open E name fl < 0") (simp_all add: reply_def)

lemma show_int_short:
  assumes "-999999999 \<le> fl" "fl < 2 ^ 31"
  shows "length (show_int fl) + 2 \<le> 12"
proof -
  have "0 \<le> fl \<Longrightarrow> length (show_nat (nat fl)) \<le> 10" "fl < 0 \<Longrightarrow> length (show_nat (nat (- fl))) \<le> 9"
    using assms by (auto intro!: length_show_nat_le)
  then show ?thesis by (simp add: show_int_def)
qed

lemma csopen_answer:
  assumes "is_cstr name" "-999999999 \<le> fl" "fl < 2 ^ 31" "0 \<le> csfd" "is_cstr (h_err E)"
    and uf: "\<And>b. uf b = int (length b)" and wr: "wr (cs_request name fl) = int (length (cs_request name fl))"
    and rs: "delivers (reply E name fl) rs"
  shows "csopen conn wr True uf rs name fl csfd =
    Inr (csfd, if h_open E name fl < 0 then open_msg E name else [], if h_open E name fl < 0 then -1 else h_open E name fl)"
proof -
  have "is_cstr (open_msg E name)" using assms(1,5) by (auto simp: open_msg_def snprintf_def is_cstr_def dest: in_set_takeD)
  then show ?thesis using csopen_reply [OF rs _ uf] show_int_short [OF assms(2,3)] wr assms(4) by (simp add: csopen_def)
qed

text \<open>A request that is read in part: its last byte is not null, whatever the part is.\<close>

definition partial_msg :: "int \<Rightarrow> string \<Rightarrow> string" where
  "partial_msg uid buf = snprintf (MAXLINE - 1) (''request from uid '' @ show_int uid @ '' not null terminated: '' @ buf @ [NEWLINE])"

definition answer :: "henv \<Rightarrow> int \<Rightarrow> string \<Rightarrow> int \<Rightarrow> string \<Rightarrow> sent list" where
  "answer E uid name fl buf = (if buf = cs_request name fl then reply E name fl
     else [(partial_msg uid buf, None), ([NUL, CHR 0x01], None)])"

lemma cs_request_parts: "is_cstr name \<Longrightarrow> \<exists>s. cs_request name fl = s @ [NUL] \<and> is_cstr s"
  by (intro exI [of _ "CL_OPEN @ '' '' @ name @ '' '' @ show_int fl"]) (simp add: cs_request_def CL_OPEN_def)

lemma handle_request_part:
  assumes "is_cstr buf" "buf \<noteq> []" "h_mem E" "h_sm E = 2" "h_ws E = []"
  shows "\<exists>S'. handle_request E buf (length buf) uid S = Inr (S', [(partial_msg uid buf, None), ([NUL, CHR 0x01], None)])"
proof -
  have "buf ! (length buf - 1) \<noteq> NUL" using assms(1,2) by (metis is_cstr_def last_conv_nth last_in_set)
  then show ?thesis using assms c_str_id [OF assms(1)]
    by (simp add: handle_request_def send_err_ok partial_msg_def pad_def)
qed

lemma read_request_answer:
  assumes "name \<noteq> []" "\<forall>c \<in> set name. \<not> white c" "is_cstr name" "- (2 ^ 31) \<le> fl" "fl < 2 ^ 31"
    and E: "h_mem E" "h_sm E = 2" "h_ws E = []" and n: "0 < n"
  shows "\<exists>S'. read_request E (take n (cs_request name fl)) uid S = Inr (S', answer E uid name fl (take (min n MAXLINE) (cs_request name fl)))"
proof -
  let ?r = "cs_request name fl" and ?k = "min n MAXLINE"
  have r: "read_request E (take n ?r) uid S = handle_request E (take ?k ?r) (length (take ?k ?r)) uid S"
    by (simp add: read_request_def Let_def take_take min.commute del: length_take)
  show ?thesis
  proof (cases "take ?k ?r = ?r")
    case True
    then show ?thesis using handle_request_reply [OF assms(1-8)] r by (simp add: answer_def)
  next
    case False
    obtain s where s: "?r = s @ [NUL]" "is_cstr s" using cs_request_parts [OF assms(3)] by blast
    then have "take ?k ?r = take ?k s" using False by (cases "?k \<le> length s") auto
    moreover have "0 < ?k" using n by (simp add: MAXLINE_def)
    then have "take ?k ?r \<noteq> []" using s(1) by (metis append_is_Nil_conv not_Cons_self2 take_eq_Nil not_gr_zero)
    ultimately have "is_cstr (take ?k ?r)" "take ?k ?r \<noteq> []" using is_cstr_take [OF s(2)] by metis+
    then show ?thesis using handle_request_part [OF _ _ E] False r by (simp add: answer_def del: length_take take_all_iff)
  qed
qed

lemma csopen_refused:
  assumes "is_cstr m" "-999999999 \<le> fl" "fl < 2 ^ 31" "0 \<le> csfd" "\<And>b. uf b = int (length b)"
    and "wr (cs_request name fl) = int (length (cs_request name fl))" "delivers [(m, None), ([NUL, CHR 0x01], None)] rs"
  shows "csopen conn wr True uf rs name fl csfd = Inr (csfd, m, -1)"
  using recv_fd_delivered [of "[m]" "CHR 0x01" None rs uf "[]"] show_int_short [OF assms(2,3)] assms by (simp add: csopen_def)

lemma partial_msg_cstr: "is_cstr buf \<Longrightarrow> is_cstr (partial_msg uid buf)"
  unfolding partial_msg_def snprintf_def by (intro is_cstr_take) simp

text \<open>
  C16: a request makes the whole round. The path has no white space, and the calls that send succeed; the
  server gets at the request by one \<^verbatim>\<open>read\<close> of at most \<^verbatim>\<open>MAXLINE\<close> bytes, when its first \<open>n\<close> bytes have arrived.
  If that is all of it, \<^verbatim>\<open>open\<close> is called with exactly the path and the flags the client named, and the
  client's call returns the new descriptor, or -1 after the message (as far as it fits its buffer) has
  been handed to the user function. If it is a part, because the request came in pieces or is longer
  than \<^verbatim>\<open>MAXLINE\<close>, nothing is opened for it and the client gets -1 and a message that quotes the part. The answer
  may reach the client in any pieces.
\<close>

theorem csopen_round:
  assumes "name \<noteq> []" "\<forall>c \<in> set name. \<not> white c" "is_cstr name" "-999999999 \<le> fl" "fl < 2 ^ 31" "0 \<le> csfd"
    and E: "h_mem E" "h_sm E = 2" "h_ws E = []" "is_cstr (h_err E)"
    and uf: "\<And>b. uf b = int (length b)" and wr: "wr (cs_request name fl) = int (length (cs_request name fl))"
    and n: "0 < n"
  shows "\<exists>S' sent. read_request E (take n (cs_request name fl)) uid S = Inr (S', sent) \<and>
    (\<forall>rs. delivers sent rs \<longrightarrow> csopen conn wr True uf rs name fl csfd =
      (if min n MAXLINE < length (cs_request name fl)
       then Inr (csfd, partial_msg uid (take (min n MAXLINE) (cs_request name fl)), -1)
       else if h_open E name fl < 0 then Inr (csfd, open_msg E name, -1)
       else Inr (csfd, [], h_open E name fl)))"
proof -
  let ?r = "cs_request name fl" and ?k = "min n MAXLINE"
  have "- (2 ^ 31) \<le> fl" using assms(4) by simp
  then obtain S' where S': "read_request E (take n ?r) uid S = Inr (S', answer E uid name fl (take ?k ?r))"
    using read_request_answer [OF assms(1-3) _ assms(5) E(1-3) n] by blast
  have "csopen conn wr True uf rs name fl csfd =
      (if ?k < length ?r then Inr (csfd, partial_msg uid (take ?k ?r), -1)
       else if h_open E name fl < 0 then Inr (csfd, open_msg E name, -1) else Inr (csfd, [], h_open E name fl))"
    if rs: "delivers (answer E uid name fl (take ?k ?r)) rs" for rs
  proof (cases "?k < length ?r")
    case True
    then have "length (take ?k ?r) \<noteq> length ?r" by simp
    then have p: "take ?k ?r \<noteq> ?r" by metis
    obtain s where s: "?r = s @ [NUL]" "is_cstr s" using cs_request_parts [OF assms(3)] by blast
    then have "take ?k ?r = take ?k s" using True by simp
    then have "is_cstr (partial_msg uid (take ?k ?r))" using partial_msg_cstr is_cstr_take [OF s(2)] by simp
    moreover have "delivers [(partial_msg uid (take ?k ?r), None), ([NUL, CHR 0x01], None)] rs"
      using rs p by (simp only: answer_def if_False)
    ultimately show ?thesis using csopen_refused [of _ fl csfd uf wr name] assms(4-6) uf wr True by simp
  next
    case False
    then have "take ?k ?r = ?r" by (intro take_all) linarith
    then have "delivers (reply E name fl) rs" using rs by (simp add: answer_def)
    then show ?thesis using csopen_answer [of name fl csfd E uf wr rs] assms False by simp
  qed
  then show ?thesis using S' by blast
qed

text \<open>A missing file; the message arrives in two pieces, the second together with the status.\<close>

theorem csopen_round_witness:
  "csopen 4 (\<lambda>b. int (length b)) True (\<lambda>b. int (length b)) [Rmsg ''can't open'' None, Rmsg ('' g: No such file'' @ [NEWLINE, NUL, CHR 0x01]) None] ''g'' 2 4 =
     Inr (4, ''can't open g: No such file'' @ [NEWLINE], -1)"
proof -
  let ?n = "\<lambda>b. int (length b)" and ?rs = "[Rmsg ''can't open'' None, Rmsg ('' g: No such file'' @ [NEWLINE, NUL, CHR 0x01]) None]"
  have w: "\<forall>c \<in> set ''g''. \<not> white c" "is_cstr ''g''" by (auto simp: white_def)
  have E: "h_mem demo_henv" "h_sm demo_henv = 2" "h_ws demo_henv = []" "is_cstr (h_err demo_henv)" by (simp_all add: demo_henv_def)
  have m: "h_open demo_henv ''g'' 2 = -1" "open_msg demo_henv ''g'' = ''can't open g: No such file'' @ [NEWLINE]"
    by (simp_all add: demo_henv_def open_msg_def snprintf_def MAXLINE_def)
  have l: "length (cs_request ''g'' 2) = 9" by (simp add: cs_request_def CL_OPEN_def show_int_def show_nat.simps)
  have "\<exists>S'. read_request demo_henv (take 9 (cs_request ''g'' 2)) 7 demo_srv = Inr (S', answer demo_henv 7 ''g'' 2 (take (min 9 MAXLINE) (cs_request ''g'' 2)))"
    using w E by (intro read_request_answer) simp_all
  moreover have "answer demo_henv 7 ''g'' 2 (take (min 9 MAXLINE) (cs_request ''g'' 2)) = reply demo_henv ''g'' 2"
    using l by (simp add: answer_def MAXLINE_def)
  moreover have "delivers (reply demo_henv ''g'' 2) ?rs"
    unfolding delivers_def by (intro exI [of _ "[''can't open'']"] exI [of _ "'' g: No such file'' @ [NEWLINE]"]) (simp add: reply_def m MAXLINE_def)
  ultimately show ?thesis using csopen_round [of "''g''" 2 4 demo_henv ?n ?n 9 7 demo_srv 4] w E m l
    by (auto simp: MAXLINE_def)
qed

section \<open>The loop with poll\<close>

text \<open>Clients \<open>a\<close> and \<open>b\<close> connect, \<open>a\<close> hangs up, \<open>b\<close> sends a request.\<close>

definition poll_history :: "int \<Rightarrow> int \<times> int \<Rightarrow> int \<times> int \<Rightarrow> string \<Rightarrow> sv_err + ploop" where
  "poll_history l a b buf =
     bindR (poll_start demo_mem l demo_srv) (\<lambda>L. bindR (poll_turn (demo_accept l (fst a) (snd a)) {} L)
       (\<lambda>L. bindR (poll_turn (demo_accept l (fst b) (snd b)) {} L)
         (\<lambda>L. bindR (poll_turn (demo_reads (fst a) []) {fst a} L) (poll_turn (demo_reads (fst b) buf) {}))))"

text \<open>The unused rest of the two arrays.\<close>

definition free_slots :: "nat \<Rightarrow> client_tab" where "free_slots n = replicate n (-1, 7)"
definition free_polls :: "nat \<Rightarrow> pfd list" where "free_polls n = replicate n (-1, False, False)"

lemma free_Suc: "free_slots (Suc n) = (-1, 7) # free_slots n" "free_polls (Suc n) = (-1, False, False) # free_polls n"
  by (simp_all add: free_slots_def free_polls_def)

lemma history_start:
  assumes "0 \<le> l"
  shows "poll_start demo_mem l demo_srv = Inr \<lparr>p_client = (l, 0) # free_slots 9, pollfds = (l, False, False) # free_polls 9, numfd = 1, p_srv = demo_srv, p_log = []\<rparr>"
proof -
  have "map (\<lambda>i. (-1, a_junk demo_mem i)) [0..<NALLOC] = free_slots 10"
    by (simp add: free_slots_def demo_mem_def NALLOC_def map_replicate_const)
  moreover have "free_slots 10 = (-1, 7) # free_slots 9" "replicate NALLOC (-1, False, False) = (-1, False, False) # free_polls 9"
    by (simp_all add: free_slots_def free_polls_def NALLOC_def numeral_eq_Suc)
  ultimately show ?thesis using assms
    by (simp add: poll_start_def client_add_def client_alloc_def add_again.simps demo_mem_def)
qed

lemma history_accept1:
  assumes "0 \<le> l" "0 \<le> fd" "fd \<noteq> l"
  shows "poll_turn (demo_accept l fd u) {} \<lparr>p_client = (l, 0) # free_slots 9, pollfds = (l, False, False) # free_polls 9, numfd = 1, p_srv = S, p_log = []\<rparr> =
    Inr \<lparr>p_client = (l, 0) # (fd, u) # free_slots 8, pollfds = (l, False, True) # (fd, False, False) # free_polls 8, numfd = 2, p_srv = S, p_log = []\<rparr>"
proof -
  have e: "free_slots 9 = (-1, 7) # free_slots 8" "free_polls 9 = (-1, False, False) # free_polls 8" "length (free_polls n) = n" for n
    by (simp_all add: free_slots_def free_polls_def numeral_eq_Suc)
  show ?thesis using assms unfolding e
    by (simp add: poll_turn_def poll_ready_def poll_accept_def client_add_def add_again.simps poll_clients.simps demo_accept_def e eval_nat_numeral)
qed


lemma history_accept2:
  assumes "0 \<le> l" "0 \<le> a" "a \<noteq> l" "0 \<le> fd" "fd \<noteq> l" "fd \<noteq> a"
  shows "poll_turn (demo_accept l fd u) {} \<lparr>p_client = (l, 0) # (a, ua) # free_slots 8, pollfds = (l, False, True) # (a, False, False) # free_polls 8, numfd = 2, p_srv = S, p_log = []\<rparr> =
    Inr \<lparr>p_client = (l, 0) # (a, ua) # (fd, u) # free_slots 7, pollfds = (l, False, True) # (a, False, False) # (fd, False, False) # free_polls 7, numfd = 3, p_srv = S, p_log = []\<rparr>"
proof -
  have e: "free_slots 8 = (-1, 7) # free_slots 7" "free_polls 8 = (-1, False, False) # free_polls 7" "length (free_polls n) = n" for n
    by (simp_all add: free_slots_def free_polls_def numeral_eq_Suc)
  show ?thesis using assms unfolding e
    by (simp add: poll_turn_def poll_ready_def poll_accept_def client_add_def add_again.simps poll_clients.simps demo_accept_def e eval_nat_numeral)
qed

lemma history_hangup:
  assumes "0 \<le> l" "0 \<le> a" "a \<noteq> l" "0 \<le> b" "b \<noteq> l" "b \<noteq> a"
  shows "poll_turn (demo_reads a []) {a} \<lparr>p_client = (l, 0) # (a, ua) # (b, ub) # cs, pollfds = (l, False, True) # (a, False, False) # (b, False, False) # ps, numfd = 3, p_srv = S, p_log = []\<rparr> =
    Inr \<lparr>p_client = (l, 0) # (-1, ua) # (b, ub) # cs, pollfds = (l, False, False) # (b, False, False) # (b, False, False) # ps, numfd = 2, p_srv = S, p_log = []\<rparr>"
  using assms
  by (simp add: poll_turn_def poll_ready_def poll_hungup_def client_del_def poll_clients.simps demo_reads_def eval_nat_numeral)

lemma history_request:
  assumes "0 \<le> l" "0 \<le> b" "b \<noteq> l" "buf \<noteq> []"
  shows "\<exists>L. poll_turn (demo_reads b buf) {} \<lparr>p_client = (l, 0) # (-1, ua) # (b, ub) # cs, pollfds = (l, False, False) # (b, False, False) # (b, False, False) # ps, numfd = 2, p_srv = S, p_log = []\<rparr> =
    Inr L \<and> p_log L = [(b, ua, buf)]"
proof -
  have "can_send demo_henv" by (simp add: can_send_def demo_henv_def)
  then obtain S' ss where "handle_request demo_henv buf (length buf) ua S = Inr (S', ss)" using handle_request_ok by blast
  then show ?thesis using assms
    by (simp add: poll_turn_def poll_ready_def poll_clients.simps demo_reads_def eval_nat_numeral)
qed

text \<open>
  C17: the loop with \<^verbatim>\<open>poll\<close> looks users up in the table of clients by the index of its own array, which it
  packs when a client leaves while the table keeps its places: after the first of two clients has
  hung up, the request of the second is served under the user of the first.
\<close>

theorem poll_wrong_user:
  assumes "0 \<le> l" "0 \<le> a" "0 \<le> b" "distinct [l, a, b]" "buf \<noteq> []"
  shows "\<exists>L. poll_history l (a, ua) (b, ub) buf = Inr L \<and> p_log L = [(b, ua, buf)]"
proof -
  have n: "a \<noteq> l" "b \<noteq> l" "b \<noteq> a" using assms(4) by auto
  show ?thesis
    using history_request [OF assms(1,3) n(2) assms(5), of ua ub "free_slots 7" "free_polls 7" demo_srv]
    by (simp add: poll_history_def history_start [OF assms(1)] history_accept1 [OF assms(1,2) n(1)]
      history_accept2 [OF assms(1,2) n(1) assms(3) n(2,3)] history_hangup [OF assms(1,2) n(1) assms(3) n(2,3)] del: One_nat_def)
qed

theorem poll_wrong_user_witness: "\<exists>L. poll_history 3 (5, 100) (6, 200) ''x'' = Inr L \<and> p_log L = [(6, 100, ''x'')]"
  using poll_wrong_user [of 3 5 6 "''x''" 100 200] by simp

end
