(* ===== verification/Dns.thy ===== *)
theory Dns
  imports Io "HOL-Library.Monad_Syntax"
begin

text \<open>
  The packets of the DNS client \<^verbatim>\<open>LinuxLesson/2.3.1-coroutine-main/async_dns_client_noblock.c\<close>: the request
  it builds and the parser of the answer, on the bytes of its buffers. A read or write outside a
  buffer is the error \<open>Undefined\<close>; a loop that does not end is \<open>None\<close>.
\<close>

unbundle bit_operations_syntax

datatype dns_err = Undefined string

section \<open>Bytes\<close>

definition rd8 :: "string \<Rightarrow> nat \<Rightarrow> dns_err + nat" where
  "rd8 buf i = (if i < length buf then Inr (of_char (buf ! i)) else Inl (Undefined ''read''))"

text \<open>\<^verbatim>\<open>ntohs(*(unsigned short* )ptr)\<close>; \<^verbatim>\<open>htons\<close> is the same function.\<close>

definition rd16 :: "string \<Rightarrow> nat \<Rightarrow> dns_err + nat" where
  "rd16 buf i = bindR (rd8 buf i) (\<lambda>h. bindR (rd8 buf (i + 1)) (\<lambda>l. Inr (256 * h + l)))"

definition put_bytes :: "string \<Rightarrow> nat \<Rightarrow> string \<Rightarrow> dns_err + string" where
  "put_bytes buf i s = (if i + length s \<le> length buf then Inr (take i buf @ s @ drop (i + length s) buf) else Inl (Undefined ''write''))"

definition get_bytes :: "string \<Rightarrow> nat \<Rightarrow> nat \<Rightarrow> dns_err + string" where
  "get_bytes buf i n = (if i + n \<le> length buf then Inr (take n (drop i buf)) else Inl (Undefined ''read''))"

section \<open>The request\<close>

text \<open>The members of the two structures as the bytes they have in memory; \<open>rnd\<close> are the bytes of \<^verbatim>\<open>id\<close>.\<close>

record dns_header =
  h_id :: string
  h_flags :: string
  h_qdcount :: string
  h_ancount :: string
  h_nscount :: string
  h_arcount :: string

record dns_question =
  q_length :: nat
  q_qtype :: string
  q_qclass :: string
  q_qname :: string

definition dns_create_header :: "string \<Rightarrow> dns_header" where
  "dns_create_header rnd =
    (let header = \<lparr>h_id = be16 0, h_flags = be16 0, h_qdcount = be16 0, h_ancount = be16 0, h_nscount = be16 0, h_arcount = be16 0\<rparr>;
         header = header\<lparr>h_id := rnd\<rparr>;
         header = header\<lparr>h_flags := be16 0x0100\<rparr>
     in header\<lparr>h_qdcount := be16 1\<rparr>)"

text \<open>
  The loop over the labels: the length goes into one byte, \<^verbatim>\<open>strncpy\<close> with \<^verbatim>\<open>len + 1\<close> copies the label and a
  null byte, over which the next length is written.
\<close>

function qname_loop :: "string \<Rightarrow> nat \<Rightarrow> string \<Rightarrow> dns_err + string" where
  "qname_loop qname p rest = (case strtok_by (\<lambda>c. c = CHR ''.'') rest of
      None \<Rightarrow> Inr qname
    | Some (token, rest) \<Rightarrow>
        let len = length token in
        bindR (put_bytes qname p [char_of (len mod 256)]) (\<lambda>qname.
        bindR (put_bytes qname (p + 1) (token @ [NUL])) (\<lambda>qname.
          qname_loop qname (p + 1 + len) rest)))"
  by pat_completeness auto
termination by (relation "measure (\<lambda>(qname, p, rest). length rest)") (auto dest: strtok_shorter)

declare qname_loop.simps [simp del]

text \<open>\<open>mem\<close> is the memory \<^verbatim>\<open>malloc\<close> returns, with whatever it contains (\<open>None\<close>: no memory).\<close>

definition dns_create_question :: "string option \<Rightarrow> string \<Rightarrow> dns_err + (dns_question \<times> int)" where
  "dns_create_question mem hostname =
    (case mem of
       None \<Rightarrow> Inr (\<lparr>q_length = 0, q_qtype = be16 0, q_qclass = be16 0, q_qname = []\<rparr>, -2)
     | Some qname \<Rightarrow>
         bindR (qname_loop (take (length hostname + 2) qname) 0 hostname) (\<lambda>qname.
           Inr (\<lparr>q_length = length hostname + 2, q_qtype = be16 1, q_qclass = be16 1, q_qname = qname\<rparr>, 0)))"

definition dns_build_request :: "dns_header \<Rightarrow> dns_question \<Rightarrow> string \<Rightarrow> dns_err + (string \<times> nat)" where
  "dns_build_request header question request =
    (let hs = h_id header @ h_flags header @ h_qdcount header @ h_ancount header @ h_nscount header @ h_arcount header;
         len = q_length question + 4 + 12; offset = 0 in
     bindR (put_bytes request offset hs) (\<lambda>request. let offset = offset + 12 in
     bindR (get_bytes (q_qname question) 0 (q_length question)) (\<lambda>qname.
     bindR (put_bytes request offset qname) (\<lambda>request. let offset = offset + q_length question in
     bindR (put_bytes request offset (q_qtype question)) (\<lambda>request. let offset = offset + 2 in
     bindR (put_bytes request offset (q_qclass question)) (\<lambda>request. Inr (request, len)))))))"

section \<open>The answer\<close>

definition is_pointer :: "nat \<Rightarrow> bool" where
  "is_pointer i \<longleftrightarrow> i AND 0xC0 = 0xC0"

text \<open>
  \<^verbatim>\<open>dns_parse_name\<close>: \<open>ptr\<close> is an index into \<open>chunk\<close>, \<open>pos\<close> one into \<open>out\<close>; \<open>len\<close> is \<^verbatim>\<open>*len\<close>. The call for a pointer
  is the last thing the function does, with \<open>pos\<close> set from \<open>len\<close> again.
\<close>

partial_function (option) dns_parse_name :: "string \<Rightarrow> nat \<Rightarrow> nat \<Rightarrow> string \<Rightarrow> nat \<Rightarrow> (dns_err + string \<times> nat) option" where
  "dns_parse_name chunk ptr pos out len = (case rd8 chunk ptr of
     Inl e \<Rightarrow> Some (Inl e)
   | Inr flag \<Rightarrow>
       if flag = 0 then Some (Inr (out, len))
       else if is_pointer flag then
         (case rd8 chunk (ptr + 1) of Inl e \<Rightarrow> Some (Inl e) | Inr n \<Rightarrow> dns_parse_name chunk n len out len)
       else
         (case bindR (get_bytes chunk (ptr + 1) flag) (put_bytes out pos) of
            Inl e \<Rightarrow> Some (Inl e)
          | Inr out \<Rightarrow>
              (case rd8 chunk (ptr + 1 + flag) of
                 Inl e \<Rightarrow> Some (Inl e)
               | Inr c \<Rightarrow>
                   if c \<noteq> 0 then
                     (case put_bytes out (pos + flag) ''.'' of
                        Inl e \<Rightarrow> Some (Inl e)
                      | Inr out \<Rightarrow> dns_parse_name chunk (ptr + 1 + flag) (pos + flag + 1) out (len + flag + 1))
                   else dns_parse_name chunk (ptr + 1 + flag) (pos + flag) out (len + flag))))"

text \<open>The loop over one question, and over the questions.\<close>

function skip_name :: "string \<Rightarrow> nat \<Rightarrow> dns_err + nat" where
  "skip_name buf ptr = bindR (rd8 buf ptr) (\<lambda>flag.
     if flag = 0 then Inr (ptr + flag + 1) else skip_name buf (ptr + flag + 1))"
  by pat_completeness auto
termination by (relation "measure (\<lambda>(buf, ptr). length buf - ptr)") (auto simp: rd8_def split: if_splits)

declare skip_name.simps [simp del]

primrec skip_questions :: "nat \<Rightarrow> string \<Rightarrow> nat \<Rightarrow> dns_err + nat" where
  "skip_questions 0 buf ptr = Inr ptr"
| "skip_questions (Suc n) buf ptr = bindR (skip_name buf ptr) (\<lambda>ptr. skip_questions n buf (ptr + 4))"

definition DNS_HOST :: nat where "DNS_HOST = 1"
definition DNS_CNAME :: nat where "DNS_CNAME = 5"

text \<open>\<^verbatim>\<open>inet_ntop\<close> for four bytes; an item is a domain and an address, as strings.\<close>

definition inet_ntop :: "string \<Rightarrow> string" where
  "inet_ntop netip = show_nat (of_char (netip ! 0)) @ ''.'' @ show_nat (of_char (netip ! 1)) @ ''.'' @
     show_nat (of_char (netip ! 2)) @ ''.'' @ show_nat (of_char (netip ! 3))"

type_synonym dns_item = "string \<times> string"

text \<open>The resource data of one answer: where the next answer starts, and the list.\<close>

definition answer_data :: "string \<Rightarrow> nat \<Rightarrow> nat \<Rightarrow> nat \<Rightarrow> string \<Rightarrow> dns_item list \<Rightarrow> (dns_err + nat \<times> dns_item list) option" where
  "answer_data buf ptr rtype datalen aname items =
    (if rtype = DNS_CNAME then
       do { r \<leftarrow> dns_parse_name buf ptr 0 (replicate 128 NUL) 0; Some (bindR r (\<lambda>_. Inr (ptr + datalen, items))) }
     else if rtype = DNS_HOST then
       if datalen = 4 then
         Some (bindR (get_bytes buf ptr datalen) (\<lambda>netip.
           if NUL \<notin> set aname then Inl (Undefined ''strlen'')
           else Inr (ptr + datalen, items @ [(c_str aname, inet_ntop netip)])))
       else Some (Inr (ptr + datalen, items))
     else Some (Inr (ptr, items)))"

definition parse_answer :: "string \<Rightarrow> nat \<Rightarrow> dns_item list \<Rightarrow> (dns_err + nat \<times> dns_item list) option" where
  "parse_answer buf ptr items =
    do { r \<leftarrow> dns_parse_name buf ptr 0 (replicate 128 NUL) 0;
         (case bindR r (\<lambda>(aname, len). bindR (rd16 buf (ptr + 2)) (\<lambda>rtype. bindR (rd16 buf (ptr + 6)) (\<lambda>ttl.
                  bindR (rd16 buf (ptr + 10)) (\<lambda>datalen. Inr (aname, rtype, datalen))))) of
            Inl e \<Rightarrow> Some (Inl e)
          | Inr (aname, rtype, datalen) \<Rightarrow> answer_data buf (ptr + 12) rtype datalen aname items) }"

primrec parse_answers :: "nat \<Rightarrow> string \<Rightarrow> nat \<Rightarrow> dns_item list \<Rightarrow> (dns_err + dns_item list) option" where
  "parse_answers 0 buf ptr items = Some (Inr items)"
| "parse_answers (Suc n) buf ptr items =
    do { r \<leftarrow> parse_answer buf ptr items;
         (case r of Inl e \<Rightarrow> Some (Inl e) | Inr (ptr, items) \<Rightarrow> parse_answers n buf ptr items) }"

text \<open>\<open>mem\<close>: whether \<^verbatim>\<open>calloc\<close> has memory for the list; the count returned is the length of the list.\<close>

definition dns_parse_response :: "bool \<Rightarrow> string \<Rightarrow> (dns_err + dns_item list \<times> int) option" where
  "dns_parse_response mem buf =
    (case bindR (rd16 buf 4) (\<lambda>querys. bindR (rd16 buf 6) (\<lambda>answers. bindR (skip_questions querys buf 12) (\<lambda>ptr. Inr (answers, ptr)))) of
       Inl e \<Rightarrow> Some (Inl e)
     | Inr (answers, ptr) \<Rightarrow>
         if \<not> mem then Some (Inr ([], -1))
         else do { r \<leftarrow> parse_answers answers buf ptr []; Some (bindR r (\<lambda>items. Inr (items, int (length items)))) })"

end
