(* ===== verification/Dns_Spec.thy ===== *)
theory Dns_Spec
  imports Dns Io_Spec
begin

text \<open>
  The DNS client's packets: a host name is encoded as its labels, within the memory allocated for it;
  the parser of names decodes what the client encodes, directly or through a pointer; answers with
  address and alias records are parsed completely; and a pointer to itself makes the parser run for
  ever.
\<close>

section \<open>Labels\<close>

definition label :: "string \<Rightarrow> bool" where
  "label l \<longleftrightarrow> l \<noteq> [] \<and> length l \<le> 63 \<and> CHR ''.'' \<notin> set l \<and> NUL \<notin> set l"

fun host :: "string list \<Rightarrow> string" where
  "host [] = []"
| "host [l] = l"
| "host (l # ls) = l @ CHR ''.'' # host ls"

fun enc_labels :: "string list \<Rightarrow> string" where
  "enc_labels [] = [NUL]"
| "enc_labels (l # ls) = char_of (length l) # l @ enc_labels ls"

lemma host_Cons: "host (l # ls) = (if ls = [] then l else l @ CHR ''.'' # host ls)"
  by (cases ls) simp_all

lemma length_enc: "ls \<noteq> [] \<Longrightarrow> length (enc_labels ls) = length (host ls) + 2"
  by (induction ls rule: host.induct) auto

lemma is_cstr_host: "\<forall>l \<in> set ls. label l \<Longrightarrow> is_cstr (host ls)"
  by (induction ls rule: host.induct) (auto simp: label_def is_cstr_def)

lemma put_bytes_mid: "length a = i \<Longrightarrow> length s = length b \<Longrightarrow> put_bytes (a @ b @ c) i s = Inr (a @ s @ c)"
  by (simp add: put_bytes_def)

lemma put_bytes_eq:
  assumes "i + length s \<le> length buf"
  shows "put_bytes buf i s = Inr (take i buf @ s @ drop (i + length s) buf)"
  using assms by (simp add: put_bytes_def)

text \<open>One turn of the loop over the labels.\<close>

lemma put_label:
  assumes "p + length t + 2 \<le> length q"
  shows "bindR (put_bytes q p [c]) (\<lambda>q. bindR (put_bytes q (p + 1) (t @ [NUL])) k) = k (take p q @ c # t @ NUL # drop (p + length t + 2) q)"
proof -
  have "put_bytes q p [c] = Inr (take p q @ c # drop (p + 1) q)" using assms by (simp add: put_bytes_def)
  moreover have "put_bytes (take p q @ c # drop (p + 1) q) (p + 1) (t @ [NUL]) = Inr (take p q @ c # t @ NUL # drop (p + length t + 2) q)"
    using assms by (simp add: put_bytes_def min_def add.commute)
  ultimately show ?thesis by simp
qed

abbreviation dot :: "char \<Rightarrow> bool" where "dot \<equiv> \<lambda>c. c = CHR ''.''"

lemma qname_turn:
  assumes "strtok_by dot rest = Some (t, r)" "p + length t + 2 \<le> length q"
  shows "qname_loop q p rest = qname_loop (take p q @ char_of (length t mod 256) # t @ NUL # drop (p + length t + 2) q) (p + 1 + length t) r"
  using assms(1) put_label [OF assms(2), of "char_of (length t mod 256)" "\<lambda>q. qname_loop q (p + 1 + length t) r"]
  by (subst qname_loop.simps) (simp add: Let_def)

lemma qname_stop: "strtok_by dot rest = None \<Longrightarrow> qname_loop q p rest = Inr q"
  by (subst qname_loop.simps) simp

lemma qname_loop_labels:
  assumes "\<forall>l \<in> set ls. label l" "ls \<noteq> []" "p + length (enc_labels ls) \<le> length q"
  shows "qname_loop q p (host ls) = Inr (take p q @ enc_labels ls @ drop (p + length (enc_labels ls)) q)"
  using assms
proof (induction ls arbitrary: p q rule: host.induct)
  case (2 l)
  have l: "l \<noteq> []" "\<forall>c \<in> set l. c \<noteq> CHR ''.''" "length l mod 256 = length l" using 2 by (auto simp: label_def)
  have "strtok_by dot [] = None" by (simp add: strtok_by_def)
  then show ?case using 2 l qname_turn [OF strtok_last [OF l(1,2)], of p q] by (simp add: qname_stop add.commute)
next
  case (3 l m ls)
  let ?k = "p + 1 + length l" and ?q = "take p q @ char_of (length l) # l @ NUL # drop (p + length l + 2) q" and ?e = "enc_labels (m # ls)"
  have l: "l \<noteq> []" "\<forall>c \<in> set l. c \<noteq> CHR ''.''" "length l mod 256 = length l" using 3 by (auto simp: label_def)
  have e: "2 \<le> length ?e" using length_enc [of "m # ls"] by (simp del: enc_labels.simps host.simps)
  then have r: "p + length l + 2 \<le> length q" "?k + length ?e \<le> length ?q" using "3.prems"(3) by simp_all
  have "qname_loop q p (host (l # m # ls)) = qname_loop ?q ?k (host (m # ls))"
    using qname_turn [OF strtok_word [OF l(1,2), of "CHR ''.''" "host (m # ls)"] r(1)] l(3) by simp
  also have "\<dots> = Inr (take ?k ?q @ ?e @ drop (?k + length ?e) ?q)" using "3.IH" [OF _ _ r(2)] "3.prems"(1) by simp
  also have "take ?k ?q = take p q @ char_of (length l) # l" using r(1) by simp
  also have "drop (?k + length ?e) ?q = drop (length ?e - 1) (drop (p + length l + 2) q)" using r(1) e by (simp add: drop_Cons' min_def)
  also have "\<dots> = drop (p + length (enc_labels (l # m # ls))) q" using e by (simp add: ac_simps)
  finally show ?case by simp
qed simp

text \<open>Whatever the host name, the loop stays inside the memory.\<close>

lemma strtok_sizes:
  assumes "strtok_by sep s = Some (t, r)"
  shows "length t + length r \<le> length s" "r \<noteq> [] \<Longrightarrow> length t + length r + 1 \<le> length s"
proof -
  let ?d = "dropWhile sep s"
  have t: "t = takeWhile (\<lambda>c. \<not> sep c) ?d" "r = tl (dropWhile (\<lambda>c. \<not> sep c) ?d)"
    using assms by (auto simp: strtok_by_def Let_def split: if_splits)
  have "length t + length (dropWhile (\<lambda>c. \<not> sep c) ?d) = length ?d" unfolding t by (metis length_append takeWhile_dropWhile_id)
  then have s: "length t + length (dropWhile (\<lambda>c. \<not> sep c) ?d) \<le> length s" by (metis length_dropWhile_le)
  have r: "length r = length (dropWhile (\<lambda>c. \<not> sep c) ?d) - 1" unfolding t by simp
  show "length t + length r \<le> length s" using s r by linarith
  show "length t + length r + 1 \<le> length s" if "r \<noteq> []"
  proof -
    have "0 < length r" using that by simp
    then show ?thesis using s r by linarith
  qed
qed

lemma qname_loop_safe:
  assumes "rest \<noteq> [] \<longrightarrow> p + length rest + 2 \<le> length q"
  shows "\<exists>q'. qname_loop q p rest = Inr q' \<and> length q' = length q"
  using assms
proof (induction "length rest" arbitrary: q p rest rule: less_induct)
  case less
  show ?case
  proof (cases "strtok_by dot rest")
    case None
    then show ?thesis by (simp add: qname_stop)
  next
    case (Some tr)
    then obtain t r where s: "strtok_by dot rest = Some (t, r)" by (cases tr) simp
    have "rest \<noteq> []" using s by (auto simp: strtok_by_def)
    then have b: "p + length t + 2 \<le> length q" using less.prems strtok_sizes(1) [OF s] by simp
    let ?q = "take p q @ char_of (length t mod 256) # t @ NUL # drop (p + length t + 2) q"
    have l: "length ?q = length q" using b by simp
    have "r \<noteq> [] \<longrightarrow> p + 1 + length t + length r + 2 \<le> length ?q" using less.prems \<open>rest \<noteq> []\<close> strtok_sizes(2) [OF s] l by auto
    then obtain q' where "qname_loop ?q (p + 1 + length t) r = Inr q'" "length q' = length ?q"
      using less.hyps [OF strtok_shorter [OF s]] by blast
    then show ?thesis using qname_turn [OF s b] l by metis
  qed
qed

section \<open>Names\<close>

lemma small_not_pointer: "n \<le> 63 \<Longrightarrow> \<not> is_pointer n"
proof -
  assume "n \<le> 63"
  then have "n \<in> set [0..<64]" by simp
  moreover have "\<forall>n \<in> set [0..<64]. \<not> is_pointer n" by code_simp
  ultimately show ?thesis by blast
qed

lemma rd8_mid: "rd8 (a @ c # b) (length a) = Inr (of_char c)"
  by (simp add: rd8_def nth_append)

lemma get_bytes_mid: "get_bytes (a @ b @ c) (length a) (length b) = Inr b"
  by (simp add: get_bytes_def)

text \<open>Decoding the labels at some place of the packet.\<close>

lemma parse_name_label:
  assumes chunk: "chunk = a @ char_of (length l) # l @ enc_labels ls @ r" and l: "label l" and n: "pos + length l + (if ls = [] then 0 else 1) \<le> length out"
    and ls: "\<forall>l \<in> set ls. label l"
  shows "dns_parse_name chunk (length a) pos out len =
    (if ls = [] then dns_parse_name chunk (length a + 1 + length l) (pos + length l) (take pos out @ l @ drop (pos + length l) out) (len + length l)
     else dns_parse_name chunk (length a + 1 + length l) (pos + length l + 1) (take pos out @ (l @ ''.'') @ drop (pos + length l + 1) out) (len + length l + 1))"
proof -
  have f: "rd8 chunk (length a) = Inr (length l)" "length l \<noteq> 0" "\<not> is_pointer (length l)"
    using rd8_mid [of a "char_of (length l)"] chunk l small_not_pointer [of "length l"] by (auto simp: label_def)
  have g: "get_bytes chunk (length a + 1) (length l) = Inr l"
    using get_bytes_mid [of "a @ [char_of (length l)]" l "enc_labels ls @ r"] chunk by simp
  have p: "put_bytes out pos l = Inr (take pos out @ l @ drop (pos + length l) out)" using n by (intro put_bytes_eq) simp
  obtain c e where e: "enc_labels ls = c # e" "of_char c = (case ls of [] \<Rightarrow> 0 | m # _ \<Rightarrow> length m)"
    using ls by (cases ls) (auto simp: label_def)
  have c: "rd8 chunk (length a + 1 + length l) = Inr (case ls of [] \<Rightarrow> 0 | m # _ \<Rightarrow> length m)"
    using rd8_mid [of "a @ char_of (length l) # l" c "e @ r"] chunk e by simp
  show ?thesis
  proof (cases "ls = []")
    case True
    then show ?thesis using f g p c by (subst dns_parse_name.simps) simp
  next
    case False
    have "put_bytes (take pos out @ l @ drop (pos + length l) out) (pos + length l) ''.'' = Inr (take pos out @ (l @ ''.'') @ drop (pos + length l + 1) out)"
      using n False put_bytes_eq [of "pos + length l" "''.''" "take pos out @ l @ drop (pos + length l) out"] by simp
    moreover have "(case ls of [] \<Rightarrow> 0 | m # _ \<Rightarrow> length m) \<noteq> 0" using False ls by (cases ls) (auto simp: label_def)
    ultimately show ?thesis using f g p c False by (subst dns_parse_name.simps) simp
  qed
qed

lemma parse_name_labels:
  assumes "chunk = a @ enc_labels ls @ r" "\<forall>l \<in> set ls. label l" "len + length (host ls) \<le> length out"
  shows "dns_parse_name chunk (length a) len out len = Some (Inr (take len out @ host ls @ drop (len + length (host ls)) out, len + length (host ls)))"
  using assms
proof (induction ls arbitrary: a out len)
  case Nil
  then have "rd8 chunk (length a) = Inr 0" using rd8_mid [of a NUL r] by simp
  then show ?case by (subst dns_parse_name.simps) simp
next
  case (Cons l ls)
  have chunk: "chunk = a @ char_of (length l) # l @ enc_labels ls @ r" "chunk = (a @ char_of (length l) # l) @ enc_labels ls @ r" "label l" using Cons.prems by auto
  note step = parse_name_label [OF chunk(1,3), of len out len]
  show ?case
  proof (cases "ls = []")
    case True
    then show ?thesis using step Cons.prems Cons.IH [OF chunk(2), of "len + length l" "take len out @ l @ drop (len + length l) out"] by simp
  next
    case False
    then have h: "host (l # ls) = (l @ ''.'') @ host ls" by (simp add: host_Cons)
    have o: "len + length l + 1 \<le> length out" using Cons.prems(3) h by simp
    show ?thesis using step Cons.prems o False h Cons.IH [OF chunk(2), of "len + length l + 1" "take len out @ (l @ ''.'') @ drop (len + length l + 1) out"]
      by simp (simp add: ac_simps)
  qed
qed

lemma parse_name_pointer:
  assumes "rd8 chunk ptr = Inr 192" "rd8 chunk (ptr + 1) = Inr n"
  shows "dns_parse_name chunk ptr pos out len = dns_parse_name chunk n len out len"
  using assms by (subst dns_parse_name.simps) (simp add: is_pointer_def)

text \<open>A pointer to itself.\<close>

lemma parse_name_loops:
  assumes "rd8 chunk n = Inr f" "is_pointer f" "rd8 chunk (n + 1) = Inr n"
  shows "dns_parse_name chunk n pos out len = None"
proof (rule ccontr)
  assume "dns_parse_name chunk n pos out len \<noteq> None"
  then obtain y where y: "dns_parse_name chunk n pos out len = Some y" by blast
  have nz: "f \<noteq> 0" using assms(2) small_not_pointer [of 0] by (intro notI) simp
  have "chunk' = chunk \<and> ptr = n \<longrightarrow> False" if "dns_parse_name chunk' ptr pos out len = Some y" for chunk' ptr pos out len y
  proof (rule dns_parse_name.raw_induct [OF _ that, of "\<lambda>c p _ _ _ _. c = chunk \<and> p = n \<longrightarrow> False"], goal_cases)
    case (1 g c p pos out len y)
    show ?case
    proof (intro impI)
      assume "c = chunk \<and> p = n"
      then have "g chunk n len out len = Some y" using 1(2) assms nz by simp
      then show False using 1(1) by blast
    qed
  qed
  then show False using y by blast
qed

section \<open>Answers\<close>

text \<open>
  A record of an answer: its class and time to live, and an address or an alias. Its name is a
  pointer to the name of the question.
\<close>

datatype rr = Address string string string | Alias string string "string list"

fun enc_rr :: "rr \<Rightarrow> string" where
  "enc_rr (Address cls ttl ip) = [CHR 0xC0, CHR 0x0C] @ be16 1 @ cls @ ttl @ be16 4 @ ip"
| "enc_rr (Alias cls ttl ls) = [CHR 0xC0, CHR 0x0C] @ be16 5 @ cls @ ttl @ be16 (length (enc_labels ls)) @ enc_labels ls"

fun wf_rr :: "rr \<Rightarrow> bool" where
  "wf_rr (Address cls ttl ip) \<longleftrightarrow> length cls = 2 \<and> length ttl = 4 \<and> length ip = 4"
| "wf_rr (Alias cls ttl ls) \<longleftrightarrow> length cls = 2 \<and> length ttl = 4 \<and> (\<forall>l \<in> set ls. label l) \<and> length (host ls) \<le> 128"

fun items_of :: "string \<Rightarrow> rr list \<Rightarrow> dns_item list" where
  "items_of name [] = []"
| "items_of name (Address cls ttl ip # rs) = (name, inet_ntop ip) # items_of name rs"
| "items_of name (Alias cls ttl ls # rs) = items_of name rs"

text \<open>The packet: identification and flags, the counts, one question, the answers, and what follows.\<close>

definition response :: "string \<Rightarrow> string \<Rightarrow> string list \<Rightarrow> string \<Rightarrow> rr list \<Rightarrow> string \<Rightarrow> string" where
  "response idfl nsar ls qtc rrs rest = idfl @ be16 1 @ be16 (length rrs) @ nsar @ enc_labels ls @ qtc @ concat (map enc_rr rrs) @ rest"

lemma be16_bytes: "n < 65536 \<Longrightarrow> 256 * of_char (char_of (n div 256 mod 256)) + of_char (char_of (n mod 256)) = (n :: nat)"
proof -
  assume "n < 65536"
  then have "n div 256 mod 256 = n div 256" by simp
  then show ?thesis by simp
qed

lemma rd16_mid:
  assumes "buf = a @ be16 n @ b" "n < 65536"
  shows "rd16 buf (length a) = Inr n"
proof -
  have "rd8 buf (length a) = Inr (of_char (char_of (n div 256 mod 256)))" using assms(1) by (simp add: be16_def rd8_def nth_append)
  moreover have "rd8 buf (length a + 1) = Inr (of_char (char_of (n mod 256)))" using assms(1) by (simp add: be16_def rd8_def nth_append)
  ultimately show ?thesis using be16_bytes [OF assms(2)] by (simp add: rd16_def)
qed

lemma length_be16 [simp]: "length (be16 n) = 2"
  by (simp add: be16_def)

lemma skip_name_labels:
  assumes "buf = a @ enc_labels ls @ b" "\<forall>l \<in> set ls. label l"
  shows "skip_name buf (length a) = Inr (length a + length (enc_labels ls))"
  using assms
proof (induction ls arbitrary: a)
  case Nil
  then have "rd8 buf (length a) = Inr 0" using rd8_mid [of a NUL b] by simp
  then show ?case by (subst skip_name.simps) simp
next
  case (Cons l ls)
  have b: "buf = (a @ char_of (length l) # l) @ enc_labels ls @ b" using Cons.prems(1) by simp
  have "rd8 buf (length a) = Inr (length l)" "length l \<noteq> 0"
    using rd8_mid [of a "char_of (length l)"] Cons.prems by (auto simp: label_def)
  then show ?case using Cons.IH [OF b] Cons.prems(2) by (subst skip_name.simps) (simp add: ac_simps)
qed

lemma answer_name:
  assumes buf: "buf = pre @ enc_labels ls @ mid" "length pre = 12" "buf = a @ [CHR 0xC0, CHR 0x0C] @ b"
    and ls: "\<forall>l \<in> set ls. label l" "length (host ls) \<le> 128"
  shows "dns_parse_name buf (length a) 0 (replicate 128 NUL) 0 = Some (Inr (host ls @ replicate (128 - length (host ls)) NUL, length (host ls)))"
proof -
  have "rd8 buf (length a) = Inr 192" "rd8 buf (length a + 1) = Inr 12" using buf(3) by (simp_all add: rd8_def nth_append)
  then have "dns_parse_name buf (length a) 0 (replicate 128 NUL) 0 = dns_parse_name buf (length pre) 0 (replicate 128 NUL) 0"
    using buf(2) by (simp add: parse_name_pointer)
  also have "\<dots> = Some (Inr (host ls @ replicate (128 - length (host ls)) NUL, length (host ls)))"
    using parse_name_labels [OF buf(1) ls(1), of 0 "replicate 128 NUL"] ls(2) by simp
  finally show ?thesis .
qed

lemma parse_answer_rr:
  assumes buf: "buf = pre @ enc_labels ls @ mid" "length pre = 12" "buf = a @ enc_rr r @ b"
    and ls: "\<forall>l \<in> set ls. label l" "length (host ls) < 128" and r: "wf_rr r"
  shows "parse_answer buf (length a) items = Some (Inr (length a + length (enc_rr r), items @ items_of (host ls) [r]))"
proof (cases r)
  case (Address cls ttl ip)
  have name: "dns_parse_name buf (length a) 0 (replicate 128 NUL) 0 = Some (Inr (host ls @ replicate (128 - length (host ls)) NUL, length (host ls)))"
    using Address ls(2) buf(3) by (intro answer_name [OF buf(1,2) _ ls(1)]) auto
  have "length cls = 2" "length ttl = 4" "length ip = 4" using r Address by auto
  then have "rd16 buf (length a + 2) = Inr 1" "rd16 buf (length a + 10) = Inr 4" "\<exists>t. rd16 buf (length a + 6) = Inr t" "get_bytes buf (length a + 12) 4 = Inr ip"
    using buf(3) Address rd16_mid [of buf "a @ [CHR 0xC0, CHR 0x0C]" 1] rd16_mid [of buf "a @ [CHR 0xC0, CHR 0x0C] @ be16 1 @ cls @ ttl" 4]
      get_bytes_mid [of "a @ [CHR 0xC0, CHR 0x0C] @ be16 1 @ cls @ ttl @ be16 4" ip b]
    by (auto simp: rd16_def rd8_def)
  moreover have "NUL \<in> set (host ls @ replicate (128 - length (host ls)) NUL)" using ls(2) by simp
  moreover have "c_str (host ls @ replicate (128 - length (host ls)) NUL) = host ls"
    by (simp add: is_cstr_host [OF ls(1)])
  ultimately show ?thesis using name Address \<open>length cls = 2\<close> \<open>length ttl = 4\<close> \<open>length ip = 4\<close>
    by (auto simp: parse_answer_def answer_data_def DNS_CNAME_def DNS_HOST_def)
next
  case (Alias cls ttl cs)
  have name: "dns_parse_name buf (length a) 0 (replicate 128 NUL) 0 = Some (Inr (host ls @ replicate (128 - length (host ls)) NUL, length (host ls)))"
    using Alias ls(2) buf(3) by (intro answer_name [OF buf(1,2) _ ls(1)]) auto
  let ?e = "enc_labels cs" and ?p = "a @ [CHR 0xC0, CHR 0x0C] @ be16 5 @ cls @ ttl"
  have wf: "length cls = 2" "length ttl = 4" "\<forall>l \<in> set cs. label l" "length (host cs) \<le> 128" using r Alias by auto
  then have "length ?e < 65536" using length_enc [of cs] by (cases "cs = []") auto
  then have "rd16 buf (length a + 2) = Inr 5" "rd16 buf (length a + 10) = Inr (length ?e)" "\<exists>t. rd16 buf (length a + 6) = Inr t"
    using buf(3) Alias wf rd16_mid [of buf "a @ [CHR 0xC0, CHR 0x0C]" 5] rd16_mid [of buf ?p "length ?e"]
    by (auto simp: rd16_def rd8_def)
  moreover have "\<exists>y. dns_parse_name buf (length a + 12) 0 (replicate 128 NUL) 0 = Some (Inr y)"
    using parse_name_labels [of buf "?p @ be16 (length ?e)" cs b 0 "replicate 128 NUL"] buf(3) Alias wf by simp
  ultimately show ?thesis using name Alias wf by (auto simp: parse_answer_def answer_data_def DNS_CNAME_def DNS_HOST_def)
qed

lemma items_of_Cons: "items_of name (r # rs) = items_of name [r] @ items_of name rs"
  by (cases r) simp_all

lemma parse_answers_rrs:
  assumes "buf = pre @ enc_labels ls @ mid" "length pre = 12" "buf = a @ concat (map enc_rr rrs) @ b"
    and ls: "\<forall>l \<in> set ls. label l" "length (host ls) < 128" and "\<forall>r \<in> set rrs. wf_rr r"
  shows "parse_answers (length rrs) buf (length a) items = Some (Inr (items @ items_of (host ls) rrs))"
  using assms(3,6)
proof (induction rrs arbitrary: a items)
  case (Cons r rrs)
  have "buf = a @ enc_rr r @ concat (map enc_rr rrs) @ b" "buf = (a @ enc_rr r) @ concat (map enc_rr rrs) @ b" using Cons.prems(1) by simp_all
  then show ?case using parse_answer_rr [OF assms(1,2) _ ls, of a r "concat (map enc_rr rrs) @ b" items] Cons.IH [of "a @ enc_rr r"] Cons.prems(2)
    by (simp add: items_of_Cons [of _ r rrs])
qed simp



section \<open>Requests\<close>

lemma create_question_host:
  assumes "\<forall>l \<in> set ls. label l" "ls \<noteq> []" "length junk = length (host ls) + 2"
  shows "dns_create_question (Some junk) (host ls) =
    Inr (\<lparr>q_length = length (host ls) + 2, q_qtype = be16 1, q_qclass = be16 1, q_qname = enc_labels ls\<rparr>, 0)"
  using qname_loop_labels [OF assms(1,2), of 0 junk] assms length_enc [OF assms(2)] by (simp add: dns_create_question_def)

lemma put_bytes_app: "length a = i \<Longrightarrow> length s \<le> length b \<Longrightarrow> put_bytes (a @ b) i s = Inr (a @ s @ drop (length s) b)"
  by (simp add: put_bytes_def)

lemma build_request_eq:
  assumes "length rnd = 2" "length q = n" "n + 16 \<le> 1024"
  shows "dns_build_request (dns_create_header rnd) \<lparr>q_length = n, q_qtype = be16 1, q_qclass = be16 1, q_qname = q\<rparr> (replicate 1024 NUL) =
    Inr ((rnd @ be16 0x0100 @ be16 1 @ be16 0 @ be16 0 @ be16 0) @ q @ be16 1 @ be16 1 @ replicate (1008 - n) NUL, n + 16)"
proof -
  let ?h = "rnd @ be16 0x0100 @ be16 1 @ be16 0 @ be16 0 @ be16 0"
  have "put_bytes (replicate 1024 NUL) 0 ?h = Inr (?h @ replicate 1012 NUL)" using assms put_bytes_app [of "[]" 0 ?h "replicate 1024 NUL"] by simp
  moreover have "get_bytes q 0 n = Inr q" using assms by (simp add: get_bytes_def)
  moreover have "put_bytes (?h @ replicate 1012 NUL) 12 q = Inr (?h @ q @ replicate (1012 - n) NUL)"
    using assms put_bytes_app [of ?h 12 q "replicate 1012 NUL"] by simp
  moreover have "put_bytes (?h @ q @ replicate (1012 - n) NUL) (12 + n) (be16 1) = Inr (?h @ q @ be16 1 @ replicate (1010 - n) NUL)"
    using assms put_bytes_app [of "?h @ q" "12 + n" "be16 1" "replicate (1012 - n) NUL"] by simp
  moreover have "put_bytes (?h @ q @ be16 1 @ replicate (1010 - n) NUL) (12 + n + 2) (be16 1) = Inr (?h @ q @ be16 1 @ be16 1 @ replicate (1008 - n) NUL)"
    using assms put_bytes_app [of "?h @ q @ be16 1" "12 + n + 2" "be16 1" "replicate (1010 - n) NUL"] by simp
  ultimately show ?thesis by (simp add: dns_build_request_def dns_create_header_def Let_def)
qed

text \<open>
  The request for a host name is well formed and reads back. For labels of at most 63 characters and
  a name that fits the buffer, the packet has the header of a standard query with one question,
  then the labels, then type and class; the length returned ends it; and the client's own parser
  reads the host name back from it, behind which the type begins.
\<close>

theorem dns_request_round:
  assumes "\<forall>l \<in> set ls. label l" "ls \<noteq> []" "length (host ls) \<le> 128" "length junk = length (host ls) + 2" "length rnd = 2"
  shows "\<exists>q req. dns_create_question (Some junk) (host ls) = Inr (q, 0) \<and>
    dns_build_request (dns_create_header rnd) q (replicate 1024 NUL) = Inr (req, length (host ls) + 18) \<and>
    take (length (host ls) + 18) req = rnd @ be16 0x0100 @ be16 1 @ be16 0 @ be16 0 @ be16 0 @ enc_labels ls @ be16 1 @ be16 1 \<and>
    skip_name req 12 = Inr (length (host ls) + 14) \<and>
    dns_parse_name req 12 0 (replicate 128 NUL) 0 = Some (Inr (host ls @ replicate (128 - length (host ls)) NUL, length (host ls)))"
proof -
  let ?n = "length (host ls) + 2" and ?h = "rnd @ be16 0x0100 @ be16 1 @ be16 0 @ be16 0 @ be16 0" and ?e = "enc_labels ls"
  let ?req = "?h @ ?e @ be16 1 @ be16 1 @ replicate (1008 - ?n) NUL"
  have e: "length ?e = ?n" using length_enc [OF assms(2)] .
  have "dns_build_request (dns_create_header rnd) \<lparr>q_length = ?n, q_qtype = be16 1, q_qclass = be16 1, q_qname = ?e\<rparr> (replicate 1024 NUL) = Inr (?req, ?n + 16)"
    using build_request_eq [OF assms(5) e] assms(3) by simp
  moreover have "skip_name ?req 12 = Inr (12 + ?n)" using skip_name_labels [of ?req ?h ls] assms(1,5) e by simp
  moreover have "dns_parse_name ?req 12 0 (replicate 128 NUL) 0 = Some (Inr (host ls @ replicate (128 - length (host ls)) NUL, length (host ls)))"
    using parse_name_labels [of ?req ?h ls _ 0 "replicate 128 NUL"] assms(1,3,5) by simp
  ultimately show ?thesis using create_question_host [OF assms(1,2,4)] e assms(5) by (intro exI conjI) (simp_all add: ac_simps)
qed

theorem dns_request_round_witness:
  "\<exists>q req. dns_create_question (Some ''xxxxxxx'') ''a.org'' = Inr (q, 0) \<and>
    dns_build_request (dns_create_header ''id'') q (replicate 1024 NUL) = Inr (req, 23) \<and>
    dns_parse_name req 12 0 (replicate 128 NUL) 0 = Some (Inr (''a.org'' @ replicate 123 NUL, 5))"
proof -
  have "label ''a''" "label ''org''" by (simp_all add: label_def)
  then show ?thesis using dns_request_round [of "[''a'', ''org'']" "''xxxxxxx''" "''id''"] by auto
qed

text \<open>
  C19: \<^verbatim>\<open>dns_create_question\<close> stays inside the memory it allocates for every host name: also for one with
  empty labels, with leading or trailing dots, or empty.
\<close>

theorem dns_question_bounds:
  assumes "length junk = length hostname + 2"
  shows "\<exists>q. dns_create_question (Some junk) hostname = Inr (q, 0) \<and> q_length q = length hostname + 2 \<and> length (q_qname q) = length hostname + 2"
  using qname_loop_safe [of hostname 0 junk] assms by (auto simp: dns_create_question_def)

theorem dns_question_bounds_witness:
  "\<exists>q. dns_create_question (Some ''xxxxxxx'') ''..a..'' = Inr (q, 0) \<and> q_length q = 7 \<and> length (q_qname q) = 7"
  using dns_question_bounds [of "''xxxxxxx''" "''..a..''"] by (simp add: eval_nat_numeral)

text \<open>
  A packet can stop the client: when the first answer's name is a pointer to itself, the parser
  follows it for ever.
\<close>

theorem dns_pointer_loop:
  assumes "rd16 buf 4 = Inr 0" "rd16 buf 6 = Inr (Suc n)" "rd8 buf 12 = Inr f" "is_pointer f" "rd8 buf 13 = Inr 12"
  shows "dns_parse_response True buf = None"
proof -
  have "dns_parse_name buf 12 0 (replicate 128 NUL) 0 = None" using parse_name_loops [OF assms(3,4)] assms(5) by simp
  then show ?thesis using assms(1,2) by (simp add: dns_parse_response_def parse_answer_def)
qed

theorem dns_pointer_loop_witness:
  "dns_parse_response True (replicate 7 NUL @ [CHR 0x01] @ replicate 4 NUL @ [CHR 0xC0, CHR 0x0C] @ replicate 1010 NUL) = None"
  by (rule dns_pointer_loop [of _ 0 192]) (simp_all add: rd16_def rd8_def nth_append is_pointer_def nth_Cons')

end
