(* ===== verification/Dns_Async.thy ===== *)
theory Dns_Async
  imports Dns "HOL-Library.Multiset"
begin

text \<open>
  The asynchronous half of the DNS client (\<^verbatim>\<open>async_dns_client_noblock.c\<close>): queries that are committed, and the
  thread that waits for their answers with \<^verbatim>\<open>epoll\<close>, calls the callbacks and releases what belongs to the query.
  The state has the sockets watched with their arguments, the open sockets, and the memory in use.
\<close>

definition ASYNC_CLIENT_NUM :: nat where "ASYNC_CLIENT_NUM = 1024"

datatype da_err = Exit int | Undef

text \<open>Memory: the name of a question, the argument of a socket, the list of an answer and its strings, the context.\<close>

datatype dblock = D_qname | D_eparg int | D_list | D_str | D_ctx

text \<open>\<open>d_reg\<close>: the callback (a number) in the argument registered for a socket; \<open>d_sent\<close>: the datagrams sent.\<close>

record dnsctx =
  d_reg :: "int \<rightharpoonup> nat"
  d_open :: "int set"
  d_mem :: "dblock multiset"
  d_sent :: "(int \<times> string) list"

text \<open>\<^verbatim>\<open>dns_async_client_init\<close>: what \<^verbatim>\<open>epoll_create\<close>, \<^verbatim>\<open>calloc\<close> and \<^verbatim>\<open>pthread_create\<close> return; the result is the context and the open
  descriptors, or none.\<close>

definition dns_async_client_init :: "int \<Rightarrow> bool \<Rightarrow> int \<Rightarrow> int set \<times> dblock multiset \<Rightarrow> (int set \<times> dblock multiset) \<times> int option" where
  "dns_async_client_init epfd mem ret h =
    (if epfd < 0 then (h, None)
     else let fds = insert epfd (fst h) in
       if \<not> mem then ((fds - {epfd}, snd h), None)
       else if ret \<noteq> 0 then ((fds, add_mset D_ctx (snd h)), None)
       else ((fds, add_mset D_ctx (snd h)), Some epfd))"

text \<open>What the calls of a commit return: \<^verbatim>\<open>socket\<close>, the bytes of \<^verbatim>\<open>random\<close>, memory for the name, whether there is memory for
  the argument, and \<^verbatim>\<open>epoll_ctl\<close>.\<close>

record cenv =
  c_sock :: int
  c_rnd :: string
  c_qname :: "string option"
  c_eparg :: bool
  c_ctl :: int

text \<open>The request of both ways to commit: header, question (whose return value is ignored) and buffer of 1024 bytes.\<close>

definition commit_request :: "string \<Rightarrow> string option \<Rightarrow> string \<Rightarrow> dns_err + string" where
  "commit_request rnd mem domain =
    bindR (dns_create_question mem domain) (\<lambda>(question, _).
    bindR (dns_build_request (dns_create_header rnd) question (replicate 1024 NUL)) (\<lambda>(request, req_len).
      Inr (take req_len request)))"

definition dns_async_client_commit :: "cenv \<Rightarrow> string \<Rightarrow> nat \<Rightarrow> dnsctx \<Rightarrow> da_err + dnsctx \<times> int" where
  "dns_async_client_commit E domain cb S =
    (let sockfd = c_sock E in
     if sockfd < 0 then Inl (Exit (-1))
     else case commit_request (c_rnd E) (c_qname E) domain of Inl _ \<Rightarrow> Inl Undef | Inr req \<Rightarrow>
       let S = S\<lparr>d_open := insert sockfd (d_open S), d_sent := d_sent S @ [(sockfd, req)],
                 d_mem := (if c_qname E = None then d_mem S else add_mset D_qname (d_mem S))\<rparr> in
       if \<not> c_eparg E then Inr (S, -1)
       else let S = S\<lparr>d_mem := add_mset (D_eparg sockfd) (d_mem S)\<rparr> in
         if c_ctl E < 0 then Inr (S, c_ctl E)
         else Inr (S\<lparr>d_reg := (d_reg S)(sockfd \<mapsto> cb)\<rparr>, c_ctl E))"

definition dns_async_client_free_domains :: "nat \<Rightarrow> dblock multiset \<Rightarrow> dblock multiset" where
  "dns_async_client_free_domains cnt h = h - replicate_mset cnt D_str - replicate_mset cnt D_str - {#D_list#}"

text \<open>
  One ready socket: the datagram (\<open>None\<close>: \<^verbatim>\<open>recvfrom\<close> failed) goes into a zeroed buffer of 1024 bytes; \<open>mem\<close> is whether
  there is memory for the list. The result has the callback that was made: its number, the items and the count.
\<close>

definition dgram_buffer :: "string option \<Rightarrow> string" where
  "dgram_buffer d = (let s = take 1024 (case d of None \<Rightarrow> [] | Some s \<Rightarrow> s) in s @ replicate (1024 - length s) NUL)"

definition proc_event :: "int \<times> string option \<times> bool \<Rightarrow> dnsctx \<Rightarrow> (da_err + dnsctx \<times> (nat \<times> dns_item list \<times> int)) option" where
  "proc_event ev S = (case ev of (sockfd, d, mem) \<Rightarrow>
     (case d_reg S sockfd of None \<Rightarrow> Some (Inl Undef) | Some cb \<Rightarrow>
       (case dns_parse_response mem (dgram_buffer d) of None \<Rightarrow> None
        | Some (Inl _) \<Rightarrow> Some (Inl Undef)
        | Some (Inr (items, cnt)) \<Rightarrow>
            let h = (if mem then d_mem S + {#D_list#} + replicate_mset (length items) D_str + replicate_mset (length items) D_str else d_mem S);
                h = (if mem then dns_async_client_free_domains (nat cnt) h else h) in
            Some (Inr (S\<lparr>d_reg := (d_reg S)(sockfd := None), d_open := d_open S - {sockfd}, d_mem := h - {#D_eparg sockfd#}\<rparr>, (cb, items, cnt))))))"

fun proc_events :: "(int \<times> string option \<times> bool) list \<Rightarrow> dnsctx \<Rightarrow> (da_err + dnsctx \<times> (nat \<times> dns_item list \<times> int) list) option" where
  "proc_events [] S = Some (Inr (S, []))"
| "proc_events (ev # evs) S =
    (case proc_event ev S of None \<Rightarrow> None
     | Some (Inl e) \<Rightarrow> Some (Inl e)
     | Some (Inr (S, c)) \<Rightarrow> map_option (\<lambda>r. bindR r (\<lambda>(S, cs). Inr (S, c # cs))) (proc_events evs S))"

text \<open>One turn of \<^verbatim>\<open>dns_async_client_proc\<close>: what \<^verbatim>\<open>epoll_wait\<close> returns, an error number or the ready sockets. The flag is whether
  the loop goes on.\<close>

definition EINTR :: int where "EINTR = 4"
definition EAGAIN :: int where "EAGAIN = 11"

definition proc_turn :: "int + (int \<times> string option \<times> bool) list \<Rightarrow> dnsctx \<Rightarrow> (da_err + dnsctx \<times> (nat \<times> dns_item list \<times> int) list \<times> bool) option" where
  "proc_turn w S = (case w of
      Inl errno \<Rightarrow> Some (Inr (S, [], errno = EINTR \<or> errno = EAGAIN))
    | Inr evs \<Rightarrow>
        if evs = [] then Some (Inr (S, [], True))
        else map_option (\<lambda>r. bindR r (\<lambda>(S, cs). Inr (S, cs, True))) (proc_events (take ASYNC_CLIENT_NUM evs) S))"

text \<open>The synchronous commit: \<open>recv\<close> is what \<^verbatim>\<open>recvfrom\<close> on the non-blocking socket returns at each try, until something comes.\<close>

partial_function (option) commit_wait :: "(nat \<Rightarrow> string) \<Rightarrow> nat \<Rightarrow> string option" where
  "commit_wait recv i = (if recv i = [] then commit_wait recv (Suc i) else Some (recv i))"

definition dns_client_commit :: "int \<Rightarrow> string \<Rightarrow> string option \<Rightarrow> (nat \<Rightarrow> string) \<Rightarrow> bool \<Rightarrow> string \<Rightarrow> (da_err + int) option" where
  "dns_client_commit sockfd rnd qmem recv mem domain =
    (if sockfd < 0 then Some (Inl (Exit (-1)))
     else case commit_request rnd qmem domain of Inl _ \<Rightarrow> Some (Inl Undef) | Inr req \<Rightarrow>
       (case commit_wait recv 0 of None \<Rightarrow> None
        | Some d \<Rightarrow> (case dns_parse_response mem (dgram_buffer (Some d)) of None \<Rightarrow> None
            | Some (Inl _) \<Rightarrow> Some (Inl Undef) | Some (Inr _) \<Rightarrow> Some (Inr 0))))"

end
