(* ===== verification/Dns_Async_Spec.thy ===== *)
theory Dns_Async_Spec
  imports Dns_Async Dns_Spec Refinement
begin

text \<open>
  The asynchronous client as a table of pending queries: every answer is one callback with the parsed
  items, and releases the socket and its argument. The name of every question stays allocated.
\<close>

type_synonym ds_state = "(int \<rightharpoonup> nat) \<times> nat"

datatype ds_cmd = Commit cenv string nat | Answers "(int \<times> string) list"

type_synonym callback = "nat \<times> dns_item list \<times> int"

fun ds_step :: "dnsctx \<Rightarrow> ds_cmd \<Rightarrow> unit + dnsctx \<times> callback list" where
  "ds_step S (Commit E domain cb) = (case dns_async_client_commit E domain cb S of Inr (S, r) \<Rightarrow> if r = 0 then Inr (S, []) else Inl () | Inl _ \<Rightarrow> Inl ())"
| "ds_step S (Answers as) = (case proc_turn (Inr (map (\<lambda>(fd, s). (fd, Some s, True)) as)) S of Some (Inr (S, cs, True)) \<Rightarrow> Inr (S, cs) | _ \<Rightarrow> Inl ())"

text \<open>The parsed answer of a datagram.\<close>

definition parsed :: "string \<Rightarrow> dns_item list option" where
  "parsed s = (case dns_parse_response True (dgram_buffer (Some s)) of Some (Inr (items, _)) \<Rightarrow> Some items | _ \<Rightarrow> None)"

definition answer_of :: "(int \<rightharpoonup> nat) \<Rightarrow> int \<times> string \<Rightarrow> callback" where
  "answer_of pend a = (the (pend (fst a)), the (parsed (snd a)), int (length (the (parsed (snd a)))))"

fun ds_spec :: "ds_state \<Rightarrow> ds_cmd \<Rightarrow> ds_state \<times> callback list" where
  "ds_spec (pend, n) (Commit E domain cb) = ((pend(c_sock E \<mapsto> cb), Suc n), [])"
| "ds_spec (pend, n) (Answers as) = ((pend |` (- fst ` set as), n), map (answer_of pend) as)"

fun ds_pre :: "ds_state \<Rightarrow> ds_cmd \<Rightarrow> bool" where
  "ds_pre (pend, n) (Commit E domain cb) \<longleftrightarrow> 0 \<le> c_sock E \<and> c_sock E \<notin> dom pend \<and> length (c_rnd E) = 2 \<and> c_eparg E \<and> c_ctl E = 0 \<and>
     (\<exists>junk. c_qname E = Some junk \<and> length junk = length domain + 2) \<and> length domain \<le> 1006"
| "ds_pre (pend, n) (Answers as) \<longleftrightarrow> length as \<le> ASYNC_CLIENT_NUM \<and> distinct (map fst as) \<and> (\<forall>(fd, s) \<in> set as. fd \<in> dom pend \<and> parsed s \<noteq> None)"

definition ds_rel :: "dnsctx \<Rightarrow> ds_state \<Rightarrow> bool" where
  "ds_rel S a \<longleftrightarrow> d_reg S = fst a \<and> finite (dom (fst a)) \<and> d_open S = dom (fst a) \<and>
     d_mem S = replicate_mset (snd a) D_qname + image_mset D_eparg (mset_set (dom (fst a)))"

lemma commit_request_ok:
  assumes "length rnd = 2" "length junk = length domain + 2" "length domain \<le> 1006"
  shows "\<exists>req. commit_request rnd (Some junk) domain = Inr req"
proof -
  obtain q where "qname_loop junk 0 domain = Inr q" "length q = length domain + 2"
    using qname_loop_safe [of domain 0 junk] assms(2) by auto
  then show ?thesis using build_request_eq [OF assms(1), of q "length domain + 2"] assms by (simp add: commit_request_def dns_create_question_def)
qed

lemma commit_sim:
  assumes "ds_rel S (pend, n)" "ds_pre (pend, n) (Commit E domain cb)"
  shows "\<exists>S'. ds_step S (Commit E domain cb) = Inr (S', []) \<and> ds_rel S' (pend(c_sock E \<mapsto> cb), Suc n)"
proof -
  obtain junk where j: "c_qname E = Some junk" "length junk = length domain + 2" using assms(2) by auto
  obtain req where "commit_request (c_rnd E) (Some junk) domain = Inr req" using commit_request_ok [of "c_rnd E" junk domain] j(2) assms(2) by (auto simp del: fun_upd_apply)
  then show ?thesis using assms j by (auto simp: ds_rel_def dns_async_client_commit_def Let_def)
qed

lemma parsed_response:
  assumes "parsed s = Some items"
  shows "dns_parse_response True (dgram_buffer (Some s)) = Some (Inr (items, int (length items)))"
proof -
  obtain c where c: "dns_parse_response True (dgram_buffer (Some s)) = Some (Inr (items, c))"
    using assms by (auto simp: parsed_def split: option.splits sum.splits)
  then have "c = int (length items)" by (auto simp: dns_parse_response_def bindR_eq_Inr_iff split: sum.splits if_splits Option.bind_splits)
  then show ?thesis using c by simp
qed

lemma free_all: "dns_async_client_free_domains k (h + {#D_list#} + replicate_mset k D_str + replicate_mset k D_str) = h"
  by (simp add: dns_async_client_free_domains_def)

lemma event_sim:
  assumes "ds_rel S (pend, n)" "fd \<in> dom pend" "parsed s \<noteq> None"
  shows "\<exists>S'. proc_event (fd, Some s, True) S = Some (Inr (S', answer_of pend (fd, s))) \<and> ds_rel S' (pend(fd := None), n)"
proof -
  obtain items where i: "parsed s = Some items" using assms(3) by auto
  obtain cb where cb: "pend fd = Some cb" using assms(2) by auto
  have "image_mset D_eparg (mset_set (dom pend)) = add_mset (D_eparg fd) (image_mset D_eparg (mset_set (dom pend - {fd})))"
    using assms(1,2) mset_set.remove [of "dom pend" fd] by (simp add: ds_rel_def)
  moreover have "proc_event (fd, Some s, True) S =
      Some (Inr (S\<lparr>d_reg := (d_reg S)(fd := None), d_open := d_open S - {fd}, d_mem := d_mem S - {#D_eparg fd#}\<rparr>, answer_of pend (fd, s)))"
    using parsed_response [OF i] i cb assms(1) free_all [of "length items" "d_mem S"] by (simp add: proc_event_def answer_of_def Let_def ds_rel_def)
  ultimately show ?thesis using assms(1) by (auto simp: ds_rel_def)
qed

lemma events_sim:
  assumes "ds_rel S (pend, n)" "distinct (map fst as)" "\<forall>(fd, s) \<in> set as. fd \<in> dom pend \<and> parsed s \<noteq> None"
  shows "\<exists>S'. proc_events (map (\<lambda>(fd, s). (fd, Some s, True)) as) S = Some (Inr (S', map (answer_of pend) as)) \<and> ds_rel S' (pend |` (- fst ` set as), n)"
  using assms
proof (induction as arbitrary: S pend)
  case (Cons a as)
  obtain fd s where a: "a = (fd, s)" by (cases a)
  obtain S1 where S1: "proc_event (fd, Some s, True) S = Some (Inr (S1, answer_of pend (fd, s)))" "ds_rel S1 (pend(fd := None), n)"
    using event_sim [OF Cons.prems(1), of fd s] Cons.prems(3) a by auto
  have d: "\<forall>(fd', s) \<in> set as. fd' \<in> dom (pend(fd := None)) \<and> parsed s \<noteq> None" using Cons.prems(2,3) a by force
  have "distinct (map fst as)" using Cons.prems(2) by simp
  then obtain S2 where S2: "proc_events (map (\<lambda>(fd, s). (fd, Some s, True)) as) S1 = Some (Inr (S2, map (answer_of (pend(fd := None))) as))"
      "ds_rel S2 (pend(fd := None) |` (- fst ` set as), n)"
    using Cons.IH [OF S1(2) _ d] by blast
  have "map (answer_of (pend(fd := None))) as = map (answer_of pend) as" using Cons.prems(2) a by (force simp: answer_of_def)
  moreover have "pend(fd := None) |` (- fst ` set as) = pend |` (- fst ` set (a # as))" using a by (auto simp: restrict_map_def fun_eq_iff)
  ultimately show ?case using S1(1) S2 a by simp
qed (simp add: ds_rel_def restrict_map_def)

interpretation dq: data_refinement ds_rel ds_step ds_spec ds_pre
proof (unfold_locales, goal_cases)
  case (1 S a c)
  obtain pend n where a: "a = (pend, n)" by (cases a)
  show ?case
  proof (cases c)
    case (Commit E domain cb)
    then show ?thesis using commit_sim 1 a by (simp del: ds_step.simps ds_pre.simps)
  next
    case (Answers as)
    then have "map (\<lambda>(fd, s). (fd, Some s, True)) (take ASYNC_CLIENT_NUM as) = map (\<lambda>(fd, s). (fd, Some s, True)) as" using 1(2) a by simp
    then show ?thesis using events_sim [of S pend n as] 1 a Answers by (cases "as = []") (auto simp: proc_turn_def take_map)
  qed
qed

text \<open>
  C26: each answer that arrives is delivered once, to the query it belongs to. For any sequence of commits
  that succeed (names of up to 1006 characters) and of batches of answers that parse, on sockets whose
  queries are waiting: every answer makes exactly one call of the callback its query was committed with,
  with the items of its packet, and with that the query's socket is closed and its argument freed. A
  query whose answer never comes is never called back: the sockets that are open, and the arguments in memory, are exactly
  those of the queries still waiting. The memory of every question's name is never given back.
\<close>

theorem dns_async_run_refines:
  assumes "all_pre ds_spec ds_pre (Map.empty, 0) cs"
  shows "\<exists>S. run ds_step \<lparr>d_reg = Map.empty, d_open = {}, d_mem = {#}, d_sent = []\<rparr> cs = Inr (S, snd (spec_run ds_spec (Map.empty, 0) cs)) \<and>
    (case fst (spec_run ds_spec (Map.empty, 0) cs) of (pend, n) \<Rightarrow>
       d_reg S = pend \<and> d_open S = dom pend \<and> d_mem S = replicate_mset n D_qname + image_mset D_eparg (mset_set (dom pend)))"
proof -
  have "ds_rel \<lparr>d_reg = Map.empty, d_open = {}, d_mem = {#}, d_sent = []\<rparr> (Map.empty, 0)" by (simp add: ds_rel_def)
  then show ?thesis using dq.run_refines [OF _ assms] by (fastforce simp: ds_rel_def split: prod.splits)
qed

text \<open>One query and its answer.\<close>

definition demo_commit :: ds_cmd where
  "demo_commit = Commit \<lparr>c_sock = 5, c_rnd = ''id'', c_qname = Some ''.......'', c_eparg = True, c_ctl = 0\<rparr> ''a.org'' 1"

theorem dns_async_run_refines_witness:
  "\<exists>S. run ds_step \<lparr>d_reg = Map.empty, d_open = {}, d_mem = {#}, d_sent = []\<rparr> [demo_commit, Answers [(5, [])]] = Inr (S, [[], [(1, [], 0)]]) \<and>
    d_reg S = Map.empty \<and> d_open S = {} \<and> d_mem S = {#D_qname#}"
proof -
  have "dgram_buffer (Some []) = replicate 1024 NUL" by (simp add: dgram_buffer_def)
  moreover have "rd16 (replicate 1024 NUL) 4 = Inr 0" "rd16 (replicate 1024 NUL) 6 = Inr 0" by (simp_all add: rd16_def rd8_def)
  ultimately have "parsed [] = Some []" by (simp add: parsed_def dns_parse_response_def)
  then have "all_pre ds_spec ds_pre (Map.empty, 0) [demo_commit, Answers [(5, [])]]"
    "spec_run ds_spec (Map.empty, 0) [demo_commit, Answers [(5, [])]] = ((Map.empty, 1), [[], [(1, [], 0)]])"
    by (simp_all add: demo_commit_def ASYNC_CLIENT_NUM_def answer_of_def)
  then show ?thesis using dns_async_run_refines [of "[demo_commit, Answers [(5, [])]]"] by (simp del: run.simps)
qed

end
