(* ===== verification/Par_Sort.thy ===== *)
theory Par_Sort
  imports Prelude "HOL-Library.Multiset"
begin

text \<open>
  The parallel sort of \<^verbatim>\<open>apue/threads/barrier.c\<close>: threads sort equal ranges of an array with the C library's
  \<^verbatim>\<open>heapsort\<close>, meet the main thread at a barrier, and the main thread merges the ranges. The threads are a
  step relation: while \<^verbatim>\<open>heapsort\<close> runs, its range of the array may hold anything. \<^verbatim>\<open>heapsort\<close> is a
  parameter, which returns the sorted range (the code does not look at its result, so that a failure
  of it would go unnoticed).
\<close>

section \<open>The program\<close>

definition NTHR :: nat where "NTHR = 8"
definition NUMNUM :: nat where "NUMNUM = 8000000"
definition TNUM :: nat where "TNUM = NUMNUM div NTHR"

definition LONG_MAX :: int where "LONG_MAX = 2 ^ 63 - 1"

definition complong :: "int \<Rightarrow> int \<Rightarrow> int" where
  "complong l1 l2 = (if l1 = l2 then 0 else if l1 < l2 then -1 else 1)"

type_synonym sorter = "(int \<Rightarrow> int \<Rightarrow> int) \<Rightarrow> int list \<Rightarrow> int list"

text \<open>Writing the range of a thread, which starts at \<open>idx\<close>.\<close>

definition put_range :: "nat \<Rightarrow> int list \<Rightarrow> int list \<Rightarrow> int list" where
  "put_range idx xs nums = take idx nums @ xs @ drop (idx + TNUM) nums"

text \<open>The inner loop of \<^verbatim>\<open>merge\<close>: \<open>None\<close> is a \<^verbatim>\<open>minidx\<close> that was never set.\<close>

definition min_step :: "int list \<Rightarrow> nat list \<Rightarrow> nat \<Rightarrow> int \<times> nat option \<Rightarrow> int \<times> nat option" where
  "min_step nums idx i s = (if idx ! i < (i + 1) * TNUM \<and> nums ! (idx ! i) < fst s then (nums ! (idx ! i), Some i) else s)"

definition min_loop :: "int list \<Rightarrow> nat list \<Rightarrow> nat option \<Rightarrow> int \<times> nat option" where
  "min_loop nums idx minidx = fold (min_step nums idx) [0..<NTHR] (LONG_MAX, minidx)"

text \<open>The outer loop with \<open>n\<close> turns left; the use of an unset \<^verbatim>\<open>minidx\<close> or an index behind the array is an error.\<close>

primrec merge_loop :: "nat \<Rightarrow> int list \<Rightarrow> nat list \<Rightarrow> nat option \<Rightarrow> int list \<Rightarrow> string + int list" where
  "merge_loop 0 nums idx minidx snums = Inr snums"
| "merge_loop (Suc n) nums idx minidx snums = (case snd (min_loop nums idx minidx) of
     None \<Rightarrow> Inl ''minidx not set''
   | Some j \<Rightarrow> if idx ! j \<ge> length nums then Inl ''read''
       else merge_loop n nums (idx[j := idx ! j + 1]) (Some j) (snums @ [nums ! (idx ! j)]))"

definition merge :: "int list \<Rightarrow> string + int list" where
  "merge nums = merge_loop NUMNUM nums (map (\<lambda>i. i * TNUM) [0..<NTHR]) None []"

text \<open>
  A barrier for \<open>bcount\<close> threads: how many have arrived, and how often it has opened. The last one to
  arrive opens it; the others leave when it has opened since they came.
\<close>

record barrier =
  bcount :: nat
  arrived :: nat
  opened :: nat

definition barrier_init :: "nat \<Rightarrow> barrier" where
  "barrier_init n = \<lparr>bcount = n, arrived = 0, opened = 0\<rparr>"

definition barrier_arrive :: "barrier \<Rightarrow> barrier" where
  "barrier_arrive b = (if Suc (arrived b) = bcount b then b\<lparr>arrived := 0, opened := Suc (opened b)\<rparr>
     else b\<lparr>arrived := Suc (arrived b)\<rparr>)"

text \<open>
  Where a thread is: not created, created, in \<^verbatim>\<open>heapsort\<close> with the numbers it found, at the barrier's
  door, waiting (with the openings it saw), and behind it; and the same for \<^verbatim>\<open>main\<close>, which has created
  \<open>k\<close> threads, waits, merges, and has the result of \<^verbatim>\<open>merge\<close>, or has left because a thread could not be created.
\<close>

datatype tpc = Absent | Created | Sorting "int list" | Sorted | Waiting nat | Returned
datatype mpc = Creating nat | Main_waiting nat | Merging | Merged "string + int list" | Err_exit

record sorter_state =
  s_nums :: "int list"
  s_bar :: barrier
  s_thr :: "nat \<Rightarrow> tpc"
  s_main :: mpc

definition sort_start :: "int list \<Rightarrow> sorter_state" where
  "sort_start nums = \<lparr>s_nums = nums, s_bar = barrier_init (NTHR + 1), s_thr = (\<lambda>_. Absent), s_main = Creating 0\<rparr>"

inductive sort_step :: "sorter \<Rightarrow> sorter_state \<Rightarrow> sorter_state \<Rightarrow> bool" for heapsort where
  create: "s_main s = Creating k \<Longrightarrow> k < NTHR \<Longrightarrow>
    sort_step heapsort s (s\<lparr>s_main := Creating (Suc k), s_thr := (s_thr s)(k := Created)\<rparr>)"
| create_fail: "s_main s = Creating k \<Longrightarrow> k < NTHR \<Longrightarrow> sort_step heapsort s (s\<lparr>s_main := Err_exit\<rparr>)"
| sort_begin: "s_thr s i = Created \<Longrightarrow>
    sort_step heapsort s (s\<lparr>s_thr := (s_thr s)(i := Sorting (take TNUM (drop (i * TNUM) (s_nums s))))\<rparr>)"
| sort_turn: "s_thr s i = Sorting xs \<Longrightarrow> length ys = TNUM \<Longrightarrow>
    sort_step heapsort s (s\<lparr>s_nums := put_range (i * TNUM) ys (s_nums s)\<rparr>)"
| sort_end: "s_thr s i = Sorting xs \<Longrightarrow>
    sort_step heapsort s (s\<lparr>s_nums := put_range (i * TNUM) (heapsort complong xs) (s_nums s), s_thr := (s_thr s)(i := Sorted)\<rparr>)"
| thr_wait: "s_thr s i = Sorted \<Longrightarrow>
    sort_step heapsort s (s\<lparr>s_bar := barrier_arrive (s_bar s), s_thr := (s_thr s)(i := Waiting (opened (s_bar s)))\<rparr>)"
| thr_leave: "s_thr s i = Waiting g \<Longrightarrow> g < opened (s_bar s) \<Longrightarrow> sort_step heapsort s (s\<lparr>s_thr := (s_thr s)(i := Returned)\<rparr>)"
| main_wait: "s_main s = Creating NTHR \<Longrightarrow>
    sort_step heapsort s (s\<lparr>s_bar := barrier_arrive (s_bar s), s_main := Main_waiting (opened (s_bar s))\<rparr>)"
| main_leave: "s_main s = Main_waiting g \<Longrightarrow> g < opened (s_bar s) \<Longrightarrow> sort_step heapsort s (s\<lparr>s_main := Merging\<rparr>)"
| main_merge: "s_main s = Merging \<Longrightarrow> sort_step heapsort s (s\<lparr>s_main := Merged (merge (s_nums s))\<rparr>)"

inductive sort_reach :: "sorter \<Rightarrow> int list \<Rightarrow> sorter_state \<Rightarrow> bool" for heapsort nums where
  start: "sort_reach heapsort nums (sort_start nums)"
| more: "sort_reach heapsort nums s \<Longrightarrow> sort_step heapsort s s' \<Longrightarrow> sort_reach heapsort nums s'"

section \<open>The merge\<close>

text \<open>What is left of range \<open>i\<close>.\<close>

definition left_of :: "int list \<Rightarrow> nat list \<Rightarrow> nat \<Rightarrow> int list" where
  "left_of nums idx i = take ((i + 1) * TNUM - idx ! i) (drop (idx ! i) nums)"

definition in_ranges :: "int list \<Rightarrow> nat list \<Rightarrow> bool" where
  "in_ranges nums idx \<longleftrightarrow> length nums = NTHR * TNUM \<and> length idx = NTHR \<and> (\<forall>i < NTHR. idx ! i \<le> (i + 1) * TNUM)"

lemma range_end: "i < NTHR \<Longrightarrow> (i + 1) * TNUM \<le> NTHR * TNUM"
  by (intro mult_le_mono1) simp

lemma left_of_Nil: "in_ranges nums idx \<Longrightarrow> i < NTHR \<Longrightarrow> left_of nums idx i = [] \<longleftrightarrow> \<not> idx ! i < (i + 1) * TNUM"
  using range_end [of i] by (auto simp: left_of_def in_ranges_def)

lemma left_of_Cons:
  assumes "in_ranges nums idx" "i < NTHR" "idx ! i < (i + 1) * TNUM"
  shows "left_of nums idx i = nums ! (idx ! i) # left_of nums (idx[i := idx ! i + 1]) i" "idx ! i < length nums"
proof -
  show l: "idx ! i < length nums" using assms range_end [of i] by (simp add: in_ranges_def)
  obtain k where "(i + 1) * TNUM - idx ! i = Suc k" "(i + 1) * TNUM - (idx ! i + 1) = k" using assms(3) by (metis Suc_diff_Suc Suc_eq_plus1)
  moreover have "i < length idx" using assms by (simp add: in_ranges_def)
  ultimately show "left_of nums idx i = nums ! (idx ! i) # left_of nums (idx[i := idx ! i + 1]) i"
    using Cons_nth_drop_Suc [OF l] by (metis Suc_eq_plus1 left_of_def nth_list_update_eq take_Suc_Cons)
qed

text \<open>The inner loop finds the first range with the smallest next number.\<close>

lemma min_loop_prefix:
  assumes "in_ranges nums idx" "\<forall>x \<in> set nums. x < LONG_MAX" "k \<le> NTHR"
  shows "let s = fold (min_step nums idx) [0..<k] (LONG_MAX, m) in
    if \<forall>i < k. left_of nums idx i = [] then s = (LONG_MAX, m)
    else \<exists>j < k. left_of nums idx j \<noteq> [] \<and> s = (hd (left_of nums idx j), Some j) \<and> (\<forall>i < k. left_of nums idx i \<noteq> [] \<longrightarrow> fst s \<le> hd (left_of nums idx i))"
  using assms(3)
proof (induction k)
  case (Suc k)
  let ?s = "fold (min_step nums idx) [0..<k] (LONG_MAX, m)"
  have k: "k < NTHR" using Suc.prems by simp
  have s: "fold (min_step nums idx) [0..<Suc k] (LONG_MAX, m) = min_step nums idx k ?s" by simp
  show ?case
  proof (cases "left_of nums idx k = []")
    case True
    then have "min_step nums idx k ?s = ?s" using left_of_Nil [OF assms(1) k] by (simp add: min_step_def)
    then show ?thesis using Suc True s by (auto simp: Let_def less_Suc_eq split: if_splits)
  next
    case False
    then have lt: "idx ! k < (k + 1) * TNUM" using left_of_Nil [OF assms(1) k] by simp
    note c = left_of_Cons [OF assms(1) k lt]
    have big: "nums ! (idx ! k) < LONG_MAX" using assms(2) c(2) by simp
    have IH: "if \<forall>i < k. left_of nums idx i = [] then ?s = (LONG_MAX, m)
        else \<exists>j < k. left_of nums idx j \<noteq> [] \<and> ?s = (hd (left_of nums idx j), Some j) \<and> (\<forall>i < k. left_of nums idx i \<noteq> [] \<longrightarrow> fst ?s \<le> hd (left_of nums idx i))"
      using Suc by (simp add: Let_def)
    have h: "hd (left_of nums idx k) = nums ! (idx ! k)" using c(1) by simp
    show ?thesis
    proof (cases "nums ! (idx ! k) < fst ?s")
      case True
      then have "min_step nums idx k ?s = (hd (left_of nums idx k), Some k)" using lt h by (simp add: min_step_def)
      moreover have "\<forall>i < k. left_of nums idx i \<noteq> [] \<longrightarrow> hd (left_of nums idx k) \<le> hd (left_of nums idx i)" using IH True h by (auto split: if_splits)
      ultimately show ?thesis using False s by (auto simp: Let_def less_Suc_eq)
    next
      case ge: False
      then have m: "min_step nums idx k ?s = ?s" by (simp add: min_step_def)
      have "\<not> (\<forall>i < k. left_of nums idx i = [])" using IH ge big by (metis fst_conv)
      then obtain j where "j < k" "left_of nums idx j \<noteq> []" "?s = (hd (left_of nums idx j), Some j)"
        "\<forall>i < k. left_of nums idx i \<noteq> [] \<longrightarrow> fst ?s \<le> hd (left_of nums idx i)" using IH unfolding if_not_P [OF \<open>\<not> (\<forall>i < k. left_of nums idx i = [])\<close>] by blast
      then show ?thesis using False s m ge h by (auto simp: Let_def less_Suc_eq intro!: exI [of _ j])
    qed
  qed
qed simp

definition remaining :: "int list \<Rightarrow> nat list \<Rightarrow> int list list" where
  "remaining nums idx = map (left_of nums idx) [0..<NTHR]"

lemma concat_take_head:
  assumes "j < length L" "L ! j = x # xs"
  shows "mset (concat L) = add_mset x (mset (concat (L[j := xs])))"
proof -
  have L: "L = take j L @ (x # xs) # drop (Suc j) L" using id_take_nth_drop [OF assms(1)] assms(2) by simp
  have "mset (concat (take j L @ (x # xs) # drop (Suc j) L)) = add_mset x (mset (concat (take j L @ xs # drop (Suc j) L)))" by simp
  then show ?thesis using L assms(1) by (simp add: upd_conv_take_nth_drop)
qed

lemma remaining_step:
  assumes "in_ranges nums idx" "j < NTHR" "idx ! j < (j + 1) * TNUM"
  shows "remaining nums (idx[j := idx ! j + 1]) = (remaining nums idx)[j := tl (left_of nums idx j)]"
    "in_ranges nums (idx[j := idx ! j + 1])"
proof -
  have "left_of nums (idx[j := idx ! j + 1]) i = (if i = j then tl (left_of nums idx j) else left_of nums idx i)" if "i < NTHR" for i
    using left_of_Cons(1) [OF assms] assms(1) that by (simp add: left_of_def in_ranges_def)
  then show "remaining nums (idx[j := idx ! j + 1]) = (remaining nums idx)[j := tl (left_of nums idx j)]"
    by (intro nth_equalityI) (auto simp: remaining_def nth_list_update)
  show "in_ranges nums (idx[j := idx ! j + 1])" using assms by (auto simp: in_ranges_def nth_list_update)
qed

text \<open>\<open>before xs ys\<close>: every number of \<open>xs\<close> may stand before every number of \<open>ys\<close>.\<close>

definition before :: "int list \<Rightarrow> int list \<Rightarrow> bool" where
  "before xs ys \<longleftrightarrow> (\<forall>x \<in> set xs. \<forall>y \<in> set ys. x \<le> y)"

lemma merge_loop_ok:
  assumes "in_ranges nums idx" "\<forall>x \<in> set nums. x < LONG_MAX" "\<forall>r \<in> set (remaining nums idx). sorted r"
    "n = length (concat (remaining nums idx))" "sorted snums" "before snums (concat (remaining nums idx))"
  shows "\<exists>r. merge_loop n nums idx m snums = Inr r \<and> sorted r \<and> mset r = mset snums + mset (concat (remaining nums idx))"
  using assms
proof (induction n arbitrary: idx m snums)
  case (Suc n)
  have "concat (remaining nums idx) \<noteq> []" using Suc.prems(4) by (metis list.size(3) nat.distinct(1))
  then have "\<exists>i < NTHR. left_of nums idx i \<noteq> []" by (auto simp: remaining_def)
  then obtain j where j: "j < NTHR" "left_of nums idx j \<noteq> []" "snd (min_loop nums idx m) = Some j"
    "\<forall>i < NTHR. left_of nums idx i \<noteq> [] \<longrightarrow> hd (left_of nums idx j) \<le> hd (left_of nums idx i)"
    using min_loop_prefix [OF Suc.prems(1,2) order_refl, of m] by (auto simp: min_loop_def Let_def split: if_splits)
  have lt: "idx ! j < (j + 1) * TNUM" using left_of_Nil [OF Suc.prems(1) j(1)] j(2) by simp
  let ?x = "nums ! (idx ! j)" and ?idx = "idx[j := idx ! j + 1]"
  note c = left_of_Cons [OF Suc.prems(1) j(1) lt] and st = remaining_step [OF Suc.prems(1) j(1) lt]
  have nth: "remaining nums idx ! j = ?x # tl (left_of nums idx j)" "j < length (remaining nums idx)" using c j(1) by (simp_all add: remaining_def)
  have ms: "mset (concat (remaining nums idx)) = add_mset ?x (mset (concat (remaining nums ?idx)))"
    using concat_take_head [OF nth(2,1)] st(1) by simp
  have sub: "set (concat (remaining nums ?idx)) \<subseteq> set (concat (remaining nums idx))" "?x \<in> set (concat (remaining nums idx))"
    using ms by (metis set_mset_add_mset_insert set_mset_mset subset_insertI, metis insertI1 set_mset_add_mset_insert set_mset_mset)
  have min: "?x \<le> y" if "y \<in> set (concat (remaining nums idx))" for y
  proof -
    note y = that
    obtain i where i: "i < NTHR" "y \<in> set (left_of nums idx i)" using y by (auto simp: remaining_def)
    then have "sorted (left_of nums idx i)" "left_of nums idx i \<noteq> []" using Suc.prems(3) by (auto simp: remaining_def)
    then have "hd (left_of nums idx i) \<le> y" using i(2) by (cases "left_of nums idx i") auto
    then show ?thesis using j(4) i(1) c(1) \<open>left_of nums idx i \<noteq> []\<close> by (metis list.sel(1) order_trans)
  qed
  have "\<forall>r \<in> set (remaining nums ?idx). sorted r"
    using Suc.prems(3) st(1) nth j(1) by (auto simp: remaining_def sorted_tl dest!: subsetD [OF set_update_subset_insert])
  moreover have "n = length (concat (remaining nums ?idx))" using Suc.prems(4) ms by (metis nat.inject size_add_mset size_mset)
  moreover have "sorted (snums @ [?x])" using Suc.prems(5,6) sub(2) by (auto simp: sorted_append before_def)
  moreover have "x \<le> y" if "x \<in> set (snums @ [?x])" "y \<in> set (concat (remaining nums ?idx))" for x y
  proof -
    have "x \<in> set snums \<or> x = ?x" "y \<in> set (concat (remaining nums idx))" using that sub(1) by auto
    then show ?thesis using Suc.prems(6) min unfolding before_def by blast
  qed
  then have "before (snums @ [?x]) (concat (remaining nums ?idx))" unfolding before_def by blast
  ultimately obtain r where "merge_loop n nums ?idx (Some j) (snums @ [?x]) = Inr r" "sorted r"
      "mset r = mset (snums @ [?x]) + mset (concat (remaining nums ?idx))"
    using Suc.IH [OF st(2) Suc.prems(2)] by blast
  then show ?case using j(3) c(2) ms by simp
qed simp

lemma mult_range: "NTHR * TNUM = NUMNUM"
  by (simp add: NTHR_def TNUM_def NUMNUM_def)

lemma concat_ranges: "length xs = n * k \<Longrightarrow> concat (map (\<lambda>i. take k (drop (i * k) xs)) [0..<n]) = xs"
proof (induction n arbitrary: xs)
  case (Suc n)
  have "concat (map (\<lambda>i. take k (drop (i * k) xs)) [0..<n]) = concat (map (\<lambda>i. take k (drop (i * k) (take (n * k) xs))) [0..<n])"
  proof (intro arg_cong [where f = concat] map_cong refl)
    fix i assume "i \<in> set [0..<n]"
    then have "(i + 1) * k \<le> n * k" by (intro mult_le_mono1) simp
    then show "take k (drop (i * k) xs) = take k (drop (i * k) (take (n * k) xs))" by (simp add: drop_take min_def)
  qed
  also have "\<dots> = take (n * k) xs" using Suc.prems by (intro Suc.IH) simp
  finally have "concat (map (\<lambda>i. take k (drop (i * k) xs)) [0..<Suc n]) = take (n * k) xs @ take k (drop (n * k) xs)" by simp
  also have "take k (drop (n * k) xs) = drop (n * k) xs" using Suc.prems by simp
  finally show ?case by simp
qed simp

section \<open>The threads\<close>

lemma concat_cut:
  assumes "\<forall>s \<in> set segs. length s = k" "i < length segs"
  shows "take (i * k) (concat segs) = concat (take i segs)" "drop (i * k) (concat segs) = segs ! i @ drop (i * k + k) (concat segs)"
    "drop (i * k + k) (concat segs) = concat (drop (Suc i) segs)"
proof -
  have len: "length (concat (take n segs)) = n * k" if "n \<le> length segs" for n
    using assms(1) that by (induction n) (auto simp: take_Suc_conv_app_nth)
  have s: "concat segs = concat (take i segs) @ segs ! i @ concat (drop (Suc i) segs)"
    using arg_cong [OF id_take_nth_drop [OF assms(2)], of concat] by simp
  have k: "length (segs ! i) = k" using assms by simp
  show "take (i * k) (concat segs) = concat (take i segs)" "drop (i * k + k) (concat segs) = concat (drop (Suc i) segs)"
    using s len [of i] assms(2) k by (simp_all add: add.commute)
  then show "drop (i * k) (concat segs) = segs ! i @ drop (i * k + k) (concat segs)" using s len [of i] assms(2) by simp
qed

definition sorts :: "sorter \<Rightarrow> bool" where
  "sorts hs \<longleftrightarrow> (\<forall>xs. mset (hs complong xs) = mset xs \<and> sorted_wrt (\<lambda>x y. complong x y \<le> 0) (hs complong xs))"

lemma sorts_sorted: "sorts hs \<Longrightarrow> sorted (hs complong xs) \<and> mset (hs complong xs) = mset xs \<and> length (hs complong xs) = length xs"
proof -
  assume s: "sorts hs"
  have "complong x y \<le> 0 \<longleftrightarrow> x \<le> y" for x y by (auto simp: complong_def)
  then have "sorted_wrt (\<le>) (hs complong xs)" "mset (hs complong xs) = mset xs" using s by (simp_all add: sorts_def)
  then show ?thesis using mset_eq_length by blast
qed

lemma put_range_segs:
  assumes "\<forall>s \<in> set segs. length s = TNUM" "i < length segs"
  shows "put_range (i * TNUM) xs (concat segs) = concat (segs[i := xs])" "take TNUM (drop (i * TNUM) (concat segs)) = segs ! i"
proof -
  have "length (segs ! i) = TNUM" using assms by simp
  then show "put_range (i * TNUM) xs (concat segs) = concat (segs[i := xs])" "take TNUM (drop (i * TNUM) (concat segs)) = segs ! i"
    using concat_cut [OF assms] by (simp_all add: put_range_def upd_conv_take_nth_drop [OF assms(2)])
qed

lemma left_of_start:
  assumes "\<forall>s \<in> set segs. length s = TNUM" "length segs = NTHR" "i < NTHR"
  shows "left_of (concat segs) (map (\<lambda>i. i * TNUM) [0..<NTHR]) i = segs ! i"
proof -
  have "length (segs ! i) = TNUM" using assms by simp
  then show ?thesis using concat_cut(2) [OF assms(1), of i] assms(2,3) by (simp add: left_of_def)
qed

lemma merge_segs:
  assumes "\<forall>s \<in> set segs. length s = TNUM" "length segs = NTHR" "\<forall>s \<in> set segs. sorted s" "\<forall>x \<in> set (concat segs). x < LONG_MAX"
  shows "merge (concat segs) = Inr (sort (concat segs))"
proof -
  let ?idx = "map (\<lambda>i. i * TNUM) [0..<NTHR]"
  have r: "remaining (concat segs) ?idx = segs"
    using left_of_start [OF assms(1,2)] assms(2) by (intro nth_equalityI) (simp_all add: remaining_def)
  have len: "length (concat segs) = NTHR * TNUM"
    using length_concat_const [OF assms(1)] assms(2) by simp
  have i: "in_ranges (concat segs) ?idx" using len by (simp add: in_ranges_def)
  obtain xs where xs: "merge_loop NUMNUM (concat segs) ?idx None [] = Inr xs" "sorted xs" "mset xs = mset (concat segs)"
    using merge_loop_ok [OF i assms(4), of NUMNUM "[]" None] assms(3) r len mult_range by (auto simp: before_def)
  have "sort (concat segs) = xs" using xs(2,3) by (metis properties_for_sort)
  then show ?thesis using xs(1) by (simp add: merge_def)
qed

lemma merge_sorted_segs:
  assumes "sorts hs" "length segs = NTHR" "\<forall>s \<in> set segs. length s = TNUM" "\<forall>x \<in> set (concat segs). x < LONG_MAX"
  shows "merge (concat (map (hs complong) segs)) = Inr (sort (concat segs))"
proof -
  let ?d = "map (hs complong) segs"
  have d: "\<forall>s \<in> set ?d. length s = TNUM" "\<forall>s \<in> set ?d. sorted s" "length ?d = NTHR"
    using sorts_sorted [OF assms(1)] assms(2,3) by auto
  have "map mset ?d = map mset segs" using sorts_sorted [OF assms(1)] by simp
  then have m: "mset (concat ?d) = mset (concat segs)" by (metis mset_concat)
  then have "\<forall>x \<in> set (concat ?d). x < LONG_MAX" using assms(4) by (metis set_mset_mset)
  then have "merge (concat ?d) = Inr (sort (concat ?d))" using merge_segs [OF d(1,3,2)] by blast
  moreover have "sort (concat ?d) = sort (concat segs)" using m by (metis properties_for_sort sorted_sort mset_sort)
  ultimately show ?thesis by simp
qed

section \<open>The barrier\<close>

text \<open>What range \<open>i\<close> holds: the old numbers, anything while the thread sorts, the sorted numbers afterwards.\<close>

fun range_ok :: "sorter \<Rightarrow> int list \<Rightarrow> tpc \<Rightarrow> int list \<Rightarrow> bool" where
  "range_ok hs xs Absent ys = (ys = xs)"
| "range_ok hs xs Created ys = (ys = xs)"
| "range_ok hs xs (Sorting zs) ys = (zs = xs)"
| "range_ok hs xs _ ys = (ys = hs complong xs)"

definition ranges_ok :: "sorter \<Rightarrow> int list list \<Rightarrow> sorter_state \<Rightarrow> bool" where
  "ranges_ok hs segs s \<longleftrightarrow> (\<exists>segs'. s_nums s = concat segs' \<and> length segs' = NTHR \<and> (\<forall>r \<in> set segs'. length r = TNUM) \<and>
     (\<forall>i < NTHR. range_ok hs (segs ! i) (s_thr s i) (segs' ! i))) \<and> (\<forall>i \<ge> NTHR. s_thr s i = Absent)"

definition at_barrier :: "sorter_state \<Rightarrow> nat set" where
  "at_barrier s = {i. i < NTHR \<and> (\<exists>g. s_thr s i = Waiting g)}"

text \<open>While the barrier is closed it has counted those who wait; it opens once, when all have come.\<close>

definition barrier_ok :: "sorter_state \<Rightarrow> bool" where
  "barrier_ok s \<longleftrightarrow> bcount (s_bar s) = NTHR + 1 \<and>
     (if opened (s_bar s) = 0 then
        arrived (s_bar s) = card (at_barrier s) + (case s_main s of Main_waiting g \<Rightarrow> 1 | _ \<Rightarrow> 0) \<and> arrived (s_bar s) \<le> NTHR \<and>
        (\<forall>i. s_thr s i \<noteq> Returned) \<and> (\<exists>k. s_main s = Creating k \<or> s_main s = Main_waiting 0 \<or> s_main s = Err_exit) \<and>
        (\<forall>i g. s_thr s i = Waiting g \<longrightarrow> g = 0)
      else opened (s_bar s) = 1 \<and> (\<forall>i < NTHR. s_thr s i = Waiting 0 \<or> s_thr s i = Returned) \<and>
        (s_main s = Main_waiting 0 \<or> s_main s = Merging \<or> (\<exists>r. s_main s = Merged r)))"

definition created_ok :: "sorter_state \<Rightarrow> bool" where
  "created_ok s \<longleftrightarrow> (case s_main s of Creating k \<Rightarrow> k \<le> NTHR \<and> (\<forall>i. s_thr s i \<noteq> Absent \<longleftrightarrow> i < k)
     | Err_exit \<Rightarrow> True | _ \<Rightarrow> (\<forall>i < NTHR. s_thr s i \<noteq> Absent))"

definition sort_inv :: "sorter \<Rightarrow> int list list \<Rightarrow> sorter_state \<Rightarrow> bool" where
  "sort_inv hs segs s \<longleftrightarrow> ranges_ok hs segs s \<and> barrier_ok s \<and> created_ok s \<and>
     (\<forall>r. s_main s = Merged r \<longrightarrow> r = Inr (sort (concat segs)))"

lemma ranges_upd:
  assumes "ranges_ok hs segs s" "i < NTHR" "length ys = TNUM" "range_ok hs (segs ! i) pc ys"
    "s_nums s' = put_range (i * TNUM) ys (s_nums s)" "s_thr s' = (s_thr s)(i := pc)"
  shows "ranges_ok hs segs s'"
proof -
  obtain segs' where r: "s_nums s = concat segs'" "length segs' = NTHR" "\<forall>r \<in> set segs'. length r = TNUM"
    "\<forall>i < NTHR. range_ok hs (segs ! i) (s_thr s i) (segs' ! i)" "\<forall>i \<ge> NTHR. s_thr s i = Absent"
    using assms(1) by (auto simp: ranges_ok_def)
  have "\<forall>r \<in> set (segs'[i := ys]). length r = TNUM" using r(3) assms(3) set_update_subset_insert [of segs' i ys] by auto
  moreover have "s_nums s' = concat (segs'[i := ys])" using put_range_segs(1) [OF r(3)] r(1,2) assms(2,5) by simp
  moreover have "\<forall>j < NTHR. range_ok hs (segs ! j) (s_thr s' j) (segs'[i := ys] ! j)"
    using r(2,4) assms(4,6) by (simp add: nth_list_update)
  ultimately show ?thesis using r(2,5) assms(2,6) unfolding ranges_ok_def by (intro conjI exI [of _ "segs'[i := ys]"]) simp_all
qed

lemma ranges_pc:
  assumes "ranges_ok hs segs s" "i < NTHR" "s_nums s' = s_nums s" "s_thr s' = (s_thr s)(i := pc)"
    "\<And>ys. range_ok hs (segs ! i) (s_thr s i) ys \<Longrightarrow> range_ok hs (segs ! i) pc ys"
  shows "ranges_ok hs segs s'"
  using assms unfolding ranges_ok_def by auto

lemma ranges_same: "ranges_ok hs segs s \<Longrightarrow> s_nums s' = s_nums s \<Longrightarrow> s_thr s' = s_thr s \<Longrightarrow> ranges_ok hs segs s'"
  by (simp add: ranges_ok_def)

lemma thr_index: "ranges_ok hs segs s \<Longrightarrow> s_thr s i \<noteq> Absent \<Longrightarrow> i < NTHR"
  using not_le_imp_less by (auto simp: ranges_ok_def)

lemma ranges_step:
  assumes "sort_step hs s s'" "ranges_ok hs segs s" "created_ok s" "sorts hs" "length segs = NTHR" "\<forall>r \<in> set segs. length r = TNUM"
  shows "ranges_ok hs segs s'"
  using assms(1-3)
proof (induction rule: sort_step.induct)
  case (create s k)
  then have "s_thr s k = Absent" by (auto simp: created_ok_def)
  then show ?case by (intro ranges_pc [OF create(3,2), where pc = Created]) simp_all
next
  case (sort_begin s i)
  then have i: "i < NTHR" using thr_index by fastforce
  obtain segs' where r: "s_nums s = concat segs'" "length segs' = NTHR" "\<forall>r \<in> set segs'. length r = TNUM" "segs' ! i = segs ! i"
    using sort_begin i by (auto simp: ranges_ok_def)
  then have "take TNUM (drop (i * TNUM) (s_nums s)) = segs ! i" using put_range_segs(2) [OF r(3)] i by simp
  then show ?case using i sort_begin by (intro ranges_pc [OF sort_begin(2) i, where pc = "Sorting (segs ! i)"]) simp_all
next
  case (sort_turn s i xs ys)
  then have i: "i < NTHR" using thr_index by fastforce
  then have xs: "xs = segs ! i" using sort_turn by (auto simp: ranges_ok_def)
  then show ?case using sort_turn by (intro ranges_upd [OF sort_turn(3) i sort_turn(2), of "Sorting xs"]) auto
next
  case (sort_end s i xs)
  then have i: "i < NTHR" using thr_index by fastforce
  then have xs: "xs = segs ! i" using sort_end by (auto simp: ranges_ok_def)
  have "length (hs complong xs) = TNUM" using sorts_sorted [OF assms(4), of xs] xs i assms(5,6) by simp
  then show ?case using xs by (intro ranges_upd [OF sort_end(2) i, of _ Sorted]) auto
next
  case (thr_wait s i)
  then have "i < NTHR" using thr_index by fastforce
  then show ?case using thr_wait by (intro ranges_pc [OF thr_wait(2), of i _ "Waiting (opened (s_bar s))"]) simp_all
next
  case (thr_leave s i g)
  then have "i < NTHR" using thr_index by fastforce
  then show ?case using thr_leave by (intro ranges_pc [OF thr_leave(3), of i _ Returned]) simp_all
qed (erule ranges_same; simp)+

lemma created_step:
  assumes "sort_step hs s s'" "created_ok s" "barrier_ok s"
  shows "created_ok s'"
  using assms by (induction rule: sort_step.induct) (auto simp: created_ok_def barrier_ok_def less_Suc_eq split: mpc.splits if_splits)

lemma barrier_closed:
  assumes "barrier_ok s" "opened (s_bar s) = 0"
  shows "bcount (s_bar s) = NTHR + 1" "arrived (s_bar s) = card (at_barrier s) + (case s_main s of Main_waiting g \<Rightarrow> 1 | _ \<Rightarrow> 0)"
    "arrived (s_bar s) \<le> NTHR" "\<And>i. s_thr s i \<noteq> Returned" "\<And>i g. s_thr s i = Waiting g \<Longrightarrow> g = 0"
    "\<exists>k. s_main s = Creating k \<or> s_main s = Main_waiting 0 \<or> s_main s = Err_exit"
  using assms by (simp_all add: barrier_ok_def)

lemma barrier_open:
  assumes "barrier_ok s" "opened (s_bar s) \<noteq> 0"
  shows "opened (s_bar s) = 1" "\<And>i. i < NTHR \<Longrightarrow> s_thr s i = Waiting 0 \<or> s_thr s i = Returned"
    "s_main s = Main_waiting 0 \<or> s_main s = Merging \<or> (\<exists>r. s_main s = Merged r)"
  using assms by (auto simp: barrier_ok_def)

lemma finite_at_barrier [simp]: "finite (at_barrier s)"
  by (rule finite_subset [of _ "{..<NTHR}"]) (auto simp: at_barrier_def)

lemma at_barrier_le: "card (at_barrier s) \<le> NTHR" "card (at_barrier s) = NTHR \<Longrightarrow> i < NTHR \<Longrightarrow> \<exists>g. s_thr s i = Waiting g"
proof -
  have sub: "at_barrier s \<subseteq> {..<NTHR}" by (auto simp: at_barrier_def)
  show "card (at_barrier s) \<le> NTHR" using card_mono [OF _ sub] by simp
  show "\<exists>g. s_thr s i = Waiting g" if "card (at_barrier s) = NTHR" "i < NTHR"
    using card_subset_eq [OF _ sub] that by (auto simp: at_barrier_def)
qed

text \<open>Someone arrives at the closed barrier: it is counted, and the barrier opens if all are there now.\<close>

lemma barrier_arrives:
  assumes "barrier_ok s" "opened (s_bar s) = 0" "s_bar s' = barrier_arrive (s_bar s)"
    "card (at_barrier s') + (case s_main s' of Main_waiting g \<Rightarrow> 1 | _ \<Rightarrow> 0) = Suc (arrived (s_bar s))"
    "\<And>i. s_thr s' i \<noteq> Returned" "\<And>i g. s_thr s' i = Waiting g \<Longrightarrow> g = 0"
    "\<exists>k. s_main s' = Creating k \<or> s_main s' = Main_waiting 0 \<or> s_main s' = Err_exit"
  shows "barrier_ok s'"
proof (cases "arrived (s_bar s) = NTHR")
  note c = barrier_closed [OF assms(1,2)]
  {
    case True
    then have all: "card (at_barrier s') = NTHR" "s_main s' = Main_waiting 0"
      using assms(4,7) at_barrier_le(1) [of s'] by (auto split: mpc.splits)
    then have "\<forall>i < NTHR. s_thr s' i = Waiting 0" using at_barrier_le(2) assms(6) by blast
    then show ?thesis using True all c(1) assms(2,3) by (simp add: barrier_ok_def barrier_arrive_def)
  next
    case False
    then show ?thesis using c(1,3) assms(2-7) by (auto simp: barrier_ok_def barrier_arrive_def)
  }
qed

lemma at_barrier_upd:
  "i < NTHR \<Longrightarrow> at_barrier (s\<lparr>s_thr := (s_thr s)(i := Waiting g)\<rparr>) = insert i (at_barrier s)"
  by (auto simp: at_barrier_def)

lemma at_barrier_idle:
  assumes "s_thr s' = (s_thr s)(i := pc)" "\<And>g. s_thr s i \<noteq> Waiting g" "\<And>g. pc \<noteq> Waiting g"
  shows "at_barrier s' = at_barrier s"
  using assms by (auto simp: at_barrier_def)

lemma barrier_idle:
  assumes "barrier_ok s" "s_bar s' = s_bar s" "s_thr s' = (s_thr s)(i := pc)" "i < NTHR"
    "\<And>g. s_thr s i \<noteq> Waiting g" "s_thr s i \<noteq> Returned" "\<And>g. pc \<noteq> Waiting g" "pc \<noteq> Returned"
    "s_main s' = s_main s \<or> (\<exists>k k'. s_main s = Creating k \<and> s_main s' = Creating k')"
  shows "barrier_ok s'"
proof -
  have o: "opened (s_bar s) = 0" using barrier_open(2) [OF assms(1) _ assms(4)] assms(5,6) by blast
  note c = barrier_closed [OF assms(1) o]
  have "at_barrier s' = at_barrier s" using at_barrier_idle assms(3,5,7) by blast
  moreover have "(case s_main s' of Main_waiting g \<Rightarrow> 1 :: nat | _ \<Rightarrow> 0) = (case s_main s of Main_waiting g \<Rightarrow> 1 | _ \<Rightarrow> 0)"
    using assms(9) by auto
  ultimately show ?thesis using o c assms(2,3,7-9) by (auto simp: barrier_ok_def)
qed

lemma barrier_step:
  assumes "sort_step hs s s'" "barrier_ok s" "created_ok s" "ranges_ok hs segs s"
  shows "barrier_ok s'"
  using assms
proof (induction rule: sort_step.induct)
  case (create s k)
  then have "s_thr s k = Absent" by (auto simp: created_ok_def)
  then show ?case using create by (intro barrier_idle [OF create(3), of _ k Created]) simp_all
next
  case (create_fail s k)
  then show ?case by (auto simp: barrier_ok_def at_barrier_def split: if_splits)
next
  case (sort_begin s i)
  then have "i < NTHR" using thr_index by fastforce
  then show ?case using sort_begin by (intro barrier_idle [OF sort_begin(2), of _ i "Sorting (take TNUM (drop (i * TNUM) (s_nums s)))"]) simp_all
next
  case (sort_turn s i xs ys)
  have "at_barrier (s\<lparr>s_nums := ns\<rparr>) = at_barrier s" for ns by (simp add: at_barrier_def)
  then have "barrier_ok (s\<lparr>s_nums := ns\<rparr>) = barrier_ok s" for ns unfolding barrier_ok_def by simp
  then show ?case using sort_turn(3) by blast
next
  case (sort_end s i xs)
  then have "i < NTHR" using thr_index by fastforce
  then show ?case using sort_end by (intro barrier_idle [OF sort_end(2), of _ i Sorted]) simp_all
next
  case (thr_wait s i)
  then have i: "i < NTHR" using thr_index by fastforce
  have o: "opened (s_bar s) = 0" using barrier_open(2) [OF thr_wait(2) _ i] thr_wait(1) by force
  note c = barrier_closed [OF thr_wait(2) o]
  have "i \<notin> at_barrier s" using thr_wait(1) by (simp add: at_barrier_def)
  then have "card (at_barrier (s\<lparr>s_thr := (s_thr s)(i := Waiting 0)\<rparr>)) = Suc (card (at_barrier s))" using at_barrier_upd [OF i] by simp
  moreover have "at_barrier (s\<lparr>s_bar := b, s_thr := f\<rparr>) = at_barrier (s\<lparr>s_thr := f\<rparr>)" for b f by (simp add: at_barrier_def)
  ultimately show ?case using o c thr_wait(1) by (intro barrier_arrives [OF thr_wait(2) o]) (auto split: if_splits)
next
  case (thr_leave s i g)
  then have "opened (s_bar s) \<noteq> 0" by simp
  then show ?case using barrier_open [OF thr_leave(3)] thr_leave(3) by (auto simp: barrier_ok_def)
next
  case (main_wait s)
  have o: "opened (s_bar s) = 0" using barrier_open(3) [OF main_wait(2)] main_wait(1) by force
  note c = barrier_closed [OF main_wait(2) o]
  have "at_barrier (s\<lparr>s_bar := b, s_main := m\<rparr>) = at_barrier s" for b m by (simp add: at_barrier_def)
  then show ?case using o c main_wait(1) by (intro barrier_arrives [OF main_wait(2) o]) auto
next
  case (main_leave s g)
  then have "opened (s_bar s) \<noteq> 0" by simp
  then show ?case using barrier_open [OF main_leave(3)] main_leave(3) by (auto simp: barrier_ok_def)
next
  case (main_merge s)
  have "opened (s_bar s) \<noteq> 0" using barrier_closed(6) [OF main_merge(2)] main_merge(1) by auto
  then show ?case using barrier_open [OF main_merge(2)] main_merge(2) by (auto simp: barrier_ok_def)
qed

lemma sort_inv_step:
  assumes "sort_step hs s s'" "sort_inv hs segs s" "sorts hs" "length segs = NTHR" "\<forall>r \<in> set segs. length r = TNUM"
    "\<forall>x \<in> set (concat segs). x < LONG_MAX"
  shows "sort_inv hs segs s'"
proof -
  have inv: "ranges_ok hs segs s" "barrier_ok s" "created_ok s" using assms(2) by (simp_all add: sort_inv_def)
  have "r = Inr (sort (concat segs))" if m: "s_main s' = Merged r" for r
    using assms(1,2) m inv
  proof (induction rule: sort_step.induct)
    case (main_merge s)
    have "opened (s_bar s) \<noteq> 0" using barrier_closed(6) [OF main_merge(5)] main_merge(1) by auto
    note all = barrier_open(2) [OF main_merge(5) this]
    obtain segs' where r: "s_nums s = concat segs'" "length segs' = NTHR" "\<forall>i < NTHR. range_ok hs (segs ! i) (s_thr s i) (segs' ! i)"
      using main_merge(4) by (auto simp: ranges_ok_def)
    have "segs' ! i = hs complong (segs ! i)" if "i < NTHR" for i using r(3) all that by fastforce
    then have "segs' = map (hs complong) segs" using r(2) assms(4) by (intro nth_equalityI) simp_all
    then show ?case using merge_sorted_segs [OF assms(3-6)] r(1) main_merge(3) by simp
  qed (simp_all add: sort_inv_def)
  then show ?thesis
    using ranges_step [OF assms(1) inv(1,3) assms(3-5)] barrier_step [OF assms(1) inv(2,3,1)] created_step [OF assms(1) inv(3,2)]
    by (simp add: sort_inv_def)
qed

lemma sort_inv_start:
  assumes "length segs = NTHR" "\<forall>r \<in> set segs. length r = TNUM"
  shows "sort_inv hs segs (sort_start (concat segs))"
  using assms unfolding sort_inv_def ranges_ok_def
  by (auto simp: sort_start_def barrier_ok_def barrier_init_def at_barrier_def created_ok_def)

text \<open>Nobody waits for ever: as long as \<^verbatim>\<open>main\<close> is not at its end, some thread can go on.\<close>

lemma sort_progress:
  assumes "sort_inv hs segs s" "s_main s \<noteq> Err_exit" "\<And>r. s_main s \<noteq> Merged r"
  shows "\<exists>s'. sort_step hs s s'"
proof (cases "s_main s")
  have inv: "ranges_ok hs segs s" "barrier_ok s" "created_ok s" using assms(1) by (simp_all add: sort_inv_def)
  {
    case (Creating k)
    then have "k \<le> NTHR" using inv(3) unfolding created_ok_def by simp
    then have "k < NTHR \<or> k = NTHR" by linarith
    then show ?thesis using Creating sort_step.create sort_step.main_wait by blast
  next
    case (Main_waiting g)
    show ?thesis
    proof (cases "opened (s_bar s) = 0")
      case True
      note c = barrier_closed [OF inv(2) True]
      have "card (at_barrier s) \<noteq> NTHR" using c(2,3) Main_waiting by simp
      moreover have "at_barrier s = {..<NTHR}" if "\<forall>i < NTHR. \<exists>g. s_thr s i = Waiting g" using that by (auto simp: at_barrier_def)
      ultimately obtain i where i: "i < NTHR" "\<And>g. s_thr s i \<noteq> Waiting g" by fastforce
      moreover have "s_thr s i \<noteq> Absent" using inv(3) i(1) Main_waiting by (simp add: created_ok_def)
      ultimately consider "s_thr s i = Created" | xs where "s_thr s i = Sorting xs" | "s_thr s i = Sorted"
        using c(4) [of i] by (cases "s_thr s i") auto
      then show ?thesis by cases (blast intro: sort_step.sort_begin sort_step.sort_end sort_step.thr_wait)+
    next
      case False
      then have "g < opened (s_bar s)" using barrier_open [OF inv(2) False] Main_waiting by simp
      then show ?thesis using Main_waiting sort_step.main_leave by blast
    qed
  next
    case Merging
    then show ?thesis using sort_step.main_merge by blast
  }
qed (use assms(2,3) in auto)

lemma sort_reach_inv:
  assumes "sort_reach hs nums s" "sorts hs" "length nums = NUMNUM" "\<forall>x \<in> set nums. x < LONG_MAX"
  obtains segs where "sort_inv hs segs s" "concat segs = nums"
proof -
  define segs where "segs = map (\<lambda>i. take TNUM (drop (i * TNUM) nums)) [0..<NTHR]"
  have n: "concat segs = nums" using concat_ranges [of nums NTHR TNUM] assms(3) mult_range by (simp add: segs_def)
  have "length (take TNUM (drop (i * TNUM) nums)) = TNUM" if "i < NTHR" for i using range_end [OF that] mult_range assms(3) by simp
  then have l: "length segs = NTHR" "\<forall>s \<in> set segs. length s = TNUM" unfolding segs_def by (auto simp del: length_take)
  have "sort_inv hs segs s"
    using assms(1)
  proof (induction rule: sort_reach.induct)
    case start
    then show ?case using sort_inv_start [OF l] n by simp
  next
    case (more s s')
    then show ?case using sort_inv_step [OF more(2) _ assms(2) l] assms(4) n by simp
  qed
  then show thesis using that n by blast
qed

text \<open>A run to the end: all threads are created, each sorts and arrives at the barrier, and \<^verbatim>\<open>main\<close> comes last.\<close>

lemma run_create:
  "k \<le> NTHR \<Longrightarrow> sort_reach hs nums ((sort_start nums)\<lparr>s_main := Creating k, s_thr := (\<lambda>i. if i < k then Created else Absent)\<rparr>)"
proof (induction k)
  case 0
  then show ?case using sort_reach.start [of hs nums] by (simp add: sort_start_def)
next
  case (Suc k)
  let ?s = "(sort_start nums)\<lparr>s_main := Creating k, s_thr := (\<lambda>i. if i < k then Created else Absent)\<rparr>"
  have "sort_step hs ?s (?s\<lparr>s_main := Creating (Suc k), s_thr := (s_thr ?s)(k := Created)\<rparr>)"
    using Suc.prems by (intro sort_step.create) simp_all
  moreover have "(s_thr ?s)(k := Created) = (\<lambda>i. if i < Suc k then Created else Absent)" by auto
  ultimately show ?case using sort_reach.more [of hs nums ?s] Suc by simp
qed

definition after_sort :: "nat \<Rightarrow> int list \<Rightarrow> sorter_state" where
  "after_sort k ns = \<lparr>s_nums = ns, s_bar = \<lparr>bcount = NTHR + 1, arrived = k, opened = 0\<rparr>,
     s_thr = (\<lambda>i. if i < k then Waiting 0 else if i < NTHR then Created else Absent), s_main = Creating NTHR\<rparr>"

lemma run_sort: "k \<le> NTHR \<Longrightarrow> \<exists>ns. sort_reach hs nums (after_sort k ns)"
proof (induction k)
  case 0
  then show ?case using run_create [OF order_refl, of hs nums]
    by (intro exI [of _ nums]) (simp add: sort_start_def barrier_init_def after_sort_def)
next
  case (Suc k)
  then obtain ns where r: "sort_reach hs nums (after_sort k ns)" by auto
  let ?s = "after_sort k ns" and ?xs = "take TNUM (drop (k * TNUM) ns)" and ?ns = "put_range (k * TNUM) (hs complong (take TNUM (drop (k * TNUM) ns))) ns"
  let ?s1 = "?s\<lparr>s_thr := (s_thr ?s)(k := Sorting ?xs)\<rparr>"
  let ?s2 = "?s1\<lparr>s_nums := ?ns, s_thr := (s_thr ?s1)(k := Sorted)\<rparr>"
  let ?s3 = "?s2\<lparr>s_bar := barrier_arrive (s_bar ?s2), s_thr := (s_thr ?s2)(k := Waiting (opened (s_bar ?s2)))\<rparr>"
  have "sort_step hs ?s ?s1" using sort_step.sort_begin [of ?s k hs] Suc.prems by (simp add: after_sort_def)
  moreover have "sort_step hs ?s1 ?s2" using sort_step.sort_end [of ?s1 k ?xs hs] by (simp add: after_sort_def)
  moreover have "sort_step hs ?s2 ?s3" by (rule sort_step.thr_wait) simp
  ultimately have "sort_reach hs nums ?s3" using r sort_reach.more by blast
  moreover have "?s3 = after_sort (Suc k) ?ns" using Suc.prems by (auto simp: after_sort_def barrier_arrive_def)
  ultimately show ?case by (intro exI [of _ ?ns]) simp
qed

lemma run_merge: "\<exists>ns s. sort_reach hs nums s \<and> s_main s = Merged (merge ns)"
proof -
  obtain ns where r: "sort_reach hs nums (after_sort NTHR ns)" using run_sort [OF order_refl] by blast
  let ?s = "after_sort NTHR ns"
  let ?s1 = "?s\<lparr>s_bar := barrier_arrive (s_bar ?s), s_main := Main_waiting (opened (s_bar ?s))\<rparr>"
  let ?s2 = "?s1\<lparr>s_main := Merging\<rparr>"
  let ?s3 = "?s2\<lparr>s_main := Merged (merge (s_nums ?s2))\<rparr>"
  have "sort_step hs ?s ?s1" by (rule sort_step.main_wait) (simp add: after_sort_def)
  moreover have "sort_step hs ?s1 ?s2" by (rule sort_step.main_leave [of _ 0]) (simp_all add: after_sort_def barrier_arrive_def)
  moreover have "sort_step hs ?s2 ?s3" by (rule sort_step.main_merge) simp
  ultimately have "sort_reach hs nums ?s3" using r sort_reach.more by blast
  then show ?thesis by (intro exI [of _ "s_nums ?s2"] exI [of _ ?s3]) simp
qed

text \<open>
  C20: the program sorts, however its threads are scheduled. With a \<^verbatim>\<open>heapsort\<close> that returns a permutation
  ordered by the comparison function, and numbers below \<^verbatim>\<open>LONG_MAX\<close> (as \<^verbatim>\<open>random\<close> gives), in every
  interleaving of the eight threads and \<^verbatim>\<open>main\<close> the result of \<^verbatim>\<open>merge\<close> is the sorted array: \<^verbatim>\<open>merge\<close> starts only
  when every range is sorted, uses no unset index and reads nothing outside the array. And the barrier
  is not waited for in vain: until \<^verbatim>\<open>main\<close> has merged, or has left because a thread could not be created,
  some thread can take a step.
\<close>

theorem sort_main_correct:
  assumes "sorts hs" "length nums = NUMNUM" "\<forall>x \<in> set nums. x < LONG_MAX" "sort_reach hs nums s"
  shows "(\<forall>r. s_main s = Merged r \<longrightarrow> r = Inr (sort nums)) \<and>
    (s_main s = Err_exit \<or> (\<exists>r. s_main s = Merged r) \<or> (\<exists>s'. sort_step hs s s'))"
proof -
  obtain segs where "sort_inv hs segs s" "concat segs = nums" using sort_reach_inv [OF assms(4,1-3)] by blast
  then show ?thesis using sort_progress [of hs segs s] by (auto simp: sort_inv_def)
qed

theorem sort_main_correct_witness:
  "\<exists>s. sort_reach (\<lambda>_. sort) (map (\<lambda>i. - int i) [0..<NUMNUM]) s \<and> s_main s = Merged (Inr (sort (map (\<lambda>i. - int i) [0..<NUMNUM])))"
proof -
  let ?n = "map (\<lambda>i. - int i) [0..<NUMNUM]"
  have "complong x y \<le> 0 \<longleftrightarrow> x \<le> y" for x y by (auto simp: complong_def)
  then have "sorts (\<lambda>_. sort)" by (simp add: sorts_def)
  moreover have "\<forall>x \<in> set ?n. x < LONG_MAX" by (auto simp: LONG_MAX_def)
  moreover obtain ns s where s: "sort_reach (\<lambda>_. sort) ?n s" "s_main s = Merged (merge ns)" using run_merge by blast
  ultimately have "merge ns = Inr (sort ?n)" using sort_main_correct [of "\<lambda>_. sort" ?n s] by simp
  then show ?thesis using s by (intro exI [of _ s]) simp
qed

end
