(* ===== verification/Mem_Stream.thy ===== *)
theory Mem_Stream
  imports Refinement
begin

text \<open>
  The memory streams of \<^verbatim>\<open>apue/exercises/fmemopen.c\<close>: opening by mode, and the functions for reading, writing,
  positioning and closing that the C library's \<^verbatim>\<open>funopen\<close> calls. Sizes are \<^verbatim>\<open>size_t\<close>; where the code puts them
  into an \<^verbatim>\<open>int\<close> the conversion is written out.
\<close>

unbundle bit_operations_syntax

section \<open>The program\<close>

record memstream =
  mbuf :: string
  rsize :: nat
  vsize :: nat
  curpos :: nat
  flags :: nat

definition MS_READ :: nat where "MS_READ = 0x01"
definition MS_WRITE :: nat where "MS_WRITE = 0x02"
definition MS_APPEND :: nat where "MS_APPEND = 0x04"
definition MS_TRUNCATE :: nat where "MS_TRUNCATE = 0x08"
definition MS_MYBUF :: nat where "MS_MYBUF = 0x10"

lemmas ms_flags = MS_READ_def MS_WRITE_def MS_APPEND_def MS_TRUNCATE_def MS_MYBUF_def

datatype ms_errno = EINVAL | ENOMEM | EBADF
datatype ms_err = Undefined string

fun type_loop :: "nat \<Rightarrow> string \<Rightarrow> nat" where
  "type_loop fl [] = fl"
| "type_loop fl (c # cp) =
    (if c = NUL then fl
     else if c = CHR ''r'' then (if fl \<noteq> 0 then 0 else type_loop (fl OR MS_READ) cp)
     else if c = CHR ''w'' then (if fl \<noteq> 0 then 0 else type_loop (fl OR (MS_WRITE OR MS_TRUNCATE)) cp)
     else if c = CHR ''a'' then (if fl \<noteq> 0 then 0 else type_loop (fl OR MS_APPEND) cp)
     else if c = CHR ''+'' then (if fl = 0 then 0 else type_loop (fl OR (MS_READ OR MS_WRITE)) cp)
     else if c = CHR ''b'' then (if fl = 0 then 0 else type_loop fl cp)
     else 0)"

definition type_to_flags :: "string \<Rightarrow> nat" where
  "type_to_flags ty = type_loop 0 ty"

function ms_find_end :: "string \<Rightarrow> nat \<Rightarrow> nat \<Rightarrow> ms_err + nat" where
  "ms_find_end buf off len =
    (if off < len then
       if off \<ge> length buf then Inl (Undefined ''read'')
       else if buf ! off = NUL then Inr off else ms_find_end buf (off + 1) len
     else Inr off)"
  by pat_completeness auto
termination by (relation "measure (\<lambda>(buf, off, len). len - off)") auto

declare ms_find_end.simps [simp del]

text \<open>
  \<^verbatim>\<open>fmemopen\<close>. \<open>ms_mem\<close> and \<open>fun_ok\<close>: whether \<^verbatim>\<open>malloc\<close> of the structure and \<^verbatim>\<open>funopen\<close> succeed; \<open>buf_mem\<close>: the fresh buffer, if
  there is memory for it. The result is the blocks that are allocated afterwards and the stream, or
  the error left in \<^verbatim>\<open>errno\<close> (\<open>None\<close>: whatever \<^verbatim>\<open>funopen\<close> left).
\<close>

datatype block = B_ms | B_buf

definition fmemopen :: "bool \<Rightarrow> string option \<Rightarrow> bool \<Rightarrow> string option \<Rightarrow> nat \<Rightarrow> string \<Rightarrow> block list \<Rightarrow> ms_err + block list \<times> (ms_errno option + memstream)" where
  "fmemopen ms_mem buf_mem fun_ok buf sz ty h =
    (if sz = 0 then Inr (h, Inl (Some EINVAL))
     else if \<not> ms_mem then Inr (h, Inl (Some ENOMEM))
     else let h = B_ms # h; fl = type_to_flags ty in
       if fl = 0 then Inr (remove1 B_ms h, Inl (Some EINVAL))
       else bindR (case buf of
           None \<Rightarrow>
             if fl AND (MS_READ OR MS_WRITE) \<noteq> (MS_READ OR MS_WRITE) then Inr (remove1 B_ms h, Inl (Some EINVAL))
             else (case buf_mem of
                 None \<Rightarrow> Inr (remove1 B_ms h, Inl (Some ENOMEM))
               | Some b \<Rightarrow> Inr (B_buf # h, Inr (b, fl OR MS_MYBUF, 0)))
         | Some b \<Rightarrow>
             if fl AND MS_APPEND \<noteq> 0 then bindR (ms_find_end b 0 sz) (\<lambda>e. Inr (h, Inr (b, fl, e)))
             else Inr (h, Inr (b, fl, 0)))
         (\<lambda>(h, r). case r of
             Inl e \<Rightarrow> Inr (h, Inl e)
           | Inr (b, fl, cur) \<Rightarrow>
               let v = (if fl AND MS_APPEND \<noteq> 0 then cur else if fl AND MS_TRUNCATE \<noteq> 0 then 0 else sz) in
               if \<not> fun_ok then Inr (remove1 B_ms (if fl AND MS_MYBUF \<noteq> 0 then remove1 B_buf h else h), Inl None)
               else Inr (h, Inr \<lparr>mbuf = b, rsize = sz, vsize = v, curpos = cur, flags = fl\<rparr>)))"

text \<open>The conversions to \<^verbatim>\<open>int\<close> and \<^verbatim>\<open>size_t\<close>.\<close>

definition c_int :: "int \<Rightarrow> int" where "c_int i = sint (word_of_int i :: 32 word)"
definition c_size :: "int \<Rightarrow> int" where "c_size i = uint (word_of_int i :: 64 word)"

definition mstream_read :: "int \<Rightarrow> memstream \<Rightarrow> ms_err + memstream \<times> (ms_errno + string)" where
  "mstream_read len ms =
    (if flags ms AND MS_READ = 0 then Inr (ms, Inl EBADF)
     else if curpos ms \<ge> vsize ms then Inr (ms, Inr [])
     else let nr = c_int (min (c_size len) (int (vsize ms) - int (curpos ms))) in
       if nr < 0 \<or> curpos ms + nat nr > length (mbuf ms) then Inl (Undefined ''read'')
       else Inr (ms\<lparr>curpos := curpos ms + nat nr\<rparr>, Inr (take (nat nr) (drop (curpos ms) (mbuf ms)))))"

text \<open>A byte stored into the buffer, and the two places where \<^verbatim>\<open>mstream_write\<close> stores a null byte.\<close>

definition set_byte :: "int \<Rightarrow> char \<Rightarrow> memstream \<Rightarrow> ms_err + memstream" where
  "set_byte i c ms = (if 0 \<le> i \<and> nat i < length (mbuf ms) then Inr (ms\<lparr>mbuf := (mbuf ms)[nat i := c]\<rparr>) else Inl (Undefined ''write''))"

definition null_extend :: "memstream \<Rightarrow> ms_err + memstream" where
  "null_extend ms = (if curpos ms > vsize ms then
     let ms = ms\<lparr>vsize := curpos ms\<rparr> in
     if flags ms AND (MS_READ OR MS_WRITE) = (MS_READ OR MS_WRITE) \<and> vsize ms < rsize ms then set_byte (int (vsize ms)) NUL ms else Inr ms
   else Inr ms)"

definition null_current :: "memstream \<Rightarrow> ms_err + memstream" where
  "null_current ms = (if flags ms AND (MS_WRITE OR MS_APPEND) \<noteq> 0 \<and> flags ms AND MS_READ = 0 then
     if curpos ms < rsize ms then set_byte (int (curpos ms)) NUL ms else set_byte (int (rsize ms) - 1) NUL ms
   else Inr ms)"

definition mstream_write :: "string \<Rightarrow> memstream \<Rightarrow> ms_err + memstream \<times> (ms_errno + int)" where
  "mstream_write buf ms =
    (if flags ms AND (MS_APPEND OR MS_WRITE) = 0 then Inr (ms, Inl EBADF)
     else let off = c_int (int (if flags ms AND MS_APPEND \<noteq> 0 then vsize ms else curpos ms));
              nw = c_int (min (c_size (int (length buf))) (c_size (int (rsize ms) - off))) in
       if off < 0 \<or> nw < 0 \<or> nat off + nat nw > length (mbuf ms) then Inl (Undefined ''write'')
       else bindR (null_extend (ms\<lparr>mbuf := take (nat off) (mbuf ms) @ take (nat nw) buf @ drop (nat off + nat nw) (mbuf ms), curpos := nat off + nat nw\<rparr>)) (\<lambda>ms.
         bindR (null_current ms) (\<lambda>ms. Inr (ms, Inr nw))))"

definition SEEK_SET :: int where "SEEK_SET = 0"
definition SEEK_CUR :: int where "SEEK_CUR = 1"
definition SEEK_END :: int where "SEEK_END = 2"

definition mstream_seek :: "int \<Rightarrow> int \<Rightarrow> memstream \<Rightarrow> ms_err + memstream \<times> (ms_errno + int)" where
  "mstream_seek p whence ms =
    bindR (if whence = SEEK_SET then Inr (c_int p)
      else if whence = SEEK_END then Inr (c_int (int (vsize ms) + p))
      else if whence = SEEK_CUR then Inr (c_int (int (curpos ms) + p))
      else Inl (Undefined ''off''))
    (\<lambda>off. if off < 0 \<or> off > int (vsize ms) then Inr (ms, Inl EINVAL)
       else Inr (ms\<lparr>curpos := nat off\<rparr>, Inr off))"

definition mstream_close :: "memstream \<Rightarrow> block list \<Rightarrow> block list \<times> int" where
  "mstream_close ms h = (remove1 B_ms (if flags ms AND MS_MYBUF \<noteq> 0 then remove1 B_buf h else h), 0)"

end
