(* ===== verification/Mem_Stream_Spec.thy ===== *)
theory Mem_Stream_Spec
  imports Mem_Stream
begin

text \<open>
  Memory streams as an abstract stream: the visible bytes, a position and a capacity, with the rights
  of the mode. Every sequence of calls on a stream that was opened acts and answers as on it.
\<close>

section \<open>The abstract stream\<close>

record astream =
  cont :: string
  pos :: nat
  cap :: nat
  rd :: bool
  wr :: bool
  app :: bool
  own :: bool

datatype ms_cmd = Read int | Write string | Seek int int
datatype ms_res = Bytes string | Count int | Fails ms_errno

definition as_read :: "int \<Rightarrow> astream \<Rightarrow> astream \<times> ms_res" where
  "as_read n a = (if \<not> rd a then (a, Fails EBADF)
     else let s = take (nat n) (drop (pos a) (cont a)) in (a\<lparr>pos := pos a + length s\<rparr>, Bytes s))"

text \<open>A write goes to the position, or to the end of an appending stream, as far as the capacity allows; on a stream
  that cannot be read it also stores a null byte behind, or over the last byte of a full buffer.\<close>

definition as_write :: "string \<Rightarrow> astream \<Rightarrow> astream \<times> ms_res" where
  "as_write s a = (if \<not> wr a then (a, Fails EBADF)
     else let off = (if app a then length (cont a) else pos a); t = take (cap a - off) s; p = off + length t;
              c = take off (cont a) @ t @ drop p (cont a);
              c = (if rd a then c else if p < length c then c[p := NUL] else if p = cap a then c[p - 1 := NUL] else c)
          in (a\<lparr>cont := c, pos := p\<rparr>, Count (int (length t))))"

definition seek_base :: "int \<Rightarrow> astream \<Rightarrow> int" where
  "seek_base whence a = (if whence = SEEK_SET then 0 else if whence = SEEK_END then int (length (cont a)) else int (pos a))"

definition as_seek :: "int \<Rightarrow> int \<Rightarrow> astream \<Rightarrow> astream \<times> ms_res" where
  "as_seek p whence a = (let off = seek_base whence a + p in
     if off < 0 \<or> off > int (length (cont a)) then (a, Fails EINVAL) else (a\<lparr>pos := nat off\<rparr>, Count off))"

fun as_spec :: "astream \<Rightarrow> ms_cmd \<Rightarrow> astream \<times> ms_res" where
  "as_spec a (Read n) = as_read n a"
| "as_spec a (Write s) = as_write s a"
| "as_spec a (Seek p w) = as_seek p w a"

text \<open>The arguments are within an \<^verbatim>\<open>int\<close>.\<close>

fun as_pre :: "astream \<Rightarrow> ms_cmd \<Rightarrow> bool" where
  "as_pre a (Read n) \<longleftrightarrow> 0 \<le> n \<and> n < 2 ^ 31"
| "as_pre a (Write s) \<longleftrightarrow> length s < 2 ^ 31"
| "as_pre a (Seek p w) \<longleftrightarrow> w \<in> {SEEK_SET, SEEK_CUR, SEEK_END} \<and> - (2 ^ 31) \<le> seek_base w a + p \<and> seek_base w a + p < 2 ^ 31"

fun ms_step :: "memstream \<Rightarrow> ms_cmd \<Rightarrow> ms_err + memstream \<times> ms_res" where
  "ms_step ms (Read n) = bindR (mstream_read n ms) (\<lambda>(ms, r). Inr (ms, case_sum Fails Bytes r))"
| "ms_step ms (Write s) = bindR (mstream_write s ms) (\<lambda>(ms, r). Inr (ms, case_sum Fails Count r))"
| "ms_step ms (Seek p w) = bindR (mstream_seek p w ms) (\<lambda>(ms, r). Inr (ms, case_sum Fails Count r))"

section \<open>Flags\<close>

definition modes :: "nat set" where "modes = {1, 3, 4, 7, 10, 11}"

lemma type_loop_modes: "fl \<in> insert 0 modes \<Longrightarrow> type_loop fl ty \<in> insert 0 modes"
proof (induction fl ty rule: type_loop.induct)
  case (2 fl c cp)
  have "fl \<noteq> 0 \<Longrightarrow> fl OR (MS_READ OR MS_WRITE) \<in> insert 0 modes" using "2.prems" by (auto simp: modes_def ms_flags)
  moreover have "0 OR MS_READ \<in> insert 0 modes" "0 OR (MS_WRITE OR MS_TRUNCATE) \<in> insert 0 modes" "0 OR MS_APPEND \<in> insert 0 modes"
    by (simp_all add: modes_def ms_flags)
  ultimately show ?case using "2.IH" "2.prems" by auto
qed simp

lemma type_to_flags_modes: "type_to_flags ty \<noteq> 0 \<Longrightarrow> type_to_flags ty \<in> modes"
  using type_loop_modes [of 0 ty] by (simp add: type_to_flags_def)

definition ms_ok :: "memstream \<Rightarrow> bool" where
  "ms_ok ms \<longleftrightarrow> length (mbuf ms) = rsize ms \<and> vsize ms \<le> rsize ms \<and> curpos ms \<le> vsize ms \<and> 0 < rsize ms \<and> rsize ms < 2 ^ 31 \<and>
     flags ms \<in> modes \<union> {19, 23, 27}"

definition ms_abs :: "memstream \<Rightarrow> astream" where
  "ms_abs ms = \<lparr>cont = take (vsize ms) (mbuf ms), pos = curpos ms, cap = rsize ms, rd = (flags ms AND MS_READ \<noteq> 0),
     wr = (flags ms AND (MS_APPEND OR MS_WRITE) \<noteq> 0), app = (flags ms AND MS_APPEND \<noteq> 0), own = (flags ms AND MS_MYBUF \<noteq> 0)\<rparr>"

lemma mode_both:
  "fl \<in> modes \<union> {19, 23, 27} \<Longrightarrow> fl AND (MS_READ OR MS_WRITE) = (MS_READ OR MS_WRITE) \<longleftrightarrow> fl AND MS_READ \<noteq> 0 \<and> fl AND (MS_APPEND OR MS_WRITE) \<noteq> 0"
  by (auto simp: modes_def ms_flags)

lemma or_swap: "MS_WRITE OR MS_APPEND = MS_APPEND OR MS_WRITE"
  by (simp add: ms_flags)

lemma c_int_id [simp]: "- (2 ^ 31) \<le> i \<Longrightarrow> i < 2 ^ 31 \<Longrightarrow> c_int i = i"
  by (simp add: c_int_def signed_of_int signed_take_bit_int_eq_self)

lemma c_size_id [simp]: "0 \<le> i \<Longrightarrow> i < 2 ^ 64 \<Longrightarrow> c_size i = i"
  by (simp add: c_size_def uint_word_of_int)

section \<open>The operations\<close>

lemma ms_move: "ms_ok ms \<Longrightarrow> k \<le> vsize ms \<Longrightarrow> ms_ok (ms\<lparr>curpos := k\<rparr>) \<and> ms_abs (ms\<lparr>curpos := k\<rparr>) = (ms_abs ms)\<lparr>pos := k\<rparr>"
  by (simp add: ms_ok_def ms_abs_def)

lemma read_sim:
  assumes "ms_ok ms" "0 \<le> n" "n < 2 ^ 31"
  shows "\<exists>ms'. ms_step ms (Read n) = Inr (ms', snd (as_read n (ms_abs ms))) \<and> ms_ok ms' \<and> ms_abs ms' = fst (as_read n (ms_abs ms))"
proof (cases "flags ms AND MS_READ = 0 \<or> curpos ms \<ge> vsize ms")
  case True
  then show ?thesis using assms(1) by (auto simp: mstream_read_def as_read_def ms_abs_def ms_ok_def)
next
  case False
  let ?k = "min n (int (vsize ms) - int (curpos ms))"
  have "c_int ?k = ?k" "nat ?k = min (nat n) (vsize ms - curpos ms)" using assms False by (auto simp: ms_ok_def)
  then show ?thesis using assms False
    by (auto simp: mstream_read_def as_read_def ms_abs_def ms_ok_def Let_def drop_take min_def)
qed

lemma seek_sim:
  assumes "ms_ok ms" "as_pre (ms_abs ms) (Seek p w)"
  shows "\<exists>ms'. ms_step ms (Seek p w) = Inr (ms', snd (as_seek p w (ms_abs ms))) \<and> ms_ok ms' \<and> ms_abs ms' = fst (as_seek p w (ms_abs ms))"
proof -
  have v: "length (cont (ms_abs ms)) = vsize ms" "pos (ms_abs ms) = curpos ms" using assms(1) by (auto simp: ms_abs_def ms_ok_def)
  let ?off = "seek_base w (ms_abs ms) + p"
  have "w \<in> {SEEK_SET, SEEK_CUR, SEEK_END}" using assms(2) by (simp only: as_pre.simps)
  then have "(if w = SEEK_SET then Inr (c_int p) else if w = SEEK_END then Inr (c_int (int (vsize ms) + p))
      else if w = SEEK_CUR then Inr (c_int (int (curpos ms) + p)) else Inl (Undefined ''off'')) = Inr (c_int ?off)"
    using v by (auto simp: seek_base_def)
  moreover have "c_int ?off = ?off" using assms(2) by (intro c_int_id) simp_all
  ultimately have "ms_step ms (Seek p w) = (if ?off < 0 \<or> ?off > int (vsize ms) then Inr (ms, Fails EINVAL) else Inr (ms\<lparr>curpos := nat ?off\<rparr>, Count ?off))"
    by (simp add: mstream_seek_def)
  then show ?thesis using assms(1) v ms_move [OF assms(1), of "nat ?off"]
    by (cases "?off < 0 \<or> ?off > int (vsize ms)") (simp_all add: as_seek_def Let_def nat_le_iff)
qed

lemma null_extend_ok:
  assumes "length (mbuf ms) = rsize ms" "curpos ms \<le> rsize ms" "vsize ms \<le> rsize ms" "flags ms \<in> modes \<union> {19, 23, 27}"
  shows "\<exists>b. null_extend ms = Inr (ms\<lparr>mbuf := b, vsize := max (vsize ms) (curpos ms)\<rparr>) \<and> length b = rsize ms \<and>
    take (max (vsize ms) (curpos ms)) b = take (max (vsize ms) (curpos ms)) (mbuf ms)"
  using assms by (cases ms) (auto simp: null_extend_def set_byte_def Let_def max_def)

lemma null_current_ok:
  assumes "length (mbuf ms) = rsize ms" "0 < rsize ms" "curpos ms \<le> rsize ms"
  shows "null_current ms = Inr (if flags ms AND (MS_APPEND OR MS_WRITE) \<noteq> 0 \<and> flags ms AND MS_READ = 0 then
      ms\<lparr>mbuf := (mbuf ms)[(if curpos ms < rsize ms then curpos ms else rsize ms - 1) := NUL]\<rparr> else ms)"
  using assms by (auto simp: null_current_def set_byte_def or_swap nat_diff_distrib)

text \<open>The bytes of a write: what is visible of the buffer after it.\<close>

lemma take_splice:
  assumes "length b = r" "v \<le> r" "off \<le> v" "off + length t \<le> r"
  shows "take (max v (off + length t)) (take off b @ t @ drop (off + length t) b) = take off (take v b) @ t @ drop (off + length t) (take v b)"
  using assms by (auto simp: max_def drop_take min_def) (simp flip: length_0_conv)

lemma null_visible:
  assumes "length b = r" "v \<le> r" "p \<le> r" "0 < r"
  shows "take (max v p) (b[(if p < r then p else r - 1) := NUL]) =
    (let c = take (max v p) b in if p < length c then c[p := NUL] else if p = r then c[p - 1 := NUL] else c)"
  using assms by (auto simp: Let_def take_update_swap max_def list_update_beyond)

lemma write_bytes:
  assumes "ms_ok ms" "length s < 2 ^ 31" "flags ms AND (MS_APPEND OR MS_WRITE) \<noteq> 0"
    and off: "off = (if flags ms AND MS_APPEND \<noteq> 0 then vsize ms else curpos ms)" and t: "t = take (rsize ms - off) s"
  shows "mstream_write s ms =
    bindR (null_extend (ms\<lparr>mbuf := take off (mbuf ms) @ t @ drop (off + length t) (mbuf ms), curpos := off + length t\<rparr>)) (\<lambda>ms.
      bindR (null_current ms) (\<lambda>ms. Inr (ms, Inr (int (length t)))))"
proof -
  have o: "off \<le> rsize ms" "rsize ms < 2 ^ 31" "length (mbuf ms) = rsize ms" using assms(1) off by (auto simp: ms_ok_def)
  have "c_int (int off) = int off" using o by (intro c_int_id) auto
  moreover have "c_int (min (c_size (int (length s))) (c_size (int (rsize ms) - int off))) = int (length t)"
    using o assms(2) by (simp add: t flip: of_nat_diff of_nat_min)
  moreover have "take (length t) s = t" by (simp add: t min_def)
  moreover have "off + length t \<le> length (mbuf ms)" using o by (simp add: t)
  ultimately show ?thesis using assms(3) unfolding mstream_write_def Let_def off [symmetric] by simp
qed

lemma as_write_eq:
  assumes "wr a" "off = (if app a then length (cont a) else pos a)" "t = take (cap a - off) s" "p = off + length t"
    and "c = take off (cont a) @ t @ drop p (cont a)"
  shows "as_write s a = (a\<lparr>cont := (if rd a then c else if p < length c then c[p := NUL] else if p = cap a then c[p - 1 := NUL] else c), pos := p\<rparr>,
    Count (int (length t)))"
  unfolding as_write_def Let_def assms(2-5) using assms(1) by simp

lemma write_sim:
  assumes "ms_ok ms" "length s < 2 ^ 31"
  shows "\<exists>ms'. ms_step ms (Write s) = Inr (ms', snd (as_write s (ms_abs ms))) \<and> ms_ok ms' \<and> ms_abs ms' = fst (as_write s (ms_abs ms))"
proof (cases "flags ms AND (MS_APPEND OR MS_WRITE) = 0")
  case True
  then show ?thesis using assms(1) by (simp add: mstream_write_def as_write_def ms_abs_def)
next
  case w: False
  define off where "off = (if flags ms AND MS_APPEND \<noteq> 0 then vsize ms else curpos ms)"
  define t where "t = take (rsize ms - off) s"
  define p where "p = off + length t"
  let ?b = "take off (mbuf ms) @ t @ drop p (mbuf ms)" and ?v = "max (vsize ms) p"
  let ?ms = "ms\<lparr>mbuf := ?b, curpos := p\<rparr>"
  have r: "length (mbuf ms) = rsize ms" "vsize ms \<le> rsize ms" "off \<le> vsize ms" "p \<le> rsize ms" "0 < rsize ms" "flags ms \<in> modes \<union> {19, 23, 27}"
    using assms(1) by (auto simp: ms_ok_def off_def t_def p_def)
  then have "length ?b = rsize ms" by (simp add: p_def)
  then obtain b where b: "null_extend ?ms = Inr (?ms\<lparr>mbuf := b, vsize := ?v\<rparr>)" "length b = rsize ms" "take ?v b = take ?v ?b"
    using null_extend_ok [of ?ms] r by auto
  let ?c = "if flags ms AND MS_READ = 0 then b[(if p < rsize ms then p else rsize ms - 1) := NUL] else b"
  have "mstream_write s ms = Inr (ms\<lparr>mbuf := ?c, curpos := p, vsize := ?v\<rparr>, Inr (int (length t)))"
    using write_bytes [OF assms w off_def t_def] b(1) null_current_ok [of "?ms\<lparr>mbuf := b, vsize := ?v\<rparr>"] b(2) r w by (simp add: p_def)
  moreover have "ms_ok (ms\<lparr>mbuf := ?c, curpos := p, vsize := ?v\<rparr>)" using assms(1) r b(2) by (simp add: ms_ok_def)
  moreover have "take ?v b = take off (take (vsize ms) (mbuf ms)) @ t @ drop p (take (vsize ms) (mbuf ms))"
    using take_splice [of "mbuf ms" "rsize ms" "vsize ms" off t] r b(3) by (simp add: p_def)
  moreover have "as_write s (ms_abs ms) = ((ms_abs ms)\<lparr>cont := take ?v ?c, pos := p\<rparr>, Count (int (length t)))"
    if c: "take ?v b = take off (take (vsize ms) (mbuf ms)) @ t @ drop p (take (vsize ms) (mbuf ms))"
  proof -
    have f: "wr (ms_abs ms)" "off = (if app (ms_abs ms) then length (cont (ms_abs ms)) else pos (ms_abs ms))" "t = take (cap (ms_abs ms) - off) s"
      "cont (ms_abs ms) = take (vsize ms) (mbuf ms)" "cap (ms_abs ms) = rsize ms" "rd (ms_abs ms) \<longleftrightarrow> flags ms AND MS_READ \<noteq> 0"
      using w r(1,2) by (simp_all add: ms_abs_def off_def t_def)
    have "as_write s (ms_abs ms) = ((ms_abs ms)\<lparr>cont := (if flags ms AND MS_READ \<noteq> 0 then take ?v b
        else if p < length (take ?v b) then (take ?v b)[p := NUL] else if p = rsize ms then (take ?v b)[p - 1 := NUL] else take ?v b), pos := p\<rparr>, Count (int (length t)))"
      using as_write_eq [OF f(1-3) p_def, of "take ?v b"] c unfolding f(4-6) by blast
    then show ?thesis unfolding null_visible [OF b(2) r(2,4,5), unfolded Let_def, symmetric] by (simp split: if_splits)
  qed
  ultimately show ?thesis by (simp add: ms_abs_def)
qed

interpretation mst: data_refinement "\<lambda>ms a. ms_ok ms \<and> ms_abs ms = a" ms_step as_spec as_pre
proof (unfold_locales, goal_cases)
  case (1 ms a c)
  then show ?case using read_sim [of ms] write_sim [of ms] seek_sim [of ms] by (cases c) auto
qed

section \<open>Opening\<close>

text \<open>A mode is one of \<^verbatim>\<open>r\<close>, \<^verbatim>\<open>w\<close>, \<^verbatim>\<open>a\<close>, followed by \<^verbatim>\<open>+\<close> and \<^verbatim>\<open>b\<close> in any number and order.\<close>

definition valid_type :: "string \<Rightarrow> bool" where
  "valid_type ty \<longleftrightarrow> (case ty of [] \<Rightarrow> False | c # cs \<Rightarrow> c \<in> set ''rwa'' \<and> set cs \<subseteq> set ''+b'')"

definition mode_flags :: "string \<Rightarrow> nat" where
  "mode_flags ty = (if hd ty = CHR ''r'' then MS_READ else if hd ty = CHR ''w'' then MS_WRITE OR MS_TRUNCATE else MS_APPEND) OR
     (if CHR ''+'' \<in> set ty then MS_READ OR MS_WRITE else 0)"

lemma type_loop_rest:
  assumes "is_cstr cs" "fl \<noteq> 0"
  shows "type_loop fl cs = (if set cs \<subseteq> set ''+b'' then fl OR (if CHR ''+'' \<in> set cs then MS_READ OR MS_WRITE else 0) else 0)"
  using assms
proof (induction cs arbitrary: fl)
  case (Cons c cs)
  have "fl OR (MS_READ OR MS_WRITE) \<noteq> 0" using Cons.prems(2) by (simp add: or_eq_0_iff)
  then show ?case using Cons by auto
qed simp

lemma type_to_flags_eq: "is_cstr ty \<Longrightarrow> type_to_flags ty = (if valid_type ty then mode_flags ty else 0)"
  by (cases ty) (auto simp: type_to_flags_def valid_type_def mode_flags_def type_loop_rest or_eq_0_iff ms_flags)

lemma mode_flags_pos: "mode_flags ty \<noteq> 0"
  by (simp add: mode_flags_def or_eq_0_iff ms_flags)

lemma find_end_c_str: "length b = n \<Longrightarrow> off \<le> n \<Longrightarrow> ms_find_end b off n = Inr (off + length (c_str (drop off b)))"
proof (induction b off n rule: ms_find_end.induct)
  case (1 b off n)
  show ?case
  proof (cases "off < n")
    case True
    then have "drop off b = b ! off # drop (off + 1) b" using 1 by (simp add: Cons_nth_drop_Suc)
    then show ?thesis using 1 True by (subst ms_find_end.simps) (auto simp: c_str_def)
  qed (use 1 in \<open>subst ms_find_end.simps, simp add: c_str_def\<close>)
qed

text \<open>The abstract stream that a mode opens on a buffer \<open>b\<close>; \<open>kept\<close> is what an appending stream finds in it.\<close>

definition as_open :: "bool \<Rightarrow> string \<Rightarrow> string \<Rightarrow> string \<Rightarrow> astream" where
  "as_open fresh b kept ty = \<lparr>cont = (if hd ty = CHR ''r'' then b else if hd ty = CHR ''w'' then [] else kept),
     pos = (if hd ty = CHR ''a'' then length kept else 0), cap = length b,
     rd = (hd ty = CHR ''r'' \<or> CHR ''+'' \<in> set ty), wr = (hd ty \<noteq> CHR ''r'' \<or> CHR ''+'' \<in> set ty), app = (hd ty = CHR ''a''), own = fresh\<rparr>"

lemma mode_bits:
  assumes "valid_type ty"
  shows "mode_flags ty \<in> modes"
    "mode_flags ty AND MS_READ \<noteq> 0 \<longleftrightarrow> hd ty = CHR ''r'' \<or> CHR ''+'' \<in> set ty"
    "mode_flags ty AND (MS_APPEND OR MS_WRITE) \<noteq> 0 \<longleftrightarrow> hd ty \<noteq> CHR ''r'' \<or> CHR ''+'' \<in> set ty"
    "mode_flags ty AND MS_APPEND \<noteq> 0 \<longleftrightarrow> hd ty = CHR ''a''" "mode_flags ty AND MS_TRUNCATE \<noteq> 0 \<longleftrightarrow> hd ty = CHR ''w''"
    "mode_flags ty AND MS_MYBUF = 0"
    "mode_flags ty AND (MS_READ OR MS_WRITE) = (MS_READ OR MS_WRITE) \<longleftrightarrow> CHR ''+'' \<in> set ty"
  using assms by (auto simp: valid_type_def mode_flags_def modes_def ms_flags split: list.splits)

lemma fmemopen_user:
  assumes "is_cstr ty" "valid_type ty" "0 < length b" "length b < 2 ^ 31"
  shows "\<exists>ms. fmemopen True m True (Some b) (length b) ty h = Inr (B_ms # h, Inr ms) \<and> ms_ok ms \<and> ms_abs ms = as_open False b (c_str b) ty"
proof -
  note bits = mode_bits [OF assms(2)]
  have c: "length (c_str b) \<le> length b" "take (length (c_str b)) b = c_str b" by (simp_all add: c_str_def length_takeWhile_le takeWhile_eq_take [symmetric])
  have "ms_find_end b 0 (length b) = Inr (length (c_str b))" using find_end_c_str [of b "length b" 0] by simp
  moreover have "hd ty \<in> set ''rwa''" using assms(2) by (auto simp: valid_type_def split: list.splits)
  ultimately show ?thesis using assms bits c mode_flags_pos [of ty] type_to_flags_eq [OF assms(1)]
    by (auto simp: fmemopen_def Let_def ms_ok_def ms_abs_def as_open_def)
qed

lemma mybuf_bits:
  assumes "fl \<in> modes" "fl AND (MS_READ OR MS_WRITE) = (MS_READ OR MS_WRITE)"
  shows "fl OR MS_MYBUF \<in> {19, 23, 27}" "(fl OR MS_MYBUF) AND MS_READ \<noteq> 0" "(fl OR MS_MYBUF) AND (MS_APPEND OR MS_WRITE) \<noteq> 0"
    "(fl OR MS_MYBUF) AND MS_APPEND = fl AND MS_APPEND" "(fl OR MS_MYBUF) AND MS_TRUNCATE = fl AND MS_TRUNCATE" "(fl OR MS_MYBUF) AND MS_MYBUF \<noteq> 0"
  using assms by (auto simp: modes_def ms_flags)

lemma fmemopen_fresh:
  assumes "is_cstr ty" "valid_type ty" "CHR ''+'' \<in> set ty" "0 < length b" "length b < 2 ^ 31"
  shows "\<exists>ms. fmemopen True (Some b) True None (length b) ty h = Inr (B_buf # B_ms # h, Inr ms) \<and> ms_ok ms \<and> ms_abs ms = as_open True b [] ty"
proof -
  note bits = mode_bits [OF assms(2)]
  have both: "mode_flags ty AND (MS_READ OR MS_WRITE) = (MS_READ OR MS_WRITE)" using bits(7) assms(3) by simp
  note my = mybuf_bits [OF bits(1) both]
  have "hd ty \<in> set ''rwa''" using assms(2) by (auto simp: valid_type_def split: list.splits)
  then show ?thesis using assms bits(4,5) my both mode_flags_pos [of ty] type_to_flags_eq [OF assms(1)]
    by (auto simp: fmemopen_def Let_def ms_ok_def ms_abs_def as_open_def)
qed

section \<open>Properties\<close>

lemma spec_fixed: "cap (fst (as_spec a c)) = cap a \<and> own (fst (as_spec a c)) = own a"
  by (cases c) (auto simp: as_read_def as_write_def as_seek_def Let_def)

lemma spec_run_fixed: "cap (fst (spec_run as_spec a cs)) = cap a \<and> own (fst (spec_run as_spec a cs)) = own a"
  by (induction cs arbitrary: a) (simp_all add: Let_def split_def spec_fixed)

lemma run_abs:
  assumes "ms_ok ms" "all_pre as_spec as_pre (ms_abs ms) cs"
  obtains ms' where "run ms_step ms cs = Inr (ms', snd (spec_run as_spec (ms_abs ms) cs))" "ms_ok ms'" "ms_abs ms' = fst (spec_run as_spec (ms_abs ms) cs)"
  using mst.run_refines [of ms "ms_abs ms" cs] assms by blast

lemma close_blocks: "mstream_close ms ((if own (ms_abs ms) then [B_buf, B_ms] else [B_ms]) @ h) = (h, 0)"
  by (simp add: mstream_close_def ms_abs_def)



text \<open>
  Opening fails exactly as documented: for a size of 0, a mode that is not one, no buffer and a
  mode that does not both read and write (\<^verbatim>\<open>EINVAL\<close>), or for lack of memory (\<^verbatim>\<open>ENOMEM\<close>); and a call that fails
  has freed whatever it had allocated.
\<close>

theorem fmemopen_fails:
  assumes "is_cstr ty" "\<And>b. buf = Some b \<Longrightarrow> length b = sz"
  shows "\<exists>h' r. fmemopen ms_mem buf_mem fun_ok buf sz ty h = Inr (h', r) \<and>
    (case r of
       Inl (Some EINVAL) \<Rightarrow> sz = 0 \<or> ms_mem \<and> (\<not> valid_type ty \<or> buf = None \<and> CHR ''+'' \<notin> set ty)
     | Inl (Some ENOMEM) \<Rightarrow> sz \<noteq> 0 \<and> (\<not> ms_mem \<or> valid_type ty \<and> buf = None \<and> CHR ''+'' \<in> set ty \<and> buf_mem = None)
     | Inl (Some EBADF) \<Rightarrow> False
     | Inl None \<Rightarrow> \<not> fun_ok
     | Inr ms \<Rightarrow> sz \<noteq> 0 \<and> ms_mem \<and> fun_ok \<and> valid_type ty \<and> (buf = None \<longrightarrow> CHR ''+'' \<in> set ty \<and> buf_mem \<noteq> None)) \<and>
    (\<forall>e. r = Inl e \<longrightarrow> h' = h)"
proof (cases "sz = 0 \<or> \<not> ms_mem \<or> \<not> valid_type ty")
  case True
  then show ?thesis using type_to_flags_eq [OF assms(1)] by (auto simp: fmemopen_def Let_def mode_flags_pos)
next
  case False
  note bits = mode_bits [of ty]
  show ?thesis
  proof (cases buf)
    case None
    then show ?thesis using False bits type_to_flags_eq [OF assms(1)] mybuf_bits(6) [OF bits(1)]
      by (cases buf_mem) (auto simp: fmemopen_def Let_def mode_flags_pos)
  next
    case (Some b)
    then have "ms_find_end b 0 sz = Inr (length (c_str b))" using find_end_c_str [of b sz 0] assms(2) by simp
    then show ?thesis using False Some bits type_to_flags_eq [OF assms(1)] by (auto simp: fmemopen_def Let_def mode_flags_pos)
  qed
qed

theorem fmemopen_fails_witness:
  "\<exists>h' r. fmemopen True (Some ''xyz'') True None 3 ''w'' [] = Inr (h', r) \<and> r = Inl (Some EINVAL) \<and> h' = []"
proof -
  obtain h' r where r: "fmemopen True (Some ''xyz'') True None 3 ''w'' [] = Inr (h', r)" "\<forall>e. r = Inl e \<longrightarrow> h' = []"
    using fmemopen_fails [of "''w''" None 3 True "Some ''xyz''" True "[]"] by auto
  moreover have "type_to_flags ''w'' = 10" by (simp add: type_to_flags_def ms_flags)
  ultimately have "r = Inl (Some EINVAL)" by (simp add: fmemopen_def Let_def ms_flags)
  then show ?thesis using r by simp
qed

text \<open>
  A stream for writing only loses a byte at every write before its end: a null byte goes behind
  what is written although the stream does not grow. After writing, going back and writing less, the
  byte behind the second write is gone.
\<close>

theorem mstream_null_clobbers:
  assumes "0 < length t" "length t < length s" "length s < length b" "length b < 2 ^ 31"
  shows "\<exists>ms ms'. fmemopen True m True (Some b) (length b) ''w'' h = Inr (B_ms # h, Inr ms) \<and>
    run ms_step ms [Write s, Seek 0 SEEK_SET, Write t] = Inr (ms', [Count (int (length s)), Count 0, Count (int (length t))]) \<and>
    take (vsize ms') (mbuf ms') = t @ NUL # drop (length t + 1) s"
proof -
  let ?cs = "[Write s, Seek 0 SEEK_SET, Write t]"
  have "0 < length b" "valid_type ''w''" using assms by (auto simp: valid_type_def)
  then obtain ms where ms: "fmemopen True m True (Some b) (length b) ''w'' h = Inr (B_ms # h, Inr ms)" "ms_ok ms" "ms_abs ms = as_open False b (c_str b) ''w''"
    using fmemopen_user [of "''w''" b m h] assms(4) by auto
  have p: "all_pre as_spec as_pre (ms_abs ms) ?cs" using assms
    by (simp add: ms(3) as_open_def as_write_def as_seek_def seek_base_def Let_def)
  obtain ms' where "run ms_step ms ?cs = Inr (ms', snd (spec_run as_spec (ms_abs ms) ?cs))" "ms_abs ms' = fst (spec_run as_spec (ms_abs ms) ?cs)"
    using run_abs [OF ms(2) p] by blast
  moreover have "spec_run as_spec (ms_abs ms) ?cs = ((ms_abs ms)\<lparr>cont := t @ NUL # drop (length t + 1) s, pos := length t\<rparr>, [Count (int (length s)), Count 0, Count (int (length t))])"
    using assms by (simp add: ms(3) as_open_def as_write_def as_seek_def seek_base_def Let_def list_update_append upd_conv_take_nth_drop)
  moreover have "cont (ms_abs ms') = take (vsize ms') (mbuf ms')" by (simp add: ms_abs_def)
  ultimately show ?thesis using ms(1) by (intro exI [of _ ms] exI [of _ ms']) simp
qed

theorem mstream_null_clobbers_witness:
  "\<exists>ms ms'. fmemopen True None True (Some ''........'') (length ''........'') ''w'' [] = Inr ([B_ms], Inr ms) \<and>
    run ms_step ms [Write ''hello'', Seek 0 SEEK_SET, Write ''J''] = Inr (ms', [Count 5, Count 0, Count 1]) \<and>
    take (vsize ms') (mbuf ms') = ''J'' @ NUL # ''llo''"
  using mstream_null_clobbers [of "''J''" "''hello''" "''........''" None "[]"] by (simp del: run.simps)

text \<open>The modes that POSIX lists for \<^verbatim>\<open>fopen\<close> and \<^verbatim>\<open>fmemopen\<close>, with their meaning in the flags of the program.\<close>

definition posix_modes :: "(string \<times> nat) list" where
  "posix_modes =
    [(''r'', MS_READ), (''rb'', MS_READ), (''w'', MS_WRITE OR MS_TRUNCATE), (''wb'', MS_WRITE OR MS_TRUNCATE), (''a'', MS_APPEND), (''ab'', MS_APPEND),
     (''r+'', MS_READ OR MS_WRITE), (''rb+'', MS_READ OR MS_WRITE), (''r+b'', MS_READ OR MS_WRITE),
     (''w+'', MS_READ OR MS_WRITE OR MS_TRUNCATE), (''wb+'', MS_READ OR MS_WRITE OR MS_TRUNCATE), (''w+b'', MS_READ OR MS_WRITE OR MS_TRUNCATE),
     (''a+'', MS_READ OR MS_WRITE OR MS_APPEND), (''ab+'', MS_READ OR MS_WRITE OR MS_APPEND), (''a+b'', MS_READ OR MS_WRITE OR MS_APPEND)]"

lemma mode_flags_posix:
  assumes "valid_type ty"
  shows "\<exists>(md, fl) \<in> set posix_modes. hd md = hd ty \<and> (CHR ''+'' \<in> set md \<longleftrightarrow> CHR ''+'' \<in> set ty) \<and> mode_flags ty = fl"
  using assms by (auto simp: posix_modes_def valid_type_def mode_flags_def ms_flags split: list.splits if_splits)

text \<open>
  C22: the modes of POSIX are understood, and more. Each of the fifteen modes that POSIX lists gets its
  flags. \<^verbatim>\<open>type_to_flags\<close> accepts a word exactly when it is \<^verbatim>\<open>r\<close>, \<^verbatim>\<open>w\<close> or \<^verbatim>\<open>a\<close> followed by any number of \<^verbatim>\<open>+\<close> and \<^verbatim>\<open>b\<close>, so
  that it also takes words like \<^verbatim>\<open>r++\<close> or \<^verbatim>\<open>rbb\<close>, which POSIX does not list; such a word means the same as the
  listed modes with its first letter and with a \<^verbatim>\<open>+\<close> if it has one.
\<close>

theorem type_to_flags_correct:
  assumes "is_cstr ty"
  shows "(\<forall>(md, fl) \<in> set posix_modes. type_to_flags md = fl) \<and>
    (type_to_flags ty \<noteq> 0 \<longleftrightarrow> (\<exists>c cs. ty = c # cs \<and> c \<in> set ''rwa'' \<and> set cs \<subseteq> set ''+b'')) \<and>
    (type_to_flags ty \<noteq> 0 \<longrightarrow> (\<exists>(md, fl) \<in> set posix_modes. hd md = hd ty \<and> (CHR ''+'' \<in> set md \<longleftrightarrow> CHR ''+'' \<in> set ty) \<and>
       type_to_flags ty = fl))"
proof -
  have v: "valid_type ty \<longleftrightarrow> (\<exists>c cs. ty = c # cs \<and> c \<in> set ''rwa'' \<and> set cs \<subseteq> set ''+b'')"
    by (cases ty) (simp_all add: valid_type_def)
  have "\<forall>(md, fl) \<in> set posix_modes. type_to_flags md = fl" by (simp add: posix_modes_def type_to_flags_def ms_flags)
  then show ?thesis using type_to_flags_eq [OF assms] mode_flags_pos [of ty] mode_flags_posix [of ty] unfolding v [symmetric] by auto
qed

theorem type_to_flags_correct_witness:
  "type_to_flags ''rb+'' = MS_READ OR MS_WRITE \<and> type_to_flags ''rw'' = 0 \<and> type_to_flags ''r++'' = MS_READ OR MS_WRITE"
proof -
  have "is_cstr ''rw''" "is_cstr ''r++''" by (simp_all add: is_cstr_def)
  note c = type_to_flags_correct [OF this(1)] type_to_flags_correct [OF this(2)]
  have "type_to_flags ''rb+'' = MS_READ OR MS_WRITE" using c(1) by (simp add: posix_modes_def)
  moreover have "type_to_flags ''rw'' = 0" using c(1) by auto
  moreover have "type_to_flags ''r++'' = MS_READ OR MS_WRITE" using c(2) by (simp add: posix_modes_def)
  ultimately show ?thesis by blast
qed

end
