(* ===== verification/Work_Queue.thy ===== *)
theory Work_Queue
  imports DList
begin

text \<open>
  The work queue of \<^verbatim>\<open>LinuxLesson/2.3.1-coroutine-main/server_mulport_epoll.c\<close>: its list macros, and the threads that
  add jobs, work and shut the queue down, as a step relation whose steps are the operations on the
  mutex, the condition variable and the flags.
\<close>

section \<open>The list macros\<close>

record llist =
  l_next :: "nat \<Rightarrow> nat"
  l_prev :: "nat \<Rightarrow> nat"
  l_head :: nat

text \<open>The assignments to the new element, and the macro with the last one, which makes it the head.\<close>

definition LL_ADD_item :: "nat \<Rightarrow> llist \<Rightarrow> llist" where
  "LL_ADD_item item L =
    (let L = L\<lparr>l_prev := (l_prev L)(item := 0)\<rparr>
     in L\<lparr>l_next := (l_next L)(item := l_head L)\<rparr>)"

definition LL_ADD :: "nat \<Rightarrow> llist \<Rightarrow> llist" where
  "LL_ADD item L = (LL_ADD_item item L)\<lparr>l_head := item\<rparr>"

definition LL_REMOVE :: "nat \<Rightarrow> llist \<Rightarrow> llist" where
  "LL_REMOVE item L =
    (let L = (if l_prev L item \<noteq> 0 then L\<lparr>l_next := (l_next L)(l_prev L item := l_next L item)\<rparr> else L);
         L = (if l_next L item \<noteq> 0 then L\<lparr>l_prev := (l_prev L)(l_next L item := l_prev L item)\<rparr> else L);
         L = (if l_head L = item then L\<lparr>l_head := l_next L item\<rparr> else L)
     in L\<lparr>l_prev := (l_prev L)(item := 0), l_next := (l_next L)(item := 0)\<rparr>)"

section \<open>The threads\<close>

text \<open>
  Where a thread is. \<^verbatim>\<open>worker_function\<close>: before the lock, at the test of the inner loop, at its test of
  \<^verbatim>\<open>terminate\<close>, asleep, woken, behind the loop, at the head of the list, with a job before its removal,
  before the unlock, running it, leaving, gone. \<^verbatim>\<open>workqueue_add_job\<close>: before the lock, inside, with the job
  linked to the list but not its head yet, before the signal, before the unlock.
  \<^verbatim>\<open>workqueue_shutdown\<close>: at a worker of the list, before reading its successor, before the lock, inside.
\<close>

datatype wpc = Idle
  | W_lock | W_test | W_term | W_wait | W_woken | W_check | W_take | W_rem nat | W_out nat | W_run nat | W_exit | W_gone
  | A_lock nat | A_in nat | A_head nat | A_sig | A_out
  | S_flag nat | S_next nat | S_lock | S_in

text \<open>What happened to the jobs, in order.\<close>

datatype wev = Added nat | Taken nat | Dropped

text \<open>
  The queue. Worker \<open>w\<close> is the thread with that number; the list of workers, linked by \<open>w_next\<close> (\<open>None\<close> at the
  end), is not changed while they run. \<open>bad\<close>: the successor of a freed worker was read.
\<close>

record wqueue =
  waiting :: llist
  terminate :: "nat \<Rightarrow> bool"
  workers :: "nat option"
  w_next :: "nat \<Rightarrow> nat option"
  wmutex :: "nat option"
  wpcs :: "nat \<Rightarrow> wpc"
  trace :: "wev list"
  bad :: bool

abbreviation goto :: "nat \<Rightarrow> wpc \<Rightarrow> wqueue \<Rightarrow> wqueue" where
  "goto t p s \<equiv> s\<lparr>wpcs := (wpcs s)(t := p)\<rparr>"

abbreviation lock_by :: "nat \<Rightarrow> wqueue \<Rightarrow> wqueue" where
  "lock_by t s \<equiv> s\<lparr>wmutex := Some t\<rparr>"

abbreviation unlock :: "wqueue \<Rightarrow> wqueue" where
  "unlock s \<equiv> s\<lparr>wmutex := None\<rparr>"

definition flag_at :: "nat option \<Rightarrow> wpc" where
  "flag_at w = (case w of None \<Rightarrow> S_lock | Some w \<Rightarrow> S_flag w)"

definition wake :: "(nat \<Rightarrow> wpc) \<Rightarrow> nat \<Rightarrow> wpc" where
  "wake p = (\<lambda>u. if p u = W_wait then W_woken else p u)"

text \<open>A job that is handed over is not in the queue and not being added or run.\<close>

fun job_at :: "wpc \<Rightarrow> nat option" where
  "job_at (A_lock k) = Some k"
| "job_at (A_in k) = Some k"
| "job_at (A_head k) = Some k"
| "job_at (W_rem k) = Some k"
| "job_at (W_out k) = (if k = 0 then None else Some k)"
| "job_at (W_run k) = Some k"
| "job_at _ = None"

definition job_new :: "wqueue \<Rightarrow> nat \<Rightarrow> bool" where
  "job_new s k \<longleftrightarrow> k \<noteq> 0 \<and> (\<forall>u. job_at (wpcs s u) \<noteq> Some k) \<and> (\<forall>q. chain (l_next (waiting s)) (l_head (waiting s)) q \<longrightarrow> k \<notin> set q)"

inductive wq_step :: "wqueue \<Rightarrow> wqueue \<Rightarrow> bool" where
  add: "wpcs s t = Idle \<Longrightarrow> job_new s k \<Longrightarrow> wq_step s (goto t (A_lock k) s)"
| add_lock: "wpcs s t = A_lock k \<Longrightarrow> wmutex s = None \<Longrightarrow> wq_step s (goto t (A_in k) (lock_by t s))"
| add_link: "wpcs s t = A_in k \<Longrightarrow> wq_step s (goto t (A_head k) (s\<lparr>waiting := LL_ADD_item k (waiting s)\<rparr>))"
| add_head: "wpcs s t = A_head k \<Longrightarrow> wq_step s (goto t A_sig (s\<lparr>waiting := (waiting s)\<lparr>l_head := k\<rparr>, trace := trace s @ [Added k]\<rparr>))"
| add_signal: "wpcs s t = A_sig \<Longrightarrow> wpcs s u = W_wait \<Longrightarrow> wq_step s (goto t A_out (goto u W_woken s))"
| add_nobody: "wpcs s t = A_sig \<Longrightarrow> \<forall>u. wpcs s u \<noteq> W_wait \<Longrightarrow> wq_step s (goto t A_out s)"
| add_unlock: "wpcs s t = A_out \<Longrightarrow> wq_step s (goto t Idle (unlock s))"
| stop: "wpcs s t = Idle \<Longrightarrow> wq_step s (goto t (flag_at (workers s)) s)"
| stop_flag: "wpcs s t = S_flag w \<Longrightarrow> wq_step s (goto t (S_next w) (s\<lparr>terminate := (terminate s)(w := True)\<rparr>))"
| stop_next: "wpcs s t = S_next w \<Longrightarrow> wq_step s (goto t (flag_at (w_next s w)) (s\<lparr>bad := (bad s \<or> wpcs s w = W_gone)\<rparr>))"
| stop_lock: "wpcs s t = S_lock \<Longrightarrow> wmutex s = None \<Longrightarrow> wq_step s (goto t S_in (lock_by t s))"
| stop_drop: "wpcs s t = S_in \<Longrightarrow>
    wq_step s (goto t Idle (unlock (s\<lparr>workers := None, waiting := (waiting s)\<lparr>l_head := 0\<rparr>, trace := trace s @ [Dropped], wpcs := wake (wpcs s)\<rparr>)))"
| work_lock: "wpcs s t = W_lock \<Longrightarrow> wmutex s = None \<Longrightarrow> wq_step s (goto t W_test (lock_by t s))"
| work_test: "wpcs s t = W_test \<Longrightarrow> wq_step s (goto t (if l_head (waiting s) = 0 then W_term else W_check) s)"
| work_break: "wpcs s t = W_term \<Longrightarrow> terminate s t \<Longrightarrow> wq_step s (goto t W_check s)"
| work_wait: "wpcs s t = W_term \<Longrightarrow> \<not> terminate s t \<Longrightarrow> wq_step s (goto t W_wait (unlock s))"
| work_spurious: "wpcs s t = W_wait \<Longrightarrow> wq_step s (goto t W_woken s)"
| work_relock: "wpcs s t = W_woken \<Longrightarrow> wmutex s = None \<Longrightarrow> wq_step s (goto t W_test (lock_by t s))"
| work_check: "wpcs s t = W_check \<Longrightarrow> wq_step s (goto t (if terminate s t then W_exit else W_take) s)"
| work_take: "wpcs s t = W_take \<Longrightarrow> k = l_head (waiting s) \<Longrightarrow> wq_step s (goto t (if k \<noteq> 0 then W_rem k else W_out k) s)"
| work_remove: "wpcs s t = W_rem k \<Longrightarrow>
    wq_step s (goto t (W_out k) (s\<lparr>waiting := LL_REMOVE k (waiting s), trace := trace s @ [Taken k]\<rparr>))"
| work_unlock: "wpcs s t = W_out k \<Longrightarrow> wq_step s (goto t (if k = 0 then W_lock else W_run k) (unlock s))"
| work_run: "wpcs s t = W_run k \<Longrightarrow> wq_step s (goto t W_lock s)"
| work_exit: "wpcs s t = W_exit \<Longrightarrow> wq_step s (goto t W_gone s)"

inductive wq_reach :: "wqueue \<Rightarrow> wqueue \<Rightarrow> bool" where
  here: "wq_reach s s"
| there: "wq_reach s t \<Longrightarrow> wq_step t u \<Longrightarrow> wq_reach s u"

text \<open>
  \<^verbatim>\<open>workqueue_init\<close>: at least one worker, each put in front of the list; \<open>can w\<close> is whether its memory and its
  thread can be had. The result is the first worker of the list with the links and the code returned.
\<close>

fun init_loop :: "(nat \<Rightarrow> bool) \<Rightarrow> nat \<Rightarrow> nat \<Rightarrow> nat option \<times> (nat \<Rightarrow> nat option) \<Rightarrow> (nat option \<times> (nat \<Rightarrow> nat option)) \<times> int" where
  "init_loop can i 0 L = (L, 0)"
| "init_loop can i (Suc n) L = (if \<not> can i then (L, 1) else init_loop can (Suc i) n (Some i, (snd L)(i := fst L)))"

definition workqueue_init :: "(nat \<Rightarrow> bool) \<Rightarrow> int \<Rightarrow> (nat option \<times> (nat \<Rightarrow> nat option)) \<times> int" where
  "workqueue_init can numWorkers = init_loop can 0 (nat (if numWorkers < 1 then 1 else numWorkers)) (None, \<lambda>_. None)"

definition MAX_THREAD :: int where "MAX_THREAD = 80"

definition threadpool_init :: "(nat \<Rightarrow> bool) \<Rightarrow> (nat option \<times> (nat \<Rightarrow> nat option)) \<times> int" where
  "threadpool_init can = workqueue_init can MAX_THREAD"

text \<open>The queue after an initialisation that succeeded: the workers at their start, the other threads outside.\<close>

definition wq_start :: "int \<Rightarrow> llist \<Rightarrow> wqueue" where
  "wq_start numWorkers L = (case workqueue_init (\<lambda>_. True) numWorkers of ((w, nx), _) \<Rightarrow>
     \<lparr>waiting = L\<lparr>l_head := 0\<rparr>, terminate = (\<lambda>_. False), workers = w, w_next = nx, wmutex = None,
      wpcs = (\<lambda>t. if t < nat (if numWorkers < 1 then 1 else numWorkers) then W_lock else Idle), trace = [], bad = False\<rparr>)"

end
