(* ===== verification/Mutex.thy ===== *)
theory Mutex
  imports Main
begin

text \<open>
  Mutual exclusion for threads with program counters: a mutex is held by the thread whose program
  counter is inside a critical section. The lemmas give the effect of a step of one thread, of a step
  that wakes another, of locking and of unlocking.
\<close>

definition excl_by :: "('p \<Rightarrow> bool) \<Rightarrow> ('t \<Rightarrow> 'p) \<Rightarrow> 't option \<Rightarrow> bool" where
  "excl_by inside pcs m \<longleftrightarrow> (\<forall>t. inside (pcs t) \<longleftrightarrow> m = Some t)"

lemma excl_by_stay: "excl_by inside pcs m \<Longrightarrow> inside p = inside (pcs t) \<Longrightarrow> excl_by inside (pcs(t := p)) m"
  by (simp add: excl_by_def)

lemma excl_by_signal:
  "excl_by inside pcs m \<Longrightarrow> inside p = inside (pcs t) \<Longrightarrow> inside p' = inside (pcs u) \<Longrightarrow> excl_by inside (pcs(u := p', t := p)) m"
  by (simp add: excl_by_def)

lemma excl_by_lock: "excl_by inside pcs None \<Longrightarrow> inside p \<Longrightarrow> excl_by inside (pcs(t := p)) (Some t)"
  by (auto simp: excl_by_def)

lemma excl_by_unlock: "excl_by inside pcs m \<Longrightarrow> inside (pcs t) \<Longrightarrow> \<not> inside p \<Longrightarrow> excl_by inside (pcs(t := p)) None"
  by (auto simp: excl_by_def)

lemma excl_by_map: "excl_by inside pcs m \<Longrightarrow> (\<And>t. inside (pcs' t) = inside (pcs t)) \<Longrightarrow> excl_by inside pcs' m"
  by (simp add: excl_by_def)

lemma excl_by_alone: "excl_by inside pcs m \<Longrightarrow> inside (pcs t) \<Longrightarrow> inside (pcs u) \<Longrightarrow> u = t"
  by (simp add: excl_by_def)

lemmas excl_by_intros = excl_by_signal excl_by_stay excl_by_lock excl_by_unlock

end
