(* ===== verification/Work_Queue_Spec.thy ===== *)
theory Work_Queue_Spec
  imports Work_Queue Mutex
begin

text \<open>
  The work queue in every interleaving: the mutex excludes, jobs are taken in the order of a stack,
  no wake-up is lost while no worker has left; and a worker that leaves keeps the mutex for ever.
\<close>

section \<open>The list\<close>

definition wlist :: "llist \<Rightarrow> nat list \<Rightarrow> bool" where
  "wlist L q \<longleftrightarrow> chain (l_next L) (l_head L) q \<and> distinct q \<and> (\<forall>x \<in> set q. l_prev L x = 0)"

lemma chain_upd [simp]: "k \<notin> set q \<Longrightarrow> chain (nx(k := v)) h q = chain nx h q"
  by (intro chain_cong) auto

lemma wlist_head: "wlist L q \<Longrightarrow> l_head L = (case q of [] \<Rightarrow> 0 | x # _ \<Rightarrow> x)"
  by (cases q) (auto simp: wlist_def)

lemma wlist_head_0: "wlist L q \<Longrightarrow> l_head L = 0 \<longleftrightarrow> q = []"
  by (cases q) (auto simp: wlist_def)

lemma wlist_add: "wlist L q \<Longrightarrow> k \<noteq> 0 \<Longrightarrow> k \<notin> set q \<Longrightarrow> wlist (LL_ADD k L) (k # q)"
  by (auto simp: wlist_def LL_ADD_def LL_ADD_item_def Let_def)

lemma wlist_item: "wlist L q \<Longrightarrow> k \<notin> set q \<Longrightarrow> wlist (LL_ADD_item k L) q"
  by (auto simp: wlist_def LL_ADD_item_def Let_def)

lemma wlist_new_head: "wlist L q \<Longrightarrow> k \<noteq> 0 \<Longrightarrow> k \<notin> set q \<Longrightarrow> l_next L k = l_head L \<Longrightarrow> l_prev L k = 0 \<Longrightarrow> wlist (L\<lparr>l_head := k\<rparr>) (k # q)"
  by (auto simp: wlist_def)

lemma wlist_remove: "wlist L (x # q) \<Longrightarrow> wlist (LL_REMOVE x L) q"
  by (auto simp: wlist_def LL_REMOVE_def Let_def)

text \<open>\<^verbatim>\<open>LL_ADD\<close> does not set the previous pointer of the old first element, so \<^verbatim>\<open>LL_REMOVE\<close> of any other element than the
  first cuts the list off behind it instead of unlinking it.\<close>

lemma ll_remove_inner:
  assumes "wlist L (x # y # q)"
  shows "chain (l_next (LL_REMOVE y L)) (l_head (LL_REMOVE y L)) [x, y]"
  using assms by (auto simp: wlist_def LL_REMOVE_def Let_def)

section \<open>Mutual exclusion\<close>

fun inside :: "wpc \<Rightarrow> bool" where
  "inside W_test \<longleftrightarrow> True"
| "inside W_term \<longleftrightarrow> True"
| "inside W_check \<longleftrightarrow> True"
| "inside W_take \<longleftrightarrow> True"
| "inside (W_rem k) \<longleftrightarrow> True"
| "inside (W_out k) \<longleftrightarrow> True"
| "inside W_exit \<longleftrightarrow> True"
| "inside W_gone \<longleftrightarrow> True"
| "inside (A_in k) \<longleftrightarrow> True"
| "inside (A_head k) \<longleftrightarrow> True"
| "inside A_sig \<longleftrightarrow> True"
| "inside A_out \<longleftrightarrow> True"
| "inside S_in \<longleftrightarrow> True"
| "inside _ \<longleftrightarrow> False"

abbreviation excl :: "(nat \<Rightarrow> wpc) \<Rightarrow> nat option \<Rightarrow> bool" where
  "excl \<equiv> excl_by inside"

lemma inside_flag [simp]: "\<not> inside (flag_at w)"
  by (simp add: flag_at_def split: option.splits)

lemma inside_wake [simp]: "inside (wake p u) \<longleftrightarrow> inside (p u)"
  by (simp add: wake_def)

lemma excl_wake: "excl pcs m \<Longrightarrow> excl (wake pcs) m"
  by (simp add: excl_by_def)

lemma excl_step: "wq_step s s' \<Longrightarrow> excl (wpcs s) (wmutex s) \<Longrightarrow> excl (wpcs s') (wmutex s')"
  by (induction rule: wq_step.induct) (auto intro: excl_by_intros excl_wake)

section \<open>The jobs\<close>

text \<open>The history of the jobs as that of a stack: only the newest waiting job is ever taken.\<close>

fun stack :: "nat list \<Rightarrow> wev list \<Rightarrow> nat list option" where
  "stack q [] = Some q"
| "stack q (Added k # es) = stack (k # q) es"
| "stack q (Taken k # es) = (if q \<noteq> [] \<and> hd q = k then stack (tl q) es else None)"
| "stack q (Dropped # es) = stack [] es"

lemma stack_snoc: "stack q es = Some q' \<Longrightarrow> stack q (es @ [e]) = stack q' [e]"
  by (induction q es rule: stack.induct) (auto split: if_splits)

fun adding :: "wpc \<Rightarrow> nat option" where
  "adding (A_lock k) = Some k"
| "adding (A_in k) = Some k"
| "adding (A_head k) = Some k"
| "adding _ = None"

lemma adding_flag [simp]: "adding (flag_at w) = None"
  by (simp add: flag_at_def split: option.splits)

lemma adding_wake [simp]: "adding (wake p u) = adding (p u)"
  by (simp add: wake_def)

lemma adding_job: "adding p = Some k \<Longrightarrow> job_at p = Some k"
  by (cases p) auto

definition adders_ok :: "(nat \<Rightarrow> wpc) \<Rightarrow> nat list \<Rightarrow> bool" where
  "adders_ok pcs q \<longleftrightarrow> (\<forall>t k. adding (pcs t) = Some k \<longrightarrow> k \<noteq> 0 \<and> k \<notin> set q \<and> (\<forall>u. adding (pcs u) = Some k \<longrightarrow> u = t))"

text \<open>
  Halfway through a macro: a job that is linked points to the head, and a job to be removed is the
  head. That this stays so until the macro goes on needs the mutex.
\<close>

definition halfway :: "(nat \<Rightarrow> wpc) \<Rightarrow> llist \<Rightarrow> bool" where
  "halfway pcs L \<longleftrightarrow> (\<forall>t k. pcs t = A_head k \<longrightarrow> l_next L k = l_head L \<and> l_prev L k = 0) \<and>
     (\<forall>t k. pcs t = W_rem k \<longrightarrow> k \<noteq> 0 \<and> k = l_head L)"

lemma halfway_alone:
  assumes "excl pcs m" "inside (pcs t)" "\<And>k. p = A_head k \<Longrightarrow> l_next L k = l_head L \<and> l_prev L k = 0" "\<And>k. p = W_rem k \<Longrightarrow> k \<noteq> 0 \<and> k = l_head L"
  shows "halfway (pcs(t := p)) L"
proof -
  have "u = t" if "pcs u = A_head k \<or> pcs u = W_rem k" for u k
    using excl_by_alone [OF assms(1,2)] that by (metis inside.simps(5,10))
  then show ?thesis using assms(3,4) unfolding halfway_def by (metis fun_upd_apply)
qed

lemma halfway_keep: "halfway pcs L \<Longrightarrow> (\<And>k. p \<noteq> A_head k) \<Longrightarrow> (\<And>k. p \<noteq> W_rem k) \<Longrightarrow> halfway (pcs(t := p)) L"
  by (simp add: halfway_def)

lemma halfway_wake: "halfway (wake pcs) L = halfway pcs L"
proof -
  have "wake pcs t = A_head k \<longleftrightarrow> pcs t = A_head k" "wake pcs t = W_rem k \<longleftrightarrow> pcs t = W_rem k" for t k by (auto simp: wake_def)
  then show ?thesis by (simp add: halfway_def)
qed

lemma halfway_flag [simp]: "flag_at w \<noteq> A_head k" "flag_at w \<noteq> W_rem k"
  by (simp_all add: flag_at_def split: option.splits)

lemma halfway_step: "wq_step s s' \<Longrightarrow> excl (wpcs s) (wmutex s) \<Longrightarrow> halfway (wpcs s) (waiting s) \<Longrightarrow> halfway (wpcs s') (waiting s')"
proof (induction rule: wq_step.induct)
  case (add_signal s t u)
  then show ?case by (auto simp: halfway_def)
next
  case (add_link s t k)
  then show ?case using halfway_alone [of "wpcs s" "wmutex s" t "A_head k"] by (simp add: LL_ADD_item_def Let_def fun_upd_def)
next
  case (add_head s t k)
  then show ?case using halfway_alone [of "wpcs s" "wmutex s" t A_sig] by (simp add: fun_upd_def)
next
  case (stop_drop s t)
  then show ?case using halfway_alone [OF excl_wake [OF stop_drop(2)], of t Idle] by (simp add: fun_upd_def)
next
  case (work_take s t k)
  have "halfway ((wpcs s)(t := if k \<noteq> 0 then W_rem k else W_out k)) (waiting s)"
    by (rule halfway_alone [OF work_take(3)]) (use work_take(1,2) in \<open>auto split: if_splits\<close>)
  then show ?case by (cases "k = 0") (simp_all add: fun_upd_def)
next
  case (work_remove s t k)
  then show ?case using halfway_alone [of "wpcs s" "wmutex s" t "W_out k"] by (simp add: fun_upd_def)
qed (simp_all add: halfway_keep)

definition wq_jobs :: "wqueue \<Rightarrow> nat list \<Rightarrow> bool" where
  "wq_jobs s q \<longleftrightarrow> stack [] (trace s) = Some q \<and> wlist (waiting s) q \<and> adders_ok (wpcs s) q"

lemma adders_same:
  "adders_ok pcs q \<Longrightarrow> adding p = adding (pcs t) \<or> adding p = None \<Longrightarrow> adders_ok (pcs(t := p)) q"
  unfolding adders_ok_def by (simp, metis option.distinct(1))

lemma adders_new:
  "adders_ok pcs q \<Longrightarrow> k \<noteq> 0 \<Longrightarrow> k \<notin> set q \<Longrightarrow> (\<And>u. adding (pcs u) \<noteq> Some k) \<Longrightarrow> adders_ok (pcs(t := A_lock k)) q"
  unfolding adders_ok_def by auto

lemma adders_less: "adders_ok pcs q \<Longrightarrow> set q' \<subseteq> set q \<Longrightarrow> adders_ok pcs q'"
  unfolding adders_ok_def by blast

lemma adders_link: "adders_ok pcs q \<Longrightarrow> pcs t = A_head k \<Longrightarrow> adders_ok (pcs(t := A_sig)) (k # q)"
  unfolding adders_ok_def by (auto split: if_splits)

lemma wq_jobs_same:
  assumes "wq_jobs s q" "waiting s' = waiting s" "trace s' = trace s" "adders_ok (wpcs s') q"
  shows "wq_jobs s' q"
  using assms by (simp add: wq_jobs_def)

lemma wq_jobs_step:
  assumes "wq_step s s'" "wq_jobs s q" "halfway (wpcs s) (waiting s)"
  shows "\<exists>q'. wq_jobs s' q'"
  using assms
proof (induction rule: wq_step.induct)
  case (add s t k)
  then have "k \<noteq> 0" "k \<notin> set q" "\<And>u. adding (wpcs s u) \<noteq> Some k" using adding_job by (auto simp: job_new_def wq_jobs_def wlist_def)
  then show ?case using add by (auto simp: wq_jobs_def intro!: adders_new)
next
  case (add_link s t k)
  then have "adders_ok (wpcs s) q" "adding (wpcs s t) = Some k" by (simp_all add: wq_jobs_def)
  then have "k \<noteq> 0" "k \<notin> set q" by (simp_all add: adders_ok_def)
  then have "wq_jobs (goto t (A_head k) (s\<lparr>waiting := LL_ADD_item k (waiting s)\<rparr>)) q"
    using add_link by (auto simp: wq_jobs_def wlist_item intro!: adders_same)
  then show ?case ..
next
  case (add_head s t k)
  then have "adders_ok (wpcs s) q" "adding (wpcs s t) = Some k" by (simp_all add: wq_jobs_def)
  then have "k \<noteq> 0" "k \<notin> set q" by (simp_all add: adders_ok_def)
  moreover have "l_next (waiting s) k = l_head (waiting s)" "l_prev (waiting s) k = 0" using add_head(1,3) by (auto simp: halfway_def)
  ultimately have "wq_jobs (goto t A_sig (s\<lparr>waiting := (waiting s)\<lparr>l_head := k\<rparr>, trace := trace s @ [Added k]\<rparr>)) (k # q)"
    using add_head(1,2) by (auto simp: wq_jobs_def stack_snoc wlist_new_head adders_link)
  then show ?case ..
next
  case (add_signal s t u)
  then have "adders_ok ((wpcs s)(u := W_woken, t := A_out)) q" by (auto simp: wq_jobs_def intro!: adders_same)
  then show ?case using add_signal by (auto simp: wq_jobs_def)
next
  case (stop_drop s t)
  have "adders_ok (wake (wpcs s)) []" using stop_drop by (auto simp: wq_jobs_def adders_ok_def)
  then have "adders_ok ((wake (wpcs s))(t := Idle)) []" by (simp add: adders_same)
  then have "wq_jobs (goto t Idle (unlock (s\<lparr>workers := None, waiting := (waiting s)\<lparr>l_head := 0\<rparr>, trace := trace s @ [Dropped], wpcs := wake (wpcs s)\<rparr>))) []"
    using stop_drop by (auto simp: wq_jobs_def stack_snoc wlist_def)
  then show ?case ..
next
  case (work_remove s t k)
  then have "k \<noteq> 0" "k = l_head (waiting s)" by (auto simp: halfway_def)
  then obtain q' where q: "q = k # q'" using work_remove wlist_head [of "waiting s" q] by (cases q) (auto simp: wq_jobs_def)
  then have "wq_jobs (goto t (W_out k) (s\<lparr>waiting := LL_REMOVE k (waiting s), trace := trace s @ [Taken k]\<rparr>)) q'"
    using work_remove adders_less [of "wpcs s" q q'] by (auto simp: wq_jobs_def stack_snoc wlist_remove intro!: adders_same)
  then show ?case ..
qed (auto simp: wq_jobs_def intro!: exI [of _ q] adders_same)

section \<open>Workers\<close>

fun working :: "wpc \<Rightarrow> bool" where
  "working W_lock \<longleftrightarrow> True"
| "working W_test \<longleftrightarrow> True"
| "working W_term \<longleftrightarrow> True"
| "working W_wait \<longleftrightarrow> True"
| "working W_woken \<longleftrightarrow> True"
| "working W_check \<longleftrightarrow> True"
| "working W_take \<longleftrightarrow> True"
| "working (W_rem k) \<longleftrightarrow> True"
| "working (W_out k) \<longleftrightarrow> True"
| "working (W_run k) \<longleftrightarrow> True"
| "working W_exit \<longleftrightarrow> True"
| "working W_gone \<longleftrightarrow> True"
| "working _ \<longleftrightarrow> False"

definition left_it :: "wpc \<Rightarrow> bool" where
  "left_it p \<longleftrightarrow> p = W_exit \<or> p = W_gone"

lemma working_flag [simp]: "\<not> working (flag_at w)"
  by (simp add: flag_at_def split: option.splits)

lemma working_wake [simp]: "working (wake p u) \<longleftrightarrow> working (p u)"
  by (simp add: wake_def)

lemma working_step: "wq_step s s' \<Longrightarrow> working (wpcs s' t) \<longleftrightarrow> working (wpcs s t)"
  by (induction rule: wq_step.induct) (auto split: if_splits)

text \<open>A worker that found the list empty holds the mutex, so that it still is; and while a job waits, some
  worker is awake or the signal is still to come.\<close>

definition empty_seen :: "wqueue \<Rightarrow> bool" where
  "empty_seen s \<longleftrightarrow> (\<forall>t. wpcs s t = W_term \<longrightarrow> l_head (waiting s) = 0)"

definition awake :: "nat \<Rightarrow> wqueue \<Rightarrow> bool" where
  "awake n s \<longleftrightarrow> l_head (waiting s) = 0 \<or> (\<exists>t < n. wpcs s t \<noteq> W_wait) \<or> (\<exists>t. wpcs s t = A_sig)"

lemma flag_not [simp]: "flag_at w \<noteq> W_term" "flag_at w \<noteq> W_wait"
  by (simp_all add: flag_at_def split: option.splits)

lemma wake_term [simp]: "wake p u = W_term \<longleftrightarrow> p u = W_term"
  by (simp add: wake_def)

lemma item_head: "l_head (LL_ADD_item k L) = l_head L"
  by (simp add: LL_ADD_item_def Let_def)

lemma empty_seen_step: "wq_step s s' \<Longrightarrow> excl (wpcs s) (wmutex s) \<Longrightarrow> empty_seen s \<Longrightarrow> empty_seen s'"
proof (induction rule: wq_step.induct)
  case (add_head s t k)
  then have "wpcs s u \<noteq> W_term" for u using excl_by_alone [of inside "wpcs s" "wmutex s" t u] by auto
  then show ?case by (simp add: empty_seen_def)
next
  case (work_remove s t k)
  then have "wpcs s u \<noteq> W_term" for u using excl_by_alone [of inside "wpcs s" "wmutex s" t u] by auto
  then show ?case by (simp add: empty_seen_def)
qed (auto simp: empty_seen_def item_head split: if_splits)

text \<open>A step that keeps the list and puts no worker to sleep keeps someone awake.\<close>

lemma awake_keep:
  assumes "awake n s" "l_head (waiting s') = 0 \<or> l_head (waiting s') = l_head (waiting s)"
    and "\<And>u. u < n \<Longrightarrow> wpcs s' u = W_wait \<Longrightarrow> wpcs s u = W_wait" "\<And>u. wpcs s u = A_sig \<Longrightarrow> wpcs s' u = A_sig"
  shows "awake n s'"
  using assms unfolding awake_def by metis

lemma awake_step:
  assumes "wq_step s s'" "empty_seen s" "awake n s" "0 < n" "\<forall>t. working (wpcs s t) \<longleftrightarrow> t < n"
  shows "awake n s'"
  using assms
proof (induction rule: wq_step.induct)
  case (add_signal s t u)
  then have "u < n" using working.simps(4) by metis
  moreover have "u \<noteq> t" using add_signal.hyps by auto
  ultimately have "u < n \<and> ((wpcs s)(u := W_woken, t := A_out)) u \<noteq> W_wait" by simp
  then show ?case unfolding awake_def by auto
next
  case (add_head s t k)
  show ?case by (auto simp: awake_def)
next
  case (add_nobody s t)
  then have "((wpcs s)(t := A_out)) 0 \<noteq> W_wait" by simp
  then show ?case using add_nobody.prems(3) unfolding awake_def by auto
next
  case (work_wait s t)
  then have "l_head (waiting s) = 0" unfolding empty_seen_def by blast
  then show ?case by (simp add: awake_def)
next
  case (work_take s t k)
  then have "t < n" using working.simps(7) by metis
  then show ?case unfolding awake_def by auto
next
  case (work_remove s t k)
  then have "t < n" using working.simps(8) by metis
  then show ?case unfolding awake_def by auto
qed (erule awake_keep; force simp: wake_def item_head split: if_splits)+

section \<open>Reachable states\<close>

definition nworkers :: "int \<Rightarrow> nat" where "nworkers n = nat (if n < 1 then 1 else n)"

definition wq_inv :: "nat \<Rightarrow> wqueue \<Rightarrow> bool" where
  "wq_inv n s \<longleftrightarrow> excl (wpcs s) (wmutex s) \<and> halfway (wpcs s) (waiting s) \<and> (\<exists>q. wq_jobs s q) \<and> empty_seen s \<and> awake n s \<and> (\<forall>t. working (wpcs s t) \<longleftrightarrow> t < n)"

lemma wq_inv_start: "wq_inv (nworkers n) (wq_start n L)"
proof -
  obtain w nx c where w: "workqueue_init (\<lambda>_. True) n = ((w, nx), c)" by (cases "workqueue_init (\<lambda>_. True) n") auto
  show ?thesis
    by (auto simp: wq_start_def w wq_inv_def excl_by_def wq_jobs_def wlist_def adders_ok_def halfway_def empty_seen_def awake_def nworkers_def)
qed

lemma wq_inv_step:
  assumes "wq_step s s'" "0 < n" "wq_inv n s"
  shows "wq_inv n s'"
proof -
  have inv: "excl (wpcs s) (wmutex s)" "halfway (wpcs s) (waiting s)" "empty_seen s" "awake n s" "\<forall>t. working (wpcs s t) \<longleftrightarrow> t < n"
    using assms(3) by (simp_all add: wq_inv_def)
  obtain q where "wq_jobs s q" using assms(3) by (auto simp: wq_inv_def)
  then show ?thesis unfolding wq_inv_def
    using excl_step [OF assms(1) inv(1)] halfway_step [OF assms(1) inv(1,2)] wq_jobs_step [OF assms(1) _ inv(2)]
      empty_seen_step [OF assms(1) inv(1,3)] awake_step [OF assms(1) inv(3,4) assms(2) inv(5)] working_step [OF assms(1)] inv(5)
    by simp
qed

lemma wq_inv_reach: "wq_reach (wq_start n L) s \<Longrightarrow> wq_inv (nworkers n) s"
proof (induction "wq_start n L" s rule: wq_reach.induct)
  case here
  show ?case by (rule wq_inv_start)
next
  case (there t u)
  then show ?case using wq_inv_step [of t u "nworkers n"] by (simp add: nworkers_def)
qed

lemma wq_reach_trans: "wq_reach t u \<Longrightarrow> wq_reach s t \<Longrightarrow> wq_reach s u"
  by (induction rule: wq_reach.induct) (auto intro: wq_reach.there)

text \<open>Runs for examples: memory without jobs, and a thread that adds one.\<close>

definition no_jobs :: llist where "no_jobs = \<lparr>l_next = (\<lambda>_. 0), l_prev = (\<lambda>_. 0), l_head = 0\<rparr>"

lemma adder_adds:
  assumes "wpcs s t = Idle" "job_new s k" "wmutex s = None"
  shows "wq_reach s (goto t A_sig (lock_by t (s\<lparr>waiting := LL_ADD k (waiting s), trace := trace s @ [Added k]\<rparr>)))"
proof -
  have "wq_step s (goto t (A_lock k) s)" using add assms by blast
  moreover have "wq_step (goto t (A_lock k) s) (goto t (A_in k) (lock_by t s))" using add_lock [of "goto t (A_lock k) s" t k] assms by simp
  moreover have "wq_step (goto t (A_in k) (lock_by t s)) (goto t (A_head k) (lock_by t (s\<lparr>waiting := LL_ADD_item k (waiting s)\<rparr>)))"
    using add_link [of "goto t (A_in k) (lock_by t s)" t k] by (cases s) simp
  moreover have "wq_step (goto t (A_head k) (lock_by t (s\<lparr>waiting := LL_ADD_item k (waiting s)\<rparr>)))
      (goto t A_sig (lock_by t (s\<lparr>waiting := LL_ADD k (waiting s), trace := trace s @ [Added k]\<rparr>)))"
    using add_head [of "goto t (A_head k) (lock_by t (s\<lparr>waiting := LL_ADD_item k (waiting s)\<rparr>))" t k] by (cases s) (simp add: LL_ADD_def)
  ultimately show ?thesis by (meson here there)
qed

text \<open>
  C23: jobs form a stack. In every interleaving of threads that add jobs, workers and a shutdown, each
  event takes the newest waiting job, and the list in memory is what the history of additions, takings
  and the shutdown leaves; so no job is taken twice or lost, and the oldest job waits for all newer ones.
  An addition links the job and then makes it the head, and a worker reads the head and then removes it,
  in separate steps: it is the mutex that keeps others out, held by exactly the thread that is inside.
\<close>

theorem wq_stack:
  assumes "wq_reach (wq_start n L) s"
  shows "(\<exists>q. stack [] (trace s) = Some q \<and> chain (l_next (waiting s)) (l_head (waiting s)) q \<and> distinct q) \<and>
    (\<forall>t. inside (wpcs s t) \<longleftrightarrow> wmutex s = Some t)"
  using wq_inv_reach [OF assms] by (auto simp: wq_inv_def wq_jobs_def wlist_def excl_by_def)

text \<open>
  C24: no wake-up is lost: in every reachable state in which a job waits and no worker has left, some
  worker is awake, or the thread that added the job is about to signal.
\<close>

theorem wq_no_lost_wakeup:
  assumes "wq_reach (wq_start n L) s" "l_head (waiting s) \<noteq> 0" "\<forall>t. \<not> left_it (wpcs s t)"
  shows "(\<exists>t < nworkers n. wpcs s t \<noteq> W_wait \<and> \<not> left_it (wpcs s t)) \<or> (\<exists>t. wpcs s t = A_sig)"
  using wq_inv_reach [OF assms(1)] assms(2,3) by (auto simp: wq_inv_def awake_def)

lemma left_inside: "left_it p \<Longrightarrow> inside p"
  by (auto simp: left_it_def)

lemma left_stays: "wq_step s s' \<Longrightarrow> left_it (wpcs s t) \<Longrightarrow> left_it (wpcs s' t)"
  by (induction rule: wq_step.induct) (auto simp: left_it_def wake_def)

lemma trace_inside: "wq_step s s' \<Longrightarrow> trace s' \<noteq> trace s \<Longrightarrow> \<exists>u. inside (wpcs s u) \<and> \<not> left_it (wpcs s u)"
proof (induction rule: wq_step.induct)
  case (add_head s t k)
  then show ?case by (intro exI [of _ t]) (simp add: left_it_def)
next
  case (stop_drop s t)
  then show ?case by (intro exI [of _ t]) (simp add: left_it_def)
next
  case (work_remove s t k)
  then show ?case by (intro exI [of _ t]) (simp add: left_it_def)
qed simp_all

lemma left_step:
  assumes "wq_step s s'" "left_it (wpcs s t)" "excl (wpcs s) (wmutex s)"
  shows "left_it (wpcs s' t) \<and> trace s' = trace s"
  using left_stays [OF assms(1,2)] trace_inside [OF assms(1)] excl_by_alone [OF assms(3)] left_inside assms(2) by metis

text \<open>
  The shutdown does not end. A worker that sees its flag leaves the loop without unlocking the mutex:
  from then on, in every continuation, no job is added or taken, the shutdown does not get to wake the
  others, and no other worker ever leaves.
\<close>

theorem wq_shutdown_hangs:
  assumes "wq_reach (wq_start n L) s" "left_it (wpcs s t)" "wq_reach s s'"
  shows "left_it (wpcs s' t) \<and> wmutex s' = Some t \<and> trace s' = trace s \<and> (\<forall>u. u \<noteq> t \<longrightarrow> \<not> left_it (wpcs s' u)) \<and> (\<forall>u. wpcs s' u \<noteq> S_in)"
proof -
  have "left_it (wpcs s' t) \<and> trace s' = trace s" using assms(3,1,2)
  proof (induction rule: wq_reach.induct)
    case (there s t' u)
    then have "excl (wpcs t') (wmutex t')" using wq_inv_reach [of n L t'] wq_reach_trans by (auto simp: wq_inv_def)
    then show ?case using there left_step [of t' u t] by auto
  qed simp
  moreover have e: "excl (wpcs s') (wmutex s')" using wq_inv_reach [of n L s'] assms(1,3) wq_reach_trans by (auto simp: wq_inv_def)
  ultimately have i: "\<forall>u. inside (wpcs s' u) \<longrightarrow> u = t" "inside (wpcs s' t)" "wmutex s' = Some t" "wpcs s' t \<noteq> S_in"
    using excl_by_alone [OF e, of t] left_inside by (auto simp: left_it_def excl_by_def)
  then have "wpcs s' u \<noteq> S_in" for u using inside.simps(13) by metis
  then show ?thesis using \<open>left_it (wpcs s' t) \<and> trace s' = trace s\<close> i left_inside by blast
qed

text \<open>A run: a worker whose flag is set, with nothing to do, leaves.\<close>

lemma worker_leaves:
  assumes "wpcs s t = W_lock" "wmutex s = None" "terminate s t" "l_head (waiting s) = 0"
  shows "wq_reach s (goto t W_gone (lock_by t s))"
proof -
  let ?s = "lock_by t s"
  have "wq_step s (goto t W_test ?s)" using work_lock [of s t] assms by simp
  moreover have "wq_step (goto t W_test ?s) (goto t W_term ?s)" using work_test [of "goto t W_test ?s" t] assms by simp
  moreover have "wq_step (goto t W_term ?s) (goto t W_check ?s)" using work_break [of "goto t W_term ?s" t] assms by simp
  moreover have "wq_step (goto t W_check ?s) (goto t W_exit ?s)" using work_check [of "goto t W_check ?s" t] assms by simp
  moreover have "wq_step (goto t W_exit ?s) (goto t W_gone ?s)" using work_exit [of "goto t W_exit ?s" t] by simp
  ultimately show ?thesis by (meson here there)
qed

lemma init_loop_all: "fst (fst (init_loop (\<lambda>_. True) i n L)) = (if n = 0 then fst L else Some (i + n - 1)) \<and> snd (init_loop (\<lambda>_. True) i n L) = 0"
  by (induction n arbitrary: i L) auto

lemma start_simps [simp]:
  "workers (wq_start n L) = Some (nworkers n - 1)" "wpcs (wq_start n L) = (\<lambda>t. if t < nworkers n then W_lock else Idle)"
  "wmutex (wq_start n L) = None" "l_head (waiting (wq_start n L)) = 0" "trace (wq_start n L) = []"
  using init_loop_all [of 0 "nworkers n" "(None, \<lambda>_. None)"] by (auto simp: wq_start_def workqueue_init_def nworkers_def split: prod.splits)

text \<open>The state in which thread \<open>nworkers n\<close> has flagged the first worker of the list and that worker has gone.\<close>

definition flagged :: "int \<Rightarrow> llist \<Rightarrow> wqueue" where
  "flagged n L = (let s = wq_start n L; w = nworkers n - 1 in goto (nworkers n) (S_next w) (s\<lparr>terminate := (terminate s)(w := True)\<rparr>))"

definition first_gone :: "int \<Rightarrow> llist \<Rightarrow> wqueue" where
  "first_gone n L = goto (nworkers n - 1) W_gone (lock_by (nworkers n - 1) (flagged n L))"

lemma nworkers_pos [simp]: "0 < nworkers n"
  by (simp add: nworkers_def)

lemma first_gone_reach: "wq_reach (wq_start n L) (first_gone n L)"
proof -
  let ?s = "wq_start n L" and ?w = "nworkers n - 1" and ?t = "nworkers n"
  have w: "?w \<noteq> ?t" "?w < ?t" using nworkers_pos [of n] by linarith+
  have "wq_step ?s (goto ?t (S_flag ?w) ?s)" using stop [of ?s ?t] by (simp add: flag_at_def)
  moreover have "wq_step (goto ?t (S_flag ?w) ?s) (flagged n L)" using stop_flag [of "goto ?t (S_flag ?w) ?s" ?t ?w] by (simp add: flagged_def Let_def)
  ultimately have "wq_reach ?s (flagged n L)" by (meson here there)
  moreover have "wq_reach (flagged n L) (first_gone n L)" unfolding first_gone_def
    by (rule worker_leaves) (use w in \<open>simp_all add: flagged_def Let_def\<close>)
  ultimately show ?thesis using wq_reach_trans by blast
qed

text \<open>
  The shutdown reads freed memory. A worker frees its own structure when it leaves, and
  \<^verbatim>\<open>workqueue_shutdown\<close> reads the link to the next worker after it has set the flag: with any number of workers
  there is a run in which the worker is gone by then.
\<close>

theorem wq_use_after_free: "\<exists>s. wq_reach (wq_start n L) s \<and> bad s"
proof -
  let ?w = "nworkers n - 1" and ?t = "nworkers n"
  have "?w \<noteq> ?t" using nworkers_pos [of n] by linarith
  then have g: "wpcs (first_gone n L) ?t = S_next ?w" "wpcs (first_gone n L) ?w = W_gone" by (simp_all add: first_gone_def flagged_def Let_def)
  then have "\<exists>s. wq_step (first_gone n L) s \<and> bad s" using stop_next [OF g(1)] by fastforce
  then show ?thesis using first_gone_reach there by blast
qed

theorem wq_shutdown_hangs_witness:
  "\<exists>s. wq_reach (wq_start 2 no_jobs) s \<and> wpcs s 1 = W_gone \<and> wpcs s 0 = W_lock \<and> wpcs s 2 = S_next 1 \<and>
    (\<forall>s'. wq_reach s s' \<longrightarrow> trace s' = [] \<and> (\<forall>u. u \<noteq> 1 \<longrightarrow> \<not> left_it (wpcs s' u)) \<and> (\<forall>u. wpcs s' u \<noteq> S_in))"
proof -
  let ?s = "first_gone 2 no_jobs"
  have n: "nworkers 2 = 2" by (simp add: nworkers_def)
  have p: "wpcs ?s 1 = W_gone" "wpcs ?s 0 = W_lock" "wpcs ?s 2 = S_next 1" "trace ?s = []" by (simp_all add: first_gone_def flagged_def Let_def n)
  have "left_it (wpcs ?s 1)" using p(1) by (simp add: left_it_def)
  then have "\<forall>s'. wq_reach ?s s' \<longrightarrow> trace s' = [] \<and> (\<forall>u. u \<noteq> 1 \<longrightarrow> \<not> left_it (wpcs s' u)) \<and> (\<forall>u. wpcs s' u \<noteq> S_in)"
    using wq_shutdown_hangs [OF first_gone_reach [of 2 no_jobs], of 1] p(4) by simp
  then show ?thesis using first_gone_reach [of 2 no_jobs] p by blast
qed

text \<open>One worker and one job that was just added.\<close>

definition one_job :: wqueue where
  "one_job = (let s = wq_start 1 no_jobs in goto 1 A_sig (lock_by 1 (s\<lparr>waiting := LL_ADD 7 (waiting s), trace := trace s @ [Added 7]\<rparr>)))"

lemma one_job_reach: "wq_reach (wq_start 1 no_jobs) one_job"
proof -
  have "chain nx 0 q \<Longrightarrow> k \<notin> set q" for nx q k by (cases q) auto
  then have "job_new (wq_start 1 no_jobs) 7" by (simp add: job_new_def nworkers_def)
  then show ?thesis using adder_adds [of "wq_start 1 no_jobs" 1 7] by (simp add: one_job_def Let_def nworkers_def)
qed

theorem wq_stack_witness:
  "wq_reach (wq_start 1 no_jobs) one_job \<and> trace one_job = [Added 7] \<and> chain (l_next (waiting one_job)) (l_head (waiting one_job)) [7]"
proof -
  have t: "trace one_job = [Added 7]" by (simp add: one_job_def Let_def)
  obtain q where "stack [] (trace one_job) = Some q" "chain (l_next (waiting one_job)) (l_head (waiting one_job)) q"
    using wq_stack [OF one_job_reach] by blast
  then show ?thesis using t one_job_reach by auto
qed

theorem wq_no_lost_wakeup_witness:
  "wq_reach (wq_start 1 no_jobs) one_job \<and> l_head (waiting one_job) = 7 \<and>
    ((\<exists>t < nworkers 1. wpcs one_job t \<noteq> W_wait \<and> \<not> left_it (wpcs one_job t)) \<or> (\<exists>t. wpcs one_job t = A_sig))"
proof -
  have h: "l_head (waiting one_job) = 7" "\<forall>t. \<not> left_it (wpcs one_job t)" by (simp_all add: one_job_def Let_def LL_ADD_def LL_ADD_item_def left_it_def)
  then show ?thesis using wq_no_lost_wakeup [OF one_job_reach] one_job_reach by simp
qed

end
