(* ===== verification/Echo_Server.thy ===== *)
theory Echo_Server
  imports Prelude
begin

text \<open>
  The server of \<^verbatim>\<open>LinuxLesson/2.3.1-coroutine-main/server_mulport_epoll.c\<close> around its work queue: receiving and sending
  with \<^verbatim>\<open>poll\<close>, the job that answers a client, and the turns of the main loop. What the system calls return is a
  parameter: a function of the number of the turn of the loop that calls them.
\<close>

datatype es_err = Undefined string

definition MAX_BUFFER :: nat where "MAX_BUFFER = 128"
definition MAX_EPOLLSIZE :: nat where "MAX_EPOLLSIZE = 100000"
definition MAX_PORT :: nat where "MAX_PORT = 100"

text \<open>Error numbers of Linux; \<^verbatim>\<open>EWOULDBLOCK\<close> is \<^verbatim>\<open>EAGAIN\<close>.\<close>

definition EINTR :: int where "EINTR = 4"
definition EBADF :: int where "EBADF = 9"
definition EAGAIN :: int where "EAGAIN = 11"
definition ENOTCONN :: int where "ENOTCONN = 107"
definition ETIMEDOUT :: int where "ETIMEDOUT = 110"

section \<open>Receiving and sending\<close>

text \<open>\<^verbatim>\<open>recv\<close> with the room left: an error number or bytes, none at the end of the stream. \<^verbatim>\<open>poll\<close>: its result, whether
  \<^verbatim>\<open>POLLHUP\<close> is set, and the error number when the result is negative. \<^verbatim>\<open>send\<close>: what it returns for the bytes.\<close>

type_synonym recv_fn = "nat \<Rightarrow> nat \<Rightarrow> int + string"
type_synonym poll_fn = "nat \<Rightarrow> int \<times> bool \<times> int"
type_synonym send_fn = "nat \<Rightarrow> string \<Rightarrow> int"

partial_function (option) nRecv_loop :: "recv_fn \<Rightarrow> poll_fn \<Rightarrow> nat \<Rightarrow> nat \<Rightarrow> string \<Rightarrow> int \<Rightarrow> (string \<times> int) option" where
  "nRecv_loop recv poll i len got ret_code =
    (if length got < len then
       (case recv i (len - length got) of
          Inr s \<Rightarrow> if s \<noteq> [] then nRecv_loop recv poll (Suc i) len (got @ s) ret_code else Some (got, ENOTCONN)
        | Inl errno \<Rightarrow>
            let ret_code = (if \<not> (errno = EAGAIN \<or> errno = EINTR) then (if errno \<noteq> 0 then errno else EINTR) else ret_code) in
            (case poll i of (res, hup, errno) \<Rightarrow>
               if hup then Some (got, ENOTCONN)
               else if res < 0 then
                 if errno = EINTR then nRecv_loop recv poll (Suc i) len got ret_code
                 else nRecv_loop recv poll (Suc i) len got (if errno \<noteq> 0 then errno else EINTR)
               else if res = 0 then Some (got, ETIMEDOUT)
               else nRecv_loop recv poll (Suc i) len got ret_code))
     else Some (got, ret_code))"

definition nRecv :: "recv_fn \<Rightarrow> poll_fn \<Rightarrow> nat \<Rightarrow> (string \<times> int) option" where
  "nRecv recv poll len = nRecv_loop recv poll 0 len [] 0"

text \<open>The result of \<^verbatim>\<open>nSend\<close> is the number of bytes sent and the value returned.\<close>

partial_function (option) nSend_loop :: "send_fn \<Rightarrow> poll_fn \<Rightarrow> nat \<Rightarrow> string \<Rightarrow> nat \<Rightarrow> (nat \<times> int) option" where
  "nSend_loop send poll i buf wrotelen =
    (case poll i of (result, hup, errno) \<Rightarrow>
       if hup then Some (wrotelen, -1)
       else if result < 0 then
         if errno = EINTR then
           if wrotelen < length buf then nSend_loop send poll (Suc i) buf wrotelen else Some (wrotelen, int wrotelen)
         else Some (wrotelen, -1)
       else if result = 0 then Some (wrotelen, -1)
       else let writeret = send i (drop wrotelen buf) in
         if writeret \<le> 0 then Some (wrotelen, int wrotelen)
         else let wrotelen = wrotelen + nat writeret in
           if wrotelen < length buf then nSend_loop send poll (Suc i) buf wrotelen else Some (wrotelen, int wrotelen))"

definition nSend :: "send_fn \<Rightarrow> poll_fn \<Rightarrow> string \<Rightarrow> (nat \<times> int) option" where
  "nSend send poll buf = nSend_loop send poll 0 buf 0"

section \<open>Answering a client\<close>

text \<open>The calls of one job; the shared counters; what a job does: bytes sent to the client, and whether it closes the connection.\<close>

record jenv =
  j_recv :: recv_fn
  j_poll :: poll_fn
  j_send :: send_fn
  j_poll2 :: poll_fn

record counters =
  curfds :: int
  nRun :: bool

definition client_data_process :: "jenv \<Rightarrow> counters \<Rightarrow> (es_err + counters \<times> string \<times> bool) option" where
  "client_data_process E C =
    (case nRecv (j_recv E) (j_poll E) MAX_BUFFER of None \<Rightarrow> None | Some (got, ret) \<Rightarrow>
       let buffer = got @ replicate (MAX_BUFFER - length got) NUL in
       if length got > 0 then
         if nRun C \<or> buffer ! 0 = CHR ''a'' then
           if NUL \<notin> set buffer then Some (Inl (Undefined ''strlen''))
           else (case nSend (j_send E) (j_poll2 E) (c_str buffer) of None \<Rightarrow> None
                 | Some (n, _) \<Rightarrow> Some (Inr (C, take n (c_str buffer), False)))
         else Some (Inr (C, [], False))
       else if ret = ENOTCONN then Some (Inr (C\<lparr>curfds := curfds C - 1\<rparr>, [], True))
       else Some (Inr (C, [], False)))"

text \<open>\<^verbatim>\<open>client_job\<close> is the same code; it also frees the client structure and the job.\<close>

datatype heap_block = B_client | B_job

definition client_job :: "jenv \<Rightarrow> counters \<Rightarrow> heap_block list \<Rightarrow> (es_err + counters \<times> string \<times> bool \<times> heap_block list) option" where
  "client_job E C h = map_option (\<lambda>r. bindR r (\<lambda>(C, out, shut). Inr (C, out, shut, remove1 B_job (remove1 B_client h)))) (client_data_process E C)"

section \<open>The main loop\<close>

fun listenfd :: "int \<Rightarrow> int list \<Rightarrow> int" where
  "listenfd fd [] = 0"
| "listenfd fd (f # fds) = (if fd = f then f else listenfd fd fds)"

record server =
  sockfds :: "int list"
  cnt :: counters
  interest :: "int set"
  jobs_for :: "int list"

text \<open>Set-up: for each port the results of \<^verbatim>\<open>socket\<close>, \<^verbatim>\<open>bind\<close> and \<^verbatim>\<open>listen\<close>. \<open>Inl\<close> is the value \<^verbatim>\<open>main\<close> returns.\<close>

fun listen_loop :: "(int \<times> int \<times> int) list \<Rightarrow> server \<Rightarrow> int + server" where
  "listen_loop [] S = Inr S"
| "listen_loop ((sockfd, b, l) # rs) S =
    (if sockfd < 0 then Inl 1 else if b < 0 then Inl 2 else if l < 0 then Inl 3
     else listen_loop rs (S\<lparr>sockfds := sockfds S @ [sockfd], interest := insert sockfd (interest S)\<rparr>))"

definition listen_ports :: "(nat \<Rightarrow> int \<times> int \<times> int) \<Rightarrow> int + server" where
  "listen_ports net = listen_loop (map net [0..<MAX_PORT]) \<lparr>sockfds = [], cnt = \<lparr>curfds = 1, nRun = False\<rparr>, interest = {}, jobs_for = []\<rparr>"

text \<open>
  One event of \<^verbatim>\<open>epoll_wait\<close>: \<open>acc\<close> is what \<^verbatim>\<open>accept\<close> returns, \<open>E\<close> the calls of a client that is served at once. Jobs are
  put in front of the queue.
\<close>

definition main_event :: "int \<Rightarrow> jenv \<Rightarrow> int \<Rightarrow> server \<Rightarrow> (es_err + (int + server)) option" where
  "main_event acc E fd S =
    (let sockfd = listenfd fd (sockfds S) in
     if sockfd \<noteq> 0 then
       if acc < 0 then Some (Inr (Inl 4))
       else let C = cnt S; C = (if curfds C > 1000 * 1000 then C\<lparr>nRun := True\<rparr> else C); C = C\<lparr>curfds := curfds C + 1\<rparr> in
         Some (Inr (Inr (S\<lparr>cnt := C, interest := insert acc (interest S)\<rparr>)))
     else if nRun (cnt S) then
       map_option (\<lambda>r. bindR r (\<lambda>(C, _). Inr (Inr (S\<lparr>cnt := C\<rparr>)))) (client_data_process E (cnt S))
     else Some (Inr (Inr (S\<lparr>jobs_for := fd # jobs_for S\<rparr>))))"

fun main_events :: "((int \<times> jenv) \<times> int) list \<Rightarrow> server \<Rightarrow> (es_err + (int + server)) option" where
  "main_events [] S = Some (Inr (Inr S))"
| "main_events (((acc, E), fd) # evs) S =
    (case main_event acc E fd S of
       Some (Inr (Inr S)) \<Rightarrow> main_events evs S
     | r \<Rightarrow> r)"

text \<open>
  One turn: \<^verbatim>\<open>epoll_wait\<close> with the number of descriptors as the number of events, which must be positive; the
  events are stored into an array of \<^verbatim>\<open>MAX_EPOLLSIZE\<close>. \<open>None\<close> for the events is another failure. The loop is
  left when it returns -1; the value 0 stands for the end of \<^verbatim>\<open>main\<close>.
\<close>

definition main_turn :: "((int \<times> jenv) \<times> int) list option \<Rightarrow> server \<Rightarrow> (es_err + (int + server)) option" where
  "main_turn evs S =
    (if curfds (cnt S) \<le> 0 then Some (Inr (Inl 0))
     else case evs of None \<Rightarrow> Some (Inr (Inl 0))
       | Some evs \<Rightarrow> let evs = take (nat (curfds (cnt S))) evs in
           if length evs > MAX_EPOLLSIZE then Some (Inl (Undefined ''events''))
           else main_events evs S)"

text \<open>A worker takes the first job and runs it; a descriptor that is closed leaves the set \<^verbatim>\<open>epoll\<close> watches.\<close>

definition run_job :: "jenv \<Rightarrow> server \<Rightarrow> (es_err + server \<times> string \<times> bool) option" where
  "run_job E S = map_option (\<lambda>r. bindR r (\<lambda>(C, out, shut, _).
       Inr (S\<lparr>cnt := C, jobs_for := tl (jobs_for S), interest := interest S - (if shut then {hd (jobs_for S)} else {})\<rparr>, out, shut)))
     (client_job E (cnt S) [B_job, B_client])"

end
