(* ===== verification/Echo_Server_Spec.thy ===== *)
theory Echo_Server_Spec
  imports Echo_Server
begin

text \<open>
  What the echo server answers, and how a client can stop it.
\<close>

section \<open>Receiving\<close>

text \<open>
  What the turns of the loop from number \<open>i\<close> on find: \<open>Some s\<close> a piece within the room left, \<open>None\<close> a gap, in
  which \<^verbatim>\<open>recv\<close> fails with \<^verbatim>\<open>EAGAIN\<close> or \<^verbatim>\<open>EINTR\<close> and \<^verbatim>\<open>poll\<close> then reports the socket or is interrupted.
\<close>

definition poll_goes_on :: "int \<times> bool \<times> int \<Rightarrow> bool" where
  "poll_goes_on p \<longleftrightarrow> (case p of (res, hup, errno) \<Rightarrow> \<not> hup \<and> (0 < res \<or> res < 0 \<and> errno = EINTR))"

fun recv_gives :: "recv_fn \<Rightarrow> poll_fn \<Rightarrow> nat \<Rightarrow> nat \<Rightarrow> string option list \<Rightarrow> bool" where
  "recv_gives recv poll i room [] \<longleftrightarrow> True"
| "recv_gives recv poll i room (Some s # ss) \<longleftrightarrow>
    s \<noteq> [] \<and> length s \<le> room \<and> recv i room = Inr s \<and> recv_gives recv poll (Suc i) (room - length s) ss"
| "recv_gives recv poll i room (None # ss) \<longleftrightarrow> 0 < room \<and> (recv i room = Inl EAGAIN \<or> recv i room = Inl EINTR) \<and>
    poll_goes_on (poll i) \<and> recv_gives recv poll (Suc i) room ss"

definition message :: "string option list \<Rightarrow> string" where
  "message ss = concat (map (\<lambda>x. case x of None \<Rightarrow> [] | Some s \<Rightarrow> s) ss)"

lemma message_simps [simp]: "message [] = []" "message (Some s # ss) = s @ message ss" "message (None # ss) = message ss"
  by (simp_all add: message_def)

lemma recv_data:
  "recv_gives recv poll i (len - length got) ss \<Longrightarrow>
    nRecv_loop recv poll i len got r = nRecv_loop recv poll (i + length ss) len (got @ message ss) r"
proof (induction recv poll i "len - length got" ss arbitrary: got rule: recv_gives.induct)
  case (2 recv poll i s ss)
  then have "length got < len" "recv i (len - length got) = Inr s" "s \<noteq> []" by (auto simp: Suc_le_eq) (metis length_greater_0_conv less_le_trans zero_less_diff)
  then have "nRecv_loop recv poll i len got r = nRecv_loop recv poll (Suc i) len (got @ s) r"
    by (subst nRecv_loop.simps) simp
  also have "\<dots> = nRecv_loop recv poll (Suc i + length ss) len ((got @ s) @ message ss) r" using 2 by simp
  finally show ?case by simp
next
  case (3 recv poll i ss)
  then have c: "length got < len" "recv i (len - length got) = Inl EAGAIN \<or> recv i (len - length got) = Inl EINTR" "poll_goes_on (poll i)"
    by simp_all
  then have "nRecv_loop recv poll i len got r = nRecv_loop recv poll (Suc i) len got r"
    by (subst nRecv_loop.simps) (auto simp: poll_goes_on_def Let_def)
  also have "\<dots> = nRecv_loop recv poll (Suc i + length ss) len (got @ message ss) r" using 3 by simp
  finally show ?case by simp
qed simp

text \<open>How the message ends: the buffer is full, the client closes its end, or \<^verbatim>\<open>recv\<close> fails and \<^verbatim>\<open>poll\<close> times out or
  reports a hang-up.\<close>

definition recv_ends :: "recv_fn \<Rightarrow> poll_fn \<Rightarrow> nat \<Rightarrow> nat \<Rightarrow> bool" where
  "recv_ends recv poll i room \<longleftrightarrow> room = 0 \<or> recv i room = Inr [] \<or>
     ((\<exists>errno. recv i room = Inl errno) \<and> (fst (poll i) = 0 \<or> fst (snd (poll i))))"

lemma nRecv_pieces:
  assumes "recv_gives recv poll 0 len ss" "recv_ends recv poll (length ss) (len - length (message ss))" "length (message ss) \<le> len"
  shows "\<exists>ret. nRecv recv poll len = Some (message ss, ret)"
proof -
  have "nRecv recv poll len = nRecv_loop recv poll (length ss) len (message ss) 0"
    using recv_data [of recv poll 0 len "[]" ss 0] assms(1) by (simp add: nRecv_def)
  also have "\<exists>ret. \<dots> = Some (message ss, ret)" using assms(2,3)
    by (subst nRecv_loop.simps) (auto simp: recv_ends_def Let_def split: prod.splits)
  finally show ?thesis .
qed

section \<open>Sending\<close>

lemma nSend_all:
  assumes "\<And>i. fst (poll i) > 0 \<and> \<not> fst (snd (poll i))" "\<And>i b. b \<noteq> [] \<Longrightarrow> 0 < send i b" "\<And>i b. send i b \<le> int (length b)" "w < length buf"
  shows "nSend_loop send poll i buf w = Some (length buf, int (length buf))"
  using assms(4)
proof (induction "length buf - w" arbitrary: i w rule: less_induct)
  case less
  let ?n = "send i (drop w buf)"
  obtain r h e where p: "poll i = (r, h, e)" by (cases "poll i") auto
  have "0 < ?n" "?n \<le> int (length buf - w)" using assms(2) [of "drop w buf" i] assms(3) [of i "drop w buf"] less.prems by auto
  then have n: "0 < nat ?n" "nat ?n \<le> length buf - w" by auto
  show ?case
  proof (cases "w + nat ?n < length buf")
    case True
    then have "nSend_loop send poll (Suc i) buf (w + nat ?n) = Some (length buf, int (length buf))" using n by (intro less.hyps) auto
    then show ?thesis using assms(1) [of i] p n True by (subst nSend_loop.simps) (auto simp: Let_def)
  next
    case False
    then have "w + nat ?n = length buf" using n less.prems by auto
    then show ?thesis using assms(1) [of i] p n by (subst nSend_loop.simps) (auto simp: Let_def)
  qed
qed

definition sends_well :: "send_fn \<Rightarrow> poll_fn \<Rightarrow> bool" where
  "sends_well send poll \<longleftrightarrow> (\<forall>i. fst (poll i) > 0 \<and> \<not> fst (snd (poll i))) \<and> (\<forall>i b. send i b \<le> int (length b) \<and> (b \<noteq> [] \<longrightarrow> 0 < send i b))"

lemma nSend_well: "sends_well send poll \<Longrightarrow> \<exists>r. nSend send poll buf = Some (length buf, r)"
proof (cases "buf = []")
  case True
  assume w: "sends_well send poll"
  then have "send 0 [] \<le> int (length ([] :: string))" unfolding sends_well_def by blast
  moreover obtain r h e where "poll 0 = (r, h, e)" by (cases "poll 0") auto
  ultimately show ?thesis using w True unfolding nSend_def
    by (subst nSend_loop.simps) (auto simp: sends_well_def Let_def dest!: spec [of _ 0])
next
  case False
  assume "sends_well send poll"
  then show ?thesis using nSend_all [of poll send 0 buf 0] False by (simp add: nSend_def sends_well_def)
qed

section \<open>Properties\<close>

text \<open>
  C25: the job echoes a message that fits the buffer. Let the client send a non-empty message of at most
  \<^verbatim>\<open>MAX_BUFFER\<close> bytes, which arrives in any number of pieces, between which \<^verbatim>\<open>recv\<close> may find nothing or be
  interrupted; let it then fill the buffer, or be followed by the end of the stream, a time-out or a
  hang-up; and let the socket take what is sent. If the message begins with \<^verbatim>\<open>a\<close> (or \<^verbatim>\<open>nRun\<close> is set), the job sends back
  the message up to its first null byte, except that for a message of \<^verbatim>\<open>MAX_BUFFER\<close> bytes without a null byte
  \<^verbatim>\<open>strlen\<close> reads behind the buffer, which is undefined; otherwise it sends nothing. It keeps the connection
  and the counters and frees its memory.
\<close>

theorem client_job_echoes:
  assumes "recv_gives (j_recv E) (j_poll E) 0 MAX_BUFFER ss" "message ss \<noteq> []" "length (message ss) \<le> MAX_BUFFER"
    and "recv_ends (j_recv E) (j_poll E) (length ss) (MAX_BUFFER - length (message ss))" "sends_well (j_send E) (j_poll2 E)"
  shows "client_job E C (B_job # B_client # h) = Some
    (if nRun C \<or> hd (message ss) = CHR ''a'' then
       if length (message ss) = MAX_BUFFER \<and> NUL \<notin> set (message ss) then Inl (Undefined ''strlen'')
       else Inr (C, c_str (message ss), False, h)
     else Inr (C, [], False, h))"
proof -
  let ?m = "message ss" and ?b = "message ss @ replicate (MAX_BUFFER - length (message ss)) NUL"
  obtain ret where r: "nRecv (j_recv E) (j_poll E) MAX_BUFFER = Some (?m, ret)" using nRecv_pieces [OF assms(1,4,3)] by blast
  have hd: "?b ! 0 = hd ?m" "0 < length ?m" using assms(2) by (simp_all add: nth_append hd_conv_nth)
  have nul: "NUL \<notin> set ?b \<longleftrightarrow> length ?m = MAX_BUFFER \<and> NUL \<notin> set ?m" using assms(3) by auto
  have "c_str ?b = c_str ?m"
  proof (cases "is_cstr ?m")
    case False
    then have "NUL \<in> set ?m" by (simp add: is_cstr_def)
    then show ?thesis unfolding c_str_def by (rule takeWhile_append1) simp
  qed simp
  moreover obtain x where "nSend (j_send E) (j_poll2 E) (c_str ?b) = Some (length (c_str ?b), x)" using nSend_well [OF assms(5)] by blast
  ultimately show ?thesis using hd nul by (simp add: client_job_def client_data_process_def r Let_def)
qed

text \<open>
  \<^verbatim>\<open>nRecv\<close> does not end on an error: it notes the error and goes on to \<^verbatim>\<open>poll\<close>. When every \<^verbatim>\<open>recv\<close> fails and \<^verbatim>\<open>poll\<close>
  reports the descriptor without \<^verbatim>\<open>POLLHUP\<close> (as for a descriptor that another job has closed), the worker is
  caught for ever.
\<close>

theorem nRecv_spins:
  assumes "0 < len" "\<And>i n. \<exists>e. recv i n = Inl e" "\<And>i. 0 < fst (poll i) \<and> \<not> fst (snd (poll i))"
  shows "nRecv recv poll len = None"
proof -
  have "False" if "nRecv_loop recv poll i len got r = Some y" "length got < len" for i got r y
  proof -
    have "recv = recv \<and> poll = poll \<and> length got < len \<longrightarrow> False"
    proof (rule nRecv_loop.raw_induct [OF _ that(1), of "\<lambda>rc pl i n got r y. rc = recv \<and> pl = poll \<and> length got < n \<longrightarrow> False"], goal_cases)
      case (1 f rc pl i n got r y)
      obtain e where "recv i (n - length got) = Inl e" using assms(2) by blast
      moreover obtain res hup pe where "poll i = (res, hup, pe)" "0 < res" "\<not> hup" using assms(3) [of i] by (cases "poll i") auto
      ultimately have "\<exists>r'. f recv poll (Suc i) n got r' = Some y" if "rc = recv" "pl = poll" "length got < n"
        using 1(2) that by (auto simp: Let_def split: if_splits)
      then show ?case using 1(1) by blast
    qed
    then show ?thesis using that(2) by simp
  qed
  then show ?thesis using assms(1) unfolding nRecv_def by (metis list.size(3) not_Some_eq)
qed

definition demo_net :: jenv where
  "demo_net = \<lparr>j_recv = (\<lambda>i n. if i = 0 then Inr ''ab'' else if i = 2 then Inr ''c'' else Inl EAGAIN),
     j_poll = (\<lambda>i. (if i = 1 then 1 else 0, False, 0)), j_send = (\<lambda>i b. int (length b)), j_poll2 = (\<lambda>_. (1, False, 0))\<rparr>"

theorem client_job_echoes_witness:
  "client_job demo_net \<lparr>curfds = 2, nRun = False\<rparr> [B_job, B_client] = Some (Inr (\<lparr>curfds = 2, nRun = False\<rparr>, ''abc'', False, []))"
proof -
  let ?ss = "[Some ''ab'', None, Some ''c'']"
  have "recv_gives (j_recv demo_net) (j_poll demo_net) 0 MAX_BUFFER ?ss" "length (message ?ss) \<le> MAX_BUFFER"
    by (simp_all add: demo_net_def MAX_BUFFER_def poll_goes_on_def)
  moreover have "recv_ends (j_recv demo_net) (j_poll demo_net) (length ?ss) (MAX_BUFFER - length (message ?ss))"
    "sends_well (j_send demo_net) (j_poll2 demo_net)"
    by (simp_all add: demo_net_def recv_ends_def sends_well_def)
  ultimately show ?thesis using client_job_echoes [of demo_net ?ss "\<lparr>curfds = 2, nRun = False\<rparr>" "[]"] by (simp add: c_str_def MAX_BUFFER_def)
qed

theorem nRecv_spins_witness: "nRecv (\<lambda>_ _. Inl EBADF) (\<lambda>_. (1, False, 0)) MAX_BUFFER = None"
  using nRecv_spins [of MAX_BUFFER "\<lambda>_ _. Inl EBADF" "\<lambda>_. (1, False, 0)"] by (simp add: MAX_BUFFER_def)

section \<open>One client stops the server\<close>

lemma listenfd_in: "fd \<in> set fds \<Longrightarrow> listenfd fd fds = fd"
  by (induction fds) auto

lemma listenfd_out: "fd \<notin> set fds \<Longrightarrow> listenfd fd fds = 0"
  by (induction fds) auto

lemma eof_job:
  assumes "j_recv E 0 MAX_BUFFER = Inr []"
  shows "client_job E C h = Some (Inr (C\<lparr>curfds := curfds C - 1\<rparr>, [], True, remove1 B_job (remove1 B_client h)))"
proof -
  have "nRecv (j_recv E) (j_poll E) MAX_BUFFER = Some ([], ENOTCONN)" unfolding nRecv_def
    by (subst nRecv_loop.simps) (use assms in \<open>simp add: MAX_BUFFER_def\<close>)
  then show ?thesis by (simp add: client_job_def client_data_process_def)
qed

text \<open>The events of the main loop and the jobs of the workers, one after the other.\<close>

datatype act = Turn "((int \<times> jenv) \<times> int) list" | Job jenv

fun server_run :: "act list \<Rightarrow> server \<Rightarrow> (es_err + (int + server)) option" where
  "server_run [] S = Some (Inr (Inr S))"
| "server_run (Turn evs # as) S = (case main_turn (Some evs) S of Some (Inr (Inr S)) \<Rightarrow> server_run as S | r \<Rightarrow> r)"
| "server_run (Job E # as) S = (case run_job E S of Some (Inr (S, _)) \<Rightarrow> server_run as S | Some (Inl e) \<Rightarrow> Some (Inl e) | None \<Rightarrow> None)"

lemma turn_one:
  assumes "0 < curfds (cnt S)"
  shows "main_turn (Some [((acc, E), fd)]) S = main_event acc E fd S"
proof -
  have "take (nat (curfds (cnt S))) [((acc, E), fd)] = [((acc, E), fd)]" using assms by (cases "nat (curfds (cnt S))") auto
  then show ?thesis using assms by (auto simp: main_turn_def MAX_EPOLLSIZE_def split: option.splits sum.splits)
qed

text \<open>
  One client can stop the server. Every event of a client becomes a job, and every job that sees the
  end of the stream takes 1 off the number of descriptors, which the main loop passes to \<^verbatim>\<open>epoll_wait\<close> as the
  number of events: after one connection with two events, both of whose jobs find the connection closed, the
  number is 0, \<^verbatim>\<open>epoll_wait\<close> fails, and \<^verbatim>\<open>main\<close> leaves its loop.
\<close>

theorem one_client_stops_server:
  assumes "cnt S = \<lparr>curfds = 1, nRun = False\<rparr>" "l \<in> set (sockfds S)" "l \<noteq> 0" "0 \<le> c" "c \<notin> set (sockfds S)"
    and "j_recv E1 0 MAX_BUFFER = Inr []" "j_recv E2 0 MAX_BUFFER = Inr []"
  shows "server_run [Turn [((c, E), l)], Turn [((c, E), c)], Turn [((c, E), c)], Job E1, Job E2, Turn evs] S = Some (Inr (Inl 0))"
proof -
  let ?S = "S\<lparr>cnt := \<lparr>curfds = 2, nRun = False\<rparr>, interest := insert c (interest S)\<rparr>"
  have "main_turn (Some [((c, E), l)]) S = Some (Inr (Inr ?S))"
    using assms(1-4) by (simp add: turn_one main_event_def listenfd_in)
  moreover have "main_turn (Some [((c, E), c)]) (?S\<lparr>jobs_for := js\<rparr>) = Some (Inr (Inr (?S\<lparr>jobs_for := c # js\<rparr>)))" for js
    using assms(5) by (simp add: turn_one main_event_def listenfd_out)
  note this [of "jobs_for S"] this [of "c # jobs_for S"]
  ultimately show ?thesis using assms(6,7)
    by (simp add: run_job_def eof_job main_turn_def [of "Some evs"])
qed

theorem one_client_stops_server_witness:
  "server_run [Turn [((7, demo_net), 3)], Turn [((7, demo_net), 7)], Turn [((7, demo_net), 7)],
      Job (demo_net\<lparr>j_recv := \<lambda>_ _. Inr []\<rparr>), Job (demo_net\<lparr>j_recv := \<lambda>_ _. Inr []\<rparr>), Turn []]
    \<lparr>sockfds = [3], cnt = \<lparr>curfds = 1, nRun = False\<rparr>, interest = {3}, jobs_for = []\<rparr> = Some (Inr (Inl 0))"
  by (rule one_client_stops_server) simp_all

end
