(* ===== verification/Popen.thy ===== *)
theory Popen
  imports Refinement
begin

text \<open>
  \<^verbatim>\<open>apue/lib/popen.c\<close>: processes behind streams. A stream is its descriptor; a descriptor table maps descriptors to
  the ends of pipes or to other files. The table of children is indexed by descriptor, 0 for none; the empty
  list is the null pointer.
\<close>

section \<open>The program\<close>

datatype fobj = PipeR nat | PipeW nat | File nat

type_synonym ftab = "int \<rightharpoonup> fobj"

definition close :: "int \<Rightarrow> ftab \<Rightarrow> ftab" where "close fd T = T(fd := None)"
definition dup2 :: "int \<Rightarrow> int \<Rightarrow> ftab \<Rightarrow> ftab" where "dup2 fd fd2 T = T(fd2 := T fd)"

record pstate =
  childpid :: "int list"
  maxfd :: int
  ftab :: ftab

datatype perr = EINVAL | EMFILE | Other

text \<open>What the calls return: \<^verbatim>\<open>open_max\<close>, memory for the table, \<^verbatim>\<open>pipe\<close> (the two descriptors) with the number of the new
  pipe, \<^verbatim>\<open>fork\<close>, and whether \<^verbatim>\<open>fdopen\<close> succeeds.\<close>

record penv =
  e_max :: int
  e_mem :: bool
  e_pipe :: "(int \<times> int) option"
  e_id :: nat
  e_fork :: int
  e_fdopen :: bool

definition STDIN :: int where "STDIN = 0"
definition STDOUT :: int where "STDOUT = 1"

text \<open>The child up to \<^verbatim>\<open>execl\<close>: its descriptors.\<close>

definition close_children :: "int list \<Rightarrow> ftab \<Rightarrow> ftab" where
  "close_children cp T = fold (\<lambda>i T. if cp ! i > 0 then close (int i) T else T) [0..<length cp] T"

definition popen_child :: "char \<Rightarrow> int \<times> int \<Rightarrow> int list \<Rightarrow> ftab \<Rightarrow> ftab" where
  "popen_child ty pfd cp T =
    (let T = (if ty = CHR ''r'' then
                let T = close (fst pfd) T in
                if snd pfd \<noteq> STDOUT then close (snd pfd) (dup2 (snd pfd) STDOUT T) else T
              else
                let T = close (snd pfd) T in
                if fst pfd \<noteq> STDIN then close (fst pfd) (dup2 (fst pfd) STDIN T) else T)
     in close_children cp T)"

text \<open>The parent: the new state, and the stream with the descriptors of the child, or the error.\<close>

definition popen :: "penv \<Rightarrow> string \<Rightarrow> pstate \<Rightarrow> pstate \<times> (perr + int \<times> ftab)" where
  "popen E ty S =
    (if ty \<noteq> ''r'' \<and> ty \<noteq> ''w'' then (S, Inl EINVAL)
     else
       let S = (if childpid S = [] then S\<lparr>maxfd := e_max E\<rparr> else S) in
       if childpid S = [] \<and> \<not> e_mem E then (S, Inl Other)
       else
         let S = (if childpid S = [] then S\<lparr>childpid := replicate (nat (maxfd S)) 0\<rparr> else S) in
         (case e_pipe E of None \<Rightarrow> (S, Inl Other) | Some pfd \<Rightarrow>
            let S = S\<lparr>ftab := (ftab S)(fst pfd \<mapsto> PipeR (e_id E), snd pfd \<mapsto> PipeW (e_id E))\<rparr> in
            if fst pfd \<ge> maxfd S \<or> snd pfd \<ge> maxfd S then (S\<lparr>ftab := close (snd pfd) (close (fst pfd) (ftab S))\<rparr>, Inl EMFILE)
            else if e_fork E < 0 then (S, Inl Other)
            else
              let T = popen_child (hd ty) pfd (childpid S) (ftab S);
                  (mine, other) = (if hd ty = CHR ''r'' then pfd else (snd pfd, fst pfd));
                  S = S\<lparr>ftab := close other (ftab S)\<rparr> in
              if \<not> e_fdopen E then (S, Inl Other)
              else (S\<lparr>childpid := (childpid S)[nat mine := e_fork E]\<rparr>, Inr (mine, T))))"

text \<open>\<^verbatim>\<open>waitpid\<close> at each try: an error number or the status.\<close>

definition EINTR :: int where "EINTR = 4"

partial_function (option) wait_loop :: "(int \<Rightarrow> nat \<Rightarrow> int + int) \<Rightarrow> int \<Rightarrow> nat \<Rightarrow> int option" where
  "wait_loop waitpid pid i = (case waitpid pid i of
     Inr stat \<Rightarrow> Some stat
   | Inl errno \<Rightarrow> if errno \<noteq> EINTR then Some (-1) else wait_loop waitpid pid (Suc i))"

text \<open>\<open>fclose_ok\<close> is whether \<^verbatim>\<open>fclose\<close> succeeds. The result also has the child waited for.\<close>

definition pclose :: "bool \<Rightarrow> (int \<Rightarrow> nat \<Rightarrow> int + int) \<Rightarrow> int \<Rightarrow> pstate \<Rightarrow> (pstate \<times> int \<times> int option) option" where
  "pclose fclose_ok waitpid fp S =
    (if childpid S = [] then Some (S, -1, None)
     else let fd = fp in
       if fd \<ge> maxfd S then Some (S, -1, None)
       else let pid = childpid S ! nat fd in
         if pid = 0 then Some (S, -1, None)
         else let S = S\<lparr>childpid := (childpid S)[nat fd := 0], ftab := close fd (ftab S)\<rparr> in
           if \<not> fclose_ok then Some (S, -1, None)
           else map_option (\<lambda>r. (S, r, Some pid)) (wait_loop waitpid pid 0))"

section \<open>The child\<close>

lemma close_children_apply:
  "close_children cp T fd = (if 0 \<le> fd \<and> nat fd < length cp \<and> cp ! nat fd > 0 then None else T fd)"
proof -
  have "fold (\<lambda>i T. if cp ! i > 0 then close (int i) T else T) [0..<n] T fd = (if 0 \<le> fd \<and> nat fd < n \<and> cp ! nat fd > 0 then None else T fd)" for n
    by (induction n) (auto simp: close_def less_Suc_eq)
  then show ?thesis by (simp add: close_children_def)
qed

text \<open>What the descriptors of the parent hold after \<^verbatim>\<open>pipe\<close>: the new pipe at its two descriptors only.\<close>

definition piped :: "nat \<Rightarrow> int \<times> int \<Rightarrow> ftab \<Rightarrow> bool" where
  "piped k pfd T \<longleftrightarrow> fst pfd \<noteq> snd pfd \<and> 0 \<le> fst pfd \<and> 0 \<le> snd pfd \<and>
     (\<forall>fd. T fd = Some (PipeR k) \<longleftrightarrow> fd = fst pfd) \<and> (\<forall>fd. T fd = Some (PipeW k) \<longleftrightarrow> fd = snd pfd)"

definition child_ok :: "char \<Rightarrow> nat \<Rightarrow> int \<times> int \<Rightarrow> int list \<Rightarrow> ftab \<Rightarrow> ftab \<Rightarrow> bool" where
  "child_ok ty k pfd cp T T' \<longleftrightarrow>
     (let std = (if ty = CHR ''r'' then STDOUT else STDIN); mine = (if ty = CHR ''r'' then PipeW k else PipeR k) in
      (\<forall>fd. T' fd = Some mine \<longleftrightarrow> fd = std) \<and>
      (\<forall>fd. T' fd \<noteq> Some (if ty = CHR ''r'' then PipeR k else PipeW k)) \<and>
      (\<forall>fd. 0 \<le> fd \<and> nat fd < length cp \<and> cp ! nat fd > 0 \<longrightarrow> T' fd = None) \<and>
      (\<forall>fd. fd \<notin> {std, fst pfd, snd pfd} \<longrightarrow> \<not> (0 \<le> fd \<and> nat fd < length cp \<and> cp ! nat fd > 0) \<longrightarrow> T' fd = T fd))"

lemma popen_child_ok:
  assumes "piped k pfd T" "ty \<in> {CHR ''r'', CHR ''w''}" "cp \<noteq> []" "\<not> cp ! nat (if ty = CHR ''r'' then STDOUT else STDIN) > 0"
  shows "child_ok ty k pfd cp T (popen_child ty pfd cp T)"
  using assms by (auto simp: child_ok_def popen_child_def piped_def close_children_apply Let_def close_def dup2_def STDIN_def STDOUT_def split: if_splits)

section \<open>The table of streams\<close>

text \<open>The abstract state: which process is behind which stream; the descriptors; the size of the table, once there is one.\<close>

type_synonym astate = "(int \<rightharpoonup> int) \<times> ftab \<times> int option"

text \<open>The results: a stream, the error of \<^verbatim>\<open>popen\<close>, the process \<^verbatim>\<open>pclose\<close> waited for with what it returned, or its -1 without waiting.\<close>

datatype pcmd = Popen penv string | Pclose bool "int \<Rightarrow> nat \<Rightarrow> int + int" int
datatype pres = Stream int | Failed perr | Waited int int | Not_waited int

fun pstep :: "pstate \<Rightarrow> pcmd \<Rightarrow> unit + pstate \<times> pres" where
  "pstep S (Popen E ty) = (case popen E ty S of (S, Inr (fd, _)) \<Rightarrow> Inr (S, Stream fd) | (S, Inl e) \<Rightarrow> Inr (S, Failed e))"
| "pstep S (Pclose fclose_ok w fd) = (case pclose fclose_ok w fd S of None \<Rightarrow> Inl ()
     | Some (S, r, None) \<Rightarrow> Inr (S, Not_waited r) | Some (S, r, Some pid) \<Rightarrow> Inr (S, Waited pid r))"

text \<open>The status of a process: what \<^verbatim>\<open>waitpid\<close> returns when it is no longer interrupted.\<close>

definition status :: "(int \<Rightarrow> nat \<Rightarrow> int + int) \<Rightarrow> int \<Rightarrow> int" where
  "status w pid = (case w pid (LEAST i. w pid i \<noteq> Inl EINTR) of Inr s \<Rightarrow> s | Inl _ \<Rightarrow> -1)"

text \<open>
  The net effect of the calls. A \<^verbatim>\<open>popen\<close> whose \<^verbatim>\<open>fork\<close> fails leaves both ends of the pipe open, and one whose
  \<^verbatim>\<open>fdopen\<close> fails leaves its own end open and forgets the process; a \<^verbatim>\<open>pclose\<close> whose \<^verbatim>\<open>fclose\<close> fails forgets the
  process without waiting for it.
\<close>

definition table_size :: "int option \<Rightarrow> penv \<Rightarrow> int option" where
  "table_size n E = (case n of Some k \<Rightarrow> Some k | None \<Rightarrow> if e_mem E then Some (e_max E) else None)"

fun pspec :: "astate \<Rightarrow> pcmd \<Rightarrow> astate \<times> pres" where
  "pspec (m, T, n) (Popen E ty) =
    (if ty \<noteq> ''r'' \<and> ty \<noteq> ''w'' then ((m, T, n), Failed EINVAL)
     else (case table_size n E of None \<Rightarrow> ((m, T, None), Failed Other) | Some k \<Rightarrow>
       (case e_pipe E of None \<Rightarrow> ((m, T, Some k), Failed Other) | Some (r, w) \<Rightarrow>
          if r \<ge> k \<or> w \<ge> k then ((m, T, Some k), Failed EMFILE)
          else if e_fork E < 0 then ((m, T(r \<mapsto> PipeR (e_id E), w \<mapsto> PipeW (e_id E)), Some k), Failed Other)
          else let mine = (if ty = ''r'' then r else w);
                   T = T(mine \<mapsto> (if ty = ''r'' then PipeR (e_id E) else PipeW (e_id E))) in
            if \<not> e_fdopen E then ((m, T, Some k), Failed Other)
            else ((m(mine \<mapsto> e_fork E), T, Some k), Stream mine))))"
| "pspec (m, T, n) (Pclose fclose_ok w fd) = (case m fd of None \<Rightarrow> ((m, T, n), Not_waited (-1))
     | Some pid \<Rightarrow> ((m(fd := None), T(fd := None), n), if fclose_ok then Waited pid (status w pid) else Not_waited (-1)))"

text \<open>What the system promises: \<^verbatim>\<open>pipe\<close> returns two unused descriptors, \<^verbatim>\<open>fork\<close> does not return 0 in the parent, and \<^verbatim>\<open>waitpid\<close> is
  not interrupted for ever.\<close>

fun ppre :: "astate \<Rightarrow> pcmd \<Rightarrow> bool" where
  "ppre (m, T, n) (Popen E ty) \<longleftrightarrow> e_fork E \<noteq> 0 \<and> e_max E > 0 \<and>
     (\<forall>r w. e_pipe E = Some (r, w) \<longrightarrow> r \<noteq> w \<and> 0 \<le> r \<and> 0 \<le> w \<and> T r = None \<and> T w = None)"
| "ppre (m, T, n) (Pclose fclose_ok w fd) \<longleftrightarrow> 0 \<le> fd \<and> (\<forall>pid. \<exists>i. w pid i \<noteq> Inl EINTR)"

definition prel :: "pstate \<Rightarrow> astate \<Rightarrow> bool" where
  "prel S a \<longleftrightarrow> (case a of (m, T, n) \<Rightarrow> ftab S = T \<and>
     (case n of None \<Rightarrow> childpid S = [] \<and> m = Map.empty
      | Some k \<Rightarrow> 0 < k \<and> maxfd S = k \<and> length (childpid S) = nat k \<and>
          m = (\<lambda>fd. if 0 \<le> fd \<and> fd < k \<and> childpid S ! nat fd \<noteq> 0 then Some (childpid S ! nat fd) else None)))"

lemma wait_loop_status:
  assumes "w pid i \<noteq> Inl EINTR" "\<forall>j < i. w pid j = Inl EINTR" "k \<le> i"
  shows "wait_loop w pid k = Some (case w pid i of Inr s \<Rightarrow> s | Inl _ \<Rightarrow> -1)"
  using assms(3)
proof (induction rule: inc_induct)
  case base
  show ?case using assms(1) by (subst wait_loop.simps) (auto split: sum.splits)
next
  case (step k)
  then have "w pid k = Inl EINTR" using assms(2) by simp
  then show ?case using step by (subst wait_loop.simps) simp
qed

lemma wait_loop_returns: "\<exists>i. w pid i \<noteq> Inl EINTR \<Longrightarrow> wait_loop w pid 0 = Some (status w pid)"
  using wait_loop_status [of w pid "LEAST i. w pid i \<noteq> Inl EINTR" 0] LeastI_ex [of "\<lambda>i. w pid i \<noteq> Inl EINTR"] not_less_Least
  by (fastforce simp: status_def)

text \<open>The table once it is there: the state in which \<^verbatim>\<open>popen\<close> gets to \<^verbatim>\<open>pipe\<close>.\<close>

definition with_table :: "penv \<Rightarrow> pstate \<Rightarrow> pstate" where
  "with_table E S = (if childpid S = [] then S\<lparr>maxfd := e_max E, childpid := replicate (nat (e_max E)) 0\<rparr> else S)"

lemma with_table_rel:
  assumes "prel S (m, T, n)" "table_size n E = Some k" "e_max E > 0"
  shows "prel (with_table E S) (m, T, Some k)" "childpid (with_table E S) \<noteq> []"
  using assms by (auto simp: prel_def table_size_def with_table_def fun_eq_iff split: option.splits if_splits)

lemma popen_no_table:
  assumes "prel S (m, T, n)" "table_size n E = None" "ty = ''r'' \<or> ty = ''w''"
  shows "\<exists>S'. popen E ty S = (S', Inl Other) \<and> prel S' (m, T, None)"
  using assms by (auto simp: prel_def table_size_def popen_def Let_def split: option.splits if_splits)

lemma popen_with_table:
  assumes "prel S (m, T, n)" "table_size n E = Some k" "ty = ''r'' \<or> ty = ''w''" "e_max E > 0"
  shows "popen E ty S = popen E ty (with_table E S)"
  using assms by (auto simp: prel_def table_size_def popen_def with_table_def Let_def split: option.splits if_splits)

lemma popen_table_sim:
  assumes "prel S (m, T, Some k)" "childpid S \<noteq> []" "ppre (m, T, n) (Popen E ty)" "ty = ''r'' \<or> ty = ''w''" "table_size n E = Some k"
  shows "\<exists>S'. pstep S (Popen E ty) = Inr (S', snd (pspec (m, T, n) (Popen E ty))) \<and> prel S' (fst (pspec (m, T, n) (Popen E ty)))"
proof (cases "e_pipe E")
  case None
  then show ?thesis using assms by (auto simp: popen_def Let_def)
next
  case (Some p)
  obtain r w where p: "e_pipe E = Some (r, w)" "r \<noteq> w" "0 \<le> r" "0 \<le> w" "T r = None" "T w = None" using Some assms(3) by (cases p) auto
  have t: "T(r := None, w := None) = T" "T(r \<mapsto> x, w := None) = T(r \<mapsto> x)" "T(r := None, w \<mapsto> y) = T(w \<mapsto> y)" for x y
    using p(2,5,6) by (auto simp: fun_eq_iff)
  show ?thesis
    using assms p t by (auto simp: prel_def popen_def Let_def close_def fun_eq_iff nth_list_update nat_eq_iff)
qed

lemma popen_sim:
  assumes "prel S (m, T, n)" "ppre (m, T, n) (Popen E ty)"
  shows "\<exists>S'. pstep S (Popen E ty) = Inr (S', snd (pspec (m, T, n) (Popen E ty))) \<and> prel S' (fst (pspec (m, T, n) (Popen E ty)))"
proof (cases "ty = ''r'' \<or> ty = ''w''")
  case False
  then show ?thesis using assms(1) by (simp add: popen_def)
next
  case ty: True
  show ?thesis
  proof (cases "table_size n E")
    case None
    then show ?thesis using popen_no_table [OF assms(1) None ty] ty by auto
  next
    case (Some k)
    have "e_max E > 0" using assms(2) by simp
    then show ?thesis
      using popen_table_sim [OF with_table_rel [OF assms(1) Some] assms(2) ty Some] popen_with_table [OF assms(1) Some ty] by simp
  qed
qed

lemma pclose_sim:
  assumes "prel S (m, T, n)" "ppre (m, T, n) (Pclose b w fd)"
  shows "\<exists>S'. pstep S (Pclose b w fd) = Inr (S', snd (pspec (m, T, n) (Pclose b w fd))) \<and> prel S' (fst (pspec (m, T, n) (Pclose b w fd)))"
proof (cases n)
  case None
  then show ?thesis using assms by (auto simp: prel_def pclose_def)
next
  case (Some k)
  then have "childpid S \<noteq> []" using assms(1) by (auto simp: prel_def)
  then show ?thesis using assms Some wait_loop_returns [of w]
    by (auto simp: prel_def pclose_def Let_def close_def fun_eq_iff nth_list_update nat_eq_iff split: if_splits)
qed

interpretation pt: data_refinement prel pstep pspec ppre
proof (unfold_locales, goal_cases)
  case (1 S a c)
  then show ?case using popen_sim pclose_sim by (cases a; cases c) blast+
qed

section \<open>Properties\<close>

text \<open>
  C27: streams and processes stay matched. In every sequence of \<^verbatim>\<open>popen\<close> and \<^verbatim>\<open>pclose\<close>, with calls that fail at
  any place and with descriptors reused as the system likes, \<^verbatim>\<open>pclose\<close> of a stream whose \<^verbatim>\<open>fclose\<close> succeeds waits for
  exactly the process that the \<^verbatim>\<open>popen\<close> which returned the stream had started, through any number of
  interruptions, and returns its status (or -1 if \<^verbatim>\<open>waitpid\<close> fails otherwise); if \<^verbatim>\<open>fclose\<close> fails it returns -1 and the process is never waited
  for; for anything else it returns -1. The descriptors open are those of the streams in use and those that
  failing calls leave behind: both ends of the pipe after a failed \<^verbatim>\<open>fork\<close>, one after a failed \<^verbatim>\<open>fdopen\<close>.
\<close>

theorem popen_run_refines:
  assumes "all_pre pspec ppre (Map.empty, T, None) cs"
  shows "\<exists>S. run pstep \<lparr>childpid = [], maxfd = 0, ftab = T\<rparr> cs = Inr (S, snd (spec_run pspec (Map.empty, T, None) cs)) \<and>
    ftab S = fst (snd (fst (spec_run pspec (Map.empty, T, None) cs)))"
proof -
  have "prel \<lparr>childpid = [], maxfd = 0, ftab = T\<rparr> (Map.empty, T, None)" by (simp add: prel_def)
  then show ?thesis using pt.run_refines [OF _ assms] by (fastforce simp: prel_def)
qed

definition demo_env :: "int \<Rightarrow> int \<Rightarrow> nat \<Rightarrow> int \<Rightarrow> penv" where
  "demo_env r w k pid = \<lparr>e_max = 8, e_mem = True, e_pipe = Some (r, w), e_id = k, e_fork = pid, e_fdopen = True\<rparr>"

definition demo_wait :: "int \<Rightarrow> nat \<Rightarrow> int + int" where
  "demo_wait pid i = (if i = 0 then Inl EINTR else Inr (pid - 100))"

lemma demo_status: "status demo_wait pid = pid - 100"
proof -
  have "(LEAST i. demo_wait pid i \<noteq> Inl EINTR) = 1"
    by (rule Least_equality) (auto simp: demo_wait_def Suc_le_eq split: if_splits intro: ccontr)
  then show ?thesis by (simp add: status_def demo_wait_def)
qed

theorem popen_run_refines_witness:
  "\<exists>S. run pstep \<lparr>childpid = [], maxfd = 0, ftab = Map.empty\<rparr>
     [Popen (demo_env 3 4 0 101) ''r'', Popen (demo_env 4 5 1 102) ''w'', Pclose True demo_wait 3, Pclose True demo_wait 3, Pclose False demo_wait 5] =
   Inr (S, [Stream 3, Stream 5, Waited 101 1, Not_waited (-1), Not_waited (-1)]) \<and> ftab S = Map.empty"
proof -
  let ?cs = "[Popen (demo_env 3 4 0 101) ''r'', Popen (demo_env 4 5 1 102) ''w'', Pclose True demo_wait 3, Pclose True demo_wait 3, Pclose False demo_wait 5]"
  have w: "\<exists>i. demo_wait pid i \<noteq> Inl EINTR" for pid by (rule exI [of _ 1]) (simp add: demo_wait_def)
  have "all_pre pspec ppre (Map.empty, Map.empty, None) ?cs" using w by (simp add: demo_env_def table_size_def)
  moreover have "snd (spec_run pspec (Map.empty, Map.empty, None) ?cs) = [Stream 3, Stream 5, Waited 101 1, Not_waited (-1), Not_waited (-1)]"
    "fst (snd (fst (spec_run pspec (Map.empty, Map.empty, None) ?cs))) = Map.empty"
    by (auto simp: demo_env_def demo_status table_size_def)
  ultimately show ?thesis using popen_run_refines [of Map.empty ?cs] by (simp del: run.simps spec_run.simps all_pre.simps)
qed

text \<open>
  What the child inherits. The command runs with the other end of the pipe as its standard output (or
  input), with no other descriptor on the pipe, with none of the streams of earlier calls, and with all else
  unchanged; provided that no earlier stream has the number of the standard descriptor.
\<close>

theorem popen_child_inherits:
  assumes "popen E ty S = (S', Inr (fd, T'))" "e_pipe E = Some pfd" "piped (e_id E) pfd ((ftab S)(fst pfd \<mapsto> PipeR (e_id E), snd pfd \<mapsto> PipeW (e_id E)))"
    and "childpid S \<noteq> []" "\<not> childpid S ! nat (if ty = ''r'' then STDOUT else STDIN) > 0"
  shows "child_ok (hd ty) (e_id E) pfd (childpid S) ((ftab S)(fst pfd \<mapsto> PipeR (e_id E), snd pfd \<mapsto> PipeW (e_id E))) T'"
proof -
  have "hd ty \<in> {CHR ''r'', CHR ''w''}" "hd ty = CHR ''r'' \<longleftrightarrow> ty = ''r''"
    "T' = popen_child (hd ty) pfd (childpid S) ((ftab S)(fst pfd \<mapsto> PipeR (e_id E), snd pfd \<mapsto> PipeW (e_id E)))"
    using assms(1,2,4) by (auto simp: popen_def Let_def split: if_splits prod.splits)
  then show ?thesis using popen_child_ok [OF assms(3) _ assms(4)] assms(5) by simp
qed

text \<open>Without the proviso the command has no standard output: the loop over the earlier streams closes it again.\<close>

theorem popen_stdout_lost:
  assumes "1 < length cp" "cp ! 1 > 0"
  shows "popen_child CHR ''r'' pfd cp T STDOUT = None"
  using assms by (simp add: popen_child_def close_children_apply STDOUT_def)

theorem popen_child_inherits_witness:
  "\<exists>S' T'. popen (demo_env 3 4 7 101) ''r'' \<lparr>childpid = [0, 0, 0, 0, 0, 55], maxfd = 6, ftab = [1 \<mapsto> File 1, 5 \<mapsto> PipeR 2]\<rparr> = (S', Inr (3, T')) \<and>
    T' 1 = Some (PipeW 7) \<and> T' 3 = None \<and> T' 4 = None \<and> T' 5 = None"
proof -
  let ?S = "\<lparr>childpid = [0, 0, 0, 0, 0, 55], maxfd = 6, ftab = [1 \<mapsto> File 1, 5 \<mapsto> PipeR 2]\<rparr>"
  obtain S' T' where p: "popen (demo_env 3 4 7 101) ''r'' ?S = (S', Inr (3, T'))" by (simp add: popen_def demo_env_def Let_def)
  have "child_ok CHR ''r'' 7 (3, 4) [0, 0, 0, 0, 0, 55] [1 \<mapsto> File 1, 5 \<mapsto> PipeR 2, 3 \<mapsto> PipeR 7, 4 \<mapsto> PipeW 7] T'"
    using popen_child_inherits [OF p, of "(3, 4)"] by (simp add: demo_env_def piped_def STDOUT_def)
  then have "\<forall>fd. T' fd = Some (PipeW 7) \<longleftrightarrow> fd = 1" "\<forall>fd. T' fd \<noteq> Some (PipeR 7)" "T' 5 = None"
    by (simp_all add: child_ok_def Let_def STDOUT_def)
  moreover have "T' 3 = None" "T' 4 = None" using p by (auto simp: popen_def demo_env_def Let_def popen_child_def close_children_apply close_def dup2_def STDOUT_def)
  ultimately show ?thesis using p by blast
qed

end
