(* ===== verification/Tty_Modes.thy ===== *)
theory Tty_Modes
  imports Prelude
begin

text \<open>
  The terminal modes of \<^verbatim>\<open>apue/lib/ttymodes.c\<close>. The settings of a terminal are words of flags and two control
  characters; the values of the flags are those of Linux. What the terminal driver makes of settings it is
  given is a parameter, since \<^verbatim>\<open>tcsetattr\<close> may carry out only some of them.
\<close>

unbundle bit_operations_syntax

section \<open>The program\<close>

record termios =
  c_iflag :: "32 word"
  c_oflag :: "32 word"
  c_cflag :: "32 word"
  c_lflag :: "32 word"
  c_vmin :: "8 word"
  c_vtime :: "8 word"

definition ISIG :: "32 word" where "ISIG = 0x1"
definition ICANON :: "32 word" where "ICANON = 0x2"
definition ECHO :: "32 word" where "ECHO = 0x8"
definition IEXTEN :: "32 word" where "IEXTEN = 0x8000"
definition BRKINT :: "32 word" where "BRKINT = 0x2"
definition INPCK :: "32 word" where "INPCK = 0x10"
definition ISTRIP :: "32 word" where "ISTRIP = 0x20"
definition ICRNL :: "32 word" where "ICRNL = 0x100"
definition IXON :: "32 word" where "IXON = 0x400"
definition CSIZE :: "32 word" where "CSIZE = 0x30"
definition CS8 :: "32 word" where "CS8 = 0x30"
definition PARENB :: "32 word" where "PARENB = 0x100"
definition OPOST :: "32 word" where "OPOST = 0x1"

datatype ttymode = RESET | RAW | CBREAK

record ttyst =
  save_termios :: termios
  ttysavefd :: int
  ttystate :: ttymode

text \<open>
  The terminals: the settings of each descriptor. One call of the library makes at most two \<^verbatim>\<open>tcgetattr\<close> and two
  \<^verbatim>\<open>tcsetattr\<close>: \<open>g1\<close>, \<open>g2\<close>, \<open>s1\<close>, \<open>s2\<close> are whether they succeed, \<open>drv old new\<close> the settings that a successful change leads to.
\<close>

type_synonym ttys = "int \<Rightarrow> termios"

record tenv =
  g1 :: bool
  s1 :: bool
  g2 :: bool
  s2 :: bool
  drv :: "termios \<Rightarrow> termios \<Rightarrow> termios"

definition tcsetattr :: "tenv \<Rightarrow> bool \<Rightarrow> int \<Rightarrow> termios \<Rightarrow> ttys \<Rightarrow> ttys" where
  "tcsetattr E ok fd new W = (if ok then W(fd := drv E (W fd) new) else W)"

definition cbreak_of :: "termios \<Rightarrow> termios" where
  "cbreak_of buf = buf\<lparr>c_lflag := c_lflag buf AND NOT (ECHO OR ICANON), c_vmin := 1, c_vtime := 0\<rparr>"

definition cbreak_bad :: "termios \<Rightarrow> bool" where
  "cbreak_bad buf \<longleftrightarrow> c_lflag buf AND (ECHO OR ICANON) \<noteq> 0 \<or> c_vmin buf \<noteq> 1 \<or> c_vtime buf \<noteq> 0"

definition tty_cbreak :: "tenv \<Rightarrow> int \<Rightarrow> ttyst \<times> ttys \<Rightarrow> (ttyst \<times> ttys) \<times> int" where
  "tty_cbreak E fd SW = (case SW of (S, W) \<Rightarrow>
     if ttystate S \<noteq> RESET then ((S, W), -1)
     else if \<not> g1 E then ((S, W), -1)
     else let buf = W fd; S = S\<lparr>save_termios := buf\<rparr> in
       if \<not> s1 E then ((S, W), -1)
       else let W = tcsetattr E True fd (cbreak_of buf) W in
         if \<not> g2 E then ((S, tcsetattr E (s2 E) fd (save_termios S) W), -1)
         else if cbreak_bad (W fd) then ((S, tcsetattr E (s2 E) fd (save_termios S) W), -1)
         else ((S\<lparr>ttystate := CBREAK, ttysavefd := fd\<rparr>, W), 0))"

definition raw_of :: "termios \<Rightarrow> termios" where
  "raw_of buf =
    (let buf = buf\<lparr>c_lflag := c_lflag buf AND NOT (ECHO OR ICANON OR IEXTEN OR ISIG)\<rparr>;
         buf = buf\<lparr>c_iflag := c_iflag buf AND NOT (BRKINT OR ICRNL OR INPCK OR ISTRIP OR IXON)\<rparr>;
         buf = buf\<lparr>c_cflag := c_cflag buf AND NOT (CSIZE OR PARENB)\<rparr>;
         buf = buf\<lparr>c_cflag := c_cflag buf OR CS8\<rparr>;
         buf = buf\<lparr>c_oflag := c_oflag buf AND NOT OPOST\<rparr>
     in buf\<lparr>c_vmin := 1, c_vtime := 0\<rparr>)"

definition raw_bad :: "termios \<Rightarrow> bool" where
  "raw_bad buf \<longleftrightarrow> c_lflag buf AND (ECHO OR ICANON OR IEXTEN OR ISIG) \<noteq> 0 \<or>
     c_iflag buf AND (BRKINT OR ICRNL OR INPCK OR ISTRIP OR IXON) \<noteq> 0 \<or>
     c_cflag buf AND (CSIZE OR PARENB OR CS8) \<noteq> CS8 \<or> c_oflag buf AND OPOST \<noteq> 0 \<or> c_vmin buf \<noteq> 1 \<or> c_vtime buf \<noteq> 0"

definition tty_raw :: "tenv \<Rightarrow> int \<Rightarrow> ttyst \<times> ttys \<Rightarrow> (ttyst \<times> ttys) \<times> int" where
  "tty_raw E fd SW = (case SW of (S, W) \<Rightarrow>
     if ttystate S \<noteq> RESET then ((S, W), -1)
     else if \<not> g1 E then ((S, W), -1)
     else let buf = W fd; S = S\<lparr>save_termios := buf\<rparr> in
       if \<not> s1 E then ((S, W), -1)
       else let W = tcsetattr E True fd (raw_of buf) W in
         if \<not> g2 E then ((S, tcsetattr E (s2 E) fd (save_termios S) W), -1)
         else if raw_bad (W fd) then ((S, tcsetattr E (s2 E) fd (save_termios S) W), -1)
         else ((S\<lparr>ttystate := RAW, ttysavefd := fd\<rparr>, W), 0))"

definition tty_reset :: "tenv \<Rightarrow> int \<Rightarrow> ttyst \<times> ttys \<Rightarrow> (ttyst \<times> ttys) \<times> int" where
  "tty_reset E fd SW = (case SW of (S, W) \<Rightarrow>
     if ttystate S = RESET then ((S, W), 0)
     else if \<not> s1 E then ((S, W), -1)
     else ((S\<lparr>ttystate := RESET\<rparr>, tcsetattr E True fd (save_termios S) W), 0))"

definition tty_atexit :: "tenv \<Rightarrow> ttyst \<times> ttys \<Rightarrow> ttyst \<times> ttys" where
  "tty_atexit E SW = (if ttysavefd (fst SW) \<ge> 0 then fst (tty_reset E (ttysavefd (fst SW)) SW) else SW)"

definition tty_termios :: "ttyst \<Rightarrow> termios" where
  "tty_termios S = save_termios S"

definition tty_start :: "termios \<Rightarrow> ttyst" where
  "tty_start t = \<lparr>save_termios = t, ttysavefd = -1, ttystate = RESET\<rparr>"

section \<open>The settings\<close>

lemma cleared: "(x AND NOT m) AND m = (0 :: 32 word)"
  by (simp add: and.assoc)

lemma size_set: "(x AND NOT (c OR p) OR c) AND (c OR p OR c) = (c :: 32 word)"
  by (rule bit_word_eqI) (auto simp: bit_simps)

lemma raw_of_good: "\<not> raw_bad (raw_of t)"
  using cleared [of "c_lflag t" "ECHO OR ICANON OR IEXTEN OR ISIG"] cleared [of "c_iflag t" "BRKINT OR ICRNL OR INPCK OR ISTRIP OR IXON"]
    cleared [of "c_oflag t" OPOST] size_set [of "c_cflag t" CS8 PARENB]
  by (simp add: raw_bad_def raw_of_def Let_def CSIZE_def flip: CS8_def)

lemma cbreak_of_good: "\<not> cbreak_bad (cbreak_of t)"
  using cleared [of "c_lflag t" "ECHO OR ICANON"] by (simp add: cbreak_bad_def cbreak_of_def)

section \<open>Properties\<close>

text \<open>A driver that carries out what it is asked.\<close>

definition obeys :: "tenv \<Rightarrow> bool" where
  "obeys E \<longleftrightarrow> g1 E \<and> s1 E \<and> g2 E \<and> s2 E \<and> (\<forall>old new. drv E old new = new)"

text \<open>
  Switching a terminal is all or nothing. \<^verbatim>\<open>tty_raw\<close> returns 0 only when the settings read back have every flag of
  the mode; when it returns -1 the library is as before, apart from the saved settings, and the terminal too,
  provided the driver carries out the restoring; other terminals are never touched.
\<close>

theorem tty_raw_all_or_nothing:
  assumes "tty_raw E fd (S, W) = ((S', W'), r)"
  shows "(r = 0 \<longrightarrow> ttystate S = RESET \<and> ttystate S' = RAW \<and> ttysavefd S' = fd \<and> save_termios S' = W fd \<and> \<not> raw_bad (W' fd)) \<and>
    (r \<noteq> 0 \<longrightarrow> r = -1 \<and> ttystate S' = ttystate S \<and> ttysavefd S' = ttysavefd S \<and>
       (s2 E \<and> (\<forall>old. drv E old (W fd) = W fd) \<longrightarrow> W' fd = W fd)) \<and>
    (\<forall>u. u \<noteq> fd \<longrightarrow> W' u = W u)"
  using assms by (auto simp: tty_raw_def Let_def tcsetattr_def split: if_splits)

text \<open>
  C28: leaving the program restores the terminal. From the start, after switching a terminal to raw or cbreak mode
  with a driver that obeys, the function for \<^verbatim>\<open>atexit\<close> brings back exactly the settings from before; a second switch
  without a reset in between is refused and changes nothing.
\<close>

theorem tty_restored:
  assumes "obeys E" "0 \<le> fd" "f = tty_raw \<or> f = tty_cbreak"
  shows "\<exists>S1 W1. f E fd (tty_start t, W) = ((S1, W1), 0) \<and>
    (tty_raw E u (S1, W1) = ((S1, W1), -1) \<and> tty_cbreak E u (S1, W1) = ((S1, W1), -1)) \<and>
    tty_termios S1 = W fd \<and> snd (tty_atexit E (S1, W1)) = W \<and> ttystate (fst (tty_atexit E (S1, W1))) = RESET"
proof -
  let ?S = "\<lambda>m. \<lparr>save_termios = W fd, ttysavefd = fd, ttystate = m\<rparr>"
  note d = tty_start_def tty_raw_def tty_cbreak_def tty_atexit_def tty_reset_def tty_termios_def Let_def tcsetattr_def
  have E: "g1 E" "s1 E" "g2 E" "s2 E" "\<And>old new. drv E old new = new" using assms(1) by (auto simp: obeys_def)
  show ?thesis using assms(3)
  proof
    assume "f = tty_raw"
    then show ?thesis using E assms(2) raw_of_good [of "W fd"] by (intro exI [of _ "?S RAW"] exI [of _ "W(fd := raw_of (W fd))"]) (simp add: d)
  next
    assume "f = tty_cbreak"
    then show ?thesis using E assms(2) cbreak_of_good [of "W fd"] by (intro exI [of _ "?S CBREAK"] exI [of _ "W(fd := cbreak_of (W fd))"]) (simp add: d)
  qed
qed

definition demo_driver :: tenv where "demo_driver = \<lparr>g1 = True, s1 = True, g2 = True, s2 = True, drv = (\<lambda>old new. new)\<rparr>"

definition demo_tty :: termios where
  "demo_tty = \<lparr>c_iflag = 0x502, c_oflag = 5, c_cflag = 0x1bf, c_lflag = 0x8a3b, c_vmin = 4, c_vtime = 5\<rparr>"

theorem tty_restored_witness:
  "\<exists>S1 W1. tty_raw demo_driver 0 (tty_start demo_tty, \<lambda>_. demo_tty) = ((S1, W1), 0) \<and> snd (tty_atexit demo_driver (S1, W1)) = (\<lambda>_. demo_tty)"
proof -
  have "obeys demo_driver" by (simp add: obeys_def demo_driver_def)
  then show ?thesis using tty_restored [of demo_driver 0 tty_raw demo_tty "\<lambda>_. demo_tty" 0] by auto
qed

theorem tty_raw_all_or_nothing_witness:
  "\<exists>S' W'. tty_raw (demo_driver\<lparr>drv := \<lambda>old new. if new = demo_tty then new else old\<rparr>) 0 (tty_start demo_tty, \<lambda>_. demo_tty) = ((S', W'), -1) \<and> W' 0 = demo_tty"
proof -
  let ?E = "demo_driver\<lparr>drv := \<lambda>old new. if new = demo_tty then new else old\<rparr>"
  obtain S' W' r where e: "tty_raw ?E 0 (tty_start demo_tty, \<lambda>_. demo_tty) = ((S', W'), r)"
    by (cases "tty_raw ?E 0 (tty_start demo_tty, \<lambda>_. demo_tty)") auto
  have "raw_bad demo_tty" by (simp add: raw_bad_def demo_tty_def)
  then have "r \<noteq> 0" using e by (auto simp: tty_raw_def tty_start_def demo_driver_def Let_def tcsetattr_def split: if_splits)
  then show ?thesis using tty_raw_all_or_nothing [OF e] e by (simp add: demo_driver_def)
qed

end
