(* ===== verification/File_Walk.thy ===== *)
theory File_Walk
  imports Prelude
begin

text \<open>
  The walk through a file hierarchy of \<^verbatim>\<open>apue/filedir/ftw8.c\<close>. The path is in one buffer of \<open>pathlen\<close> bytes that grows on the
  way down and is cut back on the way up; a write outside it is the error \<open>Undefined\<close>. \<^verbatim>\<open>lstat\<close> and \<^verbatim>\<open>opendir\<close> with
  \<^verbatim>\<open>readdir\<close> are parameters. The depth of the recursion is bounded by fuel; a hierarchy of less depth is walked
  completely.
\<close>

section \<open>The program\<close>

datatype ftw_err = Undefined string | Fatal string | Dump string

datatype fmode = S_IFREG | S_IFBLK | S_IFCHR | S_IFIFO | S_IFLNK | S_IFSOCK | S_IFDIR
datatype ftw_type = FTW_F | FTW_D | FTW_DNR | FTW_NS

definition NAME_MAX :: nat where "NAME_MAX = 255"

text \<open>\<^verbatim>\<open>f_mem\<close>: whether \<^verbatim>\<open>realloc\<close> has memory for that many bytes. The names of a directory come with the two dots.\<close>

record fs =
  f_lstat :: "string \<Rightarrow> fmode option"
  f_names :: "string \<Rightarrow> string list option"
  f_mem :: "nat \<Rightarrow> bool"

type_synonym 's visitor = "string \<Rightarrow> fmode option \<Rightarrow> ftw_type \<Rightarrow> 's \<Rightarrow> ftw_err + 's \<times> int"

text \<open>The state: what the caller's function keeps, the path, the size of its buffer.\<close>

type_synonym 's wst = "'s \<times> string \<times> nat"

definition call_func :: "'s visitor \<Rightarrow> fmode option \<Rightarrow> ftw_type \<Rightarrow> 's wst \<Rightarrow> ftw_err + 's wst \<times> int" where
  "call_func func md ty S = (case S of (s, fullpath, pathlen) \<Rightarrow>
     bindR (func fullpath md ty s) (\<lambda>(s, ret). Inr ((s, fullpath, pathlen), ret)))"

text \<open>Making room for a name and appending the slash.\<close>

definition push_slash :: "fs \<Rightarrow> 's wst \<Rightarrow> ftw_err + 's wst" where
  "push_slash E S = (case S of (s, fullpath, pathlen) \<Rightarrow>
     let n = length fullpath in
     bindR (if n + NAME_MAX + 2 > pathlen then (if f_mem E (pathlen * 2) then Inr (pathlen * 2) else Inl (Fatal ''realloc failed'')) else Inr pathlen)
       (\<lambda>pathlen. if n + 1 < pathlen then Inr (s, fullpath @ ''/'', pathlen) else Inl (Undefined ''fullpath'')))"

function dopath :: "nat \<Rightarrow> fs \<Rightarrow> 's visitor \<Rightarrow> 's wst \<Rightarrow> (ftw_err + 's wst \<times> int) option"
  and dir_loop :: "nat \<Rightarrow> fs \<Rightarrow> 's visitor \<Rightarrow> nat \<Rightarrow> string list \<Rightarrow> 's wst \<Rightarrow> int \<Rightarrow> (ftw_err + 's wst \<times> int) option" where
  "dopath 0 E func S = None"
| "dopath (Suc k) E func S =
    (case f_lstat E (fst (snd S)) of
       None \<Rightarrow> Some (call_func func None FTW_NS S)
     | Some md \<Rightarrow>
         if md \<noteq> S_IFDIR then Some (call_func func (Some md) FTW_F S)
         else (case call_func func (Some md) FTW_D S of
             Inl e \<Rightarrow> Some (Inl e)
           | Inr (S, ret) \<Rightarrow>
               if ret \<noteq> 0 then Some (Inr (S, ret))
               else (case push_slash E S of
                   Inl e \<Rightarrow> Some (Inl e)
                 | Inr S \<Rightarrow>
                     (case f_names E (fst (snd S)) of
                        None \<Rightarrow> Some (call_func func (Some md) FTW_DNR S)
                      | Some names \<Rightarrow>
                          map_option (\<lambda>r. bindR r (\<lambda>((s, fullpath, pathlen), ret). Inr ((s, take (length (fst (snd S)) - 1) fullpath, pathlen), ret)))
                            (dir_loop k E func (length (fst (snd S))) names S ret)))))"
| "dir_loop k E func n [] S ret = Some (Inr (S, ret))"
| "dir_loop k E func n (d # ds) S ret =
    (if d = ''.'' \<or> d = ''..'' then dir_loop k E func n ds S ret
     else case S of (s, fullpath, pathlen) \<Rightarrow>
       if n + length d + 1 > pathlen then Some (Inl (Undefined ''fullpath''))
       else (case dopath k E func (s, take n fullpath @ d, pathlen) of
           None \<Rightarrow> None
         | Some (Inl e) \<Rightarrow> Some (Inl e)
         | Some (Inr (S, ret)) \<Rightarrow> if ret \<noteq> 0 then Some (Inr (S, ret)) else dir_loop k E func n ds S ret))"
  by pat_completeness auto
termination
  by (relation "inv_image (less_than <*lex*> less_than)
      (case_sum (\<lambda>(k, _). (k, 0)) (\<lambda>(k, _, _, _, ds, _). (k, Suc (length ds))))") auto

declare dopath.simps [simp del] dir_loop.simps [simp del]

text \<open>
  \<^verbatim>\<open>path_alloc\<close> (\<^verbatim>\<open>lib/pathalloc.c\<close>) where \<^verbatim>\<open>PATH_MAX\<close> is defined: \<open>posix\<close> and \<open>xsi\<close> are the versions that \<^verbatim>\<open>sysconf\<close> reports. \<^verbatim>\<open>myftw\<close>
  enlarges the buffer for a long path.
\<close>

definition PATH_MAX :: nat where "PATH_MAX = 4096"

definition path_alloc :: "int \<Rightarrow> int \<Rightarrow> fs \<Rightarrow> ftw_err + nat" where
  "path_alloc posix xsi E =
    (let sz = (if posix < 200112 \<and> xsi < 4 then PATH_MAX + 1 else PATH_MAX) in
     if \<not> f_mem E sz then Inl (Fatal ''malloc error for pathname'') else Inr sz)"

definition myftw :: "nat \<Rightarrow> int \<Rightarrow> int \<Rightarrow> fs \<Rightarrow> 's visitor \<Rightarrow> string \<Rightarrow> 's \<Rightarrow> (ftw_err + 's wst \<times> int) option" where
  "myftw k posix xsi E func pathname s =
    (case bindR (path_alloc posix xsi E) (\<lambda>pathlen.
        if pathlen \<le> length pathname then
          (if f_mem E (length pathname * 2) then Inr (length pathname * 2) else Inl (Fatal ''realloc failed''))
        else Inr pathlen) of
       Inl e \<Rightarrow> Some (Inl e)
     | Inr pathlen \<Rightarrow> dopath k E func (s, pathname, pathlen))"

record counts =
  nreg :: nat
  ndir :: nat
  nblk :: nat
  nchr :: nat
  nfifo :: nat
  nslink :: nat
  nsock :: nat

definition myfunc :: "counts visitor" where
  "myfunc pathname md ty c =
    (case ty of
       FTW_F \<Rightarrow>
         (case md of
            Some S_IFREG \<Rightarrow> Inr (c\<lparr>nreg := nreg c + 1\<rparr>, 0)
          | Some S_IFBLK \<Rightarrow> Inr (c\<lparr>nblk := nblk c + 1\<rparr>, 0)
          | Some S_IFCHR \<Rightarrow> Inr (c\<lparr>nchr := nchr c + 1\<rparr>, 0)
          | Some S_IFIFO \<Rightarrow> Inr (c\<lparr>nfifo := nfifo c + 1\<rparr>, 0)
          | Some S_IFLNK \<Rightarrow> Inr (c\<lparr>nslink := nslink c + 1\<rparr>, 0)
          | Some S_IFSOCK \<Rightarrow> Inr (c\<lparr>nsock := nsock c + 1\<rparr>, 0)
          | Some S_IFDIR \<Rightarrow> Inl (Dump ''for S_IFDIR'')
          | None \<Rightarrow> Inr (c, 0))
     | FTW_D \<Rightarrow> Inr (c\<lparr>ndir := ndir c + 1\<rparr>, 0)
     | FTW_DNR \<Rightarrow> Inr (c, 0)
     | FTW_NS \<Rightarrow> Inr (c, 0))"

definition ntot :: "counts \<Rightarrow> nat" where
  "ntot c = (let n = nreg c + ndir c + nblk c + nchr c + nfifo c + nslink c + nsock c in if n = 0 then 1 else n)"

definition ftw_main :: "nat \<Rightarrow> int \<Rightarrow> int \<Rightarrow> fs \<Rightarrow> string \<Rightarrow> (ftw_err + counts \<times> int) option" where
  "ftw_main k posix xsi E pathname = map_option (\<lambda>r. bindR r (\<lambda>((c, _), ret). Inr (c, ret)))
     (myftw k posix xsi E myfunc pathname \<lparr>nreg = 0, ndir = 0, nblk = 0, nchr = 0, nfifo = 0, nslink = 0, nsock = 0\<rparr>)"

section \<open>Hierarchies\<close>

text \<open>A file, one that cannot be examined, a directory that cannot be read, and one with its entries in order.\<close>

datatype tree = Leaf fmode | NoStat | Locked | Node "(string \<times> tree) list"

fun height :: "tree \<Rightarrow> nat" where
  "height (Node es) = Suc (foldr max (map (\<lambda>e. height (snd e)) es) 0)"
| "height _ = 1"

definition dots :: "string \<Rightarrow> bool" where "dots d \<longleftrightarrow> d = ''.'' \<or> d = ''..''"

text \<open>The file system has the hierarchy at the path.\<close>

fun mounted :: "fs \<Rightarrow> string \<Rightarrow> tree \<Rightarrow> bool" where
  "mounted E p (Leaf md) \<longleftrightarrow> md \<noteq> S_IFDIR \<and> f_lstat E p = Some md"
| "mounted E p NoStat \<longleftrightarrow> f_lstat E p = None"
| "mounted E p Locked \<longleftrightarrow> f_lstat E p = Some S_IFDIR \<and> f_names E (p @ ''/'') = None"
| "mounted E p (Node es) \<longleftrightarrow> f_lstat E p = Some S_IFDIR \<and>
     (\<exists>names. f_names E (p @ ''/'') = Some names \<and> filter (\<lambda>d. \<not> dots d) names = map fst es) \<and>
     (\<forall>e \<in> set es. length (fst e) \<le> NAME_MAX \<and> mounted E (p @ ''/'' @ fst e) (snd e))"

text \<open>The calls of the function, in order.\<close>

type_synonym visit = "string \<times> fmode option \<times> ftw_type"

fun visits :: "string \<Rightarrow> tree \<Rightarrow> visit list" where
  "visits p (Leaf md) = [(p, Some md, FTW_F)]"
| "visits p NoStat = [(p, None, FTW_NS)]"
| "visits p Locked = [(p, Some S_IFDIR, FTW_D), (p @ ''/'', Some S_IFDIR, FTW_DNR)]"
| "visits p (Node es) = (p, Some S_IFDIR, FTW_D) # concat (map (\<lambda>e. visits (p @ ''/'' @ fst e) (snd e)) es)"

text \<open>Calling the function on them until it returns something else than 0.\<close>

fun walk :: "'s visitor \<Rightarrow> visit list \<Rightarrow> 's \<Rightarrow> ftw_err + 's \<times> int" where
  "walk func [] s = Inr (s, 0)"
| "walk func ((p, md, ty) # vs) s = bindR (func p md ty s) (\<lambda>(s, ret). if ret \<noteq> 0 then Inr (s, ret) else walk func vs s)"

lemma walk_visits_append: "walk func (vs @ ws) s = bindR (walk func vs s) (\<lambda>(s, ret). if ret \<noteq> 0 then Inr (s, ret) else walk func ws s)"
  by (induction vs arbitrary: s) (auto simp: bindR_assoc bindR_def split: sum.splits)

section \<open>The walk\<close>

text \<open>A call returns what \<open>walk\<close> gives, with the path before it still in front of the buffer, and a buffer not smaller.\<close>

definition walked :: "'s visitor \<Rightarrow> visit list \<Rightarrow> 's \<Rightarrow> string \<Rightarrow> nat \<Rightarrow> (ftw_err + 's wst \<times> int) option \<Rightarrow> bool" where
  "walked func vs s p pl r \<longleftrightarrow> (\<exists>fp' pl'. r = Some (bindR (walk func vs s) (\<lambda>(s', ret). Inr ((s', fp', pl'), ret))) \<and>
     take (length p) fp' = p \<and> pl \<le> pl')"

lemma walkedI: "r = Some (bindR (walk func vs s) (\<lambda>(s', ret). Inr ((s', fp', pl'), ret))) \<Longrightarrow> take (length p) fp' = p \<Longrightarrow> pl \<le> pl' \<Longrightarrow> walked func vs s p pl r"
  unfolding walked_def by blast

lemma walked_seq:
  assumes "take (length q) fp' = q" "pl \<le> pl'" "\<And>s'. walked func ws s' q pl' (c (s', fp', pl'))"
  shows "walked func (vs @ ws) s q pl (case bindR (walk func vs s) (\<lambda>(s', ret). Inr ((s', fp', pl'), ret)) of
    Inl e \<Rightarrow> Some (Inl e) | Inr (S, ret) \<Rightarrow> if ret \<noteq> 0 then Some (Inr (S, ret)) else c S)"
proof (cases "walk func vs s")
  case (Inr sr)
  obtain s' ret where sr: "sr = (s', ret)" by (cases sr)
  obtain fp2 pl2 where "c (s', fp', pl') = Some (bindR (walk func ws s') (\<lambda>(s', ret). Inr ((s', fp2, pl2), ret)))" "take (length q) fp2 = q" "pl' \<le> pl2"
    using assms(3) unfolding walked_def by blast
  then show ?thesis using assms(1,2) Inr sr
    by (intro walkedI [of _ _ _ _ "if ret = 0 then fp2 else fp'" "if ret = 0 then pl2 else pl'"]) (auto simp: walk_visits_append)
qed (use assms(1,2) in \<open>auto simp: walked_def walk_visits_append\<close>)

lemma dir_loop_ok:
  assumes "\<And>e s pl. e \<in> set es \<Longrightarrow> length (q @ fst e) < pl \<Longrightarrow> NAME_MAX < pl \<Longrightarrow>
      walked func (visits (q @ fst e) (snd e)) s (q @ fst e) pl (dopath k E func (s, q @ fst e, pl))"
    and "filter (\<lambda>d. \<not> dots d) names = map fst es" "\<forall>e \<in> set es. length (fst e) \<le> NAME_MAX"
    and "take (length q) fp = q" "length q + NAME_MAX + 1 \<le> pl"
  shows "walked func (concat (map (\<lambda>e. visits (q @ fst e) (snd e)) es)) s q pl (dir_loop k E func (length q) names (s, fp, pl) 0)"
  using assms
proof (induction names arbitrary: es s fp pl)
  case Nil
  then show ?case by (intro walkedI [of _ _ _ _ fp pl]) (simp_all add: dir_loop.simps)
next
  case (Cons d ds)
  show ?case
  proof (cases "dots d")
    case True
    then have "dir_loop k E func (length q) (d # ds) (s, fp, pl) 0 = dir_loop k E func (length q) ds (s, fp, pl) 0"
      by (simp add: dir_loop.simps dots_def)
    then show ?thesis using Cons.IH [OF Cons.prems(1)] Cons.prems True by simp
  next
    case False
    then obtain e es' where es: "es = e # es'" "fst e = d" "filter (\<lambda>d. \<not> dots d) ds = map fst es'" using Cons.prems(2) by (cases es) auto
    let ?v = "visits (q @ d) (snd e)"
    have b: "length q + length d + 1 \<le> pl" "NAME_MAX < pl" using Cons.prems(3,5) es by auto
    then obtain fp' pl' where r: "dopath k E func (s, q @ d, pl) = Some (bindR (walk func ?v s) (\<lambda>(s', ret). Inr ((s', fp', pl'), ret)))"
        "take (length (q @ d)) fp' = q @ d" "pl \<le> pl'"
      using Cons.prems(1) [of e pl s] es unfolding walked_def by auto
    have q: "take (length q) fp' = q" using r(2) by (metis append_eq_conv_conj length_append take_add take_take min.absorb1 le_add1)
    have "walked func (concat (map (\<lambda>e. visits (q @ fst e) (snd e)) es')) s' q pl' (dir_loop k E func (length q) ds (s', fp', pl') 0)" for s'
      using Cons.IH [of es' fp' pl' s'] Cons.prems r(3) es q by simp
    note walked_seq [OF q r(3), where c = "\<lambda>S. dir_loop k E func (length q) ds S 0", OF this, of ?v s]
    moreover have "dir_loop k E func (length q) (d # ds) (s, fp, pl) 0 =
        (case bindR (walk func ?v s) (\<lambda>(s', ret). Inr ((s', fp', pl'), ret)) of
           Inl e \<Rightarrow> Some (Inl e) | Inr (S, ret) \<Rightarrow> if ret \<noteq> 0 then Some (Inr (S, ret)) else dir_loop k E func (length q) ds S 0)"
      using r(1) b False Cons.prems(4) by (auto simp: dir_loop.simps dots_def split: sum.splits)
    ultimately show ?thesis using es by simp
  qed
qed

lemma push_slash_ok:
  assumes "length p < pl" "NAME_MAX < pl" "\<And>n. f_mem E n"
  shows "\<exists>pl'. (\<forall>s. push_slash E (s, p, pl) = Inr (s, p @ ''/'', pl')) \<and> pl \<le> pl' \<and> length (p @ ''/'') + NAME_MAX + 1 \<le> pl'"
  using assms by (auto simp: push_slash_def Let_def NAME_MAX_def)

lemma call_func_walked:
  "fst (snd S) = p \<Longrightarrow> snd (snd S) = pl \<Longrightarrow> call_func func md ty S = bindR (walk func [(p, md, ty)] (fst S)) (\<lambda>(s', ret). Inr ((s', p, pl), ret))"
  by (auto simp: call_func_def bindR_def split: sum.splits prod.splits)

lemma walked_call: "walked func [(p, md, ty)] s p pl (Some (call_func func md ty (s, p, pl)))"
  by (rule walkedI [of _ _ _ _ p pl]) (simp_all add: call_func_walked)

lemma take_front: "take (length (p @ x)) fp = p @ x \<Longrightarrow> take (length p) fp = p"
  by (metis append_eq_conv_conj append_take_drop_id append.assoc)

lemma walked_longer:
  assumes "walked func vs s (p @ x) pl' r" "pl \<le> pl'"
  shows "walked func vs s p pl r"
proof -
  obtain fp' pl2 where r: "r = Some (bindR (walk func vs s) (\<lambda>(s', ret). Inr ((s', fp', pl2), ret)))" "take (length (p @ x)) fp' = p @ x" "pl' \<le> pl2"
    using assms(1) unfolding walked_def by blast
  show ?thesis using walkedI [OF r(1) take_front [OF r(2)]] r(3) assms(2) by simp
qed

text \<open>Erasing from the slash on.\<close>

lemma walked_cut:
  assumes "walked func vs s (p @ ''/'') pl r"
  shows "walked func vs s p pl (map_option (\<lambda>r. bindR r (\<lambda>((s, fullpath, pathlen), ret). Inr ((s, take (length p) fullpath, pathlen), ret))) r)"
proof -
  obtain fp' pl' where r: "r = Some (bindR (walk func vs s) (\<lambda>(s', ret). Inr ((s', fp', pl'), ret)))" "take (length (p @ ''/'')) fp' = p @ ''/''" "pl \<le> pl'"
    using assms unfolding walked_def by blast
  then show ?thesis using take_front [OF r(2)] by (intro walkedI [of _ _ _ _ p pl']) (auto simp: bindR_def split: sum.splits)
qed

text \<open>A directory: its own call first, then its entries.\<close>

lemma dopath_dir:
  fixes func :: "'s visitor"
  assumes "f_lstat E p = Some S_IFDIR" "length p < pl" "NAME_MAX < pl" "\<And>n. f_mem E n"
    and "\<And>s pl'. pl \<le> pl' \<Longrightarrow> length (p @ ''/'') + NAME_MAX + 1 \<le> pl' \<Longrightarrow> walked func vs s p pl'
      (case f_names E (p @ ''/'') of
         None \<Rightarrow> Some (call_func func (Some S_IFDIR) FTW_DNR (s, p @ ''/'', pl'))
       | Some names \<Rightarrow> map_option (\<lambda>r. bindR r (\<lambda>((s, fullpath, pathlen), ret). Inr ((s, take (length p) fullpath, pathlen), ret)))
           (dir_loop k E func (length (p @ ''/'')) names (s, p @ ''/'', pl') 0))"
  shows "walked func ((p, Some S_IFDIR, FTW_D) # vs) s p pl (dopath (Suc k) E func (s, p, pl))"
proof -
  obtain pl' where pl: "\<And>s :: 's. push_slash E (s, p, pl) = Inr (s, p @ ''/'', pl')" "pl \<le> pl'" "length (p @ ''/'') + NAME_MAX + 1 \<le> pl'"
    using push_slash_ok [OF assms(2-4)] by blast
  define c where "c S = (case push_slash E S of Inl e \<Rightarrow> Some (Inl e)
      | Inr S \<Rightarrow> (case f_names E (fst (snd S)) of None \<Rightarrow> Some (call_func func (Some S_IFDIR) FTW_DNR S)
        | Some names \<Rightarrow> map_option (\<lambda>r. bindR r (\<lambda>((s, fullpath, pathlen), ret). Inr ((s, take (length (fst (snd S)) - 1) fullpath, pathlen), ret)))
            (dir_loop k E func (length (fst (snd S))) names S 0)))" for S :: "'s wst"
  have c: "c (s', p, pl) = (case f_names E (p @ ''/'') of
         None \<Rightarrow> Some (call_func func (Some S_IFDIR) FTW_DNR (s', p @ ''/'', pl'))
       | Some names \<Rightarrow> map_option (\<lambda>r. bindR r (\<lambda>((s, fullpath, pathlen), ret). Inr ((s, take (length p) fullpath, pathlen), ret)))
           (dir_loop k E func (length (p @ ''/'')) names (s', p @ ''/'', pl') 0))" for s'
    by (simp add: c_def pl(1) split: option.split)
  have "walked func vs s' p pl (c (s', p, pl))" for s'
    unfolding c by (rule walked_longer [where x = "[]", OF _ pl(2)]) (use assms(5) [OF pl(2,3), of s'] in simp)
  note walked_seq [of p p pl pl func vs c "[(p, Some S_IFDIR, FTW_D)]" s, OF _ _ this, simplified]
  moreover have "dopath (Suc k) E func (s, p, pl) = (case bindR (walk func [(p, Some S_IFDIR, FTW_D)] s) (\<lambda>(s', ret). Inr ((s', p, pl), ret)) of
      Inl e \<Rightarrow> Some (Inl e) | Inr (S, ret) \<Rightarrow> if ret \<noteq> 0 then Some (Inr (S, ret)) else c S)"
    using assms(1) call_func_walked [of "(s, p, pl)" p pl func "Some S_IFDIR" FTW_D]
    by (auto simp: dopath.simps c_def split: sum.splits)
  ultimately show ?thesis by simp
qed

lemma height_entry: "e \<in> set es \<Longrightarrow> height (snd e) \<le> foldr max (map (\<lambda>e. height (snd e)) es) 0"
  by (induction es) auto

lemma dopath_ok:
  assumes "mounted E p t" "height t \<le> k" "length p < pl" "NAME_MAX < pl" "\<And>n. f_mem E n"
  shows "walked func (visits p t) s p pl (dopath k E func (s, p, pl))"
  using assms
proof (induction p t arbitrary: k s pl rule: visits.induct)
  case (1 p md)
  then show ?case by (cases k) (simp_all add: dopath.simps walked_call)
next
  case (2 p)
  then show ?case by (cases k) (simp_all add: dopath.simps walked_call)
next
  case (3 p)
  then obtain k' where k: "k = Suc k'" by (cases k) auto
  have "walked func [(p @ ''/'', Some S_IFDIR, FTW_DNR)] s' p pl' (Some (call_func func (Some S_IFDIR) FTW_DNR (s', p @ ''/'', pl')))" for s' pl'
    by (rule walked_longer [OF walked_call]) simp
  moreover have "f_lstat E p = Some S_IFDIR" "f_names E (p @ ''/'') = None" using 3(1) by simp_all
  ultimately have "walked func ((p, Some S_IFDIR, FTW_D) # [(p @ ''/'', Some S_IFDIR, FTW_DNR)]) s p pl (dopath (Suc k') E func (s, p, pl))"
    by (intro dopath_dir 3(3-5)) simp_all
  then show ?case using k by simp
next
  case (4 p es)
  then obtain k' where k: "k = Suc k'" by (cases k) auto
  obtain names where names: "f_names E (p @ ''/'') = Some names" "filter (\<lambda>d. \<not> dots d) names = map fst es" using "4.prems"(1) by auto
  have "walked func (visits ((p @ ''/'') @ fst e) (snd e)) s ((p @ ''/'') @ fst e) pl (dopath k' E func (s, (p @ ''/'') @ fst e, pl))"
    if "e \<in> set es" "length ((p @ ''/'') @ fst e) < pl" "NAME_MAX < pl" for e s pl
    using "4.IH" [of e k' pl s] that "4.prems" k height_entry [OF that(1)] by auto
  then have "walked func (concat (map (\<lambda>e. visits ((p @ ''/'') @ fst e) (snd e)) es)) s (p @ ''/'') pl' (dir_loop k' E func (length (p @ ''/'')) names (s, p @ ''/'', pl') 0)"
    if "length (p @ ''/'') + NAME_MAX + 1 \<le> pl'" for s pl'
    using that names(2) "4.prems"(1) by (intro dir_loop_ok) auto
  then have "walked func ((p, Some S_IFDIR, FTW_D) # concat (map (\<lambda>e. visits ((p @ ''/'') @ fst e) (snd e)) es)) s p pl (dopath (Suc k') E func (s, p, pl))"
    using "4.prems"(1) names(1) by (intro dopath_dir "4.prems"(3-5)) (simp_all add: walked_cut)
  then show ?case using k by simp
qed

section \<open>Properties\<close>

lemma path_alloc_ok: "(\<And>n. f_mem E n) \<Longrightarrow> \<exists>pl. path_alloc posix xsi E = Inr pl \<and> PATH_MAX \<le> pl"
  by (auto simp: path_alloc_def Let_def)

lemma myftw_ok:
  assumes "mounted E p t" "height t \<le> k" "\<And>n. f_mem E n"
  shows "\<exists>fp pl. myftw k posix xsi E func p s = Some (bindR (walk func (visits p t) s) (\<lambda>(s', ret). Inr ((s', fp, pl), ret)))"
proof -
  obtain pl0 where pl0: "path_alloc posix xsi E = Inr pl0" "PATH_MAX \<le> pl0" using path_alloc_ok [of E] assms(3) by blast
  define pl where "pl = (if pl0 \<le> length p then length p * 2 else pl0)"
  have "myftw k posix xsi E func p s = dopath k E func (s, p, pl)" "length p < pl" "NAME_MAX < pl"
    using pl0 assms(3) by (auto simp: myftw_def pl_def PATH_MAX_def NAME_MAX_def)
  then show ?thesis using dopath_ok [OF assms(1,2), of pl func s] assms(3) unfolding walked_def by auto
qed

text \<open>The kinds of the files of a hierarchy that can be examined.\<close>

fun kinds :: "tree \<Rightarrow> fmode list" where
  "kinds (Leaf md) = [md]"
| "kinds NoStat = []"
| "kinds Locked = [S_IFDIR]"
| "kinds (Node es) = S_IFDIR # concat (map (\<lambda>e. kinds (snd e)) es)"

definition add_kinds :: "fmode list \<Rightarrow> counts \<Rightarrow> counts" where
  "add_kinds ks c = \<lparr>nreg = nreg c + count_list ks S_IFREG, ndir = ndir c + count_list ks S_IFDIR, nblk = nblk c + count_list ks S_IFBLK,
     nchr = nchr c + count_list ks S_IFCHR, nfifo = nfifo c + count_list ks S_IFIFO, nslink = nslink c + count_list ks S_IFLNK,
     nsock = nsock c + count_list ks S_IFSOCK\<rparr>"

lemma add_kinds_append: "add_kinds ks (add_kinds ls c) = add_kinds (ls @ ks) c"
  by (simp add: add_kinds_def)

lemma walk_entries:
  assumes "\<And>e c. e \<in> set es \<Longrightarrow> walk myfunc (visits (p @ ''/'' @ fst e) (snd e)) c = Inr (add_kinds (kinds (snd e)) c, 0)"
  shows "walk myfunc (concat (map (\<lambda>e. visits (p @ ''/'' @ fst e) (snd e)) es)) c = Inr (add_kinds (concat (map (\<lambda>e. kinds (snd e)) es)) c, 0)"
  using assms
proof (induction es arbitrary: c)
  case Nil
  then show ?case by (simp add: add_kinds_def)
next
  case (Cons e es)
  then show ?case by (simp add: walk_visits_append add_kinds_append)
qed

lemma walk_counts: "mounted E p t \<Longrightarrow> walk myfunc (visits p t) c = Inr (add_kinds (kinds t) c, 0)"
proof (induction p t arbitrary: c rule: visits.induct)
  case (1 p md)
  then show ?case by (cases md) (simp_all add: myfunc_def add_kinds_def)
next
  case (4 p es)
  then have "walk myfunc (visits (p @ ''/'' @ fst e) (snd e)) c = Inr (add_kinds (kinds (snd e)) c, 0)" if "e \<in> set es" for e c using that by auto
  then have "walk myfunc (concat (map (\<lambda>e. visits (p @ ''/'' @ fst e) (snd e)) es)) c' = Inr (add_kinds (concat (map (\<lambda>e. kinds (snd e)) es)) c', 0)" for c'
    by (rule walk_entries)
  moreover have "myfunc p (Some S_IFDIR) FTW_D c = Inr (c\<lparr>ndir := ndir c + 1\<rparr>, 0)" by (simp add: myfunc_def)
  ultimately show ?case by (simp add: add_kinds_def)
qed (simp_all add: myfunc_def add_kinds_def)

text \<open>
  The program counts right: it ends with 0, and each counter is the number of files of its kind in the hierarchy.
\<close>

theorem ftw_main_counts:
  assumes "mounted E p t" "height t \<le> k" "\<And>n. f_mem E n"
  shows "ftw_main k posix xsi E p = Some (Inr
    (\<lparr>nreg = count_list (kinds t) S_IFREG, ndir = count_list (kinds t) S_IFDIR, nblk = count_list (kinds t) S_IFBLK,
      nchr = count_list (kinds t) S_IFCHR, nfifo = count_list (kinds t) S_IFIFO, nslink = count_list (kinds t) S_IFLNK,
      nsock = count_list (kinds t) S_IFSOCK\<rparr>, 0))"
proof -
  let ?c = "\<lparr>nreg = 0, ndir = 0, nblk = 0, nchr = 0, nfifo = 0, nslink = 0, nsock = 0\<rparr>"
  obtain fp pl where "myftw k posix xsi E myfunc p ?c = Some (bindR (walk myfunc (visits p t) ?c) (\<lambda>(s', ret). Inr ((s', fp, pl), ret)))"
    using myftw_ok [OF assms, of posix xsi myfunc ?c] by blast
  then show ?thesis by (simp add: ftw_main_def walk_counts [OF assms(1)] add_kinds_def)
qed

definition demo_fs :: fs where
  "demo_fs = \<lparr>f_lstat = (\<lambda>p. if p = ''d'' \<or> p = ''d/e'' then Some S_IFDIR else if p = ''d/f'' then Some S_IFREG else None),
     f_names = (\<lambda>p. if p = ''d/'' then Some [''.'', ''f'', ''..'', ''e''] else None), f_mem = (\<lambda>_. True)\<rparr>"

theorem ftw_main_counts_witness:
  "ftw_main 2 200809 700 demo_fs ''d'' = Some (Inr (\<lparr>nreg = 1, ndir = 2, nblk = 0, nchr = 0, nfifo = 0, nslink = 0, nsock = 0\<rparr>, 0))"
proof -
  have "mounted demo_fs ''d'' (Node [(''f'', Leaf S_IFREG), (''e'', Locked)])" by (simp add: demo_fs_def dots_def NAME_MAX_def)
  then show ?thesis using ftw_main_counts [of demo_fs "''d''" "Node [(''f'', Leaf S_IFREG), (''e'', Locked)]" 2 200809 700]
    by (simp add: demo_fs_def)
qed

text \<open>
  C29: what the walk visits. For any hierarchy of files, of names of at most \<^verbatim>\<open>NAME_MAX\<close> characters, and a starting
  path of any length, the caller's function is called once, with its full path and kind, for every file
  and every directory, a directory before its entries and the entries in the order of the directory; and
  once more for a directory that cannot be opened, as \<^verbatim>\<open>FTW_DNR\<close> and with a slash behind its path. This goes on
  until the function returns something else than 0, which is then returned. The path never outgrows its
  buffer, however deep the hierarchy. Recursion as deep as the hierarchy suffices.
\<close>

theorem myftw_visits:
  assumes "mounted E p t" "height t \<le> k" "\<And>n. f_mem E n"
  shows "\<exists>fp pl. myftw k posix xsi E func p s = Some (bindR (walk func (visits p t) s) (\<lambda>(s', ret). Inr ((s', fp, pl), ret)))"
  by (rule myftw_ok [OF assms])

theorem myftw_visits_witness:
  "\<exists>fp pl. myftw 2 200809 700 demo_fs (\<lambda>p md ty s. Inr (s @ [p], if p = ''d/f'' then 7 else 0)) ''d'' [] = Some (Inr (([''d'', ''d/f''], fp, pl), 7))"
proof -
  have "mounted demo_fs ''d'' (Node [(''f'', Leaf S_IFREG), (''e'', Locked)])" by (simp add: demo_fs_def dots_def NAME_MAX_def)
  then show ?thesis using myftw_visits [of demo_fs "''d''" "Node [(''f'', Leaf S_IFREG), (''e'', Locked)]" 2 200809 700 "\<lambda>p md ty s. Inr (s @ [p], if p = ''d/f'' then 7 else 0)" "[]"]
    by (simp add: demo_fs_def)
qed

end
