(* ===== verification/Rb_Cxx.thy ===== *)
theory Rb_Cxx
  imports RbTree
begin

text \<open>
  The C++ class template \<^verbatim>\<open>RBTree\<close> of \<^verbatim>\<open>DSAlgo/RedBlackTree/RBTree.h\<close>, at keys of type \<^verbatim>\<open>int\<close>. Its leaves are
  null pointers. The heap is the record of the C tree; \<open>live\<close> is the set of nodes that \<^verbatim>\<open>new\<close> has returned
  and \<^verbatim>\<open>delete\<close> has not taken back. Every access to a member goes through \<open>ld\<close> or \<open>st\<close>, which fail on an
  address that is not live, the null pointer among them: \<open>None\<close> is an access to memory that is not a
  node, or a loop that does not end. The parameter \<^verbatim>\<open>root\<close> of the private functions is always \<^verbatim>\<open>mRoot\<close>.
\<close>

definition ld :: "(rbtree \<Rightarrow> addr \<Rightarrow> 'a) \<Rightarrow> rbtree \<Rightarrow> addr \<Rightarrow> 'a option" where
  "ld f T a = (if a \<in> live T then Some (f T a) else None)"

definition st :: "(addr \<Rightarrow> 'a \<Rightarrow> rbtree \<Rightarrow> rbtree) \<Rightarrow> addr \<Rightarrow> 'a \<Rightarrow> rbtree \<Rightarrow> rbtree option" where
  "st f a v T = (if a \<in> live T then Some (f a v T) else None)"

text \<open>The constructor. The entries of the record at the null pointer are not memory; they get fixed values.\<close>

definition RBTree_new :: "rbtree \<Rightarrow> rbtree" where
  "RBTree_new T = T\<lparr>root := NULL, nil := NULL, color := (color T)(NULL := BLACK)\<rparr>"

section \<open>Traversal\<close>

partial_function (option) preOrder :: "rbtree \<Rightarrow> addr \<Rightarrow> int list option" where
  "preOrder T tree = (if tree \<noteq> NULL then do {
     k \<leftarrow> ld key T tree;
     l \<leftarrow> ld left T tree;
     xs \<leftarrow> preOrder T l;
     r \<leftarrow> ld right T tree;
     ys \<leftarrow> preOrder T r;
     Some (k # xs @ ys) } else Some [])"

partial_function (option) inOrder :: "rbtree \<Rightarrow> addr \<Rightarrow> int list option" where
  "inOrder T tree = (if tree \<noteq> NULL then do {
     l \<leftarrow> ld left T tree;
     xs \<leftarrow> inOrder T l;
     k \<leftarrow> ld key T tree;
     r \<leftarrow> ld right T tree;
     ys \<leftarrow> inOrder T r;
     Some (xs @ k # ys) } else Some [])"

partial_function (option) postOrder :: "rbtree \<Rightarrow> addr \<Rightarrow> int list option" where
  "postOrder T tree = (if tree \<noteq> NULL then do {
     l \<leftarrow> ld left T tree;
     xs \<leftarrow> postOrder T l;
     r \<leftarrow> ld right T tree;
     ys \<leftarrow> postOrder T r;
     k \<leftarrow> ld key T tree;
     Some (xs @ ys @ [k]) } else Some [])"

section \<open>Searching\<close>

partial_function (option) search_node :: "rbtree \<Rightarrow> addr \<Rightarrow> int \<Rightarrow> addr option" where
  "search_node T x k = (if x = NULL then Some x else do {
     kx \<leftarrow> ld key T x;
     if kx = k then Some x
     else if k < kx then do {l \<leftarrow> ld left T x; search_node T l k}
     else do {r \<leftarrow> ld right T x; search_node T r k} })"

partial_function (option) iterativeSearch :: "rbtree \<Rightarrow> addr \<Rightarrow> int \<Rightarrow> addr option" where
  "iterativeSearch T x k = (if x \<noteq> NULL then do {
     kx \<leftarrow> ld key T x;
     if kx \<noteq> k then do {
       x \<leftarrow> (if k < kx then ld left T x else ld right T x);
       iterativeSearch T x k }
     else Some x } else Some x)"

partial_function (option) minimum_loop :: "rbtree \<Rightarrow> addr \<Rightarrow> addr option" where
  "minimum_loop T tree = do {l \<leftarrow> ld left T tree; if l \<noteq> NULL then minimum_loop T l else Some tree}"

definition minimum_node :: "rbtree \<Rightarrow> addr \<Rightarrow> addr option" where
  "minimum_node T tree = (if tree = NULL then Some NULL else minimum_loop T tree)"

definition minimum_key :: "rbtree \<Rightarrow> int option" where
  "minimum_key T = do {p \<leftarrow> minimum_node T (root T); if p \<noteq> NULL then ld key T p else Some 0}"

partial_function (option) maximum_loop :: "rbtree \<Rightarrow> addr \<Rightarrow> addr option" where
  "maximum_loop T tree = do {r \<leftarrow> ld right T tree; if r \<noteq> NULL then maximum_loop T r else Some tree}"

definition maximum_node :: "rbtree \<Rightarrow> addr \<Rightarrow> addr option" where
  "maximum_node T tree = (if tree = NULL then Some NULL else maximum_loop T tree)"

definition maximum_key :: "rbtree \<Rightarrow> int option" where
  "maximum_key T = do {p \<leftarrow> maximum_node T (root T); if p \<noteq> NULL then ld key T p else Some 0}"

partial_function (option) succ_climb :: "rbtree \<Rightarrow> addr \<Rightarrow> addr \<Rightarrow> addr option" where
  "succ_climb T x y = (if y \<noteq> NULL then do {
     r \<leftarrow> ld right T y;
     if x = r then do {p \<leftarrow> ld parent T y; succ_climb T y p} else Some y } else Some y)"

definition successor :: "rbtree \<Rightarrow> addr \<Rightarrow> addr option" where
  "successor T x = do {
     r \<leftarrow> ld right T x;
     if r \<noteq> NULL then minimum_node T r
     else do {y \<leftarrow> ld parent T x; succ_climb T x y} }"

partial_function (option) pred_climb :: "rbtree \<Rightarrow> addr \<Rightarrow> addr \<Rightarrow> addr option" where
  "pred_climb T x y = (if y \<noteq> NULL then do {
     l \<leftarrow> ld left T y;
     if x = l then do {p \<leftarrow> ld parent T y; pred_climb T y p} else Some y } else Some y)"

definition predecessor :: "rbtree \<Rightarrow> addr \<Rightarrow> addr option" where
  "predecessor T x = do {
     l \<leftarrow> ld left T x;
     if l \<noteq> NULL then maximum_node T l
     else do {y \<leftarrow> ld parent T x; pred_climb T x y} }"

section \<open>Rotations\<close>

definition leftRotate :: "rbtree \<Rightarrow> addr \<Rightarrow> rbtree option" where
  "leftRotate T x = do {
     y \<leftarrow> ld right T x;
     b \<leftarrow> ld left T y;
     T \<leftarrow> st set_right x b T;
     T \<leftarrow> (if b \<noteq> NULL then st set_parent b x T else Some T);
     p \<leftarrow> ld parent T x;
     T \<leftarrow> st set_parent y p T;
     T \<leftarrow> (if p = NULL then Some (T\<lparr>root := y\<rparr>) else do {
            l \<leftarrow> ld left T p;
            if l = x then st set_left p y T else st set_right p y T });
     T \<leftarrow> st set_left y x T;
     st set_parent x y T }"

definition rightRotate :: "rbtree \<Rightarrow> addr \<Rightarrow> rbtree option" where
  "rightRotate T y = do {
     x \<leftarrow> ld left T y;
     b \<leftarrow> ld right T x;
     T \<leftarrow> st set_left y b T;
     T \<leftarrow> (if b \<noteq> NULL then st set_parent b y T else Some T);
     p \<leftarrow> ld parent T y;
     T \<leftarrow> st set_parent x p T;
     T \<leftarrow> (if p = NULL then Some (T\<lparr>root := x\<rparr>) else do {
            r \<leftarrow> ld right T p;
            if y = r then st set_right p x T else st set_left p x T });
     T \<leftarrow> st set_right x y T;
     st set_parent y x T }"

section \<open>Insertion\<close>

text \<open>\<^verbatim>\<open>r && rb_is_red(r)\<close> and \<^verbatim>\<open>!r || rb_is_black(r)\<close>.\<close>

definition is_red :: "rbtree \<Rightarrow> addr \<Rightarrow> bool option" where
  "is_red T r = (if r \<noteq> NULL then do {c \<leftarrow> ld color T r; Some (c = RED)} else Some False)"

definition is_black :: "rbtree \<Rightarrow> addr \<Rightarrow> bool option" where
  "is_black T r = (if r = NULL then Some True else do {c \<leftarrow> ld color T r; Some (c = BLACK)})"

text \<open>One turn of the loop of \<^verbatim>\<open>insertFixUp\<close>, with \<^verbatim>\<open>parent\<close> already read.\<close>

definition insert_turn :: "rbtree \<Rightarrow> addr \<Rightarrow> addr \<Rightarrow> (rbtree \<times> addr) option" where
  "insert_turn T node par = do {
     gparent \<leftarrow> ld parent T par;
     gl \<leftarrow> ld left T gparent;
     if par = gl then do {
       uncle \<leftarrow> ld right T gparent;
       red \<leftarrow> is_red T uncle;
       if red then do {
         T \<leftarrow> st set_color uncle BLACK T;
         T \<leftarrow> st set_color par BLACK T;
         T \<leftarrow> st set_color gparent RED T;
         Some (T, gparent) }
       else do {
         pr \<leftarrow> ld right T par;
         (T, par, node) \<leftarrow> (if pr = node then do {T \<leftarrow> leftRotate T par; Some (T, node, par)}
                            else Some (T, par, node));
         T \<leftarrow> st set_color par BLACK T;
         T \<leftarrow> st set_color gparent RED T;
         T \<leftarrow> rightRotate T gparent;
         Some (T, node) } }
     else do {
       uncle \<leftarrow> ld left T gparent;
       red \<leftarrow> is_red T uncle;
       if red then do {
         T \<leftarrow> st set_color uncle BLACK T;
         T \<leftarrow> st set_color par BLACK T;
         T \<leftarrow> st set_color gparent RED T;
         Some (T, gparent) }
       else do {
         pl \<leftarrow> ld left T par;
         (T, par, node) \<leftarrow> (if pl = node then do {T \<leftarrow> rightRotate T par; Some (T, node, par)}
                            else Some (T, par, node));
         T \<leftarrow> st set_color par BLACK T;
         T \<leftarrow> st set_color gparent RED T;
         T \<leftarrow> leftRotate T gparent;
         Some (T, node) } } }"

partial_function (option) insertFixUp :: "rbtree \<Rightarrow> addr \<Rightarrow> rbtree option" where
  "insertFixUp T node = do {
     par \<leftarrow> ld parent T node;
     red \<leftarrow> is_red T par;
     if red then do {(T, node) \<leftarrow> insert_turn T node par; insertFixUp T node}
     else st set_color (root T) BLACK T }"

partial_function (option) cxx_descent :: "rbtree \<Rightarrow> addr \<Rightarrow> addr \<Rightarrow> addr \<Rightarrow> addr option" where
  "cxx_descent T node y x = (if x \<noteq> NULL then do {
     k \<leftarrow> ld key T node;
     kx \<leftarrow> ld key T x;
     x' \<leftarrow> (if k < kx then ld left T x else ld right T x);
     cxx_descent T node x x' } else Some y)"

definition insert_node :: "rbtree \<Rightarrow> addr \<Rightarrow> rbtree option" where
  "insert_node T node = do {
     y \<leftarrow> cxx_descent T node NULL (root T);
     T \<leftarrow> st set_parent node y T;
     T \<leftarrow> (if y \<noteq> NULL then do {
            k \<leftarrow> ld key T node;
            ky \<leftarrow> ld key T y;
            if k < ky then st set_left y node T else st set_right y node T }
          else Some (T\<lparr>root := node\<rparr>));
     T \<leftarrow> st set_color node RED T;
     insertFixUp T node }"

text \<open>The constructor of a node ignores its argument for the parent and sets it to null.\<close>

definition RBTNode_new :: "addr \<Rightarrow> int \<Rightarrow> color \<Rightarrow> addr \<Rightarrow> addr \<Rightarrow> rbtree \<Rightarrow> rbtree" where
  "RBTNode_new z k c l r T = T\<lparr>live := insert z (live T), key := (key T)(z := k), color := (color T)(z := c),
     parent := (parent T)(z := NULL), left := (left T)(z := l), right := (right T)(z := r)\<rparr>"

text \<open>\<open>z\<close> is what \<^verbatim>\<open>new\<close> returns.\<close>

definition insert_key :: "addr \<Rightarrow> rbtree \<Rightarrow> int \<Rightarrow> rbtree option" where
  "insert_key z T k = (if z = NULL then Some T else insert_node (RBTNode_new z k BLACK NULL NULL T) z)"

section \<open>Removal\<close>

text \<open>
  One turn of the loop of \<^verbatim>\<open>removeFixUp\<close>: the new heap, \<^verbatim>\<open>node\<close> and \<^verbatim>\<open>parent\<close>, and whether the turn ends with
  \<^verbatim>\<open>break\<close>. \<open>sib_left\<close> and \<open>sib_right\<close> are its second half, after the case of a red sibling.
\<close>

definition sib_left :: "rbtree \<Rightarrow> addr \<Rightarrow> addr \<Rightarrow> (rbtree \<times> addr \<times> addr \<times> bool) option" where
  "sib_left T par other = do {
     ol \<leftarrow> ld left T other;
     bl \<leftarrow> is_black T ol;
     or \<leftarrow> ld right T other;
     br \<leftarrow> is_black T or;
     if bl \<and> br then do {
       T \<leftarrow> st set_color other RED T;
       pp \<leftarrow> ld parent T par;
       Some (T, par, pp, False) }
     else do {
       (T, other) \<leftarrow> (if br then do {
            T \<leftarrow> st set_color ol BLACK T;
            T \<leftarrow> st set_color other RED T;
            T \<leftarrow> rightRotate T other;
            other \<leftarrow> ld right T par;
            Some (T, other) } else Some (T, other));
       c \<leftarrow> ld color T par;
       T \<leftarrow> st set_color other c T;
       T \<leftarrow> st set_color par BLACK T;
       or \<leftarrow> ld right T other;
       T \<leftarrow> st set_color or BLACK T;
       T \<leftarrow> leftRotate T par;
       Some (T, root T, par, True) } }"

definition sib_right :: "rbtree \<Rightarrow> addr \<Rightarrow> addr \<Rightarrow> (rbtree \<times> addr \<times> addr \<times> bool) option" where
  "sib_right T par other = do {
     ol \<leftarrow> ld left T other;
     bl \<leftarrow> is_black T ol;
     or \<leftarrow> ld right T other;
     br \<leftarrow> is_black T or;
     if bl \<and> br then do {
       T \<leftarrow> st set_color other RED T;
       pp \<leftarrow> ld parent T par;
       Some (T, par, pp, False) }
     else do {
       (T, other) \<leftarrow> (if bl then do {
            T \<leftarrow> st set_color or BLACK T;
            T \<leftarrow> st set_color other RED T;
            T \<leftarrow> leftRotate T other;
            other \<leftarrow> ld left T par;
            Some (T, other) } else Some (T, other));
       c \<leftarrow> ld color T par;
       T \<leftarrow> st set_color other c T;
       T \<leftarrow> st set_color par BLACK T;
       ol \<leftarrow> ld left T other;
       T \<leftarrow> st set_color ol BLACK T;
       T \<leftarrow> rightRotate T par;
       Some (T, root T, par, True) } }"

definition remove_turn :: "rbtree \<Rightarrow> addr \<Rightarrow> addr \<Rightarrow> (rbtree \<times> addr \<times> addr \<times> bool) option" where
  "remove_turn T node par = do {
     pl \<leftarrow> ld left T par;
     if pl = node then do {
       other \<leftarrow> ld right T par;
       c \<leftarrow> ld color T other;
       if c = RED then do {
         T \<leftarrow> st set_color other BLACK T;
         T \<leftarrow> st set_color par RED T;
         T \<leftarrow> leftRotate T par;
         other \<leftarrow> ld right T par;
         sib_left T par other }
       else sib_left T par other }
     else do {
       other \<leftarrow> ld left T par;
       c \<leftarrow> ld color T other;
       if c = RED then do {
         T \<leftarrow> st set_color other BLACK T;
         T \<leftarrow> st set_color par RED T;
         T \<leftarrow> rightRotate T par;
         other \<leftarrow> ld left T par;
         sib_right T par other }
       else sib_right T par other } }"

definition set_black :: "rbtree \<Rightarrow> addr \<Rightarrow> rbtree option" where
  "set_black T node = (if node \<noteq> NULL then st set_color node BLACK T else Some T)"

partial_function (option) removeFixUp :: "rbtree \<Rightarrow> addr \<Rightarrow> addr \<Rightarrow> rbtree option" where
  "removeFixUp T node par = do {
     b \<leftarrow> is_black T node;
     if b \<and> node \<noteq> root T then do {
       (T, node, par, brk) \<leftarrow> remove_turn T node par;
       if brk then set_black T node else removeFixUp T node par }
     else set_black T node }"

text \<open>Redirecting the pointer that leads to \<^verbatim>\<open>node\<close>: from its parent, or the root.\<close>

definition link_parent :: "rbtree \<Rightarrow> addr \<Rightarrow> addr \<Rightarrow> addr \<Rightarrow> rbtree option" where
  "link_parent T par node a = (if par \<noteq> NULL then do {
     l \<leftarrow> ld left T par;
     if l = node then st set_left par a T else st set_right par a T }
   else Some (T\<lparr>root := a\<rparr>))"

text \<open>
  The two halves of \<^verbatim>\<open>remove\<close> that unlink \<^verbatim>\<open>node\<close>: when it has two children, its successor \<^verbatim>\<open>replace\<close> takes
  its place. Results: the heap, \<^verbatim>\<open>child\<close>, \<^verbatim>\<open>parent\<close> and \<^verbatim>\<open>color\<close>. \<open>lift_child\<close> is the branch for a successor that is
  not a child of \<^verbatim>\<open>node\<close>, \<open>take_over\<close> the assignments after both branches.
\<close>

definition lift_child :: "rbtree \<Rightarrow> addr \<Rightarrow> addr \<Rightarrow> addr \<Rightarrow> addr \<Rightarrow> rbtree option" where
  "lift_child T node replace child par = do {
     T \<leftarrow> (if child \<noteq> NULL then st set_parent child par T else Some T);
     T \<leftarrow> st set_left par child T;
     nr \<leftarrow> ld right T node;
     T \<leftarrow> st set_right replace nr T;
     st set_parent nr replace T }"

definition take_over :: "rbtree \<Rightarrow> addr \<Rightarrow> addr \<Rightarrow> rbtree option" where
  "take_over T node replace = do {
     np \<leftarrow> ld parent T node;
     T \<leftarrow> st set_parent replace np T;
     nc \<leftarrow> ld color T node;
     T \<leftarrow> st set_color replace nc T;
     nl \<leftarrow> ld left T node;
     T \<leftarrow> st set_left replace nl T;
     st set_parent nl replace T }"

definition unlink_both :: "rbtree \<Rightarrow> addr \<Rightarrow> (rbtree \<times> addr \<times> addr \<times> color) option" where
  "unlink_both T node = do {
     nr \<leftarrow> ld right T node;
     replace \<leftarrow> minimum_loop T nr;
     np \<leftarrow> ld parent T node;
     T \<leftarrow> link_parent T np node replace;
     child \<leftarrow> ld right T replace;
     par \<leftarrow> ld parent T replace;
     c \<leftarrow> ld color T replace;
     (T, par) \<leftarrow> (if par = node then Some (T, replace)
                  else do {T \<leftarrow> lift_child T node replace child par; Some (T, par)});
     T \<leftarrow> take_over T node replace;
     Some (T, child, par, c) }"

definition unlink_one :: "rbtree \<Rightarrow> addr \<Rightarrow> (rbtree \<times> addr \<times> addr \<times> color) option" where
  "unlink_one T node = do {
     nl \<leftarrow> ld left T node;
     child \<leftarrow> (if nl \<noteq> NULL then Some nl else ld right T node);
     par \<leftarrow> ld parent T node;
     c \<leftarrow> ld color T node;
     T \<leftarrow> (if child \<noteq> NULL then st set_parent child par T else Some T);
     T \<leftarrow> link_parent T par node child;
     Some (T, child, par, c) }"

definition free_node :: "rbtree \<Rightarrow> addr \<Rightarrow> rbtree option" where
  "free_node T a = (if a \<in> live T then Some (T\<lparr>live := live T - {a}\<rparr>) else None)"

definition remove_node :: "rbtree \<Rightarrow> addr \<Rightarrow> rbtree option" where
  "remove_node T node = do {
     l \<leftarrow> ld left T node;
     r \<leftarrow> ld right T node;
     (T, child, par, c) \<leftarrow> (if l \<noteq> NULL \<and> r \<noteq> NULL then unlink_both T node else unlink_one T node);
     T \<leftarrow> (if c = BLACK then removeFixUp T child par else Some T);
     free_node T node }"

definition remove_key :: "rbtree \<Rightarrow> int \<Rightarrow> rbtree option" where
  "remove_key T k = do {
     node \<leftarrow> search_node T (root T) k;
     if node \<noteq> NULL then remove_node T node else Some T }"

section \<open>Destruction and printing\<close>

text \<open>\<^verbatim>\<open>destroy\<close> takes a reference to a pointer: the root or a member of a node.\<close>

datatype slot = Root_slot | Left_slot addr | Right_slot addr

fun get_slot :: "rbtree \<Rightarrow> slot \<Rightarrow> addr option" where
  "get_slot T Root_slot = Some (root T)"
| "get_slot T (Left_slot a) = ld left T a"
| "get_slot T (Right_slot a) = ld right T a"

fun put_slot :: "rbtree \<Rightarrow> slot \<Rightarrow> addr \<Rightarrow> rbtree option" where
  "put_slot T Root_slot p = Some (T\<lparr>root := p\<rparr>)"
| "put_slot T (Left_slot a) p = st set_left a p T"
| "put_slot T (Right_slot a) p = st set_right a p T"

partial_function (option) destroy_slot :: "rbtree \<Rightarrow> slot \<Rightarrow> rbtree option" where
  "destroy_slot T s = do {
     tree \<leftarrow> get_slot T s;
     if tree = NULL then Some T else do {
       l \<leftarrow> ld left T tree;
       if l \<noteq> NULL then destroy_slot T (Left_slot tree) else do {
         r \<leftarrow> ld right T tree;
         if r \<noteq> NULL then destroy_slot T (Right_slot tree) else do {
           T \<leftarrow> free_node T tree;
           put_slot T s NULL } } } }"

definition destroy :: "rbtree \<Rightarrow> rbtree option" where
  "destroy T = destroy_slot T Root_slot"

datatype print_line = Is_root int | Is_child int color int bool

partial_function (option) print_node :: "rbtree \<Rightarrow> addr \<Rightarrow> int \<Rightarrow> int \<Rightarrow> print_line list option" where
  "print_node T tree k direction = (if tree \<noteq> NULL then do {
     kt \<leftarrow> ld key T tree;
     c \<leftarrow> ld color T tree;
     l \<leftarrow> ld left T tree;
     xs \<leftarrow> print_node T l kt (-1);
     r \<leftarrow> ld right T tree;
     ys \<leftarrow> print_node T r kt 1;
     Some ((if direction = 0 then Is_root kt else Is_child kt c k (direction = 1)) # xs @ ys) } else Some [])"

definition print_tree :: "rbtree \<Rightarrow> print_line list option" where
  "print_tree T = (if root T \<noteq> NULL then do {k \<leftarrow> ld key T (root T); print_node T (root T) k 0} else Some [])"

end
