(* ===== verification/Rb_Cxx_Heap.thy ===== *)
theory Rb_Cxx_Heap
  imports Rb_Cxx RbTree_Delete
begin

text \<open>
  The trees of the C++ class in the heap. \<open>safe T t\<close> says that the heap holds the tree \<open>t\<close>, with null
  pointers as leaves, and that all its nodes may be accessed; under it every guarded access and every
  rotation succeeds and does what the one of the C tree does.
\<close>

definition safe :: "rbtree \<Rightarrow> rbt \<Rightarrow> bool" where
  "safe T t \<longleftrightarrow> rep T t \<and> nil T = NULL \<and> NULL \<notin> live T \<and> nodes t \<subseteq> live T"

lemma ld_live [simp]: "a \<in> live T \<Longrightarrow> ld f T a = Some (f T a)"
  by (simp add: ld_def)

lemma st_live [simp]: "a \<in> live T \<Longrightarrow> st f a v T = Some (f a v T)"
  by (simp add: st_def)

lemma safe_rep: "safe T t \<Longrightarrow> rep T t"
  by (simp add: safe_def)

lemma safe_live: "safe T (plug cs (Node c l a k r)) \<Longrightarrow> a \<in> live T"
  by (simp add: safe_def nodes_plug)

lemma safe_null: "safe T t \<Longrightarrow> nil T = NULL \<and> NULL \<notin> live T"
  by (simp add: safe_def)

lemma live_pos: "a \<in> live T \<Longrightarrow> NULL \<notin> live T \<Longrightarrow> NULL < a"
  by (cases a) simp_all

lemma safe_ptr: "safe T (plug cs s) \<Longrightarrow> ptr T s = NULL \<and> s = Leaf \<or> ptr T s \<in> live T \<and> ptr T s \<noteq> NULL \<and> s \<noteq> Leaf"
  by (cases s) (auto simp: safe_def nodes_plug intro: live_pos)

lemma safe_cpar: "safe T (plug cs s) \<Longrightarrow> cpar T cs = NULL \<and> cs = [] \<or> cpar T cs \<in> live T \<and> cpar T cs \<noteq> NULL \<and> cs \<noteq> []"
  using cpar_cnodes [of cs T] by (cases "cs = []") (auto simp: safe_def nodes_plug intro: live_pos)

text \<open>Reading a node of the tree.\<close>

lemma safe_reads:
  assumes "safe T (plug cs (Node c l a k r))"
  shows "ld color T a = Some c" "ld key T a = Some k" "ld left T a = Some (ptr T l)" "ld right T a = Some (ptr T r)"
    "ld parent T a = Some (cpar T cs)" "a \<noteq> NULL"
  using rep_reads [OF safe_rep [OF assms]] safe_live [OF assms] safe_null [OF assms] by auto

lemma safe_is:
  assumes "safe T (plug cs s)"
  shows "is_black T (ptr T s) = Some (tcol s = BLACK)" "is_red T (ptr T s) = Some (tcol s = RED)"
  using safe_ptr [OF assms] rep_col [OF safe_rep [OF assms]] by (auto simp: is_black_def is_red_def)

lemma safe_child:
  assumes "safe T (plug cs (Node c l a k r))"
  shows "safe T (plug (InL c a k r # cs) l)" "safe T (plug (InR c a k l # cs) r)"
  using assms by simp_all

text \<open>Writing.\<close>

lemma safe_keeps: "safe T t \<Longrightarrow> keeps T T' \<Longrightarrow> rep T' t' \<Longrightarrow> nodes t' \<subseteq> nodes t \<Longrightarrow> safe T' t'"
  by (auto simp: safe_def keeps_def)

lemma safe_set_color:
  assumes "safe T (plug cs (Node c l a k r))"
  shows "safe (set_color a c' T) (plug cs (Node c' l a k r))"
  by (rule safe_keeps [OF assms]) (use rep_set_color [OF safe_rep [OF assms]] in \<open>simp_all add: nodes_plug\<close>)

lemma st_color:
  assumes "safe T (plug cs (Node c l a k r))"
  shows "st set_color a c' T = Some (set_color a c' T)"
  using safe_live [OF assms] by simp

lemma leftRotate_eq:
  assumes S: "safe T (plug cs (Node c a x kx (Node d b y ky e)))"
  shows "leftRotate T x = Some (rbtree_left_rotate T x)"
proof -
  have Sy: "safe T (plug (InR c x kx a # cs) (Node d b y ky e))" using S by simp
  have Sb: "safe T (plug (InL d y ky e # InR c x kx a # cs) b)" using S by simp
  have lv: "x \<in> live T" "y \<in> live T" "nil T = NULL" "right T x = y" "left T y = ptr T b" "parent T x = cpar T cs"
    using safe_live [OF S] safe_live [OF Sy] safe_null [OF S] rep_reads [OF safe_rep [OF S]] rep_reads [OF safe_rep [OF Sy]]
    by simp_all
  have "ptr T b \<noteq> x"
    using safe_ptr [OF Sb] safe_reads(6) [OF S] ptr_nodes [of T b] safe_rep [OF S] by (auto simp: rep_plug)
  then have px: "parent (if ptr T b \<noteq> NULL then set_parent (ptr T b) x (set_right x (ptr T b) T) else set_right x (ptr T b) T) x = cpar T cs"
    using lv by simp
  show ?thesis
  proof (cases "ptr T b = NULL"; cases "cpar T cs = NULL")
  qed (use lv px safe_ptr [OF Sb] safe_cpar [OF S] in \<open>simp_all add: leftRotate_def rbtree_left_rotate_def Let_def\<close>)
qed

lemma safe_leftRotate:
  assumes S: "safe T (plug cs (Node c a x kx (Node d b y ky e)))"
  shows "safe (rbtree_left_rotate T x) (plug cs (Node d (Node c a x kx b) y ky e))" "keeps T (rbtree_left_rotate T x)"
proof -
  note r = rep_left_rotate [OF safe_rep [OF S]]
  show k: "keeps T (rbtree_left_rotate T x)" using r by (simp add: keeps_def)
  show "safe (rbtree_left_rotate T x) (plug cs (Node d (Node c a x kx b) y ky e))"
    by (rule safe_keeps [OF S k r(1)]) (auto simp: nodes_plug)
qed

section \<open>Mirror images\<close>

lemma ld_mirror [simp]:
  "ld left (mirror T) a = ld right T a" "ld right (mirror T) a = ld left T a" "ld parent (mirror T) a = ld parent T a"
  "ld color (mirror T) a = ld color T a" "ld key (mirror T) a = ld key T a"
  by (simp_all add: ld_def)

lemma st_mirror [simp]:
  "st set_left a p (mirror T) = map_option mirror (st set_right a p T)"
  "st set_right a p (mirror T) = map_option mirror (st set_left a p T)"
  "st set_parent a p (mirror T) = map_option mirror (st set_parent a p T)"
  "st set_color a c (mirror T) = map_option mirror (st set_color a c T)"
  by (simp_all add: st_def)

lemma is_mirror [simp]: "is_black (mirror T) a = is_black T a" "is_red (mirror T) a = is_red T a"
  by (simp_all add: is_black_def is_red_def)

lemma safe_mirror: "safe (mirror T) (plug (map mirror_f cs) (mirror_t s)) = safe T (plug cs s)"
  using rep_mirror_plug [of T cs s] nodes_mirror [of "plug cs s"] by (simp add: safe_def mirror_t_plug)

lemma rightRotate_mirror: "rightRotate T y = map_option mirror (leftRotate (mirror T) y)"
  by (cases "ld parent T y")
    (auto simp: rightRotate_def leftRotate_def map_option_bind comp_def bind_map_option ld_def st_def
      split: Option.bind_splits)

lemma rightRotate_eq:
  assumes S: "safe T (plug cs (Node c (Node d a x kx b) y ky e))"
  shows "rightRotate T y = Some (rbtree_right_rotate T y)"
proof -
  have "safe (mirror T) (plug (map mirror_f cs) (Node c (mirror_t e) y ky (Node d (mirror_t b) x kx (mirror_t a))))"
    using S safe_mirror [of T cs "Node c (Node d a x kx b) y ky e"] by simp
  from leftRotate_eq [OF this] show ?thesis by (simp add: rightRotate_mirror right_rotate_mirror)
qed

lemma safe_rightRotate:
  assumes S: "safe T (plug cs (Node c (Node d a x kx b) y ky e))"
  shows "safe (rbtree_right_rotate T y) (plug cs (Node d a x kx (Node c b y ky e)))" "keeps T (rbtree_right_rotate T y)"
proof -
  note r = rep_right_rotate [OF safe_rep [OF S]]
  show k: "keeps T (rbtree_right_rotate T y)" using r by (simp add: keeps_def)
  show "safe (rbtree_right_rotate T y) (plug cs (Node d a x kx (Node c b y ky e)))"
    by (rule safe_keeps [OF S k r(1)]) (auto simp: nodes_plug)
qed

lemma rightRotate_mirrored [simp]:
  "rightRotate (mirror T) y = map_option mirror (leftRotate T y)"
  "leftRotate (mirror T) y = map_option mirror (rightRotate T y)"
  by (simp_all add: rightRotate_mirror option.map_comp comp_def option.map_ident)

text \<open>Whether all nodes may be accessed depends on the in-order sequence only.\<close>

definition usable :: "rbtree \<Rightarrow> (addr \<times> int) list \<Rightarrow> bool" where
  "usable T w \<longleftrightarrow> nil T = NULL \<and> NULL \<notin> live T \<and> fst ` set w \<subseteq> live T"

lemma safe_usable: "safe T t \<longleftrightarrow> rep T t \<and> usable T (inord t)"
  by (auto simp: safe_def usable_def nodes_inord)

lemma usable_keeps: "usable T w \<Longrightarrow> keeps T T' \<Longrightarrow> usable T' w"
  by (simp add: usable_def keeps_def)

lemma usable_mirror [simp]: "usable (mirror T) (rev w) = usable T w"
  by (simp add: usable_def)

end
