(* ===== verification/Rb_Cxx_Insert.thy ===== *)
theory Rb_Cxx_Insert
  imports Rb_Cxx_Heap
begin

text \<open>
  Insertion into the C++ tree: a turn of its repair loop, its descent and its linking of the new node
  do what the ones of the C tree do, without an access outside the nodes.
\<close>

section \<open>Insertion\<close>

lemma set_color_twist: "a \<noteq> b \<Longrightarrow> set_color a c (set_color b d T) = set_color b d (set_color a c T)"
  by (simp add: set_color_def fun_upd_twist)

lemma set_color_idem: "set_color a c (set_color a c T) = set_color a c T"
  by (simp add: set_color_def)

text \<open>The end of both cases with a black uncle.\<close>

lemma insert_line:
  assumes S: "safe T (plug (InL c p kp s # InL d g kg u # cs) (Node e l z kz r))"
  shows "do {T \<leftarrow> st set_color p BLACK T; T \<leftarrow> st set_color g RED T; T \<leftarrow> rightRotate T g; Some (T, z)} =
    Some (rbtree_right_rotate (set_color g RED (set_color p BLACK T)) g, z)"
proof -
  let ?Z = "Node e l z kz r"
  let ?T1 = "set_color p BLACK T" let ?T2 = "set_color g RED ?T1"
  have S0: "safe T (plug (InL d g kg u # cs) (Node c ?Z p kp s))" using S by simp
  then have S1: "safe ?T1 (plug (InL d g kg u # cs) (Node BLACK ?Z p kp s))" by (rule safe_set_color)
  then have S1': "safe ?T1 (plug cs (Node d (Node BLACK ?Z p kp s) g kg u))" by simp
  then have "safe ?T2 (plug cs (Node RED (Node BLACK ?Z p kp s) g kg u))" by (rule safe_set_color)
  from rightRotate_eq [OF this] show ?thesis using st_color [OF S0] st_color [OF S1'] by simp
qed

lemma insert_turn_left:
  assumes S: "safe T (plug (f # InL BLACK g kg u # cs) (Node RED l z kz r))" and f: "fcol f = RED"
  shows "insert_turn T z (fadr f) = Some (fixup_turn T z)"
proof -
  let ?Z = "Node RED l z kz r"
  have Sg: "safe T (plug cs (Node BLACK (plug [f] ?Z) g kg u))" using S by (cases f) simp_all
  have pt: "ptr T (plug [f] ?Z) = fadr f" by (cases f) simp_all
  note rg = safe_reads [OF Sg] and gr = grand_reads [OF safe_rep [OF S]]
  have Su: "safe T (plug (InR BLACK g kg (plug [f] ?Z) # cs) u)" using Sg by simp
  have rd: "ld left T g = Some (fadr f)" "ld right T g = Some (ptr T u)" "is_red T (ptr T u) = Some (tcol u = RED)"
    "ld parent T (fadr f) = Some g" "parent T z = fadr f" "parent T (fadr f) = g" "left T g = fadr f" "right T g = ptr T u"
    "color T (ptr T u) = tcol u"
    using rg gr pt safe_is [OF Su] rep_reads(5) [OF safe_rep [OF S]] safe_reads(5) [of T "InL BLACK g kg u # cs"] S
    by (cases f; simp)+
  show ?thesis
  proof (cases "tcol u = RED")
    case True
    then obtain ul ua ku ur where u: "u = Node RED ul ua ku ur" by (cases u) auto
    have lv: "ua \<in> live T" "fadr f \<in> live T" "g \<in> live T"
      using S by (cases f; simp add: safe_def nodes_plug u)+
    have "ua \<noteq> fadr f" using safe_rep [OF S] by (cases f) (auto simp: rep_plug u)
    then show ?thesis
      using rd True u lv set_color_twist [of ua "fadr f" BLACK BLACK T]
      by (simp add: insert_turn_def fixup_turn_def Let_def)
  next
    case False
    show ?thesis
    proof (cases f)
      case (InL c p kp s)
      have "ld right T p = Some (ptr T s)" using safe_reads(4) [of T "InL BLACK g kg u # cs" c ?Z p kp s] S InL by simp
      moreover have "right T p = ptr T s" using rep_reads(4) [of T "InL BLACK g kg u # cs" c ?Z p kp s] safe_rep [OF S] InL by simp
      moreover have "ptr T s \<noteq> z"
        using ptr_siblings [of T "InL BLACK g kg u # cs" c ?Z p kp s] safe_rep [OF S] InL by simp
      ultimately show ?thesis
        using rd False insert_line [OF S [unfolded InL]] InL by (simp add: insert_turn_def fixup_turn_def Let_def eq_commute [of z])
    next
      case (InR c p kp s)
      let ?T1 = "rbtree_left_rotate T p"
      have Sp: "safe T (plug (InL BLACK g kg u # cs) (Node c s p kp ?Z))" using S InR by simp
      have S1: "safe ?T1 (plug (InL RED z kz r # InL BLACK g kg u # cs) (Node c s p kp l))"
        using safe_leftRotate(1) [OF Sp] by simp
      have "ld right T p = Some z" "right T p = z" using safe_reads(4) [OF Sp] rep_reads(4) [OF safe_rep [OF Sp]] by simp_all
      moreover have "parent ?T1 p = z" "parent ?T1 z = g"
        using rep_reads(5) [OF safe_rep [OF S1]] rep_up(1) [OF safe_rep [OF S1]] by simp_all
      ultimately show ?thesis
        using rd False InR leftRotate_eq [OF Sp] insert_line [OF S1] by (simp add: insert_turn_def fixup_turn_def Let_def)
    qed
  qed
qed


lemma map_option_bindS: "map_option f (Option.bind x g) = Option.bind x (\<lambda>y. map_option f (g y))"
  by (cases x) simp_all

lemma bind_map_optionS: "Option.bind (map_option f x) g = Option.bind x (\<lambda>y. g (f y))"
  by (cases x) simp_all

lemma map_option_if: "map_option f (if b then x else y) = (if b then map_option f x else map_option f y)"
  by simp

lemma bind_if: "Option.bind (if b then x else y) g = (if b then Option.bind x g else Option.bind y g)"
  by simp

lemmas mirror_bind = map_option_bindS bind_map_optionS map_option_if bind_if Option.bind_assoc

lemma insert_turn_mirror:
  assumes "ld parent T par = Some g" "ld left T g = Some gl" "gl \<noteq> par" "ld right T g = Some par"
  shows "insert_turn T z par = map_option (\<lambda>(T, z). (mirror T, z)) (insert_turn (mirror T) z par)"
  using assms by (simp add: insert_turn_def mirror_bind split_def cong: if_cong)

lemma insert_turn_eq:
  assumes I: "ins_inv T z (f # h # cs) n w" and f: "fcol f = RED" and U: "usable T w"
  shows "insert_turn T z (fadr f) = Some (fixup_turn T z)"
proof -
  obtain l k r where R: "rep T (plug (f # h # cs) (Node RED l z k r))" and C: "ctx_inv (f # h # cs) n"
    and w: "inord (plug (f # h # cs) (Node RED l z k r)) = w" using I by (auto simp: ins_inv_def)
  let ?Z = "Node RED l z k r"
  have S: "safe T (plug (f # h # cs) ?Z)" using R U w by (simp add: safe_usable)
  have h: "fcol h = BLACK" using C f by (simp add: black_above_def)
  show ?thesis
  proof (cases h)
    case (InL d g kg u)
    then show ?thesis using insert_turn_left S f h by simp
  next
    case (InR d g kg u)
    have "safe (mirror T) (plug (mirror_f f # InL BLACK g kg (mirror_t u) # map mirror_f cs) (Node RED (mirror_t r) z k (mirror_t l)))"
      using S safe_mirror [of T "f # h # cs" ?Z] InR h by simp
    from insert_turn_left [OF this] f have M: "insert_turn (mirror T) z (fadr f) = Some (fixup_turn (mirror T) z)" by simp
    have Sg: "safe T (plug cs (Node BLACK u g kg (plug [f] ?Z)))" using S InR h by (cases f) simp_all
    have pt: "ptr T (plug [f] ?Z) = fadr f" by (cases f) simp_all
    have rd: "ld left T g = Some (ptr T u)" "ld right T g = Some (fadr f)" "ld parent T (fadr f) = Some g"
      "parent T z = fadr f" "parent T (fadr f) = g" "left T g = ptr T u" "right T g = fadr f"
      using safe_reads [OF Sg] rep_reads [OF safe_rep [OF Sg]] pt rep_reads(5) [OF R] rep_up(1) [OF R]
        safe_reads(5) [of T "InR BLACK g kg u # cs"] S InR h by (cases f; simp)+
    have "ptr T u \<noteq> fadr f" using ptr_siblings [OF safe_rep [OF Sg]] pt by (cases f) auto
    then show ?thesis using insert_turn_mirror [OF rd(3,1) _ rd(2)] fixup_turn_mirror [of T z] M rd by simp
  qed
qed

lemma insertFixUp_eq:
  assumes "ins_inv T z cs n w" "usable T w"
  shows "insertFixUp T z = rbtree_insert_fixup T z"
  using assms
proof (induction "length cs" arbitrary: T z cs n rule: less_induct)
  case less
  obtain l k r where R: "rep T (plug cs (Node RED l z k r))" and C: "ctx_inv cs n"
    and w: "inord (plug cs (Node RED l z k r)) = w" using less.prems(1) by (auto simp: ins_inv_def)
  have S: "safe T (plug cs (Node RED l z k r))" using R less.prems(2) w by (simp add: safe_usable)
  have pz: "parent T z = cpar T cs" "ld parent T z = Some (cpar T cs)" using rep_reads(5) [OF R] safe_reads(5) [OF S] by simp_all
  have rt: "root T \<in> live T"
    using rep_root [OF R] plug_root [of cs T "Node RED l z k r"] S by (cases "cs = []") (auto simp: safe_def nodes_plug)
  show ?case
  proof (cases cs)
    case Nil
    have "is_red T NULL = Some False" "color T NULL = BLACK"
      using rep_reads(7) [OF R] safe_null [OF S] by (simp_all add: is_red_def)
    then show ?thesis using pz rt Nil safe_null [OF S] by (simp add: insertFixUp.simps [of T] rbtree_insert_fixup.simps [of T])
  next
    case (Cons f cs1)
    have red: "is_red T (fadr f) = Some (fcol f = RED)" "color T (fadr f) = fcol f"
      using rep_up(3,4) [of T f cs1] R safe_cpar [OF S] Cons safe_null [OF S] by (auto simp: is_red_def)
    show ?thesis
    proof (cases "fcol f = RED")
      case False
      then show ?thesis using pz rt red Cons by (simp add: insertFixUp.simps [of T] rbtree_insert_fixup.simps [of T])
    next
      case True
      then obtain h cs2 where h: "cs1 = h # cs2" using C Cons by (cases cs1) (auto simp: black_above_def)
      from turn_ok [of T z f h cs2 n w] less.prems(1) True Cons h obtain T1 z1 cs' n' where
        t: "fixup_turn T z = (T1, z1)" "keeps T T1" "ins_inv T1 z1 cs' n' w" "length cs' \<le> Suc (length cs2)" by blast
      have "insert_turn T z (fadr f) = Some (T1, z1)"
        using insert_turn_eq [of T z f h cs2 n w] less.prems True Cons h t(1) by simp
      moreover have "insertFixUp T1 z1 = rbtree_insert_fixup T1 z1"
        using less.hyps [OF _ t(3) usable_keeps [OF less.prems(2) t(2)]] t(4) Cons h by simp
      ultimately show ?thesis using pz red True Cons t(1)
        by (simp add: insertFixUp.simps [of T] rbtree_insert_fixup.simps [of T])
    qed
  qed
qed

lemma cxx_descent_eq:
  assumes "safe T (plug cs s)" "z \<in> live T"
  shows "cxx_descent T z y (ptr T s) = insert_descent T z y (ptr T s)"
  using assms(1)
proof (induction s arbitrary: cs y)
  case Leaf
  then show ?case using safe_null [OF Leaf.prems] by (simp add: cxx_descent.simps insert_descent.simps)
next
  case (Node c l a k r)
  note rd = safe_reads [OF Node.prems] and rr = rep_reads [OF safe_rep [OF Node.prems]] and ch = safe_child [OF Node.prems]
  show ?case
    using rd rr assms(2) safe_null [OF Node.prems] Node.IH(1) [OF ch(1)] Node.IH(2) [OF ch(2)]
    by (simp add: cxx_descent.simps [of T z y a] insert_descent.simps [of T z y a])
qed

definition cxx_link :: "rbtree \<Rightarrow> addr \<Rightarrow> addr \<Rightarrow> rbtree option" where
  "cxx_link T z y = do {T \<leftarrow> st set_parent z y T;
     T \<leftarrow> (if y \<noteq> NULL then do {
           k \<leftarrow> ld key T z;
           ky \<leftarrow> ld key T y;
           if k < ky then st set_left y z T else st set_right y z T }
         else Some (T\<lparr>root := z\<rparr>));
     st set_color z RED T}"

lemma insert_node_unfold:
  "insert_node T z = do {y \<leftarrow> cxx_descent T z NULL (root T); T \<leftarrow> cxx_link T z y; insertFixUp T z}"
  by (simp add: insert_node_def cxx_link_def Option.bind_assoc)

lemma cxx_link_eq:
  assumes "z \<in> live T" "y = NULL \<or> y \<in> live T" "nil T = NULL" "NULL \<notin> live T" "left T z = NULL" "right T z = NULL" "y \<noteq> z"
  shows "cxx_link T z y = Some (link_node T z y)"
proof -
  have id: "set_left z NULL T' = T'" if "left T' z = NULL" for T' using that by (simp add: set_left_def fun_upd_idem)
  have idr: "set_right z NULL T' = T'" if "right T' z = NULL" for T' using that by (simp add: set_right_def fun_upd_idem)
  show ?thesis using assms by (auto simp: cxx_link_def link_node_def Let_def id idr)
qed

lemma insert_node_eq:
  assumes S: "safe T t" and ok: "rb_ok t" "sorted (keys t)" and z: "z \<in> live T" "z \<notin> nodes t" "left T z = NULL" "right T z = NULL"
  shows "insert_node T z = rbtree_insert T z"
proof -
  have nl: "nil T = NULL" "NULL \<notin> live T" and R: "rep T t" using safe_null [OF S] safe_rep [OF S] by simp_all
  obtain ds where ds: "plug ds Leaf = t" "insert_descent T z NULL (ptr T t) = Some (cpar T ds)"
    "turned T (key T z) ds"
    using insert_descent_ok [of T NULL t "[]" z] R ok(2) nl unfolding rep_def
    by (metis cpar.simps(1) empty_iff image_empty list.set(1) place_def before.simps(1) after.simps(1) plug.simps(1) turned.simps(1))
  let ?y = "cpar T ds" let ?T = "link_node T z ?y" and ?Z = "Node RED Leaf z (key T z) Leaf"
  have z0: "z \<noteq> nil T" using live_pos [OF z(1) nl(2)] nl by simp
  have L: "rep ?T (plug ds ?Z)" "keeps T ?T" by (rule rep_link [of T ds z, unfolded ds(1), OF R z0 z(2) ds(3)])+
  have "ctx_inv ds 0" using ok(1) rb_ok_plug [of ds Leaf] ds(1) by simp
  moreover have "sub_ok ?Z 0" by (simp add: sub_ok_def)
  ultimately have I: "ins_inv ?T z ds 0 (inord (plug ds ?Z))" using L(1) by (auto simp: ins_inv_def)
  have "usable T (inord (plug ds ?Z))"
    using S z(1) inord_plug [of ds Leaf] by (auto simp: safe_usable usable_def inord_plug ds(1) [symmetric])
  from insertFixUp_eq [OF I usable_keeps [OF this L(2)]] have fx: "insertFixUp ?T z = rbtree_insert_fixup ?T z" .
  have "cxx_descent T z NULL (root T) = Some ?y"
    using cxx_descent_eq [of T "[]" t z NULL] S z(1) ds(2) rep_root [OF R] by simp
  moreover have "?y = NULL \<or> ?y \<in> live T" using safe_cpar [of T ds Leaf] S ds(1) by auto
  moreover have "?y \<noteq> z" using z(2) z0 nl cpar_cnodes [of ds T] by (cases ds) (auto simp: ds(1) [symmetric] nodes_plug)
  ultimately show ?thesis
    using cxx_link_eq [OF z(1) _ nl z(3,4)] fx ds(2) rep_root [OF R] nl
    by (simp add: insert_node_unfold rbtree_insert_eq)
qed

end
