(* ===== verification/Rb_Cxx_Remove.thy ===== *)
theory Rb_Cxx_Remove
  imports Rb_Cxx_Insert
begin

text \<open>
  Removal from the C++ tree: its repair loop passes the parent along, since a null pointer has none;
  it ends with a red-black tree and the same in-order sequence, and unlinking leaves what the C tree's
  unlinking leaves.
\<close>

section \<open>One turn of the repair loop\<close>

definition rem_inv :: "rbtree \<Rightarrow> addr \<Rightarrow> frame list \<Rightarrow> rbt \<Rightarrow> nat \<Rightarrow> (addr \<times> int) list \<Rightarrow> bool" where
  "rem_inv T x cs s n w \<longleftrightarrow> safe T (plug cs s) \<and> x = ptr T s \<and> ctx_inv cs (Suc n) \<and> weak s n \<and> inord (plug cs s) = w"

lemma remove_case4:
  assumes S: "safe T (plug (InL c p kp (Node BLACK a v kv b) # cs) s)"
    and C: "ctx_inv (InL c p kp (Node BLACK a v kv b) # cs) (Suc n)" and k: "sub_ok s n" and b: "tcol b = RED"
    and w: "inord (plug (InL c p kp (Node BLACK a v kv b) # cs) s) = w"
  shows "\<exists>T'. do {
       c \<leftarrow> ld color T p;
       T \<leftarrow> st set_color v c T;
       T \<leftarrow> st set_color p BLACK T;
       or \<leftarrow> ld right T v;
       T \<leftarrow> st set_color or BLACK T;
       T \<leftarrow> leftRotate T p;
       Some (T, root T, p, True) } = Some (T', root T', p, True) \<and> keeps T T' \<and> finished T' (root T') w"
proof -
  obtain bl bb kb br where B: "b = Node RED bl bb kb br" using b by (cases b) auto
  let ?B' = "Node BLACK bl bb kb br"
  let ?T1 = "set_color v c T" let ?T2 = "set_color p BLACK ?T1" let ?T3 = "set_color bb BLACK ?T2"
  have Sp: "safe T (plug cs (Node c s p kp (Node BLACK a v kv b)))" using S by simp
  have Sv: "safe T (plug (InR c p kp s # cs) (Node BLACK a v kv b))" using S by simp
  have S1: "safe ?T1 (plug cs (Node c s p kp (Node c a v kv b)))" using safe_set_color [OF Sv, of c] by simp
  have S2: "safe ?T2 (plug (InR BLACK p kp s # cs) (Node c a v kv b))" using safe_set_color [OF S1, of BLACK] by simp
  have S2': "safe ?T2 (plug (InR c v kv a # InR BLACK p kp s # cs) (Node RED bl bb kb br))" using S2 by (simp add: B)
  have S3: "safe ?T3 (plug cs (Node BLACK s p kp (Node c a v kv ?B')))" using safe_set_color [OF S2', of BLACK] by simp
  have "inord (plug cs (Node c (Node BLACK s p kp a) v kv ?B')) = w" using w by (simp add: inord_plug B)
  then have "finished (rbtree_left_rotate ?T3 p) (root (rbtree_left_rotate ?T3 p)) w"
    using safe_rep [OF safe_leftRotate(1) [OF S3]] case4_rb_ok [OF C [unfolded B] k] by (auto simp: finished_def)
  moreover have "keeps T (rbtree_left_rotate ?T3 p)" using safe_leftRotate(2) [OF S3] by (simp add: keeps_def)
  ultimately show ?thesis
    using safe_reads(1) [OF Sp] st_color [OF Sv] st_color [OF S1] safe_reads(4) [OF S2] st_color [OF S2'] leftRotate_eq [OF S3]
    by (simp add: B)
qed

lemma remove_case3:
  assumes S: "safe T (plug (InL c p kp (Node BLACK (Node RED aa av ka ab) v kv b) # cs) s)"
  shows "\<exists>T'. do {
       T \<leftarrow> st set_color av BLACK T;
       T \<leftarrow> st set_color v RED T;
       T \<leftarrow> rightRotate T v;
       other \<leftarrow> ld right T p;
       Some (T, other) } = Some (T', av) \<and> keeps T T' \<and>
    safe T' (plug (InL c p kp (Node BLACK aa av ka (Node RED ab v kv b)) # cs) s)"
proof -
  let ?T1 = "set_color av BLACK T" let ?T2 = "set_color v RED ?T1" let ?T = "rbtree_right_rotate ?T2 v"
  have Sa: "safe T (plug (InL BLACK v kv b # InR c p kp s # cs) (Node RED aa av ka ab))" using S by simp
  have S1: "safe ?T1 (plug (InR c p kp s # cs) (Node BLACK (Node BLACK aa av ka ab) v kv b))"
    using safe_set_color [OF Sa, of BLACK] by simp
  have S2: "safe ?T2 (plug (InR c p kp s # cs) (Node RED (Node BLACK aa av ka ab) v kv b))" by (rule safe_set_color [OF S1])
  have S': "safe ?T (plug cs (Node c s p kp (Node BLACK aa av ka (Node RED ab v kv b))))" using safe_rightRotate(1) [OF S2] by simp
  have "keeps T ?T" using safe_rightRotate(2) [OF S2] by (simp add: keeps_def)
  then show ?thesis
    using st_color [OF Sa] st_color [OF S1] rightRotate_eq [OF S2] safe_reads(4) [OF S'] S' by simp
qed

lemma sib_left_ok:
  assumes I: "rem_inv T x (InL c p kp (Node BLACK a v kv b) # cs) s n w" and blk: "tcol s = BLACK"
  shows "\<exists>T' x' p' brk. sib_left T p v = Some (T', x', p', brk) \<and> keeps T T' \<and>
    (if brk then finished T' x' w else p' = cpar T' cs \<and> (\<exists>s' n'. rem_inv T' x' cs s' n' w \<and> tcol s' = c))"
proof -
  let ?V = "Node BLACK a v kv b"
  have S: "safe T (plug (InL c p kp ?V # cs) s)" and x: "x = ptr T s"
    and C: "ctx_inv (InL c p kp ?V # cs) (Suc n)" and k: "sub_ok s n"
    and w: "inord (plug (InL c p kp ?V # cs) s) = w" using I blk weak_black by (auto simp: rem_inv_def)
  have Sv: "safe T (plug (InR c p kp s # cs) ?V)" using S by simp
  note rd = safe_reads(3,4) [OF Sv] safe_is [OF safe_child(1) [OF Sv]] safe_is [OF safe_child(2) [OF Sv]]
  consider "tcol b = RED" | "tcol b = BLACK" "tcol a = RED" | "tcol b = BLACK" "tcol a = BLACK"
    by (cases "tcol a"; cases "tcol b") auto
  then show ?thesis
  proof cases
    case 1
    obtain T' where "sib_left T p v = Some (T', root T', p, True)" "keeps T T'" "finished T' (root T') w"
      using remove_case4 [OF S C k 1 w] rd 1 by (auto simp: sib_left_def)
    then show ?thesis by auto
  next
    case 2
    then obtain aa av ka ab where A: "a = Node RED aa av ka ab" by (cases a) auto
    let ?V' = "Node BLACK aa av ka (Node RED ab v kv b)"
    obtain T1 where T1: "do {
       T \<leftarrow> st set_color av BLACK T;
       T \<leftarrow> st set_color v RED T;
       T \<leftarrow> rightRotate T v;
       other \<leftarrow> ld right T p;
       Some (T, other) } = Some (T1, av)" "keeps T T1" "safe T1 (plug (InL c p kp ?V' # cs) s)"
      using remove_case3 [OF S [unfolded A]] by blast
    have "inord (plug (InL c p kp ?V' # cs) s) = w" using w by (simp add: inord_plug A)
    from remove_case4 [OF T1(3) case3_ctx [OF C [unfolded A] 2(1)] k _ this]
    obtain T' where "sib_left T p v = Some (T', root T', p, True)" "keeps T1 T'" "finished T' (root T') w"
      using rd 2 T1(1) by (auto simp: sib_left_def A)
    then show ?thesis using keeps_trans [OF T1(2)] by auto
  next
    case 3
    let ?s = "Node c s p kp (Node RED a v kv b)" and ?T = "set_color v RED T"
    have S': "safe ?T (plug cs ?s)" using safe_set_color [OF Sv, of RED] by simp
    moreover have "inord (plug cs ?s) = w" using w by (simp add: inord_plug)
    ultimately have "rem_inv ?T p cs ?s (if c = BLACK then Suc n else n) w"
      using case2_weak [OF C k 3(2,1) blk] by (simp add: rem_inv_def)
    moreover have "sib_left T p v = Some (?T, p, cpar ?T cs, False)"
      using rd 3 st_color [OF Sv] safe_reads(5) [OF S'] by (simp add: sib_left_def)
    moreover have "tcol ?s = c" by simp
    ultimately show ?thesis using keeps_set_color [of T v RED T] by (metis keeps_refl)
  qed
qed

definition good_turn :: "rbtree \<Rightarrow> frame list \<Rightarrow> (addr \<times> int) list \<Rightarrow> (rbtree \<times> addr \<times> addr \<times> bool) option \<Rightarrow> bool" where
  "good_turn T cs w res \<longleftrightarrow> (\<exists>T' x' p' brk. res = Some (T', x', p', brk) \<and> keeps T T' \<and>
     (if brk then finished T' x' w
      else \<exists>cs' s' n'. rem_inv T' x' cs' s' n' w \<and> p' = cpar T' cs' \<and> del_size cs' s' < Suc (Suc (length cs))))"

lemma good_turn_break: "res = Some (T', x', p', True) \<Longrightarrow> keeps T T' \<Longrightarrow> finished T' x' w \<Longrightarrow> good_turn T cs w res"
  unfolding good_turn_def by fastforce

lemma good_turn_cont:
  "res = Some (T', x', cpar T' cs', False) \<Longrightarrow> keeps T T' \<Longrightarrow> rem_inv T' x' cs' s' n' w \<Longrightarrow>
    del_size cs' s' < Suc (Suc (length cs)) \<Longrightarrow> good_turn T cs w res"
  unfolding good_turn_def by fastforce

lemma remove_turn_red:
  assumes I: "rem_inv T x (InL c p kp (Node RED a v kv b) # cs) s n w" and blk: "tcol s = BLACK"
  shows "good_turn T cs w (remove_turn T x p)"
proof -
  have S: "safe T (plug (InL c p kp (Node RED a v kv b) # cs) s)" and x: "x = ptr T s"
    and C: "ctx_inv (InL c p kp (Node RED a v kv b) # cs) (Suc n)" and k: "weak s n"
    and w: "inord (plug (InL c p kp (Node RED a v kv b) # cs) s) = w" using I by (auto simp: rem_inv_def)
  obtain aa av ka ab where A: "a = Node BLACK aa av ka ab" using case1_ctx(3) [OF C] by blast
  let ?T1 = "set_color v BLACK T" let ?T2 = "set_color p RED ?T1" let ?T = "rbtree_left_rotate ?T2 p"
  let ?cs = "InL BLACK v kv b # cs"
  have Sp: "safe T (plug cs (Node c s p kp (Node RED a v kv b)))" using S by simp
  have Sv: "safe T (plug (InR c p kp s # cs) (Node RED a v kv b))" using S by simp
  have S1: "safe ?T1 (plug cs (Node c s p kp (Node BLACK a v kv b)))" using safe_set_color [OF Sv, of BLACK] by simp
  have S2: "safe ?T2 (plug cs (Node RED s p kp (Node BLACK a v kv b)))" by (rule safe_set_color [OF S1])
  have S': "safe ?T (plug ?cs (Node RED s p kp a))" using safe_leftRotate(1) [OF S2] by simp
  have kT: "keeps T ?T" using safe_leftRotate(2) [OF S2] by (simp add: keeps_def)
  have "rem_inv ?T x (InL RED p kp a # ?cs) s n w"
    using S' x ptr_keeps(1) [OF kT] case1_ctx(2) [OF C] k w by (simp add: rem_inv_def inord_plug)
  from sib_left_ok [OF this [unfolded A] blk] obtain T' x' p' brk where
    st: "sib_left ?T p av = Some (T', x', p', brk)" "keeps ?T T'"
      "if brk then finished T' x' w else p' = cpar T' ?cs \<and> (\<exists>s' n'. rem_inv T' x' ?cs s' n' w \<and> tcol s' = RED)" by blast
  have "remove_turn T x p = Some (T', x', p', brk)"
    using safe_reads [OF Sp] safe_reads(1) [OF Sv] st_color [OF Sv] st_color [OF S1] leftRotate_eq [OF S2] safe_reads(4) [OF S'] st(1) x
    by (simp add: remove_turn_def A)
  moreover have "del_size ?cs s' < Suc (Suc (length cs))" if "tcol s' = RED" for s' using that by (simp add: del_size_def)
  ultimately show ?thesis
    using st(3) good_turn_break [OF _ keeps_trans [OF kT st(2)]] good_turn_cont [OF _ keeps_trans [OF kT st(2)], of _ x' ?cs]
    by (cases brk) auto
qed

lemma remove_turn_left:
  assumes I: "rem_inv T x (InL c p kp W # cs) s n w" and blk: "tcol s = BLACK"
  shows "good_turn T cs w (remove_turn T x p)"
proof -
  have S: "safe T (plug cs (Node c s p kp W))" and x: "x = ptr T s" and "bh W = Suc n"
    using I by (auto simp: rem_inv_def sub_ok_def)
  then obtain d a v kv b where W: "W = Node d a v kv b" by (cases W) auto
  show ?thesis
  proof (cases d)
    case BLACK
    have "remove_turn T x p = sib_left T p v"
      using safe_reads(3,4) [OF S] safe_reads(1) [OF safe_child(2) [OF S [unfolded W BLACK]]] x W by (simp add: remove_turn_def)
    moreover have "del_size cs s' < Suc (Suc (length cs))" for s' by (simp add: del_size_def)
    ultimately show ?thesis using sib_left_ok [OF I [unfolded W BLACK] blk] good_turn_break good_turn_cont by (metis (full_types))
  next
    case RED
    show ?thesis using remove_turn_red [OF I [unfolded W RED] blk] .
  qed
qed

definition mirror_res :: "rbtree \<times> addr \<times> addr \<times> bool \<Rightarrow> rbtree \<times> addr \<times> addr \<times> bool" where
  "mirror_res = (\<lambda>(T, x, p, brk). (mirror T, x, p, brk))"

lemma sib_right_mirror: "sib_right T p v = map_option mirror_res (sib_left (mirror T) p v)"
proof (cases "v \<in> live T")
  case True
  then have "ld left T v = Some (left T v)" "ld right T v = Some (right T v)" by simp_all
  then show ?thesis
    by (cases "is_black T (left T v)"; cases "is_black T (right T v)")
      (simp_all add: sib_left_def sib_right_def mirror_bind split_def mirror_res_def conj_commute cong: if_cong)
qed (simp add: sib_left_def sib_right_def ld_def)

lemma remove_turn_mirror:
  assumes "ld left T p = Some pl" "pl \<noteq> x" "ld right T p = Some x"
  shows "remove_turn T x p = map_option mirror_res (remove_turn (mirror T) x p)"
  using assms by (simp add: remove_turn_def mirror_bind sib_right_mirror cong: if_cong)

lemma rem_inv_mirror: "rem_inv T x cs s n w \<Longrightarrow> rem_inv (mirror T) x (map mirror_f cs) (mirror_t s) n (rev w)"
  using safe_mirror [of T cs s] inord_mirror [of "plug cs s"]
  by (auto simp: rem_inv_def weak_mirror mirror_t_plug)

lemma good_turn_mirror:
  assumes "good_turn (mirror T) (map mirror_f cs) (rev w) res"
  shows "good_turn T cs w (map_option mirror_res res)"
proof -
  obtain T' x' p' brk where r: "res = Some (T', x', p', brk)" "keeps T T'"
    "if brk then finished T' x' (rev w)
      else \<exists>cs' s' n'. rem_inv T' x' cs' s' n' (rev w) \<and> p' = cpar T' cs' \<and> del_size cs' s' < Suc (Suc (length cs))"
    using assms unfolding good_turn_def length_map keeps_mirror by blast
  have "finished (mirror T') x' w" if brk using finished_mirror [of T' x' "rev w"] r(3) that by simp
  moreover have "\<exists>cs' s' n'. rem_inv (mirror T') x' cs' s' n' w \<and> p' = cpar (mirror T') cs' \<and> del_size cs' s' < Suc (Suc (length cs))"
    if nb: "\<not> brk"
  proof -
    obtain cs' s' n' where i: "rem_inv T' x' cs' s' n' (rev w)" "p' = cpar T' cs'" "del_size cs' s' < Suc (Suc (length cs))"
      using r(3) nb by auto
    show ?thesis using rem_inv_mirror [OF i(1)] i(2,3)
      by (intro exI [of _ "map mirror_f cs'"] exI [of _ "mirror_t s'"] exI [of _ n']) (simp add: del_size_def split: if_splits)
  qed
  ultimately show ?thesis using r(1,2) by (auto simp: good_turn_def mirror_res_def)
qed

lemma remove_turn_ok:
  assumes I: "rem_inv T x (f # cs) s n w" and blk: "tcol s = BLACK"
  shows "good_turn T cs w (remove_turn T x (fadr f))"
proof (cases f)
  case (InL c p kp W)
  then show ?thesis using remove_turn_left I blk by simp
next
  case (InR c p kp W)
  have "rem_inv (mirror T) x (InL c p kp (mirror_t W) # map mirror_f cs) (mirror_t s) n (rev w)"
    using rem_inv_mirror [OF I] InR by simp
  from remove_turn_left [OF this] blk have M: "good_turn (mirror T) (map mirror_f cs) (rev w) (remove_turn (mirror T) x p)" by simp
  have S: "safe T (plug cs (Node c W p kp s))" and x: "x = ptr T s" and "W \<noteq> Leaf"
    using I InR by (auto simp: rem_inv_def sub_ok_def)
  then have "ptr T W \<noteq> x" using ptr_siblings [OF safe_rep [OF S]] by simp
  then have "remove_turn T x p = map_option mirror_res (remove_turn (mirror T) x p)"
    using remove_turn_mirror [of T p "ptr T W" x] safe_reads(3,4) [OF S] x by simp
  then show ?thesis using good_turn_mirror [OF M] InR by simp
qed

section \<open>The repair loop\<close>

lemma set_black_eq:
  assumes "safe T (plug cs s)"
  shows "set_black T (ptr T s) = Some (set_color (ptr T s) BLACK T)"
proof -
  have "color T NULL = BLACK" using assms by (auto simp: safe_def rep_plug)
  then have "set_color NULL BLACK T = T" by (simp add: set_color_def fun_upd_idem)
  then show ?thesis using safe_ptr [OF assms] by (auto simp: set_black_def)
qed

lemma removeFixUp_ok:
  assumes "rem_inv T x cs s n w"
  shows "\<exists>T' t'. removeFixUp T x (cpar T cs) = Some T' \<and> keeps T T' \<and> rep T' t' \<and> rb_ok t' \<and> inord t' = w"
  using assms
proof (induction "del_size cs s" arbitrary: T x cs s n rule: less_induct)
  case less
  have S: "safe T (plug cs s)" and x: "x = ptr T s" and C: "ctx_inv cs (Suc n)" and k: "weak s n"
    and w: "inord (plug cs s) = w" using less.prems by (auto simp: rem_inv_def)
  have cx: "is_black T x = Some (tcol s = BLACK)" "x = root T \<longleftrightarrow> cs = []"
    using safe_is [OF S] root_focus [OF safe_rep [OF S]] x by simp_all
  show ?case
  proof (cases "tcol s = BLACK \<and> cs \<noteq> []")
    case True
    then obtain f cs1 where f: "cs = f # cs1" by (cases cs) auto
    have "good_turn T cs1 w (remove_turn T x (fadr f))" using remove_turn_ok [of T x f cs1 s n w] less.prems f True by blast
    then obtain T1 x1 p1 brk where t: "remove_turn T x (fadr f) = Some (T1, x1, p1, brk)" "keeps T T1"
      "if brk then finished T1 x1 w
        else \<exists>cs' s' n'. rem_inv T1 x1 cs' s' n' w \<and> p1 = cpar T1 cs' \<and> del_size cs' s' < Suc (Suc (length cs1))"
      by (auto simp: good_turn_def)
    have step: "removeFixUp T x (cpar T cs) = (if brk then set_black T1 x1 else removeFixUp T1 x1 p1)"
      using True cx t(1) f by (subst removeFixUp.simps) simp
    show ?thesis
    proof (cases brk)
      case True
      then obtain t' where t': "x1 = root T1" "rep T1 t'" "rb_ok t'" "inord t' = w" using t(3) by (auto simp: finished_def)
      have "safe T1 t'" using t' S w usable_keeps [OF _ t(2)] by (simp add: safe_usable)
      then have "set_black T1 x1 = Some T1"
        using set_black_eq [of T1 "[]" t'] rep_root [OF t'(2)] blacken_root [OF t'(2,3)] t'(1) by simp
      then show ?thesis using step True t(2) t' by auto
    next
      case False
      then obtain cs' s' n' where d: "rem_inv T1 x1 cs' s' n' w" "p1 = cpar T1 cs'" "del_size cs' s' < del_size cs s"
        using t(3) \<open>tcol s = BLACK \<and> cs \<noteq> []\<close> f by (auto simp: del_size_def)
      from less.hyps [OF d(3,1)] show ?thesis using step False d(2) keeps_trans [OF t(2)] by auto
    qed
  next
    case False
    then have "removeFixUp T x (cpar T cs) = Some (set_color x BLACK T)"
      using cx set_black_eq [OF S] x by (subst removeFixUp.simps) auto
    moreover have "rb_ok (plug cs (blacken s))" using blacken_rb_ok [OF C k] False by auto
    ultimately show ?thesis
      using rep_blacken [OF safe_rep [OF S]] x w by (metis inord_blacken inord_plug keeps_refl keeps_set_color)
  qed
qed

end
