(* ===== verification/Rb_Cxx_Unlink.thy ===== *)
theory Rb_Cxx_Unlink
  imports Rb_Cxx_Remove
begin

text \<open>
  Unlinking a node of the C++ tree. The heap it leaves is the one the C tree's functions leave, except
  for the parent of the null pointer, which they write and this code does not.
\<close>

section \<open>The pointer to the node\<close>

fun up :: "frame list \<Rightarrow> addr \<Rightarrow> rbtree \<Rightarrow> rbtree" where
  "up [] y T = T\<lparr>root := y\<rparr>"
| "up (InL c q k s # cs) y T = set_left q y T"
| "up (InR c q k s # cs) y T = set_right q y T"

lemma up_simps [simp]:
  "nil (up cs y T) = nil T" "parent (up cs y T) = parent T" "color (up cs y T) = color T" "key (up cs y T) = key T"
  "val (up cs y T) = val T" "live (up cs y T) = live T"
  "a \<noteq> cpar T cs \<or> cs = [] \<Longrightarrow> left (up cs y T) a = left T a" "a \<noteq> cpar T cs \<or> cs = [] \<Longrightarrow> right (up cs y T) a = right T a"
  by (cases cs; cases "hd cs"; auto)+

lemma link_cpar [simp]:
  "cpar (set_left a p T) cs = cpar T cs" "cpar (set_right a p T) cs = cpar T cs" "cpar (set_parent a p T) cs = cpar T cs"
  by (cases cs; simp)+

lemma ctx_left:
  assumes "rep T (plug cs (Node c l z k r))"
  shows "cs = InL d q kq s # cs' \<Longrightarrow> left T q = z" "cs = InR d q kq s # cs' \<Longrightarrow> left T q \<noteq> z"
proof -
  show "left T q = z" if "cs = InL d q kq s # cs'"
    using rep_reads(3) [of T cs' d "Node c l z k r" q kq s] assms that by simp
  show "left T q \<noteq> z" if "cs = InR d q kq s # cs'"
    using rep_reads(3) [of T cs' d s q kq "Node c l z k r"] ptr_siblings [of T cs' d s q kq "Node c l z k r"] assms that by simp
qed

lemma up_link:
  assumes S: "safe T (plug cs (Node c l z k r))" and T': "left T' (cpar T cs) = left T (cpar T cs)" "live T' = live T" "nil T' = NULL"
  shows "link_parent T' (cpar T cs) z y = Some (up cs y T')"
    and "parent T' z = cpar T cs \<Longrightarrow> relink_up T' z y = up cs y T'"
proof -
  note q = safe_cpar [OF S] and n = safe_null [OF S] and cl = ctx_left [OF safe_rep [OF S]]
  show "link_parent T' (cpar T cs) z y = Some (up cs y T')"
    using q n T' cl by (cases cs; cases "hd cs") (auto simp: link_parent_def)
  show "relink_up T' z y = up cs y T'" if "parent T' z = cpar T cs"
    using q n T' cl that by (cases cs; cases "hd cs") (auto simp: relink_up_def)
qed

section \<open>Heaps that differ at the null pointer\<close>

lemma rep_set_parent_nil:
  assumes "rep (set_parent (nil T) q T) t"
  shows "rep T t"
proof -
  have "nil T \<notin> nodes t" using rep_nil [OF assms] by simp
  then have "tree_at T (nil T) t = tree_at (set_parent (nil T) q T) (nil T) t"
    by (intro tree_at_agree) (auto simp: agree_def same_def)
  moreover have "ptr (set_parent (nil T) q T) t = ptr T t" by (rule ptr_nil) simp
  ultimately show ?thesis using assms by (simp add: rep_def)
qed

text \<open>What unlinking has to leave for the repair loop.\<close>

definition detached :: "rbtree \<Rightarrow> rbtree \<Rightarrow> addr \<Rightarrow> addr \<Rightarrow> color \<Rightarrow> (addr \<times> int) list \<Rightarrow> bool" where
  "detached T T' x p oc w \<longleftrightarrow> (\<exists>cs s. keeps T T' \<and> rep T' (plug cs s) \<and> x = ptr T' s \<and> p = cpar T' cs \<and>
     inord (plug cs s) = w \<and> sub_ok s (bh s) \<and> (if oc = BLACK then ctx_inv cs (Suc (bh s)) else rb_ok (plug cs s)))"

lemma detachedI:
  assumes "unlinked T T0 x oc cs s w" "T0 = T' \<or> T0 = set_parent NULL q T'" "nil T = NULL"
  shows "detached T T' x (cpar T' cs) oc w"
proof -
  have "keeps T T0" using assms(1) by (simp add: unlinked_def)
  then have n: "nil T' = nil T0" "keeps T T'" using assms(2) by (elim disjE; simp add: keeps_def)+
  have "rep T0 (plug cs s)" "nil T' = NULL" using assms(1,3) n(2) by (simp_all add: unlinked_def keeps_def)
  then have "rep T' (plug cs s)" using assms(2) rep_set_parent_nil [of T' q "plug cs s"] by (elim disjE) simp_all
  moreover have "ptr T' s = ptr T0 s" by (rule ptr_nil [OF n(1)])
  ultimately show ?thesis using assms(1) n(2) unfolding unlinked_def detached_def
    by (intro exI [of _ cs] exI [of _ s]) simp
qed

section \<open>At most one child\<close>

lemma transplant_up:
  assumes S: "safe T (plug cs (Node c l z k r))"
  shows "rbtree_transplant T z v = set_parent v (cpar T cs) (up cs v T)"
  using up_link(2) [OF S, of T] rep_reads(5) [OF safe_rep [OF S]] safe_null [OF S] by (simp add: transplant_eq)

lemma up_set_parent: "up cs y (set_parent a q T) = set_parent a q (up cs y T)"
  by (cases cs; cases "hd cs") (simp_all add: set_parent_def set_left_def set_right_def)

lemma unlink_one_ok:
  assumes S: "safe T (plug cs (Node c l z k r))" and ok: "rb_ok (plug cs (Node c l z k r))" and lr: "l = Leaf \<or> r = Leaf"
  shows "\<exists>T' x p oc. unlink_one T z = Some (T', x, p, oc) \<and> detached T T' x p oc (before cs @ inord l @ inord r @ after cs)"
proof -
  let ?s = "if l \<noteq> Leaf then l else r" let ?x = "ptr T ?s" and ?q = "cpar T cs"
  have "l = Leaf \<and> ?s = r \<or> r = Leaf \<and> ?s = l" using lr by auto
  from unlink_child [OF safe_rep [OF S] ok this]
  have U: "unlinked T (set_parent ?x ?q (up cs ?x T)) ?x c cs ?s (before cs @ inord l @ inord r @ after cs)"
    by (simp add: transplant_up [OF S])
  note rd = safe_reads [OF S] and pl = safe_ptr [OF safe_child(1) [OF S]] and pr = safe_ptr [OF safe_child(2) [OF S]]
  have ch: "(if ptr T l \<noteq> NULL then Some (ptr T l) else ld right T z) = Some ?x" using pl rd by auto
  have n: "nil T = NULL" using safe_null [OF S] by simp
  show ?thesis
  proof (cases "?x = NULL")
    case True
    have "unlink_one T z = Some (up cs ?x T, ?x, ?q, c)"
      using rd ch up_link(1) [OF S, of T] n True by (simp add: unlink_one_def)
    moreover have "detached T (up cs ?x T) ?x (cpar (up cs ?x T) cs) c (before cs @ inord l @ inord r @ after cs)"
      by (rule detachedI [OF U]) (use True n in auto)
    ultimately show ?thesis using cpar_nil [of "up cs ?x T" T cs] by auto
  next
    case False
    then have lv: "?x \<in> live T" using pl pr by auto
    let ?T = "set_parent ?x ?q T"
    have "unlink_one T z = Some (up cs ?x ?T, ?x, ?q, c)"
      using rd ch up_link(1) [OF S, of ?T] n False lv by (simp add: unlink_one_def)
    moreover have "detached T (up cs ?x ?T) ?x (cpar (up cs ?x ?T) cs) c (before cs @ inord l @ inord r @ after cs)"
      by (rule detachedI [OF U]) (simp_all add: up_set_parent n)
    ultimately show ?thesis using cpar_nil [of "up cs ?x ?T" T cs] by auto
  qed
qed

section \<open>Two children\<close>

lemma min_loop_eq:
  assumes "safe T (plug cs r)" "r \<noteq> Leaf"
  shows "minimum_loop T (ptr T r) = rbtree_minimum T (ptr T r)"
  using assms
proof (induction r arbitrary: cs)
  case (Node c l a k r)
  note ch = safe_child(1) [OF Node.prems(1)]
  show ?case
    using safe_reads(3) [OF Node.prems(1)] rep_reads(3) [OF safe_rep [OF Node.prems(1)]] safe_ptr [OF ch]
      Node.IH(1) [OF ch] safe_null [OF ch]
    by (auto simp: minimum_loop.simps [of T a] rbtree_minimum.simps [of T a])
qed simp

text \<open>The end of \<^verbatim>\<open>unlink_both\<close>: \<^verbatim>\<open>replace\<close> takes the parent, colour and left child of \<^verbatim>\<open>node\<close>.\<close>

definition take_place :: "addr \<Rightarrow> addr \<Rightarrow> color \<Rightarrow> addr \<Rightarrow> rbtree \<Rightarrow> rbtree" where
  "take_place y q c nl T = set_parent nl y (set_left y nl (set_color y c (set_parent y q T)))"

lemma put_in_place_up:
  assumes "relink_up T z y = up cs y T" "parent T z = q" "left (up cs y T) z = nl" "color T z = c" "z \<noteq> y"
  shows "put_in_place T z y = take_place y q c nl (up cs y T)"
  using assms by (simp add: put_in_place_def transplant_eq Let_def take_place_def)

lemma take_place_null:
  "nl \<noteq> NULL \<Longrightarrow> y \<noteq> NULL \<Longrightarrow> take_place y q c nl (set_parent NULL p T) = set_parent NULL p (take_place y q c nl T)"
  by (simp add: take_place_def set_parent_def set_left_def set_color_def fun_upd_twist)

lemma take_place_run:
  assumes "y \<in> live T" "z \<in> live T" "nl \<in> live T" "parent T z = q" "color T z = c" "left T z = nl" "z \<noteq> y"
  shows "take_over T z y = Some (take_place y q c nl T)"
  using assms by (simp add: take_place_def take_over_def)

text \<open>The addresses that take part are different.\<close>

lemma two_distinct:
  assumes S: "safe T (plug cs (Node c l z k (plug ds (Node cy Leaf y ky ry))))" and ne: "l \<noteq> Leaf"
  shows "z \<noteq> y" "ptr T l \<noteq> y" "ptr T l \<noteq> z" "z \<noteq> cpar T cs" "y \<noteq> cpar T cs" "ptr T ry \<noteq> z" "ptr T ry \<noteq> y"
    "y \<in> live T" "z \<in> live T" "ptr T l \<in> live T" "y \<noteq> NULL" "ptr T l \<noteq> NULL"
proof -
  let ?Y = "Node cy Leaf y ky ry"
  have R: "rep T (plug cs (Node c l z k (plug ds ?Y)))" by (rule safe_rep [OF S])
  have D: "z \<noteq> y" "z \<notin> nodes l" "z \<notin> nodes ry" "y \<notin> nodes l" "y \<notin> nodes ry" "z \<notin> cnodes cs" "y \<notin> cnodes cs"
    using R by (auto simp: rep_plug nodes_plug dtree_plug)
  have n: "nil T = NULL" "NULL \<notin> live T" and lv: "y \<in> live T" "z \<in> live T" "nodes l \<subseteq> live T"
    using S by (auto simp: safe_def nodes_plug)
  have pl: "ptr T l \<in> nodes l" using ne by (cases l) auto
  show "z \<noteq> y" "ptr T l \<noteq> y" "ptr T l \<noteq> z" "y \<in> live T" "z \<in> live T" "ptr T l \<in> live T" using D lv pl by auto
  show yn: "y \<noteq> NULL" "ptr T l \<noteq> NULL" using live_pos [OF _ n(2)] lv pl by blast+
  have zn: "z \<noteq> NULL" using live_pos [OF lv(2) n(2)] by simp
  show "z \<noteq> cpar T cs" "y \<noteq> cpar T cs" using D zn yn n cpar_cnodes [of cs T] by (cases cs; auto)+
  show "ptr T ry \<noteq> z" "ptr T ry \<noteq> y" using D zn yn n ptr_nodes [of T ry] by auto
qed

lemma unlink_adjacent_ok:
  assumes S: "safe T (plug cs (Node c l z k (Node cy Leaf y ky ry)))" and ne: "l \<noteq> Leaf"
  shows "\<exists>T'. unlink_both T z = Some (T', ptr T ry, y, cy) \<and>
    (put_in_place (set_parent (ptr T ry) y T) z y = T' \<or> put_in_place (set_parent (ptr T ry) y T) z y = set_parent NULL y T')"
proof -
  let ?Y = "Node cy Leaf y ky ry" let ?x = "ptr T ry" and ?q = "cpar T cs" and ?nl = "ptr T l"
  have Sy: "safe T (plug (InR c z k l # cs) ?Y)" using S by simp
  note d = two_distinct [of T cs c l z k "[]" cy y ky ry, unfolded plug.simps, OF S ne]
  note rz = safe_reads [OF S] and ry = safe_reads [OF Sy] and n = safe_null [OF S]
  note rz' = rep_reads [OF safe_rep [OF S]]
  let ?T1 = "up cs y T" let ?T' = "take_place y ?q c ?nl ?T1"
  have T1: "right ?T1 y = ?x" "left ?T1 z = ?nl" using d rz' rep_reads(4) [OF safe_rep [OF Sy]] by simp_all
  have mn: "minimum_loop T y = Some y" using ry(3) n by (simp add: minimum_loop.simps [of T y])
  have run: "unlink_both T z = Some (?T', ?x, y, cy)"
    using rz ry mn up_link(1) [OF S, of T y] n T1 d rz' rep_reads [OF safe_rep [OF Sy]] take_place_run [of y ?T1 z ?nl ?q c]
    by (simp add: unlink_both_def)
  let ?T0 = "set_parent ?x y T"
  have "put_in_place ?T0 z y = take_place y ?q c ?nl (up cs y ?T0)"
    by (rule put_in_place_up) (use up_link(2) [OF S, of ?T0] d n rz' T1 in \<open>simp_all add: up_set_parent\<close>)
  also have "\<dots> = (if ?x = NULL then set_parent NULL y ?T' else ?T')"
  proof (cases "?x = NULL")
    case True
    then show ?thesis using d take_place_null [of ?nl y] by (simp add: up_set_parent)
  next
    case False
    then have "parent T ?x = y" using safe_ptr [OF safe_child(2) [OF Sy]] parent_ptr [of T "InR cy y ky Leaf # InR c z k l # cs" ry] safe_rep [OF S] by auto
    then have "?T0 = T" by (simp add: set_parent_def fun_upd_idem)
    then show ?thesis using False by simp
  qed
  finally show ?thesis using run by auto
qed

text \<open>The successor is deeper: it is a left child, and its right subtree takes its place.\<close>

lemma deep_distinct:
  assumes S: "safe T (plug cs (Node c l z k (plug ds (Node cy Leaf y ky ry))))" and ne: "ds \<noteq> []"
  shows "cpar T ds \<noteq> z" "cpar T ds \<noteq> y" "cpar T ds \<noteq> cpar T cs" "ptr T (plug ds (Node cy Leaf y ky ry)) \<noteq> z"
    "ptr T (plug ds (Node cy Leaf y ky ry)) \<noteq> y" "cpar T ds \<in> live T" "ptr T (plug ds (Node cy Leaf y ky ry)) \<in> live T"
    "cpar T ds \<noteq> NULL" "ptr T (plug ds (Node cy Leaf y ky ry)) \<noteq> NULL"
proof -
  let ?Y = "Node cy Leaf y ky ry"
  have R: "rep T (plug cs (Node c l z k (plug ds ?Y)))" by (rule safe_rep [OF S])
  have D: "z \<notin> cnodes ds" "y \<notin> cnodes ds" "cnodes ds \<inter> cnodes cs = {}"
    using R by (auto simp: rep_plug nodes_plug dtree_plug)
  have n: "nil T = NULL" "NULL \<notin> live T" and lv: "cnodes ds \<subseteq> live T"
    using S by (auto simp: safe_def nodes_plug)
  have p: "cpar T ds \<in> cnodes ds" "ptr T (plug ds ?Y) \<in> cnodes ds" using cpar_cnodes [OF ne] plug_root [OF ne] by auto
  show "cpar T ds \<noteq> z" "cpar T ds \<noteq> y" "ptr T (plug ds ?Y) \<noteq> z" "ptr T (plug ds ?Y) \<noteq> y" "cpar T ds \<in> live T"
    "ptr T (plug ds ?Y) \<in> live T" using D p lv by auto
  then show nn: "cpar T ds \<noteq> NULL" "ptr T (plug ds ?Y) \<noteq> NULL" using live_pos [OF _ n(2)] by blast+
  show "cpar T ds \<noteq> cpar T cs" using D p nn n cpar_cnodes [of cs T] by (cases cs) auto
qed

lemma deep_left:
  assumes "rep T (plug ds (Node cy Leaf y ky ry))" "before ds = []" "ds \<noteq> []"
  shows "left T (cpar T ds) = y"
proof -
  obtain d q kq s ds' where "ds = InL d q kq s # ds'" using assms(2,3) by (cases ds; cases "hd ds") auto
  then show ?thesis using rep_reads(3) [of T ds' d "Node cy Leaf y ky ry" q kq s] assms(1) by simp
qed

text \<open>The writes of the middle part, on top of a heap, and that they do not touch the pointer to the node.\<close>

definition move_up :: "addr \<Rightarrow> addr \<Rightarrow> addr \<Rightarrow> addr \<Rightarrow> rbtree \<Rightarrow> rbtree" where
  "move_up y ch p nr T = set_parent nr y (set_right y nr (set_left p ch (if ch \<noteq> NULL then set_parent ch p T else T)))"

lemma up_move_up:
  assumes "cs = [] \<or> cpar T cs \<noteq> p \<and> cpar T cs \<noteq> y"
  shows "up cs a (move_up y ch p nr T) = move_up y ch p nr (up cs a T)"
  using assms by (cases cs; cases "hd cs")
    (auto simp: move_up_def set_parent_def set_left_def set_right_def fun_upd_twist)

lemma move_up_null: "nr \<noteq> NULL \<Longrightarrow>
    set_parent nr y (set_right y nr (set_parent NULL p (set_left p NULL T))) = set_parent NULL p (move_up y NULL p nr T)"
  by (simp add: move_up_def set_parent_def set_left_def set_right_def fun_upd_twist)

lemma move_up_parent: "ch \<noteq> NULL \<Longrightarrow>
    set_parent nr y (set_right y nr (set_parent ch p (set_left p ch T))) = move_up y ch p nr T"
  by (simp add: move_up_def set_parent_def set_left_def set_right_def)

lemma move_up_reads:
  assumes "z \<noteq> p" "z \<noteq> y" "z \<noteq> ch" "z \<noteq> nr"
  shows "parent (move_up y ch p nr T) z = parent T z" "left (move_up y ch p nr T) z = left T z"
    "color (move_up y ch p nr T) = color T" "live (move_up y ch p nr T) = live T" "nil (move_up y ch p nr T) = nil T"
    "right (move_up y ch p nr T) z = right T z" "cpar (move_up y ch p nr T) cs = cpar T cs"
    "a \<noteq> p \<Longrightarrow> left (move_up y ch p nr T) a = left T a"
  using assms by (cases cs; simp add: move_up_def)+

lemma unlink_deep_run:
  assumes S: "safe T (plug cs (Node c l z k (plug ds (Node cy Leaf y ky ry))))" and ne: "l \<noteq> Leaf" "ds \<noteq> []"
    and m: "rbtree_minimum T (ptr T (plug ds (Node cy Leaf y ky ry))) = Some y"
  shows "unlink_both T z = Some (take_place y (cpar T cs) c (ptr T l)
    (move_up y (ptr T ry) (cpar T ds) (ptr T (plug ds (Node cy Leaf y ky ry))) (up cs y T)), ptr T ry, cpar T ds, cy)"
proof -
  let ?Y = "Node cy Leaf y ky ry" let ?r = "plug ds ?Y" let ?x = "ptr T ry" and ?p = "cpar T ds" and ?nr = "ptr T ?r"
  have Sy: "safe T (plug (ds @ InR c z k l # cs) ?Y)" using S by (simp add: plug_append)
  note d = two_distinct [OF S ne(1)] deep_distinct [OF S ne(2)]
  note rz = safe_reads [OF S] and rz' = rep_reads [OF safe_rep [OF S]] and ry' = rep_reads [OF safe_rep [OF Sy]]
  have par: "parent T y = ?p" using ry'(5) ne(2) by (cases ds) auto
  have x: "?x = NULL \<or> ?x \<in> live T" using safe_ptr [OF safe_child(2) [OF Sy]] by auto
  have "ptr T ?r \<noteq> NULL \<and> ?r \<noteq> Leaf" using safe_ptr [OF safe_child(2) [OF S]] d by auto
  then have mn: "minimum_loop T ?nr = Some y" using min_loop_eq [OF safe_child(2) [OF S]] m by simp
  let ?T1 = "up cs y T" let ?M = "move_up y ?x ?p ?nr ?T1"
  have T1: "right ?T1 y = ?x" "left ?T1 z = ptr T l" "right ?T1 z = ?nr" using d rz' ry' by simp_all
  have mid: "lift_child ?T1 z y ?x ?p = Some ?M"
    using x d T1 by (auto simp: move_up_def lift_child_def)
  have "z \<noteq> ?p" "z \<noteq> y" "z \<noteq> ?x" "z \<noteq> ?nr" using d by auto
  note M = move_up_reads [OF this, where T = ?T1]
  have T1ld: "ld right ?T1 y = Some ?x" "ld parent ?T1 y = Some ?p" "ld color ?T1 y = Some cy"
    using T1 d par ry' by simp_all
  have "take_over ?M z y = Some (take_place y (cpar T cs) c (ptr T l) ?M)"
    by (rule take_place_run) (use M d T1 rz' in simp_all)
  then show ?thesis
    using rz mn up_link(1) [OF S, of T y] safe_null [OF S] T1ld mid d by (simp add: unlink_both_def)
qed

lemma unlink_deep_ok:
  assumes S: "safe T (plug cs (Node c l z k (plug ds (Node cy Leaf y ky ry))))" and ne: "l \<noteq> Leaf" "ds \<noteq> []"
    and m: "rbtree_minimum T (ptr T (plug ds (Node cy Leaf y ky ry))) = Some y" and b: "before ds = []"
  defines "P \<equiv> put_in_place (let T = rbtree_transplant T y (ptr T ry)
     in set_parent (right T z) y (set_right y (right T z) T)) z y"
  shows "\<exists>T'. unlink_both T z = Some (T', ptr T ry, cpar T ds, cy) \<and> (P = T' \<or> P = set_parent NULL (cpar T ds) T')"
proof -
  let ?Y = "Node cy Leaf y ky ry" let ?r = "plug ds ?Y" let ?x = "ptr T ry" and ?p = "cpar T ds" and ?nr = "ptr T ?r"
  have Sy: "safe T (plug (ds @ InR c z k l # cs) ?Y)" using S by (simp add: plug_append)
  note d = two_distinct [OF S ne(1)] deep_distinct [OF S ne(2)]
  note rz' = rep_reads [OF safe_rep [OF S]] and n = safe_null [OF S]
  obtain e q kq s ds' where ds: "ds = InL e q kq s # ds'" using b ne(2) by (cases ds; cases "hd ds") auto
  let ?T0 = "set_parent ?x ?p (set_left ?p ?x T)"
  have T0: "rbtree_transplant T y ?x = ?T0" using transplant_up [OF Sy] ds by simp
  let ?T00 = "set_parent ?nr y (set_right y ?nr ?T0)"
  have P: "P = put_in_place ?T00 z y" using rz'(4) by (simp add: P_def T0 Let_def)
  have "P = take_place y (cpar T cs) c (ptr T l) (up cs y ?T00)"
    unfolding P by (rule put_in_place_up)
      (use up_link(2) [OF S, of ?T00] d n rz' in \<open>simp_all add: up_set_parent\<close>)
  moreover have "?T00 = (if ?x = NULL then set_parent NULL ?p (move_up y ?x ?p ?nr T) else move_up y ?x ?p ?nr T)"
    using move_up_null [of ?nr y ?p T] move_up_parent [of ?x ?nr y ?p T] d by simp
  moreover have "up cs y (move_up y ?x ?p ?nr T) = move_up y ?x ?p ?nr (up cs y T)"
    by (rule up_move_up) (use d in auto)
  ultimately show ?thesis
    using unlink_deep_run [OF S ne m] take_place_null [of "ptr T l" y] d
    by (auto simp: up_set_parent split: if_splits)
qed

lemma unlink_both_ok:
  assumes S: "safe T (plug cs (Node c l z k r))" and ok: "rb_ok (plug cs (Node c l z k r))" and ne: "l \<noteq> Leaf" "r \<noteq> Leaf"
  shows "\<exists>T' x p oc. unlink_both T z = Some (T', x, p, oc) \<and> detached T T' x p oc (before cs @ inord l @ inord r @ after cs)"
proof -
  have R: "rep T (plug cs (Node c l z k r))" and n: "nil T = NULL" using safe_rep [OF S] safe_null [OF S] by simp_all
  have "tree_at T z r" using R by (simp add: rep_plug)
  then obtain ds cy y ky ry where d: "r = plug ds (Node cy Leaf y ky ry)" "before ds = []" "rbtree_minimum T (ptr T r) = Some y"
    using minimum_ok [OF _ ne(2)] by blast
  note two = unlink_two [OF R [unfolded d(1)] ok [unfolded d(1)] _ _ _ d(2), folded d(1)]
  let ?w = "before cs @ inord l @ inord r @ after cs"
  show ?thesis
  proof (cases "ds = []")
    case True
    let ?P = "put_in_place (set_parent (ptr T ry) y T) z y"
    have Sa: "safe T (plug cs (Node c l z k (Node cy Leaf y ky ry)))" using S d(1) True by simp
    obtain T' where T': "unlink_both T z = Some (T', ptr T ry, y, cy)" "?P = T' \<or> ?P = set_parent NULL y T'"
      using unlink_adjacent_ok [OF Sa ne(1)] by blast
    have "unlinked T ?P (ptr T ry) cy (ds @ InR c y ky l # cs) ry ?w"
      by (rule two) (use unlink_adjacent [OF safe_rep [OF Sa] ne(1)] True in simp_all)
    from detachedI [OF this T'(2) n] show ?thesis using T'(1) True by auto
  next
    case False
    let ?P = "put_in_place (let T = rbtree_transplant T y (ptr T ry)
         in set_parent (right T z) y (set_right y (right T z) T)) z y"
    note Sd = S [unfolded d(1)]
    obtain T' where T': "unlink_both T z = Some (T', ptr T ry, cpar T ds, cy)" "?P = T' \<or> ?P = set_parent NULL (cpar T ds) T'"
      using unlink_deep_ok [OF Sd ne(1) False _ d(2)] d(1,3) by auto
    note dp = unlink_deep [OF safe_rep [OF Sd] ne(1) False]
    have U: "unlinked T ?P (ptr T ry) cy (ds @ InR c y ky l # cs) ry ?w"
      by (rule two) (use dp False in \<open>cases ds; simp add: Let_def\<close>)+
    have "cpar T' (ds @ InR c y ky l # cs) = cpar T ds" using False by (cases ds) auto
    with detachedI [OF U T'(2) n] show ?thesis using T'(1) by auto
  qed
qed

end
