(* ===== verification/Rb_Cxx_Spec.thy ===== *)
theory Rb_Cxx_Spec
  imports Rb_Cxx_Unlink RbTree_Spec
begin

text \<open>
  The C++ tree as a multiset of keys: removal, searching, traversal, neighbours in the order, what
  \<^verbatim>\<open>destroy\<close> frees, the interpretation of the refinement contract and the tree's properties.
\<close>

section \<open>Removal\<close>

lemma removal_repair:
  assumes D: "detached T T1 x p oc w" and U: "usable T w"
  shows "\<exists>T' t'. (if oc = BLACK then removeFixUp T1 x p else Some T1) = Some T' \<and> keeps T T' \<and> rep T' t' \<and> rb_ok t' \<and> inord t' = w"
proof -
  obtain cs s where d: "keeps T T1" "rep T1 (plug cs s)" "x = ptr T1 s" "p = cpar T1 cs" "inord (plug cs s) = w" "sub_ok s (bh s)"
    "if oc = BLACK then ctx_inv cs (Suc (bh s)) else rb_ok (plug cs s)" using D unfolding detached_def by blast
  show ?thesis
  proof (cases oc)
    case BLACK
    have "weak s (bh s)" using d(6) by (cases s) (auto simp: weak_def sub_ok_def)
    moreover have "safe T1 (plug cs s)" using d(1,2,5) usable_keeps [OF U] by (simp add: safe_usable)
    ultimately have "rem_inv T1 x cs s (bh s) w" using d BLACK by (simp add: rem_inv_def)
    from removeFixUp_ok [OF this] show ?thesis using BLACK d(4) keeps_trans [OF d(1)] by auto
  next
    case RED
    then show ?thesis using d by auto
  qed
qed

lemma safe_free:
  assumes "rep T t" "usable T (inord t)" "z \<notin> nodes t"
  shows "safe (T\<lparr>live := live T - {z}\<rparr>) t"
  using assms by (auto simp: safe_def usable_def nodes_inord rep_live)

lemma remove_node_ok:
  assumes S: "safe T t" and ok: "rb_ok t" and z: "z \<in> nodes t"
  shows "\<exists>T' t' xs ys. remove_node T z = Some T' \<and> safe T' t' \<and> rb_ok t' \<and> inord t = xs @ (z, key T z) # ys \<and>
    inord t' = xs @ ys \<and> key T' = key T \<and> live T' = live T - {z}"
proof -
  obtain cs c l k r where t: "t = plug cs (Node c l z k r)" using find_node [OF z] by blast
  note S' = S [unfolded t] and ok' = ok [unfolded t]
  let ?w = "before cs @ inord l @ inord r @ after cs"
  have k: "key T z = k" using rep_reads(2) [OF safe_rep [OF S']] .
  have leaf: "ptr T l = NULL \<longleftrightarrow> l = Leaf" "ptr T r = NULL \<longleftrightarrow> r = Leaf"
    using safe_ptr [OF safe_child(1) [OF S']] safe_ptr [OF safe_child(2) [OF S']] by auto
  have "\<exists>T1 x p oc. (if ptr T l \<noteq> NULL \<and> ptr T r \<noteq> NULL then unlink_both T z else unlink_one T z) = Some (T1, x, p, oc) \<and>
      detached T T1 x p oc ?w"
    using unlink_both_ok [OF S' ok'] unlink_one_ok [OF S' ok'] leaf by (cases "l = Leaf \<or> r = Leaf") auto
  then obtain T1 x p oc where u: "(if ptr T l \<noteq> NULL \<and> ptr T r \<noteq> NULL then unlink_both T z else unlink_one T z) = Some (T1, x, p, oc)"
    "detached T T1 x p oc ?w" by blast
  have U: "usable T ?w" using S' by (auto simp: safe_usable usable_def inord_plug)
  from removal_repair [OF u(2) U] obtain T2 t' where f: "(if oc = BLACK then removeFixUp T1 x p else Some T1) = Some T2"
    "keeps T T2" "rep T2 t'" "rb_ok t'" "inord t' = ?w" by blast
  have zl: "z \<in> live T2" using safe_live [OF S'] f(2) by (simp add: keeps_def)
  have "remove_node T z = Some (T2\<lparr>live := live T2 - {z}\<rparr>)"
    using safe_reads(3,4) [OF S'] u(1) f(1) zl by (simp add: remove_node_def free_node_def split del: if_split)
  moreover have "z \<notin> nodes t'" using safe_rep [OF S'] f(5) by (auto simp: rep_plug nodes_inord inord_plug rep_def dtree_inord t)
  then have "safe (T2\<lparr>live := live T2 - {z}\<rparr>) t'" using safe_free [OF f(3)] usable_keeps [OF U f(2)] f(5) by simp
  moreover have "inord t = (before cs @ inord l) @ (z, key T z) # (inord r @ after cs)" by (simp add: t inord_plug k)
  moreover have "inord t' = (before cs @ inord l) @ (inord r @ after cs)" using f(5) by simp
  ultimately show ?thesis using f(2,4)
    by (intro exI [of _ "T2\<lparr>live := live T2 - {z}\<rparr>"] exI [of _ t'] exI [of _ "before cs @ inord l"]
        exI [of _ "inord r @ after cs"]) (simp add: keeps_def)
qed

section \<open>Searching and traversal\<close>

lemma search_node_eq:
  assumes "safe T (plug cs s)"
  shows "search_node T (ptr T s) k = search_loop T k (ptr T s)" "iterativeSearch T (ptr T s) k = search_loop T k (ptr T s)"
  using assms
proof (induction s arbitrary: cs)
  case Leaf
  { case 1 then show ?case using safe_null by (simp add: search_node.simps search_loop.simps) }
  { case 2 then show ?case using safe_null by (simp add: iterativeSearch.simps search_loop.simps) }
next
  case (Node c l a x r)
  { case 1
    show ?case using safe_reads [OF 1] rep_reads [OF safe_rep [OF 1]] safe_null [OF 1] Node.IH(1) [OF safe_child(1) [OF 1]]
        Node.IH(3) [OF safe_child(2) [OF 1]] by (auto simp: search_node.simps [of T a] search_loop.simps [of T k a]) }
  { case 2
    show ?case using safe_reads [OF 2] rep_reads [OF safe_rep [OF 2]] safe_null [OF 2] Node.IH(2) [OF safe_child(1) [OF 2]]
        Node.IH(4) [OF safe_child(2) [OF 2]] by (auto simp: iterativeSearch.simps [of T a] search_loop.simps [of T k a]) }
qed

fun pre_keys :: "rbt \<Rightarrow> int list" where
  "pre_keys Leaf = []"
| "pre_keys (Node c l a k r) = k # pre_keys l @ pre_keys r"

fun post_keys :: "rbt \<Rightarrow> int list" where
  "post_keys Leaf = []"
| "post_keys (Node c l a k r) = post_keys l @ post_keys r @ [k]"

lemma traversals:
  assumes "safe T (plug cs s)"
  shows "preOrder T (ptr T s) = Some (pre_keys s)" "inOrder T (ptr T s) = Some (keys s)" "postOrder T (ptr T s) = Some (post_keys s)"
  using assms
proof (induction s arbitrary: cs)
  case Leaf
  { case 1 then show ?case using safe_null by (simp add: preOrder.simps) }
  { case 2 then show ?case using safe_null by (simp add: inOrder.simps keys_def) }
  { case 3 then show ?case using safe_null by (simp add: postOrder.simps) }
next
  case (Node c l a x r)
  { case 1
    show ?case using safe_reads [OF 1] Node.IH(1) [OF safe_child(1) [OF 1]] Node.IH(4) [OF safe_child(2) [OF 1]]
      by (simp add: preOrder.simps [of T a]) }
  { case 2
    show ?case using safe_reads [OF 2] Node.IH(2) [OF safe_child(1) [OF 2]] Node.IH(5) [OF safe_child(2) [OF 2]]
      by (simp add: inOrder.simps [of T a] keys_def) }
  { case 3
    show ?case using safe_reads [OF 3] Node.IH(3) [OF safe_child(1) [OF 3]] Node.IH(6) [OF safe_child(2) [OF 3]]
      by (simp add: postOrder.simps [of T a]) }
qed

section \<open>Neighbours\<close>

definition first_of :: "(addr \<times> int) list \<Rightarrow> addr" where
  "first_of w = (case w of [] \<Rightarrow> NULL | (a, k) # w' \<Rightarrow> a)"

lemma minimum_node_first:
  assumes "safe T (plug cs r)"
  shows "minimum_node T (ptr T r) = Some (first_of (inord r))"
proof (cases "r = Leaf")
  case True
  then show ?thesis using safe_null [OF assms] by (simp add: minimum_node_def first_of_def)
next
  case False
  have "tree_at T (cpar T cs) r" using safe_rep [OF assms] by (simp add: rep_plug)
  from minimum_ok [OF this False] obtain ds cy y ky ry where d: "r = plug ds (Node cy Leaf y ky ry)" "before ds = []"
    "rbtree_minimum T (ptr T r) = Some y" by blast
  have "inord r = (y, ky) # inord ry @ after ds" using d(1,2) by (simp add: inord_plug)
  then show ?thesis
    using min_loop_eq [OF assms False] d(3) safe_ptr [OF assms] False by (simp add: minimum_node_def first_of_def)
qed

lemma succ_climb_first:
  assumes "safe T (plug cs s)" "s \<noteq> Leaf"
  shows "succ_climb T (ptr T s) (cpar T cs) = Some (first_of (after cs))"
  using assms
proof (induction cs arbitrary: s)
  case Nil
  then show ?case using safe_null [OF Nil(1)] by (simp add: succ_climb.simps first_of_def)
next
  case (Cons f cs)
  show ?case
  proof (cases f)
    case (InL c a k r)
    have S: "safe T (plug cs (Node c s a k r))" using Cons.prems InL by simp
    then show ?thesis
      using safe_reads [OF S] ptr_siblings [OF safe_rep [OF S]] Cons.prems(2) InL
      by (simp add: succ_climb.simps [of T "ptr T s"] first_of_def)
  next
    case (InR c a k l)
    have S: "safe T (plug cs (Node c l a k s))" using Cons.prems InR by simp
    from Cons.IH [OF S] show ?thesis
      using safe_reads [OF S] InR by (simp add: succ_climb.simps [of T "ptr T s"])
  qed
qed

lemma successor_ok:
  assumes "safe T (plug cs (Node c l a k r))"
  shows "successor T a = Some (first_of (inord r @ after cs))"
proof (cases "r = Leaf")
  case True
  then show ?thesis using safe_reads [OF assms] succ_climb_first [OF assms] safe_null [OF assms] by (simp add: successor_def)
next
  case False
  then have "inord r \<noteq> []" by (cases r) auto
  then have "first_of (inord r @ after cs) = first_of (inord r)" by (cases "inord r") (auto simp: first_of_def)
  then show ?thesis
    using safe_reads [OF assms] minimum_node_first [OF safe_child(2) [OF assms]] safe_ptr [OF safe_child(2) [OF assms]] False
    by (simp add: successor_def)
qed

text \<open>Predecessors and maxima, by symmetry.\<close>

lemma max_loop_mirror:
  assumes "safe T (plug cs r)" "r \<noteq> Leaf"
  shows "maximum_loop T (ptr T r) = minimum_loop (mirror T) (ptr T r)"
  using assms
proof (induction r arbitrary: cs)
  case (Node c l a k r)
  note ch = safe_child(2) [OF Node.prems(1)]
  show ?case
    using safe_reads(4) [OF Node.prems(1)] safe_ptr [OF ch] Node.IH(2) [OF ch]
    by (auto simp: maximum_loop.simps [of T a] minimum_loop.simps [of "mirror T" a])
qed simp

lemma pred_climb_mirror:
  assumes "safe T (plug cs s)"
  shows "pred_climb T x (cpar T cs) = succ_climb (mirror T) x (cpar T cs)"
  using assms
proof (induction cs arbitrary: s x)
  case Nil
  then show ?case using safe_null [OF Nil] by (simp add: succ_climb.simps pred_climb.simps)
next
  case (Cons f cs)
  obtain c l a k r where S: "safe T (plug cs (Node c l a k r))" "fadr f = a" using Cons.prems by (cases f) auto
  from Cons.IH [OF S(1), of a] show ?case
    using safe_reads [OF S(1)] S(2) by (simp add: succ_climb.simps [of "mirror T" x] pred_climb.simps [of T x])
qed

lemma maximum_node_mirror:
  "safe T (plug cs r) \<Longrightarrow> maximum_node T (ptr T r) = minimum_node (mirror T) (ptr T r)"
  using max_loop_mirror [of T cs r] safe_ptr [of T cs r] by (auto simp: maximum_node_def minimum_node_def)

lemma predecessor_mirror:
  assumes "safe T (plug cs (Node c l a k r))"
  shows "predecessor T a = successor (mirror T) a"
  using safe_reads [OF assms] maximum_node_mirror [OF safe_child(1) [OF assms]] pred_climb_mirror [OF assms, of a]
  by (auto simp: predecessor_def successor_def)

lemma before_mirror: "after (map mirror_f cs) = rev (before cs)"
  by (induction cs rule: before.induct) simp_all

lemma predecessor_ok:
  assumes "safe T (plug cs (Node c l a k r))"
  shows "predecessor T a = Some (first_of (rev (before cs @ inord l)))"
proof -
  have "safe (mirror T) (plug (map mirror_f cs) (Node c (mirror_t r) a k (mirror_t l)))"
    using assms safe_mirror [of T cs "Node c l a k r"] by simp
  from successor_ok [OF this] show ?thesis by (simp add: predecessor_mirror [OF assms] before_mirror)
qed

lemma maximum_node_last:
  assumes "safe T (plug cs r)"
  shows "maximum_node T (ptr T r) = Some (first_of (rev (inord r)))"
proof -
  have "safe (mirror T) (plug (map mirror_f cs) (mirror_t r))" using assms by (simp add: safe_mirror)
  from minimum_node_first [OF this] show ?thesis by (simp add: maximum_node_mirror [OF assms])
qed

lemma split_at_address:
  "distinct (map fst (xs @ (a, k) # ys)) \<Longrightarrow> xs @ (a, k) # ys = xs' @ (a, k') # ys' \<Longrightarrow> xs = xs' \<and> ys = ys'"
proof (induction xs arbitrary: xs')
  case Nil
  then show ?case by (cases xs') auto
next
  case (Cons x xs)
  show ?case
  proof (cases xs')
    case Nil
    then show ?thesis using Cons.prems by auto
  next
    case xs': (Cons x' xs'')
    have "distinct (map fst (xs @ (a, k) # ys))" using Cons.prems(1) by simp
    moreover have "xs @ (a, k) # ys = xs'' @ (a, k') # ys'" "x = x'" using Cons.prems(2) xs' by simp_all
    ultimately show ?thesis using Cons.IH [of xs''] xs' by blast
  qed
qed

section \<open>Destruction\<close>

fun slot_of :: "frame list \<Rightarrow> slot" where
  "slot_of [] = Root_slot"
| "slot_of (InL c a k s # cs) = Left_slot a"
| "slot_of (InR c a k s # cs) = Right_slot a"

lemma get_slot_of: "safe T (plug cs s) \<Longrightarrow> get_slot T (slot_of cs) = Some (ptr T s)"
proof (cases cs rule: slot_of.cases)
  case 1
  then show "safe T (plug cs s) \<Longrightarrow> ?thesis" using rep_root by (auto simp: safe_def)
next
  case (2 c a k r cs')
  then show "safe T (plug cs s) \<Longrightarrow> ?thesis" using safe_reads(3) [of T cs' c s a k r] by simp
next
  case (3 c a k l cs')
  then show "safe T (plug cs s) \<Longrightarrow> ?thesis" using safe_reads(4) [of T cs' c l a k s] by simp
qed

lemma up_live: "up cs y (T\<lparr>live := L\<rparr>) = (up cs y T)\<lparr>live := L\<rparr>"
  by (cases cs; cases "hd cs") (simp_all add: set_left_def set_right_def)

lemma put_slot_of:
  assumes "safe T (plug cs (Node c l a k r))"
  shows "put_slot (T\<lparr>live := live T - {a}\<rparr>) (slot_of cs) p = Some ((up cs p T)\<lparr>live := live T - {a}\<rparr>)"
proof -
  have "cpar T cs = NULL \<and> cs = [] \<or> cpar T cs \<in> live T - {a}"
    using safe_cpar [OF assms] safe_rep [OF assms] cpar_cnodes [of cs T] by (auto simp: rep_plug)
  then show ?thesis
    by (cases cs rule: slot_of.cases) (simp_all add: st_def flip: up_live)
qed

lemma destroy_slot_ok:
  assumes "safe T (plug cs s)" "s \<noteq> Leaf"
  shows "\<exists>T' t' a. destroy_slot T (slot_of cs) = Some T' \<and> safe T' t' \<and> a \<in> nodes s \<and>
    live T' = live T - {a} \<and> nodes t' = nodes (plug cs s) - {a}"
  using assms
proof (induction s arbitrary: cs)
  case (Node c l a k r)
  note S = Node.prems(1) and ch = safe_child [OF Node.prems(1)]
  note rd = safe_reads [OF S] get_slot_of [OF S] and pl = safe_ptr [OF ch(1)] and pr = safe_ptr [OF ch(2)]
  consider "l \<noteq> Leaf" | "l = Leaf" "r \<noteq> Leaf" | "l = Leaf" "r = Leaf" by blast
  then show ?case
  proof cases
    case 1
    have "destroy_slot T (slot_of cs) = destroy_slot T (Left_slot a)" using rd pl 1 by (subst destroy_slot.simps) simp
    then show ?thesis using Node.IH(1) [OF ch(1) 1] by (auto simp: nodes_plug)
  next
    case 2
    have "destroy_slot T (slot_of cs) = destroy_slot T (Right_slot a)" using rd pl pr 2 by (subst destroy_slot.simps) simp
    then show ?thesis using Node.IH(2) [OF ch(2) 2(2)] by (auto simp: nodes_plug)
  next
    case 3
    let ?T = "(up cs NULL T)\<lparr>live := live T - {a}\<rparr>"
    have n: "nil T = NULL" using safe_null [OF S] by simp
    have R: "rep (rbtree_transplant T a NULL) (plug cs Leaf)"
      using transplant_child(1) [OF safe_rep [OF S], of Leaf] 3 n by simp
    then have "rep (up cs NULL T) (plug cs Leaf)"
      using rep_set_parent_nil [of "up cs NULL T" "cpar T cs" "plug cs Leaf"] n by (simp add: transplant_up [OF S])
    moreover have d: "a \<notin> cnodes cs" "cnodes cs \<subseteq> live T" using S by (auto simp: safe_def rep_plug nodes_plug)
    ultimately have "safe ?T (plug cs Leaf)" using n safe_null [OF S] by (auto simp: safe_def rep_live nodes_plug)
    moreover have "destroy_slot T (slot_of cs) = Some ?T"
      using rd 3 n safe_live [OF S] put_slot_of [OF S, of NULL] by (subst destroy_slot.simps) (simp add: free_node_def)
    ultimately show ?thesis using 3 d by (intro exI [of _ ?T] exI [of _ "plug cs Leaf"] exI [of _ a]) (auto simp: nodes_plug)
  qed
qed simp

section \<open>The tree as a multiset\<close>

definition wf_cxx :: "rbtree \<Rightarrow> rbt \<Rightarrow> bool" where
  "wf_cxx T t \<longleftrightarrow> safe T t \<and> rb_ok t \<and> sorted (keys t)"

lemma wf_cxxD: "wf_cxx T t \<Longrightarrow> safe T t" "wf_cxx T t \<Longrightarrow> rep T t" "wf_cxx T t \<Longrightarrow> root T = ptr T t"
  "wf_cxx T t \<Longrightarrow> sorted (keys t)"
  by (simp_all add: wf_cxx_def safe_rep rep_root)

lemma cxx_new_wf: "NULL \<notin> live T \<Longrightarrow> wf_cxx (RBTree_new T) Leaf"
  by (simp add: wf_cxx_def RBTree_new_def safe_def rep_def rb_ok_def keys_def)

lemma node_new_safe:
  assumes S: "safe T t" and a: "a \<notin> live T" "a \<noteq> NULL"
  shows "safe (RBTNode_new a k c NULL NULL T) t"
proof -
  let ?T = "RBTNode_new a k c NULL NULL T"
  have an: "a \<notin> nodes t" using S a by (auto simp: safe_def)
  have "tree_at ?T (nil T) t = tree_at T (nil T) t"
    by (rule tree_at_agree) (use an in \<open>auto simp: RBTNode_new_def agree_def same_def\<close>)
  moreover have "ptr ?T t = ptr T t" by (rule ptr_nil) (simp add: RBTNode_new_def)
  ultimately show ?thesis using S a by (auto simp: safe_def rep_def RBTNode_new_def)
qed

lemma insert_key_wf:
  assumes W: "wf_cxx T t" and a: "a \<notin> live T" "a \<noteq> NULL"
  shows "\<exists>T' t'. insert_key a T k = Some T' \<and> wf_cxx T' t' \<and> mset (keys t') = add_mset k (mset (keys t)) \<and>
    live T' = insert a (live T)"
proof -
  let ?T = "RBTNode_new a k BLACK NULL NULL T"
  have S: "safe ?T t" "rb_ok t" "sorted (keys t)" using W node_new_safe [OF _ a] by (simp_all add: wf_cxx_def)
  have z: "a \<in> live ?T" "a \<notin> nodes t" "left ?T a = NULL" "right ?T a = NULL" "key ?T a = k" "live ?T = insert a (live T)"
    using W a by (auto simp: RBTNode_new_def wf_cxx_def safe_def)
  have "a \<noteq> nil ?T" using a safe_null [OF S(1)] by simp
  from rbtree_insert_ok [OF safe_rep [OF S(1)] S(2,3) this z(2)] obtain T' t' xs ys where
    i: "rbtree_insert ?T a = Some T'" "keeps ?T T'" "rep T' t'" "rb_ok t'" "inord t = xs @ ys" "inord t' = xs @ (a, k) # ys"
    "\<forall>x \<in> snd ` set xs. x \<le> k" "\<forall>x \<in> snd ` set ys. k < x" unfolding z(5) by blast
  have "insert_key a T k = Some T'" using a insert_node_eq [OF S z(1-4)] i(1) by (simp add: insert_key_def)
  moreover have "sorted (keys t')" using i(5-8) S(3) by (fastforce simp: keys_def sorted_append)
  moreover have "usable ?T (inord t')" using S(1) z(1) i(5,6) by (auto simp: safe_usable usable_def)
  then have "safe T' t'" using i(2,3) usable_keeps by (simp add: safe_usable)
  moreover have "mset (keys t') = add_mset k (mset (keys t))" using i(5,6) by (simp add: keys_def)
  ultimately show ?thesis using i(2,4) z(6) by (auto simp: wf_cxx_def keeps_def)
qed

lemma search_node_wf:
  assumes W: "wf_cxx T t"
  shows "\<exists>a. search_node T (root T) k = Some a \<and> (if k \<in> set (keys t) then a \<in> nodes t \<and> key T a = k \<and> a \<noteq> NULL else a = NULL)"
proof -
  have S: "safe T t" by (rule wf_cxxD(1) [OF W])
  have n: "NULL \<notin> nodes t" "nil T \<notin> nodes t" "tree_at T (nil T) t" using S rep_nil safe_rep [OF S] by (auto simp: safe_def rep_def)
  obtain a where a: "search_loop T k (ptr T t) = Some a" "if k \<in> set (keys t) then a \<in> nodes t \<and> key T a = k else a = NULL"
    using search_loop_ok [OF n(3) wf_cxxD(4) [OF W] n(2,1)] by blast
  have "search_node T (root T) k = Some a" using search_node_eq(1) [of T "[]" t k] S a(1) wf_cxxD(3) [OF W] by simp
  moreover have "a \<noteq> NULL" if "a \<in> nodes t" using that n(1) by metis
  ultimately show ?thesis using a(2) by (intro exI [of _ a]) (simp split: if_splits)
qed

lemma remove_key_wf:
  assumes W: "wf_cxx T t"
  shows "\<exists>T' t'. remove_key T k = Some T' \<and> wf_cxx T' t' \<and> mset (keys t') = mset (keys t) - {#k#} \<and> live T' \<subseteq> live T"
proof -
  obtain a where a: "search_node T (root T) k = Some a"
    "if k \<in> set (keys t) then a \<in> nodes t \<and> key T a = k \<and> a \<noteq> NULL else a = NULL" using search_node_wf [OF W] by blast
  show ?thesis
  proof (cases "k \<in> set (keys t)")
    case True
    then have n: "a \<in> nodes t" "key T a = k" "a \<noteq> NULL" using a(2) by auto
    have "safe T t" "rb_ok t" using W by (simp_all add: wf_cxx_def)
    from remove_node_ok [OF this n(1)] obtain T' t' xs ys where r: "remove_node T a = Some T'" "safe T' t'" "rb_ok t'"
      "inord t = xs @ (a, k) # ys" "inord t' = xs @ ys" "live T' = live T - {a}" unfolding n(2) by blast
    have "sorted (keys t')" using wf_cxxD(4) [OF W] r(4,5) by (fastforce simp: keys_def sorted_append)
    moreover have "mset (keys t') = mset (keys t) - {#k#}" using r(4,5) by (simp add: keys_def)
    ultimately show ?thesis using r a(1) n(3) by (auto simp: remove_key_def wf_cxx_def)
  next
    case False
    then have "mset (keys t) - {#k#} = mset (keys t)" by (simp add: diff_single_trivial)
    then show ?thesis using W a False by (auto simp: remove_key_def)
  qed
qed

lemma rep_key:
  assumes "rep T t" "(a, k) \<in> set (inord t)"
  shows "key T a = k"
proof -
  have "tree_at T par t \<Longrightarrow> (a, k) \<in> set (inord t) \<Longrightarrow> key T a = k" for par
    by (induction t arbitrary: par) auto
  then show ?thesis using assms by (auto simp: rep_def)
qed

lemma sorted_ends: "sorted xs \<Longrightarrow> xs \<noteq> [] \<Longrightarrow> hd xs = Min (set xs)" "sorted xs \<Longrightarrow> xs \<noteq> [] \<Longrightarrow> last xs = Max (set xs)"
  for xs :: "int list"
proof -
  show "hd xs = Min (set xs)" if "sorted xs" "xs \<noteq> []" using that by (cases xs) (auto intro!: Min_eqI [symmetric])
  show "last xs = Max (set xs)" if "sorted xs" "xs \<noteq> []"
    using that by (cases xs rule: rev_cases) (auto intro!: Max_eqI [symmetric] simp: sorted_append)
qed

lemma extreme_keys:
  assumes W: "wf_cxx T t"
  shows "minimum_key T = Some (if t = Leaf then 0 else Min (set (keys t)))"
    and "maximum_key T = Some (if t = Leaf then 0 else Max (set (keys t)))"
proof -
  have S: "safe T (plug [] t)" "root T = ptr T t" using wf_cxxD [OF W] by simp_all
  have lf: "t = Leaf \<longleftrightarrow> inord t = []" by (cases t) auto
  have get: "first_of w \<in> live T \<and> first_of w \<noteq> NULL \<and> key T (first_of w) = snd (hd w)" if ne: "set w = set (inord t)" "w \<noteq> []" for w
  proof -
    obtain a k w' where w: "w = (a, k) # w'" using ne(2) by (cases w) auto
    then have "(a, k) \<in> set (inord t)" using ne(1) by (metis list.set_intros(1))
    then have "a \<in> live T" "key T a = k" using S(1) rep_key [OF wf_cxxD(2) [OF W]] by (force simp: safe_def nodes_inord)+
    then show ?thesis using w live_pos [of a T] safe_null [OF S(1)] by (auto simp: first_of_def)
  qed
  have ends: "snd (hd (inord t)) = Min (set (keys t))" "snd (hd (rev (inord t))) = Max (set (keys t))" if "t \<noteq> Leaf"
    using sorted_ends [OF wf_cxxD(4) [OF W]] that lf by (simp_all add: keys_def hd_map last_map hd_rev)
  show "minimum_key T = Some (if t = Leaf then 0 else Min (set (keys t)))"
    using minimum_node_first [OF S(1)] S(2) get [of "inord t"] ends(1) lf by (auto simp: minimum_key_def first_of_def [of "[]"])
  show "maximum_key T = Some (if t = Leaf then 0 else Max (set (keys t)))"
    using maximum_node_last [OF S(1)] S(2) get [of "rev (inord t)"] ends(2) lf by (auto simp: maximum_key_def first_of_def [of "[]"])
qed

text \<open>The public operations. \<open>new\<close> is what the operator \<^verbatim>\<open>new\<close> does in that call: it fails, or it returns an address that
  depends on the allocated ones and is none of them; a deleted node's address may come again. The public
  searches have no \<^verbatim>\<open>return\<close> and are not among the commands; removal uses the private one.\<close>

datatype cxx_cmd = Add "(addr set \<Rightarrow> addr) option" int | Drop int | Least | Greatest | List_all

datatype cxx_res = No_result | Key int | Keys "int list"

definition new_at :: "(addr set \<Rightarrow> addr) option \<Rightarrow> rbtree \<Rightarrow> addr" where
  "new_at new T = (case new of None \<Rightarrow> NULL | Some f \<Rightarrow> f (live T))"

fun cxx_step :: "rbtree \<Rightarrow> cxx_cmd \<Rightarrow> unit + rbtree \<times> cxx_res" where
  "cxx_step T (Add new k) = bindR (returned (insert_key (new_at new T) T k)) (\<lambda>T. Inr (T, No_result))"
| "cxx_step T (Drop k) = bindR (returned (remove_key T k)) (\<lambda>T. Inr (T, No_result))"
| "cxx_step T Least = bindR (returned (minimum_key T)) (\<lambda>k. Inr (T, Key k))"
| "cxx_step T Greatest = bindR (returned (maximum_key T)) (\<lambda>k. Inr (T, Key k))"
| "cxx_step T List_all = bindR (returned (inOrder T (root T))) (\<lambda>ks. Inr (T, Keys ks))"

text \<open>The specification: a multiset of keys.\<close>

fun cxx_spec :: "int multiset \<Rightarrow> cxx_cmd \<Rightarrow> int multiset \<times> cxx_res" where
  "cxx_spec M (Add new k) = (if new = None then M else add_mset k M, No_result)"
| "cxx_spec M (Drop k) = (M - {#k#}, No_result)"
| "cxx_spec M Least = (M, Key (if M = {#} then 0 else Min_mset M))"
| "cxx_spec M Greatest = (M, Key (if M = {#} then 0 else Max_mset M))"
| "cxx_spec M List_all = (M, Keys (sorted_list_of_multiset M))"

text \<open>What is known of \<^verbatim>\<open>new\<close>.\<close>

definition allocates :: "(addr set \<Rightarrow> addr) \<Rightarrow> bool" where
  "allocates f \<longleftrightarrow> (\<forall>L. finite L \<longrightarrow> f L \<notin> L \<and> f L \<noteq> NULL)"

fun cxx_pre :: "int multiset \<Rightarrow> cxx_cmd \<Rightarrow> bool" where
  "cxx_pre M (Add (Some f) k) \<longleftrightarrow> allocates f"
| "cxx_pre _ _ \<longleftrightarrow> True"

definition cxx_rel :: "rbtree \<Rightarrow> int multiset \<Rightarrow> bool" where
  "cxx_rel T M \<longleftrightarrow> (\<exists>t. wf_cxx T t \<and> mset (keys t) = M \<and> finite (live T))"

lemma cxx_relI: "wf_cxx T t \<Longrightarrow> mset (keys t) = M \<Longrightarrow> finite (live T) \<Longrightarrow> cxx_rel T M"
  by (auto simp: cxx_rel_def)

interpretation cxx: data_refinement cxx_rel cxx_step cxx_spec cxx_pre
proof
  fix T M c assume "cxx_rel T M" and p: "cxx_pre M c"
  then obtain t where W: "wf_cxx T t" and m: "mset (keys t) = M" and l: "finite (live T)" by (auto simp: cxx_rel_def)
  have ks: "set (keys t) = set_mset M" using m by (metis set_mset_mset)
  have lf: "t = Leaf \<longleftrightarrow> M = {#}" using m by (cases t) (auto simp: keys_def)
  note same = cxx_relI [OF W m l]
  show "\<exists>T'. cxx_step T c = Inr (T', snd (cxx_spec M c)) \<and> cxx_rel T' (fst (cxx_spec M c))"
  proof (cases c)
    case (Add new k)
    show ?thesis
    proof (cases new)
      case None
      then show ?thesis using Add same by (simp add: insert_key_def returned_def new_at_def)
    next
      case (Some f)
      have "f (live T) \<notin> live T" "f (live T) \<noteq> NULL" using p Add Some l by (auto simp: allocates_def)
      from insert_key_wf [OF W this] obtain T' t' where "insert_key (f (live T)) T k = Some T'" "wf_cxx T' t'"
        "mset (keys t') = add_mset k M" "live T' = insert (f (live T)) (live T)" using m by blast
      then show ?thesis using Add Some l cxx_relI [of T' t' "add_mset k M"] by (auto simp: returned_def new_at_def)
    qed
  next
    case (Drop k)
    from remove_key_wf [OF W] obtain T' t' where "remove_key T k = Some T'" "wf_cxx T' t'"
      "mset (keys t') = M - {#k#}" "live T' \<subseteq> live T" using m by blast
    then show ?thesis using Drop l cxx_relI [of T' t'] finite_subset by (auto simp: returned_def)
  next
    case Least
    then show ?thesis using same extreme_keys(1) [OF W] ks lf by (simp add: returned_def)
  next
    case Greatest
    then show ?thesis using same extreme_keys(2) [OF W] ks lf by (simp add: returned_def)
  next
    case List_all
    have "keys t = sorted_list_of_multiset M" using m wf_cxxD(4) [OF W] by (metis sorted_list_of_multiset_mset sorted_sort_id)
    then show ?thesis using List_all same traversals(2) [of T "[]" t] wf_cxxD [OF W] by (simp add: returned_def)
  qed
qed

section \<open>Properties\<close>

text \<open>
  C30: from a new tree, every sequence of insertions, removals, minima, maxima and in-order traversals of
  the C++ class returns, never reads or writes outside its live nodes, and answers as a multiset of keys
  does; afterwards the heap holds a red-black tree with sorted keys. \<^verbatim>\<open>new\<close> may fail, and may return the
  address of a deleted node. The public searches are not in the sequences.
\<close>

theorem cxx_run_refines:
  assumes "NULL \<notin> live T" "finite (live T)" "all_pre cxx_spec cxx_pre {#} cmds"
  shows "\<exists>T' t. run cxx_step (RBTree_new T) cmds = Inr (T', snd (spec_run cxx_spec {#} cmds)) \<and>
    wf_cxx T' t \<and> mset (keys t) = fst (spec_run cxx_spec {#} cmds)"
proof -
  have "cxx_rel (RBTree_new T) {#}"
    by (rule cxx_relI [OF cxx_new_wf [OF assms(1)]]) (simp_all add: keys_def RBTree_new_def assms(2))
  from cxx.run_refines [OF this assms(3)] show ?thesis by (auto simp: cxx_rel_def)
qed

text \<open>An allocator that returns the first free address after the null pointer.\<close>

fun first_free :: "nat \<Rightarrow> addr \<Rightarrow> addr set \<Rightarrow> addr" where
  "first_free 0 a L = Suc (Max (insert a L))"
| "first_free (Suc n) a L = (if a \<in> L then first_free n (Suc a) L else a)"

lemma first_free_allocates: "0 < a \<Longrightarrow> allocates (first_free n a)"
proof (induction n arbitrary: a)
  case 0
  have "Suc (Max (insert a L)) \<notin> L" if "finite L" for L :: "addr set"
    using that by (metis Max_ge finite.insertI insertI2 not_less_eq_eq order_refl)
  then show ?case by (simp add: allocates_def)
next
  case (Suc n)
  then show ?case using Suc.IH [of "Suc a"] by (simp add: allocates_def)
qed

theorem cxx_run_refines_witness:
  "\<exists>T' t. run cxx_step (RBTree_new blank_heap)
      [Least, Add (Some (first_free 9 1)) 10, Add (Some (first_free 9 1)) 5, Drop 5, Add None 8, Add (Some (first_free 9 1)) 7, Greatest, List_all]
    = Inr (T', [Key 0, No_result, No_result, No_result, No_result, No_result, Key 10, Keys [7, 10]]) \<and>
    wf_cxx T' t \<and> mset (keys t) = {#7, 10#}"
  using cxx_run_refines [of blank_heap
      "[Least, Add (Some (first_free 9 1)) 10, Add (Some (first_free 9 1)) 5, Drop 5, Add None 8, Add (Some (first_free 9 1)) 7, Greatest, List_all]"]
    first_free_allocates [of 1 9]
  by (simp add: blank_heap_def add_mset_commute)

text \<open>
  C31: \<^verbatim>\<open>successor\<close> and \<^verbatim>\<open>predecessor\<close> of a node return its neighbours in the in-order sequence, and the null
  pointer at its ends.
\<close>

theorem cxx_neighbours:
  assumes "safe T t" "inord t = xs @ (a, k) # ys"
  shows "successor T a = Some (first_of ys) \<and> predecessor T a = Some (first_of (rev xs))"
proof -
  have "a \<in> nodes t" using assms(2) by (force simp: nodes_inord)
  then obtain cs c l k' r where t: "t = plug cs (Node c l a k' r)" using find_node by blast
  have d: "distinct (map fst (inord t))" using assms(1) by (simp add: safe_def rep_def dtree_inord)
  have "inord t = (before cs @ inord l) @ (a, k') # inord r @ after cs" by (simp add: t inord_plug)
  then have "xs = before cs @ inord l \<and> ys = inord r @ after cs"
    using split_at_address [of xs a k ys] d unfolding assms(2) by blast
  then show ?thesis
    using successor_ok [of T cs c l a k' r] predecessor_ok [of T cs c l a k' r] assms(1) t by simp_all
qed

lemma two_node_tree:
  "\<exists>T1 T t. insert_key 1 (RBTree_new blank_heap) 5 = Some T1 \<and> insert_key 2 T1 6 = Some T \<and> wf_cxx T t \<and>
    live T = {1, 2} \<and> keys t = [5, 6]"
proof -
  have "wf_cxx (RBTree_new blank_heap) Leaf" by (rule cxx_new_wf) (simp add: blank_heap_def)
  from insert_key_wf [OF this, of 1 5] obtain T1 t1 where 1: "insert_key 1 (RBTree_new blank_heap) 5 = Some T1" "wf_cxx T1 t1"
    "mset (keys t1) = {#5#}" "live T1 = {1}" by (auto simp: blank_heap_def RBTree_new_def keys_def)
  from insert_key_wf [OF this(2), of 2 6] obtain T t where 2: "insert_key 2 T1 6 = Some T" "wf_cxx T t"
    "mset (keys t) = {#6, 5#}" "live T = {2, 1}" using 1(3,4) by auto
  have "keys t = sorted_list_of_multiset {#6, 5#}"
    using 2(3) wf_cxxD(4) [OF 2(2)] by (metis sorted_list_of_multiset_mset sorted_sort_id)
  then show ?thesis using 1(1) 2 by auto
qed

theorem cxx_neighbours_witness:
  "\<exists>T1 T a b. insert_key 1 (RBTree_new blank_heap) 5 = Some T1 \<and> insert_key 2 T1 6 = Some T \<and>
    successor T a = Some b \<and> predecessor T a = Some NULL \<and> key T a = 5 \<and> key T b = 6"
proof -
  obtain T1 T t where T: "insert_key 1 (RBTree_new blank_heap) 5 = Some T1" "insert_key 2 T1 6 = Some T" "wf_cxx T t"
    "keys t = [5, 6]" using two_node_tree by blast
  obtain a b where w: "inord t = [] @ (a, 5) # [(b, 6)]" using T(4) unfolding keys_def
    by (cases "inord t"; cases "tl (inord t)") (auto simp: map_eq_Cons_conv)
  have "key T a = 5" "key T b = 6" using rep_key [OF wf_cxxD(2) [OF T(3)]] w by auto
  then show ?thesis using cxx_neighbours [OF wf_cxxD(1) [OF T(3)] w] T(1,2) by (auto simp: first_of_def)
qed

text \<open>
  C32: \<^verbatim>\<open>destroy\<close>, on a tree that is not empty, frees exactly one node, a leaf, and leaves the rest of the tree
  in place: the \<^verbatim>\<open>return\<close> before the first recursive call skips the second child and the node itself.
\<close>

theorem cxx_destroy_one:
  assumes "safe T t" "t \<noteq> Leaf"
  shows "\<exists>T' t' a. destroy T = Some T' \<and> a \<in> nodes t \<and> live T' = live T - {a} \<and> safe T' t' \<and> nodes t' = nodes t - {a}"
  using destroy_slot_ok [of T "[]" t] assms by (auto simp: destroy_def)

theorem cxx_destroy_one_witness:
  "\<exists>T1 T T'. insert_key 1 (RBTree_new blank_heap) 5 = Some T1 \<and> insert_key 2 T1 6 = Some T \<and> destroy T = Some T' \<and> live T' \<noteq> {}"
proof -
  obtain T1 T t where T: "insert_key 1 (RBTree_new blank_heap) 5 = Some T1" "insert_key 2 T1 6 = Some T" "wf_cxx T t"
    "live T = {1, 2}" "keys t = [5, 6]" using two_node_tree by blast
  have "t \<noteq> Leaf" using T(5) by (auto simp: keys_def)
  from cxx_destroy_one [OF wf_cxxD(1) [OF T(3)] this] obtain T' a where "destroy T = Some T'" "live T' = {1, 2} - {a}"
    unfolding T(4) by blast
  moreover have "{1, 2} - {a} \<noteq> {}" by auto
  ultimately show ?thesis using T(1,2) by auto
qed

text \<open>
  On a heap with null leaves the insertion of the C++ class produces the same heap as the one of
  \<^verbatim>\<open>rbtree.c\<close>, pointer by pointer.
\<close>

theorem cxx_insert_equiv:
  assumes "safe T t" "rb_ok t" "sorted (keys t)" "z \<in> live T" "z \<notin> nodes t" "left T z = NULL" "right T z = NULL"
  shows "insert_node T z = rbtree_insert T z"
  using insert_node_eq [OF assms] .

theorem cxx_insert_equiv_witness:
  "insert_node (RBTNode_new 1 5 BLACK NULL NULL (RBTree_new blank_heap)) 1
    = rbtree_insert (RBTNode_new 1 5 BLACK NULL NULL (RBTree_new blank_heap)) 1"
proof (rule cxx_insert_equiv)
  show "safe (RBTNode_new 1 5 BLACK NULL NULL (RBTree_new blank_heap)) Leaf"
    by (rule node_new_safe) (use cxx_new_wf [of blank_heap] in \<open>simp_all add: wf_cxx_def blank_heap_def RBTree_new_def\<close>)
qed (simp_all add: rb_ok_def keys_def RBTNode_new_def)

end
