(* ===== verification/Rb_Class.thy ===== *)
theory Rb_Class
  imports RbTree_Spec
begin

text \<open>
  The class \<^verbatim>\<open>RedBlackTree\<close> of \<^verbatim>\<open>DSAlgo/RedBlackTree/cppRBTree.cpp\<close>, a tree with a sentinel \<^verbatim>\<open>NIL\<close> per tree that
  only inserts. The heap is the record of the C tree. Its rotations and its repair loop differ from the
  C functions in the order of their tests; on a well-formed tree they do the same.
\<close>

text \<open>The constructors. The first argument is what \<^verbatim>\<open>new\<close> returns.\<close>

definition Node_new :: "addr \<Rightarrow> int \<Rightarrow> rbtree \<Rightarrow> rbtree" where
  "Node_new a k T = T\<lparr>key := (key T)(a := k), color := (color T)(a := RED), left := (left T)(a := NULL),
     right := (right T)(a := NULL), parent := (parent T)(a := NULL), live := insert a (live T)\<rparr>"

definition RedBlackTree_new :: "addr \<Rightarrow> rbtree \<Rightarrow> rbtree" where
  "RedBlackTree_new n T =
    (let T = (Node_new n 0 T)\<lparr>nil := n\<rparr>; T = set_color (nil T) BLACK T in T\<lparr>root := nil T\<rparr>)"

definition cls_leftRotate :: "rbtree \<Rightarrow> addr \<Rightarrow> rbtree" where
  "cls_leftRotate T x =
    (let y = right T x;
         T = set_right x (left T y) T;
         T = (if left T y \<noteq> nil T then set_parent (left T y) x T else T);
         T = set_parent y (parent T x) T;
         T = (if parent T x = nil T then T\<lparr>root := y\<rparr>
              else if x = left T (parent T x) then set_left (parent T x) y T
              else set_right (parent T x) y T);
         T = set_left y x T
     in set_parent x y T)"

definition cls_rightRotate :: "rbtree \<Rightarrow> addr \<Rightarrow> rbtree" where
  "cls_rightRotate T y =
    (let x = left T y;
         T = set_left y (right T x) T;
         T = (if right T x \<noteq> nil T then set_parent (right T x) y T else T);
         T = set_parent x (parent T y) T;
         T = (if parent T y = nil T then T\<lparr>root := x\<rparr>
              else if y = left T (parent T y) then set_left (parent T y) x T
              else set_right (parent T y) x T);
         T = set_right x y T
     in set_parent y x T)"

definition cls_turn :: "rbtree \<Rightarrow> addr \<Rightarrow> rbtree \<times> addr" where
  "cls_turn T z =
    (if parent T z = left T (parent T (parent T z)) then
       let y = right T (parent T (parent T z)) in
       if color T y = RED then
         let T = set_color (parent T z) BLACK T;
             T = set_color y BLACK T;
             T = set_color (parent T (parent T z)) RED T
         in (T, parent T (parent T z))
       else
         let (T, z) = (if z = right T (parent T z)
                       then let z = parent T z in (cls_leftRotate T z, z) else (T, z));
             T = set_color (parent T z) BLACK T;
             T = set_color (parent T (parent T z)) RED T
         in (cls_rightRotate T (parent T (parent T z)), z)
     else
       let y = left T (parent T (parent T z)) in
       if color T y = RED then
         let T = set_color (parent T z) BLACK T;
             T = set_color y BLACK T;
             T = set_color (parent T (parent T z)) RED T
         in (T, parent T (parent T z))
       else
         let (T, z) = (if z = left T (parent T z)
                       then let z = parent T z in (cls_rightRotate T z, z) else (T, z));
             T = set_color (parent T z) BLACK T;
             T = set_color (parent T (parent T z)) RED T
         in (cls_leftRotate T (parent T (parent T z)), z))"

partial_function (option) cls_insertFixup :: "rbtree \<Rightarrow> addr \<Rightarrow> rbtree option" where
  "cls_insertFixup T z =
    (if color T (parent T z) = RED
     then (case cls_turn T z of (T, z) \<Rightarrow> cls_insertFixup T z)
     else Some (set_color (root T) BLACK T))"

partial_function (option) cls_descent :: "rbtree \<Rightarrow> addr \<Rightarrow> addr \<Rightarrow> addr \<Rightarrow> addr option" where
  "cls_descent T z y x =
    (if x \<noteq> nil T
     then cls_descent T z x (if key T z < key T x then left T x else right T x)
     else Some y)"

definition cls_insert :: "addr \<Rightarrow> rbtree \<Rightarrow> int \<Rightarrow> rbtree option" where
  "cls_insert z T k = do {
     let T = Node_new z k T;
     y \<leftarrow> cls_descent T z (nil T) (root T);
     let T = set_parent z y T;
     let T = (if y = nil T then T\<lparr>root := z\<rparr>
              else if key T z < key T y then set_left y z T
              else set_right y z T);
     let T = set_left z (nil T) T;
     let T = set_right z (nil T) T;
     let T = set_color z RED T;
     cls_insertFixup T z }"

section \<open>The same as the C tree\<close>

lemma cls_leftRotate_eq: "cls_leftRotate = rbtree_left_rotate"
  by (simp add: fun_eq_iff cls_leftRotate_def rbtree_left_rotate_def)

text \<open>The rotation to the right tests for a left child, the one of the C tree for a right child.\<close>

definition side :: "rbtree \<Rightarrow> addr \<Rightarrow> bool" where
  "side T y \<longleftrightarrow> (parent T y = nil T \<or> (y = left T (parent T y) \<longleftrightarrow> y \<noteq> right T (parent T y)))"

lemma rep_side:
  assumes R: "rep T (plug cs (Node c l y k r))"
  shows "side T y"
proof (cases cs)
  case Nil
  then show ?thesis using rep_reads(5) [OF R] by (simp add: side_def)
next
  case (Cons f cs')
  then obtain d a b q kq where Rq: "rep T (plug cs' (Node d a q kq b))" and q: "q = fadr f"
    and y: "y = ptr T a \<and> a \<noteq> Leaf \<or> y = ptr T b \<and> b \<noteq> Leaf" using R by (cases f) fastforce+
  have p: "parent T y = q" using rep_reads(5) [OF R] Cons q by simp
  have "ptr T a \<noteq> ptr T b" using ptr_siblings [OF Rq] y by blast
  then show ?thesis using p y rep_reads(3,4) [OF Rq] by (auto simp: side_def)
qed

definition relink_right :: "rbtree \<Rightarrow> addr \<Rightarrow> addr \<Rightarrow> rbtree" where
  "relink_right T x y = (if parent T x = nil T then T\<lparr>root := y\<rparr>
     else if x = right T (parent T x) then set_right (parent T x) y T
     else set_left (parent T x) y T)"

lemma relink_side: "side T x \<Longrightarrow> relink_up T x y = relink_right T x y"
  by (auto simp: side_def relink_up_def relink_right_def)

lemma right_rotates:
  "cls_rightRotate T y =
    (let x = left T y; b = right T x;
         T1 = set_left y b T;
         T2 = (if b \<noteq> nil T then set_parent b y T1 else T1);
         T3 = set_parent x (parent T2 y) T2
     in set_parent y x (set_right x y (relink_up T3 y x)))"
  "rbtree_right_rotate T y =
    (let x = left T y; b = right T x;
         T1 = set_left y b T;
         T2 = (if b \<noteq> nil T then set_parent b y T1 else T1);
         T3 = set_parent x (parent T2 y) T2
     in set_parent y x (set_right x y (relink_right T3 y x)))"
  by (cases "right T (left T y) = nil T"; simp add: cls_rightRotate_def rbtree_right_rotate_def relink_up_def relink_right_def Let_def)+

lemma cls_rightRotate_eq:
  assumes R: "rep T (plug cs (Node c (Node d a x kx b) y ky e))"
  shows "cls_rightRotate T y = rbtree_right_rotate T y"
proof -
  have Rx: "rep T (plug (InL c y ky e # cs) (Node d a x kx b))" using R by simp
  have D: "x \<noteq> y" "y \<notin> nodes b" "y \<noteq> nil T" "y \<notin> cnodes cs" using R by (simp_all add: rep_plug)
  have ne: "ptr T b \<noteq> y" "cpar T cs \<noteq> y"
    using D ptr_nodes [of T b] cpar_cnodes [of cs T] by (cases cs; auto)+
  have rd: "left T y = x" "right T x = ptr T b" "parent T y = cpar T cs" using rep_reads [OF R] rep_reads [OF Rx] by simp_all
  let ?T2 = "if ptr T b \<noteq> nil T then set_parent (ptr T b) y (set_left y (ptr T b) T) else set_left y (ptr T b) T"
  let ?T3 = "set_parent x (parent ?T2 y) ?T2"
  have "side ?T3 y" using rep_side [OF R] D ne rd by (simp add: side_def)
  from relink_side [OF this] show ?thesis unfolding right_rotates Let_def rd by simp
qed

lemma cls_turn_eq:
  assumes I: "ins_inv T z (f # h # cs) n w" and f: "fcol f = RED"
  shows "cls_turn T z = fixup_turn T z"
proof -
  obtain l k r where R: "rep T (plug (f # h # cs) (Node RED l z k r))" using I by (auto simp: ins_inv_def)
  let ?Z = "Node RED l z k r"
  have pz: "parent T z = fadr f" "parent T (fadr f) = fadr h" using rep_reads(5) [OF R] rep_up(1) [OF R] by simp_all
  show ?thesis
  proof (cases h)
    case (InL d g kg u)
    note gr = grand_reads [OF R [unfolded InL]]
    show ?thesis
    proof (cases f)
      case f': (InL c p kp s)
      have Rp: "rep T (plug (InL d g kg u # cs) (Node c ?Z p kp s))" using R InL f' by simp
      have "z \<noteq> ptr T s" using ptr_siblings [OF Rp] by simp
      then show ?thesis
        using pz gr InL f' rep_reads(4) [OF Rp] cls_rightRotate_eq [OF line_recolor [OF R [unfolded InL f']]]
        by (simp add: cls_turn_def fixup_turn_def Let_def)
    next
      case f': (InR c p kp s)
      have Rp: "rep T (plug (InL d g kg u # cs) (Node c s p kp ?Z))" using R InL f' by simp
      have R1: "rep (rbtree_left_rotate T p) (plug (InL RED z k r # InL d g kg u # cs) (Node c s p kp l))"
        using rep_left_rotate(1) [OF Rp] by simp
      have "parent (rbtree_left_rotate T p) p = z" "parent (rbtree_left_rotate T p) z = g"
        using rep_reads(5) [OF R1] rep_up(1) [OF R1] by simp_all
      then show ?thesis
        using pz gr InL f' rep_reads(4) [OF Rp] cls_rightRotate_eq [OF line_recolor [OF R1]]
        by (simp add: cls_turn_def fixup_turn_def Let_def cls_leftRotate_eq)
    qed
  next
    case (InR d g kg u)
    have Rg: "rep T (plug cs (Node d u g kg (plug [f] ?Z)))" using R InR by (cases f) simp_all
    have "ptr T (plug [f] ?Z) = fadr f" "plug [f] ?Z \<noteq> Leaf" by (cases f; simp)+
    then have gr: "left T g \<noteq> fadr f" using ptr_siblings [OF Rg] rep_reads(3) [OF Rg] by simp
    show ?thesis
    proof (cases f)
      case f': (InL c p kp s)
      have Rp: "rep T (plug (InR d g kg u # cs) (Node c ?Z p kp s))" using R InR f' by simp
      show ?thesis
        using pz gr InR f' rep_reads(3) [OF Rp] cls_rightRotate_eq [OF Rp]
        by (simp add: cls_turn_def fixup_turn_def Let_def cls_leftRotate_eq)
    next
      case f': (InR c p kp s)
      have Rp: "rep T (plug (InR d g kg u # cs) (Node c s p kp ?Z))" using R InR f' by simp
      have "z \<noteq> ptr T s" using ptr_siblings [OF Rp] by simp
      then show ?thesis
        using pz gr InR f' rep_reads(3) [OF Rp]
        by (simp add: cls_turn_def fixup_turn_def Let_def cls_leftRotate_eq)
    qed
  qed
qed

lemma cls_insertFixup_eq:
  assumes "ins_inv T z cs n w"
  shows "cls_insertFixup T z = rbtree_insert_fixup T z"
  using assms
proof (induction "length cs" arbitrary: T z cs n rule: less_induct)
  case less
  obtain l k r where R: "rep T (plug cs (Node RED l z k r))" and C: "ctx_inv cs n" using less.prems by (auto simp: ins_inv_def)
  show ?case
  proof (cases "color T (parent T z) = RED")
    case False
    then show ?thesis by (simp add: cls_insertFixup.simps [of T] rbtree_insert_fixup.simps [of T])
  next
    case True
    then obtain f cs1 where f: "cs = f # cs1" using rep_reads(5,7) [OF R] by (cases cs) auto
    then have red: "fcol f = RED" using True rep_reads(5) [OF R] rep_up(3) [of T f cs1] R by simp
    then obtain h cs2 where h: "cs1 = h # cs2" using C f by (cases cs1) (auto simp: black_above_def)
    from turn_ok [of T z f h cs2 n w] less.prems red f h obtain T1 z1 cs' n' where
      t: "fixup_turn T z = (T1, z1)" "ins_inv T1 z1 cs' n' w" "length cs' \<le> Suc (length cs2)" by blast
    have "cls_turn T z = (T1, z1)" using cls_turn_eq [of T z f h cs2 n w] less.prems red f h t(1) by simp
    then show ?thesis using less.hyps [OF _ t(2)] t(1,3) f h True
      by (simp add: cls_insertFixup.simps [of T] rbtree_insert_fixup.simps [of T])
  qed
qed

lemma cls_descent_eq:
  assumes "tree_at T par s"
  shows "cls_descent T z y (ptr T s) = insert_descent T z y (ptr T s)"
  using assms
proof (induction s arbitrary: par y)
  case Leaf
  then show ?case by (simp add: cls_descent.simps insert_descent.simps)
next
  case (Node c l a k r)
  then have "tree_at T a l" "tree_at T a r" "left T a = ptr T l" "right T a = ptr T r" "a \<noteq> nil T" by simp_all
  with Node.IH show ?case by (simp add: cls_descent.simps [of T z y a] insert_descent.simps [of T z y a])
qed

lemma cls_insert_eq:
  assumes R: "rep (Node_new z k T) t" and ok: "rb_ok t" "sorted (keys t)" and z: "z \<noteq> nil T" "z \<notin> nodes t"
  shows "cls_insert z T k = rbtree_insert (Node_new z k T) z"
proof -
  let ?T = "Node_new z k T"
  have n: "z \<noteq> nil ?T" using z(1) by (simp add: Node_new_def)
  have at: "tree_at ?T (nil ?T) t" using R by (simp add: rep_def)
  have "place [] (key ?T z)" "turned ?T (key ?T z) []" by (simp_all add: place_def)
  then obtain ds where ds: "plug ds Leaf = t" "insert_descent ?T z (nil ?T) (ptr ?T t) = Some (cpar ?T ds)" "turned ?T (key ?T z) ds"
    using insert_descent_ok [of ?T "nil ?T" t "[]" z] at ok(2) by (metis plug.simps(1) cpar.simps(1))
  let ?L = "link_node ?T z (cpar ?T ds)" and ?Z = "Node RED Leaf z (key ?T z) Leaf"
  have L: "rep ?L (plug ds ?Z)" using rep_link(1) [of ?T ds z] R n z(2) ds(1,3) by simp
  have "ctx_inv ds 0" using ok(1) rb_ok_plug [of ds Leaf] ds(1) by simp
  moreover have "sub_ok ?Z 0" by (simp add: sub_ok_def)
  ultimately have "ins_inv ?L z ds 0 (inord (plug ds ?Z))" using L by (auto simp: ins_inv_def)
  from cls_insertFixup_eq [OF this] have "cls_insertFixup ?L z = rbtree_insert_fixup ?L z" .
  moreover have "cls_insert z T k = do {y \<leftarrow> cls_descent ?T z (nil ?T) (root ?T); cls_insertFixup (link_node ?T z y) z}"
    by (simp add: cls_insert_def link_node_def Let_def)
  ultimately show ?thesis using cls_descent_eq [OF at, of z "nil ?T"] ds(2) rep_root [OF R] by (simp add: rbtree_insert_eq)
qed

section \<open>Properties\<close>

lemma cls_new_wf:
  assumes "n \<noteq> NULL" "NULL \<notin> live T"
  shows "wf_tree (RedBlackTree_new n T) Leaf"
  using assms by (simp add: wf_tree_def RedBlackTree_new_def Node_new_def rep_def rb_ok_def keys_def Let_def)

lemma node_new_wf:
  assumes W: "wf_tree T t" and a: "a \<notin> live T" "a \<noteq> NULL"
  shows "wf_tree (Node_new a k T) t"
proof -
  let ?T = "Node_new a k T"
  have an: "a \<notin> nodes t" "a \<noteq> nil T" using W a by (auto simp: wf_tree_def)
  have "tree_at ?T (nil T) t = tree_at T (nil T) t"
    by (rule tree_at_agree) (use an in \<open>auto simp: Node_new_def agree_def same_def\<close>)
  moreover have "ptr ?T t = ptr T t" by (rule ptr_nil) (simp add: Node_new_def)
  ultimately show ?thesis using W a an by (auto simp: wf_tree_def rep_def Node_new_def)
qed

text \<open>
  C33: \<^verbatim>\<open>insert\<close> of the class \<^verbatim>\<open>RedBlackTree\<close> returns, gives the heap that the functions of \<^verbatim>\<open>rbtree.c\<close> give,
  and keeps a red-black tree with sorted keys and the new key among them.
\<close>

theorem cls_insert_correct:
  assumes "wf_tree T t" "a \<notin> live T" "a \<noteq> NULL"
  shows "\<exists>T' t'. cls_insert a T k = Some T' \<and> rbtree_insert (Node_new a k T) a = Some T' \<and> wf_tree T' t' \<and>
    mset (keys t') = add_mset k (mset (keys t)) \<and> live T' = insert a (live T)"
proof -
  let ?T = "Node_new a k T"
  have W: "wf_tree ?T t" by (rule node_new_wf [OF assms])
  have z: "a \<notin> nodes t" "a \<noteq> nil T" "a \<in> live ?T" "key ?T a = k" "nil ?T = nil T" "live ?T = insert a (live T)"
    using assms by (auto simp: Node_new_def wf_tree_def)
  from insert_wf [OF W z(1) _ z(3)] z(2,4,5) obtain T' t' where
    i: "rbtree_insert ?T a = Some T'" "wf_tree T' t'" "keeps ?T T'" "mset (keys t') = add_mset k (mset (keys t))" by auto
  have "cls_insert a T k = Some T'" using cls_insert_eq [of a k T t] W z i(1) by (simp add: wf_tree_def)
  then show ?thesis using i z(6) by (auto simp: keeps_def)
qed

theorem cls_insert_correct_witness:
  "\<exists>T' t'. cls_insert 2 (RedBlackTree_new 1 blank_heap) 10 = Some T' \<and> wf_tree T' t' \<and> mset (keys t') = {#10#}"
proof -
  have "wf_tree (RedBlackTree_new 1 blank_heap) Leaf" by (rule cls_new_wf) (simp_all add: blank_heap_def)
  from cls_insert_correct [OF this, of 2 10] show ?thesis
    by (auto simp: RedBlackTree_new_def Node_new_def blank_heap_def keys_def Let_def)
qed

end
