(* ===== verification/Cxx_Pool.thy ===== *)
theory Cxx_Pool
  imports Prelude
begin

text \<open>
  The C++ thread pool of \<^verbatim>\<open>PoolTypeStructure/ThreadPool\<close> as a step relation. Threads below \<open>nthreads\<close> are its workers,
  all others call \<^verbatim>\<open>SubmitTask\<close> and \<^verbatim>\<open>Shutdown\<close>; a program counter per thread says which statement is next. A step
  is one statement on shared state: taking or giving back the mutex, one access to the queue under it,
  one access to the flag. \<^verbatim>\<open>condition.wait(lock, pred)\<close> is the loop it stands for: test the predicate, block
  (give the mutex back and sleep, in one step), wake up, take the mutex, test again. A task is a number;
  what it does and its future are outside the model. \<open>plog\<close> records what happened.
\<close>

datatype ppc =
    Outside | Submit_lock nat | Submit_in nat | Submit_notify
  | Stop_notify | Stop_join nat
  | Started | Fetch_lock | Fetch_test | Fetch_block | Fetch_sleep | Fetch_woken | Fetch_take
  | Running nat | Leaving | Gone

datatype pev = Refused | Pushed nat | Fetched nat | Finished nat | Closed | Joined

record pool =
  nthreads :: nat
  tasks :: "nat list"
  pmutex :: "nat option"
  m_isShutdown :: bool
  m_activeThreadCount :: nat
  ppcs :: "nat \<Rightarrow> ppc"
  popped_empty :: bool
  plog :: "pev list"

abbreviation at :: "nat \<Rightarrow> ppc \<Rightarrow> pool \<Rightarrow> pool" where
  "at t p s \<equiv> s\<lparr>ppcs := (ppcs s)(t := p)\<rparr>"

abbreviation note_ev :: "pev \<Rightarrow> pool \<Rightarrow> pool" where
  "note_ev e s \<equiv> s\<lparr>plog := plog s @ [e]\<rparr>"

text \<open>The constructor refuses a pool without threads.\<close>

definition ThreadPool_new :: "nat \<Rightarrow> string + pool" where
  "ThreadPool_new threadNum = (if threadNum = 0 then Inl ''Thread number cannot be zero''
     else Inr \<lparr>nthreads = threadNum, tasks = [], pmutex = None, m_isShutdown = False, m_activeThreadCount = 0,
       ppcs = (\<lambda>t. if t < threadNum then Started else Outside), popped_empty = False, plog = []\<rparr>)"

text \<open>\<^verbatim>\<open>SubmitTask\<close>, statement by statement.\<close>

inductive submit_step :: "pool \<Rightarrow> pool \<Rightarrow> bool" where
  submit_refused: "ppcs s t = Outside \<Longrightarrow> m_isShutdown s \<Longrightarrow> submit_step s (note_ev Refused s)"
| submit_begin: "ppcs s t = Outside \<Longrightarrow> \<not> m_isShutdown s \<Longrightarrow> submit_step s (at t (Submit_lock k) s)"
| submit_lock: "ppcs s t = Submit_lock k \<Longrightarrow> pmutex s = None \<Longrightarrow> submit_step s (at t (Submit_in k) (s\<lparr>pmutex := Some t\<rparr>))"
| submit_push: "ppcs s t = Submit_in k \<Longrightarrow>
    submit_step s (at t Submit_notify (note_ev (Pushed k) (s\<lparr>tasks := tasks s @ [k], pmutex := None\<rparr>)))"
| submit_notify: "ppcs s t = Submit_notify \<Longrightarrow> ppcs s u = Fetch_sleep \<Longrightarrow> submit_step s (at t Outside (at u Fetch_woken s))"
| submit_nobody: "ppcs s t = Submit_notify \<Longrightarrow> \<forall>u. ppcs s u \<noteq> Fetch_sleep \<Longrightarrow> submit_step s (at t Outside s)"

text \<open>\<^verbatim>\<open>Shutdown\<close>: only the call whose exchange succeeds notifies and joins.\<close>

definition notify_all :: "(nat \<Rightarrow> ppc) \<Rightarrow> nat \<Rightarrow> ppc" where
  "notify_all p = (\<lambda>u. if p u = Fetch_sleep then Fetch_woken else p u)"

inductive stop_step :: "pool \<Rightarrow> pool \<Rightarrow> bool" where
  stop_close: "ppcs s t = Outside \<Longrightarrow> \<not> m_isShutdown s \<Longrightarrow>
    stop_step s (at t Stop_notify (note_ev Closed (s\<lparr>m_isShutdown := True\<rparr>)))"
| stop_again: "ppcs s t = Outside \<Longrightarrow> m_isShutdown s \<Longrightarrow> stop_step s s"
| stop_notify: "ppcs s t = Stop_notify \<Longrightarrow> stop_step s (at t (Stop_join 0) (s\<lparr>ppcs := notify_all (ppcs s)\<rparr>))"
| stop_join: "ppcs s t = Stop_join i \<Longrightarrow> i < nthreads s \<Longrightarrow> ppcs s i = Gone \<Longrightarrow> stop_step s (at t (Stop_join (Suc i)) s)"
| stop_return: "ppcs s t = Stop_join i \<Longrightarrow> \<not> i < nthreads s \<Longrightarrow> stop_step s (at t Outside (note_ev Joined s))"

text \<open>\<^verbatim>\<open>WorkerThreadProc\<close> with \<^verbatim>\<open>FetchTask\<close>. \<open>popped_empty\<close> records a \<^verbatim>\<open>front\<close> and \<^verbatim>\<open>pop\<close> of an empty queue.\<close>

inductive worker_step :: "pool \<Rightarrow> pool \<Rightarrow> bool" where
  work_start: "ppcs s t = Started \<Longrightarrow> worker_step s (at t Fetch_lock (s\<lparr>m_activeThreadCount := m_activeThreadCount s + 1\<rparr>))"
| fetch_lock: "ppcs s t = Fetch_lock \<Longrightarrow> pmutex s = None \<Longrightarrow> worker_step s (at t Fetch_test (s\<lparr>pmutex := Some t\<rparr>))"
| fetch_test: "ppcs s t = Fetch_test \<Longrightarrow>
    worker_step s (at t (if tasks s \<noteq> [] \<or> m_isShutdown s then Fetch_take else Fetch_block) s)"
| fetch_block: "ppcs s t = Fetch_block \<Longrightarrow> worker_step s (at t Fetch_sleep (s\<lparr>pmutex := None\<rparr>))"
| fetch_relock: "ppcs s t = Fetch_woken \<Longrightarrow> pmutex s = None \<Longrightarrow> worker_step s (at t Fetch_test (s\<lparr>pmutex := Some t\<rparr>))"
| fetch_null: "ppcs s t = Fetch_take \<Longrightarrow> m_isShutdown s \<Longrightarrow> tasks s = [] \<Longrightarrow> worker_step s (at t Leaving (s\<lparr>pmutex := None\<rparr>))"
| fetch_task: "ppcs s t = Fetch_take \<Longrightarrow> tasks s = k # q \<Longrightarrow>
    worker_step s (at t (Running k) (note_ev (Fetched k) (s\<lparr>tasks := q, pmutex := None\<rparr>)))"
| fetch_bad: "ppcs s t = Fetch_take \<Longrightarrow> \<not> m_isShutdown s \<Longrightarrow> tasks s = [] \<Longrightarrow> worker_step s (s\<lparr>popped_empty := True\<rparr>)"
| work_done: "ppcs s t = Running k \<Longrightarrow> worker_step s (at t Fetch_lock (note_ev (Finished k) s))"
| work_exit: "ppcs s t = Leaving \<Longrightarrow> worker_step s (at t Gone (s\<lparr>m_activeThreadCount := m_activeThreadCount s - 1\<rparr>))"

definition pool_step :: "pool \<Rightarrow> pool \<Rightarrow> bool" where
  "pool_step s s' \<longleftrightarrow> submit_step s s' \<or> stop_step s s' \<or> worker_step s s'"

text \<open>A sleeping thread may also wake up without a notification.\<close>

definition spurious_step :: "pool \<Rightarrow> pool \<Rightarrow> bool" where
  "spurious_step s s' \<longleftrightarrow> (\<exists>t. ppcs s t = Fetch_sleep \<and> s' = at t Fetch_woken s)"

inductive pool_reach :: "pool \<Rightarrow> pool \<Rightarrow> bool" where
  refl: "pool_reach s s"
| step: "pool_reach s t \<Longrightarrow> pool_step t u \<or> spurious_step t u \<Longrightarrow> pool_reach s u"

text \<open>Runs without such wake-ups.\<close>

inductive quiet_reach :: "pool \<Rightarrow> pool \<Rightarrow> bool" where
  qrefl: "quiet_reach s s"
| qstep: "quiet_reach s t \<Longrightarrow> pool_step t u \<Longrightarrow> quiet_reach s u"

end
