(* ===== verification/Cxx_Pool_Spec.thy ===== *)
theory Cxx_Pool_Spec
  imports Cxx_Pool Mutex "HOL-Library.Multiset"
begin

text \<open>
  The C++ thread pool in every interleaving: the mutex excludes, tasks are fetched in the order of
  their submission and never from an empty queue, and a shutdown that returns has run every task that
  was submitted before it; but a shutdown may wait for ever, and a task may be lost.
\<close>

lemma pool_reach_trans: "pool_reach s t \<Longrightarrow> pool_reach r s \<Longrightarrow> pool_reach r t"
  by (induction rule: pool_reach.induct) (auto intro: pool_reach.step)

section \<open>Mutual exclusion\<close>

fun in_lock :: "ppc \<Rightarrow> bool" where
  "in_lock (Submit_in k) \<longleftrightarrow> True"
| "in_lock Fetch_test \<longleftrightarrow> True"
| "in_lock Fetch_block \<longleftrightarrow> True"
| "in_lock Fetch_take \<longleftrightarrow> True"
| "in_lock _ \<longleftrightarrow> False"

abbreviation mutexed :: "pool \<Rightarrow> bool" where
  "mutexed s \<equiv> excl_by in_lock (ppcs s) (pmutex s)"

lemma in_lock_wake [simp]: "in_lock (notify_all p u) = in_lock (p u)"
  by (simp add: notify_all_def)

lemma mutexed_submit: "submit_step s s' \<Longrightarrow> mutexed s \<Longrightarrow> mutexed s'"
  by (induction rule: submit_step.induct) (auto intro: excl_by_intros)

lemma mutexed_wake [simp]: "excl_by in_lock (notify_all p) m = excl_by in_lock p m"
  by (simp add: excl_by_def)

lemma mutexed_stop: "stop_step s s' \<Longrightarrow> mutexed s \<Longrightarrow> mutexed s'"
  by (induction rule: stop_step.induct) (auto intro: excl_by_stay)

lemma mutexed_worker: "worker_step s s' \<Longrightarrow> mutexed s \<Longrightarrow> mutexed s'"
  by (induction rule: worker_step.induct) (auto intro: excl_by_intros)

section \<open>The tasks\<close>

fun pushed :: "pev list \<Rightarrow> nat list" where
  "pushed [] = []"
| "pushed (Pushed k # es) = k # pushed es"
| "pushed (_ # es) = pushed es"

fun fetched :: "pev list \<Rightarrow> nat list" where
  "fetched [] = []"
| "fetched (Fetched k # es) = k # fetched es"
| "fetched (_ # es) = fetched es"

fun finished_of :: "pev list \<Rightarrow> nat list" where
  "finished_of [] = []"
| "finished_of (Finished k # es) = k # finished_of es"
| "finished_of (_ # es) = finished_of es"

lemma log_append [simp]: "pushed (xs @ ys) = pushed xs @ pushed ys" "fetched (xs @ ys) = fetched xs @ fetched ys"
  "finished_of (xs @ ys) = finished_of xs @ finished_of ys"
proof -
  show "pushed (xs @ ys) = pushed xs @ pushed ys" by (induction xs rule: pushed.induct) simp_all
  show "fetched (xs @ ys) = fetched xs @ fetched ys" by (induction xs rule: fetched.induct) simp_all
  show "finished_of (xs @ ys) = finished_of xs @ finished_of ys" by (induction xs rule: finished_of.induct) simp_all
qed

definition queue_ok :: "pool \<Rightarrow> bool" where
  "queue_ok s \<longleftrightarrow> pushed (plog s) = fetched (plog s) @ tasks s \<and> \<not> popped_empty s \<and>
     (\<forall>t. ppcs s t = Fetch_take \<longrightarrow> tasks s \<noteq> [] \<or> m_isShutdown s)"

lemma wake_take [simp]: "notify_all p u = Fetch_take \<longleftrightarrow> p u = Fetch_take" "notify_all p u = Gone \<longleftrightarrow> p u = Gone"
  "notify_all p u = Leaving \<longleftrightarrow> p u = Leaving" "notify_all p u = Running k \<longleftrightarrow> p u = Running k"
  "notify_all p u = Stop_join i \<longleftrightarrow> p u = Stop_join i" "notify_all p u \<noteq> Fetch_sleep"
  by (simp_all add: notify_all_def)

lemma queue_submit: "submit_step s s' \<Longrightarrow> queue_ok s \<Longrightarrow> queue_ok s'"
  by (induction rule: submit_step.induct) (auto simp: queue_ok_def)

lemma queue_stop: "stop_step s s' \<Longrightarrow> queue_ok s \<Longrightarrow> queue_ok s'"
  by (induction rule: stop_step.induct) (auto simp: queue_ok_def)

lemma queue_worker: "worker_step s s' \<Longrightarrow> queue_ok s \<Longrightarrow> mutexed s \<Longrightarrow> queue_ok s'"
proof (induction rule: worker_step.induct)
  case (fetch_task s t k q)
  then have "u \<noteq> t \<longrightarrow> ppcs s u \<noteq> Fetch_take" for u using excl_by_alone [of in_lock "ppcs s" "pmutex s" t u] by auto
  then show ?case using fetch_task.hyps fetch_task.prems(1) by (simp add: queue_ok_def)
qed (auto simp: queue_ok_def)

section \<open>Workers and the joins\<close>

fun worker_pc :: "ppc \<Rightarrow> bool" where
  "worker_pc Outside \<longleftrightarrow> False"
| "worker_pc (Submit_lock k) \<longleftrightarrow> False"
| "worker_pc (Submit_in k) \<longleftrightarrow> False"
| "worker_pc Submit_notify \<longleftrightarrow> False"
| "worker_pc Stop_notify \<longleftrightarrow> False"
| "worker_pc (Stop_join i) \<longleftrightarrow> False"
| "worker_pc _ \<longleftrightarrow> True"

text \<open>The threads below \<open>n\<close> are the workers; once \<^verbatim>\<open>join\<close> has passed a worker it is gone; nobody leaves or
  joins before the flag is set.\<close>

definition roles_ok :: "nat \<Rightarrow> pool \<Rightarrow> bool" where
  "roles_ok n s \<longleftrightarrow> nthreads s = n \<and> (\<forall>t. worker_pc (ppcs s t) \<longleftrightarrow> t < n)"

definition joins_ok :: "pool \<Rightarrow> bool" where
  "joins_ok s \<longleftrightarrow> (\<forall>t i. ppcs s t = Stop_join i \<longrightarrow> (\<forall>j<i. j < nthreads s \<longrightarrow> ppcs s j = Gone)) \<and>
     (Joined \<in> set (plog s) \<longrightarrow> (\<forall>j<nthreads s. ppcs s j = Gone))"

definition open_ok :: "pool \<Rightarrow> bool" where
  "open_ok s \<longleftrightarrow> (\<not> m_isShutdown s \<longrightarrow> (\<forall>t. ppcs s t \<noteq> Leaving \<and> ppcs s t \<noteq> Gone))"

lemma worker_wake [simp]: "worker_pc (notify_all p u) = worker_pc (p u)"
  by (simp add: notify_all_def)

lemma roles_submit: "submit_step s s' \<Longrightarrow> roles_ok n s \<Longrightarrow> roles_ok n s'"
  by (induction rule: submit_step.induct) (simp_all add: roles_ok_def, (metis worker_pc.simps)+)

lemma roles_stop: "stop_step s s' \<Longrightarrow> roles_ok n s \<Longrightarrow> roles_ok n s'"
  by (induction rule: stop_step.induct) (simp_all add: roles_ok_def, (metis worker_pc.simps)+)

lemma roles_worker: "worker_step s s' \<Longrightarrow> roles_ok n s \<Longrightarrow> roles_ok n s'"
  by (induction rule: worker_step.induct) (simp_all add: roles_ok_def, (metis worker_pc.simps)+)

lemma joins_submit: "submit_step s s' \<Longrightarrow> joins_ok s \<Longrightarrow> joins_ok s'"
  by (induction rule: submit_step.induct) (fastforce simp: joins_ok_def)+

lemma joins_stop: "stop_step s s' \<Longrightarrow> joins_ok s \<Longrightarrow> joins_ok s'"
  by (induction rule: stop_step.induct) (fastforce simp: joins_ok_def less_Suc_eq)+

lemma joins_worker: "worker_step s s' \<Longrightarrow> joins_ok s \<Longrightarrow> joins_ok s'"
  by (induction rule: worker_step.induct) (fastforce simp: joins_ok_def)+

lemma open_submit: "submit_step s s' \<Longrightarrow> open_ok s \<Longrightarrow> open_ok s'"
  by (induction rule: submit_step.induct) (auto simp: open_ok_def)

lemma open_stop: "stop_step s s' \<Longrightarrow> open_ok s \<Longrightarrow> open_ok s'"
  by (induction rule: stop_step.induct) (auto simp: open_ok_def)

lemma open_worker: "worker_step s s' \<Longrightarrow> open_ok s \<Longrightarrow> open_ok s'"
  by (induction rule: worker_step.induct) (auto simp: open_ok_def)

text \<open>A task that was fetched has finished or is running.\<close>

fun running_of :: "ppc \<Rightarrow> nat multiset" where
  "running_of (Running k) = {#k#}"
| "running_of _ = {#}"

definition running :: "nat \<Rightarrow> (nat \<Rightarrow> ppc) \<Rightarrow> nat multiset" where
  "running n p = (\<Sum>t<n. running_of (p t))"

definition runs_ok :: "pool \<Rightarrow> bool" where
  "runs_ok s \<longleftrightarrow> mset (fetched (plog s)) = mset (finished_of (plog s)) + running (nthreads s) (ppcs s)"

lemma running_same: "running_of x = running_of (p t) \<Longrightarrow> running n (p(t := x)) = running n p"
  unfolding running_def by (intro sum.cong) auto

lemma running_wake [simp]: "running n (notify_all p) = running n p"
  unfolding running_def by (intro sum.cong) (auto simp: notify_all_def)

lemma running_of_wake [simp]: "running_of (notify_all p u) = running_of (p u)"
  by (simp add: notify_all_def)

lemma running_upd:
  assumes "t < n"
  shows "running n (p(t := x)) + running_of (p t) = running n p + running_of x"
proof -
  have "running n (p(t := x)) = running_of x + (\<Sum>u\<in>{..<n} - {t}. running_of (p u))"
    unfolding running_def using assms by (subst sum.remove [of _ t]) (auto intro: sum.cong)
  moreover have "running n p = running_of (p t) + (\<Sum>u\<in>{..<n} - {t}. running_of (p u))"
    unfolding running_def using assms by (subst sum.remove [of _ t]) auto
  ultimately show ?thesis by simp
qed

lemma running_start: "t < n \<Longrightarrow> running_of (p t) = {#} \<Longrightarrow> running n (p(t := Running k)) = add_mset k (running n p)"
  using running_upd [of t n p "Running k"] by simp

lemma running_stop: "t < n \<Longrightarrow> p t = Running k \<Longrightarrow> running_of x = {#} \<Longrightarrow> add_mset k (running n (p(t := x))) = running n p"
  using running_upd [of t n p x] by simp

lemma worker_index: "roles_ok n s \<Longrightarrow> worker_pc (ppcs s t) \<Longrightarrow> t < nthreads s"
  by (simp add: roles_ok_def)

lemma runs_submit: "submit_step s s' \<Longrightarrow> runs_ok s \<Longrightarrow> runs_ok s'"
  by (induction rule: submit_step.induct) (auto simp: runs_ok_def running_same)

lemma runs_stop: "stop_step s s' \<Longrightarrow> runs_ok s \<Longrightarrow> runs_ok s'"
  by (induction rule: stop_step.induct) (auto simp: runs_ok_def running_same)

lemma runs_worker: "worker_step s s' \<Longrightarrow> runs_ok s \<Longrightarrow> roles_ok n s \<Longrightarrow> runs_ok s'"
proof (induction rule: worker_step.induct)
  case (fetch_task s t k q)
  then have "t < nthreads s" by (intro worker_index [of n]) simp_all
  then show ?case using fetch_task by (simp add: runs_ok_def running_start)
next
  case (work_done s t k)
  then have "t < nthreads s" by (intro worker_index [of n]) simp_all
  then show ?case using work_done running_stop [of t "nthreads s" "ppcs s" k Fetch_lock] by (simp add: runs_ok_def)
qed (simp_all add: runs_ok_def running_same)

section \<open>After the flag is set\<close>

text \<open>No thread is between the test of the flag and the push of its task.\<close>

fun submitting :: "ppc \<Rightarrow> bool" where
  "submitting (Submit_lock k) \<longleftrightarrow> True"
| "submitting (Submit_in k) \<longleftrightarrow> True"
| "submitting _ \<longleftrightarrow> False"

definition no_submitter :: "pool \<Rightarrow> bool" where
  "no_submitter s \<longleftrightarrow> (\<forall>t. \<not> submitting (ppcs s t))"

lemma submitting_wake [simp]: "submitting (notify_all p u) = submitting (p u)"
  by (simp add: notify_all_def)

definition closed_ok :: "pool \<Rightarrow> bool" where
  "closed_ok s \<longleftrightarrow> m_isShutdown s \<and> no_submitter s \<and> (\<forall>t. ppcs s t = Leaving \<or> ppcs s t = Gone \<longrightarrow> tasks s = [])"

lemma closed_submit: "submit_step s s' \<Longrightarrow> closed_ok s \<Longrightarrow> closed_ok s'"
proof (induction rule: submit_step.induct)
  case (submit_lock s t k)
  then have "submitting (ppcs s t)" by simp
  then show ?case using submit_lock.prems unfolding closed_ok_def no_submitter_def by blast
next
  case (submit_push s t k)
  then have "submitting (ppcs s t)" by simp
  then show ?case using submit_push.prems unfolding closed_ok_def no_submitter_def by blast
qed (auto simp: closed_ok_def no_submitter_def)

lemma closed_stop: "stop_step s s' \<Longrightarrow> closed_ok s \<Longrightarrow> closed_ok s'"
  by (induction rule: stop_step.induct) (auto simp: closed_ok_def no_submitter_def)

lemma closed_worker: "worker_step s s' \<Longrightarrow> closed_ok s \<Longrightarrow> closed_ok s'"
  by (induction rule: worker_step.induct) (auto simp: closed_ok_def no_submitter_def)

lemma closing_step:
  assumes "stop_step s s'" "\<not> m_isShutdown s" "m_isShutdown s'" "no_submitter s" "open_ok s"
  shows "closed_ok s'"
  using assms by (induction rule: stop_step.induct) (auto simp: closed_ok_def no_submitter_def open_ok_def)

section \<open>Reachable states\<close>

definition pool_inv :: "nat \<Rightarrow> pool \<Rightarrow> bool" where
  "pool_inv n s \<longleftrightarrow> mutexed s \<and> queue_ok s \<and> roles_ok n s \<and> joins_ok s \<and> open_ok s \<and> runs_ok s"

lemmas submit_invs = mutexed_submit queue_submit roles_submit joins_submit open_submit runs_submit
lemmas stop_invs = mutexed_stop queue_stop roles_stop joins_stop open_stop runs_stop
lemmas worker_invs = mutexed_worker queue_worker roles_worker joins_worker open_worker runs_worker

lemma new_inv:
  assumes "ThreadPool_new n = Inr s0"
  shows "pool_inv n s0"
proof -
  have s0: "s0 = \<lparr>nthreads = n, tasks = [], pmutex = None, m_isShutdown = False, m_activeThreadCount = 0,
      ppcs = (\<lambda>t. if t < n then Started else Outside), popped_empty = False, plog = []\<rparr>"
    using assms by (simp add: ThreadPool_new_def split: if_splits)
  have "running n (\<lambda>t. if t < n then Started else Outside) = {#}" by (simp add: running_def)
  then show ?thesis unfolding s0
    by (auto simp: pool_inv_def excl_by_def queue_ok_def roles_ok_def joins_ok_def open_ok_def runs_ok_def
        split: if_splits)
qed

lemma pool_inv_step:
  assumes "pool_inv n s" "pool_step s s' \<or> spurious_step s s'"
  shows "pool_inv n s'"
proof -
  consider "submit_step s s'" | "stop_step s s'" | "worker_step s s'"
    | t where "ppcs s t = Fetch_sleep" "s' = at t Fetch_woken s"
    using assms(2) by (auto simp: pool_step_def spurious_step_def)
  then show ?thesis
  proof cases
    case 1 then show ?thesis using assms(1) submit_invs [OF 1] by (simp add: pool_inv_def)
  next
    case 2 then show ?thesis using assms(1) stop_invs [OF 2] by (simp add: pool_inv_def)
  next
    case 3 then show ?thesis using assms(1) worker_invs [OF 3] by (auto simp: pool_inv_def)
  next
    case 4
    have "mutexed s'" "queue_ok s'" "open_ok s'" "joins_ok s'"
      using assms(1) 4 by (auto simp: pool_inv_def queue_ok_def open_ok_def joins_ok_def intro: excl_by_stay)
    moreover have "roles_ok n s'" using assms(1) 4 by (simp add: pool_inv_def roles_ok_def) (metis worker_pc.simps)
    moreover have "runs_ok s'" using assms(1) 4 by (simp add: pool_inv_def runs_ok_def running_same)
    ultimately show ?thesis by (simp add: pool_inv_def)
  qed
qed

lemma pool_inv_reach: "pool_reach s0 s \<Longrightarrow> pool_inv n s0 \<Longrightarrow> pool_inv n s"
  by (induction rule: pool_reach.induct) (auto intro: pool_inv_step)

lemma closed_reach: "pool_reach s0 s \<Longrightarrow> closed_ok s0 \<Longrightarrow> closed_ok s"
proof (induction rule: pool_reach.induct)
  case (step s t u)
  have "closed_ok (at w Fetch_woken t)" if "closed_ok t" for w using that by (simp add: closed_ok_def no_submitter_def)
  then show ?case using step closed_submit closed_stop closed_worker by (auto simp: pool_step_def spurious_step_def)
qed simp

abbreviation pool_of :: "nat \<Rightarrow> nat list \<Rightarrow> nat option \<Rightarrow> bool \<Rightarrow> nat \<Rightarrow> (nat \<Rightarrow> ppc) \<Rightarrow> pev list \<Rightarrow> pool" where
  "pool_of n q m f a p l \<equiv> \<lparr>nthreads = n, tasks = q, pmutex = m, m_isShutdown = f, m_activeThreadCount = a,
     ppcs = p, popped_empty = False, plog = l\<rparr>"

abbreviation start_pcs :: "nat \<Rightarrow> nat \<Rightarrow> ppc" where
  "start_pcs n \<equiv> \<lambda>t. if t < n then Started else Outside"

lemma reach_submit: "pool_reach s t \<Longrightarrow> submit_step t u \<Longrightarrow> pool_reach s u"
  and reach_stop: "pool_reach s t \<Longrightarrow> stop_step t u \<Longrightarrow> pool_reach s u"
  and reach_worker: "pool_reach s t \<Longrightarrow> worker_step t u \<Longrightarrow> pool_reach s u"
  by (auto intro: pool_reach.step simp: pool_step_def)

section \<open>Schedules\<close>

text \<open>An executable scheduler for concrete runs: thread \<open>t\<close> takes its next step, a thread outside begins the call
  that the action names. A step that is not enabled leaves the state as it is.\<close>

datatype act = Call_submit nat | Call_stop | Go

definition pool_move :: "nat \<times> act \<Rightarrow> pool \<Rightarrow> pool" where
  "pool_move ta s = (case ta of (t, a) \<Rightarrow> (case ppcs s t of
     Outside \<Rightarrow> (case a of
         Call_submit k \<Rightarrow> if m_isShutdown s then note_ev Refused s else at t (Submit_lock k) s
       | Call_stop \<Rightarrow> if m_isShutdown s then s else at t Stop_notify (note_ev Closed (s\<lparr>m_isShutdown := True\<rparr>))
       | Go \<Rightarrow> s)
   | Submit_lock k \<Rightarrow> if pmutex s = None then at t (Submit_in k) (s\<lparr>pmutex := Some t\<rparr>) else s
   | Submit_in k \<Rightarrow> at t Submit_notify (note_ev (Pushed k) (s\<lparr>tasks := tasks s @ [k], pmutex := None\<rparr>))
   | Submit_notify \<Rightarrow> (case find (\<lambda>u. ppcs s u = Fetch_sleep) [0..<nthreads s] of
       Some u \<Rightarrow> at t Outside (at u Fetch_woken s) | None \<Rightarrow> at t Outside s)
   | Stop_notify \<Rightarrow> at t (Stop_join 0) (s\<lparr>ppcs := notify_all (ppcs s)\<rparr>)
   | Stop_join i \<Rightarrow> if i < nthreads s then (if ppcs s i = Gone then at t (Stop_join (Suc i)) s else s)
       else at t Outside (note_ev Joined s)
   | Started \<Rightarrow> at t Fetch_lock (s\<lparr>m_activeThreadCount := m_activeThreadCount s + 1\<rparr>)
   | Fetch_lock \<Rightarrow> if pmutex s = None then at t Fetch_test (s\<lparr>pmutex := Some t\<rparr>) else s
   | Fetch_test \<Rightarrow> at t (if tasks s \<noteq> [] \<or> m_isShutdown s then Fetch_take else Fetch_block) s
   | Fetch_block \<Rightarrow> at t Fetch_sleep (s\<lparr>pmutex := None\<rparr>)
   | Fetch_sleep \<Rightarrow> s
   | Fetch_woken \<Rightarrow> if pmutex s = None then at t Fetch_test (s\<lparr>pmutex := Some t\<rparr>) else s
   | Fetch_take \<Rightarrow> (case tasks s of
       [] \<Rightarrow> if m_isShutdown s then at t Leaving (s\<lparr>pmutex := None\<rparr>) else s\<lparr>popped_empty := True\<rparr>
     | k # q \<Rightarrow> at t (Running k) (note_ev (Fetched k) (s\<lparr>tasks := q, pmutex := None\<rparr>)))
   | Running k \<Rightarrow> at t Fetch_lock (note_ev (Finished k) s)
   | Leaving \<Rightarrow> at t Gone (s\<lparr>m_activeThreadCount := m_activeThreadCount s - 1\<rparr>)
   | Gone \<Rightarrow> s))"

lemma sleeper_found:
  assumes "roles_ok n s"
  shows "find (\<lambda>u. ppcs s u = Fetch_sleep) [0..<nthreads s] = None \<longleftrightarrow> (\<forall>u. ppcs s u \<noteq> Fetch_sleep)"
proof -
  have "ppcs s u = Fetch_sleep \<Longrightarrow> u < nthreads s" for u using worker_index [OF assms, of u] by simp
  then show ?thesis by (auto simp: find_None_iff)
qed

lemma find_Some_prop: "find P xs = Some x \<Longrightarrow> P x"
  by (auto simp: find_Some_iff)

lemmas plain_steps = submit_step.submit_lock submit_step.submit_push stop_step.stop_notify stop_step.stop_join
  stop_step.stop_return worker_step.work_start worker_step.fetch_lock worker_step.fetch_block
  worker_step.fetch_relock worker_step.work_done worker_step.work_exit

lemma pool_move_sound:
  assumes "roles_ok n s"
  shows "pool_move (t, a) s = s \<or> pool_step s (pool_move (t, a) s)"
proof (cases "ppcs s t")
  case Outside
  then show ?thesis using submit_step.submit_refused [of s t] submit_step.submit_begin [of s t] stop_step.stop_close [of s t]
    by (cases a) (simp_all add: pool_move_def pool_step_def)
next
  case Submit_notify
  show ?thesis
  proof (cases "find (\<lambda>u. ppcs s u = Fetch_sleep) [0..<nthreads s]")
    case None
    then have "submit_step s (at t Outside s)" using Submit_notify sleeper_found [OF assms] submit_step.submit_nobody by blast
    then show ?thesis using None Submit_notify by (simp add: pool_move_def pool_step_def)
  next
    case (Some u)
    then have "submit_step s (at t Outside (at u Fetch_woken s))"
      using Submit_notify find_Some_prop [OF Some] submit_step.submit_notify by blast
    then show ?thesis using Some Submit_notify by (simp add: pool_move_def pool_step_def)
  qed
next
  case Fetch_take
  then show ?thesis using worker_step.fetch_null [of s t] worker_step.fetch_bad [of s t] worker_step.fetch_task [of s t]
    by (cases "tasks s") (simp_all add: pool_move_def pool_step_def)
next
  case Fetch_test
  then show ?thesis using worker_step.fetch_test [of s t] by (simp add: pool_move_def pool_step_def)
qed (auto simp only: pool_move_def pool_step_def prod.case ppc.case intro: plain_steps split: if_split)

lemma pool_moves_reach: "pool_inv n s \<Longrightarrow> pool_reach s (fold pool_move ms s)"
proof (induction ms arbitrary: s)
  case (Cons m ms)
  have "pool_move m s = s \<or> pool_step s (pool_move m s)"
    using pool_move_sound [of n s "fst m" "snd m"] Cons.prems by (simp add: pool_inv_def)
  then show ?case
  proof
    assume "pool_move m s = s" then show ?thesis using Cons by simp
  next
    assume st: "pool_step s (pool_move m s)"
    then have "pool_inv n (pool_move m s)" using pool_inv_step [OF Cons.prems] by blast
    then show ?thesis using Cons.IH pool_reach_trans pool_reach.step [OF pool_reach.refl] st by fastforce
  qed
qed (simp add: pool_reach.refl)

text \<open>C34: whatever the interleaving of submitters, workers and a shutdown, spurious wake-ups included: the
  mutex is held exactly by the thread that is inside a critical section; the tasks pushed so far are
  those fetched so far followed by those in the queue, so tasks are fetched in the order of their
  submission, none twice and none lost; a fetched task has finished or is running on a worker; and no
  worker takes from an empty queue.\<close>

theorem pool_fifo:
  assumes "ThreadPool_new n = Inr s0" "pool_reach s0 s"
  shows "(\<forall>t. in_lock (ppcs s t) \<longleftrightarrow> pmutex s = Some t) \<and> pushed (plog s) = fetched (plog s) @ tasks s \<and>
    mset (fetched (plog s)) = mset (finished_of (plog s)) + (\<Sum>t<n. running_of (ppcs s t)) \<and> \<not> popped_empty s"
proof -
  have "pool_inv n s" using pool_inv_reach [OF assms(2) new_inv [OF assms(1)]] .
  then show ?thesis by (auto simp: pool_inv_def excl_by_def queue_ok_def runs_ok_def roles_ok_def running_def)
qed

theorem pool_fifo_witness:
  "\<exists>s. pool_reach (pool_of 1 [] None False 0 (start_pcs 1) []) s \<and> pushed (plog s) = [7] \<and> fetched (plog s) = [] \<and> tasks s = [7]"
proof -
  let ?init = "pool_of 1 [] None False 0 (start_pcs 1) []"
  have new: "ThreadPool_new 1 = Inr ?init" by (simp add: ThreadPool_new_def)
  let ?s = "fold pool_move [(1, Call_submit 7), (1, Go), (1, Go)] ?init"
  have r: "pool_reach ?init ?s" by (rule pool_moves_reach [OF new_inv [OF new]])
  have "plog ?s = [Pushed 7]" by (simp add: pool_move_def)
  then show ?thesis using pool_fifo [OF new r] r by (intro exI [of _ ?s]) simp
qed

lemma all_gone_no_running: "\<forall>j<n. ppcs s j = Gone \<Longrightarrow> running n (ppcs s) = {#}"
  by (simp add: running_def)

text \<open>C35: a \<^verbatim>\<open>Shutdown\<close> that sets the flag while no thread is between the test and the push of \<^verbatim>\<open>SubmitTask\<close>, and that
  returns, has drained the pool: every worker is gone, the queue is empty, and every task that was
  ever pushed has been fetched and has finished.\<close>

theorem pool_shutdown_drains:
  assumes "ThreadPool_new n = Inr s0" "pool_reach s0 s" "no_submitter s" "\<not> m_isShutdown s"
    and "stop_step s s'" "m_isShutdown s'" "pool_reach s' r" "Joined \<in> set (plog r)"
  shows "(\<forall>j<n. ppcs r j = Gone) \<and> tasks r = [] \<and> mset (finished_of (plog r)) = mset (pushed (plog r))"
proof -
  have inv: "pool_inv n s" using pool_inv_reach [OF assms(2) new_inv [OF assms(1)]] .
  have "closed_ok s'" using closing_step assms(3-6) inv by (simp add: pool_inv_def)
  then have cl: "closed_ok r" using assms(7) closed_reach by blast
  have "pool_inv n s'" using pool_inv_step [OF inv] assms(5) by (simp add: pool_step_def)
  then have r: "pool_inv n r" using assms(7) pool_inv_reach by blast
  then have g: "\<forall>j<n. ppcs r j = Gone" using assms(8) by (simp add: pool_inv_def joins_ok_def roles_ok_def)
  have "0 < n" using assms(1) by (simp add: ThreadPool_new_def split: if_splits)
  then have "tasks r = []" using g cl by (auto simp: closed_ok_def)
  then show ?thesis using g r all_gone_no_running [OF g]
    by (simp add: pool_inv_def queue_ok_def runs_ok_def roles_ok_def)
qed

theorem pool_shutdown_drains_witness:
  "\<exists>r. pool_reach (pool_of 1 [] None False 0 (start_pcs 1) []) r \<and> Joined \<in> set (plog r) \<and> finished_of (plog r) = [7] \<and> tasks r = []"
proof -
  let ?init = "pool_of 1 [] None False 0 (start_pcs 1) []"
  have new: "ThreadPool_new 1 = Inr ?init" by (simp add: ThreadPool_new_def)
  let ?s = "fold pool_move [(1, Call_submit 7), (1, Go), (1, Go), (1, Go)] ?init"
  have s: "pool_reach ?init ?s" by (rule pool_moves_reach [OF new_inv [OF new]])
  have a: "no_submitter ?s" "\<not> m_isShutdown ?s" by (simp_all add: pool_move_def no_submitter_def)
  let ?s' = "pool_move (1, Call_stop) ?s"
  have b: "stop_step ?s ?s'" "m_isShutdown ?s'"
    using stop_step.stop_close [of ?s 1] by (simp_all add: pool_move_def)
  let ?r = "fold pool_move [(1, Go), (0, Go), (0, Go), (0, Go), (0, Go), (0, Go), (0, Go), (0, Go), (0, Go), (0, Go),
    (1, Go), (1, Go)] ?s'"
  have inv: "pool_inv 1 ?s'"
    using pool_inv_step [OF pool_inv_reach [OF s new_inv [OF new]]] b(1) by (simp add: pool_step_def)
  have r: "pool_reach ?s' ?r" by (rule pool_moves_reach [OF inv])
  have j: "Joined \<in> set (plog ?r)" "pushed (plog ?r) = [7]" by (simp_all add: pool_move_def notify_all_def)
  have "pool_reach ?init ?r" using pool_reach_trans [OF r reach_stop [OF s b(1)]] .
  then show ?thesis using pool_shutdown_drains [OF new s a b r j(1)] j by (intro exI [of _ ?r]) simp
qed

section \<open>What the missing mutex around the flag allows\<close>

text \<open>The worker has tested the flag and not yet blocked when it is set and everybody is notified.\<close>

lemma hang_reached:
  assumes "0 < n"
  shows "pool_reach (pool_of n [] None False 0 (start_pcs n) [])
    (pool_of n [] None True 1 ((start_pcs n)(n := Stop_join 0, 0 := Fetch_sleep)) [Closed])"
proof -
  let ?p = "start_pcs n"
  have "pool_reach (pool_of n [] None False 0 ?p []) (pool_of n [] None False 1 (?p(0 := Fetch_lock)) [])"
    using reach_worker [OF pool_reach.refl worker_step.work_start [of "pool_of n [] None False 0 ?p []" 0]] assms by simp
  from reach_worker [OF this worker_step.fetch_lock [of _ 0]]
  have "pool_reach (pool_of n [] None False 0 ?p []) (pool_of n [] (Some 0) False 1 (?p(0 := Fetch_test)) [])" by simp
  from reach_worker [OF this worker_step.fetch_test [of _ 0]]
  have "pool_reach (pool_of n [] None False 0 ?p []) (pool_of n [] (Some 0) False 1 (?p(0 := Fetch_block)) [])" by simp
  from reach_stop [OF this stop_step.stop_close [of _ n]]
  have "pool_reach (pool_of n [] None False 0 ?p [])
      (pool_of n [] (Some 0) True 1 (?p(0 := Fetch_block, n := Stop_notify)) [Closed])"
    using assms by simp
  moreover have "notify_all (?p(0 := Fetch_block, n := Stop_notify)) = ?p(0 := Fetch_block, n := Stop_notify)"
    by (auto simp: notify_all_def)
  ultimately have "pool_reach (pool_of n [] None False 0 ?p [])
      (pool_of n [] (Some 0) True 1 (?p(0 := Fetch_block, n := Stop_join 0)) [Closed])"
    using reach_stop [OF _ stop_step.stop_notify [of _ n]] by fastforce
  from reach_worker [OF this worker_step.fetch_block [of _ 0]]
  show ?thesis using assms by (simp add: fun_upd_twist)
qed

fun quiet_pc :: "ppc \<Rightarrow> bool" where
  "quiet_pc (Submit_lock k) \<longleftrightarrow> False"
| "quiet_pc (Submit_in k) \<longleftrightarrow> False"
| "quiet_pc Submit_notify \<longleftrightarrow> False"
| "quiet_pc Stop_notify \<longleftrightarrow> False"
| "quiet_pc _ \<longleftrightarrow> True"

definition hung :: "nat \<Rightarrow> pool \<Rightarrow> bool" where
  "hung n s \<longleftrightarrow> nthreads s = n \<and> m_isShutdown s \<and> ppcs s 0 = Fetch_sleep \<and> ppcs s n = Stop_join 0 \<and>
     (\<forall>t. quiet_pc (ppcs s t)) \<and> (\<forall>t. t \<noteq> n \<longrightarrow> (\<forall>i. ppcs s t \<noteq> Stop_join i)) \<and> Joined \<notin> set (plog s)"

lemma quiet_pcs: "hung n s \<Longrightarrow> ppcs s t \<noteq> Submit_lock k" "hung n s \<Longrightarrow> ppcs s t \<noteq> Submit_in k"
  "hung n s \<Longrightarrow> ppcs s t \<noteq> Submit_notify" "hung n s \<Longrightarrow> ppcs s t \<noteq> Stop_notify"
  unfolding hung_def by (metis quiet_pc.simps)+

lemma hung_submit: "submit_step s s' \<Longrightarrow> hung n s \<Longrightarrow> 0 < n \<Longrightarrow> hung n s'"
  by (induction rule: submit_step.induct) (use quiet_pcs in blast | simp add: hung_def)+

lemma hung_stop: "stop_step s s' \<Longrightarrow> hung n s \<Longrightarrow> 0 < n \<Longrightarrow> hung n s'"
proof (induction rule: stop_step.induct)
  case (stop_notify s t)
  then show ?case using quiet_pcs by blast
next
  case (stop_join s t i)
  then have "t = n" by (auto simp: hung_def)
  then show ?case using stop_join by (simp add: hung_def)
next
  case (stop_return s t i)
  then have "t = n" by (auto simp: hung_def)
  then show ?case using stop_return by (simp add: hung_def)
qed (auto simp: hung_def)

lemma hung_worker: "worker_step s s' \<Longrightarrow> hung n s \<Longrightarrow> hung n s'"
  by (induction rule: worker_step.induct) (auto simp: hung_def)

lemma hung_quiet: "quiet_reach s s' \<Longrightarrow> hung n s \<Longrightarrow> 0 < n \<Longrightarrow> hung n s'"
  by (induction rule: quiet_reach.induct) (auto simp: pool_step_def dest: hung_submit hung_stop hung_worker)

text \<open>C36: \<^verbatim>\<open>Shutdown\<close> sets the flag and notifies without taking the mutex. In a pool of any size there is a run in
  which the flag is set and \<^verbatim>\<open>notify_all\<close> runs while a worker is between the test of its predicate and the
  block; from there on, short of a spurious wake-up, that worker sleeps for ever, the call of \<^verbatim>\<open>Shutdown\<close>
  stays in its first \<^verbatim>\<open>join\<close>, and no shutdown ever returns.\<close>

theorem pool_shutdown_hangs:
  assumes "ThreadPool_new n = Inr s0"
  shows "\<exists>s. pool_reach s0 s \<and> (\<forall>s'. quiet_reach s s' \<longrightarrow> m_isShutdown s' \<and> ppcs s' 0 = Fetch_sleep \<and>
    ppcs s' n = Stop_join 0 \<and> Joined \<notin> set (plog s'))"
proof -
  have n: "0 < n" and s0: "s0 = pool_of n [] None False 0 (start_pcs n) []"
    using assms by (simp_all add: ThreadPool_new_def split: if_splits)
  let ?s = "pool_of n [] None True 1 ((start_pcs n)(n := Stop_join 0, 0 := Fetch_sleep)) [Closed]"
  have "hung n ?s" using n by (simp add: hung_def)
  then have "\<forall>s'. quiet_reach ?s s' \<longrightarrow> hung n s'" using hung_quiet n by blast
  then show ?thesis using hang_reached [OF n] unfolding s0 hung_def by blast
qed

theorem pool_shutdown_hangs_witness:
  "\<exists>s. pool_reach (pool_of 2 [] None False 0 (start_pcs 2) []) s \<and> ppcs s 2 = Stop_join 0 \<and> ppcs s 0 = Fetch_sleep"
  using pool_shutdown_hangs [of 2 "pool_of 2 [] None False 0 (start_pcs 2) []"] quiet_reach.qrefl
  by (fastforce simp: ThreadPool_new_def)

text \<open>When all workers are gone nothing is fetched any more.\<close>

definition deserted :: "nat \<Rightarrow> (nat \<Rightarrow> ppc) \<Rightarrow> bool" where
  "deserted n p \<longleftrightarrow> (\<forall>t. if t < n then p t = Gone else \<not> worker_pc (p t))"

lemma deserted_pc: "deserted n p \<Longrightarrow> p t = x \<Longrightarrow> worker_pc x \<Longrightarrow> x = Gone"
  by (auto simp: deserted_def split: if_splits)

lemma deserted_upd: "deserted n p \<Longrightarrow> \<not> worker_pc (p t) \<Longrightarrow> \<not> worker_pc x \<Longrightarrow> deserted n (p(t := x))"
  unfolding deserted_def by (metis fun_upd_apply worker_pc.simps(16))

lemma deserted_awake: "deserted n p \<Longrightarrow> p t \<noteq> Fetch_sleep"
  using deserted_pc by fastforce

lemma deserted_wake: "deserted n p \<Longrightarrow> notify_all p = p"
  by (simp add: notify_all_def deserted_awake)

lemma deserted_worker: "worker_step s s' \<Longrightarrow> \<not> deserted n (ppcs s)"
  by (induction rule: worker_step.induct) (auto dest: deserted_pc)

lemma deserted_submit:
  "submit_step s s' \<Longrightarrow> deserted n (ppcs s) \<Longrightarrow> deserted n (ppcs s') \<and> fetched (plog s') = fetched (plog s)"
  by (induction rule: submit_step.induct) (simp_all add: deserted_upd deserted_awake)

lemma deserted_stop:
  "stop_step s s' \<Longrightarrow> deserted n (ppcs s) \<Longrightarrow> deserted n (ppcs s') \<and> fetched (plog s') = fetched (plog s)"
  by (induction rule: stop_step.induct) (simp_all add: deserted_upd deserted_wake)

lemma deserted_reach:
  "pool_reach s s' \<Longrightarrow> deserted n (ppcs s) \<Longrightarrow> deserted n (ppcs s') \<and> fetched (plog s') = fetched (plog s)"
proof (induction rule: pool_reach.induct)
  case (step s t u)
  then have "\<not> worker_step t u" "\<not> spurious_step t u" using deserted_worker deserted_awake by (auto simp: spurious_step_def)
  then show ?case using step deserted_submit deserted_stop by (fastforce simp: pool_step_def)
qed simp

text \<open>\<^verbatim>\<open>SubmitTask\<close> tests the flag before it takes the mutex. In a pool of one worker there is a run in which a
  submission passes the test, the pool shuts down and joins, and only then the task is queued: the call
  returns a future, and in no continuation is the task ever fetched.\<close>

theorem pool_submit_lost:
  "\<exists>s0 s. ThreadPool_new 1 = Inr s0 \<and> pool_reach s0 s \<and> Joined \<in> set (plog s) \<and> pushed (plog s) = [k] \<and> Refused \<notin> set (plog s) \<and>
     (\<forall>s'. pool_reach s s' \<longrightarrow> fetched (plog s') = [])"
proof -
  let ?init = "pool_of 1 [] None False 0 (start_pcs 1) []"
  let ?ms = "[(1, Call_submit k), (2, Call_stop), (2, Go), (0, Go), (0, Go), (0, Go), (0, Go), (0, Go),
    (2, Go), (2, Go), (1, Go), (1, Go)]"
  have new: "ThreadPool_new 1 = Inr ?init" by (simp add: ThreadPool_new_def)
  define s where "s = fold pool_move ?ms ?init"
  have "pool_reach ?init s" unfolding s_def by (rule pool_moves_reach [OF new_inv [OF new]])
  moreover have l: "plog s = [Closed, Joined, Pushed k]" and "deserted 1 (ppcs s)"
    by (simp_all add: s_def pool_move_def notify_all_def deserted_def)
  ultimately show ?thesis using new deserted_reach [of s _ 1] by (intro exI [of _ ?init] exI [of _ s]) simp
qed

end
