(* ===== verification/Smart_Ptr.thy ===== *)
theory Smart_Ptr
  imports Refinement "HOL-Library.Multiset"
begin

text \<open>
  The reference-counted pointer of \<^verbatim>\<open>CodeIt/common/smart_ptr.h\<close>. A \<open>store\<close> has the addresses of the objects that
  are not deleted and the counters (\<^verbatim>\<open>shared_count\<close>) that are not deleted, each a 64-bit number. A smart
  pointer is its two members; \<^verbatim>\<open>shared_count_\<close> of an empty pointer is not initialised, \<open>None\<close> here. Deleting what
  is not there, and using a counter that is not there, are errors. The type parameters play no role at
  run time, so the two copy constructors are one function.
\<close>

datatype sp_error = Bad_delete | Bad_counter

record store =
  objs :: "nat set"
  cells :: "nat \<rightharpoonup> 64 word"

record smart_ptr =
  raw :: nat
  cell :: "nat option"

abbreviation nullptr :: nat where "nullptr \<equiv> 0"

section \<open>Counters\<close>

definition shared_count_new :: "nat \<Rightarrow> store \<Rightarrow> store" where
  "shared_count_new c S = S\<lparr>cells := (cells S)(c \<mapsto> 1)\<rparr>"

definition counter :: "nat option \<Rightarrow> store \<Rightarrow> sp_error + nat \<times> 64 word" where
  "counter sc S = (case sc of None \<Rightarrow> Inl Bad_counter
     | Some c \<Rightarrow> (case cells S c of None \<Rightarrow> Inl Bad_counter | Some n \<Rightarrow> Inr (c, n)))"

definition add_count :: "nat option \<Rightarrow> store \<Rightarrow> sp_error + store" where
  "add_count sc S = bindR (counter sc S) (\<lambda>(c, n). Inr (S\<lparr>cells := (cells S)(c \<mapsto> n + 1)\<rparr>))"

definition reduce_count :: "nat option \<Rightarrow> store \<Rightarrow> sp_error + store \<times> bool" where
  "reduce_count sc S = bindR (counter sc S) (\<lambda>(c, n). Inr (S\<lparr>cells := (cells S)(c \<mapsto> n - 1)\<rparr>, n \<noteq> 1))"

definition get_count :: "nat option \<Rightarrow> store \<Rightarrow> sp_error + int" where
  "get_count sc S = bindR (counter sc S) (\<lambda>(c, n). Inr (sint n))"

definition delete_object :: "nat \<Rightarrow> store \<Rightarrow> sp_error + store" where
  "delete_object p S = (if p \<in> objs S then Inr (S\<lparr>objs := objs S - {p}\<rparr>) else Inl Bad_delete)"

definition delete_counter :: "nat option \<Rightarrow> store \<Rightarrow> sp_error + store" where
  "delete_counter sc S = bindR (counter sc S) (\<lambda>(c, n). Inr (S\<lparr>cells := (cells S)(c := None)\<rparr>))"

section \<open>The guard of \<^verbatim>\<open>finally.h\<close>\<close>

text \<open>An action to be run at the end of the scope, unless it was dismissed or moved away.\<close>

record 's final_action =
  fin_action :: "'s \<Rightarrow> sp_error + 's"
  is_active :: bool

definition finally_action :: "('s \<Rightarrow> sp_error + 's) \<Rightarrow> 's final_action" where
  "finally_action act = \<lparr>fin_action = act, is_active = True\<rparr>"

definition final_action_move :: "'s final_action \<Rightarrow> 's final_action \<times> 's final_action" where
  "final_action_move other = (\<lparr>fin_action = fin_action other, is_active = is_active other\<rparr>, other\<lparr>is_active := False\<rparr>)"

definition dismiss :: "'s final_action \<Rightarrow> 's final_action" where
  "dismiss a = a\<lparr>is_active := False\<rparr>"

definition final_action_end :: "'s final_action \<Rightarrow> 's \<Rightarrow> sp_error + 's" where
  "final_action_end a s = (if is_active a then fin_action a s else Inr s)"

section \<open>Constructors and destructor\<close>

text \<open>The argument \<open>alloc\<close> is what \<^verbatim>\<open>new shared_count\<close> returns, \<open>None\<close> when it throws; the guard then runs, and the
  constructor throws: the result has no pointer.\<close>

definition smart_ptr_new :: "nat option \<Rightarrow> nat \<Rightarrow> store \<Rightarrow> sp_error + store \<times> smart_ptr option" where
  "smart_ptr_new alloc p S = (if p \<noteq> nullptr then
     let release_ptr_action = finally_action (delete_object p) in
     (case alloc of
        None \<Rightarrow> bindR (final_action_end release_ptr_action S) (\<lambda>S. Inr (S, None))
      | Some c \<Rightarrow> let S = shared_count_new c S; release_ptr_action = dismiss release_ptr_action in
          bindR (final_action_end release_ptr_action S) (\<lambda>S. Inr (S, Some \<lparr>raw = p, cell = Some c\<rparr>)))
   else Inr (S, Some \<lparr>raw = p, cell = None\<rparr>))"

definition smart_ptr_end :: "smart_ptr \<Rightarrow> store \<Rightarrow> sp_error + store" where
  "smart_ptr_end this S = (if raw this \<noteq> nullptr then
     bindR (reduce_count (cell this) S) (\<lambda>(S, more).
       if \<not> more then bindR (delete_object (raw this) S) (\<lambda>S. delete_counter (cell this) S)
       else Inr S)
   else Inr S)"

definition smart_ptr_copy :: "smart_ptr \<Rightarrow> store \<Rightarrow> sp_error + store \<times> smart_ptr" where
  "smart_ptr_copy other S = (if raw other \<noteq> nullptr then
     bindR (add_count (cell other) S) (\<lambda>S. Inr (S, \<lparr>raw = raw other, cell = cell other\<rparr>))
   else Inr (S, \<lparr>raw = raw other, cell = None\<rparr>))"

definition smart_ptr_move :: "smart_ptr \<Rightarrow> smart_ptr \<times> smart_ptr" where
  "smart_ptr_move other = (if raw other \<noteq> nullptr
     then (\<lparr>raw = raw other, cell = cell other\<rparr>, other\<lparr>raw := nullptr\<rparr>)
     else (\<lparr>raw = raw other, cell = None\<rparr>, other))"

definition smart_ptr_alias :: "smart_ptr \<Rightarrow> nat \<Rightarrow> store \<Rightarrow> sp_error + store \<times> smart_ptr" where
  "smart_ptr_alias other p S = (if p \<noteq> nullptr then
     bindR (add_count (cell other) S) (\<lambda>S. Inr (S, \<lparr>raw = p, cell = cell other\<rparr>))
   else Inr (S, \<lparr>raw = p, cell = None\<rparr>))"

section \<open>Members\<close>

definition swap_ptr :: "smart_ptr \<Rightarrow> smart_ptr \<Rightarrow> smart_ptr \<times> smart_ptr" where
  "swap_ptr this rhs = (this\<lparr>raw := raw rhs, cell := cell rhs\<rparr>,
     rhs\<lparr>raw := raw this, cell := cell this\<rparr>)"

text \<open>Assignment takes its right-hand side by value; the parameter is destroyed at the end of the call.\<close>

definition smart_ptr_assign :: "smart_ptr \<Rightarrow> smart_ptr \<Rightarrow> store \<Rightarrow> sp_error + store \<times> smart_ptr" where
  "smart_ptr_assign this rhs S = (case swap_ptr rhs this of (rhs, this) \<Rightarrow>
     bindR (smart_ptr_end rhs S) (\<lambda>S. Inr (S, this)))"

definition raw_get :: "smart_ptr \<Rightarrow> nat" where
  "raw_get this = raw this"

definition use_count :: "smart_ptr \<Rightarrow> store \<Rightarrow> sp_error + int" where
  "use_count this S = (if raw this \<noteq> nullptr then get_count (cell this) S else Inr 0)"

text \<open>The casts. A \<^verbatim>\<open>reinterpret_cast\<close> or \<^verbatim>\<open>const_cast\<close> keeps the address, a \<^verbatim>\<open>dynamic_cast\<close> gives the address or the null
  pointer: \<open>is_a\<close> says which objects are of the type.\<close>

definition static_pointer_cast :: "smart_ptr \<Rightarrow> store \<Rightarrow> sp_error + store \<times> smart_ptr" where
  "static_pointer_cast other S = smart_ptr_alias other (raw_get other) S"

definition dynamic_pointer_cast :: "(nat \<Rightarrow> bool) \<Rightarrow> smart_ptr \<Rightarrow> store \<Rightarrow> sp_error + store \<times> smart_ptr" where
  "dynamic_pointer_cast is_a other S =
     smart_ptr_alias other (if raw_get other \<noteq> nullptr \<and> is_a (raw_get other) then raw_get other else nullptr) S"

section \<open>Programs\<close>

text \<open>Programs that use smart pointers: a state is the store and the variables in scope. \<open>Make\<close> is the
  declaration of a variable initialised with \<^verbatim>\<open>new T\<close>: \<open>p\<close> is the object, \<open>alloc\<close> the result of the allocation in the
  constructor. \<open>Leave\<close> ends the scope of a variable.\<close>

datatype sp_cmd = Make nat nat "nat option" | Empty nat | Copy nat nat | Move nat nat | Static_cast nat nat
  | Dynamic_cast nat nat bool | Assign nat nat | Assign_move nat nat | Swap_vars nat nat | Leave nat | Count nat | Get nat

datatype sp_res = Nothing | Threw | Address nat | Uses int

record prog =
  st_of :: store
  vars :: "nat \<rightharpoonup> smart_ptr"

definition bind_var :: "nat \<Rightarrow> prog \<Rightarrow> store \<times> smart_ptr \<Rightarrow> sp_error + prog \<times> sp_res" where
  "bind_var v P = (\<lambda>(S, x). Inr (\<lparr>st_of = S, vars = (vars P)(v \<mapsto> x)\<rparr>, Nothing))"

definition sp_step :: "prog \<Rightarrow> sp_cmd \<Rightarrow> sp_error + prog \<times> sp_res" where
  "sp_step P c = (let S = st_of P; at = (\<lambda>v. the (vars P v)) in case c of
     Make v p alloc \<Rightarrow> bindR (smart_ptr_new alloc p (S\<lparr>objs := insert p (objs S)\<rparr>)) (\<lambda>(S, r). case r of
         None \<Rightarrow> Inr (P\<lparr>st_of := S\<rparr>, Threw) | Some x \<Rightarrow> bind_var v P (S, x))
   | Empty v \<Rightarrow> bindR (smart_ptr_new None nullptr S) (\<lambda>(S, r). case r of
         None \<Rightarrow> Inr (P\<lparr>st_of := S\<rparr>, Threw) | Some x \<Rightarrow> bind_var v P (S, x))
   | Copy v w \<Rightarrow> bindR (smart_ptr_copy (at w) S) (bind_var v P)
   | Move v w \<Rightarrow> (case smart_ptr_move (at w) of (x, y) \<Rightarrow> bind_var v (P\<lparr>vars := (vars P)(w \<mapsto> y)\<rparr>) (S, x))
   | Static_cast v w \<Rightarrow> bindR (static_pointer_cast (at w) S) (bind_var v P)
   | Dynamic_cast v w b \<Rightarrow> bindR (dynamic_pointer_cast (\<lambda>_. b) (at w) S) (bind_var v P)
   | Assign v w \<Rightarrow> bindR (smart_ptr_copy (at w) S) (\<lambda>(S, rhs). bindR (smart_ptr_assign (at v) rhs S) (bind_var v P))
   | Assign_move v w \<Rightarrow> (case smart_ptr_move (at w) of (rhs, y) \<Rightarrow>
       let P = P\<lparr>vars := (vars P)(w \<mapsto> y)\<rparr> in bindR (smart_ptr_assign (the (vars P v)) rhs S) (bind_var v P))
   | Swap_vars v w \<Rightarrow> (case swap_ptr (at v) (at w) of (x, y) \<Rightarrow>
       Inr (P\<lparr>vars := if v = w then vars P else (vars P)(v \<mapsto> x, w \<mapsto> y)\<rparr>, Nothing))
   | Leave v \<Rightarrow> bindR (smart_ptr_end (at v) S) (\<lambda>S. Inr (\<lparr>st_of = S, vars = (vars P)(v := None)\<rparr>, Nothing))
   | Count v \<Rightarrow> bindR (use_count (at v) S) (\<lambda>n. Inr (P, Uses n))
   | Get v \<Rightarrow> Inr (P, Address (raw_get (at v))))"

end
