(* ===== verification/Smart_Ptr_Spec.thy ===== *)
theory Smart_Ptr_Spec
  imports Smart_Ptr
begin

text \<open>
  Programs over smart pointers refine a map from variables to objects: an object lives exactly as long as
  a variable holds it. The invariant is on the multiset of all smart pointers, the variables and the
  temporaries of assignments alike.
\<close>

section \<open>The invariant\<close>

definition uses :: "smart_ptr multiset \<Rightarrow> nat \<Rightarrow> nat" where
  "uses M p = size (filter_mset (\<lambda>x. raw x = p) M)"

abbreviation held :: "smart_ptr multiset \<Rightarrow> nat set" where
  "held M \<equiv> raw ` set_mset M - {nullptr}"

text \<open>\<open>own\<close> maps a live object to its counter.\<close>

definition counted :: "(nat \<rightharpoonup> nat) \<Rightarrow> store \<Rightarrow> smart_ptr multiset \<Rightarrow> bool" where
  "counted own S M \<longleftrightarrow> size M < 2 ^ 63 \<and> objs S = held M \<and> dom own = held M \<and>
     (\<forall>x\<in>#M. raw x \<noteq> nullptr \<longrightarrow> cell x = own (raw x)) \<and> inj_on own (dom own) \<and> dom (cells S) = ran own \<and>
     (\<forall>p c. own p = Some c \<longrightarrow> cells S c = Some (of_nat (uses M p)))"

lemma uses_add [simp]: "uses (add_mset x M) p = (if raw x = p then Suc (uses M p) else uses M p)"
  by (simp add: uses_def)

lemma uses_le: "uses M p \<le> size M"
  by (simp add: uses_def size_filter_mset_lesseq)

lemma uses_pos: "x \<in># M \<Longrightarrow> 0 < uses M (raw x)"
  by (auto simp: uses_def nonempty_has_size [symmetric] dest!: multi_member_split)

lemma uses_zero: "p \<notin> raw ` set_mset M \<Longrightarrow> uses M p = 0"
  by (induction M) (auto simp: uses_def)

lemma countedD:
  assumes "counted own S M"
  shows "size M < 2 ^ 63" "objs S = held M" "dom own = held M" "inj_on own (dom own)" "dom (cells S) = ran own"
    "x \<in># M \<Longrightarrow> raw x \<noteq> nullptr \<Longrightarrow> cell x = own (raw x)" "own p = Some c \<Longrightarrow> cells S c = Some (of_nat (uses M p))"
  using assms by (auto simp: counted_def)

lemma counter_ok:
  assumes "counted own S M" "x \<in># M" "raw x \<noteq> nullptr"
  obtains c where "own (raw x) = Some c" "cell x = Some c" "counter (cell x) S = Inr (c, of_nat (uses M (raw x)))"
proof -
  have "raw x \<in> dom own" using countedD(3) [OF assms(1)] assms(2,3) by auto
  then obtain c where c: "own (raw x) = Some c" by auto
  then show thesis using that countedD(6) [OF assms] countedD(7) [OF assms(1) c] by (simp add: counter_def)
qed

lemma own_inj: "counted own S M \<Longrightarrow> own p = Some c \<Longrightarrow> own q = Some c \<Longrightarrow> p = q"
  by (auto simp: counted_def inj_on_def dom_def)

section \<open>The functions\<close>

text \<open>A counter that is adjusted together with the multiset.\<close>

lemma counted_more:
  assumes "counted own S M" "Suc (size M) < 2 ^ 63" "x \<in># M" "raw x \<noteq> nullptr" "own (raw x) = Some c" "cell y = Some c" "raw y = raw x"
  shows "counted own (S\<lparr>cells := (cells S)(c \<mapsto> of_nat (uses M (raw x)) + 1)\<rparr>) (add_mset y M)"
proof -
  have "held (add_mset y M) = held M" using assms by auto
  moreover have "cells S d = Some (of_nat (uses M p)) \<and> d \<noteq> c" if "own p = Some d" "p \<noteq> raw x" for p d
    using that own_inj [OF assms(1) assms(5), of p] countedD(7) [OF assms(1)] by auto
  moreover have "c \<in> ran own" using assms(5) by (auto simp: ran_def)
  ultimately show ?thesis using assms countedD [OF assms(1)] unfolding counted_def by (auto simp: insert_absorb)
qed

lemma counted_empty: "counted own S M \<Longrightarrow> Suc (size M) < 2 ^ 63 \<Longrightarrow> raw y = nullptr \<Longrightarrow> counted own S (add_mset y M)"
  unfolding counted_def by (auto simp: dom_def)

lemma alias_ok:
  assumes "counted own S M" "Suc (size M) < 2 ^ 63" "x \<in># M" "p = raw x \<or> p = nullptr"
  shows "\<exists>S' y. smart_ptr_alias x p S = Inr (S', y) \<and> raw y = p \<and> counted own S' (add_mset y M)"
proof (cases "p = nullptr")
  case True
  then show ?thesis using counted_empty [OF assms(1,2)] by (simp add: smart_ptr_alias_def)
next
  case False
  then have p: "p = raw x" "raw x \<noteq> nullptr" using assms(4) by auto
  from counter_ok [OF assms(1,3) p(2)] obtain c where "own (raw x) = Some c" "cell x = Some c"
    "counter (cell x) S = Inr (c, of_nat (uses M (raw x)))" .
  then show ?thesis using counted_more [OF assms(1,2,3) p(2), of c "\<lparr>raw = raw x, cell = Some c\<rparr>"] p
    by (auto simp: smart_ptr_alias_def add_count_def)
qed

lemma copy_alias: "smart_ptr_copy x S = smart_ptr_alias x (raw x) S"
  by (simp add: smart_ptr_copy_def smart_ptr_alias_def)

lemma new_ok:
  assumes "counted own S M" "Suc (size M) < 2 ^ 63" "p \<noteq> nullptr" "p \<notin> dom own" "c \<notin> ran own"
  shows "\<exists>S' y. smart_ptr_new (Some c) p (S\<lparr>objs := insert p (objs S)\<rparr>) = Inr (S', Some y) \<and> raw y = p \<and>
    counted (own(p \<mapsto> c)) S' (add_mset y M)"
proof -
  have M: "raw x \<noteq> p" if "x \<in># M" for x using that countedD(3) [OF assms(1)] assms(3,4) by auto
  then have u: "uses M p = 0" by (intro uses_zero) auto
  have r: "ran (own(p \<mapsto> c)) = insert c (ran own)" using assms(4) by (simp add: domIff)
  have "inj_on (own(p \<mapsto> c)) (insert p (dom own))"
    using countedD(4) [OF assms(1)] assms(4,5) by (auto simp: inj_on_def ran_def)
  moreover have "d \<noteq> c" if "own q = Some d" for q d using that assms(5) by (auto simp: ran_def)
  ultimately have "counted (own(p \<mapsto> c)) ((S\<lparr>objs := insert p (objs S)\<rparr>)\<lparr>cells := (cells S)(c \<mapsto> 1)\<rparr>) (add_mset \<lparr>raw = p, cell = Some c\<rparr> M)"
    using countedD [OF assms(1)] M u assms(2,3) r unfolding counted_def by auto
  then show ?thesis using assms(3)
    by (simp add: smart_ptr_new_def finally_action_def dismiss_def final_action_end_def shared_count_new_def Let_def)
qed

lemma new_throws: "p \<noteq> nullptr \<Longrightarrow> p \<notin> objs S \<Longrightarrow> smart_ptr_new None p (S\<lparr>objs := insert p (objs S)\<rparr>) = Inr (S, None)"
  by (simp add: smart_ptr_new_def finally_action_def final_action_end_def delete_object_def)

text \<open>The destructor: the counter tells whether another pointer holds the object.\<close>

lemma word_count_one:
  assumes "n < 2 ^ 63"
  shows "(of_nat (Suc n) :: 64 word) = 1 \<longleftrightarrow> n = 0"
proof -
  have "(of_nat (Suc n) :: 64 word) = of_nat 1 \<longleftrightarrow> take_bit 64 (Suc n) = take_bit 64 (1 :: nat)"
    by (subst word_of_nat_eq_iff) simp
  also have "\<dots> \<longleftrightarrow> n = 0" using assms by (simp add: take_bit_nat_eq_self)
  finally show ?thesis by simp
qed

lemma restrict_all: "dom m \<subseteq> A \<Longrightarrow> m |` A = m"
  by (rule ext) (metis domIff restrict_map_def subsetD)

lemma counted_less:
  assumes "counted own S (add_mset x M)" "raw x \<noteq> nullptr" "own (raw x) = Some c" "raw x \<in> raw ` set_mset M"
  shows "counted own (S\<lparr>cells := (cells S)(c \<mapsto> of_nat (uses M (raw x)))\<rparr>) M"
proof -
  have "held (add_mset x M) = held M" using assms by auto
  moreover have "cells S d = Some (of_nat (uses M p)) \<and> d \<noteq> c" if "own p = Some d" "p \<noteq> raw x" for p d
    using that own_inj [OF assms(1) assms(3), of p] countedD(7) [OF assms(1), of p d] by auto
  moreover have "c \<in> ran own" using assms(3) by (auto simp: ran_def)
  ultimately show ?thesis using assms countedD [OF assms(1)] unfolding counted_def by (auto simp: insert_absorb)
qed

lemma counted_gone:
  assumes "counted own S (add_mset x M)" "raw x \<noteq> nullptr" "own (raw x) = Some c" "raw x \<notin> raw ` set_mset M"
  shows "counted (own(raw x := None)) (S\<lparr>objs := objs S - {raw x}, cells := (cells S)(c := None)\<rparr>) M"
proof -
  have d: "d \<noteq> c" if "own p = Some d" "p \<noteq> raw x" for p d using that own_inj [OF assms(1) assms(3), of p] by auto
  have h: "held M = held (add_mset x M) - {raw x}" using assms(4) by (auto simp: image_iff)
  have r: "ran (own(raw x := None)) = ran own - {c}" using assms(3) d by (auto simp: ran_def) (metis option.inject)
  have "cells S e = Some (of_nat (uses M p))" if "own p = Some e" "p \<noteq> raw x" for p e
    using countedD(7) [OF assms(1) that(1)] that(2) by simp
  moreover have "inj_on (own(raw x := None)) (dom own - {raw x})" using countedD(4) [OF assms(1)] by (auto simp: inj_on_def)
  moreover have "raw y \<noteq> raw x" if "y \<in># M" for y using that assms(4) by (metis image_eqI)
  ultimately show ?thesis using countedD [OF assms(1)] d r h unfolding counted_def by auto
qed

lemma end_ok:
  assumes "counted own S (add_mset x M)"
  shows "\<exists>S'. smart_ptr_end x S = Inr S' \<and> counted (own |` (raw ` set_mset M)) S' M"
proof (cases "raw x = nullptr")
  case True
  then have h: "held (add_mset x M) = held M" by auto
  then have "own |` (raw ` set_mset M) = own" using countedD(3) [OF assms] by (intro restrict_all) auto
  then show ?thesis using True assms h unfolding counted_def by (auto simp: smart_ptr_end_def)
next
  case False
  let ?p = "raw x" and ?n = "uses M (raw x)"
  from counter_ok [OF assms _ False] obtain c where c: "own ?p = Some c" "cell x = Some c"
    "counter (cell x) S = Inr (c, of_nat (Suc ?n))" by auto
  have p: "?p \<in> objs S" using countedD(2) [OF assms] False by simp
  have w: "(of_nat (Suc ?n) :: 64 word) = 1 \<longleftrightarrow> ?n = 0"
    using word_count_one uses_le [of M ?p] countedD(1) [OF assms] by simp
  show ?thesis
  proof (cases "?p \<in> raw ` set_mset M")
    case True
    then have "0 < ?n" using uses_pos by (metis imageE)
    moreover have "own |` (raw ` set_mset M) = own" using countedD(3) [OF assms] True by (intro restrict_all) auto
    ultimately show ?thesis using False c w counted_less [OF assms False c(1) True]
      by (auto simp: smart_ptr_end_def reduce_count_def)
  next
    case gone: False
    then have "own |` (raw ` set_mset M) = own(?p := None)" using countedD(3) [OF assms]
      by (auto simp: restrict_map_def fun_eq_iff domIff)
    moreover have "?n = 0" using gone by (rule uses_zero)
    ultimately show ?thesis using False c w p counted_gone [OF assms False c(1) gone]
      by (auto simp: smart_ptr_end_def reduce_count_def delete_object_def delete_counter_def counter_def)
  qed
qed

lemma move_ok:
  assumes "counted own S (add_mset x M)" "Suc (Suc (size M)) < 2 ^ 63" "smart_ptr_move x = (y, z)"
  shows "raw y = raw x \<and> raw z = nullptr \<and> counted own S (add_mset y (add_mset z M))"
proof (cases "raw x = nullptr")
  case True
  then have "z = x" "raw y = nullptr" using assms(3) by (auto simp: smart_ptr_move_def)
  then show ?thesis using counted_empty [OF assms(1), of y] assms(2) True by simp
next
  case False
  then have "y = x" "raw z = nullptr" using assms(3) by (auto simp: smart_ptr_move_def)
  then show ?thesis using counted_empty [OF assms(1), of z] assms(2) by (simp add: add_mset_commute)
qed

lemma swap_ptr_eq: "swap_ptr x y = (y, x)"
  by (simp add: swap_ptr_def)

lemma assign_ok:
  assumes "counted own S (add_mset t (add_mset r M))"
  shows "\<exists>S'. smart_ptr_assign t r S = Inr (S', r) \<and> counted (own |` (raw ` set_mset (add_mset r M))) S' (add_mset r M)"
  using end_ok [OF assms] by (auto simp: smart_ptr_assign_def swap_ptr_eq)

section \<open>Variables\<close>

definition vals :: "(nat \<rightharpoonup> smart_ptr) \<Rightarrow> smart_ptr multiset" where
  "vals V = image_mset (\<lambda>v. the (V v)) (mset_set (dom V))"

lemma vals_new: "finite (dom V) \<Longrightarrow> V v = None \<Longrightarrow> vals (V(v \<mapsto> x)) = add_mset x (vals V)"
proof -
  assume "finite (dom V)" "V v = None"
  then have "image_mset (\<lambda>u. the ((V(v \<mapsto> x)) u)) (mset_set (dom V)) = vals V"
    unfolding vals_def by (intro image_mset_cong) auto
  then show ?thesis using \<open>finite (dom V)\<close> \<open>V v = None\<close> by (simp add: vals_def domIff)
qed

lemma vals_remove: "finite (dom V) \<Longrightarrow> V v = Some x \<Longrightarrow> vals V = add_mset x (vals (V(v := None)))"
  using vals_new [of "V(v := None)" v x] by (simp add: map_upd_triv)

lemma vals_upd: "finite (dom V) \<Longrightarrow> V v = Some x \<Longrightarrow> vals (V(v \<mapsto> y)) = add_mset y (vals (V(v := None)))"
  using vals_new [of "V(v := None)" v y] by simp

lemma size_vals: "finite (dom V) \<Longrightarrow> size (vals V) = card (dom V)"
  by (simp add: vals_def)

lemma set_vals: "finite (dom V) \<Longrightarrow> set_mset (vals V) = ran V"
  by (force simp: vals_def ran_def image_iff dom_def)

lemma uses_vals: "finite (dom V) \<Longrightarrow> uses (vals V) p = card {v. map_option raw (V v) = Some p}"
proof -
  assume f: "finite (dom V)"
  have "uses (vals V) p = card {v \<in> dom V. raw (the (V v)) = p}"
    using f by (simp add: uses_def vals_def filter_mset_image_mset o_def)
  also have "{v \<in> dom V. raw (the (V v)) = p} = {v. map_option raw (V v) = Some p}" by force
  finally show ?thesis .
qed

section \<open>The specification\<close>

text \<open>\<open>hold\<close> maps a variable to its object, \<open>own\<close> a live object to the address of its counter. An assignment or
  the end of a scope ends the lives of the objects that no variable holds.\<close>

type_synonym sp_spec_state = "(nat \<rightharpoonup> nat) \<times> (nat \<rightharpoonup> nat)"

definition settle :: "(nat \<rightharpoonup> nat) \<Rightarrow> (nat \<rightharpoonup> nat) \<Rightarrow> sp_spec_state" where
  "settle hold own = (hold, own |` ran hold)"

fun sp_spec :: "sp_spec_state \<Rightarrow> sp_cmd \<Rightarrow> sp_spec_state \<times> sp_res" where
  "sp_spec (hold, own) (Make v p None) = ((hold, own), Threw)"
| "sp_spec (hold, own) (Make v p (Some c)) = ((hold(v \<mapsto> p), own(p \<mapsto> c)), Nothing)"
| "sp_spec (hold, own) (Empty v) = ((hold(v \<mapsto> nullptr), own), Nothing)"
| "sp_spec (hold, own) (Copy v w) = ((hold(v := hold w), own), Nothing)"
| "sp_spec (hold, own) (Move v w) = ((hold(v := hold w, w \<mapsto> nullptr), own), Nothing)"
| "sp_spec (hold, own) (Static_cast v w) = ((hold(v := hold w), own), Nothing)"
| "sp_spec (hold, own) (Dynamic_cast v w b) = ((hold(v := if b then hold w else Some nullptr), own), Nothing)"
| "sp_spec (hold, own) (Assign v w) = (settle (hold(v := hold w)) own, Nothing)"
| "sp_spec (hold, own) (Assign_move v w) = (settle (hold(w \<mapsto> nullptr, v := hold w)) own, Nothing)"
| "sp_spec (hold, own) (Swap_vars v w) = ((hold(v := hold w, w := hold v), own), Nothing)"
| "sp_spec (hold, own) (Leave v) = (settle (hold(v := None)) own, Nothing)"
| "sp_spec (hold, own) (Count v) = ((hold, own), Uses (if hold v = Some nullptr then 0 else int (card {u. hold u = hold v})))"
| "sp_spec (hold, own) (Get v) = ((hold, own), Address (the (hold v)))"

text \<open>A new variable is not in scope yet, the others are; \<^verbatim>\<open>new\<close> returns addresses that are not in use.\<close>

fun sp_pre :: "sp_spec_state \<Rightarrow> sp_cmd \<Rightarrow> bool" where
  "sp_pre (hold, own) c \<longleftrightarrow> Suc (card (dom hold)) < 2 ^ 63 \<and> (case c of
     Make v p a \<Rightarrow> hold v = None \<and> p \<noteq> nullptr \<and> own p = None \<and> (\<forall>x. a = Some x \<longrightarrow> x \<notin> ran own)
   | Empty v \<Rightarrow> hold v = None
   | Copy v w \<Rightarrow> hold v = None \<and> hold w \<noteq> None
   | Move v w \<Rightarrow> hold v = None \<and> hold w \<noteq> None
   | Static_cast v w \<Rightarrow> hold v = None \<and> hold w \<noteq> None
   | Dynamic_cast v w b \<Rightarrow> hold v = None \<and> hold w \<noteq> None
   | Assign v w \<Rightarrow> hold v \<noteq> None \<and> hold w \<noteq> None
   | Assign_move v w \<Rightarrow> hold v \<noteq> None \<and> hold w \<noteq> None
   | Swap_vars v w \<Rightarrow> hold v \<noteq> None \<and> hold w \<noteq> None
   | Leave v \<Rightarrow> hold v \<noteq> None
   | Count v \<Rightarrow> hold v \<noteq> None
   | Get v \<Rightarrow> hold v \<noteq> None)"

definition sp_rel :: "prog \<Rightarrow> sp_spec_state \<Rightarrow> bool" where
  "sp_rel P a \<longleftrightarrow> finite (dom (vars P)) \<and> fst a = (\<lambda>v. map_option raw (vars P v)) \<and>
     counted (snd a) (st_of P) (vals (vars P))"

lemma relD:
  assumes "sp_rel P (hold, own)"
  shows "finite (dom (vars P))" "counted own (st_of P) (vals (vars P))" "hold = (\<lambda>v. map_option raw (vars P v))"
    "dom hold = dom (vars P)"
  using assms by (auto simp: sp_rel_def)

lemma rel_new:
  "finite (dom V) \<Longrightarrow> V v = None \<Longrightarrow> counted own S (add_mset x (vals V)) \<Longrightarrow>
    sp_rel \<lparr>st_of = S, vars = V(v \<mapsto> x)\<rparr> ((\<lambda>u. map_option raw (V u))(v \<mapsto> raw x), own)"
  by (auto simp: sp_rel_def vals_new)

lemma rel_upd:
  assumes "finite (dom V)" "V v = Some t" "counted own S (add_mset x (vals (V(v := None))))"
  shows "sp_rel \<lparr>st_of = S, vars = V(v \<mapsto> x)\<rparr> ((\<lambda>u. map_option raw (V u))(v \<mapsto> raw x), own)"
  using assms by (auto simp: sp_rel_def vals_upd)

lemma raw_vals: "finite (dom V) \<Longrightarrow> raw ` set_mset (vals V) = ran (\<lambda>u. map_option raw (V u))"
  by (force simp: set_vals ran_def image_iff)

text \<open>A variable made from another one.\<close>

lemma alias_step:
  assumes "sp_rel P (hold, own)" "Suc (card (dom hold)) < 2 ^ 63" "hold v = None" "hold w = Some q" "p = q \<or> p = nullptr"
  shows "\<exists>P'. bindR (smart_ptr_alias (the (vars P w)) p (st_of P)) (bind_var v P) = Inr (P', Nothing) \<and>
    sp_rel P' (hold(v \<mapsto> p), own)"
proof -
  note V = relD [OF assms(1)]
  obtain x where x: "vars P w = Some x" "raw x = q" using assms(4) by (auto simp: V(3))
  have "x \<in># vals (vars P)" using x V(1) by (auto simp: set_vals ran_def)
  then obtain S' y where "smart_ptr_alias x p (st_of P) = Inr (S', y)" "raw y = p" "counted own S' (add_mset y (vals (vars P)))"
    using alias_ok [OF V(2), of x p] assms(2,5) x(2) V(1,4) by (auto simp: size_vals)
  moreover have "vars P v = None" using assms(3) by (simp add: V(3))
  ultimately show ?thesis using rel_new [OF V(1), of v own S' y] x V(3) by (simp add: bind_var_def)
qed

lemma make_step:
  assumes "sp_rel P (hold, own)" "Suc (card (dom hold)) < 2 ^ 63" "hold v = None" "p \<noteq> nullptr" "own p = None" "c \<notin> ran own"
  shows "\<exists>P'. sp_step P (Make v p (Some c)) = Inr (P', Nothing) \<and> sp_rel P' (hold(v \<mapsto> p), own(p \<mapsto> c))"
proof -
  note V = relD [OF assms(1)]
  obtain S' y where "smart_ptr_new (Some c) p ((st_of P)\<lparr>objs := insert p (objs (st_of P))\<rparr>) = Inr (S', Some y)" "raw y = p"
    "counted (own(p \<mapsto> c)) S' (add_mset y (vals (vars P)))"
    using new_ok [OF V(2) _ assms(4) _ assms(6)] assms(2,5) V(1,4) by (auto simp: size_vals)
  moreover have "vars P v = None" using assms(3) by (simp add: V(3))
  ultimately show ?thesis using rel_new [OF V(1), of v "own(p \<mapsto> c)" S' y] V(3) by (simp add: sp_step_def bind_var_def)
qed

lemma throw_step:
  assumes "sp_rel P (hold, own)" "p \<noteq> nullptr" "own p = None"
  shows "sp_step P (Make v p None) = Inr (P, Threw)"
proof -
  have "objs (st_of P) = dom own" using assms(1) by (auto simp: sp_rel_def counted_def)
  then have "p \<notin> objs (st_of P)" using assms(3) by (simp add: domIff)
  then show ?thesis using new_throws [OF assms(2)] by (simp add: sp_step_def Let_def)
qed

lemma empty_step:
  assumes "sp_rel P (hold, own)" "Suc (card (dom hold)) < 2 ^ 63" "hold v = None"
  shows "\<exists>P'. sp_step P (Empty v) = Inr (P', Nothing) \<and> sp_rel P' (hold(v \<mapsto> nullptr), own)"
proof -
  note V = relD [OF assms(1)]
  let ?x = "\<lparr>raw = nullptr, cell = None\<rparr>"
  have "counted own (st_of P) (add_mset ?x (vals (vars P)))"
    using counted_empty [OF V(2), of ?x] assms(2) V(1,4) by (simp add: size_vals)
  moreover have "vars P v = None" using assms(3) by (simp add: V(3))
  ultimately show ?thesis using rel_new [OF V(1), of v own _ ?x] V(3) by (simp add: sp_step_def smart_ptr_new_def bind_var_def)
qed

lemma leave_step:
  assumes "sp_rel P (hold, own)" "hold v \<noteq> None"
  shows "\<exists>P'. sp_step P (Leave v) = Inr (P', Nothing) \<and> sp_rel P' (settle (hold(v := None)) own)"
proof -
  note V = relD [OF assms(1)]
  obtain x where x: "vars P v = Some x" using assms(2) by (auto simp: V(3))
  let ?V = "(vars P)(v := None)"
  have r: "raw ` set_mset (vals ?V) = ran (hold(v := None))" using raw_vals [of ?V] V(1)
    by (simp add: V(3)) (metis (mono_tags, lifting) fun_upd_apply option.map_disc_iff)
  from end_ok [of own "st_of P" x "vals ?V"] V(2) vals_remove [OF V(1) x] r obtain S'
    where "smart_ptr_end x (st_of P) = Inr S'" "counted (own |` ran (hold(v := None))) S' (vals ?V)" by auto
  then show ?thesis using V(1,3) x by (auto simp: sp_step_def sp_rel_def settle_def)
qed

lemma move_step:
  assumes "sp_rel P (hold, own)" "Suc (card (dom hold)) < 2 ^ 63" "hold v = None" "hold w = Some q"
  shows "\<exists>P'. sp_step P (Move v w) = Inr (P', Nothing) \<and> sp_rel P' (hold(v \<mapsto> q, w \<mapsto> nullptr), own)"
proof -
  note V = relD [OF assms(1)]
  obtain x where x: "vars P w = Some x" "raw x = q" using assms(4) by (auto simp: V(3))
  obtain y z where m: "smart_ptr_move x = (y, z)" by fastforce
  let ?V = "(vars P)(w \<mapsto> z)"
  have vw: "vars P v = None" "v \<noteq> w" using assms(3,4) by (auto simp: V(3))
  have v: "vals (vars P) = add_mset x (vals ((vars P)(w := None)))" "vals ?V = add_mset z (vals ((vars P)(w := None)))"
    using vals_remove [of "vars P" w x] vals_upd [of "vars P" w x z] V(1) x(1) by simp_all
  have "size (vals (vars P)) = card (dom (vars P))" using V(1) by (rule size_vals)
  then have "raw y = raw x" "raw z = nullptr" "counted own (st_of P) (add_mset y (vals ?V))"
    using move_ok [of own "st_of P" x "vals ((vars P)(w := None))" y z] m assms(2) V(2,4) v by simp_all
  moreover from this have "sp_rel \<lparr>st_of = st_of P, vars = ?V(v \<mapsto> y)\<rparr> ((\<lambda>u. map_option raw (?V u))(v \<mapsto> raw y), own)"
    using vw V(1) by (intro rel_new) simp_all
  moreover have "(\<lambda>u. map_option raw (?V u))(v \<mapsto> raw y) = hold(v \<mapsto> q, w \<mapsto> nullptr)"
    using calculation x(2) vw by (auto simp: V(3) fun_eq_iff)
  ultimately show ?thesis using m x by (simp add: sp_step_def bind_var_def)
qed

text \<open>What both assignments do once their parameter is made.\<close>

lemma assign_var:
  assumes "finite (dom V)" "V v = Some t" "counted own S (add_mset r (vals V))"
  shows "\<exists>S'. smart_ptr_assign t r S = Inr (S', r) \<and>
    sp_rel \<lparr>st_of = S', vars = V(v \<mapsto> r)\<rparr> (settle ((\<lambda>u. map_option raw (V u))(v \<mapsto> raw r)) own)"
proof -
  let ?M = "add_mset r (vals (V(v := None)))"
  have "counted own S (add_mset t ?M)" using assms vals_remove [of V v t] by (simp add: add_mset_commute)
  then obtain S' where S': "smart_ptr_assign t r S = Inr (S', r)" "counted (own |` (raw ` set_mset ?M)) S' ?M"
    using assign_ok by blast
  have "(\<lambda>u. map_option raw ((V(v \<mapsto> r)) u)) = (\<lambda>u. map_option raw (V u))(v \<mapsto> raw r)" by auto
  then have "raw ` set_mset ?M = ran ((\<lambda>u. map_option raw (V u))(v \<mapsto> raw r))"
    using raw_vals [of "V(v \<mapsto> r)"] vals_upd [of V v t r] assms(1,2) by simp
  then show ?thesis using S' rel_upd [OF assms(1,2), of _ S' r] by (simp add: settle_def)
qed

lemma assign_step:
  assumes "sp_rel P (hold, own)" "Suc (card (dom hold)) < 2 ^ 63" "hold v \<noteq> None" "hold w = Some q"
  shows "\<exists>P'. sp_step P (Assign v w) = Inr (P', Nothing) \<and> sp_rel P' (settle (hold(v \<mapsto> q)) own)"
proof -
  note V = relD [OF assms(1)]
  obtain x t where x: "vars P w = Some x" "raw x = q" "vars P v = Some t" using assms(3,4) by (auto simp: V(3))
  have "x \<in># vals (vars P)" using x V(1) by (auto simp: set_vals ran_def)
  then obtain S1 r where r: "smart_ptr_alias x (raw x) (st_of P) = Inr (S1, r)" "raw r = raw x" "counted own S1 (add_mset r (vals (vars P)))"
    using alias_ok [OF V(2), of x "raw x"] assms(2) V(1,4) by (auto simp: size_vals)
  from assign_var [OF V(1) x(3) r(3)] show ?thesis using r x by (auto simp: sp_step_def bind_var_def copy_alias V(3))
qed

lemma assign_move_step:
  assumes "sp_rel P (hold, own)" "Suc (card (dom hold)) < 2 ^ 63" "hold v \<noteq> None" "hold w = Some q"
  shows "\<exists>P'. sp_step P (Assign_move v w) = Inr (P', Nothing) \<and> sp_rel P' (settle (hold(w \<mapsto> nullptr, v \<mapsto> q)) own)"
proof -
  note V = relD [OF assms(1)]
  obtain x where x: "vars P w = Some x" "raw x = q" using assms(4) by (auto simp: V(3))
  obtain r z where m: "smart_ptr_move x = (r, z)" by fastforce
  let ?V = "(vars P)(w \<mapsto> z)"
  have v: "vals (vars P) = add_mset x (vals ((vars P)(w := None)))" "vals ?V = add_mset z (vals ((vars P)(w := None)))"
    using vals_remove [of "vars P" w x] vals_upd [of "vars P" w x z] V(1) x(1) by simp_all
  have "size (vals (vars P)) = card (dom (vars P))" using V(1) by (rule size_vals)
  then have r: "raw r = raw x" "raw z = nullptr" "counted own (st_of P) (add_mset r (vals ?V))"
    using move_ok [of own "st_of P" x "vals ((vars P)(w := None))" r z] m assms(2) V(2,4) v by simp_all
  obtain t where t: "?V v = Some t" using assms(3) by (cases "v = w") (auto simp: V(3))
  have "(\<lambda>u. map_option raw (?V u))(v \<mapsto> raw r) = hold(w \<mapsto> nullptr, v \<mapsto> q)" using r x(2) by (auto simp: V(3) fun_eq_iff)
  then show ?thesis using assign_var [OF _ t r(3)] V(1) m x t by (auto simp: sp_step_def bind_var_def Let_def)
qed

lemma swap_step:
  assumes "sp_rel P (hold, own)" "hold v \<noteq> None" "hold w \<noteq> None"
  shows "\<exists>P'. sp_step P (Swap_vars v w) = Inr (P', Nothing) \<and> sp_rel P' (hold(v := hold w, w := hold v), own)"
proof (cases "v = w")
  case True
  then show ?thesis using assms(1) by (simp add: sp_step_def swap_ptr_eq)
next
  case False
  note V = relD [OF assms(1)]
  obtain x y where x: "vars P v = Some x" "vars P w = Some y" using assms(2,3) by (auto simp: V(3))
  let ?W = "(vars P)(v := None, w := None)"
  have "vals (vars P) = add_mset x (add_mset y (vals ?W))"
    using vals_remove [OF V(1) x(1)] vals_remove [of "(vars P)(v := None)" w y] V(1) x(2) False by simp
  moreover have "vals ((vars P)(v \<mapsto> y, w \<mapsto> x)) = add_mset x (add_mset y (vals ?W))"
    using vals_new [of "?W(v \<mapsto> y)" w x] vals_new [of ?W v y] V(1) False by (simp add: fun_upd_twist)
  ultimately have "sp_rel (P\<lparr>vars := (vars P)(v \<mapsto> y, w \<mapsto> x)\<rparr>) (hold(v := hold w, w := hold v), own)"
    using V x False by (auto simp: sp_rel_def fun_eq_iff)
  then show ?thesis using x False by (simp add: sp_step_def swap_ptr_eq)
qed

lemma sint_count: "n < 2 ^ 63 \<Longrightarrow> sint (of_nat n :: 64 word) = int n"
  by transfer (simp add: signed_take_bit_int_eq_self)

lemma count_step:
  assumes "sp_rel P (hold, own)" "hold v \<noteq> None"
  shows "sp_step P (Count v) = Inr (P, Uses (if hold v = Some nullptr then 0 else int (card {u. hold u = hold v})))"
proof -
  note V = relD [OF assms(1)]
  obtain x where x: "vars P v = Some x" using assms(2) by (auto simp: V(3))
  have m: "x \<in># vals (vars P)" using x V(1) by (auto simp: set_vals ran_def)
  have h: "hold v = Some (raw x)" using x by (simp add: V(3))
  have "get_count (cell x) (st_of P) = Inr (int (card {u. hold u = hold v}))" if "raw x \<noteq> nullptr"
  proof -
    have "uses (vals (vars P)) (raw x) < 2 ^ 63" using uses_le countedD(1) [OF V(2)] by (rule le_less_trans)
    moreover have "uses (vals (vars P)) (raw x) = card {u. hold u = hold v}"
      using uses_vals [OF V(1), of "raw x"] unfolding V(3) by (simp add: x)
    ultimately show ?thesis using counter_ok [OF V(2) m that] by (metis bindR_Inr case_prod_conv get_count_def sint_count)
  qed
  then show ?thesis using x h by (cases "raw x = nullptr") (simp_all add: sp_step_def use_count_def)
qed

section \<open>The refinement\<close>

lemma sp_sim:
  assumes "sp_rel P a" "sp_pre a c"
  shows "\<exists>P'. sp_step P c = Inr (P', snd (sp_spec a c)) \<and> sp_rel P' (fst (sp_spec a c))"
proof -
  obtain hold own where a: "a = (hold, own)" by fastforce
  note R = assms(1) [unfolded a] and p = assms(2) [unfolded a]
  have b: "Suc (card (dom hold)) < 2 ^ 63" using p by simp
  show ?thesis unfolding a
  proof (cases c)
    case (Make v q al)
    then show "\<exists>P'. sp_step P c = Inr (P', snd (sp_spec (hold, own) c)) \<and> sp_rel P' (fst (sp_spec (hold, own) c))"
      using throw_step [OF R] make_step [OF R b] R p by (cases al) auto
  next
    case (Dynamic_cast v w f)
    then obtain q where "hold w = Some q" "hold v = None" using p by auto
    then show "\<exists>P'. sp_step P c = Inr (P', snd (sp_spec (hold, own) c)) \<and> sp_rel P' (fst (sp_spec (hold, own) c))"
      using alias_step [OF R b, of v w q "if f \<and> q \<noteq> nullptr then q else nullptr"] Dynamic_cast relD(3) [OF R]
      by (cases "q = nullptr") (auto simp: sp_step_def dynamic_pointer_cast_def raw_get_def)
  next
    case (Static_cast v w)
    then show "\<exists>P'. sp_step P c = Inr (P', snd (sp_spec (hold, own) c)) \<and> sp_rel P' (fst (sp_spec (hold, own) c))"
      using alias_step [OF R b, of v w] p relD(3) [OF R] by (auto simp: sp_step_def static_pointer_cast_def raw_get_def)
  next
    case (Copy v w)
    then show "\<exists>P'. sp_step P c = Inr (P', snd (sp_spec (hold, own) c)) \<and> sp_rel P' (fst (sp_spec (hold, own) c))"
      using alias_step [OF R b, of v w] p relD(3) [OF R] by (auto simp: sp_step_def copy_alias)
  next
    case (Get v)
    then show "\<exists>P'. sp_step P c = Inr (P', snd (sp_spec (hold, own) c)) \<and> sp_rel P' (fst (sp_spec (hold, own) c))"
      using p R relD(3) [OF R] by (auto simp: sp_step_def raw_get_def)
  qed (use p R b empty_step [OF R b] move_step [OF R b] assign_step [OF R b] assign_move_step [OF R b] swap_step [OF R]
      leave_step [OF R] count_step [OF R] in auto)
qed

interpretation sp: data_refinement sp_rel sp_step sp_spec sp_pre
  by unfold_locales (rule sp_sim)

definition sp_start :: prog where
  "sp_start = \<lparr>st_of = \<lparr>objs = {}, cells = Map.empty\<rparr>, vars = Map.empty\<rparr>"

lemma sp_start_rel: "sp_rel sp_start (Map.empty, Map.empty)"
  by (simp add: sp_rel_def sp_start_def counted_def vals_def)

text \<open>C37: every program that declares, copies, moves, casts, assigns and swaps smart pointers, and whose raw
  pointers come fresh from \<^verbatim>\<open>new\<close>, runs without a double deletion, a use of a deleted counter or an
  uninitialised one: variables hold the specified objects, \<^verbatim>\<open>use_count\<close> is the number of variables with the same
  object, an object is alive exactly while a variable holds it (an allocation that fails in the constructor
  deletes it at once), and so is its counter, which never wraps.\<close>

theorem sp_run_refines:
  assumes "all_pre sp_spec sp_pre (Map.empty, Map.empty) cmds"
  shows "\<exists>P'. run sp_step sp_start cmds = Inr (P', snd (spec_run sp_spec (Map.empty, Map.empty) cmds)) \<and>
    (\<lambda>v. map_option raw (vars P' v)) = fst (fst (spec_run sp_spec (Map.empty, Map.empty) cmds)) \<and>
    objs (st_of P') = ran (fst (fst (spec_run sp_spec (Map.empty, Map.empty) cmds))) - {nullptr} \<and>
    dom (cells (st_of P')) = {c. \<exists>v x. vars P' v = Some x \<and> raw x \<noteq> nullptr \<and> cell x = Some c}"
proof -
  obtain P' where P': "run sp_step sp_start cmds = Inr (P', snd (spec_run sp_spec (Map.empty, Map.empty) cmds))"
    "sp_rel P' (fst (spec_run sp_spec (Map.empty, Map.empty) cmds))"
    using sp.run_refines [OF sp_start_rel assms] by blast
  obtain hold own where a: "fst (spec_run sp_spec (Map.empty, Map.empty) cmds) = (hold, own)" by fastforce
  note V = relD [OF P'(2) [unfolded a]]
  have "objs (st_of P') = ran hold - {nullptr}" using countedD(2) [OF V(2)] raw_vals [OF V(1)] by (simp add: V(3))
  moreover have "ran own = {c. \<exists>v x. vars P' v = Some x \<and> raw x \<noteq> nullptr \<and> cell x = Some c}" (is "_ = ?C")
  proof
    show "ran own \<subseteq> ?C"
    proof
      fix c assume "c \<in> ran own"
      then obtain p where p: "own p = Some c" by (auto simp: ran_def)
      then have "p \<in> held (vals (vars P'))" using countedD(3) [OF V(2)] by blast
      then obtain x where x: "x \<in># vals (vars P')" "raw x = p" "p \<noteq> nullptr" by auto
      moreover obtain v where "vars P' v = Some x" using x(1) V(1) by (auto simp: set_vals ran_def)
      ultimately show "c \<in> ?C" using countedD(6) [OF V(2) x(1)] p by auto
    qed
    show "?C \<subseteq> ran own" using countedD(6) [OF V(2)] V(1) by (auto simp: set_vals ran_def) (metis)
  qed
  ultimately show ?thesis using P'(1) V(3) countedD(5) [OF V(2)] by (auto simp: a)
qed

theorem sp_run_refines_witness:
  "\<exists>P'. run sp_step sp_start [Make 1 50 (Some 7), Empty 2, Count 2, Assign 2 1, Count 2, Dynamic_cast 3 2 True, Count 3,
      Make 4 60 None, Leave 1, Leave 3, Assign_move 2 2, Count 2, Leave 2]
    = Inr (P', [Nothing, Nothing, Uses 0, Nothing, Uses 2, Nothing, Uses 3, Threw, Nothing, Nothing, Nothing, Uses 1, Nothing]) \<and>
    objs (st_of P') = {} \<and> dom (cells (st_of P')) = {}"
proof -
  let ?cmds = "[Make 1 50 (Some 7), Empty 2, Count 2, Assign 2 1, Count 2, Dynamic_cast 3 2 True, Count 3,
      Make 4 60 None, Leave 1, Leave 3, Assign_move 2 2, Count 2, Leave 2]"
  let ?rs = "[Nothing, Nothing, Uses 0, Nothing, Uses 2, Nothing, Uses 3, Threw, Nothing, Nothing, Nothing, Uses 1, Nothing]"
  have u: "{u :: nat. u \<noteq> Suc 0 \<longrightarrow> u = 2} = {1, 2}" "{u :: nat. u \<noteq> Suc 0 \<longrightarrow> u \<noteq> 2 \<longrightarrow> u = 3} = {1, 2, 3}" by auto
  have "all_pre sp_spec sp_pre (Map.empty, Map.empty) ?cmds" by (simp add: settle_def)
  moreover have "spec_run sp_spec (Map.empty, Map.empty) ?cmds = ((Map.empty, Map.empty), ?rs)"
    by (simp add: settle_def u)
  ultimately obtain P' where "run sp_step sp_start ?cmds = Inr (P', ?rs)" "(\<lambda>v. map_option raw (vars P' v)) = Map.empty"
    "objs (st_of P') = {}" "dom (cells (st_of P')) = {c. \<exists>v x. vars P' v = Some x \<and> raw x \<noteq> nullptr \<and> cell x = Some c}"
    using sp_run_refines [of ?cmds] by (auto simp del: run.simps spec_run.simps all_pre.simps)
  moreover from this(2) have "vars P' v = None" for v by (metis option.map_disc_iff)
  ultimately show ?thesis by (intro exI [of _ P']) (simp del: run.simps)
qed

end
