(* ===== verification/Fn_Exclusion.thy ===== *)
theory Fn_Exclusion
  imports Prelude "HOL-Library.Multiset"
begin

text \<open>
  The manager of mutually exclusive functions of \<^verbatim>\<open>QtProject/MutuallyExclusiveFunction\<close>, with the functions of its
  test program. A registered function has three callbacks; opening a function first closes those
  that are registered as exclusive with it. The calls are made by \<^verbatim>\<open>QTimer::singleShot\<close>, from the event loop: a
  timer is the call it will make, and in which order the event loop runs the timers of one call is
  left open. Every method runs under the mutex of the handle. \<open>'w\<close> is the state the callbacks work on;
  an uninitialised pointer is \<open>None\<close>.
\<close>

datatype fm_error = Bad_receiver

record 'w FunctionInfo =
  receiver :: "nat option"
  functionID :: int
  checkFunction :: "('w \<Rightarrow> bool) option"
  closeFunction :: "('w \<Rightarrow> 'w \<times> bool) option"
  openFunction :: "('w \<Rightarrow> 'w \<times> bool) option"

text \<open>The multimap keeps the entries of a key in the order of their insertion.\<close>

record 'w handle =
  m_mutualExclusionMap :: "(int \<times> 'w FunctionInfo) list"
  m_registerFunctionMap :: "int \<rightharpoonup> 'w FunctionInfo"

definition handle_new :: "'w handle" where
  "handle_new = \<lparr>m_mutualExclusionMap = [], m_registerFunctionMap = Map.empty\<rparr>"

section \<open>Registration\<close>

text \<open>\<^verbatim>\<open>insert\<close> of a map keeps an entry that is there.\<close>

definition RegisterFunction :: "'w FunctionInfo \<Rightarrow> 'w handle \<Rightarrow> 'w handle" where
  "RegisterFunction f H = (case m_registerFunctionMap H (functionID f) of
     Some _ \<Rightarrow> H | None \<Rightarrow> H\<lparr>m_registerFunctionMap := (m_registerFunctionMap H)(functionID f \<mapsto> f)\<rparr>)"

definition UnRegisterFunction :: "'w FunctionInfo \<Rightarrow> 'w handle \<Rightarrow> 'w handle" where
  "UnRegisterFunction f H = H\<lparr>m_registerFunctionMap := (m_registerFunctionMap H)(functionID f := None)\<rparr>"

text \<open>The variable \<^verbatim>\<open>functionInfo\<close> lives across the turns of the loop; a function that is not registered yet gets
  its number and no callbacks, and whatever receiver the variable has.\<close>

definition no_info :: "'w FunctionInfo" where
  "no_info = \<lparr>receiver = None, functionID = 0, checkFunction = None, closeFunction = None, openFunction = None\<rparr>"

fun relate_loop :: "int \<Rightarrow> 'w FunctionInfo \<Rightarrow> int list \<Rightarrow> 'w handle \<Rightarrow> 'w handle" where
  "relate_loop i functionInfo [] H = H"
| "relate_loop i functionInfo (j # js) H =
    (let functionInfo = (case m_registerFunctionMap H j of
           Some f \<Rightarrow> f
         | None \<Rightarrow> functionInfo\<lparr>functionID := j, checkFunction := None, openFunction := None, closeFunction := None\<rparr>)
     in relate_loop i functionInfo js (H\<lparr>m_mutualExclusionMap := m_mutualExclusionMap H @ [(i, functionInfo)]\<rparr>))"

definition RegisterMutuallyExclusiveRelationship :: "int \<Rightarrow> int list \<Rightarrow> 'w handle \<Rightarrow> 'w handle" where
  "RegisterMutuallyExclusiveRelationship i js H = relate_loop i no_info js H"

definition UnregisterMutuallyExclusiveRelationship :: "int \<Rightarrow> 'w handle \<Rightarrow> 'w handle" where
  "UnregisterMutuallyExclusiveRelationship i H =
     H\<lparr>m_mutualExclusionMap := filter (\<lambda>(k, f). k \<noteq> i) (m_mutualExclusionMap H)\<rparr>"

section \<open>Opening and closing\<close>

datatype 'w timer = Close_if_open "'w FunctionInfo" | Open_it "'w FunctionInfo" | Close_it "'w FunctionInfo"

definition fire :: "'w timer \<Rightarrow> 'w \<Rightarrow> 'w" where
  "fire t w = (case t of
     Close_if_open f \<Rightarrow> (if the (checkFunction f) w then fst (the (closeFunction f) w) else w)
   | Open_it f \<Rightarrow> fst (the (openFunction f) w)
   | Close_it f \<Rightarrow> fst (the (closeFunction f) w))"

definition singleShot :: "nat option \<Rightarrow> 'w timer \<Rightarrow> fm_error + 'w timer list" where
  "singleShot r t = (case r of None \<Rightarrow> Inl Bad_receiver | Some _ \<Rightarrow> Inr [t])"

text \<open>One turn of the loop over the exclusive functions.\<close>

definition close_timer :: "'w handle \<Rightarrow> 'w FunctionInfo \<Rightarrow> fm_error + 'w timer list" where
  "close_timer H f =
    (let f = (if checkFunction f = None \<or> closeFunction f = None
              then (case m_registerFunctionMap H (functionID f) of
                      Some g \<Rightarrow> f\<lparr>closeFunction := closeFunction g, checkFunction := checkFunction g\<rparr>
                    | None \<Rightarrow> f)
              else f)
     in if checkFunction f \<noteq> None \<and> closeFunction f \<noteq> None then singleShot (receiver f) (Close_if_open f) else Inr [])"

fun close_timers :: "'w handle \<Rightarrow> 'w FunctionInfo list \<Rightarrow> fm_error + 'w timer list" where
  "close_timers H [] = Inr []"
| "close_timers H (f # fs) = bindR (close_timer H f) (\<lambda>ts. bindR (close_timers H fs) (\<lambda>us. Inr (ts @ us)))"

definition equal_range :: "(int \<times> 'a) list \<Rightarrow> int \<Rightarrow> 'a list" where
  "equal_range m i = map snd (filter (\<lambda>(k, f). k = i) m)"

definition FunctionOpen :: "int \<Rightarrow> bool \<Rightarrow> 'w handle \<Rightarrow> fm_error + 'w timer list" where
  "FunctionOpen i opening H = (case m_registerFunctionMap H i of
     None \<Rightarrow> Inr []
   | Some f \<Rightarrow>
       if opening then
         bindR (close_timers H (equal_range (m_mutualExclusionMap H) i)) (\<lambda>ts.
         bindR (if openFunction f \<noteq> None then singleShot (receiver f) (Open_it f) else Inr []) (\<lambda>us. Inr (ts @ us)))
       else if closeFunction f \<noteq> None then singleShot (receiver f) (Close_it f)
       else Inr [])"

section \<open>The functions of the test program\<close>

text \<open>\<open>m_isOpen\<close> has the member of every test function, \<open>signals\<close> what \<^verbatim>\<open>functionStateChanged\<close> was emitted with.\<close>

record tests =
  m_isOpen :: "int \<Rightarrow> bool"
  signals :: "(int \<times> bool) list"

definition check_fn :: "int \<Rightarrow> tests \<Rightarrow> bool" where
  "check_fn i w = m_isOpen w i"

definition close_fn :: "int \<Rightarrow> tests \<Rightarrow> tests \<times> bool" where
  "close_fn i w = (if m_isOpen w i
     then (w\<lparr>m_isOpen := (m_isOpen w)(i := False), signals := signals w @ [(i, False)]\<rparr>, True) else (w, False))"

definition open_fn :: "int \<Rightarrow> tests \<Rightarrow> tests \<times> bool" where
  "open_fn i w = (if \<not> m_isOpen w i
     then (w\<lparr>m_isOpen := (m_isOpen w)(i := True), signals := signals w @ [(i, True)]\<rparr>, True) else (w, False))"

definition info_of :: "int \<Rightarrow> tests FunctionInfo" where
  "info_of i = \<lparr>receiver = Some (nat i), functionID = i, checkFunction = Some (check_fn i),
     closeFunction = Some (close_fn i), openFunction = Some (open_fn i)\<rparr>"

definition registerFunctions :: "tests handle \<Rightarrow> tests handle" where
  "registerFunctions H = RegisterFunction (info_of 3) (RegisterFunction (info_of 2) (RegisterFunction (info_of 1) H))"

definition setupMutualExclusions :: "tests handle \<Rightarrow> tests handle" where
  "setupMutualExclusions H =
    RegisterMutuallyExclusiveRelationship 3 [2] (RegisterMutuallyExclusiveRelationship 2 [3]
      (RegisterMutuallyExclusiveRelationship 2 [1] (RegisterMutuallyExclusiveRelationship 1 [2] H)))"

text \<open>The calls of the handle in a step of the test. A step starts when the timers of the step before have
  fired: its timers wait one millisecond, the next step two seconds.\<close>

datatype fm_call = Open_call int bool | Unregister int | Unrelate int

fun test_calls :: "nat \<Rightarrow> fm_call list" where
  "test_calls n = (if n = 1 then [Open_call 1 True, Open_call 1 False]
    else if n = 2 then [Open_call 1 True, Open_call 2 True]
    else if n = 3 then [Open_call 1 True, Open_call 3 True, Open_call 2 True]
    else if n = 4 then [Open_call 1 True]
    else if n = 5 then [Open_call 1 True, Open_call 3 True]
    else if n = 6 then [Unregister 1, Open_call 1 True]
    else if n = 7 then [Unrelate 2, Open_call 1 True, Open_call 2 True, Open_call 3 True]
    else [])"

fun do_calls :: "fm_call list \<Rightarrow> tests handle \<Rightarrow> fm_error + tests handle \<times> tests timer list" where
  "do_calls [] H = Inr (H, [])"
| "do_calls (Open_call i b # cs) H =
     bindR (FunctionOpen i b H) (\<lambda>ts. bindR (do_calls cs H) (\<lambda>(H, us). Inr (H, ts @ us)))"
| "do_calls (Unregister i # cs) H = do_calls cs (UnRegisterFunction (info_of i) H)"
| "do_calls (Unrelate i # cs) H = do_calls cs (UnregisterMutuallyExclusiveRelationship i H)"

definition runNextTest :: "nat \<Rightarrow> tests handle \<times> tests \<Rightarrow> fm_error + tests handle \<times> tests" where
  "runNextTest n Hw = (case Hw of (H, w) \<Rightarrow>
     bindR (do_calls (test_calls n) H) (\<lambda>(H, ts). Inr (H, fold fire ts w)))"

end
