(* ===== verification/Fn_Exclusion_Spec.thy ===== *)
theory Fn_Exclusion_Spec
  imports Fn_Exclusion
begin

text \<open>
  What the manager of exclusive functions guarantees: when the functions are registered before the
  relations, no two exclusive functions are open when no timer waits, if the event loop keeps the
  timers of a call together. A relation registered first has no receiver to call.
\<close>

section \<open>Registered functions and relations\<close>

definition fm_setup :: "int list \<Rightarrow> (int \<times> int list) list \<Rightarrow> tests handle" where
  "fm_setup ids rels = fold (\<lambda>(i, js). RegisterMutuallyExclusiveRelationship i js) rels
     (fold (\<lambda>i. RegisterFunction (info_of i)) ids handle_new)"

definition partners :: "(int \<times> int list) list \<Rightarrow> int \<Rightarrow> int list" where
  "partners rels i = concat (map snd (filter (\<lambda>(k, js). k = i) rels))"

lemma info_of_sel [simp]: "functionID (info_of i) = i" "receiver (info_of i) = Some (nat i)"
  "checkFunction (info_of i) = Some (check_fn i)" "closeFunction (info_of i) = Some (close_fn i)"
  "openFunction (info_of i) = Some (open_fn i)"
  by (simp_all add: info_of_def)

lemma info_of_inj [simp]: "info_of i = info_of j \<longleftrightarrow> i = j"
  by (metis info_of_sel(1))

lemma registered: "m_registerFunctionMap (fold (\<lambda>i. RegisterFunction (info_of i)) ids H) k =
    (if m_registerFunctionMap H k = None \<and> k \<in> set ids then Some (info_of k) else m_registerFunctionMap H k)"
  by (induction ids arbitrary: H) (auto simp: RegisterFunction_def split: option.splits)

lemma register_keeps: "m_mutualExclusionMap (fold (\<lambda>i. RegisterFunction (info_of i)) ids H) = m_mutualExclusionMap H"
  by (induction ids arbitrary: H) (auto simp: RegisterFunction_def split: option.splits)

lemma relate_loop_registered:
  "\<forall>j\<in>set js. m_registerFunctionMap H j = Some (info_of j) \<Longrightarrow>
    relate_loop i f js H = H\<lparr>m_mutualExclusionMap := m_mutualExclusionMap H @ map (\<lambda>j. (i, info_of j)) js\<rparr>"
  by (induction js arbitrary: H f) simp_all

lemma setup_relations:
  assumes "\<forall>(i, js)\<in>set rels. \<forall>j\<in>set js. m_registerFunctionMap H j = Some (info_of j)"
  shows "fold (\<lambda>(i, js). RegisterMutuallyExclusiveRelationship i js) rels H =
    H\<lparr>m_mutualExclusionMap := m_mutualExclusionMap H @ concat (map (\<lambda>(i, js). map (\<lambda>j. (i, info_of j)) js) rels)\<rparr>"
  using assms
proof (induction rels arbitrary: H)
  case (Cons r rels)
  obtain i js where r: "r = (i, js)" by fastforce
  have "RegisterMutuallyExclusiveRelationship i js H = H\<lparr>m_mutualExclusionMap := m_mutualExclusionMap H @ map (\<lambda>j. (i, info_of j)) js\<rparr>"
    using Cons.prems r by (simp add: RegisterMutuallyExclusiveRelationship_def relate_loop_registered)
  then show ?case using Cons r by simp
qed simp

lemma setup_eq:
  assumes "\<forall>(i, js)\<in>set rels. set js \<subseteq> set ids"
  shows "m_registerFunctionMap (fm_setup ids rels) k = (if k \<in> set ids then Some (info_of k) else None)"
    and "equal_range (m_mutualExclusionMap (fm_setup ids rels)) i = map info_of (partners rels i)"
proof -
  let ?H = "fold (\<lambda>i. RegisterFunction (info_of i)) ids handle_new"
  have r: "m_registerFunctionMap ?H k = (if k \<in> set ids then Some (info_of k) else None)" for k
    by (simp add: registered handle_new_def)
  have "\<forall>(i, js)\<in>set rels. \<forall>j\<in>set js. m_registerFunctionMap ?H j = Some (info_of j)" using assms r by fastforce
  then have s: "fm_setup ids rels = ?H\<lparr>m_mutualExclusionMap := concat (map (\<lambda>(i, js). map (\<lambda>j. (i, info_of j)) js) rels)\<rparr>"
    unfolding fm_setup_def by (subst setup_relations) (simp_all add: register_keeps handle_new_def)
  show "m_registerFunctionMap (fm_setup ids rels) k = (if k \<in> set ids then Some (info_of k) else None)" by (simp add: s r)
  have "equal_range (concat (map (\<lambda>(i, js). map (\<lambda>j. (i, info_of j)) js) rels)) i = map info_of (partners rels i)"
    by (induction rels) (auto simp: equal_range_def partners_def filter_map o_def)
  then show "equal_range (m_mutualExclusionMap (fm_setup ids rels)) i = map info_of (partners rels i)" by (simp add: s)
qed

lemma close_timers_infos: "close_timers H (map info_of js) = Inr (map (\<lambda>j. Close_if_open (info_of j)) js)"
  by (induction js) (simp_all add: close_timer_def singleShot_def)

lemma open_timers:
  assumes "\<forall>(i, js)\<in>set rels. set js \<subseteq> set ids"
  shows "FunctionOpen i b (fm_setup ids rels) = Inr (if i \<notin> set ids then []
    else if b then map (\<lambda>j. Close_if_open (info_of j)) (partners rels i) @ [Open_it (info_of i)] else [Close_it (info_of i)])"
  using setup_eq [OF assms] by (simp add: FunctionOpen_def close_timers_infos singleShot_def)

section \<open>Firing\<close>

lemma fire_open [simp]:
  "m_isOpen (fire (Close_if_open (info_of j)) w) = (m_isOpen w)(j := False)"
  "m_isOpen (fire (Open_it (info_of j)) w) = (m_isOpen w)(j := True)"
  "m_isOpen (fire (Close_it (info_of j)) w) = (m_isOpen w)(j := False)"
  by (auto simp: fire_def check_fn_def close_fn_def open_fn_def fun_eq_iff)

lemma fire_all:
  assumes "set ts \<subseteq> insert (Open_it (info_of i)) ((\<lambda>j. Close_if_open (info_of j)) ` J)" "i \<notin> J"
  shows "m_isOpen (fold fire ts w) k \<longleftrightarrow> (if k = i \<and> Open_it (info_of i) \<in> set ts then True
    else if k \<in> J \<and> Close_if_open (info_of k) \<in> set ts then False else m_isOpen w k)"
  using assms(1)
proof (induction ts arbitrary: w)
  case (Cons t ts)
  consider "t = Open_it (info_of i)" | j where "j \<in> J" "t = Close_if_open (info_of j)" using Cons.prems by auto
  then show ?case using Cons assms(2) by cases auto
qed simp

lemma fire_any_order:
  assumes "mset ts = mset (map (\<lambda>j. Close_if_open (info_of j)) js @ [Open_it (info_of i)])" "i \<notin> set js"
  shows "m_isOpen (fold fire ts w) k \<longleftrightarrow> k = i \<or> k \<notin> set js \<and> m_isOpen w k"
proof -
  have "set ts = set (map (\<lambda>j. Close_if_open (info_of j)) js @ [Open_it (info_of i)])" using assms(1) by (rule mset_eq_setD)
  then show ?thesis using fire_all [of ts i "set js"] assms(2) by auto
qed

text \<open>The event loop. \<open>fm_reach\<close> works on the tests and the started timers, a batch for every call: a call
  adds its batch at any moment, also while earlier timers wait; the event loop fires the timers of the
  oldest batch, in any order, before those of a later one, since all of them wait one millisecond.\<close>

inductive fm_reach :: "tests handle \<Rightarrow> tests \<times> tests timer list list \<Rightarrow> (int \<times> bool) list \<Rightarrow> tests \<times> tests timer list list \<Rightarrow> bool" where
  fm_stay: "fm_reach H s [] s"
| fm_call: "FunctionOpen i b H = Inr ts \<Longrightarrow> fm_reach H (w, q @ [ts]) cs s' \<Longrightarrow> fm_reach H (w, q) ((i, b) # cs) s'"
| fm_fire: "fm_reach H (fire t w, (us @ vs) # q) cs s' \<Longrightarrow> fm_reach H (w, (us @ t # vs) # q) cs s'"
| fm_next: "fm_reach H (w, q) cs s' \<Longrightarrow> fm_reach H (w, [] # q) cs s'"

text \<open>The same without the waiting: the batches one after the other, each in some order.\<close>

inductive fm_batches :: "tests \<Rightarrow> tests timer list list \<Rightarrow> tests \<Rightarrow> bool" where
  batches_nil: "fm_batches w [] w"
| batches_cons: "mset ts' = mset ts \<Longrightarrow> fm_batches (fold fire ts' w) q w' \<Longrightarrow> fm_batches w (ts # q) w'"

inductive_cases fm_batches_nilE: "fm_batches w [] w'"
inductive_cases fm_batches_consE: "fm_batches w (ts # q) w'"

inductive fm_run :: "tests handle \<Rightarrow> tests \<Rightarrow> (int \<times> bool) list \<Rightarrow> tests \<Rightarrow> bool" where
  run_nil: "fm_run H w [] w"
| run_cons: "FunctionOpen i b H = Inr ts \<Longrightarrow> mset ts' = mset ts \<Longrightarrow> fm_run H (fold fire ts' w) cs w' \<Longrightarrow> fm_run H w ((i, b) # cs) w'"

inductive_cases fm_run_consE: "fm_run H w (c # cs) w'"

lemma batches_append:
  "fm_batches w (q @ [ts]) w' \<Longrightarrow> \<exists>w0 ts'. fm_batches w q w0 \<and> mset ts' = mset ts \<and> w' = fold fire ts' w0"
proof (induction q arbitrary: w)
  case Nil
  then show ?case by (auto elim!: fm_batches_consE fm_batches_nilE intro: batches_nil)
next
  case (Cons us q)
  from Cons.prems obtain us' where us': "mset us' = mset us" "fm_batches (fold fire us' w) (q @ [ts]) w'"
    by (auto elim: fm_batches_consE)
  with Cons.IH obtain w0 ts' where "fm_batches (fold fire us' w) q w0" "mset ts' = mset ts" "w' = fold fire ts' w0" by blast
  then show ?case using us'(1) batches_cons by blast
qed

lemma reach_run: "fm_reach H s cs s' \<Longrightarrow> snd s' = [] \<Longrightarrow> \<exists>w1. fm_batches (fst s) (snd s) w1 \<and> fm_run H w1 cs (fst s')"
proof (induction rule: fm_reach.induct)
  case (fm_stay H s)
  then show ?case using batches_nil run_nil by metis
next
  case (fm_call i b H ts w q cs s')
  then obtain w1 where w1: "fm_batches w (q @ [ts]) w1" "fm_run H w1 cs (fst s')" by auto
  from batches_append [OF w1(1)] obtain w0 ts' where "fm_batches w q w0" "mset ts' = mset ts" "w1 = fold fire ts' w0" by blast
  then show ?case using run_cons [OF fm_call.hyps(1), of ts' w0 cs "fst s'"] w1(2) by auto
next
  case (fm_fire H t w us vs q cs s')
  then obtain w1 ts' where "mset ts' = mset (us @ vs)" "fm_batches (fold fire ts' (fire t w)) q w1" "fm_run H w1 cs (fst s')"
    by (auto elim: fm_batches_consE)
  then show ?case using batches_cons [of "t # ts'" "us @ t # vs" w q w1] by auto
next
  case (fm_next H w q cs s')
  then show ?case using batches_cons [of "[]" "[]"] by fastforce
qed

corollary reach_idle: "fm_reach H (w, []) cs (w', []) \<Longrightarrow> fm_run H w cs w'"
  by (drule reach_run) (auto elim: fm_batches_nilE)

definition no_conflict :: "(int \<times> int list) list \<Rightarrow> tests \<Rightarrow> bool" where
  "no_conflict rels w \<longleftrightarrow> (\<forall>i. \<forall>j\<in>set (partners rels i). \<not> (m_isOpen w i \<and> m_isOpen w j))"

lemma fire_one: "mset ts = mset [x] \<Longrightarrow> fold fire ts w = fire x w"
  by simp

lemma call_no_conflict:
  assumes "\<forall>(i, js)\<in>set rels. set js \<subseteq> set ids" "\<forall>i. \<forall>j\<in>set (partners rels i). i \<in> set (partners rels j)"
    and "\<forall>i. i \<notin> set (partners rels i)"
    and "FunctionOpen i b (fm_setup ids rels) = Inr ts" "mset ts' = mset ts" "no_conflict rels w"
  shows "no_conflict rels (fold fire ts' w) \<and> (i \<in> set ids \<longrightarrow> m_isOpen (fold fire ts' w) i = b)"
proof -
  consider "i \<notin> set ids" "ts' = []" | "i \<in> set ids" "b" "mset ts' = mset (map (\<lambda>j. Close_if_open (info_of j)) (partners rels i) @ [Open_it (info_of i)])"
    | "i \<in> set ids" "\<not> b" "mset ts' = mset [Close_it (info_of i)]"
    using assms(4,5) open_timers [OF assms(1)] by (auto split: if_splits)
  then show ?thesis
  proof cases
    case 1 then show ?thesis using assms(6) by simp
  next
    case 2
    then have "m_isOpen (fold fire ts' w) k \<longleftrightarrow> k = i \<or> k \<notin> set (partners rels i) \<and> m_isOpen w k" for k
      using fire_any_order assms(3) by blast
    then show ?thesis using assms(2,3,6) 2 unfolding no_conflict_def by (metis (no_types, lifting))
  next
    case 3
    then have "fold fire ts' w = fire (Close_it (info_of i)) w" by (intro fire_one)
    then show ?thesis using assms(6) 3 by (auto simp: no_conflict_def)
  qed
qed

lemma run_no_conflict:
  assumes "\<forall>(i, js)\<in>set rels. set js \<subseteq> set ids" "\<forall>i. \<forall>j\<in>set (partners rels i). i \<in> set (partners rels j)"
    and "\<forall>i. i \<notin> set (partners rels i)" "no_conflict rels w" "fm_run (fm_setup ids rels) w calls w'"
  shows "no_conflict rels w' \<and> (\<forall>i b cs. calls = cs @ [(i, b)] \<longrightarrow> i \<in> set ids \<longrightarrow> m_isOpen w' i = b)"
  using assms(4,5)
proof (induction calls arbitrary: w)
  case Nil
  then show ?case by (auto elim: fm_run.cases)
next
  case (Cons c calls)
  from Cons.prems(2) obtain i b ts ts' where c: "c = (i, b)" "FunctionOpen i b (fm_setup ids rels) = Inr ts" "mset ts' = mset ts"
    "fm_run (fm_setup ids rels) (fold fire ts' w) calls w'" by (elim fm_run_consE)
  note n = call_no_conflict [OF assms(1-3) c(2,3) Cons.prems(1)]
  then have IH: "no_conflict rels w' \<and> (\<forall>i b cs. calls = cs @ [(i, b)] \<longrightarrow> i \<in> set ids \<longrightarrow> m_isOpen w' i = b)"
    using Cons.IH c(4) by blast
  have "w' = fold fire ts' w" if "calls = []" using c(4) that by (auto elim: fm_run.cases)
  then show ?case using IH n c(1) by (cases calls rule: rev_cases) auto
qed

text \<open>C38: take functions that are all registered before the relations naming them, a relation that is
  symmetric and irreflexive, and a start in which no two exclusive functions are open and no timer waits.
  Then no call fails. Calls may come at any moment, also while timers of earlier calls wait; the event
  loop fires the timers of one call in any order among themselves, but all of them before those of the
  next call. Whenever no timer waits, no two exclusive functions are open, and the function of the last
  call is open or closed as that call asked.\<close>

theorem fm_exclusion:
  assumes "\<forall>(i, js)\<in>set rels. set js \<subseteq> set ids" "\<forall>i. \<forall>j\<in>set (partners rels i). i \<in> set (partners rels j)"
    and "\<forall>i. i \<notin> set (partners rels i)" "no_conflict rels w" "fm_reach (fm_setup ids rels) (w, []) calls (w', [])"
  shows "(\<forall>i b. FunctionOpen i b (fm_setup ids rels) \<noteq> Inl Bad_receiver) \<and> no_conflict rels w' \<and>
    (\<forall>i b cs. calls = cs @ [(i, b)] \<longrightarrow> i \<in> set ids \<longrightarrow> m_isOpen w' i = b)"
  using run_no_conflict [OF assms(1-4) reach_idle [OF assms(5)]] open_timers [OF assms(1)] by simp

text \<open>The second call of the witness is made while both timers of the first one wait.\<close>

theorem fm_exclusion_witness:
  "\<exists>w'. fm_reach (fm_setup [1, 2] [(1, [2]), (2, [1])]) (\<lparr>m_isOpen = (\<lambda>_. False), signals = []\<rparr>, []) [(1, True), (2, True)] (w', []) \<and>
    m_isOpen w' 2 \<and> \<not> m_isOpen w' 1"
proof -
  let ?rels = "[(1, [2]), (2, [1 :: int])] :: (int \<times> int list) list"
  let ?ids = "[1, 2] :: int list"
  let ?w = "\<lparr>m_isOpen = (\<lambda>_. False), signals = []\<rparr>"
  have s: "\<forall>(i, js)\<in>set ?rels. set js \<subseteq> set ?ids" by simp
  have p: "partners ?rels i = (if i = 1 then [2] else if i = 2 then [1] else [])" for i
    by (simp add: partners_def)
  have o: "FunctionOpen 1 True (fm_setup ?ids ?rels) = Inr [Close_if_open (info_of 2), Open_it (info_of 1)]"
    "FunctionOpen 2 True (fm_setup ?ids ?rels) = Inr [Close_if_open (info_of 1), Open_it (info_of 2)]"
    by (simp_all add: open_timers [OF s] p)
  define w' where "w' = fold fire [Close_if_open (info_of 2), Open_it (info_of 1), Close_if_open (info_of 1), Open_it (info_of 2)] ?w"
  have w': "fm_reach (fm_setup ?ids ?rels) (?w, []) [(1, True), (2, True)] (w', [])"
    by (rule fm_call [OF o(1)], rule fm_call [OF o(2)], simp,
        (rule fm_next | rule fm_fire [where us = "[]", simplified] | simp add: w'_def fm_stay)+)
  have sym: "\<forall>i. \<forall>j\<in>set (partners ?rels i). i \<in> set (partners ?rels j)" and irr: "\<forall>i. i \<notin> set (partners ?rels i)"
    by (simp_all add: p)
  have n: "no_conflict ?rels ?w" by (simp add: no_conflict_def)
  have "no_conflict ?rels w'" "\<forall>i b cs. [(1, True), (2, True)] = cs @ [(i, b)] \<longrightarrow> i \<in> set ?ids \<longrightarrow> m_isOpen w' i = b"
    using fm_exclusion [OF s sym irr n w'] by blast+
  moreover from this(2) have "m_isOpen w' 2" by (metis append_Cons append_Nil list.set_intros(1,2))
  moreover have "1 \<in> set (partners ?rels 2)" by (simp add: p)
  ultimately show ?thesis using w' unfolding no_conflict_def by blast
qed

text \<open>The code keeps no order of its own between the calls: were timers of two calls mixed, two exclusive
  functions could both be open in the end.\<close>

lemma fm_mixed_timers:
  assumes "i \<noteq> j"
  shows "m_isOpen (fold fire [Close_if_open (info_of j), Close_if_open (info_of i), Open_it (info_of i), Open_it (info_of j)] w) i \<and>
    m_isOpen (fold fire [Close_if_open (info_of j), Close_if_open (info_of i), Open_it (info_of i), Open_it (info_of j)] w) j"
  using assms by simp

text \<open>A relation may be registered before the function it names; the code looks its callbacks up when it
  is needed, but not its receiver. Opening a function then starts a timer with a pointer that was never
  initialised.\<close>

theorem fm_late_registration:
  assumes "i \<noteq> j"
  shows "FunctionOpen i True (RegisterFunction (info_of j) (RegisterFunction (info_of i)
    (RegisterMutuallyExclusiveRelationship i [j] handle_new))) = Inl Bad_receiver"
  using assms by (simp add: FunctionOpen_def RegisterFunction_def RegisterMutuallyExclusiveRelationship_def handle_new_def
      no_info_def equal_range_def close_timer_def singleShot_def)

theorem fm_late_registration_witness:
  "FunctionOpen 1 True (RegisterFunction (info_of 2) (RegisterFunction (info_of 1)
    (RegisterMutuallyExclusiveRelationship 1 [2] handle_new))) = Inl Bad_receiver"
  using fm_late_registration [of 1 2] by simp

text \<open>The seven steps of the test program: which functions are open after each. After the last, functions 1 and
  2 are not both open, as its message expects: function 1 stays as the removal of its registration left
  it, and function 3 has closed function 2.\<close>

fun after_tests :: "nat list \<Rightarrow> tests handle \<times> tests \<Rightarrow> (bool \<times> bool \<times> bool) list" where
  "after_tests [] s = []"
| "after_tests (n # ns) s = (case runNextTest n s of Inl e \<Rightarrow> []
     | Inr (H, w) \<Rightarrow> (m_isOpen w 1, m_isOpen w 2, m_isOpen w 3) # after_tests ns (H, w))"

lemma tester_states:
  "after_tests [1, 2, 3, 4, 5, 6, 7] (setupMutualExclusions (registerFunctions handle_new), \<lparr>m_isOpen = (\<lambda>_. False), signals = []\<rparr>) =
    [(False, False, False), (False, True, False), (False, True, False), (True, False, False), (True, False, True),
     (True, False, True), (True, False, True)]"
  by (simp add: runNextTest_def setupMutualExclusions_def registerFunctions_def RegisterFunction_def handle_new_def
      RegisterMutuallyExclusiveRelationship_def UnregisterMutuallyExclusiveRelationship_def UnRegisterFunction_def
      FunctionOpen_def equal_range_def close_timer_def singleShot_def)

end
