(* ===== verification/Thread_Env.thy ===== *)
theory Thread_Env
  imports Prelude
begin

text \<open>
  The three versions of \<^verbatim>\<open>getenv\<close> of \<^verbatim>\<open>threadctl/getenv1.c\<close>, \<^verbatim>\<open>getenv2.c\<close> and \<^verbatim>\<open>getenv3.c\<close>, and the timeouts of \<^verbatim>\<open>threadctl/timeout.c\<close>
  and \<^verbatim>\<open>threads/maketimeout.c\<close>. The environment is a list of strings without null bytes; a buffer is the list of
  its bytes. The second and third version run under a mutex and are atomic here.
\<close>

definition MAXSTRINGSZ :: nat where "MAXSTRINGSZ = 4096"

section \<open>The environment\<close>

text \<open>\<^verbatim>\<open>strncpy\<close>: up to \<open>n\<close> bytes, filled up with null bytes; no null byte follows a longer string.\<close>

definition strncpy :: "string \<Rightarrow> string \<Rightarrow> nat \<Rightarrow> string" where
  "strncpy buf s n = take n (s @ replicate n NUL) @ drop n buf"

text \<open>The condition of the loop. The byte behind the name is read only when the name matches, and is the null
  byte when the entry ends there.\<close>

definition entry_matches :: "string \<Rightarrow> string \<Rightarrow> bool" where
  "entry_matches name e \<longleftrightarrow> take (length name) e = name \<and> (e @ [NUL]) ! length name = CHR ''=''"

text \<open>The first argument of the versions is \<^verbatim>\<open>environ\<close>, the state their buffer.\<close>

fun getenv1 :: "string list \<Rightarrow> string \<Rightarrow> string \<Rightarrow> string \<times> bool" where
  "getenv1 [] envbuf name = (envbuf, False)"
| "getenv1 (e # es) envbuf name =
    (if entry_matches name e then (strncpy envbuf (drop (length name + 1) e) (MAXSTRINGSZ - 1), True)
     else getenv1 es envbuf name)"

datatype env_result = OK | ENOSPC | ENOENT

text \<open>\<^verbatim>\<open>buflen\<close> is the size the caller gives; a copy that is longer than the buffer is an error of the model.\<close>

fun getenv_r :: "string list \<Rightarrow> string \<Rightarrow> string \<Rightarrow> int \<Rightarrow> (string \<times> env_result) option" where
  "getenv_r [] buf name buflen = Some (buf, ENOENT)"
| "getenv_r (e # es) buf name buflen =
    (if entry_matches name e then
       let v = drop (length name + 1) e in
       if buflen \<le> int (length v) then Some (buf, ENOSPC)
       else if length buf \<le> length v then None
       else Some (v @ [NUL] @ drop (length v + 1) buf, OK)
     else getenv_r es buf name buflen)"

text \<open>The third version has a buffer per thread. \<open>mem\<close> is what \<^verbatim>\<open>malloc\<close> returns, bytes of any content, or \<open>None\<close>.\<close>

fun getenv3_loop :: "string list \<Rightarrow> nat \<Rightarrow> string \<Rightarrow> (nat \<rightharpoonup> string) \<Rightarrow> string \<Rightarrow> (nat \<rightharpoonup> string) \<times> bool" where
  "getenv3_loop [] t envbuf specific name = (specific, False)"
| "getenv3_loop (e # es) t envbuf specific name =
    (if take (length name) e = name \<and> (e @ [NUL]) ! length name = CHR ''='' then
       (specific(t \<mapsto> strncpy envbuf (drop (length name + 1) e) (MAXSTRINGSZ - 1)), True)
     else getenv3_loop es t envbuf specific name)"

definition getenv3 :: "string list \<Rightarrow> string option \<Rightarrow> nat \<Rightarrow> (nat \<rightharpoonup> string) \<Rightarrow> string \<Rightarrow> (nat \<rightharpoonup> string) \<times> bool" where
  "getenv3 environ mem t specific name =
    (case specific t of
       Some envbuf \<Rightarrow> getenv3_loop environ t envbuf specific name
     | None \<Rightarrow> (case mem of
         None \<Rightarrow> (specific, False)
       | Some envbuf \<Rightarrow> getenv3_loop environ t envbuf (specific(t \<mapsto> envbuf)) name))"

section \<open>Timeouts\<close>

record timespec =
  tv_sec :: int
  tv_nsec :: int

definition SECTONSEC :: int where "SECTONSEC = 1000000000"

text \<open>What \<^verbatim>\<open>timeout\<close> does: a thread that waits and then calls the function, or a call right away. \<open>mem\<close> says whether
  \<^verbatim>\<open>malloc\<close> succeeds, \<open>thr\<close> whether the thread can be made.\<close>

datatype timeout_action = Wait_then_call timespec | Call_now

definition to_wait :: "timespec \<Rightarrow> timespec \<Rightarrow> timespec" where
  "to_wait at now = (let sec = tv_sec at - tv_sec now in
     if tv_nsec now \<le> tv_nsec at then \<lparr>tv_sec = sec, tv_nsec = tv_nsec at - tv_nsec now\<rparr>
     else \<lparr>tv_sec = sec - 1, tv_nsec = SECTONSEC - tv_nsec now + tv_nsec at\<rparr>)"

definition timeout :: "timespec \<Rightarrow> timespec \<Rightarrow> bool \<Rightarrow> bool \<Rightarrow> timeout_action" where
  "timeout at now mem thr =
    (if (tv_sec now < tv_sec at \<or> tv_sec at = tv_sec now \<and> tv_nsec now < tv_nsec at) \<and> mem \<and> thr
     then Wait_then_call (to_wait at now) else Call_now)"

definition maketimeout :: "int \<Rightarrow> int \<Rightarrow> int \<Rightarrow> timespec" where
  "maketimeout now_sec now_usec minutes = \<lparr>tv_sec = now_sec + minutes * 60, tv_nsec = now_usec * 1000\<rparr>"

section \<open>Values\<close>

text \<open>
  The environment as a table: an entry is the name before its first equals sign and the value behind
  it, and entries without one do not count. The value of a name is that of its first entry.
\<close>

definition is_eq :: "char \<Rightarrow> bool" where "is_eq c \<longleftrightarrow> c = CHR ''=''"

definition split_entry :: "string \<Rightarrow> string \<times> string" where
  "split_entry e = (takeWhile (\<lambda>c. \<not> is_eq c) e, tl (dropWhile (\<lambda>c. \<not> is_eq c) e))"

definition env_value :: "string list \<Rightarrow> string \<Rightarrow> string option" where
  "env_value environ = map_of (map split_entry (filter (\<lambda>e. CHR ''='' \<in> set e) environ))"

lemma entry_matches_iff: "entry_matches name e \<longleftrightarrow> (\<exists>v. e = name @ ''='' @ v)"
proof
  assume "entry_matches name e"
  then have t: "take (length name) e = name" "(e @ [NUL]) ! length name = CHR ''=''" by (simp_all add: entry_matches_def)
  have "length name \<le> length e" using t(1) by (metis length_take min.cobounded1)
  moreover have "length name \<noteq> length e" using t(2) by (auto simp: nth_append)
  ultimately have l: "length name < length e" by simp
  then have "e = name @ e ! length name # drop (Suc (length name)) e" using t(1) by (metis Cons_nth_drop_Suc append_take_drop_id)
  moreover have "e ! length name = CHR ''=''" using t(2) l by (simp add: nth_append)
  ultimately show "\<exists>v. e = name @ ''='' @ v" by auto
qed (auto simp: entry_matches_def nth_append)

lemma entry_splits: "CHR ''='' \<in> set e \<Longrightarrow> e = fst (split_entry e) @ ''='' @ snd (split_entry e) \<and> CHR ''='' \<notin> set (fst (split_entry e))"
  by (induction e) (auto simp: split_entry_def is_eq_def)

lemma entry_matches_split:
  assumes "CHR ''='' \<notin> set name"
  shows "entry_matches name e \<longleftrightarrow> CHR ''='' \<in> set e \<and> fst (split_entry e) = name"
    "entry_matches name e \<Longrightarrow> drop (length name + 1) e = snd (split_entry e)"
proof -
  have s: "split_entry (name @ ''='' @ v) = (name, v)" for v
    using assms by (induction name) (auto simp: split_entry_def is_eq_def)
  show "entry_matches name e \<longleftrightarrow> CHR ''='' \<in> set e \<and> fst (split_entry e) = name"
    using s entry_splits [of e] by (auto simp: entry_matches_iff)
  show "drop (length name + 1) e = snd (split_entry e)" if "entry_matches name e"
    using that s by (auto simp: entry_matches_iff)
qed

lemma env_value_Cons:
  assumes "CHR ''='' \<notin> set name"
  shows "env_value (e # es) name = (if entry_matches name e then Some (drop (length name + 1) e) else env_value es name)"
  using entry_matches_split [OF assms, of e] by (cases "split_entry e") (auto simp: env_value_def)

lemma env_value_Nil [simp]: "env_value [] name = None"
  by (simp add: env_value_def)

lemma getenv1_eq: "CHR ''='' \<notin> set name \<Longrightarrow> getenv1 environ buf name = (case env_value environ name of
    None \<Rightarrow> (buf, False) | Some v \<Rightarrow> (strncpy buf v (MAXSTRINGSZ - 1), True))"
  by (induction environ) (auto simp: env_value_Cons)

lemma getenv_r_eq: "CHR ''='' \<notin> set name \<Longrightarrow> getenv_r environ buf name n = (case env_value environ name of
    None \<Rightarrow> Some (buf, ENOENT)
  | Some v \<Rightarrow> if n \<le> int (length v) then Some (buf, ENOSPC) else if length buf \<le> length v then None
      else Some (v @ [NUL] @ drop (length v + 1) buf, OK))"
  by (induction environ) (auto simp: env_value_Cons Let_def)

lemma getenv3_loop_eq: "CHR ''='' \<notin> set name \<Longrightarrow> getenv3_loop environ t buf specific name = (case env_value environ name of
    None \<Rightarrow> (specific, False) | Some v \<Rightarrow> (specific(t \<mapsto> strncpy buf v (MAXSTRINGSZ - 1)), True))"
  by (induction environ) (simp_all add: env_value_Cons entry_matches_def)

lemma value_cstr: "\<forall>e\<in>set environ. is_cstr e \<Longrightarrow> CHR ''='' \<notin> set name \<Longrightarrow> env_value environ name = Some v \<Longrightarrow> is_cstr v"
  by (induction environ) (auto simp: env_value_Cons is_cstr_def dest!: in_set_dropD split: if_splits)

lemma strncpy_short: "length v < n \<Longrightarrow> is_cstr v \<Longrightarrow> c_str (strncpy buf v n) = v"
proof -
  assume a: "length v < n" "is_cstr v"
  then obtain k where "n = Suc (length v + k)" using less_imp_Suc_add by blast
  then have "take n (v @ replicate n NUL) = v @ NUL # replicate k NUL" by simp
  then show ?thesis using a(2) by (simp add: strncpy_def)
qed

lemma getenv3_eq: "CHR ''='' \<notin> set name \<Longrightarrow> specific t = Some buf \<or> specific t = None \<and> mem = Some buf \<Longrightarrow>
    getenv3 environ mem t specific name = (case env_value environ name of
      None \<Rightarrow> (specific(t \<mapsto> buf), False) | Some v \<Rightarrow> (specific(t \<mapsto> strncpy buf v (MAXSTRINGSZ - 1)), True))"
  by (auto simp: getenv3_def getenv3_loop_eq fun_upd_idem split: option.splits)

section \<open>Properties\<close>

text \<open>C39: the three versions of \<^verbatim>\<open>getenv\<close> look a name up in the environment, read as a table of the names before the
  first equals signs and the values behind them, in an environment of C strings and for a name without an
  equals sign. If the name has no value, all three say so and no value is written. If it has one of fewer than 4095
  bytes, the static buffer of the first version and the buffer of the thread in the third hold it as a
  string; the second version stores it in the caller's buffer, or answers \<^verbatim>\<open>ENOSPC\<close> and leaves the buffer
  alone, according as it fits.\<close>

theorem getenv_variants:
  assumes "\<forall>e\<in>set environ. is_cstr e" "CHR ''='' \<notin> set name" "specific t = Some tbuf \<or> specific t = None \<and> mem = Some tbuf"
  shows "case env_value environ name of
      None \<Rightarrow> getenv1 environ envbuf name = (envbuf, False) \<and> getenv_r environ buf name (int (length buf)) = Some (buf, ENOENT) \<and>
        getenv3 environ mem t specific name = (specific(t \<mapsto> tbuf), False)
    | Some v \<Rightarrow> (length v < MAXSTRINGSZ - 1 \<longrightarrow>
          (\<exists>envbuf'. getenv1 environ envbuf name = (envbuf', True) \<and> c_str envbuf' = v) \<and>
          (\<exists>tbuf'. getenv3 environ mem t specific name = (specific(t \<mapsto> tbuf'), True) \<and> c_str tbuf' = v)) \<and>
        (if length v < length buf
         then \<exists>buf'. getenv_r environ buf name (int (length buf)) = Some (buf', OK) \<and> c_str buf' = v \<and> length buf' = length buf
         else getenv_r environ buf name (int (length buf)) = Some (buf, ENOSPC))"
proof (cases "env_value environ name")
  case None
  then show ?thesis using getenv3_eq [of name specific t tbuf mem environ] assms(2,3) by (simp add: getenv1_eq getenv_r_eq assms(2))
next
  case (Some v)
  have v: "is_cstr v" using value_cstr [OF assms(1,2) Some] .
  then have "length v < MAXSTRINGSZ - 1 \<Longrightarrow> c_str (strncpy b v (MAXSTRINGSZ - 1)) = v" for b using strncpy_short by blast
  then show ?thesis using Some v getenv3_eq [of name specific t tbuf mem environ] assms(2,3) by (auto simp: getenv1_eq getenv_r_eq assms(2))
qed

theorem getenv_variants_witness:
  "c_str (fst (getenv1 [''A=1'', ''AB=xy=z''] (replicate 4096 NUL) ''AB'')) = ''xy=z'' \<and>
    getenv_r [''A=1'', ''AB=xy=z''] (replicate 3 NUL) ''AB'' 3 = Some (replicate 3 NUL, ENOSPC) \<and>
    (\<exists>tbuf'. getenv3 [''A=1'', ''AB=xy=z''] (Some (replicate 4096 NUL)) 0 Map.empty ''AB'' = ([0 \<mapsto> tbuf'], True) \<and> c_str tbuf' = ''xy=z'')"
proof -
  have v: "env_value [''A=1'', ''AB=xy=z''] ''AB'' = Some ''xy=z''" by (simp add: env_value_def split_entry_def is_eq_def)
  show ?thesis
    using getenv_variants [of "[''A=1'', ''AB=xy=z'']" "''AB''" Map.empty 0 "replicate 4096 NUL" "Some (replicate 4096 NUL)" "replicate 4096 NUL" "replicate 3 NUL"]
    by (auto simp: v is_cstr_def MAXSTRINGSZ_def simp del: getenv1.simps getenv_r.simps)
qed

text \<open>The static buffer of the first version is shared: a later call changes what an earlier one returned. The
  buffer of a thread in the third version is changed by no call of another thread.\<close>

lemma getenv1_shared:
  "fst (getenv1 [''A=1'', ''B=2''] (fst (getenv1 [''A=1'', ''B=2''] (replicate 4096 NUL) ''A'')) ''B'') ! 0 = CHR ''2''"
  by (simp add: entry_matches_def strncpy_def MAXSTRINGSZ_def)

lemma getenv3_loop_other: "t \<noteq> u \<Longrightarrow> fst (getenv3_loop environ u buf specific name) t = specific t"
  by (induction environ) auto

lemma getenv3_keeps:
  "\<forall>(u, mem, name)\<in>set calls. u \<noteq> t \<Longrightarrow> fold (\<lambda>(u, mem, name) s. fst (getenv3 environ mem u s name)) calls specific t = specific t"
proof (induction calls arbitrary: specific)
  case (Cons c calls)
  obtain u mem name where c: "c = (u, mem, name)" by (cases c)
  have "fst (getenv3 environ mem u specific name) t = specific t"
    using Cons.prems c by (auto simp: getenv3_def getenv3_loop_other split: option.splits)
  then show ?case using Cons c by simp
qed simp

text \<open>A value of 4095 bytes or more leaves no null byte in a buffer from \<^verbatim>\<open>malloc\<close> whose last byte is not null.\<close>

lemma getenv3_unterminated:
  assumes "\<forall>e\<in>set environ. is_cstr e" "CHR ''='' \<notin> set name" "env_value environ name = Some v" "MAXSTRINGSZ - 1 \<le> length v"
    and "length mem = MAXSTRINGSZ" "mem ! (MAXSTRINGSZ - 1) \<noteq> NUL" "specific t = None"
  shows "\<exists>buf. getenv3 environ (Some mem) t specific name = (specific(t \<mapsto> buf), True) \<and> length buf = MAXSTRINGSZ \<and> NUL \<notin> set buf"
proof -
  have "strncpy mem v (MAXSTRINGSZ - 1) = take (MAXSTRINGSZ - 1) v @ [mem ! (MAXSTRINGSZ - 1)]"
    using assms(4,5) by (simp add: strncpy_def) (metis Cons_nth_drop_Suc MAXSTRINGSZ_def One_nat_def Suc_diff_1 diff_less drop_all lessI order_refl zero_less_numeral)
  moreover have "NUL \<notin> set (take (MAXSTRINGSZ - 1) v)" using value_cstr [OF assms(1-3)] in_set_takeD by (force simp: is_cstr_def)
  ultimately show ?thesis using assms getenv3_eq [of name specific t mem "Some mem" environ] by (auto simp: MAXSTRINGSZ_def)
qed

text \<open>Times in nanoseconds, and what \<^verbatim>\<open>timeout\<close> waits for.\<close>

definition nsecs :: "timespec \<Rightarrow> int" where
  "nsecs ts = tv_sec ts * SECTONSEC + tv_nsec ts"

definition norm_ts :: "timespec \<Rightarrow> bool" where
  "norm_ts ts \<longleftrightarrow> 0 \<le> tv_nsec ts \<and> tv_nsec ts < SECTONSEC"

lemma later_iff: "norm_ts a \<Longrightarrow> norm_ts b \<Longrightarrow> tv_sec a < tv_sec b \<or> tv_sec b = tv_sec a \<and> tv_nsec a < tv_nsec b \<longleftrightarrow> nsecs a < nsecs b"
  unfolding norm_ts_def nsecs_def SECTONSEC_def by arith

lemma timeout_correct:
  assumes "norm_ts at" "norm_ts now"
  shows "timeout at now mem thr = (if nsecs now < nsecs at \<and> mem \<and> thr then Wait_then_call (to_wait at now) else Call_now) \<and>
    norm_ts (to_wait at now) \<and> nsecs (to_wait at now) = nsecs at - nsecs now"
proof -
  have "norm_ts (to_wait at now)" "nsecs (to_wait at now) = nsecs at - nsecs now"
    using assms by (auto simp: norm_ts_def to_wait_def nsecs_def SECTONSEC_def Let_def algebra_simps)
  then show ?thesis using later_iff [OF assms(2,1)] by (simp add: timeout_def)
qed

end
