(* ===== verification/Msg_Queue.thy ===== *)
theory Msg_Queue
  imports DList Mutex "HOL-Library.Multiset"
begin

text \<open>
  The message queue of \<^verbatim>\<open>threads/condvar.c\<close>: a linked list under a mutex with a condition variable. Threads below
  \<open>consumers\<close> run \<^verbatim>\<open>process_msg\<close>, the others call \<^verbatim>\<open>enqueue_msg\<close>; a program counter per thread says which statement
  is next. The statements between the mutex calls of \<^verbatim>\<open>enqueue_msg\<close>, and those that take the first message,
  are one step with the unlocking that ends them. A caller gives a message away: every call has a
  message of its own. \<open>sent\<close> and \<open>taken\<close> record what happened.
\<close>

datatype qpc = Idle | Enq_lock nat | Enq_in nat | Enq_signal
  | Con_lock | Con_test | Con_block | Con_sleep | Con_woken | Con_take | Con_work nat

record msgq =
  consumers :: nat
  m_next :: "nat \<Rightarrow> nat"
  workq :: nat
  qlock :: "nat option"
  qpcs :: "nat \<Rightarrow> qpc"
  given :: "nat set"
  sent :: "nat list"
  taken :: "nat list"

definition msgq_start :: "nat \<Rightarrow> msgq" where
  "msgq_start n = \<lparr>consumers = n, m_next = (\<lambda>_. 0), workq = 0, qlock = None,
     qpcs = (\<lambda>t. if t < n then Con_lock else Idle), given = {}, sent = [], taken = []\<rparr>"

abbreviation goes :: "nat \<Rightarrow> qpc \<Rightarrow> msgq \<Rightarrow> msgq" where
  "goes t p s \<equiv> s\<lparr>qpcs := (qpcs s)(t := p)\<rparr>"

inductive enqueue_msg :: "msgq \<Rightarrow> msgq \<Rightarrow> bool" where
  enq_begin: "qpcs s t = Idle \<Longrightarrow> mp \<noteq> 0 \<Longrightarrow> mp \<notin> given s \<Longrightarrow> enqueue_msg s (goes t (Enq_lock mp) (s\<lparr>given := insert mp (given s)\<rparr>))"
| enq_lock: "qpcs s t = Enq_lock mp \<Longrightarrow> qlock s = None \<Longrightarrow> enqueue_msg s (goes t (Enq_in mp) (s\<lparr>qlock := Some t\<rparr>))"
| enq_push: "qpcs s t = Enq_in mp \<Longrightarrow> enqueue_msg s (goes t Enq_signal
    (s\<lparr>m_next := (m_next s)(mp := workq s), workq := mp, qlock := None, sent := sent s @ [mp]\<rparr>))"
| enq_signal: "qpcs s t = Enq_signal \<Longrightarrow> qpcs s u = Con_sleep \<Longrightarrow> enqueue_msg s (goes t Idle (goes u Con_woken s))"
| enq_nobody: "qpcs s t = Enq_signal \<Longrightarrow> \<forall>u. qpcs s u \<noteq> Con_sleep \<Longrightarrow> enqueue_msg s (goes t Idle s)"

inductive process_msg :: "msgq \<Rightarrow> msgq \<Rightarrow> bool" where
  con_lock: "qpcs s t = Con_lock \<Longrightarrow> qlock s = None \<Longrightarrow> process_msg s (goes t Con_test (s\<lparr>qlock := Some t\<rparr>))"
| con_test: "qpcs s t = Con_test \<Longrightarrow> process_msg s (goes t (if workq s = 0 then Con_block else Con_take) s)"
| con_block: "qpcs s t = Con_block \<Longrightarrow> process_msg s (goes t Con_sleep (s\<lparr>qlock := None\<rparr>))"
| con_spurious: "qpcs s t = Con_sleep \<Longrightarrow> process_msg s (goes t Con_woken s)"
| con_relock: "qpcs s t = Con_woken \<Longrightarrow> qlock s = None \<Longrightarrow> process_msg s (goes t Con_test (s\<lparr>qlock := Some t\<rparr>))"
| con_take: "qpcs s t = Con_take \<Longrightarrow> process_msg s (goes t (Con_work (workq s))
    (s\<lparr>workq := m_next s (workq s), qlock := None, taken := taken s @ [workq s]\<rparr>))"
| con_work: "qpcs s t = Con_work mp \<Longrightarrow> process_msg s (goes t Con_lock s)"

inductive msgq_reach :: "nat \<Rightarrow> msgq \<Rightarrow> bool" for n where
  msgq_init: "msgq_reach n (msgq_start n)"
| msgq_enq: "msgq_reach n s \<Longrightarrow> enqueue_msg s s' \<Longrightarrow> msgq_reach n s'"
| msgq_con: "msgq_reach n s \<Longrightarrow> process_msg s s' \<Longrightarrow> msgq_reach n s'"

section \<open>Invariants\<close>

fun in_queue :: "qpc \<Rightarrow> bool" where
  "in_queue (Enq_in mp) \<longleftrightarrow> True"
| "in_queue Con_test \<longleftrightarrow> True"
| "in_queue Con_block \<longleftrightarrow> True"
| "in_queue Con_take \<longleftrightarrow> True"
| "in_queue _ \<longleftrightarrow> False"

abbreviation qexcl :: "msgq \<Rightarrow> bool" where
  "qexcl s \<equiv> excl_by in_queue (qpcs s) (qlock s)"

lemma qexcl_enq: "enqueue_msg s s' \<Longrightarrow> qexcl s \<Longrightarrow> qexcl s'"
  by (induction rule: enqueue_msg.induct) (auto intro: excl_by_intros)

lemma qexcl_con: "process_msg s s' \<Longrightarrow> qexcl s \<Longrightarrow> qexcl s'"
  by (induction rule: process_msg.induct) (auto intro: excl_by_intros)

text \<open>The list in memory has the messages sent and not taken; a message about to be sent is new. Between the
  test and what follows it the queue is empty or not, as the test found it.\<close>

definition queue_list :: "msgq \<Rightarrow> nat list \<Rightarrow> bool" where
  "queue_list s q \<longleftrightarrow> chain (m_next s) (workq s) q \<and> distinct q \<and> mset (sent s) = mset (taken s) + mset q \<and>
     set (sent s) \<subseteq> given s"

fun sending :: "qpc \<Rightarrow> nat option" where
  "sending (Enq_lock mp) = Some mp"
| "sending (Enq_in mp) = Some mp"
| "sending _ = None"

definition senders_ok :: "msgq \<Rightarrow> bool" where
  "senders_ok s \<longleftrightarrow> (\<forall>t mp. sending (qpcs s t) = Some mp \<longrightarrow> mp \<noteq> 0 \<and> mp \<in> given s \<and> mp \<notin> set (sent s)) \<and>
     (\<forall>t u mp. sending (qpcs s t) = Some mp \<and> sending (qpcs s u) = Some mp \<longrightarrow> t = u)"

definition tested_ok :: "msgq \<Rightarrow> bool" where
  "tested_ok s \<longleftrightarrow> (\<forall>t. (qpcs s t = Con_block \<longrightarrow> workq s = 0) \<and> (qpcs s t = Con_take \<longrightarrow> workq s \<noteq> 0))"

lemma tested_enq:
  assumes "enqueue_msg s s'" "tested_ok s" "qexcl s"
  shows "tested_ok s'"
  using assms
proof (induction rule: enqueue_msg.induct)
  case (enq_push s t mp)
  have "u \<noteq> t \<longrightarrow> \<not> in_queue (qpcs s u)" for u
    using excl_by_alone [OF enq_push.prems(2), of t u] enq_push.hyps by auto
  then have "u \<noteq> t \<longrightarrow> qpcs s u \<noteq> Con_block \<and> qpcs s u \<noteq> Con_take" for u by (metis in_queue.simps)
  then show ?case by (simp add: tested_ok_def)
qed (auto simp: tested_ok_def)

lemma tested_con:
  assumes "process_msg s s'" "tested_ok s" "qexcl s"
  shows "tested_ok s'"
  using assms
proof (induction rule: process_msg.induct)
  case (con_take s t)
  have "u \<noteq> t \<longrightarrow> \<not> in_queue (qpcs s u)" for u
    using excl_by_alone [OF con_take.prems(2), of t u] con_take.hyps by auto
  then have "u \<noteq> t \<longrightarrow> qpcs s u \<noteq> Con_block \<and> qpcs s u \<noteq> Con_take" for u by (metis in_queue.simps)
  then show ?case by (simp add: tested_ok_def)
next
  case (con_block s t)
  then have "workq s = 0" by (simp add: tested_ok_def)
  then have "qpcs s u \<noteq> Con_take" for u using con_block.prems(1) by (auto simp: tested_ok_def)
  then show ?case using \<open>workq s = 0\<close> by (simp add: tested_ok_def)
qed (auto simp: tested_ok_def)

text \<open>The list and the senders.\<close>

lemma senders_cong:
  "(\<And>u. sending (qpcs s' u) = sending (qpcs s u)) \<Longrightarrow> given s' = given s \<Longrightarrow> sent s' = sent s \<Longrightarrow> senders_ok s' = senders_ok s"
  by (simp add: senders_ok_def)

lemma senders_enq:
  assumes "enqueue_msg s s'" "senders_ok s" "set (sent s) \<subseteq> given s"
  shows "senders_ok s'"
  using assms
proof (induction rule: enqueue_msg.induct)
  case (enq_begin s t mp)
  then show ?case unfolding senders_ok_def by (auto split: if_splits)
next
  case (enq_push s t mp)
  have "sending (qpcs s t) = Some mp" using enq_push.hyps by simp
  then have "u \<noteq> t \<longrightarrow> sending (qpcs s u) \<noteq> Some mp" for u using enq_push.prems(1) unfolding senders_ok_def by blast
  then show ?case using enq_push.prems(1) unfolding senders_ok_def by (auto split: if_splits)
next
  case (enq_lock s t mp)
  then show ?case using senders_cong [of "goes t (Enq_in mp) (s\<lparr>qlock := Some t\<rparr>)" s] by simp
qed (auto simp: senders_ok_def split: if_splits)

lemma senders_con: "process_msg s s' \<Longrightarrow> senders_ok s \<Longrightarrow> senders_ok s'"
  by (induction rule: process_msg.induct) (auto simp: senders_ok_def split: if_splits)

lemma list_enq:
  assumes "enqueue_msg s s'" "queue_list s q" "senders_ok s"
  shows "\<exists>q'. queue_list s' q'"
  using assms
proof (induction rule: enqueue_msg.induct)
  case (enq_push s t mp)
  then have "sending (qpcs s t) = Some mp" by simp
  then have mp: "mp \<noteq> 0" "mp \<in> given s" "mp \<notin> set (sent s)" using enq_push.prems(2) unfolding senders_ok_def by blast+
  have "set_mset (mset (sent s)) = set_mset (mset (taken s) + mset q)" using enq_push.prems(1) by (simp add: queue_list_def)
  then have q: "mp \<notin> set q" using mp(3) by auto
  have "chain ((m_next s)(mp := workq s)) (workq s) q \<longleftrightarrow> chain (m_next s) (workq s) q" by (rule chain_cong) (use q in auto)
  then have "chain ((m_next s)(mp := workq s)) (workq s) q" using enq_push.prems(1) by (simp add: queue_list_def)
  then have "queue_list (goes t Enq_signal (s\<lparr>m_next := (m_next s)(mp := workq s), workq := mp, qlock := None, sent := sent s @ [mp]\<rparr>)) (mp # q)"
    using enq_push.prems(1) mp q by (auto simp: queue_list_def)
  then show ?case by blast
qed (auto simp: queue_list_def intro!: exI [of _ q])

lemma list_con:
  assumes "process_msg s s'" "queue_list s q" "tested_ok s"
  shows "\<exists>q'. queue_list s' q'"
  using assms
proof (induction rule: process_msg.induct)
  case (con_take s t)
  then have "workq s \<noteq> 0" by (simp add: tested_ok_def)
  then obtain q' where q: "q = workq s # q'" using con_take.prems(1) by (cases q) (auto simp: queue_list_def)
  then have "queue_list (goes t (Con_work (workq s)) (s\<lparr>workq := m_next s (workq s), qlock := None, taken := taken s @ [workq s]\<rparr>)) q'"
    using con_take.prems(1) by (auto simp: queue_list_def)
  then show ?case by blast
qed (auto simp: queue_list_def intro!: exI [of _ q])

text \<open>While a message waits, a consumer is awake or a signal is about to be sent.\<close>

fun consumer :: "qpc \<Rightarrow> bool" where
  "consumer Idle \<longleftrightarrow> False"
| "consumer (Enq_lock mp) \<longleftrightarrow> False"
| "consumer (Enq_in mp) \<longleftrightarrow> False"
| "consumer Enq_signal \<longleftrightarrow> False"
| "consumer _ \<longleftrightarrow> True"

definition roles :: "nat \<Rightarrow> msgq \<Rightarrow> bool" where
  "roles n s \<longleftrightarrow> (\<forall>t. consumer (qpcs s t) \<longleftrightarrow> t < n)"

definition woken :: "nat \<Rightarrow> msgq \<Rightarrow> bool" where
  "woken n s \<longleftrightarrow> workq s \<noteq> 0 \<and> 0 < n \<longrightarrow> (\<exists>t<n. qpcs s t \<noteq> Con_sleep) \<or> (\<exists>t. qpcs s t = Enq_signal)"

lemma roles_enq: "enqueue_msg s s' \<Longrightarrow> roles n s \<Longrightarrow> roles n s'"
  by (induction rule: enqueue_msg.induct) (simp_all add: roles_def, (metis consumer.simps)+)

lemma roles_con: "process_msg s s' \<Longrightarrow> roles n s \<Longrightarrow> roles n s'"
  by (induction rule: process_msg.induct) (simp_all add: roles_def, (metis consumer.simps)+)

text \<open>A step of a thread that is no consumer and had no signal to send does not change this.\<close>

lemma woken_other:
  assumes "woken n s" "\<not> t < n" "qpcs s t \<noteq> Enq_signal" "qpcs s' = (qpcs s)(t := p)" "workq s' = workq s"
  shows "woken n s'"
  using assms unfolding woken_def by (metis fun_upd_apply)

lemma woken_enq:
  assumes "enqueue_msg s s'" "woken n s" "roles n s"
  shows "woken n s'"
  using assms
proof (induction rule: enqueue_msg.induct)
  case (enq_begin s t mp)
  then have "\<not> t < n" by (metis consumer.simps(1) roles_def)
  then show ?case using woken_other [OF enq_begin.prems(1), of t] enq_begin.hyps by simp
next
  case (enq_lock s t mp)
  then have "\<not> t < n" by (metis consumer.simps(2) roles_def)
  then show ?case using woken_other [OF enq_lock.prems(1), of t] enq_lock.hyps by simp
next
  case (enq_push s t mp)
  then show ?case by (auto simp: woken_def)
next
  case (enq_signal s t u)
  have "consumer (qpcs s u)" using enq_signal.hyps by simp
  then have "u < n" using enq_signal.prems(2) by (simp add: roles_def)
  moreover have "u \<noteq> t" using enq_signal.hyps by auto
  ultimately show ?case by (auto simp: woken_def)
next
  case (enq_nobody s t)
  then show ?case by (auto simp: woken_def intro!: exI [of _ 0])
qed

text \<open>A consumer that moves is awake afterwards, or has just found the queue empty.\<close>

lemma woken_self: "roles n s \<Longrightarrow> consumer (qpcs s t) \<Longrightarrow> qpcs s' t \<noteq> Con_sleep \<Longrightarrow> woken n s'"
  by (auto simp: woken_def roles_def)

lemma woken_con:
  assumes "process_msg s s'" "tested_ok s" "roles n s"
  shows "woken n s'"
  using assms
proof (induction rule: process_msg.induct)
  case (con_block s t)
  then show ?case by (simp add: tested_ok_def woken_def)
next
  case (con_lock s t) then show ?case by (intro woken_self [of n s t]) simp_all
next
  case (con_test s t) then show ?case by (intro woken_self [of n s t]) simp_all
next
  case (con_spurious s t) then show ?case by (intro woken_self [of n s t]) simp_all
next
  case (con_relock s t) then show ?case by (intro woken_self [of n s t]) simp_all
next
  case (con_take s t) then show ?case by (intro woken_self [of n s t]) simp_all
next
  case (con_work s t mp) then show ?case by (intro woken_self [of n s t]) simp_all
qed

section \<open>Reachable states\<close>

definition msgq_inv :: "nat \<Rightarrow> msgq \<Rightarrow> bool" where
  "msgq_inv n s \<longleftrightarrow> qexcl s \<and> (\<exists>q. queue_list s q) \<and> senders_ok s \<and> tested_ok s \<and> roles n s \<and> woken n s"

lemma msgq_inv_reach: "msgq_reach n s \<Longrightarrow> msgq_inv n s"
proof (induction rule: msgq_reach.induct)
  case msgq_init
  have "queue_list (msgq_start n) []" by (simp add: queue_list_def msgq_start_def)
  moreover have "qexcl (msgq_start n)" "senders_ok (msgq_start n)" "tested_ok (msgq_start n)" "roles n (msgq_start n)" "woken n (msgq_start n)"
    by (auto simp: msgq_start_def excl_by_def senders_ok_def tested_ok_def roles_def woken_def split: if_splits)
  ultimately show ?case by (auto simp: msgq_inv_def)
next
  case (msgq_enq s s')
  then obtain q where "queue_list s q" "msgq_inv n s" by (auto simp: msgq_inv_def)
  then show ?case using msgq_enq.hyps qexcl_enq list_enq senders_enq tested_enq roles_enq woken_enq
    unfolding msgq_inv_def by (metis queue_list_def)
next
  case (msgq_con s s')
  then obtain q where "queue_list s q" "msgq_inv n s" by (auto simp: msgq_inv_def)
  then show ?case using msgq_con.hyps qexcl_con list_con senders_con tested_con roles_con woken_con
    unfolding msgq_inv_def by metis
qed

text \<open>C40: in every interleaving, with wake-ups without a signal, the list in memory has each message sent and not
  yet taken exactly once; only the thread inside a critical section holds the mutex; no consumer takes
  from an empty list; and while a message waits a consumer is not asleep or a signal is about to be sent.\<close>

theorem msgq_no_lost_message:
  assumes "msgq_reach n s"
  shows "(\<exists>q. chain (m_next s) (workq s) q \<and> distinct q \<and> mset (sent s) = mset (taken s) + mset q) \<and>
    (\<forall>t. in_queue (qpcs s t) \<longleftrightarrow> qlock s = Some t) \<and> (\<forall>t. qpcs s t = Con_take \<longrightarrow> workq s \<noteq> 0) \<and>
    (workq s \<noteq> 0 \<and> 0 < n \<longrightarrow> (\<exists>t<n. qpcs s t \<noteq> Con_sleep) \<or> (\<exists>t. qpcs s t = Enq_signal))"
proof -
  have i: "msgq_inv n s" using assms by (rule msgq_inv_reach)
  then obtain q where "chain (m_next s) (workq s) q" "distinct q" "mset (sent s) = mset (taken s) + mset q"
    by (auto simp: msgq_inv_def queue_list_def)
  moreover have "\<forall>t. in_queue (qpcs s t) \<longleftrightarrow> qlock s = Some t" using i by (simp add: msgq_inv_def excl_by_def)
  ultimately show ?thesis using i by (auto simp: msgq_inv_def tested_ok_def woken_def)
qed

text \<open>A run: a consumer goes to sleep, a message is queued.\<close>

theorem msgq_no_lost_message_witness:
  "\<exists>s. msgq_reach 1 s \<and> workq s = 5 \<and> qpcs s 0 = Con_sleep \<and> (\<exists>t. qpcs s t = Enq_signal)"
proof -
  note con = msgq_reach.msgq_con and enq = msgq_reach.msgq_enq
  note r = msgq_reach.msgq_init [of 1]
  note r = con [OF r process_msg.con_lock [of _ 0]]
  note r = con [OF r process_msg.con_test [of _ 0]]
  note r = con [OF r process_msg.con_block [of _ 0]]
  note r = enq [OF r enqueue_msg.enq_begin [of _ 1 5]]
  note r = enq [OF r enqueue_msg.enq_lock [of _ 1 5]]
  note r = enq [OF r enqueue_msg.enq_push [of _ 1 5]]
  obtain s where s: "msgq_reach 1 s" "workq s = 5" "qpcs s 0 = Con_sleep" using r by (simp add: msgq_start_def)
  have "(\<exists>t<1. qpcs s t \<noteq> Con_sleep) \<or> (\<exists>t. qpcs s t = Enq_signal)" using msgq_no_lost_message [OF s(1)] s(2) by simp
  then show ?thesis using s by auto
qed

end
