(* ===== verification/Open_Client.thy ===== *)
theory Open_Client
  imports Open_Server_Spec Getopt
begin

text \<open>
  The two programs around the open server: the options of \<^verbatim>\<open>ipc2/opend/main.c\<close>, and the client of \<^verbatim>\<open>ipc2/open/main.c\<close>,
  which reads file names and copies the files to its output.
\<close>

text \<open>Whether the server runs in the foreground; otherwise it becomes a daemon before its loop.\<close>

definition opend_options :: "string list \<Rightarrow> sv_err + bool" where
  "opend_options argv = (case getopt_all ''d'' (tl argv) of (cs, rest) \<Rightarrow>
     if CHR ''?'' \<in> set cs then Inl (Fatal ''unrecognized option'') else Inr (CHR ''d'' \<in> set cs))"

definition BUFFSIZE :: nat where "BUFFSIZE = 8192"

text \<open>What happens for a line: what \<^verbatim>\<open>csopen\<close> meets (see there), the reads of the file, and what a \<^verbatim>\<open>write\<close> to the
  standard output returns.\<close>

record cl_env =
  c_conn :: int
  c_wr :: "string \<Rightarrow> int"
  c_mem :: bool
  c_uf :: "string \<Rightarrow> int"
  c_rs :: "rmsg list"
  c_file :: "event list"
  c_out :: "string \<Rightarrow> int"

function cat_loop :: "(string \<Rightarrow> int) \<Rightarrow> event list \<Rightarrow> string \<Rightarrow> sv_err + string" where
  "cat_loop wr es out = (case sys_read BUFFSIZE es of
      (_, Inl e) \<Rightarrow> Inl (Fatal ''read error'')
    | (_, Inr []) \<Rightarrow> Inr out
    | (es, Inr (c # s)) \<Rightarrow>
        if wr (c # s) \<noteq> int (length (c # s)) then Inl (Fatal ''write error'') else cat_loop wr es (out @ c # s))"
  by pat_completeness auto
termination
  by (relation "measure (\<lambda>(wr, es, out). ev_size es)") (auto simp: BUFFSIZE_def dest: sys_read_size [OF sym])

declare cat_loop.simps [simp del]

text \<open>The lines as \<^verbatim>\<open>fgets\<close> delivers them. An empty string, which a null byte in the input gives, is read before its
  first byte.\<close>

fun client_main :: "(string \<times> cl_env) list \<Rightarrow> int \<Rightarrow> string \<Rightarrow> string \<Rightarrow> sv_err + string \<times> string" where
  "client_main [] csfd out errs = Inr (out, errs)"
| "client_main ((line, E) # ls) csfd out errs =
    (if line = [] then Inl (Undefined ''line[-1]'')
     else let name = (if last line = NEWLINE then butlast line else line) in
       bindR (csopen (c_conn E) (c_wr E) (c_mem E) (c_uf E) (c_rs E) name 0 csfd) (\<lambda>(csfd, msg, fd).
         if fd < 0 then client_main ls csfd out (errs @ msg)
         else bindR (cat_loop (c_out E) (c_file E) out) (\<lambda>out. client_main ls csfd out (errs @ msg))))"

section \<open>Properties\<close>

lemma cat_all:
  assumes "no_empty es" "\<not> breaks es" "\<forall>s. wr s = int (length s)"
  shows "cat_loop wr es out = Inr (out @ avail es)"
  using assms
proof (induction wr es out rule: cat_loop.induct)
  case (1 wr es out)
  show ?case
  proof (cases "avail es = []")
    case True
    then obtain es' where "sys_read BUFFSIZE es = (es', Inr [])" using sys_read_end "1.prems"(1,2) by blast
    then show ?thesis using True by (subst cat_loop.simps) simp
  next
    case False
    have "0 < BUFFSIZE" by (simp add: BUFFSIZE_def)
    then obtain es' c s where r: "sys_read BUFFSIZE es = (es', Inr (c # s))" "avail es = (c # s) @ avail es'" "no_empty es'" "breaks es' = breaks es"
      using sys_read_some [OF "1.prems"(1) False, of BUFFSIZE] by (metis list.exhaust)
    have "cat_loop wr es out = cat_loop wr es' (out @ c # s)" using r(1) "1.prems"(3) by (subst cat_loop.simps) simp
    moreover have "cat_loop wr es' (out @ c # s) = Inr ((out @ c # s) @ avail es')"
      by (rule "1.IH" [OF r(1) [symmetric] refl refl]) (use r "1.prems" in \<open>simp_all del: breaks.simps\<close>)
    ultimately show ?thesis using r(2) by simp
  qed
qed

text \<open>A line that works: a path and a newline, a request that is sent, an answer of the server \<open>H\<close> however it
  is regrouped, a file that is read to its end.\<close>

definition good_line :: "henv \<Rightarrow> string \<times> cl_env \<Rightarrow> bool" where
  "good_line H l \<longleftrightarrow> (case l of (line, E) \<Rightarrow> let name = butlast line in
     line \<noteq> [] \<and> last line = NEWLINE \<and> is_cstr name \<and> c_mem E \<and> (\<forall>b. c_uf E b = int (length b)) \<and>
     c_wr E (cs_request name 0) = int (length (cs_request name 0)) \<and> delivers (reply H name 0) (c_rs E) \<and>
     no_empty (c_file E) \<and> \<not> breaks (c_file E) \<and> (\<forall>s. c_out E s = int (length s)))"

definition opened :: "henv \<Rightarrow> string \<times> cl_env \<Rightarrow> bool" where
  "opened H l \<longleftrightarrow> 0 \<le> h_open H (butlast (fst l)) 0"

text \<open>The client writes the contents of the files that the server can open to its output, in the order of the
  lines, and the server's messages about the others to its error output.\<close>

theorem client_cats:
  assumes "\<forall>l\<in>set ls. good_line H l" "0 \<le> csfd" "is_cstr (h_err H)"
  shows "client_main ls csfd out errs = Inr (out @ concat (map (\<lambda>l. avail (c_file (snd l))) (filter (opened H) ls)),
    errs @ concat (map (\<lambda>l. open_msg H (butlast (fst l))) (filter (\<lambda>l. \<not> opened H l) ls)))"
  using assms(1)
proof (induction ls arbitrary: out errs)
  case (Cons l ls)
  obtain line E where l: "l = (line, E)" by fastforce
  let ?name = "butlast line"
  have g: "line \<noteq> []" "last line = NEWLINE" "is_cstr ?name" "c_mem E" "\<And>b. c_uf E b = int (length b)"
    "c_wr E (cs_request ?name 0) = int (length (cs_request ?name 0))" "delivers (reply H ?name 0) (c_rs E)"
    "no_empty (c_file E)" "\<not> breaks (c_file E)" "\<forall>s. c_out E s = int (length s)"
    using Cons.prems by (simp_all add: good_line_def l Let_def)
  have "csopen (c_conn E) (c_wr E) True (c_uf E) (c_rs E) ?name 0 csfd =
      Inr (csfd, if h_open H ?name 0 < 0 then open_msg H ?name else [], if h_open H ?name 0 < 0 then -1 else h_open H ?name 0)"
    using csopen_answer [of ?name 0 csfd H "c_uf E" "c_wr E" "c_rs E"] assms(2,3) g by simp
  moreover have "cat_loop (c_out E) (c_file E) out = Inr (out @ avail (c_file E))" by (rule cat_all [OF g(8,9,10)])
  ultimately show ?case using Cons.IH Cons.prems g(1,2,4) by (simp add: l opened_def)
qed simp

lemma opend_foreground: "opend_options [cmd, ''-d''] = Inr True" "opend_options [cmd] = Inr False" "opend_options [cmd, ''-x''] = Inl (Fatal ''unrecognized option'')"
  by (simp_all add: opend_options_def)

end
