(* ===== verification/Spec2Isabelle.thy ===== *)
theory Spec2Isabelle
  imports Db_Spec RbTree_Spec Io_Spec Printer_Spec Thread_Pool_Spec Job_Queue Ref_Table Semaph_Spec
    Open_Server_Spec Dns_Spec Dns_Async_Spec Par_Sort Mem_Stream_Spec Work_Queue_Spec Echo_Server_Spec
    Popen Tty_Modes File_Walk Rb_Cxx_Spec Rb_Class Cxx_Pool_Spec
    Smart_Ptr_Spec Fn_Exclusion_Spec Thread_Env Msg_Queue Open_Client
begin

text \<open>
  Verification of the C and some C++ programs of this repository. The repository is a collection: the sources of
  the book ``Advanced Programming in the UNIX Environment'' (\<^verbatim>\<open>src/LinuxC/.../apue.3e\<close>, below
  \<^verbatim>\<open>apue\<close>), red-black trees in C and C++ (\<^verbatim>\<open>src/DSAlgo/RedBlackTree\<close>), thread pools in C (\<^verbatim>\<open>src/LinuxLesson/thread_pool\<close>)
  and C++ (\<^verbatim>\<open>src/PoolTypeStructure/ThreadPool\<close>), and many small C++ examples beside vendored libraries. Modelled are
  the programs that keep state of their own and have a contract.

  \<^bold>\<open>Foundations.\<close>
  \<^item> \<open>Prelude\<close>: errors as sums with their bind, C strings, decimal numbers as \<^verbatim>\<open>printf\<close> and \<^verbatim>\<open>strtol\<close> see them.
  \<^item> \<open>Refinement\<close>: the locale \<open>data_refinement\<close>, a fallible step function that refines a total one, and
    its client lemma for whole sequences of commands. It is interpreted for the database, the tree,
    the queues (through \<open>fifo\<close>), the semaphores, the C++ tree, the smart pointers, the open server with its table of clients, the memory streams, the
    pending DNS queries and the table of \<^verbatim>\<open>popen\<close>.
  \<^item> \<open>DList\<close>, \<open>Fifo\<close>: linked lists in a heap; the locales \<open>fifo\<close> and \<open>fifo_back\<close>, the laws of a linked queue,
    interpreted for the daemon's job queue, the thread pool's task queue and the queue of \<^verbatim>\<open>threads/rwlock.c\<close>.
  \<^item> \<open>Unix_File\<close>, \<open>Io\<close>: regular files with offsets and record locks; descriptors that deliver a list of
    events (bytes, end, errors, timeouts).

  \<^bold>\<open>The database library\<close> (\<^verbatim>\<open>apue/db/db.c\<close>, \<^verbatim>\<open>lib/lockreg.c\<close>). \<open>Db\<close> has the record \<open>DB\<close> with the bytes of the two files
  and every function of the library, error branches and \<^verbatim>\<open>err_dump\<close> included. \<open>Db_Image\<close> gives the bytes their
  structure (records, hash chains, free list), \<open>Db_Chains\<close> and \<open>Db_Update\<close> show what linking, unlinking and
  rewriting records do to it, \<open>Db_Correct\<close>, \<open>Db_Ops\<close> and \<open>Db_Scan\<close> prove every operation against a map from keys
  to data, and \<open>Db_Spec\<close> has the properties: every sequence of valid commands runs as on a map, without
  errors and with all locks released. The chain loops carry fuel, the size of the index file; a chain
  never has more records than the file has bytes, so it suffices (\<open>records_le_size\<close>).

  \<^bold>\<open>The red-black tree\<close> (\<^verbatim>\<open>rbtree.c\<close>). \<open>RbTree\<close> has every function on a heap of nodes with the shared sentinel,
  the loops as \<open>partial_function (option)\<close>; \<open>RbTree_Heap\<close> relates heaps to trees and contexts, \<open>RbTree_Insert\<close> and
  \<open>RbTree_Delete\<close> prove the repair loops (they return, restore the colouring and keep the order), \<open>RbTree_Spec\<close>
  has the properties, the program's self-check and its test driver.

  \<^bold>\<open>The C++ trees\<close> (\<^verbatim>\<open>RBTree.h\<close>, \<^verbatim>\<open>cppRBTree.cpp\<close> in the same directory). \<open>Rb_Cxx\<close> has every function of the class template,
  whose leaves are null pointers; every access to a member is checked against the live nodes (\<open>ld\<close>, \<open>st\<close>), so
  that a theorem that a call returns also says that it touches no freed or null node. \<open>Rb_Cxx_Heap\<close>,
  \<open>Rb_Cxx_Insert\<close>, \<open>Rb_Cxx_Remove\<close> and \<open>Rb_Cxx_Unlink\<close> discharge these checks and show that the steps are those of the C
  tree; \<open>Rb_Cxx_Spec\<close> refines the class to a multiset (without the public searches, which
  have no \<^verbatim>\<open>return\<close>) and has its neighbours and its incomplete destructor.
  \<open>Rb_Class\<close> shows that the second class builds the heaps of the C functions.

  \<^bold>\<open>Input and output\<close> (\<^verbatim>\<open>lib/readn.c\<close>, \<^verbatim>\<open>lib/writen.c\<close>, \<^verbatim>\<open>lib/bufargs.c\<close>, \<^verbatim>\<open>printer/util.c\<close>, \<^verbatim>\<open>sockets/clconn2.c\<close>). \<open>Io\<close> and
  \<open>Io_Spec\<close>: complete reads and writes over partial ones, retries with back-off, splitting of a line.

  \<^bold>\<open>The print system\<close> (\<^verbatim>\<open>apue/printer\<close>). \<open>Printer\<close> has the daemon's queue, workers, job numbers and client thread,
  \<open>Ipp\<close> the printer thread with the parser of the printer's answer, \<open>Print_Main\<close> the start-up and the \<^verbatim>\<open>print\<close>
  command from its arguments on (\<open>Getopt\<close> is \<^verbatim>\<open>getopt\<close> as POSIX has it), \<open>Config\<close> the configuration file. \<open>Printer_Codec\<close>, \<open>Printer_Queue\<close>, \<open>Printer_Run\<close> (the threads as an
  inductive step relation with its invariants; a client thread runs in steps, between which others run:
  header and number, files, answer, \<^verbatim>\<open>add_job\<close>), \<open>Printer_Restart\<close>, \<open>Printer_Submit\<close>, \<open>Ipp_Spec\<close> and \<open>Printer_Spec\<close> prove
  the order of the queue and the durability of jobs (as long as the numbers do not wrap and none is
  reused), restart, the connection from the command to the daemon and the
  parser, and exhibit the defects found. Loops over the printer's answer are partial functions, so that
  an endless loop is the value \<open>None\<close>; the property about the parser says when they return.

  \<^bold>\<open>The thread pool\<close> (\<^verbatim>\<open>thrd_pool.c\<close>, \<^verbatim>\<open>spinlock.h\<close>). \<open>Thread_Pool\<close> and \<open>Thread_Pool_Spec\<close>: a step relation over the atomic
  operations of posting threads, workers and the terminating thread; mutual exclusion, the order of
  tasks, a lost wake-up, and creation with its roll-back. Memory is sequentially consistent.

  \<^bold>\<open>The C++ thread pool\<close> (\<^verbatim>\<open>thread_pool.h\<close>, \<^verbatim>\<open>thread_pool.cpp\<close>). \<open>Cxx_Pool\<close> has \<^verbatim>\<open>SubmitTask\<close>, \<^verbatim>\<open>Shutdown\<close> and the workers as steps on
  shared state, spurious wake-ups apart; \<open>Mutex\<close> the lemmas on critical sections that the queues
  below share; \<open>Cxx_Pool_Spec\<close> the order of tasks,
  what a shutdown that returns has done, that it may not return, and that a task can be lost. Its
  executable scheduler \<open>pool_move\<close>, proved sound for the step relation, gives the concrete runs.

  \<^bold>\<open>Shared tables\<close> (\<^verbatim>\<open>apue/threads\<close>). \<open>Job_Queue\<close> (\<^verbatim>\<open>rwlock.c\<close>) and \<open>Ref_Table\<close> (\<^verbatim>\<open>mutex2.c\<close>, \<^verbatim>\<open>mutex3.c\<close>): a queue with removal
  from any place; a hash table of reference-counted objects, with 32-bit counts, the window inside \<^verbatim>\<open>foo_rele\<close> and the freeing of objects. \<open>Par_Sort\<close>
  (\<^verbatim>\<open>barrier.c\<close>): threads that sort ranges of an array, the barrier as a counter of arrivals, and the merge, as a step relation; a
  range has arbitrary contents while it is being sorted. \<open>Msg_Queue\<close>
  (\<^verbatim>\<open>condvar.c\<close>): a message queue with a condition variable as a step relation. \<open>Thread_Env\<close> (\<^verbatim>\<open>threadctl/getenv1.c\<close> to
  \<^verbatim>\<open>getenv3.c\<close>, \<^verbatim>\<open>timeout.c\<close>, \<^verbatim>\<open>maketimeout.c\<close>): three versions of one function, and timeouts.

  \<^bold>\<open>The open server\<close> (\<^verbatim>\<open>apue/ipc2/opend\<close>, \<^verbatim>\<open>ipc2/open/open.c\<close>, \<^verbatim>\<open>lib/sendfd.c\<close>, \<^verbatim>\<open>lib/senderr.c\<close>, \<^verbatim>\<open>lib/recvfd.c\<close>).
  \<open>Open_Server\<close> has the table of clients, the requests, the protocol that passes a descriptor or an
  error, and a turn of the server's loop with \<^verbatim>\<open>select\<close> and with \<^verbatim>\<open>poll\<close>; \<open>Open_Server_Spec\<close> shows that the first
  loop keeps the map from connections to users, that a request makes the whole round when one \<^verbatim>\<open>read\<close> gets all of it and is refused otherwise, and
  that the second loop confuses users. \<open>Open_Client\<close> has the options of the server and the program of the client, and shows
  that it prints what the server can open.

  \<^bold>\<open>The DNS client\<close> (\<^verbatim>\<open>src/LinuxLesson/2.3.1-coroutine-main/async_dns_client_noblock.c\<close>). \<open>Dns\<close> has the
  construction of a request and the parser of an answer on the bytes of their buffers; \<open>Dns_Spec\<close> shows
  that both agree with the wire format, that the request stays inside its memory, and that the parser
  does not end on a name that points to itself. The parser is a partial function. \<open>Dns_Async\<close> has the queries and
  the thread that waits for their answers, with the sockets and memory in use; \<open>Dns_Async_Spec\<close> shows that it
  refines a table of pending queries: every answer that comes is delivered once.

  \<^bold>\<open>The echo server\<close> (\<^verbatim>\<open>server_mulport_epoll.c\<close> in the same directory). \<open>Work_Queue\<close> has the list macros and the workers,
  additions and shutdown of its work queue as a step relation, the macros in several steps; \<open>Work_Queue_Spec\<close> shows that jobs form a stack and
  that no wake-up is lost, and that the shutdown leaves the mutex locked. \<open>Echo_Server\<close> has receiving and sending
  with \<^verbatim>\<open>poll\<close>, the job of a client and the turns of \<^verbatim>\<open>main\<close>; \<open>Echo_Server_Spec\<close> shows what a job answers and how one client
  stops the server. The loops are partial functions, since \<^verbatim>\<open>nRecv\<close> need not return.

  \<^bold>\<open>Library functions of the book.\<close> \<open>Mem_Stream\<close> and \<open>Mem_Stream_Spec\<close> (\<^verbatim>\<open>exercises/fmemopen.c\<close>): memory streams refine an
  abstract stream. \<open>Popen\<close> (\<^verbatim>\<open>lib/popen.c\<close>): streams and their processes stay matched, failing calls included, and what a command inherits.
  \<open>Tty_Modes\<close> (\<^verbatim>\<open>lib/ttymodes.c\<close>): switching and restoring a terminal, with flags as words. \<open>File_Walk\<close> (\<^verbatim>\<open>filedir/ftw8.c\<close>,
  \<^verbatim>\<open>lib/pathalloc.c\<close>): the walk through a file hierarchy visits every file once, and an unreadable directory
  twice, inside its path buffer; its
  recursion carries fuel, and the height of the hierarchy is enough.

  \<^bold>\<open>Reference-counted pointers\<close> (\<^verbatim>\<open>src/CodeIt/common/smart_ptr.h\<close>, \<^verbatim>\<open>finally.h\<close>). \<open>Smart_Ptr\<close> has the members of the class template on a
  store of objects and 64-bit counters; \<open>Smart_Ptr_Spec\<close> shows that programs over them refine a map from
  variables to objects. Its invariant counts the multiset of all pointers, temporaries included.

  \<^bold>\<open>Mutually exclusive functions\<close> (\<^verbatim>\<open>src/QtProject/MutuallyExclusiveFunction\<close>). \<open>Fn_Exclusion\<close> has the handle, its timers as data
  and the functions of the test program; \<open>Fn_Exclusion_Spec\<close> shows that no exclusive functions are open
  together when no timer waits, if the timers of one call fire before those of the next, and what mixed
  timers and a late registration do.

  \<^bold>\<open>Semaphores\<close> (\<^verbatim>\<open>lib/semaph.c\<close>). \<open>Semaph\<close> and \<open>Semaph_Spec\<close>: the library over System V semaphore sets.

  \<^bold>\<open>Simplifications.\<close> Where C leaves the result of a call undefined the model has an error value, with these exceptions:
  \<^verbatim>\<open>_db_dodelete\<close> formats a record into the buffer it reads (the intended result is taken), and swapping an empty smart
  pointer copies a counter that was never set (the pointer without a counter is taken). A cast between
  smart pointers keeps the address. In \<^verbatim>\<open>rbtree.c\<close> the address of a deleted node is not allocated again; in the C++
  tree it may be. \<^verbatim>\<open>heapsort\<close> and \<^verbatim>\<open>strdup\<close> succeed.

  \<^bold>\<open>Not modelled.\<close> The demonstration programs of the book (one \<^verbatim>\<open>main\<close> each that prints what a system call
  does), process set-up (\<^verbatim>\<open>ptyfork.c\<close>, \<^verbatim>\<open>daemonize.c\<close>), logging, the other C++ exercises and Qt
  programs, book notes, and the vendored libraries (gtest, gmock, Catch2, easylogging++, nvwa,
  expected). Of the modelled programs, logging and printing are left out. The manifest lists each with its reason.
\<close>

end
